(* ===== verification/Prelude.thy ===== *)
theory Prelude
  imports Main "HOL-Library.Monad_Syntax"
begin

text \<open>
  Shared vocabulary of the development. A C program that works on pointers is modelled
  over a partial heap: a finite or infinite map from addresses to the objects stored there.
  Address 0 is the null pointer. An operation of type \<open>'a option\<close> yields \<open>None\<close> exactly
  where the C code would dereference a pointer that is not the address of a live object,
  or would stop in a failed assertion, so a theorem that an operation returns \<open>Some\<close> is a
  memory-safety theorem.
\<close>

type_synonym addr = nat

abbreviation (input) NULL :: addr where
  "NULL \<equiv> 0"

type_synonym 'n heap = "addr \<Rightarrow> 'n option"

named_theorems heap_simps "reading and writing one object of a heap"

definition peek :: "'n heap \<Rightarrow> addr \<Rightarrow> ('n \<Rightarrow> 'v) \<Rightarrow> 'v option" where
  "peek h p f = map_option f (h p)"

definition poke :: "'n heap \<Rightarrow> addr \<Rightarrow> ('n \<Rightarrow> 'n) \<Rightarrow> 'n heap option" where
  "poke h p g = (case h p of None \<Rightarrow> None | Some n \<Rightarrow> Some (h(p \<mapsto> g n)))"

lemma peek_Some [simp, heap_simps]: "h p = Some n \<Longrightarrow> peek h p f = Some (f n)"
  by (simp add: peek_def)

lemma peek_None [simp, heap_simps]: "h p = None \<Longrightarrow> peek h p f = None"
  by (simp add: peek_def)

lemma poke_Some [simp, heap_simps]: "h p = Some n \<Longrightarrow> poke h p g = Some (h(p \<mapsto> g n))"
  by (simp add: poke_def)

lemma poke_None [simp, heap_simps]: "h p = None \<Longrightarrow> poke h p g = None"
  by (simp add: poke_def)

text \<open>Two heaps that agree on a set of addresses.\<close>

definition agree :: "addr set \<Rightarrow> 'n heap \<Rightarrow> 'n heap \<Rightarrow> bool" where
  "agree A h h' \<longleftrightarrow> (\<forall>a\<in>A. h a = h' a)"

lemma agree_refl [simp]: "agree A h h"
  by (simp add: agree_def)

lemma agreeD: "agree A h h' \<Longrightarrow> a \<in> A \<Longrightarrow> h a = h' a"
  by (simp add: agree_def)

lemma agree_upd [simp]: "a \<notin> A \<Longrightarrow> agree A (h(a := v)) h' = agree A h h'"
  by (auto simp: agree_def)

lemma agree_mono: "agree B h h' \<Longrightarrow> A \<subseteq> B \<Longrightarrow> agree A h h'"
  by (auto simp: agree_def)

text \<open>Option results of a sequence of steps.\<close>

text \<open>As congruence rule: evaluate the first step before looking at the rest.\<close>

lemma bind_weak_cong: "m = m' \<Longrightarrow> Option.bind m f = Option.bind m' f"
  by simp

lemma bind_SomeE:
  assumes "Option.bind m f = Some y"
  obtains x where "m = Some x" and "f x = Some y"
  using assms by (cases m) auto

text \<open>
  One computation follows another: when the first yields a result, the second yields a related one. The
  rules follow the structure of the two computations, which is mostly the same.
\<close>

named_theorems sim_intros "rules for computations that follow each other"

definition opt_sim :: "('a \<Rightarrow> 'b \<Rightarrow> bool) \<Rightarrow> 'a option \<Rightarrow> 'b option \<Rightarrow> bool" where
  "opt_sim Q x y \<longleftrightarrow> (\<forall>r. x = Some r \<longrightarrow> (\<exists>r'. y = Some r' \<and> Q r r'))"

lemma opt_simI: "(\<And>r. x = Some r \<Longrightarrow> \<exists>r'. y = Some r' \<and> Q r r') \<Longrightarrow> opt_sim Q x y"
  by (simp add: opt_sim_def)

lemma opt_simD: "opt_sim Q x y \<Longrightarrow> x = Some r \<Longrightarrow> \<exists>r'. y = Some r' \<and> Q r r'"
  by (simp add: opt_sim_def)

lemma opt_sim_refl: "(\<And>r. Q r r) \<Longrightarrow> opt_sim Q x x"
  by (simp add: opt_sim_def)

lemma opt_sim_eqD: "opt_sim (=) x y \<Longrightarrow> x = Some r \<Longrightarrow> y = Some r"
  by (auto simp: opt_sim_def)

lemma opt_sim_None [sim_intros]: "opt_sim Q None y"
  by (simp add: opt_sim_def)

lemma opt_sim_Some [sim_intros]: "Q a b \<Longrightarrow> opt_sim Q (Some a) (Some b)"
  by (simp add: opt_sim_def)

lemma opt_sim_Some_iff [simp]: "opt_sim Q (Some a) (Some b) \<longleftrightarrow> Q a b"
  by (simp add: opt_sim_def)

lemma opt_sim_if [sim_intros]:
  "(c \<Longrightarrow> opt_sim Q x y) \<Longrightarrow> (\<not> c \<Longrightarrow> opt_sim Q x' y') \<Longrightarrow> opt_sim Q (if c then x else x') (if c then y else y')"
  by simp

lemma opt_sim_bind:
  "opt_sim P x y \<Longrightarrow> (\<And>r r'. P r r' \<Longrightarrow> opt_sim Q (f r) (g r')) \<Longrightarrow> opt_sim Q (Option.bind x f) (Option.bind y g)"
  by (cases x) (auto simp: opt_sim_def)

lemma opt_sim_bind_eq [sim_intros]:
  "opt_sim (=) x y \<Longrightarrow> (\<And>r. opt_sim Q (f r) (g r)) \<Longrightarrow> opt_sim Q (Option.bind x f) (Option.bind y g)"
  by (erule opt_sim_bind) simp

text \<open>Arithmetic on an \<open>int\<close> of 32 bits, where a result out of range is undefined.\<close>

definition checked :: "int \<Rightarrow> int option" where
  "checked i = (if - (2 ^ 31) \<le> i \<and> i < 2 ^ 31 then Some i else None)"

lemma checked_ok [simp]: "- (2 ^ 31) \<le> i \<Longrightarrow> i < 2 ^ 31 \<Longrightarrow> checked i = Some i"
  by (simp add: checked_def)

end
