(* ===== verification/RBTree.thy ===== *)
theory RBTree
  imports Prelude
begin

text \<open>
  The red-black tree of \<open>rbtree-lab/src/rbtree.c\<close>: nodes with parent pointers on a heap and
  one sentinel node \<open>nil\<close>. This theory has the data model and the operations, line by line;
  the invariants and theorems are in \<open>RBZip\<close>, \<open>RBInsert\<close> and \<open>RBErase\<close>.
  \<open>malloc\<close> and \<open>calloc\<close> are not modelled as an allocator: the address they return is an
  argument of the operation that allocates. Keys are only compared, so the C \<open>int\<close> is \<open>int\<close>.
\<close>

datatype color_t = RBTREE_RED | RBTREE_BLACK

record node_t =
  color :: color_t
  key :: int
  parent :: addr
  left :: addr
  right :: addr

text \<open>The struct \<open>rbtree\<close>, with the heap its nodes live in.\<close>

record rbtree =
  root :: addr
  nil :: addr
  mem :: "node_t heap"

abbreviation set_color :: "color_t \<Rightarrow> node_t \<Rightarrow> node_t" where
  "set_color c \<equiv> color_update (\<lambda>_. c)"

abbreviation set_parent :: "addr \<Rightarrow> node_t \<Rightarrow> node_t" where
  "set_parent p \<equiv> parent_update (\<lambda>_. p)"

abbreviation set_left :: "addr \<Rightarrow> node_t \<Rightarrow> node_t" where
  "set_left p \<equiv> left_update (\<lambda>_. p)"

abbreviation set_right :: "addr \<Rightarrow> node_t \<Rightarrow> node_t" where
  "set_right p \<equiv> right_update (\<lambda>_. p)"

text \<open>\<open>p->f\<close> and \<open>p->f = v\<close>.\<close>

definition rd :: "rbtree \<Rightarrow> addr \<Rightarrow> (node_t \<Rightarrow> 'v) \<Rightarrow> 'v option" where
  "rd t p f = peek (mem t) p f"

definition wr :: "rbtree \<Rightarrow> addr \<Rightarrow> (node_t \<Rightarrow> node_t) \<Rightarrow> rbtree option" where
  "wr t p g = do { h \<leftarrow> poke (mem t) p g; Some (t\<lparr>mem := h\<rparr>) }"

lemma rd_Some [simp, heap_simps]: "mem t p = Some n \<Longrightarrow> rd t p f = Some (f n)"
  by (simp add: rd_def)

lemma rd_None [simp, heap_simps]: "mem t p = None \<Longrightarrow> rd t p f = None"
  by (simp add: rd_def)

lemma wr_Some [simp, heap_simps]:
  "mem t p = Some n \<Longrightarrow> wr t p g = Some (t\<lparr>mem := (mem t)(p \<mapsto> g n)\<rparr>)"
  by (simp add: wr_def)

lemma wr_None [simp, heap_simps]: "mem t p = None \<Longrightarrow> wr t p g = None"
  by (simp add: wr_def)

subsection \<open>Creation and destruction\<close>

text \<open>
  \<open>nl\<close> is the address the second \<open>calloc\<close> returns; a failed allocation (\<open>NULL\<close>) is
  dereferenced by the code. \<open>sentinel\<close> says whether the preprocessor symbol \<open>SENTINEL\<close>
  is defined.
\<close>

definition new_rbtree :: "bool \<Rightarrow> addr \<Rightarrow> node_t heap \<Rightarrow> rbtree option" where
  "new_rbtree sentinel nl h =
     (if nl = NULL then None
      else Some \<lparr>root = (if sentinel then nl else NULL), nil = nl,
        mem = h(nl \<mapsto> \<lparr>color = RBTREE_BLACK, key = 0, parent = nl, left = nl, right = nl\<rparr>)\<rparr>)"

definition free_node :: "rbtree \<Rightarrow> addr \<Rightarrow> rbtree option" where
  "free_node t p = (case mem t p of None \<Rightarrow> None
     | Some _ \<Rightarrow> Some (t\<lparr>mem := (mem t)(p := None)\<rparr>))"

partial_function (option) delete_rbtree_rec :: "rbtree \<Rightarrow> addr \<Rightarrow> addr \<Rightarrow> rbtree option" where
  "delete_rbtree_rec t rt nl =
     (if rt = nl \<or> rt = NULL then Some t
      else do {
        l \<leftarrow> rd t rt left;
        t \<leftarrow> delete_rbtree_rec t l nl;
        r \<leftarrow> rd t rt right;
        t \<leftarrow> delete_rbtree_rec t r nl;
        free_node t rt
      })"

text \<open>
  The pointer \<open>t\<close> may be null; otherwise it points to the struct \<open>(root, nil)\<close>. The result is
  the heap of nodes that is left.
\<close>

definition delete_rbtree :: "node_t heap \<Rightarrow> (addr \<times> addr) option \<Rightarrow> node_t heap option" where
  "delete_rbtree h tp = (case tp of None \<Rightarrow> Some h
     | Some (rt, nl) \<Rightarrow> do {
         t \<leftarrow> delete_rbtree_rec \<lparr>root = rt, nil = nl, mem = h\<rparr> rt nl;
         t \<leftarrow> free_node t nl;
         Some (mem t)
       })"

definition newNode :: "rbtree \<Rightarrow> addr \<Rightarrow> int \<Rightarrow> rbtree option" where
  "newNode t z k =
     (if z = NULL then None
      else Some (t\<lparr>mem := (mem t)(z \<mapsto>
        \<lparr>color = RBTREE_RED, key = k, parent = nil t, left = nil t, right = nil t\<rparr>)\<rparr>))"

subsection \<open>Rotations\<close>

definition left_rotate :: "rbtree \<Rightarrow> addr \<Rightarrow> rbtree option" where
  "left_rotate t x =
     (if x = NULL then Some t
      else do {
        x_right \<leftarrow> rd t x right;
        if x_right = nil t then Some t
        else do {
          b \<leftarrow> rd t x_right left;
          t \<leftarrow> wr t x (set_right b);
          b \<leftarrow> rd t x_right left;
          t \<leftarrow> (if b \<noteq> nil t then wr t b (set_parent x) else Some t);
          p \<leftarrow> rd t x parent;
          t \<leftarrow> wr t x_right (set_parent p);
          q \<leftarrow> rd t x_right parent;
          t \<leftarrow> (if q = nil t then Some (t\<lparr>root := x_right\<rparr>)
            else do {
              p \<leftarrow> rd t x parent;
              pl \<leftarrow> rd t p left;
              if pl = x then wr t p (set_left x_right) else wr t p (set_right x_right)
            });
          t \<leftarrow> wr t x_right (set_left x);
          wr t x (set_parent x_right)
        }
      })"

definition right_rotate :: "rbtree \<Rightarrow> addr \<Rightarrow> rbtree option" where
  "right_rotate t y =
     (if y = NULL then Some t
      else do {
        y_left \<leftarrow> rd t y left;
        if y_left = nil t then Some t
        else do {
          b \<leftarrow> rd t y_left right;
          t \<leftarrow> wr t y (set_left b);
          b \<leftarrow> rd t y_left right;
          t \<leftarrow> (if b \<noteq> nil t then wr t b (set_parent y) else Some t);
          p \<leftarrow> rd t y parent;
          t \<leftarrow> wr t y_left (set_parent p);
          q \<leftarrow> rd t y_left parent;
          t \<leftarrow> (if q = nil t then Some (t\<lparr>root := y_left\<rparr>)
            else do {
              p \<leftarrow> rd t y parent;
              pr \<leftarrow> rd t p right;
              if pr = y then wr t p (set_right y_left) else wr t p (set_left y_left)
            });
          t \<leftarrow> wr t y_left (set_right y);
          wr t y (set_parent y_left)
        }
      })"

subsection \<open>Insertion\<close>

text \<open>One round of the \<open>while\<close> loop of \<open>rbtree_fixup\<close>: the new tree and the new \<open>z\<close>.\<close>

definition rbtree_fixup_body :: "rbtree \<Rightarrow> addr \<Rightarrow> (rbtree \<times> addr) option" where
  "rbtree_fixup_body t z = do {
     zp \<leftarrow> rd t z parent;
     zpp \<leftarrow> rd t zp parent;
     zppl \<leftarrow> rd t zpp left;
     if zp = zppl then do {
       z_uncle \<leftarrow> rd t zpp right;
       uc \<leftarrow> rd t z_uncle color;
       if uc = RBTREE_RED then do {
         t \<leftarrow> wr t zp (set_color RBTREE_BLACK);
         t \<leftarrow> wr t z_uncle (set_color RBTREE_BLACK);
         t \<leftarrow> wr t zpp (set_color RBTREE_RED);
         Some (t, zpp)
       } else do {
         zpr \<leftarrow> rd t zp right;
         (t, z) \<leftarrow> (if z = zpr then do { t \<leftarrow> left_rotate t zp; Some (t, zp) } else Some (t, z));
         zp \<leftarrow> rd t z parent;
         t \<leftarrow> wr t zp (set_color RBTREE_BLACK);
         zpp \<leftarrow> rd t zp parent;
         t \<leftarrow> wr t zpp (set_color RBTREE_RED);
         t \<leftarrow> right_rotate t zpp;
         Some (t, z)
       }
     } else do {
       z_uncle \<leftarrow> rd t zpp left;
       uc \<leftarrow> rd t z_uncle color;
       if uc = RBTREE_RED then do {
         t \<leftarrow> wr t zp (set_color RBTREE_BLACK);
         t \<leftarrow> wr t z_uncle (set_color RBTREE_BLACK);
         t \<leftarrow> wr t zpp (set_color RBTREE_RED);
         Some (t, zpp)
       } else do {
         zpl \<leftarrow> rd t zp left;
         (t, z) \<leftarrow> (if z = zpl then do { t \<leftarrow> right_rotate t zp; Some (t, zp) } else Some (t, z));
         zp \<leftarrow> rd t z parent;
         t \<leftarrow> wr t zp (set_color RBTREE_BLACK);
         zpp \<leftarrow> rd t zp parent;
         t \<leftarrow> wr t zpp (set_color RBTREE_RED);
         t \<leftarrow> left_rotate t zpp;
         Some (t, z)
       }
     }
   }"

partial_function (option) rbtree_fixup :: "rbtree \<Rightarrow> addr \<Rightarrow> rbtree option" where
  "rbtree_fixup t z = do {
     zp \<leftarrow> rd t z parent;
     c \<leftarrow> rd t zp color;
     if c = RBTREE_RED then do {
       (t', z') \<leftarrow> rbtree_fixup_body t z;
       rbtree_fixup t' z'
     } else wr t (root t) (set_color RBTREE_BLACK)
   }"

text \<open>The descent of \<open>rbtree_insert\<close>: the last \<open>y\<close> when \<open>x\<close> reaches the sentinel.\<close>

partial_function (option) rbtree_insert_loop ::
    "rbtree \<Rightarrow> addr \<Rightarrow> addr \<Rightarrow> addr \<Rightarrow> addr option" where
  "rbtree_insert_loop t z x y =
     (if x = nil t then Some y
      else do {
        zk \<leftarrow> rd t z key;
        xk \<leftarrow> rd t x key;
        x' \<leftarrow> (if zk < xk then rd t x left else rd t x right);
        rbtree_insert_loop t z x' x
      })"

definition rbtree_insert :: "rbtree \<Rightarrow> addr \<Rightarrow> int \<Rightarrow> (rbtree \<times> addr) option" where
  "rbtree_insert t z k = do {
     let x = root t;
     t \<leftarrow> newNode t z k;
     y \<leftarrow> rbtree_insert_loop t z x (nil t);
     t \<leftarrow> wr t z (set_parent y);
     t \<leftarrow> (if y = nil t then Some (t\<lparr>root := z\<rparr>)
       else do {
         zk \<leftarrow> rd t z key;
         yk \<leftarrow> rd t y key;
         if zk < yk then wr t y (set_left z) else wr t y (set_right z)
       });
     t \<leftarrow> rbtree_fixup t z;
     Some (t, z)
   }"

subsection \<open>Queries\<close>

definition not_found :: "bool \<Rightarrow> rbtree \<Rightarrow> addr" where
  "not_found sentinel t = (if sentinel then nil t else NULL)"

partial_function (option) rbtree_find_loop :: "rbtree \<Rightarrow> int \<Rightarrow> addr \<Rightarrow> addr option" where
  "rbtree_find_loop t k node =
     (if node = nil t then Some node
      else do {
        nk \<leftarrow> rd t node key;
        if nk = k then Some node
        else do {
          next \<leftarrow> (if nk > k then rd t node left else rd t node right);
          rbtree_find_loop t k next
        }
      })"

text \<open>
  With the sentinel, the null test of \<open>rbtree_find\<close> (and that of \<open>rbtree_min\<close> and
  \<open>rbtree_max\<close> in both modes) returns \<open>t->nil\<close> of the null pointer: \<open>None\<close>.
\<close>

definition rbtree_find :: "bool \<Rightarrow> rbtree option \<Rightarrow> int \<Rightarrow> addr option" where
  "rbtree_find sentinel tp k = (case tp of
       None \<Rightarrow> (if sentinel then None else Some NULL)
     | Some t \<Rightarrow>
         (if root t = nil t then Some (not_found sentinel t)
          else do {
            node \<leftarrow> rbtree_find_loop t k (root t);
            Some (if node = nil t then not_found sentinel t else node)
          }))"

partial_function (option) tree_minimum :: "rbtree \<Rightarrow> addr \<Rightarrow> addr option" where
  "tree_minimum t x = do {
     l \<leftarrow> rd t x left;
     if l \<noteq> nil t then tree_minimum t l else Some x
   }"

partial_function (option) tree_maximum :: "rbtree \<Rightarrow> addr \<Rightarrow> addr option" where
  "tree_maximum t x = do {
     r \<leftarrow> rd t x right;
     if r \<noteq> nil t then tree_maximum t r else Some x
   }"

definition rbtree_min :: "rbtree option \<Rightarrow> addr option" where
  "rbtree_min tp = (case tp of None \<Rightarrow> None
     | Some t \<Rightarrow> (if root t = nil t then Some (nil t) else tree_minimum t (root t)))"

definition rbtree_max :: "rbtree option \<Rightarrow> addr option" where
  "rbtree_max tp = (case tp of None \<Rightarrow> None
     | Some t \<Rightarrow> (if root t = nil t then Some (nil t) else tree_maximum t (root t)))"

text \<open>
  \<open>arr\<close> is the part of the caller's array written so far, so its length is \<open>*index\<close>.
  The parameter \<open>n\<close>, the capacity of the array, is not read by the code.
\<close>

partial_function (option) inorder_traversal ::
    "rbtree \<Rightarrow> addr \<Rightarrow> int list \<Rightarrow> int list option" where
  "inorder_traversal t node arr =
     (if node = nil t then Some arr
      else do {
        l \<leftarrow> rd t node left;
        arr \<leftarrow> inorder_traversal t l arr;
        k \<leftarrow> rd t node key;
        r \<leftarrow> rd t node right;
        inorder_traversal t r (arr @ [k])
      })"

definition rbtree_to_array :: "rbtree \<Rightarrow> nat \<Rightarrow> (int list \<times> nat) option" where
  "rbtree_to_array t n = do {
     arr \<leftarrow> inorder_traversal t (root t) [];
     Some (arr, length arr)
   }"

subsection \<open>Deletion\<close>

definition rbtree_transplant :: "rbtree \<Rightarrow> addr \<Rightarrow> addr \<Rightarrow> rbtree option" where
  "rbtree_transplant t u v = do {
     up \<leftarrow> rd t u parent;
     t \<leftarrow> (if up = nil t then Some (t\<lparr>root := v\<rparr>)
       else do {
         upl \<leftarrow> rd t up left;
         if u = upl then wr t up (set_left v) else wr t up (set_right v)
       });
     up \<leftarrow> rd t u parent;
     wr t v (set_parent up)
   }"

text \<open>
  The second half of a round of \<open>rbtree_delete_fixup\<close>, where the sibling \<open>w\<close> is black, for \<open>x\<close> a
  left and a right child: the new tree and the new \<open>x\<close>.
\<close>

definition delete_fixup_left :: "rbtree \<Rightarrow> addr \<Rightarrow> addr \<Rightarrow> (rbtree \<times> addr) option" where
  "delete_fixup_left t x w = do {
     wl \<leftarrow> rd t w left;
     wlc \<leftarrow> rd t wl color;
     wr' \<leftarrow> rd t w right;
     wrc \<leftarrow> rd t wr' color;
     if wlc = RBTREE_BLACK \<and> wrc = RBTREE_BLACK then do {
       t \<leftarrow> wr t w (set_color RBTREE_RED);
       xp \<leftarrow> rd t x parent;
       Some (t, xp)
     } else do {
       (t, w) \<leftarrow> (if wrc = RBTREE_BLACK then do {
           t \<leftarrow> wr t wl (set_color RBTREE_BLACK);
           t \<leftarrow> wr t w (set_color RBTREE_RED);
           t \<leftarrow> right_rotate t w;
           xp \<leftarrow> rd t x parent;
           w' \<leftarrow> rd t xp right;
           Some (t, w')
         } else Some (t, w));
       xp \<leftarrow> rd t x parent;
       xpc \<leftarrow> rd t xp color;
       t \<leftarrow> wr t w (set_color xpc);
       t \<leftarrow> wr t xp (set_color RBTREE_BLACK);
       wr' \<leftarrow> rd t w right;
       t \<leftarrow> wr t wr' (set_color RBTREE_BLACK);
       t \<leftarrow> left_rotate t xp;
       Some (t, root t)
     }
   }"

definition delete_fixup_right :: "rbtree \<Rightarrow> addr \<Rightarrow> addr \<Rightarrow> (rbtree \<times> addr) option" where
  "delete_fixup_right t x w = do {
     wr' \<leftarrow> rd t w right;
     wrc \<leftarrow> rd t wr' color;
     wl \<leftarrow> rd t w left;
     wlc \<leftarrow> rd t wl color;
     if wrc = RBTREE_BLACK \<and> wlc = RBTREE_BLACK then do {
       t \<leftarrow> wr t w (set_color RBTREE_RED);
       xp \<leftarrow> rd t x parent;
       Some (t, xp)
     } else do {
       (t, w) \<leftarrow> (if wlc = RBTREE_BLACK then do {
           t \<leftarrow> wr t wr' (set_color RBTREE_BLACK);
           t \<leftarrow> wr t w (set_color RBTREE_RED);
           t \<leftarrow> left_rotate t w;
           xp \<leftarrow> rd t x parent;
           w' \<leftarrow> rd t xp left;
           Some (t, w')
         } else Some (t, w));
       xp \<leftarrow> rd t x parent;
       xpc \<leftarrow> rd t xp color;
       t \<leftarrow> wr t w (set_color xpc);
       t \<leftarrow> wr t xp (set_color RBTREE_BLACK);
       wl \<leftarrow> rd t w left;
       t \<leftarrow> wr t wl (set_color RBTREE_BLACK);
       t \<leftarrow> right_rotate t xp;
       Some (t, root t)
     }
   }"

text \<open>One round of the \<open>while\<close> loop of \<open>rbtree_delete_fixup\<close>.\<close>

definition rbtree_delete_fixup_body :: "rbtree \<Rightarrow> addr \<Rightarrow> (rbtree \<times> addr) option" where
  "rbtree_delete_fixup_body t x = do {
     xp \<leftarrow> rd t x parent;
     xpl \<leftarrow> rd t xp left;
     if x = xpl then do {
       w \<leftarrow> rd t xp right;
       wc \<leftarrow> rd t w color;
       (t, w) \<leftarrow> (if wc = RBTREE_RED then do {
           t \<leftarrow> wr t w (set_color RBTREE_BLACK);
           t \<leftarrow> wr t xp (set_color RBTREE_RED);
           t \<leftarrow> left_rotate t xp;
           wp \<leftarrow> rd t w parent;
           w' \<leftarrow> rd t wp right;
           Some (t, w')
         } else Some (t, w));
       delete_fixup_left t x w
     } else do {
       w \<leftarrow> rd t xp left;
       wc \<leftarrow> rd t w color;
       (t, w) \<leftarrow> (if wc = RBTREE_RED then do {
           t \<leftarrow> wr t w (set_color RBTREE_BLACK);
           t \<leftarrow> wr t xp (set_color RBTREE_RED);
           t \<leftarrow> right_rotate t xp;
           xp \<leftarrow> rd t x parent;
           w' \<leftarrow> rd t xp left;
           Some (t, w')
         } else Some (t, w));
       delete_fixup_right t x w
     }
   }"

partial_function (option) rbtree_delete_fixup :: "rbtree \<Rightarrow> addr \<Rightarrow> rbtree option" where
  "rbtree_delete_fixup t x = do {
     xc \<leftarrow> rd t x color;
     if x \<noteq> root t \<and> xc = RBTREE_BLACK then do {
       (t', x') \<leftarrow> rbtree_delete_fixup_body t x;
       rbtree_delete_fixup t' x'
     } else wr t x (set_color RBTREE_BLACK)
   }"

text \<open>
  The part of \<open>rbtree_erase\<close> before the fix-up: the tree without \<open>z\<close>, the node \<open>x\<close> that
  moved into the gap, and \<open>y_original_color\<close>.
\<close>

definition rbtree_erase_splice :: "rbtree \<Rightarrow> addr \<Rightarrow> (rbtree \<times> addr \<times> color_t) option" where
  "rbtree_erase_splice t z = do {
     y_original_color \<leftarrow> rd t z color;
     zl \<leftarrow> rd t z left;
     zr \<leftarrow> rd t z right;
     if zl = nil t then do {
       t \<leftarrow> rbtree_transplant t z zr;
       Some (t, zr, y_original_color)
     } else if zr = nil t then do {
       t \<leftarrow> rbtree_transplant t z zl;
       Some (t, zl, y_original_color)
     } else do {
       y \<leftarrow> tree_minimum t zr;
       y_original_color \<leftarrow> rd t y color;
       x \<leftarrow> rd t y right;
       t \<leftarrow> (if y \<noteq> zr then do {
           yr \<leftarrow> rd t y right;
           t \<leftarrow> rbtree_transplant t y yr;
           zr \<leftarrow> rd t z right;
           t \<leftarrow> wr t y (set_right zr);
           yr \<leftarrow> rd t y right;
           wr t yr (set_parent y)
         } else wr t x (set_parent y));
       t \<leftarrow> rbtree_transplant t z y;
       zl \<leftarrow> rd t z left;
       t \<leftarrow> wr t y (set_left zl);
       yl \<leftarrow> rd t y left;
       t \<leftarrow> wr t yl (set_parent y);
       zc \<leftarrow> rd t z color;
       t \<leftarrow> wr t y (set_color zc);
       Some (t, x, y_original_color)
     }
   }"

definition rbtree_erase :: "rbtree \<Rightarrow> addr \<Rightarrow> rbtree option" where
  "rbtree_erase t z = do {
     (t, x, y_original_color) \<leftarrow> rbtree_erase_splice t z;
     t \<leftarrow> (if y_original_color = RBTREE_BLACK then rbtree_delete_fixup t x else Some t);
     free_node t z
   }"

end
