(* ===== verification/RBZip.thy ===== *)
theory RBZip
  imports RBTree
begin

text \<open>
  The abstraction of the red-black tree heap: \<open>atree\<close> is a tree whose nodes carry their
  address, and \<open>rbz F t C T\<close> says that the heap of \<open>t\<close> holds the whole tree \<open>plug C T\<close>, seen
  from the subtree \<open>T\<close> with the path \<open>C\<close> to the root, and that every other address,
  the sentinel included, holds what the frame heap \<open>F\<close> holds. The loops of the code walk along
  this path, so each of their steps is one lemma about a zipper.
\<close>

datatype atree = ALeaf | ANode addr atree color_t int atree

datatype side = SideL | SideR

datatype frame = Fr addr side color_t int atree

type_synonym ctx = "frame list"

fun rootp :: "addr \<Rightarrow> atree \<Rightarrow> addr" where
  "rootp N ALeaf = N"
| "rootp N (ANode a l c k r) = a"

fun addrs :: "atree \<Rightarrow> addr list" where
  "addrs ALeaf = []"
| "addrs (ANode a l c k r) = addrs l @ a # addrs r"

fun caddrs :: "ctx \<Rightarrow> addr list" where
  "caddrs [] = []"
| "caddrs (Fr a d c k s # C) = a # addrs s @ caddrs C"

fun cpar :: "addr \<Rightarrow> ctx \<Rightarrow> addr" where
  "cpar N [] = N"
| "cpar N (Fr a d c k s # C) = a"

fun plug :: "ctx \<Rightarrow> atree \<Rightarrow> atree" where
  "plug [] T = T"
| "plug (Fr a SideL c k s # C) T = plug C (ANode a T c k s)"
| "plug (Fr a SideR c k s # C) T = plug C (ANode a s c k T)"

text \<open>The entries of a tree from left to right: addresses with their keys.\<close>

fun ents :: "atree \<Rightarrow> (addr \<times> int) list" where
  "ents ALeaf = []"
| "ents (ANode a l c k r) = ents l @ (a, k) # ents r"

fun lents :: "ctx \<Rightarrow> (addr \<times> int) list" where
  "lents [] = []"
| "lents (Fr a SideL c k s # C) = lents C"
| "lents (Fr a SideR c k s # C) = lents C @ ents s @ [(a, k)]"

fun rents :: "ctx \<Rightarrow> (addr \<times> int) list" where
  "rents [] = []"
| "rents (Fr a SideL c k s # C) = (a, k) # ents s @ rents C"
| "rents (Fr a SideR c k s # C) = rents C"

lemma ents_plug [simp]: "ents (plug C T) = lents C @ ents T @ rents C"
  by (induction C T rule: plug.induct) auto

lemma plug_append [simp]: "plug (C @ D) T = plug D (plug C T)"
  by (induction C T rule: plug.induct) auto

lemma lents_append [simp]: "lents (C @ D) = lents D @ lents C"
  by (induction C rule: lents.induct) auto

lemma rents_append [simp]: "rents (C @ D) = rents C @ rents D"
  by (induction C rule: rents.induct) auto

lemma caddrs_append [simp]: "caddrs (C @ D) = caddrs C @ caddrs D"
  by (induction C rule: caddrs.induct) auto

lemma fst_ents: "map fst (ents T) = addrs T"
  by (induction T) auto

subsection \<open>Trees and paths on the heap\<close>

fun tree_h :: "node_t heap \<Rightarrow> addr \<Rightarrow> addr \<Rightarrow> atree \<Rightarrow> bool" where
  "tree_h h N p ALeaf = True"
| "tree_h h N p (ANode a l c k r) =
     (h a = Some \<lparr>color = c, key = k, parent = p, left = rootp N l, right = rootp N r\<rparr>
      \<and> tree_h h N a l \<and> tree_h h N a r)"

definition frame_node :: "addr \<Rightarrow> addr \<Rightarrow> side \<Rightarrow> color_t \<Rightarrow> int \<Rightarrow> addr \<Rightarrow> addr \<Rightarrow> node_t" where
  "frame_node N p d c k x y = \<lparr>color = c, key = k, parent = p,
     left = (if d = SideL then x else y), right = (if d = SideL then y else x)\<rparr>"

fun ctx_h :: "node_t heap \<Rightarrow> addr \<Rightarrow> addr \<Rightarrow> ctx \<Rightarrow> addr \<Rightarrow> bool" where
  "ctx_h h N rt [] p = (rt = p)"
| "ctx_h h N rt (Fr a d c k s # C) p =
     (h a = Some (frame_node N (cpar N C) d c k p (rootp N s))
      \<and> tree_h h N a s \<and> ctx_h h N rt C a)"

lemma tree_h_agree: "agree (set (addrs T)) h h' \<Longrightarrow> tree_h h N p T = tree_h h' N p T"
  by (induction T arbitrary: p) (auto simp: agree_def)

lemma ctx_h_agree: "agree (set (caddrs C)) h h' \<Longrightarrow> ctx_h h N rt C p = ctx_h h' N rt C p"
proof (induction C arbitrary: p)
  case (Cons f C)
  obtain a d c k s where f: "f = Fr a d c k s" by (cases f)
  from Cons.prems f have "h a = h' a" "agree (set (addrs s)) h h'" "agree (set (caddrs C)) h h'"
    by (auto simp: agree_def)
  with Cons.IH f show ?case by (simp add: tree_h_agree [of s h h'])
qed simp

lemma tree_h_upd [simp]: "a \<notin> set (addrs T) \<Longrightarrow> tree_h (h(a := v)) N p T = tree_h h N p T"
  by (rule tree_h_agree) (auto simp: agree_def)

lemma ctx_h_upd [simp]: "a \<notin> set (caddrs C) \<Longrightarrow> ctx_h (h(a := v)) N rt C p = ctx_h h N rt C p"
  by (rule ctx_h_agree) (auto simp: agree_def)

lemma tree_h_dom: "tree_h h N p T \<Longrightarrow> a \<in> set (addrs T) \<Longrightarrow> h a \<noteq> None"
  by (induction T arbitrary: p) auto

lemma rootp_in: "rootp N T \<noteq> N \<Longrightarrow> rootp N T \<in> set (addrs T)"
  by (cases T) auto

lemma rootp_cases: "rootp N T = N \<or> rootp N T \<in> set (addrs T)"
  by (cases T) auto

lemma rootp_eq_nil: "N \<notin> set (addrs T) \<Longrightarrow> rootp N T = N \<longleftrightarrow> T = ALeaf"
  by (cases T) auto

lemma cpar_cases: "cpar N C = N \<or> cpar N C \<in> set (caddrs C)"
  by (cases C rule: caddrs.cases) auto

lemma cpar_eq_nil: "N \<notin> set (caddrs C) \<Longrightarrow> cpar N C = N \<longleftrightarrow> C = []"
  by (cases C rule: caddrs.cases) auto

text \<open>Changing the parent pointer of the root of a subtree.\<close>

lemma tree_h_parent:
  assumes "tree_h h N p T" "T \<noteq> ALeaf" "distinct (addrs T)"
  shows "tree_h (h(rootp N T \<mapsto> set_parent q (the (h (rootp N T))))) N q T"
  using assms by (cases T) auto

definition child_upd :: "side \<Rightarrow> addr \<Rightarrow> node_t \<Rightarrow> node_t" where
  "child_upd d x = (if d = SideL then set_left x else set_right x)"

text \<open>Changing the child pointer of the last node of a path (or the root pointer).\<close>

fun ctx_set :: "node_t heap \<Rightarrow> ctx \<Rightarrow> addr \<Rightarrow> node_t heap" where
  "ctx_set h [] x = h"
| "ctx_set h (Fr a d c k s # C) x = h(a \<mapsto> child_upd d x (the (h a)))"

lemma ctx_h_set:
  assumes "ctx_h h N rt C p" "distinct (caddrs C)"
  shows "ctx_h (ctx_set h C x) N (if C = [] then x else rt) C x"
  using assms
  by (cases C rule: caddrs.cases)
     (auto simp: frame_node_def child_upd_def)

subsection \<open>The heap invariant\<close>

definition rbz :: "node_t heap \<Rightarrow> rbtree \<Rightarrow> ctx \<Rightarrow> atree \<Rightarrow> bool" where
  "rbz F t C T \<longleftrightarrow>
     tree_h (mem t) (nil t) (cpar (nil t) C) T
   \<and> ctx_h (mem t) (nil t) (root t) C (rootp (nil t) T)
   \<and> distinct (addrs T @ caddrs C)
   \<and> nil t \<notin> set (addrs T @ caddrs C) \<and> nil t \<noteq> NULL \<and> NULL \<notin> set (addrs T @ caddrs C)
   \<and> (\<forall>a. a \<notin> set (addrs T @ caddrs C) \<longrightarrow> mem t a = F a)
   \<and> (\<exists>n. F (nil t) = Some n \<and> color n = RBTREE_BLACK)"

text \<open>The whole tree, seen from its root.\<close>

definition rb_heap :: "node_t heap \<Rightarrow> rbtree \<Rightarrow> atree \<Rightarrow> bool" where
  "rb_heap F t T = rbz F t [] T"

lemma rbz_down_left:
  "rbz F t C (ANode a l c k r) = rbz F t (Fr a SideL c k r # C) l"
  by (auto simp: rbz_def frame_node_def)

lemma rbz_down_right:
  "rbz F t C (ANode a l c k r) = rbz F t (Fr a SideR c k l # C) r"
  by (auto simp: rbz_def frame_node_def)

lemma rbz_plug: "rbz F t (C @ D) T = rbz F t D (plug C T)"
  by (induction C T rule: plug.induct) (simp_all flip: rbz_down_left rbz_down_right)

lemma rbz_to_root: "rbz F t C T = rbz F t [] (plug C T)"
  using rbz_plug [of F t C "[]" T] by simp

lemma rbz_nil:
  assumes "rbz F t C T"
  obtains n where "mem t (nil t) = Some n" "F (nil t) = Some n" "color n = RBTREE_BLACK"
  using assms unfolding rbz_def by metis

lemma rbz_node:
  "rbz F t C (ANode a l c k r) \<Longrightarrow>
   mem t a = Some \<lparr>color = c, key = k, parent = cpar (nil t) C,
     left = rootp (nil t) l, right = rootp (nil t) r\<rparr>"
  by (simp add: rbz_def)

lemma rbz_frame:
  "rbz F t (Fr a d c k s # C) T \<Longrightarrow>
   mem t a = Some (frame_node (nil t) (cpar (nil t) C) d c k (rootp (nil t) T) (rootp (nil t) s))"
  by (simp add: rbz_def)

text \<open>Recolouring one node.\<close>

fun recol :: "addr \<Rightarrow> color_t \<Rightarrow> atree \<Rightarrow> atree" where
  "recol a c ALeaf = ALeaf"
| "recol a c (ANode b l c' k r) =
     (if a = b then ANode b l c k r else ANode b (recol a c l) c' k (recol a c r))"

lemma rootp_recol [simp]: "rootp N (recol a c T) = rootp N T"
  by (cases T) auto

lemma recol_notin [simp]: "a \<notin> set (addrs T) \<Longrightarrow> recol a c T = T"
  by (induction T) auto

lemma addrs_recol [simp]: "addrs (recol a c T) = addrs T"
  by (induction T) auto

lemma ents_recol [simp]: "ents (recol a c T) = ents T"
  by (induction T) auto

lemma tree_h_recol:
  assumes "tree_h h N p T"
    and "\<And>b. b \<in> set (addrs T) \<Longrightarrow> b \<noteq> a \<Longrightarrow> h' b = h b"
    and "\<And>n. h a = Some n \<Longrightarrow> h' a = Some (set_color c n)"
    and "distinct (addrs T)"
  shows "tree_h h' N p (recol a c T)"
  using assms
proof (induction T arbitrary: p)
  case (ANode b l c' k r)
  have l: "tree_h h' N b (recol a c l)" by (rule ANode.IH(1)) (use ANode.prems in auto)
  have r: "tree_h h' N b (recol a c r)" by (rule ANode.IH(2)) (use ANode.prems in auto)
  from ANode.prems(1) have b: "h b = Some \<lparr>color = c', key = k, parent = p,
    left = rootp N l, right = rootp N r\<rparr>" by simp
  show ?case
  proof (cases "a = b")
    case True
    with ANode.prems(4) have "recol a c l = l" "recol a c r = r" by auto
    with True l r ANode.prems(3) [of "\<lparr>color = c', key = k, parent = p,
      left = rootp N l, right = rootp N r\<rparr>"] b show ?thesis by simp
  next
    case False
    with ANode.prems(2) [of b] b l r show ?thesis by simp
  qed
qed simp

lemma wr_color:
  assumes z: "rbz F t C T" and a: "a \<in> set (addrs T)"
  obtains t' where "wr t a (set_color c) = Some t'" "rbz F t' C (recol a c T)"
    "nil t' = nil t" "root t' = root t"
proof -
  from z a obtain n where n: "mem t a = Some n"
    unfolding rbz_def using tree_h_dom by blast
  let ?t = "t\<lparr>mem := (mem t)(a \<mapsto> set_color c n)\<rparr>"
  from a z have "a \<notin> set (caddrs C)" "distinct (addrs T)" by (auto simp: rbz_def)
  with z a n have "rbz F ?t C (recol a c T)"
    unfolding rbz_def
    using tree_h_recol [of "mem t" "nil t" "cpar (nil t) C" T a "mem ?t" c] by auto
  with n that show ?thesis by simp
qed

subsection \<open>Rotations\<close>

lemma wr_child:
  assumes z: "ctx_h (mem t) N (root t) C x" and N: "N \<notin> set (caddrs C)" "nil t = N"
    and x: "x \<noteq> N" "x \<notin> set (caddrs C)" and p: "cpar N C = p"
  shows "(if p = nil t then Some (t\<lparr>root := y\<rparr>)
          else do { pl \<leftarrow> rd t p left;
                    if pl = x then wr t p (set_left y) else wr t p (set_right y) })
         = Some (t\<lparr>root := (if C = [] then y else root t), mem := ctx_set (mem t) C y\<rparr>)"
    and "(if p = nil t then Some (t\<lparr>root := y\<rparr>)
          else do { pr \<leftarrow> rd t p right;
                    if pr = x then wr t p (set_right y) else wr t p (set_left y) })
         = Some (t\<lparr>root := (if C = [] then y else root t), mem := ctx_set (mem t) C y\<rparr>)"
proof -
  show "(if p = nil t then Some (t\<lparr>root := y\<rparr>)
          else do { pl \<leftarrow> rd t p left;
                    if pl = x then wr t p (set_left y) else wr t p (set_right y) })
         = Some (t\<lparr>root := (if C = [] then y else root t), mem := ctx_set (mem t) C y\<rparr>)"
  proof (cases C rule: caddrs.cases)
    case (2 a d c k s C')
    with x have "rootp N s \<noteq> x" using rootp_cases [of N s] by auto
    with 2 z N p show ?thesis by (cases d) (auto simp: frame_node_def child_upd_def)
  qed (use N p in auto)
  show "(if p = nil t then Some (t\<lparr>root := y\<rparr>)
          else do { pr \<leftarrow> rd t p right;
                    if pr = x then wr t p (set_right y) else wr t p (set_left y) })
         = Some (t\<lparr>root := (if C = [] then y else root t), mem := ctx_set (mem t) C y\<rparr>)"
  proof (cases C rule: caddrs.cases)
    case (2 a d c k s C')
    with x have "rootp N s \<noteq> x" using rootp_cases [of N s] by auto
    with 2 z N p show ?thesis by (cases d) (auto simp: frame_node_def child_upd_def)
  qed (use N p in auto)
qed

lemma ctx_set_other [simp]: "a \<notin> set (caddrs C) \<Longrightarrow> ctx_set h C x a = h a"
  by (cases C rule: caddrs.cases) auto

lemma ctx_set_head:
  "C \<noteq> [] \<Longrightarrow> ctx_set h C x = h(cpar N C \<mapsto> child_upd (case C of Fr a d c k s # _ \<Rightarrow> d) x (the (h (cpar N C))))"
  by (cases C rule: caddrs.cases) auto

text \<open>
  What a heap must hold for the pair of nodes at \<open>x\<close> and \<open>y\<close> to have been rotated: this
  is all the two rotation proofs need about the sequence of writes.
\<close>

lemma tree_h_moved:
  assumes "tree_h h N p T" "\<And>a. a \<in> set (addrs T) \<Longrightarrow> a \<noteq> rootp N T \<Longrightarrow> M a = h a"
    and "T \<noteq> ALeaf \<Longrightarrow> M (rootp N T) = Some (set_parent q (the (h (rootp N T))))"
    and "distinct (addrs T)"
  shows "tree_h M N q T"
proof (cases T)
  case (ANode a l c k r)
  with assms(4) have d: "a \<notin> set (addrs l)" "a \<notin> set (addrs r)" by auto
  from ANode assms(2) d have "agree (set (addrs l)) h M" "agree (set (addrs r)) h M"
    unfolding agree_def by (metis addrs.simps(2) in_set_conv_decomp in_set_conv_decomp_first
      rootp.simps(2) Un_iff list.set_intros(2) set_append)+
  with assms ANode show ?thesis
    by (auto simp: tree_h_agree [of l h M] tree_h_agree [of r h M])
qed simp

lemma left_rotate_zip:
  assumes z: "rbz F t C (ANode x A cx kx (ANode y B cy ky D))"
  obtains t' where "left_rotate t x = Some t'"
    "rbz F t' C (ANode y (ANode x A cx kx B) cy ky D)" "nil t' = nil t"
proof -
  let ?N = "nil t" and ?h = "mem t"
  let ?p = "cpar ?N C" and ?b = "rootp ?N B"
  define h1 where "h1 = ?h(x \<mapsto> \<lparr>color = cx, key = kx, parent = ?p, left = rootp ?N A, right = ?b\<rparr>)"
  define h2 where "h2 = (if B = ALeaf then h1 else h1(?b \<mapsto> set_parent x (the (?h ?b))))"
  define h3 where "h3 = h2(y \<mapsto> \<lparr>color = cy, key = ky, parent = ?p, left = ?b, right = rootp ?N D\<rparr>)"
  define h4 where "h4 = ctx_set h3 C y"
  define M where "M = h4(y \<mapsto> \<lparr>color = cy, key = ky, parent = ?p, left = x, right = rootp ?N D\<rparr>,
     x \<mapsto> \<lparr>color = cx, key = kx, parent = y, left = rootp ?N A, right = ?b\<rparr>)"
  let ?t' = "t\<lparr>root := (if C = [] then y else root t), mem := M\<rparr>"
  from z have H: "?h x = Some \<lparr>color = cx, key = kx, parent = ?p, left = rootp ?N A, right = y\<rparr>"
      "?h y = Some \<lparr>color = cy, key = ky, parent = x, left = ?b, right = rootp ?N D\<rparr>"
    and T: "tree_h ?h ?N x A" "tree_h ?h ?N y B" "tree_h ?h ?N y D"
      "ctx_h ?h ?N (root t) C x"
    by (auto simp: rbz_def)
  from z have D: "distinct (addrs A)" "distinct (addrs B)" "distinct (addrs D)" "distinct (caddrs C)"
      "x \<noteq> y" "x \<notin> set (addrs A) \<union> set (addrs B) \<union> set (addrs D) \<union> set (caddrs C)"
      "y \<notin> set (addrs A) \<union> set (addrs B) \<union> set (addrs D) \<union> set (caddrs C)"
      "set (addrs A) \<inter> set (addrs B) = {}" "set (addrs A) \<inter> set (addrs D) = {}"
      "set (addrs B) \<inter> set (addrs D) = {}"
      "(set (addrs A) \<union> set (addrs B) \<union> set (addrs D)) \<inter> set (caddrs C) = {}"
    and N: "?N \<notin> insert x (insert y (set (addrs A) \<union> set (addrs B) \<union> set (addrs D) \<union> set (caddrs C)))"
      "?N \<noteq> NULL" "x \<noteq> NULL" "x \<noteq> ?N" "y \<noteq> ?N"
    by (auto simp: rbz_def)
  have b: "?b = ?N \<longleftrightarrow> B = ALeaf" using N by (simp add: rootp_eq_nil)
  have bB: "B \<noteq> ALeaf \<Longrightarrow> ?b \<in> set (addrs B)" by (cases B) auto
  then have bne: "B \<noteq> ALeaf \<Longrightarrow> ?b \<noteq> x \<and> ?b \<noteq> y \<and> ?b \<notin> set (addrs A) \<and> ?b \<notin> set (addrs D) \<and> ?b \<notin> set (caddrs C)"
    using D by auto
  from T bB tree_h_dom have hb: "B \<noteq> ALeaf \<Longrightarrow> \<exists>n. ?h ?b = Some n" by blast
  have s12: "(if ?b \<noteq> ?N then wr (t\<lparr>mem := h1\<rparr>) ?b (set_parent x) else Some (t\<lparr>mem := h1\<rparr>)) = Some (t\<lparr>mem := h2\<rparr>)"
    using hb bne b by (auto simp: h1_def h2_def)
  have h2xy: "h2 x = h1 x" "h2 y = ?h y" using bne D by (auto simp: h2_def h1_def)
  have c3: "ctx_h h3 ?N (root t) C x"
  proof -
    have "agree (set (caddrs C)) ?h h3"
      using D bne by (auto simp: agree_def h3_def h2_def h1_def)
    with T show ?thesis using ctx_h_agree by blast
  qed
  have h3xy: "h3 x = h1 x" "h1 x = Some \<lparr>color = cx, key = kx, parent = ?p, left = rootp ?N A, right = ?b\<rparr>"
      "h4 x = h3 x" "h4 y = h3 y" using h2xy D by (auto simp: h3_def h4_def h1_def)
  have s34: "(if ?p = ?N then Some (t\<lparr>mem := h3, root := y\<rparr>)
      else do { p \<leftarrow> rd (t\<lparr>mem := h3\<rparr>) x parent; pl \<leftarrow> rd (t\<lparr>mem := h3\<rparr>) p left;
        if pl = x then wr (t\<lparr>mem := h3\<rparr>) p (set_left y) else wr (t\<lparr>mem := h3\<rparr>) p (set_right y) })
      = Some (t\<lparr>mem := h4, root := (if C = [] then y else root t)\<rparr>)"
    using wr_child(1) [of "t\<lparr>mem := h3\<rparr>" ?N C x ?p y] c3 N D h3xy by (simp add: h4_def cong: if_cong)
  have run: "left_rotate t x = Some ?t'"
    unfolding left_rotate_def
    using H N D h2xy h3xy
    by (simp add: s12 [unfolded h1_def] s34 [unfolded h3_def] M_def h1_def h3_def split del: if_split)
  have Mo: "\<And>a. a \<noteq> x \<Longrightarrow> a \<noteq> y \<Longrightarrow> a \<noteq> ?b \<Longrightarrow> a \<notin> set (caddrs C) \<Longrightarrow> M a = ?h a"
    by (auto simp: M_def h4_def h3_def h2_def h1_def)
  have Mb: "B \<noteq> ALeaf \<Longrightarrow> M ?b = Some (set_parent x (the (?h ?b)))"
    using bne by (auto simp: M_def h4_def h3_def h2_def)
  have bAD: "?b \<notin> set (addrs A)" "?b \<notin> set (addrs D)"
    using bne N by (cases B; auto)+
  have "agree (set (addrs A)) ?h M" "agree (set (addrs D)) ?h M"
    unfolding agree_def using D bAD by (auto intro!: Mo [symmetric])
  with T have "tree_h M ?N x A" "tree_h M ?N y D" using tree_h_agree by blast+
  moreover have "tree_h M ?N x B"
  proof (rule tree_h_moved [OF T(2)])
    show "M a = ?h a" if "a \<in> set (addrs B)" "a \<noteq> ?b" for a
      by (rule Mo) (use that D in auto)
  qed (use Mb D in auto)
  moreover have "ctx_h M ?N (if C = [] then y else root t) C y"
    using ctx_h_set [OF c3, of y] D by (simp add: M_def h4_def)
  moreover have "?N \<noteq> ?b \<or> M ?N = ?h ?N"
    using N by (cases B) (auto simp: M_def h4_def h3_def h2_def h1_def)
  moreover have "\<And>a. a \<notin> insert x (insert y (set (addrs A) \<union> set (addrs B) \<union> set (addrs D) \<union> set (caddrs C))) \<Longrightarrow> M a = ?h a"
    using bB N b by (cases "B = ALeaf") (auto simp: M_def h4_def h3_def h2_def h1_def)
  ultimately have "rbz F ?t' C (ANode y (ANode x A cx kx B) cy ky D)"
    using z D by (auto simp: rbz_def M_def)
  with run that show ?thesis by simp
qed

lemma right_rotate_zip:
  assumes z: "rbz F t C (ANode x (ANode y D cy ky B) cx kx A)"
  obtains t' where "right_rotate t x = Some t'"
    "rbz F t' C (ANode y D cy ky (ANode x B cx kx A))" "nil t' = nil t"
proof -
  let ?N = "nil t" and ?h = "mem t"
  let ?p = "cpar ?N C" and ?b = "rootp ?N B"
  define h1 where "h1 = ?h(x \<mapsto> \<lparr>color = cx, key = kx, parent = ?p, left = ?b, right = rootp ?N A\<rparr>)"
  define h2 where "h2 = (if B = ALeaf then h1 else h1(?b \<mapsto> set_parent x (the (?h ?b))))"
  define h3 where "h3 = h2(y \<mapsto> \<lparr>color = cy, key = ky, parent = ?p, left = rootp ?N D, right = ?b\<rparr>)"
  define h4 where "h4 = ctx_set h3 C y"
  define M where "M = h4(y \<mapsto> \<lparr>color = cy, key = ky, parent = ?p, left = rootp ?N D, right = x\<rparr>,
     x \<mapsto> \<lparr>color = cx, key = kx, parent = y, left = ?b, right = rootp ?N A\<rparr>)"
  let ?t' = "t\<lparr>root := (if C = [] then y else root t), mem := M\<rparr>"
  from z have H: "?h x = Some \<lparr>color = cx, key = kx, parent = ?p, left = y, right = rootp ?N A\<rparr>"
      "?h y = Some \<lparr>color = cy, key = ky, parent = x, left = rootp ?N D, right = ?b\<rparr>"
    and T: "tree_h ?h ?N x A" "tree_h ?h ?N y B" "tree_h ?h ?N y D"
      "ctx_h ?h ?N (root t) C x"
    by (auto simp: rbz_def)
  from z have D: "distinct (addrs A)" "distinct (addrs B)" "distinct (addrs D)" "distinct (caddrs C)"
      "x \<noteq> y" "x \<notin> set (addrs A) \<union> set (addrs B) \<union> set (addrs D) \<union> set (caddrs C)"
      "y \<notin> set (addrs A) \<union> set (addrs B) \<union> set (addrs D) \<union> set (caddrs C)"
      "set (addrs A) \<inter> set (addrs B) = {}" "set (addrs A) \<inter> set (addrs D) = {}"
      "set (addrs B) \<inter> set (addrs D) = {}"
      "(set (addrs A) \<union> set (addrs B) \<union> set (addrs D)) \<inter> set (caddrs C) = {}"
    and N: "?N \<notin> insert x (insert y (set (addrs A) \<union> set (addrs B) \<union> set (addrs D) \<union> set (caddrs C)))"
      "?N \<noteq> NULL" "x \<noteq> NULL" "x \<noteq> ?N" "y \<noteq> ?N"
    by (auto simp: rbz_def)
  have b: "?b = ?N \<longleftrightarrow> B = ALeaf" using N by (simp add: rootp_eq_nil)
  have bB: "B \<noteq> ALeaf \<Longrightarrow> ?b \<in> set (addrs B)" by (cases B) auto
  then have bne: "B \<noteq> ALeaf \<Longrightarrow> ?b \<noteq> x \<and> ?b \<noteq> y \<and> ?b \<notin> set (addrs A) \<and> ?b \<notin> set (addrs D) \<and> ?b \<notin> set (caddrs C)"
    using D by auto
  from T bB tree_h_dom have hb: "B \<noteq> ALeaf \<Longrightarrow> \<exists>n. ?h ?b = Some n" by blast
  have s12: "(if ?b \<noteq> ?N then wr (t\<lparr>mem := h1\<rparr>) ?b (set_parent x) else Some (t\<lparr>mem := h1\<rparr>)) = Some (t\<lparr>mem := h2\<rparr>)"
    using hb bne b by (auto simp: h1_def h2_def)
  have h2xy: "h2 x = h1 x" "h2 y = ?h y" using bne D by (auto simp: h2_def h1_def)
  have c3: "ctx_h h3 ?N (root t) C x"
  proof -
    have "agree (set (caddrs C)) ?h h3"
      using D bne by (auto simp: agree_def h3_def h2_def h1_def)
    with T show ?thesis using ctx_h_agree by blast
  qed
  have h3xy: "h3 x = h1 x" "h1 x = Some \<lparr>color = cx, key = kx, parent = ?p, left = ?b, right = rootp ?N A\<rparr>"
      "h4 x = h3 x" "h4 y = h3 y" using h2xy D by (auto simp: h3_def h4_def h1_def)
  have s34: "(if ?p = ?N then Some (t\<lparr>mem := h3, root := y\<rparr>)
      else do { p \<leftarrow> rd (t\<lparr>mem := h3\<rparr>) x parent; pr \<leftarrow> rd (t\<lparr>mem := h3\<rparr>) p right;
        if pr = x then wr (t\<lparr>mem := h3\<rparr>) p (set_right y) else wr (t\<lparr>mem := h3\<rparr>) p (set_left y) })
      = Some (t\<lparr>mem := h4, root := (if C = [] then y else root t)\<rparr>)"
    using wr_child(2) [of "t\<lparr>mem := h3\<rparr>" ?N C x ?p y] c3 N D h3xy by (simp add: h4_def cong: if_cong)
  have run: "right_rotate t x = Some ?t'"
    unfolding right_rotate_def
    using H N D h2xy h3xy
    by (simp add: s12 [unfolded h1_def] s34 [unfolded h3_def] M_def h1_def h3_def split del: if_split)
  have Mo: "\<And>a. a \<noteq> x \<Longrightarrow> a \<noteq> y \<Longrightarrow> a \<noteq> ?b \<Longrightarrow> a \<notin> set (caddrs C) \<Longrightarrow> M a = ?h a"
    by (auto simp: M_def h4_def h3_def h2_def h1_def)
  have Mb: "B \<noteq> ALeaf \<Longrightarrow> M ?b = Some (set_parent x (the (?h ?b)))"
    using bne by (auto simp: M_def h4_def h3_def h2_def)
  have bAD: "?b \<notin> set (addrs A)" "?b \<notin> set (addrs D)"
    using bne N by (cases B; auto)+
  have "agree (set (addrs A)) ?h M" "agree (set (addrs D)) ?h M"
    unfolding agree_def using D bAD by (auto intro!: Mo [symmetric])
  with T have "tree_h M ?N x A" "tree_h M ?N y D" using tree_h_agree by blast+
  moreover have "tree_h M ?N x B"
  proof (rule tree_h_moved [OF T(2)])
    show "M a = ?h a" if "a \<in> set (addrs B)" "a \<noteq> ?b" for a
      by (rule Mo) (use that D in auto)
  qed (use Mb D in auto)
  moreover have "ctx_h M ?N (if C = [] then y else root t) C y"
    using ctx_h_set [OF c3, of y] D by (simp add: M_def h4_def)
  moreover have "?N \<noteq> ?b \<or> M ?N = ?h ?N"
    using N by (cases B) (auto simp: M_def h4_def h3_def h2_def h1_def)
  moreover have "\<And>a. a \<notin> insert x (insert y (set (addrs A) \<union> set (addrs B) \<union> set (addrs D) \<union> set (caddrs C))) \<Longrightarrow> M a = ?h a"
    using bB N b by (cases "B = ALeaf") (auto simp: M_def h4_def h3_def h2_def h1_def)
  ultimately have "rbz F ?t' C (ANode y D cy ky (ANode x B cx kx A))"
    using z D by (auto simp: rbz_def M_def)
  with run that show ?thesis by simp
qed

end
