(* ===== verification/RBInsert.thy ===== *)
theory RBInsert
  imports RBZip
begin

text \<open>
  The red-black invariants on \<open>atree\<close> and on paths, and the proof that \<open>rbtree_insert\<close> keeps
  them, returns without a bad access, and adds exactly one entry at its sorted place.
\<close>

fun tcol :: "atree \<Rightarrow> color_t" where
  "tcol ALeaf = RBTREE_BLACK"
| "tcol (ANode a l c k r) = c"

fun bh :: "atree \<Rightarrow> nat" where
  "bh ALeaf = 0"
| "bh (ANode a l c k r) = bh l + (if c = RBTREE_BLACK then 1 else 0)"

fun rb_ok :: "atree \<Rightarrow> bool" where
  "rb_ok ALeaf = True"
| "rb_ok (ANode a l c k r) = (rb_ok l \<and> rb_ok r \<and> bh l = bh r
     \<and> (c = RBTREE_RED \<longrightarrow> tcol l = RBTREE_BLACK \<and> tcol r = RBTREE_BLACK))"

text \<open>A red-black tree: no red node has a red child, every path to a leaf crosses the same
  number of black nodes, the root is black.\<close>

definition rb_tree :: "atree \<Rightarrow> bool" where
  "rb_tree T \<longleftrightarrow> rb_ok T \<and> tcol T = RBTREE_BLACK"

definition key_sorted :: "atree \<Rightarrow> bool" where
  "key_sorted T \<longleftrightarrow> sorted (map snd (ents T))"

fun ctop :: "ctx \<Rightarrow> color_t" where
  "ctop [] = RBTREE_BLACK"
| "ctop (Fr a d c k s # C) = c"

text \<open>\<open>cok C n\<close>: the path is that of a red-black tree whose hole has black height \<open>n\<close>.\<close>

fun cok :: "ctx \<Rightarrow> nat \<Rightarrow> bool" where
  "cok [] n = True"
| "cok (Fr a d c k s # C) n =
     (rb_ok s \<and> bh s = n \<and> (c = RBTREE_RED \<longrightarrow> tcol s = RBTREE_BLACK \<and> ctop C = RBTREE_BLACK \<and> C \<noteq> [])
      \<and> cok C (n + (if c = RBTREE_BLACK then 1 else 0)))"

lemma not_red [simp]: "c \<noteq> RBTREE_RED \<longleftrightarrow> c = RBTREE_BLACK"
  by (cases c) simp_all

lemma not_black [simp]: "c \<noteq> RBTREE_BLACK \<longleftrightarrow> c = RBTREE_RED"
  by (cases c) simp_all

lemma rb_ok_plug:
  "rb_ok (plug C T) \<and> tcol (plug C T) = RBTREE_BLACK \<longleftrightarrow>
   cok C (bh T) \<and> rb_ok T \<and> (tcol T = RBTREE_RED \<longrightarrow> ctop C = RBTREE_BLACK \<and> C \<noteq> [])"
proof (induction C arbitrary: T)
  case Nil
  then show ?case by (cases "tcol T") auto
next
  case (Cons f C)
  obtain a d c k s where f: "f = Fr a d c k s" by (cases f)
  show ?case
  proof (cases d)
    case SideL
    show ?thesis unfolding f SideL plug.simps Cons.IH [of "ANode a T c k s"]
      by (cases c) auto
  next
    case SideR
    show ?thesis unfolding f SideR plug.simps Cons.IH [of "ANode a s c k T"]
      by (cases c) auto
  qed
qed

lemma rb_tree_plug:
  "rb_tree (plug C T) \<longleftrightarrow>
   cok C (bh T) \<and> rb_ok T \<and> (tcol T = RBTREE_RED \<longrightarrow> ctop C = RBTREE_BLACK \<and> C \<noteq> [])"
  unfolding rb_tree_def by (rule rb_ok_plug)

text \<open>What the parent pointer of the focus shows.\<close>

lemma rbz_parent_color:
  assumes "rbz F t C T"
  shows "rd t (cpar (nil t) C) color = Some (ctop C)"
proof (cases C rule: caddrs.cases)
  case 1
  with assms show ?thesis by (auto elim: rbz_nil)
next
  case (2 a d c k s C')
  with assms show ?thesis by (auto dest!: rbz_frame simp: frame_node_def)
qed

lemma rbz_focus_color:
  assumes "rbz F t C T"
  shows "rd t (rootp (nil t) T) color = Some (tcol T)"
proof (cases T)
  case ALeaf
  with assms show ?thesis by (auto elim: rbz_nil)
next
  case (ANode a l c k r)
  with assms show ?thesis by (auto dest!: rbz_node)
qed

lemma rbz_addr_ne:
  "rbz F t C T \<Longrightarrow> a \<in> set (addrs T) \<Longrightarrow> a \<noteq> nil t \<and> a \<noteq> NULL"
  by (auto simp: rbz_def)

lemma rbz_distinct: "rbz F t C T \<Longrightarrow> distinct (addrs T @ caddrs C)"
  by (simp add: rbz_def)

subsection \<open>The fix-up loop\<close>

text \<open>What one round of the loop does: the focus moves up to the grandparent, or the tree is
  repaired on the spot.\<close>

definition fixed_up :: "node_t heap \<Rightarrow> ctx \<Rightarrow> atree \<Rightarrow> (rbtree \<times> addr) option \<Rightarrow> rbtree \<Rightarrow> bool" where
  "fixed_up F C T res t \<longleftrightarrow> (\<exists>t' z' C' a l k r.
     res = Some (t', z') \<and> nil t' = nil t \<and> rbz F t' C' (ANode a l RBTREE_RED k r) \<and> z' = a
     \<and> ents (plug C' (ANode a l RBTREE_RED k r)) = ents (plug C T)
     \<and> rb_ok (ANode a l RBTREE_RED k r) \<and> cok C' (bh (ANode a l RBTREE_RED k r))
     \<and> (length C' < length C \<or> ctop C' = RBTREE_BLACK))"

lemma rbz_grand:
  assumes "rbz F t (Fr p dp cp kp sp # Fr g dg cg kg sg # C) T"
  shows "rd t p parent = Some g" "rd t p color = Some cp"
    "rd t g (if dg = SideL then left else right) = Some p"
    "rd t g (if dg = SideL then right else left) = Some (rootp (nil t) sg)"
    "rd t p (if dp = SideL then left else right) = Some (rootp (nil t) T)"
    "rd t p (if dp = SideL then right else left) = Some (rootp (nil t) sp)"
    "rootp (nil t) sg \<noteq> p" "p \<noteq> g" "p \<noteq> nil t" "g \<noteq> nil t"
proof -
  from assms have h: "mem t p = Some (frame_node (nil t) g dp cp kp (rootp (nil t) T) (rootp (nil t) sp))"
    "mem t g = Some (frame_node (nil t) (cpar (nil t) C) dg cg kg p (rootp (nil t) sg))"
    by (auto simp: rbz_def)
  then show "rd t p parent = Some g" "rd t p color = Some cp"
    "rd t g (if dg = SideL then left else right) = Some p"
    "rd t g (if dg = SideL then right else left) = Some (rootp (nil t) sg)"
    "rd t p (if dp = SideL then left else right) = Some (rootp (nil t) T)"
    "rd t p (if dp = SideL then right else left) = Some (rootp (nil t) sp)"
    by (auto simp: frame_node_def)
  from assms show "rootp (nil t) sg \<noteq> p" "p \<noteq> g" "p \<noteq> nil t" "g \<noteq> nil t"
    using rootp_cases [of "nil t" sg] by (auto simp: rbz_def)
qed

lemma rbz_focus_parent:
  "rbz F t C (ANode a l c k r) \<Longrightarrow> rd t a parent = Some (cpar (nil t) C)"
  by (drule rbz_node) simp

lemma rbz_focus_left:
  "rbz F t C (ANode a l c k r) \<Longrightarrow> rd t a left = Some (rootp (nil t) l)"
  by (drule rbz_node) simp

lemma rbz_focus_right:
  "rbz F t C (ANode a l c k r) \<Longrightarrow> rd t a right = Some (rootp (nil t) r)"
  by (drule rbz_node) simp


lemma rbz_dist_focus: "rbz F t C T \<Longrightarrow> distinct (addrs T)"
  by (simp add: rbz_def)

lemma wr_focus_color:
  assumes "rbz F t C T" "a \<in> set (addrs T)"
  shows "\<exists>t'. wr t a (set_color c) = Some t' \<and> rbz F t' C (recol a c T) \<and> nil t' = nil t \<and> root t' = root t"
  using wr_color [OF assms, of c] by blast

text \<open>Case 3 of the loop, on the left and on the right.\<close>

lemma fixup_case3_left:
  assumes z: "rbz F t C (ANode g (ANode q (ANode z A cz kz B) cq kq D) cg kg S)"
  shows "\<exists>t'. do { zp \<leftarrow> rd t z parent; t \<leftarrow> wr t zp (set_color RBTREE_BLACK);
      zpp \<leftarrow> rd t zp parent; t \<leftarrow> wr t zpp (set_color RBTREE_RED);
      t \<leftarrow> right_rotate t zpp; Some (t, z) } = Some (t', z)
    \<and> rbz F t' C (ANode q (ANode z A cz kz B) RBTREE_BLACK kq (ANode g D RBTREE_RED kg S))
    \<and> nil t' = nil t"
proof -
  from z have d: "distinct (addrs (ANode g (ANode q (ANode z A cz kz B) cq kq D) cg kg S))"
    by (rule rbz_dist_focus)
  from z have zp: "rd t z parent = Some q" by (simp add: rbz_def)
  obtain t1 where t1: "wr t q (set_color RBTREE_BLACK) = Some t1" "nil t1 = nil t"
    and z1: "rbz F t1 C (ANode g (ANode q (ANode z A cz kz B) RBTREE_BLACK kq D) cg kg S)"
    using wr_focus_color [OF z, of q RBTREE_BLACK] d by auto
  from z1 have qp: "rd t1 q parent = Some g" by (simp add: rbz_def)
  obtain t2 where t2: "wr t1 g (set_color RBTREE_RED) = Some t2" "nil t2 = nil t1"
    and z2: "rbz F t2 C (ANode g (ANode q (ANode z A cz kz B) RBTREE_BLACK kq D) RBTREE_RED kg S)"
    using wr_focus_color [OF z1, of g RBTREE_RED] d by auto
  from right_rotate_zip [OF z2] t2 obtain t3 where t3: "right_rotate t2 g = Some t3" "nil t3 = nil t2"
    "rbz F t3 C (ANode q (ANode z A cz kz B) RBTREE_BLACK kq (ANode g D RBTREE_RED kg S))"
    by metis
  with zp t1 qp t2 show ?thesis by simp
qed

lemma fixup_case3_right:
  assumes z: "rbz F t C (ANode g S cg kg (ANode q D cq kq (ANode z B cz kz A)))"
  shows "\<exists>t'. do { zp \<leftarrow> rd t z parent; t \<leftarrow> wr t zp (set_color RBTREE_BLACK);
      zpp \<leftarrow> rd t zp parent; t \<leftarrow> wr t zpp (set_color RBTREE_RED);
      t \<leftarrow> left_rotate t zpp; Some (t, z) } = Some (t', z)
    \<and> rbz F t' C (ANode q (ANode g S RBTREE_RED kg D) RBTREE_BLACK kq (ANode z B cz kz A))
    \<and> nil t' = nil t"
proof -
  from z have d: "distinct (addrs (ANode g S cg kg (ANode q D cq kq (ANode z B cz kz A))))"
    by (rule rbz_dist_focus)
  from z have zp: "rd t z parent = Some q" by (simp add: rbz_def)
  obtain t1 where t1: "wr t q (set_color RBTREE_BLACK) = Some t1" "nil t1 = nil t"
    and z1: "rbz F t1 C (ANode g S cg kg (ANode q D RBTREE_BLACK kq (ANode z B cz kz A)))"
    using wr_focus_color [OF z, of q RBTREE_BLACK] d by auto
  from z1 have qp: "rd t1 q parent = Some g" by (simp add: rbz_def)
  obtain t2 where t2: "wr t1 g (set_color RBTREE_RED) = Some t2" "nil t2 = nil t1"
    and z2: "rbz F t2 C (ANode g S RBTREE_RED kg (ANode q D RBTREE_BLACK kq (ANode z B cz kz A)))"
    using wr_focus_color [OF z1, of g RBTREE_RED] d by auto
  from left_rotate_zip [OF z2] t2 obtain t3 where t3: "left_rotate t2 g = Some t3" "nil t3 = nil t2"
    "rbz F t3 C (ANode q (ANode g S RBTREE_RED kg D) RBTREE_BLACK kq (ANode z B cz kz A))"
    by metis
  with zp t1 qp t2 show ?thesis by simp
qed

text \<open>Case 1: parent and uncle are red.\<close>

lemma fixup_case1:
  assumes z: "rbz F t C (ANode g l cg kg r)"
    and pu: "{p, u} = {rootp (nil t) l, rootp (nil t) r}" "tcol l = RBTREE_RED" "tcol r = RBTREE_RED"
  shows "\<exists>t'. do { t \<leftarrow> wr t p (set_color RBTREE_BLACK); t \<leftarrow> wr t u (set_color RBTREE_BLACK);
      t \<leftarrow> wr t g (set_color RBTREE_RED); Some (t, g) } = Some (t', g)
    \<and> rbz F t' C (ANode g (recol (rootp (nil t) l) RBTREE_BLACK l) RBTREE_RED kg
        (recol (rootp (nil t) r) RBTREE_BLACK r))
    \<and> nil t' = nil t"
proof -
  let ?l = "rootp (nil t) l" and ?r = "rootp (nil t) r"
  from pu have "l \<noteq> ALeaf" "r \<noteq> ALeaf" by auto
  then have m: "?l \<in> set (addrs l)" "?r \<in> set (addrs r)" by (cases l; cases r; auto)+
  with z have d: "?l \<noteq> g" "?r \<noteq> g" "?l \<notin> set (addrs r)" "?r \<notin> set (addrs l)"
    "g \<notin> set (addrs l)" "g \<notin> set (addrs r)" by (auto simp: rbz_def)
  from pu m have "p \<in> set (addrs (ANode g l cg kg r))" "u \<in> set (addrs (ANode g l cg kg r))"
    by (auto simp: doubleton_eq_iff)
  then have mem: "p \<in> set (addrs (ANode g l cg kg r))"
    "u \<in> set (addrs (recol p RBTREE_BLACK (ANode g l cg kg r)))"
    "g \<in> set (addrs (recol u RBTREE_BLACK (recol p RBTREE_BLACK (ANode g l cg kg r))))"
    by (simp_all only: addrs_recol) simp
  obtain t1 where t1: "wr t p (set_color RBTREE_BLACK) = Some t1" "nil t1 = nil t"
      "rbz F t1 C (recol p RBTREE_BLACK (ANode g l cg kg r))"
    using wr_focus_color [OF z mem(1)] by blast
  obtain t2 where t2: "wr t1 u (set_color RBTREE_BLACK) = Some t2" "nil t2 = nil t1"
      "rbz F t2 C (recol u RBTREE_BLACK (recol p RBTREE_BLACK (ANode g l cg kg r)))"
    using wr_focus_color [OF t1(3) mem(2)] by blast
  obtain t3 where t3: "wr t2 g (set_color RBTREE_RED) = Some t3" "nil t3 = nil t2"
      "rbz F t3 C (recol g RBTREE_RED (recol u RBTREE_BLACK (recol p RBTREE_BLACK (ANode g l cg kg r))))"
    using wr_focus_color [OF t2(3) mem(3)] by blast
  have "recol g RBTREE_RED (recol u RBTREE_BLACK (recol p RBTREE_BLACK (ANode g l cg kg r)))
    = ANode g (recol ?l RBTREE_BLACK l) RBTREE_RED kg (recol ?r RBTREE_BLACK r)"
    using d pu by (auto simp: doubleton_eq_iff)
  with t1 t2 t3 show ?thesis by simp
qed


lemma fixed_upI:
  "res = Some (t', a) \<Longrightarrow> nil t' = nil t \<Longrightarrow> rbz F t' C' (ANode a l RBTREE_RED k r) \<Longrightarrow>
   ents (plug C' (ANode a l RBTREE_RED k r)) = ents (plug C T) \<Longrightarrow>
   rb_ok (ANode a l RBTREE_RED k r) \<Longrightarrow> cok C' (bh (ANode a l RBTREE_RED k r)) \<Longrightarrow>
   length C' < length C \<or> ctop C' = RBTREE_BLACK \<Longrightarrow> fixed_up F C T res t"
  unfolding fixed_up_def by blast

lemma fixup_body_left:
  assumes z: "rbz F t (Fr p dp RBTREE_RED kp sp # Fr g SideL RBTREE_BLACK kg sg # C) (ANode z l RBTREE_RED k r)"
    and ok: "rb_ok (ANode z l RBTREE_RED k r)"
      "cok (Fr p dp RBTREE_RED kp sp # Fr g SideL RBTREE_BLACK kg sg # C) (bh l)"
  shows "fixed_up F (Fr p dp RBTREE_RED kp sp # Fr g SideL RBTREE_BLACK kg sg # C)
           (ANode z l RBTREE_RED k r) (rbtree_fixup_body t z) t"
proof -
  let ?T = "ANode z l RBTREE_RED k r" and ?u = "rootp (nil t) sg"
  let ?P = "if dp = SideL then ANode p ?T RBTREE_RED kp sp else ANode p sp RBTREE_RED kp ?T"
  from z have zg: "rbz F t C (ANode g ?P RBTREE_BLACK kg sg)"
    by (cases dp) (simp_all flip: rbz_down_left rbz_down_right)
  note pre = rbz_grand [OF z] rbz_focus_parent [OF z]
  have uc: "rd t (rootp (nil t) sg) color = Some (tcol sg)"
    using rbz_focus_color [of F t _ sg] zg by (simp add: rbz_down_right)
  show ?thesis
  proof (cases "tcol sg")
    case RBTREE_RED
    have "{p, rootp (nil t) sg} = {rootp (nil t) ?P, rootp (nil t) sg}" by simp
    moreover have "tcol ?P = RBTREE_RED" by simp
    ultimately obtain t' where
      t': "(do { t \<leftarrow> wr t p (set_color RBTREE_BLACK); t \<leftarrow> wr t ?u (set_color RBTREE_BLACK);
        t \<leftarrow> wr t g (set_color RBTREE_RED); Some (t, g) }) = Some (t', g)" "nil t' = nil t"
      and z': "rbz F t' C (ANode g (recol (rootp (nil t) ?P) RBTREE_BLACK ?P) RBTREE_RED kg
        (recol (rootp (nil t) sg) RBTREE_BLACK sg))"
      using fixup_case1 [OF zg] RBTREE_RED by blast
    have run: "rbtree_fixup_body t z = Some (t', g)"
      unfolding rbtree_fixup_body_def using pre uc RBTREE_RED t' by simp
    from RBTREE_RED obtain u ul ku ur where sg: "sg = ANode u ul RBTREE_RED ku ur"
      by (cases sg) auto
    show ?thesis
      by (rule fixed_upI [OF run t'(2) z']) (use ok sg in \<open>(cases dp; auto)+\<close>)
  next
    case RBTREE_BLACK
    show ?thesis
    proof (cases dp)
      case SideL
      with zg have zg': "rbz F t C (ANode g (ANode p ?T RBTREE_RED kp sp) RBTREE_BLACK kg sg)" by simp
      from z SideL have "rootp (nil t) sp \<noteq> z" using rootp_cases [of "nil t" sp] by (auto simp: rbz_def)
      then have zr: "rd t p right = Some (rootp (nil t) sp)" "rootp (nil t) sp \<noteq> z" using pre SideL by auto
      from fixup_case3_left [OF zg'] obtain t' where
        t': "do { zp \<leftarrow> rd t z parent; t \<leftarrow> wr t zp (set_color RBTREE_BLACK);
          zpp \<leftarrow> rd t zp parent; t \<leftarrow> wr t zpp (set_color RBTREE_RED);
          t \<leftarrow> right_rotate t zpp; Some (t, z) } = Some (t', z)" "nil t' = nil t"
        and z': "rbz F t' C (ANode p ?T RBTREE_BLACK kp (ANode g sp RBTREE_RED kg sg))" by auto
      have run: "rbtree_fixup_body t z = Some (t', z)"
        unfolding rbtree_fixup_body_def using pre uc RBTREE_BLACK t' zr by simp
      show ?thesis
        by (rule fixed_upI [OF run t'(2) rbz_down_left [THEN iffD1, OF z']])
           (use ok SideL RBTREE_BLACK in auto)
    next
      case SideR
      with zg have zg': "rbz F t C (ANode g (ANode p sp RBTREE_RED kp ?T) RBTREE_BLACK kg sg)" by simp
      then have "rbz F t (Fr g SideL RBTREE_BLACK kg sg # C) (ANode p sp RBTREE_RED kp ?T)"
        by (simp add: rbz_down_left)
      then obtain t1 where t1: "left_rotate t p = Some t1" "nil t1 = nil t"
        and z1: "rbz F t1 (Fr g SideL RBTREE_BLACK kg sg # C) (ANode z (ANode p sp RBTREE_RED kp l) RBTREE_RED k r)"
        by (rule left_rotate_zip) blast
      from fixup_case3_left [OF z1 [folded rbz_down_left]] obtain t' where
        t': "do { zp \<leftarrow> rd t1 p parent; t \<leftarrow> wr t1 zp (set_color RBTREE_BLACK);
          zpp \<leftarrow> rd t zp parent; t \<leftarrow> wr t zpp (set_color RBTREE_RED);
          t \<leftarrow> right_rotate t zpp; Some (t, p) } = Some (t', p)" "nil t' = nil t1"
        and z': "rbz F t' C (ANode z (ANode p sp RBTREE_RED kp l) RBTREE_BLACK k (ANode g r RBTREE_RED kg sg))" by auto
      have run: "rbtree_fixup_body t z = Some (t', p)"
        unfolding rbtree_fixup_body_def using pre uc RBTREE_BLACK t' t1 SideR by simp
      show ?thesis
        by (rule fixed_upI [OF run _ rbz_down_left [THEN iffD1, OF z']])
           (use ok SideR RBTREE_BLACK t' t1 in auto)
    qed
  qed
qed

lemma fixup_body_right:
  assumes z: "rbz F t (Fr p dp RBTREE_RED kp sp # Fr g SideR RBTREE_BLACK kg sg # C) (ANode z l RBTREE_RED k r)"
    and ok: "rb_ok (ANode z l RBTREE_RED k r)"
      "cok (Fr p dp RBTREE_RED kp sp # Fr g SideR RBTREE_BLACK kg sg # C) (bh l)"
  shows "fixed_up F (Fr p dp RBTREE_RED kp sp # Fr g SideR RBTREE_BLACK kg sg # C)
           (ANode z l RBTREE_RED k r) (rbtree_fixup_body t z) t"
proof -
  let ?T = "ANode z l RBTREE_RED k r" and ?u = "rootp (nil t) sg"
  let ?P = "if dp = SideR then ANode p sp RBTREE_RED kp ?T else ANode p ?T RBTREE_RED kp sp"
  from z have zg: "rbz F t C (ANode g sg RBTREE_BLACK kg ?P)"
    by (cases dp) (simp_all flip: rbz_down_right rbz_down_left)
  note pre = rbz_grand [OF z] rbz_focus_parent [OF z]
  have uc: "rd t (rootp (nil t) sg) color = Some (tcol sg)"
    using rbz_focus_color [of F t _ sg] zg by (simp add: rbz_down_left)
  show ?thesis
  proof (cases "tcol sg")
    case RBTREE_RED
    have "{p, rootp (nil t) sg} = {rootp (nil t) sg, rootp (nil t) ?P}" by auto
    moreover have "tcol ?P = RBTREE_RED" by simp
    ultimately obtain t' where
      t': "(do { t \<leftarrow> wr t p (set_color RBTREE_BLACK); t \<leftarrow> wr t ?u (set_color RBTREE_BLACK);
        t \<leftarrow> wr t g (set_color RBTREE_RED); Some (t, g) }) = Some (t', g)" "nil t' = nil t"
      and z': "rbz F t' C (ANode g (recol (rootp (nil t) sg) RBTREE_BLACK sg) RBTREE_RED kg
        (recol (rootp (nil t) ?P) RBTREE_BLACK ?P))"
      using fixup_case1 [OF zg] RBTREE_RED by blast
    have run: "rbtree_fixup_body t z = Some (t', g)"
      unfolding rbtree_fixup_body_def using pre uc RBTREE_RED t' by simp
    from RBTREE_RED obtain u ul ku ur where sg: "sg = ANode u ul RBTREE_RED ku ur"
      by (cases sg) auto
    show ?thesis
      by (rule fixed_upI [OF run t'(2) z']) (use ok sg in \<open>(cases dp; auto)+\<close>)
  next
    case RBTREE_BLACK
    show ?thesis
    proof (cases dp)
      case SideR
      with zg have zg': "rbz F t C (ANode g sg RBTREE_BLACK kg (ANode p sp RBTREE_RED kp ?T))" by simp
      from z SideR have "rootp (nil t) sp \<noteq> z" using rootp_cases [of "nil t" sp] by (auto simp: rbz_def)
      then have zr: "rd t p left = Some (rootp (nil t) sp)" "rootp (nil t) sp \<noteq> z" using pre SideR by auto
      from fixup_case3_right [OF zg'] obtain t' where
        t': "do { zp \<leftarrow> rd t z parent; t \<leftarrow> wr t zp (set_color RBTREE_BLACK);
          zpp \<leftarrow> rd t zp parent; t \<leftarrow> wr t zpp (set_color RBTREE_RED);
          t \<leftarrow> left_rotate t zpp; Some (t, z) } = Some (t', z)" "nil t' = nil t"
        and z': "rbz F t' C (ANode p (ANode g sg RBTREE_RED kg sp) RBTREE_BLACK kp ?T)" by auto
      have run: "rbtree_fixup_body t z = Some (t', z)"
        unfolding rbtree_fixup_body_def using pre uc RBTREE_BLACK t' zr by simp
      show ?thesis
        by (rule fixed_upI [OF run t'(2) rbz_down_right [THEN iffD1, OF z']])
           (use ok SideR RBTREE_BLACK in auto)
    next
      case SideL
      with zg have zg': "rbz F t C (ANode g sg RBTREE_BLACK kg (ANode p ?T RBTREE_RED kp sp))" by simp
      then have "rbz F t (Fr g SideR RBTREE_BLACK kg sg # C) (ANode p ?T RBTREE_RED kp sp)"
        by (simp add: rbz_down_right)
      then obtain t1 where t1: "right_rotate t p = Some t1" "nil t1 = nil t"
        and z1: "rbz F t1 (Fr g SideR RBTREE_BLACK kg sg # C) (ANode z l RBTREE_RED k (ANode p r RBTREE_RED kp sp))"
        by (rule right_rotate_zip) blast
      from fixup_case3_right [OF z1 [folded rbz_down_right]] obtain t' where
        t': "do { zp \<leftarrow> rd t1 p parent; t \<leftarrow> wr t1 zp (set_color RBTREE_BLACK);
          zpp \<leftarrow> rd t zp parent; t \<leftarrow> wr t zpp (set_color RBTREE_RED);
          t \<leftarrow> left_rotate t zpp; Some (t, p) } = Some (t', p)" "nil t' = nil t1"
        and z': "rbz F t' C (ANode z (ANode g sg RBTREE_RED kg l) RBTREE_BLACK k (ANode p r RBTREE_RED kp sp))" by auto
      have run: "rbtree_fixup_body t z = Some (t', p)"
        unfolding rbtree_fixup_body_def using pre uc RBTREE_BLACK t' t1 SideL by simp
      show ?thesis
        by (rule fixed_upI [OF run _ rbz_down_right [THEN iffD1, OF z']])
           (use ok SideL RBTREE_BLACK t' t1 in auto)
    qed
  qed
qed


lemma rb_ok_blacken:
  assumes "rb_ok W" "distinct (addrs W)"
  shows "rb_tree (recol (rootp N W) RBTREE_BLACK W)"
  using assms by (cases W) (auto simp: rb_tree_def)

text \<open>The write \<open>t->root->color = RBTREE_BLACK\<close> after the loop.\<close>

lemma rbtree_fixup_exit:
  assumes z: "rbz F t C (ANode z l RBTREE_RED k r)"
    and ok: "rb_ok (ANode z l RBTREE_RED k r)" "cok C (bh (ANode z l RBTREE_RED k r))"
      "ctop C = RBTREE_BLACK"
  shows "\<exists>t' T'. rbtree_fixup t z = Some t' \<and> rb_heap F t' T' \<and> rb_tree T'
    \<and> ents T' = ents (plug C (ANode z l RBTREE_RED k r)) \<and> nil t' = nil t"
proof -
  let ?T = "ANode z l RBTREE_RED k r"
  let ?W = "plug C ?T"
  have W: "rbz F t [] ?W" using z rbz_to_root by blast
  then have root: "root t = rootp (nil t) ?W" by (simp add: rbz_def)
  from ok rb_tree_plug [of C ?T] have rbW: "rb_ok ?W"
    by (cases "C = []") (auto simp: rb_tree_def)
  have ne: "?W \<noteq> ALeaf"
  proof
    assume "?W = ALeaf"
    then have "ents ?W = []" by simp
    then show False by simp
  qed
  then have rin: "root t \<in> set (addrs ?W)" unfolding root by (cases ?W) auto
  obtain t' where t': "wr t (root t) (set_color RBTREE_BLACK) = Some t'" "nil t' = nil t"
    "rbz F t' [] (recol (root t) RBTREE_BLACK ?W)"
    using wr_focus_color [OF W rin] by blast
  have "rbtree_fixup t z = Some t'"
    by (subst rbtree_fixup.simps)
       (use t' ok rbz_focus_parent [OF z] rbz_parent_color [OF z] in simp)
  moreover have "rb_tree (recol (root t) RBTREE_BLACK ?W)"
    unfolding root using rb_ok_blacken [OF rbW rbz_dist_focus [OF W]] .
  ultimately show ?thesis using t' by (auto simp: rb_heap_def)
qed

lemma rbtree_fixup_correct:
  assumes "rbz F t C (ANode z l RBTREE_RED k r)"
    and "rb_ok (ANode z l RBTREE_RED k r)" "cok C (bh (ANode z l RBTREE_RED k r))"
  shows "\<exists>t' T'. rbtree_fixup t z = Some t' \<and> rb_heap F t' T' \<and> rb_tree T'
    \<and> ents T' = ents (plug C (ANode z l RBTREE_RED k r)) \<and> nil t' = nil t"
  using assms
proof (induction "length C" arbitrary: C t z l k r rule: less_induct)
  case less
  let ?T = "ANode z l RBTREE_RED k r"
  show ?case
  proof (cases "ctop C")
    case RBTREE_BLACK
    with less.prems show ?thesis by (intro rbtree_fixup_exit)
  next
    case RBTREE_RED
    then obtain p dp kp sp C1 where C: "C = Fr p dp RBTREE_RED kp sp # C1"
      by (cases C rule: ctop.cases) auto
    with less.prems(3) have "C1 \<noteq> []" "ctop C1 = RBTREE_BLACK" by auto
    then obtain g dg kg sg C2 where C1: "C1 = Fr g dg RBTREE_BLACK kg sg # C2"
      by (cases C1 rule: ctop.cases) auto
    have "fixed_up F C ?T (rbtree_fixup_body t z) t"
      using less.prems fixup_body_left [of F t p dp kp sp g kg sg C2 z l k r]
        fixup_body_right [of F t p dp kp sp g kg sg C2 z l k r]
      unfolding C C1 by (cases dg) auto
    then obtain t' C' a l' k' r' where b: "rbtree_fixup_body t z = Some (t', a)" "nil t' = nil t"
        "rbz F t' C' (ANode a l' RBTREE_RED k' r')"
        "ents (plug C' (ANode a l' RBTREE_RED k' r')) = ents (plug C ?T)"
        "rb_ok (ANode a l' RBTREE_RED k' r')" "cok C' (bh (ANode a l' RBTREE_RED k' r'))"
        "length C' < length C \<or> ctop C' = RBTREE_BLACK"
      unfolding fixed_up_def by blast
    have "rbtree_fixup t z = rbtree_fixup t' a"
      by (subst rbtree_fixup.simps)
         (use b RBTREE_RED rbz_focus_parent [OF less.prems(1)] rbz_parent_color [OF less.prems(1)] in simp)
    with b less.hyps [OF _ b(3) b(5) b(6)] rbtree_fixup_exit [OF b(3) b(5) b(6)] show ?thesis
      by auto
  qed
qed


subsection \<open>The descent and the new leaf\<close>

fun slot :: "int \<Rightarrow> atree \<Rightarrow> ctx \<Rightarrow> ctx" where
  "slot k ALeaf C = C"
| "slot k (ANode a l c k' r) C =
     (if k < k' then slot k l (Fr a SideL c k' r # C) else slot k r (Fr a SideR c k' l # C))"

lemma plug_slot: "plug (slot k T C) ALeaf = plug C T"
  by (induction k T C rule: slot.induct) auto

lemma rbz_slot: "rbz F t C T \<Longrightarrow> rbz F t (slot k T C) ALeaf"
  using rbz_to_root plug_slot by metis

lemma rbtree_insert_loop_slot:
  assumes "rbz F t C T" "rd t z key = Some k"
  shows "rbtree_insert_loop t z (rootp (nil t) T) (cpar (nil t) C) = Some (cpar (nil t) (slot k T C))"
  using assms
proof (induction k T C rule: slot.induct)
  case (1 k C)
  then show ?case by (subst rbtree_insert_loop.simps) simp
next
  case (2 k a l c k' r C)
  from "2.prems"(1) have a: "a \<noteq> nil t" by (simp add: rbz_def)
  from "2.prems" rbz_node [OF "2.prems"(1)] have "rbtree_insert_loop t z a (cpar (nil t) C)
    = rbtree_insert_loop t z (if k < k' then rootp (nil t) l else rootp (nil t) r) a"
    by (subst rbtree_insert_loop.simps) (simp add: a)
  with "2.IH" "2.prems"(1) [unfolded rbz_down_left] "2.prems"(1) [unfolded rbz_down_right] "2.prems"(2)
  show ?case by (cases "k < k'") simp_all
qed

definition side_ok :: "int \<Rightarrow> ctx \<Rightarrow> bool" where
  "side_ok k C = (case C of [] \<Rightarrow> True | Fr a d c k' s # _ \<Rightarrow> d = SideL \<longleftrightarrow> k < k')"

lemma side_ok_slot: "side_ok k C \<Longrightarrow> side_ok k (slot k T C)"
  by (induction k T C rule: slot.induct) (auto simp: side_ok_def)

lemma slot_sorted:
  assumes "sorted (map snd (ents (plug C T)))" "\<forall>e\<in>set (lents C). snd e \<le> k" "\<forall>e\<in>set (rents C). k < snd e"
  shows "(\<forall>e\<in>set (lents (slot k T C)). snd e \<le> k) \<and> (\<forall>e\<in>set (rents (slot k T C)). k < snd e)"
  using assms
proof (induction k T C rule: slot.induct)
  case (2 k a l c k' r C)
  from "2.prems"(1) have "\<forall>e\<in>set (ents l). snd e \<le> k'" "\<forall>e\<in>set (ents r). k' \<le> snd e"
    by (auto simp: sorted_append)
  with 2 show ?case by (cases "k < k'") fastforce+
qed simp

lemma link_new_node:
  assumes z: "rbz F t C ALeaf" and zn: "mem t z = Some n" "color n = RBTREE_RED" "key n = k"
      "left n = nil t" "right n = nil t"
    and zo: "z \<notin> set (caddrs C)" "z \<noteq> nil t" "z \<noteq> NULL" and s: "side_ok k C"
    and y: "y = cpar (nil t) C"
  shows "\<exists>t'. do { t \<leftarrow> wr t z (set_parent y);
      if y = nil t then Some (t\<lparr>root := z\<rparr>)
      else do { zk \<leftarrow> rd t z key; yk \<leftarrow> rd t y key;
        if zk < yk then wr t y (set_left z) else wr t y (set_right z) } } = Some t'
    \<and> rbz F t' C (ANode z ALeaf RBTREE_RED k ALeaf) \<and> nil t' = nil t"
proof (cases C rule: caddrs.cases)
  case 1
  then show ?thesis using z zn zo y by (auto simp: rbz_def)
next
  case (2 a d c k' s' C')
  from z have sa: "rootp (nil t) s' \<noteq> a" "distinct (caddrs C)" "a \<noteq> nil t" "a \<noteq> z"
    using rootp_cases [of "nil t" s'] 2 zo by (auto simp: rbz_def)
  with 2 z zn zo s y show ?thesis
    by (cases d) (auto simp: rbz_def frame_node_def side_ok_def)
qed


lemma key_sorted_insert:
  assumes "sorted (map snd (xs @ ys))" "\<forall>e\<in>set xs. snd e \<le> k" "\<forall>e\<in>set ys. k < snd e"
  shows "sorted (map snd (xs @ (z, k) # ys))"
  using assms by (fastforce simp: sorted_append)

lemma rbtree_insert_total:
  assumes h: "rb_heap F t T" and rb: "rb_tree T" and z: "z \<noteq> NULL" "mem t z = None"
  shows "\<exists>t' T' xs ys. rbtree_insert t z k = Some (t', z) \<and> rb_heap F t' T' \<and> rb_tree T' \<and> nil t' = nil t
    \<and> ents T = xs @ ys \<and> ents T' = xs @ (z, k) # ys
    \<and> (key_sorted T \<longrightarrow> (\<forall>e\<in>set xs. snd e \<le> k) \<and> (\<forall>e\<in>set ys. k < snd e) \<and> key_sorted T')"
proof -
  let ?n = "\<lparr>color = RBTREE_RED, key = k, parent = nil t, left = nil t, right = nil t\<rparr>"
  let ?t1 = "t\<lparr>mem := (mem t)(z \<mapsto> ?n)\<rparr>"
  let ?C = "slot k T []"
  let ?y = "cpar (nil t) ?C"
  from h z have zT: "z \<notin> set (addrs T)" "z \<noteq> nil t"
    using tree_h_dom [of "mem t" "nil t" "nil t" T z] by (auto simp: rb_heap_def rbz_def)
  from h zT have "rbz (F(z \<mapsto> ?n)) ?t1 [] T" by (auto simp: rb_heap_def rbz_def)
  note rbz1 = this
  from rbz1 have z1: "rbz (F(z \<mapsto> ?n)) ?t1 ?C ALeaf" by (rule rbz_slot)
  have "rd ?t1 z key = Some k" "root t = rootp (nil t) T"
    using h by (auto simp: rb_heap_def rbz_def)
  with rbtree_insert_loop_slot [OF rbz1, of z k]
  have loop: "rbtree_insert_loop ?t1 z (root t) (nil t) = Some (cpar (nil t) ?C)" by simp
  have pl: "plug ?C ALeaf = T" by (simp add: plug_slot)
  have "set (caddrs ?C) \<subseteq> set (addrs T)"
  proof -
    have "set (caddrs D) \<subseteq> set (addrs (plug D U))" for D U
      by (induction D U rule: plug.induct)
        (auto simp flip: fst_ents)
    from this [of ?C ALeaf] pl show ?thesis by simp
  qed
  with zT link_new_node [OF z1, of z ?n k ?y] z side_ok_slot [of k "[]" T] obtain t2 where
    t2: "do { t \<leftarrow> wr ?t1 z (set_parent ?y);
      if ?y = nil t then Some (t\<lparr>root := z\<rparr>)
      else do { zk \<leftarrow> rd t z key; yk \<leftarrow> rd t ?y key;
        if zk < yk then wr t ?y (set_left z) else wr t ?y (set_right z) } } = Some t2"
      "rbz (F(z \<mapsto> ?n)) t2 ?C (ANode z ALeaf RBTREE_RED k ALeaf)" "nil t2 = nil t"
    by (auto simp: side_ok_def)
  from t2(2) have z2: "rbz F t2 ?C (ANode z ALeaf RBTREE_RED k ALeaf)"
    using zT by (auto simp: rbz_def)
  from rb rb_tree_plug [of ?C ALeaf] pl have ck: "cok ?C 0" by simp
  obtain t3 T' where t3: "rbtree_fixup t2 z = Some t3" "rb_heap F t3 T'" "rb_tree T'" "nil t3 = nil t2"
    "ents T' = lents ?C @ (z, k) # rents ?C"
    using rbtree_fixup_correct [OF z2] ck by auto
  have "rbtree_insert t z k = Some (t3, z)"
    unfolding rbtree_insert_def newNode_def using z loop t2 t3 by (simp split del: if_split)
  moreover have eT: "ents T = lents ?C @ rents ?C" using pl ents_plug [of ?C ALeaf] by simp
  moreover have "(\<forall>e\<in>set (lents ?C). snd e \<le> k) \<and> (\<forall>e\<in>set (rents ?C). k < snd e) \<and> key_sorted T'"
    if "key_sorted T"
    using that slot_sorted [of "[]" T k] key_sorted_insert [of "lents ?C" "rents ?C" k z] t3(5) eT
    by (simp add: key_sorted_def)
  ultimately show ?thesis using t3(2-5) t2(3) by metis
qed

end
