(* ===== verification/RBErase.thy ===== *)
theory RBErase
  imports RBInsert
begin

text \<open>
  Deletion: \<open>rbtree_transplant\<close>, the splice of \<open>rbtree_erase\<close> and the fix-up loop, and the
  proof that \<open>rbtree_erase\<close> removes exactly the node it is given and keeps the invariants.
  The sentinel's parent pointer, which the code uses as scratch space, is tracked by
  \<open>nil_parent\<close>.
\<close>

lemma rbz_self: "rbz F t C T \<Longrightarrow> rbz (mem t) t C T"
  by (auto simp: rbz_def)

lemma rbz_frame_heap: "rbz F t C T \<Longrightarrow> a \<notin> set (addrs T) \<Longrightarrow> a \<notin> set (caddrs C) \<Longrightarrow> mem t a = F a"
  by (simp add: rbz_def)

lemma set_addrs_plug: "set (addrs (plug C T)) = set (addrs T) \<union> set (caddrs C)"
  by (induction C T rule: plug.induct) auto

lemma distinct_plug: "distinct (addrs (plug C T)) \<longleftrightarrow> distinct (addrs T @ caddrs C)"
  by (induction C T rule: plug.induct) auto

definition nil_parent :: "rbtree \<Rightarrow> ctx \<Rightarrow> atree \<Rightarrow> bool" where
  "nil_parent t C T \<longleftrightarrow> (T = ALeaf \<longrightarrow> rd t (nil t) parent = Some (cpar (nil t) C))"

lemma transplant_run:
  assumes c: "ctx_h (mem t) N (root t) C u" and N: "nil t = N" "N \<notin> set (caddrs C)" "u \<noteq> N"
    and u: "u \<notin> set (caddrs C)" "rd t u parent = Some (cpar N C)"
    and v: "mem t v = Some nv" "v \<notin> set (caddrs C)"
  shows "rbtree_transplant t u v = Some (t\<lparr>root := (if C = [] then v else root t),
    mem := (ctx_set (mem t) C v)(v \<mapsto> set_parent (cpar N C) nv)\<rparr>)"
proof -
  have "(if cpar N C = nil t then Some (t\<lparr>root := v\<rparr>)
          else do { upl \<leftarrow> rd t (cpar N C) left;
                    if u = upl then wr t (cpar N C) (set_left v) else wr t (cpar N C) (set_right v) })
      = Some (t\<lparr>root := (if C = [] then v else root t), mem := ctx_set (mem t) C v\<rparr>)"
    using wr_child(1) [OF c N(2) N(1) N(3) u(1) refl, of v] by (simp add: eq_commute cong: if_cong)
  moreover have "rd (t\<lparr>root := (if C = [] then v else root t), mem := ctx_set (mem t) C v\<rparr>) u parent
      = Some (cpar N C)"
    using u by (simp add: rd_def peek_def)
  ultimately show ?thesis
    unfolding rbtree_transplant_def using u v by (simp split del: if_split)
qed

lemma transplant_focus:
  assumes z: "rbz F t C (ANode u ul uc uk ur)"
    and V: "tree_h (mem t) (nil t) p V" "distinct (addrs V)" "set (addrs V) \<subseteq> set (addrs ul) \<union> set (addrs ur)"
  shows "\<exists>t'. rbtree_transplant t u (rootp (nil t) V) = Some t' \<and> rbz (mem t') t' C V \<and> nil t' = nil t
    \<and> nil_parent t' C V
    \<and> (\<forall>a. a \<notin> set (addrs V) \<longrightarrow> a \<notin> set (caddrs C) \<longrightarrow> a \<noteq> nil t \<longrightarrow> mem t' a = mem t a)"
proof -
  let ?N = "nil t" and ?v = "rootp (nil t) V"
  from z have c: "ctx_h (mem t) ?N (root t) C u" and N: "?N \<notin> set (caddrs C)" "u \<noteq> ?N"
    and u: "u \<notin> set (caddrs C)" "rd t u parent = Some (cpar ?N C)"
    and dC: "distinct (caddrs C)" and disj: "(set (addrs ul) \<union> set (addrs ur)) \<inter> set (caddrs C) = {}"
    and uV: "u \<notin> set (addrs ul) \<union> set (addrs ur)" and NV: "?N \<notin> set (addrs ul) \<union> set (addrs ur)"
    by (auto simp: rbz_def)
  from z obtain nn where nn: "mem t ?N = Some nn" "color nn = RBTREE_BLACK" by (rule rbz_nil)
  obtain nv where v: "mem t ?v = Some nv" "V \<noteq> ALeaf \<or> nv = nn" "?v \<notin> set (caddrs C)"
  proof (cases V)
    case ALeaf
    with nn N that show ?thesis by simp
  next
    case (ANode a l c k r)
    with V(1) V(3) disj that show ?thesis by auto
  qed
  define M where "M = (ctx_set (mem t) C ?v)(?v \<mapsto> set_parent (cpar ?N C) nv)"
  let ?t' = "t\<lparr>root := (if C = [] then ?v else root t), mem := M\<rparr>"
  have run: "rbtree_transplant t u ?v = Some ?t'"
    unfolding M_def by (rule transplant_run [OF c refl N(1) N(2) u v(1) v(3)])
  have Mo: "M a = mem t a" if "a \<noteq> ?v" "a \<notin> set (caddrs C)" for a
    using that by (simp add: M_def)
  have "tree_h M ?N (cpar ?N C) V"
  proof (rule tree_h_moved [OF V(1) _ _ V(2)])
    show "M a = mem t a" if "a \<in> set (addrs V)" "a \<noteq> ?v" for a
      by (rule Mo) (use that V(3) disj in auto)
    show "M ?v = Some (set_parent (cpar ?N C) (the (mem t ?v)))" by (simp add: M_def v)
  qed
  moreover have "ctx_h M ?N (if C = [] then ?v else root t) C ?v"
    using ctx_h_set [OF c dC, of ?v] v(3) by (simp add: M_def)
  moreover have "\<exists>n. M ?N = Some n \<and> color n = RBTREE_BLACK"
    using nn v N by (cases "?N = ?v") (auto simp: M_def)
  moreover have "set (addrs V) \<inter> set (caddrs C) = {}" "?N \<notin> set (addrs V)"
    using disj NV V(3) by auto
  moreover have "NULL \<notin> set (addrs V)" "NULL \<notin> set (caddrs C)" "?N \<noteq> NULL"
    using z V(3) by (auto simp: rbz_def)
  ultimately have "rbz M ?t' C V"
    using V(2) dC N by (auto simp: rbz_def)
  moreover have "nil_parent ?t' C V"
    by (simp add: nil_parent_def M_def)
  moreover have "M a = mem t a" if "a \<notin> set (addrs V)" "a \<notin> set (caddrs C)" "a \<noteq> ?N" for a
  proof (rule Mo)
    show "a \<noteq> ?v" using that rootp_cases [of ?N V] by auto
  qed (use that in simp)
  ultimately show ?thesis using run by auto
qed

lemma tree_minimum_plug:
  assumes "rbz F t C (ANode a l c k r)"
  shows "\<exists>D y cy ky yr. ANode a l c k r = plug D (ANode y ALeaf cy ky yr) \<and> lents D = []
    \<and> tree_minimum t a = Some y"
  using assms
proof (induction l arbitrary: C a c k r)
  case ALeaf
  then have "tree_minimum t a = Some a"
    by (subst tree_minimum.simps) (simp add: rbz_focus_left)
  moreover have "ANode a ALeaf c k r = plug [] (ANode a ALeaf c k r)" "lents [] = []" by simp_all
  ultimately show ?case by blast
next
  case (ANode b l' c' k' r')
  from ANode.prems have b: "b \<noteq> nil t" by (simp add: rbz_def)
  from ANode.prems b have step: "tree_minimum t a = tree_minimum t b"
    by (subst tree_minimum.simps) (simp add: rbz_focus_left)
  from ANode.IH(1) [OF ANode.prems [unfolded rbz_down_left [of _ _ _ a]]]
  obtain D y cy ky yr where D: "ANode b l' c' k' r' = plug D (ANode y ALeaf cy ky yr)" "lents D = []"
    "tree_minimum t b = Some y" by blast
  have "ANode a (ANode b l' c' k' r') c k r = plug (D @ [Fr a SideL c k r]) (ANode y ALeaf cy ky yr)"
    "lents (D @ [Fr a SideL c k r]) = []"
    using D by simp_all
  with D step show ?case by metis
qed

text \<open>Node \<open>y\<close>, which is in no tree, takes the place of \<open>z\<close>.\<close>

lemma replace_node:
  assumes cz: "ctx_h (mem t) N (root t) C z" and tN: "nil t = N"
    and hz: "mem t z = Some nz" "color nz = c" "parent nz = cpar N C" "left nz = rootp N l"
    and tl: "tree_h (mem t) N z l" and l: "l \<noteq> ALeaf"
    and dist: "distinct (addrs (ANode z l c k R) @ caddrs C)" "N \<notin> set (addrs (ANode z l c k R) @ caddrs C)"
      "NULL \<notin> set (addrs (ANode z l c k R) @ caddrs C)" "N \<noteq> NULL"
    and nil: "mem t N = Some nn" "color nn = RBTREE_BLACK"
    and y: "mem t y = Some \<lparr>color = cy, key = ky, parent = py, left = ly, right = rootp N R\<rparr>"
      "y \<notin> set (addrs (ANode z l c k R))" "y \<notin> set (caddrs C)" "y \<noteq> N" "y \<noteq> NULL"
    and R: "tree_h (mem t) N y R"
  shows "\<exists>t'. do { t \<leftarrow> rbtree_transplant t z y;
       zl \<leftarrow> rd t z left;
       t \<leftarrow> wr t y (set_left zl);
       yl \<leftarrow> rd t y left;
       t \<leftarrow> wr t yl (set_parent y);
       zc \<leftarrow> rd t z color;
       wr t y (set_color zc) } = Some t'
    \<and> rbz (mem t') t' C (ANode y l c ky R) \<and> nil t' = N \<and> mem t' N = mem t N
    \<and> mem t' z = mem t z
    \<and> (\<forall>a. a \<notin> set (addrs l) \<longrightarrow> a \<notin> set (caddrs C) \<longrightarrow> a \<noteq> y \<longrightarrow> mem t' a = mem t a)"
proof -
  let ?N = "N" and ?b = "rootp N l"
  have N: "?N \<notin> set (caddrs C)" "z \<noteq> ?N"
    and u: "z \<notin> set (caddrs C)" "rd t z parent = Some (cpar ?N C)"
    and D: "distinct (caddrs C)" "distinct (addrs l)" "distinct (addrs R)" "z \<notin> set (addrs l)" "z \<notin> set (addrs R)"
      "set (addrs l) \<inter> set (addrs R) = {}" "(set (addrs l) \<union> set (addrs R)) \<inter> set (caddrs C) = {}"
    using dist hz by auto
  from y have yz: "y \<noteq> z" "y \<notin> set (addrs l)" "y \<notin> set (addrs R)" by auto
  from l have b: "?b \<in> set (addrs l)" by (cases l) auto
  with tl tree_h_dom obtain nb where nb: "mem t ?b = Some nb" by blast
  from b yz D have bne: "?b \<noteq> y" "?b \<noteq> z" "?b \<notin> set (caddrs C)" "?b \<notin> set (addrs R)" by auto
  let ?y1 = "\<lparr>color = cy, key = ky, parent = cpar ?N C, left = ?b, right = rootp ?N R\<rparr>"
  let ?y2 = "\<lparr>color = c, key = ky, parent = cpar ?N C, left = ?b, right = rootp ?N R\<rparr>"
  define M where "M = (ctx_set (mem t) C y)(?b \<mapsto> set_parent y nb, y \<mapsto> ?y2)"
  let ?t' = "t\<lparr>root := (if C = [] then y else root t), mem := M\<rparr>"
  have run: "do { t \<leftarrow> rbtree_transplant t z y;
       zl \<leftarrow> rd t z left;
       t \<leftarrow> wr t y (set_left zl);
       yl \<leftarrow> rd t y left;
       t \<leftarrow> wr t yl (set_parent y);
       zc \<leftarrow> rd t z color;
       wr t y (set_color zc) } = Some ?t'"
    unfolding transplant_run [OF cz tN N u y(1) y(3)]
    using yz bne hz nb u by (simp add: M_def fun_upd_twist)
  have Mo: "M a = mem t a" if "a \<noteq> ?b" "a \<noteq> y" "a \<notin> set (caddrs C)" for a
    using that by (simp add: M_def)
  have "tree_h M ?N y l"
  proof (rule tree_h_moved [OF tl _ _ D(2)])
    show "M a = mem t a" if "a \<in> set (addrs l)" "a \<noteq> ?b" for a
      by (rule Mo) (use that yz D in auto)
    show "M ?b = Some (set_parent y (the (mem t ?b)))" using bne nb by (simp add: M_def)
  qed
  moreover have "tree_h M ?N y R"
  proof -
    have "agree (set (addrs R)) (mem t) M"
      unfolding agree_def using yz D bne by (auto intro!: Mo [symmetric])
    with R show ?thesis using tree_h_agree by blast
  qed
  moreover have "ctx_h M ?N (if C = [] then y else root t) C y"
    using ctx_h_set [OF cz D(1), of y] bne y by (simp add: M_def)
  moreover have nilM: "M ?N = mem t ?N"
    by (rule Mo) (use b N y dist in auto)
  ultimately have "rbz M ?t' C (ANode y l c ky R)"
    using dist tN nil y yz bne by (auto simp: rbz_def M_def)
  moreover have "M z = mem t z" by (rule Mo) (use bne u yz in auto)
  moreover have "M a = mem t a" if "a \<notin> set (addrs l)" "a \<notin> set (caddrs C)" "a \<noteq> y" for a
    by (rule Mo) (use that b in auto)
  ultimately show ?thesis using run nilM tN by auto
qed


lemma ctop_append: "ctop (D @ Fr a d c k s # C) = ctop (D @ Fr a' d c k' s # C)"
  by (cases D rule: ctop.cases) auto

lemma cok_append:
  "cok (D @ Fr a d c k s # C) n = cok (D @ Fr a' d c k' s # C) n"
proof (induction D arbitrary: n)
  case (Cons f D)
  then show ?case
    using ctop_append [of D a d c k s C a' k'] by (cases f) auto
qed simp

text \<open>
  The loop of \<open>rbtree_delete_fixup\<close> needs the sibling of every left child on its path to be
  black (see \<open>RBFixup\<close>). \<open>erase_path_ok\<close> says this of the path to the node that
  \<open>rbtree_erase\<close> unlinks.
\<close>

definition lsib_black :: "ctx \<Rightarrow> bool" where
  "lsib_black C \<longleftrightarrow> (\<forall>f\<in>set C. case f of Fr p d c k s \<Rightarrow> d = SideL \<longrightarrow> tcol s = RBTREE_BLACK)"

lemma lsib_black_Cons [simp]:
  "lsib_black (Fr p d c k s # C) \<longleftrightarrow> (d = SideL \<longrightarrow> tcol s = RBTREE_BLACK) \<and> lsib_black C"
  by (auto simp: lsib_black_def)

lemma lsib_black_Nil [simp]: "lsib_black []"
  by (simp add: lsib_black_def)

lemma lsib_black_append [simp]: "lsib_black (C @ D) \<longleftrightarrow> lsib_black C \<and> lsib_black D"
  by (auto simp: lsib_black_def)

fun min_path_ok :: "atree \<Rightarrow> bool" where
  "min_path_ok ALeaf = True"
| "min_path_ok (ANode a l c k r) = (l = ALeaf \<or> tcol r = RBTREE_BLACK \<and> min_path_ok l)"

fun erase_path_ok :: "addr \<Rightarrow> atree \<Rightarrow> bool" where
  "erase_path_ok z ALeaf = True"
| "erase_path_ok z (ANode a l c k r) =
     (if a = z then l = ALeaf \<or> r = ALeaf \<or> min_path_ok r
      else if z \<in> set (addrs l) then tcol r = RBTREE_BLACK \<and> erase_path_ok z l
      else erase_path_ok z r)"

lemma min_path_ok_plug:
  "lents D = [] \<Longrightarrow> T \<noteq> ALeaf \<Longrightarrow> min_path_ok (plug D T) \<longleftrightarrow> lsib_black D \<and> min_path_ok T"
  by (induction D T rule: plug.induct) auto

lemma erase_path_ok_plug:
  "z \<in> set (addrs T) \<Longrightarrow> z \<notin> set (caddrs C) \<Longrightarrow>
   erase_path_ok z (plug C T) \<longleftrightarrow> lsib_black C \<and> erase_path_ok z T"
  by (induction C T rule: plug.induct) auto

text \<open>
  What the splice establishes: \<open>V\<close> is the subtree that moved into the gap and \<open>C\<close> its path. If the
  unlinked colour was black, the path still expects one black node more than \<open>V\<close> has.
\<close>

definition spliced :: "rbtree \<Rightarrow> atree \<Rightarrow> addr \<Rightarrow> (rbtree \<times> addr \<times> color_t) option \<Rightarrow> bool" where
  "spliced t T z res \<longleftrightarrow> (\<exists>t' x yc C V xs k ys. res = Some (t', x, yc) \<and> x = rootp (nil t) V
     \<and> rbz (mem t') t' C V \<and> nil t' = nil t \<and> nil_parent t' C V
     \<and> ents T = xs @ (z, k) # ys \<and> ents (plug C V) = xs @ ys
     \<and> rb_ok V \<and> cok C (bh V + (if yc = RBTREE_BLACK then 1 else 0))
     \<and> (yc = RBTREE_RED \<longrightarrow> tcol V = RBTREE_RED \<longrightarrow> ctop C = RBTREE_BLACK \<and> C \<noteq> [])
     \<and> mem t' z \<noteq> None \<and> (erase_path_ok z T \<longrightarrow> lsib_black C) \<and> z \<notin> set (addrs (plug C V))
     \<and> (\<forall>a. a \<notin> set (addrs T) \<longrightarrow> a \<noteq> nil t \<longrightarrow> mem t' a = mem t a))"

lemma splicedI:
  "res = Some (t', rootp (nil t) V, yc) \<Longrightarrow> rbz (mem t') t' C V \<Longrightarrow> nil t' = nil t \<Longrightarrow> nil_parent t' C V \<Longrightarrow>
   ents T = xs @ (z, k) # ys \<Longrightarrow> ents (plug C V) = xs @ ys \<Longrightarrow>
   rb_ok V \<Longrightarrow> cok C (bh V + (if yc = RBTREE_BLACK then 1 else 0)) \<Longrightarrow>
   (yc = RBTREE_RED \<Longrightarrow> tcol V = RBTREE_RED \<Longrightarrow> ctop C = RBTREE_BLACK \<and> C \<noteq> []) \<Longrightarrow>
   mem t' z \<noteq> None \<Longrightarrow> (erase_path_ok z T \<Longrightarrow> lsib_black C) \<Longrightarrow> z \<notin> set (addrs (plug C V)) \<Longrightarrow>
   (\<And>a. a \<notin> set (addrs T) \<Longrightarrow> a \<noteq> nil t \<Longrightarrow> mem t' a = mem t a) \<Longrightarrow> spliced t T z res"
  unfolding spliced_def by blast

lemma splice_one_child:
  assumes z: "rbz F t C (ANode z l c k r)" and leaf: "l = ALeaf \<or> r = ALeaf"
    and rb: "rb_tree (plug C (ANode z l c k r))"
  shows "spliced t (plug C (ANode z l c k r)) z (rbtree_erase_splice t z)"
proof -
  let ?V = "if l = ALeaf then r else l"
  from z have rz: "rd t z color = Some c" "rd t z left = Some (rootp (nil t) l)"
    "rd t z right = Some (rootp (nil t) r)" and zz: "z \<notin> set (caddrs C)" "z \<noteq> nil t" "z \<notin> set (addrs ?V)"
    and hz: "mem t z \<noteq> None"
    using rbz_node [OF z] by simp_all (use z in \<open>auto simp: rbz_def\<close>)
  have tV: "tree_h (mem t) (nil t) z ?V" "distinct (addrs ?V)" "set (addrs ?V) \<subseteq> set (addrs l) \<union> set (addrs r)"
    using z by (auto simp: rbz_def)
  from transplant_focus [OF z tV] obtain t' where t': "rbtree_transplant t z (rootp (nil t) ?V) = Some t'"
    "rbz (mem t') t' C ?V" "nil t' = nil t" "nil_parent t' C ?V"
    and fr: "\<And>a. a \<notin> set (addrs ?V) \<Longrightarrow> a \<notin> set (caddrs C) \<Longrightarrow> a \<noteq> nil t \<Longrightarrow> mem t' a = mem t a"
    by blast
  from z have ll: "rootp (nil t) l = nil t \<longleftrightarrow> l = ALeaf" "rootp (nil t) r = nil t \<longleftrightarrow> r = ALeaf"
    by (auto simp: rbz_def rootp_eq_nil)
  have run: "rbtree_erase_splice t z = Some (t', rootp (nil t) ?V, c)"
    unfolding rbtree_erase_splice_def using rz ll leaf t'(1) by (cases "l = ALeaf") auto
  have e: "ents (plug C (ANode z l c k r)) = (if l = ALeaf then lents C else lents C @ ents l) @ (z, k) #
      (if l = ALeaf then ents r @ rents C else rents C)"
    "ents (plug C ?V) = (if l = ALeaf then lents C else lents C @ ents l) @ (if l = ALeaf then ents r @ rents C else rents C)"
    using leaf by auto
  from rb [unfolded rb_tree_plug] leaf have
    ok: "rb_ok ?V" "cok C (bh ?V + (if c = RBTREE_BLACK then 1 else 0))"
      "c = RBTREE_RED \<Longrightarrow> tcol ?V = RBTREE_RED \<Longrightarrow> ctop C = RBTREE_BLACK \<and> C \<noteq> []"
    by (auto split: if_splits)
  have "mem t' z \<noteq> None" using fr [of z] zz hz by auto
  moreover have "mem t' a = mem t a" if "a \<notin> set (addrs (plug C (ANode z l c k r)))" "a \<noteq> nil t" for a
    by (rule fr) (use that in \<open>auto simp: set_addrs_plug\<close>)
  moreover have "erase_path_ok z (plug C (ANode z l c k r)) \<Longrightarrow> lsib_black C"
    using zz by (simp add: erase_path_ok_plug)
  moreover have "z \<notin> set (addrs (plug C ?V))" using zz by (simp add: set_addrs_plug)
  ultimately show ?thesis
    using splicedI [OF run t'(2-4) e ok] by blast
qed

lemma rootp_plug_in: "D \<noteq> [] \<Longrightarrow> rootp N (plug D T) \<in> set (caddrs D)"
  by (induction D T rule: plug.induct) (auto, (metis caddrs.simps(1) empty_iff empty_set plug.simps(1) rootp.simps(2))+)

lemma rootp_plug_eq: "D \<noteq> [] \<Longrightarrow> rootp N (plug D T) = rootp N (plug D T')"
proof (induction D T arbitrary: T' rule: plug.induct)
  case (2 a c k s C T)
  then show ?case by (cases "C = []") auto
next
  case (3 a c k s C T)
  then show ?case by (cases "C = []") auto
qed simp

text \<open>
  The middle of the splice: \<open>y\<close> has been taken out of the right subtree of \<open>z\<close> and has become
  the parent of what is left of that subtree.
\<close>

lemma splice_mid:
  assumes yz: "rbz F t (D @ Fr z SideR c k l # C) (ANode y ALeaf cy ky yr)"
  shows "\<exists>t1 nz ly py nn. (if y \<noteq> rootp (nil t) (plug D (ANode y ALeaf cy ky yr)) then do {
           yr' \<leftarrow> rd t y right;
           t \<leftarrow> rbtree_transplant t y yr';
           zr \<leftarrow> rd t z right;
           t \<leftarrow> wr t y (set_right zr);
           yr' \<leftarrow> rd t y right;
           wr t yr' (set_parent y)
         } else wr t (rootp (nil t) yr) (set_parent y)) = Some t1 \<and> nil t1 = nil t
     \<and> ctx_h (mem t1) (nil t) (root t1) C z
     \<and> mem t1 z = Some nz \<and> color nz = c \<and> parent nz = cpar (nil t) C \<and> left nz = rootp (nil t) l
     \<and> tree_h (mem t1) (nil t) z l
     \<and> mem t1 (nil t) = Some nn \<and> color nn = RBTREE_BLACK
     \<and> (yr = ALeaf \<longrightarrow> parent nn = cpar (nil t) (D @ Fr y SideR c ky l # C))
     \<and> mem t1 y = Some \<lparr>color = cy, key = ky, parent = py, left = ly, right = rootp (nil t) (plug D yr)\<rparr>
     \<and> tree_h (mem t1) (nil t) y (plug D yr)
     \<and> (\<forall>a. a \<notin> set (addrs (plug C (ANode z l c k (plug D (ANode y ALeaf cy ky yr))))) \<longrightarrow> a \<noteq> nil t
          \<longrightarrow> mem t1 a = mem t a)"
proof (cases "D = []")
  case True
  let ?x = "rootp (nil t) yr"
  from yz True have z: "rbz F t C (ANode z l c k (ANode y ALeaf cy ky yr))"
    by (simp add: rbz_down_right)
  from z obtain nn where nn: "mem t (nil t) = Some nn" "color nn = RBTREE_BLACK" by (rule rbz_nil)
  obtain nx where nx: "mem t ?x = Some nx" "yr = ALeaf \<Longrightarrow> nx = nn" "yr \<noteq> ALeaf \<Longrightarrow> set_parent y nx = nx"
    using z nn by (cases yr) (auto simp: rbz_def)
  have xne: "?x \<noteq> z" "?x \<noteq> y" "?x \<notin> set (addrs l)" "?x \<notin> set (caddrs C)"
    using z rootp_cases [of "nil t" yr] by (auto simp: rbz_def)
  have same: "(mem t)(?x \<mapsto> set_parent y nx) = mem t" if "yr \<noteq> ALeaf"
    using nx that by auto
  let ?t1 = "t\<lparr>mem := (mem t)(?x \<mapsto> set_parent y nx)\<rparr>"
  have "wr t ?x (set_parent y) = Some ?t1" using nx by simp
  moreover have "tree_h (mem ?t1) (nil t) y yr"
    using z same by (cases "yr = ALeaf") (auto simp: rbz_def)
  moreover have "mem ?t1 (nil t) = Some (if yr = ALeaf then set_parent y nn else nn)"
    using nx nn same by (cases "yr = ALeaf") auto
  moreover have "mem ?t1 a = mem t a" if "a \<notin> set (addrs (plug C (ANode z l c k (ANode y ALeaf cy ky yr))))"
    "a \<noteq> nil t" for a
    using that rootp_cases [of "nil t" yr] by (auto simp: set_addrs_plug)
  ultimately show ?thesis
    using True xne nn z by (auto simp: rbz_def)
next
  case False
  let ?E = "D @ Fr z SideR c k l # C" and ?Y = "ANode y ALeaf cy ky yr" and ?N = "nil t"
  let ?R = "plug D yr"
  have ny: "mem t y = Some \<lparr>color = cy, key = ky, parent = cpar ?N ?E, left = ?N, right = rootp ?N yr\<rparr>"
    using rbz_node [OF yz] by simp
  have "tree_h (mem t) ?N y yr" "distinct (addrs yr)" "set (addrs yr) \<subseteq> set (addrs ALeaf) \<union> set (addrs yr)"
    using yz by (auto simp: rbz_def)
  from transplant_focus [OF yz this] obtain t0 where
    t0: "rbtree_transplant t y (rootp ?N yr) = Some t0" "rbz (mem t0) t0 ?E yr" "nil t0 = ?N" "nil_parent t0 ?E yr"
    and fr: "\<And>a. a \<notin> set (addrs yr) \<Longrightarrow> a \<notin> set (caddrs ?E) \<Longrightarrow> a \<noteq> ?N \<Longrightarrow> mem t0 a = mem t a"
    by blast
  from t0(2) have z0: "rbz (mem t0) t0 C (ANode z l c k ?R)"
    by (simp add: rbz_plug rbz_down_right)
  have y: "y \<noteq> ?N" "y \<noteq> z" "y \<notin> set (addrs l)" "y \<notin> set (caddrs C)" "y \<notin> set (addrs yr)" "y \<notin> set (caddrs D)"
    using yz by (auto simp: rbz_def)
  then have yR: "y \<notin> set (addrs ?R)" by (simp add: set_addrs_plug)
  have ny0: "mem t0 y = Some \<lparr>color = cy, key = ky, parent = cpar ?N ?E, left = ?N, right = rootp ?N yr\<rparr>"
    using fr [of y] ny y by simp
  let ?zr = "rootp ?N ?R"
  have zr: "?zr \<in> set (caddrs D)" "rootp ?N (plug D ?Y) \<in> set (caddrs D)" using rootp_plug_in False by auto
  then have zin: "?zr \<in> set (addrs ?R)" by (simp add: set_addrs_plug)
  then have Rne: "?R \<noteq> ALeaf" "?zr \<in> set (addrs ?R)" by (metis addrs.simps(1) empty_iff empty_set)+
  from z0 have T0: "tree_h (mem t0) ?N z ?R" "distinct (addrs ?R)" "z \<notin> set (addrs ?R)"
    "set (addrs l) \<inter> set (addrs ?R) = {}" "set (addrs ?R) \<inter> set (caddrs C) = {}" "?N \<notin> set (addrs ?R)"
    using t0(3) by (auto simp: rbz_def)
  obtain nzr where nzr: "mem t0 ?zr = Some nzr" using T0(1) Rne tree_h_dom by blast
  have zrr: "rd t0 z right = Some ?zr" using rbz_node [OF z0] t0(3) by simp
  let ?ny = "\<lparr>color = cy, key = ky, parent = cpar ?N ?E, left = ?N, right = ?zr\<rparr>"
  define M where "M = (mem t0)(y \<mapsto> ?ny, ?zr \<mapsto> set_parent y nzr)"
  let ?t1 = "t0\<lparr>mem := M\<rparr>"
  have yzr: "y \<noteq> ?zr" using zr y by auto
  have run: "do {
           yr' \<leftarrow> rd t y right;
           t \<leftarrow> rbtree_transplant t y yr';
           zr \<leftarrow> rd t z right;
           t \<leftarrow> wr t y (set_right zr);
           yr' \<leftarrow> rd t y right;
           wr t yr' (set_parent y) } = Some ?t1"
    using ny t0 zrr ny0 nzr yzr by (simp add: M_def)
  have Mo: "M a = mem t0 a" if "a \<noteq> y" "a \<noteq> ?zr" for a using that by (simp add: M_def)
  have "tree_h M ?N y ?R"
  proof (rule tree_h_moved [OF T0(1) _ _ T0(2)])
    show "M a = mem t0 a" if "a \<in> set (addrs ?R)" "a \<noteq> ?zr" for a
      by (rule Mo) (use that yR in auto)
    show "M ?zr = Some (set_parent y (the (mem t0 ?zr)))" using nzr by (simp add: M_def)
  qed
  moreover have "agree (set (addrs l)) (mem t0) M" "agree (set (caddrs C)) (mem t0) M"
    unfolding agree_def using y T0 Rne by (auto intro!: Mo [symmetric])
  then have "tree_h M ?N z l" "ctx_h M ?N (root t0) C z"
    using z0 t0(3) tree_h_agree ctx_h_agree by (auto simp: rbz_def)
  moreover have "M z = mem t0 z" by (rule Mo) (use y T0 Rne in auto)
  moreover have "M ?N = mem t0 ?N" by (rule Mo) (use y T0 Rne in auto)
  moreover obtain nn where "mem t0 ?N = Some nn" "color nn = RBTREE_BLACK"
    using t0(2,3) by (metis rbz_nil)
  moreover have "yr = ALeaf \<Longrightarrow> parent nn = cpar ?N (D @ Fr y SideR c ky l # C)"
    using t0(3,4) \<open>mem t0 ?N = Some nn\<close> False by (cases D rule: caddrs.cases) (auto simp: nil_parent_def)
  moreover have "M a = mem t a" if "a \<notin> set (addrs (plug C (ANode z l c k (plug D ?Y))))" "a \<noteq> ?N" for a
  proof -
    have "M a = mem t0 a" by (rule Mo) (use that zr in \<open>auto simp: set_addrs_plug\<close>)
    also have "\<dots> = mem t a" by (rule fr) (use that in \<open>auto simp: set_addrs_plug\<close>)
    finally show ?thesis .
  qed
  moreover have "y \<noteq> rootp ?N (plug D ?Y)" using zr y by auto
  moreover have "M y = Some ?ny" using yzr by (simp add: M_def)
  ultimately show ?thesis
    using run rbz_node [OF z0] t0(3) by simp
qed

text \<open>The case with two children, where \<open>y\<close> is the leftmost node of the right subtree.\<close>

lemma splice_two_children:
  assumes z: "rbz F t C (ANode z l c k r)" and l: "l \<noteq> ALeaf" and r: "r \<noteq> ALeaf"
    and rb: "rb_tree (plug C (ANode z l c k r))"
  shows "spliced t (plug C (ANode z l c k r)) z (rbtree_erase_splice t z)"
proof -
  let ?N = "nil t"
  from z have rz: "rd t z color = Some c" "rd t z left = Some (rootp ?N l)" "rd t z right = Some (rootp ?N r)"
    and ll: "rootp ?N l \<noteq> ?N" "rootp ?N r \<noteq> ?N" and zN: "z \<noteq> ?N"
    using l r by (auto simp: rbz_def rootp_eq_nil)
  obtain a rl rc rk rr where ra: "r = ANode a rl rc rk rr" using r by (cases r) auto
  have zr: "rbz F t (Fr z SideR c k l # C) r" using z by (simp add: rbz_down_right)
  have "\<exists>D y cy ky yr. r = plug D (ANode y ALeaf cy ky yr) \<and> lents D = []
      \<and> tree_minimum t (rootp ?N r) = Some y"
    unfolding ra rootp.simps by (rule tree_minimum_plug [OF zr [unfolded ra]])
  then obtain D y cy ky yr where
    D: "r = plug D (ANode y ALeaf cy ky yr)" "lents D = []" "tree_minimum t (rootp ?N r) = Some y"
    by blast
  let ?E = "D @ Fr z SideR c k l # C" and ?Y = "ANode y ALeaf cy ky yr"
  have yz: "rbz F t ?E ?Y" using zr D by (simp add: rbz_plug)
  have ry: "rd t y color = Some cy" "rd t y right = Some (rootp ?N yr)"
    "mem t y = Some \<lparr>color = cy, key = ky, parent = cpar ?N ?E, left = ?N, right = rootp ?N yr\<rparr>"
    using rbz_node [OF yz] by auto
  from yz have y: "y \<noteq> ?N" "y \<noteq> NULL" "y \<noteq> z" "y \<notin> set (addrs l)" "y \<notin> set (caddrs C)" "y \<notin> set (addrs yr)"
    "y \<notin> set (caddrs D)" by (auto simp: rbz_def)
  have eT: "ents (plug C (ANode z l c k r)) = (lents C @ ents l) @ (z, k) # ((y, ky) # ents yr @ rents D @ rents C)"
    using D by simp
  have eV: "ents (plug (D @ Fr y SideR c ky l # C) yr) = (lents C @ ents l) @ ((y, ky) # ents yr @ rents D @ rents C)"
    using D by simp
  have aT: "set (addrs (plug C (ANode z l c k r))) =
      insert z (insert y (set (addrs l) \<union> set (addrs yr) \<union> set (caddrs D) \<union> set (caddrs C)))"
    using D by (auto simp: set_addrs_plug)
  have plE: "plug C (ANode z l c k r) = plug ?E ?Y" using D by simp
  from rb [unfolded plE rb_tree_plug] have
    ok: "rb_ok yr" "cok (D @ Fr y SideR c ky l # C) (bh yr + (if cy = RBTREE_BLACK then 1 else 0))"
      "cy = RBTREE_RED \<Longrightarrow> tcol yr = RBTREE_RED \<Longrightarrow>
         ctop (D @ Fr y SideR c ky l # C) = RBTREE_BLACK \<and> D @ Fr y SideR c ky l # C \<noteq> []"
    using cok_append [of D z SideR c k l C _ y ky] ctop_append [of D z SideR c k l C y ky] by auto
  obtain t1 nz ly py nn where
    t1: "(if y \<noteq> rootp ?N r then do {
           yr' \<leftarrow> rd t y right;
           t \<leftarrow> rbtree_transplant t y yr';
           zr \<leftarrow> rd t z right;
           t \<leftarrow> wr t y (set_right zr);
           yr' \<leftarrow> rd t y right;
           wr t yr' (set_parent y)
         } else wr t (rootp ?N yr) (set_parent y)) = Some t1" "nil t1 = ?N"
    and m: "ctx_h (mem t1) ?N (root t1) C z"
      "mem t1 z = Some nz" "color nz = c" "parent nz = cpar ?N C" "left nz = rootp ?N l"
      "tree_h (mem t1) ?N z l" "mem t1 ?N = Some nn" "color nn = RBTREE_BLACK"
      "yr = ALeaf \<longrightarrow> parent nn = cpar ?N (D @ Fr y SideR c ky l # C)"
      "mem t1 y = Some \<lparr>color = cy, key = ky, parent = py, left = ly, right = rootp ?N (plug D yr)\<rparr>"
      "tree_h (mem t1) ?N y (plug D yr)"
      "\<And>a. a \<notin> set (addrs (plug C (ANode z l c k r))) \<Longrightarrow> a \<noteq> ?N \<Longrightarrow> mem t1 a = mem t a"
    using splice_mid [OF yz, folded D(1)] by (elim exE conjE) blast
  have dd: "distinct (addrs (ANode z l c k (plug D yr)) @ caddrs C)"
      "?N \<notin> set (addrs (ANode z l c k (plug D yr)) @ caddrs C)"
      "NULL \<notin> set (addrs (ANode z l c k (plug D yr)) @ caddrs C)" "?N \<noteq> NULL"
      "y \<notin> set (addrs (ANode z l c k (plug D yr)))"
    using yz y by (auto simp: rbz_def set_addrs_plug distinct_plug)
  from replace_node [OF m(1) t1(2) m(2-6) l dd(1-4) m(7,8,10) dd(5) y(5,1,2) m(11)] obtain t2 where
    t2: "do { t \<leftarrow> rbtree_transplant t1 z y;
       zl \<leftarrow> rd t z left;
       t \<leftarrow> wr t y (set_left zl);
       yl \<leftarrow> rd t y left;
       t \<leftarrow> wr t yl (set_parent y);
       zc \<leftarrow> rd t z color;
       wr t y (set_color zc) } = Some t2" "nil t2 = ?N" "mem t2 ?N = mem t1 ?N" "mem t2 z = mem t1 z"
    and z2: "rbz (mem t2) t2 C (ANode y l c ky (plug D yr))"
    and fr2: "\<And>a. a \<notin> set (addrs l) \<Longrightarrow> a \<notin> set (caddrs C) \<Longrightarrow> a \<noteq> y \<Longrightarrow> mem t2 a = mem t1 a"
    by blast
  have run: "rbtree_erase_splice t z = Some (t2, rootp ?N yr, cy)"
  proof -
    have "rbtree_erase_splice t z = do {
        t \<leftarrow> do { t \<leftarrow> rbtree_transplant t1 z y;
       zl \<leftarrow> rd t z left;
       t \<leftarrow> wr t y (set_left zl);
       yl \<leftarrow> rd t y left;
       t \<leftarrow> wr t yl (set_parent y);
       zc \<leftarrow> rd t z color;
       wr t y (set_color zc) }; Some (t, rootp ?N yr, cy) }"
      unfolding rbtree_erase_splice_def using rz ll D(3) ry t1 by (simp split del: if_split)
    with t2 show ?thesis by simp
  qed
  from z2 have zf: "rbz (mem t2) t2 (D @ Fr y SideR c ky l # C) yr"
    by (simp add: rbz_plug rbz_down_right)
  have np: "nil_parent t2 (D @ Fr y SideR c ky l # C) yr"
    using m(7,9) t2 by (simp add: nil_parent_def)
  have "mem t2 z \<noteq> None" using t2 m by simp
  moreover have "mem t2 a = mem t a" if "a \<notin> set (addrs (plug C (ANode z l c k r)))" "a \<noteq> ?N" for a
  proof -
    have "mem t2 a = mem t1 a" by (rule fr2) (use that aT in auto)
    with m(12) that show ?thesis by simp
  qed
  moreover have "lsib_black (D @ Fr y SideR c ky l # C)" if "erase_path_ok z (plug C (ANode z l c k r))"
    using that z l r D min_path_ok_plug [of D ?Y] by (auto simp: rbz_def erase_path_ok_plug)
  moreover have "z \<notin> set (addrs (plug (D @ Fr y SideR c ky l # C) yr))"
    using yz y by (auto simp: rbz_def set_addrs_plug)
  ultimately show ?thesis
    using splicedI [OF run zf t2(2) np eT eV ok] by blast
qed

end
