(* ===== verification/RBFixup.thy ===== *)
theory RBFixup
  imports RBErase
begin

text \<open>
  The loop of \<open>rbtree_delete_fixup\<close> and the theorem about \<open>rbtree_erase\<close>. The focus \<open>V\<close> of the
  zipper is the node \<open>x\<close> of the loop, and the path expects one black node more than \<open>V\<close> has.
  In the left branch the code fetches the new sibling as \<open>w->parent->right\<close> where the right
  branch has \<open>x->parent->left\<close>, so the loop is correct only on paths on which no left child
  has a red sibling (\<open>lsib_black\<close>); the counterexample is in \<open>RBQuery\<close>.
\<close>

fun blk :: "atree \<Rightarrow> atree" where
  "blk ALeaf = ALeaf"
| "blk (ANode a l c k r) = ANode a l RBTREE_BLACK k r"

lemma ents_blk [simp]: "ents (blk T) = ents T"
  by (cases T) auto

lemma bh_blk: "bh (blk T) = bh T + (if tcol T = RBTREE_RED then 1 else 0)"
  by (cases T) auto

lemma tcol_blk [simp]: "tcol (blk T) = RBTREE_BLACK"
  by (cases T) auto

lemma blk_id [simp]: "tcol T = RBTREE_BLACK \<Longrightarrow> blk T = T"
  by (cases T) auto

lemma rb_ok_blk [simp]: "rb_ok T \<Longrightarrow> rb_ok (blk T)"
  by (cases T) auto

text \<open>The parent pointer of the focus, which is in the sentinel when the focus is empty.\<close>

definition fpar :: "node_t heap \<Rightarrow> addr \<Rightarrow> atree \<Rightarrow> addr \<Rightarrow> bool" where
  "fpar F N V p \<longleftrightarrow> (V = ALeaf \<longrightarrow> (\<exists>n. F N = Some n \<and> parent n = p))"

lemma rd_focus_parent:
  assumes "rbz F t (Fr p d c k s # C) V" "fpar F (nil t) V p"
  shows "rd t (rootp (nil t) V) parent = Some p"
proof (cases V)
  case ALeaf
  with assms obtain n where "F (nil t) = Some n" "parent n = p" by (auto simp: fpar_def)
  moreover have "mem t (nil t) = F (nil t)" using assms by (auto simp: rbz_def)
  ultimately show ?thesis using ALeaf by simp
next
  case (ANode a l c' k' r)
  then show ?thesis using assms rbz_node by fastforce
qed

text \<open>What one round does to the tree.\<close>

definition dfixed :: "node_t heap \<Rightarrow> ctx \<Rightarrow> atree \<Rightarrow> rbtree \<Rightarrow> (rbtree \<times> addr) option \<Rightarrow> bool" where
  "dfixed F C V t res \<longleftrightarrow> (\<exists>t' C' V'. res = Some (t', rootp (nil t) V') \<and> nil t' = nil t
     \<and> rbz F t' C' V' \<and> V' \<noteq> ALeaf \<and> ents (plug C' V') = ents (plug C V)
     \<and> rb_ok (blk V') \<and> cok C' (bh V' + 1)
     \<and> (C' = [] \<or> C' = tl C \<and> tcol V' = ctop C))"

lemma dfixedI:
  "res = Some (t', rootp (nil t) V') \<Longrightarrow> nil t' = nil t \<Longrightarrow> rbz F t' C' V' \<Longrightarrow> V' \<noteq> ALeaf \<Longrightarrow>
   ents (plug C' V') = ents (plug C V) \<Longrightarrow> rb_ok (blk V') \<Longrightarrow> cok C' (bh V' + 1) \<Longrightarrow>
   C' = [] \<or> C' = tl C \<and> tcol V' = ctop C \<Longrightarrow> dfixed F C V t res"
  unfolding dfixed_def by blast

lemma plug_not_leaf: "T \<noteq> ALeaf \<Longrightarrow> plug C T \<noteq> ALeaf"
  by (induction C T rule: plug.induct) auto

text \<open>A round that ends with \<open>x = t->root\<close>.\<close>

lemma dfixed_rootI:
  assumes "res = Some (t', root t')" "nil t' = nil t" "rbz F t' D W" "W \<noteq> ALeaf"
    and "ents (plug D W) = ents (plug C V)" "rb_tree (plug D W)"
  shows "dfixed F C V t res"
proof (rule dfixedI [where t' = t' and C' = "[]" and V' = "plug D W"])
  have z: "rbz F t' [] (plug D W)" using assms(3) rbz_to_root by blast
  then show "rbz F t' [] (plug D W)" .
  then show "res = Some (t', rootp (nil t) (plug D W))" using assms(1,2) by (simp add: rbz_def)
qed (use assms plug_not_leaf in \<open>auto simp: rb_tree_def\<close>)

subsection \<open>Case 4\<close>

lemma delete_case4_left:
  assumes z: "rbz F t C (ANode p V cp kp (ANode w wl cw kw (ANode v vl cv kv vr)))"
    and x: "rd t x parent = Some p"
  shows "\<exists>t'. do { xp \<leftarrow> rd t x parent;
       xpc \<leftarrow> rd t xp color;
       t \<leftarrow> wr t w (set_color xpc);
       t \<leftarrow> wr t xp (set_color RBTREE_BLACK);
       wr' \<leftarrow> rd t w right;
       t \<leftarrow> wr t wr' (set_color RBTREE_BLACK);
       t \<leftarrow> left_rotate t xp;
       Some (t, root t) } = Some (t', root t') \<and> nil t' = nil t
    \<and> rbz F t' C (ANode w (ANode p V RBTREE_BLACK kp wl) cp kw (ANode v vl RBTREE_BLACK kv vr))"
proof -
  from z have d: "distinct (addrs (ANode p V cp kp (ANode w wl cw kw (ANode v vl cv kv vr))))"
    by (rule rbz_dist_focus)
  have pc: "rd t p color = Some cp" using z by (simp add: rbz_def)
  obtain t1 where t1: "wr t w (set_color cp) = Some t1" "nil t1 = nil t"
    and z1: "rbz F t1 C (ANode p V cp kp (ANode w wl cp kw (ANode v vl cv kv vr)))"
    using wr_focus_color [OF z, of w cp] d by auto
  obtain t2 where t2: "wr t1 p (set_color RBTREE_BLACK) = Some t2" "nil t2 = nil t1"
    and z2: "rbz F t2 C (ANode p V RBTREE_BLACK kp (ANode w wl cp kw (ANode v vl cv kv vr)))"
    using wr_focus_color [OF z1, of p RBTREE_BLACK] d by auto
  have wr: "rd t2 w right = Some v" using z2 by (simp add: rbz_def)
  obtain t3 where t3: "wr t2 v (set_color RBTREE_BLACK) = Some t3" "nil t3 = nil t2"
    and z3: "rbz F t3 C (ANode p V RBTREE_BLACK kp (ANode w wl cp kw (ANode v vl RBTREE_BLACK kv vr)))"
    using wr_focus_color [OF z2, of v RBTREE_BLACK] d by auto
  obtain t4 where t4: "left_rotate t3 p = Some t4" "nil t4 = nil t3"
    and z4: "rbz F t4 C (ANode w (ANode p V RBTREE_BLACK kp wl) cp kw (ANode v vl RBTREE_BLACK kv vr))"
    using left_rotate_zip [OF z3] by metis
  from x pc t1 t2 wr t3 t4 z4 show ?thesis by simp
qed

text \<open>Case 3 turns the pair \<open>w\<close>, red left child into the shape of case 4.\<close>

lemma delete_case3_left:
  assumes z: "rbz F t (Fr p SideL cp kp (ANode w (ANode u ul cu ku ur) cw kw wd) # C) V"
    and np: "fpar F (nil t) V p" and x: "x = rootp (nil t) V"
  shows "\<exists>t'. do { t \<leftarrow> wr t u (set_color RBTREE_BLACK);
       t \<leftarrow> wr t w (set_color RBTREE_RED);
       t \<leftarrow> right_rotate t w;
       xp \<leftarrow> rd t x parent;
       w' \<leftarrow> rd t xp right;
       Some (t, w') } = Some (t', u) \<and> nil t' = nil t
    \<and> rbz F t' (Fr p SideL cp kp (ANode u ul RBTREE_BLACK ku (ANode w ur RBTREE_RED kw wd)) # C) V"
proof -
  from z have z0: "rbz F t (Fr p SideR cp kp V # C) (ANode w (ANode u ul cu ku ur) cw kw wd)"
    by (simp flip: rbz_down_left rbz_down_right)
  from z0 have d: "distinct (addrs (ANode w (ANode u ul cu ku ur) cw kw wd))"
    by (rule rbz_dist_focus)
  obtain t1 where t1: "wr t u (set_color RBTREE_BLACK) = Some t1" "nil t1 = nil t"
    and z1: "rbz F t1 (Fr p SideR cp kp V # C) (ANode w (ANode u ul RBTREE_BLACK ku ur) cw kw wd)"
    using wr_focus_color [OF z0, of u RBTREE_BLACK] d by auto
  obtain t2 where t2: "wr t1 w (set_color RBTREE_RED) = Some t2" "nil t2 = nil t1"
    and z2: "rbz F t2 (Fr p SideR cp kp V # C) (ANode w (ANode u ul RBTREE_BLACK ku ur) RBTREE_RED kw wd)"
    using wr_focus_color [OF z1, of w RBTREE_RED] d by auto
  obtain t3 where t3: "right_rotate t2 w = Some t3" "nil t3 = nil t2"
    and z3: "rbz F t3 (Fr p SideR cp kp V # C) (ANode u ul RBTREE_BLACK ku (ANode w ur RBTREE_RED kw wd))"
    using right_rotate_zip [OF z2] by metis
  from z3 have z4: "rbz F t3 (Fr p SideL cp kp (ANode u ul RBTREE_BLACK ku (ANode w ur RBTREE_RED kw wd)) # C) V"
    by (simp flip: rbz_down_left rbz_down_right)
  have "rd t3 x parent = Some p" using rd_focus_parent [OF z4] np x t1 t2 t3 by simp
  moreover have "rd t3 p right = Some u" using rbz_frame [OF z4] by (simp add: frame_node_def)
  ultimately show ?thesis using t1 t2 t3 z4 by simp
qed

lemma delete_fixup_left_dfixed:
  assumes z: "rbz F t (Fr p SideL cp kp (ANode w wl RBTREE_BLACK kw wd) # C) V"
    and np: "fpar F (nil t) V p"
    and ok: "rb_ok V" "tcol V = RBTREE_BLACK" "cok (Fr p SideL cp kp (ANode w wl RBTREE_BLACK kw wd) # C) (bh V + 1)"
  shows "dfixed F (Fr p SideL cp kp (ANode w wl RBTREE_BLACK kw wd) # C) V t (delete_fixup_left t (rootp (nil t) V) w)"
proof -
  let ?x = "rootp (nil t) V" and ?C = "Fr p SideL cp kp (ANode w wl RBTREE_BLACK kw wd) # C"
  from z have z0: "rbz F t C (ANode p V cp kp (ANode w wl RBTREE_BLACK kw wd))"
    by (simp flip: rbz_down_left)
  then have zw: "rbz F t (Fr p SideR cp kp V # C) (ANode w wl RBTREE_BLACK kw wd)"
    by (simp add: rbz_down_right)
  from z0 have d: "distinct (addrs (ANode p V cp kp (ANode w wl RBTREE_BLACK kw wd)))"
    by (rule rbz_dist_focus)
  have rw: "rd t w left = Some (rootp (nil t) wl)" "rd t w right = Some (rootp (nil t) wd)"
    using rbz_node [OF zw] by simp_all
  have rc: "rd t (rootp (nil t) wl) color = Some (tcol wl)" "rd t (rootp (nil t) wd) color = Some (tcol wd)"
    using rbz_focus_color [OF zw [unfolded rbz_down_left [of _ _ _ w]]]
      rbz_focus_color [OF zw [unfolded rbz_down_right [of _ _ _ w]]] by simp_all
  have xp: "rd t ?x parent = Some p" by (rule rd_focus_parent [OF z np])
  show ?thesis
  proof (cases "tcol wl = RBTREE_BLACK \<and> tcol wd = RBTREE_BLACK")
    case True
    obtain t1 where t1: "wr t w (set_color RBTREE_RED) = Some t1" "nil t1 = nil t"
      and z1: "rbz F t1 C (ANode p V cp kp (ANode w wl RBTREE_RED kw wd))"
      using wr_focus_color [OF z0, of w RBTREE_RED] d by auto
    have xp1: "rd t1 ?x parent = Some p"
      using rd_focus_parent [OF z1 [unfolded rbz_down_left]] np t1 by simp
    have run: "delete_fixup_left t ?x w = Some (t1, rootp (nil t) (ANode p V cp kp (ANode w wl RBTREE_RED kw wd)))"
      unfolding delete_fixup_left_def using rw rc True t1 xp1 by simp
    show ?thesis
      by (rule dfixedI [OF run t1(2) z1]) (use ok True in auto)
  next
    case False
    have tail: "dfixed F ?C V t (do { xp \<leftarrow> rd t' ?x parent;
       xpc \<leftarrow> rd t' xp color;
       t \<leftarrow> wr t' u (set_color xpc);
       t \<leftarrow> wr t xp (set_color RBTREE_BLACK);
       wr' \<leftarrow> rd t u right;
       t \<leftarrow> wr t wr' (set_color RBTREE_BLACK);
       t \<leftarrow> left_rotate t xp;
       Some (t, root t) })"
      if z': "rbz F t' (Fr p SideL cp kp (ANode u ul RBTREE_BLACK ku (ANode v vl cv kv vr)) # C) V"
        and n': "nil t' = nil t" and e: "ents (ANode u ul RBTREE_BLACK ku (ANode v vl cv kv vr)) = ents (ANode w wl RBTREE_BLACK kw wd)"
        and k': "rb_ok ul" "rb_ok (ANode v vl RBTREE_BLACK kv vr)" "bh ul = bh V" "bh vl = bh V"
      for t' u ul ku v vl cv kv vr
    proof -
      have "rd t' ?x parent = Some p" using rd_focus_parent [OF z'] np n' by simp
      from delete_case4_left [OF z' [folded rbz_down_left] this] obtain t4 where
        t4: "do { xp \<leftarrow> rd t' ?x parent;
       xpc \<leftarrow> rd t' xp color;
       t \<leftarrow> wr t' u (set_color xpc);
       t \<leftarrow> wr t xp (set_color RBTREE_BLACK);
       wr' \<leftarrow> rd t u right;
       t \<leftarrow> wr t wr' (set_color RBTREE_BLACK);
       t \<leftarrow> left_rotate t xp;
       Some (t, root t) } = Some (t4, root t4)" "nil t4 = nil t'"
        and z4: "rbz F t4 C (ANode u (ANode p V RBTREE_BLACK kp ul) cp ku (ANode v vl RBTREE_BLACK kv vr))"
        by blast
      show ?thesis
        by (rule dfixed_rootI [OF t4(1) _ z4]) (use t4 n' e k' ok in \<open>auto simp: rb_tree_plug\<close>)
    qed
    show ?thesis
    proof (cases "tcol wd")
      case RBTREE_BLACK
      with False obtain u ul ku ur where u: "wl = ANode u ul RBTREE_RED ku ur" by (cases wl) auto
      from delete_case3_left [OF z [unfolded u] np refl] obtain t' where
        t': "do { t \<leftarrow> wr t u (set_color RBTREE_BLACK);
       t \<leftarrow> wr t w (set_color RBTREE_RED);
       t \<leftarrow> right_rotate t w;
       xp \<leftarrow> rd t ?x parent;
       w' \<leftarrow> rd t xp right;
       Some (t, w') } = Some (t', u)" "nil t' = nil t"
        and z': "rbz F t' (Fr p SideL cp kp (ANode u ul RBTREE_BLACK ku (ANode w ur RBTREE_RED kw wd)) # C) V"
        by blast
      show ?thesis
        unfolding delete_fixup_left_def using rw rc False RBTREE_BLACK t' u
          tail [OF z' t'(2)] ok by simp
    next
      case RBTREE_RED
      then obtain v vl kv vr where v: "wd = ANode v vl RBTREE_RED kv vr" by (cases wd) auto
      show ?thesis
        unfolding delete_fixup_left_def using rw rc False RBTREE_RED
          tail [OF z [unfolded v] refl] ok v by simp
    qed
  qed
qed

subsection \<open>The right branch\<close>

lemma delete_case4_right:
  assumes z: "rbz F t C (ANode p (ANode w (ANode v vr cv kv vl) cw kw wl) cp kp V)"
    and x: "rd t x parent = Some p"
  shows "\<exists>t'. do { xp \<leftarrow> rd t x parent;
       xpc \<leftarrow> rd t xp color;
       t \<leftarrow> wr t w (set_color xpc);
       t \<leftarrow> wr t xp (set_color RBTREE_BLACK);
       wr' \<leftarrow> rd t w left;
       t \<leftarrow> wr t wr' (set_color RBTREE_BLACK);
       t \<leftarrow> right_rotate t xp;
       Some (t, root t) } = Some (t', root t') \<and> nil t' = nil t
    \<and> rbz F t' C (ANode w (ANode v vr RBTREE_BLACK kv vl) cp kw (ANode p wl RBTREE_BLACK kp V))"
proof -
  from z have d: "distinct (addrs (ANode p (ANode w (ANode v vr cv kv vl) cw kw wl) cp kp V))"
    by (rule rbz_dist_focus)
  have pc: "rd t p color = Some cp" using z by (simp add: rbz_def)
  obtain t1 where t1: "wr t w (set_color cp) = Some t1" "nil t1 = nil t"
    and z1: "rbz F t1 C (ANode p (ANode w (ANode v vr cv kv vl) cp kw wl) cp kp V)"
    using wr_focus_color [OF z, of w cp] d by auto
  obtain t2 where t2: "wr t1 p (set_color RBTREE_BLACK) = Some t2" "nil t2 = nil t1"
    and z2: "rbz F t2 C (ANode p (ANode w (ANode v vr cv kv vl) cp kw wl) RBTREE_BLACK kp V)"
    using wr_focus_color [OF z1, of p RBTREE_BLACK] d by auto
  have wr: "rd t2 w left = Some v" using z2 by (simp add: rbz_def)
  obtain t3 where t3: "wr t2 v (set_color RBTREE_BLACK) = Some t3" "nil t3 = nil t2"
    and z3: "rbz F t3 C (ANode p (ANode w (ANode v vr RBTREE_BLACK kv vl) cp kw wl) RBTREE_BLACK kp V)"
    using wr_focus_color [OF z2, of v RBTREE_BLACK] d by auto
  obtain t4 where t4: "right_rotate t3 p = Some t4" "nil t4 = nil t3"
    and z4: "rbz F t4 C (ANode w (ANode v vr RBTREE_BLACK kv vl) cp kw (ANode p wl RBTREE_BLACK kp V))"
    using right_rotate_zip [OF z3] by metis
  from x pc t1 t2 wr t3 t4 z4 show ?thesis by simp
qed



lemma delete_case3_right:
  assumes z: "rbz F t (Fr p SideR cp kp (ANode w wd cw kw (ANode u ur cu ku ul)) # C) V"
    and np: "fpar F (nil t) V p" and x: "x = rootp (nil t) V"
  shows "\<exists>t'. do { t \<leftarrow> wr t u (set_color RBTREE_BLACK);
       t \<leftarrow> wr t w (set_color RBTREE_RED);
       t \<leftarrow> left_rotate t w;
       xp \<leftarrow> rd t x parent;
       w' \<leftarrow> rd t xp left;
       Some (t, w') } = Some (t', u) \<and> nil t' = nil t
    \<and> rbz F t' (Fr p SideR cp kp (ANode u (ANode w wd RBTREE_RED kw ur) RBTREE_BLACK ku ul) # C) V"
proof -
  from z have z0: "rbz F t (Fr p SideL cp kp V # C) (ANode w wd cw kw (ANode u ur cu ku ul))"
    by (simp flip: rbz_down_right rbz_down_left)
  from z0 have d: "distinct (addrs (ANode w wd cw kw (ANode u ur cu ku ul)))"
    by (rule rbz_dist_focus)
  obtain t1 where t1: "wr t u (set_color RBTREE_BLACK) = Some t1" "nil t1 = nil t"
    and z1: "rbz F t1 (Fr p SideL cp kp V # C) (ANode w wd cw kw (ANode u ur RBTREE_BLACK ku ul))"
    using wr_focus_color [OF z0, of u RBTREE_BLACK] d by auto
  obtain t2 where t2: "wr t1 w (set_color RBTREE_RED) = Some t2" "nil t2 = nil t1"
    and z2: "rbz F t2 (Fr p SideL cp kp V # C) (ANode w wd RBTREE_RED kw (ANode u ur RBTREE_BLACK ku ul))"
    using wr_focus_color [OF z1, of w RBTREE_RED] d by auto
  obtain t3 where t3: "left_rotate t2 w = Some t3" "nil t3 = nil t2"
    and z3: "rbz F t3 (Fr p SideL cp kp V # C) (ANode u (ANode w wd RBTREE_RED kw ur) RBTREE_BLACK ku ul)"
    using left_rotate_zip [OF z2] by metis
  from z3 have z4: "rbz F t3 (Fr p SideR cp kp (ANode u (ANode w wd RBTREE_RED kw ur) RBTREE_BLACK ku ul) # C) V"
    by (simp flip: rbz_down_right rbz_down_left)
  have "rd t3 x parent = Some p" using rd_focus_parent [OF z4] np x t1 t2 t3 by simp
  moreover have "rd t3 p left = Some u" using rbz_frame [OF z4] by (simp add: frame_node_def)
  ultimately show ?thesis using t1 t2 t3 z4 by simp
qed

lemma delete_fixup_right_dfixed:
  assumes z: "rbz F t (Fr p SideR cp kp (ANode w wd RBTREE_BLACK kw wl) # C) V"
    and np: "fpar F (nil t) V p"
    and ok: "rb_ok V" "tcol V = RBTREE_BLACK" "cok (Fr p SideR cp kp (ANode w wd RBTREE_BLACK kw wl) # C) (bh V + 1)"
  shows "dfixed F (Fr p SideR cp kp (ANode w wd RBTREE_BLACK kw wl) # C) V t (delete_fixup_right t (rootp (nil t) V) w)"
proof -
  let ?x = "rootp (nil t) V" and ?C = "Fr p SideR cp kp (ANode w wd RBTREE_BLACK kw wl) # C"
  from z have z0: "rbz F t C (ANode p (ANode w wd RBTREE_BLACK kw wl) cp kp V)"
    by (simp flip: rbz_down_right)
  then have zw: "rbz F t (Fr p SideL cp kp V # C) (ANode w wd RBTREE_BLACK kw wl)"
    by (simp add: rbz_down_left)
  from z0 have d: "distinct (addrs (ANode p (ANode w wd RBTREE_BLACK kw wl) cp kp V))"
    by (rule rbz_dist_focus)
  have rw: "rd t w right = Some (rootp (nil t) wl)" "rd t w left = Some (rootp (nil t) wd)"
    using rbz_node [OF zw] by simp_all
  have rc: "rd t (rootp (nil t) wl) color = Some (tcol wl)" "rd t (rootp (nil t) wd) color = Some (tcol wd)"
    using rbz_focus_color [OF zw [unfolded rbz_down_right [of _ _ _ w]]]
      rbz_focus_color [OF zw [unfolded rbz_down_left [of _ _ _ w]]] by simp_all
  have xp: "rd t ?x parent = Some p" by (rule rd_focus_parent [OF z np])
  show ?thesis
  proof (cases "tcol wl = RBTREE_BLACK \<and> tcol wd = RBTREE_BLACK")
    case True
    obtain t1 where t1: "wr t w (set_color RBTREE_RED) = Some t1" "nil t1 = nil t"
      and z1: "rbz F t1 C (ANode p (ANode w wd RBTREE_RED kw wl) cp kp V)"
      using wr_focus_color [OF z0, of w RBTREE_RED] d by auto
    have xp1: "rd t1 ?x parent = Some p"
      using rd_focus_parent [OF z1 [unfolded rbz_down_right]] np t1 by simp
    have run: "delete_fixup_right t ?x w = Some (t1, rootp (nil t) (ANode p (ANode w wd RBTREE_RED kw wl) cp kp V))"
      unfolding delete_fixup_right_def using rw rc True t1 xp1 by simp
    show ?thesis
      by (rule dfixedI [OF run t1(2) z1]) (use ok True in auto)
  next
    case False
    have tail: "dfixed F ?C V t (do { xp \<leftarrow> rd t' ?x parent;
       xpc \<leftarrow> rd t' xp color;
       t \<leftarrow> wr t' u (set_color xpc);
       t \<leftarrow> wr t xp (set_color RBTREE_BLACK);
       wr' \<leftarrow> rd t u left;
       t \<leftarrow> wr t wr' (set_color RBTREE_BLACK);
       t \<leftarrow> right_rotate t xp;
       Some (t, root t) })"
      if z': "rbz F t' (Fr p SideR cp kp (ANode u (ANode v vr cv kv vl) RBTREE_BLACK ku ul) # C) V"
        and n': "nil t' = nil t" and e: "ents (ANode u (ANode v vr cv kv vl) RBTREE_BLACK ku ul) = ents (ANode w wd RBTREE_BLACK kw wl)"
        and k': "rb_ok ul" "rb_ok (ANode v vr RBTREE_BLACK kv vl)" "bh ul = bh V" "bh vl = bh V"
      for t' u ul ku v vl cv kv vr
    proof -
      have "rd t' ?x parent = Some p" using rd_focus_parent [OF z'] np n' by simp
      from delete_case4_right [OF z' [folded rbz_down_right] this] obtain t4 where
        t4: "do { xp \<leftarrow> rd t' ?x parent;
       xpc \<leftarrow> rd t' xp color;
       t \<leftarrow> wr t' u (set_color xpc);
       t \<leftarrow> wr t xp (set_color RBTREE_BLACK);
       wr' \<leftarrow> rd t u left;
       t \<leftarrow> wr t wr' (set_color RBTREE_BLACK);
       t \<leftarrow> right_rotate t xp;
       Some (t, root t) } = Some (t4, root t4)" "nil t4 = nil t'"
        and z4: "rbz F t4 C (ANode u (ANode v vr RBTREE_BLACK kv vl) cp ku (ANode p ul RBTREE_BLACK kp V))"
        by blast
      show ?thesis
        by (rule dfixed_rootI [OF t4(1) _ z4]) (use t4 n' e k' ok in \<open>auto simp: rb_tree_plug\<close>)
    qed
    show ?thesis
    proof (cases "tcol wd")
      case RBTREE_BLACK
      with False obtain u ul ku ur where u: "wl = ANode u ur RBTREE_RED ku ul" by (cases wl) auto
      from delete_case3_right [OF z [unfolded u] np refl] obtain t' where
        t': "do { t \<leftarrow> wr t u (set_color RBTREE_BLACK);
       t \<leftarrow> wr t w (set_color RBTREE_RED);
       t \<leftarrow> left_rotate t w;
       xp \<leftarrow> rd t ?x parent;
       w' \<leftarrow> rd t xp left;
       Some (t, w') } = Some (t', u)" "nil t' = nil t"
        and z': "rbz F t' (Fr p SideR cp kp (ANode u (ANode w wd RBTREE_RED kw ur) RBTREE_BLACK ku ul) # C) V"
        by blast
      show ?thesis
        unfolding delete_fixup_right_def using rw rc False RBTREE_BLACK t' u
          tail [OF z' t'(2)] ok by simp
    next
      case RBTREE_RED
      then obtain v vl kv vr where v: "wd = ANode v vr RBTREE_RED kv vl" by (cases wd) auto
      show ?thesis
        unfolding delete_fixup_right_def using rw rc False RBTREE_RED
          tail [OF z [unfolded v] refl] ok v by simp
    qed
  qed
qed

subsection \<open>The loop\<close>

text \<open>One round of the loop: it ends at the root, or at a red node, or one level higher.\<close>

definition dround :: "node_t heap \<Rightarrow> ctx \<Rightarrow> atree \<Rightarrow> rbtree \<Rightarrow> (rbtree \<times> addr) option \<Rightarrow> bool" where
  "dround F C V t res \<longleftrightarrow> (\<exists>t' C' V'. res = Some (t', rootp (nil t) V') \<and> nil t' = nil t
     \<and> rbz F t' C' V' \<and> V' \<noteq> ALeaf \<and> ents (plug C' V') = ents (plug C V)
     \<and> rb_ok (blk V') \<and> cok C' (bh V' + 1)
     \<and> (C' = [] \<or> tcol V' = RBTREE_RED \<or> C' = tl C))"

lemma dfixed_dround: "dfixed F C V t res \<Longrightarrow> dround F C V t res"
  unfolding dfixed_def dround_def by blast

lemma dfixed_dround':
  assumes "dfixed F (Fr p d RBTREE_RED k s # C) V t' res" "nil t' = nil t"
    and "ents (plug (Fr p d RBTREE_RED k s # C) V) = ents (plug D V)"
  shows "dround F D V t res"
  using assms unfolding dfixed_def dround_def by (elim exE) fastforce

lemma delete_fixup_body_left:
  assumes z: "rbz F t (Fr p SideL cp kp S # C) V"
    and np: "fpar F (nil t) V p"
    and ok: "rb_ok V" "tcol V = RBTREE_BLACK" "cok (Fr p SideL cp kp S # C) (bh V + 1)"
    and S: "tcol S = RBTREE_BLACK"
  shows "dround F (Fr p SideL cp kp S # C) V t (rbtree_delete_fixup_body t (rootp (nil t) V))"
proof -
  let ?x = "rootp (nil t) V"
  obtain w wl kw wd where s: "S = ANode w wl RBTREE_BLACK kw wd"
    using ok S by (cases S) auto
  have xp: "rd t ?x parent = Some p" by (rule rd_focus_parent [OF z np])
  have pp: "rd t p left = Some ?x" "rd t p right = Some w"
    using rbz_frame [OF z] s by (simp_all add: frame_node_def)
  have "rd t w color = Some RBTREE_BLACK"
    using z s by (simp add: rbz_def)
  then have "rbtree_delete_fixup_body t ?x = delete_fixup_left t ?x w"
    unfolding rbtree_delete_fixup_body_def using xp pp by simp
  with delete_fixup_left_dfixed [OF z [unfolded s] np ok(1,2) ok(3) [unfolded s]] show ?thesis
    by (simp add: dfixed_dround s)
qed

lemma delete_fixup_body_right:
  assumes z: "rbz F t (Fr p SideR cp kp S # C) V"
    and np: "fpar F (nil t) V p"
    and ok: "rb_ok V" "tcol V = RBTREE_BLACK" "cok (Fr p SideR cp kp S # C) (bh V + 1)"
  shows "dround F (Fr p SideR cp kp S # C) V t (rbtree_delete_fixup_body t (rootp (nil t) V))"
proof -
  let ?x = "rootp (nil t) V"
  obtain w wl cw kw wd where s: "S = ANode w wl cw kw wd"
    using ok by (cases S) auto
  have xp: "rd t ?x parent = Some p" by (rule rd_focus_parent [OF z np])
  from z have "?x \<noteq> w" unfolding s using rootp_cases [of "nil t" V] by (auto simp: rbz_def)
  then have pp: "rd t p right = Some ?x" "rd t p left = Some w" "w \<noteq> ?x"
    using rbz_frame [OF z] s by (simp_all add: frame_node_def)
  have wc: "rd t w color = Some cw"
    using z s by (simp add: rbz_def)
  show ?thesis
  proof (cases cw)
    case RBTREE_BLACK
    then have "rbtree_delete_fixup_body t ?x = delete_fixup_right t ?x w"
      unfolding rbtree_delete_fixup_body_def using xp pp wc by simp
    with delete_fixup_right_dfixed [OF z [unfolded s RBTREE_BLACK] np ok(1,2) ok(3) [unfolded s RBTREE_BLACK]]
    show ?thesis by (simp add: dfixed_dround s RBTREE_BLACK)
  next
    case RBTREE_RED
    from z have z0: "rbz F t C (ANode p (ANode w wl RBTREE_RED kw wd) cp kp V)"
      unfolding s RBTREE_RED by (simp flip: rbz_down_right)
    from z0 have d: "distinct (addrs (ANode p (ANode w wl RBTREE_RED kw wd) cp kp V))"
      by (rule rbz_dist_focus)
    obtain t1 where t1: "wr t w (set_color RBTREE_BLACK) = Some t1" "nil t1 = nil t"
      and z1: "rbz F t1 C (ANode p (ANode w wl RBTREE_BLACK kw wd) cp kp V)"
      using wr_focus_color [OF z0, of w RBTREE_BLACK] d by auto
    obtain t2 where t2: "wr t1 p (set_color RBTREE_RED) = Some t2" "nil t2 = nil t1"
      and z2: "rbz F t2 C (ANode p (ANode w wl RBTREE_BLACK kw wd) RBTREE_RED kp V)"
      using wr_focus_color [OF z1, of p RBTREE_RED] d by auto
    obtain t3 where t3: "right_rotate t2 p = Some t3" "nil t3 = nil t2"
      and z3: "rbz F t3 C (ANode w wl RBTREE_BLACK kw (ANode p wd RBTREE_RED kp V))"
      using right_rotate_zip [OF z2] by metis
    obtain v vl kv vr where v: "wd = ANode v vl RBTREE_BLACK kv vr"
      using ok s RBTREE_RED by (cases wd) auto
    let ?C = "Fr p SideR RBTREE_RED kp wd # Fr w SideR RBTREE_BLACK kw wl # C"
    from z3 have z4: "rbz F t3 ?C V" by (simp add: rbz_down_right)
    have np3: "fpar F (nil t3) V p" using np t1 t2 t3 by simp
    have "rd t3 ?x parent = Some p" using rd_focus_parent [OF z4 np3] t1 t2 t3 by simp
    moreover have "rd t3 p left = Some v" using rbz_frame [OF z4] v by (simp add: frame_node_def)
    ultimately have run: "rbtree_delete_fixup_body t ?x = delete_fixup_right t3 ?x v"
      unfolding rbtree_delete_fixup_body_def using xp pp wc RBTREE_RED t1 t2 t3 by simp
    have "cok ?C (bh V + 1)" using ok s RBTREE_RED by (auto)
    from delete_fixup_right_dfixed [OF z4 [unfolded v] np3 ok(1,2) this [unfolded v]]
    have df: "dfixed F ?C V t3 (delete_fixup_right t3 ?x v)"
      using t1 t2 t3 v by simp
    show ?thesis unfolding run
      by (rule dfixed_dround' [OF df]) (use t1 t2 t3 s RBTREE_RED in simp_all)
  qed
qed

lemma rbtree_delete_fixup_exit:
  assumes z: "rbz F t C V" and V: "V \<noteq> ALeaf" and ok: "rb_ok (blk V)" "cok C (bh V + 1)"
    and e: "C = [] \<or> tcol V = RBTREE_RED"
  shows "\<exists>t' T'. rbtree_delete_fixup t (rootp (nil t) V) = Some t' \<and> rbz F t' [] T'
    \<and> rb_tree T' \<and> ents T' = ents (plug C V) \<and> nil t' = nil t"
proof -
  let ?x = "rootp (nil t) V"
  obtain a l c k r where a: "V = ANode a l c k r" using V by (cases V) auto
  have "rd t ?x color = Some (tcol V)" by (rule rbz_focus_color [OF z])
  moreover have "?x = root t" if "C = []" using z that by (simp add: rbz_def)
  ultimately have run: "rbtree_delete_fixup t ?x = wr t ?x (set_color RBTREE_BLACK)"
    using e by (subst rbtree_delete_fixup.simps) auto
  obtain t1 where t1: "wr t a (set_color RBTREE_BLACK) = Some t1" "nil t1 = nil t"
    and z1: "rbz F t1 C (blk V)"
    using wr_focus_color [OF z, of a RBTREE_BLACK] a by auto
  have "rb_tree (plug C (blk V))"
    unfolding rb_tree_plug using ok e by (auto simp: bh_blk)
  moreover have "rbz F t1 [] (plug C (blk V))" using z1 rbz_to_root by blast
  ultimately show ?thesis using run t1 a by auto
qed

lemma rbtree_delete_fixup_correct:
  assumes "rbz F t C V" "V \<noteq> ALeaf \<or> C \<noteq> []" "fpar F (nil t) V (cpar (nil t) C)"
    and "rb_ok (blk V)" "cok C (bh V + 1)" "lsib_black C"
  shows "\<exists>t' T'. rbtree_delete_fixup t (rootp (nil t) V) = Some t' \<and> rbz F t' [] T'
    \<and> rb_tree T' \<and> ents T' = ents (plug C V) \<and> nil t' = nil t"
  using assms
proof (induction "length C" arbitrary: C t V rule: less_induct)
  case less
  note z = less.prems(1)
  show ?case
  proof (cases "C = [] \<or> tcol V = RBTREE_RED")
    case True
    with less.prems show ?thesis by (intro rbtree_delete_fixup_exit) auto
  next
    case False
    then obtain p d c k s C0 where C: "C = Fr p d c k s # C0"
      by (cases C rule: ctop.cases) auto
    from False less.prems(4) have ok: "rb_ok V" "tcol V = RBTREE_BLACK" by auto
    have np: "fpar F (nil t) V p" using less.prems(3) C by simp
    have "dround F C V t (rbtree_delete_fixup_body t (rootp (nil t) V))"
    proof (cases d)
      case SideL
      with less.prems C ok np show ?thesis
        by (auto intro: delete_fixup_body_left)
    next
      case SideR
      with less.prems C ok np show ?thesis
        using delete_fixup_body_right [of F t p c k s C0 V] by auto
    qed
    then obtain t' C' V' where b: "rbtree_delete_fixup_body t (rootp (nil t) V) = Some (t', rootp (nil t) V')"
       "nil t' = nil t" "rbz F t' C' V'" "V' \<noteq> ALeaf" "ents (plug C' V') = ents (plug C V)"
       "rb_ok (blk V')" "cok C' (bh V' + 1)" "C' = [] \<or> tcol V' = RBTREE_RED \<or> C' = C0"
      unfolding dround_def C list.sel by blast
    have rne: "rootp (nil t) V \<noteq> root t"
    proof -
      have "rbz F t [] (plug C V)" using z rbz_to_root by blast
      then have "root t = rootp (nil t) (plug C V)" by (simp add: rbz_def)
      also have "\<dots> \<in> set (caddrs C)" using rootp_plug_in C by blast
      finally have "root t \<in> set (caddrs C)" .
      then show ?thesis using z rootp_cases [of "nil t" V] by (auto simp: rbz_def)
    qed
    have step: "rbtree_delete_fixup t (rootp (nil t) V) = rbtree_delete_fixup t' (rootp (nil t) V')"
      using rbz_focus_color [OF z] ok rne b(1) by (subst rbtree_delete_fixup.simps) simp
    have fp: "fpar F (nil t') V' (cpar (nil t') C')" using b(4) by (simp add: fpar_def)
    show ?thesis
    proof (cases "C' = [] \<or> tcol V' = RBTREE_RED")
      case True
      with rbtree_delete_fixup_exit [OF b(3,4,6,7)] step b show ?thesis by auto
    next
      case False
      with b(8) have "C' = C0" by simp
      with less.hyps [of C' t' V'] b fp less.prems(6) C step show ?thesis by auto
    qed
  qed
qed

subsection \<open>The whole of \<open>rbtree_erase\<close>\<close>

lemma erase_spliced:
  assumes h: "rb_heap F t T" and rb: "rb_tree T" and z: "z \<in> set (addrs T)"
  shows "spliced t T z (rbtree_erase_splice t z)"
proof -
  have "\<exists>C l c k r. T = plug C (ANode z l c k r)"
    using z
  proof (induction T)
    case (ANode a l c k r)
    then consider "a = z" | "z \<in> set (addrs l)" | "z \<in> set (addrs r)" by auto
    then show ?case
    proof cases
      case 1
      then have "ANode a l c k r = plug [] (ANode z l c k r)" by simp
      then show ?thesis by blast
    next
      case 2
      with ANode.IH(1) obtain C l' c' k' r' where "l = plug C (ANode z l' c' k' r')" by blast
      then have "ANode a l c k r = plug (C @ [Fr a SideL c k r]) (ANode z l' c' k' r')" by simp
      then show ?thesis by blast
    next
      case 3
      with ANode.IH(2) obtain C l' c' k' r' where "r = plug C (ANode z l' c' k' r')" by blast
      then have "ANode a l c k r = plug (C @ [Fr a SideR c k l]) (ANode z l' c' k' r')" by simp
      then show ?thesis by blast
    qed
  qed simp
  then obtain C l c k r where T: "T = plug C (ANode z l c k r)" by blast
  have "rbz F t C (ANode z l c k r)" using h unfolding T rb_heap_def by (simp flip: rbz_to_root)
  then show ?thesis
    using splice_one_child splice_two_children rb unfolding T by blast
qed

lemma free_outside:
  assumes "rbz F t [] T" "z \<notin> set (addrs T)" "z \<noteq> nil t" "mem t z \<noteq> None"
  shows "\<exists>t'. free_node t z = Some t' \<and> rb_heap (mem t') t' T \<and> nil t' = nil t \<and> mem t' z = None
    \<and> (\<forall>a. a \<noteq> z \<longrightarrow> mem t' a = mem t a)"
proof -
  obtain n where n: "mem t z = Some n" using assms(4) by auto
  have "rb_heap ((mem t)(z := None)) (t\<lparr>mem := (mem t)(z := None)\<rparr>) T"
    using assms by (auto simp: rb_heap_def rbz_def elim: rbz_nil)
  then show ?thesis using n by (simp add: free_node_def)
qed

lemma rbtree_erase_run:
  assumes h: "rb_heap F t T" and rb: "rb_tree T" and z: "z \<in> set (addrs T)" and p: "erase_path_ok z T"
  shows "\<exists>t' T' xs k ys. rbtree_erase t z = Some t' \<and> rb_heap (mem t') t' T' \<and> rb_tree T'
    \<and> nil t' = nil t \<and> ents T = xs @ (z, k) # ys \<and> ents T' = xs @ ys \<and> mem t' z = None
    \<and> (\<forall>a. a \<notin> set (addrs T) \<longrightarrow> a \<noteq> nil t \<longrightarrow> mem t' a = mem t a)"
proof -
  from erase_spliced [OF h rb z] obtain t1 x yc C V xs k ys where
    s: "rbtree_erase_splice t z = Some (t1, x, yc)" "x = rootp (nil t) V"
     "rbz (mem t1) t1 C V" "nil t1 = nil t" "nil_parent t1 C V"
     "ents T = xs @ (z, k) # ys" "ents (plug C V) = xs @ ys"
     "rb_ok V" "cok C (bh V + (if yc = RBTREE_BLACK then 1 else 0))"
     "yc = RBTREE_RED \<longrightarrow> tcol V = RBTREE_RED \<longrightarrow> ctop C = RBTREE_BLACK \<and> C \<noteq> []"
     "mem t1 z \<noteq> None" "erase_path_ok z T \<longrightarrow> lsib_black C" "z \<notin> set (addrs (plug C V))"
     "\<forall>a. a \<notin> set (addrs T) \<longrightarrow> a \<noteq> nil t \<longrightarrow> mem t1 a = mem t a"
    unfolding spliced_def by blast
  have z1: "rbz (mem t1) t1 [] (plug C V)" using s(3) rbz_to_root by blast
  have fp: "fpar (mem t1) (nil t1) V (cpar (nil t1) C)"
    using s(5) s(3) by (auto simp: fpar_def nil_parent_def elim!: rbz_nil)
  have zN: "z \<noteq> nil t" using h z by (auto simp: rb_heap_def rbz_def)
  have "\<exists>t2 T2. (if yc = RBTREE_BLACK then rbtree_delete_fixup t1 x else Some t1) = Some t2
     \<and> rbz (mem t1) t2 [] T2 \<and> rb_tree T2 \<and> ents T2 = xs @ ys \<and> nil t2 = nil t"
  proof (cases yc)
    case RBTREE_RED
    have "rb_tree (plug C V)" unfolding rb_tree_plug using s(8-10) RBTREE_RED by simp
    with z1 s(4,7) RBTREE_RED show ?thesis by auto
  next
    case RBTREE_BLACK
    show ?thesis
    proof (cases "V = ALeaf \<and> C = []")
      case True
      from s(3) obtain n where n: "mem t1 (nil t) = Some n" "color n = RBTREE_BLACK"
        using s(4) by (auto elim: rbz_nil)
      have "root t1 = nil t" using s(3,4) True by (simp add: rbz_def)
      then have "rbtree_delete_fixup t1 x = Some (t1\<lparr>mem := (mem t1)(nil t \<mapsto> set_color RBTREE_BLACK n)\<rparr>)"
        using n s(2) True by (subst rbtree_delete_fixup.simps) simp
      moreover have "set_color RBTREE_BLACK n = n" using n by simp
      then have "(mem t1)(nil t \<mapsto> set_color RBTREE_BLACK n) = mem t1" using n by auto
      ultimately have "rbtree_delete_fixup t1 x = Some t1" by simp
      then show ?thesis using RBTREE_BLACK z1 True s(4,7) by (auto simp: rb_tree_def)
    next
      case False
      then have "V \<noteq> ALeaf \<or> C \<noteq> []" by simp
      from rbtree_delete_fixup_correct [OF s(3) this fp] s p RBTREE_BLACK show ?thesis by auto
    qed
  qed
  then obtain t2 T2 where t2: "(if yc = RBTREE_BLACK then rbtree_delete_fixup t1 x else Some t1) = Some t2"
     "rbz (mem t1) t2 [] T2" "rb_tree T2" "ents T2 = xs @ ys" "nil t2 = nil t" by blast
  have zT2: "set (addrs T2) \<subseteq> set (addrs T)" "z \<notin> set (addrs T2)"
    using s(6,7,13) t2(4) by (auto simp flip: fst_ents)
  have m2: "mem t2 a = mem t1 a" if "a \<notin> set (addrs T2)" for a using t2(2) that by (simp add: rbz_def)
  have "mem t2 z \<noteq> None" using m2 [OF zT2(2)] s(11) by simp
  from free_outside [OF t2(2) zT2(2) _ this] zN t2(5) obtain t3 where
    t3: "free_node t2 z = Some t3" "rb_heap (mem t3) t3 T2" "nil t3 = nil t2" "mem t3 z = None"
      "\<forall>a. a \<noteq> z \<longrightarrow> mem t3 a = mem t2 a" by auto
  have "rbtree_erase t z = Some t3"
    unfolding rbtree_erase_def using s(1) t2(1) t3(1) by (simp cong: if_cong)
  moreover have "mem t3 a = mem t a" if "a \<notin> set (addrs T)" "a \<noteq> nil t" for a
  proof -
    from that zT2 z have "a \<noteq> z" "a \<notin> set (addrs T2)" by auto
    with t3(5) m2 [of a] s(14) that show ?thesis by simp
  qed
  ultimately show ?thesis using t3 t2 s(6) by auto
qed

end
