(* ===== verification/RBQuery.thy ===== *)
theory RBQuery
  imports RBFixup "HOL-Library.Multiset"
begin

text \<open>
  The read-only operations of the red-black tree, creation and destruction, and the proof that the
  tree is a sorted multiset of keys: the interface \<open>sorted_bag\<close> is what a user of the
  tree relies on, and the operations of \<open>RBTree\<close> provide it.
\<close>

subsection \<open>Queries\<close>

lemma rbtree_find_loop_tree:
  assumes "rbz F t C T" "sorted (map snd (ents T))"
  shows "\<exists>a. rbtree_find_loop t k (rootp (nil t) T) = Some a
    \<and> (if k \<in> snd ` set (ents T) then (a, k) \<in> set (ents T) \<and> a \<noteq> nil t else a = nil t)"
  using assms
proof (induction T arbitrary: C)
  case ALeaf
  then show ?case by (subst rbtree_find_loop.simps) simp
next
  case (ANode a l c k' r)
  from ANode.prems(1) have a: "a \<noteq> nil t" by (simp add: rbz_def)
  note l = ANode.IH(1) [OF ANode.prems(1) [unfolded rbz_down_left]]
  note r = ANode.IH(2) [OF ANode.prems(1) [unfolded rbz_down_right]]
  from ANode.prems(2) have s: "sorted (map snd (ents l))" "sorted (map snd (ents r))"
    "\<forall>e\<in>set (ents l). snd e \<le> k'" "\<forall>e\<in>set (ents r). k' \<le> snd e"
    by (auto simp: sorted_append)
  have run: "rbtree_find_loop t k a = (if k' = k then Some a
      else if k' > k then rbtree_find_loop t k (rootp (nil t) l) else rbtree_find_loop t k (rootp (nil t) r))"
    using a rbz_node [OF ANode.prems(1)] by (subst rbtree_find_loop.simps) simp
  consider "k' = k" | "k' > k" | "k' < k" by linarith
  then show ?case
  proof cases
    case 1
    with run a show ?thesis by auto
  next
    case 2
    with s(4) have "k \<notin> snd ` set (ents r)" by force
    then have "k \<in> snd ` set (ents (ANode a l c k' r)) \<longleftrightarrow> k \<in> snd ` set (ents l)" using 2 by auto
    moreover from l [OF s(1)] obtain x where "rbtree_find_loop t k (rootp (nil t) l) = Some x"
      "if k \<in> snd ` set (ents l) then (x, k) \<in> set (ents l) \<and> x \<noteq> nil t else x = nil t" by blast
    ultimately show ?thesis
      using run 2 by (intro exI [of _ x]) (cases "k \<in> snd ` set (ents l)"; simp)
  next
    case 3
    with s(3) have "k \<notin> snd ` set (ents l)" by force
    then have "k \<in> snd ` set (ents (ANode a l c k' r)) \<longleftrightarrow> k \<in> snd ` set (ents r)" using 3 by auto
    moreover from r [OF s(2)] obtain x where "rbtree_find_loop t k (rootp (nil t) r) = Some x"
      "if k \<in> snd ` set (ents r) then (x, k) \<in> set (ents r) \<and> x \<noteq> nil t else x = nil t" by blast
    ultimately show ?thesis
      using run 3 by (intro exI [of _ x]) (cases "k \<in> snd ` set (ents r)"; simp)
  qed
qed

lemma tree_minimum_hd:
  assumes "rbz F t C T" "T \<noteq> ALeaf"
  shows "tree_minimum t (rootp (nil t) T) = Some (fst (hd (ents T)))"
  using assms
proof (induction T arbitrary: C)
  case (ANode a l c k r)
  from ANode.prems(1) have n: "rootp (nil t) l \<noteq> nil t \<longleftrightarrow> l \<noteq> ALeaf"
    by (auto simp: rbz_def rootp_eq_nil)
  have run: "tree_minimum t a = (if l \<noteq> ALeaf then tree_minimum t (rootp (nil t) l) else Some a)"
    using rbz_focus_left [OF ANode.prems(1)] n by (subst tree_minimum.simps) auto
  have "l \<noteq> ALeaf \<Longrightarrow> ents l \<noteq> []" by (cases l) auto
  with run ANode.IH(1) [OF ANode.prems(1) [unfolded rbz_down_left]] show ?case
    by (cases "l = ALeaf") auto
qed simp

lemma tree_maximum_last:
  assumes "rbz F t C T" "T \<noteq> ALeaf"
  shows "tree_maximum t (rootp (nil t) T) = Some (fst (last (ents T)))"
  using assms
proof (induction T arbitrary: C)
  case (ANode a l c k r)
  from ANode.prems(1) have n: "rootp (nil t) r \<noteq> nil t \<longleftrightarrow> r \<noteq> ALeaf"
    by (auto simp: rbz_def rootp_eq_nil)
  have run: "tree_maximum t a = (if r \<noteq> ALeaf then tree_maximum t (rootp (nil t) r) else Some a)"
    using rbz_focus_right [OF ANode.prems(1)] n by (subst tree_maximum.simps) auto
  have "r \<noteq> ALeaf \<Longrightarrow> ents r \<noteq> []" by (cases r) auto
  with run ANode.IH(2) [OF ANode.prems(1) [unfolded rbz_down_right]] show ?case
    by (cases "r = ALeaf") auto
qed simp

lemma inorder_traversal_ents:
  assumes "rbz F t C T"
  shows "inorder_traversal t (rootp (nil t) T) arr = Some (arr @ map snd (ents T))"
  using assms
proof (induction T arbitrary: C arr)
  case ALeaf
  then show ?case by (subst inorder_traversal.simps) simp
next
  case (ANode a l c k r)
  from ANode.prems have a: "a \<noteq> nil t" by (simp add: rbz_def)
  note l = ANode.IH(1) [OF ANode.prems [unfolded rbz_down_left]]
  note r = ANode.IH(2) [OF ANode.prems [unfolded rbz_down_right]]
  show ?case
    using a rbz_node [OF ANode.prems] l r by (subst inorder_traversal.simps) simp
qed

text \<open>\<open>rbtree_to_array\<close> and \<open>rbtree_find\<close> on a whole tree.\<close>

lemma rb_heap_root: "rb_heap F t T \<Longrightarrow> root t = rootp (nil t) T"
  by (simp add: rb_heap_def rbz_def)

lemma rb_heap_empty: "rb_heap F t T \<Longrightarrow> root t = nil t \<longleftrightarrow> T = ALeaf"
  by (auto simp: rb_heap_def rbz_def rootp_eq_nil)

lemma to_array_ents: "rb_heap F t T \<Longrightarrow> rbtree_to_array t n = Some (map snd (ents T), length (ents T))"
  unfolding rbtree_to_array_def
  using inorder_traversal_ents [of F t "[]" T "[]"] by (simp add: rb_heap_root rb_heap_def)

subsection \<open>Destruction\<close>

lemma delete_rec_tree:
  assumes "tree_h (mem t) N p T" "distinct (addrs T)" "N \<notin> set (addrs T)" "NULL \<notin> set (addrs T)"
  shows "delete_rbtree_rec t (rootp N T) N = Some (t\<lparr>mem := mem t |` (- set (addrs T))\<rparr>)"
  using assms
proof (induction T arbitrary: t p)
  case ALeaf
  then show ?case by (subst delete_rbtree_rec.simps) (simp add: restrict_map_def)
next
  case (ANode a l c k r)
  let ?l = "t\<lparr>mem := mem t |` (- set (addrs l))\<rparr>"
  let ?r = "t\<lparr>mem := mem t |` (- set (addrs l)) |` (- set (addrs r))\<rparr>"
  have l: "delete_rbtree_rec t (rootp N l) N = Some ?l"
    by (rule ANode.IH(1)) (use ANode.prems in auto)
  have "agree (set (addrs r)) (mem t) (mem ?l)" using ANode.prems(2) by (auto simp: agree_def restrict_map_def)
  then have "tree_h (mem ?l) N a r" using tree_h_agree ANode.prems(1) by (metis tree_h.simps(2))
  then have r: "delete_rbtree_rec ?l (rootp N r) N = Some ?r"
    using ANode.IH(2) [of ?l a] ANode.prems by simp
  have a: "a \<noteq> N" "a \<noteq> NULL" "a \<notin> set (addrs l)" "a \<notin> set (addrs r)" using ANode.prems by auto
  have m: "mem t a = Some \<lparr>color = c, key = k, parent = p, left = rootp N l, right = rootp N r\<rparr>"
    using ANode.prems by simp
  have ml: "mem ?l a = mem t a" and mr: "mem ?r a = mem t a" using a by simp_all
  have "rd t a left = Some (rootp N l)" "rd ?l a right = Some (rootp N r)"
    unfolding rd_def peek_def ml m by simp_all
  then have "delete_rbtree_rec t a N = free_node ?r a"
    using a l r by (subst delete_rbtree_rec.simps) simp
  also have "\<dots> = Some (?r\<lparr>mem := (mem ?r)(a := None)\<rparr>)"
    unfolding free_node_def mr m by simp
  also have "?r\<lparr>mem := (mem ?r)(a := None)\<rparr> = t\<lparr>mem := mem t |` (- set (addrs (ANode a l c k r)))\<rparr>"
    by (auto simp: restrict_map_def fun_eq_iff)
  finally show ?case by simp
qed

lemma delete_rbtree_frees:
  assumes "rb_heap F t T"
  shows "delete_rbtree (mem t) (Some (root t, nil t)) = Some (F |` (- insert (nil t) (set (addrs T))))"
proof -
  let ?t = "\<lparr>root = root t, nil = nil t, mem = mem t\<rparr>"
  from assms have z: "rbz F t [] T" by (simp add: rb_heap_def)
  then have h: "tree_h (mem ?t) (nil t) (nil t) T" "distinct (addrs T)" "nil t \<notin> set (addrs T)" "NULL \<notin> set (addrs T)"
    and fr: "\<And>a. a \<notin> set (addrs T) \<Longrightarrow> mem t a = F a" by (auto simp: rbz_def)
  from delete_rec_tree [OF h]
  have d: "delete_rbtree_rec ?t (root t) (nil t) = Some (?t\<lparr>mem := mem t |` (- set (addrs T))\<rparr>)"
    unfolding rb_heap_root [OF assms] by simp
  obtain n where n: "mem t (nil t) = Some n" using z by (rule rbz_nil)
  have "free_node (?t\<lparr>mem := mem t |` (- set (addrs T))\<rparr>) (nil t)
      = Some (?t\<lparr>mem := (mem t |` (- set (addrs T)))(nil t := None)\<rparr>)"
    using h(3) n by (simp add: free_node_def)
  moreover have "(mem t |` (- set (addrs T)))(nil t := None) = F |` (- insert (nil t) (set (addrs T)))"
    using fr by (auto simp: fun_eq_iff restrict_map_def)
  ultimately show ?thesis using d by (simp add: delete_rbtree_def)
qed

subsection \<open>A sorted bag\<close>

text \<open>
  What a client of the tree uses: the keys in it form a sorted list; adding a key never fails when
  the allocator returns a fresh address, keeps the other keys, and takes no other address;
  reading the keys back yields the list.
\<close>

fun ins_all :: "('s \<Rightarrow> addr \<Rightarrow> int \<Rightarrow> 's option) \<Rightarrow> 's \<Rightarrow> (addr \<times> int) list \<Rightarrow> 's option" where
  "ins_all ins s [] = Some s"
| "ins_all ins s ((a, k) # es) = do { s \<leftarrow> ins s a k; ins_all ins s es }"

locale sorted_bag =
  fixes rep :: "'s \<Rightarrow> int list \<Rightarrow> bool"
    and live :: "'s \<Rightarrow> addr set"
    and ins :: "'s \<Rightarrow> addr \<Rightarrow> int \<Rightarrow> 's option"
    and elems :: "'s \<Rightarrow> int list option"
  assumes rep_sorted: "rep s xs \<Longrightarrow> sorted xs"
    and ins_rep: "rep s xs \<Longrightarrow> a \<noteq> NULL \<Longrightarrow> a \<notin> live s \<Longrightarrow>
      \<exists>s' xs'. ins s a k = Some s' \<and> rep s' xs' \<and> mset xs' = add_mset k (mset xs) \<and> live s' = insert a (live s)"
    and elems_rep: "rep s xs \<Longrightarrow> elems s = Some xs"
begin

lemma ins_insort:
  assumes "rep s xs" "a \<noteq> NULL" "a \<notin> live s"
  shows "\<exists>s'. ins s a k = Some s' \<and> rep s' (insort k xs) \<and> live s' = insert a (live s)"
proof -
  from ins_rep [OF assms] obtain s' xs' where s': "ins s a k = Some s'" "rep s' xs'"
    "mset xs' = add_mset k (mset xs)" "live s' = insert a (live s)" by blast
  from s'(3) have "mset xs' = mset (insort k xs)" by simp
  moreover have "sorted xs'" "sorted (insort k xs)"
    using rep_sorted s' assms by (auto simp: sorted_insort)
  ultimately have "xs' = insort k xs" by (metis properties_for_sort)
  with s' show ?thesis by blast
qed

lemma ins_all_sort:
  assumes "rep s xs" "distinct (map fst es)" "NULL \<notin> fst ` set es" "live s \<inter> fst ` set es = {}"
  shows "\<exists>s'. ins_all ins s es = Some s' \<and> rep s' (sort (xs @ map snd es)) \<and> elems s' = Some (sort (xs @ map snd es))"
  using assms
proof (induction es arbitrary: s xs)
  case Nil
  then show ?case using rep_sorted [of s xs] elems_rep by (simp add: sorted_sort_id)
next
  case (Cons e es)
  obtain a k where e: "e = (a, k)" by (cases e)
  from Cons.prems e obtain s1 where s1: "ins s a k = Some s1" "rep s1 (insort k xs)" "live s1 = insert a (live s)"
    using ins_insort [of s xs a k] by auto
  from Cons.IH [OF s1(2)] Cons.prems s1(3) e obtain s2 where
    s2: "ins_all ins s1 es = Some s2" "rep s2 (sort (insort k xs @ map snd es))"
      "elems s2 = Some (sort (insort k xs @ map snd es))" by auto
  have "sort (insort k xs @ map snd es) = sort (xs @ map snd (e # es))"
    by (rule properties_for_sort) (simp_all add: e)
  with s1 s2 e show ?case by simp
qed

end

definition rb_rep :: "rbtree \<Rightarrow> int list \<Rightarrow> bool" where
  "rb_rep t ks \<longleftrightarrow> (\<exists>F T. rb_heap F t T \<and> rb_tree T \<and> key_sorted T \<and> map snd (ents T) = ks)"

definition rb_ins :: "rbtree \<Rightarrow> addr \<Rightarrow> int \<Rightarrow> rbtree option" where
  "rb_ins t a k = map_option fst (rbtree_insert t a k)"

definition rb_ins_all :: "rbtree \<Rightarrow> (addr \<times> int) list \<Rightarrow> rbtree option" where
  "rb_ins_all = ins_all rb_ins"

definition rb_elems :: "rbtree \<Rightarrow> int list option" where
  "rb_elems t = map_option fst (rbtree_to_array t 0)"

lemma rb_dom:
  assumes "rb_heap F t T" shows "dom (mem t) = set (addrs T) \<union> {a. a \<notin> set (addrs T) \<and> F a \<noteq> None}"
proof -
  from assms have "mem t a = F a" if "a \<notin> set (addrs T)" for a using that by (simp add: rb_heap_def rbz_def)
  moreover from assms have "mem t a \<noteq> None" if "a \<in> set (addrs T)" for a
    using that tree_h_dom [of "mem t" "nil t" "nil t" T a] by (simp add: rb_heap_def rbz_def)
  ultimately show ?thesis by (auto simp: dom_def)
qed

interpretation rb_bag: sorted_bag rb_rep "\<lambda>t. dom (mem t)" rb_ins rb_elems
proof unfold_locales
  show "sorted xs" if "rb_rep t xs" for t xs
    using that by (auto simp: rb_rep_def key_sorted_def)
next
  fix t xs a k
  assume "rb_rep t xs" and a: "a \<noteq> NULL" "a \<notin> dom (mem t)"
  then obtain F T where T: "rb_heap F t T" "rb_tree T" "key_sorted T" "map snd (ents T) = xs"
    unfolding rb_rep_def by blast
  from a have ma: "mem t a = None" by auto
  from rbtree_insert_total [OF T(1,2) a(1) ma] obtain t' T' ys zs where
    i: "rbtree_insert t a k = Some (t', a)" "rb_heap F t' T'" "rb_tree T'" "ents T = ys @ zs"
      "ents T' = ys @ (a, k) # zs" "key_sorted T'" using T(3) by blast
  have "set (addrs T') = insert a (set (addrs T))"
    using i(4,5) by (auto simp flip: fst_ents)
  moreover have "F a = None"
  proof -
    from T(1) have "tree_h (mem t) (nil t) (nil t) T" by (simp add: rb_heap_def rbz_def)
    with ma tree_h_dom have "a \<notin> set (addrs T)" by blast
    with T(1) ma show ?thesis by (simp add: rb_heap_def rbz_def)
  qed
  ultimately have "dom (mem t') = insert a (dom (mem t))"
    using rb_dom [OF T(1)] rb_dom [OF i(2)] by auto
  moreover have "rb_rep t' (map snd (ents T'))" unfolding rb_rep_def using i by blast
  moreover have "mset (map snd (ents T')) = add_mset k (mset xs)"
    unfolding T(4) [symmetric] using i(4,5) by simp
  ultimately show "\<exists>s' xs'. rb_ins t a k = Some s' \<and> rb_rep s' xs'
      \<and> mset xs' = add_mset k (mset xs) \<and> dom (mem s') = insert a (dom (mem t))"
    using i(1) by (auto simp: rb_ins_def)
next
  show "rb_elems t = Some xs" if "rb_rep t xs" for t xs
    using that to_array_ents by (auto simp: rb_rep_def rb_elems_def)
qed

end
