(* ===== verification/RBProps.thy ===== *)
theory RBProps
  imports RBQuery
begin

text \<open>
  The properties of the red-black tree, each with a concrete instance.
\<close>

subsection \<open>An example tree\<close>

definition ex_tree :: atree where
  "ex_tree = ANode 2 (ANode 3 ALeaf RBTREE_RED 10 ALeaf) RBTREE_BLACK 20 (ANode 4 ALeaf RBTREE_RED 30 ALeaf)"

definition ex_heap :: "node_t heap" where
  "ex_heap = [1 \<mapsto> \<lparr>color = RBTREE_BLACK, key = 0, parent = 1, left = 1, right = 1\<rparr>,
     2 \<mapsto> \<lparr>color = RBTREE_BLACK, key = 20, parent = 1, left = 3, right = 4\<rparr>,
     3 \<mapsto> \<lparr>color = RBTREE_RED, key = 10, parent = 2, left = 1, right = 1\<rparr>,
     4 \<mapsto> \<lparr>color = RBTREE_RED, key = 30, parent = 2, left = 1, right = 1\<rparr>]"

definition ex_rb :: rbtree where
  "ex_rb = \<lparr>root = 2, nil = 1, mem = ex_heap\<rparr>"

lemma ex_rb_heap: "rb_heap ex_heap ex_rb ex_tree"
  by (simp add: rb_heap_def rbz_def ex_heap_def ex_rb_def ex_tree_def)

lemma ex_rb_tree: "rb_tree ex_tree" "key_sorted ex_tree"
  by (simp_all add: rb_tree_def key_sorted_def ex_tree_def)

subsection \<open>Insertion and deletion\<close>

text \<open>C2: \<open>rbtree_insert\<close> on a red-black tree with a fresh node returns without a bad access,
  leaves a red-black tree, and its entries are the old ones with the new key put after every
  key that is not larger; no address outside the tree changes.\<close>

theorem rbtree_insert_correct:
  assumes "rb_heap F t T" "rb_tree T" "key_sorted T" "z \<noteq> NULL" "mem t z = None"
  shows "\<exists>t' T' xs ys. rbtree_insert t z k = Some (t', z) \<and> rb_heap F t' T' \<and> nil t' = nil t
    \<and> rb_tree T' \<and> key_sorted T' \<and> ents T = xs @ ys \<and> ents T' = xs @ (z, k) # ys
    \<and> (\<forall>e\<in>set xs. snd e \<le> k) \<and> (\<forall>e\<in>set ys. k < snd e)"
  using rbtree_insert_total [OF assms(1,2,4,5), of k] assms(3) by blast

theorem rbtree_insert_correct_witness:
  "\<exists>t' T' xs ys. rbtree_insert ex_rb 5 20 = Some (t', 5) \<and> rb_heap ex_heap t' T' \<and> nil t' = nil ex_rb
    \<and> rb_tree T' \<and> key_sorted T' \<and> ents ex_tree = xs @ ys \<and> ents T' = xs @ (5, 20) # ys
    \<and> (\<forall>e\<in>set xs. snd e \<le> 20) \<and> (\<forall>e\<in>set ys. 20 < snd e)"
  by (rule rbtree_insert_correct [OF ex_rb_heap ex_rb_tree]) (simp_all add: ex_rb_def ex_heap_def)

text \<open>C9: \<open>rbtree_erase\<close> of a node of the tree returns without a bad access, frees exactly
  that node, leaves a red-black tree with the other entries in their order and changes nothing
  else but the sentinel's parent pointer, provided that no left child on the path to the unlinked
  node has a red sibling.\<close>

theorem rbtree_erase_correct:
  assumes "rb_heap F t T" "rb_tree T" "key_sorted T" "z \<in> set (addrs T)" "erase_path_ok z T"
  shows "\<exists>t' T' xs k ys. rbtree_erase t z = Some t' \<and> rb_heap (mem t') t' T' \<and> nil t' = nil t
    \<and> rb_tree T' \<and> key_sorted T' \<and> ents T = xs @ (z, k) # ys \<and> ents T' = xs @ ys \<and> mem t' z = None
    \<and> (\<forall>a. a \<notin> set (addrs T) \<longrightarrow> a \<noteq> nil t \<longrightarrow> mem t' a = mem t a)"
proof -
  from rbtree_erase_run [OF assms(1,2,4,5)] obtain t' T' xs k ys where
    r: "rbtree_erase t z = Some t'" "rb_heap (mem t') t' T'" "rb_tree T'" "nil t' = nil t"
       "ents T = xs @ (z, k) # ys" "ents T' = xs @ ys" "mem t' z = None"
       "\<forall>a. a \<notin> set (addrs T) \<longrightarrow> a \<noteq> nil t \<longrightarrow> mem t' a = mem t a" by blast
  with assms(3) have "key_sorted T'" by (auto simp: key_sorted_def sorted_append)
  with r show ?thesis by blast
qed

theorem rbtree_erase_correct_witness:
  "\<exists>t' T' xs k ys. rbtree_erase ex_rb 2 = Some t' \<and> rb_heap (mem t') t' T' \<and> nil t' = nil ex_rb
    \<and> rb_tree T' \<and> key_sorted T' \<and> ents ex_tree = xs @ (2, k) # ys \<and> ents T' = xs @ ys \<and> mem t' 2 = None
    \<and> (\<forall>a. a \<notin> set (addrs ex_tree) \<longrightarrow> a \<noteq> nil ex_rb \<longrightarrow> mem t' a = mem ex_rb a)"
  by (rule rbtree_erase_correct [OF ex_rb_heap ex_rb_tree]) (simp_all add: ex_tree_def)

text \<open>Evaluation of runs of the operations on concrete heaps.\<close>

lemmas rb_run = new_rbtree_def rbtree_insert_def newNode_def rbtree_insert_loop.simps
  rbtree_fixup.simps rbtree_fixup_body_def left_rotate_def right_rotate_def
  rbtree_erase_def rbtree_erase_splice_def rbtree_transplant_def tree_minimum.simps
  rbtree_delete_fixup.simps rbtree_delete_fixup_body_def delete_fixup_left_def delete_fixup_right_def
  free_node_def rd_def wr_def peek_def poke_def

definition erase_run :: "(rbtree \<times> addr) option" where
  "erase_run = do {
     t \<leftarrow> new_rbtree True 1 Map.empty;
     (t, _) \<leftarrow> rbtree_insert t 2 20;
     (t, _) \<leftarrow> rbtree_insert t 3 10;
     (t, _) \<leftarrow> rbtree_insert t 4 30;
     (t, _) \<leftarrow> rbtree_insert t 5 25;
     (t, _) \<leftarrow> rbtree_insert t 6 40;
     (t, z) \<leftarrow> rbtree_insert t 7 50;
     t \<leftarrow> rbtree_erase t z;
     t \<leftarrow> rbtree_erase t 3;
     l \<leftarrow> rd t (root t) left;
     Some (t, l)
   }"

text \<open>the restriction in the previous property is needed. Six insertions and two deletions
  of nodes that are in the tree end with a red sentinel, and with a node \<open>20\<close> whose left subtree is
  empty and whose right child is black: the second deletion is that of a left child with a red
  sibling, and the loop then takes the sentinel for the new sibling.\<close>

theorem rbtree_erase_breaks_tree:
  "\<exists>t l r. erase_run = Some (t, l) \<and> rd t (nil t) color = Some RBTREE_RED
    \<and> rd t l key = Some 20 \<and> rd t l left = Some (nil t)
    \<and> rd t l right = Some r \<and> r \<noteq> nil t \<and> rd t r color = Some RBTREE_BLACK"
  by (simp add: erase_run_def rb_run cong: bind_weak_cong if_weak_cong)

text \<open>the part of \<open>rbtree_erase\<close> before the fix-up is right for every red-black tree and every
  node \<open>z\<close> of it: the entries without \<open>z\<close> stay in their order, the replacing subtree and the
  path above it are well formed, and if the unlinked node was black that path has one black
  node more than the subtree accounts for.\<close>

theorem rbtree_erase_splice_correct:
  assumes "rb_heap F t T" "rb_tree T" "z \<in> set (addrs T)"
  shows "\<exists>t' C V yc xs k ys. rbtree_erase_splice t z = Some (t', rootp (nil t) V, yc)
    \<and> rbz (mem t') t' C V \<and> nil t' = nil t \<and> ents T = xs @ (z, k) # ys \<and> ents (plug C V) = xs @ ys
    \<and> rb_ok V \<and> cok C (bh V + (if yc = RBTREE_BLACK then 1 else 0))"
  using erase_spliced [OF assms] unfolding spliced_def by blast

theorem rbtree_erase_splice_correct_witness:
  "\<exists>t' C V yc xs k ys. rbtree_erase_splice ex_rb 2 = Some (t', rootp (nil ex_rb) V, yc)
    \<and> rbz (mem t') t' C V \<and> nil t' = nil ex_rb \<and> ents ex_tree = xs @ (2, k) # ys \<and> ents (plug C V) = xs @ ys
    \<and> rb_ok V \<and> cok C (bh V + (if yc = RBTREE_BLACK then 1 else 0))"
  by (rule rbtree_erase_splice_correct [OF ex_rb_heap ex_rb_tree(1)]) (simp add: ex_tree_def)

subsection \<open>Queries and the tree as a sorted bag\<close>

text \<open>\<open>rbtree_find\<close> returns a node of the tree that holds the key when the tree has the
  key, and the not-found value of the build mode when it does not.\<close>

theorem rbtree_find_correct:
  assumes "rb_heap F t T" "key_sorted T"
  shows "\<exists>a. rbtree_find sentinel (Some t) k = Some a
    \<and> (if k \<in> snd ` set (ents T) then (a, k) \<in> set (ents T) else a = not_found sentinel t)"
proof -
  from assms have "rbz F t [] T" "sorted (map snd (ents T))"
    by (simp_all add: rb_heap_def key_sorted_def)
  from rbtree_find_loop_tree [OF this, of k] obtain a where
    a: "rbtree_find_loop t k (rootp (nil t) T) = Some a"
      "if k \<in> snd ` set (ents T) then (a, k) \<in> set (ents T) \<and> a \<noteq> nil t else a = nil t" by blast
  show ?thesis
  proof (cases "T = ALeaf")
    case True
    with assms rb_heap_empty show ?thesis by (simp add: rbtree_find_def)
  next
    case False
    with a assms rb_heap_empty rb_heap_root show ?thesis
      by (cases "k \<in> snd ` set (ents T)") (simp_all add: rbtree_find_def)
  qed
qed

theorem rbtree_find_correct_witness:
  "(\<exists>a. rbtree_find True (Some ex_rb) 30 = Some a
    \<and> (if 30 \<in> snd ` set (ents ex_tree) then (a, 30) \<in> set (ents ex_tree) else a = not_found True ex_rb))
   \<and> (\<exists>a. rbtree_find False (Some ex_rb) 25 = Some a
    \<and> (if 25 \<in> snd ` set (ents ex_tree) then (a, 25) \<in> set (ents ex_tree) else a = not_found False ex_rb))"
  using rbtree_find_correct [OF ex_rb_heap ex_rb_tree(2), of True 30]
    rbtree_find_correct [OF ex_rb_heap ex_rb_tree(2), of False 25] by blast

text \<open>on a non-empty tree \<open>rbtree_min\<close> and \<open>rbtree_max\<close> return nodes of the tree with a smallest
  and a largest key.\<close>

theorem rbtree_min_max_correct:
  assumes "rb_heap F t T" "key_sorted T" "T \<noteq> ALeaf"
  shows "\<exists>a b ka kb. rbtree_min (Some t) = Some a \<and> rbtree_max (Some t) = Some b
    \<and> (a, ka) \<in> set (ents T) \<and> (b, kb) \<in> set (ents T) \<and> (\<forall>e\<in>set (ents T). ka \<le> snd e \<and> snd e \<le> kb)"
proof -
  from assms have z: "rbz F t [] T" by (simp add: rb_heap_def)
  have ne: "ents T \<noteq> []" using assms(3) by (cases T) auto
  from ne obtain a ka es where hd: "ents T = (a, ka) # es" by (cases "ents T") auto
  from ne obtain b kb es' where la: "ents T = es' @ [(b, kb)]" by (cases "ents T" rule: rev_cases) auto
  have "\<forall>e\<in>set (ents T). ka \<le> snd e" using assms(2) hd by (auto simp: key_sorted_def)
  moreover have "\<forall>e\<in>set (ents T). snd e \<le> kb" using assms(2) la by (auto simp: key_sorted_def sorted_append)
  moreover have "rbtree_min (Some t) = Some a"
    using tree_minimum_hd [OF z assms(3)] hd assms rb_heap_empty [OF assms(1)] rb_heap_root [OF assms(1)]
    by (simp add: rbtree_min_def)
  moreover have "rbtree_max (Some t) = Some b"
    using tree_maximum_last [OF z assms(3)] la assms rb_heap_empty [OF assms(1)] rb_heap_root [OF assms(1)]
    by (simp add: rbtree_max_def)
  moreover have "(a, ka) \<in> set (ents T)" unfolding hd by simp
  moreover have "(b, kb) \<in> set (ents T)" unfolding la by simp
  ultimately show ?thesis by blast
qed

theorem rbtree_min_max_correct_witness:
  "\<exists>a b ka kb. rbtree_min (Some ex_rb) = Some a \<and> rbtree_max (Some ex_rb) = Some b
    \<and> (a, ka) \<in> set (ents ex_tree) \<and> (b, kb) \<in> set (ents ex_tree)
    \<and> (\<forall>e\<in>set (ents ex_tree). ka \<le> snd e \<and> snd e \<le> kb)"
  by (rule rbtree_min_max_correct [OF ex_rb_heap ex_rb_tree(2)]) (simp add: ex_tree_def)

text \<open>inserting any sequence of keys into a new tree (in the build with \<open>SENTINEL\<close>) and reading
  it back with \<open>rbtree_to_array\<close> sorts the keys, whatever fresh addresses the allocator returns.\<close>

theorem rbtree_sorts:
  assumes "distinct (nl # map fst es)" "NULL \<notin> set (nl # map fst es)"
  shows "\<exists>t t'. new_rbtree True nl Map.empty = Some t \<and> rb_ins_all t es = Some t'
    \<and> rb_elems t' = Some (sort (map snd es))"
proof -
  let ?t = "\<lparr>root = nl, nil = nl, mem = [nl \<mapsto>
    \<lparr>color = RBTREE_BLACK, key = 0, parent = nl, left = nl, right = nl\<rparr>]\<rparr>"
  have n: "new_rbtree True nl Map.empty = Some ?t" using assms by (auto simp: new_rbtree_def)
  have "rb_heap (mem ?t) ?t ALeaf \<and> rb_tree ALeaf \<and> key_sorted ALeaf \<and> map snd (ents ALeaf) = []"
    using assms by (auto simp: rb_heap_def rbz_def rb_tree_def key_sorted_def)
  then have "rb_rep ?t []" unfolding rb_rep_def by blast
  from rb_bag.ins_all_sort [OF this, of es] assms n show ?thesis by (auto simp: rb_ins_all_def)
qed

theorem rbtree_sorts_witness:
  "\<exists>t t'. new_rbtree True 1 Map.empty = Some t \<and> rb_ins_all t [(2, 20), (3, 10), (4, 30)] = Some t'
    \<and> rb_elems t' = Some (sort (map snd [(2, 20), (3, 10), (4::addr, 30)]))"
  by (rule rbtree_sorts) simp_all

text \<open>\<open>delete_rbtree\<close> frees every node of the tree and the sentinel, each exactly once, and
  nothing else.\<close>

theorem delete_rbtree_correct:
  assumes "rb_heap F t T"
  shows "delete_rbtree (mem t) (Some (root t, nil t)) = Some (F |` (- insert (nil t) (set (addrs T))))"
  using assms by (rule delete_rbtree_frees)

theorem delete_rbtree_correct_witness:
  "delete_rbtree (mem ex_rb) (Some (root ex_rb, nil ex_rb)) = Some (ex_heap |` (- insert (nil ex_rb) (set (addrs ex_tree))))"
  by (rule delete_rbtree_correct [OF ex_rb_heap])

text \<open>without \<open>SENTINEL\<close> the first insertion into a new tree dereferences the null root.\<close>

theorem rbtree_insert_null_root:
  assumes "nl \<noteq> NULL" "z \<noteq> NULL" "z \<noteq> nl"
  shows "do { t \<leftarrow> new_rbtree False nl Map.empty; rbtree_insert t z k } = None"
  using assms by (simp add: rb_run cong: bind_weak_cong if_weak_cong)

theorem rbtree_insert_null_root_witness:
  "do { t \<leftarrow> new_rbtree False 1 Map.empty; rbtree_insert t 2 7 } = None"
  by (rule rbtree_insert_null_root) simp_all

end
