(* ===== verification/PList.thy ===== *)
theory PList
  imports Prelude "HOL-Library.Multiset"
begin

text \<open>
  The doubly linked list of the kernel, \<open>pintos/lib/kernel/list.c\<close>. The heap maps the address
  of a \<open>struct list_elem\<close> to its two links; a \<open>struct list\<close> is known by the addresses of its two
  header elements. A failed \<open>ASSERT\<close> and an access to something that is not a list element
  yield \<open>None\<close>. The comparison function and its auxiliary data are one argument \<open>lessf\<close>,
  a relation on addresses. This theory has the data model, the operations and the
  theory of link chains; \<open>PListSort\<close> has the merge sort.
\<close>

declare neq0_conv [simp del]

record list_elem =
  prv :: addr
  nxt :: addr

record list_hdr =
  lhead :: addr
  ltail :: addr

type_synonym lheap = "list_elem heap"

type_synonym list_less_func = "addr \<Rightarrow> addr \<Rightarrow> bool"

abbreviation set_prv :: "addr \<Rightarrow> list_elem \<Rightarrow> list_elem" where
  "set_prv p \<equiv> prv_update (\<lambda>_. p)"

abbreviation set_nxt :: "addr \<Rightarrow> list_elem \<Rightarrow> list_elem" where
  "set_nxt p \<equiv> nxt_update (\<lambda>_. p)"

definition ASSERT :: "bool \<Rightarrow> unit option" where
  "ASSERT b = (if b then Some () else None)"

lemma ASSERT_True [simp]: "b \<Longrightarrow> ASSERT b = Some ()"
  by (simp add: ASSERT_def)

lemma ASSERT_False [simp]: "\<not> b \<Longrightarrow> ASSERT b = None"
  by (simp add: ASSERT_def)

subsection \<open>Operations\<close>

definition is_head :: "lheap \<Rightarrow> addr \<Rightarrow> bool option" where
  "is_head h elem = (if elem = NULL then Some False
     else do { p \<leftarrow> peek h elem prv; n \<leftarrow> peek h elem nxt; Some (p = NULL \<and> n \<noteq> NULL) })"

definition is_interior :: "lheap \<Rightarrow> addr \<Rightarrow> bool option" where
  "is_interior h elem = (if elem = NULL then Some False
     else do { p \<leftarrow> peek h elem prv; n \<leftarrow> peek h elem nxt; Some (p \<noteq> NULL \<and> n \<noteq> NULL) })"

definition is_tail :: "lheap \<Rightarrow> addr \<Rightarrow> bool option" where
  "is_tail h elem = (if elem = NULL then Some False
     else do { p \<leftarrow> peek h elem prv; n \<leftarrow> peek h elem nxt; Some (p \<noteq> NULL \<and> n = NULL) })"

definition list_init :: "lheap \<Rightarrow> list_hdr \<Rightarrow> lheap option" where
  "list_init h L = do {
     h \<leftarrow> poke h (lhead L) (set_prv NULL);
     h \<leftarrow> poke h (lhead L) (set_nxt (ltail L));
     h \<leftarrow> poke h (ltail L) (set_prv (lhead L));
     poke h (ltail L) (set_nxt NULL)
   }"

definition list_begin :: "lheap \<Rightarrow> list_hdr \<Rightarrow> addr option" where
  "list_begin h L = peek h (lhead L) nxt"

definition list_next :: "lheap \<Rightarrow> addr \<Rightarrow> addr option" where
  "list_next h elem = do {
     a \<leftarrow> is_head h elem;
     b \<leftarrow> is_interior h elem;
     ASSERT (a \<or> b);
     peek h elem nxt
   }"

definition list_end :: "list_hdr \<Rightarrow> addr" where
  "list_end L = ltail L"

definition list_rbegin :: "lheap \<Rightarrow> list_hdr \<Rightarrow> addr option" where
  "list_rbegin h L = peek h (ltail L) prv"

definition list_prev :: "lheap \<Rightarrow> addr \<Rightarrow> addr option" where
  "list_prev h elem = do {
     a \<leftarrow> is_interior h elem;
     b \<leftarrow> is_tail h elem;
     ASSERT (a \<or> b);
     peek h elem prv
   }"

definition list_rend :: "list_hdr \<Rightarrow> addr" where
  "list_rend L = lhead L"

definition list_head :: "list_hdr \<Rightarrow> addr" where
  "list_head L = lhead L"

definition list_tail :: "list_hdr \<Rightarrow> addr" where
  "list_tail L = ltail L"

definition list_insert :: "lheap \<Rightarrow> addr \<Rightarrow> addr \<Rightarrow> lheap option" where
  "list_insert h before elem = do {
     a \<leftarrow> is_interior h before;
     b \<leftarrow> is_tail h before;
     ASSERT (a \<or> b);
     ASSERT (elem \<noteq> NULL);
     p \<leftarrow> peek h before prv;
     h \<leftarrow> poke h elem (set_prv p);
     h \<leftarrow> poke h elem (set_nxt before);
     p \<leftarrow> peek h before prv;
     h \<leftarrow> poke h p (set_nxt elem);
     poke h before (set_prv elem)
   }"

definition list_splice :: "lheap \<Rightarrow> addr \<Rightarrow> addr \<Rightarrow> addr \<Rightarrow> lheap option" where
  "list_splice h before first last' = do {
     a \<leftarrow> is_interior h before;
     b \<leftarrow> is_tail h before;
     ASSERT (a \<or> b);
     if first = last' then Some h
     else do {
       l \<leftarrow> list_prev h last';
       a \<leftarrow> is_interior h first;
       ASSERT a;
       b \<leftarrow> is_interior h l;
       ASSERT b;
       fp \<leftarrow> peek h first prv;
       ln \<leftarrow> peek h l nxt;
       h \<leftarrow> poke h fp (set_nxt ln);
       ln \<leftarrow> peek h l nxt;
       fp \<leftarrow> peek h first prv;
       h \<leftarrow> poke h ln (set_prv fp);
       bp \<leftarrow> peek h before prv;
       h \<leftarrow> poke h first (set_prv bp);
       h \<leftarrow> poke h l (set_nxt before);
       bp \<leftarrow> peek h before prv;
       h \<leftarrow> poke h bp (set_nxt first);
       poke h before (set_prv l)
     }
   }"

definition list_push_front :: "lheap \<Rightarrow> list_hdr \<Rightarrow> addr \<Rightarrow> lheap option" where
  "list_push_front h L elem = do { b \<leftarrow> list_begin h L; list_insert h b elem }"

definition list_push_back :: "lheap \<Rightarrow> list_hdr \<Rightarrow> addr \<Rightarrow> lheap option" where
  "list_push_back h L elem = list_insert h (list_end L) elem"

definition list_remove :: "lheap \<Rightarrow> addr \<Rightarrow> (lheap \<times> addr) option" where
  "list_remove h elem = do {
     a \<leftarrow> is_interior h elem;
     ASSERT a;
     p \<leftarrow> peek h elem prv;
     n \<leftarrow> peek h elem nxt;
     h \<leftarrow> poke h p (set_nxt n);
     n \<leftarrow> peek h elem nxt;
     p \<leftarrow> peek h elem prv;
     h \<leftarrow> poke h n (set_prv p);
     n \<leftarrow> peek h elem nxt;
     Some (h, n)
   }"

definition list_empty :: "lheap \<Rightarrow> list_hdr \<Rightarrow> bool option" where
  "list_empty h L = do { b \<leftarrow> list_begin h L; Some (b = list_end L) }"

definition list_front :: "lheap \<Rightarrow> list_hdr \<Rightarrow> addr option" where
  "list_front h L = do { e \<leftarrow> list_empty h L; ASSERT (\<not> e); peek h (lhead L) nxt }"

definition list_back :: "lheap \<Rightarrow> list_hdr \<Rightarrow> addr option" where
  "list_back h L = do { e \<leftarrow> list_empty h L; ASSERT (\<not> e); peek h (ltail L) prv }"

definition list_pop_front :: "lheap \<Rightarrow> list_hdr \<Rightarrow> (lheap \<times> addr) option" where
  "list_pop_front h L = do {
     front \<leftarrow> list_front h L;
     (h, _) \<leftarrow> list_remove h front;
     Some (h, front)
   }"

definition list_pop_back :: "lheap \<Rightarrow> list_hdr \<Rightarrow> (lheap \<times> addr) option" where
  "list_pop_back h L = do {
     back \<leftarrow> list_back h L;
     (h, _) \<leftarrow> list_remove h back;
     Some (h, back)
   }"

partial_function (option) list_size_loop :: "lheap \<Rightarrow> list_hdr \<Rightarrow> addr \<Rightarrow> nat \<Rightarrow> nat option" where
  "list_size_loop h L e cnt =
     (if e = list_end L then Some cnt
      else do { e' \<leftarrow> list_next h e; list_size_loop h L e' (cnt + 1) })"

definition list_size :: "lheap \<Rightarrow> list_hdr \<Rightarrow> nat option" where
  "list_size h L = do { e \<leftarrow> list_begin h L; list_size_loop h L e 0 }"

text \<open>The loop of \<open>list_reverse\<close>; the call of \<open>swap\<close> exchanges the two links of one element.\<close>

definition swap_links :: "list_elem \<Rightarrow> list_elem" where
  "swap_links n = \<lparr>prv = nxt n, nxt = prv n\<rparr>"

partial_function (option) list_reverse_loop :: "lheap \<Rightarrow> list_hdr \<Rightarrow> addr \<Rightarrow> lheap option" where
  "list_reverse_loop h L e =
     (if e = list_end L then Some h
      else do {
        h \<leftarrow> poke h e swap_links;
        e' \<leftarrow> peek h e prv;
        list_reverse_loop h L e'
      })"

definition list_reverse :: "lheap \<Rightarrow> list_hdr \<Rightarrow> lheap option" where
  "list_reverse h L = do {
     b \<leftarrow> list_empty h L;
     if b then Some h
     else do {
       e \<leftarrow> list_begin h L;
       h \<leftarrow> list_reverse_loop h L e;
       hn \<leftarrow> peek h (lhead L) nxt;
       tp \<leftarrow> peek h (ltail L) prv;
       h \<leftarrow> poke h (lhead L) (set_nxt tp);
       h \<leftarrow> poke h (ltail L) (set_prv hn);
       hn \<leftarrow> peek h (lhead L) nxt;
       tp \<leftarrow> peek h (ltail L) prv;
       a \<leftarrow> peek h hn prv;
       b \<leftarrow> peek h tp nxt;
       h \<leftarrow> poke h hn (set_prv b);
       poke h tp (set_nxt a)
     }
   }"

partial_function (option) is_sorted_loop ::
    "lheap \<Rightarrow> addr \<Rightarrow> addr \<Rightarrow> list_less_func \<Rightarrow> bool option" where
  "is_sorted_loop h a b lessf = do {
     a' \<leftarrow> list_next h a;
     if a' \<noteq> b then do {
       p \<leftarrow> list_prev h a';
       if lessf a' p then Some False else is_sorted_loop h a' b lessf
     } else Some True
   }"

definition is_sorted :: "lheap \<Rightarrow> addr \<Rightarrow> addr \<Rightarrow> list_less_func \<Rightarrow> bool option" where
  "is_sorted h a b lessf = (if a \<noteq> b then is_sorted_loop h a b lessf else Some True)"

partial_function (option) list_ordered_pos ::
    "lheap \<Rightarrow> list_hdr \<Rightarrow> addr \<Rightarrow> list_less_func \<Rightarrow> addr \<Rightarrow> addr option" where
  "list_ordered_pos h L elem lessf e =
     (if e = list_end L \<or> lessf elem e then Some e
      else do { e' \<leftarrow> list_next h e; list_ordered_pos h L elem lessf e' })"

definition list_insert_ordered ::
    "lheap \<Rightarrow> list_hdr \<Rightarrow> addr \<Rightarrow> list_less_func \<Rightarrow> lheap option" where
  "list_insert_ordered h L elem lessf = do {
     ASSERT (elem \<noteq> NULL);
     e \<leftarrow> list_begin h L;
     e \<leftarrow> list_ordered_pos h L elem lessf e;
     list_insert h e elem
   }"

partial_function (option) list_unique_loop ::
    "lheap \<Rightarrow> list_hdr \<Rightarrow> list_hdr option \<Rightarrow> list_less_func \<Rightarrow> addr \<Rightarrow> lheap option" where
  "list_unique_loop h L duplicates lessf elem = do {
     n \<leftarrow> list_next h elem;
     if n \<noteq> list_end L then
       if \<not> lessf elem n \<and> \<not> lessf n elem then do {
         (h, _) \<leftarrow> list_remove h n;
         h \<leftarrow> (case duplicates of None \<Rightarrow> Some h | Some D \<Rightarrow> list_push_back h D n);
         list_unique_loop h L duplicates lessf elem
       } else list_unique_loop h L duplicates lessf n
     else Some h
   }"

definition list_unique ::
    "lheap \<Rightarrow> list_hdr \<Rightarrow> list_hdr option \<Rightarrow> list_less_func \<Rightarrow> lheap option" where
  "list_unique h L duplicates lessf = do {
     b \<leftarrow> list_empty h L;
     if b then Some h
     else do { elem \<leftarrow> list_begin h L; list_unique_loop h L duplicates lessf elem }
   }"

partial_function (option) list_max_loop ::
    "lheap \<Rightarrow> list_hdr \<Rightarrow> list_less_func \<Rightarrow> addr \<Rightarrow> addr \<Rightarrow> addr option" where
  "list_max_loop h L lessf mx e =
     (if e = list_end L then Some mx
      else do { e' \<leftarrow> list_next h e; list_max_loop h L lessf (if lessf mx e then e else mx) e' })"

definition list_max :: "lheap \<Rightarrow> list_hdr \<Rightarrow> list_less_func \<Rightarrow> addr option" where
  "list_max h L lessf = do {
     mx \<leftarrow> list_begin h L;
     if mx \<noteq> list_end L then do { e \<leftarrow> list_next h mx; list_max_loop h L lessf mx e } else Some mx
   }"

partial_function (option) list_min_loop ::
    "lheap \<Rightarrow> list_hdr \<Rightarrow> list_less_func \<Rightarrow> addr \<Rightarrow> addr \<Rightarrow> addr option" where
  "list_min_loop h L lessf mn e =
     (if e = list_end L then Some mn
      else do { e' \<leftarrow> list_next h e; list_min_loop h L lessf (if lessf e mn then e else mn) e' })"

definition list_min :: "lheap \<Rightarrow> list_hdr \<Rightarrow> list_less_func \<Rightarrow> addr option" where
  "list_min h L lessf = do {
     mn \<leftarrow> list_begin h L;
     if mn \<noteq> list_end L then do { e \<leftarrow> list_next h mn; list_min_loop h L lessf mn e } else Some mn
   }"

subsection \<open>Chains of links\<close>

text \<open>\<open>dseg h p xs n\<close>: the addresses \<open>xs\<close> are linked in this order, with \<open>p\<close> before and \<open>n\<close> after them.\<close>

fun dseg :: "lheap \<Rightarrow> addr \<Rightarrow> addr list \<Rightarrow> addr \<Rightarrow> bool" where
  "dseg h p [] n = True"
| "dseg h p (a # as) n = (h a = Some \<lparr>prv = p, nxt = hd (as @ [n])\<rparr> \<and> dseg h a as n)"

lemma dseg_append [simp]:
  "dseg h p (xs @ ys) n = (dseg h p xs (hd (ys @ [n])) \<and> dseg h (last (p # xs)) ys n)"
  by (induction xs arbitrary: p) (auto simp: hd_append)

lemma hd_append2 [simp]: "hd (xs @ a # b # ys) = hd (xs @ [a])"
  by (cases xs) auto

lemma dseg_upd [simp]: "a \<notin> set xs \<Longrightarrow> dseg (h(a := v)) p xs n = dseg h p xs n"
  by (induction xs arbitrary: p) auto

lemma dseg_agree: "agree (set xs) h h' \<Longrightarrow> dseg h p xs n = dseg h' p xs n"
  by (induction xs arbitrary: p) (auto simp: agree_def)

text \<open>A list with the interior elements \<open>xs\<close>.\<close>

definition dll :: "lheap \<Rightarrow> list_hdr \<Rightarrow> addr list \<Rightarrow> bool" where
  "dll h L xs \<longleftrightarrow> dseg h NULL (lhead L # xs @ [ltail L]) NULL
     \<and> distinct (lhead L # xs @ [ltail L]) \<and> NULL \<notin> set (lhead L # xs @ [ltail L])"

definition cells :: "list_hdr \<Rightarrow> addr list \<Rightarrow> addr set" where
  "cells L xs = insert (lhead L) (insert (ltail L) (set xs))"

lemma dll_agree: "dll h L xs \<Longrightarrow> agree (cells L xs) h h' \<Longrightarrow> dll h' L xs"
  using dseg_agree [of "lhead L # xs @ [ltail L]" h h' NULL NULL]
  by (simp add: dll_def cells_def)

subsection \<open>Reading a list\<close>

lemma dll_lhead: "dll h L xs \<Longrightarrow> h (lhead L) = Some \<lparr>prv = NULL, nxt = hd (xs @ [ltail L])\<rparr>"
  by (simp add: dll_def)

lemma dll_ltail: "dll h L xs \<Longrightarrow> h (ltail L) = Some \<lparr>prv = last (lhead L # xs), nxt = NULL\<rparr>"
  by (simp add: dll_def)

lemma dll_mid:
  "dll h L (as @ e # bs) \<Longrightarrow> h e = Some \<lparr>prv = last (lhead L # as), nxt = hd (bs @ [ltail L])\<rparr>"
  by (simp add: dll_def)

lemma hd_in: "hd (ys @ [t]) \<in> insert t (set ys)"
  by (cases ys) auto

lemma last_in: "last (x # xs) \<in> insert x (set xs)"
  by (cases xs rule: rev_cases) auto

lemma dll_ne:
  assumes "dll h L xs"
  shows "NULL \<notin> cells L xs" "lhead L \<noteq> ltail L" "lhead L \<notin> set xs" "ltail L \<notin> set xs" "distinct xs"
  using assms by (auto simp: dll_def cells_def)

lemma hd_last_ne:
  assumes "dll h L (as @ bs)"
  shows "hd (bs @ [ltail L]) \<noteq> NULL" "last (lhead L # as) \<noteq> NULL"
  using dll_ne [OF assms] hd_in [of bs "ltail L"] last_in [of "lhead L" as] by (auto simp: cells_def)

text \<open>The tests of the code on the elements of a list, and steps along it.\<close>

lemma dll_tests:
  assumes "dll h L (as @ e # bs)"
  shows "is_interior h e = Some True" "is_head h e = Some False" "is_tail h e = Some False"
  using dll_mid [OF assms] dll_ne [OF assms] hd_last_ne [of h L as "e # bs"] hd_last_ne [of h L "as @ [e]" bs] assms
  by (auto simp: is_interior_def is_head_def is_tail_def cells_def)

lemma dll_tests_tail:
  assumes "dll h L xs"
  shows "is_interior h (ltail L) = Some False" "is_head h (ltail L) = Some False" "is_tail h (ltail L) = Some True"
  using dll_ltail [OF assms] dll_ne [OF assms] hd_last_ne [of h L xs "[]"] assms
  by (auto simp: is_interior_def is_head_def is_tail_def cells_def)

lemma dll_begin: "dll h L xs \<Longrightarrow> list_begin h L = Some (hd (xs @ [ltail L]))"
  by (simp add: list_begin_def dll_lhead)

lemma dll_next: "dll h L (as @ e # bs) \<Longrightarrow> list_next h e = Some (hd (bs @ [ltail L]))"
  by (simp add: list_next_def dll_tests dll_mid)

lemma dll_prev: "dll h L (as @ e # bs) \<Longrightarrow> list_prev h e = Some (last (lhead L # as))"
  by (simp add: list_prev_def dll_tests dll_mid)

lemma dll_prev_tail: "dll h L xs \<Longrightarrow> list_prev h (ltail L) = Some (last (lhead L # xs))"
  by (simp add: list_prev_def dll_tests_tail dll_ltail)

lemma dll_prev_hd:
  assumes "dll h L (as @ e # bs)"
  shows "list_prev h (hd (bs @ [ltail L])) = Some e"
proof (cases bs)
  case Nil
  with dll_prev_tail [OF assms] show ?thesis by simp
next
  case (Cons b bs')
  with dll_prev [of h L "as @ [e]" b bs'] assms show ?thesis by simp
qed

lemma hd_end: "dll h L (as @ bs) \<Longrightarrow> hd (bs @ [ltail L]) = ltail L \<longleftrightarrow> bs = []"
  by (cases bs) (auto dest: dll_ne(4))

lemma dll_empty: "dll h L xs \<Longrightarrow> list_empty h L = Some (xs = [])"
  using hd_end [of h L "[]" xs] by (simp add: list_empty_def dll_begin list_end_def)

lemma dll_front: "dll h L (x # xs) \<Longrightarrow> list_front h L = Some x"
  by (simp add: list_front_def dll_empty dll_lhead)

lemma dll_back: "dll h L (xs @ [x]) \<Longrightarrow> list_back h L = Some x"
  by (simp add: list_back_def dll_empty dll_ltail)

lemma list_size_loop_run:
  "dll h L (as @ bs) \<Longrightarrow> list_size_loop h L (hd (bs @ [ltail L])) n = Some (n + length bs)"
proof (induction bs arbitrary: as n)
  case Nil
  then show ?case by (subst list_size_loop.simps) (simp add: list_end_def)
next
  case (Cons b bs)
  from Cons.prems have "b \<noteq> ltail L" by (auto dest: dll_ne(4))
  with Cons.IH [of "as @ [b]" "n + 1"] Cons.prems show ?case
    by (subst list_size_loop.simps) (simp add: list_end_def dll_next)
qed

lemma dll_size: "dll h L xs \<Longrightarrow> list_size h L = Some (length xs)"
  using list_size_loop_run [of h L "[]" xs 0] by (simp add: list_size_def dll_begin)

subsection \<open>Inserting, removing and splicing\<close>

lemma insert_seg:
  assumes d: "dseg h NULL (A @ q # b # B) NULL" "distinct (A @ q # b # B)" "NULL \<notin> set (A @ q # b # B)"
    and e: "h elem \<noteq> None" "elem \<notin> set (A @ q # b # B)" "elem \<noteq> NULL"
  shows "\<exists>h'. list_insert h b elem = Some h' \<and> dseg h' NULL (A @ q # elem # b # B) NULL
    \<and> agree (- {q, elem, b}) h h'"
proof -
  obtain n1 n2 where n: "h elem = Some \<lparr>prv = n1, nxt = n2\<rparr>"
    using e by (metis list_elem.cases option.exhaust)
  have hb: "h b = Some \<lparr>prv = q, nxt = hd (B @ [NULL])\<rparr>" and hq: "h q = Some \<lparr>prv = last (NULL # A), nxt = b\<rparr>"
    using d by auto
  from d have ne: "q \<noteq> NULL" "b \<noteq> NULL" "q \<noteq> b" by auto
  let ?h = "h(elem \<mapsto> \<lparr>prv = q, nxt = b\<rparr>, q \<mapsto> \<lparr>prv = last (NULL # A), nxt = elem\<rparr>,
     b \<mapsto> \<lparr>prv = elem, nxt = hd (B @ [NULL])\<rparr>)"
  have "\<exists>i j. is_interior h b = Some i \<and> is_tail h b = Some j \<and> (i \<or> j)"
    using hb ne by (cases "hd (B @ [NULL]) = NULL") (auto simp: is_interior_def is_tail_def)
  then have "list_insert h b elem = Some ?h"
    using n hb hq ne e by (auto simp: list_insert_def)
  moreover have "dseg ?h NULL (A @ q # elem # b # B) NULL"
    using d e by auto
  moreover have "agree (- {q, elem, b}) h ?h" by (simp add: agree_def)
  ultimately show ?thesis by blast
qed

lemma dll_insert:
  assumes d: "dll h L (xs @ ys)" and e: "h elem \<noteq> None" "elem \<notin> cells L (xs @ ys)" "elem \<noteq> NULL"
  shows "\<exists>h'. list_insert h (hd (ys @ [ltail L])) elem = Some h' \<and> dll h' L (xs @ elem # ys)
    \<and> agree (- insert elem (cells L (xs @ ys))) h h'"
proof -
  obtain A q where q: "lhead L # xs = A @ [q]" by (metis append_butlast_last_id list.distinct(1))
  obtain b B where b: "ys @ [ltail L] = b # B" by (cases ys) auto
  have w: "lhead L # (xs @ ys) @ [ltail L] = A @ q # b # B" "lhead L # (xs @ elem # ys) @ [ltail L] = A @ q # elem # b # B"
    using q b by simp_all
  have c: "cells L (xs @ ys) = set (A @ q # b # B)" unfolding w(1) [symmetric] by (auto simp: cells_def)
  from insert_seg [of h A q b B elem] d e c obtain h' where
    h': "list_insert h b elem = Some h'" "dseg h' NULL (A @ q # elem # b # B) NULL" "agree (- {q, elem, b}) h h'"
    unfolding dll_def w by auto
  have "dll h' L (xs @ elem # ys)"
    unfolding dll_def w using h'(2) d e c unfolding dll_def w by auto
  moreover have "agree (- insert elem (cells L (xs @ ys))) h h'"
    by (rule agree_mono [OF h'(3)]) (auto simp: c)
  ultimately show ?thesis using h'(1) b by auto
qed

lemma dll_push_back:
  assumes "dll h L xs" "h elem \<noteq> None" "elem \<notin> cells L xs" "elem \<noteq> NULL"
  shows "\<exists>h'. list_push_back h L elem = Some h' \<and> dll h' L (xs @ [elem])
    \<and> agree (- insert elem (cells L xs)) h h'"
  using dll_insert [of h L xs "[]" elem] assms by (simp add: list_push_back_def list_end_def)

lemma dll_push_front:
  assumes "dll h L xs" "h elem \<noteq> None" "elem \<notin> cells L xs" "elem \<noteq> NULL"
  shows "\<exists>h'. list_push_front h L elem = Some h' \<and> dll h' L (elem # xs)
    \<and> agree (- insert elem (cells L xs)) h h'"
  using dll_insert [of h L "[]" xs elem] assms by (simp add: list_push_front_def dll_begin)

lemma remove_seg:
  assumes d: "dseg h NULL (A @ q # e # b # B) NULL" "distinct (A @ q # e # b # B)" "NULL \<notin> set (A @ q # e # b # B)"
  shows "\<exists>h'. list_remove h e = Some (h', b) \<and> dseg h' NULL (A @ q # b # B) NULL
    \<and> agree (- {q, b}) h h'"
proof -
  have he: "h e = Some \<lparr>prv = q, nxt = b\<rparr>" and hb: "h b = Some \<lparr>prv = e, nxt = hd (B @ [NULL])\<rparr>"
    and hq: "h q = Some \<lparr>prv = last (NULL # A), nxt = e\<rparr>"
    using d by auto
  from d have ne: "q \<noteq> NULL" "b \<noteq> NULL" "e \<noteq> NULL" "q \<noteq> b" "q \<noteq> e" "e \<noteq> b" by auto
  let ?h = "h(q \<mapsto> \<lparr>prv = last (NULL # A), nxt = b\<rparr>, b \<mapsto> \<lparr>prv = q, nxt = hd (B @ [NULL])\<rparr>)"
  have "list_remove h e = Some (?h, b)"
    using he hb hq ne by (auto simp: list_remove_def is_interior_def)
  moreover have "dseg ?h NULL (A @ q # b # B) NULL"
    using d by auto
  moreover have "agree (- {q, b}) h ?h" by (simp add: agree_def)
  ultimately show ?thesis by blast
qed

lemma dll_remove:
  assumes d: "dll h L (xs @ e # ys)"
  shows "\<exists>h'. list_remove h e = Some (h', hd (ys @ [ltail L])) \<and> dll h' L (xs @ ys)
    \<and> agree (- cells L (xs @ ys)) h h'"
proof -
  obtain A q where q: "lhead L # xs = A @ [q]" by (metis append_butlast_last_id list.distinct(1))
  obtain b B where b: "ys @ [ltail L] = b # B" by (cases ys) auto
  have w: "lhead L # (xs @ ys) @ [ltail L] = A @ q # b # B" "lhead L # (xs @ e # ys) @ [ltail L] = A @ q # e # b # B"
    using q b by simp_all
  have c: "cells L (xs @ ys) = set (A @ q # b # B)" unfolding w(1) [symmetric] by (auto simp: cells_def)
  from remove_seg [of h A q e b B] d obtain h' where
    h': "list_remove h e = Some (h', b)" "dseg h' NULL (A @ q # b # B) NULL" "agree (- {q, b}) h h'"
    unfolding dll_def w by auto
  have "dll h' L (xs @ ys)"
    unfolding dll_def w using h'(2) d unfolding dll_def w by auto
  moreover have "agree (- cells L (xs @ ys)) h h'"
    by (rule agree_mono [OF h'(3)]) (auto simp: c)
  ultimately show ?thesis using h'(1) b by auto
qed

lemma dll_pop_front:
  assumes "dll h L (x # xs)"
  shows "\<exists>h'. list_pop_front h L = Some (h', x) \<and> dll h' L xs \<and> agree (- cells L xs) h h'"
  using dll_remove [of h L "[]" x xs] dll_front [OF assms] assms by (auto simp: list_pop_front_def)

lemma dll_pop_back:
  assumes "dll h L (xs @ [x])"
  shows "\<exists>h'. list_pop_back h L = Some (h', x) \<and> dll h' L xs \<and> agree (- cells L xs) h h'"
  using dll_remove [of h L xs x "[]"] dll_back [OF assms] assms by (auto simp: list_pop_back_def)

subsection \<open>Ordered insertion, duplicates, extrema, reversal\<close>

lemma list_ordered_pos_run:
  "dll h L (as @ bs) \<Longrightarrow> list_ordered_pos h L e lt (hd (bs @ [ltail L]))
     = Some (hd (dropWhile (\<lambda>x. \<not> lt e x) bs @ [ltail L]))"
proof (induction bs arbitrary: as)
  case Nil
  then show ?case by (subst list_ordered_pos.simps) (simp add: list_end_def)
next
  case (Cons b bs)
  from Cons.prems have "b \<noteq> ltail L" by (auto dest: dll_ne(4))
  with Cons.IH [of "as @ [b]"] Cons.prems show ?case
    by (subst list_ordered_pos.simps) (simp add: list_end_def dll_next)
qed

definition insert_at :: "list_less_func \<Rightarrow> addr \<Rightarrow> addr list \<Rightarrow> addr list" where
  "insert_at lt e xs = takeWhile (\<lambda>x. \<not> lt e x) xs @ e # dropWhile (\<lambda>x. \<not> lt e x) xs"

lemma dll_insert_ordered:
  assumes d: "dll h L xs" and e: "h e \<noteq> None" "e \<notin> cells L xs" "e \<noteq> NULL"
  shows "\<exists>h'. list_insert_ordered h L e lt = Some h' \<and> dll h' L (insert_at lt e xs)
    \<and> agree (- insert e (cells L xs)) h h'"
proof -
  let ?a = "takeWhile (\<lambda>x. \<not> lt e x) xs" and ?b = "dropWhile (\<lambda>x. \<not> lt e x) xs"
  have xs: "xs = ?a @ ?b" by simp
  from dll_insert [of h L ?a ?b e] d e obtain h' where
    "list_insert h (hd (?b @ [ltail L])) e = Some h'" "dll h' L (?a @ e # ?b)" "agree (- insert e (cells L xs)) h h'"
    by auto
  moreover have "list_ordered_pos h L e lt (hd (xs @ [ltail L])) = Some (hd (?b @ [ltail L]))"
    using list_ordered_pos_run [of h L "[]" xs] d by simp
  ultimately show ?thesis using d e by (auto simp: list_insert_ordered_def dll_begin insert_at_def)
qed

text \<open>The elements that \<open>list_unique\<close> keeps, and those it moves away.\<close>

fun uniq :: "list_less_func \<Rightarrow> addr list \<Rightarrow> addr list \<times> addr list" where
  "uniq lt [] = ([], [])"
| "uniq lt [x] = ([x], [])"
| "uniq lt (x # y # ys) =
     (if \<not> lt x y \<and> \<not> lt y x then (fst (uniq lt (x # ys)), y # snd (uniq lt (x # ys)))
      else (x # fst (uniq lt (y # ys)), snd (uniq lt (y # ys))))"

lemma agree_compl_upd: "agree (- A) h h' \<Longrightarrow> B \<inter> A = {} \<Longrightarrow> agree B h h'"
  by (rule agree_mono) auto

lemma list_unique_loop_run:
  assumes "dll h L (as @ x # ys)" "dll h D ds" "cells L (as @ x # ys) \<inter> cells D ds = {}"
  shows "\<exists>h'. list_unique_loop h L (Some D) lt x = Some h'
    \<and> dll h' L (as @ fst (uniq lt (x # ys))) \<and> dll h' D (ds @ snd (uniq lt (x # ys)))
    \<and> agree (- (cells L (as @ x # ys) \<union> cells D ds)) h h'"
  using assms
proof (induction lt "x # ys" arbitrary: x ys as ds h rule: uniq.induct)
  case (2 lt x)
  then have "list_unique_loop h L (Some D) lt x = Some h"
    by (subst list_unique_loop.simps) (simp add: dll_next [of h L as x "[]"] list_end_def)
  with 2 show ?case by simp
next
  case (3 lt x y ys)
  from "3.prems"(1) have n: "list_next h x = Some y" "y \<noteq> list_end L"
    using dll_next [of h L as x "y # ys"] dll_ne(4) [of h L "as @ x # y # ys"] by (auto simp: list_end_def)
  show ?case
  proof (cases "\<not> lt x y \<and> \<not> lt y x")
    case True
    from dll_remove [of h L "as @ [x]" y ys] "3.prems"(1) obtain h1 where
      h1: "list_remove h y = Some (h1, hd (ys @ [ltail L]))" "dll h1 L (as @ x # ys)"
        "agree (- cells L (as @ x # ys)) h h1" by auto
    from "3.prems"(1) have y: "y \<notin> cells L (as @ x # ys)" "y \<noteq> NULL" "h y \<noteq> None"
      using dll_mid [of h L "as @ [x]" y ys] dll_ne [of h L "as @ x # y # ys"] by (auto simp: cells_def)
    have yD: "y \<notin> cells D ds" using "3.prems"(3) by (auto simp: cells_def)
    have D1: "dll h1 D ds"
      by (rule dll_agree [OF "3.prems"(2)], rule agree_compl_upd [OF h1(3)])
         (use "3.prems"(3) in \<open>auto simp: cells_def\<close>)
    have y1: "h1 y \<noteq> None" using agreeD [OF h1(3), of y] y by auto
    from dll_push_back [OF D1 y1 yD y(2)] obtain h2 where
      h2: "list_push_back h1 D y = Some h2" "dll h2 D (ds @ [y])" "agree (- insert y (cells D ds)) h1 h2" by blast
    have L2: "dll h2 L (as @ x # ys)"
      by (rule dll_agree [OF h1(2)], rule agree_compl_upd [OF h2(3)])
         (use "3.prems"(3) y in \<open>auto simp: cells_def\<close>)
    have "cells L (as @ x # ys) \<inter> cells D (ds @ [y]) = {}"
      using "3.prems"(3) y by (auto simp: cells_def)
    from "3.hyps"(1) [OF True L2 h2(2) this] obtain h3 where
      h3: "list_unique_loop h2 L (Some D) lt x = Some h3" "dll h3 L (as @ fst (uniq lt (x # ys)))"
        "dll h3 D ((ds @ [y]) @ snd (uniq lt (x # ys)))"
        "agree (- (cells L (as @ x # ys) \<union> cells D (ds @ [y]))) h2 h3" by blast
    have "list_unique_loop h L (Some D) lt x = Some h3"
      using n h1(1) h2(1) h3(1) True by (subst list_unique_loop.simps) simp
    moreover have "agree (- (cells L (as @ x # y # ys) \<union> cells D ds)) h h3"
      using h1(3) h2(3) h3(4) by (auto simp: agree_def cells_def)
    ultimately show ?thesis using h3 True by auto
  next
    case False
    from "3.hyps"(3) [OF False, of h "as @ [x]" ds] "3.prems" obtain h3 where
      h3: "list_unique_loop h L (Some D) lt y = Some h3" "dll h3 L (as @ x # fst (uniq lt (y # ys)))"
        "dll h3 D (ds @ snd (uniq lt (y # ys)))"
        "agree (- (cells L (as @ x # y # ys) \<union> cells D ds)) h h3" by auto
    have "list_unique_loop h L (Some D) lt x = Some h3"
      using n h3(1) False by (subst list_unique_loop.simps) auto
    with h3 False show ?thesis by auto
  qed
qed

definition first_max :: "list_less_func \<Rightarrow> addr \<Rightarrow> addr list \<Rightarrow> addr" where
  "first_max lt x xs = foldl (\<lambda>m e. if lt m e then e else m) x xs"

lemma list_max_loop_run:
  "dll h L (as @ bs) \<Longrightarrow> list_max_loop h L lt m (hd (bs @ [ltail L])) = Some (first_max lt m bs)"
proof (induction bs arbitrary: as m)
  case Nil
  then show ?case by (subst list_max_loop.simps) (simp add: list_end_def first_max_def)
next
  case (Cons b bs)
  from Cons.prems have "b \<noteq> ltail L" by (auto dest: dll_ne(4))
  with Cons.IH [of "as @ [b]"] Cons.prems show ?case
    by (subst list_max_loop.simps) (simp add: list_end_def dll_next first_max_def)
qed

lemma list_min_loop_run:
  "dll h L (as @ bs) \<Longrightarrow> list_min_loop h L lt m (hd (bs @ [ltail L])) = Some (first_max (\<lambda>a b. lt b a) m bs)"
proof (induction bs arbitrary: as m)
  case Nil
  then show ?case by (subst list_min_loop.simps) (simp add: list_end_def first_max_def)
next
  case (Cons b bs)
  from Cons.prems have "b \<noteq> ltail L" by (auto dest: dll_ne(4))
  with Cons.IH [of "as @ [b]"] Cons.prems show ?case
    by (subst list_min_loop.simps) (simp add: list_end_def dll_next first_max_def)
qed

lemma dll_max: "dll h L (x # xs) \<Longrightarrow> list_max h L lt = Some (first_max lt x xs)"
  using list_max_loop_run [of h L "[x]" xs lt x] dll_next [of h L "[]" x xs] dll_ne(4) [of h L "x # xs"]
  by (simp add: list_max_def dll_begin list_end_def)

lemma dll_min: "dll h L (x # xs) \<Longrightarrow> list_min h L lt = Some (first_max (\<lambda>a b. lt b a) x xs)"
  using list_min_loop_run [of h L "[x]" xs lt x] dll_next [of h L "[]" x xs] dll_ne(4) [of h L "x # xs"]
  by (simp add: list_min_def dll_begin list_end_def)

lemma dll_max_empty: "dll h L [] \<Longrightarrow> list_max h L lt = Some (ltail L) \<and> list_min h L lt = Some (ltail L)"
  by (simp add: list_max_def list_min_def dll_begin list_end_def)

text \<open>Reversal: swapping the links of every interior element reverses the chain.\<close>

definition swapped :: "addr list \<Rightarrow> lheap \<Rightarrow> lheap" where
  "swapped as h = (\<lambda>a. if a \<in> set as then map_option swap_links (h a) else h a)"

lemma list_reverse_loop_run:
  "dll h L (as @ bs) \<Longrightarrow> list_reverse_loop (swapped as h) L (hd (bs @ [ltail L])) = Some (swapped (as @ bs) h)"
proof (induction bs arbitrary: as)
  case Nil
  then show ?case by (subst list_reverse_loop.simps) (simp add: list_end_def)
next
  case (Cons b bs)
  from Cons.prems have b: "b \<noteq> ltail L" "b \<notin> set as" by (auto dest: dll_ne(4,5))
  have hb: "h b = Some \<lparr>prv = last (lhead L # as), nxt = hd (bs @ [ltail L])\<rparr>"
    by (rule dll_mid [OF Cons.prems])
  have "poke (swapped as h) b swap_links = Some (swapped (as @ [b]) h)"
    using hb b by (auto simp: poke_def swapped_def fun_eq_iff)
  moreover have "peek (swapped (as @ [b]) h) b prv = Some (hd (bs @ [ltail L]))"
    using hb by (simp add: peek_def swapped_def swap_links_def)
  ultimately show ?case
    using b Cons.IH [of "as @ [b]"] Cons.prems by (subst list_reverse_loop.simps) (simp add: list_end_def)
qed

lemma hd_last_rev: "last (n # rev xs) = hd (xs @ [n])"
  by (cases xs) auto

lemma dseg_swapped:
  assumes "dseg h p xs n" "distinct xs" "set xs \<subseteq> set ys"
  shows "dseg (swapped ys h) n (rev xs) p"
  using assms
proof (induction xs arbitrary: p)
  case (Cons a as)
  then have "dseg (swapped ys h) n (rev as) a" by simp
  moreover have "swapped ys h a = Some \<lparr>prv = hd (as @ [n]), nxt = p\<rparr>"
    using Cons.prems by (simp add: swapped_def swap_links_def)
  ultimately show ?case by (cases as) (auto simp: hd_last_rev)
qed simp

lemma dseg_set_prv:
  "dseg h p (y # ys) n \<Longrightarrow> y \<notin> set ys \<Longrightarrow> dseg (h(y \<mapsto> set_prv q (the (h y)))) q (y # ys) n"
  by simp

lemma dseg_set_nxt:
  "dseg h p (xs @ [y]) n \<Longrightarrow> y \<notin> set xs \<Longrightarrow> dseg (h(y \<mapsto> set_nxt m (the (h y)))) p (xs @ [y]) m"
  by simp

lemma dll_reverse:
  assumes d: "dll h L xs"
  shows "\<exists>h'. list_reverse h L = Some h' \<and> dll h' L (rev xs) \<and> agree (- cells L xs) h h'"
proof (cases "xs = []")
  case True
  with d show ?thesis by (simp add: list_reverse_def dll_empty)
next
  case False
  let ?h1 = "swapped xs h" and ?x = "hd xs" and ?y = "last xs"
  from False have ends: "?x \<in> set xs" "?y \<in> set xs" by simp_all
  from d have D: "distinct xs" "lhead L \<notin> set xs" "ltail L \<notin> set xs" "lhead L \<noteq> ltail L"
    by (auto dest: dll_ne)
  with ends have ne: "lhead L \<noteq> ?x" "lhead L \<noteq> ?y" "ltail L \<noteq> ?x" "ltail L \<noteq> ?y" by metis+
  have loop: "list_reverse_loop h L (hd (xs @ [ltail L])) = Some ?h1"
    using list_reverse_loop_run [of h L "[]" xs] d by (simp add: swapped_def)
  have seg: "dseg h (lhead L) xs (ltail L)" using d False by (simp add: dll_def)
  have s1: "dseg ?h1 (ltail L) (rev xs) (lhead L)"
    by (rule dseg_swapped [OF seg D(1)]) simp
  have hl: "?h1 (lhead L) = Some \<lparr>prv = NULL, nxt = ?x\<rparr>" "?h1 (ltail L) = Some \<lparr>prv = ?y, nxt = NULL\<rparr>"
    using d D False dll_lhead [OF d] dll_ltail [OF d] by (simp_all add: swapped_def)
  from False obtain xs' where xs': "xs = xs' @ [?y]" by (metis append_butlast_last_id)
  from False obtain xs'' where xs'': "xs = ?x # xs''" by (metis list.collapse)
  have hx: "?h1 ?x = Some \<lparr>prv = last (ltail L # rev xs''), nxt = lhead L\<rparr>"
    using s1 by (subst (asm) (2) xs'') simp
  have hy: "?h1 ?y = Some \<lparr>prv = ltail L, nxt = hd (rev xs' @ [lhead L])\<rparr>"
    using s1 by (subst (asm) (2) xs') simp
  let ?h2 = "?h1(lhead L \<mapsto> \<lparr>prv = NULL, nxt = ?y\<rparr>, ltail L \<mapsto> \<lparr>prv = ?x, nxt = NULL\<rparr>)"
  let ?h3 = "?h2(?y \<mapsto> set_prv (lhead L) (the (?h2 ?y)))"
  let ?h4 = "?h3(?x \<mapsto> set_nxt (ltail L) (the (?h3 ?x)))"
  have run: "list_reverse h L = Some ?h4"
    using d False D ne hl hx hy loop by (simp add: list_reverse_def dll_empty dll_begin)
  have ry: "rev xs = ?y # rev xs'" by (subst xs') simp
  have rx: "rev xs = rev xs'' @ [?x]" by (subst xs'') simp
  from D(1) have "distinct (rev xs)" by simp
  then have nin: "?y \<notin> set (rev xs')" "?x \<notin> set (rev xs'')"
    by (metis ry distinct.simps(2), metis rx distinct_append not_distinct_conv_prefix)
  have "dseg ?h2 (ltail L) (rev xs) (lhead L)" using s1 D by simp
  then have "dseg ?h3 (lhead L) (rev xs) (lhead L)"
    using dseg_set_prv [OF _ nin(1)] unfolding ry by blast
  then have "dseg ?h4 (lhead L) (rev xs) (ltail L)"
    using dseg_set_nxt [OF _ nin(2)] unfolding rx by blast
  moreover have "?h4 (lhead L) = Some \<lparr>prv = NULL, nxt = hd (rev xs @ [ltail L])\<rparr>"
    using ne D False by (simp add: hd_append hd_rev)
  moreover have "?h4 (ltail L) = Some \<lparr>prv = last (lhead L # rev xs), nxt = NULL\<rparr>"
    using ne D False by (simp add: last_rev)
  moreover have "distinct (lhead L # rev xs @ [ltail L])" "NULL \<notin> set (lhead L # rev xs @ [ltail L])"
    using d by (auto simp: dll_def)
  ultimately have "dll ?h4 L (rev xs)"
    by (simp add: dll_def)
  moreover have "agree (- cells L xs) h ?h4"
    using ends by (auto simp: agree_def cells_def swapped_def)
  ultimately show ?thesis using run by blast
qed

end
