(* ===== verification/PListSort.thy ===== *)
theory PListSort
  imports PList
begin

text \<open>
  \<open>list_splice\<close> and the natural merge sort of \<open>list.c\<close>: the loops on links refine a merge sort of
  lists, which sorts and needs at most half as many passes as there are runs.
\<close>

subsection \<open>Operations\<close>

partial_function (option) find_end_of_run ::
    "lheap \<Rightarrow> addr \<Rightarrow> addr \<Rightarrow> list_less_func \<Rightarrow> addr option" where
  "find_end_of_run h a b lessf = do {
     ASSERT (a \<noteq> NULL);
     ASSERT (b \<noteq> NULL);
     ASSERT (a \<noteq> b);
     a' \<leftarrow> list_next h a;
     if a' \<noteq> b then do {
       p \<leftarrow> list_prev h a';
       if \<not> lessf a' p then find_end_of_run h a' b lessf else Some a'
     } else Some a'
   }"

partial_function (option) inplace_merge_loop ::
    "lheap \<Rightarrow> addr \<Rightarrow> addr \<Rightarrow> addr \<Rightarrow> list_less_func \<Rightarrow> lheap option" where
  "inplace_merge_loop h a0 a1b0 b1 lessf =
     (if a0 \<noteq> a1b0 \<and> a1b0 \<noteq> b1 then
        if \<not> lessf a1b0 a0 then do {
          a0 \<leftarrow> list_next h a0;
          inplace_merge_loop h a0 a1b0 b1 lessf
        } else do {
          a1b0 \<leftarrow> list_next h a1b0;
          p \<leftarrow> list_prev h a1b0;
          h \<leftarrow> list_splice h a0 p a1b0;
          inplace_merge_loop h a0 a1b0 b1 lessf
        }
      else Some h)"

definition inplace_merge ::
    "lheap \<Rightarrow> addr \<Rightarrow> addr \<Rightarrow> addr \<Rightarrow> list_less_func \<Rightarrow> lheap option" where
  "inplace_merge h a0 a1b0 b1 lessf = do {
     ASSERT (a0 \<noteq> NULL);
     ASSERT (a1b0 \<noteq> NULL);
     ASSERT (b1 \<noteq> NULL);
     b \<leftarrow> is_sorted h a0 a1b0 lessf;
     ASSERT b;
     b \<leftarrow> is_sorted h a1b0 b1 lessf;
     ASSERT b;
     inplace_merge_loop h a0 a1b0 b1 lessf
   }"

text \<open>The inner loop of \<open>list_sort\<close>, one pass over the list: the heap and the number of runs.\<close>

partial_function (option) list_sort_pass ::
    "lheap \<Rightarrow> list_hdr \<Rightarrow> list_less_func \<Rightarrow> addr \<Rightarrow> nat \<Rightarrow> (lheap \<times> nat) option" where
  "list_sort_pass h L lessf a0 output_run_cnt =
     (if a0 = list_end L then Some (h, output_run_cnt)
      else do {
        a1b0 \<leftarrow> find_end_of_run h a0 (list_end L) lessf;
        if a1b0 = list_end L then Some (h, output_run_cnt + 1)
        else do {
          b1 \<leftarrow> find_end_of_run h a1b0 (list_end L) lessf;
          h \<leftarrow> inplace_merge h a0 a1b0 b1 lessf;
          list_sort_pass h L lessf b1 (output_run_cnt + 1)
        }
      })"

partial_function (option) list_sort_loop ::
    "lheap \<Rightarrow> list_hdr \<Rightarrow> list_less_func \<Rightarrow> lheap option" where
  "list_sort_loop h L lessf = do {
     a0 \<leftarrow> list_begin h L;
     (h', output_run_cnt) \<leftarrow> list_sort_pass h L lessf a0 0;
     if output_run_cnt > 1 then list_sort_loop h' L lessf else Some h'
   }"

definition list_sort :: "lheap \<Rightarrow> list_hdr \<Rightarrow> list_less_func \<Rightarrow> lheap option" where
  "list_sort h L lessf = do {
     h \<leftarrow> list_sort_loop h L lessf;
     a \<leftarrow> list_begin h L;
     b \<leftarrow> is_sorted h a (list_end L) lessf;
     ASSERT b;
     Some h
   }"

subsection \<open>Splicing\<close>

definition relink :: "lheap \<Rightarrow> lheap \<Rightarrow> addr \<Rightarrow> addr list \<Rightarrow> addr \<Rightarrow> bool" where
  "relink h h' p xs n \<longleftrightarrow> (\<forall>a\<in>set xs. h' a = Some
     \<lparr>prv = (if a = hd xs then p else prv (the (h a))), nxt = (if a = last xs then n else nxt (the (h a)))\<rparr>)"

lemma dseg_relink:
  "dseg h p xs n \<Longrightarrow> distinct xs \<Longrightarrow> relink h h' p' xs n' \<Longrightarrow> dseg h' p' xs n'"
proof (induction xs arbitrary: p p')
  case (Cons a as)
  show ?case
  proof (cases as)
    case Nil
    with Cons.prems show ?thesis by (simp add: relink_def)
  next
    case (Cons b bs)
    have "relink h h' a as n'"
      unfolding relink_def
    proof (intro ballI)
      fix x assume x: "x \<in> set as"
      with Cons.prems(2) have "x \<noteq> a" by auto
      moreover have "x = hd as \<Longrightarrow> prv (the (h x)) = a" using Cons.prems(1) Cons by simp
      ultimately show "h' x = Some \<lparr>prv = (if x = hd as then a else prv (the (h x))),
          nxt = (if x = last as then n' else nxt (the (h x)))\<rparr>"
        using Cons.prems(3) x Cons by (auto simp: relink_def)
    qed
    with Cons.IH [of a a] Cons.prems have "dseg h' a as n'" by simp
    moreover have "h' a = Some \<lparr>prv = p', nxt = hd (as @ [n'])\<rparr>"
    proof -
      have "a \<noteq> last (a # as)" using Cons.prems(2) Cons by (metis distinct.simps(2) last_ConsR last_in_set list.distinct(1))
      then show ?thesis using Cons.prems(1,3) Cons by (simp add: relink_def)
    qed
    ultimately show ?thesis by simp
  qed
qed simp

definition upd :: "lheap \<Rightarrow> addr \<Rightarrow> (list_elem \<Rightarrow> list_elem) \<Rightarrow> lheap" where
  "upd h a g = h(a \<mapsto> g (the (h a)))"

lemma poke_upd: "h a \<noteq> None \<Longrightarrow> poke h a g = Some (upd h a g)"
  by (auto simp: upd_def)

lemma peek_the: "h a \<noteq> None \<Longrightarrow> peek h a f = Some (f (the (h a)))"
  by auto

lemma upd_None [simp]: "upd h a g x = None \<longleftrightarrow> x \<noteq> a \<and> h x = None"
  by (auto simp: upd_def)

lemma the_upd: "the (upd h a g x) = (if x = a then g (the (h a)) else the (h x))"
  by (simp add: upd_def)

definition splice_heap :: "lheap \<Rightarrow> addr \<Rightarrow> addr \<Rightarrow> addr \<Rightarrow> addr \<Rightarrow> addr \<Rightarrow> addr \<Rightarrow> lheap" where
  "splice_heap h q b m f l c = upd (upd (upd (upd (upd (upd h m (set_nxt c)) c (set_prv m))
     f (set_prv q)) l (set_nxt b)) q (set_nxt f)) b (set_prv l)"

text \<open>
  The chain \<open>A B F C\<close> becomes \<open>A F B C\<close>: \<open>q\<close> is the last of \<open>A\<close>, \<open>B\<close> runs from \<open>b\<close> to \<open>m\<close>,
  \<open>F\<close> from \<open>f\<close> to \<open>l\<close>, and \<open>c\<close> is the first of \<open>C\<close>.
\<close>

lemma splice_exec:
  assumes "is_interior h b = Some True" "is_interior h f = Some True" "is_interior h l = Some True"
      "is_tail h b = Some t" "list_prev h c = Some l"
    and "h b = Some \<lparr>prv = q, nxt = x\<rparr>" "h f = Some \<lparr>prv = m, nxt = y\<rparr>" "h l = Some \<lparr>prv = w, nxt = c\<rparr>"
      "h c \<noteq> None" "h q \<noteq> None" "h m \<noteq> None"
    and dist: "f \<noteq> c" "l \<noteq> c" "m \<noteq> l" "m \<noteq> f" "c \<noteq> b" "c \<noteq> m" "q \<noteq> b" "q \<noteq> f" "q \<noteq> l" "q \<noteq> m" "q \<noteq> c" "b \<noteq> f" "b \<noteq> l"
  shows "list_splice h b f c = Some (splice_heap h q b m f l c)"
  using assms unfolding list_splice_def splice_heap_def
  by (cases "f = l"; cases "b = m") (simp_all add: poke_upd peek_the the_upd del: poke_Some)

lemma set_tl_subset: "set (tl xs) \<subseteq> set xs"
  by (cases xs) auto

lemma splice_run:
  assumes d: "dseg h NULL (A @ B @ F @ C) NULL" "distinct (A @ B @ F @ C)" "NULL \<notin> set (A @ B @ F @ C)"
    and ne: "A \<noteq> []" "B \<noteq> []" "F \<noteq> []" "C \<noteq> []"
  shows "list_splice h (hd B) (hd F) (hd C) = Some (splice_heap h (last A) (hd B) (last B) (hd F) (last F) (hd C))"
proof -
  obtain A' q where A: "A = A' @ [q]" using ne(1) by (cases A rule: rev_cases) auto
  obtain B' m where B: "B = B' @ [m]" using ne(2) by (cases B rule: rev_cases) auto
  obtain F' l where F: "F = F' @ [l]" using ne(3) by (cases F rule: rev_cases) auto
  obtain c C' where C: "C = c # C'" using ne(4) by (cases C) auto
  let ?b = "hd B" and ?f = "hd F"
  have hdBF: "hd ((B @ F @ C) @ [NULL]) = hd B" "hd ((F @ C) @ [NULL]) = hd F"
    using ne by (cases B; cases F; simp)+
  have seg: "dseg h q B ?f" "dseg h m F c"
    using d(1) unfolding dseg_append hdBF using A B C by simp_all
  have hb: "h ?b = Some \<lparr>prv = q, nxt = hd (tl B @ [?f])\<rparr>" "?b \<in> set B"
    using seg(1) ne(2) by (cases B; simp)+
  have hf: "h ?f = Some \<lparr>prv = m, nxt = hd (tl F @ [c])\<rparr>" "?f \<in> set F"
    using seg(2) ne(3) by (cases F; simp)+
  have hl: "h l = Some \<lparr>prv = last (m # F'), nxt = c\<rparr>" using d B F C by auto
  have hc: "h c = Some \<lparr>prv = l, nxt = hd (C' @ [NULL])\<rparr>" using d F C by auto
  have hq: "h q \<noteq> None" "h m \<noteq> None" using d A B by auto
  have W: "q \<in> set A" "?f \<in> set F" "m \<in> set B" "l \<in> set F" "c \<in> set C" "?b \<in> set B"
    using A B F C hb(2) hf(2) by simp_all
  have "set (tl F) \<subseteq> set F" "set (tl B) \<subseteq> set B"
    by (rule set_tl_subset)+
  moreover have "set F' \<subseteq> set F" using F by auto
  ultimately have W2: "last (m # F') \<in> set B \<union> set F" "hd (tl F @ [c]) \<in> set F \<union> set C" "hd (tl B @ [?f]) \<in> set B \<union> set F"
    using W last_in [of m F'] hd_in [of "tl F" c] hd_in [of "tl B" ?f] by (metis Un_iff insert_iff subsetD)+
  have nz: "q \<noteq> NULL" "?f \<noteq> NULL" "m \<noteq> NULL" "l \<noteq> NULL" "c \<noteq> NULL" "?b \<noteq> NULL" "last (m # F') \<noteq> NULL"
     "hd (tl F @ [c]) \<noteq> NULL" "hd (tl B @ [?f]) \<noteq> NULL"
    using d(3) W W2 unfolding set_append by (metis Un_iff)+
  have disj: "set A \<inter> set B = {}" "set A \<inter> set F = {}" "set A \<inter> set C = {}" "set B \<inter> set F = {}"
     "set B \<inter> set C = {}" "set F \<inter> set C = {}" using d(2) by auto
  have dist: "?f \<noteq> c" "l \<noteq> c" "m \<noteq> l" "m \<noteq> ?f" "c \<noteq> ?b" "c \<noteq> m" "q \<noteq> ?b" "q \<noteq> ?f" "q \<noteq> l" "q \<noteq> m" "q \<noteq> c" "?b \<noteq> ?f" "?b \<noteq> l"
    using disj W by (metis disjoint_iff)+
  have pc: "list_prev h c = Some l"
    using hc nz by (cases "hd (C' @ [NULL]) = NULL") (auto simp: list_prev_def is_interior_def is_tail_def)
  have ib: "is_interior h ?b = Some True" "is_interior h ?f = Some True" "is_interior h l = Some True"
      "is_tail h ?b = Some False"
    using hb hf hl nz by (auto simp: is_interior_def is_tail_def)
  have "list_splice h ?b ?f c = Some (splice_heap h q ?b m ?f l c)"
    by (rule splice_exec [OF ib pc hb(1) hf(1) hl _ hq dist]) (simp add: hc)
  then show ?thesis by (simp add: A B F C)
qed

lemma elem_eq_iff: "(x :: list_elem) = y \<longleftrightarrow> prv x = prv y \<and> nxt x = nxt y"
  by (cases x, cases y) simp

lemma splice_heap_prv:
  "prv (the (splice_heap h q b m f l c a)) = (if a = b then l else if a = f then q
     else if a = c then m else prv (the (h a)))"
  by (simp add: splice_heap_def the_upd)

lemma splice_heap_nxt:
  "nxt (the (splice_heap h q b m f l c a)) = (if a = q then f else if a = l then b
     else if a = m then c else nxt (the (h a)))"
  by (simp add: splice_heap_def the_upd)

lemma splice_heap_relinks:
  assumes d: "dseg h NULL (A @ B @ F @ C) NULL" "distinct (A @ B @ F @ C)"
    and ne: "A \<noteq> []" "B \<noteq> []" "F \<noteq> []" "C \<noteq> []"
  defines "h' \<equiv> splice_heap h (last A) (hd B) (last B) (hd F) (last F) (hd C)"
  shows "dseg h' NULL (A @ F @ B @ C) NULL" "agree (- set (A @ B @ F @ C)) h h'"
proof -
  have disj: "set A \<inter> set B = {}" "set A \<inter> set F = {}" "set A \<inter> set C = {}" "set B \<inter> set F = {}"
     "set B \<inter> set C = {}" "set F \<inter> set C = {}" and dist: "distinct A" "distinct B" "distinct F" "distinct C"
    using d(2) by auto
  have mem: "last A \<in> set A" "hd B \<in> set B" "last B \<in> set B" "hd F \<in> set F" "last F \<in> set F" "hd C \<in> set C"
    using ne by simp_all
  have hds: "hd ((B @ F @ C) @ [NULL]) = hd B" "hd ((F @ C) @ [NULL]) = hd F" "hd (C @ [NULL]) = hd C"
    using ne by (cases B; cases F; cases C; simp)+
  have seg: "dseg h NULL A (hd B)" "dseg h (last A) B (hd F)" "dseg h (last B) F (hd C)" "dseg h (last F) C NULL"
    using d(1) ne unfolding dseg_append hds by simp_all
  have live: "h a \<noteq> None" if "a \<in> set xs" "dseg h p xs n" for a xs p n
    using that by (induction xs arbitrary: p) auto
  have nd: "a \<notin> Y" if "a \<in> X" "X \<inter> Y = {}" for a :: addr and X Y using that by blast
  have h'_def2: "h' = upd (upd (upd (upd (upd (upd h (last B) (set_nxt (hd C))) (hd C) (set_prv (last B)))
     (hd F) (set_prv (last A))) (last F) (set_nxt (hd B))) (last A) (set_nxt (hd F))) (hd B) (set_prv (last F))"
    by (simp add: h'_def splice_heap_def)
  have nn: "h' a \<noteq> None" if "h a \<noteq> None" for a using that by (simp add: h'_def2)
  have F2: "hd F \<notin> set A" "hd F \<notin> set B" "hd F \<notin> set C" "last F \<notin> set A" "last F \<notin> set B" "last F \<notin> set C"
    "hd B \<notin> set A" "hd B \<notin> set F" "hd B \<notin> set C" "last B \<notin> set A" "last B \<notin> set F" "last B \<notin> set C"
    "last A \<notin> set B" "last A \<notin> set F" "last A \<notin> set C" "hd C \<notin> set A" "hd C \<notin> set B" "hd C \<notin> set F"
    using mem disj by blast+
  have eqs: "(h' a = Some n) = (h' a \<noteq> None \<and> prv (the (h' a)) = prv n \<and> nxt (the (h' a)) = nxt n)" for a n
    by (cases "h' a") (simp_all add: elem_eq_iff)
  have hdA: "prv (the (h (hd A))) = NULL" using seg(1) ne(1) by (cases A) auto
  have lastC: "nxt (the (h (last C))) = NULL" using seg(4) ne(4) by (cases C rule: rev_cases) auto
  have pv: "prv (the (h' a)) = (if a = hd B then last F else if a = hd F then last A
      else if a = hd C then last B else prv (the (h a)))" for a
    unfolding h'_def by (rule splice_heap_prv)
  have nv: "nxt (the (h' a)) = (if a = last A then hd F else if a = last F then hd B
      else if a = last B then hd C else nxt (the (h a)))" for a
    unfolding h'_def by (rule splice_heap_nxt)
  have rA: "relink h h' NULL A (hd F)"
    unfolding relink_def
  proof (intro ballI)
    fix a assume a: "a \<in> set A"
    with F2 have "a \<noteq> hd B \<and> a \<noteq> hd F \<and> a \<noteq> hd C \<and> a \<noteq> last F \<and> a \<noteq> last B" by metis
    moreover have "h' a \<noteq> None" using nn live [OF a seg(1)] .
    ultimately show "h' a = Some \<lparr>prv = (if a = hd A then NULL else prv (the (h a))),
        nxt = (if a = last A then (hd F) else nxt (the (h a)))\<rparr>"
      unfolding eqs pv nv using hdA by auto
  qed
  have rB: "relink h h' (last F) B (hd C)"
    unfolding relink_def
  proof (intro ballI)
    fix a assume a: "a \<in> set B"
    with F2 have "a \<noteq> hd F \<and> a \<noteq> hd C \<and> a \<noteq> last F \<and> a \<noteq> last A" by metis
    moreover have "h' a \<noteq> None" using nn live [OF a seg(2)] .
    ultimately show "h' a = Some \<lparr>prv = (if a = hd B then (last F) else prv (the (h a))),
        nxt = (if a = last B then (hd C) else nxt (the (h a)))\<rparr>"
      unfolding eqs pv nv by simp
  qed
  have rF: "relink h h' (last A) F (hd B)"
    unfolding relink_def
  proof (intro ballI)
    fix a assume a: "a \<in> set F"
    with F2 have "a \<noteq> hd B \<and> a \<noteq> hd C \<and> a \<noteq> last A \<and> a \<noteq> last B" by metis
    moreover have "h' a \<noteq> None" using nn live [OF a seg(3)] .
    ultimately show "h' a = Some \<lparr>prv = (if a = hd F then (last A) else prv (the (h a))),
        nxt = (if a = last F then (hd B) else nxt (the (h a)))\<rparr>"
      unfolding eqs pv nv by simp
  qed
  have rC: "relink h h' (last B) C NULL"
    unfolding relink_def
  proof (intro ballI)
    fix a assume a: "a \<in> set C"
    with F2 have "a \<noteq> hd B \<and> a \<noteq> hd F \<and> a \<noteq> last A \<and> a \<noteq> last F \<and> a \<noteq> last B" by metis
    moreover have "h' a \<noteq> None" using nn live [OF a seg(4)] .
    ultimately show "h' a = Some \<lparr>prv = (if a = hd C then (last B) else prv (the (h a))),
        nxt = (if a = last C then NULL else nxt (the (h a)))\<rparr>"
      unfolding eqs pv nv using lastC by auto
  qed
  have hds': "hd ((F @ B @ C) @ [NULL]) = hd F" "hd ((B @ C) @ [NULL]) = hd B"
    using ne by (cases B; cases F; simp)+
  show "dseg h' NULL (A @ F @ B @ C) NULL"
    unfolding dseg_append hds' hds
    using dseg_relink [OF seg(1) dist(1) rA] dseg_relink [OF seg(2) dist(2) rB]
      dseg_relink [OF seg(3) dist(3) rF] dseg_relink [OF seg(4) dist(4) rC] ne by simp
  show "agree (- set (A @ B @ F @ C)) h h'"
    unfolding agree_def
  proof
    fix a assume "a \<in> - set (A @ B @ F @ C)"
    then have "a \<notin> set A" "a \<notin> set B" "a \<notin> set F" "a \<notin> set C" by simp_all
    with mem have "a \<noteq> last A \<and> a \<noteq> hd B \<and> a \<noteq> last B \<and> a \<noteq> hd F \<and> a \<noteq> last F \<and> a \<noteq> hd C" by metis
    then show "h a = h' a" by (simp add: h'_def2 upd_def)
  qed
qed

lemma dll_splice:
  assumes d: "dll h L (as @ bs @ fs @ cs)" and ne: "bs \<noteq> []" "fs \<noteq> []"
  shows "\<exists>h'. list_splice h (hd bs) (hd fs) (hd (cs @ [ltail L])) = Some h' \<and> dll h' L (as @ fs @ bs @ cs)
    \<and> agree (- cells L (as @ bs @ fs @ cs)) h h'"
proof -
  let ?A = "lhead L # as" and ?C = "cs @ [ltail L]"
  have d': "dseg h NULL (?A @ bs @ fs @ ?C) NULL" "distinct (?A @ bs @ fs @ ?C)" "NULL \<notin> set (?A @ bs @ fs @ ?C)"
    using d by (simp_all add: dll_def del: dseg_append)
  have n: "?A \<noteq> []" "?C \<noteq> []" by simp_all
  have c: "cells L (as @ bs @ fs @ cs) = set (?A @ bs @ fs @ ?C)" by (auto simp: cells_def)
  note r = splice_run [OF d' n(1) ne n(2)] splice_heap_relinks [OF d'(1,2) n(1) ne n(2)]
  have "dll (splice_heap h (last ?A) (hd bs) (last bs) (hd fs) (last fs) (hd ?C)) L (as @ fs @ bs @ cs)"
    using r(2) d'(2,3) by (auto simp: dll_def simp del: dseg_append)
  with r(1,3) c show ?thesis by metis
qed

subsection \<open>The merge sort on lists\<close>

abbreviation (input) le_of :: "list_less_func \<Rightarrow> addr \<Rightarrow> addr \<Rightarrow> bool" where
  "le_of lt x y \<equiv> \<not> lt y x"

fun merge_runs :: "list_less_func \<Rightarrow> addr list \<Rightarrow> addr list \<Rightarrow> addr list" where
  "merge_runs lt [] ys = ys"
| "merge_runs lt xs [] = xs"
| "merge_runs lt (x # xs) (y # ys) =
     (if \<not> lt y x then x # merge_runs lt xs (y # ys) else y # merge_runs lt (x # xs) ys)"

lemma merge_runs_Nil2 [simp]: "merge_runs lt xs [] = xs"
  by (cases xs) auto

text \<open>The first run of \<open>x # ys\<close>, and what follows it.\<close>

fun first_run :: "list_less_func \<Rightarrow> addr \<Rightarrow> addr list \<Rightarrow> addr list \<times> addr list" where
  "first_run lt x [] = ([x], [])"
| "first_run lt x (y # ys) =
     (if \<not> lt y x then (x # fst (first_run lt y ys), snd (first_run lt y ys)) else ([x], y # ys))"

lemma first_run_append: "fst (first_run lt x ys) @ snd (first_run lt x ys) = x # ys"
  by (induction lt x ys rule: first_run.induct) auto

lemma first_run_length: "length (snd (first_run lt x ys)) \<le> length ys"
  by (induction lt x ys rule: first_run.induct) auto

lemma first_run_hd: "\<exists>rs. fst (first_run lt x ys) = x # rs"
  by (cases "(lt, x, ys)" rule: first_run.cases) auto

lemma first_run_sorted: "successively (le_of lt) (fst (first_run lt x ys))"
proof (induction lt x ys rule: first_run.induct)
  case (2 lt x y ys)
  with first_run_hd [of lt y ys] show ?case by auto
qed simp

fun sort_pass :: "list_less_func \<Rightarrow> addr list \<Rightarrow> addr list" where
  "sort_pass lt [] = []"
| "sort_pass lt (x # xs) = (case snd (first_run lt x xs) of
       [] \<Rightarrow> x # xs
     | y # ys \<Rightarrow> merge_runs lt (fst (first_run lt x xs)) (fst (first_run lt y ys))
         @ (if length (snd (first_run lt y ys)) < length xs + 1 then sort_pass lt (snd (first_run lt y ys)) else []))"

text \<open>The number of runs of a list.\<close>

fun nruns :: "list_less_func \<Rightarrow> addr list \<Rightarrow> nat" where
  "nruns lt [] = 0"
| "nruns lt [x] = 1"
| "nruns lt (x # y # ys) = nruns lt (y # ys) + (if lt y x then 1 else 0)"

lemma sort_pass_Cons:
  "snd (first_run lt x xs) = [] \<Longrightarrow> sort_pass lt (x # xs) = x # xs"
  "snd (first_run lt x xs) = y # ys \<Longrightarrow> sort_pass lt (x # xs)
     = merge_runs lt (fst (first_run lt x xs)) (fst (first_run lt y ys)) @ sort_pass lt (snd (first_run lt y ys))"
  using first_run_length [of lt x xs] first_run_length [of lt y ys] by auto

lemma nruns_first_run: "nruns lt (x # ys) = 1 + nruns lt (snd (first_run lt x ys))"
proof (induction lt x ys rule: first_run.induct)
  case (2 lt x y ys)
  then show ?case by (cases "lt y x") auto
qed simp

lemma nruns_pos: "xs \<noteq> [] \<Longrightarrow> nruns lt xs > 0"
  by (induction lt xs rule: nruns.induct) auto

lemma nruns_sorted: "nruns lt xs \<le> 1 \<Longrightarrow> successively (le_of lt) xs"
proof (induction lt xs rule: nruns.induct)
  case (3 lt x y ys)
  then show ?case using nruns_pos [of "y # ys" lt] by (cases "lt y x") auto
qed auto

lemma nruns_append_sorted:
  "successively (le_of lt) xs \<Longrightarrow> nruns lt (xs @ ys) \<le> 1 + nruns lt ys"
proof (induction lt xs rule: nruns.induct)
  case (2 lt x)
  then show ?case by (cases ys) auto
qed auto

lemma merge_runs_sorted:
  assumes "\<forall>x y. lt x y \<longrightarrow> \<not> lt y x"
    and "successively (le_of lt) xs" "successively (le_of lt) ys"
  shows "successively (le_of lt) (merge_runs lt xs ys)"
proof -
  have "successively (le_of lt) (merge_runs lt xs ys) \<and>
      (\<forall>z. (xs \<noteq> [] \<longrightarrow> \<not> lt (hd xs) z) \<longrightarrow> (ys \<noteq> [] \<longrightarrow> \<not> lt (hd ys) z) \<longrightarrow> successively (le_of lt) (z # merge_runs lt xs ys))"
    using assms(2,3) assms(1)
  proof (induction lt xs ys rule: merge_runs.induct)
    case (1 lt ys)
    then show ?case by (cases ys) auto
  next
    case (2 lt x xs)
    then show ?case by auto
  next
    case (3 lt x xs y ys)
    show ?case
    proof (cases "lt y x")
      case False
      with 3 have "successively (le_of lt) (x # merge_runs lt xs (y # ys))"
        by (cases xs) auto
      with False show ?thesis by simp
    next
      case True
      with 3 have "successively (le_of lt) (y # merge_runs lt (x # xs) ys)"
        by (cases ys) auto
      with True show ?thesis by simp
    qed
  qed
  then show ?thesis by blast
qed

lemma mset_merge_runs: "mset (merge_runs lt xs ys) = mset xs + mset ys"
  by (induction lt xs ys rule: merge_runs.induct) auto

lemma sort_pass_props:
  assumes "\<forall>x y. lt x y \<longrightarrow> \<not> lt y x"
  shows "mset (sort_pass lt xs) = mset xs \<and> nruns lt (sort_pass lt xs) \<le> (nruns lt xs + 1) div 2"
proof (induction "length xs" arbitrary: xs rule: less_induct)
  case less
  show ?case
  proof (cases xs)
    case (Cons x ys)
    show ?thesis
    proof (cases "snd (first_run lt x ys)")
      case Nil
      with nruns_first_run [of lt x ys] show ?thesis by (simp add: Cons sort_pass_Cons del: sort_pass.simps)
    next
      case (Cons y zs)
      note fr = this
      let ?r1 = "fst (first_run lt x ys)" and ?r2 = "fst (first_run lt y zs)" and ?r = "snd (first_run lt y zs)"
      have xs: "xs = ?r1 @ ?r2 @ ?r"
        using first_run_append [of lt x ys] first_run_append [of lt y zs] fr \<open>xs = x # ys\<close> by simp
      have len: "length ?r < length xs" using xs first_run_hd [of lt x ys] by (metis add_is_0 length_0_conv length_append less_add_same_cancel2 list.distinct(1) neq0_conv append.assoc)
      have sp: "sort_pass lt xs = merge_runs lt ?r1 ?r2 @ sort_pass lt ?r"
        using sort_pass_Cons(2) [OF fr] \<open>xs = x # ys\<close> by simp
      have n: "nruns lt xs = 2 + nruns lt ?r"
        using nruns_first_run [of lt x ys] nruns_first_run [of lt y zs] fr \<open>xs = x # ys\<close> by simp
      have "nruns lt (sort_pass lt xs) \<le> 1 + nruns lt (sort_pass lt ?r)"
        unfolding sp by (rule nruns_append_sorted [OF merge_runs_sorted [OF assms first_run_sorted first_run_sorted]])
      with less [OF len] n have "nruns lt (sort_pass lt xs) \<le> (nruns lt xs + 1) div 2" by simp
      moreover have "mset (sort_pass lt xs) = mset ?r1 + mset ?r2 + mset ?r"
        unfolding sp using less [OF len] by (simp add: mset_merge_runs)
      then have "mset (sort_pass lt xs) = mset xs" by (subst xs) simp
      ultimately show ?thesis by blast
    qed
  qed simp
qed

subsection \<open>The loops on links refine the merge sort on lists\<close>

lemma is_sorted_loop_run:
  "dll h L (as @ x # bs @ cs) \<Longrightarrow>
   is_sorted_loop h x (hd (cs @ [ltail L])) lt = Some (successively (le_of lt) (x # bs))"
proof (induction bs arbitrary: as x)
  case Nil
  then show ?case
    by (subst is_sorted_loop.simps) (simp add: dll_next)
next
  case (Cons b bs)
  from Cons.prems have ne: "b \<noteq> hd (cs @ [ltail L])"
    using hd_in [of cs "ltail L"] dll_ne(4,5) [OF Cons.prems] by auto
  with Cons.IH [of "as @ [x]" b] Cons.prems dll_prev [of h L "as @ [x]" b "bs @ cs"] show ?case
    by (subst is_sorted_loop.simps) (simp add: dll_next)
qed

lemma dll_is_sorted:
  assumes "dll h L (as @ bs @ cs)"
  shows "is_sorted h (hd (bs @ cs @ [ltail L])) (hd (cs @ [ltail L])) lt = Some (successively (le_of lt) bs)"
proof (cases bs)
  case Nil
  then show ?thesis by (simp add: is_sorted_def)
next
  case (Cons x bs')
  have "x \<noteq> hd (cs @ [ltail L])"
    using hd_in [of cs "ltail L"] dll_ne(4,5) [OF assms] Cons by auto
  with is_sorted_loop_run [of h L as x bs' cs lt] assms Cons show ?thesis by (simp add: is_sorted_def)
qed

lemma find_end_of_run_run:
  "dll h L (as @ x # bs) \<Longrightarrow>
   find_end_of_run h x (ltail L) lt = Some (hd (snd (first_run lt x bs) @ [ltail L]))"
proof (induction lt x bs arbitrary: as rule: first_run.induct)
  case (1 lt x)
  then show ?case
    using dll_ne [OF "1.prems"] by (subst find_end_of_run.simps) (simp add: dll_next cells_def)
next
  case (2 lt x y ys)
  from dll_ne [OF "2.prems"] have ne: "x \<noteq> NULL" "ltail L \<noteq> NULL" "x \<noteq> ltail L" "y \<noteq> ltail L"
    by (auto simp: cells_def)
  with 2(1) [of "as @ [x]"] "2.prems" dll_prev [of h L "as @ [x]" y ys] show ?case
    by (subst find_end_of_run.simps) (simp add: dll_next)
qed

lemma inplace_merge_loop_run:
  "dll h L (as @ xs @ ys @ cs) \<Longrightarrow>
   \<exists>h'. inplace_merge_loop h (hd (xs @ ys @ cs @ [ltail L])) (hd (ys @ cs @ [ltail L])) (hd (cs @ [ltail L])) lt = Some h'
     \<and> dll h' L (as @ merge_runs lt xs ys @ cs) \<and> agree (- cells L (as @ xs @ ys @ cs)) h h'"
proof (induction lt xs ys arbitrary: as h rule: merge_runs.induct)
  case (1 lt ys)
  then show ?case by (subst inplace_merge_loop.simps) simp
next
  case (2 lt x xs)
  then show ?case by (subst inplace_merge_loop.simps) simp
next
  case (3 lt x xs y ys)
  note d = "3.prems"
  have ne: "x \<noteq> y" "y \<noteq> hd (cs @ [ltail L])"
    using hd_in [of cs "ltail L"] dll_ne(4,5) [OF d] by auto
  show ?case
  proof (cases "lt y x")
    case False
    have "list_next h x = Some (hd (xs @ (y # ys) @ cs @ [ltail L]))"
      using dll_next [of h L as x "xs @ (y # ys) @ cs"] d by simp
    then have step: "inplace_merge_loop h x y (hd (cs @ [ltail L])) lt
        = inplace_merge_loop h (hd (xs @ (y # ys) @ cs @ [ltail L])) y (hd (cs @ [ltail L])) lt"
      using ne False by (subst inplace_merge_loop.simps) simp
    from "3.IH"(1) [of h "as @ [x]"] False d obtain h' where
      "inplace_merge_loop h (hd (xs @ (y # ys) @ cs @ [ltail L])) y (hd (cs @ [ltail L])) lt = Some h'"
      "dll h' L (as @ x # merge_runs lt xs (y # ys) @ cs)"
      "agree (- cells L (as @ x # xs @ y # ys @ cs)) h h'" by auto
    with step False show ?thesis by auto
  next
    case True
    have n: "list_next h y = Some (hd (ys @ cs @ [ltail L]))"
      using dll_next [of h L "as @ x # xs" y "ys @ cs"] d by simp
    have p: "list_prev h (hd (ys @ cs @ [ltail L])) = Some y"
      using dll_prev_hd [of h L "as @ x # xs" y "ys @ cs"] d by simp
    from dll_splice [of h L as "x # xs" "[y]" "ys @ cs"] d obtain h1 where
      h1: "list_splice h x y (hd (ys @ cs @ [ltail L])) = Some h1" "dll h1 L (as @ y # x # xs @ ys @ cs)"
        "agree (- cells L (as @ x # xs @ y # ys @ cs)) h h1" by auto
    have step: "inplace_merge_loop h x y (hd (cs @ [ltail L])) lt
        = inplace_merge_loop h1 x (hd (ys @ cs @ [ltail L])) (hd (cs @ [ltail L])) lt"
      using ne True n p h1(1) by (subst inplace_merge_loop.simps) simp
    from "3.IH"(2) [of h1 "as @ [y]"] True h1(2) obtain h' where
      h': "inplace_merge_loop h1 x (hd (ys @ cs @ [ltail L])) (hd (cs @ [ltail L])) lt = Some h'"
      "dll h' L (as @ y # merge_runs lt (x # xs) ys @ cs)"
      "agree (- cells L (as @ y # x # xs @ ys @ cs)) h1 h'" by auto
    have "cells L (as @ y # x # xs @ ys @ cs) = cells L (as @ x # xs @ y # ys @ cs)"
      by (auto simp: cells_def)
    with h'(3) h1(3) have "agree (- cells L (as @ x # xs @ y # ys @ cs)) h h'"
      by (simp add: agree_def)
    with h' step True show ?thesis by auto
  qed
qed

lemma hd_ne_NULL: "dll h L (as @ bs) \<Longrightarrow> hd (bs @ [ltail L]) \<noteq> NULL"
  by (rule hd_last_ne)

lemma dll_inplace_merge:
  assumes d: "dll h L (as @ xs @ ys @ cs)"
    and s: "successively (le_of lt) xs" "successively (le_of lt) ys"
  shows "\<exists>h'. inplace_merge h (hd (xs @ ys @ cs @ [ltail L])) (hd (ys @ cs @ [ltail L])) (hd (cs @ [ltail L])) lt = Some h'
     \<and> dll h' L (as @ merge_runs lt xs ys @ cs) \<and> agree (- cells L (as @ xs @ ys @ cs)) h h'"
  using inplace_merge_loop_run [OF d, of lt] hd_ne_NULL [of h L as "xs @ ys @ cs"] hd_ne_NULL [of h L "as @ xs" "ys @ cs"]
    hd_ne_NULL [of h L "as @ xs @ ys" cs] dll_is_sorted [of h L as xs "ys @ cs" lt] dll_is_sorted [of h L "as @ xs" ys cs lt] d s
  by (simp add: inplace_merge_def)

lemma list_sort_pass_run:
  assumes "\<forall>x y. lt x y \<longrightarrow> \<not> lt y x" "dll h L (as @ xs)"
  shows "\<exists>h'. list_sort_pass h L lt (hd (xs @ [ltail L])) n = Some (h', n + (nruns lt xs + 1) div 2)
     \<and> dll h' L (as @ sort_pass lt xs) \<and> agree (- cells L (as @ xs)) h h'"
  using assms(2)
proof (induction "length xs" arbitrary: xs as h n rule: less_induct)
  case less
  note d = less.prems
  show ?case
  proof (cases xs)
    case Nil
    with d show ?thesis by (subst list_sort_pass.simps) (simp add: list_end_def)
  next
    case (Cons x ys)
    have xe: "x \<noteq> ltail L" using dll_ne(4) [OF d] Cons by auto
    have f1: "find_end_of_run h x (ltail L) lt = Some (hd (snd (first_run lt x ys) @ [ltail L]))"
      using find_end_of_run_run [of h L as x ys lt] d Cons by simp
    show ?thesis
    proof (cases "snd (first_run lt x ys)")
      case Nil
      with d Cons xe f1 nruns_first_run [of lt x ys] show ?thesis
        by (subst list_sort_pass.simps) (simp add: list_end_def sort_pass_Cons del: sort_pass.simps)
    next
      case (Cons y zs)
      note fr = this
      let ?r1 = "fst (first_run lt x ys)" and ?r2 = "fst (first_run lt y zs)" and ?r = "snd (first_run lt y zs)"
      have xs: "xs = ?r1 @ ?r2 @ ?r" and yz: "y # zs = ?r2 @ ?r"
        using first_run_append [of lt x ys] first_run_append [of lt y zs] fr \<open>xs = x # ys\<close> by simp_all
      have len: "length ?r < length xs"
        using first_run_length [of lt y zs] first_run_length [of lt x ys] fr \<open>xs = x # ys\<close> by simp
      have ye: "y \<noteq> ltail L" using dll_ne(4) [OF d] xs yz by (metis Un_iff list.set_intros(1) set_append)
      have xs2: "xs = ?r1 @ y # zs" using xs yz by simp
      have "dll h L ((as @ ?r1) @ y # zs)" using d by (subst (asm) xs2) simp
      from find_end_of_run_run [OF this] have f2: "find_end_of_run h y (ltail L) lt = Some (hd (?r @ [ltail L]))" .
      have hx: "hd (?r1 @ ?r2 @ ?r @ [ltail L]) = x" "hd (?r2 @ ?r @ [ltail L]) = y"
        using first_run_hd [of lt x ys] first_run_hd [of lt y zs] by auto
      have d': "dll h L (as @ ?r1 @ ?r2 @ ?r)" using d by (subst (asm) xs) simp
      from dll_inplace_merge [OF d' first_run_sorted first_run_sorted] obtain h1 where
        h1: "inplace_merge h x y (hd (?r @ [ltail L])) lt = Some h1"
          "dll h1 L (as @ merge_runs lt ?r1 ?r2 @ ?r)" "agree (- cells L (as @ ?r1 @ ?r2 @ ?r)) h h1"
        unfolding hx by blast
      from less.hyps [OF len, of h1 "as @ merge_runs lt ?r1 ?r2" "n + 1"] h1(2) obtain h2 where
        h2: "list_sort_pass h1 L lt (hd (?r @ [ltail L])) (n + 1) = Some (h2, n + 1 + (nruns lt ?r + 1) div 2)"
          "dll h2 L (as @ merge_runs lt ?r1 ?r2 @ sort_pass lt ?r)"
          "agree (- cells L (as @ merge_runs lt ?r1 ?r2 @ ?r)) h1 h2" by auto
      have run: "list_sort_pass h L lt x n = list_sort_pass h1 L lt (hd (?r @ [ltail L])) (n + 1)"
        using xe f1 fr ye f2 h1(1) by (subst list_sort_pass.simps) (simp add: list_end_def)
      have nr: "nruns lt xs = 2 + nruns lt ?r"
        using nruns_first_run [of lt x ys] nruns_first_run [of lt y zs] fr \<open>xs = x # ys\<close> by simp
      have cnt: "n + (nruns lt xs + 1) div 2 = n + 1 + (nruns lt ?r + 1) div 2" unfolding nr by simp
      have "set (merge_runs lt ?r1 ?r2) = set ?r1 \<union> set ?r2"
        using mset_merge_runs [of lt ?r1 ?r2] by (metis set_mset_mset set_mset_union)
      moreover have "set xs = set ?r1 \<union> set ?r2 \<union> set ?r" using arg_cong [OF xs, of set] by auto
      ultimately have cl: "cells L (as @ merge_runs lt ?r1 ?r2 @ ?r) = cells L (as @ ?r1 @ ?r2 @ ?r)"
          "cells L (as @ ?r1 @ ?r2 @ ?r) = cells L (as @ xs)"
        by (auto simp: cells_def)
      have "agree (- cells L (as @ xs)) h h2" using h1(3) h2(3) cl by (simp add: agree_def)
      moreover have "sort_pass lt xs = merge_runs lt ?r1 ?r2 @ sort_pass lt ?r"
        using sort_pass_Cons(2) [OF fr] \<open>xs = x # ys\<close> by simp
      ultimately show ?thesis using run h2 cnt \<open>xs = x # ys\<close> by simp
    qed
  qed
qed

lemma list_sort_loop_run:
  assumes "\<forall>x y. lt x y \<longrightarrow> \<not> lt y x" "dll h L xs"
  shows "\<exists>h' xs'. list_sort_loop h L lt = Some h' \<and> dll h' L xs' \<and> mset xs' = mset xs
    \<and> successively (le_of lt) xs' \<and> agree (- cells L xs) h h'"
  using assms(2)
proof (induction "(nruns lt xs + 1) div 2" arbitrary: xs h rule: less_induct)
  case less
  let ?c = "(nruns lt xs + 1) div 2"
  from list_sort_pass_run [OF assms(1), of h L "[]" xs 0] less.prems obtain h1 where
    h1: "list_sort_pass h L lt (hd (xs @ [ltail L])) 0 = Some (h1, ?c)" "dll h1 L (sort_pass lt xs)"
      "agree (- cells L xs) h h1" by auto
  from sort_pass_props [OF assms(1), of xs] have sp: "mset (sort_pass lt xs) = mset xs" "nruns lt (sort_pass lt xs) \<le> ?c"
    by blast+
  from sp(1) have cl: "cells L (sort_pass lt xs) = cells L xs"
    unfolding cells_def by (metis set_mset_mset)
  show ?case
  proof (cases "?c > 1")
    case True
    then have "(nruns lt (sort_pass lt xs) + 1) div 2 < ?c" using sp(2) by linarith
    from less.hyps [OF this h1(2)] obtain h2 xs' where
      h2: "list_sort_loop h1 L lt = Some h2" "dll h2 L xs'" "mset xs' = mset (sort_pass lt xs)"
        "successively (le_of lt) xs'" "agree (- cells L (sort_pass lt xs)) h1 h2" by blast
    have "list_sort_loop h L lt = Some h2"
      using h1(1) h2(1) True less.prems by (subst list_sort_loop.simps) (simp add: dll_begin)
    moreover have "agree (- cells L xs) h h2" using h1(3) h2(5) cl by (simp add: agree_def)
    ultimately show ?thesis using h2(2-4) sp(1) by auto
  next
    case False
    then have "list_sort_loop h L lt = Some h1"
      using h1(1) less.prems by (subst list_sort_loop.simps) (simp add: dll_begin)
    moreover have "successively (le_of lt) (sort_pass lt xs)"
      by (rule nruns_sorted) (use sp(2) False in linarith)
    ultimately show ?thesis using h1 sp(1) by auto
  qed
qed

lemma dll_sort:
  assumes "\<forall>x y. lt x y \<longrightarrow> \<not> lt y x" "dll h L xs"
  shows "\<exists>h' xs'. list_sort h L lt = Some h' \<and> dll h' L xs' \<and> mset xs' = mset xs
    \<and> successively (le_of lt) xs' \<and> agree (- cells L xs) h h'"
proof -
  from list_sort_loop_run [OF assms] obtain h' xs' where
    s: "list_sort_loop h L lt = Some h'" "dll h' L xs'" "mset xs' = mset xs" "successively (le_of lt) xs'"
      "agree (- cells L xs) h h'" by auto
  from dll_is_sorted [of h' L "[]" xs' "[]" lt] s have "is_sorted h' (hd (xs' @ [ltail L])) (ltail L) lt = Some True"
    by simp
  then have "list_sort h L lt = Some h'"
    using s by (simp add: list_sort_def dll_begin list_end_def)
  with s show ?thesis by blast
qed

end
