(* ===== verification/PListProps.thy ===== *)
theory PListProps
  imports PListSort "HOL-Library.Sublist"
begin

text \<open>
  The kernel list as a queue, the interface its users rely on, and the properties of \<open>list.c\<close>
  with their concrete instances.
\<close>

subsection \<open>The queue interface\<close>

text \<open>
  The scheduler, the semaphores and the condition variables of the kernel use a list as a queue of
  waiting elements: they add at the back, take from the front, and test for emptiness.
\<close>

locale kernel_queue =
  fixes rep :: "'h \<Rightarrow> 'l \<Rightarrow> addr list \<Rightarrow> bool"
    and fresh :: "'h \<Rightarrow> 'l \<Rightarrow> addr list \<Rightarrow> addr \<Rightarrow> bool"
    and push_back :: "'h \<Rightarrow> 'l \<Rightarrow> addr \<Rightarrow> 'h option"
    and pop_front :: "'h \<Rightarrow> 'l \<Rightarrow> ('h \<times> addr) option"
    and empty :: "'h \<Rightarrow> 'l \<Rightarrow> bool option"
  assumes push_rep: "rep h l xs \<Longrightarrow> fresh h l xs a \<Longrightarrow>
      \<exists>h'. push_back h l a = Some h' \<and> rep h' l (xs @ [a]) \<and> (\<forall>b. b \<noteq> a \<longrightarrow> fresh h l xs b \<longrightarrow> fresh h' l (xs @ [a]) b)"
    and pop_rep: "rep h l (x # xs) \<Longrightarrow>
      \<exists>h'. pop_front h l = Some (h', x) \<and> rep h' l xs \<and> (\<forall>b. fresh h l (x # xs) b \<longrightarrow> fresh h' l xs b)"
    and empty_rep: "rep h l xs \<Longrightarrow> empty h l = Some (xs = [])"
begin

text \<open>Adding the elements of a list one after the other.\<close>

fun push_all :: "'h \<Rightarrow> 'l \<Rightarrow> addr list \<Rightarrow> 'h option" where
  "push_all h l [] = Some h"
| "push_all h l (a # as) = do { h \<leftarrow> push_back h l a; push_all h l as }"

fun pop_n :: "nat \<Rightarrow> 'h \<Rightarrow> 'l \<Rightarrow> ('h \<times> addr list) option" where
  "pop_n 0 h l = Some (h, [])"
| "pop_n (Suc n) h l = do {
     (h, x) \<leftarrow> pop_front h l;
     (h, xs) \<leftarrow> pop_n n h l;
     Some (h, x # xs)
   }"

lemma push_all_rep:
  "rep h l xs \<Longrightarrow> distinct as \<Longrightarrow> (\<forall>a\<in>set as. fresh h l xs a) \<Longrightarrow>
   \<exists>h'. push_all h l as = Some h' \<and> rep h' l (xs @ as)"
proof (induction as arbitrary: h xs)
  case (Cons a as)
  from push_rep [of h l xs a] Cons.prems obtain h1 where
    h1: "push_back h l a = Some h1" "rep h1 l (xs @ [a])" "\<forall>b. b \<noteq> a \<longrightarrow> fresh h l xs b \<longrightarrow> fresh h1 l (xs @ [a]) b"
    by auto
  have "distinct as" "\<forall>b\<in>set as. fresh h1 l (xs @ [a]) b" using h1(3) Cons.prems by auto
  from Cons.IH [OF h1(2) this] h1(1) show ?case by auto
qed simp

lemma pop_n_rep:
  "rep h l (xs @ ys) \<Longrightarrow> \<exists>h'. pop_n (length xs) h l = Some (h', xs) \<and> rep h' l ys"
proof (induction xs arbitrary: h)
  case (Cons x xs)
  from pop_rep [of h l x "xs @ ys"] Cons.prems obtain h1 where
    h1: "pop_front h l = Some (h1, x)" "rep h1 l (xs @ ys)" by auto
  with Cons.IH [OF h1(2)] show ?case by auto
qed simp

text \<open>First in, first out.\<close>

lemma fifo:
  assumes "rep h l []" "distinct as" "\<forall>a\<in>set as. fresh h l [] a"
  shows "\<exists>h1 h2. push_all h l as = Some h1 \<and> pop_n (length as) h1 l = Some (h2, as) \<and> empty h2 l = Some True"
proof -
  from push_all_rep [OF assms] obtain h1 where h1: "push_all h l as = Some h1" "rep h1 l (as @ [])" by auto
  from pop_n_rep [OF h1(2)] obtain h2 where h2: "pop_n (length as) h1 l = Some (h2, as)" "rep h2 l []" by blast
  with h1 empty_rep [OF h2(2)] show ?thesis by auto
qed

end

definition list_fresh :: "lheap \<Rightarrow> list_hdr \<Rightarrow> addr list \<Rightarrow> addr \<Rightarrow> bool" where
  "list_fresh h L xs a \<longleftrightarrow> h a \<noteq> None \<and> a \<notin> cells L xs \<and> a \<noteq> NULL"

interpretation kq: kernel_queue dll list_fresh list_push_back list_pop_front list_empty
proof unfold_locales
  fix h L xs a
  assume d: "dll h L xs" and f: "list_fresh h L xs a"
  from dll_push_back [OF d] f obtain h' where
    h': "list_push_back h L a = Some h'" "dll h' L (xs @ [a])" "agree (- insert a (cells L xs)) h h'"
    by (auto simp: list_fresh_def)
  have "\<forall>b. b \<noteq> a \<longrightarrow> list_fresh h L xs b \<longrightarrow> list_fresh h' L (xs @ [a]) b"
    using h'(3) by (auto simp: list_fresh_def agree_def cells_def)
  with h' show "\<exists>h'. list_push_back h L a = Some h' \<and> dll h' L (xs @ [a])
      \<and> (\<forall>b. b \<noteq> a \<longrightarrow> list_fresh h L xs b \<longrightarrow> list_fresh h' L (xs @ [a]) b)" by blast
next
  fix h L x xs
  assume d: "dll h L (x # xs)"
  from dll_pop_front [OF d] obtain h' where
    h': "list_pop_front h L = Some (h', x)" "dll h' L xs" "agree (- cells L xs) h h'" by blast
  have "\<forall>b. list_fresh h L (x # xs) b \<longrightarrow> list_fresh h' L xs b"
    using h'(3) by (auto simp: list_fresh_def agree_def cells_def)
  with h' show "\<exists>h'. list_pop_front h L = Some (h', x) \<and> dll h' L xs
      \<and> (\<forall>b. list_fresh h L (x # xs) b \<longrightarrow> list_fresh h' L xs b)" by blast
next
  show "list_empty h L = Some (xs = [])" if "dll h L xs" for h L xs
    using that by (rule dll_empty)
qed

subsection \<open>An example list\<close>

definition ex_list :: list_hdr where
  "ex_list = \<lparr>lhead = 1, ltail = 2\<rparr>"

definition ex_dups :: list_hdr where
  "ex_dups = \<lparr>lhead = 11, ltail = 12\<rparr>"

text \<open>The list \<open>5, 3, 4\<close>, an empty list, and the element \<open>6\<close> in no list.\<close>

definition ex_lheap :: lheap where
  "ex_lheap = [1 \<mapsto> \<lparr>prv = 0, nxt = 5\<rparr>, 5 \<mapsto> \<lparr>prv = 1, nxt = 3\<rparr>, 3 \<mapsto> \<lparr>prv = 5, nxt = 4\<rparr>,
     4 \<mapsto> \<lparr>prv = 3, nxt = 2\<rparr>, 2 \<mapsto> \<lparr>prv = 4, nxt = 0\<rparr>, 6 \<mapsto> \<lparr>prv = 0, nxt = 0\<rparr>,
     11 \<mapsto> \<lparr>prv = 0, nxt = 12\<rparr>, 12 \<mapsto> \<lparr>prv = 11, nxt = 0\<rparr>]"

lemma ex_dll: "dll ex_lheap ex_list [5, 3, 4]" "dll ex_lheap ex_dups []"
  by (simp_all add: dll_def ex_lheap_def ex_list_def ex_dups_def)

subsection \<open>Properties\<close>

text \<open>C18: \<open>list_sort\<close> with an asymmetric comparison always terminates, passes all its assertions, and
  leaves a well-linked list of the same elements in which no element is less than the one
  before it; nothing outside the list is written.\<close>

theorem list_sort_correct:
  assumes "\<forall>x y. lt x y \<longrightarrow> \<not> lt y x" "dll h L xs"
  shows "\<exists>h' xs'. list_sort h L lt = Some h' \<and> dll h' L xs' \<and> mset xs' = mset xs
    \<and> successively (\<lambda>x y. \<not> lt y x) xs' \<and> agree (- cells L xs) h h'"
  using assms by (rule dll_sort)

theorem list_sort_correct_witness:
  "\<exists>h' xs'. list_sort ex_lheap ex_list (\<lambda>a b. a < b) = Some h' \<and> dll h' ex_list xs' \<and> mset xs' = mset [5, 3, 4]
    \<and> successively (\<lambda>x y. \<not> y < x) xs' \<and> agree (- cells ex_list [5, 3, 4]) ex_lheap h'"
  by (rule list_sort_correct [OF _ ex_dll(1)]) simp

text \<open>\<open>list_splice\<close> moves a non-empty range to an earlier place of its list by changing links
  only at the six borders, and the result is the list in the new order.\<close>

theorem list_splice_correct:
  assumes "dll h L (as @ bs @ fs @ cs)" "bs \<noteq> []" "fs \<noteq> []"
  shows "\<exists>h'. list_splice h (hd bs) (hd fs) (hd (cs @ [ltail L])) = Some h' \<and> dll h' L (as @ fs @ bs @ cs)
    \<and> agree (- cells L (as @ bs @ fs @ cs)) h h'"
  using assms by (rule dll_splice)

theorem list_splice_correct_witness:
  "\<exists>h'. list_splice ex_lheap (hd [5, 3]) (hd [4]) (hd ([] @ [ltail ex_list])) = Some h'
    \<and> dll h' ex_list ([] @ [4] @ [5, 3] @ []) \<and> agree (- cells ex_list ([] @ [5, 3] @ [4] @ [])) ex_lheap h'"
  by (rule list_splice_correct) (use ex_dll in simp_all)

lemma sorted_wrt_insert:
  "sorted_wrt P as \<Longrightarrow> sorted_wrt P bs \<Longrightarrow> \<forall>x\<in>set as. \<forall>y\<in>set bs. P x y \<Longrightarrow>
   \<forall>x\<in>set as. P x e \<Longrightarrow> \<forall>y\<in>set bs. P e y \<Longrightarrow> sorted_wrt P (as @ e # bs)"
  by (auto simp: sorted_wrt_append)

text \<open>\<open>list_insert_ordered\<close> inserts before the first element that the new one is less than, and
  keeps the list sorted when the comparison is a strict weak order.\<close>

theorem list_insert_ordered_correct:
  assumes "dll h L xs" "h e \<noteq> None" "e \<notin> cells L xs" "e \<noteq> NULL"
    and "\<forall>x y. lt x y \<longrightarrow> \<not> lt y x" "\<forall>x y z. \<not> lt y x \<longrightarrow> \<not> lt z y \<longrightarrow> \<not> lt z x"
    and "sorted_wrt (\<lambda>x y. \<not> lt y x) xs"
  shows "\<exists>h' xs'. list_insert_ordered h L e lt = Some h' \<and> dll h' L xs' \<and> mset xs' = add_mset e (mset xs)
    \<and> sorted_wrt (\<lambda>x y. \<not> lt y x) xs'"
proof -
  from dll_insert_ordered [OF assms(1-4)] obtain h' where
    h': "list_insert_ordered h L e lt = Some h'" "dll h' L (insert_at lt e xs)" by blast
  let ?a = "takeWhile (\<lambda>x. \<not> lt e x) xs" and ?b = "dropWhile (\<lambda>x. \<not> lt e x) xs"
  have xs: "xs = ?a @ ?b" by simp
  have m: "mset (insert_at lt e xs) = add_mset e (mset xs)"
  proof -
    have "mset ?a + mset ?b = mset xs" by (metis mset_append takeWhile_dropWhile_id)
    then show ?thesis by (simp add: insert_at_def)
  qed
  have s: "sorted_wrt (\<lambda>x y. \<not> lt y x) ?a" "sorted_wrt (\<lambda>x y. \<not> lt y x) ?b"
    "\<forall>x\<in>set ?a. \<forall>y\<in>set ?b. \<not> lt y x"
  proof -
    from assms(7) have "sorted_wrt (\<lambda>x y. \<not> lt y x) (?a @ ?b)" by simp
    then show "sorted_wrt (\<lambda>x y. \<not> lt y x) ?a" "sorted_wrt (\<lambda>x y. \<not> lt y x) ?b"
      "\<forall>x\<in>set ?a. \<forall>y\<in>set ?b. \<not> lt y x" unfolding sorted_wrt_append by blast+
  qed
  have a: "\<forall>x\<in>set ?a. \<not> lt e x" by (auto dest: set_takeWhileD)
  have b: "\<forall>y\<in>set ?b. \<not> lt y e"
  proof (cases ?b)
    case (Cons y ys)
    then have "lt e y" by (metis dropWhile_eq_Cons_conv)
    with assms(5,6) s(2) Cons show ?thesis by (metis set_ConsD sorted_wrt.simps(2))
  next
    case Nil
    then show ?thesis by (metis empty_iff empty_set)
  qed
  have "sorted_wrt (\<lambda>x y. \<not> lt y x) (insert_at lt e xs)"
    unfolding insert_at_def by (rule sorted_wrt_insert [OF s a b])
  with h' m show ?thesis by blast
qed

theorem list_insert_ordered_correct_witness:
  "\<exists>h' xs'. list_insert_ordered ex_lheap ex_list 6 (\<lambda>a b. a mod 5 < b mod 5) = Some h' \<and> dll h' ex_list xs'
    \<and> mset xs' = add_mset 6 (mset [5, 3, 4]) \<and> sorted_wrt (\<lambda>x y. \<not> y mod 5 < x mod 5) xs'"
  by (rule list_insert_ordered_correct [OF ex_dll(1)]) (auto simp: ex_lheap_def ex_list_def cells_def)

lemma uniq_props:
  "mset (fst (uniq lt xs)) + mset (snd (uniq lt xs)) = mset xs \<and> subseq (fst (uniq lt xs)) xs
    \<and> successively (\<lambda>x y. lt x y \<or> lt y x) (fst (uniq lt xs)) \<and> (xs \<noteq> [] \<longrightarrow> fst (uniq lt xs) \<noteq> [] \<and> hd (fst (uniq lt xs)) = hd xs)"
proof (induction lt xs rule: uniq.induct)
  case (3 lt x y ys)
  show ?case
  proof (cases "\<not> lt x y \<and> \<not> lt y x")
    case True
    obtain k where "fst (uniq lt (x # ys)) = x # k"
      using 3(1) [OF True] by (metis list.collapse list.distinct(1) list.sel(1))
    then have "subseq (fst (uniq lt (x # ys))) (x # y # ys)"
      using 3(1) [OF True] by (simp add: list_emb_Cons)
    with 3(1) [OF True] True show ?thesis by simp
  next
    case False
    with 3(3) [OF False] show ?thesis by (cases "fst (uniq lt (y # ys))") auto
  qed
qed auto

text \<open>\<open>list_unique\<close> leaves a sublist in which no two neighbours are equal under the
  comparison, and appends exactly the removed elements to the other list.\<close>

theorem list_unique_correct:
  assumes "dll h L xs" "dll h D ds" "cells L xs \<inter> cells D ds = {}"
  shows "\<exists>h' xs' ds'. list_unique h L (Some D) lt = Some h' \<and> dll h' L xs' \<and> dll h' D (ds @ ds')
    \<and> subseq xs' xs \<and> mset xs' + mset ds' = mset xs \<and> successively (\<lambda>x y. lt x y \<or> lt y x) xs'"
proof (cases xs)
  case Nil
  have "list_unique h L (Some D) lt = Some h" using assms Nil by (simp add: list_unique_def dll_empty)
  with assms Nil show ?thesis by (intro exI [of _ h] exI [of _ "[]"]) simp
next
  case (Cons x ys)
  from list_unique_loop_run [of h L "[]" x ys D ds lt] assms Cons obtain h' where
    "list_unique_loop h L (Some D) lt x = Some h'" "dll h' L (fst (uniq lt xs))" "dll h' D (ds @ snd (uniq lt xs))"
    by auto
  moreover have "list_unique h L (Some D) lt = list_unique_loop h L (Some D) lt x"
    using assms Cons by (simp add: list_unique_def dll_empty dll_begin)
  ultimately show ?thesis using uniq_props [of lt xs]
    by (intro exI [of _ h'] exI [of _ "fst (uniq lt xs)"] exI [of _ "snd (uniq lt xs)"]) simp
qed

theorem list_unique_correct_witness:
  "\<exists>h' xs' ds'. list_unique ex_lheap ex_list (Some ex_dups) (\<lambda>a b. a mod 2 < b mod 2) = Some h' \<and> dll h' ex_list xs'
    \<and> dll h' ex_dups ([] @ ds') \<and> subseq xs' [5, 3, 4] \<and> mset xs' + mset ds' = mset [5, 3, 4]
    \<and> successively (\<lambda>x y. x mod 2 < y mod 2 \<or> y mod 2 < x mod 2) xs'"
  by (rule list_unique_correct [OF ex_dll]) (simp add: cells_def ex_list_def ex_dups_def)

definition push_list :: "lheap \<Rightarrow> list_hdr \<Rightarrow> addr list \<Rightarrow> lheap option" where
  "push_list = kq.push_all"

definition pop_list :: "nat \<Rightarrow> lheap \<Rightarrow> list_hdr \<Rightarrow> (lheap \<times> addr list) option" where
  "pop_list = kq.pop_n"

text \<open>C35: a kernel list is a first-in first-out queue: elements pushed at the back of an empty list
  come out at the front in the same order and leave it empty.\<close>

theorem list_fifo:
  assumes "dll h L []" "distinct as" "\<forall>a\<in>set as. h a \<noteq> None \<and> a \<notin> cells L [] \<and> a \<noteq> NULL"
  shows "\<exists>h1 h2. push_list h L as = Some h1 \<and> pop_list (length as) h1 L = Some (h2, as) \<and> list_empty h2 L = Some True"
  unfolding push_list_def pop_list_def
  by (rule kq.fifo [OF assms(1,2)]) (use assms(3) in \<open>simp add: list_fresh_def\<close>)

theorem list_fifo_witness:
  "\<exists>h1 h2. push_list ex_lheap ex_dups [4, 6] = Some h1 \<and> pop_list (length [4::addr, 6]) h1 ex_dups = Some (h2, [4, 6])
    \<and> list_empty h2 ex_dups = Some True"
  by (rule list_fifo [OF ex_dll(2)]) (simp_all add: ex_lheap_def ex_dups_def cells_def)

end
