(* ===== verification/Bitmap.thy ===== *)
theory Bitmap
  imports Prelude "HOL-Library.Word"
begin

text \<open>
  The bitmap of \<open>pintos/lib/kernel/bitmap.c\<close>: an array of 64-bit elements behind an interface of
  single bits. An access outside the array of elements and a failed assertion yield \<open>None\<close>. Bit
  numbers are \<open>size_t\<close>; they are natural numbers here, and the one sum that can wrap around,
  \<open>start + cnt\<close> in the assertions, is written with its modulus. \<open>malloc\<close> is an argument: the
  storage it returns, with whatever it contains, or none.
\<close>

unbundle bit_operations_syntax

record bitmap =
  bit_cnt :: nat
  bits :: "64 word list"

definition ELEM_BITS :: nat where
  "ELEM_BITS = 64"

definition BITMAP_ERROR :: nat where
  "BITMAP_ERROR = 2 ^ 32 - 1"

definition assert_that :: "bool \<Rightarrow> unit option" where
  "assert_that b = (if b then Some () else None)"

lemma assert_that_simps [simp]: "assert_that True = Some ()" "assert_that False = None"
  by (simp_all add: assert_that_def)

definition elem_idx :: "nat \<Rightarrow> nat" where
  "elem_idx bit_idx = bit_idx div ELEM_BITS"

definition bit_mask :: "nat \<Rightarrow> 64 word" where
  "bit_mask bit_idx = push_bit (bit_idx mod ELEM_BITS) 1"

definition elem_cnt :: "nat \<Rightarrow> nat" where
  "elem_cnt n = (n + ELEM_BITS - 1) div ELEM_BITS"

definition byte_cnt :: "nat \<Rightarrow> nat" where
  "byte_cnt n = 8 * elem_cnt n"

definition last_mask :: "bitmap \<Rightarrow> 64 word" where
  "last_mask b = (let last_bits = bit_cnt b mod ELEM_BITS in
     if last_bits \<noteq> 0 then push_bit last_bits 1 - 1 else - 1)"

definition get_elem :: "bitmap \<Rightarrow> nat \<Rightarrow> 64 word option" where
  "get_elem b i = (if i < length (bits b) then Some (bits b ! i) else None)"

definition put_elem :: "bitmap \<Rightarrow> nat \<Rightarrow> 64 word \<Rightarrow> bitmap option" where
  "put_elem b i w = (if i < length (bits b) then Some (b\<lparr>bits := (bits b)[i := w]\<rparr>) else None)"

subsection \<open>Single bits\<close>

definition bitmap_mark :: "bitmap \<Rightarrow> nat \<Rightarrow> bitmap option" where
  "bitmap_mark b bit_idx = do {
     w \<leftarrow> get_elem b (elem_idx bit_idx);
     put_elem b (elem_idx bit_idx) (w OR bit_mask bit_idx)
   }"

definition bitmap_reset :: "bitmap \<Rightarrow> nat \<Rightarrow> bitmap option" where
  "bitmap_reset b bit_idx = do {
     w \<leftarrow> get_elem b (elem_idx bit_idx);
     put_elem b (elem_idx bit_idx) (w AND NOT (bit_mask bit_idx))
   }"

definition bitmap_flip :: "bitmap \<Rightarrow> nat \<Rightarrow> bitmap option" where
  "bitmap_flip b bit_idx = do {
     w \<leftarrow> get_elem b (elem_idx bit_idx);
     put_elem b (elem_idx bit_idx) (w XOR bit_mask bit_idx)
   }"

definition bitmap_set :: "bitmap \<Rightarrow> nat \<Rightarrow> bool \<Rightarrow> bitmap option" where
  "bitmap_set b idx val = do {
     assert_that (idx < bit_cnt b);
     if val then bitmap_mark b idx else bitmap_reset b idx
   }"

definition bitmap_test :: "bitmap \<Rightarrow> nat \<Rightarrow> bool option" where
  "bitmap_test b idx = do {
     assert_that (idx < bit_cnt b);
     w \<leftarrow> get_elem b (elem_idx idx);
     Some (w AND bit_mask idx \<noteq> 0)
   }"

definition bitmap_size :: "bitmap \<Rightarrow> nat" where
  "bitmap_size b = bit_cnt b"

subsection \<open>Ranges of bits\<close>

definition assert_range :: "bitmap \<Rightarrow> nat \<Rightarrow> nat \<Rightarrow> unit option" where
  "assert_range b start cnt = do {
     assert_that (start \<le> bit_cnt b);
     assert_that ((start + cnt) mod 2 ^ 64 \<le> bit_cnt b)
   }"

text \<open>The loops run over \<open>i = 0, ..., cnt - 1\<close>; \<open>n\<close> is the number of rounds left and \<open>k = start + i\<close>.\<close>

primrec bitmap_set_loop :: "bitmap \<Rightarrow> nat \<Rightarrow> nat \<Rightarrow> bool \<Rightarrow> bitmap option" where
  "bitmap_set_loop b k 0 val = Some b"
| "bitmap_set_loop b k (Suc n) val = do {
     b \<leftarrow> bitmap_set b k val;
     bitmap_set_loop b (k + 1) n val
   }"

definition bitmap_set_multiple :: "bitmap \<Rightarrow> nat \<Rightarrow> nat \<Rightarrow> bool \<Rightarrow> bitmap option" where
  "bitmap_set_multiple b start cnt val = do {
     assert_range b start cnt;
     bitmap_set_loop b start cnt val
   }"

definition bitmap_set_all :: "bitmap \<Rightarrow> bool \<Rightarrow> bitmap option" where
  "bitmap_set_all b val = bitmap_set_multiple b 0 (bitmap_size b) val"

primrec bitmap_count_loop :: "bitmap \<Rightarrow> nat \<Rightarrow> nat \<Rightarrow> bool \<Rightarrow> nat \<Rightarrow> nat option" where
  "bitmap_count_loop b k 0 val value_cnt = Some value_cnt"
| "bitmap_count_loop b k (Suc n) val value_cnt = do {
     t \<leftarrow> bitmap_test b k;
     bitmap_count_loop b (k + 1) n val (if t = val then value_cnt + 1 else value_cnt)
   }"

definition bitmap_count :: "bitmap \<Rightarrow> nat \<Rightarrow> nat \<Rightarrow> bool \<Rightarrow> nat option" where
  "bitmap_count b start cnt val = do {
     assert_range b start cnt;
     bitmap_count_loop b start cnt val 0
   }"

primrec bitmap_contains_loop :: "bitmap \<Rightarrow> nat \<Rightarrow> nat \<Rightarrow> bool \<Rightarrow> bool option" where
  "bitmap_contains_loop b k 0 val = Some False"
| "bitmap_contains_loop b k (Suc n) val = do {
     t \<leftarrow> bitmap_test b k;
     if t = val then Some True else bitmap_contains_loop b (k + 1) n val
   }"

definition bitmap_contains :: "bitmap \<Rightarrow> nat \<Rightarrow> nat \<Rightarrow> bool \<Rightarrow> bool option" where
  "bitmap_contains b start cnt val = do {
     assert_range b start cnt;
     bitmap_contains_loop b start cnt val
   }"

definition bitmap_any :: "bitmap \<Rightarrow> nat \<Rightarrow> nat \<Rightarrow> bool option" where
  "bitmap_any b start cnt = bitmap_contains b start cnt True"

definition bitmap_none :: "bitmap \<Rightarrow> nat \<Rightarrow> nat \<Rightarrow> bool option" where
  "bitmap_none b start cnt = map_option Not (bitmap_contains b start cnt True)"

definition bitmap_all :: "bitmap \<Rightarrow> nat \<Rightarrow> nat \<Rightarrow> bool option" where
  "bitmap_all b start cnt = map_option Not (bitmap_contains b start cnt False)"

text \<open>The search loop for \<open>i = start, ..., last\<close>; \<open>n\<close> rounds are left.\<close>

primrec bitmap_scan_loop :: "bitmap \<Rightarrow> nat \<Rightarrow> nat \<Rightarrow> nat \<Rightarrow> bool \<Rightarrow> nat option" where
  "bitmap_scan_loop b i 0 cnt val = Some BITMAP_ERROR"
| "bitmap_scan_loop b i (Suc n) cnt val = do {
     c \<leftarrow> bitmap_contains b i cnt (\<not> val);
     if \<not> c then Some i else bitmap_scan_loop b (i + 1) n cnt val
   }"

definition bitmap_scan :: "bitmap \<Rightarrow> nat \<Rightarrow> nat \<Rightarrow> bool \<Rightarrow> nat option" where
  "bitmap_scan b start cnt val = do {
     assert_that (start \<le> bit_cnt b);
     if cnt \<le> bit_cnt b
     then let last = bit_cnt b - cnt in bitmap_scan_loop b start (last + 1 - start) cnt val
     else Some BITMAP_ERROR
   }"

definition bitmap_scan_and_flip :: "bitmap \<Rightarrow> nat \<Rightarrow> nat \<Rightarrow> bool \<Rightarrow> (bitmap \<times> nat) option" where
  "bitmap_scan_and_flip b start cnt val = do {
     idx \<leftarrow> bitmap_scan b start cnt val;
     if idx \<noteq> BITMAP_ERROR then do {
       b \<leftarrow> bitmap_set_multiple b idx cnt (\<not> val);
       Some (b, idx)
     } else Some (b, idx)
   }"

subsection \<open>Creation\<close>

text \<open>
  \<open>hdr\<close> says whether the first \<open>malloc\<close> succeeds; \<open>store\<close> is the result of the second, the
  elements found in the new storage. The outer \<open>None\<close> is a failed assertion or access, the inner
  one the null pointer that is returned.
\<close>

definition bitmap_create :: "bool \<Rightarrow> 64 word list option \<Rightarrow> nat \<Rightarrow> bitmap option option" where
  "bitmap_create hdr store n =
     (if hdr then
        if store \<noteq> None \<or> n = 0 then do {
          b \<leftarrow> bitmap_set_all \<lparr>bit_cnt = n, bits = (case store of None \<Rightarrow> [] | Some ws \<Rightarrow> ws)\<rparr> False;
          Some (Some b)
        } else Some None
      else Some None)"

definition bitmap_buf_size :: "nat \<Rightarrow> nat" where
  "bitmap_buf_size n = 16 + byte_cnt n"

definition bitmap_create_in_buf :: "nat \<Rightarrow> 64 word list \<Rightarrow> nat \<Rightarrow> bitmap option" where
  "bitmap_create_in_buf n store block_size = do {
     assert_that (block_size \<ge> bitmap_buf_size n);
     bitmap_set_all \<lparr>bit_cnt = n, bits = store\<rparr> False
   }"

definition bitmap_file_size :: "bitmap \<Rightarrow> nat" where
  "bitmap_file_size b = byte_cnt (bit_cnt b)"

subsection \<open>The bitmap as a list of bits\<close>

definition bm_wf :: "bitmap \<Rightarrow> bool" where
  "bm_wf b \<longleftrightarrow> length (bits b) = elem_cnt (bit_cnt b) \<and> bit_cnt b < 2 ^ 32 - 1"

definition bm_bit :: "bitmap \<Rightarrow> nat \<Rightarrow> bool" where
  "bm_bit b i = bit (bits b ! (i div 64)) (i mod 64)"

definition bm_list :: "bitmap \<Rightarrow> bool list" where
  "bm_list b = map (bm_bit b) [0..<bit_cnt b]"

lemma length_bm_list [simp]: "length (bm_list b) = bit_cnt b"
  by (simp add: bm_list_def)

lemma nth_bm_list [simp]: "i < bit_cnt b \<Longrightarrow> bm_list b ! i = bm_bit b i"
  by (simp add: bm_list_def)

lemma elem_idx_less: "bm_wf b \<Longrightarrow> i < bit_cnt b \<Longrightarrow> elem_idx i < length (bits b)"
  by (simp add: bm_wf_def elem_cnt_def elem_idx_def ELEM_BITS_def less_eq_Suc_le)

lemma bit_mask_bit: "bit (bit_mask i) j \<longleftrightarrow> j = i mod 64"
  by (auto simp: bit_mask_def ELEM_BITS_def bit_exp_iff)

lemma mask_test: "w AND bit_mask i \<noteq> 0 \<longleftrightarrow> bit w (i mod 64)"
proof -
  have "w AND bit_mask i \<noteq> 0 \<longleftrightarrow> (\<exists>j. bit (w AND bit_mask i) j)"
  proof
    assume "w AND bit_mask i \<noteq> 0"
    then have "\<not> (\<forall>j. \<not> bit (w AND bit_mask i) j)" by (metis bit_0_eq bit_eqI bot_apply bot_bool_def)
    then show "\<exists>j. bit (w AND bit_mask i) j" by blast
  qed auto
  then show ?thesis by (simp add: bit_and_iff bit_mask_bit)
qed

lemma bitmap_test_run: "bm_wf b \<Longrightarrow> i < bit_cnt b \<Longrightarrow> bitmap_test b i = Some (bm_list b ! i)"
  using elem_idx_less [of b i]
  by (simp add: bitmap_test_def get_elem_def mask_test bm_bit_def) (simp add: elem_idx_def ELEM_BITS_def)

lemma idx_mod_eq: "i div 64 = j div 64 \<Longrightarrow> i mod 64 = j mod 64 \<Longrightarrow> i = (j :: nat)"
  by (metis div_mult_mod_eq)

text \<open>All single-bit operations update one element with a mask.\<close>

lemma put_bit:
  assumes wf: "bm_wf b" and i: "i < bit_cnt b"
    and f: "\<And>j. j < 64 \<Longrightarrow> bit (f (bits b ! elem_idx i)) j = (if j = i mod 64 then v else bit (bits b ! elem_idx i) j)"
  shows "\<exists>b'. put_elem b (elem_idx i) (f (bits b ! elem_idx i)) = Some b' \<and> bm_wf b' \<and> bit_cnt b' = bit_cnt b
    \<and> bm_list b' = (bm_list b)[i := v]"
proof -
  let ?b = "b\<lparr>bits := (bits b)[elem_idx i := f (bits b ! elem_idx i)]\<rparr>"
  have e: "elem_idx i < length (bits b)" by (rule elem_idx_less [OF wf i])
  have "bm_bit ?b j = (if j = i then v else bm_bit b j)" for j
  proof (cases "j div 64 = elem_idx i")
    case True
    then have "bm_bit ?b j = (if j mod 64 = i mod 64 then v else bm_bit b j)"
      using e f [of "j mod 64"] by (simp add: bm_bit_def)
    moreover have "j mod 64 = i mod 64 \<longleftrightarrow> j = i"
      using True idx_mod_eq [of j i] by (auto simp: elem_idx_def ELEM_BITS_def)
    ultimately show ?thesis by simp
  next
    case False
    then show ?thesis by (auto simp: bm_bit_def elem_idx_def ELEM_BITS_def)
  qed
  then have "bm_list ?b = (bm_list b)[i := v]"
    by (auto simp: list_eq_iff_nth_eq nth_list_update)
  then show ?thesis using e wf by (auto simp: put_elem_def bm_wf_def)
qed

lemma bitmap_mark_run:
  "bm_wf b \<Longrightarrow> i < bit_cnt b \<Longrightarrow> \<exists>b'. bitmap_mark b i = Some b' \<and> bm_wf b' \<and> bit_cnt b' = bit_cnt b
    \<and> bm_list b' = (bm_list b)[i := True]"
  using put_bit [of b i "\<lambda>w. w OR bit_mask i" True] elem_idx_less [of b i]
  by (simp add: bitmap_mark_def get_elem_def bit_or_iff bit_mask_bit)

lemma bitmap_reset_run:
  "bm_wf b \<Longrightarrow> i < bit_cnt b \<Longrightarrow> \<exists>b'. bitmap_reset b i = Some b' \<and> bm_wf b' \<and> bit_cnt b' = bit_cnt b
    \<and> bm_list b' = (bm_list b)[i := False]"
  using put_bit [of b i "\<lambda>w. w AND NOT (bit_mask i)" False] elem_idx_less [of b i]
  by (simp add: bitmap_reset_def get_elem_def bit_and_iff bit_not_iff bit_mask_bit)

lemma bitmap_flip_run:
  assumes "bm_wf b" "i < bit_cnt b"
  shows "\<exists>b'. bitmap_flip b i = Some b' \<and> bm_wf b' \<and> bit_cnt b' = bit_cnt b
    \<and> bm_list b' = (bm_list b)[i := \<not> bm_list b ! i]"
  using put_bit [of b i "\<lambda>w. w XOR bit_mask i" "\<not> bm_list b ! i"] elem_idx_less [of b i] assms
  by (auto simp: bitmap_flip_def get_elem_def bit_xor_iff bit_mask_bit bm_bit_def elem_idx_def ELEM_BITS_def)

lemma bitmap_set_run:
  "bm_wf b \<Longrightarrow> i < bit_cnt b \<Longrightarrow> \<exists>b'. bitmap_set b i v = Some b' \<and> bm_wf b' \<and> bit_cnt b' = bit_cnt b
    \<and> bm_list b' = (bm_list b)[i := v]"
  using bitmap_mark_run [of b i] bitmap_reset_run [of b i] by (cases v) (simp_all add: bitmap_set_def)

subsection \<open>Loops over ranges\<close>

lemma assert_range_run: "bm_wf b \<Longrightarrow> start + cnt \<le> bit_cnt b \<Longrightarrow> assert_range b start cnt = Some ()"
  by (simp add: assert_range_def bm_wf_def)

definition set_range :: "bool list \<Rightarrow> nat \<Rightarrow> nat \<Rightarrow> bool \<Rightarrow> bool list" where
  "set_range xs k n v = take k xs @ replicate n v @ drop (k + n) xs"

lemma set_range_Suc:
  "k + Suc n \<le> length xs \<Longrightarrow> set_range (xs[k := v]) (k + 1) n v = set_range xs k (Suc n) v"
  by (simp add: set_range_def take_Suc_conv_app_nth)

lemma bitmap_set_loop_run:
  "bm_wf b \<Longrightarrow> k + n \<le> bit_cnt b \<Longrightarrow>
   \<exists>b'. bitmap_set_loop b k n v = Some b' \<and> bm_wf b' \<and> bit_cnt b' = bit_cnt b \<and> bm_list b' = set_range (bm_list b) k n v"
proof (induction n arbitrary: b k)
  case 0
  then show ?case by (simp add: set_range_def)
next
  case (Suc n)
  from bitmap_set_run [of b k v] Suc.prems obtain b1 where
    b1: "bitmap_set b k v = Some b1" "bm_wf b1" "bit_cnt b1 = bit_cnt b" "bm_list b1 = (bm_list b)[k := v]" by auto
  from Suc.IH [of b1 "k + 1"] Suc.prems b1 obtain b2 where
    "bitmap_set_loop b1 (k + 1) n v = Some b2" "bm_wf b2" "bit_cnt b2 = bit_cnt b"
    "bm_list b2 = set_range ((bm_list b)[k := v]) (k + 1) n v" by auto
  with b1 Suc.prems set_range_Suc [of k n "bm_list b" v] show ?case by auto
qed

lemma bitmap_set_multiple_run:
  "bm_wf b \<Longrightarrow> start + cnt \<le> bit_cnt b \<Longrightarrow>
   \<exists>b'. bitmap_set_multiple b start cnt v = Some b' \<and> bm_wf b' \<and> bit_cnt b' = bit_cnt b
     \<and> bm_list b' = set_range (bm_list b) start cnt v"
  using bitmap_set_loop_run [of b start cnt v] by (simp add: bitmap_set_multiple_def assert_range_run)

lemma bitmap_set_all_run:
  "bm_wf b \<Longrightarrow> \<exists>b'. bitmap_set_all b v = Some b' \<and> bm_wf b' \<and> bit_cnt b' = bit_cnt b
     \<and> bm_list b' = replicate (bit_cnt b) v"
  using bitmap_set_multiple_run [of b 0 "bit_cnt b" v] by (simp add: bitmap_set_all_def bitmap_size_def set_range_def)

lemma bitmap_count_loop_run:
  "bm_wf b \<Longrightarrow> k + n \<le> bit_cnt b \<Longrightarrow>
   bitmap_count_loop b k n v c = Some (c + length (filter (\<lambda>x. x = v) (take n (drop k (bm_list b)))))"
proof (induction n arbitrary: k c)
  case (Suc n)
  have "take (Suc n) (drop k (bm_list b)) = bm_list b ! k # take n (drop (k + 1) (bm_list b))"
    using Suc.prems by (simp add: take_Suc_conv_app_nth Cons_nth_drop_Suc [symmetric])
  with Suc show ?case by (simp add: bitmap_test_run)
qed simp

lemma bitmap_count_run:
  "bm_wf b \<Longrightarrow> start + cnt \<le> bit_cnt b \<Longrightarrow>
   bitmap_count b start cnt v = Some (length (filter (\<lambda>x. x = v) (take cnt (drop start (bm_list b)))))"
  by (simp add: bitmap_count_def assert_range_run bitmap_count_loop_run)

definition has_bit :: "bitmap \<Rightarrow> nat \<Rightarrow> nat \<Rightarrow> bool \<Rightarrow> bool" where
  "has_bit b k n v \<longleftrightarrow> (\<exists>i\<in>{k..<k + n}. bm_list b ! i = v)"

lemma bitmap_contains_loop_run:
  "bm_wf b \<Longrightarrow> k + n \<le> bit_cnt b \<Longrightarrow> bitmap_contains_loop b k n v = Some (has_bit b k n v)"
proof (induction n arbitrary: k)
  case 0
  then show ?case by (simp add: has_bit_def)
next
  case (Suc n)
  have "has_bit b k (Suc n) v \<longleftrightarrow> bm_list b ! k = v \<or> has_bit b (k + 1) n v"
  proof -
    have "{k..<k + Suc n} = insert k {k + 1..<k + 1 + n}" by auto
    then show ?thesis by (simp only: has_bit_def bex_simps)
  qed
  with Suc show ?case by (simp add: bitmap_test_run)
qed

lemma bitmap_contains_run:
  "bm_wf b \<Longrightarrow> start + cnt \<le> bit_cnt b \<Longrightarrow> bitmap_contains b start cnt v = Some (has_bit b start cnt v)"
  by (simp add: bitmap_contains_def assert_range_run bitmap_contains_loop_run)

text \<open>\<open>run_of b i cnt v\<close>: the \<open>cnt\<close> bits from \<open>i\<close> on all have the value \<open>v\<close>.\<close>

definition run_of :: "bitmap \<Rightarrow> nat \<Rightarrow> nat \<Rightarrow> bool \<Rightarrow> bool" where
  "run_of b i cnt v \<longleftrightarrow> i + cnt \<le> bit_cnt b \<and> (\<forall>j\<in>{i..<i + cnt}. bm_list b ! j = v)"

lemma run_of_has_bit: "i + cnt \<le> bit_cnt b \<Longrightarrow> run_of b i cnt v \<longleftrightarrow> \<not> has_bit b i cnt (\<not> v)"
  by (auto simp: run_of_def has_bit_def)

text \<open>What a search from \<open>i\<close> returns.\<close>

definition scan_spec :: "bitmap \<Rightarrow> nat \<Rightarrow> nat \<Rightarrow> bool \<Rightarrow> nat \<Rightarrow> bool" where
  "scan_spec b i cnt v r \<longleftrightarrow>
     (if \<exists>j\<ge>i. run_of b j cnt v
      then i \<le> r \<and> run_of b r cnt v \<and> (\<forall>j. i \<le> j \<and> j < r \<longrightarrow> \<not> run_of b j cnt v)
      else r = BITMAP_ERROR)"

lemma scan_spec_hit:
  assumes s: "scan_spec b i cnt v r" and e: "\<exists>j\<ge>i. run_of b j cnt v"
  shows "i \<le> r \<and> run_of b r cnt v \<and> (\<forall>j. i \<le> j \<and> j < r \<longrightarrow> \<not> run_of b j cnt v)"
  using s unfolding scan_spec_def if_P [OF e] .

lemma scan_spec_miss:
  assumes n: "\<not> (\<exists>j\<ge>i. run_of b j cnt v)"
  shows "scan_spec b i cnt v r \<longleftrightarrow> r = BITMAP_ERROR"
  unfolding scan_spec_def if_not_P [OF n] by (rule refl)

lemma scan_spec_step:
  assumes "\<not> run_of b i cnt v" "scan_spec b (i + 1) cnt v r"
  shows "scan_spec b i cnt v r"
proof -
  have j: "i \<le> j \<and> run_of b j cnt v \<Longrightarrow> i + 1 \<le> j" for j using assms(1) by (cases "i = j") auto
  show ?thesis
  proof (cases "\<exists>j\<ge>i. run_of b j cnt v")
    case True
    with j have "\<exists>j\<ge>i + 1. run_of b j cnt v" by blast
    with scan_spec_hit [OF assms(2)] have r: "i + 1 \<le> r" "run_of b r cnt v"
      "\<forall>j. i + 1 \<le> j \<and> j < r \<longrightarrow> \<not> run_of b j cnt v" by blast+
    with j have "\<forall>j. i \<le> j \<and> j < r \<longrightarrow> \<not> run_of b j cnt v" by blast
    with r True show ?thesis by (simp only: scan_spec_def if_True) simp
  next
    case False
    then have "\<not> (\<exists>j\<ge>i + 1. run_of b j cnt v)" by auto
    with assms(2) False show ?thesis by (simp only: scan_spec_def if_False)
  qed
qed

lemma bitmap_scan_loop_run:
  "bm_wf b \<Longrightarrow> i + n + cnt = bit_cnt b + 1 \<Longrightarrow> \<exists>r. bitmap_scan_loop b i n cnt v = Some r \<and> scan_spec b i cnt v r"
proof (induction n arbitrary: i)
  case 0
  then have "\<not> (\<exists>j\<ge>i. run_of b j cnt v)" by (auto simp: run_of_def)
  then have "scan_spec b i cnt v BITMAP_ERROR" using scan_spec_miss by blast
  then show ?case by simp
next
  case (Suc n)
  have c: "bitmap_contains b i cnt (\<not> v) = Some (\<not> run_of b i cnt v)"
    using Suc.prems by (simp add: bitmap_contains_run run_of_has_bit)
  show ?case
  proof (cases "run_of b i cnt v")
    case True
    then have "\<exists>j\<ge>i. run_of b j cnt v" by blast
    with True have "scan_spec b i cnt v i" by (simp only: scan_spec_def if_True) auto
    then show ?thesis using c True by simp
  next
    case False
    from Suc.IH [of "i + 1"] Suc.prems obtain r where
      "bitmap_scan_loop b (i + 1) n cnt v = Some r" "scan_spec b (i + 1) cnt v r" by auto
    with scan_spec_step [OF False] c False show ?thesis by simp
  qed
qed

lemma bitmap_scan_run:
  assumes "bm_wf b" "start \<le> bit_cnt b"
  shows "\<exists>r. bitmap_scan b start cnt v = Some r \<and> scan_spec b start cnt v r"
proof (cases "start + cnt \<le> bit_cnt b")
  case True
  with bitmap_scan_loop_run [OF assms(1), of start "bit_cnt b - cnt + 1 - start" cnt v] assms show ?thesis
    by (simp add: bitmap_scan_def)
next
  case False
  then have "\<not> (\<exists>j\<ge>start. run_of b j cnt v)" by (auto simp: run_of_def)
  then have "scan_spec b start cnt v BITMAP_ERROR" by (simp only: scan_spec_def if_False)
  moreover have "cnt \<le> bit_cnt b \<Longrightarrow> bit_cnt b - cnt + 1 - start = 0" using False by simp
  then have "bitmap_scan b start cnt v = Some BITMAP_ERROR" using assms by (simp add: bitmap_scan_def)
  ultimately show ?thesis by blast
qed

subsection \<open>Properties\<close>

definition ex_bm :: bitmap where
  "ex_bm = \<lparr>bit_cnt = 6, bits = [0b001011]\<rparr>"

lemma ex_bm_wf: "bm_wf ex_bm"
  by (simp add: bm_wf_def ex_bm_def elem_cnt_def ELEM_BITS_def)

text \<open>\<open>bitmap_scan_and_flip\<close> finds the first group of \<open>cnt\<close> bits at or after \<open>start\<close> that all
  have the value, inverts exactly that group, and returns its first index; when there is none it
  changes nothing and returns \<open>BITMAP_ERROR\<close>.\<close>

theorem bitmap_scan_and_flip_correct:
  assumes "bm_wf b" "start \<le> bit_cnt b"
  shows "\<exists>b' i. bitmap_scan_and_flip b start cnt v = Some (b', i) \<and> bm_wf b' \<and> bit_cnt b' = bit_cnt b
    \<and> (if \<exists>j\<ge>start. run_of b j cnt v
       then start \<le> i \<and> run_of b i cnt v \<and> (\<forall>j. start \<le> j \<and> j < i \<longrightarrow> \<not> run_of b j cnt v)
         \<and> bm_list b' = set_range (bm_list b) i cnt (\<not> v)
       else i = BITMAP_ERROR \<and> b' = b)"
proof -
  from bitmap_scan_run [OF assms] obtain r where
    r: "bitmap_scan b start cnt v = Some r" "scan_spec b start cnt v r" by blast
  show ?thesis
  proof (cases "\<exists>j\<ge>start. run_of b j cnt v")
    case True
    with scan_spec_hit [OF r(2)] have s: "start \<le> r" "run_of b r cnt v"
      "\<forall>j. start \<le> j \<and> j < r \<longrightarrow> \<not> run_of b j cnt v" by blast+
    from s(2) have le: "r + cnt \<le> bit_cnt b" by (simp add: run_of_def)
    with assms(1) have "r \<noteq> BITMAP_ERROR" by (simp add: bm_wf_def BITMAP_ERROR_def)
    moreover obtain b' where b': "bitmap_set_multiple b r cnt (\<not> v) = Some b'" "bm_wf b'" "bit_cnt b' = bit_cnt b"
        "bm_list b' = set_range (bm_list b) r cnt (\<not> v)"
      using bitmap_set_multiple_run [OF assms(1) le, of "\<not> v"] by blast
    ultimately have "bitmap_scan_and_flip b start cnt v = Some (b', r)" using r by (simp add: bitmap_scan_and_flip_def)
    with True s b' show ?thesis by (simp only: if_True) blast
  next
    case False
    with r(2) have "r = BITMAP_ERROR" by (simp only: scan_spec_def if_False)
    then have "bitmap_scan_and_flip b start cnt v = Some (b, BITMAP_ERROR)" using r by (simp add: bitmap_scan_and_flip_def)
    with False assms(1) show ?thesis by (simp only: if_False) blast
  qed
qed

theorem bitmap_scan_and_flip_correct_witness:
  "\<exists>b' i. bitmap_scan_and_flip ex_bm 1 2 False = Some (b', i) \<and> bm_wf b' \<and> bit_cnt b' = bit_cnt ex_bm
    \<and> (if \<exists>j\<ge>1. run_of ex_bm j 2 False
       then 1 \<le> i \<and> run_of ex_bm i 2 False \<and> (\<forall>j. 1 \<le> j \<and> j < i \<longrightarrow> \<not> run_of ex_bm j 2 False)
         \<and> bm_list b' = set_range (bm_list ex_bm) i 2 (\<not> False)
       else i = BITMAP_ERROR \<and> b' = ex_bm)"
  by (rule bitmap_scan_and_flip_correct [OF ex_bm_wf]) (simp add: ex_bm_def)

text \<open>for an empty group \<open>bitmap_scan_and_flip\<close> returns \<open>start\<close> and changes nothing; the comment
  of the function says that it returns 0.\<close>

theorem bitmap_scan_and_flip_zero:
  assumes "bm_wf b" "start \<le> bit_cnt b"
  shows "\<exists>b'. bitmap_scan_and_flip b start 0 v = Some (b', start) \<and> bm_list b' = bm_list b"
proof -
  have g: "run_of b start 0 v" unfolding run_of_def using assms by (auto dest: leD)
  from bitmap_scan_run [OF assms] obtain r where
    r: "bitmap_scan b start 0 v = Some r" "scan_spec b start 0 v r" by blast
  have "\<exists>j\<ge>start. run_of b j 0 v" using g by blast
  with scan_spec_hit [OF r(2)] have "start \<le> r" "\<forall>j. start \<le> j \<and> j < r \<longrightarrow> \<not> run_of b j 0 v"
    by blast+
  with g have "r = start" by (metis le_neq_implies_less order_refl)
  with r have "bitmap_scan b start 0 v = Some start" by simp
  moreover have "start \<noteq> BITMAP_ERROR" using assms by (simp add: bm_wf_def BITMAP_ERROR_def)
  ultimately show ?thesis using bitmap_set_multiple_run [of b start 0 "\<not> v"] assms
    by (auto simp: bitmap_scan_and_flip_def set_range_def)
qed

theorem bitmap_scan_and_flip_zero_witness:
  "\<exists>b'. bitmap_scan_and_flip ex_bm 3 0 True = Some (b', 3) \<and> bm_list b' = bm_list ex_bm"
  by (rule bitmap_scan_and_flip_zero [OF ex_bm_wf]) (simp add: ex_bm_def)

end
