(* ===== verification/CString.thy ===== *)
theory CString
  imports Prelude "HOL-Library.Word"
begin

text \<open>
  The byte and string functions of \<open>pintos/lib/string.c\<close> over a byte-addressed memory. Reading or
  writing a byte that is not there yields \<open>None\<close>, as does a failed assertion. Characters are
  bytes; the functions that take an \<open>int\<close> character convert it, so the model takes the byte.
\<close>

unbundle bit_operations_syntax

type_synonym byte = "8 word"

type_synonym bmem = "byte heap"

definition ldb :: "bmem \<Rightarrow> addr \<Rightarrow> byte option" where
  "ldb m p = m p"

definition stb :: "bmem \<Rightarrow> addr \<Rightarrow> byte \<Rightarrow> bmem option" where
  "stb m p b = (case m p of None \<Rightarrow> None | Some _ \<Rightarrow> Some (m(p \<mapsto> b)))"

definition ASSERTION :: "bool \<Rightarrow> unit option" where
  "ASSERTION b = (if b then Some () else None)"

lemma ASSERTION_simps [simp]: "ASSERTION True = Some ()" "ASSERTION False = None"
  by (simp_all add: ASSERTION_def)

subsection \<open>Blocks of bytes\<close>

primrec copy_up :: "bmem \<Rightarrow> addr \<Rightarrow> addr \<Rightarrow> nat \<Rightarrow> bmem option" where
  "copy_up m dst src 0 = Some m"
| "copy_up m dst src (Suc n) = do {
     b \<leftarrow> ldb m src;
     m \<leftarrow> stb m dst b;
     copy_up m (dst + 1) (src + 1) n
   }"

primrec copy_down :: "bmem \<Rightarrow> addr \<Rightarrow> addr \<Rightarrow> nat \<Rightarrow> bmem option" where
  "copy_down m dst src 0 = Some m"
| "copy_down m dst src (Suc n) = do {
     b \<leftarrow> ldb m (src - 1);
     m \<leftarrow> stb m (dst - 1) b;
     copy_down m (dst - 1) (src - 1) n
   }"

text \<open>The memory and the returned pointer.\<close>

definition memcpy :: "bmem \<Rightarrow> addr \<Rightarrow> addr \<Rightarrow> nat \<Rightarrow> (bmem \<times> addr) option" where
  "memcpy m dst' src' size' = do {
     ASSERTION (dst' \<noteq> NULL \<or> size' = 0);
     ASSERTION (src' \<noteq> NULL \<or> size' = 0);
     m \<leftarrow> copy_up m dst' src' size';
     Some (m, dst')
   }"

text \<open>\<open>memmove\<close> returns its variable \<open>dst\<close>, which the forward loop has moved past the block.\<close>

definition memmove :: "bmem \<Rightarrow> addr \<Rightarrow> addr \<Rightarrow> nat \<Rightarrow> (bmem \<times> addr) option" where
  "memmove m dst' src' size' = do {
     ASSERTION (dst' \<noteq> NULL \<or> size' = 0);
     ASSERTION (src' \<noteq> NULL \<or> size' = 0);
     if dst' < src' then do {
       m \<leftarrow> copy_up m dst' src' size';
       Some (m, dst' + size')
     } else do {
       m \<leftarrow> copy_down m (dst' + size') (src' + size') size';
       Some (m, dst')
     }
   }"

primrec memcmp_loop :: "bmem \<Rightarrow> addr \<Rightarrow> addr \<Rightarrow> nat \<Rightarrow> int option" where
  "memcmp_loop m a b 0 = Some 0"
| "memcmp_loop m a b (Suc n) = do {
     x \<leftarrow> ldb m a;
     y \<leftarrow> ldb m b;
     if x \<noteq> y then Some (if x > y then 1 else - 1)
     else memcmp_loop m (a + 1) (b + 1) n
   }"

definition memcmp :: "bmem \<Rightarrow> addr \<Rightarrow> addr \<Rightarrow> nat \<Rightarrow> int option" where
  "memcmp m a' b' size' = do {
     ASSERTION (a' \<noteq> NULL \<or> size' = 0);
     ASSERTION (b' \<noteq> NULL \<or> size' = 0);
     memcmp_loop m a' b' size'
   }"

primrec memchr_loop :: "bmem \<Rightarrow> addr \<Rightarrow> byte \<Rightarrow> nat \<Rightarrow> addr option" where
  "memchr_loop m block ch 0 = Some NULL"
| "memchr_loop m block ch (Suc n) = do {
     b \<leftarrow> ldb m block;
     if b = ch then Some block else memchr_loop m (block + 1) ch n
   }"

definition memchr :: "bmem \<Rightarrow> addr \<Rightarrow> byte \<Rightarrow> nat \<Rightarrow> addr option" where
  "memchr m block' ch' size' = do {
     ASSERTION (block' \<noteq> NULL \<or> size' = 0);
     memchr_loop m block' ch' size'
   }"

primrec memset_loop :: "bmem \<Rightarrow> addr \<Rightarrow> byte \<Rightarrow> nat \<Rightarrow> bmem option" where
  "memset_loop m dst v 0 = Some m"
| "memset_loop m dst v (Suc n) = do { m \<leftarrow> stb m dst v; memset_loop m (dst + 1) v n }"

definition memset :: "bmem \<Rightarrow> addr \<Rightarrow> byte \<Rightarrow> nat \<Rightarrow> (bmem \<times> addr) option" where
  "memset m dst' v size' = do {
     ASSERTION (dst' \<noteq> NULL \<or> size' = 0);
     m \<leftarrow> memset_loop m dst' v size';
     Some (m, dst')
   }"

subsection \<open>Reading strings\<close>

partial_function (option) strlen_loop :: "bmem \<Rightarrow> addr \<Rightarrow> nat \<Rightarrow> nat option" where
  "strlen_loop m p n = do {
     b \<leftarrow> ldb m p;
     if b \<noteq> 0 then strlen_loop m (p + 1) (n + 1) else Some n
   }"

definition strlen :: "bmem \<Rightarrow> addr \<Rightarrow> nat option" where
  "strlen m string' = do { ASSERTION (string' \<noteq> NULL); strlen_loop m string' 0 }"

text \<open>\<open>strnlen\<close> reads the byte before it compares the length with the limit.\<close>

partial_function (option) strnlen_loop :: "bmem \<Rightarrow> addr \<Rightarrow> nat \<Rightarrow> nat \<Rightarrow> nat option" where
  "strnlen_loop m string' maxlen n = do {
     b \<leftarrow> ldb m (string' + n);
     if b \<noteq> 0 \<and> n < maxlen then strnlen_loop m string' maxlen (n + 1) else Some n
   }"

definition strnlen :: "bmem \<Rightarrow> addr \<Rightarrow> nat \<Rightarrow> nat option" where
  "strnlen m string' maxlen = strnlen_loop m string' maxlen 0"

partial_function (option) strcmp_loop :: "bmem \<Rightarrow> addr \<Rightarrow> addr \<Rightarrow> int option" where
  "strcmp_loop m a b = do {
     x \<leftarrow> ldb m a;
     y \<leftarrow> ldb m b;
     if x \<noteq> 0 \<and> x = y then strcmp_loop m (a + 1) (b + 1)
     else Some (if x < y then - 1 else if x > y then 1 else 0)
   }"

definition strcmp :: "bmem \<Rightarrow> addr \<Rightarrow> addr \<Rightarrow> int option" where
  "strcmp m a' b' = do {
     ASSERTION (a' \<noteq> NULL);
     ASSERTION (b' \<noteq> NULL);
     strcmp_loop m a' b'
   }"

partial_function (option) strchr_loop :: "bmem \<Rightarrow> addr \<Rightarrow> byte \<Rightarrow> addr option" where
  "strchr_loop m string' c = do {
     b \<leftarrow> ldb m string';
     if b = c then Some string'
     else if b = 0 then Some NULL
     else strchr_loop m (string' + 1) c
   }"

definition strchr :: "bmem \<Rightarrow> addr \<Rightarrow> byte \<Rightarrow> addr option" where
  "strchr m string' c' = do { ASSERTION (string' \<noteq> NULL); strchr_loop m string' c' }"

partial_function (option) strrchr_loop :: "bmem \<Rightarrow> addr \<Rightarrow> byte \<Rightarrow> addr \<Rightarrow> addr option" where
  "strrchr_loop m string' c p = do {
     b \<leftarrow> ldb m string';
     if b \<noteq> 0 then strrchr_loop m (string' + 1) c (if b = c then string' else p) else Some p
   }"

definition strrchr :: "bmem \<Rightarrow> addr \<Rightarrow> byte \<Rightarrow> addr option" where
  "strrchr m string' c' = strrchr_loop m string' c' NULL"

partial_function (option) strcspn_loop :: "bmem \<Rightarrow> addr \<Rightarrow> addr \<Rightarrow> nat \<Rightarrow> nat option" where
  "strcspn_loop m string' stop n = do {
     b \<leftarrow> ldb m (string' + n);
     if b \<noteq> 0 then do {
       q \<leftarrow> strchr m stop b;
       if q \<noteq> NULL then Some n else strcspn_loop m string' stop (n + 1)
     } else Some n
   }"

definition strcspn :: "bmem \<Rightarrow> addr \<Rightarrow> addr \<Rightarrow> nat option" where
  "strcspn m string' stop = strcspn_loop m string' stop 0"

partial_function (option) strspn_loop :: "bmem \<Rightarrow> addr \<Rightarrow> addr \<Rightarrow> nat \<Rightarrow> nat option" where
  "strspn_loop m string' skip n = do {
     b \<leftarrow> ldb m (string' + n);
     if b \<noteq> 0 then do {
       q \<leftarrow> strchr m skip b;
       if q = NULL then Some n else strspn_loop m string' skip (n + 1)
     } else Some n
   }"

definition strspn :: "bmem \<Rightarrow> addr \<Rightarrow> addr \<Rightarrow> nat option" where
  "strspn m string' skip = strspn_loop m string' skip 0"

partial_function (option) strpbrk_loop :: "bmem \<Rightarrow> addr \<Rightarrow> addr \<Rightarrow> addr option" where
  "strpbrk_loop m string' stop = do {
     b \<leftarrow> ldb m string';
     if b \<noteq> 0 then do {
       q \<leftarrow> strchr m stop b;
       if q \<noteq> NULL then Some string' else strpbrk_loop m (string' + 1) stop
     } else Some NULL
   }"

definition strpbrk :: "bmem \<Rightarrow> addr \<Rightarrow> addr \<Rightarrow> addr option" where
  "strpbrk m string' stop = strpbrk_loop m string' stop"

text \<open>The loop of \<open>strstr\<close> over the offsets \<open>i\<close>, of which \<open>n\<close> are left.\<close>

primrec strstr_loop :: "bmem \<Rightarrow> addr \<Rightarrow> addr \<Rightarrow> nat \<Rightarrow> nat \<Rightarrow> nat \<Rightarrow> addr option" where
  "strstr_loop m haystack needle needle_len i 0 = Some NULL"
| "strstr_loop m haystack needle needle_len i (Suc n) = do {
     r \<leftarrow> memcmp m (haystack + i) needle needle_len;
     if r = 0 then Some (haystack + i) else strstr_loop m haystack needle needle_len (i + 1) n
   }"

definition strstr :: "bmem \<Rightarrow> addr \<Rightarrow> addr \<Rightarrow> addr option" where
  "strstr m haystack needle = do {
     haystack_len \<leftarrow> strlen m haystack;
     needle_len \<leftarrow> strlen m needle;
     if haystack_len \<ge> needle_len
     then strstr_loop m haystack needle needle_len 0 (haystack_len - needle_len + 1)
     else Some NULL
   }"

subsection \<open>Writing strings\<close>

definition strlcpy :: "bmem \<Rightarrow> addr \<Rightarrow> addr \<Rightarrow> nat \<Rightarrow> (bmem \<times> nat) option" where
  "strlcpy m dst src size' = do {
     ASSERTION (dst \<noteq> NULL);
     ASSERTION (src \<noteq> NULL);
     src_len \<leftarrow> strlen m src;
     if size' > 0 then do {
       let dst_len = (if src_len < size' - 1 then src_len else size' - 1);
       (m, _) \<leftarrow> memcpy m dst src dst_len;
       m \<leftarrow> stb m (dst + dst_len) 0;
       Some (m, src_len)
     } else Some (m, src_len)
   }"

definition strlcat :: "bmem \<Rightarrow> addr \<Rightarrow> addr \<Rightarrow> nat \<Rightarrow> (bmem \<times> nat) option" where
  "strlcat m dst src size' = do {
     ASSERTION (dst \<noteq> NULL);
     ASSERTION (src \<noteq> NULL);
     src_len \<leftarrow> strlen m src;
     dst_len \<leftarrow> strlen m dst;
     if size' > 0 \<and> dst_len < size' then do {
       let copy_cnt = (if src_len < size' - dst_len - 1 then src_len else size' - dst_len - 1);
       (m, _) \<leftarrow> memcpy m (dst + dst_len) src copy_cnt;
       m \<leftarrow> stb m (dst + dst_len + copy_cnt) 0;
       Some (m, src_len + dst_len)
     } else Some (m, src_len + dst_len)
   }"

text \<open>
  The two loops of \<open>strtok_r\<close>. The first yields the position after the delimiters and whether it
  stopped at the end of the string, the second the end of the token.
\<close>

partial_function (option) strtok_skip :: "bmem \<Rightarrow> addr \<Rightarrow> addr \<Rightarrow> (addr \<times> bool) option" where
  "strtok_skip m s delimiters = do {
     b \<leftarrow> ldb m s;
     q \<leftarrow> strchr m delimiters b;
     if q \<noteq> NULL then
       if b = 0 then Some (s, True) else strtok_skip m (s + 1) delimiters
     else Some (s, False)
   }"

partial_function (option) strtok_end :: "bmem \<Rightarrow> addr \<Rightarrow> addr \<Rightarrow> addr option" where
  "strtok_end m s delimiters = do {
     b \<leftarrow> ldb m s;
     q \<leftarrow> strchr m delimiters b;
     if q = NULL then strtok_end m (s + 1) delimiters else Some s
   }"

text \<open>The result: the memory, the new \<open>*save_ptr\<close> and the token.\<close>

definition strtok_r :: "bmem \<Rightarrow> addr \<Rightarrow> addr \<Rightarrow> addr \<Rightarrow> (bmem \<times> addr \<times> addr) option" where
  "strtok_r m s delimiters save = do {
     ASSERTION (delimiters \<noteq> NULL);
     let s = (if s = NULL then save else s);
     ASSERTION (s \<noteq> NULL);
     (s, at_end) \<leftarrow> strtok_skip m s delimiters;
     if at_end then Some (m, s, NULL)
     else do {
       let token = s;
       s \<leftarrow> strtok_end m s delimiters;
       b \<leftarrow> ldb m s;
       if b \<noteq> 0 then do {
         m \<leftarrow> stb m s 0;
         Some (m, s + 1, token)
       } else Some (m, s, token)
     }
   }"

subsection \<open>Blocks: copying\<close>

text \<open>\<open>bytes m p xs\<close>: the bytes from \<open>p\<close> on are \<open>xs\<close>.\<close>

definition bytes :: "bmem \<Rightarrow> addr \<Rightarrow> byte list \<Rightarrow> bool" where
  "bytes m p xs \<longleftrightarrow> (\<forall>i<length xs. m (p + i) = Some (xs ! i))"

definition live :: "bmem \<Rightarrow> addr \<Rightarrow> nat \<Rightarrow> bool" where
  "live m p n \<longleftrightarrow> (\<forall>i<n. m (p + i) \<noteq> None)"

lemma bytes_Nil [simp]: "bytes m p []"
  by (simp add: bytes_def)

lemma bytes_Cons: "bytes m p (x # xs) \<longleftrightarrow> m p = Some x \<and> bytes m (p + 1) xs"
proof
  assume h: "bytes m p (x # xs)"
  have "m p = Some x" using h [unfolded bytes_def, rule_format, of 0] by simp
  moreover have "m (p + 1 + i) = Some (xs ! i)" if "i < length xs" for i
    using h [unfolded bytes_def, rule_format, of "Suc i"] that by simp
  ultimately show "m p = Some x \<and> bytes m (p + 1) xs" by (simp add: bytes_def)
next
  assume h: "m p = Some x \<and> bytes m (p + 1) xs"
  show "bytes m p (x # xs)"
    unfolding bytes_def
  proof (intro allI impI)
    fix i assume "i < length (x # xs)"
    with h show "m (p + i) = Some ((x # xs) ! i)" by (cases i) (auto simp: bytes_def)
  qed
qed

lemma bytes_append: "bytes m p (xs @ ys) \<longleftrightarrow> bytes m p xs \<and> bytes m (p + length xs) ys"
  by (induction xs arbitrary: p) (simp_all add: bytes_Cons)

lemma live_Suc: "live m p (Suc n) \<longleftrightarrow> m p \<noteq> None \<and> live m (p + 1) n"
proof
  assume h: "live m p (Suc n)"
  have "m p \<noteq> None" using h [unfolded live_def, rule_format, of 0] by simp
  moreover have "m (p + 1 + i) \<noteq> None" if "i < n" for i
    using h [unfolded live_def, rule_format, of "Suc i"] that by simp
  ultimately show "m p \<noteq> None \<and> live m (p + 1) n" by (simp add: live_def)
next
  assume h: "m p \<noteq> None \<and> live m (p + 1) n"
  show "live m p (Suc n)"
    unfolding live_def
  proof (intro allI impI)
    fix i assume "i < Suc n"
    with h show "m (p + i) \<noteq> None" by (cases i) (auto simp: live_def)
  qed
qed

lemma bytes_upd: "q < p \<or> p + length xs \<le> q \<Longrightarrow> bytes (m(q := v)) p xs = bytes m p xs"
proof -
  assume q: "q < p \<or> p + length xs \<le> q"
  have "(m(q := v)) (p + i) = m (p + i)" if "i < length xs" for i
    using that q by (metis fun_upd_other le_add1 linorder_not_less nat_add_left_cancel_less)
  then show ?thesis by (simp only: bytes_def cong: imp_cong)
qed

lemma live_upd: "live m p n \<Longrightarrow> live (m(q \<mapsto> v)) p n"
  unfolding live_def by (metis fun_upd_apply option.distinct(1))

lemma live_take: "live m p n \<Longrightarrow> k \<le> n \<Longrightarrow> live m p k"
  by (auto simp: live_def)

text \<open>The memory with \<open>xs\<close> written at \<open>p\<close>.\<close>

definition written :: "bmem \<Rightarrow> addr \<Rightarrow> byte list \<Rightarrow> bmem" where
  "written m p xs = (\<lambda>a. if p \<le> a \<and> a < p + length xs then Some (xs ! (a - p)) else m a)"

lemma written_Nil [simp]: "written m p [] = m"
  by (auto simp: written_def fun_eq_iff)

lemma written_Cons: "written m p (x # xs) = written (m(p \<mapsto> x)) (p + 1) xs"
proof
  fix a
  show "written m p (x # xs) a = written (m(p \<mapsto> x)) (p + 1) xs a"
    by (cases "a = p") (auto simp: written_def nth_Cons')
qed

lemma written_snoc: "written m p (xs @ [x]) = written (m(p + length xs \<mapsto> x)) p xs"
  by (auto simp: written_def fun_eq_iff nth_append)

lemma bytes_written: "bytes (written m p xs) p xs"
  by (simp add: bytes_def written_def)

lemma copy_up_run:
  "bytes m src xs \<Longrightarrow> live m dst (length xs) \<Longrightarrow> dst \<le> src \<or> src + length xs \<le> dst \<Longrightarrow>
   copy_up m dst src (length xs) = Some (written m dst xs)"
proof (induction xs arbitrary: m dst src)
  case (Cons x xs)
  from Cons.prems have l: "ldb m src = Some x" "stb m dst x = Some (m(dst \<mapsto> x))"
    by (auto simp: bytes_Cons live_Suc ldb_def stb_def)
  have "copy_up (m(dst \<mapsto> x)) (dst + 1) (src + 1) (length xs) = Some (written (m(dst \<mapsto> x)) (dst + 1) xs)"
  proof (rule Cons.IH)
    show "bytes (m(dst \<mapsto> x)) (src + 1) xs"
      using Cons.prems bytes_upd [of dst "src + 1" xs m "Some x"] by (auto simp: bytes_Cons)
    show "live (m(dst \<mapsto> x)) (dst + 1) (length xs)"
      using Cons.prems by (simp add: live_Suc live_upd)
  qed (use Cons.prems in auto)
  with l show ?case by (simp add: written_Cons)
qed simp

lemma copy_down_run:
  "bytes m src xs \<Longrightarrow> live m dst (length xs) \<Longrightarrow> src \<le> dst \<or> dst + length xs \<le> src \<Longrightarrow>
   copy_down m (dst + length xs) (src + length xs) (length xs) = Some (written m dst xs)"
proof (induction xs arbitrary: m rule: rev_induct)
  case (snoc x xs)
  let ?n = "length xs"
  from snoc.prems have x: "m (src + ?n) = Some x" "m (dst + ?n) \<noteq> None"
    by (auto simp: bytes_append bytes_Cons live_def)
  then have l: "ldb m (src + ?n) = Some x" "stb m (dst + ?n) x = Some (m(dst + ?n \<mapsto> x))"
    by (auto simp: ldb_def stb_def)
  have "copy_down (m(dst + ?n \<mapsto> x)) (dst + ?n) (src + ?n) ?n = Some (written (m(dst + ?n \<mapsto> x)) dst xs)"
  proof (rule snoc.IH)
    show "bytes (m(dst + ?n \<mapsto> x)) src xs"
      using snoc.prems bytes_upd [of "dst + ?n" src xs m "Some x"] by (auto simp: bytes_append)
    show "live (m(dst + ?n \<mapsto> x)) dst ?n"
      using snoc.prems by (auto intro: live_upd live_take)
  qed (use snoc.prems in auto)
  with l show ?case by (simp add: written_snoc)
qed simp

lemma memcpy_run:
  "bytes m src xs \<Longrightarrow> live m dst (length xs) \<Longrightarrow> dst \<le> src \<or> src + length xs \<le> dst \<Longrightarrow> dst \<noteq> NULL \<Longrightarrow> src \<noteq> NULL \<Longrightarrow>
   memcpy m dst src (length xs) = Some (written m dst xs, dst)"
  by (simp add: memcpy_def copy_up_run)

lemma memmove_run:
  "bytes m src xs \<Longrightarrow> live m dst (length xs) \<Longrightarrow> dst \<noteq> NULL \<Longrightarrow> src \<noteq> NULL \<Longrightarrow>
   memmove m dst src (length xs) = Some (written m dst xs, if dst < src then dst + length xs else dst)"
  by (simp add: memmove_def copy_up_run copy_down_run)

subsection \<open>Strings\<close>

definition cstr :: "bmem \<Rightarrow> addr \<Rightarrow> byte list \<Rightarrow> bool" where
  "cstr m p s \<longleftrightarrow> bytes m p (s @ [0]) \<and> 0 \<notin> set s"

lemma cstr_Nil: "cstr m p [] \<longleftrightarrow> m p = Some 0"
  by (simp add: cstr_def bytes_Cons)

lemma cstr_Cons: "cstr m p (x # s) \<longleftrightarrow> m p = Some x \<and> x \<noteq> 0 \<and> cstr m (p + 1) s"
  by (auto simp: cstr_def bytes_Cons)

lemma cstr_append: "cstr m p (s @ t) \<longleftrightarrow> bytes m p s \<and> 0 \<notin> set s \<and> cstr m (p + length s) t"
  by (auto simp: cstr_def bytes_append)

lemma strlen_loop_run: "cstr m p s \<Longrightarrow> strlen_loop m p n = Some (n + length s)"
proof (induction s arbitrary: p n)
  case Nil
  then show ?case by (subst strlen_loop.simps) (simp add: cstr_Nil ldb_def)
next
  case (Cons x s)
  then show ?case by (subst strlen_loop.simps) (simp add: cstr_Cons ldb_def)
qed

lemma strlen_run: "cstr m p s \<Longrightarrow> p \<noteq> NULL \<Longrightarrow> strlen m p = Some (length s)"
  by (simp add: strlen_def strlen_loop_run)

lemma strchr_loop_run:
  "cstr m p s \<Longrightarrow> strchr_loop m p c = Some (if c = 0 then p + length s else if c \<in> set s
     then p + length (takeWhile (\<lambda>x. x \<noteq> c) s) else NULL)"
proof (induction s arbitrary: p)
  case Nil
  then show ?case by (subst strchr_loop.simps) (simp add: cstr_Nil ldb_def)
next
  case (Cons x s)
  then show ?case by (subst strchr_loop.simps) (auto simp: cstr_Cons ldb_def)
qed

lemma strchr_null:
  "cstr m p s \<Longrightarrow> p \<noteq> NULL \<Longrightarrow> \<exists>q. strchr m p c = Some q \<and> (q = NULL \<longleftrightarrow> c \<noteq> 0 \<and> c \<notin> set s)"
  by (simp add: strchr_def strchr_loop_run)

subsection \<open>Bounded copy\<close>

lemma bytes_take: "bytes m p xs \<Longrightarrow> bytes m p (take n xs)"
  by (simp add: bytes_def)

lemma cstr_written:
  assumes "0 \<notin> set xs" shows "cstr ((written m p xs)(p + length xs \<mapsto> 0)) p xs"
  using assms bytes_written [of m p xs] by (simp add: cstr_def bytes_append bytes_Cons bytes_upd)

lemma strlcpy_run:
  assumes s: "cstr m src s" and d: "live m dst n" "0 < n"
    and disj: "dst + n \<le> src \<or> src + length s < dst" and nn: "dst \<noteq> NULL" "src \<noteq> NULL"
  shows "\<exists>m'. strlcpy m dst src n = Some (m', length s) \<and> cstr m' dst (take (n - 1) s)
    \<and> (\<forall>a. a < dst \<or> dst + n \<le> a \<longrightarrow> m' a = m a)"
proof -
  let ?k = "if length s < n - 1 then length s else n - 1" and ?t = "take (n - 1) s"
  have k: "length ?t = ?k" "?k < n" using d by auto
  let ?m = "(written m dst ?t)(dst + ?k \<mapsto> 0)"
  have "bytes m src ?t" using s by (auto simp: cstr_def bytes_append intro: bytes_take)
  moreover have "live m dst (length ?t)" using d k by (auto intro: live_take)
  moreover have "dst \<le> src \<or> src + length ?t \<le> dst" using disj k by auto
  ultimately have cp: "memcpy m dst src ?k = Some (written m dst ?t, dst)"
    using memcpy_run [of m src ?t dst] nn unfolding k(1) by simp
  have "written m dst ?t (dst + ?k) \<noteq> None" using d k by (auto simp: written_def live_def)
  then have "stb (written m dst ?t) (dst + ?k) 0 = Some ?m" by (auto simp: stb_def)
  then have "strlcpy m dst src n = Some (?m, length s)"
    using cp d nn strlen_run [OF s] by (simp add: strlcpy_def Let_def cong: if_cong)
  moreover have "0 \<notin> set ?t" using s by (auto simp: cstr_def dest: in_set_takeD)
  then have "cstr ?m dst ?t"
    using cstr_written [of ?t m dst] unfolding k(1) by simp
  moreover have "?m a = m a" if "a < dst \<or> dst + n \<le> a" for a
    using that k by (auto simp: written_def)
  ultimately show ?thesis by blast
qed

subsection \<open>Tokens\<close>

lemma strtok_skip_run:
  assumes "cstr m dp ds" "dp \<noteq> NULL"
  shows "cstr m p s \<Longrightarrow> strtok_skip m p dp = Some (p + length (takeWhile (\<lambda>x. x \<in> set ds) s),
     dropWhile (\<lambda>x. x \<in> set ds) s = [])"
proof (induction s arbitrary: p)
  case Nil
  with strchr_null [OF assms, of 0] show ?case
    by (subst strtok_skip.simps) (auto simp: cstr_Nil ldb_def)
next
  case (Cons x s)
  with strchr_null [OF assms, of x] show ?case
    by (subst strtok_skip.simps) (auto simp: cstr_Cons ldb_def)
qed

lemma strtok_end_run:
  assumes "cstr m dp ds" "dp \<noteq> NULL"
  shows "cstr m p s \<Longrightarrow> strtok_end m p dp = Some (p + length (takeWhile (\<lambda>x. x \<notin> set ds) s))"
proof (induction s arbitrary: p)
  case Nil
  with strchr_null [OF assms, of 0] show ?case
    by (subst strtok_end.simps) (auto simp: cstr_Nil ldb_def)
next
  case (Cons x s)
  with strchr_null [OF assms, of x] show ?case
    by (subst strtok_end.simps) (auto simp: cstr_Cons ldb_def)
qed

lemma cstr_upd_outside: "q < p \<or> p + length s < q \<Longrightarrow> cstr (m(q := v)) p s = cstr m p s"
  by (auto simp: cstr_def bytes_upd)

lemma strtok_r_run:
  assumes d: "cstr m dp ds" "dp \<noteq> NULL" and s: "cstr m p (a @ x # tok @ rest)" "p \<noteq> NULL"
    and split: "set a \<subseteq> set ds" "set (x # tok) \<inter> set ds = {}" "rest = [] \<or> hd rest \<in> set ds"
  shows "\<exists>m' save. strtok_r m p dp sv = Some (m', save, p + length a) \<and> cstr m' (p + length a) (x # tok)
    \<and> cstr m' save (tl rest) \<and> (\<forall>q. q \<noteq> p + length (a @ x # tok) \<longrightarrow> m' q = m q)"
proof -
  let ?D = "\<lambda>x. x \<in> set ds" and ?t = "p + length a" and ?e = "p + length (a @ x # tok)"
  have a: "takeWhile ?D (a @ x # tok @ rest) = a" "dropWhile ?D (a @ x # tok @ rest) = x # tok @ rest"
    using split by (auto simp: takeWhile_append dropWhile_append)
  have t: "takeWhile (\<lambda>x. x \<notin> set ds) (x # tok @ rest) = x # tok"
    using split by (cases rest) (auto simp: takeWhile_append disjoint_iff)
  have st: "cstr m ?t (x # tok @ rest)" using s(1) by (simp add: cstr_append)
  have sk: "strtok_skip m p dp = Some (?t, False)"
    using strtok_skip_run [OF d s(1)] unfolding a by simp
  have en: "strtok_end m ?t dp = Some ?e"
    using strtok_end_run [OF d st] unfolding t by simp
  have sr: "bytes m ?t (x # tok)" "0 \<notin> set (x # tok)" "cstr m ?e rest"
    using st cstr_append [of m ?t "x # tok" rest] by (simp_all add: add.assoc)
  show ?thesis
  proof (cases rest)
    case Nil
    with sr have e: "m ?e = Some 0" by (simp add: cstr_Nil)
    then have "strtok_r m p dp sv = Some (m, ?e, ?t)"
      using d s sk en by (simp add: strtok_r_def Let_def ldb_def)
    moreover have "cstr m ?t (x # tok)" using st Nil by simp
    moreover have "cstr m ?e (tl rest)" using sr(3) Nil by simp
    ultimately show ?thesis by blast
  next
    case (Cons r rs)
    let ?m = "m(?e \<mapsto> 0)"
    from sr(3) Cons have e: "m ?e = Some r" "r \<noteq> 0" "cstr m (?e + 1) rs" by (simp_all add: cstr_Cons)
    then have "strtok_r m p dp sv = Some (?m, ?e + 1, ?t)"
      using d s sk en by (simp add: strtok_r_def Let_def ldb_def stb_def)
    moreover have "cstr ?m ?t (x # tok)"
    proof -
      have "bytes ?m ?t (x # tok)" using sr(1) by (simp add: bytes_upd)
      moreover have "?m (?t + length (x # tok)) = Some 0" by simp
      ultimately show ?thesis using sr(2) unfolding cstr_def bytes_append by (simp add: bytes_Cons)
    qed
    moreover have "cstr ?m (?e + 1) (tl rest)"
      using e(3) Cons cstr_upd_outside [of ?e "?e + 1" rs m "Some 0"] by simp
    ultimately show ?thesis by (intro exI [of _ ?m] exI [of _ "?e + 1"]) simp
  qed
qed

subsection \<open>Properties\<close>

definition ex_bmem :: bmem where
  "ex_bmem = [1 \<mapsto> 32, 2 \<mapsto> 97, 3 \<mapsto> 98, 4 \<mapsto> 32, 5 \<mapsto> 99, 6 \<mapsto> 0, 10 \<mapsto> 32, 11 \<mapsto> 0, 20 \<mapsto> 7, 21 \<mapsto> 7, 22 \<mapsto> 7]"

text \<open>Evaluating a bounded statement about a block.\<close>

lemma all_less_Suc: "(\<forall>i<Suc n. P i) \<longleftrightarrow> P n \<and> (\<forall>i<n. P i)"
  by (auto simp: less_Suc_eq)

text \<open>C36: \<open>memmove\<close> writes exactly the source bytes, as they were before the call, at the destination,
  also when the blocks overlap; it returns the destination only when the copy runs downwards, and
  the end of the destination block when it runs upwards.\<close>

theorem memmove_correct:
  assumes "bytes m src xs" "live m dst (length xs)" "dst \<noteq> NULL" "src \<noteq> NULL"
  shows "\<exists>m'. memmove m dst src (length xs) = Some (m', if dst < src then dst + length xs else dst)
    \<and> bytes m' dst xs \<and> (\<forall>a. a < dst \<or> dst + length xs \<le> a \<longrightarrow> m' a = m a)"
  using memmove_run [OF assms] bytes_written [of m dst xs] by (auto simp: written_def)

theorem memmove_correct_witness:
  "\<exists>m'. memmove ex_bmem 1 2 (length [97, 98, 32::byte]) = Some (m', if (1::addr) < 2 then 1 + length [97, 98, 32::byte] else 1)
    \<and> bytes m' 1 [97, 98, 32] \<and> (\<forall>a. a < 1 \<or> 1 + length [97, 98, 32::byte] \<le> a \<longrightarrow> m' a = ex_bmem a)"
  by (rule memmove_correct) (simp_all add: bytes_Cons live_def ex_bmem_def all_less_Suc)

text \<open>\<open>strlcpy\<close> copies at most \<open>size - 1\<close> characters, always terminates the destination, writes
  nothing outside the \<open>size\<close> bytes it was given, and returns the length of the source.\<close>

theorem strlcpy_correct:
  assumes "cstr m src s" "live m dst n" "0 < n" "dst + n \<le> src \<or> src + length s < dst"
    and "dst \<noteq> NULL" "src \<noteq> NULL"
  shows "\<exists>m'. strlcpy m dst src n = Some (m', length s) \<and> cstr m' dst (take (n - 1) s)
    \<and> (\<forall>a. a < dst \<or> dst + n \<le> a \<longrightarrow> m' a = m a)"
  using assms by (rule strlcpy_run)

theorem strlcpy_correct_witness:
  "\<exists>m'. strlcpy ex_bmem 20 2 3 = Some (m', length [97, 98, 32, 99::byte]) \<and> cstr m' 20 (take (3 - 1) [97, 98, 32, 99])
    \<and> (\<forall>a. a < 20 \<or> 20 + 3 \<le> a \<longrightarrow> m' a = ex_bmem a)"
  by (rule strlcpy_correct) (simp_all add: cstr_Cons cstr_Nil live_def ex_bmem_def all_less_Suc numeral_3_eq_3)

text \<open>\<open>strtok_r\<close> skips the leading delimiters, returns the maximal run of other characters as a
  terminated string, and leaves in \<open>*save_ptr\<close> the rest after the delimiter; it writes at most the one
  delimiter that ends the token.\<close>

theorem strtok_r_correct:
  assumes "cstr m dp ds" "dp \<noteq> NULL" "cstr m p (a @ x # tok @ rest)" "p \<noteq> NULL"
    and "set a \<subseteq> set ds" "set (x # tok) \<inter> set ds = {}" "rest = [] \<or> hd rest \<in> set ds"
  shows "\<exists>m' save. strtok_r m p dp sv = Some (m', save, p + length a) \<and> cstr m' (p + length a) (x # tok)
    \<and> cstr m' save (tl rest) \<and> (\<forall>q. q \<noteq> p + length (a @ x # tok) \<longrightarrow> m' q = m q)"
  using assms by (rule strtok_r_run)

theorem strtok_r_correct_witness:
  "\<exists>m' save. strtok_r ex_bmem 1 10 0 = Some (m', save, 1 + length [32::byte]) \<and> cstr m' (1 + length [32::byte]) (97 # [98])
    \<and> cstr m' save (tl [32, 99]) \<and> (\<forall>q. q \<noteq> 1 + length ([32] @ 97 # [98::byte]) \<longrightarrow> m' q = ex_bmem q)"
  by (rule strtok_r_correct [where ds = "[32]" and rest = "[32, 99]"])
     (simp_all add: cstr_Cons cstr_Nil ex_bmem_def)

text \<open>\<open>strnlen\<close> reads one byte more than its limit: when the first \<open>maxlen\<close> bytes are not null, an
  inaccessible byte after them makes the call fail, although the result would not depend on it.\<close>

theorem strnlen_reads_past_limit:
  assumes "bytes m p xs" "0 \<notin> set xs" "m (p + length xs) = None"
  shows "strnlen m p (length xs) = None"
proof -
  have "strnlen_loop m p (length xs) n = None" if "n \<le> length xs" for n
    using that
  proof (induction "length xs - n" arbitrary: n)
    case 0
    with assms(3) show ?case by (subst strnlen_loop.simps) (simp add: ldb_def)
  next
    case (Suc k)
    then have n: "n < length xs" by simp
    with assms have "ldb m (p + n) = Some (xs ! n)" "xs ! n \<noteq> 0"
      using nth_mem [OF n] by (metis bytes_def ldb_def, metis)
    with n Suc show ?case by (subst strnlen_loop.simps) simp
  qed
  then show ?thesis by (simp add: strnlen_def)
qed

theorem strnlen_reads_past_limit_witness: "strnlen ex_bmem 20 (length [7, 7, 7::byte]) = None"
  by (rule strnlen_reads_past_limit) (simp_all add: bytes_Cons ex_bmem_def)

end
