(* ===== verification/Arith64.thy ===== *)
theory Arith64
  imports Prelude "HOL-Library.Word" "HOL-Library.Signed_Division"
begin

text \<open>
  The 64-bit division routines of \<open>pintos/lib/arithmetic.c\<close>, built on an instruction that divides
  64 by 32 bits and traps when the quotient does not fit. All values are machine words; a trap is
  \<open>None\<close>.
\<close>

unbundle bit_operations_syntax

definition divl :: "64 word \<Rightarrow> 32 word \<Rightarrow> 32 word option" where
  "divl n d = (if d = 0 \<or> unat n div unat d \<ge> 2 ^ 32 then None
     else Some (word_of_nat (unat n div unat d)))"

definition nlz :: "32 word \<Rightarrow> nat" where
  "nlz x = (
     let n = 0;
         (n, x) = (if x \<le> 0x0000FFFF then (n + 16, push_bit 16 x) else (n, x));
         (n, x) = (if x \<le> 0x00FFFFFF then (n + 8, push_bit 8 x) else (n, x));
         (n, x) = (if x \<le> 0x0FFFFFFF then (n + 4, push_bit 4 x) else (n, x));
         (n, x) = (if x \<le> 0x3FFFFFFF then (n + 2, push_bit 2 x) else (n, x));
         n = (if x \<le> 0x7FFFFFFF then n + 1 else n)
     in n)"

definition udiv64 :: "64 word \<Rightarrow> 64 word \<Rightarrow> 64 word option" where
  "udiv64 n d =
     (if drop_bit 32 d = 0 then
        let b = push_bit 32 1;
            n1 = ucast (drop_bit 32 n) :: 32 word;
            n0 = ucast n :: 32 word;
            d0 = ucast d :: 32 word
        in if d0 = 0 then None
           else do {
             q \<leftarrow> divl (b * ucast (n1 mod d0) + ucast n0) d0;
             Some (ucast q + b * ucast (n1 div d0))
           }
      else if n < d then Some 0
      else do {
        let d1 = (ucast (drop_bit 32 d) :: 32 word);
        let s = nlz d1;
        q \<leftarrow> divl (drop_bit 1 n) (ucast (drop_bit 32 (push_bit s d)));
        let q = drop_bit (31 - s) (ucast q :: 64 word);
        Some (if n - (q - 1) * d < d then q - 1 else q)
      })"

definition umod64 :: "64 word \<Rightarrow> 64 word \<Rightarrow> 32 word option" where
  "umod64 n d = do { q \<leftarrow> udiv64 n d; Some (ucast (n - d * q)) }"

definition sdiv64 :: "64 word \<Rightarrow> 64 word \<Rightarrow> 64 word option" where
  "sdiv64 n d = (
     let n_abs = (if sint n \<ge> 0 then n else - n);
         d_abs = (if sint d \<ge> 0 then d else - d)
     in do {
       q_abs \<leftarrow> udiv64 n_abs d_abs;
       Some (if (sint n < 0) = (sint d < 0) then q_abs else - q_abs)
     })"

definition smod64 :: "64 word \<Rightarrow> 64 word \<Rightarrow> 32 word option" where
  "smod64 n d = do { q \<leftarrow> sdiv64 n d; Some (ucast (n - d * q)) }"

definition divdi3 :: "64 word \<Rightarrow> 64 word \<Rightarrow> 64 word option" where
  "divdi3 n d = sdiv64 n d"

definition moddi3 :: "64 word \<Rightarrow> 64 word \<Rightarrow> 64 word option" where
  "moddi3 n d = map_option scast (smod64 n d)"

definition udivdi3 :: "64 word \<Rightarrow> 64 word \<Rightarrow> 64 word option" where
  "udivdi3 n d = udiv64 n d"

definition umoddi3 :: "64 word \<Rightarrow> 64 word \<Rightarrow> 64 word option" where
  "umoddi3 n d = map_option ucast (umod64 n d)"

subsection \<open>Leading zeros\<close>

lemma unat32_less: "unat (x :: 32 word) < 2 ^ 32"
proof -
  have "unat x < 2 ^ LENGTH(32)" by (rule unsigned_less)
  then show ?thesis by simp
qed

lemma unat64_less: "unat (x :: 64 word) < 2 ^ 64"
proof -
  have "unat x < 2 ^ LENGTH(64)" by (rule unsigned_less)
  then show ?thesis by simp
qed

lemma unat_drop_bit64: "unat (drop_bit k (x :: 64 word)) = unat x div 2 ^ k"
  by (simp only: unsigned_drop_bit_eq) (simp add: drop_bit_eq_div take_bit_nat_eq_self unat64_less [simplified])

lemma unat_push_bit32:
  "unat (x :: 32 word) * 2 ^ k < 2 ^ 32 \<Longrightarrow> unat (push_bit k x) = unat x * 2 ^ k"
  by (subst unsigned_push_bit_eq) (simp add: take_bit_nat_eq_self push_bit_eq_mult)

lemma unat_push_bit64:
  "unat (x :: 64 word) * 2 ^ k < 2 ^ 64 \<Longrightarrow> unat (push_bit k x) = unat x * 2 ^ k"
  by (subst unsigned_push_bit_eq) (simp add: take_bit_nat_eq_self push_bit_eq_mult)

definition nlz_inv :: "32 word \<Rightarrow> nat \<Rightarrow> nat \<times> 32 word \<Rightarrow> bool" where
  "nlz_inv x k s \<longleftrightarrow> unat (snd s) = unat x * 2 ^ fst s \<and> 2 ^ k \<le> unat (snd s)"

lemma nlz_step:
  assumes i: "nlz_inv x k (n, y)" and m: "unat m = 2 ^ (32 - j) - 1" and j: "j \<le> 32" "k + j = 32 - j"
  shows "nlz_inv x (32 - j) (if y \<le> m then (n + j, push_bit j y) else (n, y))"
proof (cases "y \<le> m")
  case True
  then have "unat y \<le> 2 ^ (32 - j) - 1" using m by (simp add: word_le_nat_alt)
  moreover have "(0::nat) < 2 ^ (32 - j)" by simp
  ultimately have "unat y < 2 ^ (32 - j)" by linarith
  then have "unat y * 2 ^ j < 2 ^ (32 - j) * 2 ^ j" by simp
  also have "\<dots> = (2::nat) ^ 32" using j(1) by (simp flip: power_add)
  finally have p: "unat (push_bit j y) = unat y * 2 ^ j" by (rule unat_push_bit32)
  have "2 ^ (32 - j) = (2::nat) ^ k * 2 ^ j" using j(2) by (simp flip: power_add)
  also have "\<dots> \<le> unat y * 2 ^ j" using i by (simp add: nlz_inv_def)
  finally show ?thesis using True i p by (simp add: nlz_inv_def power_add mult.assoc)
next
  case False
  then have "2 ^ (32 - j) \<le> unat y" using m by (simp add: word_le_nat_alt not_le)
  with False i show ?thesis by (simp add: nlz_inv_def)
qed

lemma nlz_correct:
  assumes "x \<noteq> 0"
  shows "2 ^ 31 \<le> unat x * 2 ^ nlz x" "unat x * 2 ^ nlz x < 2 ^ 32"
proof -
  define s0 where "s0 = (0::nat, x)"
  define s1 where "s1 = (if snd s0 \<le> 0x0000FFFF then (fst s0 + 16, push_bit 16 (snd s0)) else (fst s0, snd s0))"
  define s2 where "s2 = (if snd s1 \<le> 0x00FFFFFF then (fst s1 + 8, push_bit 8 (snd s1)) else (fst s1, snd s1))"
  define s3 where "s3 = (if snd s2 \<le> 0x0FFFFFFF then (fst s2 + 4, push_bit 4 (snd s2)) else (fst s2, snd s2))"
  define s4 where "s4 = (if snd s3 \<le> 0x3FFFFFFF then (fst s3 + 2, push_bit 2 (snd s3)) else (fst s3, snd s3))"
  define s5 where "s5 = (if snd s4 \<le> 0x7FFFFFFF then (fst s4 + 1, push_bit 1 (snd s4)) else (fst s4, snd s4))"
  have "1 \<le> unat x" using assms by (metis One_nat_def Suc_leI unat_gt_0)
  then have "nlz_inv x 0 s0" by (simp add: nlz_inv_def s0_def)
  then have "nlz_inv x 16 s1" unfolding s1_def
    using nlz_step [of x 0 "fst s0" "snd s0" "0x0000FFFF" 16] by simp
  then have "nlz_inv x 24 s2" unfolding s2_def
    using nlz_step [of x 16 "fst s1" "snd s1" "0x00FFFFFF" 8] by simp
  then have "nlz_inv x 28 s3" unfolding s3_def
    using nlz_step [of x 24 "fst s2" "snd s2" "0x0FFFFFFF" 4] by simp
  then have "nlz_inv x 30 s4" unfolding s4_def
    using nlz_step [of x 28 "fst s3" "snd s3" "0x3FFFFFFF" 2] by simp
  then have s5: "nlz_inv x 31 s5" unfolding s5_def
    using nlz_step [of x 30 "fst s4" "snd s4" "0x7FFFFFFF" 1] by simp
  have "fst s5 = nlz x"
    by (simp add: nlz_def s5_def s4_def s3_def s2_def s1_def s0_def Let_def prod.case_eq_if)
  with s5 show "2 ^ 31 \<le> unat x * 2 ^ nlz x" "unat x * 2 ^ nlz x < 2 ^ 32"
    using unat32_less [of "snd s5"] by (simp_all add: nlz_inv_def)
qed

subsection \<open>Unsigned division\<close>

lemma unat_hi_lo: "unat (n :: 64 word) = unat (ucast (drop_bit 32 n) :: 32 word) * 2 ^ 32 + unat (ucast n :: 32 word)"
proof -
  have "unat n div 2 ^ 32 < 2 ^ 32" using unat64_less [of n] by (simp add: less_mult_imp_div_less)
  then have "unat (ucast (drop_bit 32 n) :: 32 word) = unat n div 2 ^ 32"
    by (simp only: unsigned_ucast_eq unat_drop_bit64) (simp add: take_bit_eq_mod)
  moreover have "unat (ucast n :: 32 word) = unat n mod 2 ^ 32" by (simp add: unsigned_ucast_eq take_bit_eq_mod)
  ultimately show ?thesis by simp
qed

text \<open>The quotient of the estimate is at most one too large.\<close>

lemma estimate:
  fixes n d s :: nat
  assumes s: "s \<le> 31" and d: "2 ^ 63 \<le> d * 2 ^ s" "d * 2 ^ s < 2 ^ 64" and n: "n < 2 ^ 64"
  defines "q1 \<equiv> (n div 2) div (d * 2 ^ s div 2 ^ 32)"
  shows "q1 < 2 ^ 32" "n div d \<le> q1 div 2 ^ (31 - s)" "q1 div 2 ^ (31 - s) \<le> n div d + 1"
proof -
  define e where "e = d * 2 ^ s div 2 ^ 32"
  define k where "k = 32 - s"
  have k: "1 \<le> k" "31 - s = k - 1" "s + k = 32" using s by (simp_all add: k_def)
  have e31: "2 ^ 31 \<le> e" using d(1) by (simp add: e_def less_eq_div_iff_mult_less_eq)
  have "n div 2 div e \<le> n div 2 div 2 ^ 31" using e31 by (simp add: div_le_mono2)
  also have "\<dots> < 2 ^ 32" using n by (simp add: less_mult_imp_div_less)
  finally have "n div 2 div e < 2 ^ 32" .
  then show "q1 < 2 ^ 32" by (simp add: q1_def e_def)
  have "e = d * 2 ^ s div (2 ^ s * 2 ^ k)" using k(3) by (simp add: e_def flip: power_add)
  then have e: "e = d div 2 ^ k" by (simp add: div_mult2_eq)
  have q: "q1 div 2 ^ (31 - s) = n div (e * 2 ^ k)"
  proof -
    have "q1 div 2 ^ (31 - s) = n div (2 * (e * 2 ^ (k - 1)))"
      unfolding q1_def k(2) div_mult2_eq e_def ..
    also have "2 * (e * 2 ^ (k - 1)) = e * 2 ^ k" using k(1) by (cases k) simp_all
    finally show ?thesis .
  qed
  have le: "e * 2 ^ k \<le> d" unfolding e by (simp add: div_times_less_eq_dividend)
  have D: "2 ^ 31 * 2 ^ k \<le> e * 2 ^ k" using e31 by simp
  have "0 < e" using e31 by (rule order.strict_trans2 [rotated]) simp
  then have pos: "0 < e * 2 ^ k" by simp
  show "n div d \<le> q1 div 2 ^ (31 - s)" unfolding q using le pos by (simp add: div_le_mono2)
  have gap: "d < e * 2 ^ k + 2 ^ k" unfolding e using dividend_less_div_times [of "2 ^ k" d] by simp
  define c where "c = n div d"
  have "0 < d" using pos le by (rule less_le_trans)
  then have c: "n < (c + 1) * d" using dividend_less_div_times [of d n] by (simp add: c_def algebra_simps)
  have cd: "c * d \<le> n" by (simp add: c_def)
  have "n < (c + 2) * (e * 2 ^ k)"
  proof -
    have r: "d - e * 2 ^ k \<le> 2 ^ k - 1" using gap by simp
    have "(c + 1) * d = (c + 1) * (e * 2 ^ k) + (c + 1) * (d - e * 2 ^ k)"
      using le by (simp flip: add_mult_distrib2)
    moreover have "(c + 1) * (d - e * 2 ^ k) \<le> e * 2 ^ k"
    proof -
      have "c * (2 ^ 31 * 2 ^ k) \<le> c * d" by (rule mult_le_mono2 [OF order.trans [OF D le]])
      also have "\<dots> < 2 ^ 64" using cd n by simp
      finally have "(c * 2 ^ k) * 2 ^ 31 < 2 ^ 33 * 2 ^ 31" by (simp add: ac_simps)
      then have "c * 2 ^ k < 2 ^ 33" by (simp only: mult_less_cancel2)
      also have "(2::nat) ^ 33 = 2 ^ (33 - k) * 2 ^ k" using k by (simp flip: power_add)
      finally have cs: "c + 1 \<le> 2 ^ (33 - k)" by simp
      show ?thesis
      proof (cases "k = 1")
        case True
        have "(c + 1) * (d - e * 2 ^ k) \<le> (c + 1) * 1"
          by (rule mult_le_mono2) (use r True in simp)
        also have "\<dots> \<le> 2 ^ 32" using cs True by simp
        also have "\<dots> \<le> e * 2 ^ k" using D True by simp
        finally show ?thesis .
      next
        case False
        have "(c + 1) * (d - e * 2 ^ k) \<le> 2 ^ (33 - k) * 2 ^ k"
          by (rule mult_le_mono [OF cs order.trans [OF r diff_le_self]])
        also have "\<dots> = 2 ^ 33" using k by (simp flip: power_add)
        also have "\<dots> \<le> 2 ^ 31 * 2 ^ k" using False k(1) power_increasing [of 2 k "2::nat"] by simp
        also have "\<dots> \<le> e * 2 ^ k" by (rule D)
        finally show ?thesis .
      qed
    qed
    ultimately have "(c + 1) * d \<le> (c + 2) * (e * 2 ^ k)" by simp
    with c show ?thesis by simp
  qed
  then have "n div (e * 2 ^ k) < c + 2" by (simp add: less_mult_imp_div_less)
  then show "q1 div 2 ^ (31 - s) \<le> n div d + 1" unfolding q c_def by simp
qed

lemma unat_mult64: "unat x * unat y < 2 ^ 64 \<Longrightarrow> unat (x * y :: 64 word) = unat x * unat y"
  by (simp add: unat_word_ariths)

lemma unat_of_nat64: "k < 2 ^ 64 \<Longrightarrow> unat (word_of_nat k :: 64 word) = k"
  by (simp add: unsigned_of_nat take_bit_nat_eq_self)

lemma unat_of_nat32: "k < 2 ^ 32 \<Longrightarrow> unat (word_of_nat k :: 32 word) = k"
  by (simp add: unsigned_of_nat take_bit_nat_eq_self)

lemma divl_run:
  "d \<noteq> 0 \<Longrightarrow> unat n div unat d < 2 ^ 32 \<Longrightarrow> divl n d = Some (word_of_nat (unat n div unat d))"
  by (simp add: divl_def)

lemma unat_ucast3264 [simp]: "unat (ucast (x :: 32 word) :: 64 word) = unat x"
  by (simp add: unsigned_ucast_eq take_bit_nat_eq_self less_trans [OF unat32_less])

lemma word64_eqI: "unat (x :: 64 word) = unat y \<Longrightarrow> x = y"
  by (simp add: word_unat_eq_iff)

lemma split_mult: "(a :: nat) * X = a div e * X * e + a mod e * X"
proof -
  have "a * X = (a div e * e + a mod e) * X" by simp
  also have "\<dots> = a div e * e * X + a mod e * X" by (rule add_mult_distrib)
  also have "a div e * e * X = a div e * X * e" by (simp only: ac_simps)
  finally show ?thesis .
qed

lemma udiv64_small:
  assumes "drop_bit 32 d = (0 :: 64 word)" "d \<noteq> 0"
  shows "udiv64 n d = Some (n div d)"
proof -
  define b where "b = (push_bit 32 1 :: 64 word)"
  let ?n1 = "ucast (drop_bit 32 n) :: 32 word" and ?n0 = "ucast n :: 32 word" and ?d0 = "ucast d :: 32 word"
  have n: "unat n = unat ?n1 * 2 ^ 32 + unat ?n0" by (rule unat_hi_lo)
  have "unat (ucast (drop_bit 32 d) :: 32 word) = 0" using assms(1) by simp
  with unat_hi_lo [of d] have d: "unat ?d0 = unat d" by simp
  have d0: "0 < unat ?d0" using assms(2) unfolding d by (metis unat_gt_0)
  let ?m = "unat ?n1 mod unat ?d0"
  have m: "?m < unat ?d0" using d0 by simp
  have bx: "unat (b * ucast (x :: 32 word)) = unat x * 2 ^ 32" for x
  proof -
    have "b * ucast x = push_bit 32 (ucast x)" by (simp add: b_def push_bit_eq_mult)
    moreover have "unat x * 2 ^ 32 < 2 ^ 32 * 2 ^ 32" using unat32_less [of x] by simp
    ultimately show ?thesis using unat_push_bit64 [of "ucast x" 32] by simp
  qed
  have sum: "?m * 2 ^ 32 + unat ?n0 < unat ?d0 * 2 ^ 32"
  proof -
    have "?m * 2 ^ 32 + unat ?n0 < ?m * 2 ^ 32 + 2 ^ 32" using unat32_less by simp
    also have "\<dots> = (?m + 1) * 2 ^ 32" by simp
    also have "\<dots> \<le> unat ?d0 * 2 ^ 32" using m by (intro mult_le_mono1) simp
    finally show ?thesis .
  qed
  have "unat ?d0 * 2 ^ 32 < 2 ^ 32 * 2 ^ 32" using unat32_less [of ?d0] by simp
  with sum have "?m * 2 ^ 32 + unat ?n0 < 2 ^ 64" by simp
  then have num: "unat (b * ucast (?n1 mod ?d0) + ucast ?n0) = ?m * 2 ^ 32 + unat ?n0"
    using bx [of "?n1 mod ?d0"] by (simp add: unat_word_ariths unat_mod)
  have q: "(?m * 2 ^ 32 + unat ?n0) div unat ?d0 < 2 ^ 32"
    using sum by (simp add: less_mult_imp_div_less mult.commute)
  then have dv: "divl (b * ucast (?n1 mod ?d0) + ucast ?n0) ?d0
      = Some (word_of_nat ((?m * 2 ^ 32 + unat ?n0) div unat ?d0))"
  proof -
    have "?d0 \<noteq> 0" using d0 by (metis unat_gt_0)
    then show ?thesis using divl_run [of ?d0 "b * ucast (?n1 mod ?d0) + ucast ?n0"] q unfolding num by blast
  qed
  let ?r = "(ucast (word_of_nat ((?m * 2 ^ 32 + unat ?n0) div unat ?d0) :: 32 word) :: 64 word) + b * ucast (?n1 div ?d0)"
  have nn: "unat n = (unat ?n1 div unat ?d0) * 2 ^ 32 * unat ?d0 + (?m * 2 ^ 32 + unat ?n0)"
  proof -
    have "unat ?n1 * 2 ^ 32 = (unat ?n1 div unat ?d0) * 2 ^ 32 * unat ?d0 + ?m * 2 ^ 32" by (rule split_mult)
    then show ?thesis using n by linarith
  qed
  have quo: "unat n div unat d = (unat ?n1 div unat ?d0) * 2 ^ 32 + (?m * 2 ^ 32 + unat ?n0) div unat ?d0"
    unfolding d [symmetric] by (subst nn) (use d0 in simp)
  have "unat n div unat d < 2 ^ 64" using unat64_less [of n] by (meson div_le_dividend le_less_trans)
  then have "unat ?r = unat n div unat d"
    using bx [of "?n1 div ?d0"] unat_of_nat32 [OF q] unfolding quo by (simp add: unat_word_ariths unat_div)
  then have "?r = n div d" by (intro word64_eqI) (simp add: unat_div)
  moreover have "?d0 \<noteq> 0" using d0 by (metis unat_gt_0)
  ultimately show ?thesis unfolding udiv64_def Let_def b_def [symmetric] using assms(1) dv by simp
qed

lemma udiv64_large:
  assumes "drop_bit 32 d \<noteq> (0 :: 64 word)"
  shows "udiv64 n d = Some (n div d)"
proof (cases "n < d")
  case True
  then have "n div d = 0" by (intro word64_eqI) (simp add: unat_div word_less_nat_alt)
  with True assms show ?thesis by (simp add: udiv64_def)
next
  case False
  let ?d1 = "ucast (drop_bit 32 d) :: 32 word"
  let ?s = "nlz ?d1"
  let ?N = "unat n" and ?D = "unat d"
  have dlt: "?D div 2 ^ 32 < 2 ^ 32" using unat64_less [of d] by (simp add: less_mult_imp_div_less)
  have ud: "unat (drop_bit 32 d) = ?D div 2 ^ 32"
    by (rule unat_drop_bit64)
  have d1: "unat ?d1 = ?D div 2 ^ 32"
    using dlt unfolding unsigned_ucast_eq ud by (simp add: take_bit_nat_eq_self)
  have "?d1 \<noteq> 0"
  proof
    assume "?d1 = 0"
    with d1 ud have "unat (drop_bit 32 d) = 0" by simp
    with assms show False by (metis unat_eq_0)
  qed
  note z = nlz_correct [OF this, unfolded d1]
  have s: "?s \<le> 31"
  proof (rule ccontr)
    assume "\<not> ?s \<le> 31"
    then have "(2::nat) ^ 32 \<le> 2 ^ ?s" by (intro power_increasing) simp_all
    moreover have "1 \<le> ?D div 2 ^ 32" using z(1) by (cases "?D div 2 ^ 32 = 0") simp_all
    ultimately have "1 * 2 ^ 32 \<le> ?D div 2 ^ 32 * 2 ^ ?s" by (rule mult_le_mono [rotated])
    with z(2) show False by simp
  qed
  have D: "2 ^ 63 \<le> ?D * 2 ^ ?s" "?D * 2 ^ ?s < 2 ^ 64"
  proof -
    have "2 ^ 31 * 2 ^ 32 \<le> ?D div 2 ^ 32 * 2 ^ ?s * 2 ^ 32" using z(1) by (rule mult_le_mono1)
    also have "\<dots> = (?D div 2 ^ 32 * 2 ^ 32) * 2 ^ ?s" by (simp only: ac_simps)
    also have "\<dots> \<le> ?D * 2 ^ ?s" by (intro mult_le_mono1) (rule div_times_less_eq_dividend)
    finally show "2 ^ 63 \<le> ?D * 2 ^ ?s" by simp
    have k: "2 ^ (32 - ?s) * 2 ^ ?s = (2::nat) ^ 32" using s by (simp flip: power_add)
    have "?D div 2 ^ 32 < 2 ^ (32 - ?s)"
    proof (rule ccontr)
      assume "\<not> ?thesis"
      then have "2 ^ (32 - ?s) * 2 ^ ?s \<le> ?D div 2 ^ 32 * 2 ^ ?s" by (intro mult_le_mono1) simp
      with k z(2) show False by simp
    qed
    then have "?D < 2 ^ (32 - ?s) * 2 ^ 32" by (simp add: div_less_iff_less_mult)
    then have "?D * 2 ^ ?s < 2 ^ (32 - ?s) * 2 ^ 32 * 2 ^ ?s" by simp
    also have "\<dots> = (2 ^ (32 - ?s) * 2 ^ ?s) * 2 ^ 32" by (simp only: ac_simps)
    also have "\<dots> = 2 ^ 64" unfolding k by simp
    finally show "?D * 2 ^ ?s < 2 ^ 64" .
  qed
  let ?e = "?D * 2 ^ ?s div 2 ^ 32" and ?q1 = "?N div 2 div (?D * 2 ^ ?s div 2 ^ 32)"
  note est = estimate [OF s D unat64_less [of n]]
  have ue: "unat (ucast (drop_bit 32 (push_bit ?s d)) :: 32 word) = ?e"
  proof -
    have "?e < 2 ^ 32" using D(2) by (simp add: less_mult_imp_div_less)
    moreover have "unat (drop_bit 32 (push_bit ?s d)) = ?e"
      by (simp only: unat_drop_bit64 unat_push_bit64 [OF D(2)])
    ultimately show ?thesis unfolding unsigned_ucast_eq by (simp add: take_bit_nat_eq_self)
  qed
  have "2 ^ 31 \<le> ?e" using D(1) by (simp add: less_eq_div_iff_mult_less_eq)
  then have e0: "ucast (drop_bit 32 (push_bit ?s d)) \<noteq> (0 :: 32 word)" using ue by auto
  have un: "unat (drop_bit 1 n) = ?N div 2" by (simp add: unat_drop_bit64)
  have dv: "divl (drop_bit 1 n) (ucast (drop_bit 32 (push_bit ?s d))) = Some (word_of_nat ?q1)"
    using divl_run [OF e0, of "drop_bit 1 n"] est(1) unfolding ue un by simp
  let ?q = "drop_bit (31 - ?s) (ucast (word_of_nat ?q1 :: 32 word) :: 64 word)"
  have q: "unat ?q = ?q1 div 2 ^ (31 - ?s)"
    by (simp only: unat_drop_bit64 unat_ucast3264 unat_of_nat32 [OF est(1)])
  let ?c = "?N div ?D"
  have nd: "?D \<le> ?N" "0 < ?D" using False D by (auto simp: word_less_nat_alt not_less intro: gr0I)
  then have c1: "1 \<le> ?c" by (simp add: less_eq_div_iff_mult_less_eq)
  then have q1: "1 \<le> unat ?q" using est(2) q by simp
  have um: "unat (?q - 1) = unat ?q - 1"
    using q1 by (simp add: unat_sub word_le_nat_alt)
  have uqd: "unat ((?q - 1) * d) = (unat ?q - 1) * ?D" "(unat ?q - 1) * ?D \<le> ?N"
  proof -
    have "unat ?q - 1 \<le> ?c" using est(3) unfolding q by linarith
    then have "(unat ?q - 1) * ?D \<le> ?c * ?D" by (rule mult_le_mono1)
    also have "\<dots> \<le> ?N" by (rule div_times_less_eq_dividend)
    finally show le: "(unat ?q - 1) * ?D \<le> ?N" .
    then have "(unat ?q - 1) * ?D < 2 ^ 64" using unat64_less [of n] by linarith
    then show "unat ((?q - 1) * d) = (unat ?q - 1) * ?D" 
      using unat_mult64 [of "?q - 1" d] unfolding um by blast
  qed
  then have ur: "unat (n - (?q - 1) * d) = ?N - (unat ?q - 1) * ?D"
    by (simp add: unat_sub word_le_nat_alt)
  have "(if n - (?q - 1) * d < d then ?q - 1 else ?q) = n div d"
  proof (rule word64_eqI)
    have test: "n - (?q - 1) * d < d \<longleftrightarrow> ?N - (unat ?q - 1) * ?D < ?D"
      using ur by (simp add: word_less_nat_alt)
    show "unat (if n - (?q - 1) * d < d then ?q - 1 else ?q) = unat (n div d)"
    proof (cases "unat ?q = ?c")
      case True
      have "\<not> ?N - (unat ?q - 1) * ?D < ?D"
      proof -
        have "?c * ?D \<le> ?N" by (rule div_times_less_eq_dividend)
        moreover have "?c * ?D = (?c - 1) * ?D + ?D" using c1 by (metis add.commute le_add_diff_inverse2 mult_Suc plus_1_eq_Suc)
        ultimately show ?thesis unfolding True by linarith
      qed
      with test True show ?thesis by (simp add: unat_div)
    next
      case False
      then have c: "unat ?q - 1 = ?c" using est(2,3) q by linarith
      have "?N - ?c * ?D < ?D" using nd(2) by (simp add: minus_div_mult_eq_mod)
      with test c um show ?thesis by (simp add: unat_div)
    qed
  qed
  then show ?thesis
    unfolding udiv64_def Let_def if_not_P [OF assms] if_not_P [OF False] dv Option.bind.simps
    by (cases "n - (?q - 1) * d < d") (simp_all only: if_True if_False simp_thms)
qed

text \<open>Division by any non-zero divisor.\<close>

lemma udiv64_run: "d \<noteq> 0 \<Longrightarrow> udiv64 n d = Some (n div d)"
  using udiv64_small udiv64_large by blast

subsection \<open>Properties\<close>

text \<open>C25: the unsigned division routine, built from the trapping 64-by-32-bit instruction, never traps
  for a non-zero divisor and returns the quotient of all 64-bit operands.\<close>

theorem udivdi3_correct:
  assumes "d \<noteq> 0"
  shows "udivdi3 n d = Some (n div d)"
  using udiv64_run [OF assms] by (simp add: udivdi3_def)

theorem udivdi3_correct_witness: "udivdi3 (2 ^ 63 + 5) (2 ^ 40 + 1) = Some ((2 ^ 63 + 5) div (2 ^ 40 + 1))"
  by (rule udivdi3_correct) simp

text \<open>the remainder routine returns a 32-bit value, so \<open>__umoddi3\<close> yields the remainder
  modulo \<open>2^32\<close>: it is right exactly when the remainder fits in 32 bits.\<close>

theorem umoddi3_truncates:
  assumes "d \<noteq> 0"
  shows "umoddi3 n d = Some (take_bit 32 (n mod d)) \<and> (umoddi3 n d = Some (n mod d) \<longleftrightarrow> unat (n mod d) < 2 ^ 32)"
proof -
  have "n - d * (n div d) = n mod d" by (simp add: minus_mult_div_eq_mod)
  then have "umoddi3 n d = Some (ucast (ucast (n mod d) :: 32 word))"
    using udiv64_run [OF assms] by (simp add: umoddi3_def umod64_def)
  also have "ucast (ucast (n mod d) :: 32 word) = take_bit 32 (n mod d)"
    by (rule word64_eqI) (simp only: unat_ucast3264, simp add: unsigned_ucast_eq unsigned_take_bit_eq)
  finally have u: "umoddi3 n d = Some (take_bit 32 (n mod d))" .
  have "take_bit 32 (n mod d) = n mod d \<longleftrightarrow> unat (n mod d) < 2 ^ 32"
    by (simp add: word_unat_eq_iff unsigned_take_bit_eq take_bit_nat_eq_self_iff)
  with u show ?thesis by simp
qed

theorem umoddi3_truncates_witness:
  "umoddi3 (2 ^ 33) (2 ^ 34) = Some (take_bit 32 (2 ^ 33 mod 2 ^ 34))
    \<and> (umoddi3 (2 ^ 33) (2 ^ 34) = Some (2 ^ 33 mod 2 ^ 34) \<longleftrightarrow> unat (2 ^ 33 mod 2 ^ 34 :: 64 word) < 2 ^ 32)"
  by (rule umoddi3_truncates) simp

end
