(* ===== verification/HashTable.thy ===== *)
theory HashTable
  imports CString "HOL-Library.Multiset"
begin

text \<open>
  The hash table of \<open>pintos/lib/kernel/hash.c\<close>. An element is the address of its \<open>struct hash_elem\<close>;
  a bucket, a \<open>struct list\<close>, is the sequence of the elements linked in it (theory PList proves the
  list operations used here on the links themselves). The hash and comparison functions of the user,
  with their auxiliary data, are the arguments \<open>hf\<close> and \<open>lt\<close>; \<open>mem\<close> says whether \<open>malloc\<close>
  succeeds. An access outside the array of buckets and an unbounded loop yield \<open>None\<close>.
\<close>

record hash =
  elem_cnt :: nat
  bucket_cnt :: nat
  buckets :: "addr list list"

subsection \<open>Buckets\<close>

definition bucket_at :: "hash \<Rightarrow> nat \<Rightarrow> addr list option" where
  "bucket_at h i = (if i < length (buckets h) then Some (buckets h ! i) else None)"

definition find_bucket :: "(addr \<Rightarrow> 64 word) \<Rightarrow> hash \<Rightarrow> addr \<Rightarrow> nat" where
  "find_bucket hf h e = unat (hf e) AND (bucket_cnt h - 1)"

primrec find_elem :: "(addr \<Rightarrow> addr \<Rightarrow> bool) \<Rightarrow> addr list \<Rightarrow> addr \<Rightarrow> addr" where
  "find_elem lt [] e = NULL"
| "find_elem lt (hi # is) e = (if \<not> lt hi e \<and> \<not> lt e hi then hi else find_elem lt is e)"

definition insert_elem :: "hash \<Rightarrow> nat \<Rightarrow> addr \<Rightarrow> hash option" where
  "insert_elem h bucket e = do {
     b \<leftarrow> bucket_at h bucket;
     Some (h\<lparr>elem_cnt := elem_cnt h + 1, buckets := (buckets h)[bucket := e # b]\<rparr>)
   }"

text \<open>\<open>list_remove\<close> unlinks the element from the list it is in, whichever bucket that is.\<close>

definition remove_elem :: "hash \<Rightarrow> addr \<Rightarrow> hash" where
  "remove_elem h e = h\<lparr>elem_cnt := elem_cnt h - 1, buckets := map (remove1 e) (buckets h)\<rparr>"

subsection \<open>Resizing\<close>

definition turn_off_least_1bit :: "nat \<Rightarrow> nat" where
  "turn_off_least_1bit x = x AND (x - 1)"

definition is_power_of_2 :: "nat \<Rightarrow> bool" where
  "is_power_of_2 x \<longleftrightarrow> x \<noteq> 0 \<and> turn_off_least_1bit x = 0"

definition BEST_ELEMS_PER_BUCKET :: nat where
  "BEST_ELEMS_PER_BUCKET = 2"

partial_function (option) reduce_cnt :: "nat \<Rightarrow> nat option" where
  "reduce_cnt n = (if \<not> is_power_of_2 n then reduce_cnt (turn_off_least_1bit n) else Some n)"

text \<open>Moves the elements of one old bucket, then of all of them; \<open>h\<close> has the new buckets.\<close>

primrec move_bucket :: "(addr \<Rightarrow> 64 word) \<Rightarrow> hash \<Rightarrow> addr list \<Rightarrow> hash option" where
  "move_bucket hf h [] = Some h"
| "move_bucket hf h (e # es) = do {
     let new_bucket = find_bucket hf h e;
     b \<leftarrow> bucket_at h new_bucket;
     move_bucket hf (h\<lparr>buckets := (buckets h)[new_bucket := e # b]\<rparr>) es
   }"

primrec move_buckets :: "(addr \<Rightarrow> 64 word) \<Rightarrow> hash \<Rightarrow> addr list list \<Rightarrow> hash option" where
  "move_buckets hf h [] = Some h"
| "move_buckets hf h (b # bs) = do { h \<leftarrow> move_bucket hf h b; move_buckets hf h bs }"

definition rehash :: "(addr \<Rightarrow> 64 word) \<Rightarrow> bool \<Rightarrow> hash \<Rightarrow> hash option" where
  "rehash hf mem h = do {
     let old_buckets = buckets h;
     let old_bucket_cnt = bucket_cnt h;
     let new_bucket_cnt = elem_cnt h div BEST_ELEMS_PER_BUCKET;
     let new_bucket_cnt = (if new_bucket_cnt < 4 then 4 else new_bucket_cnt);
     new_bucket_cnt \<leftarrow> reduce_cnt new_bucket_cnt;
     if new_bucket_cnt = old_bucket_cnt then Some h
     else if \<not> mem then Some h
     else move_buckets hf (h\<lparr>buckets := replicate new_bucket_cnt [], bucket_cnt := new_bucket_cnt\<rparr>)
            (take old_bucket_cnt old_buckets)
   }"

subsection \<open>Life cycle\<close>

text \<open>The destructor is an optional action on the state \<open>s\<close> of the user.\<close>

primrec hash_clear_loop :: "(addr \<Rightarrow> 's \<Rightarrow> 's) option \<Rightarrow> addr list list \<Rightarrow> 's \<Rightarrow> addr list list \<times> 's" where
  "hash_clear_loop destructor [] s = ([], s)"
| "hash_clear_loop destructor (b # bs) s =
     (let s = (case destructor of None \<Rightarrow> s | Some d \<Rightarrow> fold d b s);
          (bs', s) = hash_clear_loop destructor bs s
      in ([] # bs', s))"

definition hash_clear :: "hash \<Rightarrow> (addr \<Rightarrow> 's \<Rightarrow> 's) option \<Rightarrow> 's \<Rightarrow> hash \<times> 's" where
  "hash_clear h destructor s =
     (let (bs, s) = hash_clear_loop destructor (take (bucket_cnt h) (buckets h)) s
      in (h\<lparr>buckets := bs @ drop (bucket_cnt h) (buckets h), elem_cnt := 0\<rparr>, s))"

text \<open>\<open>mem\<close> is the array \<open>malloc\<close> returned, with arbitrary contents, or none.\<close>

definition hash_init :: "addr list list option \<Rightarrow> hash option" where
  "hash_init mem = (case mem of None \<Rightarrow> None
     | Some bs \<Rightarrow>
        Some (fst (hash_clear \<lparr>elem_cnt = 0, bucket_cnt = 4, buckets = bs\<rparr> None ())))"

text \<open>\<open>hash_destroy\<close> ends with the buckets freed: only the user's state is left.\<close>

definition hash_destroy :: "hash \<Rightarrow> (addr \<Rightarrow> 's \<Rightarrow> 's) option \<Rightarrow> 's \<Rightarrow> 's" where
  "hash_destroy h destructor s =
     (if destructor \<noteq> None then snd (hash_clear h destructor s) else s)"

subsection \<open>Search, insertion, deletion\<close>

definition hash_insert ::
    "(addr \<Rightarrow> 64 word) \<Rightarrow> (addr \<Rightarrow> addr \<Rightarrow> bool) \<Rightarrow> bool \<Rightarrow> hash \<Rightarrow> addr \<Rightarrow> (hash \<times> addr) option" where
  "hash_insert hf lt mem h new = do {
     let bucket = find_bucket hf h new;
     b \<leftarrow> bucket_at h bucket;
     let old = find_elem lt b new;
     h \<leftarrow> (if old = NULL then insert_elem h bucket new else Some h);
     h \<leftarrow> rehash hf mem h;
     Some (h, old)
   }"

definition hash_replace ::
    "(addr \<Rightarrow> 64 word) \<Rightarrow> (addr \<Rightarrow> addr \<Rightarrow> bool) \<Rightarrow> bool \<Rightarrow> hash \<Rightarrow> addr \<Rightarrow> (hash \<times> addr) option" where
  "hash_replace hf lt mem h new = do {
     let bucket = find_bucket hf h new;
     b \<leftarrow> bucket_at h bucket;
     let old = find_elem lt b new;
     let h = (if old \<noteq> NULL then remove_elem h old else h);
     h \<leftarrow> insert_elem h bucket new;
     h \<leftarrow> rehash hf mem h;
     Some (h, old)
   }"

definition hash_find ::
    "(addr \<Rightarrow> 64 word) \<Rightarrow> (addr \<Rightarrow> addr \<Rightarrow> bool) \<Rightarrow> hash \<Rightarrow> addr \<Rightarrow> addr option" where
  "hash_find hf lt h e = do { b \<leftarrow> bucket_at h (find_bucket hf h e); Some (find_elem lt b e) }"

definition hash_delete ::
    "(addr \<Rightarrow> 64 word) \<Rightarrow> (addr \<Rightarrow> addr \<Rightarrow> bool) \<Rightarrow> bool \<Rightarrow> hash \<Rightarrow> addr \<Rightarrow> (hash \<times> addr) option" where
  "hash_delete hf lt mem h e = do {
     b \<leftarrow> bucket_at h (find_bucket hf h e);
     let found = find_elem lt b e;
     if found \<noteq> NULL then do {
       h \<leftarrow> rehash hf mem (remove_elem h found);
       Some (h, found)
     } else Some (h, found)
   }"

definition hash_size :: "hash \<Rightarrow> nat" where
  "hash_size h = elem_cnt h"

definition hash_empty :: "hash \<Rightarrow> bool" where
  "hash_empty h \<longleftrightarrow> elem_cnt h = 0"

subsection \<open>Iteration\<close>

primrec hash_apply_loop :: "(addr \<Rightarrow> 's \<Rightarrow> 's) \<Rightarrow> addr list list \<Rightarrow> 's \<Rightarrow> 's" where
  "hash_apply_loop action [] s = s"
| "hash_apply_loop action (b # bs) s = hash_apply_loop action bs (fold action b s)"

definition hash_apply :: "hash \<Rightarrow> (addr \<Rightarrow> 's \<Rightarrow> 's) \<Rightarrow> 's \<Rightarrow> 's" where
  "hash_apply h action s = hash_apply_loop action (take (bucket_cnt h) (buckets h)) s"

text \<open>
  An iterator points at the head of its bucket's list, at an element, at the list's end, or nowhere
  (null) when the table is exhausted.
\<close>

datatype cursor = AtHead | At addr | AtEnd | Nowhere

record hash_iterator =
  bucket :: nat
  elem :: cursor

primrec elem_after :: "addr list \<Rightarrow> addr \<Rightarrow> cursor" where
  "elem_after [] e = AtEnd"
| "elem_after (x # xs) e = (if x = e then (case xs of [] \<Rightarrow> AtEnd | y # _ \<Rightarrow> At y) else elem_after xs e)"

definition cursor_begin :: "addr list \<Rightarrow> cursor" where
  "cursor_begin b = (case b of [] \<Rightarrow> AtEnd | x # _ \<Rightarrow> At x)"

fun cursor_next :: "addr list \<Rightarrow> cursor \<Rightarrow> cursor option" where
  "cursor_next b AtHead = Some (cursor_begin b)"
| "cursor_next b (At e) = Some (elem_after b e)"
| "cursor_next b AtEnd = None"
| "cursor_next b Nowhere = None"

definition hash_first :: "hash_iterator" where
  "hash_first = \<lparr>bucket = 0, elem = AtHead\<rparr>"

function hash_next_loop :: "hash \<Rightarrow> hash_iterator \<Rightarrow> hash_iterator option" where
  "hash_next_loop h i =
     (if elem i = AtEnd then
        if bucket i + 1 \<ge> bucket_cnt h then Some (i\<lparr>bucket := bucket i + 1, elem := Nowhere\<rparr>)
        else do {
          b \<leftarrow> bucket_at h (bucket i + 1);
          hash_next_loop h (i\<lparr>bucket := bucket i + 1, elem := cursor_begin b\<rparr>)
        }
      else Some i)"
  by pat_completeness auto
termination
  by (relation "measure (\<lambda>(h, i). bucket_cnt h - bucket i)") auto

declare hash_next_loop.simps [simp del]

definition hash_next :: "hash \<Rightarrow> hash_iterator \<Rightarrow> hash_iterator option" where
  "hash_next h i = do {
     b \<leftarrow> bucket_at h (bucket i);
     c \<leftarrow> cursor_next b (elem i);
     hash_next_loop h (i\<lparr>elem := c\<rparr>)
   }"

definition hash_cur :: "hash_iterator \<Rightarrow> cursor" where
  "hash_cur i = elem i"

subsection \<open>Hash functions\<close>

definition FNV_64_PRIME :: "64 word" where
  "FNV_64_PRIME = 0x00000100000001B3"

definition FNV_64_BASIS :: "64 word" where
  "FNV_64_BASIS = 0xcbf29ce484222325"

primrec hash_bytes_loop :: "bmem \<Rightarrow> addr \<Rightarrow> nat \<Rightarrow> 64 word \<Rightarrow> 64 word option" where
  "hash_bytes_loop m buf 0 hash = Some hash"
| "hash_bytes_loop m buf (Suc n) hash = do {
     b \<leftarrow> ldb m buf;
     hash_bytes_loop m (buf + 1) n ((hash * FNV_64_PRIME) XOR ucast b)
   }"

definition hash_bytes :: "bmem \<Rightarrow> addr \<Rightarrow> nat \<Rightarrow> 64 word option" where
  "hash_bytes m buf' size' = do {
     ASSERTION (buf' \<noteq> NULL);
     hash_bytes_loop m buf' size' FNV_64_BASIS
   }"

partial_function (option) hash_string_loop :: "bmem \<Rightarrow> addr \<Rightarrow> 64 word \<Rightarrow> 64 word option" where
  "hash_string_loop m s hash = do {
     b \<leftarrow> ldb m s;
     if b \<noteq> 0 then hash_string_loop m (s + 1) ((hash * FNV_64_PRIME) XOR ucast b) else Some hash
   }"

definition hash_string :: "bmem \<Rightarrow> addr \<Rightarrow> 64 word option" where
  "hash_string m s' = do {
     ASSERTION (s' \<noteq> NULL);
     hash_string_loop m s' FNV_64_BASIS
   }"

text \<open>The four bytes of an \<open>int\<close> in memory, the least significant first, at address \<open>p\<close>.\<close>

definition int_bytes :: "addr \<Rightarrow> 32 word \<Rightarrow> bmem" where
  "int_bytes p i = [p \<mapsto> ucast i, p + 1 \<mapsto> ucast (drop_bit 8 i), p + 2 \<mapsto> ucast (drop_bit 16 i),
     p + 3 \<mapsto> ucast (drop_bit 24 i)]"

definition hash_int :: "addr \<Rightarrow> 32 word \<Rightarrow> 64 word option" where
  "hash_int p i = hash_bytes (int_bytes p i) p 4"

subsection \<open>Powers of two\<close>

lemma turn_off_double: "turn_off_least_1bit (2 * y) = 2 * turn_off_least_1bit y"
proof (cases "y = 0")
  case False
  then have y: "2 * y - 1 = 2 * (y - 1) + 1" by simp
  have "(2 * y) AND (2 * (y - 1) + 1) = 2 * (y AND (y - 1))"
    by (subst and_rec) simp
  with y show ?thesis by (simp add: turn_off_least_1bit_def)
qed (simp add: turn_off_least_1bit_def)

lemma turn_off_odd: "turn_off_least_1bit (2 * m + 1) = 2 * m"
proof -
  have "(2 * m + 1) AND (2 * m) = 2 * m" by (subst and_rec) simp
  then show ?thesis by (simp add: turn_off_least_1bit_def)
qed

text \<open>Turning off the lowest bit keeps the number above the largest power of two below it.\<close>

lemma turn_off_bounds:
  "0 < x \<Longrightarrow> \<exists>k. 2 ^ k \<le> x \<and> x < 2 ^ (k + 1) \<and>
     (if turn_off_least_1bit x = 0 then x = 2 ^ k
      else 2 ^ k \<le> turn_off_least_1bit x \<and> turn_off_least_1bit x < x)"
proof (induction x rule: less_induct)
  case (less x)
  show ?case
  proof (cases "even x")
    case True
    then obtain y where x: "x = 2 * y" by blast
    with less.prems have y: "y < x" "0 < y" by auto
    from less.IH [OF y] obtain k where k: "2 ^ k \<le> y" "y < 2 ^ (k + 1)"
      "if turn_off_least_1bit y = 0 then y = 2 ^ k
       else 2 ^ k \<le> turn_off_least_1bit y \<and> turn_off_least_1bit y < y" by blast
    have t: "turn_off_least_1bit x = 2 * turn_off_least_1bit y" by (simp only: x turn_off_double)
    have "2 * turn_off_least_1bit y = 0 \<longleftrightarrow> turn_off_least_1bit y = 0" by simp
    then show ?thesis unfolding t unfolding x
      using k by (intro exI [of _ "k + 1"]) (cases "turn_off_least_1bit y = 0"; simp)
  next
    case False
    then obtain m where x: "x = 2 * m + 1" by (blast elim: oddE)
    have t: "turn_off_least_1bit x = 2 * m" unfolding x by (rule turn_off_odd)
    show ?thesis
    proof (cases "m = 0")
      case True
      then show ?thesis by (intro exI [of _ 0]) (simp add: t, simp add: x)
    next
      case False
      then have "m < x" "0 < m" by (auto simp: x)
      from less.IH [OF this] obtain k where k: "2 ^ k \<le> m" "m < 2 ^ (k + 1)" by blast
      then show ?thesis using False unfolding t unfolding x by (intro exI [of _ "k + 1"]) simp
    qed
  qed
qed

lemma is_power_of_2_correct: "is_power_of_2 x \<longleftrightarrow> (\<exists>k. x = 2 ^ k)"
proof
  assume "is_power_of_2 x"
  then show "\<exists>k. x = 2 ^ k" using turn_off_bounds [of x] by (auto simp: is_power_of_2_def)
next
  assume "\<exists>k. x = 2 ^ k"
  then obtain k where x: "x = 2 ^ k" by blast
  have "turn_off_least_1bit (2 ^ k) = 0"
    by (induction k) (simp add: turn_off_least_1bit_def, simp add: turn_off_double)
  then show "is_power_of_2 x" by (simp add: is_power_of_2_def x)
qed

text \<open>The loop of \<open>rehash\<close> ends, with the largest power of two that is not larger.\<close>

lemma reduce_cnt_run: "0 < n \<Longrightarrow> \<exists>k. reduce_cnt n = Some (2 ^ k) \<and> 2 ^ k \<le> n \<and> n < 2 ^ (k + 1)"
proof (induction n rule: less_induct)
  case (less n)
  from turn_off_bounds [OF less.prems] obtain k where k: "2 ^ k \<le> n" "n < 2 ^ (k + 1)"
    "if turn_off_least_1bit n = 0 then n = 2 ^ k
     else 2 ^ k \<le> turn_off_least_1bit n \<and> turn_off_least_1bit n < n" by blast
  show ?case
  proof (cases "turn_off_least_1bit n = 0")
    case True
    with k less.prems have "is_power_of_2 n" "n = 2 ^ k" by (auto simp: is_power_of_2_def)
    then show ?thesis using k by (intro exI [of _ k]) (simp add: reduce_cnt.simps)
  next
    case False
    let ?m = "turn_off_least_1bit n"
    have m: "?m < n" "0 < ?m" "2 ^ k \<le> ?m" using False k by auto
    from less.IH [OF m(1,2)] obtain j where j: "reduce_cnt ?m = Some (2 ^ j)" "2 ^ j \<le> ?m" "?m < 2 ^ (j + 1)"
      by blast
    have "(2::nat) ^ k < 2 ^ (j + 1)" using m(3) j(3) by (rule le_less_trans)
    then have "k \<le> j" by (simp only: power_strict_increasing_iff)
    moreover have "(2::nat) ^ j < 2 ^ (k + 1)" using j(2) m(1) k(2) by linarith
    then have "j \<le> k" by (simp only: power_strict_increasing_iff)
    ultimately have "j = k" by simp
    moreover have "reduce_cnt n = reduce_cnt ?m"
      using False by (simp add: reduce_cnt.simps [of n] is_power_of_2_def)
    ultimately show ?thesis using j k by (intro exI [of _ k]) simp
  qed
qed

subsection \<open>The table\<close>

definition same :: "(addr \<Rightarrow> addr \<Rightarrow> bool) \<Rightarrow> addr \<Rightarrow> addr \<Rightarrow> bool" where
  "same lt a b \<longleftrightarrow> \<not> lt a b \<and> \<not> lt b a"

definition elems :: "hash \<Rightarrow> addr set" where
  "elems h = set (concat (buckets h))"

definition placed :: "(addr \<Rightarrow> 64 word) \<Rightarrow> hash \<Rightarrow> bool" where
  "placed hf h \<longleftrightarrow> (\<exists>k. bucket_cnt h = 2 ^ k) \<and> length (buckets h) = bucket_cnt h \<and>
     (\<forall>i < bucket_cnt h. \<forall>e \<in> set (buckets h ! i). find_bucket hf h e = i)"

definition table :: "(addr \<Rightarrow> 64 word) \<Rightarrow> (addr \<Rightarrow> addr \<Rightarrow> bool) \<Rightarrow> hash \<Rightarrow> bool" where
  "table hf lt h \<longleftrightarrow> placed hf h \<and> distinct (concat (buckets h)) \<and> NULL \<notin> elems h \<and>
     elem_cnt h = length (concat (buckets h)) \<and>
     (\<forall>a \<in> elems h. \<forall>b \<in> elems h. same lt a b \<longrightarrow> a = b)"

lemma mset_concat_update:
  "i < length bs \<Longrightarrow> mset (concat (bs[i := e # bs ! i])) = add_mset e (mset (concat bs))"
  by (induction bs arbitrary: i) (auto split: nat.splits)

lemma mset_concat_remove1:
  "distinct (concat bs) \<Longrightarrow> mset (concat (map (remove1 e) bs)) = mset (concat bs) - {#e#}"
proof (induction bs)
  case (Cons b bs)
  show ?case
  proof (cases "e \<in> set b")
    case True
    with Cons.prems have "e \<notin> set (concat bs)" by auto
    then have "map (remove1 e) bs = bs" by (intro map_idI remove1_idem) auto
    then show ?thesis using True by simp
  next
    case False
    then have b: "remove1 e b = b" by (rule remove1_idem)
    have IH: "mset (concat (map (remove1 e) bs)) = mset (concat bs) - {#e#}" using Cons by simp
    show ?thesis unfolding list.map concat.simps mset_append b IH
      using False by (cases "e \<in># mset (concat bs)")
        (simp_all only: diff_union_single_conv, simp_all add: diff_single_trivial)
  qed
qed simp

lemma find_bucket_less: "bucket_cnt h = 2 ^ k \<Longrightarrow> find_bucket hf h e < bucket_cnt h"
proof -
  assume k: "bucket_cnt h = 2 ^ k"
  have "find_bucket hf h e = take_bit k (unat (hf e))"
    unfolding find_bucket_def k take_bit_eq_mask mask_eq_exp_minus_1 ..
  then show ?thesis by (simp add: k)
qed

lemma placed_bucket:
  "placed hf h \<Longrightarrow> bucket_at h (find_bucket hf h e) = Some (buckets h ! find_bucket hf h e)"
  using find_bucket_less by (auto simp: placed_def bucket_at_def)

lemma placed_less: "placed hf h \<Longrightarrow> find_bucket hf h e < length (buckets h)"
  using find_bucket_less by (auto simp: placed_def)

lemma find_bucket_cnt: "bucket_cnt h' = bucket_cnt h \<Longrightarrow> find_bucket hf h' e = find_bucket hf h e"
  by (simp add: find_bucket_def)

lemma find_bucket_update [simp]:
  "find_bucket hf (h\<lparr>buckets := bs\<rparr>) e = find_bucket hf h e"
  "find_bucket hf (h\<lparr>elem_cnt := n\<rparr>) e = find_bucket hf h e"
  by (simp_all add: find_bucket_def)

lemma placed_push:
  assumes "placed hf h" and "b = find_bucket hf h e"
  shows "placed hf (h\<lparr>buckets := (buckets h)[b := e # buckets h ! b], elem_cnt := n\<rparr>)"
  unfolding placed_def
proof (intro conjI allI impI ballI)
  fix i x
  assume i: "i < bucket_cnt (h\<lparr>buckets := (buckets h)[b := e # buckets h ! b], elem_cnt := n\<rparr>)"
    and x: "x \<in> set (buckets (h\<lparr>buckets := (buckets h)[b := e # buckets h ! b], elem_cnt := n\<rparr>) ! i)"
  show "find_bucket hf (h\<lparr>buckets := (buckets h)[b := e # buckets h ! b], elem_cnt := n\<rparr>) x = i"
    using assms i x by (cases "i = b") (auto simp: placed_def)
qed (use assms in \<open>simp_all add: placed_def\<close>)

lemma move_bucket_run:
  assumes "placed hf h"
  shows "\<exists>h'. move_bucket hf h es = Some h' \<and> placed hf h' \<and> elem_cnt h' = elem_cnt h \<and>
    mset (concat (buckets h')) = mset es + mset (concat (buckets h))"
  using assms
proof (induction es arbitrary: h)
  case (Cons e es)
  let ?b = "find_bucket hf h e"
  let ?h = "h\<lparr>buckets := (buckets h)[?b := e # buckets h ! ?b]\<rparr>"
  have "placed hf ?h" using placed_push [OF Cons.prems refl, where n = "elem_cnt h" and e = e] by simp
  from Cons.IH [OF this] obtain h' where h': "move_bucket hf ?h es = Some h'" "placed hf h'"
    "elem_cnt h' = elem_cnt h" "mset (concat (buckets h')) = mset es + mset (concat (buckets ?h))" by auto
  have "mset (concat (buckets ?h)) = add_mset e (mset (concat (buckets h)))"
    using mset_concat_update [OF placed_less [OF Cons.prems, of e]] by simp
  with h' have "mset (concat (buckets h')) = mset (e # es) + mset (concat (buckets h))" by simp
  with h' show ?case by (intro exI [of _ h']) (simp add: placed_bucket [OF Cons.prems] Let_def)
qed simp

lemma move_buckets_run:
  assumes "placed hf h"
  shows "\<exists>h'. move_buckets hf h bs = Some h' \<and> placed hf h' \<and> elem_cnt h' = elem_cnt h \<and>
    mset (concat (buckets h')) = mset (concat bs) + mset (concat (buckets h))"
  using assms
proof (induction bs arbitrary: h)
  case (Cons b bs)
  from move_bucket_run [OF Cons.prems] obtain h1 where h1: "move_bucket hf h b = Some h1" "placed hf h1"
    "elem_cnt h1 = elem_cnt h" "mset (concat (buckets h1)) = mset b + mset (concat (buckets h))" by blast
  from Cons.IH [OF h1(2)] obtain h' where h': "move_buckets hf h1 bs = Some h'" "placed hf h'"
    "elem_cnt h' = elem_cnt h1" "mset (concat (buckets h')) = mset (concat bs) + mset (concat (buckets h1))"
    by blast
  show ?case using h1 h' by (intro exI [of _ h']) simp
qed simp

lemma concat_replicate_Nil [simp]: "concat (replicate n []) = []"
  by (induction n) simp_all

lemma rehash_run:
  assumes p: "placed hf h"
  shows "\<exists>h'. rehash hf mem h = Some h' \<and> placed hf h' \<and> elem_cnt h' = elem_cnt h \<and>
    mset (concat (buckets h')) = mset (concat (buckets h))"
proof -
  let ?n = "if elem_cnt h div BEST_ELEMS_PER_BUCKET < 4 then 4 else elem_cnt h div BEST_ELEMS_PER_BUCKET"
  have "0 < ?n" by simp
  then obtain k where k: "reduce_cnt ?n = Some (2 ^ k)" using reduce_cnt_run by blast
  let ?h = "h\<lparr>buckets := replicate (2 ^ k) [], bucket_cnt := 2 ^ k\<rparr>"
  have "placed hf ?h" by (auto simp: placed_def)
  from move_buckets_run [OF this] obtain h' where h': "move_buckets hf ?h (buckets h) = Some h'"
    "placed hf h'" "elem_cnt h' = elem_cnt h" "mset (concat (buckets h')) = mset (concat (buckets h))"
    by fastforce
  have tk: "take (bucket_cnt h) (buckets h) = buckets h" using p by (simp add: placed_def)
  consider "2 ^ k = bucket_cnt h \<or> \<not> mem" | "2 ^ k \<noteq> bucket_cnt h" "mem" by blast
  then show ?thesis
  proof cases
    case 1
    then have "rehash hf mem h = Some h" by (auto simp: rehash_def Let_def k simp del: if_split)
    with p show ?thesis by blast
  next
    case 2
    then have "rehash hf mem h = Some h'"
      unfolding rehash_def Let_def k tk Option.bind.simps using h'(1) by simp
    with h' show ?thesis by blast
  qed
qed

text \<open>What resizing keeps is all that the invariant asks for.\<close>

lemma table_mset:
  assumes "table hf lt h" and "placed hf h'" and "elem_cnt h' = elem_cnt h"
    and "mset (concat (buckets h')) = mset (concat (buckets h))"
  shows "table hf lt h' \<and> elems h' = elems h"
proof -
  have "elems h' = elems h" unfolding elems_def by (rule mset_eq_setD [OF assms(4)])
  moreover have "distinct (concat (buckets h')) = distinct (concat (buckets h))"
    by (rule mset_eq_imp_distinct_iff [OF assms(4)])
  moreover have "length (concat (buckets h')) = length (concat (buckets h))"
    by (rule mset_eq_length [OF assms(4)])
  ultimately show ?thesis using assms(1-3) by (simp add: table_def)
qed

lemma rehash_table:
  assumes "table hf lt h"
  shows "\<exists>h'. rehash hf mem h = Some h' \<and> table hf lt h' \<and> elems h' = elems h"
proof -
  have "placed hf h" using assms by (simp add: table_def)
  from rehash_run [OF this, of mem] show ?thesis using table_mset [OF assms] by metis
qed

lemma table_cnt: "table hf lt h \<Longrightarrow> elem_cnt h = card (elems h)"
  unfolding table_def elems_def by (metis distinct_card)

lemma table_finite: "finite (elems h)"
  by (simp add: elems_def)

subsection \<open>Searching\<close>

lemma find_elem_set: "find_elem lt b e \<noteq> NULL \<Longrightarrow> find_elem lt b e \<in> set b \<and> same lt (find_elem lt b e) e"
  by (induction b) (auto simp: same_def split: if_splits)

lemma find_elem_miss: "NULL \<notin> set b \<Longrightarrow> find_elem lt b e = NULL \<longleftrightarrow> (\<forall>x \<in> set b. \<not> same lt x e)"
  by (induction b) (auto simp: same_def)

lemma placed_elems:
  "placed hf h \<Longrightarrow> x \<in> elems h \<longleftrightarrow> x \<in> set (buckets h ! find_bucket hf h x)"
proof
  assume p: "placed hf h" and "x \<in> elems h"
  then obtain i where i: "i < length (buckets h)" "x \<in> set (buckets h ! i)"
    unfolding elems_def by (metis UN_E in_set_conv_nth set_concat)
  then have "find_bucket hf h x = i" using p by (simp add: placed_def)
  with i show "x \<in> set (buckets h ! find_bucket hf h x)" by simp
next
  assume "placed hf h" and "x \<in> set (buckets h ! find_bucket hf h x)"
  then show "x \<in> elems h" using placed_less [of hf h x] nth_mem by (fastforce simp: elems_def)
qed

lemma placed_bucket_sub: "placed hf h \<Longrightarrow> set (buckets h ! find_bucket hf h e) \<subseteq> elems h"
  using placed_less [of hf h e] nth_mem by (fastforce simp: elems_def)

text \<open>What the hash function and the comparison owe the table: equal elements have equal hashes.\<close>

locale hash_user =
  fixes hf :: "addr \<Rightarrow> 64 word" and lt :: "addr \<Rightarrow> addr \<Rightarrow> bool"
  assumes same_refl: "same lt a a"
    and same_trans: "same lt a b \<Longrightarrow> same lt b c \<Longrightarrow> same lt a c"
    and same_hash: "same lt a b \<Longrightarrow> hf a = hf b"
begin

lemma same_sym: "same lt a b \<Longrightarrow> same lt b a"
  by (auto simp: same_def)

lemma same_bucket: "same lt a b \<Longrightarrow> find_bucket hf h a = find_bucket hf h b"
  by (simp add: find_bucket_def same_hash)

text \<open>The search in one bucket finds the element equal to \<open>e\<close>, if the table has one.\<close>

lemma find_in_table:
  fixes e :: addr
  assumes t: "table hf lt h"
  defines "old \<equiv> find_elem lt (buckets h ! find_bucket hf h e) e"
  shows "if old = NULL then \<forall>x \<in> elems h. \<not> same lt x e else old \<in> elems h \<and> same lt old e"
proof (cases "old = NULL")
  case True
  have p: "placed hf h" and n: "NULL \<notin> elems h" using t by (auto simp: table_def)
  then have "NULL \<notin> set (buckets h ! find_bucket hf h e)" using placed_bucket_sub by blast
  then have m: "\<forall>x \<in> set (buckets h ! find_bucket hf h e). \<not> same lt x e"
    using True find_elem_miss unfolding old_def by blast
  have "\<not> same lt x e" if "x \<in> elems h" for x
  proof
    assume s: "same lt x e"
    have "x \<in> set (buckets h ! find_bucket hf h x)" using placed_elems [OF p] that by blast
    with m s same_bucket [OF s] show False by simp
  qed
  with True show ?thesis by simp
next
  case False
  then show ?thesis using find_elem_set [of lt "buckets h ! find_bucket hf h e" e] t
      placed_bucket_sub [of hf h e] unfolding old_def table_def by auto
qed

lemma hash_find_run:
  assumes "table hf lt h"
  shows "\<exists>x. hash_find hf lt h e = Some x \<and>
    (if x = NULL then \<forall>y \<in> elems h. \<not> same lt y e else x \<in> elems h \<and> same lt x e)"
proof -
  have "placed hf h" using assms by (simp add: table_def)
  then show ?thesis using find_in_table [OF assms, of e] by (simp add: hash_find_def placed_bucket)
qed

lemma insert_elem_table:
  assumes t: "table hf lt h" and e: "e \<noteq> NULL" "\<forall>x \<in> elems h. \<not> same lt x e"
  shows "\<exists>h'. insert_elem h (find_bucket hf h e) e = Some h' \<and> table hf lt h' \<and> elems h' = insert e (elems h)"
proof -
  let ?b = "find_bucket hf h e"
  let ?h = "h\<lparr>elem_cnt := elem_cnt h + 1, buckets := (buckets h)[?b := e # buckets h ! ?b]\<rparr>"
  have p: "placed hf h" using t by (simp add: table_def)
  have "?h = h\<lparr>buckets := (buckets h)[?b := e # buckets h ! ?b], elem_cnt := elem_cnt h + 1\<rparr>" by simp
  then have pl: "placed hf ?h" using placed_push [OF p refl] by metis
  have "e \<notin> elems h" using e(2) same_refl by blast
  have ms: "mset (concat (buckets ?h)) = add_mset e (mset (concat (buckets h)))"
    using mset_concat_update [OF placed_less [OF p, of e]] by simp
  then have ms': "mset (concat (buckets ?h)) = mset (e # concat (buckets h))" by simp
  have el: "elems ?h = insert e (elems h)"
    using mset_eq_setD [OF ms'] by (simp add: elems_def)
  have "distinct (concat (buckets ?h))"
    using mset_eq_imp_distinct_iff [OF ms'] t \<open>e \<notin> elems h\<close> by (simp add: table_def elems_def)
  moreover have "elem_cnt ?h = length (concat (buckets ?h))"
    using mset_eq_length [OF ms'] t by (simp add: table_def)
  moreover have "placed hf ?h" using pl .
  moreover have "\<forall>a \<in> elems ?h. \<forall>b \<in> elems ?h. same lt a b \<longrightarrow> a = b"
    using t e(2) same_sym unfolding el by (auto simp: table_def)
  ultimately have "table hf lt ?h" using t e(1) el by (auto simp: table_def)
  with el show ?thesis by (simp add: insert_elem_def placed_bucket [OF p])
qed

lemma remove_elem_table:
  assumes t: "table hf lt h" and e: "e \<in> elems h"
  shows "table hf lt (remove_elem h e) \<and> elems (remove_elem h e) = elems h - {e}"
proof -
  let ?h = "remove_elem h e"
  have p: "placed hf h" and d: "distinct (concat (buckets h))" using t by (auto simp: table_def)
  have ms: "mset (concat (buckets ?h)) = mset (concat (buckets h)) - {#e#}"
    using mset_concat_remove1 [OF d] by (simp add: remove_elem_def)
  then have ms': "mset (concat (buckets ?h)) = mset (remove1 e (concat (buckets h)))" by simp
  have el: "elems ?h = elems h - {e}"
    using mset_eq_setD [OF ms'] d by (simp add: elems_def)
  have "distinct (concat (buckets ?h))"
    using mset_eq_imp_distinct_iff [OF ms'] d by simp
  moreover have "elem_cnt ?h = length (concat (buckets ?h))"
    using mset_eq_length [OF ms'] t e by (simp add: table_def elems_def remove_elem_def length_remove1)
  moreover have "placed hf ?h"
  proof -
    have "\<forall>i < bucket_cnt h. \<forall>x \<in> set (remove1 e (buckets h ! i)). find_bucket hf h x = i"
      using p notin_set_remove1 by (fastforce simp: placed_def)
    then show ?thesis using p by (auto simp: placed_def remove_elem_def)
  qed
  ultimately show ?thesis using t el by (auto simp: table_def)
qed

lemma hash_insert_run:
  assumes t: "table hf lt h" and e: "e \<noteq> NULL"
  shows "\<exists>h' old. hash_insert hf lt mem h e = Some (h', old) \<and> table hf lt h' \<and>
    (if old = NULL then (\<forall>x \<in> elems h. \<not> same lt x e) \<and> elems h' = insert e (elems h)
     else old \<in> elems h \<and> same lt old e \<and> elems h' = elems h)"
proof -
  have p: "placed hf h" using t by (simp add: table_def)
  let ?old = "find_elem lt (buckets h ! find_bucket hf h e) e"
  note f = find_in_table [OF t, of e]
  show ?thesis
  proof (cases "?old = NULL")
    case True
    with f have n: "\<forall>x \<in> elems h. \<not> same lt x e" by simp
    obtain h1 where h1: "insert_elem h (find_bucket hf h e) e = Some h1" "table hf lt h1"
      "elems h1 = insert e (elems h)" using insert_elem_table [OF t e n] by blast
    obtain h2 where h2: "rehash hf mem h1 = Some h2" "table hf lt h2" "elems h2 = elems h1"
      using rehash_table [OF h1(2)] by blast
    have "hash_insert hf lt mem h e = Some (h2, NULL)"
      by (simp add: hash_insert_def placed_bucket [OF p] True h1(1) h2(1))
    with h1 h2 n show ?thesis by (intro exI [of _ h2] exI [of _ NULL]) simp
  next
    case False
    obtain h2 where h2: "rehash hf mem h = Some h2" "table hf lt h2" "elems h2 = elems h"
      using rehash_table [OF t] by blast
    have "hash_insert hf lt mem h e = Some (h2, ?old)"
      using False by (simp add: hash_insert_def placed_bucket [OF p] h2(1) del: neq0_conv)
    moreover have "?old \<in> elems h \<and> same lt ?old e" using f False by (simp only: if_False)
    ultimately show ?thesis using h2 False by (intro exI [of _ h2] exI [of _ ?old]) simp
  qed
qed

lemma hash_replace_run:
  assumes t: "table hf lt h" and e: "e \<noteq> NULL"
  shows "\<exists>h' old. hash_replace hf lt mem h e = Some (h', old) \<and> table hf lt h' \<and>
    elems h' = insert e {x \<in> elems h. \<not> same lt x e} \<and>
    (if old = NULL then \<forall>x \<in> elems h. \<not> same lt x e else old \<in> elems h \<and> same lt old e)"
proof -
  have p: "placed hf h" using t by (simp add: table_def)
  let ?old = "find_elem lt (buckets h ! find_bucket hf h e) e"
  let ?h = "if ?old \<noteq> NULL then remove_elem h ?old else h"
  note f = find_in_table [OF t, of e]
  have h: "table hf lt ?h \<and> elems ?h = {x \<in> elems h. \<not> same lt x e}"
  proof (cases "?old = NULL")
    case True
    then show ?thesis using f t by auto
  next
    case False
    then have o: "?old \<in> elems h" "same lt ?old e" using f by (auto simp del: neq0_conv)
    have "same lt x e \<longleftrightarrow> x = ?old" if "x \<in> elems h" for x
    proof
      assume "same lt x e"
      with o(2) have "same lt x ?old" using same_sym same_trans by blast
      with that o(1) t show "x = ?old" by (simp add: table_def)
    qed (use o(2) in simp)
    then show ?thesis using False remove_elem_table [OF t o(1)] by auto
  qed
  then have n: "\<forall>x \<in> elems ?h. \<not> same lt x e" by simp
  have b: "find_bucket hf ?h e = find_bucket hf h e" by (simp add: find_bucket_def remove_elem_def)
  obtain h1 where h1: "insert_elem ?h (find_bucket hf h e) e = Some h1" "table hf lt h1"
    "elems h1 = insert e (elems ?h)" using insert_elem_table [OF conjunct1 [OF h] e n] unfolding b by blast
  obtain h2 where h2: "rehash hf mem h1 = Some h2" "table hf lt h2" "elems h2 = elems h1"
    using rehash_table [OF h1(2)] by blast
  have "hash_replace hf lt mem h e = Some (h2, ?old)"
    unfolding hash_replace_def Let_def placed_bucket [OF p] Option.bind.simps h1(1) h2(1) ..
  with h h1(3) h2 f show ?thesis by (intro exI [of _ h2] exI [of _ ?old]) simp
qed

lemma hash_delete_run:
  assumes t: "table hf lt h"
  shows "\<exists>h' found. hash_delete hf lt mem h e = Some (h', found) \<and> table hf lt h' \<and>
    elems h' = elems h - {found} \<and>
    (if found = NULL then \<forall>x \<in> elems h. \<not> same lt x e else found \<in> elems h \<and> same lt found e)"
proof -
  have p: "placed hf h" using t by (simp add: table_def)
  let ?old = "find_elem lt (buckets h ! find_bucket hf h e) e"
  note f = find_in_table [OF t, of e]
  show ?thesis
  proof (cases "?old = NULL")
    case True
    have "NULL \<notin> elems h" using t by (simp add: table_def)
    moreover have "hash_delete hf lt mem h e = Some (h, NULL)"
      by (simp add: hash_delete_def placed_bucket [OF p] True)
    ultimately show ?thesis using f t True by (intro exI [of _ h] exI [of _ NULL]) simp
  next
    case False
    then have o: "?old \<in> elems h" using f by (simp del: neq0_conv)
    obtain h2 where h2: "rehash hf mem (remove_elem h ?old) = Some h2" "table hf lt h2"
      "elems h2 = elems (remove_elem h ?old)" using rehash_table [OF conjunct1 [OF remove_elem_table [OF t o]]] by blast
    have "hash_delete hf lt mem h e = Some (h2, ?old)"
      unfolding hash_delete_def Let_def placed_bucket [OF p] Option.bind.simps if_P [OF False] h2(1) ..
    moreover have "elems h2 = elems h - {?old}" using h2(3) remove_elem_table [OF t o] by simp
    ultimately show ?thesis using f h2(2) by (intro exI [of _ h2] exI [of _ ?old]) simp
  qed
qed

end

subsection \<open>Elements hashed by an integer key\<close>

text \<open>The table's contract with its user, discharged for \<open>hash_int\<close> on an integer member of the elements.\<close>

definition int_hf :: "(addr \<Rightarrow> 32 word) \<Rightarrow> addr \<Rightarrow> 64 word" where
  "int_hf key e = (case hash_int 1 (key e) of None \<Rightarrow> 0 | Some w \<Rightarrow> w)"

definition int_lt :: "(addr \<Rightarrow> 32 word) \<Rightarrow> addr \<Rightarrow> addr \<Rightarrow> bool" where
  "int_lt key a b \<longleftrightarrow> sint (key a) < sint (key b)"

lemma same_int_lt [simp]: "same (int_lt key) a b \<longleftrightarrow> key a = key b"
proof -
  have "\<not> sint (key a) < sint (key b) \<and> \<not> sint (key b) < sint (key a) \<longleftrightarrow> sint (key a) = sint (key b)"
    by linarith
  moreover have "sint (key a) = sint (key b) \<longleftrightarrow> key a = key b"
    by (rule iffI, rule signed_word_eqI) simp_all
  ultimately show ?thesis unfolding same_def int_lt_def by simp
qed

interpretation int_table: hash_user "int_hf key" "int_lt key" for key
  by unfold_locales (auto simp: int_hf_def)

lemma hash_int_run: "hash_int 1 i \<noteq> None"
  by (simp add: hash_int_def hash_bytes_def int_bytes_def ldb_def numeral_eq_Suc)

subsection \<open>Sequences of operations\<close>

datatype hash_op = Insert addr | Replace addr | Delete addr | Find addr

primrec op_arg :: "hash_op \<Rightarrow> addr" where
  "op_arg (Insert e) = e"
| "op_arg (Replace e) = e"
| "op_arg (Delete e) = e"
| "op_arg (Find e) = e"

primrec hash_step ::
    "(addr \<Rightarrow> 64 word) \<Rightarrow> (addr \<Rightarrow> addr \<Rightarrow> bool) \<Rightarrow> bool \<Rightarrow> hash_op \<Rightarrow> hash \<Rightarrow> (hash \<times> addr) option" where
  "hash_step hf lt mem (Insert e) h = hash_insert hf lt mem h e"
| "hash_step hf lt mem (Replace e) h = hash_replace hf lt mem h e"
| "hash_step hf lt mem (Delete e) h = hash_delete hf lt mem h e"
| "hash_step hf lt mem (Find e) h = do { x \<leftarrow> hash_find hf lt h e; Some (h, x) }"

text \<open>Each operation comes with the outcome of the allocation it may attempt.\<close>

primrec hash_run ::
    "(addr \<Rightarrow> 64 word) \<Rightarrow> (addr \<Rightarrow> addr \<Rightarrow> bool) \<Rightarrow> (bool \<times> hash_op) list \<Rightarrow> hash \<Rightarrow> (hash \<times> addr list) option" where
  "hash_run hf lt [] h = Some (h, [])"
| "hash_run hf lt (op # ops) h = do {
     (h, x) \<leftarrow> hash_step hf lt (fst op) (snd op) h;
     (h, xs) \<leftarrow> hash_run hf lt ops h;
     Some (h, x # xs)
   }"

text \<open>The abstract table: a map from keys to elements.\<close>

primrec map_step :: "(addr \<Rightarrow> 'k) \<Rightarrow> hash_op \<Rightarrow> ('k \<rightharpoonup> addr) \<Rightarrow> ('k \<rightharpoonup> addr)" where
  "map_step key (Insert e) m = (if m (key e) = None then m(key e \<mapsto> e) else m)"
| "map_step key (Replace e) m = m(key e \<mapsto> e)"
| "map_step key (Delete e) m = m(key e := None)"
| "map_step key (Find e) m = m"

definition answer :: "(addr \<Rightarrow> 'k) \<Rightarrow> hash_op \<Rightarrow> ('k \<rightharpoonup> addr) \<Rightarrow> addr" where
  "answer key op m = (case m (key (op_arg op)) of None \<Rightarrow> NULL | Some x \<Rightarrow> x)"

primrec map_run :: "(addr \<Rightarrow> 'k) \<Rightarrow> hash_op list \<Rightarrow> ('k \<rightharpoonup> addr) \<Rightarrow> ('k \<rightharpoonup> addr) \<times> addr list" where
  "map_run key [] m = (m, [])"
| "map_run key (op # ops) m = (let (m', xs) = map_run key ops (map_step key op m) in (m', answer key op m # xs))"

definition abs_map :: "(addr \<Rightarrow> 32 word) \<Rightarrow> hash \<Rightarrow> (32 word \<rightharpoonup> addr) \<Rightarrow> bool" where
  "abs_map key h m \<longleftrightarrow> (\<forall>k x. m k = Some x \<longleftrightarrow> x \<in> elems h \<and> key x = k)"

lemma abs_map_None: "abs_map key h m \<Longrightarrow> m k = None \<longleftrightarrow> (\<forall>x \<in> elems h. key x \<noteq> k)"
  unfolding abs_map_def by (metis option.exhaust option.distinct(1))

lemma abs_map_answer:
  assumes "abs_map key h m" and "NULL \<notin> elems h"
    and "if x = NULL then \<forall>y \<in> elems h. key y \<noteq> key e else x \<in> elems h \<and> key x = key e"
  shows "(case m (key e) of None \<Rightarrow> NULL | Some x \<Rightarrow> x) = x"
proof (cases "x = NULL")
  case True
  with assms have "m (key e) = None" using abs_map_None by simp
  with True show ?thesis by simp
next
  case False
  with assms have "m (key e) = Some x" by (simp add: abs_map_def)
  then show ?thesis by simp
qed

lemma abs_map_fun: "abs_map key h m \<Longrightarrow> abs_map key h m' \<Longrightarrow> m = m'"
  unfolding abs_map_def by (metis ext option.exhaust)

lemma hash_step_refines:
  assumes t: "table (int_hf key) (int_lt key) h" and m: "abs_map key h m" and e: "op_arg op \<noteq> NULL"
  shows "\<exists>h'. hash_step (int_hf key) (int_lt key) mem op h = Some (h', answer key op m) \<and>
    table (int_hf key) (int_lt key) h' \<and> abs_map key h' (map_step key op m)"
proof -
  have n: "NULL \<notin> elems h" using t by (simp add: table_def)
  note ans = abs_map_answer [OF m n]
  show ?thesis
  proof (cases op)
    case (Insert e)
    with e have e': "e \<noteq> NULL" by simp
    from int_table.hash_insert_run [OF t e', of mem, unfolded same_int_lt] obtain h' old where r:
      "hash_insert (int_hf key) (int_lt key) mem h e = Some (h', old)" "table (int_hf key) (int_lt key) h'"
      "if old = NULL then (\<forall>x \<in> elems h. key x \<noteq> key e) \<and> elems h' = insert e (elems h)
       else old \<in> elems h \<and> key old = key e \<and> elems h' = elems h" by auto
    have a: "answer key op m = old" using ans [of old e] r(3) by (auto simp: answer_def Insert split: if_splits)
    have "abs_map key h' (map_step key op m)"
    proof (cases "old = NULL")
      case True
      with r(3) have "m (key e) = None" using abs_map_None [OF m] by simp
      with True r(3) m show ?thesis by (auto simp: abs_map_def Insert)
    next
      case False
      with r(3) m have "m (key e) = Some old" "elems h' = elems h" by (simp_all add: abs_map_def)
      moreover from this have "map_step key op m = m" by (simp add: Insert)
      ultimately show ?thesis using m by (simp add: abs_map_def)
    qed
    with r a show ?thesis by (simp add: Insert)
  next
    case (Replace e)
    with e have e': "e \<noteq> NULL" by simp
    from int_table.hash_replace_run [OF t e', of mem, unfolded same_int_lt] obtain h' old where r:
      "hash_replace (int_hf key) (int_lt key) mem h e = Some (h', old)" "table (int_hf key) (int_lt key) h'"
      "elems h' = insert e {x \<in> elems h. key x \<noteq> key e}"
      "if old = NULL then \<forall>x \<in> elems h. key x \<noteq> key e else old \<in> elems h \<and> key old = key e" by blast
    have "answer key op m = old" using ans [OF r(4)] by (simp add: answer_def Replace)
    moreover have "abs_map key h' (map_step key op m)" using m r(3) by (auto simp: abs_map_def Replace)
    ultimately show ?thesis using r by (simp add: Replace)
  next
    case (Delete e)
    from int_table.hash_delete_run [OF t, of mem e, unfolded same_int_lt] obtain h' old where r:
      "hash_delete (int_hf key) (int_lt key) mem h e = Some (h', old)" "table (int_hf key) (int_lt key) h'"
      "elems h' = elems h - {old}"
      "if old = NULL then \<forall>x \<in> elems h. key x \<noteq> key e else old \<in> elems h \<and> key old = key e" by blast
    have "answer key op m = old" using ans [OF r(4)] by (simp add: answer_def Delete)
    moreover have "abs_map key h' (map_step key op m)"
    proof -
      have "x \<in> elems h - {old} \<longleftrightarrow> x \<in> elems h \<and> key x \<noteq> key e" for x
      proof (cases "old = NULL")
        case True
        with r(4) n show ?thesis by auto
      next
        case False
        with r(4) have o: "old \<in> elems h" "key old = key e" by simp_all
        have "x = old" if "x \<in> elems h" "key x = key e"
          using t that o unfolding table_def same_int_lt by metis
        with o show ?thesis by blast
      qed
      then show ?thesis using m r(3) by (auto simp: abs_map_def Delete)
    qed
    ultimately show ?thesis using r by (simp add: Delete)
  next
    case (Find e)
    from int_table.hash_find_run [OF t, of e, unfolded same_int_lt] obtain x where r:
      "hash_find (int_hf key) (int_lt key) h e = Some x"
      "if x = NULL then \<forall>y \<in> elems h. key y \<noteq> key e else x \<in> elems h \<and> key x = key e" by blast
    have "answer key op m = x" using ans [OF r(2)] by (simp add: answer_def Find)
    with r t m show ?thesis by (simp add: Find)
  qed
qed

lemma hash_run_refines:
  assumes "table (int_hf key) (int_lt key) h" and "abs_map key h m" and "\<forall>op \<in> set ops. op_arg (snd op) \<noteq> NULL"
  shows "\<exists>h'. hash_run (int_hf key) (int_lt key) ops h = Some (h', snd (map_run key (map snd ops) m)) \<and>
    table (int_hf key) (int_lt key) h' \<and> abs_map key h' (fst (map_run key (map snd ops) m))"
  using assms
proof (induction ops arbitrary: h m)
  case (Cons op ops)
  from hash_step_refines [OF Cons.prems(1,2), of "snd op" "fst op"] Cons.prems(3) obtain h1 where h1:
    "hash_step (int_hf key) (int_lt key) (fst op) (snd op) h = Some (h1, answer key (snd op) m)"
    "table (int_hf key) (int_lt key) h1" "abs_map key h1 (map_step key (snd op) m)" by auto
  from Cons.IH [OF h1(2,3)] Cons.prems(3) show ?case
    by (auto simp: h1(1) split: prod.split)
qed simp

lemma hash_clear_loop_None: "hash_clear_loop None bs s = (replicate (length bs) [], s)"
  by (induction bs arbitrary: s) simp_all

lemma hash_init_table:
  assumes "length bs = 4"
  shows "\<exists>h. hash_init (Some bs) = Some h \<and> table hf lt h \<and> elems h = {}"
proof -
  let ?h = "\<lparr>elem_cnt = 0, bucket_cnt = 4, buckets = replicate 4 []\<rparr>"
  have "hash_init (Some bs) = Some ?h"
    using assms by (simp add: hash_init_def hash_clear_def hash_clear_loop_None)
  moreover have "\<exists>k. (4::nat) = 2 ^ k" by (rule exI [of _ 2]) simp
  then have "table hf lt ?h" by (auto simp: table_def placed_def elems_def)
  moreover have "elems ?h = {}" by (simp add: elems_def)
  ultimately show ?thesis by blast
qed

subsection \<open>Iteration\<close>

text \<open>The idiom of the documentation: the elements returned from \<open>n\<close> calls of \<open>hash_next\<close> at most.\<close>

primrec iterate :: "hash \<Rightarrow> nat \<Rightarrow> hash_iterator \<Rightarrow> addr list option" where
  "iterate h 0 i = None"
| "iterate h (Suc n) i = do {
     i \<leftarrow> hash_next h i;
     case hash_cur i of
       At e \<Rightarrow> do { es \<leftarrow> iterate h n i; Some (e # es) }
     | _ \<Rightarrow> Some []
   }"

text \<open>The iterator stands in bucket \<open>k\<close> before the rest \<open>r\<close> of that bucket.\<close>

definition before :: "hash \<Rightarrow> hash_iterator \<Rightarrow> addr list \<Rightarrow> bool" where
  "before h i r \<longleftrightarrow> bucket i < length (buckets h) \<and> (\<exists>p. buckets h ! bucket i = p @ r) \<and>
     cursor_next (buckets h ! bucket i) (elem i) = Some (cursor_begin r)"

definition rest :: "hash \<Rightarrow> nat \<Rightarrow> addr list" where
  "rest h k = concat (drop (k + 1) (buckets h))"

lemma elem_after_append: "x \<notin> set p \<Longrightarrow> elem_after (p @ x # q) x = cursor_begin q"
  by (induction p) (auto simp: cursor_begin_def split: list.splits)

lemma hash_next_loop_run:
  assumes "length (buckets h) = bucket_cnt h" and "\<forall>b \<in> set (buckets h). distinct b"
    and "bucket i < bucket_cnt h" and "buckets h ! bucket i = p @ r" and "elem i = cursor_begin r"
  shows "\<exists>i'. hash_next_loop h i = Some i' \<and>
    (case r @ rest h (bucket i) of [] \<Rightarrow> elem i' = Nowhere
     | e # es \<Rightarrow> elem i' = At e \<and> (\<exists>q. before h i' q \<and> es = q @ rest h (bucket i')))"
  using assms
proof (induction h i arbitrary: p r rule: hash_next_loop.induct)
  case (1 h i)
  show ?case
  proof (cases r)
    case (Cons e es)
    then have c: "elem i = At e" using "1.prems" by (simp add: cursor_begin_def)
    have "buckets h ! bucket i \<in> set (buckets h)" using "1.prems"(1,3) by (metis nth_mem)
    then have "distinct (buckets h ! bucket i)" using "1.prems"(2) by blast
    then have "e \<notin> set p" using "1.prems"(4) Cons by simp
    then have "before h i es"
      using "1.prems"(1-4) Cons by (auto simp: before_def c elem_after_append intro: exI [of _ "p @ [e]"])
    then show ?thesis using c Cons by (auto simp: hash_next_loop.simps)
  next
    case Nil
    then have c: "elem i = AtEnd" using "1.prems" by (simp add: cursor_begin_def)
    show ?thesis
    proof (cases "bucket i + 1 \<ge> bucket_cnt h")
      case True
      then have "rest h (bucket i) = []" using "1.prems"(1) by (simp add: rest_def)
      then show ?thesis using c Nil True by (simp add: hash_next_loop.simps)
    next
      case False
      let ?b = "buckets h ! (bucket i + 1)"
      let ?i = "i\<lparr>bucket := bucket i + 1, elem := cursor_begin ?b\<rparr>"
      have at: "bucket_at h (bucket i + 1) = Some ?b" using False "1.prems"(1) by (simp add: bucket_at_def)
      have r: "rest h (bucket i) = ?b @ rest h (bucket i + 1)"
        using False "1.prems"(1) Cons_nth_drop_Suc [of "bucket i + 1" "buckets h"]
        unfolding rest_def by (metis Suc_eq_plus1 concat.simps(2) not_le_imp_less)
      have "\<exists>i'. hash_next_loop h ?i = Some i' \<and>
        (case ?b @ rest h (bucket ?i) of [] \<Rightarrow> elem i' = Nowhere
         | e # es \<Rightarrow> elem i' = At e \<and> (\<exists>q. before h i' q \<and> es = q @ rest h (bucket i')))"
        using c False "1.prems"(1,2) at by (intro "1.IH" [where p = "[]"]) simp_all
      moreover have "hash_next_loop h i = hash_next_loop h ?i"
        using c False at by (simp add: hash_next_loop.simps [of h i])
      ultimately show ?thesis using Nil r by simp
    qed
  qed
qed

lemma iterate_run:
  assumes "length (buckets h) = bucket_cnt h" and "\<forall>b \<in> set (buckets h). distinct b"
    and "before h i r" and "length (r @ rest h (bucket i)) < n"
  shows "iterate h n i = Some (r @ rest h (bucket i))"
  using assms(3,4)
proof (induction n arbitrary: i r)
  case (Suc n)
  let ?i = "i\<lparr>elem := cursor_begin r\<rparr>"
  obtain p where p: "buckets h ! bucket i = p @ r" using Suc.prems by (auto simp: before_def)
  have "\<exists>i'. hash_next_loop h ?i = Some i' \<and>
    (case r @ rest h (bucket ?i) of [] \<Rightarrow> elem i' = Nowhere
     | e # es \<Rightarrow> elem i' = At e \<and> (\<exists>q. before h i' q \<and> es = q @ rest h (bucket i')))"
    using Suc.prems p assms(1,2) by (intro hash_next_loop_run [where p = p]) (auto simp: before_def)
  then obtain i' where i': "hash_next_loop h ?i = Some i'"
    "case r @ rest h (bucket i) of [] \<Rightarrow> elem i' = Nowhere
     | e # es \<Rightarrow> elem i' = At e \<and> (\<exists>q. before h i' q \<and> es = q @ rest h (bucket i'))" by auto
  have nx: "hash_next h i = Some i'"
    using Suc.prems(1) i'(1) by (auto simp: hash_next_def bucket_at_def before_def)
  show ?case
  proof (cases "r @ rest h (bucket i)")
    case Nil
    then show ?thesis using nx i'(2) by (simp add: hash_cur_def)
  next
    case (Cons e es)
    with i'(2) obtain q where q: "elem i' = At e" "before h i' q" "es = q @ rest h (bucket i')" by auto
    have "length es < n" using Suc.prems(2) Cons by simp
    then have "iterate h n i' = Some es" using Suc.IH [OF q(2)] q(3) by simp
    then show ?thesis using nx q(1) Cons by (simp add: hash_cur_def)
  qed
qed simp

subsection \<open>Properties\<close>

text \<open>C19: the hash table is a map. From a fresh table, whatever \<open>malloc\<close> answers when the table
  resizes, every sequence of insertions, replacements, deletions and searches succeeds, returns what
  the abstract map from keys to elements returns, and ends in a well-formed table (buckets a power of
  two, every element in its bucket, one element per key, the count right) holding exactly its elements.\<close>

theorem hash_table_is_map:
  assumes "length bs = 4" and "\<forall>op \<in> set ops. op_arg (snd op) \<noteq> NULL"
  shows "\<exists>h h'. hash_init (Some bs) = Some h \<and>
    hash_run (int_hf key) (int_lt key) ops h = Some (h', snd (map_run key (map snd ops) Map.empty)) \<and>
    table (int_hf key) (int_lt key) h' \<and> abs_map key h' (fst (map_run key (map snd ops) Map.empty)) \<and>
    hash_size h' = card (elems h')"
proof -
  obtain h where h: "hash_init (Some bs) = Some h" "table (int_hf key) (int_lt key) h" "elems h = {}"
    using hash_init_table [OF assms(1)] by blast
  then have "abs_map key h Map.empty" by (simp add: abs_map_def)
  from hash_run_refines [OF h(2) this assms(2)] h(1) table_cnt show ?thesis
    unfolding hash_size_def by blast
qed

definition ex_ops :: "(bool \<times> hash_op) list" where
  "ex_ops = [(True, Insert 10), (True, Insert 20), (True, Find 10), (True, Delete 20)]"

theorem hash_table_is_map_witness:
  "\<exists>h h'. hash_init (Some [[1], [], [], []]) = Some h \<and>
    hash_run (int_hf (\<lambda>a. of_nat a)) (int_lt (\<lambda>a. of_nat a)) ex_ops h = Some (h', [0, 0, 10, 20]) \<and>
    table (int_hf (\<lambda>a. of_nat a)) (int_lt (\<lambda>a. of_nat a)) h' \<and>
    abs_map (\<lambda>a. of_nat a) h' (fst (map_run (\<lambda>a. of_nat a) (map snd ex_ops) Map.empty)) \<and>
    hash_size h' = card (elems h')"
proof -
  have "\<forall>op \<in> set ex_ops. op_arg (snd op) \<noteq> NULL" by (simp add: ex_ops_def)
  moreover have "snd (map_run (\<lambda>a. of_nat a :: 32 word) (map snd ex_ops) Map.empty) = [0, 0, 10, 20]"
    by (simp add: ex_ops_def answer_def)
  ultimately show ?thesis
    using hash_table_is_map [of "[[1], [], [], []]" ex_ops "\<lambda>a. of_nat a"] by simp
qed

text \<open>the iteration idiom visits every element of the table exactly once: from \<open>hash_first\<close>,
  the calls of \<open>hash_next\<close> return the elements of all buckets in order and then the null pointer.\<close>

theorem hash_iteration_complete:
  assumes "table hf lt h"
  shows "\<exists>es. iterate h (hash_size h + 1) hash_first = Some es \<and> distinct es \<and> set es = elems h"
proof -
  have l: "length (buckets h) = bucket_cnt h" "0 < bucket_cnt h" and d: "distinct (concat (buckets h))"
    and n: "hash_size h = length (concat (buckets h))"
    using assms by (auto simp: table_def placed_def hash_size_def)
  have db: "\<forall>b \<in> set (buckets h). distinct b" using d by (auto simp: distinct_concat_iff)
  let ?b = "buckets h ! 0"
  have b: "buckets h \<noteq> []" using l by auto
  then have c: "?b @ rest h 0 = concat (buckets h)" by (cases "buckets h") (auto simp: rest_def)
  have "before h hash_first ?b" using b by (simp add: before_def hash_first_def)
  from iterate_run [OF l(1) db this, of "hash_size h + 1"] c n
  have "iterate h (hash_size h + 1) hash_first = Some (concat (buckets h))" by (simp add: hash_first_def)
  with d show ?thesis unfolding elems_def by blast
qed

definition ex_table :: hash where
  "ex_table = \<lparr>elem_cnt = 3, bucket_cnt = 4, buckets = [[4], [], [6, 2], []]\<rparr>"

theorem hash_iteration_complete_witness:
  "\<exists>es. iterate ex_table (hash_size ex_table + 1) hash_first = Some es \<and> distinct es \<and> set es = elems ex_table"
proof (rule hash_iteration_complete)
  show "table of_nat (<) ex_table"
    by (auto simp: table_def placed_def ex_table_def elems_def same_def find_bucket_def nth_Cons'
        intro!: exI [of _ 2])
qed

end
