(* ===== verification/Stdlib.thy ===== *)
theory Stdlib
  imports CString "HOL-Library.Multiset"
begin

text \<open>
  \<open>pintos/lib/stdlib.c\<close> and the character classes of \<open>ctype.h\<close>: \<open>atoi\<close>, the in-place heap sort
  \<open>sort\<close> and \<open>binary_search\<close>. The array is its sequence of bytes; elements are \<open>size\<close> bytes long and
  have the 1-based indices of the code; an access outside the array yields \<open>None\<close>. The comparison
  function, with its auxiliary data, is an argument on the bytes of two elements.
\<close>

subsection \<open>Character classes\<close>

definition islower :: "int \<Rightarrow> bool" where
  "islower c \<longleftrightarrow> c \<ge> of_char CHR ''a'' \<and> c \<le> of_char CHR ''z''"

definition isupper :: "int \<Rightarrow> bool" where
  "isupper c \<longleftrightarrow> c \<ge> of_char CHR ''A'' \<and> c \<le> of_char CHR ''Z''"

definition isalpha :: "int \<Rightarrow> bool" where
  "isalpha c \<longleftrightarrow> islower c \<or> isupper c"

definition isdigit :: "int \<Rightarrow> bool" where
  "isdigit c \<longleftrightarrow> c \<ge> of_char CHR ''0'' \<and> c \<le> of_char CHR ''9''"

definition isalnum :: "int \<Rightarrow> bool" where
  "isalnum c \<longleftrightarrow> isalpha c \<or> isdigit c"

definition isspace :: "int \<Rightarrow> bool" where
  "isspace c \<longleftrightarrow> c = 32 \<or> c = 12 \<or> c = 10 \<or> c = 13 \<or> c = 9 \<or> c = 11"

definition isprint :: "int \<Rightarrow> bool" where
  "isprint c \<longleftrightarrow> c \<ge> 32 \<and> c < 127"

definition tolower :: "int \<Rightarrow> int" where
  "tolower c = (if isupper c then c - of_char CHR ''A'' + of_char CHR ''a'' else c)"

definition toupper :: "int \<Rightarrow> int" where
  "toupper c = (if islower c then c - of_char CHR ''a'' + of_char CHR ''A'' else c)"

subsection \<open>Parsing integers\<close>

text \<open>\<open>isspace\<close> gets the character as an unsigned value, \<open>isdigit\<close> as a \<open>char\<close>, which is signed.\<close>

partial_function (option) atoi_space :: "bmem \<Rightarrow> addr \<Rightarrow> addr option" where
  "atoi_space m s = do {
     b \<leftarrow> ldb m s;
     if isspace (uint b) then atoi_space m (s + 1) else Some s
   }"

partial_function (option) atoi_digits :: "bmem \<Rightarrow> addr \<Rightarrow> 32 word \<Rightarrow> 32 word option" where
  "atoi_digits m s v = do {
     b \<leftarrow> ldb m s;
     if isdigit (sint b) then atoi_digits m (s + 1) (v * 10 - (scast b - of_char CHR ''0'')) else Some v
   }"

definition atoi :: "bmem \<Rightarrow> addr \<Rightarrow> 32 word option" where
  "atoi m s = do {
     ASSERTION (s \<noteq> NULL);
     s \<leftarrow> atoi_space m s;
     b \<leftarrow> ldb m s;
     let negative = (b \<noteq> of_char CHR ''+'' \<and> b = of_char CHR ''-'');
     let s = (if b = of_char CHR ''+'' then s + 1 else if b = of_char CHR ''-'' then s + 1 else s);
     v \<leftarrow> atoi_digits m s 0;
     Some (if \<not> negative then - v else v)
   }"

subsection \<open>Elements of an array\<close>

definition elt :: "'b list \<Rightarrow> nat \<Rightarrow> nat \<Rightarrow> 'b list option" where
  "elt array idx sz =
     (if 1 \<le> idx \<and> idx * sz \<le> length array then Some (take sz (drop ((idx - 1) * sz) array)) else None)"

primrec do_swap_loop :: "'b list \<Rightarrow> nat \<Rightarrow> nat \<Rightarrow> nat \<Rightarrow> 'b list option" where
  "do_swap_loop array a b 0 = Some array"
| "do_swap_loop array a b (Suc n) =
     (if a < length array \<and> b < length array
      then do_swap_loop (array[a := array ! b, b := array ! a]) (a + 1) (b + 1) n
      else None)"

definition do_swap :: "'b list \<Rightarrow> nat \<Rightarrow> nat \<Rightarrow> nat \<Rightarrow> 'b list option" where
  "do_swap array a_idx b_idx sz =
     (if 1 \<le> a_idx \<and> 1 \<le> b_idx then do_swap_loop array ((a_idx - 1) * sz) ((b_idx - 1) * sz) sz else None)"

definition do_compare ::
    "'b list \<Rightarrow> nat \<Rightarrow> nat \<Rightarrow> nat \<Rightarrow> ('b list \<Rightarrow> 'b list \<Rightarrow> int) \<Rightarrow> int option" where
  "do_compare array a_idx b_idx sz compare = do {
     a \<leftarrow> elt array a_idx sz;
     b \<leftarrow> elt array b_idx sz;
     Some (compare a b)
   }"

subsection \<open>Heap sort\<close>

text \<open>The index of the largest of an element and its children.\<close>

definition heap_max ::
    "'b list \<Rightarrow> nat \<Rightarrow> nat \<Rightarrow> nat \<Rightarrow> ('b list \<Rightarrow> 'b list \<Rightarrow> int) \<Rightarrow> nat option" where
  "heap_max array i cnt sz compare = do {
     let left = 2 * i;
     let right = 2 * i + 1;
     max \<leftarrow> (if left \<le> cnt then do {
               c \<leftarrow> do_compare array left i sz compare;
               Some (if c > 0 then left else i)
             } else Some i);
     if right \<le> cnt then do {
       c \<leftarrow> do_compare array right max sz compare;
       Some (if c > 0 then right else max)
     } else Some max
   }"

partial_function (option) heapify ::
    "'b list \<Rightarrow> nat \<Rightarrow> nat \<Rightarrow> nat \<Rightarrow> ('b list \<Rightarrow> 'b list \<Rightarrow> int) \<Rightarrow> 'b list option" where
  "heapify array i cnt sz compare = do {
     max \<leftarrow> heap_max array i cnt sz compare;
     if max = i then Some array
     else do {
       array \<leftarrow> do_swap array i max sz;
       heapify array max cnt sz compare
     }
   }"

primrec build_heap ::
    "'b list \<Rightarrow> nat \<Rightarrow> nat \<Rightarrow> nat \<Rightarrow> ('b list \<Rightarrow> 'b list \<Rightarrow> int) \<Rightarrow> 'b list option" where
  "build_heap array 0 cnt sz compare = Some array"
| "build_heap array (Suc i) cnt sz compare = do {
     array \<leftarrow> heapify array (Suc i) cnt sz compare;
     build_heap array i cnt sz compare
   }"

fun sort_heap ::
    "'b list \<Rightarrow> nat \<Rightarrow> nat \<Rightarrow> ('b list \<Rightarrow> 'b list \<Rightarrow> int) \<Rightarrow> 'b list option" where
  "sort_heap array i sz compare =
     (if i > 1 then do {
        array \<leftarrow> do_swap array 1 i sz;
        array \<leftarrow> heapify array 1 (i - 1) sz compare;
        sort_heap array (i - 1) sz compare
      } else Some array)"

declare sort_heap.simps [simp del]

text \<open>The assertions on null pointers concern the array's address, which the model does not have.\<close>

definition sort_array ::
    "'b list \<Rightarrow> nat \<Rightarrow> nat \<Rightarrow> ('b list \<Rightarrow> 'b list \<Rightarrow> int) \<Rightarrow> 'b list option" where
  "sort_array array cnt sz compare = do {
     ASSERTION (sz > 0);
     array \<leftarrow> build_heap array (cnt div 2) cnt sz compare;
     sort_heap array cnt sz compare
   }"

definition compare_thunk :: "'e \<Rightarrow> 'e \<Rightarrow> ('e \<Rightarrow> 'e \<Rightarrow> int) \<Rightarrow> int" where
  "compare_thunk a b aux = aux a b"

definition qsort ::
    "'b list \<Rightarrow> nat \<Rightarrow> nat \<Rightarrow> ('b list \<Rightarrow> 'b list \<Rightarrow> int) \<Rightarrow> 'b list option" where
  "qsort array cnt sz compare = sort_array array cnt sz (\<lambda>a b. compare_thunk a b compare)"

subsection \<open>Binary search\<close>

text \<open>Pointers into the array are offsets from its start; the result is the offset of a match.\<close>

partial_function (option) binary_search_loop ::
    "'k \<Rightarrow> 'b list \<Rightarrow> nat \<Rightarrow> nat \<Rightarrow> nat \<Rightarrow> ('k \<Rightarrow> 'b list \<Rightarrow> int) \<Rightarrow> nat option option" where
  "binary_search_loop key array first last' sz compare =
     (if first < last' then do {
        let range = (last' - first) div sz;
        let middle = first + (range div 2) * sz;
        ASSERTION (middle + sz \<le> length array);
        let cmp = compare key (take sz (drop middle array));
        if cmp < 0 then binary_search_loop key array first middle sz compare
        else if cmp > 0 then binary_search_loop key array (middle + sz) last' sz compare
        else Some (Some middle)
      } else Some None)"

definition binary_search ::
    "'k \<Rightarrow> 'b list \<Rightarrow> nat \<Rightarrow> nat \<Rightarrow> ('k \<Rightarrow> 'b list \<Rightarrow> int) \<Rightarrow> nat option option" where
  "binary_search key array cnt sz compare = binary_search_loop key array 0 (sz * cnt) sz compare"

definition bsearch ::
    "'b list \<Rightarrow> 'b list \<Rightarrow> nat \<Rightarrow> nat \<Rightarrow> ('b list \<Rightarrow> 'b list \<Rightarrow> int) \<Rightarrow> nat option option" where
  "bsearch key array cnt sz compare = binary_search key array cnt sz (\<lambda>a b. compare_thunk a b compare)"

subsection \<open>Arrays as functions from indices to elements\<close>

definition el :: "'b list \<Rightarrow> nat \<Rightarrow> nat \<Rightarrow> 'b list" where
  "el array sz k = take sz (drop ((k - 1) * sz) array)"

definition fits :: "'b list \<Rightarrow> nat \<Rightarrow> nat \<Rightarrow> bool" where
  "fits array cnt sz \<longleftrightarrow> cnt * sz \<le> length array"

lemma elt_el: "fits array cnt sz \<Longrightarrow> 1 \<le> k \<Longrightarrow> k \<le> cnt \<Longrightarrow> elt array k sz = Some (el array sz k)"
proof -
  assume "fits array cnt sz" "1 \<le> k" "k \<le> cnt"
  then have "k * sz \<le> length array" unfolding fits_def by (meson le_trans mult_le_mono1)
  then show ?thesis using \<open>1 \<le> k\<close> by (simp add: elt_def el_def)
qed

lemma do_swap_loop_run:
  "a + n \<le> length xs \<Longrightarrow> b + n \<le> length xs \<Longrightarrow> a + n \<le> b \<or> b + n \<le> a \<Longrightarrow>
   \<exists>ys. do_swap_loop xs a b n = Some ys \<and> length ys = length xs \<and>
     (\<forall>k < length xs. ys ! k = (if a \<le> k \<and> k < a + n then xs ! (b + (k - a))
        else if b \<le> k \<and> k < b + n then xs ! (a + (k - b)) else xs ! k))"
proof (induction n arbitrary: xs a b)
  case (Suc n)
  let ?xs = "xs[a := xs ! b, b := xs ! a]"
  have "\<exists>ys. do_swap_loop ?xs (a + 1) (b + 1) n = Some ys \<and> length ys = length ?xs \<and>
     (\<forall>k < length ?xs. ys ! k = (if a + 1 \<le> k \<and> k < a + 1 + n then ?xs ! (b + 1 + (k - (a + 1)))
        else if b + 1 \<le> k \<and> k < b + 1 + n then ?xs ! (a + 1 + (k - (b + 1))) else ?xs ! k))"
    using Suc.prems by (intro Suc.IH) auto
  then obtain ys where ys: "do_swap_loop ?xs (a + 1) (b + 1) n = Some ys" "length ys = length xs"
    "\<And>k. k < length xs \<Longrightarrow> ys ! k = (if a + 1 \<le> k \<and> k < a + 1 + n then ?xs ! (b + 1 + (k - (a + 1)))
        else if b + 1 \<le> k \<and> k < b + 1 + n then ?xs ! (a + 1 + (k - (b + 1))) else ?xs ! k)" by auto
  have "ys ! k = (if a \<le> k \<and> k < a + Suc n then xs ! (b + (k - a))
        else if b \<le> k \<and> k < b + Suc n then xs ! (a + (k - b)) else xs ! k)" if k: "k < length xs" for k
  proof -
    have ab: "a \<noteq> b" "a < length xs" "b < length xs" using Suc.prems by auto
    consider "k = a" | "k = b" | "a < k" "k < a + Suc n" | "b < k" "k < b + Suc n"
      | "k \<noteq> a" "k \<noteq> b" "\<not> (a < k \<and> k < a + Suc n)" "\<not> (b < k \<and> k < b + Suc n)" by blast
    then show ?thesis
    proof cases
      case 3
      then have "b + 1 + (k - (a + 1)) = b + (k - a)" "b + (k - a) \<noteq> a" "b + (k - a) \<noteq> b"
        using Suc.prems(3) by auto
      then show ?thesis using 3 ys(3) [OF k] by simp
    next
      case 4
      then have e: "a + 1 + (k - (b + 1)) = a + (k - b)" "a + (k - b) \<noteq> a" "a + (k - b) \<noteq> b"
        and n: "\<not> (a \<le> k \<and> k < a + Suc n)" "\<not> (a + 1 \<le> k \<and> k < a + 1 + n)"
        and p: "b \<le> k \<and> k < b + Suc n" "b + 1 \<le> k \<and> k < b + 1 + n"
        using Suc.prems(3) by auto
      show ?thesis unfolding ys(3) [OF k] if_not_P [OF n(1)] if_not_P [OF n(2)] if_P [OF p(1)] if_P [OF p(2)] e(1)
        using e(2,3) by simp
    qed (use ys(3) [OF k] ab k Suc.prems(3) in auto)
  qed
  then show ?case using ys(1,2) Suc.prems by auto
qed auto

text \<open>Swapping two elements on bytes swaps them as elements.\<close>

definition swap_el :: "(nat \<Rightarrow> 'e) \<Rightarrow> nat \<Rightarrow> nat \<Rightarrow> nat \<Rightarrow> 'e" where
  "swap_el E i j = E(i := E j, j := E i)"

lemma el_nth: "k * sz \<le> length xs \<Longrightarrow> 1 \<le> k \<Longrightarrow> el xs sz k = map (\<lambda>t. xs ! ((k - 1) * sz + t)) [0..<sz]"
proof -
  assume k: "k * sz \<le> length xs" "1 \<le> k"
  then have "(k - 1) * sz + sz \<le> length xs" by (cases k) auto
  then have l: "length (el xs sz k) = sz" and d: "(k - 1) * sz \<le> length xs" unfolding el_def by simp_all
  show ?thesis
  proof (rule nth_equalityI)
    fix t assume "t < length (el xs sz k)"
    with l have "t < sz" by simp
    then show "el xs sz k ! t = map (\<lambda>t. xs ! ((k - 1) * sz + t)) [0..<sz] ! t" using d by (simp add: el_def)
  qed (simp add: l)
qed

lemma idx_disjoint: "i < j \<Longrightarrow> 1 \<le> i \<Longrightarrow> (i - 1) * sz + sz \<le> (j - 1) * (sz::nat)"
proof -
  assume "i < j" "1 \<le> i"
  then have "i * sz \<le> (j - 1) * sz" by (intro mult_le_mono1) simp
  moreover have "i * sz = (i - 1) * sz + sz" using \<open>1 \<le> i\<close> by (cases i) auto
  ultimately show ?thesis by simp
qed

lemma do_swap_run:
  assumes f: "fits xs cnt sz" and i: "1 \<le> i" "i \<le> cnt" and j: "1 \<le> j" "j \<le> cnt" and ij: "i \<noteq> j"
  shows "\<exists>ys. do_swap xs i j sz = Some ys \<and> length ys = length xs \<and>
    (\<forall>k. 1 \<le> k \<longrightarrow> k \<le> cnt \<longrightarrow> el ys sz k = swap_el (el xs sz) i j k) \<and> drop (cnt * sz) ys = drop (cnt * sz) xs"
proof -
  let ?a = "(i - 1) * sz" and ?b = "(j - 1) * sz"
  have le: "(k - 1) * sz + sz \<le> cnt * sz" "k * sz \<le> length xs" if "1 \<le> k" "k \<le> cnt" for k
  proof -
    have "k * sz \<le> cnt * sz" using that by (intro mult_le_mono1)
    moreover have "k * sz = (k - 1) * sz + sz" using that by (cases k) auto
    ultimately show "(k - 1) * sz + sz \<le> cnt * sz" "k * sz \<le> length xs" using f by (auto simp: fits_def)
  qed
  have ab: "?a + sz \<le> ?b \<or> ?b + sz \<le> ?a" using idx_disjoint [of i j sz] idx_disjoint [of j i sz] i j ij
    by (cases "i < j") auto
  have "?a + sz \<le> length xs" "?b + sz \<le> length xs" using le [OF i] le [OF j] f by (auto simp: fits_def)
  from do_swap_loop_run [OF this ab] obtain ys where ys: "do_swap_loop xs ?a ?b sz = Some ys"
    "length ys = length xs" "\<And>k. k < length xs \<Longrightarrow> ys ! k = (if ?a \<le> k \<and> k < ?a + sz then xs ! (?b + (k - ?a))
        else if ?b \<le> k \<and> k < ?b + sz then xs ! (?a + (k - ?b)) else xs ! k)" by blast
  have "el ys sz k = swap_el (el xs sz) i j k" if k: "1 \<le> k" "k \<le> cnt" for k
  proof -
    let ?k = "(k - 1) * sz"
    have kl: "?k + t < length xs" if "t < sz" for t
      using le [OF k] that f unfolding fits_def by linarith
    have at: "ys ! (?k + t) = (if k = i then xs ! (?b + t) else if k = j then xs ! (?a + t) else xs ! (?k + t))"
      if t: "t < sz" for t
    proof -
      consider "k = i" | "k = j" "k \<noteq> i" | "k \<noteq> i" "k \<noteq> j" by blast
      then show ?thesis
      proof cases
        case 3
        have n1: "\<not> (?a \<le> ?k + t \<and> ?k + t < ?a + sz)"
          using idx_disjoint [of i k sz] idx_disjoint [of k i sz] i k 3(1) t by (cases "i < k") auto
        have n2: "\<not> (?b \<le> ?k + t \<and> ?k + t < ?b + sz)"
          using idx_disjoint [of j k sz] idx_disjoint [of k j sz] j k 3(2) t by (cases "j < k") auto
        show ?thesis unfolding ys(3) [OF kl [OF t]] if_not_P [OF n1] if_not_P [OF n2] using 3 by simp
      qed (use ys(3) [OF kl [OF t]] t ab in auto)
    qed
    have "el ys sz k = map (\<lambda>t. ys ! (?k + t)) [0..<sz]" using el_nth le(2) [OF k] k(1) ys(2) by metis
    also have "\<dots> = swap_el (el xs sz) i j k"
      using at el_nth [OF le(2) [OF k] k(1)] el_nth [OF le(2) [OF i] i(1)] el_nth [OF le(2) [OF j] j(1)] ij
      by (auto simp: swap_el_def)
    finally show ?thesis .
  qed
  moreover have "drop (cnt * sz) ys = drop (cnt * sz) xs"
  proof (rule nth_equalityI)
    fix t assume "t < length (drop (cnt * sz) ys)"
    then have t: "cnt * sz + t < length xs" using ys(2) by simp
    have "\<not> (cnt * sz + t < ?a + sz)" "\<not> (cnt * sz + t < ?b + sz)" using le(1) [OF i] le(1) [OF j] by auto
    then show "drop (cnt * sz) ys ! t = drop (cnt * sz) xs ! t" using ys(3) [OF t] t ys(2) by simp
  qed (simp add: ys(2))
  moreover have "do_swap xs i j sz = Some ys" using i j ys(1) by (simp add: do_swap_def)
  ultimately show ?thesis using ys(2) by blast
qed

subsection \<open>Heaps\<close>

text \<open>What \<open>strcmp\<close>-type results owe the sorting and searching functions.\<close>

locale comparison =
  fixes compare :: "'e \<Rightarrow> 'e \<Rightarrow> int"
  assumes flip: "compare a b > 0 \<longleftrightarrow> compare b a < 0"
    and trans_le: "compare a b \<le> 0 \<Longrightarrow> compare b c \<le> 0 \<Longrightarrow> compare a c \<le> 0"
begin

lemma refl_le: "compare a a \<le> 0"
  using flip [of a a] by linarith

lemma less_le: "compare a b > 0 \<Longrightarrow> compare b a \<le> 0"
  using flip [of a b] by linarith

lemma eq_le: "compare key b = 0 \<Longrightarrow> compare a b \<le> 0 \<Longrightarrow> compare a key \<le> 0"
proof -
  assume e: "compare key b = 0" and a: "compare a b \<le> 0"
  have "compare b key \<le> 0" using e flip [of b key] by linarith
  with a show ?thesis by (rule trans_le)
qed

text \<open>Element \<open>k\<close> is not smaller than its children.\<close>

definition parent :: "(nat \<Rightarrow> 'e) \<Rightarrow> nat \<Rightarrow> nat \<Rightarrow> bool" where
  "parent E cnt k \<longleftrightarrow> (\<forall>c \<in> {2 * k, 2 * k + 1}. c \<le> cnt \<longrightarrow> compare (E c) (E k) \<le> 0)"

text \<open>All heaps rooted at \<open>i0\<close> or after are in order but for the element \<open>i\<close>, which is being moved down.\<close>

definition sift :: "(nat \<Rightarrow> 'e) \<Rightarrow> nat \<Rightarrow> nat \<Rightarrow> nat \<Rightarrow> bool" where
  "sift E cnt i0 i \<longleftrightarrow> (\<forall>k \<ge> i0. k \<noteq> i \<longrightarrow> parent E cnt k) \<and>
     (i0 \<le> i div 2 \<longrightarrow> (\<forall>c \<in> {2 * i, 2 * i + 1}. c \<le> cnt \<longrightarrow> compare (E c) (E (i div 2)) \<le> 0))"

definition heap_from :: "(nat \<Rightarrow> 'e) \<Rightarrow> nat \<Rightarrow> nat \<Rightarrow> bool" where
  "heap_from E cnt i0 \<longleftrightarrow> (\<forall>k \<ge> i0. parent E cnt k)"

lemma sift_start: "1 \<le> i \<Longrightarrow> heap_from E cnt (i + 1) \<Longrightarrow> sift E cnt i i"
  unfolding sift_def heap_from_def by (auto simp: Suc_le_eq)

lemma sift_done: "sift E cnt i0 i \<Longrightarrow> parent E cnt i \<Longrightarrow> heap_from E cnt i0"
  unfolding sift_def heap_from_def by auto

text \<open>One round: the larger child moves up.\<close>

lemma sift_step:
  assumes s: "sift E cnt i0 i" and i: "1 \<le> i0" "i0 \<le> i" and c: "c \<in> {2 * i, 2 * i + 1}" "c \<le> cnt"
    and gt: "compare (E c) (E i) > 0" and mx: "\<forall>d \<in> {2 * i, 2 * i + 1}. d \<le> cnt \<longrightarrow> compare (E d) (E c) \<le> 0"
  shows "sift (swap_el E i c) cnt i0 c"
proof -
  let ?E = "swap_el E i c"
  have ci: "c \<noteq> i" "c div 2 = i" "i < c" using i c by auto
  have at: "?E i = E c" "?E c = E i" "\<And>k. k \<noteq> i \<Longrightarrow> k \<noteq> c \<Longrightarrow> ?E k = E k"
    using ci by (auto simp: swap_el_def)
  have "parent ?E cnt k" if k: "i0 \<le> k" "k \<noteq> c" for k
  proof -
    have "compare (?E d) (?E k) \<le> 0" if d: "d \<in> {2 * k, 2 * k + 1}" "d \<le> cnt" for d
    proof (cases "k = i")
      case True
      show ?thesis
      proof (cases "d = c")
        case True
        then show ?thesis using less_le [OF gt] at \<open>k = i\<close> by simp
      next
        case False
        moreover have "d \<noteq> i" using d i \<open>k = i\<close> by auto
        ultimately have "?E d = E d" "?E k = E c" using at False \<open>k = i\<close> by auto
        moreover have "compare (E d) (E c) \<le> 0" using mx d \<open>k = i\<close> by blast
        ultimately show ?thesis by simp
      qed
    next
      case False
      then have pk: "compare (E d) (E k) \<le> 0" using s k d by (auto simp: sift_def parent_def)
      have dc: "d \<noteq> c" using d ci(2) False by auto
      show ?thesis
      proof (cases "d = i")
        case True
        then have "i div 2 = k" using d by auto
        then have "compare (E c) (E k) \<le> 0" using s c k(1) unfolding sift_def by blast
        then show ?thesis using True False k(2) at by simp
      next
        case di: False
        show ?thesis using pk at(3) [OF di dc] at(3) [OF False k(2)] by simp
      qed
    qed
    then show ?thesis by (simp add: parent_def)
  qed
  moreover have "compare (?E d) (?E (c div 2)) \<le> 0" if d: "d \<in> {2 * c, 2 * c + 1}" "d \<le> cnt" for d
  proof -
    have "parent E cnt c" using s ci i by (auto simp: sift_def)
    then have "compare (E d) (E c) \<le> 0" using d by (auto simp: parent_def)
    moreover have "d \<noteq> i" "d \<noteq> c" using d ci i by auto
    ultimately show ?thesis using at ci(2) by simp
  qed
  ultimately show ?thesis by (simp add: sift_def)
qed

text \<open>The root of a heap is a largest element.\<close>

lemma heap_root: "heap_from E cnt 1 \<Longrightarrow> 1 \<le> k \<Longrightarrow> k \<le> cnt \<Longrightarrow> compare (E k) (E 1) \<le> 0"
proof (induction k rule: less_induct)
  case (less k)
  show ?case
  proof (cases "k = 1")
    case True
    then show ?thesis by (simp add: refl_le)
  next
    case False
    then have k: "1 \<le> k div 2" "k div 2 < k" "k div 2 \<le> cnt" "k \<in> {2 * (k div 2), 2 * (k div 2) + 1}"
      using less.prems by auto
    have "compare (E k) (E (k div 2)) \<le> 0"
      using less.prems(1,3) k unfolding heap_from_def parent_def by blast
    moreover have "compare (E (k div 2)) (E 1) \<le> 0" using less.IH [OF k(2) less.prems(1) k(1,3)] .
    ultimately show ?thesis by (rule trans_le)
  qed
qed

lemma parent_cong: "(\<And>k. 1 \<le> k \<Longrightarrow> k \<le> cnt \<Longrightarrow> E k = F k) \<Longrightarrow> 1 \<le> k \<Longrightarrow> parent E cnt k = parent F cnt k"
proof -
  assume e: "\<And>k. 1 \<le> k \<Longrightarrow> k \<le> cnt \<Longrightarrow> E k = F k" and k: "1 \<le> k"
  have "compare (E c) (E k) = compare (F c) (F k)" if "c \<in> {2 * k, 2 * k + 1}" "c \<le> cnt" for c
    using e [of c] e [of k] that k by auto
  then show "parent E cnt k = parent F cnt k" unfolding parent_def by auto
qed

lemma sift_cong:
  "sift E cnt i0 i \<Longrightarrow> (\<And>k. 1 \<le> k \<Longrightarrow> k \<le> cnt \<Longrightarrow> E k = F k) \<Longrightarrow> 1 \<le> i0 \<Longrightarrow> sift F cnt i0 i"
proof -
  assume s: "sift E cnt i0 i" and e: "\<And>k. 1 \<le> k \<Longrightarrow> k \<le> cnt \<Longrightarrow> E k = F k" and i: "1 \<le> i0"
  have "parent F cnt k" if k: "i0 \<le> k" "k \<noteq> i" for k
  proof -
    have "1 \<le> k" using k i by simp
    then have "parent E cnt k = parent F cnt k" using e by (intro parent_cong) blast+
    then show ?thesis using s k unfolding sift_def by blast
  qed
  moreover have "compare (F c) (F (i div 2)) \<le> 0" if "i0 \<le> i div 2" "c \<in> {2 * i, 2 * i + 1}" "c \<le> cnt" for c
  proof -
    have "1 \<le> c" "1 \<le> i div 2" "i div 2 \<le> cnt" using that i by auto
    then show ?thesis using s that e [of c] e [of "i div 2"] by (auto simp: sift_def)
  qed
  ultimately show ?thesis by (simp add: sift_def)
qed

end

subsection \<open>Permutations of the elements\<close>

definition els :: "(nat \<Rightarrow> 'e) \<Rightarrow> nat \<Rightarrow> 'e list" where
  "els E n = map (\<lambda>m. E (Suc m)) [0..<n]"

lemma els_Suc: "els E (Suc n) = els E n @ [E (Suc n)]"
  by (simp add: els_def)

lemma els_cong: "(\<And>k. 1 \<le> k \<Longrightarrow> k \<le> n \<Longrightarrow> E k = F k) \<Longrightarrow> els E n = els F n"
  by (simp add: els_def)

lemma els_nth: "m < n \<Longrightarrow> els E n ! m = E (Suc m)"
  by (simp add: els_def)

lemma length_els [simp]: "length (els E n) = n"
  by (simp add: els_def)

lemma mset_els_swap:
  assumes "1 \<le> i" "i \<le> n" "1 \<le> j" "j \<le> n" "i \<noteq> j"
  shows "mset (els (swap_el E i j) n) = mset (els E n)"
proof -
  have "els (swap_el E i j) n = (els E n)[i - 1 := els E n ! (j - 1), j - 1 := els E n ! (i - 1)]"
  proof (rule nth_equalityI)
    fix k assume "k < length (els (swap_el E i j) n)"
    then have k: "k < n" by simp
    have ij: "i - 1 < n" "j - 1 < n" "Suc (i - 1) = i" "Suc (j - 1) = j" using assms by auto
    then show "els (swap_el E i j) n ! k
        = (els E n)[i - 1 := els E n ! (j - 1), j - 1 := els E n ! (i - 1)] ! k"
      using k assms by (auto simp: swap_el_def nth_list_update els_nth)
  qed simp
  moreover have "i - 1 < length (els E n)" "j - 1 < length (els E n)" using assms by auto
  ultimately show ?thesis by (simp add: mset_swap)
qed

lemma el_drop:
  assumes "drop (n * sz) ys = drop (n * sz) xs" and "n < k"
  shows "el ys sz k = el xs sz k"
proof -
  have "n * sz \<le> (k - 1) * sz" using assms(2) by (intro mult_le_mono1) simp
  then have "drop ((k - 1) * sz) zs = drop ((k - 1) * sz - n * sz) (drop (n * sz) zs)" for zs :: "'a list"
    by simp
  then show ?thesis unfolding el_def using assms(1) by metis
qed

lemma drop_mono: "drop m ys = drop m xs \<Longrightarrow> m \<le> n \<Longrightarrow> drop n ys = drop n xs"
  by (metis drop_drop le_add_diff_inverse2)

lemma fits_mono: "fits xs n sz \<Longrightarrow> m \<le> n \<Longrightarrow> fits xs m sz"
  unfolding fits_def by (meson le_trans mult_le_mono1)

subsection \<open>Sorting\<close>

locale array_comparison = comparison compare for compare :: "'b list \<Rightarrow> 'b list \<Rightarrow> int"
begin

lemma do_compare_run:
  "fits xs cnt sz \<Longrightarrow> 1 \<le> a \<Longrightarrow> a \<le> cnt \<Longrightarrow> 1 \<le> b \<Longrightarrow> b \<le> cnt \<Longrightarrow>
   do_compare xs a b sz compare = Some (compare (el xs sz a) (el xs sz b))"
  by (simp add: do_compare_def elt_el)

lemma heap_max_run:
  assumes f: "fits xs cnt sz" and i: "1 \<le> i" "i \<le> cnt"
  shows "\<exists>m. heap_max xs i cnt sz compare = Some m \<and>
    (if m = i then parent (el xs sz) cnt i
     else m \<in> {2 * i, 2 * i + 1} \<and> m \<le> cnt \<and> compare (el xs sz m) (el xs sz i) > 0 \<and>
       (\<forall>d \<in> {2 * i, 2 * i + 1}. d \<le> cnt \<longrightarrow> compare (el xs sz d) (el xs sz m) \<le> 0))"
proof -
  let ?E = "el xs sz"
  let ?l = "if 2 * i \<le> cnt \<and> compare (?E (2 * i)) (?E i) > 0 then 2 * i else i"
  let ?m = "if 2 * i + 1 \<le> cnt \<and> compare (?E (2 * i + 1)) (?E ?l) > 0 then 2 * i + 1 else ?l"
  have l: "1 \<le> ?l" "?l \<le> cnt" using i by auto
  have "(if 2 * i \<le> cnt then do { c \<leftarrow> do_compare xs (2 * i) i sz compare; Some (if c > 0 then 2 * i else i) }
      else Some i) = Some ?l"
    using do_compare_run [OF f, of "2 * i" i] i by simp
  moreover have "(if 2 * i + 1 \<le> cnt then do { c \<leftarrow> do_compare xs (2 * i + 1) ?l sz compare; Some (if c > 0 then 2 * i + 1 else ?l) }
      else Some ?l) = Some ?m"
  proof (cases "2 * i + 1 \<le> cnt")
    case True
    have "do_compare xs (2 * i + 1) ?l sz compare = Some (compare (?E (2 * i + 1)) (?E ?l))"
      by (rule do_compare_run [OF f _ True l]) simp
    then show ?thesis using True by (simp only: if_True Option.bind.simps simp_thms)
  qed simp
  ultimately have "heap_max xs i cnt sz compare = Some ?m"
    unfolding heap_max_def Let_def by (simp only: Option.bind.simps)
  moreover have "if ?m = i then parent ?E cnt i
     else ?m \<in> {2 * i, 2 * i + 1} \<and> ?m \<le> cnt \<and> compare (?E ?m) (?E i) > 0 \<and>
       (\<forall>d \<in> {2 * i, 2 * i + 1}. d \<le> cnt \<longrightarrow> compare (?E d) (?E ?m) \<le> 0)"
  proof (cases "2 * i \<le> cnt \<and> compare (?E (2 * i)) (?E i) > 0")
    case L: True
    show ?thesis
    proof (cases "2 * i + 1 \<le> cnt \<and> compare (?E (2 * i + 1)) (?E (2 * i)) > 0")
      case True
      have "compare (?E (2 * i)) (?E i) > 0" using L by blast
      then have "compare (?E (2 * i + 1)) (?E i) > 0"
        using True trans_le [of "?E (2 * i + 1)" "?E i" "?E (2 * i)"] less_le [of "?E (2 * i)" "?E i"] by force
      then show ?thesis using True L i less_le [of "?E (2 * i + 1)" "?E (2 * i)"] refl_le by auto
    next
      case False
      then show ?thesis using L i refl_le by auto
    qed
  next
    case L: False
    show ?thesis
    proof (cases "2 * i + 1 \<le> cnt \<and> compare (?E (2 * i + 1)) (?E i) > 0")
      case True
      have "compare (?E (2 * i)) (?E (2 * i + 1)) \<le> 0"
        using L True trans_le [of "?E (2 * i)" "?E i" "?E (2 * i + 1)"] less_le [of "?E (2 * i + 1)" "?E i"] by auto
      then show ?thesis using L True i refl_le by auto
    next
      case False
      then have "?m = i" using L by auto
      moreover have "parent ?E cnt i" using L False by (auto simp: parent_def not_less)
      ultimately show ?thesis by simp
    qed
  qed
  ultimately show ?thesis by blast
qed

lemma heapify_run:
  assumes "fits xs cnt sz" and "1 \<le> i0" and "i0 \<le> i" and "i \<le> cnt" and "sift (el xs sz) cnt i0 i"
  shows "\<exists>ys. heapify xs i cnt sz compare = Some ys \<and> length ys = length xs \<and> heap_from (el ys sz) cnt i0 \<and>
    mset (els (el ys sz) cnt) = mset (els (el xs sz) cnt) \<and> drop (cnt * sz) ys = drop (cnt * sz) xs"
  using assms
proof (induction "cnt - i" arbitrary: xs i rule: less_induct)
  case less
  have i: "1 \<le> i" using less.prems(2,3) by simp
  from heap_max_run [OF less.prems(1) i less.prems(4)] obtain m where m: "heap_max xs i cnt sz compare = Some m"
    "if m = i then parent (el xs sz) cnt i
     else m \<in> {2 * i, 2 * i + 1} \<and> m \<le> cnt \<and> compare (el xs sz m) (el xs sz i) > 0 \<and>
       (\<forall>d \<in> {2 * i, 2 * i + 1}. d \<le> cnt \<longrightarrow> compare (el xs sz d) (el xs sz m) \<le> 0)" by blast
  show ?case
  proof (cases "m = i")
    case True
    with m have "heapify xs i cnt sz compare = Some xs" "parent (el xs sz) cnt i"
      by (simp_all add: heapify.simps [of xs i])
    with sift_done [OF less.prems(5)] show ?thesis by blast
  next
    case False
    with m(2) have c: "m \<in> {2 * i, 2 * i + 1}" "m \<le> cnt" "compare (el xs sz m) (el xs sz i) > 0"
      "\<forall>d \<in> {2 * i, 2 * i + 1}. d \<le> cnt \<longrightarrow> compare (el xs sz d) (el xs sz m) \<le> 0" by simp_all
    have mi: "1 \<le> m" "i < m" using c(1) i by auto
    from do_swap_run [OF less.prems(1) i less.prems(4) mi(1) c(2) False [symmetric]] obtain zs where zs:
      "do_swap xs i m sz = Some zs" "length zs = length xs"
      "\<And>k. 1 \<le> k \<Longrightarrow> k \<le> cnt \<Longrightarrow> el zs sz k = swap_el (el xs sz) i m k"
      "drop (cnt * sz) zs = drop (cnt * sz) xs" by blast
    have "sift (swap_el (el xs sz) i m) cnt i0 m"
      by (rule sift_step [OF less.prems(5,2,3) c])
    then have "sift (el zs sz) cnt i0 m" by (rule sift_cong) (use zs(3) less.prems(2) in simp_all)
    moreover have "cnt - m < cnt - i" "i0 \<le> m" using mi c(2) less.prems(3) by auto
    moreover have "fits zs cnt sz" using less.prems(1) zs(2) by (simp add: fits_def)
    ultimately obtain ys where ys: "heapify zs m cnt sz compare = Some ys" "length ys = length zs"
      "heap_from (el ys sz) cnt i0" "mset (els (el ys sz) cnt) = mset (els (el zs sz) cnt)"
      "drop (cnt * sz) ys = drop (cnt * sz) zs"
      using less.hyps [of m zs] less.prems(2) c(2) by blast
    have "els (el zs sz) cnt = els (swap_el (el xs sz) i m) cnt" by (rule els_cong) (rule zs(3))
    then have "mset (els (el zs sz) cnt) = mset (els (el xs sz) cnt)"
      using mset_els_swap i less.prems(4) mi c(2) False by metis
    moreover have "heapify xs i cnt sz compare = Some ys"
      using m(1) False zs(1) ys(1) by (simp add: heapify.simps [of xs i])
    ultimately show ?thesis using ys zs(2,4) by auto
  qed
qed

lemma build_heap_run:
  assumes "fits xs cnt sz" and "i \<le> cnt" and "heap_from (el xs sz) cnt (i + 1)"
  shows "\<exists>ys. build_heap xs i cnt sz compare = Some ys \<and> length ys = length xs \<and> heap_from (el ys sz) cnt 1 \<and>
    mset (els (el ys sz) cnt) = mset (els (el xs sz) cnt) \<and> drop (cnt * sz) ys = drop (cnt * sz) xs"
  using assms
proof (induction i arbitrary: xs)
  case (Suc i)
  have "sift (el xs sz) cnt (Suc i) (Suc i)" using Suc.prems(3) by (intro sift_start) simp_all
  from heapify_run [OF Suc.prems(1) _ order.refl Suc.prems(2) this] obtain zs where zs:
    "heapify xs (Suc i) cnt sz compare = Some zs" "length zs = length xs" "heap_from (el zs sz) cnt (Suc i)"
    "mset (els (el zs sz) cnt) = mset (els (el xs sz) cnt)" "drop (cnt * sz) zs = drop (cnt * sz) xs" by auto
  have "fits zs cnt sz" using Suc.prems(1) zs(2) by (simp add: fits_def)
  from Suc.IH [OF this] Suc.prems(2) zs show ?case by auto
qed simp

text \<open>The state of the second loop: a heap of \<open>i\<close> elements, none larger than the sorted rest.\<close>

definition sorted_from :: "(nat \<Rightarrow> 'b list) \<Rightarrow> nat \<Rightarrow> nat \<Rightarrow> bool" where
  "sorted_from E i n \<longleftrightarrow> (\<forall>k m. 1 \<le> k \<longrightarrow> k < m \<longrightarrow> i < m \<longrightarrow> m \<le> n \<longrightarrow> compare (E k) (E m) \<le> 0)"

lemma els_perm:
  assumes "mset (els E n) = mset (els F n)" and "1 \<le> k" "k \<le> n"
  shows "\<exists>j. 1 \<le> j \<and> j \<le> n \<and> E k = F j"
proof -
  have "E k \<in> set (els E n)" using assms(2,3) by (auto simp: els_def intro!: image_eqI [of _ _ "k - 1"])
  then have "E k \<in> set (els F n)" using assms(1) by (metis mset_eq_setD)
  then obtain m where "m < n" "E k = F (Suc m)" by (auto simp: els_def)
  then show ?thesis by (intro exI [of _ "Suc m"]) simp
qed

lemma sort_heap_run:
  assumes "fits xs n sz" and "i \<le> n" and "heap_from (el xs sz) i 1" and "sorted_from (el xs sz) i n"
  shows "\<exists>ys. sort_heap xs i sz compare = Some ys \<and> length ys = length xs \<and> sorted_from (el ys sz) 1 n \<and>
    mset (els (el ys sz) n) = mset (els (el xs sz) n) \<and> drop (n * sz) ys = drop (n * sz) xs"
  using assms
proof (induction i arbitrary: xs)
  case 0
  then show ?case by (simp add: sort_heap.simps sorted_from_def)
next
  case (Suc i)
  show ?case
  proof (cases "i = 0")
    case True
    then show ?thesis using Suc.prems(4) by (simp add: sort_heap.simps)
  next
    case False
    let ?E = "el xs sz"
    have i: "1 \<le> Suc i" "Suc i \<le> n" "1 \<le> n" "(1::nat) \<noteq> Suc i" "1 \<le> i" "i \<le> n" using Suc.prems(2) False by auto
    from do_swap_run [OF Suc.prems(1) order.refl i(3) i(1,2,4)] obtain zs where zs:
      "do_swap xs 1 (Suc i) sz = Some zs" "length zs = length xs"
      "\<And>k. 1 \<le> k \<Longrightarrow> k \<le> n \<Longrightarrow> el zs sz k = swap_el ?E 1 (Suc i) k" "drop (n * sz) zs = drop (n * sz) xs" by blast
    have fz: "fits zs n sz" using Suc.prems(1) zs(2) by (simp add: fits_def)
    have "heap_from (el zs sz) i (1 + 1)"
      unfolding heap_from_def parent_def
    proof (intro allI impI ballI)
      fix k c assume k: "1 + 1 \<le> k" "c \<in> {2 * k, 2 * k + 1}" "c \<le> i"
      then have "compare (?E c) (?E k) \<le> 0" using Suc.prems(3) by (auto simp: heap_from_def parent_def)
      moreover have "el zs sz c = ?E c" "el zs sz k = ?E k" using zs(3) k i by (auto simp: swap_el_def)
      ultimately show "compare (el zs sz c) (el zs sz k) \<le> 0" by simp
    qed
    then have "sift (el zs sz) i 1 1" by (rule sift_start [OF order.refl])
    from heapify_run [OF fits_mono [OF fz i(6)] order.refl order.refl i(5) this] obtain ys where ys:
      "heapify zs 1 i sz compare = Some ys" "length ys = length zs" "heap_from (el ys sz) i 1"
      "mset (els (el ys sz) i) = mset (els (el zs sz) i)" "drop (i * sz) ys = drop (i * sz) zs" by auto
    have high: "el ys sz k = el zs sz k" if "i < k" for k using el_drop [OF ys(5) that] .
    have fy: "fits ys n sz" using fz ys(2) by (simp add: fits_def)
    have low: "\<exists>j. 1 \<le> j \<and> j \<le> Suc i \<and> el ys sz k = ?E j" if k: "1 \<le> k" "k \<le> i" for k
    proof -
      obtain j where j: "1 \<le> j" "j \<le> i" "el ys sz k = el zs sz j" using els_perm [OF ys(4) k] by blast
      then have "el zs sz j = (if j = 1 then ?E (Suc i) else ?E j)" using zs(3) [of j] i by (auto simp: swap_el_def)
      then show ?thesis using j by (cases "j = 1") auto
    qed
    have sy: "sorted_from (el ys sz) i n"
      unfolding sorted_from_def
    proof (intro allI impI)
      fix k m assume k: "1 \<le> k" "k < m" "i < m" "m \<le> n"
      have m: "el ys sz m = (if m = Suc i then ?E 1 else ?E m)"
        using high [OF k(3)] zs(3) [of m] k by (auto simp: swap_el_def)
      obtain j where j: "1 \<le> j" "j < m \<or> m = Suc i \<and> j = m" "el ys sz k = ?E j" "j \<le> Suc i \<or> j = k"
      proof (cases "k \<le> i")
        case True
        from low [OF k(1) True] obtain j where "1 \<le> j" "j \<le> Suc i" "el ys sz k = ?E j" by blast
        then show ?thesis using that [of j] k(3) by linarith
      next
        case kf: False
        show ?thesis
        proof (cases "k = Suc i")
          case True
          then have "el ys sz k = ?E 1" using high [of k] zs(3) [of k] k by (auto simp: swap_el_def)
          then show ?thesis using that [of 1] k by auto
        next
          case False
          then have "el ys sz k = ?E k" using high [of k] zs(3) [of k] k kf by (auto simp: swap_el_def)
          then show ?thesis using that [of k] k by auto
        qed
      qed
      show "compare (el ys sz k) (el ys sz m) \<le> 0"
      proof (cases "m = Suc i")
        case True
        then have "compare (?E j) (?E 1) \<le> 0" using heap_root [OF Suc.prems(3) j(1)] j(2) by auto
        with m j True show ?thesis by simp
      next
        case False
        then have "compare (?E j) (?E m) \<le> 0"
          using Suc.prems(4) j k(3,4) unfolding sorted_from_def by auto
        with m j False show ?thesis by simp
      qed
    qed
    from Suc.IH [OF fy i(6) ys(3) sy] obtain us where us: "sort_heap ys i sz compare = Some us"
      "length us = length ys" "sorted_from (el us sz) 1 n" "mset (els (el us sz) n) = mset (els (el ys sz) n)"
      "drop (n * sz) us = drop (n * sz) ys" by blast
    have "drop (n * sz) ys = drop (n * sz) zs" by (rule drop_mono [OF ys(5)]) (rule mult_le_mono1 [OF i(6)])
    moreover have "mset (els (el ys sz) n) = mset (els (el zs sz) n)"
    proof -
      have sp: "els E n = els E i @ map (\<lambda>m. E (Suc m)) [i..<n]" for E :: "nat \<Rightarrow> 'b list"
        unfolding els_def using upt_add_eq_append [of 0 i "n - i"] i(6) by simp
      have "map (\<lambda>m. el ys sz (Suc m)) [i..<n] = map (\<lambda>m. el zs sz (Suc m)) [i..<n]" using high by simp
      then show ?thesis unfolding sp [of "el ys sz"] sp [of "el zs sz"] mset_append ys(4) by (simp only:)
    qed
    moreover have "els (el zs sz) n = els (swap_el ?E 1 (Suc i)) n" by (rule els_cong) (rule zs(3))
    then have "mset (els (el zs sz) n) = mset (els ?E n)"
      using mset_els_swap [OF order.refl i(3) i(1,2) i(4)] by metis
    moreover have "sort_heap xs (Suc i) sz compare = Some us"
      using False zs(1) ys(1) us(1) by (simp add: sort_heap.simps [of xs])
    ultimately show ?thesis using us ys(2) zs(2,4) by auto
  qed
qed

lemma sort_array_run:
  assumes f: "fits xs n sz" and s: "0 < sz"
  shows "\<exists>ys. sort_array xs n sz compare = Some ys \<and> length ys = length xs \<and>
    sorted_wrt (\<lambda>a b. compare a b \<le> 0) (els (el ys sz) n) \<and>
    mset (els (el ys sz) n) = mset (els (el xs sz) n) \<and> drop (n * sz) ys = drop (n * sz) xs"
proof -
  have "heap_from (el xs sz) n (n div 2 + 1)" by (auto simp: heap_from_def parent_def)
  from build_heap_run [OF f _ this] obtain zs where zs: "build_heap xs (n div 2) n sz compare = Some zs"
    "length zs = length xs" "heap_from (el zs sz) n 1" "mset (els (el zs sz) n) = mset (els (el xs sz) n)"
    "drop (n * sz) zs = drop (n * sz) xs" by auto
  have "fits zs n sz" using f zs(2) by (simp add: fits_def)
  moreover have "sorted_from (el zs sz) n n" by (auto simp: sorted_from_def)
  ultimately obtain ys where ys: "sort_heap zs n sz compare = Some ys" "length ys = length zs"
    "sorted_from (el ys sz) 1 n" "mset (els (el ys sz) n) = mset (els (el zs sz) n)"
    "drop (n * sz) ys = drop (n * sz) zs" using sort_heap_run zs(3) by blast
  have "sorted_wrt (\<lambda>a b. compare a b \<le> 0) (els (el ys sz) n)"
    using ys(3) by (auto simp: sorted_wrt_iff_nth_less els_nth sorted_from_def)
  with zs ys s show ?thesis by (simp add: sort_array_def)
qed

text \<open>The binary search keeps the matches between its two bounds, of \<open>a\<close> and \<open>b\<close> elements.\<close>

definition is_match :: "'b list \<Rightarrow> (nat \<Rightarrow> 'b list) \<Rightarrow> nat \<Rightarrow> nat \<Rightarrow> nat option \<Rightarrow> bool" where
  "is_match key E n sz r \<longleftrightarrow> (case r of
     None \<Rightarrow> \<forall>k. 1 \<le> k \<and> k \<le> n \<longrightarrow> compare key (E k) \<noteq> 0
   | Some off \<Rightarrow> \<exists>k. 1 \<le> k \<and> k \<le> n \<and> off = (k - 1) * sz \<and> compare key (E k) = 0)"

lemma binary_search_loop_run:
  assumes "fits xs n sz" and "0 < sz" and "sorted_wrt (\<lambda>a b. compare a b \<le> 0) (els (el xs sz) n)"
    and "a \<le> b" "b \<le> n"
    and "\<forall>k. 1 \<le> k \<and> k \<le> n \<and> compare key (el xs sz k) = 0 \<longrightarrow> a < k \<and> k \<le> b"
  shows "\<exists>r. binary_search_loop key xs (a * sz) (b * sz) sz compare = Some r \<and> is_match key (el xs sz) n sz r"
  using assms(4-)
proof (induction "b - a" arbitrary: a b rule: less_induct)
  case less
  note rec = binary_search_loop.simps [of key xs "a * sz" "b * sz" sz compare]
  show ?case
  proof (cases "a = b")
    case True
    then have "binary_search_loop key xs (a * sz) (b * sz) sz compare = Some None"
      by (subst rec) simp
    moreover have "is_match key (el xs sz) n sz None" using less.prems(3) True by (auto simp: is_match_def)
    ultimately show ?thesis by blast
  next
    case False
    let ?m = "a + (b - a) div 2"
    have ab: "a < b" "a * sz < b * sz" using False less.prems(1) assms(2) by auto
    have m: "a \<le> ?m" "?m < b" "Suc ?m \<le> n" using ab less.prems(2) by auto
    have "(b * sz - a * sz) div sz = b - a" using assms(2) by (simp flip: diff_mult_distrib)
    then have mid: "a * sz + ((b * sz - a * sz) div sz div 2) * sz = ?m * sz" by (simp add: add_mult_distrib)
    have "Suc ?m * sz \<le> length xs" using assms(1) m(3) unfolding fits_def by (meson le_trans mult_le_mono1)
    then have fit: "?m * sz + sz \<le> length xs" by simp
    have el: "take sz (drop (?m * sz) xs) = el xs sz (Suc ?m)" by (simp add: el_def)
    let ?c = "compare key (el xs sz (Suc ?m))"
    have srt: "compare (el xs sz i) (el xs sz j) \<le> 0" if "1 \<le> i" "i < j" "j \<le> n" for i j
    proof -
      have "i - 1 < j - 1" "j - 1 < n" using that by auto
      then have "compare (els (el xs sz) n ! (i - 1)) (els (el xs sz) n ! (j - 1)) \<le> 0"
        using assms(3) by (simp add: sorted_wrt_iff_nth_less)
      then show ?thesis using that by (simp add: els_nth)
    qed
    have step: "binary_search_loop key xs (a * sz) (b * sz) sz compare =
      (if ?c < 0 then binary_search_loop key xs (a * sz) (?m * sz) sz compare
       else if ?c > 0 then binary_search_loop key xs (?m * sz + sz) (b * sz) sz compare
       else Some (Some (?m * sz)))"
      unfolding rec if_P [OF ab(2)] Let_def mid using fit by (simp add: el)
    consider "?c < 0" | "?c > 0" | "?c = 0" by linarith
    then show ?thesis
    proof cases
      case 1
      have "a < k \<and> k \<le> ?m" if k: "1 \<le> k" "k \<le> n" "compare key (el xs sz k) = 0" for k
      proof -
        have "\<not> Suc ?m \<le> k"
        proof
          assume "Suc ?m \<le> k"
          then have "k = Suc ?m \<or> compare (el xs sz (Suc ?m)) (el xs sz k) \<le> 0" using srt [of "Suc ?m" k] k(2) by force
          then have "compare (el xs sz (Suc ?m)) key \<le> 0" using k(3) 1 eq_le by auto
          then show False using 1 flip [of "el xs sz (Suc ?m)" key] by linarith
        qed
        then show ?thesis using less.prems(3) k by auto
      qed
      then have "\<exists>r. binary_search_loop key xs (a * sz) (?m * sz) sz compare = Some r \<and> is_match key (el xs sz) n sz r"
        using m ab less.prems(2) by (intro less.hyps) auto
      with step 1 show ?thesis by simp
    next
      case 2
      have "Suc ?m < k \<and> k \<le> b" if k: "1 \<le> k" "k \<le> n" "compare key (el xs sz k) = 0" for k
      proof -
        have "\<not> k \<le> Suc ?m"
        proof
          assume "k \<le> Suc ?m"
          then have "k = Suc ?m \<or> compare (el xs sz k) (el xs sz (Suc ?m)) \<le> 0" using srt [of k "Suc ?m"] k(1) m(3) by force
          then have "compare key (el xs sz (Suc ?m)) \<le> 0"
            using k(3) 2 trans_le [of key "el xs sz k" "el xs sz (Suc ?m)"] by auto
          then show False using 2 by linarith
        qed
        then show ?thesis using less.prems(3) k by auto
      qed
      then have "\<exists>r. binary_search_loop key xs (Suc ?m * sz) (b * sz) sz compare = Some r \<and> is_match key (el xs sz) n sz r"
        using m ab less.prems(2) by (intro less.hyps) auto
      moreover have "Suc ?m * sz = ?m * sz + sz" by simp
      ultimately show ?thesis using step 2 by (simp only: if_False if_True not_less less_imp_le) simp
    next
      case 3
      then have "binary_search_loop key xs (a * sz) (b * sz) sz compare = Some (Some (?m * sz))" using step by simp
      moreover have "1 \<le> Suc ?m \<and> Suc ?m \<le> n \<and> ?m * sz = (Suc ?m - 1) * sz \<and> ?c = 0" using m 3 by simp
      then have "is_match key (el xs sz) n sz (Some (?m * sz))"
        unfolding is_match_def option.case by (rule exI)
      ultimately show ?thesis by blast
    qed
  qed
qed

end

subsection \<open>Comparing integers\<close>

text \<open>
  The comparison function of \<open>tests/internal/stdlib.c\<close> on the bytes of two \<open>int\<close> objects, the least
  significant byte first. It satisfies the contract of the sorting and searching functions.
\<close>

primrec int_of_bytes :: "byte list \<Rightarrow> 32 word" where
  "int_of_bytes [] = 0"
| "int_of_bytes (b # bs) = ucast b + 256 * int_of_bytes bs"

definition compare_ints :: "byte list \<Rightarrow> byte list \<Rightarrow> int" where
  "compare_ints a b =
     (if sint (int_of_bytes a) < sint (int_of_bytes b) then - 1
      else if sint (int_of_bytes a) > sint (int_of_bytes b) then 1 else 0)"

interpretation ints: array_comparison compare_ints
  by unfold_locales (auto simp: compare_ints_def split: if_splits)

subsection \<open>Properties\<close>

text \<open>C24: the heap sort terminates, stays inside the array and sorts: for elements of any non-zero size
  and any total preorder given by the comparison function, the first \<open>n\<close> elements come out in order,
  as a permutation of what they were, and the bytes behind them are untouched.\<close>

theorem sort_array_correct:
  assumes "array_comparison compare" and "n * sz \<le> length xs" and "0 < sz"
  shows "\<exists>ys. qsort xs n sz compare = Some ys \<and> length ys = length xs \<and>
    sorted_wrt (\<lambda>a b. compare a b \<le> 0) (els (el ys sz) n) \<and>
    mset (els (el ys sz) n) = mset (els (el xs sz) n) \<and> drop (n * sz) ys = drop (n * sz) xs"
  using array_comparison.sort_array_run [OF assms(1), of xs n sz] assms(2,3)
  by (simp add: fits_def qsort_def compare_thunk_def)

definition ex_ints :: "byte list" where
  "ex_ints = [9, 0, 0, 0, 255, 255, 255, 255, 4, 0, 0, 0, 7]"

theorem sort_array_correct_witness:
  "\<exists>ys. qsort ex_ints 3 4 compare_ints = Some ys \<and> length ys = length ex_ints \<and>
    sorted_wrt (\<lambda>a b. compare_ints a b \<le> 0) (els (el ys 4) 3) \<and>
    mset (els (el ys 4) 3) = mset (els (el ex_ints 4) 3) \<and> drop (3 * 4) ys = drop (3 * 4) ex_ints"
  by (rule sort_array_correct [OF ints.array_comparison_axioms]) (simp_all add: ex_ints_def)

text \<open>the binary search in a sorted array terminates, reads only the array, and finds an element
  that compares equal to the key exactly when there is one.\<close>

theorem bsearch_correct:
  assumes "array_comparison compare" and "n * sz \<le> length xs" and "0 < sz"
    and "sorted_wrt (\<lambda>a b. compare a b \<le> 0) (els (el xs sz) n)"
  shows "\<exists>r. bsearch key xs n sz compare = Some r \<and>
    (case r of None \<Rightarrow> \<forall>k \<in> {1..n}. compare key (el xs sz k) \<noteq> 0
     | Some off \<Rightarrow> \<exists>k \<in> {1..n}. off = (k - 1) * sz \<and> compare key (el xs sz k) = 0)"
proof -
  have f: "fits xs n sz" using assms(2) by (simp add: fits_def)
  have b: "binary_search_loop key xs 0 (n * sz) sz compare = bsearch key xs n sz compare"
    by (simp add: bsearch_def binary_search_def compare_thunk_def mult.commute)
  obtain r where r: "bsearch key xs n sz compare = Some r"
    and m: "array_comparison.is_match compare key (el xs sz) n sz r"
    using array_comparison.binary_search_loop_run [OF assms(1) f assms(3,4), of 0 n key] b by auto
  show ?thesis
    using r m unfolding array_comparison.is_match_def [OF assms(1)]
    by (intro exI [of _ r]) (auto split: option.splits)
qed

definition ex_sorted :: "byte list" where
  "ex_sorted = [255, 255, 255, 255, 4, 0, 0, 0, 9, 0, 0, 0]"

theorem bsearch_correct_witness:
  "\<exists>r. bsearch [9, 0, 0, 0] ex_sorted 3 4 compare_ints = Some r \<and>
    (case r of None \<Rightarrow> \<forall>k \<in> {1..3}. compare_ints [9, 0, 0, 0] (el ex_sorted 4 k) \<noteq> 0
     | Some off \<Rightarrow> \<exists>k \<in> {1..3}. off = (k - 1) * 4 \<and> compare_ints [9, 0, 0, 0] (el ex_sorted 4 k) = 0)"
proof (rule bsearch_correct [OF ints.array_comparison_axioms])
  show "sorted_wrt (\<lambda>a b. compare_ints a b \<le> 0) (els (el ex_sorted 4) 3)"
    by (simp add: els_def el_def ex_sorted_def compare_ints_def upt_rec)
qed (simp_all add: ex_sorted_def)

end
