(* ===== verification/Stdio.thy ===== *)
theory Stdio
  imports Stdlib
begin

text \<open>
  Formatted output, \<open>pintos/lib/stdio.c\<close>. The state of an output function is the memory with the
  function's auxiliary data; the model of a conversion threads it through every character written.
  Arguments of a variadic call are 64-bit words, of which a conversion takes what its type says. A read
  outside the memory, a write outside the conversion buffer of 64 bytes and a missing argument yield
  \<open>None\<close>. String literals of the program are a source of characters of their own.
\<close>

unbundle bit_operations_syntax

type_synonym 'a out = "byte \<Rightarrow> bmem \<times> 'a \<Rightarrow> (bmem \<times> 'a) option"

type_synonym va_list = "64 word list"

definition va_arg :: "va_list \<Rightarrow> (64 word \<times> va_list) option" where
  "va_arg args = (case args of [] \<Rightarrow> None | a # as \<Rightarrow> Some (a, as))"

datatype source = Mem | Lit "byte list"

definition fetch :: "source \<Rightarrow> bmem \<Rightarrow> bmem" where
  "fetch src m = (case src of Mem \<Rightarrow> m
     | Lit bs \<Rightarrow> (\<lambda>p. if 1 \<le> p \<and> p \<le> length bs then Some (bs ! (p - 1)) else None))"

definition str :: "string \<Rightarrow> byte list" where
  "str s = map of_char s @ [0]"

subsection \<open>Conversions\<close>

datatype int_type = T_CHAR | T_SHORT | T_INT | T_INTMAX | T_LONG | T_LONGLONG | T_PTRDIFFT | T_SIZET

record printf_conversion =
  flags :: "32 word"
  width :: "32 word"
  precision :: "32 word"
  conv_type :: int_type

definition MINUS :: "32 word" where "MINUS = 1"
definition PLUS :: "32 word" where "PLUS = 2"
definition SPACE :: "32 word" where "SPACE = 4"
definition POUND :: "32 word" where "POUND = 8"
definition ZERO :: "32 word" where "ZERO = 16"
definition GROUP :: "32 word" where "GROUP = 32"

definition flag :: "printf_conversion \<Rightarrow> 32 word \<Rightarrow> bool" where
  "flag c f \<longleftrightarrow> flags c AND f \<noteq> 0"

record integer_base =
  base :: "64 word"
  digits :: "byte list"
  base_x :: byte
  group_size :: nat

definition base_d :: integer_base where
  "base_d = \<lparr>base = 10, digits = map of_char ''0123456789'', base_x = 0, group_size = 3\<rparr>"

definition base_o :: integer_base where
  "base_o = \<lparr>base = 8, digits = map of_char ''01234567'', base_x = 0, group_size = 3\<rparr>"

definition base_lx :: integer_base where
  "base_lx = \<lparr>base = 16, digits = map of_char ''0123456789abcdef'', base_x = of_char CHR ''x'', group_size = 4\<rparr>"

definition base_ux :: integer_base where
  "base_ux = \<lparr>base = 16, digits = map of_char ''0123456789ABCDEF'', base_x = of_char CHR ''X'', group_size = 4\<rparr>"

subsection \<open>Parsing a conversion\<close>

definition flag_of :: "byte \<Rightarrow> 32 word option" where
  "flag_of b =
     (if b = of_char CHR ''-'' then Some MINUS
      else if b = of_char CHR ''+'' then Some PLUS
      else if b = of_char CHR '' '' then Some SPACE
      else if b = of_char CHR ''#'' then Some POUND
      else if b = of_char CHR ''0'' then Some ZERO
      else if b = 39 then Some GROUP
      else None)"

partial_function (option) parse_flags :: "bmem \<Rightarrow> addr \<Rightarrow> 32 word \<Rightarrow> (addr \<times> 32 word) option" where
  "parse_flags m format fl = do {
     b \<leftarrow> ldb m format;
     case flag_of b of
       Some f \<Rightarrow> parse_flags m (format + 1) (fl OR f)
     | None \<Rightarrow> Some (format, fl)
   }"

partial_function (option) parse_number :: "bmem \<Rightarrow> addr \<Rightarrow> 32 word \<Rightarrow> (addr \<times> 32 word) option" where
  "parse_number m format n = do {
     b \<leftarrow> ldb m format;
     if isdigit (sint b) then parse_number m (format + 1) (n * 10 + scast b - of_char CHR ''0'')
     else Some (format, n)
   }"

definition parse_width ::
    "bmem \<Rightarrow> addr \<Rightarrow> 32 word \<Rightarrow> va_list \<Rightarrow> (addr \<times> 32 word \<times> 32 word \<times> va_list) option" where
  "parse_width m format fl args = do {
     b \<leftarrow> ldb m format;
     (format, wd, args) \<leftarrow>
       (if b = of_char CHR ''*'' then do {
          (a, args) \<leftarrow> va_arg args;
          Some (format + 1, ucast a, args)
        } else do {
          (format, wd) \<leftarrow> parse_number m format 0;
          Some (format, wd, args)
        });
     if sint wd < 0 then Some (format, fl OR MINUS, - wd, args) else Some (format, fl, wd, args)
   }"

definition parse_precision ::
    "bmem \<Rightarrow> addr \<Rightarrow> va_list \<Rightarrow> (addr \<times> 32 word \<times> va_list) option" where
  "parse_precision m format args = do {
     b \<leftarrow> ldb m format;
     if b = of_char CHR ''.'' then do {
       b \<leftarrow> ldb m (format + 1);
       (format, pr, args) \<leftarrow>
         (if b = of_char CHR ''*'' then do {
            (a, args) \<leftarrow> va_arg args;
            Some (format + 2, ucast a, args)
          } else do {
            (format, pr) \<leftarrow> parse_number m (format + 1) 0;
            Some (format, pr, args)
          });
       Some (format, if sint pr < 0 then - 1 else pr, args)
     } else Some (format, - 1, args)
   }"

definition parse_type :: "bmem \<Rightarrow> addr \<Rightarrow> (addr \<times> int_type) option" where
  "parse_type m format = do {
     b \<leftarrow> ldb m format;
     if b = of_char CHR ''h'' then do {
       b \<leftarrow> ldb m (format + 1);
       Some (if b = of_char CHR ''h'' then (format + 2, T_CHAR) else (format + 1, T_SHORT))
     }
     else if b = of_char CHR ''j'' then Some (format + 1, T_INTMAX)
     else if b = of_char CHR ''l'' then do {
       b \<leftarrow> ldb m (format + 1);
       Some (if b = of_char CHR ''l'' then (format + 2, T_LONGLONG) else (format + 1, T_LONG))
     }
     else if b = of_char CHR ''t'' then Some (format + 1, T_PTRDIFFT)
     else if b = of_char CHR ''z'' then Some (format + 1, T_SIZET)
     else Some (format, T_INT)
   }"

definition parse_conversion :: "bmem \<Rightarrow> addr \<Rightarrow> va_list \<Rightarrow> (addr \<times> printf_conversion \<times> va_list) option" where
  "parse_conversion m format args = do {
     (format, fl) \<leftarrow> parse_flags m format 0;
     let fl = (if fl AND MINUS \<noteq> 0 then fl AND NOT ZERO else fl);
     let fl = (if fl AND PLUS \<noteq> 0 then fl AND NOT SPACE else fl);
     (format, fl, wd, args) \<leftarrow> parse_width m format fl args;
     (format, pr, args) \<leftarrow> parse_precision m format args;
     let fl = (if sint pr \<ge> 0 then fl AND NOT ZERO else fl);
     (format, ty) \<leftarrow> parse_type m format;
     Some (format, \<lparr>flags = fl, width = wd, precision = pr, conv_type = ty\<rparr>, args)
   }"

subsection \<open>Integers\<close>

primrec output_dup :: "'a out \<Rightarrow> byte \<Rightarrow> nat \<Rightarrow> bmem \<times> 'a \<Rightarrow> (bmem \<times> 'a) option" where
  "output_dup output ch 0 s = Some s"
| "output_dup output ch (Suc cnt) s = do { s \<leftarrow> output ch s; output_dup output ch cnt s }"

text \<open>The conversion buffer \<open>char buf[64]\<close>, up to the current position \<open>cp\<close>.\<close>

definition push :: "byte list \<Rightarrow> byte \<Rightarrow> byte list option" where
  "push buf b = (if length buf < 64 then Some (buf @ [b]) else None)"

partial_function (option) digits_loop ::
    "integer_base \<Rightarrow> bool \<Rightarrow> 64 word \<Rightarrow> nat \<Rightarrow> byte list \<Rightarrow> byte list option" where
  "digits_loop b grouped v digit_cnt buf =
     (if v > 0 then do {
        buf \<leftarrow> (if grouped \<and> digit_cnt > 0 \<and> digit_cnt mod group_size b = 0
                then push buf (of_char CHR '','') else Some buf);
        ASSERTION (unat (v mod base b) < length (digits b));
        buf \<leftarrow> push buf (digits b ! unat (v mod base b));
        digits_loop b grouped (v div base b) (digit_cnt + 1) buf
      } else Some buf)"

partial_function (option) zeros_loop :: "32 word \<Rightarrow> byte list \<Rightarrow> byte list option" where
  "zeros_loop prec buf =
     (if int (length buf) < sint prec \<and> length buf < 63
      then do { buf \<leftarrow> push buf (of_char CHR ''0''); zeros_loop prec buf }
      else Some buf)"

text \<open>The buffer from its last character to its first.\<close>

primrec output_list :: "'a out \<Rightarrow> byte list \<Rightarrow> bmem \<times> 'a \<Rightarrow> (bmem \<times> 'a) option" where
  "output_list output [] s = Some s"
| "output_list output (b # bs) s = do { s \<leftarrow> output b s; output_list output bs s }"

definition sign_char :: "bool \<Rightarrow> bool \<Rightarrow> printf_conversion \<Rightarrow> byte" where
  "sign_char is_signed negative c =
     (if is_signed then
        if flag c PLUS then if negative then of_char CHR ''-'' else of_char CHR ''+''
        else if flag c SPACE then if negative then of_char CHR ''-'' else of_char CHR '' ''
        else if negative then of_char CHR ''-'' else 0
      else 0)"

definition format_integer ::
    "64 word \<Rightarrow> bool \<Rightarrow> bool \<Rightarrow> integer_base \<Rightarrow> printf_conversion \<Rightarrow> 'a out \<Rightarrow> bmem \<times> 'a \<Rightarrow> (bmem \<times> 'a) option" where
  "format_integer val is_signed negative b c output s = do {
     let sign = sign_char is_signed negative c;
     let x = (if flag c POUND \<and> val \<noteq> 0 then base_x b else 0);
     buf \<leftarrow> digits_loop b (flag c GROUP) val 0 [];
     let prec = (if sint (precision c) < 0 then 1 else precision c);
     buf \<leftarrow> zeros_loop prec buf;
     buf \<leftarrow> (if flag c POUND \<and> base b = 8 \<and> (buf = [] \<or> last buf \<noteq> of_char CHR ''0'')
             then push buf (of_char CHR ''0'') else Some buf);
     let pad_cnt = (word_of_int (sint (width c) - int (length buf) - (if x \<noteq> 0 then 2 else 0)
                      - (if sign \<noteq> 0 then 1 else 0)) :: 32 word);
     let pad_cnt = (if sint pad_cnt < 0 then 0 else pad_cnt);
     s \<leftarrow> (if flags c AND (MINUS OR ZERO) = 0 then output_dup output (of_char CHR '' '') (unat pad_cnt) s else Some s);
     s \<leftarrow> (if sign \<noteq> 0 then output sign s else Some s);
     s \<leftarrow> (if x \<noteq> 0 then do { s \<leftarrow> output (of_char CHR ''0'') s; output x s } else Some s);
     s \<leftarrow> (if flag c ZERO then output_dup output (of_char CHR ''0'') (unat pad_cnt) s else Some s);
     s \<leftarrow> output_list output (rev buf) s;
     if flag c MINUS then output_dup output (of_char CHR '' '') (unat pad_cnt) s else Some s
   }"

subsection \<open>Strings\<close>

primrec output_string :: "source \<Rightarrow> 'a out \<Rightarrow> addr \<Rightarrow> nat \<Rightarrow> bmem \<times> 'a \<Rightarrow> (bmem \<times> 'a) option" where
  "output_string src output p 0 s = Some s"
| "output_string src output p (Suc n) s = do {
     b \<leftarrow> ldb (fetch src (fst s)) p;
     s \<leftarrow> output b s;
     output_string src output (p + 1) n s
   }"

text \<open>The field width is padded with blanks on the left or on the right; a length is an \<open>int\<close>.\<close>

definition format_string ::
    "source \<Rightarrow> addr \<Rightarrow> 32 word \<Rightarrow> printf_conversion \<Rightarrow> 'a out \<Rightarrow> bmem \<times> 'a \<Rightarrow> (bmem \<times> 'a) option" where
  "format_string src string' len c output s = do {
     s \<leftarrow> (if sint (width c) > sint len \<and> \<not> flag c MINUS
           then output_dup output (of_char CHR '' '') (nat (sint (width c) - sint len)) s else Some s);
     s \<leftarrow> output_string src output string' (nat (sint len)) s;
     if sint (width c) > sint len \<and> flag c MINUS
     then output_dup output (of_char CHR '' '') (nat (sint (width c) - sint len)) s else Some s
   }"

subsection \<open>The interpreter of formats\<close>

definition SIZE_MAX :: "64 word" where
  "SIZE_MAX = 2 ^ 32 - 1"

definition PTRDIFF_MAX :: "64 word" where
  "PTRDIFF_MAX = 2 ^ 31 - 1"

definition signed_arg :: "int_type \<Rightarrow> 64 word \<Rightarrow> 64 word" where
  "signed_arg ty a = (case ty of
       T_CHAR \<Rightarrow> scast (ucast a :: 8 word)
     | T_SHORT \<Rightarrow> scast (ucast a :: 16 word)
     | T_INT \<Rightarrow> scast (ucast a :: 32 word)
     | T_SIZET \<Rightarrow> if sint a > sint (SIZE_MAX div 2) then a - SIZE_MAX - 1 else a
     | _ \<Rightarrow> a)"

definition unsigned_arg :: "int_type \<Rightarrow> 64 word \<Rightarrow> 64 word" where
  "unsigned_arg ty a = (case ty of
       T_CHAR \<Rightarrow> ucast (ucast a :: 8 word)
     | T_SHORT \<Rightarrow> ucast (ucast a :: 16 word)
     | T_INT \<Rightarrow> ucast (ucast a :: 32 word)
     | T_PTRDIFFT \<Rightarrow> a AND (push_bit 1 PTRDIFF_MAX OR 1)
     | _ \<Rightarrow> a)"

definition base_of :: "byte \<Rightarrow> integer_base" where
  "base_of b = (if b = of_char CHR ''o'' then base_o else if b = of_char CHR ''u'' then base_d
     else if b = of_char CHR ''x'' then base_lx else base_ux)"

definition is_char :: "byte \<Rightarrow> string \<Rightarrow> bool" where
  "is_char b s \<longleftrightarrow> b \<in> of_char ` set s"

text \<open>
  One conversion with the conversion character \<open>b\<close>; \<open>again\<close> is the recursive call of \<open>__printf\<close> for the
  messages about conversions the kernel does not have, on a literal format with one argument.
\<close>

definition conversion ::
    "(source \<Rightarrow> va_list \<Rightarrow> bmem \<times> 'a \<Rightarrow> (bmem \<times> 'a) option) \<Rightarrow>
     byte \<Rightarrow> printf_conversion \<Rightarrow> va_list \<Rightarrow> 'a out \<Rightarrow> bmem \<times> 'a \<Rightarrow> ((bmem \<times> 'a) \<times> va_list) option" where
  "conversion again b c args output s =
     (if is_char b ''di'' then do {
        (a, args) \<leftarrow> va_arg args;
        let v = signed_arg (conv_type c) a;
        s \<leftarrow> format_integer (if sint v < 0 then - v else v) True (sint v < 0) base_d c output s;
        Some (s, args)
      }
      else if is_char b ''ouxX'' then do {
        (a, args) \<leftarrow> va_arg args;
        s \<leftarrow> format_integer (unsigned_arg (conv_type c) a) False False (base_of b) c output s;
        Some (s, args)
      }
      else if is_char b ''c'' then do {
        (a, args) \<leftarrow> va_arg args;
        s \<leftarrow> format_string (Lit [ucast a]) 1 1 c output s;
        Some (s, args)
      }
      else if is_char b ''s'' then do {
        (a, args) \<leftarrow> va_arg args;
        let (src, p) = (if a = 0 then (Lit (str ''(null)''), 1) else (Mem, unat a));
        len \<leftarrow> strnlen (fetch src (fst s)) p (unat (scast (precision c) :: 64 word));
        s \<leftarrow> format_string src p (word_of_nat len) c output s;
        Some (s, args)
      }
      else if is_char b ''p'' then do {
        (a, args) \<leftarrow> va_arg args;
        s \<leftarrow> format_integer a False False base_lx (c\<lparr>flags := POUND\<rparr>) output s;
        Some (s, args)
      }
      else if is_char b ''feEgGn'' then do {
        s \<leftarrow> again (Lit (str ''<<no %%%c in kernel>>'')) [ucast b] s;
        Some (s, args)
      }
      else do {
        s \<leftarrow> again (Lit (str ''<<no %%%c conversion>>'')) [ucast b] s;
        Some (s, args)
      })"

lemma conversion_mono [partial_function_mono]:
  assumes "\<And>src args s. mono_option (\<lambda>f. again f src args s)"
  shows "mono_option (\<lambda>f. conversion (again f) b c args output s)"
  unfolding conversion_def Let_def case_prod_beta
  by (intro partial_function_mono assms)

partial_function (option) vprintf ::
    "source \<Rightarrow> addr \<Rightarrow> va_list \<Rightarrow> 'a out \<Rightarrow> bmem \<times> 'a \<Rightarrow> (bmem \<times> 'a) option" where
  "vprintf src format args output s = do {
     b \<leftarrow> ldb (fetch src (fst s)) format;
     if b = 0 then Some s
     else if b \<noteq> of_char CHR ''%'' then do {
       s \<leftarrow> output b s;
       vprintf src (format + 1) args output s
     }
     else do {
       b \<leftarrow> ldb (fetch src (fst s)) (format + 1);
       if b = of_char CHR ''%'' then do {
         s \<leftarrow> output (of_char CHR ''%'') s;
         vprintf src (format + 2) args output s
       }
       else do {
         (format, c, args) \<leftarrow> parse_conversion (fetch src (fst s)) (format + 1) args;
         b \<leftarrow> ldb (fetch src (fst s)) format;
         (s, args) \<leftarrow> conversion (\<lambda>src args s. vprintf src 1 args output s) b c args output s;
         vprintf src (format + 1) args output s
       }
     }
   }"

subsection \<open>Output into a buffer\<close>

record vsnprintf_aux =
  aux_p :: addr
  aux_length :: "32 word"
  max_length :: "32 word"

definition vsnprintf_helper :: "vsnprintf_aux out" where
  "vsnprintf_helper ch = (\<lambda>(m, aux). do {
     let len = aux_length aux;
     let aux = aux\<lparr>aux_length := len + 1\<rparr>;
     if sint len < sint (max_length aux) then do {
       m \<leftarrow> stb m (aux_p aux) ch;
       Some (m, aux\<lparr>aux_p := aux_p aux + 1\<rparr>)
     } else Some (m, aux)
   })"

definition vsnprintf :: "bmem \<Rightarrow> addr \<Rightarrow> nat \<Rightarrow> addr \<Rightarrow> va_list \<Rightarrow> (bmem \<times> 32 word) option" where
  "vsnprintf m buffer buf_size format args = do {
     let aux = \<lparr>aux_p = buffer, aux_length = 0,
                max_length = (if buf_size > 0 then word_of_nat (buf_size - 1) else 0)\<rparr>;
     (m, aux) \<leftarrow> vprintf Mem format args vsnprintf_helper (m, aux);
     m \<leftarrow> (if buf_size > 0 then stb m (aux_p aux) 0 else Some m);
     Some (m, aux_length aux)
   }"

definition snprintf :: "bmem \<Rightarrow> addr \<Rightarrow> nat \<Rightarrow> addr \<Rightarrow> va_list \<Rightarrow> (bmem \<times> 32 word) option" where
  "snprintf m buffer buf_size format args = vsnprintf m buffer buf_size format args"

subsection \<open>Reading from a larger memory\<close>

named_theorems mem_mono "results of reads do not change when the memory grows"

lemma ldb_mono [mem_mono]: "m \<subseteq>\<^sub>m m' \<Longrightarrow> opt_sim (=) (ldb m p) (ldb m' p)"
  by (rule opt_simI) (auto simp: ldb_def map_le_def dom_def)

lemma fetch_mono: "m \<subseteq>\<^sub>m m' \<Longrightarrow> fetch src m \<subseteq>\<^sub>m fetch src m'"
  by (cases src) (simp_all add: fetch_def)

lemma va_arg_mono [mem_mono]: "opt_sim (=) (va_arg args) (va_arg args)"
  by (rule opt_sim_refl) simp

lemma strnlen_loop_mono:
  "strnlen_loop m p k j = Some n \<Longrightarrow> m \<subseteq>\<^sub>m m' \<Longrightarrow> strnlen_loop m' p k j = Some n"
proof (induction m p k j n rule: strnlen_loop.raw_induct [rotated 1, consumes 1, case_names rec])
  case (rec f m p k j n)
  have "opt_sim (=) (do { b \<leftarrow> ldb m (p + j); if b \<noteq> 0 \<and> j < k then f m p k (j + 1) else Some j })
     (strnlen_loop m' p k j)"
    unfolding strnlen_loop.simps [of m' p k j]
    by (intro sim_intros mem_mono rec.prems opt_simI [of "f m p k (j + 1)"] refl) (use rec in auto)
  with rec(2) show ?case by (blast dest: opt_sim_eqD)
qed

lemma strnlen_mono [mem_mono]: "m \<subseteq>\<^sub>m m' \<Longrightarrow> opt_sim (=) (strnlen m p k) (strnlen m' p k)"
  unfolding strnlen_def by (intro opt_simI) (auto dest: strnlen_loop_mono)

lemma parse_flags_loop_mono:
  "parse_flags m p fl = Some r \<Longrightarrow> m \<subseteq>\<^sub>m m' \<Longrightarrow> parse_flags m' p fl = Some r"
proof (induction m p fl r rule: parse_flags.raw_induct [rotated 1, consumes 1, case_names rec])
  case (rec f m p fl r)
  have "opt_sim (=) (do { b \<leftarrow> ldb m p; case flag_of b of None \<Rightarrow> Some (p, fl) | Some g \<Rightarrow> f m (p + 1) (fl OR g) })
     (parse_flags m' p fl)"
    unfolding parse_flags.simps [of m' p fl]
  proof (intro sim_intros mem_mono rec.prems)
    show "opt_sim (=) (case flag_of b of None \<Rightarrow> Some (p, fl) | Some g \<Rightarrow> f m (p + 1) (fl OR g))
       (case flag_of b of None \<Rightarrow> Some (p, fl) | Some f \<Rightarrow> parse_flags m' (p + 1) (fl OR f))" for b
      using rec by (cases "flag_of b") (auto intro: opt_simI)
  qed
  with rec(2) show ?case by (blast dest: opt_sim_eqD)
qed

lemma parse_flags_mono [mem_mono]: "m \<subseteq>\<^sub>m m' \<Longrightarrow> opt_sim (=) (parse_flags m p fl) (parse_flags m' p fl)"
  by (intro opt_simI) (auto dest: parse_flags_loop_mono)

lemma parse_number_loop_mono:
  "parse_number m p n = Some r \<Longrightarrow> m \<subseteq>\<^sub>m m' \<Longrightarrow> parse_number m' p n = Some r"
proof (induction m p n r rule: parse_number.raw_induct [rotated 1, consumes 1, case_names rec])
  case (rec f m p n r)
  have "opt_sim (=) (do { b \<leftarrow> ldb m p; if isdigit (sint b) then f m (p + 1) (n * 10 + scast b - of_char CHR ''0'') else Some (p, n) })
     (parse_number m' p n)"
    unfolding parse_number.simps [of m' p n]
  proof (intro sim_intros mem_mono rec.prems refl)
    show "opt_sim (=) (f m (p + 1) w) (parse_number m' (p + 1) w)" for w
      using rec by (auto intro: opt_simI)
  qed
  with rec(2) show ?case by (blast dest: opt_sim_eqD)
qed

lemma parse_number_mono [mem_mono]: "m \<subseteq>\<^sub>m m' \<Longrightarrow> opt_sim (=) (parse_number m p n) (parse_number m' p n)"
  by (intro opt_simI) (auto dest: parse_number_loop_mono)

lemma parse_width_mono [mem_mono]: "m \<subseteq>\<^sub>m m' \<Longrightarrow> opt_sim (=) (parse_width m p fl args) (parse_width m' p fl args)"
  unfolding parse_width_def case_prod_beta by (intro sim_intros mem_mono refl)

lemma parse_precision_mono [mem_mono]: "m \<subseteq>\<^sub>m m' \<Longrightarrow> opt_sim (=) (parse_precision m p args) (parse_precision m' p args)"
  unfolding parse_precision_def case_prod_beta by (intro sim_intros mem_mono refl)

lemma parse_type_mono [mem_mono]: "m \<subseteq>\<^sub>m m' \<Longrightarrow> opt_sim (=) (parse_type m p) (parse_type m' p)"
  unfolding parse_type_def by (intro sim_intros mem_mono refl)

lemma parse_conversion_mono [mem_mono]:
  "m \<subseteq>\<^sub>m m' \<Longrightarrow> opt_sim (=) (parse_conversion m p args) (parse_conversion m' p args)"
  unfolding parse_conversion_def Let_def case_prod_beta by (intro sim_intros mem_mono refl)

subsection \<open>The output function is an interface\<close>

text \<open>
  The interpreter treats its output function and the auxiliary data as a client does: if one output
  function follows another on related states, so does the whole interpreter.
\<close>

locale out_sim =
  fixes out1 :: "'a out" and out2 :: "'b out" and rel :: "bmem \<times> 'a \<Rightarrow> bmem \<times> 'b \<Rightarrow> bool"
  assumes out: "rel s t \<Longrightarrow> opt_sim rel (out1 b s) (out2 b t)"
    and mem: "rel s t \<Longrightarrow> fst s \<subseteq>\<^sub>m fst t"
begin

lemma bind_out: "opt_sim rel x y \<Longrightarrow> (\<And>s t. rel s t \<Longrightarrow> opt_sim Q (f s) (g t)) \<Longrightarrow>
    opt_sim Q (Option.bind x f) (Option.bind y g)"
  by (rule opt_sim_bind)

lemma fetch_rel: "rel s t \<Longrightarrow> fetch src (fst s) \<subseteq>\<^sub>m fetch src (fst t)"
  by (intro fetch_mono mem)

lemma output_dup_sim: "rel s t \<Longrightarrow> opt_sim rel (output_dup out1 ch n s) (output_dup out2 ch n t)"
  by (induction n arbitrary: s t) (auto intro: opt_sim_Some bind_out out)

lemma output_list_sim: "rel s t \<Longrightarrow> opt_sim rel (output_list out1 bs s) (output_list out2 bs t)"
  by (induction bs arbitrary: s t) (auto intro: opt_sim_Some bind_out out)

lemma output_string_sim:
  "rel s t \<Longrightarrow> opt_sim rel (output_string src out1 p n s) (output_string src out2 p n t)"
proof (induction n arbitrary: s t p)
  case (Suc n)
  show ?case unfolding output_string.simps
    by (intro sim_intros mem_mono fetch_rel Suc.prems bind_out [OF out] Suc.IH)
qed (simp add: opt_sim_Some)

lemma same_sim: "opt_sim (=) x x"
  by (rule opt_sim_refl) simp

lemma format_integer_sim:
  assumes "rel s t"
  shows "opt_sim rel (format_integer v sg ng b c out1 s) (format_integer v sg ng b c out2 t)"
  unfolding format_integer_def Let_def
  by (intro opt_sim_bind_eq [OF same_sim] bind_out opt_sim_if opt_sim_Some output_dup_sim output_list_sim out assms)

lemma format_string_sim:
  assumes "rel s t"
  shows "opt_sim rel (format_string src p len c out1 s) (format_string src p len c out2 t)"
  unfolding format_string_def
  by (intro bind_out opt_sim_if opt_sim_Some output_dup_sim output_string_sim assms)

definition rel' :: "(bmem \<times> 'a) \<times> va_list \<Rightarrow> (bmem \<times> 'b) \<times> va_list \<Rightarrow> bool" where
  "rel' r r' \<longleftrightarrow> rel (fst r) (fst r') \<and> snd r = snd r'"

lemma conversion_sim:
  assumes r: "rel s t" and again: "\<And>src args s t. rel s t \<Longrightarrow> opt_sim rel (again1 src args s) (again2 src args t)"
  shows "opt_sim rel' (conversion again1 b c args out1 s) (conversion again2 b c args out2 t)"
proof -
  have fin: "opt_sim rel x y \<Longrightarrow> opt_sim rel' (do { s \<leftarrow> x; Some (s, a) }) (do { s \<leftarrow> y; Some (s, a) })" for x y a
    by (erule bind_out) (simp add: opt_sim_Some rel'_def)
  have st: "opt_sim (=) (strnlen (fetch src (fst s)) p k) (strnlen (fetch src (fst t)) p k)" for src p k
    by (intro strnlen_mono fetch_rel r)
  show ?thesis
    unfolding conversion_def Let_def case_prod_beta
    by (intro opt_sim_if opt_sim_bind_eq [OF same_sim] opt_sim_bind_eq [OF st] fin
        format_integer_sim format_string_sim again r)
qed

lemma vprintf_loop_sim:
  "vprintf src p args ow s = Some s' \<Longrightarrow> ow = out1 \<Longrightarrow> rel s t \<Longrightarrow>
     \<exists>t'. vprintf src p args out2 t = Some t' \<and> rel s' t'"
proof (induction src p args ow s s' arbitrary: t
    rule: vprintf.raw_induct [rotated 1, consumes 1, case_names rec])
  case (rec f src p args ow s s')
  have IH: "opt_sim rel (f src p args out1 s) (vprintf src p args out2 t)" if "rel s t" for src p args s t
    using rec(1) [of src p args out1 s, OF _ refl that] by (intro opt_simI) blast
  note r = rec.prems(2)
  have fin: "opt_sim rel' x y \<Longrightarrow>
      opt_sim rel (do { (s, args) \<leftarrow> x; f src q args out1 s }) (do { (t, args) \<leftarrow> y; vprintf src q args out2 t })"
    for x y q
    by (erule opt_sim_bind) (auto simp: rel'_def case_prod_beta intro: IH)
  have "opt_sim rel
     (do {
        b \<leftarrow> ldb (fetch src (fst s)) p;
        if b = 0 then Some s
        else if b \<noteq> of_char CHR ''%'' then do { s \<leftarrow> out1 b s; f src (p + 1) args out1 s }
        else do {
          b \<leftarrow> ldb (fetch src (fst s)) (p + 1);
          if b = of_char CHR ''%'' then do { s \<leftarrow> out1 (of_char CHR ''%'') s; f src (p + 2) args out1 s }
          else do {
            (format, c, args) \<leftarrow> parse_conversion (fetch src (fst s)) (p + 1) args;
            b \<leftarrow> ldb (fetch src (fst s)) format;
            (s, args) \<leftarrow> conversion (\<lambda>src args s. f src 1 args out1 s) b c args out1 s;
            f src (format + 1) args out1 s
          }
        }
      })
     (vprintf src p args out2 t)"
    unfolding vprintf.simps [of src p args out2 t]
  proof (intro sim_intros mem_mono fetch_rel r bind_out [OF out] IH)
    show "opt_sim rel
       (case x of (format, c, args) \<Rightarrow> do {
          b \<leftarrow> ldb (fetch src (fst s)) format;
          (s, args) \<leftarrow> conversion (\<lambda>src args s. f src 1 args out1 s) b c args out1 s;
          f src (format + 1) args out1 s
        })
       (case x of (format, c, args) \<Rightarrow> do {
          b \<leftarrow> ldb (fetch src (fst t)) format;
          (s, args) \<leftarrow> conversion (\<lambda>src args s. vprintf src 1 args out2 s) b c args out2 t;
          vprintf src (format + 1) args out2 s
        })" for x
      by (cases x) (auto intro!: sim_intros mem_mono fetch_rel r fin conversion_sim IH)
  qed
  with rec(2) rec.prems(1) show ?case by (blast dest: opt_simD)
qed

lemma vprintf_sim:
  "rel s t \<Longrightarrow> vprintf src p args out1 s = Some s' \<Longrightarrow> \<exists>t'. vprintf src p args out2 t = Some t' \<and> rel s' t'"
  by (rule vprintf_loop_sim [OF _ refl])

end

subsection \<open>The characters a format produces\<close>

text \<open>The output function that only collects: what is written, in order.\<close>

definition collect :: "byte list out" where
  "collect b = (\<lambda>(m, xs). if length xs + 1 < 2 ^ 31 then Some (m, xs @ [b]) else None)"

definition rendered :: "bmem \<Rightarrow> addr \<Rightarrow> va_list \<Rightarrow> byte list option" where
  "rendered m format args = do { (_, xs) \<leftarrow> vprintf Mem format args collect (m, []); Some xs }"

text \<open>
  \<open>vsnprintf\<close> has written the first characters collected, up to its limit, and counted all of them; the
  formats and the strings it reads lie outside its buffer.
\<close>

definition buf_rel :: "bmem \<Rightarrow> addr \<Rightarrow> nat \<Rightarrow> bmem \<times> byte list \<Rightarrow> bmem \<times> vsnprintf_aux \<Rightarrow> bool" where
  "buf_rel m buffer sz = (\<lambda>(cm, xs) (m', aux).
     length xs < 2 ^ 31 \<and> cm = m |` (- {buffer..<buffer + sz}) \<and> dom m' = dom m \<and>
     (\<forall>a. a \<notin> {buffer..<buffer + sz} \<longrightarrow> m' a = m a) \<and>
     aux_length aux = word_of_nat (length xs) \<and> max_length aux = word_of_nat (sz - 1) \<and>
     aux_p aux = buffer + min (length xs) (sz - 1) \<and> bytes m' buffer (take (sz - 1) xs))"

lemma sint_of_nat32: "n < 2 ^ 31 \<Longrightarrow> sint (word_of_nat n :: 32 word) = int n"
  by (simp add: signed_of_nat signed_take_bit_int_eq_self)

lemma bytes_frame: "bytes m p xs \<Longrightarrow> (\<And>i. i < length xs \<Longrightarrow> m' (p + i) = m (p + i)) \<Longrightarrow> bytes m' p xs"
  by (simp add: bytes_def)

lemma helper_sim:
  assumes sz: "0 < sz" "sz \<le> 2 ^ 31" and live: "{buffer..<buffer + sz} \<subseteq> dom m"
    and r: "buf_rel m buffer sz s t"
  shows "opt_sim (buf_rel m buffer sz) (collect b s) (vsnprintf_helper b t)"
proof -
  obtain cm xs m' aux where st: "s = (cm, xs)" "t = (m', aux)" by (cases s, cases t) auto
  have xs: "length xs < 2 ^ 31" "cm = m |` (- {buffer..<buffer + sz})" "dom m' = dom m"
    "\<And>a. a \<notin> {buffer..<buffer + sz} \<Longrightarrow> m' a = m a" "aux_length aux = word_of_nat (length xs)"
    "max_length aux = word_of_nat (sz - 1)" "aux_p aux = buffer + min (length xs) (sz - 1)"
    "bytes m' buffer (take (sz - 1) xs)"
    using r unfolding st buf_rel_def by auto
  have cmp: "sint (aux_length aux) < sint (max_length aux) \<longleftrightarrow> length xs < sz - 1"
    using xs(1) sz sint_of_nat32 [of "sz - 1"] sint_of_nat32 [of "length xs"] unfolding xs(5,6) by linarith
  show ?thesis
  proof (cases "length xs + 1 < 2 ^ 31")
    case False
    then show ?thesis by (simp add: st collect_def opt_sim_None)
  next
    case lt: True
    show ?thesis
    proof (cases "length xs < sz - 1")
      case True
      let ?p = "buffer + length xs" and ?m = "m'(buffer + length xs \<mapsto> b)"
      have "?p \<in> {buffer..<buffer + sz}" using True by simp
      then have "?p \<in> dom m'" using live xs(3) by blast
      then have dm: "dom ?m = dom m" using xs(3) by (simp add: insert_absorb)
      have "vsnprintf_helper b t = Some (?m, aux\<lparr>aux_length := aux_length aux + 1, aux_p := ?p + 1\<rparr>)"
        using True cmp xs(7) \<open>?p \<in> dom m'\<close> by (auto simp: vsnprintf_helper_def st stb_def)
      moreover have "bytes ?m buffer (take (sz - 1) (xs @ [b]))"
      proof -
        have "bytes m' buffer xs" using xs(8) True by simp
        then have "bytes ?m buffer xs" by (rule bytes_frame) simp
        moreover have "take (sz - 1) (xs @ [b]) = xs @ [b]" using True by simp
        ultimately show ?thesis by (simp add: bytes_append bytes_Cons)
      qed
      ultimately show ?thesis
        using lt True xs dm less_le_trans [OF True diff_le_self] by (simp add: collect_def st buf_rel_def)
    next
      case False
      then have "vsnprintf_helper b t = Some (m', aux\<lparr>aux_length := aux_length aux + 1\<rparr>)"
        using cmp by (simp add: vsnprintf_helper_def st)
      then show ?thesis
        using lt False xs by (auto simp: collect_def st buf_rel_def min_def intro!: opt_sim_Some)
    qed
  qed
qed

lemma restrict_le: "m |` A \<subseteq>\<^sub>m m' \<longleftrightarrow> (\<forall>a \<in> A \<inter> dom m. m' a = m a)"
  unfolding map_le_def by (auto simp: restrict_map_def dom_def; metis)

lemma buffer_sim:
  assumes "0 < sz" "sz \<le> 2 ^ 31" and "{buffer..<buffer + sz} \<subseteq> dom m"
  shows "out_sim collect vsnprintf_helper (buf_rel m buffer sz)"
proof
  show "buf_rel m buffer sz s t \<Longrightarrow> opt_sim (buf_rel m buffer sz) (collect b s) (vsnprintf_helper b t)" for s t b
    by (rule helper_sim [OF assms])
  show "buf_rel m buffer sz s t \<Longrightarrow> fst s \<subseteq>\<^sub>m fst t" for s t
    unfolding buf_rel_def by (cases s, cases t) (auto simp: restrict_le)
qed

lemma vsnprintf_run:
  assumes sz: "0 < sz" "sz \<le> 2 ^ 31" and live: "{buffer..<buffer + sz} \<subseteq> dom m"
    and r: "rendered (m |` (- {buffer..<buffer + sz})) format args = Some xs"
  shows "\<exists>m'. vsnprintf m buffer sz format args = Some (m', word_of_nat (length xs)) \<and>
    bytes m' buffer (take (sz - 1) xs @ [0]) \<and> (\<forall>a. a \<notin> {buffer..<buffer + sz} \<longrightarrow> m' a = m a) \<and> dom m' = dom m"
proof -
  let ?cm = "m |` (- {buffer..<buffer + sz})"
  let ?aux = "\<lparr>aux_p = buffer, aux_length = 0, max_length = word_of_nat (sz - 1)\<rparr>"
  obtain cm where v: "vprintf Mem format args collect (?cm, []) = Some (cm, xs)"
    using r by (auto simp: rendered_def elim!: bind_SomeE)
  have "buf_rel m buffer sz (?cm, []) (m, ?aux)" by (simp add: buf_rel_def)
  from out_sim.vprintf_sim [OF buffer_sim [OF sz live] this v] obtain m' aux where
    w: "vprintf Mem format args vsnprintf_helper (m, ?aux) = Some (m', aux)"
    and b: "buf_rel m buffer sz (cm, xs) (m', aux)" by auto
  have b': "length xs < 2 ^ 31" "dom m' = dom m" "\<And>a. a \<notin> {buffer..<buffer + sz} \<Longrightarrow> m' a = m a"
    "aux_length aux = word_of_nat (length xs)" "aux_p aux = buffer + min (length xs) (sz - 1)"
    "bytes m' buffer (take (sz - 1) xs)" using b unfolding buf_rel_def by auto
  let ?p = "buffer + min (length xs) (sz - 1)"
  have p: "?p \<in> {buffer..<buffer + sz}" using sz by auto
  then have "?p \<in> dom m'" using live b'(2) by blast
  then obtain c where c: "m' ?p = Some c" by blast
  let ?m = "m'(?p \<mapsto> 0)"
  have "vsnprintf m buffer sz format args = Some (?m, word_of_nat (length xs))"
    using sz(1) c unfolding vsnprintf_def Let_def if_P [OF sz(1)] w Option.bind.simps case_prod_conv b'(4,5)
    by (simp add: stb_def)
  moreover have "bytes ?m buffer (take (sz - 1) xs @ [0])"
  proof -
    have l: "length (take (sz - 1) xs) = min (length xs) (sz - 1)" by simp
    have "bytes ?m buffer (take (sz - 1) xs)" using b'(6) by (rule bytes_frame) (auto simp: l)
    then show ?thesis unfolding bytes_append l by (simp add: bytes_Cons)
  qed
  moreover have "\<forall>a. a \<notin> {buffer..<buffer + sz} \<longrightarrow> ?m a = m a" using b'(3) p by auto
  moreover have "dom ?m = dom m" using b'(2) c by auto
  ultimately show ?thesis by blast
qed

subsection \<open>Decimal digits\<close>

fun digs :: "nat \<Rightarrow> nat list" where
  "digs n = (if n = 0 then [] else n mod 10 # digs (n div 10))"

declare digs.simps [simp del]

definition dig :: "nat \<Rightarrow> byte" where
  "dig k = word_of_nat (48 + k)"

lemma digs_0 [simp]: "digs 0 = []"
  by (simp add: digs.simps)

lemma digs_less: "d \<in> set (digs n) \<Longrightarrow> d < 10"
  by (induction n rule: digs.induct) (subst (asm) digs.simps, auto split: if_splits)

lemma digs_length: "n < 10 ^ k \<Longrightarrow> length (digs n) \<le> k"
proof (induction k arbitrary: n)
  case (Suc k)
  show ?case
  proof (cases "n = 0")
    case False
    have "n div 10 < 10 ^ k" using Suc.prems by (simp add: less_mult_imp_div_less mult.commute)
    from Suc.IH [OF this] show ?thesis using False by (simp add: digs.simps [of n])
  qed simp
qed simp

lemma digit_char: "k < 10 \<Longrightarrow> map of_char ''0123456789'' ! k = dig k"
proof -
  assume "k < 10"
  then have "k \<in> {0, 1, 2, 3, 4, 5, 6, 7, 8, 9}" by auto
  then show ?thesis by (auto simp: dig_def)
qed

lemma digits_loop_run:
  "length buf + length (digs (unat v)) \<le> 64 \<Longrightarrow>
   digits_loop base_d False v k buf = Some (buf @ map dig (digs (unat v)))"
proof (induction "unat v" arbitrary: v k buf rule: less_induct)
  case less
  show ?case
  proof (cases "v = 0")
    case True
    then show ?thesis by (simp add: digits_loop.simps)
  next
    case False
    then have n: "unat v \<noteq> 0" by (simp add: unat_eq_0)
    have u: "unat (v div 10) = unat v div 10" "unat (v mod 10) = unat v mod 10"
      by (simp_all add: unat_div unat_mod)
    have d: "digs (unat v) = unat v mod 10 # digs (unat (v div 10))" using n by (simp add: digs.simps [of "unat v"] u)
    have lt: "unat (v div 10) < unat v" using n unfolding u by simp
    let ?buf = "buf @ [dig (unat v mod 10)]"
    have "unat v mod 10 < 10" by simp
    then have m10: "unat v mod 10 < Suc (Suc (Suc (Suc (Suc (Suc (Suc (Suc (Suc (Suc 0)))))))))" by linarith
    have "digits_loop base_d False (v div 10) (k + 1) ?buf = Some (?buf @ map dig (digs (unat (v div 10))))"
      using less.prems by (intro less.hyps lt) (simp add: d)
    moreover have "digits_loop base_d False v k buf = digits_loop base_d False (v div 10) (k + 1) ?buf"
      using False less.prems n
      by (subst digits_loop.simps) (simp add: base_d_def u digit_char [simplified] push_def d word_gt_0 m10)
    ultimately show ?thesis by (simp add: d)
  qed
qed

subsection \<open>Integers to characters and back\<close>

lemma output_list_collect:
  "length xs + length bs < 2 ^ 31 \<Longrightarrow> output_list collect bs (m, xs) = Some (m, xs @ bs)"
  by (induction bs arbitrary: xs) (simp_all add: collect_def)

definition plain :: "printf_conversion" where
  "plain = \<lparr>flags = 0, width = 0, precision = - 1, conv_type = T_INT\<rparr>"

definition decimal :: "nat \<Rightarrow> byte list" where
  "decimal n = (if n = 0 then [dig 0] else map dig (rev (digs n)))"

lemma sint_neg32: "1 \<le> k \<Longrightarrow> k \<le> 2 ^ 31 \<Longrightarrow> sint (word_of_int (- int k) :: 32 word) = - int k"
proof -
  assume k: "1 \<le> k" "k \<le> 2 ^ 31"
  have "signed_take_bit 31 (- int k) = - int k"
    by (rule signed_take_bit_int_eq_self) (use k in simp_all)
  moreover have "sint (word_of_int (- int k) :: 32 word) = signed_take_bit 31 (- int k)"
    by (simp only: signed_of_int of_int_eq_id id_apply) simp
  ultimately show ?thesis by simp
qed

lemma zeros_loop_done: "sint prec \<le> int (length buf) \<Longrightarrow> zeros_loop prec buf = Some buf"
  by (subst zeros_loop.simps) simp

lemma format_decimal:
  assumes v: "unat v < 10 ^ 20"
  shows "format_integer v True neg base_d plain collect (m, []) =
    Some (m, (if neg then [of_char CHR ''-''] else []) @ decimal (unat v))"
proof -
  define B where "B = (if unat v = 0 then [dig 0] else map dig (digs (unat v)))"
  have l: "length (digs (unat v)) \<le> 20" using v by (rule digs_length)
  then have d: "digits_loop base_d False v 0 [] = Some (map dig (digs (unat v)))"
    using digits_loop_run [of "[]" v 0] by simp
  have ne: "unat v \<noteq> 0 \<Longrightarrow> 0 < length (digs (unat v))" by (simp add: digs.simps [of "unat v"])
  have z: "zeros_loop 1 (map dig (digs (unat v))) = Some B"
  proof (cases "unat v = 0")
    case True
    have "zeros_loop 1 [] = zeros_loop 1 [dig 0]"
      by (subst zeros_loop.simps) (simp add: push_def dig_def)
    also have "\<dots> = Some [dig 0]" by (simp add: zeros_loop_done)
    finally show ?thesis using True by (simp add: B_def)
  next
    case False
    then show ?thesis using ne by (simp add: B_def zeros_loop_done Suc_le_eq)
  qed
  have buf: "rev B = decimal (unat v)" by (simp add: B_def decimal_def rev_map)
  have bl: "length B \<le> 20" "1 \<le> length B" using l ne by (auto simp: B_def Suc_le_eq)
  have ld: "length (decimal (unat v)) \<le> 20" using bl(1) unfolding buf [symmetric] by simp
  have pad: "sint (word_of_int (sint (width plain) - int (length B) - 0 - (if c then 1 else 0)) :: 32 word) < 0" for c
  proof -
    have "sint (width plain) - int (length B) - 0 - (if c then 1 else 0) = - int (length B + (if c then 1 else 0))"
      by (simp add: plain_def)
    moreover have "1 \<le> length B + (if c then 1 else 0)" "length B + (if c then 1 else 0) \<le> 2 ^ 31" using bl by auto
    ultimately show ?thesis using sint_neg32 [of "length B + (if c then 1 else 0)"] by (simp only:)
  qed
  have fl: "flag plain POUND = False" "flag plain GROUP = False" "flag plain ZERO = False" "flag plain MINUS = False"
    "flags plain AND (MINUS OR ZERO) = 0" "(sint (precision plain) < 0) = True"
    by (simp_all add: flag_def plain_def)
  have sg: "sign_char True neg plain = (if neg then of_char CHR ''-'' else 0)"
    by (simp add: sign_char_def flag_def plain_def)
  show ?thesis
    unfolding format_integer_def Let_def fl simp_thms if_True if_False d z Option.bind.simps buf if_P [OF pad]
      unsigned_0 output_dup.simps sg
    using output_list_collect [of "[]" "decimal (unat v)" m] output_list_collect [of "[of_char CHR ''-'']" "decimal (unat v)" m] ld
    by (cases neg) (simp_all add: collect_def)
qed

text \<open>The format \<open>%d\<close> on one argument.\<close>

lemma parse_plain:
  assumes b: "m p = Some b" and n: "flag_of b = None" "b \<noteq> of_char CHR ''*''" "\<not> isdigit (sint b)"
    "b \<noteq> of_char CHR ''.''" "b \<notin> of_char ` {CHR ''h'', CHR ''j'', CHR ''l'', CHR ''t'', CHR ''z''}"
  shows "parse_conversion m p args = Some (p, plain, args)"
proof -
  have "parse_flags m p 0 = Some (p, 0)" using b n by (simp add: parse_flags.simps ldb_def)
  moreover have "parse_width m p 0 args = Some (p, 0, 0, args)"
    using b n by (simp add: parse_width_def parse_number.simps ldb_def)
  moreover have "parse_precision m p args = Some (p, - 1, args)"
    using b n by (simp add: parse_precision_def ldb_def)
  moreover have "parse_type m p = Some (p, T_INT)"
    using b n(5) by (simp add: parse_type_def ldb_def)
  ultimately show ?thesis by (simp add: parse_conversion_def plain_def)
qed

lemma rendered_d:
  assumes m: "bytes m f (str ''%d'')"
  shows "rendered m f [a] = Some ((if sint (ucast a :: 32 word) < 0 then [of_char CHR ''-''] else []) @
     decimal (nat \<bar>sint (ucast a :: 32 word)\<bar>))"
proof -
  have b: "m f = Some (of_char CHR ''%'')" "m (f + 1) = Some (of_char CHR ''d'')" "m (Suc (Suc f)) = Some 0"
    using m by (simp_all add: str_def bytes_Cons)
  let ?i = "ucast a :: 32 word"
  let ?v = "scast ?i :: 64 word"
  have range: "- (2 ^ 31) \<le> sint ?i" "sint ?i < 2 ^ 31" using sint_greater_eq [of ?i] sint_less [of ?i] by simp_all
  then have "signed_take_bit 63 (sint ?i) = sint ?i" by (intro signed_take_bit_int_eq_self) simp_all
  then have si: "sint ?v = sint ?i" by (simp add: signed_scast_eq)
  let ?n = "nat \<bar>sint ?i\<bar>"
  have u: "unat (if sint ?v < 0 then - ?v else ?v) = ?n"
  proof -
    have w: "?v = word_of_int (sint ?i)" using si by (metis of_int_sint)
    have "(if sint ?v < 0 then - ?v else ?v) = word_of_int \<bar>sint ?i\<bar>"
      unfolding si unfolding w by simp
    moreover have "unat (word_of_int \<bar>sint ?i\<bar> :: 64 word) = ?n"
      using range by (simp add: unat_eq_nat_uint uint_word_of_int)
    ultimately show ?thesis by simp
  qed
  have "\<bar>sint ?i\<bar> \<le> 2 ^ 31" using range by simp
  then have "?n < 10 ^ 20" by simp
  then have fmt: "format_integer (if sint ?v < 0 then - ?v else ?v) True (sint ?v < 0) base_d plain collect (m, [])
      = Some (m, (if sint ?v < 0 then [of_char CHR ''-''] else []) @ decimal ?n)"
    using format_decimal [of "if sint ?v < 0 then - ?v else ?v" "sint ?v < 0" m] unfolding u by blast
  have pc: "parse_conversion m (f + 1) [a] = Some (f + 1, plain, [a])"
    by (rule parse_plain [where b = "of_char CHR ''d''"]) (use b(2) in \<open>simp_all add: flag_of_def isdigit_def\<close>)
  have cv: "conversion again (of_char CHR ''d'') plain [a] collect (m, []) =
      Some ((m, (if sint ?v < 0 then [of_char CHR ''-''] else []) @ decimal ?n), [])" for again
    unfolding conversion_def using fmt by (simp add: is_char_def va_arg_def signed_arg_def plain_def)
  have fin: "vprintf Mem (f + 1 + 1) [] collect (m, xs) = Some (m, xs)" for xs
    by (subst vprintf.simps) (simp add: fetch_def ldb_def b(3))
  have "vprintf Mem f [a] collect (m, []) = Some (m, (if sint ?v < 0 then [of_char CHR ''-''] else []) @ decimal ?n)"
    by (subst vprintf.simps) (simp only: fetch_def source.case fst_conv ldb_def b pc cv fin Option.bind.simps case_prod_conv, simp)
  then show ?thesis by (simp add: rendered_def si)
qed

lemma isdigit_dig: "d < 10 \<Longrightarrow> isdigit (sint (dig d))"
proof -
  assume "d < 10"
  then have "d \<in> {0, 1, 2, 3, 4, 5, 6, 7, 8, 9}" by auto
  then show ?thesis by (auto simp: dig_def isdigit_def)
qed

lemma scast_dig: "d < 10 \<Longrightarrow> scast (dig d) - of_char CHR ''0'' = (word_of_nat d :: 32 word)"
proof -
  assume "d < 10"
  then have "d \<in> {0, 1, 2, 3, 4, 5, 6, 7, 8, 9}" by auto
  then show ?thesis by (auto simp: dig_def)
qed

lemma atoi_digits_run:
  "bytes m p (map dig ds @ [0]) \<Longrightarrow> \<forall>d \<in> set ds. d < 10 \<Longrightarrow>
   atoi_digits m p v = Some (fold (\<lambda>d v. v * 10 - word_of_nat d) ds v)"
proof (induction ds arbitrary: p v)
  case Nil
  then show ?case by (subst atoi_digits.simps) (simp add: bytes_Cons ldb_def isdigit_def)
next
  case (Cons d ds)
  have b: "m p = Some (dig d)" "bytes m (p + 1) (map dig ds @ [0])" using Cons.prems(1) by (simp_all add: bytes_Cons)
  have "atoi_digits m p v = atoi_digits m (p + 1) (v * 10 - (scast (dig d) - of_char CHR ''0''))"
    using b(1) isdigit_dig Cons.prems(2) by (subst atoi_digits.simps) (simp add: ldb_def)
  then show ?case using Cons.IH [OF b(2)] scast_dig [of d] Cons.prems(2) by simp
qed

lemma atoi_space_stop: "m p = Some b \<Longrightarrow> \<not> isspace (uint b) \<Longrightarrow> atoi_space m p = Some p"
  by (subst atoi_space.simps) (simp add: ldb_def)

lemma atoi_run:
  assumes b: "bytes m p ((if neg then [of_char CHR ''-''] else []) @ map dig ds @ [0])"
    and d: "ds \<noteq> []" "\<forall>d \<in> set ds. d < 10" and p: "p \<noteq> NULL"
  shows "atoi m p = Some (let v = fold (\<lambda>d v. v * 10 - word_of_nat d) ds 0 in if neg then v else - v)"
proof (cases neg)
  case True
  then have m: "m p = Some (of_char CHR ''-'')" "bytes m (p + 1) (map dig ds @ [0])" using b by (simp_all add: bytes_Cons)
  have "atoi_space m p = Some p" using m(1) by (intro atoi_space_stop [where b = "of_char CHR ''-''"]) (simp_all add: isspace_def)
  then show ?thesis using True p atoi_digits_run [OF m(2) d(2)] m(1) by (simp add: atoi_def ldb_def)
next
  case False
  then have m: "bytes m p (map dig ds @ [0])" using b by simp
  obtain e es where e: "ds = e # es" "e < 10" using d by (cases ds) auto
  have mp: "m p = Some (dig e)" using m e(1) by (simp add: bytes_Cons)
  have "e \<in> {0, 1, 2, 3, 4, 5, 6, 7, 8, 9}" using e(2) by auto
  then have c: "\<not> isspace (uint (dig e))" "dig e \<noteq> of_char CHR ''+''" "dig e \<noteq> of_char CHR ''-''"
    by (auto simp: dig_def isspace_def)
  have "atoi_space m p = Some p" using mp c(1) by (intro atoi_space_stop [where b = "dig e"])
  then show ?thesis using False p atoi_digits_run [OF m d(2)] mp c by (simp add: atoi_def ldb_def)
qed

lemma fold_digs: "fold (\<lambda>d v. v * 10 - word_of_nat d) (rev (digs n)) 0 = (- word_of_nat n :: 32 word)"
proof (induction n rule: digs.induct)
  case (1 n)
  show ?case
  proof (cases "n = 0")
    case False
    have "word_of_nat n = (word_of_nat (n div 10 * 10 + n mod 10) :: 32 word)" by simp
    also have "\<dots> = word_of_nat (n div 10) * 10 + word_of_nat (n mod 10)" by (simp only: of_nat_add of_nat_mult of_nat_numeral)
    finally show ?thesis using False 1 by (simp add: digs.simps [of n])
  qed simp
qed

lemma decimal_digits: "\<exists>ds. decimal n = map dig ds \<and> ds \<noteq> [] \<and> (\<forall>d \<in> set ds. d < 10) \<and>
    fold (\<lambda>d v. v * 10 - word_of_nat d) ds 0 = (- word_of_nat n :: 32 word)"
proof (cases "n = 0")
  case True
  then show ?thesis by (intro exI [of _ "[0]"]) (simp add: decimal_def)
next
  case False
  then show ?thesis using digs_less fold_digs [of n]
    by (intro exI [of _ "rev (digs n)"]) (auto simp: decimal_def digs.simps [of n])
qed

subsection \<open>The conversion buffer is large enough\<close>

text \<open>In any base of at least 8, 22 digits are enough for 64 bits; a digit takes two places at most.\<close>

definition base_ok :: "integer_base \<Rightarrow> bool" where
  "base_ok b \<longleftrightarrow> 8 \<le> unat (base b) \<and> length (digits b) = unat (base b)"

lemma bases_ok: "b \<in> {base_d, base_o, base_lx, base_ux} \<Longrightarrow> base_ok b"
  by (auto simp: base_ok_def base_d_def base_o_def base_lx_def base_ux_def)

lemma digits_loop_fits:
  "base_ok b \<Longrightarrow> unat v < 8 ^ n \<Longrightarrow> length buf + 2 * n \<le> 64 \<Longrightarrow>
   \<exists>buf'. digits_loop b g v k buf = Some buf' \<and> length buf' \<le> length buf + 2 * n"
proof (induction n arbitrary: v k buf)
  case 0
  then have "v = 0" by (simp add: unat_eq_0)
  then show ?case by (simp add: digits_loop.simps)
next
  case (Suc n)
  show ?case
  proof (cases "v = 0")
    case True
    then show ?thesis by (simp add: digits_loop.simps)
  next
    case False
    let ?B = "unat (base b)"
    have B: "8 \<le> ?B" "length (digits b) = ?B" using Suc.prems(1) by (auto simp: base_ok_def)
    have u: "unat (v div base b) = unat v div ?B" "unat (v mod base b) = unat v mod ?B"
      by (simp_all add: unat_div unat_mod)
    have "unat v < 8 ^ n * ?B"
      using less_le_trans [OF Suc.prems(2)] mult_le_mono2 [OF B(1), of "8 ^ n"] by (simp add: mult.commute)
    then have lt: "unat (v div base b) < 8 ^ n" unfolding u by (rule less_mult_imp_div_less)
    let ?buf = "if g \<and> k > 0 \<and> k mod group_size b = 0 then buf @ [of_char CHR '','' ] else buf"
    let ?buf' = "?buf @ [digits b ! (unat v mod ?B)]"
    have l: "length ?buf' + 2 * n \<le> 64" "length ?buf' \<le> length buf + 2" using Suc.prems(3) by auto
    have i: "unat v mod ?B < length (digits b)" using B by simp
    from Suc.IH [OF Suc.prems(1) lt l(1)] obtain r where
      r: "digits_loop b g (v div base b) (k + 1) ?buf' = Some r" "length r \<le> length ?buf' + 2 * n" by blast
    have p1: "(if g \<and> k > 0 \<and> k mod group_size b = 0 then push buf (of_char CHR '','') else Some buf) = Some ?buf"
      using Suc.prems(3) by (simp add: push_def)
    have p2: "push ?buf (digits b ! (unat v mod ?B)) = Some ?buf'" using l(1) by (simp add: push_def)
    have "digits_loop b g v k buf = Some r"
      using False i unfolding digits_loop.simps [of b g v] p1 u Option.bind.simps p2 r(1) by (simp add: word_gt_0)
    then show ?thesis using r(2) l(2) by (intro exI [of _ r]) simp
  qed
qed

lemma zeros_loop_fits: "length buf \<le> 63 \<Longrightarrow> \<exists>buf'. zeros_loop prec buf = Some buf' \<and> length buf' \<le> 63"
proof (induction "63 - length buf" arbitrary: buf rule: less_induct)
  case less
  show ?case
  proof (cases "int (length buf) < sint prec \<and> length buf < 63")
    case True
    then have "63 - length (buf @ [of_char CHR ''0'']) < 63 - length buf" by auto
    from less.hyps [OF this] True show ?thesis by (subst zeros_loop.simps) (simp add: push_def)
  next
    case False
    then show ?thesis using less.prems by (subst zeros_loop.simps) auto
  qed
qed

text \<open>An output function that always succeeds, and repeated output through it.\<close>

lemma output_dup_total: "\<forall>ch s. output ch s \<noteq> None \<Longrightarrow> \<exists>s'. output_dup output ch n s = Some s'"
  by (induction n arbitrary: s) (auto split: option.splits, metis bind.bind_lunit option.exhaust)

lemma output_list_total: "\<forall>ch s. output ch s \<noteq> None \<Longrightarrow> \<exists>s'. output_list output bs s = Some s'"
  by (induction bs arbitrary: s) (auto, metis bind.bind_lunit option.exhaust)

lemma bind_total: "\<exists>y. x = Some y \<Longrightarrow> (\<And>y. \<exists>z. f y = Some z) \<Longrightarrow> \<exists>z. Option.bind x f = Some z"
  by auto

lemma format_integer_total:
  assumes b: "base_ok b" and o: "\<forall>ch s. output ch s \<noteq> None"
  shows "\<exists>s'. format_integer v sg ng b c output s = Some s'"
proof -
  have "unat v < 2 ^ LENGTH(64)" by (rule unsigned_less)
  then have "unat v < 8 ^ 22" by simp
  from digits_loop_fits [OF b this, of "[]" "flag c GROUP" 0] obtain buf where
    d: "digits_loop b (flag c GROUP) v 0 [] = Some buf" "length buf \<le> 63" by auto
  obtain buf' where z: "zeros_loop (if sint (precision c) < 0 then 1 else precision c) buf = Some buf'" "length buf' \<le> 63"
    using zeros_loop_fits [OF d(2)] by blast
  have p: "\<exists>r. (if flag c POUND \<and> base b = 8 \<and> (buf' = [] \<or> last buf' \<noteq> of_char CHR ''0'')
             then push buf' (of_char CHR ''0'') else Some buf') = Some r"
    using z(2) by (simp add: push_def)
  have o': "\<exists>s'. output ch s = Some s'" for ch s
    using o [rule_format, of ch s] by (cases "output ch s") blast+
  have ife: "(\<exists>y. x = Some y) \<Longrightarrow> \<exists>y. (if P then x else Some s) = Some y" for P x and s :: "bmem \<times> 'a" by auto
  show ?thesis
    unfolding format_integer_def Let_def d Option.bind.simps z
    by (intro bind_total p ife output_dup_total output_list_total o o')
qed

subsection \<open>Properties\<close>

text \<open>C21: \<open>vsnprintf\<close> never writes outside its buffer and always terminates it. Whatever the format and
  arguments render, the buffer holds the first \<open>sz - 1\<close> characters and a null byte, every other byte of the
  memory is as before, and the result is the length of the whole output.\<close>

theorem vsnprintf_correct:
  assumes "0 < sz" "sz \<le> 2 ^ 31" and "{buffer..<buffer + sz} \<subseteq> dom m"
    and "rendered (m |` (- {buffer..<buffer + sz})) format args = Some xs"
  shows "\<exists>m'. vsnprintf m buffer sz format args = Some (m', word_of_nat (length xs)) \<and>
    bytes m' buffer (take (sz - 1) xs @ [0]) \<and> (\<forall>a. a \<notin> {buffer..<buffer + sz} \<longrightarrow> m' a = m a) \<and> dom m' = dom m"
  by (rule vsnprintf_run [OF assms])

definition ex_fmt :: bmem where
  "ex_fmt = [1 \<mapsto> of_char CHR ''%'', 2 \<mapsto> of_char CHR ''d'', 3 \<mapsto> 0, 10 \<mapsto> 7, 11 \<mapsto> 7, 12 \<mapsto> 7]"

lemma dig_number: "dig 4 = of_char CHR ''4''" "dig 2 = of_char CHR ''2''" "dig (Suc 0) = of_char CHR ''1''"
  by (simp_all add: dig_def)

theorem vsnprintf_correct_witness:
  "\<exists>m'. vsnprintf ex_fmt 10 3 1 [421] = Some (m', word_of_nat (length (map of_char ''421'' :: byte list))) \<and>
    bytes m' 10 (take (3 - 1) (map of_char ''421'') @ [0]) \<and> (\<forall>a. a \<notin> {10..<10 + 3} \<longrightarrow> m' a = ex_fmt a) \<and> dom m' = dom ex_fmt"
proof (rule vsnprintf_correct)
  have "bytes (ex_fmt |` (- {10..<10 + 3})) 1 (str ''%d'')"
    by (simp add: str_def bytes_Cons ex_fmt_def restrict_map_def)
  from rendered_d [OF this, of 421] show "rendered (ex_fmt |` (- {10..<10 + 3})) 1 [421] = Some (map of_char ''421'')"
    by (simp add: decimal_def digs.simps dig_number)
qed (auto simp: ex_fmt_def)

text \<open>C20: formatting and parsing an integer are inverse. For every \<open>int\<close>, \<open>atoi\<close> reads from the buffer
  what \<open>snprintf\<close> with \<open>%d\<close> has written there.\<close>

theorem snprintf_atoi_roundtrip:
  assumes "bytes m f (str ''%d'')" and "12 \<le> sz" "sz \<le> 2 ^ 31" and "{buffer..<buffer + sz} \<subseteq> dom m"
    and "{f..<f + 3} \<inter> {buffer..<buffer + sz} = {}" and "buffer \<noteq> NULL"
  shows "\<exists>m' n. snprintf m buffer sz f [scast (i :: 32 word)] = Some (m', n) \<and> atoi m' buffer = Some i"
proof -
  let ?cm = "m |` (- {buffer..<buffer + sz})"
  let ?n = "nat \<bar>sint i\<bar>" and ?s = "if sint i < 0 then [of_char CHR ''-''] else [] :: byte list"
  have uc: "ucast (scast i :: 64 word) = i" by (rule bit_word_eqI) (auto simp: bit_simps)
  have "bytes ?cm f (str ''%d'')"
    using assms(1) by (rule bytes_frame) (use assms(5) in \<open>auto simp: restrict_map_def str_def\<close>)
  from rendered_d [OF this, of "scast i"] have r: "rendered ?cm f [scast i] = Some (?s @ decimal ?n)"
    unfolding uc .
  have "0 < sz" using assms(2) by simp
  from vsnprintf_run [OF this assms(3,4) r] obtain m' where m':
    "snprintf m buffer sz f [scast i] = Some (m', word_of_nat (length (?s @ decimal ?n)))"
    "bytes m' buffer (take (sz - 1) (?s @ decimal ?n) @ [0])" unfolding snprintf_def by blast
  obtain ds where ds: "decimal ?n = map dig ds" "ds \<noteq> []" "\<forall>d \<in> set ds. d < 10"
    "fold (\<lambda>d v. v * 10 - word_of_nat d) ds 0 = (- word_of_nat ?n :: 32 word)" using decimal_digits by blast
  have "- (2 ^ 31) \<le> sint i" "sint i < 2 ^ 31" using sint_greater_eq [of i] sint_less [of i] by simp_all
  then have "\<bar>sint i\<bar> \<le> 2 ^ 31" by simp
  then have "?n < 10 ^ 10" by simp
  then have "length (decimal ?n) \<le> 10" using digs_length [of ?n 10] by (simp add: decimal_def)
  then have "length (?s @ decimal ?n) \<le> sz - 1" using assms(2) by (cases "sint i < 0") simp_all
  then have "bytes m' buffer (?s @ map dig ds @ [0])" using m'(2) unfolding ds(1) by simp
  then have "atoi m' buffer = Some (if sint i < 0 then - word_of_nat ?n else word_of_nat ?n)"
    using atoi_run [OF _ ds(2,3), of m' buffer "sint i < 0"] assms(6) ds(4) by simp
  also have "\<dots> = Some (word_of_int (sint i))" by simp
  also have "\<dots> = Some i" by simp
  finally have "atoi m' buffer = Some i" .
  with m'(1) show ?thesis by blast
qed

definition ex_buf :: bmem where
  "ex_buf = (\<lambda>a. if a = 1 then Some (of_char CHR ''%'') else if a = 2 then Some (of_char CHR ''d'')
     else if a = 3 then Some 0 else if a \<in> {10..<22} then Some 9 else None)"

theorem snprintf_atoi_roundtrip_witness:
  "\<exists>m' n. snprintf ex_buf 10 12 1 [scast (- 2147483648 :: 32 word)] = Some (m', n) \<and> atoi m' 10 = Some (- 2147483648)"
  by (rule snprintf_atoi_roundtrip) (auto simp: ex_buf_def str_def bytes_Cons)

text \<open>the conversion of an integer never overflows its buffer of 64 characters and always returns,
  whatever the value, base, flags, width and precision are.\<close>

theorem format_integer_in_buffer:
  assumes "b \<in> {base_d, base_o, base_lx, base_ux}" and "\<forall>ch s. output ch s \<noteq> None"
  shows "format_integer v is_signed negative b c output s \<noteq> None"
  using format_integer_total [OF bases_ok [OF assms(1)] assms(2)] by (metis option.distinct(1))

theorem format_integer_in_buffer_witness:
  "format_integer (- 1) False False base_o (plain\<lparr>flags := POUND OR GROUP, precision := 100\<rparr>)
     (\<lambda>ch (m, n). Some (m, n + 1 :: nat)) (Map.empty, 0) \<noteq> None"
  by (rule format_integer_in_buffer) auto

text \<open>Collecting never changes the memory.\<close>

interpretation collects: out_sim collect collect "\<lambda>s t. s = t \<and> fst s = m" for m
  by unfold_locales (auto simp: collect_def opt_sim_def split: if_splits)

lemma conversion_memory:
  assumes "conversion (\<lambda>src args s. vprintf src 1 args collect s) b c args collect (m, xs) = Some ((m', ys), as)"
  shows "m' = m"
proof -
  have "opt_sim (collects.rel' m) (conversion (\<lambda>src args s. vprintf src 1 args collect s) b c args collect (m, xs))
      (conversion (\<lambda>src args s. vprintf src 1 args collect s) b c args collect (m, xs))"
  proof (rule collects.conversion_sim)
    show "opt_sim (\<lambda>s t. s = t \<and> fst s = m) (vprintf src 1 args collect s) (vprintf src 1 args collect t)"
      if "s = t \<and> fst s = m" for src args s and t :: "bmem \<times> byte list"
      by (rule opt_simI) (rule collects.vprintf_sim [OF that])
  qed simp
  from opt_simD [OF this assms] show ?thesis by (auto simp: collects.rel'_def)
qed

text \<open>a lone \<open>%\<close> at the end of a format makes the interpreter read past the end of the string:
  the conversion takes the null byte as its character, and the loop goes on behind it.\<close>

theorem percent_at_end_overruns:
  assumes "m f = Some (of_char CHR ''%'')" and "m (f + 1) = Some 0" and "m (f + 2) = None"
  shows "rendered m f args = None"
proof -
  have pc: "parse_conversion m (f + 1) args = Some (f + 1, plain, args)"
    by (rule parse_plain [where b = 0]) (use assms(2) in \<open>simp_all add: flag_of_def isdigit_def\<close>)
  let ?c = "conversion (\<lambda>src args s. vprintf src 1 args collect s) 0 plain args collect (m, [])"
  have over: "(case r of (s, as) \<Rightarrow> vprintf Mem (f + 1 + 1) as collect s) = None" if "?c = Some r" for r
  proof -
    obtain m' xs as where r: "r = ((m', xs), as)" by (metis surj_pair)
    have "m' = m" by (rule conversion_memory [OF that [unfolded r]])
    then show ?thesis using assms(3) unfolding r by (subst case_prod_conv, subst vprintf.simps) (simp add: fetch_def ldb_def)
  qed
  have "vprintf Mem f args collect (m, []) = Option.bind ?c (\<lambda>(s, as). vprintf Mem (f + 1 + 1) as collect s)"
    by (subst vprintf.simps)
      (simp only: fetch_def source.case fst_conv ldb_def assms(1,2) pc Option.bind.simps case_prod_conv, simp)
  also have "\<dots> = None" using over by (cases ?c) auto
  finally show ?thesis by (simp add: rendered_def)
qed

theorem percent_at_end_overruns_witness:
  "rendered [1 \<mapsto> of_char CHR ''%'', 2 \<mapsto> 0] 1 [] = None"
  by (rule percent_at_end_overruns) simp_all

end
