(* ===== verification/Threads.thy ===== *)
theory Threads
  imports Prelude "HOL-Library.Word"
begin

text \<open>
  The kernel's threads and their synchronization: \<open>pintos/threads/thread.c\<close> and \<open>synch.c\<close>.

  A thread is the address of its \<open>struct thread\<close>. What it still has to execute is a list of
  instructions: calls of the interface, which expand into their steps, and the steps themselves, each of
  which runs with interrupts off in the code or touches data of its thread only. A timer interrupt can
  come between two steps when interrupts are on, so the steps are the units of interleaving. A thread
  that is switched away from leaves behind the instructions with which it goes on when it runs again. A
  failed assertion and an access to an object that does not exist yield \<open>None\<close>. The exchange of register
  sets in \<open>thread_launch\<close> and \<open>do_iret\<close> is the change of the current thread and of the interrupt flag, the
  field \<open>tf_if\<close> being the flag in the saved \<open>eflags\<close>.
\<close>

datatype thread_status = THREAD_RUNNING | THREAD_READY | THREAD_BLOCKED | THREAD_DYING

definition PRI_MIN :: int where "PRI_MIN = 0"
definition PRI_DEFAULT :: int where "PRI_DEFAULT = 31"
definition PRI_MAX :: int where "PRI_MAX = 63"
definition THREAD_MAGIC :: "32 word" where "THREAD_MAGIC = 0xcd6abf4b"
definition TIME_SLICE :: nat where "TIME_SLICE = 4"

record thread =
  tid :: "32 word"
  status :: thread_status
  name :: string
  priority :: int
  pml4 :: addr
  tf_if :: bool
  magic :: "32 word"

record semaphore =
  sval :: "32 word"
  waiters :: "addr list"

text \<open>
  Instructions. The calls of the interface come first; \<open>TryDown\<close> and \<open>LockTryAcquire\<close> take the
  continuations for success and failure, \<open>Create\<close> the page the allocator returns for the new thread, and
  \<open>CondWait\<close> the address of the \<open>struct semaphore_elem\<close> on the stack. The last group are steps inside a call.
\<close>

datatype instr =
    SemaInit addr "32 word" | SemaDown addr | TryDown addr "instr list" "instr list" | SemaUp addr
  | LockInit addr | LockAcquire addr | LockTryAcquire addr "instr list" "instr list" | LockRelease addr
  | CondInit addr | CondWait addr addr addr | CondSignal addr addr | CondBroadcast addr addr
  | Yield | Exit | IntrDisable | IntrEnable | Block | Unblock addr | SetPriority int
  | Create addr string int "instr list" | ThreadStart addr addr | IdleMain addr | IdleLoop
  | Downing addr bool | SetHolder addr | CondPush addr addr | CondPop addr | Restore bool | SetTid addr

record kernel =
  threads :: "addr \<rightharpoonup> thread"
  code :: "addr \<Rightarrow> instr list"
  current :: addr
  ready_list :: "addr list"
  destruction_req :: "addr list"
  idle_thread :: addr
  initial_thread :: addr
  tid_lock :: addr
  next_tid :: "32 word"
  thread_ticks :: nat
  idle_ticks :: nat
  kernel_ticks :: nat
  user_ticks :: nat
  intr_on :: bool
  semas :: "addr \<rightharpoonup> semaphore"
  holder :: "addr \<rightharpoonup> addr"
  conds :: "addr \<rightharpoonup> addr list"

definition check :: "bool \<Rightarrow> unit option" where
  "check b = (if b then Some () else None)"

lemma check_simps [simp]: "check True = Some ()" "check False = None"
  by (simp_all add: check_def)

lemma check_Some [simp]: "check b = Some u \<longleftrightarrow> b"
  by (simp add: check_def)

definition set_thread :: "kernel \<Rightarrow> addr \<Rightarrow> (thread \<Rightarrow> thread) \<Rightarrow> kernel option" where
  "set_thread k t f = (case threads k t of None \<Rightarrow> None | Some th \<Rightarrow> Some (k\<lparr>threads := (threads k)(t \<mapsto> f th)\<rparr>))"

definition is_thread :: "kernel \<Rightarrow> addr \<Rightarrow> bool" where
  "is_thread k t \<longleftrightarrow> t \<noteq> NULL \<and> (case threads k t of None \<Rightarrow> False | Some th \<Rightarrow> magic th = THREAD_MAGIC)"

definition status_of :: "kernel \<Rightarrow> addr \<Rightarrow> thread_status option" where
  "status_of k t = map_option status (threads k t)"

definition thread_current :: "kernel \<Rightarrow> addr option" where
  "thread_current k = do {
     check (is_thread k (current k));
     check (status_of k (current k) = Some THREAD_RUNNING);
     Some (current k)
   }"

definition push_code :: "kernel \<Rightarrow> addr \<Rightarrow> instr list \<Rightarrow> kernel" where
  "push_code k t is = k\<lparr>code := (code k)(t := is @ code k t)\<rparr>"

subsection \<open>Scheduling\<close>

definition next_thread_to_run :: "kernel \<Rightarrow> addr \<times> kernel" where
  "next_thread_to_run k = (case ready_list k of
     [] \<Rightarrow> (idle_thread k, k)
   | t # ts \<Rightarrow> (t, k\<lparr>ready_list := ts\<rparr>))"

definition thread_launch :: "kernel \<Rightarrow> addr \<Rightarrow> kernel option" where
  "thread_launch k th = do {
     check (\<not> intr_on k);
     k \<leftarrow> set_thread k (current k) (\<lambda>x. x\<lparr>tf_if := intr_on k\<rparr>);
     x \<leftarrow> threads k th;
     Some (k\<lparr>current := th, intr_on := tf_if x\<rparr>)
   }"

definition schedule :: "kernel \<Rightarrow> kernel option" where
  "schedule k = do {
     let curr = current k;
     let (nxt, k) = next_thread_to_run k;
     check (\<not> intr_on k);
     check (status_of k curr \<noteq> Some THREAD_RUNNING);
     check (is_thread k nxt);
     k \<leftarrow> set_thread k nxt (\<lambda>th. th\<lparr>status := THREAD_RUNNING\<rparr>);
     let k = k\<lparr>thread_ticks := 0\<rparr>;
     if curr \<noteq> nxt then do {
       let k = (if curr \<noteq> NULL \<and> status_of k curr = Some THREAD_DYING \<and> curr \<noteq> initial_thread k
                then k\<lparr>destruction_req := destruction_req k @ [curr]\<rparr> else k);
       thread_launch k nxt
     } else Some k
   }"

primrec free_victims :: "kernel \<Rightarrow> addr list \<Rightarrow> kernel" where
  "free_victims k [] = k"
| "free_victims k (v # vs) = free_victims (k\<lparr>threads := (threads k)(v := None)\<rparr>) vs"

definition do_schedule :: "kernel \<Rightarrow> thread_status \<Rightarrow> kernel option" where
  "do_schedule k st = do {
     check (\<not> intr_on k);
     t \<leftarrow> thread_current k;
     let k = free_victims (k\<lparr>destruction_req := []\<rparr>) (destruction_req k);
     t \<leftarrow> thread_current k;
     k \<leftarrow> set_thread k t (\<lambda>th. th\<lparr>status := st\<rparr>);
     schedule k
   }"

definition thread_block :: "kernel \<Rightarrow> kernel option" where
  "thread_block k = do {
     check (\<not> intr_on k);
     t \<leftarrow> thread_current k;
     k \<leftarrow> set_thread k t (\<lambda>th. th\<lparr>status := THREAD_BLOCKED\<rparr>);
     schedule k
   }"

definition thread_unblock :: "kernel \<Rightarrow> addr \<Rightarrow> kernel option" where
  "thread_unblock k t = do {
     check (is_thread k t);
     check (status_of k t = Some THREAD_BLOCKED);
     set_thread (k\<lparr>ready_list := ready_list k @ [t]\<rparr>) t (\<lambda>th. th\<lparr>status := THREAD_READY\<rparr>)
   }"

text \<open>The instruction with which the thread goes on restores the interrupt level.\<close>

definition thread_yield :: "kernel \<Rightarrow> bool \<Rightarrow> kernel option" where
  "thread_yield k old_level = do {
     curr \<leftarrow> thread_current k;
     let k = push_code (k\<lparr>intr_on := False\<rparr>) curr [Restore old_level];
     let k = (if curr \<noteq> idle_thread k then k\<lparr>ready_list := ready_list k @ [curr]\<rparr> else k);
     do_schedule k THREAD_READY
   }"

definition thread_exit :: "kernel \<Rightarrow> kernel option" where
  "thread_exit k = do_schedule (k\<lparr>intr_on := False\<rparr>) THREAD_DYING"

subsection \<open>Timer ticks\<close>

text \<open>Statistics and, at the end of the time slice, the request to yield.\<close>

definition thread_tick :: "kernel \<Rightarrow> (kernel \<times> bool) option" where
  "thread_tick k = do {
     t \<leftarrow> thread_current k;
     th \<leftarrow> threads k t;
     let k = (if t = idle_thread k then k\<lparr>idle_ticks := idle_ticks k + 1\<rparr>
              else if pml4 th \<noteq> NULL then k\<lparr>user_ticks := user_ticks k + 1\<rparr>
              else k\<lparr>kernel_ticks := kernel_ticks k + 1\<rparr>);
     let k = k\<lparr>thread_ticks := thread_ticks k + 1\<rparr>;
     Some (k, thread_ticks k \<ge> TIME_SLICE)
   }"

text \<open>
  The timer's part of \<open>intr_handler\<close>: the handler runs with interrupts off, and when it asks for it the
  thread yields before it returns to the interrupted code, where interrupts are on.
\<close>

definition timer_interrupt :: "kernel \<Rightarrow> kernel option" where
  "timer_interrupt k = do {
     check (intr_on k);
     (k, yield_on_return) \<leftarrow> thread_tick k;
     if yield_on_return then thread_yield k True else Some k
   }"

subsection \<open>Semaphores\<close>

definition sema_init :: "kernel \<Rightarrow> addr \<Rightarrow> 32 word \<Rightarrow> kernel" where
  "sema_init k s v = k\<lparr>semas := (semas k)(s \<mapsto> \<lparr>sval = v, waiters = []\<rparr>)\<rparr>"

definition set_sema :: "kernel \<Rightarrow> addr \<Rightarrow> semaphore \<Rightarrow> kernel" where
  "set_sema k s x = k\<lparr>semas := (semas k)(s \<mapsto> x)\<rparr>"

text \<open>One round of the loop of \<open>sema_down\<close>: a thread that blocks tests the value again when it runs again.\<close>

definition sema_downing :: "kernel \<Rightarrow> addr \<Rightarrow> bool \<Rightarrow> kernel option" where
  "sema_downing k s old_level = do {
     x \<leftarrow> semas k s;
     if sval x = 0 then do {
       t \<leftarrow> thread_current k;
       let k = set_sema k s (x\<lparr>waiters := waiters x @ [t]\<rparr>);
       thread_block (push_code k t [Downing s old_level])
     } else Some ((set_sema k s (x\<lparr>sval := sval x - 1\<rparr>))\<lparr>intr_on := old_level\<rparr>)
   }"

definition sema_down :: "kernel \<Rightarrow> addr \<Rightarrow> kernel option" where
  "sema_down k s = sema_downing (k\<lparr>intr_on := False\<rparr>) s (intr_on k)"

definition sema_try_down :: "kernel \<Rightarrow> addr \<Rightarrow> (kernel \<times> bool) option" where
  "sema_try_down k s = do {
     x \<leftarrow> semas k s;
     if sval x > 0 then Some (set_sema k s (x\<lparr>sval := sval x - 1\<rparr>), True) else Some (k, False)
   }"

definition sema_up :: "kernel \<Rightarrow> addr \<Rightarrow> kernel option" where
  "sema_up k s = do {
     x \<leftarrow> semas k s;
     (x, k) \<leftarrow> (case waiters x of
         [] \<Rightarrow> Some (x, k)
       | t # ts \<Rightarrow> do { k \<leftarrow> thread_unblock k t; Some (x\<lparr>waiters := ts\<rparr>, k) });
     Some (set_sema k s (x\<lparr>sval := sval x + 1\<rparr>))
   }"

subsection \<open>Locks\<close>

text \<open>The semaphore of a lock is found under the lock's address.\<close>

definition lock_init :: "kernel \<Rightarrow> addr \<Rightarrow> kernel" where
  "lock_init k l = sema_init (k\<lparr>holder := (holder k)(l \<mapsto> NULL)\<rparr>) l 1"

definition lock_held_by_current_thread :: "kernel \<Rightarrow> addr \<Rightarrow> bool option" where
  "lock_held_by_current_thread k l = do {
     h \<leftarrow> holder k l;
     t \<leftarrow> thread_current k;
     Some (h = t)
   }"

definition lock_acquire :: "kernel \<Rightarrow> addr \<Rightarrow> instr list option" where
  "lock_acquire k l = do {
     held \<leftarrow> lock_held_by_current_thread k l;
     check (\<not> held);
     Some [SemaDown l, SetHolder l]
   }"

definition lock_try_acquire :: "kernel \<Rightarrow> addr \<Rightarrow> instr list \<Rightarrow> instr list \<Rightarrow> instr list option" where
  "lock_try_acquire k l yes no = do {
     held \<leftarrow> lock_held_by_current_thread k l;
     check (\<not> held);
     Some [TryDown l (SetHolder l # yes) no]
   }"

definition lock_release :: "kernel \<Rightarrow> addr \<Rightarrow> (kernel \<times> instr list) option" where
  "lock_release k l = do {
     held \<leftarrow> lock_held_by_current_thread k l;
     check held;
     Some (k\<lparr>holder := (holder k)(l \<mapsto> NULL)\<rparr>, [SemaUp l])
   }"

subsection \<open>Condition variables\<close>

definition cond_init :: "kernel \<Rightarrow> addr \<Rightarrow> kernel" where
  "cond_init k c = k\<lparr>conds := (conds k)(c \<mapsto> [])\<rparr>"

definition cond_wait :: "kernel \<Rightarrow> addr \<Rightarrow> addr \<Rightarrow> addr \<Rightarrow> instr list option" where
  "cond_wait k c l waiter = do {
     held \<leftarrow> lock_held_by_current_thread k l;
     check held;
     Some [SemaInit waiter 0, CondPush c waiter, LockRelease l, SemaDown waiter, LockAcquire l]
   }"

definition cond_push :: "kernel \<Rightarrow> addr \<Rightarrow> addr \<Rightarrow> kernel option" where
  "cond_push k c waiter = do {
     ws \<leftarrow> conds k c;
     Some (k\<lparr>conds := (conds k)(c \<mapsto> ws @ [waiter])\<rparr>)
   }"

definition cond_signal :: "kernel \<Rightarrow> addr \<Rightarrow> addr \<Rightarrow> instr list option" where
  "cond_signal k c l = do {
     held \<leftarrow> lock_held_by_current_thread k l;
     check held;
     Some [CondPop c]
   }"

definition cond_pop :: "kernel \<Rightarrow> addr \<Rightarrow> (kernel \<times> instr list) option" where
  "cond_pop k c = do {
     ws \<leftarrow> conds k c;
     case ws of
       [] \<Rightarrow> Some (k, [])
     | w # ws \<Rightarrow> Some (k\<lparr>conds := (conds k)(c \<mapsto> ws)\<rparr>, [SemaUp w])
   }"

definition cond_broadcast :: "kernel \<Rightarrow> addr \<Rightarrow> addr \<Rightarrow> instr list option" where
  "cond_broadcast k c l = do {
     ws \<leftarrow> conds k c;
     Some (if ws \<noteq> [] then [CondSignal c l, CondBroadcast c l] else [])
   }"

subsection \<open>Creating threads\<close>

definition init_thread :: "string \<Rightarrow> int \<Rightarrow> thread option" where
  "init_thread nm pri = do {
     check (PRI_MIN \<le> pri \<and> pri \<le> PRI_MAX);
     Some \<lparr>tid = 0, status = THREAD_BLOCKED, name = take 15 nm, priority = pri, pml4 = NULL, tf_if = False, magic = THREAD_MAGIC\<rparr>
   }"

text \<open>The code of \<open>kernel_thread\<close> around the thread's function.\<close>

definition kernel_thread :: "instr list \<Rightarrow> instr list" where
  "kernel_thread function = IntrEnable # function @ [Exit]"

definition thread_create :: "kernel \<Rightarrow> addr \<Rightarrow> string \<Rightarrow> int \<Rightarrow> instr list \<Rightarrow> (kernel \<times> instr list) option" where
  "thread_create k t nm pri function =
     (if t = NULL then Some (k, [])
      else do {
        th \<leftarrow> init_thread nm pri;
        let k = k\<lparr>threads := (threads k)(t \<mapsto> th\<lparr>tf_if := True\<rparr>), code := (code k)(t := kernel_thread function)\<rparr>;
        Some (k, [LockAcquire (tid_lock k), SetTid t, LockRelease (tid_lock k), Unblock t])
      })"

definition allocate_tid :: "kernel \<Rightarrow> addr \<Rightarrow> kernel option" where
  "allocate_tid k t = set_thread (k\<lparr>next_tid := next_tid k + 1\<rparr>) t (\<lambda>th. th\<lparr>tid := next_tid k\<rparr>)"

definition thread_start :: "addr \<Rightarrow> addr \<Rightarrow> instr list" where
  "thread_start page started =
     [SemaInit started 0, Create page ''idle'' PRI_MIN [IdleMain started], IntrEnable, SemaDown started]"

definition idle :: "instr list" where
  "idle = [IntrDisable, Block, IntrEnable, IdleLoop]"

text \<open>The initial state of the kernel: the running code becomes the thread \<open>main\<close>, with interrupts off.\<close>

definition thread_init :: "addr \<Rightarrow> addr \<Rightarrow> instr list \<Rightarrow> kernel" where
  "thread_init t lock main = \<lparr>
     threads = [t \<mapsto> \<lparr>tid = 1, status = THREAD_RUNNING, name = ''main'', priority = PRI_DEFAULT, pml4 = NULL, tf_if = False, magic = THREAD_MAGIC\<rparr>],
     code = (\<lambda>_. [])(t := main @ [Exit]), current = t, ready_list = [], destruction_req = [], idle_thread = NULL,
     initial_thread = t, tid_lock = lock, next_tid = 2, thread_ticks = 0, idle_ticks = 0, kernel_ticks = 0,
     user_ticks = 0, intr_on = False, semas = [lock \<mapsto> \<lparr>sval = 1, waiters = []\<rparr>], holder = [lock \<mapsto> NULL],
     conds = Map.empty\<rparr>"

definition thread_name :: "kernel \<Rightarrow> string option" where
  "thread_name k = do { t \<leftarrow> thread_current k; th \<leftarrow> threads k t; Some (name th) }"

definition thread_tid :: "kernel \<Rightarrow> 32 word option" where
  "thread_tid k = do { t \<leftarrow> thread_current k; th \<leftarrow> threads k t; Some (tid th) }"

definition thread_get_priority :: "kernel \<Rightarrow> int option" where
  "thread_get_priority k = do { t \<leftarrow> thread_current k; th \<leftarrow> threads k t; Some (priority th) }"

definition thread_set_priority :: "kernel \<Rightarrow> int \<Rightarrow> kernel option" where
  "thread_set_priority k new_priority = do {
     t \<leftarrow> thread_current k;
     set_thread k t (\<lambda>th. th\<lparr>priority := new_priority\<rparr>)
   }"

subsection \<open>Executing the current thread\<close>

fun exec_instr :: "kernel \<Rightarrow> addr \<Rightarrow> instr \<Rightarrow> kernel option" where
  "exec_instr k t (SemaInit s v) = Some (sema_init k s v)"
| "exec_instr k t (SemaDown s) = sema_down k s"
| "exec_instr k t (Downing s old) = sema_downing (k\<lparr>intr_on := False\<rparr>) s old"
| "exec_instr k t (TryDown s yes no) = do {
     (k, success) \<leftarrow> sema_try_down k s;
     Some (push_code k t (if success then yes else no))
   }"
| "exec_instr k t (SemaUp s) = sema_up k s"
| "exec_instr k t (LockInit l) = Some (lock_init k l)"
| "exec_instr k t (LockAcquire l) = map_option (push_code k t) (lock_acquire k l)"
| "exec_instr k t (LockTryAcquire l yes no) = map_option (push_code k t) (lock_try_acquire k l yes no)"
| "exec_instr k t (SetHolder l) = do {
     t \<leftarrow> thread_current k;
     Some (k\<lparr>holder := (holder k)(l \<mapsto> t)\<rparr>)
   }"
| "exec_instr k t (LockRelease l) = do { (k, is) \<leftarrow> lock_release k l; Some (push_code k t is) }"
| "exec_instr k t (CondInit c) = Some (cond_init k c)"
| "exec_instr k t (CondWait c l w) = map_option (push_code k t) (cond_wait k c l w)"
| "exec_instr k t (CondPush c w) = cond_push k c w"
| "exec_instr k t (CondSignal c l) = map_option (push_code k t) (cond_signal k c l)"
| "exec_instr k t (CondPop c) = do { (k, is) \<leftarrow> cond_pop k c; Some (push_code k t is) }"
| "exec_instr k t (CondBroadcast c l) = map_option (push_code k t) (cond_broadcast k c l)"
| "exec_instr k t Yield = thread_yield k (intr_on k)"
| "exec_instr k t Exit = thread_exit k"
| "exec_instr k t IntrDisable = Some (k\<lparr>intr_on := False\<rparr>)"
| "exec_instr k t IntrEnable = Some (k\<lparr>intr_on := True\<rparr>)"
| "exec_instr k t (Restore old) = Some (k\<lparr>intr_on := old\<rparr>)"
| "exec_instr k t Block = thread_block k"
| "exec_instr k t (Unblock u) = thread_unblock k u"
| "exec_instr k t (SetPriority p) = thread_set_priority k p"
| "exec_instr k t (Create page nm pri function) = do {
     (k, is) \<leftarrow> thread_create k page nm pri function;
     Some (push_code k t is)
   }"
| "exec_instr k t (SetTid u) = allocate_tid k u"
| "exec_instr k t (ThreadStart page started) = Some (push_code k t (thread_start page started))"
| "exec_instr k t (IdleMain started) = Some (push_code (k\<lparr>idle_thread := t\<rparr>) t [SemaUp started, IdleLoop])"
| "exec_instr k t IdleLoop = Some (push_code k t idle)"

definition exec :: "kernel \<Rightarrow> kernel option" where
  "exec k = do {
     t \<leftarrow> thread_current k;
     case code k t of
       [] \<Rightarrow> None
     | i # is \<Rightarrow> exec_instr (k\<lparr>code := (code k)(t := is)\<rparr>) t i
   }"

text \<open>
  What the callers promise: the page that \<open>Create\<close> gets from the allocator is not in use, \<open>thread_unblock\<close>
  is not called for a thread that waits for a semaphore, and the idle thread is started once.
\<close>

definition waits :: "(addr \<rightharpoonup> semaphore) \<Rightarrow> addr \<Rightarrow> bool" where
  "waits sem t \<longleftrightarrow> (\<exists>s x. sem s = Some x \<and> t \<in> set (waiters x))"

definition obeys :: "kernel \<Rightarrow> bool" where
  "obeys k \<longleftrightarrow> (case code k (current k) of
       Create page _ _ _ # _ \<Rightarrow> threads k page = None
     | Unblock t # _ \<Rightarrow> \<not> waits (semas k) t
     | IdleMain _ # _ \<Rightarrow> idle_thread k = NULL
     | _ \<Rightarrow> True)"

inductive kstep :: "kernel \<Rightarrow> kernel \<Rightarrow> bool" where
  run: "obeys k \<Longrightarrow> exec k = Some k' \<Longrightarrow> kstep k k'"
| tick: "timer_interrupt k = Some k' \<Longrightarrow> kstep k k'"

inductive reachable :: "kernel \<Rightarrow> kernel \<Rightarrow> bool" for k0 where
  start: "reachable k0 k0"
| step: "reachable k0 k \<Longrightarrow> kstep k k' \<Longrightarrow> reachable k0 k'"

inductive_cases kstepE: "kstep k k'"

subsection \<open>What an operation does to the ready list\<close>

text \<open>
  Every operation either leaves the running thread alone and at most appends to the ready list, or switches:
  it takes the first thread of the list, to which at most the running thread has been appended.
\<close>

definition kept :: "kernel \<Rightarrow> kernel \<Rightarrow> bool" where
  "kept k k' \<longleftrightarrow> current k' = current k \<and> thread_ticks k' = thread_ticks k \<and> (\<exists>ts. ready_list k' = ready_list k @ ts)"

definition switched :: "kernel \<Rightarrow> kernel \<Rightarrow> bool" where
  "switched k k' \<longleftrightarrow> thread_ticks k' = 0 \<and> (\<exists>ts. ready_list k @ ts = [] \<and> ready_list k' = [] \<or>
     ready_list k @ ts = current k' # ready_list k')"

named_theorems kept_simps "fields the operations do not touch"

lemma kept_refl [simp]: "kept k k"
  by (simp add: kept_def)

lemma set_thread_fields [kept_simps]:
  assumes "set_thread k t f = Some k'"
  shows "current k' = current k" "thread_ticks k' = thread_ticks k" "ready_list k' = ready_list k"
    "destruction_req k' = destruction_req k" "code k' = code k" "semas k' = semas k" "holder k' = holder k"
    "conds k' = conds k" "intr_on k' = intr_on k" "idle_thread k' = idle_thread k" "initial_thread k' = initial_thread k"
  using assms by (auto simp: set_thread_def split: option.splits)

lemma free_victims_fields [simp]:
  "current (free_victims k vs) = current k" "thread_ticks (free_victims k vs) = thread_ticks k"
  "ready_list (free_victims k vs) = ready_list k" "code (free_victims k vs) = code k"
  "semas (free_victims k vs) = semas k" "holder (free_victims k vs) = holder k" "conds (free_victims k vs) = conds k"
  "intr_on (free_victims k vs) = intr_on k" "idle_thread (free_victims k vs) = idle_thread k"
  "initial_thread (free_victims k vs) = initial_thread k" "destruction_req (free_victims k vs) = destruction_req k"
  by (induction vs arbitrary: k) simp_all

lemma schedule_switched:
  assumes "schedule k = Some k'"
  shows "thread_ticks k' = 0 \<and> (ready_list k = [] \<and> ready_list k' = [] \<or> ready_list k = current k' # ready_list k')"
  using assms unfolding schedule_def next_thread_to_run_def Let_def
  by (cases "ready_list k")
    (auto elim!: bind_SomeE simp: thread_launch_def set_thread_fields split: if_splits)

lemma switchedI:
  "schedule k1 = Some k' \<Longrightarrow> ready_list k1 = ready_list k @ ts \<Longrightarrow> switched k k'"
  using schedule_switched unfolding switched_def by metis

lemma thread_current_Some: "thread_current k = Some t \<Longrightarrow> t = current k \<and> is_thread k t \<and> status_of k t = Some THREAD_RUNNING"
  by (auto simp: thread_current_def elim!: bind_SomeE)

lemma do_schedule_switched:
  "do_schedule k st = Some k' \<Longrightarrow> ready_list k = ready_list k0 @ ts \<Longrightarrow> switched k0 k'"
  unfolding do_schedule_def Let_def
  by (auto elim!: bind_SomeE intro: switchedI simp: set_thread_fields)

lemma thread_block_switched:
  "thread_block k = Some k' \<Longrightarrow> ready_list k = ready_list k0 \<Longrightarrow> switched k0 k'"
  unfolding thread_block_def by (auto elim!: bind_SomeE intro: switchedI [where ts = "[]"] simp: set_thread_fields)

lemma thread_yield_switched:
  assumes "thread_yield k old = Some k'"
  shows "switched k k'"
proof -
  obtain t where "do_schedule (let k = push_code (k\<lparr>intr_on := False\<rparr>) t [Restore old] in
      if t \<noteq> idle_thread k then k\<lparr>ready_list := ready_list k @ [t]\<rparr> else k) THREAD_READY = Some k'"
    using assms unfolding thread_yield_def by (auto simp: Let_def elim!: bind_SomeE)
  then show ?thesis
    by (rule do_schedule_switched [where ts = "if t \<noteq> idle_thread k then [t] else []"])
      (simp add: Let_def push_code_def)
qed

lemma sema_downing_kept:
  assumes "sema_downing k s old = Some k'" and "ready_list k = ready_list k0"
    and "current k = current k0" "thread_ticks k = thread_ticks k0"
  shows "kept k0 k' \<or> switched k0 k'"
proof -
  obtain x where x: "semas k s = Some x" using assms(1) unfolding sema_downing_def by (auto elim!: bind_SomeE)
  show ?thesis
  proof (cases "sval x = 0")
    case True
    then obtain t where "thread_block (push_code (set_sema k s (x\<lparr>waiters := waiters x @ [t]\<rparr>)) t [Downing s old]) = Some k'"
      using assms(1) x unfolding sema_downing_def by (auto simp: Let_def elim!: bind_SomeE)
    then have "switched k0 k'" by (rule thread_block_switched) (simp add: push_code_def set_sema_def assms)
    then show ?thesis ..
  next
    case False
    then show ?thesis using assms x by (auto simp: sema_downing_def kept_def set_sema_def)
  qed
qed

lemma thread_unblock_kept: "thread_unblock k t = Some k' \<Longrightarrow> kept k k'"
  unfolding thread_unblock_def by (auto elim!: bind_SomeE simp: kept_def set_thread_fields)

lemma sema_up_kept: "sema_up k s = Some k' \<Longrightarrow> kept k k'"
  unfolding sema_up_def set_sema_def
  by (auto elim!: bind_SomeE dest!: thread_unblock_kept simp: kept_def split: list.splits)

lemma exec_kept:
  assumes "exec k = Some k'"
  shows "kept k k' \<or> switched k k'"
proof -
  obtain t i "is" where e: "exec_instr (k\<lparr>code := (code k)(t := is)\<rparr>) t i = Some k'"
    using assms unfolding exec_def by (auto elim!: bind_SomeE split: list.splits)
  let ?k = "k\<lparr>code := (code k)(t := is)\<rparr>"
  have sw: "switched ?k k' \<Longrightarrow> switched k k'" and kp: "kept ?k k' \<Longrightarrow> kept k k'"
    by (simp_all add: switched_def kept_def)
  show ?thesis
  proof (cases i)
    case (SemaDown s)
    have "kept k k' \<or> switched k k'"
      by (rule sema_downing_kept [where k = "?k\<lparr>intr_on := False\<rparr>" and s = s and old = "intr_on k"]) (use e SemaDown in \<open>simp_all add: sema_down_def\<close>)
    then show ?thesis .
  next
    case (Downing s old)
    have "kept k k' \<or> switched k k'"
      by (rule sema_downing_kept [where k = "?k\<lparr>intr_on := False\<rparr>" and s = s and old = old]) (use e Downing in simp_all)
    then show ?thesis .
  next
    case (SemaUp s)
    then show ?thesis using e kp by (auto dest: sema_up_kept)
  next
    case Yield
    then show ?thesis using e sw by (auto dest: thread_yield_switched)
  next
    case Exit
    then show ?thesis using e by (auto simp: thread_exit_def intro!: do_schedule_switched [where ts = "[]"])
  next
    case Block
    then show ?thesis using e by (auto intro!: thread_block_switched)
  next
    case (Unblock u)
    then show ?thesis using e kp by (auto dest: thread_unblock_kept)
  qed (use e in \<open>auto simp: kept_def push_code_def sema_init_def sema_try_down_def set_sema_def lock_init_def
      lock_release_def cond_init_def cond_push_def cond_pop_def thread_create_def allocate_tid_def thread_set_priority_def set_thread_fields
      elim!: bind_SomeE split: if_splits list.splits\<close>)
qed

lemma timer_kept:
  assumes "timer_interrupt k = Some k'"
  shows "switched k k' \<or> current k' = current k \<and> ready_list k' = ready_list k \<and>
    thread_ticks k' = thread_ticks k + 1 \<and> thread_ticks k' < TIME_SLICE"
proof -
  obtain k1 y where k1: "thread_tick k = Some (k1, y)" "(if y then thread_yield k1 True else Some k1) = Some k'"
    using assms unfolding timer_interrupt_def by (auto elim!: bind_SomeE)
  have f: "current k1 = current k \<and> ready_list k1 = ready_list k \<and> thread_ticks k1 = thread_ticks k + 1 \<and>
      (y \<longleftrightarrow> thread_ticks k1 \<ge> TIME_SLICE)"
    using k1(1) unfolding thread_tick_def Let_def by (auto elim!: bind_SomeE)
  show ?thesis
  proof (cases y)
    case True
    with k1(2) have "switched k1 k'" by (simp add: thread_yield_switched)
    with f show ?thesis by (simp add: switched_def)
  next
    case False
    with k1(2) f show ?thesis by (auto simp: not_le)
  qed
qed

subsection \<open>Round robin\<close>

text \<open>The timer ticks a thread on the ready list can still be kept waiting.\<close>

definition ticks_left :: "addr \<Rightarrow> kernel \<Rightarrow> nat" where
  "ticks_left t k = TIME_SLICE * length (takeWhile (\<lambda>u. u \<noteq> t) (ready_list k)) + (TIME_SLICE - thread_ticks k)"

lemma switched_left:
  assumes s: "switched k k'" and t: "t \<in> set (ready_list k)" and c: "current k' \<noteq> t" and lt: "thread_ticks k < TIME_SLICE"
  shows "t \<in> set (ready_list k') \<and> ticks_left t k' < ticks_left t k"
proof -
  obtain ts where r: "ready_list k @ ts = current k' # ready_list k'" and z: "thread_ticks k' = 0"
    using s t unfolding switched_def by auto
  obtain us where us: "ready_list k = current k' # us" "us @ ts = ready_list k'"
    using r t by (cases "ready_list k") auto
  have tu: "t \<in> set us" using t c us(1) by simp
  have "takeWhile (\<lambda>u. u \<noteq> t) (us @ ts) = takeWhile (\<lambda>u. u \<noteq> t) us"
    using tu by (simp add: takeWhile_append1)
  then have "ticks_left t k' = TIME_SLICE * length (takeWhile (\<lambda>u. u \<noteq> t) us) + TIME_SLICE"
    using z us(2) by (simp add: ticks_left_def)
  moreover have "ticks_left t k = TIME_SLICE * length (takeWhile (\<lambda>u. u \<noteq> t) us) + TIME_SLICE + (TIME_SLICE - thread_ticks k)"
    using us(1) c by (simp add: ticks_left_def)
  moreover have "t \<in> set (ready_list k')" using tu us(2) [symmetric] by simp
  ultimately show ?thesis using lt by auto
qed

lemma kept_left:
  assumes "kept k k'" and "t \<in> set (ready_list k)"
  shows "t \<in> set (ready_list k') \<and> ticks_left t k' = ticks_left t k"
  using assms by (auto simp: kept_def ticks_left_def takeWhile_append1)

text \<open>An execution during which \<open>n\<close> timer interrupts occur and \<open>t\<close> does not run.\<close>

inductive starves :: "addr \<Rightarrow> kernel \<Rightarrow> nat \<Rightarrow> kernel \<Rightarrow> bool" for t where
  starves_refl: "current k \<noteq> t \<Longrightarrow> starves t k 0 k"
| starves_run: "starves t k n k1 \<Longrightarrow> exec k1 = Some k2 \<Longrightarrow> current k2 \<noteq> t \<Longrightarrow> starves t k n k2"
| starves_tick: "starves t k n k1 \<Longrightarrow> timer_interrupt k1 = Some k2 \<Longrightarrow> current k2 \<noteq> t \<Longrightarrow> starves t k (n + 1) k2"

lemma starves_bound:
  assumes "starves t k n k'" and "t \<in> set (ready_list k)" and "thread_ticks k < TIME_SLICE"
  shows "t \<in> set (ready_list k') \<and> thread_ticks k' < TIME_SLICE \<and> ticks_left t k' + n \<le> ticks_left t k"
  using assms
proof (induction rule: starves.induct)
  case (starves_run k n k1 k2)
  then have IH: "t \<in> set (ready_list k1)" "thread_ticks k1 < TIME_SLICE" "ticks_left t k1 + n \<le> ticks_left t k" by auto
  from exec_kept [OF starves_run.hyps(2)] show ?case
  proof
    assume "kept k1 k2"
    with kept_left [OF this IH(1)] IH show ?thesis by (auto simp: kept_def)
  next
    assume s: "switched k1 k2"
    then have "thread_ticks k2 = 0" by (simp add: switched_def)
    with switched_left [OF s IH(1) starves_run.hyps(3) IH(2)] IH show ?thesis by (auto simp: TIME_SLICE_def)
  qed
next
  case (starves_tick k n k1 k2)
  then have IH: "t \<in> set (ready_list k1)" "thread_ticks k1 < TIME_SLICE" "ticks_left t k1 + n \<le> ticks_left t k" by auto
  from timer_kept [OF starves_tick.hyps(2)] show ?case
  proof
    assume s: "switched k1 k2"
    then have "thread_ticks k2 = 0" by (simp add: switched_def)
    with switched_left [OF s IH(1) starves_tick.hyps(3) IH(2)] IH show ?thesis by (auto simp: TIME_SLICE_def)
  next
    assume "current k2 = current k1 \<and> ready_list k2 = ready_list k1 \<and>
      thread_ticks k2 = thread_ticks k1 + 1 \<and> thread_ticks k2 < TIME_SLICE"
    with IH show ?thesis by (auto simp: ticks_left_def)
  qed
qed simp

lemma ticks_left_pos: "thread_ticks k < TIME_SLICE \<Longrightarrow> 0 < ticks_left t k"
  by (simp add: ticks_left_def)

text \<open>C34: round robin keeps nobody waiting for ever. While a thread that is on the ready list does not get the
  processor, no matter which instructions the running threads execute (in terms of every operation of
  the model: block, yield, exit, locks, creation of more threads), fewer timer interrupts have occurred
  than a bound that its place in the list fixes at the start: a full time slice for every thread before it
  and what is left of the slice of the running one.\<close>

theorem ready_thread_runs:
  assumes "starves t k n k'" and "t \<in> set (ready_list k)" and "thread_ticks k < TIME_SLICE"
  shows "n < TIME_SLICE * length (takeWhile (\<lambda>u. u \<noteq> t) (ready_list k)) + (TIME_SLICE - thread_ticks k)"
proof -
  note b = starves_bound [OF assms]
  then have "0 < ticks_left t k'" by (simp add: ticks_left_pos)
  with b have "n < ticks_left t k" by simp
  then show ?thesis by (simp add: ticks_left_def)
qed

definition two_threads :: kernel where
  "two_threads = (thread_init 4096 8 [])\<lparr>intr_on := True, ready_list := [8192],
     threads := (threads (thread_init 4096 8 []))(8192 \<mapsto> \<lparr>tid = 2, status = THREAD_READY, name = ''a'',
       priority = PRI_DEFAULT, pml4 = NULL, tf_if = True, magic = THREAD_MAGIC\<rparr>)\<rparr>"

lemma ready_thread_runs_witness:
  "starves 8192 two_threads 1 (two_threads\<lparr>thread_ticks := 1, kernel_ticks := 1\<rparr>) \<and>
   1 < TIME_SLICE * length (takeWhile (\<lambda>u. u \<noteq> 8192) (ready_list two_threads)) + (TIME_SLICE - thread_ticks two_threads)"
proof -
  have t: "timer_interrupt two_threads = Some (two_threads\<lparr>thread_ticks := 1, kernel_ticks := 1\<rparr>)"
    by (simp add: timer_interrupt_def thread_tick_def thread_current_def is_thread_def status_of_def two_threads_def
        thread_init_def TIME_SLICE_def Let_def)
  have s: "starves 8192 two_threads (0 + 1) (two_threads\<lparr>thread_ticks := 1, kernel_ticks := 1\<rparr>)"
    by (rule starves_tick [OF starves_refl t]) (simp_all add: two_threads_def thread_init_def)
  show ?thesis
    using ready_thread_runs [OF s] s by (simp add: two_threads_def thread_init_def TIME_SLICE_def)
qed

end
