(* ===== verification/ThreadsWf.thy ===== *)
theory ThreadsWf
  imports Threads
begin

text \<open>
  The invariant of the scheduler: which list a thread is on agrees with its status, in every state that
  a kernel set up by \<open>thread_init\<close> reaches.
\<close>

subsection \<open>Where a thread of a status may be\<close>

text \<open>
  The arguments say whether the thread is the running one, on the ready list, queued for destruction, a
  waiter of a semaphore, the idle thread, the initial thread, and the thread \<open>schedule\<close> is about to
  switch away from.
\<close>

fun placed :: "thread_status option \<Rightarrow> bool \<Rightarrow> bool \<Rightarrow> bool \<Rightarrow> bool \<Rightarrow> bool \<Rightarrow> bool \<Rightarrow> bool \<Rightarrow> bool" where
  "placed None r q x w i m d \<longleftrightarrow> \<not> r \<and> \<not> q \<and> \<not> x \<and> \<not> w \<and> \<not> i"
| "placed (Some THREAD_RUNNING) r q x w i m d \<longleftrightarrow> r \<and> \<not> q \<and> \<not> x \<and> \<not> w"
| "placed (Some THREAD_READY) r q x w i m d \<longleftrightarrow> \<not> r \<and> (q \<or> i) \<and> \<not> x \<and> \<not> w"
| "placed (Some THREAD_BLOCKED) r q x w i m d \<longleftrightarrow> \<not> r \<and> \<not> q \<and> \<not> x \<and> \<not> (w \<and> i)"
| "placed (Some THREAD_DYING) r q x w i m d \<longleftrightarrow> \<not> r \<and> \<not> q \<and> (x \<or> m \<or> d) \<and> \<not> w \<and> \<not> i"

definition separate :: "(addr \<rightharpoonup> semaphore) \<Rightarrow> bool" where
  "separate sem \<longleftrightarrow> (\<forall>s x. sem s = Some x \<longrightarrow> distinct (waiters x)) \<and>
     (\<forall>s x s' x' t. sem s = Some x \<longrightarrow> sem s' = Some x' \<longrightarrow> t \<in> set (waiters x) \<longrightarrow> t \<in> set (waiters x') \<longrightarrow> s = s')"

definition consistent :: "addr set \<Rightarrow> addr set \<Rightarrow> (addr \<Rightarrow> thread_status option) \<Rightarrow> addr list \<Rightarrow> addr list \<Rightarrow> addr \<Rightarrow> addr \<Rightarrow>
    (addr \<rightharpoonup> semaphore) \<Rightarrow> bool" where
  "consistent r d st ready dreq idl ini sem \<longleftrightarrow>
     (\<forall>t. placed (st t) (t \<in> r) (t \<in> set ready) (t \<in> set dreq) (waits sem t) (t = idl \<and> idl \<noteq> NULL) (t = ini) (t \<in> d)) \<and>
     distinct ready \<and> distinct dreq \<and> separate sem"

lemma consistent_placed:
  "consistent r d st ready dreq idl ini sem \<Longrightarrow>
   placed (st t) (t \<in> r) (t \<in> set ready) (t \<in> set dreq) (waits sem t) (t = idl \<and> idl \<noteq> NULL) (t = ini) (t \<in> d)"
  by (simp add: consistent_def)

lemma placed_None_iff: "placed v r q x w i m d \<Longrightarrow> q \<Longrightarrow> v = Some THREAD_READY"
  by (cases "(v, r, q, x, w, i, m, d)" rule: placed.cases) auto

lemma placed_running: "placed v True q x w i m d \<Longrightarrow> v = Some THREAD_RUNNING"
  by (cases "(v, True, q, x, w, i, m, d)" rule: placed.cases) auto

lemma placed_waits: "placed v r q x True i m d \<Longrightarrow> v = Some THREAD_BLOCKED"
  by (cases "(v, r, q, x, True, i, m, d)" rule: placed.cases) auto

lemma placed_dreq: "placed v r q True w i m d \<Longrightarrow> v = Some THREAD_DYING"
  by (cases "(v, r, q, True, w, i, m, d)" rule: placed.cases) auto

lemma placed_next: "placed v False q x w i m d \<Longrightarrow> q \<or> i \<Longrightarrow> \<not> x \<and> \<not> w"
  by (cases "(v, False, q, x, w, i, m, d)" rule: placed.cases) auto

lemma placed_waits_mono: "placed v r q x w i m d \<Longrightarrow> (w' \<Longrightarrow> w) \<Longrightarrow> placed v r q x w' i m d"
  by (cases "(v, r, q, x, w, i, m, d)" rule: placed.cases) auto

text \<open>A change that concerns one thread only.\<close>

lemma consistent_change:
  assumes c: "consistent r d st ready dreq idl ini sem"
    and o: "\<And>t. t \<noteq> c \<Longrightarrow> (t \<in> r' \<longleftrightarrow> t \<in> r) \<and> (t \<in> d' \<longleftrightarrow> t \<in> d) \<and> (t \<in> set ready' \<longleftrightarrow> t \<in> set ready) \<and>
        (t \<in> set dreq' \<longleftrightarrow> t \<in> set dreq) \<and> (waits sem' t \<longleftrightarrow> waits sem t)"
    and p: "placed v (c \<in> r') (c \<in> set ready') (c \<in> set dreq') (waits sem' c) (c = idl \<and> idl \<noteq> NULL) (c = ini) (c \<in> d')"
    and "distinct ready'" "distinct dreq'" "separate sem'"
  shows "consistent r' d' (st(c := v)) ready' dreq' idl ini sem'"
proof -
  have "placed ((st(c := v)) t) (t \<in> r') (t \<in> set ready') (t \<in> set dreq') (waits sem' t) (t = idl \<and> idl \<noteq> NULL) (t = ini) (t \<in> d')" for t
  proof (cases "t = c")
    case True
    with p show ?thesis by simp
  next
    case False
    with o [OF False] consistent_placed [OF c, of t] show ?thesis by simp
  qed
  with assms(4-6) show ?thesis by (simp add: consistent_def)
qed

lemma consistent_parts:
  assumes "consistent r d st ready dreq idl ini sem"
  shows "distinct ready" "distinct dreq" "separate sem"
  using assms by (simp_all add: consistent_def)

lemma waits_upd: "sem s = Some x \<Longrightarrow> waits (sem(s \<mapsto> y)) t \<longleftrightarrow> t \<in> set (waiters y) \<or> (\<exists>s' x. s' \<noteq> s \<and> sem s' = Some x \<and> t \<in> set (waiters x))"
  by (auto simp: waits_def)

lemma waits_split: "sem s = Some x \<Longrightarrow> waits sem t \<longleftrightarrow> t \<in> set (waiters x) \<or> (\<exists>s' x. s' \<noteq> s \<and> sem s' = Some x \<and> t \<in> set (waiters x))"
  unfolding waits_def by (metis option.inject)

lemma separate_shrink:
  assumes s: "separate sem" and y: "distinct (waiters y)" "\<And>t. t \<in> set (waiters y) \<Longrightarrow> \<exists>x. sem s = Some x \<and> t \<in> set (waiters x)"
  shows "separate (sem(s \<mapsto> y))"
proof -
  have sub: "\<exists>x'. sem s' = Some x' \<and> t \<in> set (waiters x')" if "(sem(s \<mapsto> y)) s' = Some a" "t \<in> set (waiters a)" for s' a t
    using that y(2) by (cases "s' = s") auto
  have "distinct (waiters a)" if "(sem(s \<mapsto> y)) s' = Some a" for s' a
    using that y(1) s by (cases "s' = s") (auto simp: separate_def)
  moreover have "s' = s''" if "(sem(s \<mapsto> y)) s' = Some a" "(sem(s \<mapsto> y)) s'' = Some b" "t \<in> set (waiters a)" "t \<in> set (waiters b)"
    for s' s'' a b t
    using sub [OF that(1,3)] sub [OF that(2,4)] s unfolding separate_def by metis
  ultimately show ?thesis unfolding separate_def by metis
qed

lemma separate_wait:
  assumes s: "separate sem" and x: "sem s = Some x" and n: "\<not> waits sem c"
  shows "separate (sem(s \<mapsto> x\<lparr>waiters := waiters x @ [c]\<rparr>))" (is "separate ?sem")
proof -
  have sub: "t = c \<and> s' = s \<or> (\<exists>x'. sem s' = Some x' \<and> t \<in> set (waiters x'))" if "?sem s' = Some a" "t \<in> set (waiters a)" for s' a t
    using that x by (cases "s' = s") auto
  have "distinct (waiters a)" if "?sem s' = Some a" for s' a
    using that s x n by (cases "s' = s") (auto simp: separate_def waits_def)
  moreover have "s' = s''" if "?sem s' = Some a" "?sem s'' = Some b" "t \<in> set (waiters a)" "t \<in> set (waiters b)"
    for s' s'' a b t
  proof (cases "t = c")
    case True
    then show ?thesis using sub [OF that(1,3)] sub [OF that(2,4)] n by (auto simp: waits_def)
  next
    case False
    then show ?thesis using sub [OF that(1,3)] sub [OF that(2,4)] s unfolding separate_def by metis
  qed
  ultimately show ?thesis unfolding separate_def by metis
qed

subsection \<open>The changes the operations make\<close>

lemma consistent_free:
  assumes c: "consistent r d st ready dreq idl ini sem"
  shows "consistent r d (\<lambda>t. if t \<in> set dreq then None else st t) ready [] idl ini sem"
proof -
  have "placed (if t \<in> set dreq then None else st t) (t \<in> r) (t \<in> set ready) False (waits sem t) (t = idl \<and> idl \<noteq> NULL) (t = ini) (t \<in> d)" for t
  proof (cases "t \<in> set dreq")
    case True
    with consistent_placed [OF c, of t] have "st t = Some THREAD_DYING" by (auto intro: placed_dreq)
    with True consistent_placed [OF c, of t] show ?thesis by simp
  next
    case False
    with consistent_placed [OF c, of t] show ?thesis by simp
  qed
  with consistent_parts [OF c] show ?thesis by (simp add: consistent_def)
qed

lemma consistent_running: "consistent {c} d st ready dreq idl ini sem \<Longrightarrow> st c = Some THREAD_RUNNING"
  by (drule consistent_placed [where t = c]) (auto intro: placed_running)

text \<open>The current thread gives up the processor.\<close>

lemma consistent_leave:
  assumes c: "consistent {c} {} st ready dreq idl ini sem"
    and v: "v = THREAD_READY \<and> (ready' = ready @ [c] \<or> ready' = ready \<and> c = idl \<and> c \<noteq> NULL) \<or> v = THREAD_BLOCKED \<and> ready' = ready \<or>
      v = THREAD_DYING \<and> ready' = ready \<and> (c = idl \<longrightarrow> c = NULL)"
  shows "consistent {} {c} (st(c \<mapsto> v)) ready' dreq idl ini sem"
proof (rule consistent_change [OF c])
  have p: "c \<notin> set ready" "c \<notin> set dreq" "\<not> waits sem c"
    using consistent_placed [OF c, of c] consistent_running [OF c] by auto
  then show "placed (Some v) (c \<in> {}) (c \<in> set ready') (c \<in> set dreq) (waits sem c) (c = idl \<and> idl \<noteq> NULL) (c = ini) (c \<in> {c})"
    using v by auto
  show "distinct ready'" using v p consistent_parts [OF c] by auto
qed (use v consistent_parts [OF c] in auto)

lemma consistent_wait:
  assumes c: "consistent {c} {} st ready dreq idl ini sem" and x: "sem s = Some x" and ni: "c = idl \<longrightarrow> c = NULL"
  shows "consistent {} {c} (st(c \<mapsto> THREAD_BLOCKED)) ready dreq idl ini (sem(s \<mapsto> x\<lparr>waiters := waiters x @ [c]\<rparr>))"
proof (rule consistent_change [OF c])
  have p: "c \<notin> set ready" "c \<notin> set dreq" "\<not> waits sem c"
    using consistent_placed [OF c, of c] consistent_running [OF c] by auto
  then show "placed (Some THREAD_BLOCKED) (c \<in> {}) (c \<in> set ready) (c \<in> set dreq)
      (waits (sem(s \<mapsto> x\<lparr>waiters := waiters x @ [c]\<rparr>)) c) (c = idl \<and> idl \<noteq> NULL) (c = ini) (c \<in> {c})"
    using ni by auto
  show "separate (sem(s \<mapsto> x\<lparr>waiters := waiters x @ [c]\<rparr>))"
    by (rule separate_wait [OF consistent_parts(3) [OF c] x p(3)])
  fix t assume "t \<noteq> c"
  then show "(t \<in> {} \<longleftrightarrow> t \<in> {c}) \<and> (t \<in> {c} \<longleftrightarrow> t \<in> {}) \<and> (t \<in> set ready \<longleftrightarrow> t \<in> set ready) \<and>
      (t \<in> set dreq \<longleftrightarrow> t \<in> set dreq) \<and> (waits (sem(s \<mapsto> x\<lparr>waiters := waiters x @ [c]\<rparr>)) t \<longleftrightarrow> waits sem t)"
    using x by (auto simp: waits_upd waits_split)
qed (use consistent_parts [OF c] in auto)

lemma consistent_unblock:
  assumes c: "consistent r d st ready dreq idl ini sem" and b: "st t = Some THREAD_BLOCKED" and w: "\<not> waits sem t"
  shows "consistent r d (st(t \<mapsto> THREAD_READY)) (ready @ [t]) dreq idl ini sem"
proof (rule consistent_change [OF c])
  have p: "t \<notin> r" "t \<notin> set ready" "t \<notin> set dreq" using consistent_placed [OF c, of t] b by auto
  then show "distinct (ready @ [t])" using consistent_parts [OF c] by simp
  show "placed (Some THREAD_READY) (t \<in> r) (t \<in> set (ready @ [t])) (t \<in> set dreq) (waits sem t) (t = idl \<and> idl \<noteq> NULL) (t = ini) (t \<in> d)"
    using p w by simp
qed (use consistent_parts [OF c] in auto)

lemma consistent_sema:
  assumes c: "consistent r d st ready dreq idl ini sem"
    and y: "distinct (waiters y)" "\<And>t. t \<in> set (waiters y) \<Longrightarrow> \<exists>x. sem s = Some x \<and> t \<in> set (waiters x)"
  shows "consistent r d st ready dreq idl ini (sem(s \<mapsto> y))"
proof -
  have "waits sem t" if "waits (sem(s \<mapsto> y)) t" for t
    using that y(2) unfolding waits_def by (force split: if_splits)
  then have "placed (st t) (t \<in> r) (t \<in> set ready) (t \<in> set dreq) (waits (sem(s \<mapsto> y)) t) (t = idl \<and> idl \<noteq> NULL) (t = ini) (t \<in> d)" for t
    using consistent_placed [OF c, of t] placed_waits_mono by blast
  moreover have "separate (sem(s \<mapsto> y))"
    by (rule separate_shrink [OF consistent_parts(3) [OF c]]) (use y in auto)
  ultimately show ?thesis using consistent_parts [OF c] by (simp add: consistent_def)
qed

lemma consistent_wake:
  assumes c: "consistent r d st ready dreq idl ini sem" and x: "sem s = Some x" "waiters x = t # ts" and y: "waiters y = ts"
  shows "consistent r d (st(t \<mapsto> THREAD_READY)) (ready @ [t]) dreq idl ini (sem(s \<mapsto> y))"
proof -
  have sp: "separate sem" by (rule consistent_parts [OF c])
  have d: "distinct (t # ts)" using sp x unfolding separate_def by metis
  have w: "waits sem t" using x by (simp add: waits_split)
  have "consistent r d st ready dreq idl ini (sem(s \<mapsto> y))"
    by (rule consistent_sema [OF c]) (use d x y in auto)
  moreover have "st t = Some THREAD_BLOCKED"
    using consistent_placed [OF c, of t] w by (auto intro: placed_waits)
  moreover have "\<not> waits (sem(s \<mapsto> y)) t"
  proof -
    have "s' = s" if "sem s' = Some x'" "t \<in> set (waiters x')" for s' x'
      using sp that x unfolding separate_def by (metis list.set_intros(1))
    then show ?thesis using d y x(1) by (auto simp: waits_upd)
  qed
  ultimately show ?thesis by (rule consistent_unblock)
qed

lemma consistent_new:
  assumes c: "consistent r d st ready dreq idl ini sem" and p: "st p = None"
  shows "consistent r d (st(p \<mapsto> THREAD_BLOCKED)) ready dreq idl ini sem"
  by (rule consistent_change [OF c]) (use consistent_placed [OF c, of p] p consistent_parts [OF c] in auto)

text \<open>The scheduler picks the next thread, and queues the previous one for destruction when it is dying.\<close>

lemma consistent_next:
  assumes c: "consistent {} d st ready dreq idl ini sem"
    and n: "ready = n # ready' \<or> ready = [] \<and> ready' = [] \<and> n = idl \<and> n \<noteq> NULL"
  shows "consistent {n} d (st(n \<mapsto> THREAD_RUNNING)) ready' dreq idl ini sem"
proof -
  have p: "n \<notin> set dreq \<and> \<not> waits sem n"
    using placed_next [OF consistent_placed [OF c, of n, simplified]] n by auto
  show ?thesis
    by (rule consistent_change [OF c]) (use p n consistent_parts [OF c] in auto)
qed

lemma consistent_settle:
  assumes c: "consistent {n} {c} st ready dreq idl ini sem" and nd: "c \<notin> set dreq"
  shows "consistent {n} {} st ready (if st c = Some THREAD_DYING \<and> c \<noteq> ini then dreq @ [c] else dreq) idl ini sem"
proof -
  have "consistent {n} {} (st(c := st c)) ready (if st c = Some THREAD_DYING \<and> c \<noteq> ini then dreq @ [c] else dreq) idl ini sem"
  proof (rule consistent_change [OF c])
    show "placed (st c) (c \<in> {n}) (c \<in> set ready) (c \<in> set (if st c = Some THREAD_DYING \<and> c \<noteq> ini then dreq @ [c] else dreq))
        (waits sem c) (c = idl \<and> idl \<noteq> NULL) (c = ini) (c \<in> {})"
      using consistent_placed [OF c, of c] nd by (cases "st c"; cases "the (st c)") auto
  qed (use nd consistent_parts [OF c] in auto)
  then show ?thesis by simp
qed

text \<open>The current thread becomes the idle thread.\<close>

lemma consistent_idle:
  assumes c: "consistent {c} {} st ready dreq NULL ini sem"
  shows "consistent {c} {} st ready dreq c ini sem"
proof -
  have "placed (st t) (t \<in> {c}) (t \<in> set ready) (t \<in> set dreq) (waits sem t) (t = c \<and> c \<noteq> NULL) (t = ini) (t \<in> {})" for t
    using consistent_placed [OF c, of t] consistent_running [OF c] by (cases "t = c") auto
  with consistent_parts [OF c] show ?thesis by (simp add: consistent_def)
qed

subsection \<open>The invariant of the kernel's state\<close>

abbreviation cons :: "addr set \<Rightarrow> addr set \<Rightarrow> kernel \<Rightarrow> bool" where
  "cons r d k \<equiv> consistent r d (status_of k) (ready_list k) (destruction_req k) (idle_thread k) (initial_thread k) (semas k)"

text \<open>What the idle thread still has to execute.\<close>

inductive idle_code :: "instr list \<Rightarrow> bool" where
  loop: "idle_code (IdleLoop # is)"
| enable: "idle_code (IntrEnable # IdleLoop # is)"
| block: "idle_code (Block # IntrEnable # IdleLoop # is)"
| disable: "idle_code (IntrDisable # Block # IntrEnable # IdleLoop # is)"
| started: "idle_code (SemaUp s # IdleLoop # is)"
| restore: "idle_code is \<Longrightarrow> idle_code (Restore b # is)"

inductive_cases idle_code_ConsE: "idle_code (i # is)"

definition wf :: "kernel \<Rightarrow> bool" where
  "wf k \<longleftrightarrow> cons {current k} {} k \<and> (idle_thread k \<noteq> NULL \<longrightarrow> idle_code (code k (idle_thread k)))"

lemma status_of_set_thread:
  assumes "set_thread k t f = Some k'"
  shows "status_of k' = (status_of k)(t := map_option (\<lambda>x. status (f x)) (threads k t))"
  using assms by (auto simp: set_thread_def status_of_def fun_eq_iff split: option.splits)

lemma set_thread_status:
  assumes "set_thread k t (\<lambda>x. x\<lparr>status := s\<rparr>) = Some k'"
  shows "status_of k' = (status_of k)(t \<mapsto> s)"
  using assms by (auto simp: set_thread_def status_of_def fun_eq_iff split: option.splits)

lemma set_thread_other:
  assumes "set_thread k t f = Some k'" and "\<And>x. status (f x) = status x"
  shows "status_of k' = status_of k"
  using assms by (auto simp: set_thread_def status_of_def fun_eq_iff split: option.splits)

lemma free_victims_status: "status_of (free_victims k vs) = (\<lambda>t. if t \<in> set vs then None else status_of k t)"
proof (induction vs arbitrary: k)
  case (Cons v vs)
  then show ?case by (auto simp: status_of_def fun_eq_iff)
qed (simp add: fun_eq_iff)

lemma set_thread_frame:
  assumes "set_thread k t f = Some k'"
  shows "ready_list k' = ready_list k" "destruction_req k' = destruction_req k" "code k' = code k"
    "semas k' = semas k" "idle_thread k' = idle_thread k" "initial_thread k' = initial_thread k" "current k' = current k"
  using set_thread_fields [OF assms] by simp_all

lemma thread_launch_frame:
  assumes "thread_launch k n = Some k'"
  shows "current k' = n \<and> status_of k' = status_of k \<and> ready_list k' = ready_list k \<and> destruction_req k' = destruction_req k \<and>
    code k' = code k \<and> semas k' = semas k \<and> idle_thread k' = idle_thread k \<and> initial_thread k' = initial_thread k"
proof -
  obtain k1 b where k1: "set_thread k (current k) (\<lambda>x. x\<lparr>tf_if := False\<rparr>) = Some k1"
    and k': "k' = k1\<lparr>current := n, intr_on := b\<rparr>"
    using assms unfolding thread_launch_def by (auto elim!: bind_SomeE)
  have "status_of k1 = status_of k" by (rule set_thread_other [OF k1]) simp
  then have "status_of k' = status_of k" by (simp add: k' status_of_def fun_eq_iff)
  with set_thread_frame [OF k1] show ?thesis by (simp add: k')
qed

lemma schedule_wf:
  assumes s: "schedule k = Some k'" and c: "cons {} {current k} k"
    and nd: "current k \<notin> set (destruction_req k)" and nn: "current k \<noteq> NULL"
  shows "cons {current k'} {} k' \<and> code k' = code k \<and> idle_thread k' = idle_thread k"
proof -
  obtain n k1 where n: "next_thread_to_run k = (n, k1)" by force
  obtain k2 where nt: "is_thread k1 n" and k2: "set_thread k1 n (\<lambda>th. th\<lparr>status := THREAD_RUNNING\<rparr>) = Some k2"
    and r: "(if current k \<noteq> n then thread_launch (if current k \<noteq> NULL \<and> status_of k2 (current k) = Some THREAD_DYING \<and> current k \<noteq> initial_thread k2
        then k2\<lparr>thread_ticks := 0, destruction_req := destruction_req k2 @ [current k]\<rparr> else k2\<lparr>thread_ticks := 0\<rparr>) n
      else Some (k2\<lparr>thread_ticks := 0\<rparr>)) = Some k'"
    using s n unfolding schedule_def Let_def by (auto elim!: bind_SomeE simp: status_of_def split: if_splits)
  have f1: "ready_list k = n # ready_list k1 \<or> ready_list k = [] \<and> ready_list k1 = [] \<and> n = idle_thread k" "status_of k1 = status_of k" "destruction_req k1 = destruction_req k"
      "idle_thread k1 = idle_thread k" "initial_thread k1 = initial_thread k" "semas k1 = semas k" "code k1 = code k"
    using n unfolding next_thread_to_run_def by (auto split: list.splits simp: status_of_def fun_eq_iff)
  note f2 = set_thread_frame [OF k2] set_thread_status [OF k2]
  have "n \<noteq> NULL" using nt by (simp add: is_thread_def)
  then have "cons {n} {current k} k2"
    using consistent_next [OF c, of n "ready_list k1"] f1 by (simp add: f2)
  from consistent_settle [OF this] have settled: "consistent {n} {} (status_of k2) (ready_list k2)
      (if status_of k2 (current k) = Some THREAD_DYING \<and> current k \<noteq> initial_thread k2 then destruction_req k2 @ [current k] else destruction_req k2)
      (idle_thread k2) (initial_thread k2) (semas k2)"
    using nd f1 f2 by simp
  show ?thesis
  proof (cases "current k = n")
    case True
    with r have k': "k' = k2\<lparr>thread_ticks := 0\<rparr>" by simp
    have st: "status_of k' = status_of k2" by (simp add: k' status_of_def fun_eq_iff)
    have "current k2 = current k" using n f2 unfolding next_thread_to_run_def by (auto split: list.splits)
    with settled True f1 f2 st show ?thesis by (simp add: k')
  next
    case False
    let ?k3 = "if current k \<noteq> NULL \<and> status_of k2 (current k) = Some THREAD_DYING \<and> current k \<noteq> initial_thread k2
        then k2\<lparr>thread_ticks := 0, destruction_req := destruction_req k2 @ [current k]\<rparr> else k2\<lparr>thread_ticks := 0\<rparr>"
    have st: "status_of ?k3 = status_of k2" by (simp add: status_of_def fun_eq_iff)
    from r False have "thread_launch ?k3 n = Some k'" by simp
    from thread_launch_frame [OF this] settled nn show ?thesis using f1 f2 st by (auto split: if_splits)
  qed
qed

text \<open>What an operation other than the current thread's next instruction leaves alone.\<close>

definition sound :: "kernel \<Rightarrow> kernel \<Rightarrow> bool" where
  "sound k k' \<longleftrightarrow> cons {current k'} {} k' \<and> code k' = code k \<and> idle_thread k' = idle_thread k"

lemma sound_cong: "sound k1 k' \<Longrightarrow> code k1 = code k \<Longrightarrow> idle_thread k1 = idle_thread k \<Longrightarrow> sound k k'"
  unfolding sound_def by (elim conjE, intro conjI) simp_all

lemma schedule_sound:
  assumes "schedule k = Some k'" and "cons {} {current k} k"
    and "current k \<notin> set (destruction_req k)" and "current k \<noteq> NULL"
  shows "sound k k'"
  unfolding sound_def by (rule schedule_wf [OF assms])

lemma thread_current_wf:
  assumes "thread_current k = Some t"
  shows "t = current k \<and> t \<noteq> NULL"
  using thread_current_Some [OF assms] by (auto simp: is_thread_def)

lemma status_of_more [simp]:
  "status_of (k\<lparr>code := a\<rparr>) = status_of k" "status_of (k\<lparr>intr_on := b\<rparr>) = status_of k"
  "status_of (k\<lparr>ready_list := q\<rparr>) = status_of k" "status_of (k\<lparr>destruction_req := q\<rparr>) = status_of k"
  "status_of (k\<lparr>semas := m\<rparr>) = status_of k" "status_of (k\<lparr>holder := h\<rparr>) = status_of k"
  "status_of (k\<lparr>conds := cs\<rparr>) = status_of k" "status_of (k\<lparr>next_tid := w\<rparr>) = status_of k"
  "status_of (k\<lparr>idle_thread := i\<rparr>) = status_of k" "status_of (k\<lparr>thread_ticks := n\<rparr>) = status_of k"
  "status_of (k\<lparr>idle_ticks := n\<rparr>) = status_of k" "status_of (k\<lparr>user_ticks := n\<rparr>) = status_of k"
  "status_of (k\<lparr>kernel_ticks := n\<rparr>) = status_of k"
  by (simp_all add: status_of_def fun_eq_iff)

lemma do_schedule_wf:
  assumes d: "do_schedule k v = Some k'"
    and c: "consistent {current k} {} (status_of k) ready0 (destruction_req k) (idle_thread k) (initial_thread k) (semas k)"
    and v: "v = THREAD_READY \<and> (ready_list k = ready0 @ [current k] \<or> ready_list k = ready0 \<and> current k = idle_thread k) \<or>
      v = THREAD_DYING \<and> ready_list k = ready0 \<and> current k \<noteq> idle_thread k"
  shows "sound k k'"
proof -
  let ?k1 = "free_victims (k\<lparr>destruction_req := []\<rparr>) (destruction_req k)"
  obtain t1 t2 k2 where t: "thread_current k = Some t1" "thread_current ?k1 = Some t2"
    and k2': "set_thread ?k1 t2 (\<lambda>th. th\<lparr>status := v\<rparr>) = Some k2" and s: "schedule k2 = Some k'"
    using d unfolding do_schedule_def Let_def by (auto elim!: bind_SomeE)
  have k2: "set_thread ?k1 (current k) (\<lambda>th. th\<lparr>status := v\<rparr>) = Some k2"
    using k2' thread_current_wf [OF t(2)] by simp
  note f = set_thread_frame [OF k2] set_thread_status [OF k2]
  have nn: "current k \<noteq> NULL" using thread_current_wf [OF t(1)] by simp
  have "consistent {} {current k} ((\<lambda>t. if t \<in> set (destruction_req k) then None else status_of k t)(current k \<mapsto> v)) (ready_list k) []
      (idle_thread k) (initial_thread k) (semas k)"
    by (rule consistent_leave [OF consistent_free [OF c]]) (use v nn in auto)
  then have "cons {} {current k2} k2" by (simp add: f free_victims_status cong: if_cong)
  then have "sound k2 k'" by (rule schedule_sound [OF s]) (use nn in \<open>simp_all add: f\<close>)
  then show ?thesis by (rule sound_cong) (simp_all add: f)
qed

lemma thread_yield_wf:
  assumes y: "thread_yield k old = Some k'" and c: "cons {current k} {} k"
  shows "sound (push_code k (current k) [Restore old]) k'"
proof -
  let ?k = "push_code (k\<lparr>intr_on := False\<rparr>) (current k) [Restore old]"
  let ?k1 = "if current k \<noteq> idle_thread k then ?k\<lparr>ready_list := ready_list k @ [current k]\<rparr> else ?k"
  have "do_schedule ?k1 THREAD_READY = Some k'"
    using y unfolding thread_yield_def Let_def by (auto elim!: bind_SomeE dest!: thread_current_wf simp: push_code_def)
  then have "sound ?k1 k'"
    by (rule do_schedule_wf [where ?ready0.0 = "ready_list k"]) (use c in \<open>auto simp: push_code_def\<close>)
  then show ?thesis by (rule sound_cong) (simp_all add: push_code_def)
qed

lemma thread_exit_wf:
  assumes e: "thread_exit k = Some k'" and c: "cons {current k} {} k" and i: "current k \<noteq> idle_thread k"
  shows "sound k k'"
proof -
  have "sound (k\<lparr>intr_on := False\<rparr>) k'"
    by (rule do_schedule_wf [OF e [unfolded thread_exit_def], where ?ready0.0 = "ready_list k"]) (use c i in auto)
  then show ?thesis by (rule sound_cong) simp_all
qed

lemma thread_block_wf:
  assumes b: "thread_block k = Some k'"
    and c: "consistent {} {current k} ((status_of k)(current k \<mapsto> THREAD_BLOCKED)) (ready_list k) (destruction_req k)
      (idle_thread k) (initial_thread k) (semas k)"
    and nd: "current k \<notin> set (destruction_req k)"
  shows "sound k k'"
proof -
  obtain k2 where t: "thread_current k = Some (current k)" and k2: "set_thread k (current k) (\<lambda>th. th\<lparr>status := THREAD_BLOCKED\<rparr>) = Some k2"
    and s: "schedule k2 = Some k'"
    using b unfolding thread_block_def by (auto elim!: bind_SomeE dest: thread_current_wf)
  note f = set_thread_frame [OF k2] set_thread_status [OF k2]
  have "cons {} {current k2} k2" using c by (simp add: f)
  then have "sound k2 k'" by (rule schedule_sound [OF s]) (use nd thread_current_wf [OF t] in \<open>simp_all add: f\<close>)
  then show ?thesis by (rule sound_cong) (simp_all add: f)
qed

lemma current_not_dying:
  assumes "consistent {c} {} st ready dreq idl ini sem"
  shows "c \<notin> set dreq"
  using consistent_placed [OF assms, of c] consistent_running [OF assms] by auto

lemma sema_downing_wf:
  assumes e: "sema_downing k s old = Some k'" and c: "cons {current k} {} k" and i: "current k \<noteq> idle_thread k"
  shows "sound k k' \<or> sound (push_code k (current k) [Downing s old]) k'"
proof -
  obtain x where x: "semas k s = Some x" using e unfolding sema_downing_def by (auto elim!: bind_SomeE)
  show ?thesis
  proof (cases "sval x = 0")
    case True
    let ?k = "push_code (set_sema k s (x\<lparr>waiters := waiters x @ [current k]\<rparr>)) (current k) [Downing s old]"
    have b: "thread_block ?k = Some k'"
      using e x True unfolding sema_downing_def Let_def by (auto elim!: bind_SomeE dest!: thread_current_wf)
    have "consistent {} {current k} ((status_of k)(current k \<mapsto> THREAD_BLOCKED)) (ready_list k) (destruction_req k)
        (idle_thread k) (initial_thread k) ((semas k)(s \<mapsto> x\<lparr>waiters := waiters x @ [current k]\<rparr>))"
      by (rule consistent_wait [where sem = "semas k" and s = s and x = x]) (use c i x in auto)
    then have "sound ?k k'"
      by (intro thread_block_wf [OF b]) (use current_not_dying [OF c] in \<open>simp_all add: push_code_def set_sema_def\<close>)
    then have "sound (push_code k (current k) [Downing s old]) k'"
      by (rule sound_cong) (simp_all add: push_code_def set_sema_def)
    then show ?thesis ..
  next
    case False
    have "cons {current k} {} (set_sema k s (x\<lparr>sval := sval x - 1\<rparr>))"
      using consistent_sema [OF c, where s = s and y = "x\<lparr>sval := sval x - 1\<rparr>"] x consistent_parts(3) [OF c]
      by (simp add: set_sema_def separate_def)
    then show ?thesis using False e x by (auto simp: sema_downing_def sound_def set_sema_def)
  qed
qed

lemma sema_downing_sound:
  assumes e: "sema_downing (k\<lparr>intr_on := False\<rparr>) s old = Some k'" and c: "cons {current k} {} k" and i: "current k \<noteq> idle_thread k"
  shows "sound (push_code k (current k) []) k' \<or> sound (push_code k (current k) [Downing s old]) k'"
proof -
  have "sound (k\<lparr>intr_on := False\<rparr>) k' \<or> sound (push_code (k\<lparr>intr_on := False\<rparr>) (current k) [Downing s old]) k'"
    using sema_downing_wf [OF e] c i by simp
  then show ?thesis
    by (elim disjE) (rule disjI1 disjI2, erule sound_cong, simp_all add: push_code_def)+
qed

lemma thread_unblock_wf:
  assumes u: "thread_unblock k t = Some k'"
  shows "k' = k\<lparr>ready_list := ready_list k @ [t], threads := threads k'\<rparr> \<and>
    status_of k' = (status_of k)(t \<mapsto> THREAD_READY) \<and> status_of k t = Some THREAD_BLOCKED"
proof -
  have s: "set_thread (k\<lparr>ready_list := ready_list k @ [t]\<rparr>) t (\<lambda>th. th\<lparr>status := THREAD_READY\<rparr>) = Some k'"
    and b: "status_of k t = Some THREAD_BLOCKED"
    using u unfolding thread_unblock_def by (auto elim!: bind_SomeE)
  have "k' = k\<lparr>ready_list := ready_list k @ [t], threads := threads k'\<rparr>"
    using s by (auto simp: set_thread_def split: option.splits)
  with set_thread_status [OF s] b show ?thesis by simp
qed

lemma unblock_wf:
  assumes u: "thread_unblock k t = Some k'" and c: "cons {current k} {} k" and w: "\<not> waits (semas k) t"
  shows "sound k k'"
proof -
  note f = thread_unblock_wf [OF u]
  then obtain ths where k': "k' = k\<lparr>ready_list := ready_list k @ [t], threads := ths\<rparr>" by blast
  have "consistent {current k} {} (status_of k') (ready_list k @ [t]) (destruction_req k) (idle_thread k) (initial_thread k) (semas k)"
    using consistent_unblock [OF c _ w] f by simp
  then show ?thesis unfolding sound_def by (simp add: k')
qed

lemma sema_up_wf:
  assumes u: "sema_up k s = Some k'" and c: "cons {current k} {} k"
  shows "sound k k'"
proof -
  obtain x where x: "semas k s = Some x" using u unfolding sema_up_def by (auto elim!: bind_SomeE)
  show ?thesis
  proof (cases "waiters x")
    case Nil
    have "cons {current k} {} (set_sema k s (x\<lparr>sval := sval x + 1\<rparr>))"
      using consistent_sema [OF c, where s = s and y = "x\<lparr>sval := sval x + 1\<rparr>"] Nil by (simp add: set_sema_def)
    then show ?thesis using Nil u x by (auto simp: sema_up_def sound_def set_sema_def)
  next
    case (Cons t ts)
    let ?y = "x\<lparr>waiters := ts, sval := sval x + 1\<rparr>"
    obtain k1 where k1: "thread_unblock k t = Some k1" and k': "k' = set_sema k1 s ?y"
      using Cons u x unfolding sema_up_def by (auto elim!: bind_SomeE)
    note f = thread_unblock_wf [OF k1]
    then obtain ths where e: "k1 = k\<lparr>ready_list := ready_list k @ [t], threads := ths\<rparr>" by blast
    have "consistent {current k} {} (status_of k1) (ready_list k @ [t]) (destruction_req k) (idle_thread k) (initial_thread k)
        ((semas k)(s \<mapsto> ?y))"
      using consistent_wake [OF c x Cons, of ?y] f by simp
    then show ?thesis unfolding sound_def by (simp add: k' e set_sema_def)
  qed
qed

subsection \<open>Every instruction keeps the invariant\<close>

lemma sound_same:
  assumes "cons {current k} {} k" and "status_of k' = status_of k" "ready_list k' = ready_list k"
    "destruction_req k' = destruction_req k" "idle_thread k' = idle_thread k" "initial_thread k' = initial_thread k"
    "semas k' = semas k" "current k' = current k" "code k' = code (push_code k (current k) ps)"
  shows "sound (push_code k (current k) ps) k'"
  using assms by (simp add: sound_def push_code_def)

lemma sound_sema:
  assumes c: "cons {current k} {} k" and y: "waiters y = [] \<or> (\<exists>x. semas k s = Some x \<and> waiters y = waiters x)"
    and "status_of k' = status_of k" "ready_list k' = ready_list k"
    "destruction_req k' = destruction_req k" "idle_thread k' = idle_thread k" "initial_thread k' = initial_thread k"
    "semas k' = (semas k)(s \<mapsto> y)" "current k' = current k" "code k' = code (push_code k (current k) ps)"
  shows "sound (push_code k (current k) ps) k'"
proof -
  have "distinct (waiters y)" "\<And>t. t \<in> set (waiters y) \<Longrightarrow> \<exists>x. semas k s = Some x \<and> t \<in> set (waiters x)"
    using y consistent_parts(3) [OF c] by (auto simp: separate_def)
  from consistent_sema [OF c this] show ?thesis using assms(3-) by (simp add: sound_def push_code_def)
qed

lemma push_code_Nil [simp]: "push_code k t [] = k"
  by (simp add: push_code_def)

text \<open>An instruction that only touches what the invariant does not speak about.\<close>

lemma exec_instr_same:
  assumes "exec_instr k (current k) i = Some k'"
    and "case i of SetHolder l \<Rightarrow> True | LockAcquire l \<Rightarrow> True | LockTryAcquire l yes no \<Rightarrow> True | LockRelease l \<Rightarrow> True
      | CondInit c \<Rightarrow> True | CondWait c l w \<Rightarrow> True | CondPush c w \<Rightarrow> True | CondSignal c l \<Rightarrow> True | CondPop c \<Rightarrow> True
      | CondBroadcast c l \<Rightarrow> True | IntrDisable \<Rightarrow> True | IntrEnable \<Rightarrow> True | Restore b \<Rightarrow> True | SetPriority p \<Rightarrow> True
      | SetTid u \<Rightarrow> True | ThreadStart p s \<Rightarrow> True | IdleLoop \<Rightarrow> True | _ \<Rightarrow> False"
  shows "\<exists>ps. status_of k' = status_of k \<and> ready_list k' = ready_list k \<and>
    destruction_req k' = destruction_req k \<and> idle_thread k' = idle_thread k \<and> initial_thread k' = initial_thread k \<and>
    semas k' = semas k \<and> current k' = current k \<and> code k' = code (push_code k (current k) ps) \<and>
    (idle_code (i # is) \<longrightarrow> idle_code (ps @ is))"
proof -
  have other: "set_thread k1 u f = Some k' \<Longrightarrow> (\<And>x. status (f x) = status x) \<Longrightarrow> status_of k' = status_of k1" for k1 u f
    by (rule set_thread_other)
  show ?thesis
    using assms
    by (cases i)
      (auto simp: push_code_def lock_release_def cond_init_def cond_push_def cond_pop_def allocate_tid_def thread_set_priority_def idle_def
        fun_eq_iff set_thread_frame other
        intro: idle_code.intros elim!: bind_SomeE idle_code_ConsE split: list.splits)
qed

definition starts :: "instr \<Rightarrow> bool" where
  "starts i \<longleftrightarrow> (case i of Create p n pr f \<Rightarrow> True | IdleMain s \<Rightarrow> True | _ \<Rightarrow> False)"

lemma exec_instr_sound:
  assumes e: "exec_instr k (current k) i = Some k'" and c: "cons {current k} {} k" and nn: "current k \<noteq> NULL"
    and idle: "current k = idle_thread k \<longrightarrow> idle_code (i # is)"
    and w: "\<And>u. i = Unblock u \<Longrightarrow> \<not> waits (semas k) u" and n: "\<not> starts i"
  shows "\<exists>ps. sound (push_code k (current k) ps) k' \<and> (idle_code (i # is) \<longrightarrow> idle_code (ps @ is))"
proof (cases i)
  case (SemaInit s v)
  have "sound (push_code k (current k) []) k'"
    by (rule sound_sema [OF c, where s = s and y = "\<lparr>sval = v, waiters = []\<rparr>"])
      (use e SemaInit in \<open>auto simp: sema_init_def\<close>)
  moreover have "idle_code (i # is) \<longrightarrow> idle_code ([] @ is)" using SemaInit by (auto elim: idle_code_ConsE)
  ultimately show ?thesis by blast
next
  case (LockInit l)
  have "sound (push_code k (current k) []) k'"
    by (rule sound_sema [OF c, where s = l and y = "\<lparr>sval = 1, waiters = []\<rparr>"])
      (use e LockInit in \<open>auto simp: sema_init_def lock_init_def\<close>)
  moreover have "idle_code (i # is) \<longrightarrow> idle_code ([] @ is)" using LockInit by (auto elim: idle_code_ConsE)
  ultimately show ?thesis by blast
next
  case (TryDown s yes no)
  then obtain x where x: "semas k s = Some x" using e by (auto simp: sema_try_down_def elim!: bind_SomeE)
  have "sound (push_code k (current k) (if sval x > 0 then yes else no)) k'"
  proof (cases "sval x > 0")
    case True
    show ?thesis
      by (rule sound_sema [OF c, where s = s and y = "x\<lparr>sval := sval x - 1\<rparr>"])
        (use e TryDown x True in \<open>auto simp: sema_try_down_def set_sema_def push_code_def\<close>)
  next
    case False
    show ?thesis
      by (rule sound_same [OF c]) (use e TryDown x False in \<open>auto simp: sema_try_down_def push_code_def\<close>)
  qed
  moreover have "idle_code (i # is) \<longrightarrow> idle_code ((if sval x > 0 then yes else no) @ is)" using TryDown by (auto elim: idle_code_ConsE)
  ultimately show ?thesis by blast
next
  case (SemaUp s)
  then have "sound (push_code k (current k) []) k'" using e c by (simp add: sema_up_wf)
  moreover have "idle_code (i # is) \<longrightarrow> idle_code ([] @ is)" using SemaUp by (auto elim: idle_code_ConsE intro: idle_code.intros)
  ultimately show ?thesis by blast
next
  case (SemaDown s)
  then have "current k \<noteq> idle_thread k" using idle by (auto elim: idle_code_ConsE)
  moreover have "sema_downing (k\<lparr>intr_on := False\<rparr>) s (intr_on k) = Some k'"
    using e SemaDown by (simp add: sema_down_def)
  ultimately have "sound (push_code k (current k) []) k' \<or> sound (push_code k (current k) [Downing s (intr_on k)]) k'"
    using sema_downing_sound c by blast
  moreover have "\<not> idle_code (i # is)" using SemaDown by (auto elim: idle_code_ConsE)
  ultimately show ?thesis by blast
next
  case (Downing s old)
  then have "current k \<noteq> idle_thread k" using idle by (auto elim: idle_code_ConsE)
  moreover have "sema_downing (k\<lparr>intr_on := False\<rparr>) s old = Some k'"
    using e Downing by simp
  ultimately have "sound (push_code k (current k) []) k' \<or> sound (push_code k (current k) [Downing s old]) k'"
    using sema_downing_sound c by blast
  moreover have "\<not> idle_code (i # is)" using Downing by (auto elim: idle_code_ConsE)
  ultimately show ?thesis by blast
next
  case Yield
  then have "sound (push_code k (current k) [Restore (intr_on k)]) k'" using e c by (simp add: thread_yield_wf)
  moreover have "idle_code (i # is) \<longrightarrow> idle_code ([Restore (intr_on k)] @ is)" using Yield by (auto elim: idle_code_ConsE)
  ultimately show ?thesis by blast
next
  case Exit
  then have "current k \<noteq> idle_thread k" using idle by (auto elim: idle_code_ConsE)
  then have "sound (push_code k (current k) []) k'" using e c Exit by (simp add: thread_exit_wf)
  moreover have "idle_code (i # is) \<longrightarrow> idle_code ([] @ is)" using Exit by (auto elim: idle_code_ConsE)
  ultimately show ?thesis by blast
next
  case Block
  have "consistent {} {current k} ((status_of k)(current k \<mapsto> THREAD_BLOCKED)) (ready_list k) (destruction_req k)
      (idle_thread k) (initial_thread k) (semas k)"
    by (rule consistent_leave [OF c]) simp
  with e Block have "sound (push_code k (current k) []) k'"
    using current_not_dying [OF c] by (simp add: thread_block_wf)
  moreover have "idle_code (i # is) \<longrightarrow> idle_code ([] @ is)" using Block by (auto elim: idle_code_ConsE intro: idle_code.intros)
  ultimately show ?thesis by blast
next
  case (Unblock u)
  then have "sound (push_code k (current k) []) k'" using e c w by (simp add: unblock_wf)
  moreover have "idle_code (i # is) \<longrightarrow> idle_code ([] @ is)" using Unblock by (auto elim: idle_code_ConsE)
  ultimately show ?thesis by blast
qed (use exec_instr_same [OF e, of "is"] sound_same [OF c, of k'] n in \<open>auto simp: starts_def\<close>)

lemma wf_push:
  assumes "sound (push_code k (current k) ps) k'" and "idle_thread k \<noteq> NULL \<longrightarrow> idle_thread k \<noteq> current k \<longrightarrow> idle_code (code k (idle_thread k))"
    and "idle_thread k \<noteq> NULL \<longrightarrow> idle_thread k = current k \<longrightarrow> idle_code (ps @ code k (current k))"
  shows "wf k'"
  using assms unfolding wf_def sound_def by (auto simp: push_code_def)

lemma create_wf:
  assumes e: "thread_create k page nm pri function = Some (k', is)" and c: "cons {current k} {} k" and f: "threads k page = None"
  shows "cons {current k'} {} k' \<and> (\<forall>t. threads k t \<noteq> None \<longrightarrow> code k' t = code k t) \<and> idle_thread k' = idle_thread k \<and> current k' = current k"
proof (cases "page = NULL")
  case True
  then show ?thesis using e c by (auto simp: thread_create_def)
next
  case False
  then obtain th where th: "init_thread nm pri = Some th"
    and k': "k' = k\<lparr>threads := (threads k)(page \<mapsto> th\<lparr>tf_if := True\<rparr>), code := (code k)(page := kernel_thread function)\<rparr>"
    using e by (auto simp: thread_create_def elim!: bind_SomeE)
  have "status th = THREAD_BLOCKED" using th by (auto simp: init_thread_def elim!: bind_SomeE)
  then have "status_of k' = (status_of k)(page \<mapsto> THREAD_BLOCKED)"
    by (simp add: k' status_of_def fun_eq_iff)
  moreover have "status_of k page = None" using f by (simp add: status_of_def)
  ultimately have "consistent {current k} {} (status_of k') (ready_list k) (destruction_req k) (idle_thread k) (initial_thread k) (semas k)"
    using consistent_new [OF c] by simp
  then show ?thesis using f by (auto simp: k')
qed

lemma exec_wf:
  assumes e: "exec k = Some k'" and o: "obeys k" and wf: "wf k"
  shows "wf k'"
proof -
  obtain t i "is" where t': "thread_current k = Some t" and i': "code k t = i # is"
    and e': "exec_instr (k\<lparr>code := (code k)(t := is)\<rparr>) t i = Some k'"
    using e unfolding exec_def by (auto elim!: bind_SomeE split: list.splits)
  have "t = current k" using thread_current_wf [OF t'] by simp
  note t = t' [unfolded this] and i = i' [unfolded this] and e = e' [unfolded this]
  let ?k = "k\<lparr>code := (code k)(current k := is)\<rparr>"
  have nn: "current k \<noteq> NULL" using thread_current_wf [OF t] by simp
  have c: "cons {current ?k} {} ?k" and idl: "idle_thread k \<noteq> NULL \<longrightarrow> idle_code (code k (idle_thread k))"
    using wf by (simp_all add: wf_def)
  have other: "idle_thread ?k \<noteq> NULL \<longrightarrow> idle_thread ?k \<noteq> current ?k \<longrightarrow> idle_code (code ?k (idle_thread ?k))"
    using idl by simp
  show ?thesis
  proof (cases "starts i")
    case False
    have "\<exists>ps. sound (push_code ?k (current ?k) ps) k' \<and> (idle_code (i # is) \<longrightarrow> idle_code (ps @ is))"
      by (rule exec_instr_sound) (use e c nn idl i o False in \<open>auto simp: obeys_def\<close>)
    then obtain ps where ps: "sound (push_code ?k (current ?k) ps) k'" "idle_code (i # is) \<longrightarrow> idle_code (ps @ is)" by blast
    show ?thesis by (rule wf_push [OF ps(1) other]) (use ps(2) idl i in auto)
  next
    case True
    then consider (create) page nm pri f where "i = Create page nm pri f" | (idle) s where "i = IdleMain s"
      by (auto simp: starts_def split: instr.splits)
    then show ?thesis
    proof cases
      case create
      have ni: "idle_thread k \<noteq> NULL \<longrightarrow> idle_thread k \<noteq> current k"
        using idl i create by (auto elim: idle_code_ConsE)
      obtain k1 ps where k1: "thread_create ?k page nm pri f = Some (k1, ps)" and k': "k' = push_code k1 (current k) ps"
        using e create by (auto elim!: bind_SomeE)
      have "threads ?k page = None" using o i create by (simp add: obeys_def)
      note w = create_wf [OF k1 c this]
      have "idle_thread k \<noteq> NULL \<Longrightarrow> threads ?k (idle_thread k) \<noteq> None"
        using consistent_placed [OF c, of "idle_thread k"] by (cases "status_of k (idle_thread k)") (auto simp: status_of_def)
      then have "idle_thread k \<noteq> NULL \<longrightarrow> idle_code (code k' (idle_thread k))"
        using w ni idl by (auto simp: k' push_code_def)
      moreover have "cons {current k1} {} k1" using w by blast
      then have "cons {current k'} {} k'" by (simp add: k' push_code_def)
      moreover have "idle_thread k' = idle_thread k" using w by (simp add: k' push_code_def)
      ultimately show ?thesis using \<open>cons {current k'} {} k'\<close> by (simp only: wf_def)
    next
      case idle
      have k': "k' = push_code (?k\<lparr>idle_thread := current k\<rparr>) (current k) [SemaUp s, IdleLoop]"
        using e idle by simp
      have "idle_thread k = NULL" using o i idle by (simp add: obeys_def)
      then have "consistent {current k} {} (status_of k) (ready_list k) (destruction_req k) (current k) (initial_thread k) (semas k)"
        using consistent_idle c by simp
      then show ?thesis by (simp add: wf_def k' push_code_def idle_code.started)
    qed
  qed
qed

lemma timer_wf:
  assumes e: "timer_interrupt k = Some k'" and wf: "wf k"
  shows "wf k'"
proof -
  obtain k1 y where k1: "thread_tick k = Some (k1, y)" "(if y then thread_yield k1 True else Some k1) = Some k'"
    using e unfolding timer_interrupt_def by (auto elim!: bind_SomeE)
  have f: "status_of k1 = status_of k \<and> current k1 = current k \<and> ready_list k1 = ready_list k \<and> destruction_req k1 = destruction_req k \<and>
      idle_thread k1 = idle_thread k \<and> initial_thread k1 = initial_thread k \<and> semas k1 = semas k \<and> code k1 = code k"
    using k1(1) unfolding thread_tick_def Let_def by (auto elim!: bind_SomeE)
  then have w1: "wf k1" using wf by (simp add: wf_def)
  show ?thesis
  proof (cases y)
    case True
    then have "sound (push_code k1 (current k1) [Restore True]) k'"
      using k1(2) w1 by (simp add: thread_yield_wf wf_def)
    then show ?thesis by (rule wf_push) (use w1 in \<open>auto simp: wf_def intro: idle_code.restore\<close>)
  next
    case False
    then show ?thesis using k1(2) w1 by simp
  qed
qed

lemma wf_thread_init: "wf (thread_init t lock main)"
  by (auto simp: wf_def consistent_def thread_init_def status_of_def separate_def waits_def)

lemma reachable_wf: "reachable (thread_init t lock main) k \<Longrightarrow> wf k"
proof (induction rule: reachable.induct)
  case start
  show ?case by (rule wf_thread_init)
next
  case (step k k')
  from step.hyps(2) step.IH show ?case by (auto elim!: kstepE intro: exec_wf timer_wf)
qed

subsection \<open>The property\<close>

text \<open>C3: in every state that the kernel reaches after \<open>thread_init\<close>, whatever the threads execute and whenever the
  timer interrupts them, the status of a thread agrees with the list it is on: the current thread is the
  one running thread; the ready list holds, once each, exactly the ready threads, except that the idle
  thread may be ready off the list; a thread that waits for a semaphore is blocked, waits once and for one
  semaphore; and the dying threads are those queued for destruction, once each, and the initial thread. So no thread
  is lost, scheduled twice or freed while it is in use. The steps assume of the callers what \<open>obeys\<close> says.\<close>

theorem thread_states_consistent:
  assumes "reachable (thread_init t lock main) k"
  shows "(status_of k u = Some THREAD_RUNNING \<longleftrightarrow> u = current k) \<and>
    distinct (ready_list k) \<and>
    (u \<in> set (ready_list k) \<longrightarrow> status_of k u = Some THREAD_READY) \<and>
    (status_of k u = Some THREAD_READY \<longrightarrow> u \<in> set (ready_list k) \<or> u = idle_thread k) \<and>
    (semas k s = Some x \<longrightarrow> distinct (waiters x) \<and> (u \<in> set (waiters x) \<longrightarrow> status_of k u = Some THREAD_BLOCKED)) \<and>
    (semas k s = Some x \<longrightarrow> semas k s' = Some x' \<longrightarrow> u \<in> set (waiters x) \<longrightarrow> u \<in> set (waiters x') \<longrightarrow> s = s') \<and>
    distinct (destruction_req k) \<and>
    (u \<in> set (destruction_req k) \<longrightarrow> status_of k u = Some THREAD_DYING) \<and>
    (status_of k u = Some THREAD_DYING \<longrightarrow> u \<in> set (destruction_req k) \<or> u = initial_thread k)"
proof -
  have c: "cons {current k} {} k" using reachable_wf [OF assms] by (simp add: wf_def)
  note p = consistent_placed [OF c, of u]
  have w: "semas k s = Some x \<Longrightarrow> u \<in> set (waiters x) \<Longrightarrow> waits (semas k) u" by (auto simp: waits_def)
  show ?thesis
    using p w consistent_parts [OF c] unfolding separate_def
    by (cases "(status_of k u, u = current k, u \<in> set (ready_list k), u \<in> set (destruction_req k), waits (semas k) u,
        u = idle_thread k \<and> idle_thread k \<noteq> NULL, u = initial_thread k, False)" rule: placed.cases) auto
qed

text \<open>Running the kernel for a number of instructions without a timer interrupt.\<close>

primrec run_for :: "nat \<Rightarrow> kernel \<Rightarrow> kernel option" where
  "run_for 0 k = Some k"
| "run_for (Suc n) k = (if obeys k then Option.bind (exec k) (run_for n) else None)"

lemma run_reachable: "run_for n k = Some k' \<Longrightarrow> reachable k0 k \<Longrightarrow> reachable k0 k'"
  by (induction n arbitrary: k) (auto split: if_splits elim!: bind_SomeE intro: reachable.step kstep.run)

lemma not_waits: "\<not> waits Map.empty t" "\<not> waits m t \<Longrightarrow> t \<notin> set (waiters x) \<Longrightarrow> \<not> waits (m(s \<mapsto> x)) t"
  by (auto simp: waits_def)

lemma run_for_8: "run_for 8 = run_for (Suc (Suc (Suc (Suc (Suc (Suc (Suc (Suc 0))))))))"
  by (simp add: eval_nat_numeral)

lemma run_created:
  "map_option ready_list (run_for 8 (thread_init 4096 8 [Create 8192 ''a'' 31 []])) = Some [8192]"
  by (simp only: run_for_8) (simp add: thread_init_def obeys_def exec_def thread_current_def is_thread_def status_of_def thread_create_def
      init_thread_def PRI_MIN_def PRI_MAX_def push_code_def kernel_thread_def lock_acquire_def lock_held_by_current_thread_def
      sema_down_def sema_downing_def set_sema_def allocate_tid_def set_thread_def lock_release_def sema_up_def
      thread_unblock_def not_waits split: if_splits)

lemma thread_states_consistent_witness:
  "\<exists>k. run_for 8 (thread_init 4096 8 [Create 8192 ''a'' 31 []]) = Some k \<and> status_of k 8192 = Some THREAD_READY"
proof -
  obtain k where k: "run_for 8 (thread_init 4096 8 [Create 8192 ''a'' 31 []]) = Some k" "ready_list k = [8192]"
    using run_created by auto
  have "reachable (thread_init 4096 8 [Create 8192 ''a'' 31 []]) k"
    by (rule run_reachable [OF k(1) reachable.start])
  from thread_states_consistent [OF this, of 8192 0 undefined 0 undefined] k show ?thesis by auto
qed

end
