(* ===== verification/LockExclusion.thy ===== *)
theory LockExclusion
  imports ThreadsWf
begin

text \<open>
  Mutual exclusion of the locks of \<open>pintos/threads/synch.c\<close>, over the steps of \<open>Threads\<close>: whatever the threads execute and
  whenever the timer interrupts them, a lock that is used through its interface only is acquired and released in turn.
\<close>

subsection \<open>Using a lock through its interface\<close>

text \<open>An instruction of a thread that knows \<open>l\<close> as a lock only, not as the semaphore inside.\<close>

fun client :: "addr \<Rightarrow> instr \<Rightarrow> bool" where
  "client l (SemaInit s v) = (s \<noteq> l)"
| "client l (SemaDown s) = (s \<noteq> l)"
| "client l (Downing s old) = (s \<noteq> l)"
| "client l (TryDown s yes no) = (s \<noteq> l \<and> (\<forall>i\<in>set yes. client l i) \<and> (\<forall>i\<in>set no. client l i))"
| "client l (SemaUp s) = (s \<noteq> l)"
| "client l (LockInit a) = (a \<noteq> l)"
| "client l (LockTryAcquire a yes no) = ((\<forall>i\<in>set yes. client l i) \<and> (\<forall>i\<in>set no. client l i))"
| "client l (SetHolder a) = (a \<noteq> l)"
| "client l (CondWait c a w) = (w \<noteq> l)"
| "client l (CondPush c w) = (w \<noteq> l)"
| "client l (Create page nm pri function) = (\<forall>i\<in>set function. client l i)"
| "client l (ThreadStart page started) = (started \<noteq> l)"
| "client l (IdleMain started) = (started \<noteq> l)"
| "client l i = True"

abbreviation clients :: "addr \<Rightarrow> instr list \<Rightarrow> bool" where
  "clients l is \<equiv> \<forall>i\<in>set is. client l i"

text \<open>The thread is between taking or giving back the value of the semaphore and the change of the holder.\<close>

fun pending :: "addr \<Rightarrow> instr list \<Rightarrow> bool" where
  "pending l [] = False"
| "pending l (i # is) = (case i of
     Restore b \<Rightarrow> pending l is
   | SetHolder a \<Rightarrow> a = l
   | SemaUp a \<Rightarrow> a = l
   | _ \<Rightarrow> False)"

fun then_holder :: "addr \<Rightarrow> instr list \<Rightarrow> bool" where
  "then_holder l (SetHolder a # is) = (a = l \<and> clients l is)"
| "then_holder l _ = False"

text \<open>What a thread may have left to execute: the rest of a call on \<open>l\<close>, behind instructions that restore the interrupt level.\<close>

fun shape :: "addr \<Rightarrow> instr list \<Rightarrow> bool" where
  "shape l [] = True"
| "shape l (i # is) = (case i of
     Restore b \<Rightarrow> shape l is
   | SemaDown s \<Rightarrow> if s = l then then_holder l is else clients l is
   | Downing s old \<Rightarrow> if s = l then then_holder l is else clients l is
   | TryDown s yes no \<Rightarrow> (if s = l then then_holder l yes else clients l yes) \<and> clients l no \<and> clients l is
   | SetHolder a \<Rightarrow> clients l is
   | SemaUp a \<Rightarrow> clients l is
   | _ \<Rightarrow> client l i \<and> clients l is)"

lemma clients_shape: "clients l is \<Longrightarrow> shape l is \<and> \<not> pending l is"
  by (induction "is") (auto split: instr.splits)

lemma then_holder_shape: "then_holder l is \<Longrightarrow> shape l is \<and> pending l is"
  by (cases "(l, is)" rule: then_holder.cases) auto

subsection \<open>The invariant\<close>

text \<open>
  The value of the semaphore, the holder and the threads inside a call: at most one of them has the lock.
\<close>

definition exclusive :: "addr \<Rightarrow> 32 word \<Rightarrow> addr \<Rightarrow> (addr \<Rightarrow> instr list) \<Rightarrow> bool" where
  "exclusive l v h cod \<longleftrightarrow> (v = 0 \<or> v = 1) \<and> (v = 1 \<longrightarrow> h = NULL) \<and>
     (v = 1 \<or> h \<noteq> NULL \<longrightarrow> (\<forall>t. \<not> pending l (cod t))) \<and>
     (\<forall>t u. pending l (cod t) \<longrightarrow> pending l (cod u) \<longrightarrow> t = u) \<and> (\<forall>t. shape l (cod t))"

definition lock_ok :: "addr \<Rightarrow> kernel \<Rightarrow> bool" where
  "lock_ok l k \<longleftrightarrow> (\<exists>x h. semas k l = Some x \<and> holder k l = Some h \<and> exclusive l (sval x) h (code k)) \<and>
     (\<forall>c ws. conds k c = Some ws \<longrightarrow> l \<notin> set ws)"

text \<open>A step that does not touch the lock: only the code changes, and no thread enters or leaves a call on the lock.\<close>

definition same_calls :: "addr \<Rightarrow> (addr \<Rightarrow> instr list) \<Rightarrow> (addr \<Rightarrow> instr list) \<Rightarrow> bool" where
  "same_calls l cod cod' \<longleftrightarrow> (\<forall>t. (pending l (cod' t) \<longrightarrow> pending l (cod t)) \<and> shape l (cod' t))"

lemma exclusive_same: "exclusive l v h cod \<Longrightarrow> same_calls l cod cod' \<Longrightarrow> exclusive l v h cod'"
  unfolding exclusive_def same_calls_def by blast

definition untouched :: "addr \<Rightarrow> kernel \<Rightarrow> kernel \<Rightarrow> bool" where
  "untouched l k k' \<longleftrightarrow> map_option sval (semas k' l) = map_option sval (semas k l) \<and> holder k' l = holder k l \<and>
     (\<forall>c ws. conds k' c = Some ws \<longrightarrow> l \<notin> set ws)"

lemma lock_ok_same: "lock_ok l k \<Longrightarrow> untouched l k k' \<Longrightarrow> same_calls l (code k) (code k') \<Longrightarrow> lock_ok l k'"
  unfolding lock_ok_def untouched_def using exclusive_same by fastforce

subsection \<open>The scheduler leaves locks alone\<close>

definition framed :: "kernel \<Rightarrow> kernel \<Rightarrow> bool" where
  "framed k k' \<longleftrightarrow> semas k' = semas k \<and> holder k' = holder k \<and> conds k' = conds k \<and> code k' = code k"

lemma framed_refl: "framed k k"
  by (simp add: framed_def)

lemma schedule_framed: "schedule k = Some k' \<Longrightarrow> framed k k'"
  unfolding schedule_def next_thread_to_run_def Let_def framed_def
  by (cases "ready_list k") (auto elim!: bind_SomeE simp: thread_launch_def set_thread_fields split: if_splits)

lemma do_schedule_framed: "do_schedule k st = Some k' \<Longrightarrow> framed k k'"
  unfolding do_schedule_def Let_def
  by (auto elim!: bind_SomeE dest!: schedule_framed simp: framed_def set_thread_fields)

lemma thread_block_framed: "thread_block k = Some k' \<Longrightarrow> framed k k'"
  unfolding thread_block_def
  by (auto elim!: bind_SomeE dest!: schedule_framed simp: framed_def set_thread_fields)

lemma thread_unblock_framed: "thread_unblock k t = Some k' \<Longrightarrow> framed k k'"
  unfolding thread_unblock_def by (auto elim!: bind_SomeE simp: framed_def set_thread_fields)

lemma thread_exit_framed: "thread_exit k = Some k' \<Longrightarrow> framed k k'"
  unfolding thread_exit_def by (drule do_schedule_framed) (simp add: framed_def)

lemma thread_yield_framed:
  assumes "thread_yield k old = Some k'"
  shows "framed (push_code k (current k) [Restore old]) k'"
  using assms unfolding thread_yield_def Let_def
  by (auto elim!: bind_SomeE dest!: do_schedule_framed thread_current_wf simp: framed_def push_code_def split: if_splits)

subsection \<open>Steps of a client\<close>

text \<open>Code that is not inside a call on the lock.\<close>

definition outside :: "addr \<Rightarrow> instr list \<Rightarrow> bool" where
  "outside l is \<longleftrightarrow> shape l is \<and> \<not> pending l is"

lemma clients_outside: "clients l is \<Longrightarrow> outside l is"
  by (simp add: outside_def clients_shape)

definition steps_aside :: "addr \<Rightarrow> kernel \<Rightarrow> kernel \<Rightarrow> bool" where
  "steps_aside l k k' \<longleftrightarrow> untouched l k k' \<and> (\<forall>t. code k' t = code k t \<or> outside l (code k' t))"

lemma steps_aside_framed:
  assumes "framed k1 k'" "steps_aside l k k1"
  shows "steps_aside l k k'"
  using assms unfolding framed_def steps_aside_def untouched_def by simp

lemma steps_asideI:
  assumes "untouched l k k'" "\<And>t. code k' t = code k t \<or> outside l (code k' t)"
  shows "steps_aside l k k'"
  using assms by (simp add: steps_aside_def)

definition lock_free_conds :: "addr \<Rightarrow> kernel \<Rightarrow> bool" where
  "lock_free_conds l k \<longleftrightarrow> (\<forall>c ws. conds k c = Some ws \<longrightarrow> l \<notin> set ws)"

lemma untouched_more:
  "lock_free_conds l k \<Longrightarrow> semas k' = semas k \<Longrightarrow> holder k' = holder k \<Longrightarrow> conds k' = conds k \<Longrightarrow> untouched l k k'"
  by (simp add: untouched_def lock_free_conds_def)

lemma outside_push: "clients l is \<Longrightarrow> clients l ps \<Longrightarrow> outside l (ps @ is)"
  by (rule clients_outside) auto

lemma sema_downing_aside:
  assumes e: "sema_downing k s old = Some k'" and s: "s \<noteq> l" and c: "clients l (code k (current k))" and f: "lock_free_conds l k"
  shows "steps_aside l k k'"
proof -
  obtain x where x: "semas k s = Some x" using e unfolding sema_downing_def by (auto elim!: bind_SomeE)
  show ?thesis
  proof (cases "sval x = 0")
    case True
    let ?k = "push_code (set_sema k s (x\<lparr>waiters := waiters x @ [current k]\<rparr>)) (current k) [Downing s old]"
    have "thread_block ?k = Some k'"
      using e x True unfolding sema_downing_def Let_def by (auto elim!: bind_SomeE dest!: thread_current_wf)
    then have "framed ?k k'" by (rule thread_block_framed)
    moreover have "outside l (Downing s old # code k (current k))"
      by (rule clients_outside) (use s c in simp)
    then have "steps_aside l k ?k"
      by (intro steps_asideI) (use s f in \<open>auto simp: untouched_def lock_free_conds_def push_code_def set_sema_def\<close>)
    ultimately show ?thesis by (rule steps_aside_framed)
  next
    case False
    then have "k' = (set_sema k s (x\<lparr>sval := sval x - 1\<rparr>))\<lparr>intr_on := old\<rparr>" using e x by (simp add: sema_downing_def)
    then show ?thesis using s f by (auto simp: steps_aside_def untouched_def lock_free_conds_def set_sema_def)
  qed
qed

lemma sema_up_effect:
  assumes "sema_up k s = Some k'"
  obtains x ws where "semas k s = Some x" "semas k' = (semas k)(s \<mapsto> \<lparr>sval = sval x + 1, waiters = ws\<rparr>)"
    "holder k' = holder k" "conds k' = conds k" "code k' = code k"
proof -
  obtain x where x: "semas k s = Some x" using assms unfolding sema_up_def by (auto elim!: bind_SomeE)
  show thesis
  proof (cases "waiters x")
    case Nil
    then have "k' = set_sema k s (x\<lparr>sval := sval x + 1\<rparr>)" using assms x by (simp add: sema_up_def)
    moreover have "x\<lparr>sval := sval x + 1\<rparr> = \<lparr>sval = sval x + 1, waiters = []\<rparr>" using Nil by (cases x) simp
    ultimately show thesis using that [OF x, of "[]"] by (simp add: set_sema_def)
  next
    case (Cons t ts)
    then obtain k1 where k1: "thread_unblock k t = Some k1" and k': "k' = set_sema k1 s (x\<lparr>waiters := ts, sval := sval x + 1\<rparr>)"
      using assms x unfolding sema_up_def by (auto elim!: bind_SomeE)
    moreover have "x\<lparr>waiters := ts, sval := sval x + 1\<rparr> = \<lparr>sval = sval x + 1, waiters = ts\<rparr>" by (cases x) simp
    ultimately show thesis using that [OF x, of ts] thread_unblock_framed [OF k1] by (simp add: set_sema_def framed_def)
  qed
qed

lemma sema_up_aside:
  assumes "sema_up k s = Some k'" "s \<noteq> l" "lock_free_conds l k"
  shows "steps_aside l k k'"
proof -
  obtain x ws where "semas k s = Some x" "semas k' = (semas k)(s \<mapsto> \<lparr>sval = sval x + 1, waiters = ws\<rparr>)"
    "holder k' = holder k" "conds k' = conds k" "code k' = code k"
    by (rule sema_up_effect [OF assms(1)])
  with assms(2,3) show ?thesis by (simp add: steps_aside_def untouched_def lock_free_conds_def)
qed

lemma create_aside:
  assumes e: "thread_create k page nm pri function = Some (k1, ps)" and f: "clients l function" and c: "clients l (code k t)"
    and lf: "lock_free_conds l k"
  shows "steps_aside l k (push_code k1 t ps)"
proof (cases "page = NULL")
  case True
  then have "k1 = k" "ps = []" using e by (auto simp: thread_create_def)
  then show ?thesis using lf by (simp add: steps_aside_def untouched_more push_code_def)
next
  case False
  then obtain th where k1: "k1 = k\<lparr>threads := (threads k)(page \<mapsto> th\<lparr>tf_if := True\<rparr>), code := (code k)(page := kernel_thread function)\<rparr>"
    and ps: "clients l ps"
    using e by (auto simp: thread_create_def elim!: bind_SomeE)
  have new: "clients l (kernel_thread function)" using f by (auto simp: kernel_thread_def)
  show ?thesis
  proof (rule steps_asideI)
    show "untouched l k (push_code k1 t ps)" by (rule untouched_more [OF lf]) (simp_all add: k1 push_code_def)
    fix u
    have "clients l (code k1 t)" using c new by (simp add: k1)
    then have "outside l (ps @ code k1 t)" using ps by (rule outside_push)
    moreover have "outside l (kernel_thread function)" by (rule clients_outside [OF new])
    ultimately show "code (push_code k1 t ps) u = code k u \<or> outside l (code (push_code k1 t ps) u)"
      by (cases "u = t"; cases "u = page") (simp_all add: push_code_def k1)
  qed
qed

text \<open>Instructions that only put more instructions in front.\<close>

lemma push_aside:
  assumes "lock_free_conds l k" and "outside l (ps @ code k t)"
  shows "steps_aside l k (push_code k t ps)"
  by (rule steps_asideI) (use assms in \<open>auto simp: push_code_def intro: untouched_more\<close>)

lemma steps_aside_trans_intr: "steps_aside l (k\<lparr>intr_on := b\<rparr>) k' \<Longrightarrow> steps_aside l k k'"
  by (simp add: steps_aside_def untouched_def)

text \<open>The instructions that need an argument of their own: they touch a semaphore, a holder or the waiters of a condition.\<close>

lemma try_down_aside:
  assumes e: "exec_instr k (current k) (TryDown s yes no) = Some k'" and i: "client l (TryDown s yes no)"
    and c: "clients l (code k (current k))" and f: "lock_free_conds l k"
  shows "steps_aside l k k'"
proof -
  obtain x where x: "semas k s = Some x" using e by (cases "semas k s") (auto simp: sema_try_down_def)
  have ps: "outside l ((if sval x > 0 then yes else no) @ code k (current k))" (is "outside l (?ps @ _)")
    by (rule outside_push [OF c]) (use i in auto)
  have k': "k' = push_code (if sval x > 0 then set_sema k s (x\<lparr>sval := sval x - 1\<rparr>) else k) (current k) ?ps"
    using e x by (auto simp: sema_try_down_def)
  show ?thesis
    by (rule steps_asideI) (use ps k' i f in \<open>auto simp: untouched_def lock_free_conds_def push_code_def set_sema_def\<close>)
qed

lemma release_aside:
  assumes e: "exec_instr k (current k) (LockRelease a) = Some k'" and a: "a \<noteq> l"
    and c: "clients l (code k (current k))" and f: "lock_free_conds l k"
  shows "steps_aside l k k'"
proof -
  have k': "k' = push_code (k\<lparr>holder := (holder k)(a \<mapsto> NULL)\<rparr>) (current k) [SemaUp a]"
    using e by (auto simp: lock_release_def elim!: bind_SomeE)
  have o: "outside l (SemaUp a # code k (current k))" by (rule clients_outside) (use a c in simp)
  show ?thesis by (rule steps_asideI) (use a f k' o in \<open>simp_all add: untouched_def lock_free_conds_def push_code_def\<close>)
qed

lemma cond_pop_aside:
  assumes e: "exec_instr k (current k) (CondPop cv) = Some k'"
    and c: "clients l (code k (current k))" and f: "lock_free_conds l k"
  shows "steps_aside l k k'"
proof -
  obtain ws where ws: "conds k cv = Some ws" using e by (auto simp: cond_pop_def elim!: bind_SomeE)
  show ?thesis
  proof (cases ws)
    case Nil
    then have "k' = k" using e ws by (simp add: cond_pop_def)
    then show ?thesis using push_aside [OF f, of "[]"] clients_outside [OF c] by simp
  next
    case (Cons w ws')
    then have k': "k' = push_code (k\<lparr>conds := (conds k)(cv \<mapsto> ws')\<rparr>) (current k) [SemaUp w]"
      using e ws by (simp add: cond_pop_def)
    have "l \<notin> set ws" using f ws unfolding lock_free_conds_def by blast
    then have w: "w \<noteq> l" "l \<notin> set ws'" using Cons by auto
    have "outside l (SemaUp w # code k (current k))" by (rule clients_outside) (use w c in simp)
    then show ?thesis
      by (intro steps_asideI) (use f w k' in \<open>auto simp: untouched_def lock_free_conds_def push_code_def\<close>)
  qed
qed

lemma idle_main_aside:
  assumes e: "exec_instr k (current k) (IdleMain started) = Some k'" and i: "client l (IdleMain started)"
    and c: "clients l (code k (current k))" and f: "lock_free_conds l k"
  shows "steps_aside l k k'"
proof -
  have o: "outside l ([SemaUp started, IdleLoop] @ code k (current k))"
    by (rule outside_push [OF c]) (use i in simp)
  have "steps_aside l (k\<lparr>idle_thread := current k\<rparr>) (push_code (k\<lparr>idle_thread := current k\<rparr>) (current k) [SemaUp started, IdleLoop])"
    by (rule push_aside) (use o f in \<open>simp_all add: lock_free_conds_def\<close>)
  then show ?thesis using e by (auto simp: steps_aside_def untouched_def)
qed

lemma exec_aside:
  assumes e: "exec_instr k (current k) i = Some k'" and i: "client l i" "i \<noteq> LockRelease l" "\<And>b. i \<noteq> Restore b"
    and c: "clients l (code k (current k))" and f: "lock_free_conds l k"
  shows "steps_aside l k k'"
proof -
  have push: "clients l ps \<Longrightarrow> steps_aside l k (push_code k (current k) ps)" for ps
    by (rule push_aside [OF f]) (rule outside_push [OF c])
  have same: "\<lbrakk>code k1 = code k; untouched l k k1\<rbrakk> \<Longrightarrow> steps_aside l k k1" for k1
    by (simp add: steps_aside_def)
  have lf: "lock_free_conds l (k\<lparr>intr_on := b\<rparr>)" for b using f by (simp add: lock_free_conds_def)
  show ?thesis
  proof (cases i)
    case (SemaDown s)
    have "steps_aside l (k\<lparr>intr_on := False\<rparr>) k'"
      by (rule sema_downing_aside [where s = s and old = "intr_on k"]) (use e SemaDown i c lf in \<open>simp_all add: sema_down_def\<close>)
    then show ?thesis by (rule steps_aside_trans_intr)
  next
    case (Downing s old)
    have "steps_aside l (k\<lparr>intr_on := False\<rparr>) k'"
      by (rule sema_downing_aside [where s = s and old = old]) (use e Downing i c lf in simp_all)
    then show ?thesis by (rule steps_aside_trans_intr)
  next
    case (SemaUp s)
    then show ?thesis using e i f by (auto intro: sema_up_aside)
  next
    case (TryDown s yes no)
    then show ?thesis using try_down_aside [OF _ _ c f] e i by blast
  next
    case (LockAcquire a)
    then have k': "k' = push_code k (current k) [SemaDown a, SetHolder a]"
      using e by (auto simp: lock_acquire_def elim!: bind_SomeE)
    have "outside l ([SemaDown a, SetHolder a] @ code k (current k))" using c by (simp add: outside_def)
    then show ?thesis unfolding k' by (rule push_aside [OF f])
  next
    case (LockTryAcquire a yes no)
    then have k': "k' = push_code k (current k) [TryDown a (SetHolder a # yes) no]"
      using e by (auto simp: lock_try_acquire_def elim!: bind_SomeE)
    have "outside l ([TryDown a (SetHolder a # yes) no] @ code k (current k))" using c i LockTryAcquire by (simp add: outside_def)
    then show ?thesis unfolding k' by (rule push_aside [OF f])
  next
    case (LockRelease a)
    then show ?thesis using release_aside [OF _ _ c f] e i by blast
  next
    case (CondWait cv a w)
    then have "k' = push_code k (current k) [SemaInit w 0, CondPush cv w, LockRelease a, SemaDown w, LockAcquire a]"
      using e by (auto simp: cond_wait_def elim!: bind_SomeE)
    then show ?thesis using push i CondWait by simp
  next
    case (CondPush cv w)
    then obtain ws where "conds k cv = Some ws" "k' = k\<lparr>conds := (conds k)(cv \<mapsto> ws @ [w])\<rparr>"
      using e by (auto simp: cond_push_def elim!: bind_SomeE)
    then show ?thesis using f i CondPush by (intro same) (auto simp: untouched_def lock_free_conds_def)
  next
    case (CondSignal cv a)
    then have "k' = push_code k (current k) [CondPop cv]" using e by (auto simp: cond_signal_def elim!: bind_SomeE)
    then show ?thesis using push by simp
  next
    case (CondPop cv)
    then show ?thesis using cond_pop_aside [OF _ c f] e by blast
  next
    case (CondBroadcast cv a)
    then show ?thesis using e push [of "[CondSignal cv a, CondBroadcast cv a]"] push [of "[]"]
      by (auto simp: cond_broadcast_def elim!: bind_SomeE)
  next
    case Yield
    then have "framed (push_code k (current k) [Restore (intr_on k)]) k'" using e by (simp add: thread_yield_framed)
    moreover have "steps_aside l k (push_code k (current k) [Restore (intr_on k)])" by (rule push) simp
    ultimately show ?thesis by (rule steps_aside_framed)
  next
    case Exit
    then show ?thesis using e f by (intro same) (auto dest!: thread_exit_framed simp: framed_def untouched_more)
  next
    case Block
    then show ?thesis using e f by (intro same) (auto dest!: thread_block_framed simp: framed_def untouched_more)
  next
    case (Unblock u)
    then show ?thesis using e f by (intro same) (auto dest!: thread_unblock_framed simp: framed_def untouched_more)
  next
    case (Create page nm pri body)
    then obtain k1 ps where "thread_create k page nm pri body = Some (k1, ps)" "k' = push_code k1 (current k) ps"
      using e by (auto elim!: bind_SomeE)
    then show ?thesis using create_aside [OF _ _ c f] i Create by simp
  next
    case (ThreadStart page started)
    then show ?thesis using e push i by (auto simp: thread_start_def)
  next
    case (IdleMain started)
    then show ?thesis using idle_main_aside [OF _ _ c f] e i by blast
  next
    case IdleLoop
    then show ?thesis using e push by (auto simp: idle_def)
  qed (use e i f in \<open>auto intro!: same simp: untouched_def lock_free_conds_def sema_init_def lock_init_def cond_init_def
      thread_set_priority_def allocate_tid_def set_thread_fields elim!: bind_SomeE\<close>)
qed

subsection \<open>Taking and giving back the lock\<close>

lemma exclusive_take:
  assumes "exclusive l v h cod" "v \<noteq> 0" "then_holder l is"
  shows "v - 1 = 0 \<and> h = NULL \<and> exclusive l 0 h (cod(c := is))"
  using assms then_holder_shape [OF assms(3)] unfolding exclusive_def by (auto split: if_splits)

lemma exclusive_wait:
  assumes "exclusive l v h cod" "outside l is"
  shows "exclusive l v h (cod(c := is))"
  using assms unfolding exclusive_def outside_def by (auto split: if_splits)

lemma exclusive_pending:
  assumes "exclusive l v h cod" "pending l (cod c)"
  shows "v = 0 \<and> h = NULL \<and> (\<forall>t. t \<noteq> c \<longrightarrow> \<not> pending l (cod t))"
  using assms unfolding exclusive_def by metis

lemma exclusive_hold:
  assumes e: "exclusive l v h cod" and p: "pending l (cod c)" and cl: "clients l is"
  shows "exclusive l v c (cod(c := is))" "exclusive l 1 NULL (cod(c := is))"
proof -
  note q = exclusive_pending [OF e p]
  have "\<forall>t. \<not> pending l ((cod(c := is)) t)" using q clients_shape [OF cl] by simp
  moreover have "\<forall>t. shape l ((cod(c := is)) t)" using e clients_shape [OF cl] by (simp add: exclusive_def)
  ultimately show "exclusive l v c (cod(c := is))" "exclusive l 1 NULL (cod(c := is))"
    using q by (simp_all only: exclusive_def) simp_all
qed

lemma exclusive_release:
  assumes "exclusive l v h cod" "h \<noteq> NULL" "clients l is"
  shows "exclusive l v NULL (cod(c := SemaUp l # is))"
  using assms unfolding exclusive_def by (auto split: if_splits)

datatype lock_event = Acquired addr | Released addr

text \<open>What the next instruction of the current thread does to the lock.\<close>

definition lock_events :: "addr \<Rightarrow> kernel \<Rightarrow> lock_event list" where
  "lock_events l k = (case code k (current k) of
     SetHolder a # _ \<Rightarrow> if a = l then [Acquired (current k)] else []
   | LockRelease a # _ \<Rightarrow> if a = l then [Released (current k)] else []
   | _ \<Rightarrow> [])"

text \<open>The owner after a list of events, when every acquisition finds the lock free and every release comes from the owner.\<close>

fun owner_after :: "addr \<Rightarrow> lock_event list \<Rightarrow> addr option" where
  "owner_after h [] = Some h"
| "owner_after h (Acquired t # es) = (if h = NULL then owner_after t es else None)"
| "owner_after h (Released t # es) = (if h = t then owner_after NULL es else None)"

lemma owner_after_append: "owner_after h (es @ fs) = Option.bind (owner_after h es) (\<lambda>h'. owner_after h' fs)"
  by (induction h es rule: owner_after.induct) auto

definition lock_step :: "addr \<Rightarrow> kernel \<Rightarrow> kernel \<Rightarrow> bool" where
  "lock_step l k k' \<longleftrightarrow> lock_ok l k' \<and> (\<exists>h h'. holder k l = Some h \<and> holder k' l = Some h' \<and> owner_after h (lock_events l k) = Some h')"

lemma lock_ok_conds: "lock_ok l k \<Longrightarrow> lock_free_conds l k"
  by (simp add: lock_ok_def lock_free_conds_def)

lemma lock_ok_shape: "lock_ok l k \<Longrightarrow> shape l (code k t)"
  by (auto simp: lock_ok_def exclusive_def)

lemma lock_step_same:
  assumes "lock_ok l k" "untouched l k k'" "same_calls l (code k) (code k')" "lock_events l k = []"
  shows "lock_step l k k'"
  using lock_ok_same [OF assms(1-3)] assms unfolding lock_step_def lock_ok_def untouched_def by auto

lemma shape_client:
  assumes "shape l (i # is)" "client l i" "\<And>b. i \<noteq> Restore b"
  shows "clients l is"
  using assms by (cases i) auto

text \<open>One round of waiting for the semaphore of the lock.\<close>

lemma downing_lock:
  assumes ok: "lock_ok l k" and k0: "k0 = k\<lparr>code := (code k)(current k := is), intr_on := b\<rparr>"
    and e: "sema_downing k0 l old = Some k'" and th: "then_holder l is" and ev: "lock_events l k = []"
  shows "lock_step l k k'"
proof -
  obtain x h where x: "semas k l = Some x" and h: "holder k l = Some h" and ex: "exclusive l (sval x) h (code k)"
    and cs: "\<forall>c ws. conds k c = Some ws \<longrightarrow> l \<notin> set ws"
    using ok unfolding lock_ok_def by blast
  show ?thesis
  proof (cases "sval x = 0")
    case True
    let ?k = "push_code (set_sema k0 l (x\<lparr>waiters := waiters x @ [current k]\<rparr>)) (current k) [Downing l old]"
    have "thread_block ?k = Some k'"
      using e x True unfolding sema_downing_def Let_def k0 by (auto elim!: bind_SomeE dest!: thread_current_wf)
    then have "framed ?k k'" by (rule thread_block_framed)
    then have k': "semas k' l = Some (x\<lparr>waiters := waiters x @ [current k]\<rparr>)" "holder k' = holder k" "conds k' = conds k"
      "code k' = (code k)(current k := Downing l old # is)"
      by (simp_all add: framed_def push_code_def set_sema_def k0)
    have "exclusive l (sval x) h ((code k)(current k := Downing l old # is))"
      by (rule exclusive_wait [OF ex]) (use th in \<open>simp add: outside_def\<close>)
    then show ?thesis using h cs ev by (simp add: lock_step_def lock_ok_def k')
  next
    case False
    then have k': "k' = (set_sema k0 l (x\<lparr>sval := sval x - 1\<rparr>))\<lparr>intr_on := old\<rparr>" using e x by (simp add: sema_downing_def k0)
    show ?thesis using exclusive_take [OF ex False th, of "current k"] h cs ev
      by (auto simp: lock_step_def lock_ok_def k' k0 set_sema_def)
  qed
qed

text \<open>The instructions of a call of the lock itself.\<close>

abbreviation after_fetch :: "kernel \<Rightarrow> instr list \<Rightarrow> kernel" where
  "after_fetch k is \<equiv> k\<lparr>code := (code k)(current k := is)\<rparr>"

lemma lock_okE:
  assumes "lock_ok l k"
  obtains x h where "semas k l = Some x" "holder k l = Some h" "exclusive l (sval x) h (code k)"
    "\<forall>c ws. conds k c = Some ws \<longrightarrow> l \<notin> set ws"
  using assms unfolding lock_ok_def by blast

lemma trydown_lock_step:
  assumes e: "exec_instr (after_fetch k is) (current k) (TryDown l yes no) = Some k'" and ok: "lock_ok l k"
    and i: "code k (current k) = TryDown l yes no # is"
  shows "lock_step l k k'"
proof -
  obtain x h where x: "semas k l = Some x" and h: "holder k l = Some h" and ex: "exclusive l (sval x) h (code k)"
    and cs: "\<forall>c ws. conds k c = Some ws \<longrightarrow> l \<notin> set ws"
    by (rule lock_okE [OF ok])
  have ev: "lock_events l k = []" using i by (simp add: lock_events_def)
  have yn: "then_holder l yes" "clients l no" "clients l is" using lock_ok_shape [OF ok, of "current k"] i by simp_all
  show ?thesis
  proof (cases "sval x = 0")
    case True
    then have k': "k' = push_code (after_fetch k is) (current k) no" using e x by (simp add: sema_try_down_def)
    have "exclusive l (sval x) h ((code k)(current k := no @ is))"
      by (rule exclusive_wait [OF ex]) (use yn in \<open>auto intro: outside_push\<close>)
    then show ?thesis using x h cs ev by (simp add: lock_step_def lock_ok_def k' push_code_def)
  next
    case False
    then have k': "k' = push_code (set_sema (after_fetch k is) l (x\<lparr>sval := sval x - 1\<rparr>)) (current k) yes"
      using e x by (simp add: sema_try_down_def word_gt_0)
    have "then_holder l (yes @ is)" using yn by (cases "(l, yes)" rule: then_holder.cases) auto
    from exclusive_take [OF ex False this, of "current k"] show ?thesis
      using h cs ev by (auto simp: lock_step_def lock_ok_def k' push_code_def set_sema_def)
  qed
qed

lemma up_lock_step:
  assumes e: "exec_instr (after_fetch k is) (current k) (SemaUp l) = Some k'" and ok: "lock_ok l k"
    and i: "code k (current k) = SemaUp l # is"
  shows "lock_step l k k'"
proof -
  obtain x h where x: "semas k l = Some x" and h: "holder k l = Some h" and ex: "exclusive l (sval x) h (code k)"
    and cs: "\<forall>c ws. conds k c = Some ws \<longrightarrow> l \<notin> set ws"
    by (rule lock_okE [OF ok])
  have p: "pending l (code k (current k))" using i by simp
  have cl: "clients l is" using lock_ok_shape [OF ok, of "current k"] i by simp
  from e have "sema_up (after_fetch k is) l = Some k'" by simp
  then obtain y ws where k': "semas (after_fetch k is) l = Some y"
    "semas k' = (semas (after_fetch k is))(l \<mapsto> \<lparr>sval = sval y + 1, waiters = ws\<rparr>)"
    "holder k' = holder (after_fetch k is)" "conds k' = conds (after_fetch k is)" "code k' = code (after_fetch k is)"
    by (rule sema_up_effect)
  from exclusive_hold(2) [OF ex p cl] exclusive_pending [OF ex p] show ?thesis
    using x h cs i k' by (simp add: lock_step_def lock_ok_def lock_events_def)
qed

lemma aside_lock_step:
  assumes e: "exec_instr (after_fetch k is) (current k) i = Some k'" and ok: "lock_ok l k"
    and i: "code k (current k) = i # is" and aside: "client l i" "i \<noteq> LockRelease l" "\<And>b. i \<noteq> Restore b"
  shows "lock_step l k k'"
proof -
  have sh: "shape l (i # is)" using lock_ok_shape [OF ok, of "current k"] i by simp
  have lf: "lock_free_conds l (after_fetch k is)" using lock_ok_conds [OF ok] by (simp add: lock_free_conds_def)
  have cl: "clients l is" by (rule shape_client [OF sh aside(1,3)])
  have a: "steps_aside l (after_fetch k is) k'" by (rule exec_aside) (use e aside cl lf in simp_all)
  have "same_calls l (code k) (code k')"
    unfolding same_calls_def
  proof
    fix u
    have "code k' u = ((code k)(current k := is)) u \<or> outside l (code k' u)" using a by (simp add: steps_aside_def)
    then show "(pending l (code k' u) \<longrightarrow> pending l (code k u)) \<and> shape l (code k' u)"
      using clients_outside [OF cl] lock_ok_shape [OF ok, of u] by (auto simp: outside_def split: if_splits)
  qed
  moreover have "untouched l k k'" using a by (simp add: steps_aside_def untouched_def)
  moreover have "lock_events l k = []" using i aside(1,2) by (cases i) (auto simp: lock_events_def)
  ultimately show ?thesis by (intro lock_step_same [OF ok])
qed

lemma exec_lock_step:
  assumes e: "exec k = Some k'" and ok: "lock_ok l k"
  shows "lock_step l k k'"
proof -
  obtain t i "is" where t': "thread_current k = Some t" and i': "code k t = i # is"
    and e': "exec_instr (k\<lparr>code := (code k)(t := is)\<rparr>) t i = Some k'"
    using e unfolding exec_def by (auto elim!: bind_SomeE split: list.splits)
  have "t = current k" using thread_current_wf [OF t'] by simp
  note t = t' [unfolded this] and i = i' [unfolded this] and e = e' [unfolded this]
  let ?c = "current k"
  let ?k = "k\<lparr>code := (code k)(?c := is)\<rparr>"
  have nn: "?c \<noteq> NULL" using thread_current_wf [OF t] by simp
  have tc: "thread_current ?k = Some ?c" using t by (simp add: thread_current_def is_thread_def)
  obtain x h where x: "semas k l = Some x" and h: "holder k l = Some h" and ex: "exclusive l (sval x) h (code k)"
    and cs: "\<forall>c ws. conds k c = Some ws \<longrightarrow> l \<notin> set ws"
    by (rule lock_okE [OF ok])
  have sh: "shape l (i # is)" using lock_ok_shape [OF ok, of ?c] i by simp
  consider (restore) b where "i = Restore b" | (release) "i = LockRelease l"
    | (aside) "client l i" "i \<noteq> LockRelease l" "\<And>b. i \<noteq> Restore b" | (call) "\<not> client l i"
    by blast
  then show ?thesis
  proof cases
    case restore
    then have k': "k' = ?k\<lparr>intr_on := b\<rparr>" using e by simp
    have "same_calls l (code k) ((code k)(?c := is))"
      using sh i restore lock_ok_shape [OF ok] by (auto simp: same_calls_def)
    then show ?thesis
      by (intro lock_step_same [OF ok]) (use restore i cs in \<open>simp_all add: k' untouched_def lock_events_def\<close>)
  next
    case release
    then have k': "k' = push_code (?k\<lparr>holder := (holder k)(l \<mapsto> NULL)\<rparr>) ?c [SemaUp l]" and own: "h = ?c"
      using e h tc by (auto simp: lock_release_def lock_held_by_current_thread_def elim!: bind_SomeE)
    have "clients l is" using sh release by simp
    from exclusive_release [OF ex _ this, of ?c] own nn show ?thesis
      using x cs h i release by (simp add: lock_step_def lock_ok_def k' push_code_def lock_events_def)
  next
    case aside
    then show ?thesis by (intro aside_lock_step [OF e ok i])
  next
    case call
    then consider (down) "i = SemaDown l" | (downing) old where "i = Downing l old" | (trydown) yes no where "i = TryDown l yes no"
      | (hold) "i = SetHolder l" | (up) "i = SemaUp l"
      using sh by (cases i) (auto split: if_splits)
    then show ?thesis
    proof cases
      case down
      then have "sema_downing (?k\<lparr>intr_on := False\<rparr>) l (intr_on k) = Some k'" using e by (simp add: sema_down_def)
      then show ?thesis
        by (rule downing_lock [OF ok refl]) (use sh down i in \<open>simp_all add: lock_events_def\<close>)
    next
      case downing
      then have "sema_downing (?k\<lparr>intr_on := False\<rparr>) l old = Some k'" using e by simp
      then show ?thesis
        by (rule downing_lock [OF ok refl]) (use sh downing i in \<open>simp_all add: lock_events_def\<close>)
    next
      case trydown
      then show ?thesis using trydown_lock_step [OF _ ok] e i by blast
    next
      case hold
      then have k': "k' = ?k\<lparr>holder := (holder k)(l \<mapsto> ?c)\<rparr>" using e tc by simp
      have p: "pending l (code k ?c)" using i hold by simp
      have "clients l is" using sh hold by simp
      from exclusive_hold(1) [OF ex p this] exclusive_pending [OF ex p] show ?thesis
        using x h cs i hold by (simp add: lock_step_def lock_ok_def k' lock_events_def)
    next
      case up
      then show ?thesis using up_lock_step [OF _ ok] e i by blast
    qed
  qed
qed

lemma timer_lock_ok:
  assumes e: "timer_interrupt k = Some k'" and ok: "lock_ok l k"
  shows "lock_ok l k' \<and> holder k' = holder k"
proof -
  obtain k1 y where k1: "thread_tick k = Some (k1, y)" "(if y then thread_yield k1 True else Some k1) = Some k'"
    using e unfolding timer_interrupt_def by (auto elim!: bind_SomeE)
  have "framed k k1" using k1(1) unfolding thread_tick_def Let_def framed_def by (auto elim!: bind_SomeE)
  note f = this [unfolded framed_def]
  have "semas k' = semas k \<and> holder k' = holder k \<and> conds k' = conds k \<and> same_calls l (code k) (code k')"
  proof (cases y)
    case True
    then have "framed (push_code k1 (current k1) [Restore True]) k'" using k1(2) by (simp add: thread_yield_framed)
    then show ?thesis using f lock_ok_shape [OF ok] by (auto simp: framed_def push_code_def same_calls_def)
  next
    case False
    then show ?thesis using f k1(2) lock_ok_shape [OF ok] by (auto simp: same_calls_def)
  qed
  then show ?thesis using lock_ok_same [OF ok, of k'] lock_ok_conds [OF ok] by (simp add: untouched_more)
qed

subsection \<open>Runs\<close>

text \<open>The kernel goes from \<open>k0\<close> to \<open>k\<close>, and \<open>es\<close> is what happens to the lock on the way.\<close>

inductive lock_run :: "addr \<Rightarrow> kernel \<Rightarrow> lock_event list \<Rightarrow> kernel \<Rightarrow> bool" for l k0 where
  run_start: "lock_run l k0 [] k0"
| run_exec: "lock_run l k0 es k \<Longrightarrow> exec k = Some k' \<Longrightarrow> lock_run l k0 (es @ lock_events l k) k'"
| run_tick: "lock_run l k0 es k \<Longrightarrow> timer_interrupt k = Some k' \<Longrightarrow> lock_run l k0 es k'"

lemma lock_run_ok:
  assumes "lock_run l k0 es k" "lock_ok l k0" "holder k0 l = Some h0"
  shows "lock_ok l k \<and> (\<exists>h. holder k l = Some h \<and> owner_after h0 es = Some h)"
  using assms
proof induction
  case run_start
  then show ?case by simp
next
  case (run_exec es k k')
  then obtain h where ok: "lock_ok l k" and h: "holder k l = Some h" "owner_after h0 es = Some h" by blast
  have "lock_step l k k'" by (rule exec_lock_step [OF run_exec.hyps(2) ok])
  with h show ?case by (auto simp: lock_step_def owner_after_append)
next
  case (run_tick es k k')
  then show ?case using timer_lock_ok by metis
qed

text \<open>C5: mutual exclusion. From a state in which a lock is free and which every thread uses through the lock operations
  and condition variables only, in any interleaving of the threads' instructions, timer interrupts included, the lock is acquired
  only while nobody owns it and released only by its owner, in turn; \<open>holder\<close> is the owner, and while there is one
  the semaphore of the lock is 0, so that no other acquisition can succeed.\<close>

theorem lock_mutual_exclusion:
  assumes "lock_run l k0 es k" "semas k0 l = Some x0" "sval x0 = 1" "holder k0 l = Some NULL"
    and "\<forall>t. clients l (code k0 t)" "\<forall>c ws. conds k0 c = Some ws \<longrightarrow> l \<notin> set ws"
  shows "\<exists>h x. holder k l = Some h \<and> owner_after NULL es = Some h \<and> semas k l = Some x \<and> (if h = NULL then sval x \<le> 1 else sval x = 0)"
proof -
  have "lock_ok l k0" using assms(2-6) clients_shape by (auto simp: lock_ok_def exclusive_def)
  from lock_run_ok [OF assms(1) this assms(4)] obtain h where "lock_ok l k" "holder k l = Some h" "owner_after NULL es = Some h" by blast
  then show ?thesis by (auto simp: lock_ok_def exclusive_def)
qed

text \<open>A run of a number of instructions without a timer interrupt, with the events of a lock.\<close>

primrec lock_trace :: "nat \<Rightarrow> addr \<Rightarrow> kernel \<Rightarrow> (lock_event list \<times> kernel) option" where
  "lock_trace 0 l k = Some ([], k)"
| "lock_trace (Suc n) l k = do {
     k1 \<leftarrow> exec k;
     (es, k2) \<leftarrow> lock_trace n l k1;
     Some (lock_events l k @ es, k2)
   }"

lemma lock_trace_run:
  "lock_trace n l k = Some (es, k') \<Longrightarrow> lock_run l k0 es0 k \<Longrightarrow> lock_run l k0 (es0 @ es) k'"
proof (induction n arbitrary: k es es0)
  case (Suc n)
  from Suc.prems(1) obtain k1 fs where k1: "exec k = Some k1" "lock_trace n l k1 = Some (fs, k')" "es = lock_events l k @ fs"
    by (auto elim!: bind_SomeE)
  have "lock_run l k0 ((es0 @ lock_events l k) @ fs) k'"
    by (rule Suc.IH [OF k1(2)]) (rule run_exec [OF Suc.prems(2) k1(1)])
  then show ?case by (simp add: k1(3))
qed simp

text \<open>Two threads that compete for a lock: the second one waits until the first has given it back.\<close>

definition rivals :: kernel where
  "rivals = thread_init 4096 8 [Create 8192 ''a'' 31 [LockAcquire 8, LockRelease 8], LockAcquire 8, Yield, LockRelease 8]"

lemma lock_trace_21: "lock_trace 21 = lock_trace (Suc (Suc (Suc (Suc (Suc (Suc (Suc (Suc (Suc (Suc (Suc (Suc (Suc (Suc (Suc (Suc (Suc (Suc (Suc (Suc (Suc 0)))))))))))))))))))))"
  by (simp add: eval_nat_numeral)

lemma rivals_trace:
  "map_option fst (lock_trace 21 8 rivals) = Some [Acquired 4096, Released 4096, Acquired 4096, Released 4096, Acquired 8192]"
  by (simp only: lock_trace_21) (simp add: rivals_def thread_init_def lock_events_def exec_def thread_current_def is_thread_def status_of_def thread_create_def
      init_thread_def PRI_MIN_def PRI_MAX_def push_code_def kernel_thread_def lock_acquire_def lock_held_by_current_thread_def
      sema_down_def sema_downing_def set_sema_def allocate_tid_def set_thread_def lock_release_def sema_up_def
      thread_unblock_def thread_block_def thread_yield_def do_schedule_def schedule_def next_thread_to_run_def thread_launch_def
      thread_exit_def split: if_splits)

lemma lock_mutual_exclusion_witness:
  "\<exists>k h x. lock_run 8 rivals [Acquired 4096, Released 4096, Acquired 4096, Released 4096, Acquired 8192] k \<and>
     holder k 8 = Some h \<and> semas k 8 = Some x \<and> (if h = NULL then sval x \<le> 1 else sval x = 0)"
proof -
  obtain k where "lock_trace 21 8 rivals = Some ([Acquired 4096, Released 4096, Acquired 4096, Released 4096, Acquired 8192], k)"
    using rivals_trace by auto
  from lock_trace_run [OF this run_start]
  have run: "lock_run 8 rivals [Acquired 4096, Released 4096, Acquired 4096, Released 4096, Acquired 8192] k" by simp
  have "\<forall>t. clients 8 (code rivals t)" by (simp add: rivals_def thread_init_def)
  with lock_mutual_exclusion [OF run, of "\<lparr>sval = 1, waiters = []\<rparr>"] run show ?thesis
    by (auto simp: rivals_def thread_init_def)
qed

end
