(* ===== verification/Malloc.thy ===== *)
theory Malloc
  imports Prelude "HOL-Library.Word"
begin

unbundle bit_operations_syntax

text \<open>
  The allocator of \<open>malloc-lab/mm.c\<close> and the memory system \<open>memlib.c\<close> below it, on the bytes of the heap.

  An address is a natural number; an access outside the bytes between \<open>mem_start_brk\<close> and \<open>mem_brk\<close> yields
  \<open>None\<close>. A word of the heap has four bytes and a pointer eight, the lowest byte first. \<open>size_t\<close> is \<open>64 word\<close>
  and \<open>unsigned int\<close> is \<open>32 word\<close>. The loops over the free list and the heap are partial functions: on a
  list with a cycle they do not end.
\<close>

subsection \<open>Bytes of the memory\<close>

primrec load :: "(nat \<Rightarrow> 8 word) \<Rightarrow> addr \<Rightarrow> nat \<Rightarrow> nat" where
  "load m p 0 = 0"
| "load m p (Suc n) = unat (m p) + 256 * load m (p + 1) n"

primrec store :: "(nat \<Rightarrow> 8 word) \<Rightarrow> addr \<Rightarrow> nat \<Rightarrow> nat \<Rightarrow> nat \<Rightarrow> 8 word" where
  "store m p 0 v = m"
| "store m p (Suc n) v = store (m(p := of_nat v)) (p + 1) n (v div 256)"

record mheap =
  bytes :: "nat \<Rightarrow> 8 word"
  mem_start_brk :: addr
  mem_brk :: addr
  mem_max_addr :: addr
  heap_listp :: addr
  last_allocp :: addr
  free_listp :: addr

subsection \<open>The memory system\<close>

definition MAX_HEAP :: nat where "MAX_HEAP = 20 * (1 * 2 ^ 20)"

text \<open>\<open>start\<close> is what \<open>malloc (MAX_HEAP)\<close> returned; the null pointer ends the program.\<close>

definition mem_init :: "mheap \<Rightarrow> addr \<Rightarrow> mheap option" where
  "mem_init h start = (if start = NULL then None
     else Some (h\<lparr>mem_start_brk := start, mem_max_addr := start + MAX_HEAP, mem_brk := start\<rparr>))"

definition mem_reset_brk :: "mheap \<Rightarrow> mheap" where
  "mem_reset_brk h = h\<lparr>mem_brk := mem_start_brk h\<rparr>"

text \<open>The result \<open>None\<close> of the inner option is the pointer \<open>-1\<close> that reports a failure.\<close>

definition mem_sbrk :: "mheap \<Rightarrow> 32 word \<Rightarrow> addr option \<times> mheap" where
  "mem_sbrk h incr = (
     let old_brk = mem_brk h in
     if sint incr < 0 \<or> mem_brk h + nat (sint incr) > mem_max_addr h then (None, h)
     else (Some old_brk, h\<lparr>mem_brk := mem_brk h + nat (sint incr)\<rparr>))"

definition mem_heap_lo :: "mheap \<Rightarrow> addr" where
  "mem_heap_lo h = mem_start_brk h"

definition mem_heap_hi :: "mheap \<Rightarrow> addr" where
  "mem_heap_hi h = mem_brk h - 1"

definition mem_heapsize :: "mheap \<Rightarrow> nat" where
  "mem_heapsize h = mem_brk h - mem_start_brk h"

subsection \<open>Headers, footers and links\<close>

definition WSIZE :: nat where "WSIZE = 4"
definition DSIZE :: nat where "DSIZE = 8"
definition CHUNKSIZE :: "64 word" where "CHUNKSIZE = 2 ^ 10"

definition PACK :: "64 word \<Rightarrow> 64 word \<Rightarrow> 64 word" where
  "PACK sz alloc = sz OR alloc"

definition in_heap :: "mheap \<Rightarrow> addr \<Rightarrow> nat \<Rightarrow> bool" where
  "in_heap h p n \<longleftrightarrow> mem_start_brk h \<le> p \<and> p + n \<le> mem_brk h"

definition GET :: "mheap \<Rightarrow> addr \<Rightarrow> 32 word option" where
  "GET h p = (if in_heap h p 4 then Some (of_nat (load (bytes h) p 4)) else None)"

definition PUT :: "mheap \<Rightarrow> addr \<Rightarrow> 64 word \<Rightarrow> mheap option" where
  "PUT h p val = (if in_heap h p 4 then Some (h\<lparr>bytes := store (bytes h) p 4 (unat val)\<rparr>) else None)"

definition GET_SIZE :: "mheap \<Rightarrow> addr \<Rightarrow> 64 word option" where
  "GET_SIZE h p = map_option (\<lambda>w. ucast (w AND NOT 7)) (GET h p)"

definition GET_ALLOC :: "mheap \<Rightarrow> addr \<Rightarrow> 32 word option" where
  "GET_ALLOC h p = map_option (\<lambda>w. w AND 1) (GET h p)"

definition HDRP :: "addr \<Rightarrow> addr" where
  "HDRP bp = bp - WSIZE"

definition FTRP :: "mheap \<Rightarrow> addr \<Rightarrow> addr option" where
  "FTRP h bp = map_option (\<lambda>size. bp + unat size - DSIZE) (GET_SIZE h (HDRP bp))"

definition NEXT_BLKP :: "mheap \<Rightarrow> addr \<Rightarrow> addr option" where
  "NEXT_BLKP h bp = map_option (\<lambda>size. bp + unat size) (GET_SIZE h (bp - WSIZE))"

definition PREV_BLKP :: "mheap \<Rightarrow> addr \<Rightarrow> addr option" where
  "PREV_BLKP h bp = map_option (\<lambda>size. bp - unat size) (GET_SIZE h (bp - DSIZE))"

definition NEXT_FREE :: "mheap \<Rightarrow> addr \<Rightarrow> addr option" where
  "NEXT_FREE h bp = (if in_heap h bp 8 then Some (load (bytes h) bp 8) else None)"

definition PREV_FREE :: "mheap \<Rightarrow> addr \<Rightarrow> addr option" where
  "PREV_FREE h bp = (if in_heap h (bp + DSIZE) 8 then Some (load (bytes h) (bp + DSIZE) 8) else None)"

definition put_NEXT_FREE :: "mheap \<Rightarrow> addr \<Rightarrow> addr \<Rightarrow> mheap option" where
  "put_NEXT_FREE h bp q = (if in_heap h bp 8 then Some (h\<lparr>bytes := store (bytes h) bp 8 q\<rparr>) else None)"

definition put_PREV_FREE :: "mheap \<Rightarrow> addr \<Rightarrow> addr \<Rightarrow> mheap option" where
  "put_PREV_FREE h bp q = (if in_heap h (bp + DSIZE) 8 then Some (h\<lparr>bytes := store (bytes h) (bp + DSIZE) 8 q\<rparr>) else None)"

definition ALIGN :: "64 word \<Rightarrow> 64 word" where
  "ALIGN sz = (sz + (8 - 1)) AND NOT 7"

subsection \<open>The free list\<close>

definition remove_from_free_list :: "mheap \<Rightarrow> addr \<Rightarrow> mheap option" where
  "remove_from_free_list h bp = do {
     prev \<leftarrow> PREV_FREE h bp;
     next \<leftarrow> NEXT_FREE h bp;
     h \<leftarrow> (if prev = NULL then Some (h\<lparr>free_listp := next\<rparr>) else put_NEXT_FREE h prev next);
     next \<leftarrow> NEXT_FREE h bp;
     if next \<noteq> NULL then do {
       prev \<leftarrow> PREV_FREE h bp;
       put_PREV_FREE h next prev
     } else Some h
   }"

definition add_to_free_list :: "mheap \<Rightarrow> addr \<Rightarrow> mheap option" where
  "add_to_free_list h bp = do {
     h \<leftarrow> put_NEXT_FREE h bp (free_listp h);
     h \<leftarrow> put_PREV_FREE h bp NULL;
     h \<leftarrow> (if free_listp h \<noteq> NULL then put_PREV_FREE h (free_listp h) bp else Some h);
     Some (h\<lparr>free_listp := bp\<rparr>)
   }"

text \<open>A block is given its header and its footer, the header first.\<close>

definition put_tags :: "mheap \<Rightarrow> addr \<Rightarrow> 64 word \<Rightarrow> 64 word \<Rightarrow> mheap option" where
  "put_tags h bp sz alloc = do {
     h \<leftarrow> PUT h (HDRP bp) (PACK sz alloc);
     f \<leftarrow> FTRP h bp;
     PUT h f (PACK sz alloc)
   }"

definition coalesce :: "mheap \<Rightarrow> addr \<Rightarrow> (addr \<times> mheap) option" where
  "coalesce h bp = do {
     prv \<leftarrow> PREV_BLKP h bp;
     prev_ftr \<leftarrow> FTRP h prv;
     prev_alloc \<leftarrow> GET_ALLOC h prev_ftr;
     nxt \<leftarrow> NEXT_BLKP h bp;
     next_alloc \<leftarrow> GET_ALLOC h (HDRP nxt);
     size \<leftarrow> GET_SIZE h (HDRP bp);
     if prev_alloc \<noteq> 0 \<and> next_alloc \<noteq> 0 then do {
       h \<leftarrow> add_to_free_list h bp;
       Some (bp, h)
     } else if prev_alloc \<noteq> 0 \<and> next_alloc = 0 then do {
       nxt \<leftarrow> NEXT_BLKP h bp;
       h \<leftarrow> remove_from_free_list h nxt;
       nxt \<leftarrow> NEXT_BLKP h bp;
       next_size \<leftarrow> GET_SIZE h (HDRP nxt);
       h \<leftarrow> put_tags h bp (size + next_size) 0;
       h \<leftarrow> add_to_free_list h bp;
       Some (bp, h)
     } else if prev_alloc = 0 \<and> next_alloc \<noteq> 0 then do {
       prv \<leftarrow> PREV_BLKP h bp;
       h \<leftarrow> remove_from_free_list h prv;
       prv \<leftarrow> PREV_BLKP h bp;
       prev_size \<leftarrow> GET_SIZE h (HDRP prv);
       h \<leftarrow> PUT h (HDRP prv) (PACK (size + prev_size) 0);
       prv \<leftarrow> PREV_BLKP h bp;
       f \<leftarrow> FTRP h prv;
       h \<leftarrow> PUT h f (PACK (size + prev_size) 0);
       bp \<leftarrow> PREV_BLKP h bp;
       h \<leftarrow> add_to_free_list h bp;
       Some (bp, h)
     } else do {
       nxt \<leftarrow> NEXT_BLKP h bp;
       h \<leftarrow> remove_from_free_list h nxt;
       prv \<leftarrow> PREV_BLKP h bp;
       h \<leftarrow> remove_from_free_list h prv;
       prv \<leftarrow> PREV_BLKP h bp;
       prev_size \<leftarrow> GET_SIZE h (HDRP prv);
       nxt \<leftarrow> NEXT_BLKP h bp;
       next_ftr \<leftarrow> FTRP h nxt;
       next_size \<leftarrow> GET_SIZE h next_ftr;
       let size = size + ucast (ucast prev_size + ucast next_size :: 32 word);
       prv \<leftarrow> PREV_BLKP h bp;
       h \<leftarrow> PUT h (HDRP prv) (PACK size 0);
       nxt \<leftarrow> NEXT_BLKP h bp;
       f \<leftarrow> FTRP h nxt;
       h \<leftarrow> PUT h f (PACK size 0);
       bp \<leftarrow> PREV_BLKP h bp;
       h \<leftarrow> add_to_free_list h bp;
       Some (bp, h)
     }
   }"

text \<open>
  The argument of \<open>mem_sbrk\<close> is an \<open>int\<close>, so the size is truncated. \<open>NULL\<close> reports that there is no more
  memory.
\<close>

definition extend_heap :: "mheap \<Rightarrow> 64 word \<Rightarrow> (addr \<times> mheap) option" where
  "extend_heap h words = do {
     let size = (if words mod 2 \<noteq> 0 then (words + 1) * of_nat WSIZE else words * of_nat WSIZE);
     case mem_sbrk h (ucast size) of
       (None, h) \<Rightarrow> Some (NULL, h)
     | (Some bp, h) \<Rightarrow> do {
         h \<leftarrow> put_tags h bp size 0;
         nxt \<leftarrow> NEXT_BLKP h bp;
         h \<leftarrow> PUT h (HDRP nxt) (PACK 0 1);
         coalesce h bp
       }
   }"

definition mm_init :: "mheap \<Rightarrow> (int \<times> mheap) option" where
  "mm_init h = (case mem_sbrk h (of_nat (4 * WSIZE)) of
       (None, h) \<Rightarrow> Some (-1, h)
     | (Some p, h) \<Rightarrow> do {
         let h = h\<lparr>heap_listp := p\<rparr>;
         h \<leftarrow> PUT h p 0;
         h \<leftarrow> PUT h (p + 1 * WSIZE) (PACK (of_nat DSIZE) 1);
         h \<leftarrow> PUT h (p + 2 * WSIZE) (PACK (of_nat DSIZE) 1);
         h \<leftarrow> PUT h (p + 3 * WSIZE) (PACK 0 1);
         let h = h\<lparr>heap_listp := heap_listp h + 2 * WSIZE, free_listp := NULL\<rparr>;
         (bp, h) \<leftarrow> extend_heap h (of_nat (DSIZE * 2));
         Some (if bp = NULL then -1 else 0, h)
       })"

subsection \<open>Finding a block\<close>

partial_function (option) first_fit_from :: "mheap \<Rightarrow> 64 word \<Rightarrow> addr \<Rightarrow> addr option" where
  "first_fit_from h asize cur =
     (if cur \<noteq> NULL then do {
        size \<leftarrow> GET_SIZE h (HDRP cur);
        if size \<ge> asize then Some cur
        else do { cur \<leftarrow> NEXT_FREE h cur; first_fit_from h asize cur }
      } else Some NULL)"

definition first_fit :: "mheap \<Rightarrow> 64 word \<Rightarrow> addr option" where
  "first_fit h asize = first_fit_from h asize (free_listp h)"

partial_function (option) next_fit_to_end :: "mheap \<Rightarrow> 64 word \<Rightarrow> addr \<Rightarrow> (addr \<times> mheap) option" where
  "next_fit_to_end h asize bp = do {
     size \<leftarrow> GET_SIZE h (HDRP bp);
     if size \<noteq> 0 then do {
       alloc \<leftarrow> GET_ALLOC h (HDRP bp);
       if alloc = 0 \<and> size \<ge> asize then Some (bp, h\<lparr>last_allocp := bp\<rparr>)
       else do { bp \<leftarrow> NEXT_BLKP h bp; next_fit_to_end h asize bp }
     } else Some (NULL, h)
   }"

partial_function (option) next_fit_wrapped :: "mheap \<Rightarrow> 64 word \<Rightarrow> addr \<Rightarrow> addr \<Rightarrow> addr option" where
  "next_fit_wrapped h asize start bp =
     (if bp \<noteq> start then do {
        size \<leftarrow> GET_SIZE h (HDRP bp);
        if size = 0 then Some NULL
        else do {
          alloc \<leftarrow> GET_ALLOC h (HDRP bp);
          if alloc = 0 \<and> size \<ge> asize then Some bp
          else do { bp \<leftarrow> NEXT_BLKP h bp; next_fit_wrapped h asize start bp }
        }
      } else Some NULL)"

definition next_fit :: "mheap \<Rightarrow> 64 word \<Rightarrow> (addr \<times> mheap) option" where
  "next_fit h asize = do {
     start \<leftarrow> NEXT_BLKP h (last_allocp h);
     (found, h) \<leftarrow> next_fit_to_end h asize start;
     if found \<noteq> NULL then Some (found, h)
     else do {
       bp \<leftarrow> NEXT_BLKP h (heap_listp h);
       found \<leftarrow> next_fit_wrapped h asize start bp;
       Some (found, h)
     }
   }"

partial_function (option) best_fit_from :: "mheap \<Rightarrow> 64 word \<Rightarrow> addr \<Rightarrow> addr \<Rightarrow> addr option" where
  "best_fit_from h asize bp best =
     (if bp \<noteq> NULL then do {
        bsize \<leftarrow> GET_SIZE h (HDRP bp);
        if asize \<le> bsize then do {
          better \<leftarrow> (if best = NULL then Some True else map_option (\<lambda>size. bsize < size) (GET_SIZE h (HDRP best)));
          let best = (if better then bp else best);
          if bsize = asize then Some best
          else do { bp \<leftarrow> NEXT_FREE h bp; best_fit_from h asize bp best }
        } else do { bp \<leftarrow> NEXT_FREE h bp; best_fit_from h asize bp best }
      } else Some best)"

definition best_fit :: "mheap \<Rightarrow> 64 word \<Rightarrow> addr option" where
  "best_fit h asize = best_fit_from h asize (free_listp h) NULL"

declare first_fit_from.simps [code] next_fit_to_end.simps [code] next_fit_wrapped.simps [code] best_fit_from.simps [code]

subsection \<open>The operations of the allocator\<close>

definition place :: "mheap \<Rightarrow> addr \<Rightarrow> 64 word \<Rightarrow> mheap option" where
  "place h bp asize = do {
     csize \<leftarrow> GET_SIZE h (HDRP bp);
     h \<leftarrow> remove_from_free_list h bp;
     if csize - asize \<ge> of_nat (3 * DSIZE) then do {
       h \<leftarrow> put_tags h bp asize 1;
       next_bp \<leftarrow> NEXT_BLKP h bp;
       h \<leftarrow> put_tags h next_bp (csize - asize) 0;
       add_to_free_list h next_bp
     } else put_tags h bp csize 1
   }"

definition mm_malloc :: "mheap \<Rightarrow> 64 word \<Rightarrow> (addr \<times> mheap) option" where
  "mm_malloc h sz =
     (if sz = 0 then Some (NULL, h)
      else do {
        let asize = (if sz = 448 then 520 else if sz = 112 then 136 else ALIGN (sz + of_nat DSIZE));
        bp \<leftarrow> best_fit h asize;
        if bp \<noteq> NULL then do {
          h \<leftarrow> place h bp asize;
          Some (bp, h)
        } else do {
          let extendsize =
            (if asize < CHUNKSIZE then CHUNKSIZE
             else if asize < CHUNKSIZE * 4 then asize + CHUNKSIZE div 4
             else asize + asize div 24);
          (bp, h) \<leftarrow> extend_heap h (extendsize div 2);
          if bp = NULL then Some (NULL, h)
          else do {
            h \<leftarrow> place h bp asize;
            Some (bp, h)
          }
        }
      })"

definition mm_free :: "mheap \<Rightarrow> addr \<Rightarrow> mheap option" where
  "mm_free h ptr = do {
     size \<leftarrow> GET_SIZE h (HDRP ptr);
     h \<leftarrow> put_tags h ptr size 0;
     (bp, h) \<leftarrow> coalesce h ptr;
     Some h
   }"

text \<open>\<open>memcpy\<close> of the C library: its behaviour is undefined when the two areas overlap.\<close>

definition memcpy :: "mheap \<Rightarrow> addr \<Rightarrow> addr \<Rightarrow> nat \<Rightarrow> mheap option" where
  "memcpy h dst src n =
     (if in_heap h dst n \<and> in_heap h src n \<and> (dst + n \<le> src \<or> src + n \<le> dst)
      then Some (h\<lparr>bytes := (\<lambda>q. if dst \<le> q \<and> q < dst + n then bytes h (src + (q - dst)) else bytes h q)\<rparr>)
      else None)"

definition mm_realloc :: "mheap \<Rightarrow> addr \<Rightarrow> 64 word \<Rightarrow> (addr \<times> mheap) option" where
  "mm_realloc h ptr sz =
     (if ptr = NULL then mm_malloc h sz
      else if sz = 0 then do { h \<leftarrow> mm_free h ptr; Some (NULL, h) }
      else do {
        oldsize \<leftarrow> GET_SIZE h (HDRP ptr);
        let asize = ALIGN (sz + of_nat DSIZE);
        if asize \<le> oldsize then Some (ptr, h)
        else do {
          nxt \<leftarrow> NEXT_BLKP h ptr;
          next_alloc \<leftarrow> GET_ALLOC h (HDRP nxt);
          next_size \<leftarrow> GET_SIZE h (HDRP nxt);
          if next_alloc = 0 \<and> next_size \<noteq> 0 \<and> oldsize + next_size \<ge> asize then do {
            h \<leftarrow> remove_from_free_list h nxt;
            h \<leftarrow> put_tags h ptr (oldsize + next_size) 1;
            Some (ptr, h)
          } else do {
            prv \<leftarrow> PREV_BLKP h ptr;
            prev_alloc \<leftarrow> GET_ALLOC h (HDRP prv);
            prev_size \<leftarrow> GET_SIZE h (HDRP prv);
            if prev_alloc = 0 \<and> prev_size \<noteq> 0 \<and> prev_size + oldsize \<ge> asize then do {
              h \<leftarrow> remove_from_free_list h prv;
              h \<leftarrow> put_tags h prv (prev_size + oldsize) 1;
              h \<leftarrow> memcpy h prv ptr (unat (oldsize - of_nat DSIZE));
              Some (prv, h)
            } else do {
              (newptr, h) \<leftarrow> mm_malloc h sz;
              if newptr = NULL then Some (NULL, h)
              else do {
                let copySize = (if sz < oldsize - of_nat DSIZE then sz else oldsize - of_nat DSIZE);
                h \<leftarrow> memcpy h newptr ptr (unat copySize);
                h \<leftarrow> mm_free h ptr;
                Some (newptr, h)
              }
            }
          }
        }
      })"

end
