(* ===== verification/MallocInv.thy ===== *)
theory MallocInv
  imports Malloc
begin

text \<open>
  The invariant of the heap of \<open>Malloc\<close>: the blocks tile it, with their sizes in headers and footers, and the
  free blocks are linked in the free list. The lemmas say what the stores of the allocator do to it.
\<close>

subsection \<open>Loads and stores\<close>

lemma load_bound: "load m p n < 256 ^ n"
proof (induction n arbitrary: p)
  case (Suc n)
  have "unat (m p) < 256" using unsigned_less [of "m p"] by simp
  moreover have "load m (p + 1) n \<le> 256 ^ n - 1" using Suc [of "p + 1"] by simp
  then have "256 * load m (p + 1) n \<le> 256 * (256 ^ n - 1)" by simp
  moreover have "256 * (256 ^ n - 1) + 256 = (256 :: nat) ^ Suc n" by (simp add: algebra_simps)
  ultimately show ?case by (simp only: load.simps)
qed simp

lemma store_other: "q < p \<or> p + n \<le> q \<Longrightarrow> store m p n v q = m q"
  by (induction n arbitrary: m p v) auto

lemma load_cong: "(\<And>q. p \<le> q \<Longrightarrow> q < p + n \<Longrightarrow> m q = m' q) \<Longrightarrow> load m p n = load m' p n"
  by (induction n arbitrary: p) auto

lemma load_store_other: "q + k \<le> p \<or> p + n \<le> q \<Longrightarrow> load (store m p n v) q k = load m q k"
  by (rule load_cong) (auto intro: store_other)

lemma load_store_same: "load (store m p n v) p n = v mod 256 ^ n"
proof (induction n arbitrary: m p v)
  case (Suc n)
  have b: "store (m(p := of_nat v)) (Suc p) n (v div 256) p = of_nat v"
    by (simp add: store_other)
  have "unat (of_nat v :: 8 word) = v mod 256" by (simp add: unat_of_nat)
  moreover note Suc [of "m(p := of_nat v)" "Suc p" "v div 256"]
  ultimately have "load (store m p (Suc n) v) p (Suc n) = v mod 256 + 256 * (v div 256 mod 256 ^ n)"
    using b by (simp del: fun_upd_apply)
  then show ?case by (simp add: mod_mult2_eq)
qed simp

lemma load_store: "v < 256 ^ n \<Longrightarrow> load (store m p n v) p n = v"
  by (simp add: load_store_same)

subsection \<open>Tags\<close>

definition tag :: "nat \<Rightarrow> bool \<Rightarrow> nat" where
  "tag s al = (if al then s + 1 else s)"

lemma tag_bound: "8 dvd s \<Longrightarrow> s < 2 ^ 32 \<Longrightarrow> tag s al < 2 ^ 32"
proof -
  assume "8 dvd s" "s < 2 ^ 32"
  then obtain k where "s = 8 * k" by auto
  with \<open>s < 2 ^ 32\<close> show ?thesis by (simp add: tag_def)
qed

lemma and_not_7: "(w :: 'a :: len word) AND NOT 7 = push_bit 3 (drop_bit 3 w)"
proof -
  have "w AND NOT (mask 3) = push_bit 3 (drop_bit 3 w)"
    by (rule bit_word_eqI) (auto simp: bit_simps)
  moreover have "(7 :: 'a word) = mask 3" by (simp add: mask_eq_exp_minus_1)
  ultimately show ?thesis by simp
qed

lemma tag_size:
  assumes "8 dvd s" "s < 2 ^ 32"
  shows "ucast ((of_nat (tag s al) :: 32 word) AND NOT 7) = (of_nat s :: 64 word)"
proof -
  obtain k where k: "s = 8 * k" using assms(1) by auto
  have t: "tag s al < 2 ^ 32" by (rule tag_bound [OF assms])
  have "tag s al div 8 = k" by (auto simp: tag_def k)
  moreover have u: "unat (of_nat (tag s al) :: 32 word) = tag s al" using t by (simp add: unat_of_nat)
  ultimately have "unat (drop_bit 3 (of_nat (tag s al) :: 32 word)) = k"
    by (simp add: drop_bit_eq_div unat_div)
  then have "unat (push_bit 3 (drop_bit 3 (of_nat (tag s al) :: 32 word))) = s"
    using assms(2) k by (subst unsigned_push_bit_eq) (simp add: take_bit_nat_eq_self push_bit_eq_mult)
  then show ?thesis using assms(2) unfolding and_not_7
    by (simp add: word_unat_eq_iff unat_of_nat unsigned_ucast_eq take_bit_nat_eq_self)
qed

lemma tag_alloc:
  assumes "8 dvd s"
  shows "(of_nat (tag s al) :: 32 word) AND 1 = (if al then 1 else 0)"
proof -
  obtain k where "s = 8 * k" using assms by auto
  then show ?thesis by (simp add: tag_def and_one_eq mod2_eq_if)
qed

lemma PACK_tag:
  assumes "8 dvd s" "s < 2 ^ 64" "unat w = s"
  shows "unat (PACK w 1) = tag s True" "unat (PACK w 0) = tag s False"
proof -
  obtain k where k: "s = 8 * k" using assms by auto
  have "w = of_nat s" using assms(3) by (metis of_nat_unat ucast_id)
  then have "even w" by (simp add: k)
  then have "w OR 1 = w + 1" by (simp add: or_one_eq)
  moreover have "unat (w + 1) = s + 1"
    using assms k by (simp add: unat_word_ariths)
  ultimately show "unat (PACK w 1) = tag s True" "unat (PACK w 0) = tag s False"
    using assms by (simp_all add: PACK_def tag_def)
qed

subsection \<open>Blocks\<close>

text \<open>
  A list of blocks with their sizes, and whether they are allocated, that lie one after the other from the
  payload address \<open>a\<close> of the first.
\<close>

type_synonym blocks = "(nat \<times> bool) list"

definition extent :: "blocks \<Rightarrow> nat" where
  "extent bs = sum_list (map fst bs)"

primrec tagged :: "(nat \<Rightarrow> 8 word) \<Rightarrow> addr \<Rightarrow> blocks \<Rightarrow> bool" where
  "tagged m a [] \<longleftrightarrow> True"
| "tagged m a (b # bs) \<longleftrightarrow> load m (a - 4) 4 = tag (fst b) (snd b) \<and> load m (a + fst b - 8) 4 = tag (fst b) (snd b) \<and>
     tagged m (a + fst b) bs"

text \<open>The payload addresses of the free blocks.\<close>

primrec frees :: "addr \<Rightarrow> blocks \<Rightarrow> addr list" where
  "frees a [] = []"
| "frees a (b # bs) = (if snd b then frees (a + fst b) bs else a # frees (a + fst b) bs)"

primrec used :: "addr \<Rightarrow> blocks \<Rightarrow> (addr \<times> nat) list" where
  "used a [] = []"
| "used a (b # bs) = (if snd b then (a, fst b) # used (a + fst b) bs else used (a + fst b) bs)"

text \<open>No two neighbouring blocks are both free.\<close>

fun coalesced :: "blocks \<Rightarrow> bool" where
  "coalesced (b # c # bs) \<longleftrightarrow> (snd b \<or> snd c) \<and> coalesced (c # bs)"
| "coalesced bs \<longleftrightarrow> True"

definition fine :: "blocks \<Rightarrow> bool" where
  "fine bs \<longleftrightarrow> (\<forall>b\<in>set bs. 8 dvd fst b \<and> 8 \<le> fst b \<and> (\<not> snd b \<longrightarrow> 24 \<le> fst b))"

lemma total_simps [simp]: "extent [] = 0" "extent (b # bs) = fst b + extent bs" "extent (bs @ cs) = extent bs + extent cs"
  by (simp_all add: extent_def)

lemma fine_simps [simp]: "fine []" "fine (b # bs) \<longleftrightarrow> 8 dvd fst b \<and> 8 \<le> fst b \<and> (\<not> snd b \<longrightarrow> 24 \<le> fst b) \<and> fine bs"
  "fine (bs @ cs) \<longleftrightarrow> fine bs \<and> fine cs"
  by (auto simp: fine_def)

lemma tagged_append [simp]: "tagged m a (bs @ cs) \<longleftrightarrow> tagged m a bs \<and> tagged m (a + extent bs) cs"
  by (induction bs arbitrary: a) (auto simp: add.assoc)

lemma frees_append [simp]: "frees a (bs @ cs) = frees a bs @ frees (a + extent bs) cs"
  by (induction bs arbitrary: a) (auto simp: add.assoc)

lemma used_append [simp]: "used a (bs @ cs) = used a bs @ used (a + extent bs) cs"
  by (induction bs arbitrary: a) (auto simp: add.assoc)

lemma coalesced_append:
  "coalesced (bs @ cs) \<longleftrightarrow> coalesced bs \<and> coalesced cs \<and> (bs = [] \<or> cs = [] \<or> snd (List.last bs) \<or> snd (List.hd cs))"
  by (induction bs rule: coalesced.induct) (cases cs; auto)+

lemma tagged_cong:
  assumes "\<And>q. a - 4 \<le> q \<Longrightarrow> q < a + extent bs - 4 \<Longrightarrow> m q = m' q" and "fine bs" and "4 \<le> a"
  shows "tagged m a bs \<longleftrightarrow> tagged m' a bs"
  using assms
proof (induction bs arbitrary: a)
  case (Cons b bs)
  have "8 \<le> fst b" using Cons.prems by simp
  have "load m (a - 4) 4 = load m' (a - 4) 4" "load m (a + fst b - 8) 4 = load m' (a + fst b - 8) 4"
    by (rule load_cong, rule Cons.prems(1); use \<open>8 \<le> fst b\<close> Cons.prems(3) in simp)+
  moreover have "tagged m (a + fst b) bs \<longleftrightarrow> tagged m' (a + fst b) bs"
    by (rule Cons.IH) (use Cons.prems in \<open>auto simp: add.assoc\<close>)
  ultimately show ?case by simp
qed simp

text \<open>Stores outside the tags.\<close>

lemma tagged_payload:
  assumes t: "tagged m a (xs @ (s, al) # ys)" and f: "fine (xs @ (s, al) # ys)" and a: "4 \<le> a"
    and o: "\<And>q. q < a + extent xs \<or> a + extent xs + s - 8 \<le> q \<Longrightarrow> m' q = m q"
  shows "tagged m' a (xs @ (s, al) # ys)"
proof -
  let ?p = "a + extent xs"
  have s: "8 \<le> s" using f by simp
  have "tagged m' a xs \<longleftrightarrow> tagged m a xs" by (rule tagged_cong, rule o) (use f a in auto)
  moreover have "load m' (?p - 4) 4 = load m (?p - 4) 4" "load m' (?p + s - 8) 4 = load m (?p + s - 8) 4"
    by (rule load_cong; rule o; use s a in auto)+
  moreover have "tagged m' (?p + s) ys \<longleftrightarrow> tagged m (?p + s) ys" by (rule tagged_cong, rule o) (use f a s in auto)
  ultimately show ?thesis using t by simp
qed

text \<open>The blocks of \<open>mid\<close> become one block.\<close>

lemma tagged_merge:
  assumes t: "tagged m a (xs @ mid @ ys)" and f: "fine (xs @ mid @ ys)" and a: "4 \<le> a" and s: "s = extent mid" "8 \<le> s"
    and m': "load m' (a + extent xs - 4) 4 = tag s al" "load m' (a + extent xs + s - 8) 4 = tag s al"
    and o: "\<And>q. q < a + extent xs - 4 \<or> a + extent xs + s - 4 \<le> q \<Longrightarrow> m' q = m q"
  shows "tagged m' a (xs @ (s, al) # ys)"
proof -
  have "tagged m' a xs \<longleftrightarrow> tagged m a xs" by (rule tagged_cong, rule o) (use f a in auto)
  moreover have "tagged m' (a + extent xs + s) ys \<longleftrightarrow> tagged m (a + extent xs + s) ys" by (rule tagged_cong, rule o) (use f a s in auto)
  ultimately show ?thesis using t s m' by (simp add: add.assoc)
qed

lemma tagged_split:
  assumes t: "tagged m a (xs @ mid @ ys)" and f: "fine (xs @ mid @ ys)" and a: "4 \<le> a" and s: "s + r = extent mid" "8 \<le> s" "8 \<le> r"
    and m': "load m' (a + extent xs - 4) 4 = tag s al" "load m' (a + extent xs + s - 8) 4 = tag s al"
      "load m' (a + extent xs + s - 4) 4 = tag r al'" "load m' (a + extent xs + s + r - 8) 4 = tag r al'"
    and o: "\<And>q. q < a + extent xs - 4 \<or> a + extent xs + s + r - 4 \<le> q \<Longrightarrow> m' q = m q"
  shows "tagged m' a (xs @ (s, al) # (r, al') # ys)"
proof -
  have "tagged m' a xs \<longleftrightarrow> tagged m a xs" by (rule tagged_cong, rule o) (use f a in auto)
  moreover have "tagged m' (a + extent xs + s + r) ys \<longleftrightarrow> tagged m (a + extent xs + s + r) ys"
    by (rule tagged_cong, rule o) (use f a s in auto)
  ultimately show ?thesis using t m' s(1) [symmetric] by (simp add: add.assoc)
qed

lemma frees_range: "p \<in> set (frees a bs) \<Longrightarrow> fine bs \<Longrightarrow> a \<le> p \<and> p + 24 \<le> a + extent bs"
  by (induction bs arbitrary: a) (fastforce split: if_splits)+

lemma frees_split: "p \<in> set (frees a bs) \<Longrightarrow> \<exists>xs s ys. bs = xs @ (s, False) # ys \<and> p = a + extent xs"
proof (induction bs arbitrary: a)
  case (Cons b bs)
  show ?case
  proof (cases "\<not> snd b \<and> p = a")
    case True
    then have "b # bs = [] @ (fst b, False) # bs" by (cases b) simp
    with True show ?thesis by (metis add_0_right total_simps(1))
  next
    case False
    then have "p \<in> set (frees (a + fst b) bs)" using Cons.prems by (auto split: if_splits)
    from Cons.IH [OF this] obtain xs s ys where "bs = xs @ (s, False) # ys" "p = a + fst b + extent xs" by blast
    then have "b # bs = (b # xs) @ (s, False) # ys" "p = a + extent (b # xs)" by simp_all
    then show ?thesis by blast
  qed
qed simp

lemma used_split: "(p, s) \<in> set (used a bs) \<Longrightarrow> \<exists>xs ys. bs = xs @ (s, True) # ys \<and> p = a + extent xs"
proof (induction bs arbitrary: a)
  case (Cons b bs)
  show ?case
  proof (cases "snd b \<and> (p, s) = (a, fst b)")
    case True
    then have "b # bs = [] @ (s, True) # bs" by (cases b) simp
    with True show ?thesis by (metis add_0_right fst_conv total_simps(1))
  next
    case False
    then have "(p, s) \<in> set (used (a + fst b) bs)" using Cons.prems by (auto split: if_splits)
    from Cons.IH [OF this] obtain xs ys where "bs = xs @ (s, True) # ys" "p = a + fst b + extent xs" by blast
    then have "b # bs = (b # xs) @ (s, True) # ys" "p = a + extent (b # xs)" by simp_all
    then show ?thesis by blast
  qed
qed simp

lemma used_range: "(p, s) \<in> set (used a bs) \<Longrightarrow> a \<le> p \<and> p + s \<le> a + extent bs"
  by (induction bs arbitrary: a) (fastforce split: if_splits)+

lemma frees_distinct: "fine bs \<Longrightarrow> distinct (frees a bs)"
proof (induction bs arbitrary: a)
  case (Cons b bs)
  then show ?case using frees_range [of a "a + fst b" bs] by fastforce
qed simp

lemma frees_apart: "p \<in> set (frees a bs) \<Longrightarrow> q \<in> set (frees a bs) \<Longrightarrow> fine bs \<Longrightarrow> p \<noteq> q \<Longrightarrow> p + 24 \<le> q \<or> q + 24 \<le> p"
proof (induction bs arbitrary: a)
  case (Cons b bs)
  then show ?case using frees_range [of p "a + fst b" bs] frees_range [of q "a + fst b" bs]
    by (fastforce split: if_splits)
qed simp

subsection \<open>The free list\<close>

primrec chain :: "(nat \<Rightarrow> 8 word) \<Rightarrow> addr \<Rightarrow> addr list \<Rightarrow> addr \<Rightarrow> addr \<Rightarrow> bool" where
  "chain m prev [] f nx \<longleftrightarrow> f = nx"
| "chain m prev (x # xs) f nx \<longleftrightarrow> f = x \<and> x \<noteq> NULL \<and> load m (x + 8) 8 = prev \<and> chain m x xs (load m x 8) nx"

definition front :: "addr list \<Rightarrow> addr \<Rightarrow> addr" where
  "front xs nx = (case xs of [] \<Rightarrow> nx | x # _ \<Rightarrow> x)"

primrec rear :: "addr \<Rightarrow> addr list \<Rightarrow> addr" where
  "rear prev [] = prev"
| "rear prev (x # xs) = rear x xs"

lemma front_simps [simp]: "front [] nx = nx" "front (x # xs) nx = x"
  by (simp_all add: front_def)

lemma rear_snoc [simp]: "rear prev (xs @ [x]) = x"
  by (induction xs arbitrary: prev) auto

lemma chain_append: "chain m prev (xs @ ys) f nx \<longleftrightarrow> chain m prev xs f (front ys nx) \<and> chain m (rear prev xs) ys (front ys nx) nx"
proof (induction xs arbitrary: prev f)
  case Nil
  show ?case by (cases ys) auto
qed auto

lemma chain_cong:
  assumes "\<And>x q. x \<in> set xs \<Longrightarrow> x \<le> q \<Longrightarrow> q < x + 16 \<Longrightarrow> m' q = m q"
  shows "chain m' prev xs f nx \<longleftrightarrow> chain m prev xs f nx"
  using assms
proof (induction xs arbitrary: prev f)
  case (Cons x xs)
  have "load m' (x + 8) 8 = load m (x + 8) 8" "load m' x 8 = load m x 8"
    by (rule load_cong, rule Cons.prems [of x]; simp)+
  moreover have "chain m' x xs (load m x 8) nx \<longleftrightarrow> chain m x xs (load m x 8) nx"
    by (rule Cons.IH) (use Cons.prems in auto)
  ultimately show ?case by simp
qed simp

lemma chain_nonnull: "chain m prev xs f nx \<Longrightarrow> x \<in> set xs \<Longrightarrow> x \<noteq> NULL"
  by (induction xs arbitrary: prev f) auto

definition apart :: "addr list \<Rightarrow> bool" where
  "apart xs \<longleftrightarrow> distinct xs \<and> (\<forall>x\<in>set xs. x < 2 ^ 64 \<and> (\<forall>y\<in>set xs. x \<noteq> y \<longrightarrow> x + 16 \<le> y \<or> y + 16 \<le> x))"

text \<open>Redirecting the pointer behind a segment and the back pointer of a segment.\<close>

lemma chain_put_next:
  assumes c: "chain m prev (xs @ [u]) f nx" and a: "apart (xs @ [u])" and n: "nx' < 2 ^ 64"
  shows "chain (store m u 8 nx') prev (xs @ [u]) f nx'"
proof -
  let ?m = "store m u 8 nx'"
  have "chain ?m prev xs f u \<longleftrightarrow> chain m prev xs f u"
    by (rule chain_cong, rule store_other) (use a in \<open>fastforce simp: apart_def\<close>)
  moreover have "load ?m u 8 = nx'" by (rule load_store) (use n in simp)
  moreover have "load ?m (u + 8) 8 = load m (u + 8) 8" by (rule load_store_other) simp
  ultimately show ?thesis using c by (simp add: chain_append)
qed

lemma chain_put_prev:
  assumes c: "chain m prev (y # ys) f nx" and a: "apart (y # ys)" and n: "prev' < 2 ^ 64"
  shows "chain (store m (y + 8) 8 prev') prev' (y # ys) f nx"
proof -
  let ?m = "store m (y + 8) 8 prev'"
  have "chain ?m y ys (load m y 8) nx \<longleftrightarrow> chain m y ys (load m y 8) nx"
    by (rule chain_cong, rule store_other) (use a in \<open>fastforce simp: apart_def\<close>)
  moreover have "load ?m (y + 8) 8 = prev'" by (rule load_store) (use n in simp)
  moreover have "load ?m y 8 = load m y 8" by (rule load_store_other) simp
  ultimately show ?thesis using c by simp
qed

lemma chain_store_other:
  assumes "chain m prev xs f nx" and "\<And>x. x \<in> set xs \<Longrightarrow> x + 16 \<le> p \<or> p + n \<le> x"
  shows "chain (store m p n v) prev xs f nx"
  using assms(1) by (subst chain_cong [where m = m]) (use assms(2) in \<open>fastforce intro: store_other\<close>)+

lemma apart_append:
  assumes "apart (xs @ ys)"
  shows "apart xs" "apart ys" "x \<in> set xs \<Longrightarrow> y \<in> set ys \<Longrightarrow> x + 16 \<le> y \<or> y + 16 \<le> x"
proof -
  show "apart xs" "apart ys" using assms by (simp_all add: apart_def)
  assume xy: "x \<in> set xs" "y \<in> set ys"
  then have "x \<noteq> y" using assms by (auto simp: apart_def)
  then show "x + 16 \<le> y \<or> y + 16 \<le> x" using assms xy by (simp add: apart_def)
qed

text \<open>What \<open>remove_from_free_list\<close> does to the links.\<close>

definition unlinked :: "(nat \<Rightarrow> 8 word) \<Rightarrow> addr \<Rightarrow> addr \<Rightarrow> nat \<Rightarrow> 8 word" where
  "unlinked m prev nx = (let m = (if prev = NULL then m else store m prev 8 nx) in
     if nx = NULL then m else store m (nx + 8) 8 prev)"

lemma chain_unlinked:
  assumes c: "chain m NULL (xs @ p # ys) f NULL" and a: "apart (xs @ p # ys)"
  shows "chain (unlinked m (rear NULL xs) (front ys NULL)) NULL (xs @ ys) (if xs = [] then front ys NULL else f) NULL"
proof -
  let ?u = "rear NULL xs" and ?n = "front ys NULL"
  have cx: "chain m NULL xs f p" and cp: "p \<noteq> NULL" "load m (p + 8) 8 = ?u" "chain m p ys ?n NULL"
    using c by (auto simp: chain_append) (cases ys; auto)+
  have ax: "apart xs" "apart ys" and xy: "\<And>x y. x \<in> set xs \<Longrightarrow> y \<in> set ys \<Longrightarrow> x + 16 \<le> y \<or> y + 16 \<le> x"
    using apart_append [OF a] by (simp_all add: apart_def)
  define m1 where "m1 = (if ?u = NULL then m else store m ?u 8 ?n)"
  have un_eq: "unlinked m ?u ?n = (if ?n = NULL then m1 else store m1 (?n + 8) 8 ?u)"
    by (simp add: unlinked_def m1_def Let_def)
  have nn: "?n < 2 ^ 64" using ax(2) by (cases ys) (auto simp: apart_def)
  have un: "?u < 2 ^ 64" using ax(1) by (cases xs rule: rev_cases) (auto simp: apart_def)
  have c1: "chain m1 NULL xs (if xs = [] then ?n else f) ?n \<and> chain m1 p ys ?n NULL"
  proof (cases xs rule: rev_cases)
    case Nil
    then show ?thesis using cp by (simp add: m1_def)
  next
    case (snoc us u)
    then have "u \<noteq> NULL" using chain_nonnull [OF cx, of u] by simp
    moreover have "chain (store m u 8 ?n) NULL xs f ?n"
      using chain_put_next [OF cx [unfolded snoc] _ nn] ax(1) snoc by simp
    moreover have "chain (store m u 8 ?n) p ys ?n NULL"
      by (rule chain_store_other [OF cp(3)]) (use xy snoc in force)
    ultimately show ?thesis using snoc by (simp add: m1_def)
  qed
  show ?thesis
  proof (cases ys)
    case Nil
    then show ?thesis using c1 un_eq by auto
  next
    case (Cons y ys')
    then have "y \<noteq> NULL" using c1 by simp
    have "chain (store m1 (y + 8) 8 ?u) ?u ys y NULL"
      using chain_put_prev [of m1 p y ys' y NULL ?u] c1 ax(2) un Cons by simp
    moreover have "chain (store m1 (y + 8) 8 ?u) NULL xs (if xs = [] then y else f) y"
    proof (rule chain_store_other)
      show "chain m1 NULL xs (if xs = [] then y else f) y" using c1 Cons by (simp split: if_splits)
      fix x assume "x \<in> set xs"
      with xy [of x y] Cons show "x + 16 \<le> y + 8 \<or> y + 8 + 8 \<le> x" by auto
    qed
    ultimately show ?thesis using Cons \<open>y \<noteq> NULL\<close> un_eq by (simp add: chain_append split: if_splits)
  qed
qed

lemma chain_pushed:
  assumes c: "chain m NULL xs f NULL" and a: "apart (p # xs)" and p: "p \<noteq> NULL"
  shows "chain (let m = store (store m p 8 f) (p + 8) 8 NULL in if f = NULL then m else store m (f + 8) 8 p) NULL (p # xs) p NULL"
proof -
  let ?m1 = "store (store m p 8 f) (p + 8) 8 NULL"
  have f: "f = front xs NULL" using c by (cases xs) auto
  have fn: "f < 2 ^ 64" using f a by (cases xs) (auto simp: apart_def)
  have o: "\<And>x. x \<in> set xs \<Longrightarrow> x + 16 \<le> p \<or> p + 16 \<le> x" using a by (auto simp: apart_def)
  have c1: "chain ?m1 NULL xs f NULL"
    by (intro chain_store_other c) (use o in fastforce)+
  have l: "load ?m1 p 8 = f" "load ?m1 (p + 8) 8 = 0"
    using fn load_store [of f 8 m p] load_store [of 0 8 "store m p 8 f" "p + 8"] by (simp_all add: load_store_other)
  show ?thesis
  proof (cases xs)
    case Nil
    then show ?thesis using f l p by simp
  next
    case (Cons y ys)
    then have y: "f = y" "y \<noteq> NULL" using c by simp_all
    have "p + 16 \<le> y \<or> y + 16 \<le> p" using o [of y] Cons by auto
    then have "load (store ?m1 (y + 8) 8 p) p 8 = y" "load (store ?m1 (y + 8) 8 p) (p + 8) 8 = 0"
      using l y by (auto simp: load_store_other)
    moreover have "chain (store ?m1 (y + 8) 8 p) p xs y NULL"
      using chain_put_prev [of ?m1 NULL y ys y NULL p] c1 a y Cons by (simp add: apart_def)
    ultimately show ?thesis using y p by simp
  qed
qed

subsection \<open>The heap\<close>

text \<open>
  The heap between its two ends: the prologue block, whose payload address is 8 bytes behind the start of the
  heap, is the first block of the list and is allocated; the epilogue header is in the last four bytes.
\<close>

definition base :: "mheap \<Rightarrow> addr" where
  "base h = mem_start_brk h + 8"

definition area :: "mheap \<Rightarrow> bool" where
  "area h \<longleftrightarrow> 0 < mem_start_brk h \<and> 8 dvd mem_start_brk h \<and> mem_max_addr h = mem_start_brk h + MAX_HEAP \<and>
     mem_max_addr h < 2 ^ 64 \<and> mem_brk h \<le> mem_max_addr h"

definition shaped :: "mheap \<Rightarrow> blocks \<Rightarrow> bool" where
  "shaped h bs \<longleftrightarrow> area h \<and> mem_brk h = base h + extent bs \<and> heap_listp h = base h \<and>
     (\<exists>cs. bs = (8, True) # cs) \<and> fine bs \<and> tagged (bytes h) (base h) bs \<and> load (bytes h) (mem_brk h - 4) 4 = tag 0 True"

lemma shapedD:
  assumes "shaped h bs"
  shows "area h" "fine bs" "tagged (bytes h) (base h) bs" "load (bytes h) (mem_brk h - 4) 4 = tag 0 True"
    "\<exists>cs. bs = (8, True) # cs" "mem_brk h = base h + extent bs" "heap_listp h = base h"
  using assms unfolding shaped_def by blast+

definition listed :: "mheap \<Rightarrow> blocks \<Rightarrow> addr list \<Rightarrow> bool" where
  "listed h bs fl \<longleftrightarrow> chain (bytes h) NULL fl (free_listp h) NULL \<and> distinct fl \<and> set fl \<subseteq> set (frees (base h) bs)"

text \<open>The contents of allocated blocks.\<close>

definition keeps :: "(addr \<times> nat) set \<Rightarrow> (nat \<Rightarrow> 8 word) \<Rightarrow> (nat \<Rightarrow> 8 word) \<Rightarrow> bool" where
  "keeps A m m' \<longleftrightarrow> (\<forall>(p, s)\<in>A. \<forall>q. p \<le> q \<and> q < p + s - 8 \<longrightarrow> m' q = m q)"

text \<open>An operation leaves everything of the heap alone but its bytes and the head of the free list.\<close>

definition same :: "mheap \<Rightarrow> mheap \<Rightarrow> bool" where
  "same h h' \<longleftrightarrow> mem_start_brk h' = mem_start_brk h \<and> mem_brk h' = mem_brk h \<and> mem_max_addr h' = mem_max_addr h \<and>
     heap_listp h' = heap_listp h"

lemma same_refl [simp]: "same h h"
  by (simp add: same_def)

lemma same_trans: "same h h' \<Longrightarrow> same h' h'' \<Longrightarrow> same h h''"
  by (simp add: same_def)

lemma same_base: "same h h' \<Longrightarrow> base h' = base h"
  by (simp add: same_def base_def)

lemma keeps_refl [simp]: "keeps A m m"
  by (simp add: keeps_def)

lemma keeps_trans: "keeps A m m' \<Longrightarrow> keeps A m' m'' \<Longrightarrow> keeps A m m''"
  unfolding keeps_def by fastforce

lemma keeps_mono: "keeps B m m' \<Longrightarrow> A \<subseteq> B \<Longrightarrow> keeps A m m'"
  unfolding keeps_def by blast

lemma shaped_limits:
  assumes "shaped h bs" and "bs = xs @ ys"
  shows "base h + extent xs + extent ys = mem_brk h" "base h + extent xs + extent ys < 2 ^ 64" "extent bs < 2 ^ 25"
    "mem_start_brk h + 8 = base h" "8 dvd base h"
proof -
  have a: "area h" "mem_brk h = base h + extent bs" using assms(1) by (simp_all add: shaped_def)
  show "base h + extent xs + extent ys = mem_brk h" using a assms(2) by (simp add: add.assoc)
  then show "base h + extent xs + extent ys < 2 ^ 64" using a(1) by (simp add: area_def)
  show "extent bs < 2 ^ 25" using a by (simp add: area_def base_def MAX_HEAP_def)
  show "mem_start_brk h + 8 = base h" "8 dvd base h" using a(1) by (simp_all add: base_def area_def)
qed

lemma fine_dvd: "fine bs \<Longrightarrow> 8 dvd extent bs"
  by (induction bs) auto

text \<open>The free blocks are far enough from each other for the links.\<close>

lemma listed_apart:
  assumes h: "shaped h bs" and l: "set fl \<subseteq> set (frees (base h) bs)" "distinct fl"
  shows "apart fl"
proof -
  have f: "fine bs" using h by (simp add: shaped_def)
  have "x < 2 ^ 64 \<and> (x \<noteq> y \<longrightarrow> x + 16 \<le> y \<or> y + 16 \<le> x)" if "x \<in> set fl" "y \<in> set fl" for x y
  proof
    have xy: "x \<in> set (frees (base h) bs)" "y \<in> set (frees (base h) bs)" using that l by auto
    show "x < 2 ^ 64"
      using frees_range [OF xy(1) f] shaped_limits(2) [OF h, of "[]" bs] by simp
    show "x \<noteq> y \<longrightarrow> x + 16 \<le> y \<or> y + 16 \<le> x"
      using frees_apart [OF xy f] by auto
  qed
  then show ?thesis using l by (auto simp: apart_def)
qed

lemma shaped_bytes:
  assumes h: "shaped h bs" and t: "tagged m (base h) cs" "fine cs" "extent cs = extent bs" "\<exists>ds. cs = (8, True) # ds"
    and e: "load m (mem_brk h - 4) 4 = tag 0 True"
  shows "shaped (h\<lparr>bytes := m\<rparr>) cs"
proof -
  have b: "base (h\<lparr>bytes := m\<rparr>) = base h" "area (h\<lparr>bytes := m\<rparr>) = area h" by (simp_all add: base_def area_def)
  show ?thesis using h t e unfolding shaped_def b by simp
qed

text \<open>A store into the payload of a free block.\<close>

lemma store_free:
  assumes h: "shaped h bs" and p: "p \<in> set (frees (base h) bs)" and q: "p \<le> q" "q + n \<le> p + 16"
  shows "shaped (h\<lparr>bytes := store (bytes h) q n v\<rparr>) bs \<and> keeps (set (used (base h) bs)) (bytes h) (store (bytes h) q n v) \<and>
    in_heap h q n"
proof -
  obtain xs s ys where bs: "bs = xs @ (s, False) # ys" and px: "p = base h + extent xs"
    using frees_split [OF p] by blast
  have f: "fine bs" and t: "tagged (bytes h) (base h) bs" using h by (simp_all add: shaped_def)
  have s: "24 \<le> s" using f bs by simp
  have b: "base h = mem_start_brk h + 8" "mem_brk h = p + s + extent ys"
    using h bs px by (simp_all add: base_def shaped_def)
  let ?m = "store (bytes h) q n v"
  have o: "x < base h + extent xs \<or> base h + extent xs + s - 8 \<le> x \<Longrightarrow> ?m x = bytes h x" for x
    by (rule store_other) (use q s px in linarith)
  have "tagged ?m (base h) bs"
    using tagged_payload [OF t [unfolded bs] f [unfolded bs] _ o] b(1) bs by simp
  moreover have "load ?m (mem_brk h - 4) 4 = load (bytes h) (mem_brk h - 4) 4"
    by (rule load_store_other) (use q s b in linarith)
  ultimately have "shaped (h\<lparr>bytes := ?m\<rparr>) bs" using h by (intro shaped_bytes) (auto simp: shaped_def)
  moreover have "keeps (set (used (base h) bs)) (bytes h) ?m"
  proof -
    have "?m x = bytes h x" if u: "(r, e) \<in> set (used (base h) bs)" and x: "r \<le> x" "x < r + e - 8" for r e x
    proof -
      have "(r, e) \<in> set (used (base h) xs) \<or> (r, e) \<in> set (used (p + s) ys)"
        using u bs px by auto
      then have "r + e \<le> p \<or> p + s \<le> r" using used_range px by blast
      then show ?thesis by (intro store_other) (use x q s in linarith)
    qed
    then show ?thesis unfolding keeps_def by blast
  qed
  moreover have "in_heap h q n" using q s b px by (simp add: in_heap_def)
  ultimately show ?thesis by simp
qed

subsection \<open>Reading the tags\<close>

definition next_tag :: "blocks \<Rightarrow> nat \<times> bool" where
  "next_tag ys = (case ys of [] \<Rightarrow> (0, True) | b # _ \<Rightarrow> b)"

lemma next_tag_simps [simp]: "next_tag [] = (0, True)" "next_tag (b # bs) = b"
  by (simp_all add: next_tag_def)

lemma GET_tag:
  assumes "in_heap h p 4" "load (bytes h) p 4 = tag s al" "8 dvd s" "s < 2 ^ 32"
  shows "GET_SIZE h p = Some (of_nat s)" "GET_ALLOC h p = Some (if al then 1 else 0)"
  using assms(1,2) tag_size [OF assms(3,4)] tag_alloc [OF assms(3)] by (simp_all add: GET_SIZE_def GET_ALLOC_def GET_def)

lemma extent_mono: "b \<in> set bs \<Longrightarrow> fst b \<le> extent bs"
  by (induction bs) auto

lemma shaped_block_size:
  assumes h: "shaped h bs" and b: "(s, al) \<in> set bs"
  shows "8 dvd s" "s < 2 ^ 25" "8 \<le> s" "\<not> al \<Longrightarrow> 24 \<le> s" "unat (of_nat s :: 64 word) = s"
proof -
  have f: "fine bs" using h by (simp add: shaped_def)
  show "8 dvd s" "8 \<le> s" "\<not> al \<Longrightarrow> 24 \<le> s" using f b by (auto simp: fine_def)
  show lt: "s < 2 ^ 25" using extent_mono [OF b] shaped_limits(3) [OF h, of "[]" bs] by simp
  then show "unat (of_nat s :: 64 word) = s" by (simp add: unat_of_nat)
qed

text \<open>The header that follows a number of blocks; behind the last block it is the epilogue.\<close>

lemma next_header:
  assumes h: "shaped h (xs @ ys)" and p: "p = base h + extent xs"
  shows "GET_SIZE h (HDRP p) = Some (of_nat (fst (next_tag ys)))"
    "GET_ALLOC h (HDRP p) = Some (if snd (next_tag ys) then 1 else 0)"
    "NEXT_BLKP h p = Some (p + fst (next_tag ys))"
    "FTRP h p = Some (p + fst (next_tag ys) - 8)"
proof -
  have d: "8 dvd fst (next_tag ys)" "fst (next_tag ys) < 2 ^ 25"
    using shaped_block_size [OF h, of "fst (next_tag ys)" "snd (next_tag ys)"] by (cases ys; simp)+
  have l: "load (bytes h) (p - 4) 4 = tag (fst (next_tag ys)) (snd (next_tag ys))"
    using h p by (cases ys) (auto simp: shaped_def)
  have i: "in_heap h (p - 4) 4"
    using shaped_limits(1,4) [OF h refl] p by (simp add: in_heap_def)
  show g: "GET_SIZE h (HDRP p) = Some (of_nat (fst (next_tag ys)))"
      "GET_ALLOC h (HDRP p) = Some (if snd (next_tag ys) then 1 else 0)"
    using GET_tag [OF i l d(1)] d(2) by (simp_all add: HDRP_def WSIZE_def)
  show "NEXT_BLKP h p = Some (p + fst (next_tag ys))" "FTRP h p = Some (p + fst (next_tag ys) - 8)"
    using g(1) d(2) by (simp_all add: NEXT_BLKP_def FTRP_def HDRP_def DSIZE_def unat_of_nat)
qed

lemma block_footer:
  assumes h: "shaped h (xs @ (s, al) # ys)" and p: "p = base h + extent xs"
  shows "GET_SIZE h (p + s - 8) = Some (of_nat s)" "GET_ALLOC h (p + s - 8) = Some (if al then 1 else 0)"
    "PREV_BLKP h (p + s) = Some p"
proof -
  note b = shaped_block_size [OF h, of s al]
  have l: "load (bytes h) (p + s - 8) 4 = tag s al" using h p by (simp add: shaped_def)
  have i: "in_heap h (p + s - 8) 4"
    using shaped_limits(1,4) [OF h refl] p b(3) by (simp add: in_heap_def) linarith
  show g: "GET_SIZE h (p + s - 8) = Some (of_nat s)" "GET_ALLOC h (p + s - 8) = Some (if al then 1 else 0)"
    using GET_tag [OF i l] b by simp_all
  then show "PREV_BLKP h (p + s) = Some p" using b by (simp add: PREV_BLKP_def DSIZE_def)
qed

subsection \<open>The free list of the heap\<close>

text \<open>An operation that changes links only.\<close>

definition relinks :: "mheap \<Rightarrow> mheap \<Rightarrow> blocks \<Rightarrow> bool" where
  "relinks h h' bs \<longleftrightarrow> same h h' \<and> shaped h' bs \<and> keeps (set (used (base h) bs)) (bytes h) (bytes h')"

lemma relinks_trans: "relinks h h' bs \<Longrightarrow> relinks h' h'' bs \<Longrightarrow> relinks h h'' bs"
  unfolding relinks_def using same_trans keeps_trans by (metis same_base)

lemma shaped_listp [simp]: "shaped (h\<lparr>free_listp := p\<rparr>) bs \<longleftrightarrow> shaped h bs"
proof -
  have "base (h\<lparr>free_listp := p\<rparr>) = base h" "area (h\<lparr>free_listp := p\<rparr>) = area h" by (simp_all add: base_def area_def)
  then show ?thesis unfolding shaped_def by simp
qed

lemma relinks_listp: "relinks h h' bs \<Longrightarrow> relinks h (h'\<lparr>free_listp := p\<rparr>) bs"
  by (simp add: relinks_def same_def)

lemma put_NEXT_FREE_ok:
  assumes "shaped h bs" "p \<in> set (frees (base h) bs)"
  shows "put_NEXT_FREE h p q = Some (h\<lparr>bytes := store (bytes h) p 8 q\<rparr>)" "relinks h (h\<lparr>bytes := store (bytes h) p 8 q\<rparr>) bs"
  using store_free [OF assms, of p 8 q] by (simp_all add: put_NEXT_FREE_def relinks_def same_def)

lemma put_PREV_FREE_ok:
  assumes "shaped h bs" "p \<in> set (frees (base h) bs)"
  shows "put_PREV_FREE h p q = Some (h\<lparr>bytes := store (bytes h) (p + 8) 8 q\<rparr>)"
    "relinks h (h\<lparr>bytes := store (bytes h) (p + 8) 8 q\<rparr>) bs"
  using store_free [OF assms, of "p + 8" 8 q] by (simp_all add: put_PREV_FREE_def relinks_def same_def DSIZE_def)

lemma get_links:
  assumes "shaped h bs" "p \<in> set (frees (base h) bs)"
  shows "NEXT_FREE h p = Some (load (bytes h) p 8)" "PREV_FREE h p = Some (load (bytes h) (p + 8) 8)"
  using store_free [OF assms, of p 8] store_free [OF assms, of "p + 8" 8]
  by (simp_all add: NEXT_FREE_def PREV_FREE_def DSIZE_def)

lemma listed_links:
  assumes l: "listed h bs (xs @ p # ys)"
  shows "load (bytes h) p 8 = front ys NULL" "load (bytes h) (p + 8) 8 = rear NULL xs" "p \<noteq> NULL"
    "p \<in> set (frees (base h) bs)" "xs = [] \<Longrightarrow> free_listp h = p"
proof -
  have c: "chain (bytes h) NULL (xs @ p # ys) (free_listp h) NULL" using l by (simp add: listed_def)
  then show "load (bytes h) p 8 = front ys NULL" by (cases ys) (auto simp: chain_append)
  show "load (bytes h) (p + 8) 8 = rear NULL xs" "p \<noteq> NULL" "xs = [] \<Longrightarrow> free_listp h = p"
    using c by (auto simp: chain_append)
  show "p \<in> set (frees (base h) bs)" using l by (simp add: listed_def)
qed

lemma rear_in: "xs \<noteq> [] \<Longrightarrow> rear prev xs \<in> set xs"
  by (induction xs arbitrary: prev) (auto, metis rear.simps(1))

lemma remove_ok:
  assumes h: "shaped h bs" and l: "listed h bs (xs @ p # ys)"
  shows "\<exists>h'. remove_from_free_list h p = Some h' \<and> relinks h h' bs \<and> listed h' bs (xs @ ys)"
proof -
  let ?u = "rear NULL xs" and ?n = "front ys NULL"
  note k = listed_links [OF l]
  have sub: "set xs \<subseteq> set (frees (base h) bs)" "set ys \<subseteq> set (frees (base h) bs)" using l by (auto simp: listed_def)
  have c: "chain (bytes h) NULL (xs @ p # ys) (free_listp h) NULL" using l by (simp add: listed_def)
  have ap: "apart (xs @ p # ys)" using listed_apart [OF h] l by (simp add: listed_def)
  have u0: "?u = NULL \<longleftrightarrow> xs = []"
    using rear_in [of xs NULL] chain_nonnull [OF c, of ?u] by (cases xs) auto
  define h1 where "h1 = (if ?u = NULL then h\<lparr>free_listp := ?n\<rparr> else h\<lparr>bytes := store (bytes h) ?u 8 ?n\<rparr>)"
  have h1: "relinks h h1 bs"
  proof (cases "?u = NULL")
    case True
    have "relinks h h bs" using h by (simp add: relinks_def)
    from relinks_listp [OF this] True show ?thesis by (simp add: h1_def)
  next
    case False
    then have "?u \<in> set (frees (base h) bs)" using rear_in [of xs NULL] u0 sub by auto
    from put_NEXT_FREE_ok(2) [OF h this] False show ?thesis by (simp add: h1_def)
  qed
  have e1: "(if ?u = NULL then Some (h\<lparr>free_listp := ?n\<rparr>) else put_NEXT_FREE h ?u ?n) = Some h1"
  proof (cases "?u = NULL")
    case False
    then have "?u \<in> set (frees (base h) bs)" using rear_in [of xs NULL] u0 sub by auto
    from put_NEXT_FREE_ok(1) [OF h this] False show ?thesis by (simp add: h1_def)
  qed (simp add: h1_def)
  have s1: "shaped h1 bs" and b1: "base h1 = base h" using h1 by (auto simp: relinks_def same_base)
  have up: "?u \<noteq> NULL \<Longrightarrow> ?u + 16 \<le> p \<or> p + 16 \<le> ?u"
    using apart_append(3) [OF ap, of ?u p] rear_in [of xs NULL] u0 by simp
  have "load (bytes h1) p 8 = load (bytes h) p 8" "load (bytes h1) (p + 8) 8 = load (bytes h) (p + 8) 8"
    using up by (auto simp: h1_def load_store_other)
  then have r1: "NEXT_FREE h1 p = Some ?n" "PREV_FREE h1 p = Some ?u"
    using get_links [OF s1, of p] k b1 by simp_all
  define h2 where "h2 = (if ?n = NULL then h1 else h1\<lparr>bytes := store (bytes h1) (?n + 8) 8 ?u\<rparr>)"
  have nf: "?n \<noteq> NULL \<Longrightarrow> ?n \<in> set (frees (base h1) bs)" using sub b1 by (cases ys) auto
  have h2: "relinks h1 h2 bs" "(if ?n \<noteq> NULL then put_PREV_FREE h1 ?n ?u else Some h1) = Some h2"
    using put_PREV_FREE_ok [OF s1 nf] s1 by (auto simp: h2_def relinks_def)
  have "remove_from_free_list h p = Some h2"
    using get_links [OF h k(4)] k e1 r1 h2(2) unfolding remove_from_free_list_def by (simp split: if_splits)
  moreover have r: "relinks h h2 bs" by (rule relinks_trans [OF h1 h2(1)])
  moreover have "listed h2 bs (xs @ ys)"
  proof -
    have "bytes h2 = unlinked (bytes h) ?u ?n" by (simp add: h2_def h1_def unlinked_def Let_def)
    moreover have "free_listp h2 = (if xs = [] then ?n else free_listp h)" using u0 by (simp add: h2_def h1_def)
    ultimately have "chain (bytes h2) NULL (xs @ ys) (free_listp h2) NULL" using chain_unlinked [OF c ap] by simp
    moreover have "base h2 = base h" using r by (simp add: relinks_def same_base)
    ultimately show ?thesis using l by (auto simp: listed_def)
  qed
  ultimately show ?thesis by blast
qed

lemma add_ok:
  assumes h: "shaped h bs" and l: "listed h bs fl" and p: "p \<in> set (frees (base h) bs)" "p \<notin> set fl"
  shows "\<exists>h'. add_to_free_list h p = Some h' \<and> relinks h h' bs \<and> listed h' bs (p # fl)"
proof -
  let ?f = "free_listp h"
  have c: "chain (bytes h) NULL fl ?f NULL" using l by (simp add: listed_def)
  have ap: "apart (p # fl)" using listed_apart [OF h, of "p # fl"] l p by (simp add: listed_def)
  have p0: "p \<noteq> NULL"
    using frees_range [OF p(1)] h by (auto simp: shaped_def base_def)
  define h1 where "h1 = h\<lparr>bytes := store (bytes h) p 8 ?f\<rparr>"
  have e1: "put_NEXT_FREE h p ?f = Some h1" "relinks h h1 bs" unfolding h1_def by (rule put_NEXT_FREE_ok [OF h p(1)])+
  then have s1: "shaped h1 bs" and b1: "base h1 = base h" by (simp_all add: relinks_def same_base)
  define h2 where "h2 = h1\<lparr>bytes := store (bytes h1) (p + 8) 8 NULL\<rparr>"
  have p1: "p \<in> set (frees (base h1) bs)" using p b1 by simp
  have e2: "put_PREV_FREE h1 p NULL = Some h2" "relinks h1 h2 bs" unfolding h2_def by (rule put_PREV_FREE_ok [OF s1 p1])+
  then have s2: "shaped h2 bs" and b2: "base h2 = base h" using b1 same_base [of h1 h2] by (simp_all add: relinks_def)
  have f2: "free_listp h2 = ?f" by (simp add: h2_def h1_def)
  have ff: "?f \<noteq> NULL \<Longrightarrow> ?f \<in> set (frees (base h2) bs)"
    using c l b2 by (cases fl) (auto simp: listed_def)
  define h3 where "h3 = (if ?f = NULL then h2 else h2\<lparr>bytes := store (bytes h2) (?f + 8) 8 p\<rparr>)"
  have e3: "(if ?f \<noteq> NULL then put_PREV_FREE h2 ?f p else Some h2) = Some h3" "relinks h2 h3 bs"
    using put_PREV_FREE_ok [OF s2 ff] s2 by (auto simp: h3_def relinks_def)
  have "add_to_free_list h p = Some (h3\<lparr>free_listp := p\<rparr>)"
    using e1(1) e2(1) e3(1) f2 unfolding add_to_free_list_def by (simp split: if_splits)
  moreover have r: "relinks h (h3\<lparr>free_listp := p\<rparr>) bs"
    by (rule relinks_listp, rule relinks_trans [OF e1(2)], rule relinks_trans [OF e2(2) e3(2)])
  moreover have "listed (h3\<lparr>free_listp := p\<rparr>) bs (p # fl)"
  proof -
    have "bytes h3 = (let m = store (store (bytes h) p 8 ?f) (p + 8) 8 NULL in if ?f = NULL then m else store m (?f + 8) 8 p)"
      by (simp add: h3_def h2_def h1_def Let_def)
    then have "chain (bytes h3) NULL (p # fl) p NULL" using chain_pushed [OF c ap p0] by simp
    moreover have "base (h3\<lparr>free_listp := p\<rparr>) = base h" using r by (simp add: relinks_def same_base)
    ultimately show ?thesis using l p by (simp add: listed_def)
  qed
  ultimately show ?thesis by blast
qed

subsection \<open>Writing the tags\<close>

definition two_tags :: "(nat \<Rightarrow> 8 word) \<Rightarrow> addr \<Rightarrow> nat \<Rightarrow> nat \<Rightarrow> nat \<Rightarrow> 8 word" where
  "two_tags m p s t = store (store m (p - 4) 4 t) (p + s - 8) 4 t"

lemma two_tags_other: "q < p - 4 \<or> p \<le> q \<Longrightarrow> q < p + s - 8 \<or> p + s - 4 \<le> q \<Longrightarrow> 8 \<le> s \<Longrightarrow> 4 \<le> p \<Longrightarrow> two_tags m p s t q = m q"
  unfolding two_tags_def by (subst store_other, linarith)+ simp

lemma two_tags_load:
  assumes "t < 2 ^ 32" "8 \<le> s" "4 \<le> p"
  shows "load (two_tags m p s t) (p - 4) 4 = t" "load (two_tags m p s t) (p + s - 8) 4 = t"
proof -
  have "load (two_tags m p s t) (p - 4) 4 = load (store m (p - 4) 4 t) (p - 4) 4"
    unfolding two_tags_def by (rule load_store_other) (use assms in linarith)
  then show "load (two_tags m p s t) (p - 4) 4 = t" using assms(1) by (simp add: load_store)
  show "load (two_tags m p s t) (p + s - 8) 4 = t" unfolding two_tags_def using assms(1) by (simp add: load_store)
qed

lemma put_tags_eq:
  assumes "in_heap h (p - 4) 4" "in_heap h (p + s - 8) 4" and s: "8 dvd s" "s < 2 ^ 32" "unat w = s"
    and t: "unat (PACK w v) = tag s al"
  shows "put_tags h p w v = Some (h\<lparr>bytes := two_tags (bytes h) p s (tag s al)\<rparr>)"
proof -
  let ?h = "h\<lparr>bytes := store (bytes h) (p - 4) 4 (tag s al)\<rparr>"
  have 1: "PUT h (HDRP p) (PACK w v) = Some ?h" using assms by (simp add: PUT_def HDRP_def WSIZE_def)
  have "load (bytes ?h) (p - 4) 4 = tag s al" using tag_bound [OF s(1,2)] by (simp add: load_store)
  moreover have "in_heap ?h (p - 4) 4" using assms(1) by (simp add: in_heap_def)
  ultimately have "GET_SIZE ?h (p - 4) = Some (of_nat s)" using s by (intro GET_tag)
  then have 2: "FTRP ?h p = Some (p + s - 8)"
    using s by (simp add: FTRP_def HDRP_def WSIZE_def DSIZE_def unat_of_nat)
  have 3: "PUT ?h (p + s - 8) (PACK w v) = Some (?h\<lparr>bytes := store (bytes ?h) (p + s - 8) 4 (tag s al)\<rparr>)"
    using assms(2) t by (simp add: PUT_def in_heap_def)
  show ?thesis using 1 2 3 by (simp add: put_tags_def two_tags_def)
qed

text \<open>Blocks in the middle become one block.\<close>

lemma shaped_merge:
  assumes h: "shaped h (xs @ mid @ ys)" and x: "xs \<noteq> []" and s: "s = extent mid" "8 dvd s" "8 \<le> s" "\<not> al \<longrightarrow> 24 \<le> s"
    and p: "p = base h + extent xs"
  shows "shaped (h\<lparr>bytes := two_tags (bytes h) p s (tag s al)\<rparr>) (xs @ (s, al) # ys)"
    "in_heap h (p - 4) 4" "in_heap h (p + s - 8) 4" "s < 2 ^ 25"
proof -
  note lim = shaped_limits [OF h refl]
  have f: "fine (xs @ mid @ ys)" and t: "tagged (bytes h) (base h) (xs @ mid @ ys)"
    and e: "load (bytes h) (mem_brk h - 4) 4 = tag 0 True" and c: "\<exists>cs. xs @ mid @ ys = (8, True) # cs"
    using shapedD [OF h] by blast+
  show slt: "s < 2 ^ 25" using lim(3) s(1) by simp
  have tb: "tag s al < 2 ^ 32" using tag_bound [OF s(2)] slt by simp
  have brk: "p + s + extent ys = mem_brk h" using lim(1) p s(1) by simp
  have b4: "4 \<le> base h" by (simp add: base_def)
  let ?m = "two_tags (bytes h) p s (tag s al)"
  show "in_heap h (p - 4) 4" "in_heap h (p + s - 8) 4"
    using lim(4) brk p s(3) unfolding in_heap_def by (intro conjI; linarith)+
  have "tagged ?m (base h) (xs @ (s, al) # ys)"
  proof (rule tagged_merge [OF t f b4 s(1) s(3)])
    show "load ?m (base h + extent xs - 4) 4 = tag s al" "load ?m (base h + extent xs + s - 8) 4 = tag s al"
      using two_tags_load [OF tb s(3)] b4 p by simp_all
    fix q assume "q < base h + extent xs - 4 \<or> base h + extent xs + s - 4 \<le> q"
    then show "?m q = bytes h q" using s p b4 by (intro two_tags_other) auto
  qed
  moreover have "load ?m (mem_brk h - 4) 4 = tag 0 True"
  proof -
    have "load ?m (mem_brk h - 4) 4 = load (bytes h) (mem_brk h - 4) 4"
      by (rule load_cong, rule two_tags_other) (use brk s b4 p in auto)
    with e show ?thesis by simp
  qed
  moreover have "\<exists>ds. xs @ (s, al) # ys = (8, True) # ds" using c x by (cases xs) auto
  ultimately show "shaped (h\<lparr>bytes := ?m\<rparr>) (xs @ (s, al) # ys)"
    using f s by (intro shaped_bytes [OF h]) simp_all
qed

lemma shaped_split:
  assumes h: "shaped h (xs @ mid @ ys)" and x: "xs \<noteq> []" and s: "s + r = extent mid" "8 dvd s" "8 \<le> s" "\<not> al \<longrightarrow> 24 \<le> s"
    and r: "8 dvd r" "24 \<le> r" and p: "p = base h + extent xs"
  shows "shaped (h\<lparr>bytes := two_tags (two_tags (bytes h) p s (tag s al)) (p + s) r (tag r al')\<rparr>) (xs @ (s, al) # (r, al') # ys)"
    "in_heap h (p - 4) 4" "in_heap h (p + s - 8) 4" "in_heap h (p + s - 4) 4" "in_heap h (p + s + r - 8) 4" "s < 2 ^ 25" "r < 2 ^ 25"
proof -
  note lim = shaped_limits [OF h refl]
  have f: "fine (xs @ mid @ ys)" and t: "tagged (bytes h) (base h) (xs @ mid @ ys)"
    and e: "load (bytes h) (mem_brk h - 4) 4 = tag 0 True" and c: "\<exists>cs. xs @ mid @ ys = (8, True) # cs"
    using shapedD [OF h] by blast+
  show slt: "s < 2 ^ 25" "r < 2 ^ 25" using lim(3) s(1) by simp_all
  have tb: "tag s al < 2 ^ 32" "tag r al' < 2 ^ 32" using tag_bound [OF s(2)] tag_bound [OF r(1)] slt by simp_all
  have brk: "p + s + r + extent ys = mem_brk h" using lim(1) p s(1) by simp
  have b4: "4 \<le> base h" by (simp add: base_def)
  let ?m = "two_tags (two_tags (bytes h) p s (tag s al)) (p + s) r (tag r al')"
  show "in_heap h (p - 4) 4" "in_heap h (p + s - 8) 4" "in_heap h (p + s - 4) 4" "in_heap h (p + s + r - 8) 4"
    using lim(4) brk p s(3) r(2) unfolding in_heap_def by (intro conjI; linarith)+
  have inner: "load ?m q 4 = load (two_tags (bytes h) p s (tag s al)) q 4" if "q = p - 4 \<or> q = p + s - 8" for q
    by (rule load_cong, rule two_tags_other) (use that s r b4 p in auto)
  have "tagged ?m (base h) (xs @ (s, al) # (r, al') # ys)"
  proof (rule tagged_split [OF t f b4 s(1) s(3)])
    show "8 \<le> r" using r by simp
    show "load ?m (base h + extent xs - 4) 4 = tag s al" "load ?m (base h + extent xs + s - 8) 4 = tag s al"
      using two_tags_load [OF tb(1) s(3)] inner b4 p by simp_all
    show "load ?m (base h + extent xs + s - 4) 4 = tag r al'" "load ?m (base h + extent xs + s + r - 8) 4 = tag r al'"
      using two_tags_load [OF tb(2), of r "p + s"] b4 p r by simp_all
    fix q assume q: "q < base h + extent xs - 4 \<or> base h + extent xs + s + r - 4 \<le> q"
    then have "?m q = two_tags (bytes h) p s (tag s al) q" using s p b4 r by (intro two_tags_other) auto
    also have "\<dots> = bytes h q" using q s p b4 r by (intro two_tags_other) auto
    finally show "?m q = bytes h q" .
  qed
  moreover have "load ?m (mem_brk h - 4) 4 = tag 0 True"
  proof -
    have "load ?m (mem_brk h - 4) 4 = load (two_tags (bytes h) p s (tag s al)) (mem_brk h - 4) 4"
      by (rule load_cong, rule two_tags_other) (use brk s b4 p r in auto)
    also have "\<dots> = load (bytes h) (mem_brk h - 4) 4"
      by (rule load_cong, rule two_tags_other) (use brk s b4 p r in auto)
    finally show ?thesis using e by simp
  qed
  moreover have "\<exists>ds. xs @ (s, al) # (r, al') # ys = (8, True) # ds" using c x by (cases xs) auto
  ultimately show "shaped (h\<lparr>bytes := ?m\<rparr>) (xs @ (s, al) # (r, al') # ys)"
    using f s r by (intro shaped_bytes [OF h]) simp_all
qed

end
