(* ===== verification/MallocOps.thy ===== *)
theory MallocOps
  imports MallocInv
begin

text \<open>
  What the operations of the allocator do to the blocks of the heap and to the free list.
\<close>

text \<open>All free blocks are listed, and neighbours are coalesced.\<close>

definition heap_inv :: "mheap \<Rightarrow> blocks \<Rightarrow> addr list \<Rightarrow> bool" where
  "heap_inv h bs fl \<longleftrightarrow> shaped h bs \<and> listed h bs fl \<and> set (frees (base h) bs) \<subseteq> set fl \<and> coalesced bs"

lemma same_bytes [simp]: "same h (h\<lparr>bytes := m\<rparr>)"
  by (simp add: same_def)

lemma frees_range':
  assumes "p \<in> set (frees a bs)" "fine bs"
  shows "a \<le> p" "p + 24 \<le> a + extent bs"
  using frees_range [OF assms] by simp_all

text \<open>Blocks in the middle, none of which is on the free list, become one block.\<close>

lemma listed_merge:
  assumes l: "listed h (xs @ mid @ ys) fl" and f: "fine (xs @ mid @ ys)" and s: "s = extent mid" "8 \<le> s"
    and p: "p = base h + extent xs" and nl: "set fl \<inter> set (frees p mid) = {}"
    and m: "\<And>q. q < p - 4 \<or> p + s \<le> q \<Longrightarrow> m q = bytes h q"
    and bs: "set (frees (base h) xs) \<union> set (frees (p + s) ys) \<subseteq> set (frees (base h) bs)"
  shows "listed (h\<lparr>bytes := m\<rparr>) bs fl"
proof -
  have sub: "x \<in> set (frees (base h) xs) \<or> x \<in> set (frees (p + s) ys)" if "x \<in> set fl" for x
    using l that nl p s by (auto simp: listed_def add.assoc)
  have "chain m NULL fl (free_listp h) NULL \<longleftrightarrow> chain (bytes h) NULL fl (free_listp h) NULL"
  proof (rule chain_cong, rule m)
    fix x q assume x: "x \<in> set fl" and q: "x \<le> q" "q < x + 16"
    show "q < p - 4 \<or> p + s \<le> q"
      using sub [OF x] frees_range' [of x "base h" xs] frees_range' [of x "p + s" ys] f q p by fastforce
  qed
  moreover have "base (h\<lparr>bytes := m\<rparr>) = base h" by (simp add: base_def)
  ultimately show ?thesis using l sub bs by (auto simp: listed_def)
qed

lemma keeps_outside:
  assumes "\<And>q. q < p - 4 \<or> p + s \<le> q \<Longrightarrow> m q = m0 q" and p: "p = a + extent xs" and a: "4 \<le> a"
  shows "keeps (set (used a xs @ used (p + s) ys)) m0 m"
proof -
  have "m q = m0 q" if u: "(r, e) \<in> set (used a xs) \<or> (r, e) \<in> set (used (p + s) ys)" and q: "r \<le> q" "q < r + e - 8" for r e q
  proof -
    have "r + e \<le> p \<or> p + s \<le> r" using u used_range p by blast
    then show ?thesis using q a p by (intro assms(1)) linarith
  qed
  then show ?thesis unfolding keeps_def by auto
qed

lemma unat_of_nat_block: "s < 2 ^ 25 \<Longrightarrow> unat (of_nat s :: 64 word) = s"
  by (simp add: unat_of_nat)

lemma put_block:
  assumes h: "shaped h (xs @ mid @ ys)" and x: "xs \<noteq> []" and s: "s = extent mid" "8 \<le> s" "\<not> al \<longrightarrow> 24 \<le> s"
    and p: "p = base h + extent xs" and l: "listed h (xs @ mid @ ys) fl" and nl: "set fl \<inter> set (frees p mid) = {}"
  shows "shaped (h\<lparr>bytes := two_tags (bytes h) p s (tag s al)\<rparr>) (xs @ (s, al) # ys)"
    "listed (h\<lparr>bytes := two_tags (bytes h) p s (tag s al)\<rparr>) (xs @ (s, al) # ys) fl"
    "keeps (set (used (base h) xs @ used (p + s) ys)) (bytes h) (two_tags (bytes h) p s (tag s al))"
    "in_heap h (p - 4) 4" "in_heap h (p + s - 8) 4" "s < 2 ^ 25" "8 dvd s"
    "unat w = s \<Longrightarrow> put_tags h p w (if al then 1 else 0) = Some (h\<lparr>bytes := two_tags (bytes h) p s (tag s al)\<rparr>)"
proof -
  have f: "fine (xs @ mid @ ys)" by (rule shapedD [OF h])
  then show d: "8 dvd s" using fine_dvd [of mid] s by simp
  note M = shaped_merge [OF h x s(1) d s(2,3) p]
  show "shaped (h\<lparr>bytes := two_tags (bytes h) p s (tag s al)\<rparr>) (xs @ (s, al) # ys)"
    "in_heap h (p - 4) 4" "in_heap h (p + s - 8) 4" "s < 2 ^ 25" using M by simp_all
  have b4: "4 \<le> base h" by (simp add: base_def)
  have o: "q < p - 4 \<or> p + s \<le> q \<Longrightarrow> two_tags (bytes h) p s (tag s al) q = bytes h q" for q
    using s b4 p by (intro two_tags_other) auto
  show "listed (h\<lparr>bytes := two_tags (bytes h) p s (tag s al)\<rparr>) (xs @ (s, al) # ys) fl"
    by (rule listed_merge [OF l f s(1,2) p nl o]) (use p in auto)
  show "keeps (set (used (base h) xs @ used (p + s) ys)) (bytes h) (two_tags (bytes h) p s (tag s al))"
    by (rule keeps_outside [OF o p b4])
  show "put_tags h p w (if al then 1 else 0) = Some (h\<lparr>bytes := two_tags (bytes h) p s (tag s al)\<rparr>)" if "unat w = s"
  proof -
    have "unat (PACK w (if al then 1 else 0)) = tag s al"
      using PACK_tag [OF d _ that] M(4) by (cases al) simp_all
    then show ?thesis using M d that by (intro put_tags_eq) simp_all
  qed
qed

text \<open>A store does not change the tags elsewhere.\<close>

lemma GET_SIZE_store: "q + 4 \<le> p \<or> p + n \<le> q \<Longrightarrow> GET_SIZE (h\<lparr>bytes := store (bytes h) p n v\<rparr>) q = GET_SIZE h q"
  by (simp add: GET_SIZE_def GET_def in_heap_def load_store_other)

lemma PREV_BLKP_store: "p - 8 + 4 \<le> q \<or> q + 4 \<le> p - 8 \<Longrightarrow> PREV_BLKP (h\<lparr>bytes := store (bytes h) q 4 v\<rparr>) p = PREV_BLKP h p"
  by (simp add: PREV_BLKP_def DSIZE_def GET_SIZE_store)

lemma NEXT_BLKP_store: "p - 4 + 4 \<le> q \<or> q + 4 \<le> p - 4 \<Longrightarrow> NEXT_BLKP (h\<lparr>bytes := store (bytes h) q 4 v\<rparr>) p = NEXT_BLKP h p"
  by (simp add: NEXT_BLKP_def WSIZE_def GET_SIZE_store)

lemma FTRP_store: "p - 4 + 4 \<le> q \<or> q + 4 \<le> p - 4 \<Longrightarrow> FTRP (h\<lparr>bytes := store (bytes h) q 4 v\<rparr>) p = FTRP h p"
  by (simp add: FTRP_def HDRP_def WSIZE_def GET_SIZE_store)

lemma PUT_eq: "in_heap h q 4 \<Longrightarrow> unat v = t \<Longrightarrow> PUT h q v = Some (h\<lparr>bytes := store (bytes h) q 4 t\<rparr>)"
  by (simp add: PUT_def)

lemma in_heap_bytes [simp]: "in_heap (h\<lparr>bytes := m\<rparr>) p n = in_heap h p n"
  by (simp add: in_heap_def)

lemma base_bytes [simp]: "base (h\<lparr>bytes := m\<rparr>) = base h"
  by (simp add: base_def)

subsection \<open>Coalescing\<close>

text \<open>What \<open>coalesce\<close> yields: a free block, with the given one in it, in a heap in good order.\<close>

definition coalesced_to :: "mheap \<Rightarrow> blocks \<Rightarrow> nat \<Rightarrow> blocks \<Rightarrow> addr \<Rightarrow> mheap \<Rightarrow> bool" where
  "coalesced_to h xs s ys b h' \<longleftrightarrow> same h h' \<and>
     keeps (set (used (base h) xs @ used (base h + extent xs + s) ys)) (bytes h) (bytes h') \<and>
     (\<exists>us t zs fl. heap_inv h' (us @ (t, False) # zs) fl \<and> b = base h + extent us \<and> s \<le> t \<and> us \<noteq> [] \<and>
       used (base h) (us @ (t, False) # zs) = used (base h) xs @ used (base h + extent xs + s) ys)"

lemma coalesced_toI:
  assumes "same h h'" "keeps (set (used (base h) xs @ used (base h + extent xs + s) ys)) (bytes h) (bytes h')"
    "heap_inv h' (us @ (t, False) # zs) fl" "b = base h + extent us" "s \<le> t" "us \<noteq> []"
    "used (base h) (us @ (t, False) # zs) = used (base h) xs @ used (base h + extent xs + s) ys"
  shows "coalesced_to h xs s ys b h'"
  unfolding coalesced_to_def using assms by blast

lemma coalesced_single: "snd (List.last us) \<Longrightarrow> coalesced us \<Longrightarrow> coalesced zs \<Longrightarrow> snd (next_tag zs) \<Longrightarrow> us \<noteq> [] \<Longrightarrow>
  coalesced (us @ (t, False) # zs)"
  by (cases zs) (auto simp: coalesced_append)

lemma split_removed: "p \<in> set fl \<Longrightarrow> distinct fl \<Longrightarrow> \<exists>f1 f2. fl = f1 @ p # f2 \<and> set (f1 @ f2) = set fl - {p}"
  by (auto simp: in_set_conv_decomp) blast

text \<open>Both neighbours are allocated, or there is nothing left to merge.\<close>

lemma link_block:
  assumes h: "shaped h (us @ (t, False) # zs)" and l: "listed h (us @ (t, False) # zs) fl" and b: "b = base h + extent us"
    and fl: "set fl = set (frees (base h) us) \<union> set (frees (b + t) zs)"
    and c: "coalesced us" "coalesced zs" "snd (List.last us)" "snd (next_tag zs)" "us \<noteq> []"
  shows "\<exists>h'. add_to_free_list h b = Some h' \<and> heap_inv h' (us @ (t, False) # zs) (b # fl) \<and> same h h' \<and>
    keeps (set (used (base h) us @ used (b + t) zs)) (bytes h) (bytes h')"
proof -
  have f: "fine us" "fine zs" "24 \<le> t" using shapedD(2) [OF h] by auto
  have "b \<notin> set fl"
    using frees_range' [of b "base h" us] frees_range' [of b "b + t" zs] f b by (auto simp: fl)
  moreover have "b \<in> set (frees (base h) (us @ (t, False) # zs))" using b by simp
  ultimately obtain h' where h': "add_to_free_list h b = Some h'" "relinks h h' (us @ (t, False) # zs)"
      "listed h' (us @ (t, False) # zs) (b # fl)"
    using add_ok [OF h l] by blast
  have "base h' = base h" using h'(2) by (simp add: relinks_def same_base)
  then have "heap_inv h' (us @ (t, False) # zs) (b # fl)"
    using h' fl b coalesced_single [OF c(3,1,2,4,5)] by (auto simp: heap_inv_def relinks_def)
  then show ?thesis using h' b by (auto simp: relinks_def)
qed

lemma block_reads:
  assumes h: "shaped h (us @ (ps, pa) # (s, al) # ys)" and p: "prv = base h + extent us" "p = prv + ps"
  shows "PREV_BLKP h p = Some prv" "FTRP h prv = Some (p - 8)" "GET_ALLOC h (p - 8) = Some (if pa then 1 else 0)"
    "GET_SIZE h (HDRP prv) = Some (of_nat ps)" "GET_SIZE h (HDRP p) = Some (of_nat s)"
    "NEXT_BLKP h p = Some (p + s)" "FTRP h p = Some (p + s - 8)"
    "GET_ALLOC h (HDRP (p + s)) = Some (if snd (next_tag ys) then 1 else 0)"
    "GET_SIZE h (HDRP (p + s)) = Some (of_nat (fst (next_tag ys)))"
    "FTRP h (p + s) = Some (p + s + fst (next_tag ys) - 8)"
    "8 \<le> ps" "8 \<le> s" "8 \<le> prv" "ps < 2 ^ 25" "s < 2 ^ 25"
proof -
  note f = block_footer [OF h p(1)]
  show "PREV_BLKP h p = Some prv" "GET_ALLOC h (p - 8) = Some (if pa then 1 else 0)" using f p by simp_all
  note n = next_header [OF h p(1)]
  show "FTRP h prv = Some (p - 8)" "GET_SIZE h (HDRP prv) = Some (of_nat ps)" using n p by simp_all
  have h': "shaped h ((us @ [(ps, pa)]) @ (s, al) # ys)" using h by simp
  have "p = base h + extent (us @ [(ps, pa)])" using p by simp
  note n = next_header [OF h' this]
  show "GET_SIZE h (HDRP p) = Some (of_nat s)" "NEXT_BLKP h p = Some (p + s)" "FTRP h p = Some (p + s - 8)"
    using n by simp_all
  have h': "shaped h ((us @ [(ps, pa), (s, al)]) @ ys)" using h by simp
  have "p + s = base h + extent (us @ [(ps, pa), (s, al)])" using p by simp
  note n = next_header [OF h' this]
  show "GET_ALLOC h (HDRP (p + s)) = Some (if snd (next_tag ys) then 1 else 0)"
    "GET_SIZE h (HDRP (p + s)) = Some (of_nat (fst (next_tag ys)))"
    "FTRP h (p + s) = Some (p + s + fst (next_tag ys) - 8)" using n by simp_all
  show "8 \<le> ps" "8 \<le> s" "ps < 2 ^ 25" "s < 2 ^ 25"
    using shaped_block_size(2,3) [OF h, of ps pa] shaped_block_size(2,3) [OF h, of s al] by simp_all
  show "8 \<le> prv" using p by (simp add: base_def)
qed

lemma coalesce_case1:
  assumes h: "shaped h (us @ (ps, True) # (s, False) # ys)" and p: "prv = base h + extent us" "p = prv + ps"
    and l: "listed h (us @ (ps, True) # (s, False) # ys) fl" and fl: "set fl = set (frees (base h) us) \<union> set (frees (p + s) ys)"
    and c: "coalesced (us @ [(ps, True)])" "coalesced ys" and n: "snd (next_tag ys)"
  shows "\<exists>b h'. coalesce h p = Some (b, h') \<and> coalesced_to h (us @ [(ps, True)]) s ys b h'"
proof -
  note R = block_reads [OF h p]
  obtain h' where h': "add_to_free_list h p = Some h'" "heap_inv h' ((us @ [(ps, True)]) @ (s, False) # ys) (p # fl)" "same h h'"
      "keeps (set (used (base h) (us @ [(ps, True)]) @ used (p + s) ys)) (bytes h) (bytes h')"
    using link_block [of h "us @ [(ps, True)]" s ys fl p] h l p fl c n by auto
  have "coalesce h p = Some (p, h')" using R n h'(1) by (simp add: coalesce_def)
  moreover have "coalesced_to h (us @ [(ps, True)]) s ys p h'"
    by (rule coalesced_toI [OF h'(3) _ h'(2)]) (use h' p in \<open>simp_all add: add.assoc\<close>)
  ultimately show ?thesis by blast
qed

lemma coalesce_case2:
  assumes h: "shaped h (us @ (ps, True) # (s, False) # (ns, False) # zs)" and p: "prv = base h + extent us" "p = prv + ps"
    and l: "listed h (us @ (ps, True) # (s, False) # (ns, False) # zs) fl"
    and fl: "set fl = set (frees (base h) us) \<union> set (frees (p + s) ((ns, False) # zs))"
    and c: "coalesced (us @ [(ps, True)])" "coalesced ((ns, False) # zs)"
  shows "\<exists>b h'. coalesce h p = Some (b, h') \<and> coalesced_to h (us @ [(ps, True)]) s ((ns, False) # zs) b h'"
proof -
  let ?xs = "us @ [(ps, True)]" and ?mid = "[(s, False), (ns, False)]"
  have e: "us @ (ps, True) # (s, False) # (ns, False) # zs = ?xs @ ?mid @ zs" by simp
  have px: "p = base h + extent ?xs" using p by simp
  note R = block_reads [OF h p]
  have f: "fine (us @ (ps, True) # (s, False) # (ns, False) # zs)" by (rule shapedD [OF h])
  obtain f1 f2 where f12: "fl = f1 @ (p + s) # f2" "set (f1 @ f2) = set fl - {p + s}"
    using split_removed [of "p + s" fl] fl l by (auto simp: listed_def)
  obtain h1 where h1: "remove_from_free_list h (p + s) = Some h1" "relinks h h1 (?xs @ ?mid @ zs)" "listed h1 (?xs @ ?mid @ zs) (f1 @ f2)"
    using remove_ok [OF h l [unfolded f12(1)]] unfolding e by blast
  have b1: "base h1 = base h" and s1: "shaped h1 (?xs @ ?mid @ zs)" "same h h1" using h1(2) by (auto simp: relinks_def same_base)
  have px1: "p = base h1 + extent ?xs" using px b1 by simp
  note R1 = block_reads [OF s1(1) [folded e], of prv p, unfolded b1, OF p]
  have nl: "set (f1 @ f2) \<inter> set (frees p ?mid) = {}"
    using f12(2) fl frees_range' [of p "base h" us] frees_range' [of p "p + s + ns" zs] f p R(11) by auto
  note P = put_block [OF s1(1) _ _ _ _ px1 h1(3) nl, of "s + ns" False, simplified]
  have t: "24 \<le> s + ns" using f by simp
  let ?m = "two_tags (bytes h1) p (s + ns) (tag (s + ns) False)"
  have sz: "unat (of_nat s + of_nat ns :: 64 word) = s + ns"
    using unat_of_nat_block [of "s + ns"] P(6) t by simp
  have pt: "put_tags h1 p (of_nat s + of_nat ns) 0 = Some (h1\<lparr>bytes := ?m\<rparr>)"
    by (rule P(8) [OF t sz])
  have fl1: "set (f1 @ f2) = set (frees (base h1) ?xs) \<union> set (frees (p + (s + ns)) zs)"
    using f12(2) fl frees_range' [of "p + s" "base h" us] frees_range' [of "p + s" "p + s + ns" zs] f p R(11) b1
    by (auto simp: add.assoc)
  have cz: "coalesced zs" "snd (next_tag zs)" using c(2) by (cases zs; auto)+
  obtain h' where h': "add_to_free_list (h1\<lparr>bytes := ?m\<rparr>) p = Some h'"
      "heap_inv h' (?xs @ (s + ns, False) # zs) (p # f1 @ f2)" "same (h1\<lparr>bytes := ?m\<rparr>) h'"
      "keeps (set (used (base h1) ?xs @ used (p + (s + ns)) zs)) ?m (bytes h')"
    using link_block [of "h1\<lparr>bytes := ?m\<rparr>" ?xs "s + ns" zs "f1 @ f2" p] P(1,2) t px1 fl1 c(1) cz by auto
  have "coalesce h p = Some (p, h')" using R R1 h1(1) pt h'(1) by (simp add: coalesce_def)
  moreover have "coalesced_to h ?xs s ((ns, False) # zs) p h'"
  proof (rule coalesced_toI [OF _ _ h'(2) px])
    let ?A = "set (used (base h) ?xs @ used (base h + extent ?xs + s) ((ns, False) # zs))"
    have A: "?A = set (used (base h1) ?xs @ used (p + (s + ns)) zs)" using px b1 by (simp add: add.assoc)
    have "keeps ?A (bytes h) (bytes h1)" using h1(2) px by (simp add: relinks_def add.assoc)
    moreover have "keeps ?A (bytes h1) ?m" using P(3) t unfolding A by simp
    moreover have "keeps ?A ?m (bytes h')" using h'(4) unfolding A .
    ultimately show "keeps ?A (bytes h) (bytes h')" using keeps_trans by blast
    show "same h h'" using same_trans [OF s1(2) same_trans [OF same_bytes h'(3)]] .
  qed (use px in \<open>simp_all add: add.assoc\<close>)
  ultimately show ?thesis by blast
qed

lemma FTRP_put:
  assumes "in_heap h (p - 4) 4" and s: "8 dvd s" "s < 2 ^ 32"
  shows "FTRP (h\<lparr>bytes := store (bytes h) (p - 4) 4 (tag s al)\<rparr>) p = Some (p + s - 8)"
proof -
  let ?h = "h\<lparr>bytes := store (bytes h) (p - 4) 4 (tag s al)\<rparr>"
  have "load (bytes ?h) (p - 4) 4 = tag s al" using tag_bound [OF s] by (simp add: load_store)
  then have "GET_SIZE ?h (p - 4) = Some (of_nat s)" using assms by (intro GET_tag) simp_all
  then show ?thesis using s by (simp add: FTRP_def HDRP_def WSIZE_def DSIZE_def unat_of_nat)
qed

lemma coalesced_last:
  assumes "coalesced (us @ [(ps, False)])" "us \<noteq> []"
  shows "coalesced us" "snd (List.last us)"
  using assms by (auto simp: coalesced_append)

lemma coalesce_case3:
  assumes h: "shaped h (us @ (ps, False) # (s, False) # ys)" and p: "prv = base h + extent us" "p = prv + ps"
    and l: "listed h (us @ (ps, False) # (s, False) # ys) fl"
    and fl: "set fl = set (frees (base h) (us @ [(ps, False)])) \<union> set (frees (p + s) ys)"
    and c: "coalesced (us @ [(ps, False)])" "coalesced ys" and n: "snd (next_tag ys)" and u: "us \<noteq> []"
  shows "\<exists>b h'. coalesce h p = Some (b, h') \<and> coalesced_to h (us @ [(ps, False)]) s ys b h'"
proof -
  let ?mid = "[(ps, False), (s, False)]"
  have e: "us @ (ps, False) # (s, False) # ys = us @ ?mid @ ys" by simp
  note R = block_reads [OF h p]
  have f: "fine (us @ (ps, False) # (s, False) # ys)" by (rule shapedD [OF h])
  obtain f1 f2 where f12: "fl = f1 @ prv # f2" "set (f1 @ f2) = set fl - {prv}"
    using split_removed [of prv fl] fl l p by (auto simp: listed_def)
  obtain h1 where h1: "remove_from_free_list h prv = Some h1" "relinks h h1 (us @ ?mid @ ys)" "listed h1 (us @ ?mid @ ys) (f1 @ f2)"
    using remove_ok [OF h l [unfolded f12(1)]] unfolding e by blast
  have b1: "base h1 = base h" and s1: "shaped h1 (us @ ?mid @ ys)" "same h h1" using h1(2) by (auto simp: relinks_def same_base)
  have px1: "prv = base h1 + extent us" using p b1 by simp
  note R1 = block_reads [OF s1(1) [folded e], of prv p, unfolded b1, OF p]
  have nl: "set (f1 @ f2) \<inter> set (frees prv ?mid) = {}"
    using f12(2) fl frees_range' [of prv "base h" us] frees_range' [of p "base h" us]
      frees_range' [of p "p + s" ys] frees_range' [of prv "p + s" ys] f p R(11,12) by auto
  note P = put_block [OF s1(1) u _ _ _ px1 h1(3) nl, of "ps + s" False, simplified]
  have t: "24 \<le> ps + s" using f by simp
  let ?T = "tag (ps + s) False"
  let ?m = "two_tags (bytes h1) prv (ps + s) ?T"
  let ?h2 = "h1\<lparr>bytes := store (bytes h1) (prv - 4) 4 ?T\<rparr>"
  have sz: "unat (of_nat s + of_nat ps :: 64 word) = ps + s"
    using unat_of_nat_block [of "ps + s"] P(6) t by (simp add: add.commute)
  have pk: "unat (PACK (of_nat s + of_nat ps) 0) = ?T"
    using PACK_tag(2) [OF P(7) _ sz] P(6) t by simp
  have 1: "PUT h1 (HDRP prv) (PACK (of_nat s + of_nat ps) 0) = Some ?h2"
    using P(4) t pk by (simp add: HDRP_def WSIZE_def PUT_eq)
  have 2: "PREV_BLKP ?h2 p = Some prv" using R1(1) R(11,13) p(2) by (subst PREV_BLKP_store) auto
  have 3: "FTRP ?h2 prv = Some (prv + (ps + s) - 8)" using P(4,6,7) t by (intro FTRP_put) simp_all
  have 4: "PUT ?h2 (prv + (ps + s) - 8) (PACK (of_nat s + of_nat ps) 0) = Some (h1\<lparr>bytes := ?m\<rparr>)"
    using P(5) t pk PUT_eq [of ?h2 "prv + (ps + s) - 8" _ ?T] by (simp add: two_tags_def)
  have 5: "PREV_BLKP (h1\<lparr>bytes := ?m\<rparr>) p = Some prv"
  proof -
    have "PREV_BLKP (?h2\<lparr>bytes := store (bytes ?h2) (prv + (ps + s) - 8) 4 ?T\<rparr>) p = PREV_BLKP ?h2 p"
      using R(11,12,13) p(2) by (intro PREV_BLKP_store) linarith
    with 2 show ?thesis by (simp add: two_tags_def)
  qed
  have fl1: "set (f1 @ f2) = set (frees (base h1) us) \<union> set (frees (prv + (ps + s)) ys)"
    using f12(2) fl frees_range' [of prv "base h" us] frees_range' [of prv "p + s" ys] f p R(11,12) b1
    by (auto simp: add.assoc)
  obtain h' where h': "add_to_free_list (h1\<lparr>bytes := ?m\<rparr>) prv = Some h'"
      "heap_inv h' (us @ (ps + s, False) # ys) (prv # f1 @ f2)" "same (h1\<lparr>bytes := ?m\<rparr>) h'"
      "keeps (set (used (base h1) us @ used (prv + (ps + s)) ys)) ?m (bytes h')"
    using link_block [of "h1\<lparr>bytes := ?m\<rparr>" us "ps + s" ys "f1 @ f2" prv] P(1,2) t px1 fl1 coalesced_last [OF c(1) u] c(2) n u by auto
  have "coalesce h p = Some (prv, h')" using R R1 n h1(1) 1 2 3 4 5 h'(1) by (simp add: coalesce_def)
  moreover have "coalesced_to h (us @ [(ps, False)]) s ys prv h'"
  proof (rule coalesced_toI [OF _ _ h'(2) p(1)])
    let ?A = "set (used (base h) (us @ [(ps, False)]) @ used (base h + extent (us @ [(ps, False)]) + s) ys)"
    have A: "?A = set (used (base h1) us @ used (prv + (ps + s)) ys)" using p b1 by (simp add: add.assoc)
    have "keeps ?A (bytes h) (bytes h1)" using h1(2) p by (simp add: relinks_def add.assoc)
    moreover have "keeps ?A (bytes h1) ?m" using P(3) t unfolding A by simp
    moreover have "keeps ?A ?m (bytes h')" using h'(4) unfolding A .
    ultimately show "keeps ?A (bytes h) (bytes h')" using keeps_trans by blast
    show "same h h'" using same_trans [OF s1(2) same_trans [OF same_bytes h'(3)]] .
  qed (use p u in \<open>simp_all add: add.assoc\<close>)
  ultimately show ?thesis by blast
qed

text \<open>Two sizes are added in 32 bits, which is enough for the heap.\<close>

lemma add_sizes:
  assumes "a + b < 2 ^ 32"
  shows "ucast (ucast (of_nat a :: 64 word) + ucast (of_nat b :: 64 word) :: 32 word) = (of_nat a + of_nat b :: 64 word)"
proof (rule word_unat_eq_iff [THEN iffD2])
  have "unat (ucast (of_nat a :: 64 word) :: 32 word) = a" "unat (ucast (of_nat b :: 64 word) :: 32 word) = b"
    "unat (of_nat a + of_nat b :: 64 word) = a + b"
    using assms by (simp_all add: unsigned_ucast_eq unat_of_nat unat_word_ariths take_bit_eq_mod)
  then show "unat (ucast (ucast (of_nat a :: 64 word) + ucast (of_nat b :: 64 word) :: 32 word) :: 64 word) = unat (of_nat a + of_nat b :: 64 word)"
    using assms by (simp add: unsigned_ucast_eq unat_word_ariths take_bit_eq_mod)
qed

lemma coalesce_case4:
  assumes h: "shaped h (us @ (ps, False) # (s, False) # (ns, False) # zs)" and p: "prv = base h + extent us" "p = prv + ps"
    and l: "listed h (us @ (ps, False) # (s, False) # (ns, False) # zs) fl"
    and fl: "set fl = set (frees (base h) (us @ [(ps, False)])) \<union> set (frees (p + s) ((ns, False) # zs))"
    and c: "coalesced (us @ [(ps, False)])" "coalesced ((ns, False) # zs)" and u: "us \<noteq> []"
  shows "\<exists>b h'. coalesce h p = Some (b, h') \<and> coalesced_to h (us @ [(ps, False)]) s ((ns, False) # zs) b h'"
proof -
  let ?mid = "[(ps, False), (s, False), (ns, False)]"
  have e: "us @ (ps, False) # (s, False) # (ns, False) # zs = us @ ?mid @ zs" by simp
  note R = block_reads [OF h p]
  have f: "fine (us @ (ps, False) # (s, False) # (ns, False) # zs)" by (rule shapedD [OF h])
  obtain f1 f2 where f12: "fl = f1 @ (p + s) # f2" "set (f1 @ f2) = set fl - {p + s}"
    using split_removed [of "p + s" fl] fl l by (auto simp: listed_def)
  obtain h1 where h1: "remove_from_free_list h (p + s) = Some h1" "relinks h h1 (us @ ?mid @ zs)" "listed h1 (us @ ?mid @ zs) (f1 @ f2)"
    using remove_ok [OF h l [unfolded f12(1)]] unfolding e by blast
  have b1: "base h1 = base h" and s1: "shaped h1 (us @ ?mid @ zs)" "same h h1" using h1(2) by (auto simp: relinks_def same_base)
  note R1 = block_reads [OF s1(1) [folded e], of prv p, unfolded b1, OF p]
  have pin: "prv \<in> set (f1 @ f2)" unfolding f12(2) fl using p R(12) by simp
  have "distinct (f1 @ f2)" using h1(3) unfolding listed_def by blast
  from split_removed [OF pin this] obtain g1 g2 where
    g12: "f1 @ f2 = g1 @ prv # g2" "set (g1 @ g2) = set (f1 @ f2) - {prv}" by (elim exE conjE)
  obtain h2 where h2: "remove_from_free_list h1 prv = Some h2" "relinks h1 h2 (us @ ?mid @ zs)" "listed h2 (us @ ?mid @ zs) (g1 @ g2)"
    using remove_ok [OF s1(1) h1(3) [unfolded g12(1)]] by blast
  have r2: "relinks h h2 (us @ ?mid @ zs)" by (rule relinks_trans [OF h1(2) h2(2)])
  have b2: "base h2 = base h" and s2: "shaped h2 (us @ ?mid @ zs)" "same h h2" using r2 by (auto simp: relinks_def same_base)
  have px2: "prv = base h2 + extent us" using p b2 by simp
  note R2 = block_reads [OF s2(1) [folded e], of prv p, unfolded b2, OF p]
  have sg: "set (g1 @ g2) = set fl - {p + s, prv}" using g12(2) f12(2) by blast
  have nl: "set (g1 @ g2) \<inter> set (frees prv ?mid) = {}"
    unfolding sg fl using frees_range' [of prv "base h" us] frees_range' [of p "base h" us] frees_range' [of "p + s" "base h" us]
      frees_range' [of p "p + s + ns" zs] frees_range' [of prv "p + s + ns" zs] frees_range' [of "p + s" "p + s + ns" zs] f p R(11,12)
    by auto
  note P = put_block [OF s2(1) u _ _ _ px2 h2(3) nl, of "ps + (s + ns)" False, simplified]
  have t: "24 \<le> ps + (s + ns)" using f by simp
  let ?t = "ps + (s + ns)"
  let ?T = "tag ?t False"
  let ?m = "two_tags (bytes h2) prv ?t ?T"
  let ?w = "of_nat s + (of_nat ps + of_nat ns) :: 64 word"
  let ?h3 = "h2\<lparr>bytes := store (bytes h2) (prv - 4) 4 ?T\<rparr>"
  have w: "?w = of_nat ?t" by (simp add: add.left_commute)
  have sz: "unat ?w = ?t" unfolding w using unat_of_nat_block [of ?t] P(6) t by (simp del: of_nat_add add: add.assoc)
  have pk: "unat (PACK ?w 0) = ?T"
    using PACK_tag(2) [OF P(7) _ sz] P(6) t by (simp add: add.assoc)
  have e2: "us @ ?mid @ zs = (us @ [(ps, False), (s, False)]) @ (ns, False) # zs" by simp
  have w32: "ucast (ucast (of_nat ps :: 64 word) + ucast (of_nat ns :: 64 word) :: 32 word) = (of_nat ps + of_nat ns :: 64 word)"
    by (rule add_sizes) (use P(6) t in simp)
  have "p + s = base h2 + extent (us @ [(ps, False), (s, False)])" using p b2 by simp
  from block_footer(1) [OF s2(1) [unfolded e2] this]
  have 0: "GET_SIZE h2 (p + s + ns - 8) = Some (of_nat ns)" .
  have 1: "PUT h2 (HDRP prv) (PACK ?w 0) = Some ?h3"
    using P(4) t pk by (simp add: HDRP_def WSIZE_def PUT_eq)
  have 2: "PREV_BLKP ?h3 p = Some prv" using R2(1) R(11,13) p(2) by (subst PREV_BLKP_store) auto
  have 3: "NEXT_BLKP ?h3 p = Some (p + s)" using R2(6) R(11,13) p(2) by (subst NEXT_BLKP_store) auto
  have 4: "FTRP ?h3 (p + s) = Some (prv + ?t - 8)"
    using R2(10) R(11,12,13) p(2) by (subst FTRP_store) (auto simp: add.assoc)
  have 5: "PUT ?h3 (prv + ?t - 8) (PACK ?w 0) = Some (h2\<lparr>bytes := ?m\<rparr>)"
    using P(5) t pk PUT_eq [of ?h3 "prv + ?t - 8" _ ?T] by (simp add: two_tags_def)
  have 6: "PREV_BLKP (h2\<lparr>bytes := ?m\<rparr>) p = Some prv"
  proof -
    have "PREV_BLKP (?h3\<lparr>bytes := store (bytes ?h3) (prv + ?t - 8) 4 ?T\<rparr>) p = PREV_BLKP ?h3 p"
      using R(11,12,13) p(2) by (intro PREV_BLKP_store) linarith
    with 2 show ?thesis by (simp add: two_tags_def)
  qed
  have fl1: "set (g1 @ g2) = set (frees (base h2) us) \<union> set (frees (prv + ?t) zs)"
    unfolding sg fl using frees_range' [of prv "base h" us] frees_range' [of "p + s" "base h" us]
      frees_range' [of prv "p + s + ns" zs] frees_range' [of "p + s" "p + s + ns" zs] f p R(11,12) b2
    by (auto simp: add.assoc)
  have cz: "coalesced zs" "snd (next_tag zs)" using c(2) by (cases zs; auto)+
  obtain h' where h': "add_to_free_list (h2\<lparr>bytes := ?m\<rparr>) prv = Some h'"
      "heap_inv h' (us @ (?t, False) # zs) (prv # g1 @ g2)" "same (h2\<lparr>bytes := ?m\<rparr>) h'"
      "keeps (set (used (base h2) us @ used (prv + ?t) zs)) ?m (bytes h')"
    using link_block [of "h2\<lparr>bytes := ?m\<rparr>" us ?t zs "g1 @ g2" prv] P(1,2) t px2 fl1 coalesced_last [OF c(1) u] cz u
    by (auto simp: add.assoc)
  have "coalesce h p = Some (prv, h')" using R R1 R2 h1(1) h2(1) 0 1 2 3 4 5 6 h'(1) w32 by (simp add: coalesce_def Let_def)
  moreover have "coalesced_to h (us @ [(ps, False)]) s ((ns, False) # zs) prv h'"
  proof (rule coalesced_toI [OF _ _ h'(2) p(1)])
    let ?A = "set (used (base h) (us @ [(ps, False)]) @ used (base h + extent (us @ [(ps, False)]) + s) ((ns, False) # zs))"
    have A: "?A = set (used (base h2) us @ used (prv + ?t) zs)" using p b2 by (simp add: add.assoc)
    have "keeps ?A (bytes h) (bytes h2)" using r2 p by (simp add: relinks_def add.assoc)
    moreover have "keeps ?A (bytes h2) ?m" using P(3) t unfolding A by (simp add: add.assoc)
    moreover have "keeps ?A ?m (bytes h')" using h'(4) unfolding A .
    ultimately show "keeps ?A (bytes h) (bytes h')" using keeps_trans by blast
    show "same h h'" using same_trans [OF s2(2) same_trans [OF same_bytes h'(3)]] .
  qed (use p u in \<open>simp_all add: add.assoc\<close>)
  ultimately show ?thesis by blast
qed

theorem coalesce_ok:
  assumes h: "shaped h (xs @ (s, False) # ys)" and x: "xs \<noteq> []" and p: "p = base h + extent xs"
    and l: "listed h (xs @ (s, False) # ys) fl" and fl: "set fl = set (frees (base h) xs) \<union> set (frees (p + s) ys)"
    and c: "coalesced xs" "coalesced ys"
  shows "\<exists>b h'. coalesce h p = Some (b, h') \<and> coalesced_to h xs s ys b h'"
proof -
  obtain us ps pa where xs: "xs = us @ [(ps, pa)]" using x by (cases xs rule: rev_cases) auto
  obtain cs where "xs @ (s, False) # ys = (8, True) # cs" using shapedD(5) [OF h] by blast
  then have u: "us \<noteq> []" if "\<not> pa" using that xs by (cases us) auto
  let ?prv = "base h + extent us"
  have pp: "p = ?prv + ps" using p xs by simp
  consider (1) "pa" "snd (next_tag ys)" | (2) ns zs where "pa" "ys = (ns, False) # zs"
    | (3) "\<not> pa" "snd (next_tag ys)" | (4) ns zs where "\<not> pa" "ys = (ns, False) # zs"
    by (cases ys) (auto, metis prod.collapse)
  then show ?thesis
  proof cases
    case 1
    then show ?thesis using coalesce_case1 [OF _ refl pp, of s ys fl] h l fl c xs pp by simp
  next
    case 2
    then show ?thesis using coalesce_case2 [OF _ refl pp, of s ns zs fl] h l fl c xs pp by simp
  next
    case 3
    then show ?thesis using coalesce_case3 [OF _ refl pp, of s ys fl] h l fl c xs pp u by simp
  next
    case 4
    then show ?thesis using coalesce_case4 [OF _ refl pp, of s ns zs fl] h l fl c xs pp u by simp
  qed
qed

end
