(* ===== verification/MallocProps.thy ===== *)
theory MallocProps
  imports MallocOps
begin

text \<open>
  The allocator as its users see it: a map from the addresses of the allocated blocks to their sizes.
\<close>

subsection \<open>Placing a request in a free block\<close>

text \<open>The free block of \<open>t\<close> bytes between \<open>us\<close> and \<open>zs\<close> becomes allocated, at least \<open>a\<close> bytes of it.\<close>

definition placed_in :: "mheap \<Rightarrow> blocks \<Rightarrow> nat \<Rightarrow> blocks \<Rightarrow> nat \<Rightarrow> mheap \<Rightarrow> bool" where
  "placed_in h us t zs a h' \<longleftrightarrow> same h h' \<and>
     keeps (set (used (base h) us @ used (base h + extent us + t) zs)) (bytes h) (bytes h') \<and>
     (\<exists>bs fl c. heap_inv h' bs fl \<and> a \<le> c \<and> 8 dvd c \<and>
       used (base h) bs = used (base h) us @ (base h + extent us, c) # used (base h + extent us + t) zs)"

lemma placed_inI:
  assumes "same h h'" "keeps (set (used (base h) us @ used (base h + extent us + t) zs)) (bytes h) (bytes h')"
    "heap_inv h' bs fl" "a \<le> c" "8 dvd c"
    "used (base h) bs = used (base h) us @ (base h + extent us, c) # used (base h + extent us + t) zs"
  shows "placed_in h us t zs a h'"
  unfolding placed_in_def using assms by blast

lemma coalesced_around:
  assumes "coalesced (us @ (t, False) # zs)" "us \<noteq> []"
  shows "coalesced us" "coalesced zs" "snd (next_tag zs)" "snd (List.last us)"
  using assms by (cases zs; auto simp: coalesced_append)+

lemma coalesced_alloc: "coalesced us \<Longrightarrow> coalesced zs \<Longrightarrow> coalesced (us @ (t, True) # zs)"
  by (cases zs) (auto simp: coalesced_append)

lemma place_ok:
  assumes i: "heap_inv h (us @ (t, False) # zs) fl" and u: "us \<noteq> []" and b: "b = base h + extent us"
    and a: "unat asize = a" "a \<le> t" "8 dvd a" "8 \<le> a"
  shows "\<exists>h'. place h b asize = Some h' \<and> placed_in h us t zs a h'"
proof -
  have h: "shaped h (us @ (t, False) # zs)" and l: "listed h (us @ (t, False) # zs) fl"
    and c: "coalesced (us @ (t, False) # zs)" and fa: "set (frees (base h) (us @ (t, False) # zs)) \<subseteq> set fl"
    using i by (simp_all add: heap_inv_def)
  note c' = coalesced_around [OF c u]
  have f: "fine (us @ (t, False) # zs)" by (rule shapedD [OF h])
  have fl: "set fl = set (frees (base h) (us @ (t, False) # zs))" using l fa by (auto simp: listed_def)
  have t: "GET_SIZE h (HDRP b) = Some (of_nat t)" "unat (of_nat t :: 64 word) = t" "24 \<le> t" "8 dvd t"
    using next_header(1) [OF h b] shaped_block_size [OF h, of t False] by simp_all
  obtain f1 f2 where f12: "fl = f1 @ b # f2" "set (f1 @ f2) = set fl - {b}"
    using split_removed [of b fl] fl l b by (auto simp: listed_def)
  obtain h1 where h1: "remove_from_free_list h b = Some h1" "relinks h h1 (us @ (t, False) # zs)"
      "listed h1 (us @ (t, False) # zs) (f1 @ f2)"
    using remove_ok [OF h l [unfolded f12(1)]] by blast
  have b1: "base h1 = base h" and s1: "shaped h1 (us @ [(t, False)] @ zs)" "same h h1"
    and k1: "keeps (set (used (base h) us @ used (b + t) zs)) (bytes h) (bytes h1)"
    using h1(2) b by (auto simp: relinks_def same_base)
  have l1: "listed h1 (us @ [(t, False)] @ zs) (f1 @ f2)" using h1(3) by simp
  have p1: "b = base h1 + extent us" using b b1 by simp
  have bz: "b \<notin> set (frees (base h) us)" "b \<notin> set (frees (b + t) zs)"
    using frees_range' [of b "base h" us] frees_range' [of b "b + t" zs] f b by auto
  have sf: "set (f1 @ f2) = set (frees (base h1) us) \<union> set (frees (b + t) zs)"
    unfolding f12(2) fl using b b1 bz by auto
  have nl: "set (f1 @ f2) \<inter> set (frees b [(t, False)]) = {}" unfolding sf using bz b1 by auto
  have sub: "unat (of_nat t - asize) = t - a" using a(1,2) t(2) by (simp add: unat_sub word_le_nat_alt)
  have cond: "of_nat (3 * DSIZE) \<le> of_nat t - asize \<longleftrightarrow> 24 \<le> t - a"
    using sub by (simp add: word_le_nat_alt DSIZE_def)
  show ?thesis
  proof (cases "24 \<le> t - a")
    case False
    note P = put_block [OF s1(1) u _ _ _ p1 l1 nl, of t True, simplified]
    have "put_tags h1 b (of_nat t) 1 = Some (h1\<lparr>bytes := two_tags (bytes h1) b t (tag t True)\<rparr>)"
      using P(8) [of "of_nat t"] t by simp
    then have "place h b asize = Some (h1\<lparr>bytes := two_tags (bytes h1) b t (tag t True)\<rparr>)"
      using t(1) h1(1) cond False by (simp add: place_def)
    moreover have "placed_in h us t zs a (h1\<lparr>bytes := two_tags (bytes h1) b t (tag t True)\<rparr>)"
    proof (rule placed_inI [where bs = "us @ (t, True) # zs" and fl = "f1 @ f2"])
      have "keeps (set (used (base h) us @ used (b + t) zs)) (bytes h1) (two_tags (bytes h1) b t (tag t True))"
        using P(3) t(3) b1 by simp
      from keeps_trans [OF k1 this] b
      show "keeps (set (used (base h) us @ used (base h + extent us + t) zs)) (bytes h)
          (bytes (h1\<lparr>bytes := two_tags (bytes h1) b t (tag t True)\<rparr>))" by simp
      show "heap_inv (h1\<lparr>bytes := two_tags (bytes h1) b t (tag t True)\<rparr>) (us @ (t, True) # zs) (f1 @ f2)"
        using P(1,2) t(3) sf p1 coalesced_alloc [OF c'(1,2)] by (simp add: heap_inv_def)
      show "same h (h1\<lparr>bytes := two_tags (bytes h1) b t (tag t True)\<rparr>)" using same_trans [OF s1(2) same_bytes] .
    qed (use a t in simp_all)
    ultimately show ?thesis by blast
  next
    case True
    let ?r = "t - a"
    have r: "a + ?r = extent [(t, False)]" "8 dvd ?r" using a t(4) by simp_all
    note S = shaped_split(1) [where al = True and al' = False, OF s1(1) u r(1) a(3,4) _ r(2) True p1, simplified]
      shaped_split(2-) [where al = True, OF s1(1) u r(1) a(3,4) _ r(2) True p1, simplified]
    let ?m1 = "two_tags (bytes h1) b a (tag a True)"
    let ?h2 = "h1\<lparr>bytes := ?m1\<rparr>" and ?m2 = "two_tags ?m1 (b + a) ?r (tag ?r False)"
    have b4: "4 \<le> b" using b by (simp add: base_def)
    have 1: "put_tags h1 b asize 1 = Some ?h2"
      using S(2,3,6) a PACK_tag(1) [OF a(3) _ a(1)] by (intro put_tags_eq) simp_all
    have "GET_SIZE ?h2 (b - 4) = Some (of_nat a)"
      using S(2,6) a tag_bound [OF a(3), of True] two_tags_load(1) [of "tag a True" a b] b4
      by (intro GET_tag(1) [of _ _ _ True]) simp_all
    then have 2: "NEXT_BLKP ?h2 b = Some (b + a)" using a S(6) by (simp add: NEXT_BLKP_def WSIZE_def unat_of_nat)
    have 3: "put_tags ?h2 (b + a) (of_nat t - asize) 0 = Some (h1\<lparr>bytes := ?m2\<rparr>)"
    proof -
      have "put_tags ?h2 (b + a) (of_nat t - asize) 0 = Some (?h2\<lparr>bytes := two_tags (bytes ?h2) (b + a) ?r (tag ?r False)\<rparr>)"
        using S(4,5,7) r sub PACK_tag(2) [OF r(2) _ sub] a(2) by (intro put_tags_eq) (simp_all add: add.assoc)
      then show ?thesis by simp
    qed
    have m2: "?m2 q = bytes h1 q" if "q < b - 4 \<or> b + t \<le> q" for q
    proof -
      have "?m2 q = ?m1 q" using that a True b4 by (intro two_tags_other) auto
      also have "\<dots> = bytes h1 q" using that a True b4 by (intro two_tags_other) auto
      finally show ?thesis .
    qed
    have l2: "listed (h1\<lparr>bytes := ?m2\<rparr>) ((us @ [(a, True)]) @ (?r, False) # zs) (f1 @ f2)"
      by (rule listed_merge [OF l1 _ _ _ p1 nl m2]) (use f t a p1 in \<open>auto simp: add.assoc\<close>)
    have s2: "shaped (h1\<lparr>bytes := ?m2\<rparr>) ((us @ [(a, True)]) @ (?r, False) # zs)" using S(1) a by simp
    have pb: "b + a = base (h1\<lparr>bytes := ?m2\<rparr>) + extent (us @ [(a, True)])" using p1 by simp
    have ff: "set (f1 @ f2) = set (frees (base (h1\<lparr>bytes := ?m2\<rparr>)) (us @ [(a, True)])) \<union> set (frees (b + a + ?r) zs)"
      using sf a by simp
    have ca: "coalesced (us @ [(a, True)])" using c' by (simp add: coalesced_append)
    have "\<exists>h'. add_to_free_list (h1\<lparr>bytes := ?m2\<rparr>) (b + a) = Some h' \<and>
        heap_inv h' ((us @ [(a, True)]) @ (?r, False) # zs) ((b + a) # f1 @ f2) \<and> same (h1\<lparr>bytes := ?m2\<rparr>) h' \<and>
        keeps (set (used (base (h1\<lparr>bytes := ?m2\<rparr>)) (us @ [(a, True)]) @ used (b + a + ?r) zs)) (bytes (h1\<lparr>bytes := ?m2\<rparr>)) (bytes h')"
      by (rule link_block [OF s2 l2 pb ff ca c'(2) _ c'(3)]) simp_all
    then obtain h' where h': "add_to_free_list (h1\<lparr>bytes := ?m2\<rparr>) (b + a) = Some h'"
        "heap_inv h' ((us @ [(a, True)]) @ (?r, False) # zs) ((b + a) # f1 @ f2)" "same (h1\<lparr>bytes := ?m2\<rparr>) h'"
        "keeps (set (used (base h1) (us @ [(a, True)]) @ used (b + a + ?r) zs)) ?m2 (bytes h')"
      by auto
    have "place h b asize = Some h'"
      using t(1) h1(1) cond True 1 2 3 h'(1) by (simp add: place_def)
    moreover have "placed_in h us t zs a h'"
    proof (rule placed_inI [OF _ _ h'(2)])
      have "keeps (set (used (base h) us @ used (b + t) zs)) (bytes h1) ?m2"
        using keeps_outside [OF m2 p1] b1 by (simp add: base_def)
      moreover have "keeps (set (used (base h) us @ used (b + t) zs)) ?m2 (bytes h')"
        by (rule keeps_mono [OF h'(4)]) (use b1 a in auto)
      ultimately have "keeps (set (used (base h) us @ used (b + t) zs)) (bytes h) (bytes h')"
        using k1 keeps_trans by blast
      then show "keeps (set (used (base h) us @ used (base h + extent us + t) zs)) (bytes h) (bytes h')" using b by simp
      show "same h h'" using same_trans [OF s1(2) same_trans [OF same_bytes h'(3)]] .
    qed (use a b in \<open>simp_all add: add.assoc\<close>)
    ultimately show ?thesis by blast
  qed
qed

subsection \<open>The best fit\<close>

abbreviation size_at :: "mheap \<Rightarrow> addr \<Rightarrow> 64 word" where
  "size_at h p \<equiv> the (GET_SIZE h (HDRP p))"

text \<open>\<open>r\<close> is a smallest block of \<open>ps\<close> in which \<open>asize\<close> bytes fit, and \<open>NULL\<close> when there is none.\<close>

definition fits_best :: "mheap \<Rightarrow> 64 word \<Rightarrow> addr set \<Rightarrow> addr \<Rightarrow> bool" where
  "fits_best h asize ps r \<longleftrightarrow>
     (if r = NULL then \<forall>x\<in>ps. size_at h x < asize
      else r \<in> ps \<and> asize \<le> size_at h r \<and> (\<forall>x\<in>ps. asize \<le> size_at h x \<longrightarrow> size_at h r \<le> size_at h x))"

lemma best_fit_from_ok:
  assumes "chain (bytes h) prev xs bp NULL"
    and "\<And>x. x \<in> set xs \<Longrightarrow> NEXT_FREE h x = Some (load (bytes h) x 8) \<and> GET_SIZE h (HDRP x) \<noteq> None"
    and "fits_best h asize ys best" and "best \<noteq> NULL \<Longrightarrow> GET_SIZE h (HDRP best) \<noteq> None" and "NULL \<notin> ys"
  shows "\<exists>r. best_fit_from h asize bp best = Some r \<and> fits_best h asize (ys \<union> set xs) r"
  using assms
proof (induction xs arbitrary: prev bp best ys)
  case Nil
  then show ?case by (subst best_fit_from.simps) simp
next
  case (Cons x xs)
  have x: "bp = x" "x \<noteq> NULL" "chain (bytes h) x xs (load (bytes h) x 8) NULL" using Cons.prems(1) by auto
  obtain sz where sz: "GET_SIZE h (HDRP x) = Some sz" and nx: "NEXT_FREE h x = Some (load (bytes h) x 8)"
    using Cons.prems(2) [of x] by auto
  have IH: "\<exists>r. best_fit_from h asize (load (bytes h) x 8) b = Some r \<and> fits_best h asize (insert x ys \<union> set xs) r"
    if "fits_best h asize (insert x ys) b" "b \<noteq> NULL \<Longrightarrow> GET_SIZE h (HDRP b) \<noteq> None" for b
    by (rule Cons.IH [OF x(3) _ that]) (use Cons.prems(2,5) x(2) in auto)
  show ?case
  proof (cases "asize \<le> sz")
    case False
    then have "fits_best h asize (insert x ys) best" using Cons.prems(3) sz by (auto simp: fits_best_def)
    from IH [OF this Cons.prems(4)] show ?thesis
      using False x sz nx by (subst best_fit_from.simps) simp
  next
    case True
    define b where "b = (if best = NULL \<or> sz < size_at h best then x else best)"
    have fb: "fits_best h asize (insert x ys) b"
      using Cons.prems(3,5) sz True x(2) by (auto simp: fits_best_def b_def not_less split: if_splits)
    have bs: "GET_SIZE h (HDRP b) \<noteq> None" using Cons.prems(4) sz by (auto simp: b_def)
    have better: "(if best = NULL then Some True else map_option (\<lambda>s. sz < s) (GET_SIZE h (HDRP best))) =
        Some (best = NULL \<or> sz < size_at h best)"
      using Cons.prems(4) by (cases "GET_SIZE h (HDRP best)") auto
    have step: "best_fit_from h asize x best = (if sz = asize then Some b else best_fit_from h asize (load (bytes h) x 8) b)"
      using True x(2) sz nx better by (subst best_fit_from.simps) (simp add: b_def Let_def)
    show ?thesis
    proof (cases "sz = asize")
      case True
      have "b \<noteq> NULL" using x(2) by (simp add: b_def)
      moreover have "size_at h b \<le> asize"
        using True sz by (auto simp: b_def not_less)
      ultimately have "fits_best h asize (ys \<union> set (x # xs)) b"
        using fb by (auto simp: fits_best_def)
      then show ?thesis using step True x(1) by simp
    next
      case False
      then show ?thesis using IH [OF fb bs] step x(1) by simp
    qed
  qed
qed

lemma best_fit_ok:
  assumes h: "shaped h bs" and l: "listed h bs fl"
  shows "\<exists>r. best_fit h asize = Some r \<and> fits_best h asize (set fl) r"
proof -
  have "NEXT_FREE h x = Some (load (bytes h) x 8) \<and> GET_SIZE h (HDRP x) \<noteq> None" if "x \<in> set fl" for x
  proof -
    have x: "x \<in> set (frees (base h) bs)" using that l by (auto simp: listed_def)
    from frees_split [OF this] obtain xs s ys where "bs = xs @ (s, False) # ys" "x = base h + extent xs" by blast
    then show ?thesis using get_links(1) [OF h x] next_header(1) [of h xs "(s, False) # ys" x] h by simp
  qed
  moreover have "chain (bytes h) NULL fl (free_listp h) NULL" using l by (simp add: listed_def)
  moreover have "fits_best h asize {} NULL" by (simp add: fits_best_def)
  ultimately show ?thesis unfolding best_fit_def using best_fit_from_ok [of h NULL fl _ asize "{}" NULL] by simp
qed

subsection \<open>Extending the heap\<close>

lemma base_brk [simp]: "base (h\<lparr>mem_brk := q\<rparr>) = base h"
  by (simp add: base_def)

lemma extend_heap_ok:
  assumes i: "heap_inv h bs fl" and n: "n < 2 ^ 31" "24 \<le> n" "8 dvd n"
    and w: "(if words mod 2 \<noteq> 0 then (words + 1) * of_nat WSIZE else words * of_nat WSIZE) = of_nat n"
  shows "mem_brk h + n > mem_max_addr h \<and> extend_heap h words = Some (NULL, h) \<or>
    mem_brk h + n \<le> mem_max_addr h \<and>
    (\<exists>b h'. extend_heap h words = Some (b, h') \<and> coalesced_to (h\<lparr>mem_brk := mem_brk h + n\<rparr>) bs n [] b h')"
proof -
  have h: "shaped h bs" and l: "listed h bs fl" and c: "coalesced bs" and fa: "set (frees (base h) bs) \<subseteq> set fl"
    using i by (simp_all add: heap_inv_def)
  note D = shapedD [OF h]
  have int: "sint (ucast (of_nat n :: 64 word) :: 32 word) = int n"
  proof -
    have "(ucast (of_nat n :: 64 word) :: 32 word) = of_nat n"
      using n(1) by (simp add: word_unat_eq_iff unsigned_ucast_eq unat_of_nat take_bit_nat_eq_self)
    then show ?thesis using n(1) by (simp add: signed_of_nat signed_take_bit_int_eq_self)
  qed
  show ?thesis
  proof (cases "mem_brk h + n > mem_max_addr h")
    case True
    then show ?thesis using w int by (simp add: extend_heap_def mem_sbrk_def)
  next
    case False
    let ?h1 = "h\<lparr>mem_brk := mem_brk h + n\<rparr>" and ?b = "mem_brk h"
    have b: "?b = base h + extent bs" by (rule D(6))
    have b16: "16 \<le> ?b" using D(5) b by (auto simp: base_def)
    let ?m1 = "two_tags (bytes h) ?b n (tag n False)"
    let ?m2 = "store ?m1 (?b + n - 4) 4 1"
    have n32: "n < 2 ^ 32" "unat (of_nat n :: 64 word) = n" using n by (simp_all add: unat_of_nat)
    have 1: "put_tags ?h1 ?b (of_nat n) 0 = Some (?h1\<lparr>bytes := ?m1\<rparr>)"
    proof -
      have "put_tags ?h1 ?b (of_nat n) 0 = Some (?h1\<lparr>bytes := two_tags (bytes ?h1) ?b n (tag n False)\<rparr>)"
        using n n32 b b16 D(1) PACK_tag(2) [OF n(3) _ n32(2)]
        by (intro put_tags_eq) (simp_all add: in_heap_def base_def)
      then show ?thesis by simp
    qed
    have t: "tag n False < 2 ^ 32" using tag_bound [OF n(3) n32(1)] .
    have "GET_SIZE (?h1\<lparr>bytes := ?m1\<rparr>) (?b - 4) = Some (of_nat n)"
      using n n32 b b16 t two_tags_load(1) [OF t, of n ?b]
      by (intro GET_tag(1) [of _ _ _ False]) (simp_all add: in_heap_def base_def)
    then have 2: "NEXT_BLKP (?h1\<lparr>bytes := ?m1\<rparr>) ?b = Some (?b + n)" using n32 by (simp add: NEXT_BLKP_def WSIZE_def)
    have 3: "PUT (?h1\<lparr>bytes := ?m1\<rparr>) (HDRP (?b + n)) (PACK 0 1) = Some (?h1\<lparr>bytes := ?m2\<rparr>)"
      using n b b16 PUT_eq [of "?h1\<lparr>bytes := ?m1\<rparr>" "?b + n - 4" "PACK 0 1" 1]
      by (simp add: HDRP_def WSIZE_def PACK_def in_heap_def base_def)
    have e: "extend_heap h words = coalesce (?h1\<lparr>bytes := ?m2\<rparr>) ?b"
      using False w int 1 2 3 by (simp add: extend_heap_def mem_sbrk_def)
    have m2: "?m2 q = bytes h q" if "q < ?b - 4 \<or> ?b + n \<le> q" for q
    proof -
      have "?m2 q = ?m1 q" using that n by (intro store_other) auto
      also have "\<dots> = bytes h q" using that n b16 by (intro two_tags_other) auto
      finally show ?thesis .
    qed
    let ?h2 = "?h1\<lparr>bytes := ?m2\<rparr>"
    have s2: "shaped ?h2 (bs @ (n, False) # [])"
    proof -
      have "tagged ?m2 (base h) bs \<longleftrightarrow> tagged (bytes h) (base h) bs"
        by (rule tagged_cong, rule m2) (use b D(2) in \<open>auto simp: base_def\<close>)
      then have "tagged ?m2 (base h) bs" using D(3) by simp
      moreover have "load ?m2 q 4 = load ?m1 q 4" if "q = ?b - 4 \<or> q = ?b + n - 8" for q
        by (rule load_store_other) (use that n b16 in linarith)
      then have "load ?m2 (?b - 4) 4 = tag n False" "load ?m2 (?b + n - 8) 4 = tag n False"
        using two_tags_load [OF t, of n ?b] n b16 by simp_all
      moreover have "load ?m2 (?b + n - 4) 4 = tag 0 True" by (simp add: load_store tag_def)
      moreover have "area ?h2" using D(1) False by (simp add: area_def)
      ultimately show ?thesis using D b n by (auto simp: shaped_def)
    qed
    have l2: "listed ?h2 (bs @ (n, False) # []) fl"
    proof -
      have "chain ?m2 NULL fl (free_listp h) NULL \<longleftrightarrow> chain (bytes h) NULL fl (free_listp h) NULL"
      proof (rule chain_cong, rule m2)
        fix x q assume x: "x \<in> set fl" and q: "x \<le> q" "q < x + 16"
        have "x \<in> set (frees (base h) bs)" using l x by (auto simp: listed_def)
        from frees_range' [OF this D(2)] show "q < ?b - 4 \<or> ?b + n \<le> q" using b q by linarith
      qed
      then show ?thesis using l by (auto simp: listed_def)
    qed
    have "set fl = set (frees (base h) bs)" using l fa by (auto simp: listed_def)
    then obtain r h' where r: "coalesce ?h2 ?b = Some (r, h')" "coalesced_to ?h2 bs n [] r h'"
      using coalesce_ok [OF s2 _ _ l2, of ?b] b D(5) c by auto
    have "keeps (set (used (base h) bs)) (bytes h) ?m2"
      using keeps_outside [OF m2 b, where ys = "[]"] by (simp add: base_def)
    then have "coalesced_to ?h1 bs n [] r h'"
      using r(2) keeps_trans unfolding coalesced_to_def same_def by (auto simp: base_def)
    then show ?thesis using e r(1) False by auto
  qed
qed

subsection \<open>The allocated blocks\<close>

text \<open>
  \<open>A\<close> maps the address of every allocated block to the number of bytes its user may use: all of the block
  but its header and footer. The prologue is not one of them.
\<close>

definition payloads :: "mheap \<Rightarrow> blocks \<Rightarrow> addr \<rightharpoonup> nat" where
  "payloads h bs = map_of (map (\<lambda>(p, s). (p, s - 8)) (used (base h + 8) (List.tl bs)))"

definition represents :: "mheap \<Rightarrow> (addr \<rightharpoonup> nat) \<Rightarrow> bool" where
  "represents h A \<longleftrightarrow> (\<exists>bs fl. heap_inv h bs fl \<and> A = payloads h bs)"

lemma used_distinct: "fine bs \<Longrightarrow> distinct (map fst (used a bs))"
proof (induction bs arbitrary: a)
  case (Cons b bs)
  have "a \<notin> set (map fst (used (a + fst b) bs))"
    using used_range [of a _ "a + fst b" bs] Cons.prems by fastforce
  then show ?case using Cons by simp
qed simp

lemma payloads_Some:
  assumes "shaped h bs"
  shows "payloads h bs p = Some n \<longleftrightarrow> (\<exists>s. (p, s) \<in> set (used (base h + 8) (List.tl bs)) \<and> n = s - 8)"
proof -
  have "fine (List.tl bs)" using shapedD(2,5) [OF assms] by auto
  then have "distinct (map fst (map (\<lambda>(p, s). (p, s - 8)) (used (base h + 8) (List.tl bs))))"
    using used_distinct [of "List.tl bs" "base h + 8"] by (simp add: comp_def case_prod_unfold)
  then show ?thesis unfolding payloads_def by (auto simp: map_of_eq_Some_iff)
qed

lemma used_prologue:
  assumes "shaped h bs"
  shows "used (base h) bs = (base h, 8) # used (base h + 8) (List.tl bs)"
  using shapedD(5) [OF assms] by auto

text \<open>Change of one entry of the list of allocated blocks.\<close>

lemma payloads_insert:
  assumes h: "shaped h bs" "shaped h' bs'" "base h' = base h"
    and u: "used (base h) bs = us @ vs" "used (base h) bs' = us @ (p, s) # vs" "us \<noteq> []"
  shows "payloads h' bs' = (payloads h bs)(p \<mapsto> s - 8)" "payloads h bs p = None"
proof -
  note U = used_prologue [OF h(1)] used_prologue [OF h(2), unfolded h(3)]
  obtain ws where ws: "us = (base h, 8) # ws" using U(1) u(1,3) by (cases us) auto
  have e: "used (base h + 8) (List.tl bs) = ws @ vs" "used (base h + 8) (List.tl bs') = ws @ (p, s) # vs"
    using U u(1,2) ws by simp_all
  have "distinct (map fst (used (base h + 8) (List.tl bs')))"
    using used_distinct shapedD(2,5) [OF h(2)] by fastforce
  then have p: "p \<notin> fst ` set ws" "p \<notin> fst ` set vs" unfolding e by auto
  then show "payloads h bs p = None"
    unfolding payloads_def e by (auto simp: map_of_eq_None_iff image_iff)
  show "payloads h' bs' = (payloads h bs)(p \<mapsto> s - 8)"
  proof
    fix q
    have "map_of (map (\<lambda>(p, s). (p, s - 8)) ws) p = None" using p by (auto simp: map_of_eq_None_iff image_iff)
    then show "payloads h' bs' q = ((payloads h bs)(p \<mapsto> s - 8)) q"
      unfolding payloads_def h(3) e by (auto simp: map_add_def split: option.splits)
  qed
qed

lemma payloads_same:
  assumes h: "shaped h bs" "shaped h' bs'" "base h' = base h" and u: "used (base h) bs' = used (base h) bs"
  shows "payloads h' bs' = payloads h bs"
  using used_prologue [OF h(1)] used_prologue [OF h(2), unfolded h(3)] u by (simp add: payloads_def h(3))

text \<open>Contents of the blocks the user has.\<close>

definition unchanged :: "mheap \<Rightarrow> mheap \<Rightarrow> (addr \<rightharpoonup> nat) \<Rightarrow> bool" where
  "unchanged h h' A \<longleftrightarrow> (\<forall>q n i. A q = Some n \<longrightarrow> i < n \<longrightarrow> bytes h' (q + i) = bytes h (q + i))"

lemma keeps_unchanged:
  assumes "keeps (set u) (bytes h) (bytes h')" and "shaped h bs" and "\<And>q n. A q = Some n \<Longrightarrow> (q, n + 8) \<in> set u"
  shows "unchanged h h' A"
  unfolding unchanged_def
proof (intro allI impI)
  fix q n i assume "A q = Some n" "i < n"
  then have "(q, n + 8) \<in> set u" "q \<le> q + i" "q + i < q + (n + 8) - 8" using assms(3) by simp_all
  then show "bytes h' (q + i) = bytes h (q + i)" using assms(1) unfolding keeps_def by blast
qed

lemma payloads_used:
  assumes h: "shaped h bs" and a: "payloads h bs q = Some n"
  shows "(q, n + 8) \<in> set (used (base h) bs)"
proof -
  obtain s where s: "(q, s) \<in> set (used (base h + 8) (List.tl bs))" "n = s - 8"
    using a payloads_Some [OF h] by auto
  have i: "(q, s) \<in> set (used (base h) bs)" using s(1) used_prologue [OF h] by simp
  from used_split [OF this] obtain xs ys where "bs = xs @ (s, True) # ys" by blast
  then have "8 \<le> s" using shapedD(2) [OF h] by simp
  with i s(2) show ?thesis by simp
qed

lemma payloads_split:
  assumes h: "shaped h bs" and a: "payloads h bs p = Some n"
  shows "\<exists>xs ys. bs = xs @ (n + 8, True) # ys \<and> p = base h + extent xs \<and> xs \<noteq> []"
proof -
  obtain cs where cs: "bs = (8, True) # cs" using shapedD(5) [OF h] by blast
  obtain s where s: "(p, s) \<in> set (used (base h + 8) cs)" "n = s - 8"
    using a payloads_Some [OF h] cs by auto
  from used_split [OF s(1)] obtain xs ys where x: "cs = xs @ (s, True) # ys" "p = base h + 8 + extent xs" by blast
  then have "8 \<le> s" using shapedD(2) [OF h] cs by simp
  then have "bs = ((8, True) # xs) @ (n + 8, True) # ys" "p = base h + extent ((8, True) # xs)" using cs x s(2) by simp_all
  then show ?thesis by blast
qed

subsection \<open>Sizes of requests\<close>

lemma ALIGN_unat:
  assumes "unat w + 7 < 2 ^ 64"
  shows "unat (ALIGN w) = (unat w + 7) div 8 * 8"
proof -
  have u: "unat (w + 7) = unat w + 7" using assms by (simp add: unat_word_ariths)
  have "unat (drop_bit 3 (w + 7)) = (unat w + 7) div 8" using u by (simp add: drop_bit_eq_div unat_div)
  then have "unat (push_bit 3 (drop_bit 3 (w + 7))) = (unat w + 7) div 8 * 8"
    using assms by (subst unsigned_push_bit_eq) (simp add: take_bit_nat_eq_self push_bit_eq_mult)
  then show ?thesis unfolding ALIGN_def and_not_7 by simp
qed

definition adjusted :: "64 word \<Rightarrow> 64 word" where
  "adjusted sz = (if sz = 448 then 520 else if sz = 112 then 136 else ALIGN (sz + of_nat DSIZE))"

lemma adjusted_ok:
  assumes "0 < unat sz" "unat sz \<le> 2 ^ 29"
  shows "unat sz + 8 \<le> unat (adjusted sz)" "8 dvd unat (adjusted sz)" "16 \<le> unat (adjusted sz)" "unat (adjusted sz) \<le> unat sz + 72"
proof -
  have u: "unat (sz + of_nat DSIZE) = unat sz + 8" using assms by (simp add: unat_word_ariths DSIZE_def)
  then have a: "unat (ALIGN (sz + of_nat DSIZE)) = (unat sz + 8 + 7) div 8 * 8"
    using assms by (simp add: ALIGN_unat)
  consider "sz = 448" | "sz = 112" | "sz \<noteq> 448" "sz \<noteq> 112" by blast
  then have "unat sz + 8 \<le> unat (adjusted sz) \<and> 8 dvd unat (adjusted sz) \<and> 16 \<le> unat (adjusted sz) \<and> unat (adjusted sz) \<le> unat sz + 72"
  proof cases
    case 3
    have "unat sz + 8 \<le> (unat sz + 8 + 7) div 8 * 8" "(unat sz + 8 + 7) div 8 * 8 \<le> unat sz + 72"
        "16 \<le> (unat sz + 8 + 7) div 8 * 8"
      using assms(1) by presburger+
    then show ?thesis using 3 a by (simp add: adjusted_def)
  qed (use assms in \<open>simp_all add: adjusted_def\<close>)
  then show "unat sz + 8 \<le> unat (adjusted sz)" "8 dvd unat (adjusted sz)" "16 \<le> unat (adjusted sz)" "unat (adjusted sz) \<le> unat sz + 72"
    by simp_all
qed

definition extension :: "64 word \<Rightarrow> 64 word" where
  "extension asize = (if asize < CHUNKSIZE then CHUNKSIZE
     else if asize < CHUNKSIZE * 4 then asize + CHUNKSIZE div 4 else asize + asize div 24)"

lemma extension_ok:
  assumes "unat asize \<le> 2 ^ 29 + 72"
  shows "unat asize \<le> unat (extension asize)" "1024 \<le> unat (extension asize)" "unat (extension asize) \<le> unat asize + unat asize div 24 + 1024"
proof -
  have c: "unat CHUNKSIZE = 1024" "unat (CHUNKSIZE * 4) = 4096" "unat (CHUNKSIZE div 4) = 256"
    by (simp_all add: CHUNKSIZE_def)
  have 1: "unat (asize + CHUNKSIZE div 4) = unat asize + 256" using assms c by (simp add: unat_word_ariths)
  have "unat (asize div 24) = unat asize div 24" by (simp add: unat_div)
  then have 2: "unat (asize + asize div 24) = unat asize + unat asize div 24" using assms by (simp add: unat_word_ariths)
  have "unat asize \<le> unat (extension asize) \<and> 1024 \<le> unat (extension asize) \<and> unat (extension asize) \<le> unat asize + unat asize div 24 + 1024"
    using c 1 2 by (auto simp: extension_def word_less_nat_alt)
  then show "unat asize \<le> unat (extension asize)" "1024 \<le> unat (extension asize)" "unat (extension asize) \<le> unat asize + unat asize div 24 + 1024"
    by simp_all
qed

lemma extend_words:
  fixes e :: "64 word"
  assumes "unat e + 4 < 2 ^ 30"
  defines "n \<equiv> 4 * (unat e div 2 + unat e div 2 mod 2)"
  shows "(if (e div 2) mod 2 \<noteq> 0 then (e div 2 + 1) * of_nat WSIZE else (e div 2) * of_nat WSIZE) = of_nat n"
    "8 dvd n" "2 * unat e \<le> n + 2" "n \<le> 2 * unat e + 4" "n < 2 ^ 31"
proof -
  let ?w = "unat e div 2"
  have e: "e div 2 = of_nat ?w" using assms(1) by (simp add: word_unat_eq_iff unat_div unat_of_nat)
  have m: "(e div 2) mod 2 \<noteq> 0 \<longleftrightarrow> odd ?w" unfolding e by (simp add: mod2_eq_if)
  show "(if (e div 2) mod 2 \<noteq> 0 then (e div 2 + 1) * of_nat WSIZE else (e div 2) * of_nat WSIZE) = of_nat n"
  proof (cases "odd ?w")
    case True
    then have "?w mod 2 = 1" by presburger
    then show ?thesis unfolding m using True by (simp add: e n_def WSIZE_def)
  next
    case False
    then have "?w mod 2 = 0" by presburger
    then show ?thesis unfolding m using False by (simp add: e n_def WSIZE_def)
  qed
  have "even (?w + ?w mod 2)" by (cases "even ?w") (simp_all add: odd_iff_mod_2_eq_one)
  then obtain j where j: "?w + ?w mod 2 = 2 * j" by (elim evenE)
  show "8 dvd n" unfolding n_def j by simp
  have "2 * ?w \<le> unat e" "unat e \<le> 2 * ?w + 1" "?w mod 2 \<le> 1" by simp_all
  then show "2 * unat e \<le> n + 2" and n: "n \<le> 2 * unat e + 4" unfolding n_def by simp_all
  show "n < 2 ^ 31" using n assms(1) by simp
qed

subsection \<open>\<open>mm_malloc\<close>\<close>

lemma mm_malloc_eq:
  assumes "sz \<noteq> 0"
  shows "mm_malloc h sz = do {
     bp \<leftarrow> best_fit h (adjusted sz);
     if bp \<noteq> NULL then do { h \<leftarrow> place h bp (adjusted sz); Some (bp, h) }
     else do {
       (bp, h) \<leftarrow> extend_heap h (extension (adjusted sz) div 2);
       if bp = NULL then Some (NULL, h) else do { h \<leftarrow> place h bp (adjusted sz); Some (bp, h) }
     }
   }"
  by (simp only: mm_malloc_def Let_def adjusted_def [symmetric] extension_def [symmetric] assms if_False)

text \<open>What a placed block means for the map of allocated blocks.\<close>

lemma placed_represents:
  assumes h: "shaped h bs" and h1: "shaped h1 (us @ (t, False) # zs)" "base h1 = base h" "us \<noteq> []"
    and u: "used (base h) (us @ (t, False) # zs) = used (base h) bs" and p: "placed_in h1 us t zs a h'"
  shows "\<exists>n. a - 8 \<le> n \<and> represents h' ((payloads h bs)(base h + extent us \<mapsto> n))" "payloads h bs (base h + extent us) = None"
    "base h' = base h" "keeps (set (used (base h) bs)) (bytes h1) (bytes h')" "8 dvd base h + extent us"
proof -
  obtain bs' fl c where i: "heap_inv h' bs' fl" and c: "a \<le> c"
    and u': "used (base h1) bs' = used (base h1) us @ (base h1 + extent us, c) # used (base h1 + extent us + t) zs"
    and k: "keeps (set (used (base h1) us @ used (base h1 + extent us + t) zs)) (bytes h1) (bytes h')" and s: "same h1 h'"
    using p unfolding placed_in_def by blast
  show b: "base h' = base h" using same_base [OF s] h1(2) by simp
  have s': "shaped h' bs'" using i by (simp add: heap_inv_def)
  have ub: "used (base h) bs = used (base h) us @ used (base h + extent us + t) zs"
    unfolding u [symmetric] by (simp add: add.assoc)
  have "\<exists>ds. us = (8, True) # ds" using shapedD(5) [OF h1(1)] h1(3) by (cases us) auto
  then have "used (base h) us \<noteq> []" by auto
  from payloads_insert [OF h s' b ub _ this] u' h1(2)
  have P: "payloads h' bs' = (payloads h bs)(base h + extent us \<mapsto> c - 8)" "payloads h bs (base h + extent us) = None" by auto
  show "payloads h bs (base h + extent us) = None" by (rule P)
  have "represents h' ((payloads h bs)(base h + extent us \<mapsto> c - 8))"
    unfolding represents_def using i P(1) [symmetric] by blast
  then show "\<exists>n. a - 8 \<le> n \<and> represents h' ((payloads h bs)(base h + extent us \<mapsto> n))"
    using diff_le_mono [OF c] by blast
  show "keeps (set (used (base h) bs)) (bytes h1) (bytes h')" using k unfolding ub h1(2) .
  have "fine us" using shapedD(2) [OF h1(1)] by simp
  then show "8 dvd base h + extent us" using shaped_limits(5) [OF h, of "[]" bs] fine_dvd by (simp add: dvd_add)
qed

lemma coalesced_toD:
  assumes "coalesced_to h xs s ys b h'"
  obtains us t zs fl where "heap_inv h' (us @ (t, False) # zs) fl" "b = base h + extent us" "s \<le> t" "us \<noteq> []"
    "used (base h) (us @ (t, False) # zs) = used (base h) xs @ used (base h + extent xs + s) ys"
    "same h h'" "keeps (set (used (base h) xs @ used (base h + extent xs + s) ys)) (bytes h) (bytes h')"
  using assms unfolding coalesced_to_def by blast

lemma malloc_ok:
  assumes r: "heap_inv h bs fl" and sz: "0 < unat sz" "unat sz \<le> 2 ^ 29"
  shows "\<exists>p h'. mm_malloc h sz = Some (p, h') \<and> keeps (set (used (base h) bs)) (bytes h) (bytes h') \<and> base h' = base h \<and>
    (p = NULL \<and> h' = h \<and> mem_max_addr h < mem_brk h + 3 * unat sz + 4096 \<or>
     p \<noteq> NULL \<and> 8 dvd p \<and> payloads h bs p = None \<and>
     (\<exists>n. unat sz \<le> n \<and> represents h' ((payloads h bs)(p \<mapsto> n))))"
proof -
  let ?a = "unat (adjusted sz)"
  note A = adjusted_ok [OF sz]
  have h: "shaped h bs" and l: "listed h bs fl" and fa: "set (frees (base h) bs) \<subseteq> set fl" using r by (simp_all add: heap_inv_def)
  have n0: "sz \<noteq> 0" using sz by auto
  have sa: "unat sz \<le> ?a - 8" using A(1) by simp
  obtain b where b: "best_fit h (adjusted sz) = Some b" "fits_best h (adjusted sz) (set fl) b" using best_fit_ok [OF h l] by blast
  show ?thesis
  proof (cases "b = NULL")
    case False
    then have bf: "b \<in> set fl" "adjusted sz \<le> size_at h b" using b(2) by (simp_all add: fits_best_def)
    then have "b \<in> set (frees (base h) bs)" using l by (auto simp: listed_def)
    from frees_split [OF this] obtain us t zs where bs: "bs = us @ (t, False) # zs" and bu: "b = base h + extent us" by blast
    have u: "us \<noteq> []" using shapedD(5) [OF h] bs by (cases us) auto
    have "size_at h b = of_nat t" using next_header(1) [OF h [unfolded bs] bu] by simp
    then have at: "?a \<le> t"
      using bf(2) shaped_block_size(5) [OF h, of t False] bs by (simp add: word_le_nat_alt)
    obtain h' where h': "place h b (adjusted sz) = Some h'" "placed_in h us t zs ?a h'"
      using place_ok [OF r [unfolded bs] u bu refl at] A by auto
    note P = placed_represents [OF h h [unfolded bs] refl u _ h'(2), folded bs, OF refl]
    have "mm_malloc h sz = Some (b, h')" using mm_malloc_eq [OF n0] b(1) h'(1) False by simp
    moreover have "\<exists>n. unat sz \<le> n \<and> represents h' ((payloads h bs)(b \<mapsto> n))" using P(1) sa bu order_trans by blast
    ultimately show ?thesis using P(2-5) False unfolding bu by blast
  next
    case True
    let ?e = "extension (adjusted sz)"
    have al: "?a \<le> 2 ^ 29 + 72" using A(4) sz by simp
    note E = extension_ok [OF al]
    have e: "unat ?e + 4 < 2 ^ 30" using E(3) al by simp
    define n where "n = 4 * (unat ?e div 2 + unat ?e div 2 mod 2)"
    note W = extend_words [OF e, folded n_def]
    have n24: "24 \<le> n" "?a \<le> n" using W(3) E(1,2) by linarith+
    from extend_heap_ok [OF r W(5) n24(1) W(2) W(1)] show ?thesis
    proof (elim disjE conjE exE)
      assume m: "mem_max_addr h < mem_brk h + n" "extend_heap h (?e div 2) = Some (NULL, h)"
      have mm: "mm_malloc h sz = Some (NULL, h)" using mm_malloc_eq [OF n0] b(1) m(2) True by simp
      moreover have "n \<le> 3 * unat sz + 4096" using W(4) E(3) A(4) by linarith
      ultimately have "mem_max_addr h < mem_brk h + 3 * unat sz + 4096" using m(1) by linarith
      then show ?thesis using mm keeps_refl by blast
    next
      fix q h1 assume x: "extend_heap h (?e div 2) = Some (q, h1)" and c: "coalesced_to (h\<lparr>mem_brk := mem_brk h + n\<rparr>) bs n [] q h1"
      from c obtain us t zs fl1 where q: "heap_inv h1 (us @ (t, False) # zs) fl1" "q = base h + extent us" "n \<le> t" "us \<noteq> []"
          "used (base h) (us @ (t, False) # zs) = used (base h) bs" "same (h\<lparr>mem_brk := mem_brk h + n\<rparr>) h1"
          "keeps (set (used (base h) bs)) (bytes h) (bytes h1)"
        by (rule coalesced_toD) simp
      have b1: "base h1 = base h" using same_base [OF q(6)] by simp
      have s1: "shaped h1 (us @ (t, False) # zs)" using q(1) by (simp add: heap_inv_def)
      have qb: "q = base h1 + extent us" using q(2) b1 by simp
      have qn: "q \<noteq> NULL" using q(2) by (simp add: base_def)
      obtain h' where h': "place h1 q (adjusted sz) = Some h'" "placed_in h1 us t zs ?a h'"
        using place_ok [OF q(1,4) qb, of "adjusted sz" ?a] A n24 q(3) by auto
      note P = placed_represents [OF h s1 b1 q(4,5) h'(2)]
      have "mm_malloc h sz = Some (q, h')" using mm_malloc_eq [OF n0] b(1) x h'(1) True qn by simp
      moreover have "\<exists>n. unat sz \<le> n \<and> represents h' ((payloads h bs)(q \<mapsto> n))" using P(1) sa q(2) order_trans by blast
      moreover have "keeps (set (used (base h) bs)) (bytes h) (bytes h')" using keeps_trans [OF q(7) P(4)] .
      ultimately show ?thesis using P(2,3,5) qn unfolding q(2) by blast
    qed
  qed
qed

subsection \<open>\<open>mm_free\<close>\<close>

lemma payloads_delete:
  assumes h: "shaped h bs" "shaped h' bs'" "base h' = base h"
    and u: "used (base h) bs = us @ (p, s) # vs" "used (base h) bs' = us @ vs" "us \<noteq> []"
  shows "payloads h' bs' = (payloads h bs)(p := None)"
proof -
  have "payloads h bs = (payloads h' bs')(p \<mapsto> s - 8)" "payloads h' bs' p = None"
    using payloads_insert [OF h(2,1) h(3) [symmetric], of us vs p s] u h(3) by simp_all
  then show ?thesis by (simp add: fun_upd_idem)
qed

lemma free_ok:
  assumes i: "heap_inv h bs fl" and p: "payloads h bs p = Some n" "16 \<le> n"
  shows "\<exists>h'. mm_free h p = Some h' \<and> represents h' ((payloads h bs)(p := None)) \<and> base h' = base h \<and>
    (\<forall>q m j. payloads h bs q = Some m \<longrightarrow> q \<noteq> p \<longrightarrow> j < m \<longrightarrow> bytes h' (q + j) = bytes h (q + j))"
proof -
  have h: "shaped h bs" and l: "listed h bs fl" and c: "coalesced bs" and fa: "set (frees (base h) bs) \<subseteq> set fl"
    using i by (simp_all add: heap_inv_def)
  obtain xs ys where bs: "bs = xs @ (n + 8, True) # ys" and px: "p = base h + extent xs" and x: "xs \<noteq> []"
    using payloads_split [OF h p(1)] by blast
  let ?s = "n + 8"
  have h0: "shaped h (xs @ [(?s, True)] @ ys)" and l0: "listed h (xs @ [(?s, True)] @ ys) fl" using h l bs by simp_all
  have nl: "set fl \<inter> set (frees p [(?s, True)]) = {}" by simp
  note P = put_block [OF h0 x _ _ _ px l0 nl, of ?s False, simplified]
  let ?h1 = "h\<lparr>bytes := two_tags (bytes h) p ?s (tag ?s False)\<rparr>"
  have sz: "GET_SIZE h (HDRP p) = Some (of_nat ?s)" "unat (of_nat ?s :: 64 word) = ?s"
    using next_header(1) [OF h [unfolded bs] px] shaped_block_size(5) [OF h, of ?s True] bs by simp_all
  have pt: "put_tags h p (of_nat ?s) 0 = Some ?h1" using P(8) [of "of_nat ?s"] p(2) sz(2) by simp
  have fl: "set fl = set (frees (base ?h1) xs) \<union> set (frees (p + ?s) ys)"
    using l fa bs px by (auto simp: listed_def add.assoc)
  have cc: "coalesced xs" "coalesced ys" using c bs by (auto simp: coalesced_append) (cases ys; simp)
  have "shaped ?h1 (xs @ (?s, False) # ys)" "listed ?h1 (xs @ (?s, False) # ys) fl" using P(1,2) p(2) by simp_all
  from coalesce_ok [OF this(1) x _ this(2) fl cc] px
  obtain b h' where r: "coalesce ?h1 p = Some (b, h')" "coalesced_to ?h1 xs ?s ys b h'" by auto
  from r(2) obtain us t zs fl1 where q: "heap_inv h' (us @ (t, False) # zs) fl1"
      "used (base ?h1) (us @ (t, False) # zs) = used (base ?h1) xs @ used (base ?h1 + extent xs + ?s) ys"
      "same ?h1 h'" "keeps (set (used (base ?h1) xs @ used (base ?h1 + extent xs + ?s) ys)) (bytes ?h1) (bytes h')"
    by (rule coalesced_toD)
  have b1: "base h' = base h" using same_base [OF q(3)] by simp
  have s': "shaped h' (us @ (t, False) # zs)" using q(1) by (simp add: heap_inv_def)
  have ub: "used (base h) bs = used (base h) xs @ (p, ?s) # used (p + ?s) ys" using bs px by (simp add: add.assoc)
  have uq: "used (base h) (us @ (t, False) # zs) = used (base h) xs @ used (p + ?s) ys" using q(2) px by simp
  have "\<exists>ds. xs = (8, True) # ds" using shapedD(5) [OF h] x bs by (cases xs) auto
  then have "used (base h) xs \<noteq> []" by auto
  from payloads_delete [OF h s' b1 ub uq this]
  have rep: "represents h' ((payloads h bs)(p := None))" unfolding represents_def using q(1) by metis
  have k: "keeps (set (used (base h) xs @ used (p + ?s) ys)) (bytes h) (bytes h')"
    using keeps_trans [of _ "bytes h" "bytes ?h1" "bytes h'"] P(3) q(4) p(2) px by simp
  have "bytes h' (q + j) = bytes h (q + j)" if "payloads h bs q = Some m" "q \<noteq> p" "j < m" for q m j
  proof -
    have "(q, m + 8) \<in> set (used (base h) xs @ used (p + ?s) ys)"
      using payloads_used [OF h that(1)] that(2) unfolding ub by auto
    moreover have "q \<le> q + j" "q + j < q + (m + 8) - 8" using that(3) by simp_all
    ultimately show ?thesis using k unfolding keeps_def by blast
  qed
  moreover have "mm_free h p = Some h'" using sz(1) pt r(1) by (simp add: mm_free_def)
  ultimately show ?thesis using rep b1 by blast
qed

end
