(* ===== verification/MallocRealloc.thy ===== *)
theory MallocRealloc
  imports MallocProps
begin

text \<open>
  The remaining operations of the allocator: \<open>mm_init\<close> and \<open>mm_realloc\<close>.
\<close>

subsection \<open>\<open>mm_init\<close>\<close>

lemma init_ok:
  assumes m: "mem_init h0 start = Some h" and s: "8 dvd start" "start + MAX_HEAP < 2 ^ 64"
  shows "\<exists>h'. mm_init h = Some (0, h') \<and> represents h' Map.empty \<and> mem_brk h' = start + 80 \<and> mem_max_addr h' = start + MAX_HEAP"
proof -
  have h: "mem_start_brk h = start" "mem_max_addr h = start + MAX_HEAP" "mem_brk h = start" and s0: "0 < start"
    using m by (auto simp: mem_init_def split: if_splits)
  have i16: "sint (of_nat (4 * WSIZE) :: 32 word) = 16" by (simp add: WSIZE_def)
  let ?m = "store (store (store (store (bytes h) start 4 0) (start + 4) 4 9) (start + 8) 4 9) (start + 12) 4 1"
  define h1 where "h1 = h\<lparr>mem_brk := start + 16, bytes := ?m, heap_listp := start + 8, free_listp := NULL\<rparr>"
  have p9: "unat (PACK (of_nat DSIZE) 1) = 9" "unat (PACK 0 1) = 1" by (simp_all add: PACK_def DSIZE_def)
  have l: "load ?m (start + 4) 4 = 9" "load ?m (start + 8) 4 = 9" "load ?m (start + 12) 4 = 1"
    by (simp_all add: load_store load_store_other)
  have b: "base h1 = start + 8" by (simp add: h1_def base_def h)
  have "shaped h1 [(8, True)]"
    unfolding shaped_def b using s s0 l by (simp add: h1_def area_def h MAX_HEAP_def tag_def add.commute [of start])
  moreover have "listed h1 [(8, True)] []" by (simp add: listed_def h1_def)
  ultimately have inv: "heap_inv h1 [(8, True)] []" by (simp add: heap_inv_def)
  have w: "(if (of_nat (DSIZE * 2) :: 64 word) mod 2 \<noteq> 0 then (of_nat (DSIZE * 2) + 1) * of_nat WSIZE
      else of_nat (DSIZE * 2) * of_nat WSIZE) = (of_nat 64 :: 64 word)"
    by (simp add: DSIZE_def WSIZE_def)
  have le: "mem_brk h1 + 64 \<le> mem_max_addr h1" by (simp add: h1_def h MAX_HEAP_def)
  from extend_heap_ok [OF inv _ _ _ w] le obtain r h' where
    r: "extend_heap h1 (of_nat (DSIZE * 2)) = Some (r, h')" "coalesced_to (h1\<lparr>mem_brk := mem_brk h1 + 64\<rparr>) [(8, True)] 64 [] r h'"
    by auto
  from r(2) obtain us t zs fl where q: "heap_inv h' (us @ (t, False) # zs) fl" "r = base h1 + extent us" "us \<noteq> []"
      "used (base h1) (us @ (t, False) # zs) = [(base h1, 8)]" "same (h1\<lparr>mem_brk := mem_brk h1 + 64\<rparr>) h'"
    by (rule coalesced_toD) simp
  have b': "base h' = base h1" using same_base [OF q(5)] by simp
  have s': "shaped h' (us @ (t, False) # zs)" using q(1) by (simp add: heap_inv_def)
  have "used (base h' + 8) (List.tl (us @ (t, False) # zs)) = []"
    using used_prologue [OF s'] q(4) b' by simp
  then have rep: "represents h' Map.empty" unfolding represents_def payloads_def using q(1) by fastforce
  have r0: "r \<noteq> NULL" using q(2) b by simp
  have "mm_init h = Some (0, h')"
    using i16 h p9 r(1) r0
    by (simp add: mm_init_def mem_sbrk_def MAX_HEAP_def PUT_def in_heap_def WSIZE_def Let_def h1_def)
  moreover have "mem_brk h' = start + 80" "mem_max_addr h' = start + MAX_HEAP" using q(5) by (simp_all add: same_def h1_def h)
  ultimately show ?thesis using rep by blast
qed

subsection \<open>The blocks of the user\<close>

lemma used_apart:
  assumes "fine bs" "(p, s) \<in> set (used a bs)" "(q, t) \<in> set (used a bs)" "p \<noteq> q"
  shows "p + s \<le> q \<or> q + t \<le> p"
  using assms
proof (induction bs arbitrary: a)
  case (Cons b bs)
  then show ?case
    using used_range [of p s "a + fst b" bs] used_range [of q t "a + fst b" bs] by (fastforce split: if_splits)
qed simp

lemma payload_bounds:
  assumes h: "shaped h bs" and p: "payloads h bs p = Some n"
  shows "mem_start_brk h \<le> p - 4" "p + n + 8 \<le> mem_brk h" "4 \<le> p"
proof -
  note u = used_range [OF payloads_used [OF h p]]
  then show "mem_start_brk h \<le> p - 4" "4 \<le> p" unfolding base_def by linarith+
  show "p + n + 8 \<le> mem_brk h" using u shapedD(6) [OF h] by simp
qed

text \<open>The user writes into a block.\<close>

lemma payload_write:
  assumes i: "heap_inv h bs fl" and p: "payloads h bs p = Some n" and m: "\<And>q. q < p \<or> p + n \<le> q \<Longrightarrow> m q = bytes h q"
  shows "heap_inv (h\<lparr>bytes := m\<rparr>) bs fl"
proof -
  have h: "shaped h bs" and l: "listed h bs fl" using i by (simp_all add: heap_inv_def)
  note D = shapedD [OF h]
  obtain xs ys where bs: "bs = xs @ (n + 8, True) # ys" and px: "p = base h + extent xs"
    using payloads_split [OF h p] by blast
  have b4: "4 \<le> base h" by (simp add: base_def)
  have o: "q < base h + extent xs \<or> base h + extent xs + (n + 8) - 8 \<le> q \<Longrightarrow> m q = bytes h q" for q
    using px by (intro m) auto
  have t: "tagged m (base h) bs"
    using tagged_payload [OF D(3) [unfolded bs] D(2) [unfolded bs] b4 o] bs by simp
  have "load m (mem_brk h - 4) 4 = load (bytes h) (mem_brk h - 4) 4"
    by (rule load_cong, rule m) (use payload_bounds(2) [OF h p] in linarith)
  then have s: "shaped (h\<lparr>bytes := m\<rparr>) bs" using D t by (intro shaped_bytes [OF h]) auto
  have "chain m NULL fl (free_listp h) NULL \<longleftrightarrow> chain (bytes h) NULL fl (free_listp h) NULL"
  proof (rule chain_cong, rule m)
    fix x q assume x: "x \<in> set fl" and q: "x \<le> q" "q < x + 16"
    have "x \<in> set (frees (base h) xs) \<or> x \<in> set (frees (p + (n + 8)) ys)"
      using l x bs px by (auto simp: listed_def add.assoc)
    then show "q < p \<or> p + n \<le> q"
      using frees_range' [of x "base h" xs] frees_range' [of x "p + (n + 8)" ys] D(2) bs px q by fastforce
  qed
  then have "listed (h\<lparr>bytes := m\<rparr>) bs fl" using l by (simp add: listed_def)
  then show ?thesis using i s by (simp add: heap_inv_def)
qed

lemma payloads_bytes [simp]: "payloads (h\<lparr>bytes := m\<rparr>) bs = payloads h bs"
  by (simp add: payloads_def)

lemma payloads_base: "base h' = base h \<Longrightarrow> payloads h' bs = payloads h bs"
  by (simp add: payloads_def)

lemma payloads_replace:
  assumes h: "shaped h bs" "shaped h' bs'" "base h' = base h"
    and u: "used (base h) bs = us @ (p, s) # vs" "used (base h) bs' = us @ (p', s') # vs" "us \<noteq> []"
  shows "payloads h' bs' = (payloads h bs)(p := None, p' \<mapsto> s' - 8)"
proof -
  note U = used_prologue [OF h(1)] used_prologue [OF h(2), unfolded h(3)]
  obtain ws where ws: "us = (base h, 8) # ws" using U(1) u(1,3) by (cases us) auto
  have e: "used (base h + 8) (List.tl bs) = ws @ (p, s) # vs" "used (base h + 8) (List.tl bs') = ws @ (p', s') # vs"
    using U u(1,2) ws by simp_all
  have d: "distinct (map fst (used (base h + 8) (List.tl bs)))" "distinct (map fst (used (base h + 8) (List.tl bs')))"
    using used_distinct shapedD(2,5) [OF h(1)] shapedD(2,5) [OF h(2)] by fastforce+
  have n: "map_of (map (\<lambda>(p, s). (p, s - 8)) ws) p = None" "map_of (map (\<lambda>(p, s). (p, s - 8)) vs) p = None"
      "map_of (map (\<lambda>(p, s). (p, s - 8)) ws) p' = None" "map_of (map (\<lambda>(p, s). (p, s - 8)) vs) p' = None"
    using d unfolding e by (auto simp: map_of_eq_None_iff image_iff)
  show ?thesis
  proof
    fix q
    show "payloads h' bs' q = ((payloads h bs)(p := None, p' \<mapsto> s' - 8)) q"
      unfolding payloads_def h(3) e using n by (auto simp: map_add_def split: option.splits)
  qed
qed

subsection \<open>\<open>mm_realloc\<close>\<close>

text \<open>
  The block at \<open>p\<close> with \<open>n\<close> bytes for the user is now at \<open>r\<close>, with room for \<open>z\<close> bytes and with its contents; the
  other blocks and their contents have not changed.
\<close>

definition moved :: "mheap \<Rightarrow> (addr \<rightharpoonup> nat) \<Rightarrow> addr \<Rightarrow> nat \<Rightarrow> nat \<Rightarrow> addr \<Rightarrow> mheap \<Rightarrow> bool" where
  "moved h A p n z r h' \<longleftrightarrow> r \<noteq> NULL \<and> 8 dvd r \<and> (r = p \<or> A r = None) \<and>
     (\<exists>m. z \<le> m \<and> represents h' (A(p := None, r \<mapsto> m))) \<and>
     (\<forall>i. i < n \<longrightarrow> i < z \<longrightarrow> bytes h' (r + i) = bytes h (p + i)) \<and>
     (\<forall>q m j. A q = Some m \<longrightarrow> q \<noteq> p \<longrightarrow> j < m \<longrightarrow> bytes h' (q + j) = bytes h (q + j))"

lemma keeps_at:
  assumes k: "keeps (set u) m m'" and "(q, n + 8) \<in> set u" "j < n"
  shows "m' (q + j) = m (q + j)"
proof -
  have "q \<le> q + j" "q + j < q + (n + 8) - 8" using assms(3) by simp_all
  then show ?thesis using assms(1,2) unfolding keeps_def by blast
qed

lemma block_aligned:
  assumes "shaped h (xs @ ys)"
  shows "8 dvd base h + extent xs" "0 < base h + extent xs"
proof -
  have "fine xs" using shapedD(2) [OF assms] by simp
  then show "8 dvd base h + extent xs" using shaped_limits(5) [OF assms refl] fine_dvd by (simp add: dvd_add)
  show "0 < base h + extent xs" by (simp add: base_def)
qed

text \<open>A following free block is taken in.\<close>

lemma grow_forward:
  assumes i: "heap_inv h (xs @ (s, True) # (ns, False) # zs) fl" and x: "xs \<noteq> []" and p: "p = base h + extent xs"
    and n: "s = n + 8" and z: "z + 8 \<le> s + ns"
  shows "\<exists>h1 h'. remove_from_free_list h (p + s) = Some h1 \<and> put_tags h1 p (of_nat s + of_nat ns) 1 = Some h' \<and>
    moved h (payloads h (xs @ (s, True) # (ns, False) # zs)) p n z p h'"
proof -
  let ?bs = "xs @ (s, True) # (ns, False) # zs" and ?mid = "[(s, True), (ns, False)]"
  have h: "shaped h ?bs" and l: "listed h ?bs fl" and c: "coalesced ?bs" and fa: "set (frees (base h) ?bs) \<subseteq> set fl"
    using i by (simp_all add: heap_inv_def)
  have f: "fine ?bs" by (rule shapedD [OF h])
  have fl: "set fl = insert (p + s) (set (frees (base h) xs) \<union> set (frees (p + s + ns) zs))"
    using l fa p by (auto simp: listed_def)
  obtain f1 f2 where f12: "fl = f1 @ (p + s) # f2" "set (f1 @ f2) = set fl - {p + s}"
    using split_removed [of "p + s" fl] fl l by (auto simp: listed_def)
  obtain h1 where h1: "remove_from_free_list h (p + s) = Some h1" "relinks h h1 ?bs" "listed h1 ?bs (f1 @ f2)"
    using remove_ok [OF h l [unfolded f12(1)]] by blast
  have b1: "base h1 = base h" and s1: "shaped h1 (xs @ ?mid @ zs)" and k1: "keeps (set (used (base h) ?bs)) (bytes h) (bytes h1)"
    using h1(2) by (auto simp: relinks_def same_base)
  have l1: "listed h1 (xs @ ?mid @ zs) (f1 @ f2)" using h1(3) by simp
  have p1: "p = base h1 + extent xs" using p b1 by simp
  have ps: "p + s \<notin> set (frees (base h) xs)" "p + s \<notin> set (frees (p + s + ns) zs)"
    using frees_range' [of "p + s" "base h" xs] frees_range' [of "p + s" "p + s + ns" zs] f p by auto
  have sf: "set (f1 @ f2) = set (frees (base h) xs) \<union> set (frees (p + s + ns) zs)" unfolding f12(2) fl using ps by auto
  have nl: "set (f1 @ f2) \<inter> set (frees p ?mid) = {}" unfolding sf using ps by auto
  note P = put_block [OF s1 x _ _ _ p1 l1 nl, of "s + ns" True, simplified]
  have t: "8 \<le> s + ns" using n by simp
  let ?m = "two_tags (bytes h1) p (s + ns) (tag (s + ns) True)"
  have sz: "unat (of_nat s + of_nat ns :: 64 word) = s + ns" using unat_of_nat_block [of "s + ns"] P(6) t by simp
  have pt: "put_tags h1 p (of_nat s + of_nat ns) 1 = Some (h1\<lparr>bytes := ?m\<rparr>)" by (rule P(8) [OF t sz])
  have cc: "coalesced (xs @ (s + ns, True) # zs)"
    using c by (intro coalesced_alloc) (cases zs; auto simp: coalesced_append)+
  have inv: "heap_inv (h1\<lparr>bytes := ?m\<rparr>) (xs @ (s + ns, True) # zs) (f1 @ f2)"
    using P(1,2) t cc sf b1 p by (simp add: heap_inv_def add.assoc)
  have sh: "shaped (h1\<lparr>bytes := ?m\<rparr>) (xs @ (s + ns, True) # zs)" using inv by (simp add: heap_inv_def)
  have ub: "used (base h) ?bs = used (base h) xs @ (p, s) # used (p + (s + ns)) zs" using p by (simp add: add.assoc)
  have un: "used (base h) (xs @ (s + ns, True) # zs) = used (base h) xs @ (p, s + ns) # used (p + (s + ns)) zs"
    using p by (simp add: add.assoc)
  have "\<exists>ds. xs = (8, True) # ds" using shapedD(5) [OF h] x by (cases xs) auto
  then have "used (base h) xs \<noteq> []" by auto
  from payloads_replace [OF h sh _ ub un this] b1
  have pl: "payloads (h1\<lparr>bytes := ?m\<rparr>) (xs @ (s + ns, True) # zs) = (payloads h ?bs)(p := None, p \<mapsto> s + ns - 8)" by simp
  have k2: "keeps (set (used (base h) xs @ used (p + (s + ns)) zs)) (bytes h1) ?m" using P(3) t b1 by simp
  have own: "?m (p + j) = bytes h (p + j)" if "j < n" for j
  proof -
    have "?m (p + j) = bytes h1 (p + j)"
      using that n f p by (intro two_tags_other) (auto simp: base_def)
    also have "\<dots> = bytes h (p + j)" by (rule keeps_at [OF k1]) (use ub n that in auto)
    finally show ?thesis .
  qed
  have others: "?m (q + j) = bytes h (q + j)" if q: "payloads h ?bs q = Some m" "q \<noteq> p" "j < m" for q m j
  proof -
    have u: "(q, m + 8) \<in> set (used (base h) ?bs)" by (rule payloads_used [OF h q(1)])
    have "?m (q + j) = bytes h1 (q + j)" by (rule keeps_at [OF k2]) (use u ub q in auto)
    also have "\<dots> = bytes h (q + j)" by (rule keeps_at [OF k1]) (use u q in auto)
    finally show ?thesis .
  qed
  have "represents (h1\<lparr>bytes := ?m\<rparr>) ((payloads h ?bs)(p := None, p \<mapsto> s + ns - 8))"
    unfolding represents_def using inv pl by metis
  moreover have "z \<le> s + ns - 8" using z by simp
  ultimately have "moved h (payloads h ?bs) p n z p (h1\<lparr>bytes := ?m\<rparr>)"
    unfolding moved_def using own others block_aligned [OF h] p by auto
  then show ?thesis using h1(1) pt by blast
qed

text \<open>A free block in front is taken in, and the contents are moved to its beginning.\<close>

lemma grow_backward:
  assumes i: "heap_inv h (us @ (ps, False) # (s, True) # ys) fl" and x: "us \<noteq> []" and p: "prv = base h + extent us" "p = prv + ps"
    and n: "s = n + 8" "n \<le> ps" and z: "z + 8 \<le> ps + s"
  shows "\<exists>h1 h2 h'. remove_from_free_list h prv = Some h1 \<and> put_tags h1 prv (of_nat ps + of_nat s) 1 = Some h2 \<and>
    memcpy h2 prv p n = Some h' \<and> moved h (payloads h (us @ (ps, False) # (s, True) # ys)) p n z prv h'"
proof -
  let ?bs = "us @ (ps, False) # (s, True) # ys" and ?mid = "[(ps, False), (s, True)]"
  have h: "shaped h ?bs" and l: "listed h ?bs fl" and c: "coalesced ?bs" and fa: "set (frees (base h) ?bs) \<subseteq> set fl"
    using i by (simp_all add: heap_inv_def)
  have f: "fine ?bs" by (rule shapedD [OF h])
  have fl: "set fl = insert prv (set (frees (base h) us) \<union> set (frees (p + s) ys))"
    using l fa p by (auto simp: listed_def)
  obtain f1 f2 where f12: "fl = f1 @ prv # f2" "set (f1 @ f2) = set fl - {prv}"
    using split_removed [of prv fl] fl l by (auto simp: listed_def)
  obtain h1 where h1: "remove_from_free_list h prv = Some h1" "relinks h h1 ?bs" "listed h1 ?bs (f1 @ f2)"
    using remove_ok [OF h l [unfolded f12(1)]] by blast
  have b1: "base h1 = base h" and s1: "shaped h1 (us @ ?mid @ ys)" and k1: "keeps (set (used (base h) ?bs)) (bytes h) (bytes h1)"
    using h1(2) by (auto simp: relinks_def same_base)
  have l1: "listed h1 (us @ ?mid @ ys) (f1 @ f2)" using h1(3) by simp
  have p1: "prv = base h1 + extent us" using p b1 by simp
  have nf: "prv \<notin> set (frees (base h) us)" "prv \<notin> set (frees (p + s) ys)"
    using frees_range' [of prv "base h" us] frees_range' [of prv "p + s" ys] f p by auto
  have sf: "set (f1 @ f2) = set (frees (base h) us) \<union> set (frees (p + s) ys)" unfolding f12(2) fl using nf by auto
  have nl: "set (f1 @ f2) \<inter> set (frees prv ?mid) = {}" unfolding sf using nf by auto
  note P = put_block [OF s1 x _ _ _ p1 l1 nl, of "ps + s" True, simplified]
  have t: "8 \<le> ps + s" using n by simp
  let ?m = "two_tags (bytes h1) prv (ps + s) (tag (ps + s) True)"
  let ?h2 = "h1\<lparr>bytes := ?m\<rparr>"
  have sz: "unat (of_nat ps + of_nat s :: 64 word) = ps + s" using unat_of_nat_block [of "ps + s"] P(6) t by simp
  have pt: "put_tags h1 prv (of_nat ps + of_nat s) 1 = Some ?h2" by (rule P(8) [OF t sz])
  have cc: "coalesced (us @ (ps + s, True) # ys)"
    using c by (intro coalesced_alloc) (cases ys; auto simp: coalesced_append)+
  have inv: "heap_inv ?h2 (us @ (ps + s, True) # ys) (f1 @ f2)"
    using P(1,2) t cc sf b1 p by (simp add: heap_inv_def add.assoc)
  have sh: "shaped ?h2 (us @ (ps + s, True) # ys)" using inv by (simp add: heap_inv_def)
  have ub: "used (base h) ?bs = used (base h) us @ (p, s) # used (prv + (ps + s)) ys" using p by (simp add: add.assoc)
  have un: "used (base h) (us @ (ps + s, True) # ys) = used (base h) us @ (prv, ps + s) # used (prv + (ps + s)) ys"
    using p by (simp add: add.assoc)
  have "\<exists>ds. us = (8, True) # ds" using shapedD(5) [OF h] x by (cases us) auto
  then have une: "used (base h) us \<noteq> []" by auto
  from payloads_replace [OF h sh _ ub un une] b1
  have pl: "payloads ?h2 (us @ (ps + s, True) # ys) = (payloads h ?bs)(p := None, prv \<mapsto> ps + s - 8)" by simp
  define m' where "m' = (\<lambda>q. if prv \<le> q \<and> q < prv + n then bytes ?h2 (p + (q - prv)) else bytes ?h2 q)"
  have lim: "p + s \<le> mem_brk ?h2" "mem_start_brk ?h2 \<le> prv"
    using shapedD(6) [OF sh] p b1 by (simp_all add: base_def)
  have "in_heap ?h2 prv n" "in_heap ?h2 p n" "prv + n \<le> p" using lim p n unfolding in_heap_def by auto
  then have "memcpy ?h2 prv p n = Some (?h2\<lparr>bytes := (\<lambda>q. if prv \<le> q \<and> q < prv + n then bytes ?h2 (p + (q - prv)) else bytes ?h2 q)\<rparr>)"
    unfolding memcpy_def by (intro if_P) blast
  then have cp: "memcpy ?h2 prv p n = Some (?h2\<lparr>bytes := m'\<rparr>)" unfolding m'_def .
  have pp: "payloads ?h2 (us @ (ps + s, True) # ys) prv = Some (ps + s - 8)" using pl by simp
  have inv': "heap_inv (?h2\<lparr>bytes := m'\<rparr>) (us @ (ps + s, True) # ys) (f1 @ f2)"
    by (rule payload_write [OF inv pp]) (use n in \<open>auto simp: m'_def\<close>)
  have k2: "keeps (set (used (base h) us @ used (prv + (ps + s)) ys)) (bytes h1) ?m" using P(3) t b1 by simp
  have own: "m' (prv + j) = bytes h (p + j)" if "j < n" for j
  proof -
    have "m' (prv + j) = ?m (p + j)" using that by (simp add: m'_def)
    also have "\<dots> = bytes h1 (p + j)"
      using that n f p by (intro two_tags_other) (auto simp: base_def)
    also have "\<dots> = bytes h (p + j)" by (rule keeps_at [OF k1]) (use ub n that in auto)
    finally show ?thesis .
  qed
  have others: "m' (q + j) = bytes h (q + j)" if q: "payloads h ?bs q = Some m" "q \<noteq> p" "j < m" for q m j
  proof -
    have u: "(q, m + 8) \<in> set (used (base h) ?bs)" by (rule payloads_used [OF h q(1)])
    then have u': "(q, m + 8) \<in> set (used (base h) us @ used (prv + (ps + s)) ys)" using ub q(2) by auto
    then have "q + (m + 8) \<le> prv \<or> p + s \<le> q"
      using used_range [of q "m + 8" "base h" us] used_range [of q "m + 8" "prv + (ps + s)" ys] p by (auto simp: add.assoc)
    then have "m' (q + j) = ?m (q + j)" using q(3) p n by (auto simp: m'_def)
    also have "\<dots> = bytes h1 (q + j)" by (rule keeps_at [OF k2 u']) (use q in auto)
    also have "\<dots> = bytes h (q + j)" by (rule keeps_at [OF k1]) (use u q in auto)
    finally show ?thesis .
  qed
  have "payloads (?h2\<lparr>bytes := m'\<rparr>) (us @ (ps + s, True) # ys) = (payloads h ?bs)(p := None, prv \<mapsto> ps + s - 8)"
    using pl by (simp add: payloads_def)
  then have rep: "represents (?h2\<lparr>bytes := m'\<rparr>) ((payloads h ?bs)(p := None, prv \<mapsto> ps + s - 8))"
    unfolding represents_def using inv' by metis
  have free: "payloads h ?bs prv = None"
  proof (rule ccontr)
    assume "payloads h ?bs prv \<noteq> None"
    then obtain m where "payloads h ?bs prv = Some m" by auto
    from payloads_used [OF h this] have "(prv, m + 8) \<in> set (used (base h) us) \<or> (prv, m + 8) \<in> set (used (prv + (ps + s)) ys)"
      using ub f p n by auto
    then show False using used_range [of prv "m + 8" "base h" us] used_range [of prv "m + 8" "prv + (ps + s)" ys] p n by auto
  qed
  have "z \<le> ps + s - 8" using z by simp
  then have "moved h (payloads h ?bs) p n z prv (?h2\<lparr>bytes := m'\<rparr>)"
    unfolding moved_def using own others block_aligned [OF h] p rep free by auto
  then show ?thesis using h1(1) pt cp by blast
qed

text \<open>Otherwise a new block is allocated, the contents are copied, and the old block is freed.\<close>

lemma reallocate:
  assumes i: "heap_inv h bs fl" and p: "payloads h bs p = Some n" "16 \<le> n" and sz: "0 < unat sz" "unat sz \<le> 2 ^ 29"
    and k: "k \<le> n" "k \<le> unat sz" "\<And>j. j < n \<Longrightarrow> j < unat sz \<Longrightarrow> j < k"
  shows "\<exists>r h1. mm_malloc h sz = Some (r, h1) \<and>
    (r = NULL \<and> h1 = h \<and> mem_max_addr h < mem_brk h + 3 * unat sz + 4096 \<or>
     r \<noteq> NULL \<and> (\<exists>h2 h'. memcpy h1 r p k = Some h2 \<and> mm_free h2 p = Some h' \<and> moved h (payloads h bs) p n (unat sz) r h'))"
proof -
  let ?A = "payloads h bs"
  have h: "shaped h bs" using i by (simp add: heap_inv_def)
  obtain r h1 where m: "mm_malloc h sz = Some (r, h1)" and k1: "keeps (set (used (base h) bs)) (bytes h) (bytes h1)"
    and b1: "base h1 = base h"
    and cases: "r = NULL \<and> h1 = h \<and> mem_max_addr h < mem_brk h + 3 * unat sz + 4096 \<or>
      r \<noteq> NULL \<and> 8 dvd r \<and> ?A r = None \<and> (\<exists>n. unat sz \<le> n \<and> represents h1 (?A(r \<mapsto> n)))"
    using malloc_ok [OF i sz] by blast
  show ?thesis
  proof (cases "r = NULL")
    case True
    then show ?thesis using m cases by blast
  next
    case False
    then obtain c bs1 fl1 where r: "8 dvd r" "?A r = None" and c: "unat sz \<le> c" and i1: "heap_inv h1 bs1 fl1"
      and A1: "payloads h1 bs1 = ?A(r \<mapsto> c)"
      using cases unfolding represents_def by auto
    have s1: "shaped h1 bs1" using i1 by (simp add: heap_inv_def)
    have pr: "p \<noteq> r" using p(1) r(2) by auto
    have a: "payloads h1 bs1 r = Some c" "payloads h1 bs1 p = Some n" using A1 p(1) pr by simp_all
    have ap: "r + (c + 8) \<le> p \<or> p + (n + 8) \<le> r"
      using used_apart [OF shapedD(2) [OF s1] payloads_used [OF s1 a(1)] payloads_used [OF s1 a(2)]] pr by simp
    define m' where "m' = (\<lambda>q. if r \<le> q \<and> q < r + k then bytes h1 (p + (q - r)) else bytes h1 q)"
    let ?h2 = "h1\<lparr>bytes := m'\<rparr>"
    have "mem_start_brk h1 \<le> r" "r + k \<le> mem_brk h1" "mem_start_brk h1 \<le> p" "p + k \<le> mem_brk h1" "r + k \<le> p \<or> p + k \<le> r"
      using payload_bounds [OF s1 a(1)] payload_bounds [OF s1 a(2)] ap k(1,2) c by linarith+
    then have cp: "memcpy h1 r p k = Some ?h2"
      by (simp add: memcpy_def in_heap_def m'_def)
    have i2: "heap_inv ?h2 bs1 fl1"
      by (rule payload_write [OF i1 a(1)]) (use k c in \<open>auto simp: m'_def\<close>)
    have p2: "payloads ?h2 bs1 p = Some n" using a(2) by simp
    obtain h' where h': "mm_free ?h2 p = Some h'" "represents h' ((payloads ?h2 bs1)(p := None))"
      "\<forall>q m j. payloads ?h2 bs1 q = Some m \<longrightarrow> q \<noteq> p \<longrightarrow> j < m \<longrightarrow> bytes h' (q + j) = bytes ?h2 (q + j)"
      using free_ok [OF i2 p2 p(2)] by blast
    have "(payloads ?h2 bs1)(p := None) = ?A(p := None, r \<mapsto> c)" using A1 pr by (simp add: fun_upd_twist)
    then have rep: "represents h' (?A(p := None, r \<mapsto> c))" using h'(2) by simp
    have old: "bytes h1 (q + j) = bytes h (q + j)" if "?A q = Some m" "j < m" for q m j
      by (rule keeps_at [OF k1 payloads_used [OF h that(1)] that(2)])
    have own: "bytes h' (r + j) = bytes h (p + j)" if j: "j < n" "j < unat sz" for j
    proof -
      have "bytes h' (r + j) = m' (r + j)" using h'(3) a(1) pr j c by simp
      also have "\<dots> = bytes h1 (p + j)" using k(3) [OF j] by (simp add: m'_def)
      also have "\<dots> = bytes h (p + j)" using old [OF p(1) j(1)] .
      finally show ?thesis .
    qed
    have others: "bytes h' (q + j) = bytes h (q + j)" if q: "?A q = Some m" "q \<noteq> p" "j < m" for q m j
    proof -
      have qr: "q \<noteq> r" using q(1) r(2) by auto
      have q1: "payloads h1 bs1 q = Some m" using A1 q(1) qr by simp
      have "r + (c + 8) \<le> q \<or> q + (m + 8) \<le> r"
        using used_apart [OF shapedD(2) [OF s1] payloads_used [OF s1 a(1)] payloads_used [OF s1 q1]] qr by simp
      then have "m' (q + j) = bytes h1 (q + j)" using k c q(3) by (auto simp: m'_def)
      moreover have "bytes h' (q + j) = m' (q + j)" using h'(3) q1 q by simp
      ultimately show ?thesis using old [OF q(1,3)] by simp
    qed
    have "moved h ?A p n (unat sz) r h'"
      unfolding moved_def using False r rep c own others by blast
    then show ?thesis using m cp h'(1) False by blast
  qed
qed

end
