(* ===== verification/MallocSpec.thy ===== *)
theory MallocSpec
  imports MallocRealloc
begin

text \<open>
  What the allocator promises. \<open>represents h A\<close> says that the heap \<open>h\<close> is in good order and that \<open>A\<close> maps the
  addresses of the blocks that the users have to their sizes.
\<close>

lemma represents_blocks:
  assumes r: "represents h A" and p: "A p = Some m"
  shows "mem_start_brk h \<le> p" "p + m \<le> mem_brk h" "8 dvd p" "8 dvd m" "8 \<le> m \<or> m = 0"
    "A q = Some n \<Longrightarrow> p \<noteq> q \<Longrightarrow> p + m \<le> q \<or> q + n \<le> p"
proof -
  obtain bs fl where i: "heap_inv h bs fl" and A: "A = payloads h bs" using r unfolding represents_def by blast
  have h: "shaped h bs" using i by (simp add: heap_inv_def)
  have p': "payloads h bs p = Some m" using p A by simp
  note b = payload_bounds [OF h p']
  show "mem_start_brk h \<le> p" "p + m \<le> mem_brk h" using b by linarith+
  obtain xs ys where x: "bs = xs @ (m + 8, True) # ys" "p = base h + extent xs" using payloads_split [OF h p'] by blast
  show "8 dvd p" using block_aligned(1) [OF h [unfolded x(1)]] x(2) by simp
  have d: "8 dvd m + 8" using shapedD(2) [OF h] x(1) by simp
  then show "8 dvd m" by simp
  then show "8 \<le> m \<or> m = 0" using dvd_imp_le by fastforce
  show "p + m \<le> q \<or> q + n \<le> p" if "A q = Some n" "p \<noteq> q"
    using used_apart [OF shapedD(2) [OF h] payloads_used [OF h p'] payloads_used [OF h, of q n]] that A by auto
qed

lemma represents_malloc:
  assumes r: "represents h A" and sz: "0 < unat sz" "unat sz \<le> 2 ^ 29"
  shows "\<exists>p h'. mm_malloc h sz = Some (p, h') \<and>
    (\<forall>q n i. A q = Some n \<longrightarrow> i < n \<longrightarrow> bytes h' (q + i) = bytes h (q + i)) \<and>
    (p = NULL \<and> h' = h \<and> mem_max_addr h < mem_brk h + 3 * unat sz + 4096 \<or>
     p \<noteq> NULL \<and> 8 dvd p \<and> A p = None \<and> (\<exists>n. unat sz \<le> n \<and> represents h' (A(p \<mapsto> n))))"
proof -
  obtain bs fl where i: "heap_inv h bs fl" and A: "A = payloads h bs" using r unfolding represents_def by blast
  have h: "shaped h bs" using i by (simp add: heap_inv_def)
  from malloc_ok [OF i sz] obtain p h' where m: "mm_malloc h sz = Some (p, h')" "keeps (set (used (base h) bs)) (bytes h) (bytes h')"
    "p = NULL \<and> h' = h \<and> mem_max_addr h < mem_brk h + 3 * unat sz + 4096 \<or>
     p \<noteq> NULL \<and> 8 dvd p \<and> payloads h bs p = None \<and> (\<exists>n. unat sz \<le> n \<and> represents h' ((payloads h bs)(p \<mapsto> n)))" by blast
  have "bytes h' (q + i) = bytes h (q + i)" if "A q = Some n" "i < n" for q n i
    using keeps_at [OF m(2) payloads_used [OF h]] that A by blast
  then show ?thesis using m(1,3) unfolding A by blast
qed

lemma represents_free:
  assumes r: "represents h A" and p: "A p = Some n" "9 \<le> n"
  shows "\<exists>h'. mm_free h p = Some h' \<and> represents h' (A(p := None)) \<and>
    (\<forall>q m j. A q = Some m \<longrightarrow> q \<noteq> p \<longrightarrow> j < m \<longrightarrow> bytes h' (q + j) = bytes h (q + j))"
proof -
  obtain bs fl where i: "heap_inv h bs fl" and A: "A = payloads h bs" using r unfolding represents_def by blast
  have "8 dvd n" using represents_blocks(4) [OF r p(1)] .
  then have "16 \<le> n" using p(2) by presburger
  with free_ok [OF i, of p n] p(1) A show ?thesis by blast
qed

lemma represents_write:
  assumes r: "represents h A" and p: "A p = Some n" "i < n"
  shows "represents (h\<lparr>bytes := (bytes h)(p + i := v)\<rparr>) A"
proof -
  obtain bs fl where inv: "heap_inv h bs fl" and A: "A = payloads h bs" using r unfolding represents_def by blast
  have "payloads h bs p = Some n" using p(1) A by simp
  then have "heap_inv (h\<lparr>bytes := (bytes h)(p + i := v)\<rparr>) bs fl"
    by (rule payload_write [OF inv]) (use p(2) in auto)
  then show ?thesis unfolding represents_def A by (metis payloads_bytes)
qed

lemma represents_realloc:
  assumes r: "represents h A" and p: "A p = Some n" "9 \<le> n" and sz: "0 < unat sz" "unat sz \<le> 2 ^ 29"
    and o: "\<And>prv s. PREV_BLKP h p = Some prv \<Longrightarrow> GET_ALLOC h (HDRP prv) = Some 0 \<Longrightarrow> GET_SIZE h (HDRP prv) = Some s \<Longrightarrow> n \<le> unat s"
  shows "\<exists>r h'. mm_realloc h p sz = Some (r, h') \<and>
    (r = NULL \<and> h' = h \<and> mem_max_addr h < mem_brk h + 3 * unat sz + 4096 \<or> moved h A p n (unat sz) r h')"
proof -
  obtain bs fl where i: "heap_inv h bs fl" and A: "A = payloads h bs" using r unfolding represents_def by blast
  have h: "shaped h bs" using i by (simp add: heap_inv_def)
  have p': "payloads h bs p = Some n" using p A by simp
  have n16: "16 \<le> n" using p(2) represents_blocks(4) [OF r p(1)] by presburger
  obtain xs ys where bs: "bs = xs @ (n + 8, True) # ys" and px: "p = base h + extent xs" and x: "xs \<noteq> []"
    using payloads_split [OF h p'] by blast
  obtain us ps pa where xs: "xs = us @ [(ps, pa)]" using x by (cases xs rule: rev_cases) auto
  let ?s = "n + 8" and ?prv = "base h + extent us"
  have pp: "p = ?prv + ps" using px xs by simp
  have h': "shaped h (us @ (ps, pa) # (?s, True) # ys)" using h bs xs by simp
  note R = block_reads [OF h' refl pp]
  have s25: "unat (of_nat ?s :: 64 word) = ?s" using unat_of_nat_block [OF R(15)] .
  have p0: "p \<noteq> NULL" using pp by (simp add: base_def)
  have sz0: "sz \<noteq> 0" using sz by auto
  let ?a = "ALIGN (sz + of_nat DSIZE)"
  have "unat (sz + of_nat DSIZE) = unat sz + 8" using sz by (simp add: unat_word_ariths DSIZE_def)
  then have a: "unat ?a = (unat sz + 15) div 8 * 8" using sz by (simp add: ALIGN_unat)
  have az: "unat sz + 8 \<le> unat ?a" unfolding a by presburger
  have sub: "unat (of_nat ?s - of_nat DSIZE :: 64 word) = n" by (simp add: DSIZE_def unat_of_nat) (use R(15) in simp)
  show ?thesis
  proof (cases "?a \<le> of_nat ?s")
    case True
    then have "mm_realloc h p sz = Some (p, h)" using p0 sz0 R(5) by (simp add: mm_realloc_def Let_def)
    moreover have "unat sz \<le> n" using True az s25 by (simp add: word_le_nat_alt)
    then have "moved h A p n (unat sz) p h"
      unfolding moved_def using p0 r p(1) represents_blocks(3) [OF r p(1)] by (auto simp: fun_upd_idem)
    ultimately show ?thesis by blast
  next
    case False
    note shrink = this
    have nx: "snd (next_tag ys) \<or> (\<exists>ns zs. ys = (ns, False) # zs)"
    proof (cases ys)
      case (Cons y zs)
      then show ?thesis by (cases y) auto
    qed simp
    show ?thesis
    proof (cases "\<not> snd (next_tag ys) \<and> ?a \<le> of_nat ?s + of_nat (fst (next_tag ys))")
      case True
      then obtain ns zs where ys: "ys = (ns, False) # zs" using nx by blast
      have ns: "24 \<le> ns" "ns < 2 ^ 25" using shaped_block_size(2,4) [OF h', of ns False] ys by simp_all
      have u: "unat (of_nat ?s + of_nat ns :: 64 word) = ?s + ns"
        using ns R(15) by (simp add: unat_of_nat of_nat_add [symmetric] del: of_nat_add)
      have ns0: "(of_nat ns :: 64 word) \<noteq> 0" using ns by (simp add: word_unat_eq_iff unat_of_nat)
      have "unat sz + 8 \<le> ?s + ns" using True az u ys by (simp add: word_le_nat_alt)
      from grow_forward [OF _ x px refl this] i bs ys obtain h1 h2 where g: "remove_from_free_list h (p + ?s) = Some h1"
          "put_tags h1 p (of_nat ?s + of_nat ns) 1 = Some h2" "moved h A p n (unat sz) p h2"
        unfolding A by blast
      have "mm_realloc h p sz = Some (p, h2)"
        using p0 sz0 R(5,6,8,9) shrink True ys ns0 g(1,2) by (simp add: mm_realloc_def Let_def)
      then show ?thesis using g(3) by blast
    next
      case False
      note forward = this
      show ?thesis
      proof (cases "\<not> pa \<and> ?a \<le> of_nat ps + of_nat ?s")
        case True
        have ps: "24 \<le> ps" using shaped_block_size(4) [OF h', of ps False] True by simp
        have u: "unat (of_nat ps + of_nat ?s :: 64 word) = ps + ?s"
          using R(14,15) by (simp add: unat_of_nat of_nat_add [symmetric] del: of_nat_add)
        have ps0: "(of_nat ps :: 64 word) \<noteq> 0" using ps R(14) by (simp add: word_unat_eq_iff unat_of_nat)
        have "unat sz + 8 \<le> ps + ?s" using True az u by (simp add: word_le_nat_alt)
        moreover have "n \<le> ps"
          using o [OF R(1) _ R(4)] next_header(2) [OF h' refl] True unat_of_nat_block [OF R(14)] by simp
        moreover have "us \<noteq> []" using shapedD(5) [OF h'] True by (cases us) auto
        moreover have "heap_inv h (us @ (ps, False) # (?s, True) # ys) fl" using i bs xs True by simp
        ultimately obtain h1 h2 h3 where g: "remove_from_free_list h ?prv = Some h1"
            "put_tags h1 ?prv (of_nat ps + of_nat ?s) 1 = Some h2" "memcpy h2 ?prv p n = Some h3"
            "moved h (payloads h (us @ (ps, False) # (?s, True) # ys)) p n (unat sz) ?prv h3"
          using grow_backward [OF _ _ refl pp refl] by blast
        have A': "A = payloads h (us @ (ps, False) # (?s, True) # ys)" using A bs xs True by simp
        have "mm_realloc h p sz = Some (?prv, h3)"
          unfolding mm_realloc_def Let_def
          using p0 sz0 R(1,4,5,6,8,9) next_header(2) [OF h' refl] shrink forward True ps0 g(1-3) sub by auto
        then show ?thesis using g(4) unfolding A' by blast
      next
        case False
        let ?k = "if sz < of_nat ?s - of_nat DSIZE then sz else of_nat ?s - of_nat DSIZE"
        have k: "unat ?k = min (unat sz) n" using sub by (auto simp: word_less_nat_alt min_def)
        have cond: "\<not> ((if pa then 1 else 0) = (0 :: 32 word) \<and> (of_nat ps :: 64 word) \<noteq> 0 \<and> ?a \<le> of_nat ps + of_nat ?s)"
          using False by auto
        have e: "mm_realloc h p sz = do {
            (newptr, h) \<leftarrow> mm_malloc h sz;
            if newptr = NULL then Some (NULL, h)
            else do { h \<leftarrow> memcpy h newptr p (unat ?k); h \<leftarrow> mm_free h p; Some (newptr, h) } }"
          unfolding mm_realloc_def Let_def
          using p0 sz0 R(1,4,5,6,8,9) next_header(2) [OF h' refl] shrink forward cond by (auto simp del: of_nat_add)
        from reallocate [OF i p' n16 sz, of "min (unat sz) n"] obtain r h1 where m: "mm_malloc h sz = Some (r, h1)"
          "r = NULL \<and> h1 = h \<and> mem_max_addr h < mem_brk h + 3 * unat sz + 4096 \<or>
           r \<noteq> NULL \<and> (\<exists>h2 h'. memcpy h1 r p (min (unat sz) n) = Some h2 \<and> mm_free h2 p = Some h' \<and>
             moved h (payloads h bs) p n (unat sz) r h')"
          by auto
        show ?thesis using m e k unfolding A by auto
      qed
    qed
  qed
qed

subsection \<open>Freeing a block that is too small for the links\<close>

lemma store_zero: "p \<le> q \<Longrightarrow> q < p + n \<Longrightarrow> store m p n 0 q = 0"
proof (induction n arbitrary: m p)
  case (Suc n)
  show ?case
  proof (cases "p = q")
    case True
    then show ?thesis by (simp add: store_other)
  next
    case False
    then have "store (m(p := 0)) (p + 1) n 0 q = 0" using Suc.prems by (intro Suc.IH) linarith+
    then show ?thesis by simp
  qed
qed simp

lemma load_zero: "(\<And>q. p \<le> q \<Longrightarrow> q < p + n \<Longrightarrow> m q = 0) \<Longrightarrow> load m p n = 0"
  by (induction n arbitrary: p) simp_all

lemma free_small:
  assumes r: "represents h A" and p: "A p = Some 8"
    and nx: "GET_ALLOC h (HDRP (p + 16)) = Some 1" and pv: "PREV_BLKP h p = Some prv" "GET_ALLOC h (HDRP prv) = Some 1"
  shows "\<exists>h'. mm_free h p = Some h' \<and> GET h' (HDRP (p + 16)) = Some 0"
proof -
  obtain bs fl where i: "heap_inv h bs fl" and A: "A = payloads h bs" using r unfolding represents_def by blast
  have h: "shaped h bs" and l: "listed h bs fl" using i by (simp_all add: heap_inv_def)
  have p': "payloads h bs p = Some 8" using p A by simp
  obtain xs ys where bs: "bs = xs @ (16, True) # ys" and px: "p = base h + extent xs" and x: "xs \<noteq> []"
    using payloads_split [OF h p'] by auto
  obtain us ps pa where xs: "xs = us @ [(ps, pa)]" using x by (cases xs rule: rev_cases) auto
  let ?prv = "base h + extent us"
  have pp: "p = ?prv + ps" using px xs by simp
  have h': "shaped h (us @ (ps, pa) # (16, True) # ys)" using h bs xs by simp
  note R = block_reads [OF h' refl pp]
  have prv: "prv = ?prv" using pv(1) R(1) by simp
  have pa: "pa" using pv(2) next_header(2) [OF h' refl] prv by (simp split: if_splits)
  have na: "snd (next_tag ys)" using nx R(8) by (simp split: if_splits)
  have f: "fine bs" by (rule shapedD [OF h])
  have lim: "mem_start_brk h \<le> p - 4" "p + 16 \<le> mem_brk h" "4 \<le> p" using payload_bounds [OF h p'] by simp_all
  let ?h1 = "h\<lparr>bytes := two_tags (bytes h) p 16 (tag 16 False)\<rparr>"
  have pt: "put_tags h p 16 0 = Some ?h1"
    using lim PACK_tag(2) [of 16 16] by (intro put_tags_eq) (simp_all add: in_heap_def)
  have R1: "PREV_BLKP ?h1 p = Some ?prv" "FTRP ?h1 ?prv = Some (p - 8)" "GET_ALLOC ?h1 (p - 8) = Some 1"
      "NEXT_BLKP ?h1 p = Some (p + 16)" "GET_ALLOC ?h1 (HDRP (p + 16)) = Some 1" "GET_SIZE ?h1 (HDRP p) = Some 16"
  proof -
    have o: "load (two_tags (bytes h) p 16 (tag 16 False)) q 4 = load (bytes h) q 4" if "q + 4 \<le> p - 4 \<or> p \<le> q \<and> q + 4 \<le> p + 8 \<or> p + 12 \<le> q" for q
      by (rule load_cong, rule two_tags_other) (use that lim in auto)
    have g: "GET ?h1 q = GET h q" if "q + 4 \<le> p - 4 \<or> p \<le> q \<and> q + 4 \<le> p + 8 \<or> p + 12 \<le> q" for q
      using o [OF that] by (simp add: GET_def)
    have q: "p - 8 + 4 \<le> p - 4" "?prv - 4 + 4 \<le> p - 4" "p + 12 \<le> p + 16 - 4" using lim R(11,13) pp by simp_all
    show "PREV_BLKP ?h1 p = Some ?prv" using R(1) g [of "p - 8"] q by (simp add: PREV_BLKP_def DSIZE_def GET_SIZE_def)
    show "FTRP ?h1 ?prv = Some (p - 8)" using R(2) g [of "?prv - 4"] q by (simp add: FTRP_def HDRP_def WSIZE_def GET_SIZE_def)
    show "GET_ALLOC ?h1 (p - 8) = Some 1" using R(3) pa g [of "p - 8"] q by (simp add: GET_ALLOC_def)
    show "GET_ALLOC ?h1 (HDRP (p + 16)) = Some 1" using R(8) na g [of "p + 16 - 4"] q by (simp add: GET_ALLOC_def HDRP_def WSIZE_def)
    have t: "tag 16 False < 2 ^ 32" by (simp add: tag_def)
    show s: "GET_SIZE ?h1 (HDRP p) = Some 16"
      using GET_tag(1) [of ?h1 "p - 4" 16 False] two_tags_load(1) [OF t, of 16 p] lim by (simp add: in_heap_def HDRP_def WSIZE_def)
    then show "NEXT_BLKP ?h1 p = Some (p + 16)" by (simp add: NEXT_BLKP_def HDRP_def)
  qed
  have c: "coalesce ?h1 p = map_option (\<lambda>h. (p, h)) (add_to_free_list ?h1 p)"
    using R1 by (simp add: coalesce_def map_option_case option.case_eq_if) (cases "add_to_free_list ?h1 p"; simp)
  let ?f = "free_listp h"
  define h2 where "h2 = ?h1\<lparr>bytes := store (bytes ?h1) p 8 ?f\<rparr>"
  define h3 where "h3 = h2\<lparr>bytes := store (bytes h2) (p + 8) 8 NULL\<rparr>"
  have 2: "put_NEXT_FREE ?h1 p (free_listp ?h1) = Some h2" "put_PREV_FREE h2 p NULL = Some h3" "free_listp h3 = ?f"
    using lim by (simp_all add: put_NEXT_FREE_def put_PREV_FREE_def h2_def h3_def in_heap_def DSIZE_def)
  have z3: "bytes h3 q = 0" if "p + 8 \<le> q" "q < p + 16" for q
    using that by (simp add: h3_def store_zero)
  have "\<exists>h'. add_to_free_list ?h1 p = Some h' \<and> mem_brk h' = mem_brk h \<and> mem_start_brk h' = mem_start_brk h \<and>
      (\<forall>q. p + 8 \<le> q \<and> q < p + 16 \<longrightarrow> bytes h' q = 0)"
  proof (cases "?f = NULL")
    case True
    then have "add_to_free_list ?h1 p = Some (h3\<lparr>free_listp := p\<rparr>)" using 2 by (simp add: add_to_free_list_def)
    then show ?thesis using z3 by (simp add: h3_def h2_def)
  next
    case False
    have "chain (bytes h) NULL fl ?f NULL" using l by (simp add: listed_def)
    then have "?f \<in> set fl" using False by (cases fl) auto
    then have ff: "?f \<in> set (frees (base h) xs) \<or> ?f \<in> set (frees (p + 16) ys)"
      using l bs px by (auto simp: listed_def add.assoc)
    have fr: "mem_start_brk h \<le> ?f" "?f + 16 \<le> mem_brk h" "?f + 24 \<le> p \<or> p + 16 \<le> ?f"
      using ff frees_range' [of ?f "base h" xs] frees_range' [of ?f "p + 16" ys] f bs px lim shapedD(6) [OF h]
      by (auto simp: base_def)
    have "put_PREV_FREE h3 ?f p = Some (h3\<lparr>bytes := store (bytes h3) (?f + 8) 8 p\<rparr>)"
      using fr by (simp add: put_PREV_FREE_def in_heap_def DSIZE_def h3_def h2_def)
    then have a: "add_to_free_list ?h1 p = Some (h3\<lparr>bytes := store (bytes h3) (?f + 8) 8 p, free_listp := p\<rparr>)"
      using 2 False by (simp add: add_to_free_list_def)
    have "store (bytes h3) (?f + 8) 8 p q = 0" if "p + 8 \<le> q" "q < p + 16" for q
    proof -
      have "store (bytes h3) (?f + 8) 8 p q = bytes h3 q" by (rule store_other) (use that fr in auto)
      then show ?thesis using z3 [OF that] by simp
    qed
    then show ?thesis using a by (simp add: h3_def h2_def)
  qed
  then obtain h' where a: "add_to_free_list ?h1 p = Some h'" and b: "mem_brk h' = mem_brk h" "mem_start_brk h' = mem_start_brk h"
    and z: "\<And>q. p + 8 \<le> q \<Longrightarrow> q < p + 16 \<Longrightarrow> bytes h' q = 0" by blast
  have "mm_free h p = Some h'" using R(5) pt c a by (simp add: mm_free_def)
  moreover have "load (bytes h') (p + 12) 4 = 0" by (rule load_zero, rule z) simp_all
  moreover have "in_heap h' (p + 12) 4" unfolding in_heap_def b using lim by linarith
  moreover have "HDRP (p + 16) = p + 12" by (simp add: HDRP_def WSIZE_def)
  ultimately have g: "mm_free h p = Some h'" "GET h' (HDRP (p + 16)) = Some 0" by (simp_all add: GET_def)
  then show ?thesis by blast
qed

end
