(* ===== verification/MallocRun.thy ===== *)
theory MallocRun
  imports MallocSpec
begin

text \<open>
  The allocator under the operations of its users. \<open>heap_run h R\<close> holds of the heaps \<open>h\<close> that the calls of a
  user lead to, where \<open>R\<close> maps the address of each block the user has to the number of bytes that were asked for.
  The user keeps to three rules: a request is for at most \<open>2 ^ 29\<close> bytes, a block that is freed or moved was asked
  for with at least nine bytes (a smaller one has no room for the links of the free list), and no block is moved to
  a free block before it that it does not fit into, which \<open>mm_realloc\<close> copies with \<open>memcpy\<close>.
\<close>

definition copies_apart :: "mheap \<Rightarrow> addr \<Rightarrow> bool" where
  "copies_apart h p \<longleftrightarrow> (case PREV_BLKP h p of None \<Rightarrow> False | Some prv \<Rightarrow>
     GET_ALLOC h (HDRP prv) \<noteq> Some 0 \<or>
     (case (GET_SIZE h (HDRP prv), GET_SIZE h (HDRP p)) of
        (Some s, Some z) \<Rightarrow> unat z \<le> unat s + DSIZE
      | _ \<Rightarrow> False))"

inductive heap_run :: "mheap \<Rightarrow> (addr \<rightharpoonup> nat) \<Rightarrow> bool" where
  run_init: "heap_run h1 Map.empty"
    if "mem_init h0 start = Some h" "8 dvd start" "start + MAX_HEAP < 2 ^ 64" "mm_init h = Some (0, h1)"
| run_malloc: "heap_run h1 (if p = NULL then R else R(p \<mapsto> unat sz))"
    if "heap_run h R" "0 < unat sz" "unat sz \<le> 2 ^ 29" "mm_malloc h sz = Some (p, h1)"
| run_free: "heap_run h1 (R(p := None))"
    if "heap_run h R" "R p = Some n" "9 \<le> n" "mm_free h p = Some h1"
| run_realloc: "heap_run h1 (if q = NULL then R else R(p := None, q \<mapsto> unat sz))"
    if "heap_run h R" "R p = Some n" "9 \<le> n" "0 < unat sz" "unat sz \<le> 2 ^ 29" "copies_apart h p"
      "mm_realloc h p sz = Some (q, h1)"
| run_write: "heap_run (h\<lparr>bytes := (bytes h)(p + i := v)\<rparr>) R"
    if "heap_run h R" "R p = Some n" "i < n"

inductive_cases heap_runE: "heap_run h R"

lemma represents_size:
  assumes r: "represents h A" and p: "A p = Some n"
  shows "\<exists>z. GET_SIZE h (HDRP p) = Some z \<and> unat z = n + 8"
proof -
  obtain bs fl where i: "heap_inv h bs fl" and A: "A = payloads h bs" using r unfolding represents_def by blast
  have h: "shaped h bs" using i by (simp add: heap_inv_def)
  have p': "payloads h bs p = Some n" using p A by simp
  obtain xs ys where bs: "bs = xs @ (n + 8, True) # ys" and px: "p = base h + extent xs" and x: "xs \<noteq> []"
    using payloads_split [OF h p'] by blast
  obtain us ps pa where xs: "xs = us @ [(ps, pa)]" using x by (cases xs rule: rev_cases) auto
  have pp: "p = base h + extent us + ps" using px xs by simp
  have h': "shaped h (us @ (ps, pa) # (n + 8, True) # ys)" using h bs xs by simp
  note R = block_reads [OF h' refl pp]
  show ?thesis using R(5) unat_of_nat_block [OF R(15)] by simp
qed

lemma copies_apartD:
  assumes "copies_apart h p" "represents h A" "A p = Some n" "PREV_BLKP h p = Some prv"
    "GET_ALLOC h (HDRP prv) = Some 0" "GET_SIZE h (HDRP prv) = Some s"
  shows "n \<le> unat s"
  using assms represents_size [of h A p n] by (auto simp: copies_apart_def DSIZE_def)

text \<open>What the user has is part of what the allocator has given away.\<close>

definition grants :: "(addr \<rightharpoonup> nat) \<Rightarrow> (addr \<rightharpoonup> nat) \<Rightarrow> bool" where
  "grants A R \<longleftrightarrow> dom A = dom R \<and> (\<forall>p n. R p = Some n \<longrightarrow> (\<exists>m\<ge>n. A p = Some m))"

lemma grants_empty [simp]: "grants Map.empty Map.empty"
  by (simp add: grants_def)

lemma grants_add: "grants A R \<Longrightarrow> n \<le> m \<Longrightarrow> grants (A(p \<mapsto> m)) (R(p \<mapsto> n))"
  by (auto simp: grants_def)

lemma grants_del: "grants A R \<Longrightarrow> grants (A(p := None)) (R(p := None))"
  by (auto simp: grants_def)

lemma grantsD: "grants A R \<Longrightarrow> R p = Some n \<Longrightarrow> \<exists>m\<ge>n. A p = Some m"
  by (simp add: grants_def)

lemma heap_run_represents: "heap_run h R \<Longrightarrow> \<exists>A. represents h A \<and> grants A R"
proof (induction rule: heap_run.induct)
  case (run_init h0 start h h1)
  from init_ok [OF run_init(1-3)] run_init(4) show ?case using grants_empty by auto
next
  case (run_malloc h R sz p h1)
  then obtain A where A: "represents h A" "grants A R" by blast
  from represents_malloc [OF A(1) run_malloc(2,3)] run_malloc(4) consider "p = NULL" "h1 = h"
    | n where "p \<noteq> NULL" "unat sz \<le> n" "represents h1 (A(p \<mapsto> n))" by auto
  then show ?case
  proof cases
    case 2
    show ?thesis unfolding if_not_P [OF 2(1)] using grants_add [OF A(2) 2(2)] 2(3) by blast
  qed (use A in auto)
next
  case (run_free h R p n h1)
  then obtain A where A: "represents h A" "grants A R" by blast
  obtain m where m: "A p = Some m" "n \<le> m" using grantsD [OF A(2)] run_free(2) by blast
  have "9 \<le> m" using m(2) run_free(3) by simp
  from represents_free [OF A(1) m(1) this] have "represents h1 (A(p := None))" using run_free(4) by auto
  then show ?case using grants_del [OF A(2)] by blast
next
  case (run_realloc h R p n sz q h1)
  then obtain A where A: "represents h A" "grants A R" by blast
  obtain m where m: "A p = Some m" "n \<le> m" using grantsD [OF A(2)] run_realloc(2) by blast
  have "9 \<le> m" using m(2) run_realloc(3) by simp
  have "\<exists>r h'. mm_realloc h p sz = Some (r, h') \<and>
    (r = NULL \<and> h' = h \<and> mem_max_addr h < mem_brk h + 3 * unat sz + 4096 \<or> moved h A p m (unat sz) r h')"
    by (rule represents_realloc [OF A(1) m(1) \<open>9 \<le> m\<close> run_realloc(4,5)]) (rule copies_apartD [OF run_realloc(6) A(1) m(1)])
  then consider "q = NULL" "h1 = h" | "moved h A p m (unat sz) q h1" using run_realloc(7) by auto
  then show ?case
  proof cases
    case 2
    then obtain k where k: "unat sz \<le> k" "represents h1 (A(p := None, q \<mapsto> k))" and "q \<noteq> NULL"
      unfolding moved_def by blast
    show ?thesis unfolding if_not_P [OF \<open>q \<noteq> NULL\<close>] using grants_add [OF grants_del [OF A(2)] k(1)] k(2) by blast
  qed (use A in auto)
next
  case (run_write h R p n i v)
  then obtain A where A: "represents h A" "grants A R" by blast
  obtain m where m: "A p = Some m" "n \<le> m" using grantsD [OF A(2)] run_write(2) by blast
  have "i < m" using m(2) run_write(3) by simp
  from represents_write [OF A(1) m(1) this] show ?case using A(2) by blast
qed

lemma represents_area: "represents h A \<Longrightarrow> mem_brk h \<le> mem_max_addr h"
  by (auto simp: represents_def heap_inv_def shaped_def area_def)

lemma run_blocks:
  assumes "heap_run h R" "R p = Some n"
  shows "mem_start_brk h \<le> p \<and> p + n \<le> mem_brk h \<and> mem_brk h \<le> mem_max_addr h \<and> 8 dvd p \<and>
    (\<forall>q m. R q = Some m \<longrightarrow> p \<noteq> q \<longrightarrow> p + n \<le> q \<or> q + m \<le> p)"
proof -
  obtain A where A: "represents h A" "grants A R" using heap_run_represents [OF assms(1)] by blast
  obtain k where k: "A p = Some k" "n \<le> k" using grantsD [OF A(2) assms(2)] by blast
  note b = represents_blocks [OF A(1) k(1)]
  have "p + n \<le> q \<or> q + m \<le> p" if q: "R q = Some m" "p \<noteq> q" for q m
  proof -
    obtain j where "A q = Some j" "m \<le> j" using grantsD [OF A(2) q(1)] by blast
    with b(6) [of q j] q k show ?thesis by linarith
  qed
  then show ?thesis using b(1-3) k(2) represents_area [OF A(1)] by fastforce
qed

lemma run_ops:
  assumes "heap_run h R"
  shows "0 < unat sz \<Longrightarrow> unat sz \<le> 2 ^ 29 \<Longrightarrow> mm_malloc h sz \<noteq> None"
    and "R p = Some n \<Longrightarrow> 9 \<le> n \<Longrightarrow> mm_free h p \<noteq> None"
    and "\<lbrakk>R p = Some n; 9 \<le> n; unat sz \<le> 2 ^ 29; 0 < unat sz \<Longrightarrow> copies_apart h p\<rbrakk> \<Longrightarrow> mm_realloc h p sz \<noteq> None"
proof -
  obtain A where A: "represents h A" "grants A R" using heap_run_represents [OF assms] by blast
  show "mm_malloc h sz \<noteq> None" if "0 < unat sz" "unat sz \<le> 2 ^ 29"
    using represents_malloc [OF A(1) that] by auto
  assume p: "R p = Some n" "9 \<le> n"
  obtain m where m: "A p = Some m" "n \<le> m" using grantsD [OF A(2) p(1)] by blast
  have m9: "9 \<le> m" using m(2) p(2) by simp
  from represents_free [OF A(1) m(1) m9] show f: "mm_free h p \<noteq> None" by auto
  assume sz: "unat sz \<le> 2 ^ 29" and ca: "0 < unat sz \<Longrightarrow> copies_apart h p"
  have "p \<noteq> NULL" using represents_blocks(1) [OF A(1) m(1)] A(1) by (auto simp: represents_def heap_inv_def shaped_def area_def)
  show "mm_realloc h p sz \<noteq> None"
  proof (cases "sz = 0")
    case True
    then show ?thesis using f \<open>p \<noteq> NULL\<close> by (auto simp: mm_realloc_def)
  next
    case False
    then have z: "0 < unat sz" by (simp add: unat_gt_0)
    from represents_realloc [OF A(1) m(1) m9 z sz] copies_apartD [OF ca [OF z] A(1) m(1)] show ?thesis by blast
  qed
qed

subsection \<open>A heap to start from\<close>

definition no_heap :: mheap where
  "no_heap = \<lparr>bytes = (\<lambda>_. 0), mem_start_brk = 0, mem_brk = 0, mem_max_addr = 0, heap_listp = 0, last_allocp = 0, free_listp = 0\<rparr>"

definition first_heap :: mheap where
  "first_heap = snd (the (mm_init (the (mem_init no_heap 4096))))"

lemma first_heap_init: "mem_init no_heap 4096 = Some (the (mem_init no_heap 4096))"
  by (simp add: mem_init_def)

lemma first_heap: "mm_init (the (mem_init no_heap 4096)) = Some (0, first_heap)" "represents first_heap Map.empty"
  "mem_brk first_heap = 4176" "mem_max_addr first_heap = 4096 + MAX_HEAP"
proof -
  have "(8 :: nat) dvd 4096" "4096 + MAX_HEAP < 2 ^ 64" by (simp_all add: MAX_HEAP_def)
  from init_ok [OF first_heap_init this] obtain h where "mm_init (the (mem_init no_heap 4096)) = Some (0, h)"
    "represents h Map.empty" "mem_brk h = 4176" "mem_max_addr h = 4096 + MAX_HEAP" by auto
  then show "mm_init (the (mem_init no_heap 4096)) = Some (0, first_heap)" "represents first_heap Map.empty"
    "mem_brk first_heap = 4176" "mem_max_addr first_heap = 4096 + MAX_HEAP"
    by (simp_all add: first_heap_def)
qed

lemma first_heap_run: "heap_run first_heap Map.empty"
  by (rule heap_run.run_init [OF first_heap_init _ _ first_heap(1)]) (simp_all add: MAX_HEAP_def)

lemma first_malloc: "\<exists>p h. mm_malloc first_heap 100 = Some (p, h) \<and> p \<noteq> NULL \<and> (\<exists>n\<ge>100. represents h [p \<mapsto> n])"
  using represents_malloc [OF first_heap(2), of 100] first_heap(3,4) by (auto simp: MAX_HEAP_def)

text \<open>A heap whose user has two blocks of eight bytes side by side.\<close>

definition small_heap :: mheap where
  "small_heap = \<lparr>bytes = (\<lambda>q. if q \<in> {4100, 4104} then 9 else if q \<in> {4108, 4120, 4124, 4136} then 17 else if q = 4140 then 1 else 0),
     mem_start_brk = 4096, mem_brk = 4144, mem_max_addr = 4096 + MAX_HEAP, heap_listp = 4104, last_allocp = 0, free_listp = NULL\<rparr>"

lemma load_4: "load m p 4 = unat (m p) + 256 * (unat (m (p + 1)) + 256 * (unat (m (p + 2)) + 256 * unat (m (p + 3))))"
proof -
  have "(4 :: nat) = Suc (Suc (Suc (Suc 0)))" "p + 1 + 1 = p + 2" "p + 2 + 1 = p + 3" by simp_all
  then show ?thesis by (simp only: load.simps mult_0_right add_0_right)
qed

lemma small_heap: "represents small_heap [4112 \<mapsto> 8, 4128 \<mapsto> 8]"
proof -
  let ?bs = "[(8, True), (16, True), (16, True)]"
  have b: "base small_heap = 4104" by (simp add: base_def small_heap_def)
  have l: "load (bytes small_heap) 4100 4 = 9" "load (bytes small_heap) 4104 4 = 9" "load (bytes small_heap) 4108 4 = 17"
    "load (bytes small_heap) 4120 4 = 17" "load (bytes small_heap) 4124 4 = 17" "load (bytes small_heap) 4136 4 = 17"
    "load (bytes small_heap) 4140 4 = 1"
    by (simp_all add: small_heap_def load_4)
  have "area small_heap" "mem_brk small_heap = 4144" "heap_listp small_heap = 4104" "free_listp small_heap = NULL"
    by (simp_all add: small_heap_def area_def MAX_HEAP_def)
  then have "heap_inv small_heap ?bs []"
    using l by (simp add: heap_inv_def shaped_def listed_def b tag_def)
  moreover have "payloads small_heap ?bs = [4112 \<mapsto> 8, 4128 \<mapsto> 8]" by (simp add: payloads_def b fun_upd_twist)
  ultimately show ?thesis unfolding represents_def by metis
qed

subsection \<open>What the allocator promises\<close>

text \<open>C1: whatever a user does that keeps to the rules, the blocks the user has lie in the heap, are aligned to
  eight bytes and do not overlap, and each of \<open>mm_malloc\<close>, \<open>mm_free\<close> and \<open>mm_realloc\<close> returns when the user calls it next: it
  touches no memory outside the heap and does not run in a circle on the free list.\<close>

theorem heap_run_safe:
  assumes "heap_run h R"
  shows "(\<forall>p n. R p = Some n \<longrightarrow> mem_start_brk h \<le> p \<and> p + n \<le> mem_brk h \<and> mem_brk h \<le> mem_max_addr h \<and> 8 dvd p \<and>
      (\<forall>q m. R q = Some m \<longrightarrow> p \<noteq> q \<longrightarrow> p + n \<le> q \<or> q + m \<le> p)) \<and>
    (\<forall>sz. 0 < unat sz \<longrightarrow> unat sz \<le> 2 ^ 29 \<longrightarrow> mm_malloc h sz \<noteq> None) \<and>
    (\<forall>p n. R p = Some n \<longrightarrow> 9 \<le> n \<longrightarrow> mm_free h p \<noteq> None) \<and>
    (\<forall>p n sz. R p = Some n \<longrightarrow> 9 \<le> n \<longrightarrow> unat sz \<le> 2 ^ 29 \<longrightarrow> sz = 0 \<or> copies_apart h p \<longrightarrow> mm_realloc h p sz \<noteq> None)"
proof (intro conjI allI impI)
  fix p n sz assume "R p = Some n" "9 \<le> n" "unat (sz :: 64 word) \<le> 2 ^ 29" "sz = 0 \<or> copies_apart h p"
  then show "mm_realloc h p sz \<noteq> None" by (intro run_ops(3) [OF assms]) auto
qed (use run_blocks [OF assms] run_ops(1,2) [OF assms] in \<open>blast\<close>)+

lemma heap_run_safe_witness: "\<exists>p h q h'. mm_malloc first_heap 100 = Some (p, h) \<and> p \<noteq> NULL \<and>
    mm_malloc h 200 = Some (q, h') \<and> heap_run h' (if q = NULL then [p \<mapsto> 100] else [p \<mapsto> 100, q \<mapsto> 200]) \<and>
    mm_free h p \<noteq> None \<and> mm_realloc h p 0 \<noteq> None \<and> p + 100 \<le> mem_brk h"
proof -
  obtain p h where p: "mm_malloc first_heap 100 = Some (p, h)" "p \<noteq> NULL" using first_malloc by blast
  have r: "heap_run h [p \<mapsto> 100]" using heap_run.run_malloc [OF first_heap_run _ _ p(1)] p(2) by simp
  note s = heap_run_safe [OF r]
  have "mm_malloc h 200 \<noteq> None" using s [THEN conjunct2, THEN conjunct1, rule_format, of 200] by simp
  then obtain q h' where q: "mm_malloc h 200 = Some (q, h')" by auto
  have "heap_run h' (if q = NULL then [p \<mapsto> 100] else [p \<mapsto> 100, q \<mapsto> 200])"
    using heap_run.run_malloc [OF r _ _ q] by (cases "q = NULL") simp_all
  moreover have "mm_free h p \<noteq> None" "p + 100 \<le> mem_brk h" using s by simp_all
  moreover have "mm_realloc h p 0 \<noteq> None"
    using s [THEN conjunct2, THEN conjunct2, THEN conjunct2, rule_format, of p 100 0] by simp
  ultimately show ?thesis using p q by blast
qed

text \<open>C12: \<open>mm_malloc\<close> on a heap in good order returns a new aligned block of at least the size asked for, apart from
  all others, leaves the contents of every block alone and keeps the heap in good order; it returns \<open>NULL\<close>, and
  changes nothing, only when the memory that is left is less than three times the request and a page.\<close>

theorem malloc_correct:
  assumes "represents h A" "0 < unat sz" "unat sz \<le> 2 ^ 29"
  shows "\<exists>p h'. mm_malloc h sz = Some (p, h') \<and>
    (\<forall>q n i. A q = Some n \<longrightarrow> i < n \<longrightarrow> bytes h' (q + i) = bytes h (q + i)) \<and>
    (p = NULL \<and> h' = h \<and> mem_max_addr h < mem_brk h + 3 * unat sz + 4096 \<or>
     p \<noteq> NULL \<and> 8 dvd p \<and> A p = None \<and> (\<exists>n. unat sz \<le> n \<and> represents h' (A(p \<mapsto> n))))"
  by (rule represents_malloc [OF assms])

lemma malloc_correct_witness: "\<exists>p h. mm_malloc first_heap 100 = Some (p, h) \<and> p \<noteq> NULL \<and> 8 dvd p"
  using malloc_correct [OF first_heap(2), of 100] first_heap(3,4) by (auto simp: MAX_HEAP_def)

text \<open>C13: \<open>mm_free\<close> of a block with room for the links gives just this block back, leaves the contents of the other
  blocks alone, and the heap stays in good order: no two free blocks are neighbours, and the free list holds
  exactly the free blocks.\<close>

theorem free_correct:
  assumes "represents h A" "A p = Some n" "9 \<le> n"
  shows "\<exists>h'. mm_free h p = Some h' \<and> represents h' (A(p := None)) \<and>
    (\<forall>q m j. A q = Some m \<longrightarrow> q \<noteq> p \<longrightarrow> j < m \<longrightarrow> bytes h' (q + j) = bytes h (q + j))"
  by (rule represents_free [OF assms])

lemma free_correct_witness: "\<exists>p h h'. mm_malloc first_heap 100 = Some (p, h) \<and> p \<noteq> NULL \<and>
    mm_free h p = Some h' \<and> represents h' Map.empty"
proof -
  obtain p h n where p: "mm_malloc first_heap 100 = Some (p, h)" "p \<noteq> NULL" "100 \<le> n" "represents h [p \<mapsto> n]"
    using first_malloc by blast
  with free_correct [OF p(4), of p n] show ?thesis by auto
qed

text \<open>C14: \<open>mm_realloc\<close> of a block returns a block of at least the new size that begins with the bytes of the old
  one, as many as fit, leaves the other blocks alone and keeps the heap in good order, whether the block stays,
  grows into the free block behind or before it, or moves; or there is no memory and nothing has changed.\<close>

theorem realloc_correct:
  assumes "represents h A" "A p = Some n" "9 \<le> n" "0 < unat sz" "unat sz \<le> 2 ^ 29" "copies_apart h p"
  shows "\<exists>r h'. mm_realloc h p sz = Some (r, h') \<and>
    (r = NULL \<and> h' = h \<and> mem_max_addr h < mem_brk h + 3 * unat sz + 4096 \<or>
     r \<noteq> NULL \<and> 8 dvd r \<and> (r = p \<or> A r = None) \<and>
     (\<exists>m. unat sz \<le> m \<and> represents h' (A(p := None, r \<mapsto> m))) \<and>
     (\<forall>i. i < n \<longrightarrow> i < unat sz \<longrightarrow> bytes h' (r + i) = bytes h (p + i)) \<and>
     (\<forall>q m j. A q = Some m \<longrightarrow> q \<noteq> p \<longrightarrow> j < m \<longrightarrow> bytes h' (q + j) = bytes h (q + j)))"
  unfolding moved_def [symmetric]
  by (rule represents_realloc [OF assms(1-5)]) (rule copies_apartD [OF assms(6,1,2)])

text \<open>A heap whose user has two blocks of 16 bytes.\<close>

definition full_heap :: mheap where
  "full_heap = small_heap\<lparr>bytes := (\<lambda>q. if q \<in> {4100, 4104} then 9 else if q \<in> {4108, 4128, 4132, 4152} then 25 else if q = 4156 then 1 else 0),
     mem_brk := 4160\<rparr>"

lemma full_heap: "represents full_heap [4112 \<mapsto> 16, 4136 \<mapsto> 16]"
proof -
  let ?bs = "[(8, True), (24, True), (24, True)]"
  have b: "base full_heap = 4104" by (simp add: base_def full_heap_def small_heap_def)
  have l: "load (bytes full_heap) 4100 4 = 9" "load (bytes full_heap) 4104 4 = 9" "load (bytes full_heap) 4108 4 = 25"
    "load (bytes full_heap) 4128 4 = 25" "load (bytes full_heap) 4132 4 = 25" "load (bytes full_heap) 4152 4 = 25"
    "load (bytes full_heap) 4156 4 = 1"
    by (simp_all add: full_heap_def load_4)
  have "area full_heap" "mem_brk full_heap = 4160" "heap_listp full_heap = 4104" "free_listp full_heap = NULL"
    by (simp_all add: full_heap_def small_heap_def area_def MAX_HEAP_def)
  then have "heap_inv full_heap ?bs []"
    using l by (simp add: heap_inv_def shaped_def listed_def b tag_def)
  moreover have "payloads full_heap ?bs = [4112 \<mapsto> 16, 4136 \<mapsto> 16]" by (simp add: payloads_def b fun_upd_twist)
  ultimately show ?thesis unfolding represents_def by metis
qed

lemma full_heap_apart: "copies_apart full_heap 4136"
proof -
  have "load (bytes full_heap) 4128 4 = 25" "load (bytes full_heap) 4108 4 = 25" by (simp_all add: full_heap_def load_4)
  then show ?thesis
    by (simp add: copies_apart_def PREV_BLKP_def GET_SIZE_def GET_ALLOC_def GET_def in_heap_def full_heap_def small_heap_def
        DSIZE_def HDRP_def WSIZE_def)
qed

lemma realloc_correct_witness: "\<exists>r h. mm_realloc full_heap 4136 100 = Some (r, h) \<and> r \<noteq> NULL \<and>
    (\<forall>i<16. bytes h (r + i) = bytes full_heap (4136 + i))"
  using realloc_correct [OF full_heap _ _ _ _ full_heap_apart, of 16 100]
  by (auto simp: full_heap_def small_heap_def MAX_HEAP_def)

text \<open>C39: a block of eight bytes is too small for its links: when \<open>mm_free\<close> puts such a block between allocated
  neighbours on the free list, it writes over the header of the next block, which then reads as zero, the
  mark of the end of the heap.\<close>

theorem small_free_corrupts:
  assumes "represents h A" "A p = Some 8" "GET_ALLOC h (HDRP (p + 16)) = Some 1"
    and "PREV_BLKP h p = Some prv" "GET_ALLOC h (HDRP prv) = Some 1"
  shows "\<exists>h'. mm_free h p = Some h' \<and> GET h' (HDRP (p + 16)) = Some 0"
  by (rule free_small [OF assms])

lemma small_free_corrupts_witness: "\<exists>h. mm_free small_heap 4112 = Some h \<and> GET small_heap 4124 = Some 17 \<and> GET h 4124 = Some 0"
proof -
  have l: "load (bytes small_heap) 4104 4 = 9" "load (bytes small_heap) 4124 4 = 17" "load (bytes small_heap) 4100 4 = 9"
    by (simp_all add: small_heap_def load_4)
  note d = PREV_BLKP_def GET_SIZE_def GET_ALLOC_def GET_def in_heap_def DSIZE_def HDRP_def WSIZE_def small_heap_def
  have "GET_ALLOC small_heap (HDRP (4112 + 16)) = Some 1" "PREV_BLKP small_heap 4112 = Some 4104"
    "GET_ALLOC small_heap (HDRP 4104) = Some 1" "GET small_heap 4124 = Some 17"
    using l by (simp_all add: d)
  with small_free_corrupts [OF small_heap, of 4112 4104] show ?thesis by (simp add: HDRP_def WSIZE_def)
qed

end
