(* ===== verification/Inode.thy ===== *)
theory Inode
  imports Prelude Bitmap "HOL-Library.Word" "HOL-Library.Signed_Division"
begin

unbundle bit_operations_syntax

text \<open>
  The file system of \<open>pintos/filesys\<close>, first part: the disk, inodes (\<open>inode.c\<close>), open files (\<open>file.c\<close>) and the
  free map (\<open>free-map.c\<close>).

  The disk is an array of sectors of 512 bytes; the driver below it moves these bytes and stops in a failed
  assertion for a sector number beyond the capacity. A pointer to an open inode or file is an address. The kernel's
  \<open>malloc\<close> is a sequence of answers in the state, of which each call takes the next: it succeeds, with an address
  that is not in use, or fails. An \<open>off_t\<close> is an \<open>int\<close> in the range of 32 bits; a sum or difference that leaves
  the range is undefined in C and yields \<open>None\<close>, as do failed assertions, panics and accesses outside a buffer.
  A buffer that is filled is a result; one that is read is a list of bytes.
\<close>

type_synonym sector_t = "32 word"

definition DISK_SECTOR_SIZE :: nat where "DISK_SECTOR_SIZE = 512"
definition INODE_MAGIC :: "32 word" where "INODE_MAGIC = 0x494e4f44"
definition FREE_MAP_SECTOR :: sector_t where "FREE_MAP_SECTOR = 0"
definition ROOT_DIR_SECTOR :: sector_t where "ROOT_DIR_SECTOR = 1"

record inode_disk =
  first_sector :: sector_t
  data_length :: int
  data_magic :: "32 word"

record inode =
  sector :: sector_t
  open_cnt :: int
  removed :: bool
  deny_write_cnt :: int
  data :: inode_disk

record open_file =
  file_inode :: addr
  file_pos :: int
  deny_write :: bool

record open_dir =
  dir_inode :: addr
  dir_pos :: int

record fsys =
  sectors :: "nat \<Rightarrow> 8 word list"
  capacity :: nat
  free_map :: bitmap
  free_map_file :: addr
  inodes :: "addr \<rightharpoonup> inode"
  open_inodes :: "addr list"
  files :: "addr \<rightharpoonup> open_file"
  dirs :: "addr \<rightharpoonup> open_dir"
  answers :: "nat \<Rightarrow> bool"
  calls :: nat

subsection \<open>Integers and bytes\<close>

definition int32 :: "int \<Rightarrow> int option" where
  "int32 i = (if - (2 ^ 31) \<le> i \<and> i < 2 ^ 31 then Some i else None)"

primrec le_bytes :: "nat \<Rightarrow> nat \<Rightarrow> 8 word list" where
  "le_bytes 0 v = []"
| "le_bytes (Suc n) v = of_nat v # le_bytes n (v div 256)"

primrec le_nat :: "8 word list \<Rightarrow> nat" where
  "le_nat [] = 0"
| "le_nat (b # bs) = unat b + 256 * le_nat bs"

subsection \<open>The allocator and the disk\<close>

definition kmalloc :: "fsys \<Rightarrow> addr \<times> fsys" where
  "kmalloc fs = (if answers fs (calls fs) then Suc (calls fs) else NULL, fs\<lparr>calls := Suc (calls fs)\<rparr>)"

definition sector_ok :: "fsys \<Rightarrow> sector_t \<Rightarrow> bool" where
  "sector_ok fs sec_no \<longleftrightarrow> unat sec_no < capacity fs \<and> unat sec_no < 2 ^ 28"

definition disk_read :: "fsys \<Rightarrow> sector_t \<Rightarrow> 8 word list option" where
  "disk_read fs sec_no = (if sector_ok fs sec_no then Some (sectors fs (unat sec_no)) else None)"

definition disk_write :: "fsys \<Rightarrow> sector_t \<Rightarrow> 8 word list \<Rightarrow> fsys option" where
  "disk_write fs sec_no bs =
     (if sector_ok fs sec_no \<and> length bs = DISK_SECTOR_SIZE
      then Some (fs\<lparr>sectors := (sectors fs)(unat sec_no := bs)\<rparr>) else None)"

text \<open>The bytes of a \<open>struct inode_disk\<close>: three words and 125 words that are not used.\<close>

definition inode_bytes :: "inode_disk \<Rightarrow> 8 word list" where
  "inode_bytes d = le_bytes 4 (unat (first_sector d)) @ le_bytes 4 (unat (word_of_int (data_length d) :: 32 word)) @
     le_bytes 4 (unat (data_magic d)) @ replicate 500 0"

definition inode_of_bytes :: "8 word list \<Rightarrow> inode_disk" where
  "inode_of_bytes bs = \<lparr>first_sector = of_nat (le_nat (take 4 bs)),
     data_length = sint (of_nat (le_nat (take 4 (drop 4 bs))) :: 32 word),
     data_magic = of_nat (le_nat (take 4 (drop 8 bs)))\<rparr>"

subsection \<open>Reading and writing the bytes of an inode\<close>

text \<open>\<open>DIV_ROUND_UP (size, DISK_SECTOR_SIZE)\<close>, computed in \<open>int\<close> and converted to \<open>size_t\<close>.\<close>

definition bytes_to_sectors :: "int \<Rightarrow> nat option" where
  "bytes_to_sectors sz = do {
     s \<leftarrow> int32 (sz + int DISK_SECTOR_SIZE);
     Some (nat (((s - 1) sdiv int DISK_SECTOR_SIZE) mod 2 ^ 64))
   }"

definition byte_to_sector :: "inode \<Rightarrow> int \<Rightarrow> sector_t" where
  "byte_to_sector i pos = (if pos < data_length (data i)
     then first_sector (data i) + word_of_int (pos sdiv int DISK_SECTOR_SIZE) else - 1)"

definition inode_length :: "inode \<Rightarrow> int" where
  "inode_length i = data_length (data i)"

text \<open>
  The number of bytes that one round handles and the number left in the sector. Both loops begin with this.
\<close>

definition chunk :: "inode \<Rightarrow> int \<Rightarrow> int \<Rightarrow> (int \<times> int \<times> int) option" where
  "chunk i sz offset = do {
     let sector_ofs = offset smod int DISK_SECTOR_SIZE;
     inode_left \<leftarrow> int32 (inode_length i - offset);
     let sector_left = int DISK_SECTOR_SIZE - sector_ofs;
     let min_left = (if inode_left < sector_left then inode_left else sector_left);
     let chunk_size = (if sz < min_left then sz else min_left);
     Some (sector_ofs, sector_left, chunk_size)
   }"

text \<open>The bounce buffer is allocated once; \<open>bounce\<close> says whether there is one.\<close>

definition get_bounce :: "fsys \<Rightarrow> bool \<Rightarrow> bool \<times> fsys" where
  "get_bounce fs bounce = (if bounce then (True, fs) else let (p, fs) = kmalloc fs in (p \<noteq> NULL, fs))"

definition slice :: "8 word list \<Rightarrow> int \<Rightarrow> int \<Rightarrow> 8 word list option" where
  "slice bs ofs n = do {
     assert_that (0 \<le> ofs \<and> ofs + n \<le> int (length bs));
     Some (take (nat n) (drop (nat ofs) bs))
   }"

function inode_read_loop :: "fsys \<Rightarrow> inode \<Rightarrow> int \<Rightarrow> int \<Rightarrow> bool \<Rightarrow> 8 word list \<Rightarrow> (8 word list \<times> fsys) option" where
  "inode_read_loop fs i sz offset bounce acc =
     (if sz > 0 then
        let sector_idx = byte_to_sector i offset in
        (case chunk i sz offset of
           None \<Rightarrow> None
         | Some (sector_ofs, sector_left, chunk_size) \<Rightarrow>
             if chunk_size \<le> 0 then Some (acc, fs)
             else if sector_ofs = 0 \<and> chunk_size = int DISK_SECTOR_SIZE then do {
               bs \<leftarrow> disk_read fs sector_idx;
               inode_read_loop fs i (sz - chunk_size) (offset + chunk_size) bounce (acc @ bs)
             } else
               (case get_bounce fs bounce of
                  (False, fs) \<Rightarrow> Some (acc, fs)
                | (True, fs) \<Rightarrow> do {
                    bs \<leftarrow> disk_read fs sector_idx;
                    bs \<leftarrow> slice bs sector_ofs chunk_size;
                    inode_read_loop fs i (sz - chunk_size) (offset + chunk_size) True (acc @ bs)
                  }))
      else Some (acc, fs))"
  by pat_completeness auto
termination
  by (relation "measure (\<lambda>(fs, i, sz, offset, bounce, acc). nat sz)") auto

definition inode_read_at :: "fsys \<Rightarrow> addr \<Rightarrow> int \<Rightarrow> int \<Rightarrow> (8 word list \<times> fsys) option" where
  "inode_read_at fs p sz offset = do {
     i \<leftarrow> inodes fs p;
     inode_read_loop fs i sz offset False []
   }"

definition overwrite :: "8 word list \<Rightarrow> nat \<Rightarrow> 8 word list \<Rightarrow> 8 word list" where
  "overwrite bs ofs new = take ofs bs @ new @ drop (ofs + length new) bs"

text \<open>\<open>buf\<close> is the part of the buffer that is still to be written and \<open>n\<close> the number of bytes written.\<close>

function inode_write_loop :: "fsys \<Rightarrow> inode \<Rightarrow> 8 word list \<Rightarrow> int \<Rightarrow> int \<Rightarrow> bool \<Rightarrow> int \<Rightarrow> (int \<times> fsys) option" where
  "inode_write_loop fs i buf sz offset bounce n =
     (if sz > 0 then
        let sector_idx = byte_to_sector i offset in
        (case chunk i sz offset of
           None \<Rightarrow> None
         | Some (sector_ofs, sector_left, chunk_size) \<Rightarrow>
             if chunk_size \<le> 0 then Some (n, fs)
             else if sector_ofs = 0 \<and> chunk_size = int DISK_SECTOR_SIZE then do {
               part \<leftarrow> slice buf 0 chunk_size;
               fs \<leftarrow> disk_write fs sector_idx part;
               inode_write_loop fs i (drop (nat chunk_size) buf) (sz - chunk_size) (offset + chunk_size) bounce (n + chunk_size)
             } else
               (case get_bounce fs bounce of
                  (False, fs) \<Rightarrow> Some (n, fs)
                | (True, fs) \<Rightarrow> do {
                    old \<leftarrow> (if sector_ofs > 0 \<or> chunk_size < sector_left then disk_read fs sector_idx
                           else Some (replicate DISK_SECTOR_SIZE 0));
                    _ \<leftarrow> slice old sector_ofs chunk_size;
                    part \<leftarrow> slice buf 0 chunk_size;
                    fs \<leftarrow> disk_write fs sector_idx (overwrite old (nat sector_ofs) part);
                    inode_write_loop fs i (drop (nat chunk_size) buf) (sz - chunk_size) (offset + chunk_size) True (n + chunk_size)
                  }))
      else Some (n, fs))"
  by pat_completeness auto
termination
  by (relation "measure (\<lambda>(fs, i, buf, sz, offset, bounce, n). nat sz)") auto

definition inode_write_at :: "fsys \<Rightarrow> addr \<Rightarrow> 8 word list \<Rightarrow> int \<Rightarrow> int \<Rightarrow> (int \<times> fsys) option" where
  "inode_write_at fs p buf sz offset = do {
     i \<leftarrow> inodes fs p;
     if deny_write_cnt i \<noteq> 0 then Some (0, fs)
     else inode_write_loop fs i buf sz offset False 0
   }"

declare inode_read_loop.simps [simp del] inode_write_loop.simps [simp del]

subsection \<open>Files: reading and writing\<close>

definition file_read_at :: "fsys \<Rightarrow> addr \<Rightarrow> int \<Rightarrow> int \<Rightarrow> (8 word list \<times> fsys) option" where
  "file_read_at fs f sz file_ofs = do {
     x \<leftarrow> files fs f;
     inode_read_at fs (file_inode x) sz file_ofs
   }"

definition file_write_at :: "fsys \<Rightarrow> addr \<Rightarrow> 8 word list \<Rightarrow> int \<Rightarrow> int \<Rightarrow> (int \<times> fsys) option" where
  "file_write_at fs f buf sz file_ofs = do {
     x \<leftarrow> files fs f;
     inode_write_at fs (file_inode x) buf sz file_ofs
   }"

definition file_read :: "fsys \<Rightarrow> addr \<Rightarrow> int \<Rightarrow> (8 word list \<times> fsys) option" where
  "file_read fs f sz = do {
     x \<leftarrow> files fs f;
     (bs, fs) \<leftarrow> inode_read_at fs (file_inode x) sz (file_pos x);
     pos \<leftarrow> int32 (file_pos x + int (length bs));
     Some (bs, fs\<lparr>files := (files fs)(f \<mapsto> x\<lparr>file_pos := pos\<rparr>)\<rparr>)
   }"

definition file_write :: "fsys \<Rightarrow> addr \<Rightarrow> 8 word list \<Rightarrow> int \<Rightarrow> (int \<times> fsys) option" where
  "file_write fs f buf sz = do {
     x \<leftarrow> files fs f;
     (n, fs) \<leftarrow> inode_write_at fs (file_inode x) buf sz (file_pos x);
     pos \<leftarrow> int32 (file_pos x + n);
     Some (n, fs\<lparr>files := (files fs)(f \<mapsto> x\<lparr>file_pos := pos\<rparr>)\<rparr>)
   }"

subsection \<open>The free map\<close>

text \<open>A \<open>size_t\<close> that is passed as an \<open>off_t\<close>.\<close>

definition off_t :: "nat \<Rightarrow> int" where
  "off_t n = sint (of_nat n :: 32 word)"

definition bitmap_bytes :: "bitmap \<Rightarrow> 8 word list" where
  "bitmap_bytes b = concat (map (\<lambda>w. le_bytes 8 (unat w)) (bits b))"

primrec words_of :: "nat \<Rightarrow> 8 word list \<Rightarrow> 64 word list" where
  "words_of 0 bs = []"
| "words_of (Suc n) bs = of_nat (le_nat (take 8 bs)) # words_of n (drop 8 bs)"

definition bitmap_write :: "fsys \<Rightarrow> bitmap \<Rightarrow> addr \<Rightarrow> (bool \<times> fsys) option" where
  "bitmap_write fs b f = do {
     let sz = off_t (byte_cnt (bit_cnt b));
     (n, fs) \<leftarrow> file_write_at fs f (bitmap_bytes b) sz 0;
     Some (n = sz, fs)
   }"

definition bitmap_read :: "fsys \<Rightarrow> bitmap \<Rightarrow> addr \<Rightarrow> (bool \<times> bitmap \<times> fsys) option" where
  "bitmap_read fs b f =
     (if bit_cnt b > 0 then do {
        let sz = off_t (byte_cnt (bit_cnt b));
        (bs, fs) \<leftarrow> file_read_at fs f sz 0;
        assert_that (length bs \<le> 8 * length (bits b));
        let b = b\<lparr>bits := words_of (length (bits b)) (overwrite (bitmap_bytes b) 0 bs)\<rparr>;
        w \<leftarrow> get_elem b (elem_cnt (bit_cnt b) - 1);
        b \<leftarrow> put_elem b (elem_cnt (bit_cnt b) - 1) (w AND last_mask b);
        Some (int (length bs) = sz, b, fs)
      } else Some (True, b, fs))"

definition free_map_init :: "fsys \<Rightarrow> 64 word list \<Rightarrow> fsys option" where
  "free_map_init fs store = do {
     let (p, fs) = kmalloc fs;
     let (q, fs) = (if p \<noteq> NULL then kmalloc fs else (NULL, fs));
     r \<leftarrow> bitmap_create (p \<noteq> NULL) (if q \<noteq> NULL then Some store else None) (capacity fs);
     b \<leftarrow> r;
     b \<leftarrow> bitmap_mark b (unat FREE_MAP_SECTOR);
     b \<leftarrow> bitmap_mark b (unat ROOT_DIR_SECTOR);
     Some (fs\<lparr>free_map := b\<rparr>)
   }"

text \<open>Whether it succeeds, and what it stores at \<open>sectorp\<close> then.\<close>

definition free_map_allocate :: "fsys \<Rightarrow> nat \<Rightarrow> (sector_t option \<times> fsys) option" where
  "free_map_allocate fs cnt = do {
     (b, idx) \<leftarrow> bitmap_scan_and_flip (free_map fs) 0 cnt False;
     let fs = fs\<lparr>free_map := b\<rparr>;
     let sec = (of_nat idx :: sector_t);
     (failed, fs) \<leftarrow>
       (if unat sec \<noteq> BITMAP_ERROR \<and> free_map_file fs \<noteq> NULL
        then do { (ok, fs) \<leftarrow> bitmap_write fs (free_map fs) (free_map_file fs); Some (\<not> ok, fs) }
        else Some (False, fs));
     (sec, fs) \<leftarrow>
       (if failed then do {
          b \<leftarrow> bitmap_set_multiple (free_map fs) (unat sec) cnt False;
          Some (of_nat BITMAP_ERROR, fs\<lparr>free_map := b\<rparr>)
        } else Some (sec, fs));
     Some (if unat sec \<noteq> BITMAP_ERROR then Some sec else None, fs)
   }"

definition free_map_release :: "fsys \<Rightarrow> sector_t \<Rightarrow> nat \<Rightarrow> fsys option" where
  "free_map_release fs sec cnt = do {
     all \<leftarrow> bitmap_all (free_map fs) (unat sec) cnt;
     assert_that all;
     b \<leftarrow> bitmap_set_multiple (free_map fs) (unat sec) cnt False;
     let fs = fs\<lparr>free_map := b\<rparr>;
     (ok, fs) \<leftarrow> bitmap_write fs (free_map fs) (free_map_file fs);
     Some fs
   }"

subsection \<open>Inodes\<close>

definition inode_init :: "fsys \<Rightarrow> fsys" where
  "inode_init fs = fs\<lparr>open_inodes := []\<rparr>"

primrec write_zeros :: "fsys \<Rightarrow> sector_t \<Rightarrow> nat \<Rightarrow> nat \<Rightarrow> fsys option" where
  "write_zeros fs start i 0 = Some fs"
| "write_zeros fs start i (Suc n) = do {
     fs \<leftarrow> disk_write fs (start + of_nat i) (replicate DISK_SECTOR_SIZE 0);
     write_zeros fs start (i + 1) n
   }"

definition inode_create :: "fsys \<Rightarrow> sector_t \<Rightarrow> int \<Rightarrow> (bool \<times> fsys) option" where
  "inode_create fs sec len = do {
     assert_that (len \<ge> 0);
     let (disk_inode, fs) = kmalloc fs;
     if disk_inode \<noteq> NULL then do {
       n \<leftarrow> bytes_to_sectors len;
       (start, fs) \<leftarrow> free_map_allocate fs n;
       case start of
         Some start \<Rightarrow> do {
           fs \<leftarrow> disk_write fs sec (inode_bytes \<lparr>first_sector = start, data_length = len, data_magic = INODE_MAGIC\<rparr>);
           fs \<leftarrow> (if n > 0 then write_zeros fs start 0 n else Some fs);
           Some (True, fs)
         }
       | None \<Rightarrow> Some (False, fs)
     } else Some (False, fs)
   }"

definition set_inode :: "fsys \<Rightarrow> addr \<Rightarrow> (inode \<Rightarrow> inode) \<Rightarrow> fsys option" where
  "set_inode fs p f = do { i \<leftarrow> inodes fs p; Some (fs\<lparr>inodes := (inodes fs)(p \<mapsto> f i)\<rparr>) }"

definition inode_reopen :: "fsys \<Rightarrow> addr \<Rightarrow> (addr \<times> fsys) option" where
  "inode_reopen fs p =
     (if p \<noteq> NULL then do {
        i \<leftarrow> inodes fs p;
        n \<leftarrow> int32 (open_cnt i + 1);
        fs \<leftarrow> set_inode fs p (\<lambda>i. i\<lparr>open_cnt := n\<rparr>);
        Some (p, fs)
      } else Some (p, fs))"

text \<open>The inode of the sector in the list of open inodes, \<open>NULL\<close> when it is not open.\<close>

primrec find_open :: "fsys \<Rightarrow> sector_t \<Rightarrow> addr list \<Rightarrow> addr option" where
  "find_open fs sec [] = Some NULL"
| "find_open fs sec (p # ps) = do {
     i \<leftarrow> inodes fs p;
     if sector i = sec then Some p else find_open fs sec ps
   }"

definition inode_open :: "fsys \<Rightarrow> sector_t \<Rightarrow> (addr \<times> fsys) option" where
  "inode_open fs sec = do {
     p \<leftarrow> find_open fs sec (open_inodes fs);
     if p \<noteq> NULL then inode_reopen fs p
     else do {
       let (p, fs) = kmalloc fs;
       if p = NULL then Some (NULL, fs)
       else do {
         let fs = fs\<lparr>open_inodes := p # open_inodes fs\<rparr>;
         bs \<leftarrow> disk_read fs sec;
         let i = \<lparr>sector = sec, open_cnt = 1, removed = False, deny_write_cnt = 0, data = inode_of_bytes bs\<rparr>;
         Some (p, fs\<lparr>inodes := (inodes fs)(p \<mapsto> i)\<rparr>)
       }
     }
   }"

definition inode_get_inumber :: "fsys \<Rightarrow> addr \<Rightarrow> sector_t option" where
  "inode_get_inumber fs p = map_option sector (inodes fs p)"

definition inode_close :: "fsys \<Rightarrow> addr \<Rightarrow> fsys option" where
  "inode_close fs p =
     (if p = NULL then Some fs
      else do {
        i \<leftarrow> inodes fs p;
        n \<leftarrow> int32 (open_cnt i - 1);
        fs \<leftarrow> set_inode fs p (\<lambda>i. i\<lparr>open_cnt := n\<rparr>);
        if n = 0 then do {
          let fs = fs\<lparr>open_inodes := remove1 p (open_inodes fs)\<rparr>;
          fs \<leftarrow> (if removed i then do {
              fs \<leftarrow> free_map_release fs (sector i) 1;
              cnt \<leftarrow> bytes_to_sectors (data_length (data i));
              free_map_release fs (first_sector (data i)) cnt
            } else Some fs);
          Some (fs\<lparr>inodes := (inodes fs)(p := None)\<rparr>)
        } else Some fs
      })"

definition inode_remove :: "fsys \<Rightarrow> addr \<Rightarrow> fsys option" where
  "inode_remove fs p = do {
     assert_that (p \<noteq> NULL);
     set_inode fs p (\<lambda>i. i\<lparr>removed := True\<rparr>)
   }"

definition inode_deny_write :: "fsys \<Rightarrow> addr \<Rightarrow> fsys option" where
  "inode_deny_write fs p = do {
     i \<leftarrow> inodes fs p;
     n \<leftarrow> int32 (deny_write_cnt i + 1);
     assert_that (n \<le> open_cnt i);
     set_inode fs p (\<lambda>i. i\<lparr>deny_write_cnt := n\<rparr>)
   }"

definition inode_allow_write :: "fsys \<Rightarrow> addr \<Rightarrow> fsys option" where
  "inode_allow_write fs p = do {
     i \<leftarrow> inodes fs p;
     assert_that (deny_write_cnt i > 0);
     assert_that (deny_write_cnt i \<le> open_cnt i);
     set_inode fs p (\<lambda>i. i\<lparr>deny_write_cnt := deny_write_cnt i - 1\<rparr>)
   }"

subsection \<open>Open files\<close>

definition file_open :: "fsys \<Rightarrow> addr \<Rightarrow> (addr \<times> fsys) option" where
  "file_open fs p = do {
     let (f, fs) = kmalloc fs;
     if p \<noteq> NULL \<and> f \<noteq> NULL
     then Some (f, fs\<lparr>files := (files fs)(f \<mapsto> \<lparr>file_inode = p, file_pos = 0, deny_write = False\<rparr>)\<rparr>)
     else do {
       fs \<leftarrow> inode_close fs p;
       Some (NULL, fs)
     }
   }"

definition file_reopen :: "fsys \<Rightarrow> addr \<Rightarrow> (addr \<times> fsys) option" where
  "file_reopen fs f = do {
     x \<leftarrow> files fs f;
     (p, fs) \<leftarrow> inode_reopen fs (file_inode x);
     file_open fs p
   }"

definition file_deny_write :: "fsys \<Rightarrow> addr \<Rightarrow> fsys option" where
  "file_deny_write fs f = do {
     assert_that (f \<noteq> NULL);
     x \<leftarrow> files fs f;
     if \<not> deny_write x then
       inode_deny_write (fs\<lparr>files := (files fs)(f \<mapsto> x\<lparr>deny_write := True\<rparr>)\<rparr>) (file_inode x)
     else Some fs
   }"

definition file_allow_write :: "fsys \<Rightarrow> addr \<Rightarrow> fsys option" where
  "file_allow_write fs f = do {
     assert_that (f \<noteq> NULL);
     x \<leftarrow> files fs f;
     if deny_write x then
       inode_allow_write (fs\<lparr>files := (files fs)(f \<mapsto> x\<lparr>deny_write := False\<rparr>)\<rparr>) (file_inode x)
     else Some fs
   }"

definition file_duplicate :: "fsys \<Rightarrow> addr \<Rightarrow> (addr \<times> fsys) option" where
  "file_duplicate fs f = do {
     x \<leftarrow> files fs f;
     (p, fs) \<leftarrow> inode_reopen fs (file_inode x);
     (g, fs) \<leftarrow> file_open fs p;
     if g \<noteq> NULL then do {
       x \<leftarrow> files fs f;
       y \<leftarrow> files fs g;
       let fs = fs\<lparr>files := (files fs)(g \<mapsto> y\<lparr>file_pos := file_pos x\<rparr>)\<rparr>;
       fs \<leftarrow> (if deny_write x then file_deny_write fs g else Some fs);
       Some (g, fs)
     } else Some (g, fs)
   }"

definition file_close :: "fsys \<Rightarrow> addr \<Rightarrow> fsys option" where
  "file_close fs f =
     (if f \<noteq> NULL then do {
        fs \<leftarrow> file_allow_write fs f;
        x \<leftarrow> files fs f;
        fs \<leftarrow> inode_close fs (file_inode x);
        Some (fs\<lparr>files := (files fs)(f := None)\<rparr>)
      } else Some fs)"

definition file_get_inode :: "fsys \<Rightarrow> addr \<Rightarrow> addr option" where
  "file_get_inode fs f = map_option file_inode (files fs f)"

definition file_length :: "fsys \<Rightarrow> addr \<Rightarrow> int option" where
  "file_length fs f = do {
     assert_that (f \<noteq> NULL);
     x \<leftarrow> files fs f;
     i \<leftarrow> inodes fs (file_inode x);
     Some (inode_length i)
   }"

definition file_seek :: "fsys \<Rightarrow> addr \<Rightarrow> int \<Rightarrow> fsys option" where
  "file_seek fs f new_pos = do {
     assert_that (f \<noteq> NULL);
     assert_that (new_pos \<ge> 0);
     x \<leftarrow> files fs f;
     Some (fs\<lparr>files := (files fs)(f \<mapsto> x\<lparr>file_pos := new_pos\<rparr>)\<rparr>)
   }"

definition file_tell :: "fsys \<Rightarrow> addr \<Rightarrow> int option" where
  "file_tell fs f = do {
     assert_that (f \<noteq> NULL);
     map_option file_pos (files fs f)
   }"

subsection \<open>The file of the free map\<close>

definition free_map_open :: "fsys \<Rightarrow> fsys option" where
  "free_map_open fs = do {
     (p, fs) \<leftarrow> inode_open fs FREE_MAP_SECTOR;
     (f, fs) \<leftarrow> file_open fs p;
     let fs = fs\<lparr>free_map_file := f\<rparr>;
     assert_that (f \<noteq> NULL);
     (ok, b, fs) \<leftarrow> bitmap_read fs (free_map fs) f;
     assert_that ok;
     Some (fs\<lparr>free_map := b\<rparr>)
   }"

definition free_map_close :: "fsys \<Rightarrow> fsys option" where
  "free_map_close fs = file_close fs (free_map_file fs)"

definition free_map_create :: "fsys \<Rightarrow> fsys option" where
  "free_map_create fs = do {
     (ok, fs) \<leftarrow> inode_create fs FREE_MAP_SECTOR (off_t (bitmap_file_size (free_map fs)));
     assert_that ok;
     (p, fs) \<leftarrow> inode_open fs FREE_MAP_SECTOR;
     (f, fs) \<leftarrow> file_open fs p;
     let fs = fs\<lparr>free_map_file := f\<rparr>;
     assert_that (f \<noteq> NULL);
     (ok, fs) \<leftarrow> bitmap_write fs (free_map fs) f;
     assert_that ok;
     Some fs
   }"

end
