(* ===== verification/Directory.thy ===== *)
theory Directory
  imports Inode
begin

text \<open>
  The file system of \<open>pintos/filesys\<close>, second part: directories (\<open>directory.c\<close>) and the interface to the rest
  of the kernel (\<open>filesys.c\<close>), in the configuration without \<open>EFILESYS\<close>.

  A file name is the list of its bytes, without the null byte at the end. A \<open>struct dir_entry\<close> has 20 bytes: the
  sector, 15 bytes for the name and the flag. Where the code fills a structure on the stack that it may leave
  partly as it was, the old contents are an argument.
\<close>

definition NAME_MAX :: nat where "NAME_MAX = 14"

record dir_entry =
  inode_sector :: sector_t
  entry_name :: "8 word list"
  in_use :: bool

definition ENTRY_SIZE :: nat where "ENTRY_SIZE = 20"

definition entry_of :: "8 word list \<Rightarrow> dir_entry" where
  "entry_of bs = \<lparr>inode_sector = of_nat (le_nat (take 4 bs)), entry_name = take 15 (drop 4 bs), in_use = (bs ! 19 \<noteq> 0)\<rparr>"

definition entry_bytes :: "dir_entry \<Rightarrow> 8 word list" where
  "entry_bytes e = le_bytes 4 (unat (inode_sector e)) @ entry_name e @ [if in_use e then 1 else 0]"

text \<open>\<open>strcmp (name, buf) == 0\<close> for a buffer, which the comparison may not run out of.\<close>

fun same_name :: "8 word list \<Rightarrow> 8 word list \<Rightarrow> bool option" where
  "same_name cs [] = None"
| "same_name [] (b # bs) = Some (b = 0)"
| "same_name (c # cs) (b # bs) = (if c = b then same_name cs bs else Some False)"

text \<open>\<open>strlcpy\<close> of a string into a buffer.\<close>

definition copy_name :: "8 word list \<Rightarrow> 8 word list \<Rightarrow> 8 word list" where
  "copy_name buf name = overwrite buf 0 (take (length buf - 1) name @ [0])"

text \<open>The string in a buffer, if it ends there.\<close>

definition c_string :: "8 word list \<Rightarrow> 8 word list option" where
  "c_string buf = (if 0 \<in> set buf then Some (takeWhile (\<lambda>b. b \<noteq> 0) buf) else None)"

subsection \<open>Directories\<close>

definition dir_create :: "fsys \<Rightarrow> sector_t \<Rightarrow> nat \<Rightarrow> (bool \<times> fsys) option" where
  "dir_create fs sec entry_cnt = inode_create fs sec (off_t (entry_cnt * ENTRY_SIZE))"

definition dir_open :: "fsys \<Rightarrow> addr \<Rightarrow> (addr \<times> fsys) option" where
  "dir_open fs p = do {
     let (d, fs) = kmalloc fs;
     if p \<noteq> NULL \<and> d \<noteq> NULL
     then Some (d, fs\<lparr>dirs := (dirs fs)(d \<mapsto> \<lparr>dir_inode = p, dir_pos = 0\<rparr>)\<rparr>)
     else do {
       fs \<leftarrow> inode_close fs p;
       Some (NULL, fs)
     }
   }"

definition dir_open_root :: "fsys \<Rightarrow> (addr \<times> fsys) option" where
  "dir_open_root fs = do {
     (p, fs) \<leftarrow> inode_open fs ROOT_DIR_SECTOR;
     dir_open fs p
   }"

definition dir_reopen :: "fsys \<Rightarrow> addr \<Rightarrow> (addr \<times> fsys) option" where
  "dir_reopen fs d = do {
     x \<leftarrow> dirs fs d;
     (p, fs) \<leftarrow> inode_reopen fs (dir_inode x);
     dir_open fs p
   }"

definition dir_close :: "fsys \<Rightarrow> addr \<Rightarrow> fsys option" where
  "dir_close fs d =
     (if d \<noteq> NULL then do {
        x \<leftarrow> dirs fs d;
        fs \<leftarrow> inode_close fs (dir_inode x);
        Some (fs\<lparr>dirs := (dirs fs)(d := None)\<rparr>)
      } else Some fs)"

definition dir_get_inode :: "fsys \<Rightarrow> addr \<Rightarrow> addr option" where
  "dir_get_inode fs d = map_option dir_inode (dirs fs d)"

text \<open>The entry found and its offset.\<close>

partial_function (option) lookup_loop :: "fsys \<Rightarrow> addr \<Rightarrow> 8 word list \<Rightarrow> nat \<Rightarrow> ((dir_entry \<times> nat) option \<times> fsys) option" where
  "lookup_loop fs p name ofs = do {
     (bs, fs) \<leftarrow> inode_read_at fs p (int ENTRY_SIZE) (off_t ofs);
     if length bs = ENTRY_SIZE then do {
       let e = entry_of bs;
       found \<leftarrow> (if in_use e then same_name name (entry_name e) else Some False);
       if found then Some (Some (e, ofs), fs)
       else lookup_loop fs p name (ofs + ENTRY_SIZE)
     } else Some (None, fs)
   }"

definition lookup :: "fsys \<Rightarrow> addr \<Rightarrow> 8 word list \<Rightarrow> ((dir_entry \<times> nat) option \<times> fsys) option" where
  "lookup fs d name = do {
     assert_that (d \<noteq> NULL);
     x \<leftarrow> dirs fs d;
     lookup_loop fs (dir_inode x) name 0
   }"

definition dir_lookup :: "fsys \<Rightarrow> addr \<Rightarrow> 8 word list \<Rightarrow> (addr \<times> fsys) option" where
  "dir_lookup fs d name = do {
     assert_that (d \<noteq> NULL);
     (r, fs) \<leftarrow> lookup fs d name;
     case r of
       Some (e, ofs) \<Rightarrow> inode_open fs (inode_sector e)
     | None \<Rightarrow> Some (NULL, fs)
   }"

text \<open>The search for a free slot; \<open>buf\<close> is the structure \<open>e\<close>, which a short read fills in part.\<close>

partial_function (option) free_slot :: "fsys \<Rightarrow> addr \<Rightarrow> 8 word list \<Rightarrow> int \<Rightarrow> (8 word list \<times> int \<times> fsys) option" where
  "free_slot fs p buf ofs = do {
     (bs, fs) \<leftarrow> inode_read_at fs p (int ENTRY_SIZE) ofs;
     let buf = overwrite buf 0 bs;
     if length bs = ENTRY_SIZE then
       if \<not> in_use (entry_of buf) then Some (buf, ofs, fs)
       else free_slot fs p buf (ofs + int ENTRY_SIZE)
     else Some (buf, ofs, fs)
   }"

definition dir_add :: "fsys \<Rightarrow> addr \<Rightarrow> 8 word list \<Rightarrow> sector_t \<Rightarrow> 8 word list \<Rightarrow> (bool \<times> fsys) option" where
  "dir_add fs d name sec stack = do {
     assert_that (d \<noteq> NULL);
     if name = [] \<or> length name > NAME_MAX then Some (False, fs)
     else do {
       (r, fs) \<leftarrow> lookup fs d name;
       if r \<noteq> None then Some (False, fs)
       else do {
         x \<leftarrow> dirs fs d;
         (buf, ofs, fs) \<leftarrow> free_slot fs (dir_inode x) stack 0;
         let e = entry_of buf;
         let e = e\<lparr>in_use := True\<rparr>;
         let e = e\<lparr>entry_name := copy_name (entry_name e) name\<rparr>;
         let e = e\<lparr>inode_sector := sec\<rparr>;
         (n, fs) \<leftarrow> inode_write_at fs (dir_inode x) (entry_bytes e) (int ENTRY_SIZE) ofs;
         Some (n = int ENTRY_SIZE, fs)
       }
     }
   }"

definition dir_remove :: "fsys \<Rightarrow> addr \<Rightarrow> 8 word list \<Rightarrow> (bool \<times> fsys) option" where
  "dir_remove fs d name = do {
     assert_that (d \<noteq> NULL);
     (r, fs) \<leftarrow> lookup fs d name;
     (success, p, fs) \<leftarrow>
       (case r of
          None \<Rightarrow> Some (False, NULL, fs)
        | Some (e, ofs) \<Rightarrow> do {
            (p, fs) \<leftarrow> inode_open fs (inode_sector e);
            if p = NULL then Some (False, p, fs)
            else do {
              let e = e\<lparr>in_use := False\<rparr>;
              x \<leftarrow> dirs fs d;
              (n, fs) \<leftarrow> inode_write_at fs (dir_inode x) (entry_bytes e) (int ENTRY_SIZE) (off_t ofs);
              if n \<noteq> int ENTRY_SIZE then Some (False, p, fs)
              else do {
                fs \<leftarrow> inode_remove fs p;
                Some (True, p, fs)
              }
            }
          });
     fs \<leftarrow> inode_close fs p;
     Some (success, fs)
   }"

text \<open>The name of the next entry that is in use.\<close>

partial_function (option) dir_readdir :: "fsys \<Rightarrow> addr \<Rightarrow> (8 word list option \<times> fsys) option" where
  "dir_readdir fs d = do {
     x \<leftarrow> dirs fs d;
     (bs, fs) \<leftarrow> inode_read_at fs (dir_inode x) (int ENTRY_SIZE) (dir_pos x);
     if length bs = ENTRY_SIZE then do {
       let fs = fs\<lparr>dirs := (dirs fs)(d \<mapsto> x\<lparr>dir_pos := dir_pos x + int ENTRY_SIZE\<rparr>)\<rparr>;
       let e = entry_of bs;
       if in_use e then do {
         name \<leftarrow> c_string (entry_name e);
         Some (Some name, fs)
       } else dir_readdir fs d
     } else Some (None, fs)
   }"

declare lookup_loop.simps [code] free_slot.simps [code] dir_readdir.simps [code]

subsection \<open>The file system\<close>

definition filesys_create :: "fsys \<Rightarrow> 8 word list \<Rightarrow> int \<Rightarrow> 8 word list \<Rightarrow> (bool \<times> fsys) option" where
  "filesys_create fs name initial_size stack = do {
     (d, fs) \<leftarrow> dir_open_root fs;
     (success, sec, fs) \<leftarrow>
       (if d = NULL then Some (False, 0, fs)
        else do {
          (r, fs) \<leftarrow> free_map_allocate fs 1;
          case r of
            None \<Rightarrow> Some (False, 0, fs)
          | Some sec \<Rightarrow> do {
              (ok, fs) \<leftarrow> inode_create fs sec initial_size;
              if \<not> ok then Some (False, sec, fs)
              else do {
                (ok, fs) \<leftarrow> dir_add fs d name sec stack;
                Some (ok, sec, fs)
              }
            }
        });
     fs \<leftarrow> (if \<not> success \<and> sec \<noteq> 0 then free_map_release fs sec 1 else Some fs);
     fs \<leftarrow> dir_close fs d;
     Some (success, fs)
   }"

definition filesys_open :: "fsys \<Rightarrow> 8 word list \<Rightarrow> (addr \<times> fsys) option" where
  "filesys_open fs name = do {
     (d, fs) \<leftarrow> dir_open_root fs;
     (p, fs) \<leftarrow> (if d \<noteq> NULL then dir_lookup fs d name else Some (NULL, fs));
     fs \<leftarrow> dir_close fs d;
     file_open fs p
   }"

definition filesys_remove :: "fsys \<Rightarrow> 8 word list \<Rightarrow> (bool \<times> fsys) option" where
  "filesys_remove fs name = do {
     (d, fs) \<leftarrow> dir_open_root fs;
     (success, fs) \<leftarrow> (if d \<noteq> NULL then dir_remove fs d name else Some (False, fs));
     fs \<leftarrow> dir_close fs d;
     Some (success, fs)
   }"

definition do_format :: "fsys \<Rightarrow> fsys option" where
  "do_format fs = do {
     fs \<leftarrow> free_map_create fs;
     (ok, fs) \<leftarrow> dir_create fs ROOT_DIR_SECTOR 16;
     assert_that ok;
     free_map_close fs
   }"

text \<open>The disk is found; \<open>store\<close> is what the storage for the free map holds before it is cleared.\<close>

definition filesys_init :: "fsys \<Rightarrow> bool \<Rightarrow> 64 word list \<Rightarrow> fsys option" where
  "filesys_init fs format store = do {
     let fs = inode_init fs;
     fs \<leftarrow> free_map_init fs store;
     fs \<leftarrow> (if format then do_format fs else Some fs);
     free_map_open fs
   }"

definition filesys_done :: "fsys \<Rightarrow> fsys option" where
  "filesys_done fs = free_map_close fs"

end
