(* ===== verification/InodeProps.thy ===== *)
theory InodeProps
  imports Inode
begin

text \<open>
  What reading and writing an inode does to its contents. An inode is \<open>placed\<close> when its sectors are on the disk;
  its bytes are those of the consecutive sectors from the first one on.
\<close>

definition sector_cnt :: "inode \<Rightarrow> nat" where
  "sector_cnt i = (nat (inode_length i) + 511) div 512"

definition placed :: "fsys \<Rightarrow> inode \<Rightarrow> bool" where
  "placed fs i \<longleftrightarrow> 0 \<le> inode_length i \<and> inode_length i < 2 ^ 31 \<and>
     unat (first_sector (data i)) + sector_cnt i \<le> capacity fs \<and> capacity fs \<le> 2 ^ 28 \<and>
     (\<forall>k < sector_cnt i. length (sectors fs (unat (first_sector (data i)) + k)) = 512)"

definition extent :: "inode \<Rightarrow> nat set" where
  "extent i = {unat (first_sector (data i)) ..< unat (first_sector (data i)) + sector_cnt i}"

definition byte_at :: "fsys \<Rightarrow> inode \<Rightarrow> nat \<Rightarrow> 8 word" where
  "byte_at fs i k = sectors fs (unat (first_sector (data i)) + k div 512) ! (k mod 512)"

definition contents :: "fsys \<Rightarrow> inode \<Rightarrow> 8 word list" where
  "contents fs i = map (byte_at fs i) [0..<nat (inode_length i)]"

text \<open>The bytes that an operation at offset \<open>o'\<close> with size \<open>sz\<close> covers when no allocation fails.\<close>

definition covered :: "inode \<Rightarrow> int \<Rightarrow> nat \<Rightarrow> nat" where
  "covered i sz off = nat (min sz (inode_length i - int off))"

definition all_granted :: "fsys \<Rightarrow> bool" where
  "all_granted fs \<longleftrightarrow> (\<forall>n\<ge>calls fs. answers fs n)"

lemma sector_cnt_index: "off < nat (inode_length i) \<Longrightarrow> off div 512 < sector_cnt i"
  unfolding sector_cnt_def by linarith

lemma placed_sector:
  assumes p: "placed fs i" and o: "int off < inode_length i"
  shows "unat (byte_to_sector i (int off)) = unat (first_sector (data i)) + off div 512"
    "sector_ok fs (byte_to_sector i (int off))"
    "length (sectors fs (unat (byte_to_sector i (int off)))) = 512"
proof -
  let ?k = "off div 512"
  have k: "?k < sector_cnt i" using sector_cnt_index [of off i] o by linarith
  have b: "unat (first_sector (data i)) + ?k < capacity fs" "capacity fs \<le> 2 ^ 28"
    using p k unfolding placed_def by linarith+
  have "int off sdiv 512 = int ?k" by (simp add: signed_divide_int_def zdiv_int sgn_if)
  then have e: "byte_to_sector i (int off) = first_sector (data i) + of_nat ?k"
    using o by (simp add: byte_to_sector_def inode_length_def DISK_SECTOR_SIZE_def)
  have "(2 :: nat) ^ 28 \<le> 2 ^ 32" by simp
  then have "?k < 2 ^ 32" using b by (meson add_lessD1 add.commute le_trans less_le_trans trans_le_add2 le_add2 order_le_less_trans)
  then have "unat (of_nat ?k :: 32 word) = ?k" by (simp add: unat_of_nat)
  then show u: "unat (byte_to_sector i (int off)) = unat (first_sector (data i)) + ?k"
    unfolding e using b by (subst unat_add_lem [THEN iffD1]) simp_all
  show "sector_ok fs (byte_to_sector i (int off))" unfolding sector_ok_def u using b by linarith
  show "length (sectors fs (unat (byte_to_sector i (int off)))) = 512" unfolding u using p k by (simp add: placed_def)
qed

lemma chunk_run:
  assumes "placed fs i" "off < 2 ^ 31"
  shows "chunk i sz (int off) =
    Some (int (off mod 512), 512 - int (off mod 512), min sz (min (inode_length i - int off) (512 - int (off mod 512))))"
proof -
  have "int off smod 512 = int (off mod 512)" by (simp add: signed_modulo_int_def zmod_int sgn_if)
  moreover have "int32 (inode_length i - int off) = Some (inode_length i - int off)"
    using assms unfolding placed_def int32_def by simp
  ultimately show ?thesis by (auto simp: chunk_def DISK_SECTOR_SIZE_def Let_def min_def)
qed

text \<open>One round: the bytes from \<open>off\<close> on that are in the same sector.\<close>

lemma sector_index: "(r :: nat) < 512 \<Longrightarrow> x = r + q * 512 \<Longrightarrow> x div 512 = q \<and> x mod 512 = r"
  by simp

lemma same_sector:
  assumes "off mod 512 + c \<le> 512" "j < c"
  shows "(off + j) div 512 = off div 512" "(off + j) mod 512 = off mod 512 + (j :: nat)"
proof -
  have "off + j = (off mod 512 + j) + off div 512 * 512" by simp
  moreover have "off mod 512 + j < 512" using assms by linarith
  ultimately show "(off + j) div 512 = off div 512" "(off + j) mod 512 = off mod 512 + j"
    using sector_index by blast+
qed

lemma part_bytes:
  assumes p: "placed fs i" and o: "int off < inode_length i" and c: "off mod 512 + c \<le> 512"
  shows "take c (drop (off mod 512) (sectors fs (unat (byte_to_sector i (int off))))) = map (byte_at fs i) [off..<off + c]"
proof (rule nth_equalityI)
  note s = placed_sector [OF p o]
  show "length (take c (drop (off mod 512) (sectors fs (unat (byte_to_sector i (int off)))))) = length (map (byte_at fs i) [off..<off + c])"
    using s(3) c by simp
  fix j assume "j < length (take c (drop (off mod 512) (sectors fs (unat (byte_to_sector i (int off))))))"
  then have j: "j < c" using s(3) by simp
  then show "take c (drop (off mod 512) (sectors fs (unat (byte_to_sector i (int off))))) ! j = map (byte_at fs i) [off..<off + c] ! j"
    using s(1,3) c same_sector [OF c j] by (simp add: byte_at_def)
qed

lemma placed_calls [simp]: "placed (fs\<lparr>calls := c\<rparr>) i = placed fs i" "byte_at (fs\<lparr>calls := c\<rparr>) i = byte_at fs i"
  by (simp_all add: placed_def byte_at_def fun_eq_iff)

lemma get_bounce_run: "get_bounce fs b = (ok, fs') \<Longrightarrow> \<exists>c\<ge>calls fs. fs' = fs\<lparr>calls := c\<rparr> \<and> (all_granted fs \<longrightarrow> ok)"
proof -
  assume a: "get_bounce fs b = (ok, fs')"
  show ?thesis
  proof (cases b)
    case True
    then have "ok" "fs' = fs\<lparr>calls := calls fs\<rparr>" using a by (simp_all add: get_bounce_def)
    then show ?thesis by blast
  next
    case False
    then have "fs' = fs\<lparr>calls := Suc (calls fs)\<rparr>" "ok = answers fs (calls fs)"
      using a by (auto simp: get_bounce_def kmalloc_def split: if_splits)
    then show ?thesis by (auto simp: all_granted_def intro!: exI [of _ "Suc (calls fs)"])
  qed
qed

lemma all_granted_calls: "all_granted fs \<Longrightarrow> calls fs \<le> c \<Longrightarrow> all_granted (fs\<lparr>calls := c\<rparr>)"
  by (simp add: all_granted_def)

lemma covered_step:
  assumes "0 < c" "int c = min sz (min (inode_length i - int off) r)"
  shows "c + covered i (sz - int c) (off + c) = covered i sz off"
  using assms unfolding covered_def by linarith

lemma upt_step: "map f [off..<off + c] @ map f [off + c..<off + c + n] = map f [off..<off + (c + n)]"
  using upt_add_eq_append [of off "off + c" n] by (simp add: add.assoc flip: map_append)

text \<open>The branches of the loop.\<close>

lemma read_loop_stop: "sz \<le> 0 \<Longrightarrow> inode_read_loop fs i sz off b acc = Some (acc, fs)"
  by (subst inode_read_loop.simps) simp

lemma read_loop_end: "chunk i sz off = Some (so, sl, c) \<Longrightarrow> c \<le> 0 \<Longrightarrow> inode_read_loop fs i sz off b acc = Some (acc, fs)"
  by (subst inode_read_loop.simps) simp

lemma read_loop_full:
  "chunk i sz off = Some (0, sl, 512) \<Longrightarrow> 0 < sz \<Longrightarrow> disk_read fs (byte_to_sector i off) = Some bs \<Longrightarrow>
   inode_read_loop fs i sz off b acc = inode_read_loop fs i (sz - 512) (off + 512) b (acc @ bs)"
  by (subst inode_read_loop.simps) (simp add: DISK_SECTOR_SIZE_def Let_def)

lemma read_loop_fail:
  "chunk i sz off = Some (so, sl, c) \<Longrightarrow> 0 < c \<Longrightarrow> \<not> (so = 0 \<and> c = 512) \<Longrightarrow> get_bounce fs b = (False, fs') \<Longrightarrow> 0 < sz \<Longrightarrow>
   inode_read_loop fs i sz off b acc = Some (acc, fs')"
  by (subst inode_read_loop.simps) (auto simp: DISK_SECTOR_SIZE_def Let_def)

lemma read_loop_part:
  "chunk i sz off = Some (so, sl, c) \<Longrightarrow> 0 < c \<Longrightarrow> \<not> (so = 0 \<and> c = 512) \<Longrightarrow> get_bounce fs b = (True, fs') \<Longrightarrow> 0 < sz \<Longrightarrow>
   disk_read fs' (byte_to_sector i off) = Some bs \<Longrightarrow> slice bs so c = Some part \<Longrightarrow>
   inode_read_loop fs i sz off b acc = inode_read_loop fs' i (sz - c) (off + c) True (acc @ part)"
  by (subst inode_read_loop.simps) (auto simp: DISK_SECTOR_SIZE_def Let_def)

lemma inode_read_loop_run:
  assumes "placed fs i" "off < 2 ^ 31"
  shows "\<exists>n c. inode_read_loop fs i sz (int off) b acc = Some (acc @ map (byte_at fs i) [off..<off + n], fs\<lparr>calls := c\<rparr>) \<and>
    calls fs \<le> c \<and> n \<le> covered i sz off \<and> (all_granted fs \<longrightarrow> n = covered i sz off)"
  using assms
proof (induction "nat sz" arbitrary: fs sz off b acc rule: less_induct)
  case less
  note p = less.prems(1)
  let ?c = "min sz (min (inode_length i - int off) (512 - int (off mod 512)))"
  show ?case
  proof (cases "0 < ?c")
    case False
    then have "inode_read_loop fs i sz (int off) b acc = Some (acc, fs)"
      by (intro read_loop_end [OF chunk_run [OF less.prems]]) linarith
    moreover have "512 - int (off mod 512) > 0" by simp
    then have "covered i sz off = 0" using False unfolding covered_def by linarith
    ultimately have "inode_read_loop fs i sz (int off) b acc = Some (acc @ map (byte_at fs i) [off..<off + 0], fs\<lparr>calls := calls fs\<rparr>)"
      "covered i sz off = 0" by simp_all
    then show ?thesis by (metis le_refl)
  next
    case True
    define c where "c = nat ?c"
    have c: "int c = ?c" "0 < c" using True by (simp_all add: c_def)
    have cc: "off mod 512 + c \<le> 512" "int off + int c \<le> inode_length i" "int off < inode_length i" "0 < sz" using c True by linarith+
    note s = placed_sector [OF p cc(3)]
    have ch: "chunk i sz (int off) = Some (int (off mod 512), 512 - int (off mod 512), int c)"
      unfolding c(1) by (rule chunk_run [OF less.prems])
    let ?fs = "\<lambda>d. fs\<lparr>calls := d\<rparr>"
    have IH: "\<exists>n e. inode_read_loop (?fs d) i (sz - int c) (int off + int c) b' (acc @ map (byte_at fs i) [off..<off + c]) =
        Some (acc @ map (byte_at fs i) [off..<off + (c + n)], ?fs e) \<and> calls fs \<le> e \<and>
        c + n \<le> covered i sz off \<and> (all_granted fs \<longrightarrow> c + n = covered i sz off)" if d: "calls fs \<le> d" for d b'
    proof -
      have "int (off + c) < int (2 ^ 31)" using cc(2) p by (simp add: placed_def)
      then have "off + c < 2 ^ 31" by (simp only: of_nat_less_iff)
      from less.hyps [OF _ _ this, of "sz - int c" "?fs d" b' "acc @ map (byte_at fs i) [off..<off + c]"] p c(2) cc(4)
      obtain n e where ne: "inode_read_loop (?fs d) i (sz - int c) (int (off + c)) b' (acc @ map (byte_at fs i) [off..<off + c]) =
          Some ((acc @ map (byte_at fs i) [off..<off + c]) @ map (byte_at fs i) [off + c..<off + c + n], ?fs e)"
        "d \<le> e" "n \<le> covered i (sz - int c) (off + c)" "all_granted (?fs d) \<longrightarrow> n = covered i (sz - int c) (off + c)" by auto
      then show ?thesis using d all_granted_calls [OF _ d] covered_step [OF c(2,1)]
        by (intro exI [of _ n] exI [of _ e]) (auto simp: upt_step)
    qed
    show ?thesis
    proof (cases "off mod 512 = 0 \<and> c = 512")
      case full: True
      then have "disk_read fs (byte_to_sector i (int off)) = Some (map (byte_at fs i) [off..<off + c])"
        using s part_bytes [OF p cc(3,1)] by (simp add: disk_read_def)
      then have "inode_read_loop fs i sz (int off) b acc =
          inode_read_loop fs i (sz - int c) (int off + int c) b (acc @ map (byte_at fs i) [off..<off + c])"
        using read_loop_full [of i sz "int off" "512 - int (off mod 512)"] ch full cc(4) by simp
      with IH [of "calls fs" b] show ?thesis by auto
    next
      case part: False
      obtain ok fs1 where g: "get_bounce fs b = (ok, fs1)" by (cases "get_bounce fs b")
      obtain d where d: "calls fs \<le> d" "fs1 = ?fs d" "all_granted fs \<longrightarrow> ok" using get_bounce_run [OF g] by auto
      have nf: "\<not> (int (off mod 512) = 0 \<and> int c = 512)" using part by simp
      have r: "slice (sectors fs (unat (byte_to_sector i (int off)))) (int (off mod 512)) (int c) = Some (map (byte_at fs i) [off..<off + c])"
        using s(3) cc(1) part_bytes [OF p cc(3,1)] by (simp add: slice_def)
      have dr: "disk_read fs1 (byte_to_sector i (int off)) = Some (sectors fs (unat (byte_to_sector i (int off))))"
        using s(2) d(2) by (simp add: disk_read_def sector_ok_def)
      show ?thesis
      proof (cases ok)
        case False
        then have "inode_read_loop fs i sz (int off) b acc = Some (acc @ map (byte_at fs i) [off..<off + 0], ?fs d)"
          using read_loop_fail [OF ch _ nf _ cc(4)] c(2) g d(2) by simp
        with d False show ?thesis by blast
      next
        case True
        then have "inode_read_loop fs i sz (int off) b acc =
            inode_read_loop (?fs d) i (sz - int c) (int off + int c) True (acc @ map (byte_at fs i) [off..<off + c])"
          using read_loop_part [OF ch _ nf _ cc(4) dr r] c(2) g d(2) by simp
        with IH [OF d(1), of True] show ?thesis by auto
      qed
    qed
  qed
qed

subsection \<open>Writing\<close>

text \<open>The bytes \<open>bs\<close> have been stored in the inode from \<open>off\<close> on, and nothing else has changed.\<close>

definition stored :: "fsys \<Rightarrow> inode \<Rightarrow> nat \<Rightarrow> 8 word list \<Rightarrow> fsys \<Rightarrow> bool" where
  "stored fs i off bs fs' \<longleftrightarrow> (\<exists>S c. fs' = fs\<lparr>sectors := S, calls := c\<rparr> \<and> calls fs \<le> c) \<and> placed fs' i \<and>
     (\<forall>s. s \<notin> extent i \<longrightarrow> sectors fs' s = sectors fs s) \<and>
     (\<forall>k. k div 512 < sector_cnt i \<longrightarrow>
        byte_at fs' i k = (if off \<le> k \<and> k < off + length bs then bs ! (k - off) else byte_at fs i k))"

lemma stored_Nil: "placed fs i \<Longrightarrow> calls fs \<le> c \<Longrightarrow> stored fs i off [] (fs\<lparr>calls := c\<rparr>)"
  unfolding stored_def by (auto intro!: exI [of _ "sectors fs"] exI [of _ c])

lemma stored_trans:
  assumes "stored fs i off bs fs1" "stored fs1 i (off + length bs) bs' fs2"
  shows "stored fs i off (bs @ bs') fs2"
proof -
  obtain S c S' c' where e: "fs1 = fs\<lparr>sectors := S, calls := c\<rparr>" "fs2 = fs1\<lparr>sectors := S', calls := c'\<rparr>" "calls fs \<le> c" "calls fs1 \<le> c'"
    using assms unfolding stored_def by blast
  have "fs2 = fs\<lparr>sectors := S', calls := c'\<rparr>" "calls fs \<le> c'" using e by simp_all
  then have "\<exists>S c. fs2 = fs\<lparr>sectors := S, calls := c\<rparr> \<and> calls fs \<le> c" by blast
  moreover have "byte_at fs2 i k = (if off \<le> k \<and> k < off + length (bs @ bs') then (bs @ bs') ! (k - off) else byte_at fs i k)"
    if "k div 512 < sector_cnt i" for k
  proof -
    have "byte_at fs2 i k = (if off + length bs \<le> k \<and> k < off + length bs + length bs' then bs' ! (k - (off + length bs)) else byte_at fs1 i k)"
      "byte_at fs1 i k = (if off \<le> k \<and> k < off + length bs then bs ! (k - off) else byte_at fs i k)"
      using assms that unfolding stored_def by blast+
    then show ?thesis by (auto simp: nth_append)
  qed
  moreover have "sectors fs2 s = sectors fs s" if "s \<notin> extent i" for s using assms that unfolding stored_def by metis
  ultimately show ?thesis using assms(2) unfolding stored_def by blast
qed

lemma nth_overwrite:
  "ofs + length new \<le> length bs \<Longrightarrow> k < length bs \<Longrightarrow>
   overwrite bs ofs new ! k = (if ofs \<le> k \<and> k < ofs + length new then new ! (k - ofs) else bs ! k)"
  by (auto simp: overwrite_def nth_append)

lemma length_overwrite [simp]: "ofs + length new \<le> length bs \<Longrightarrow> length (overwrite bs ofs new) = length bs"
  by (simp add: overwrite_def)

lemma stored_round:
  assumes p: "placed fs i" and o: "int off < inode_length i" and c: "off mod 512 + length bs \<le> 512" and d: "calls fs \<le> c"
  defines "u \<equiv> unat (byte_to_sector i (int off))"
  shows "disk_write (fs\<lparr>calls := c\<rparr>) (byte_to_sector i (int off)) (overwrite (sectors fs u) (off mod 512) bs) =
      Some (fs\<lparr>sectors := (sectors fs)(u := overwrite (sectors fs u) (off mod 512) bs), calls := c\<rparr>)"
    "stored fs i off bs (fs\<lparr>sectors := (sectors fs)(u := overwrite (sectors fs u) (off mod 512) bs), calls := c\<rparr>)"
proof -
  let ?st = "unat (first_sector (data i))"
  note s = placed_sector [OF p o, folded u_def]
  have l: "length (overwrite (sectors fs u) (off mod 512) bs) = 512" using s(3) c by simp
  show "disk_write (fs\<lparr>calls := c\<rparr>) (byte_to_sector i (int off)) (overwrite (sectors fs u) (off mod 512) bs) =
      Some (fs\<lparr>sectors := (sectors fs)(u := overwrite (sectors fs u) (off mod 512) bs), calls := c\<rparr>)"
    using s(2) l by (simp add: disk_write_def sector_ok_def DISK_SECTOR_SIZE_def u_def)
  let ?fs = "fs\<lparr>sectors := (sectors fs)(u := overwrite (sectors fs u) (off mod 512) bs), calls := c\<rparr>"
  have k: "off div 512 < sector_cnt i" using sector_cnt_index [of off i] o by linarith
  have "placed ?fs i" using p l unfolding placed_def by simp
  moreover have "sectors ?fs s = sectors fs s" if "s \<notin> extent i" for s
    using that s(1) k by (auto simp: extent_def)
  moreover have "byte_at ?fs i j = (if off \<le> j \<and> j < off + length bs then bs ! (j - off) else byte_at fs i j)"
    if "j div 512 < sector_cnt i" for j
  proof (cases "j div 512 = off div 512")
    case True
    have m: "j = off div 512 * 512 + j mod 512" "off = off div 512 * 512 + off mod 512" using True by (metis div_mult_mod_eq)+
    then have "off \<le> j \<longleftrightarrow> off mod 512 \<le> j mod 512" "j < off + length bs \<longleftrightarrow> j mod 512 < off mod 512 + length bs"
      "j - off = j mod 512 - off mod 512" by linarith+
    then show ?thesis using True s(1,3) c by (simp add: byte_at_def nth_overwrite)
  next
    case False
    have "j - off < length bs" "off + (j - off) = j" if "off \<le> j" "j < off + length bs" using that by simp_all
    then have "\<not> (off \<le> j \<and> j < off + length bs)" using False same_sector(1) [OF c, of "j - off"] by metis
    then show ?thesis using False s(1) by (auto simp: byte_at_def)
  qed
  ultimately show "stored fs i off bs ?fs" unfolding stored_def using d by blast
qed

text \<open>The branches of the loop.\<close>

lemma write_loop_end: "chunk i sz off = Some (so, sl, c) \<Longrightarrow> c \<le> 0 \<Longrightarrow> inode_write_loop fs i buf sz off b n = Some (n, fs)"
  by (subst inode_write_loop.simps) simp

lemma write_loop_full:
  "chunk i sz off = Some (0, sl, 512) \<Longrightarrow> 0 < sz \<Longrightarrow> slice buf 0 512 = Some part \<Longrightarrow>
   disk_write fs (byte_to_sector i off) part = Some fs' \<Longrightarrow>
   inode_write_loop fs i buf sz off b n = inode_write_loop fs' i (drop 512 buf) (sz - 512) (off + 512) b (n + 512)"
  by (subst inode_write_loop.simps) (simp add: DISK_SECTOR_SIZE_def Let_def)

lemma write_loop_fail:
  "chunk i sz off = Some (so, sl, c) \<Longrightarrow> 0 < c \<Longrightarrow> \<not> (so = 0 \<and> c = 512) \<Longrightarrow> get_bounce fs b = (False, fs') \<Longrightarrow> 0 < sz \<Longrightarrow>
   inode_write_loop fs i buf sz off b n = Some (n, fs')"
  by (subst inode_write_loop.simps) (auto simp: DISK_SECTOR_SIZE_def Let_def)

lemma write_loop_part:
  "chunk i sz off = Some (so, sl, c) \<Longrightarrow> 0 < c \<Longrightarrow> \<not> (so = 0 \<and> c = 512) \<Longrightarrow> get_bounce fs b = (True, fs') \<Longrightarrow> 0 < sz \<Longrightarrow>
   so > 0 \<or> c < sl \<Longrightarrow> disk_read fs' (byte_to_sector i off) = Some old \<Longrightarrow> slice old so c = Some x \<Longrightarrow> slice buf 0 c = Some part \<Longrightarrow>
   disk_write fs' (byte_to_sector i off) (overwrite old (nat so) part) = Some fs'' \<Longrightarrow>
   inode_write_loop fs i buf sz off b n = inode_write_loop fs'' i (drop (nat c) buf) (sz - c) (off + c) True (n + c)"
  by (subst inode_write_loop.simps) (auto simp: DISK_SECTOR_SIZE_def Let_def)

lemma inode_write_loop_run:
  assumes "placed fs i" "off < 2 ^ 31" "sz \<le> int (length buf)"
  shows "\<exists>n fs'. inode_write_loop fs i buf sz (int off) b n0 = Some (n0 + int n, fs') \<and> stored fs i off (take n buf) fs' \<and>
    n \<le> covered i sz off \<and> (all_granted fs \<longrightarrow> n = covered i sz off)"
  using assms
proof (induction "nat sz" arbitrary: fs sz off b n0 buf rule: less_induct)
  case less
  note p = less.prems(1)
  let ?c = "min sz (min (inode_length i - int off) (512 - int (off mod 512)))"
  show ?case
  proof (cases "0 < ?c")
    case False
    then have "inode_write_loop fs i buf sz (int off) b n0 = Some (n0 + int 0, fs\<lparr>calls := calls fs\<rparr>)"
      using write_loop_end [OF chunk_run [OF less.prems(1,2), of sz] False [unfolded linorder_not_less], of fs buf b n0] by simp
    moreover have "512 - int (off mod 512) > 0" by simp
    then have "covered i sz off = 0" using False unfolding covered_def by linarith
    moreover have "stored fs i off (take 0 buf) (fs\<lparr>calls := calls fs\<rparr>)" using stored_Nil [OF p order_refl] by simp
    ultimately show ?thesis by (metis le_refl)
  next
    case True
    define c where "c = nat ?c"
    have c: "int c = ?c" "0 < c" using True by (simp_all add: c_def)
    have cc: "off mod 512 + c \<le> 512" "int off + int c \<le> inode_length i" "int off < inode_length i" "0 < sz" using c True by linarith+
    have cb: "c \<le> length buf" using c less.prems(3) by linarith
    note s = placed_sector [OF p cc(3)]
    have ch: "chunk i sz (int off) = Some (int (off mod 512), 512 - int (off mod 512), int c)"
      unfolding c(1) by (rule chunk_run [OF less.prems(1,2)])
    let ?u = "unat (byte_to_sector i (int off))"
    let ?part = "take c buf"
    have lp: "length ?part = c" using cb by simp
    have sp: "slice buf 0 (int c) = Some ?part" using cb by (simp add: slice_def)
    have IH: "\<exists>n fs'. inode_write_loop fs1 i (drop c buf) (sz - int c) (int off + int c) b' (n0 + int c) = Some (n0 + int (c + n), fs') \<and>
        stored fs i off (take (c + n) buf) fs' \<and> c + n \<le> covered i sz off \<and> (all_granted fs \<longrightarrow> c + n = covered i sz off)"
      if st: "stored fs i off ?part fs1" for fs1 b'
    proof -
      have "int (off + c) < int (2 ^ 31)" using cc(2) p by (simp add: placed_def)
      then have o: "off + c < 2 ^ 31" by (simp only: of_nat_less_iff)
      have p1: "placed fs1 i" using st by (simp add: stored_def)
      have g: "all_granted fs \<longrightarrow> all_granted fs1" using st by (auto simp: stored_def all_granted_def)
      have l: "sz - int c \<le> int (length (drop c buf))" using less.prems(3) cb by simp
      have "nat (sz - int c) < nat sz" using c(2) cc(4) by simp
      from less.hyps [OF this p1 o l, of b' "n0 + int c"]
      obtain n fs' where ne: "inode_write_loop fs1 i (drop c buf) (sz - int c) (int (off + c)) b' (n0 + int c) = Some (n0 + int c + int n, fs')"
        "stored fs1 i (off + c) (take n (drop c buf)) fs'" "n \<le> covered i (sz - int c) (off + c)"
        "all_granted fs1 \<longrightarrow> n = covered i (sz - int c) (off + c)" by blast
      have "stored fs i off (take c buf @ take n (drop c buf)) fs'" using stored_trans [OF st, of "take n (drop c buf)" fs'] ne(2) lp by simp
      then have "stored fs i off (take (c + n) buf) fs'" by (simp add: take_add)
      then show ?thesis using ne g covered_step [OF c(2,1)]
        by (intro exI [of _ n] exI [of _ fs']) (auto simp: add.assoc)
    qed
    have fin: ?thesis if "inode_write_loop fs i buf sz (int off) b n0 =
        inode_write_loop fs1 i (drop c buf) (sz - int c) (int off + int c) b' (n0 + int c)" "stored fs i off ?part fs1" for fs1 b'
      using IH [OF that(2), of b'] unfolding that(1) by blast
    show ?thesis
    proof (cases "off mod 512 = 0 \<and> c = 512")
      case full: True
      note w = stored_round [OF p cc(3), of ?part, unfolded lp, OF cc(1) order_refl]
      have "overwrite (sectors fs ?u) (off mod 512) ?part = ?part" using full s(3) lp by (simp add: overwrite_def)
      then have "disk_write fs (byte_to_sector i (int off)) ?part = Some (fs\<lparr>sectors := (sectors fs)(?u := ?part), calls := calls fs\<rparr>)"
        "stored fs i off ?part (fs\<lparr>sectors := (sectors fs)(?u := ?part), calls := calls fs\<rparr>)" using w by simp_all
      then show ?thesis
        using write_loop_full [of i sz "int off" "512 - int (off mod 512)" buf ?part] ch full cc(4) sp by (intro fin) simp_all
    next
      case part: False
      obtain ok fs1 where g: "get_bounce fs b = (ok, fs1)" by (cases "get_bounce fs b")
      obtain d where d: "calls fs \<le> d" "fs1 = fs\<lparr>calls := d\<rparr>" "all_granted fs \<longrightarrow> ok" using get_bounce_run [OF g] by auto
      have nf: "\<not> (int (off mod 512) = 0 \<and> int c = 512)" using part by simp
      show ?thesis
      proof (cases ok)
        case False
        then have "inode_write_loop fs i buf sz (int off) b n0 = Some (n0 + int 0, fs\<lparr>calls := d\<rparr>)"
          using write_loop_fail [OF ch _ nf _ cc(4)] c(2) g d(2) by simp
        moreover have "stored fs i off (take 0 buf) (fs\<lparr>calls := d\<rparr>)" using stored_Nil [OF p d(1)] by simp
        ultimately show ?thesis using d(3) False by blast
      next
        case True
        note w = stored_round [OF p cc(3), of ?part, unfolded lp, OF cc(1) d(1)]
        have dr: "disk_read fs1 (byte_to_sector i (int off)) = Some (sectors fs ?u)"
          using s(2) d(2) by (simp add: disk_read_def sector_ok_def)
        have sl: "int (off mod 512) > 0 \<or> int c < 512 - int (off mod 512)" using nf cc(1) by linarith
        have x: "slice (sectors fs ?u) (int (off mod 512)) (int c) = Some (take c (drop (off mod 512) (sectors fs ?u)))"
          using s(3) cc(1) by (simp add: slice_def)
        have g': "get_bounce fs b = (True, fs1)" using g True by simp
        have dw: "disk_write fs1 (byte_to_sector i (int off)) (overwrite (sectors fs ?u) (nat (int (off mod 512))) ?part) =
            Some (fs\<lparr>sectors := (sectors fs)(?u := overwrite (sectors fs ?u) (off mod 512) ?part), calls := d\<rparr>)"
          using w(1) d(2) by simp
        show ?thesis
          by (rule fin [OF _ w(2)]) (use write_loop_part [OF ch _ nf g' cc(4) sl dr x sp dw] c(2) in simp)
      qed
    qed
  qed
qed

subsection \<open>The operations on a file's contents\<close>

lemma stored_contents:
  assumes "stored fs i off bs fs'" "off + length bs \<le> nat (inode_length i)"
  shows "contents fs' i = overwrite (contents fs i) off bs"
proof (rule nth_equalityI)
  show "length (contents fs' i) = length (overwrite (contents fs i) off bs)" using assms(2) by (simp add: contents_def)
  fix j assume "j < length (contents fs' i)"
  then have j: "j < nat (inode_length i)" by (simp add: contents_def)
  have "byte_at fs' i j = (if off \<le> j \<and> j < off + length bs then bs ! (j - off) else byte_at fs i j)"
    using assms(1) sector_cnt_index [OF j] unfolding stored_def by blast
  then show "contents fs' i ! j = overwrite (contents fs i) off bs ! j"
    using j assms(2) by (subst nth_overwrite) (simp_all add: contents_def)
qed

lemma covered_bound: "0 < covered i sz off \<Longrightarrow> off + covered i sz off \<le> nat (inode_length i)"
  unfolding covered_def by linarith

lemma covered_le: "covered i sz off \<le> nat sz"
  by (simp add: covered_def)

lemma map_byte_at: "off + n \<le> nat (inode_length i) \<Longrightarrow> map (byte_at fs i) [off..<off + n] = take n (drop off (contents fs i))"
  by (rule nth_equalityI) (simp_all add: contents_def)

lemma inode_read_at_run:
  assumes "inodes fs p = Some i" "placed fs i" "off < 2 ^ 31"
  shows "\<exists>n c. inode_read_at fs p sz (int off) = Some (take n (drop off (contents fs i)), fs\<lparr>calls := c\<rparr>) \<and> calls fs \<le> c \<and>
    n \<le> covered i sz off \<and> (all_granted fs \<longrightarrow> n = covered i sz off)"
proof -
  obtain n c where r: "inode_read_loop fs i sz (int off) False [] = Some ([] @ map (byte_at fs i) [off..<off + n], fs\<lparr>calls := c\<rparr>)"
    "calls fs \<le> c" "n \<le> covered i sz off" "all_granted fs \<longrightarrow> n = covered i sz off"
    using inode_read_loop_run [OF assms(2,3), of sz False "[]"] by blast
  have "map (byte_at fs i) [off..<off + n] = take n (drop off (contents fs i))"
  proof (cases n)
    case (Suc m)
    then have "off + n \<le> nat (inode_length i)" using r(3) covered_bound [of i sz off] by linarith
    then show ?thesis by (rule map_byte_at)
  qed simp
  then show ?thesis using r assms(1) by (auto simp: inode_read_at_def)
qed

lemma inode_write_at_run:
  assumes "inodes fs p = Some i" "placed fs i" "off < 2 ^ 31" "deny_write_cnt i = 0" "sz \<le> int (length buf)"
  shows "\<exists>n fs'. inode_write_at fs p buf sz (int off) = Some (int n, fs') \<and> stored fs i off (take n buf) fs' \<and>
    n \<le> covered i sz off \<and> (all_granted fs \<longrightarrow> n = covered i sz off) \<and>
    contents fs' i = overwrite (contents fs i) off (take n buf)"
proof -
  obtain n fs' where w: "inode_write_loop fs i buf sz (int off) False 0 = Some (0 + int n, fs')" "stored fs i off (take n buf) fs'"
    "n \<le> covered i sz off" "all_granted fs \<longrightarrow> n = covered i sz off"
    using inode_write_loop_run [OF assms(2,3,5), of False 0] by blast
  have "contents fs' i = overwrite (contents fs i) off (take n buf)"
  proof (cases n)
    case 0
    then have "byte_at fs' i k = byte_at fs i k" if "k < nat (inode_length i)" for k
      using w(2) sector_cnt_index [OF that] unfolding stored_def by (auto dest: leD)
    then have "contents fs' i = contents fs i" by (simp add: contents_def)
    then show ?thesis using 0 by (simp add: overwrite_def)
  next
    case (Suc m)
    then have "off + n \<le> nat (inode_length i)" using w(3) covered_bound [of i sz off] by linarith
    then show ?thesis by (intro stored_contents [OF w(2)]) simp
  qed
  then show ?thesis using w assms by (auto simp: inode_write_at_def)
qed

end
