(* ===== verification/DirectoryProps.thy ===== *)
theory DirectoryProps
  imports Directory InodeProps
begin

text \<open>
  Directories as maps. The contents of a directory are slots of 20 bytes; a slot in use gives a name and the sector
  of an inode. \<open>dir_is c M\<close> says that the bytes \<open>c\<close> are a directory in good order that stands for the map \<open>M\<close>.
\<close>

definition slot :: "8 word list \<Rightarrow> nat \<Rightarrow> dir_entry" where
  "slot c k = entry_of (take 20 (drop (20 * k) c))"

definition slot_cnt :: "8 word list \<Rightarrow> nat" where
  "slot_cnt c = length c div 20"

definition used_at :: "8 word list \<Rightarrow> nat \<Rightarrow> 8 word list \<Rightarrow> bool" where
  "used_at c k name \<longleftrightarrow> k < slot_cnt c \<and> in_use (slot c k) \<and> c_string (entry_name (slot c k)) = Some name"

definition dir_is :: "8 word list \<Rightarrow> (8 word list \<rightharpoonup> sector_t) \<Rightarrow> bool" where
  "dir_is c M \<longleftrightarrow>
     (\<forall>k < slot_cnt c. in_use (slot c k) \<longrightarrow> c_string (entry_name (slot c k)) \<noteq> None) \<and>
     (\<forall>j k name. used_at c j name \<longrightarrow> used_at c k name \<longrightarrow> j = k) \<and>
     (\<forall>name s. M name = Some s \<longleftrightarrow> (\<exists>k. used_at c k name \<and> inode_sector (slot c k) = s))"

subsection \<open>Bytes of an entry\<close>

lemma length_le_bytes [simp]: "length (le_bytes n v) = n"
  by (induction n arbitrary: v) simp_all

lemma le_nat_bytes: "v < 256 ^ n \<Longrightarrow> le_nat (le_bytes n v) = v"
proof (induction n arbitrary: v)
  case (Suc n)
  have "v div 256 < 256 ^ n" using Suc.prems by (simp add: less_mult_imp_div_less mult.commute)
  then show ?case using Suc.IH [of "v div 256"] by (simp add: unat_of_nat)
qed simp

lemma length_entry_bytes [simp]: "length (entry_bytes e) = 5 + length (entry_name e)"
  by (simp add: entry_bytes_def)

lemma entry_of_bytes:
  assumes "length (entry_name e) = 15"
  shows "entry_of (entry_bytes e) = e"
proof -
  have "unat (inode_sector e) < 256 ^ 4" using unsigned_less [of "inode_sector e"] by simp
  then have "le_nat (le_bytes 4 (unat (inode_sector e))) = unat (inode_sector e)" by (rule le_nat_bytes)
  then show ?thesis using assms by (simp add: entry_of_def entry_bytes_def nth_append)
qed

lemma length_entry_name: "length bs = 20 \<Longrightarrow> length (entry_name (entry_of bs)) = 15"
  by (simp add: entry_of_def)

lemma same_name_c_string:
  "0 \<notin> set name \<Longrightarrow> 0 \<in> set buf \<Longrightarrow> same_name name buf = Some (c_string buf = Some name)"
proof (induction name buf rule: same_name.induct)
  case (3 c cs b bs)
  then show ?case by (cases "b = 0") (auto simp: c_string_def split: if_splits)
qed (auto simp: c_string_def split: if_splits)

lemma c_string_copy:
  assumes "0 \<notin> set name" "length name < length buf"
  shows "c_string (copy_name buf name) = Some name"
proof -
  have "takeWhile (\<lambda>b. b \<noteq> 0) (name @ 0 # bs) = name" for bs using assms(1) by (induction name) auto
  then show ?thesis using assms by (simp add: c_string_def copy_name_def overwrite_def)
qed

lemma length_copy_name: "length name < length buf \<Longrightarrow> length (copy_name buf name) = length buf"
  by (simp add: copy_name_def overwrite_def)

subsection \<open>Searching\<close>

text \<open>What an operation needs of an open directory.\<close>

definition dir_open_at :: "fsys \<Rightarrow> addr \<Rightarrow> addr \<Rightarrow> inode \<Rightarrow> bool" where
  "dir_open_at fs d p i \<longleftrightarrow> d \<noteq> NULL \<and> map_option dir_inode (dirs fs d) = Some p \<and> inodes fs p = Some i \<and> placed fs i \<and> deny_write_cnt i = 0"

lemma length_contents [simp]: "length (contents fs i) = nat (inode_length i)"
  by (simp add: contents_def)

lemma contents_calls [simp]: "contents (fs\<lparr>calls := c\<rparr>) i = contents fs i"
  by (simp add: contents_def)

lemma small_offset: "placed fs i \<Longrightarrow> off \<le> nat (inode_length i) \<Longrightarrow> off < 2 ^ 31"
proof -
  assume "placed fs i" "off \<le> nat (inode_length i)"
  then have "int off < int (2 ^ 31)" unfolding placed_def by simp linarith
  then show ?thesis by (simp only: of_nat_less_iff)
qed

lemma off_t_small: "n < 2 ^ 31 \<Longrightarrow> off_t n = int n"
  by (simp add: off_t_def signed_of_nat signed_take_bit_int_eq_self)

text \<open>Reading a slot when memory suffices.\<close>

lemma read_slot:
  assumes "inodes fs p = Some i" "placed fs i" "all_granted fs" "k \<le> slot_cnt (contents fs i)"
  shows "\<exists>bs c. inode_read_at fs p (int ENTRY_SIZE) (int (20 * k)) = Some (bs, fs\<lparr>calls := c\<rparr>) \<and> calls fs \<le> c \<and>
    (if k < slot_cnt (contents fs i) then bs = take 20 (drop (20 * k) (contents fs i)) \<and> length bs = 20 else length bs < 20)"
proof -
  have k: "20 * k \<le> nat (inode_length i)" using assms(4) by (simp add: slot_cnt_def)
  obtain n c where r: "inode_read_at fs p (int ENTRY_SIZE) (int (20 * k)) = Some (take n (drop (20 * k) (contents fs i)), fs\<lparr>calls := c\<rparr>)"
    "calls fs \<le> c" "n = covered i (int ENTRY_SIZE) (20 * k)"
    using inode_read_at_run [OF assms(1,2) small_offset [OF assms(2) k], of "int ENTRY_SIZE"] assms(3) by blast
  have l: "k < slot_cnt (contents fs i) \<Longrightarrow> 20 * k + 20 \<le> nat (inode_length i)"
    unfolding slot_cnt_def length_contents by linarith
  then have "k < slot_cnt (contents fs i) \<Longrightarrow> n = 20" unfolding r(3) covered_def ENTRY_SIZE_def by linarith
  moreover have "\<not> k < slot_cnt (contents fs i) \<Longrightarrow> n < 20"
    unfolding r(3) covered_def slot_cnt_def ENTRY_SIZE_def length_contents by linarith
  ultimately show ?thesis using r l by (intro exI [of _ "take n (drop (20 * k) (contents fs i))"] exI [of _ c]) auto
qed

lemma lookup_loop_stop:
  "inode_read_at fs p (int ENTRY_SIZE) (off_t ofs) = Some (bs, fs') \<Longrightarrow> length bs < 20 \<Longrightarrow> lookup_loop fs p name ofs = Some (None, fs')"
  by (subst lookup_loop.simps) (simp add: ENTRY_SIZE_def)

lemma lookup_loop_step:
  "inode_read_at fs p (int ENTRY_SIZE) (off_t ofs) = Some (bs, fs') \<Longrightarrow> length bs = 20 \<Longrightarrow>
   (if in_use (entry_of bs) then same_name name (entry_name (entry_of bs)) else Some False) = Some b \<Longrightarrow>
   lookup_loop fs p name ofs = (if b then Some (Some (entry_of bs, ofs), fs') else lookup_loop fs' p name (ofs + 20))"
  by (subst lookup_loop.simps) (auto simp: ENTRY_SIZE_def split: if_splits)

definition looked_up :: "8 word list \<Rightarrow> (8 word list \<rightharpoonup> sector_t) \<Rightarrow> 8 word list \<Rightarrow> (dir_entry \<times> nat) option \<Rightarrow> bool" where
  "looked_up c M name r \<longleftrightarrow> (case r of None \<Rightarrow> M name = None
     | Some (e, ofs) \<Rightarrow> \<exists>j. ofs = 20 * j \<and> used_at c j name \<and> e = slot c j)"

lemma lookup_loop_run:
  assumes "inodes fs p = Some i" "placed fs i" "all_granted fs" "dir_is (contents fs i) M" "0 \<notin> set name"
    and "k \<le> slot_cnt (contents fs i)" "\<And>j. j < k \<Longrightarrow> \<not> used_at (contents fs i) j name"
  shows "\<exists>r c. lookup_loop fs p name (20 * k) = Some (r, fs\<lparr>calls := c\<rparr>) \<and> calls fs \<le> c \<and>
    looked_up (contents fs i) M name r"
  using assms
proof (induction "slot_cnt (contents fs i) - k" arbitrary: fs k)
  case 0
  then have k: "k = slot_cnt (contents fs i)" by simp
  obtain bs c where b: "inode_read_at fs p (int ENTRY_SIZE) (int (20 * k)) = Some (bs, fs\<lparr>calls := c\<rparr>)" "calls fs \<le> c" "length bs < 20"
    using read_slot [OF 0(2,3,4,7)] k by auto
  have "off_t (20 * k) = int (20 * k)" using small_offset [OF 0(3), of "20 * k"] k by (intro off_t_small) (simp add: slot_cnt_def)
  then have "lookup_loop fs p name (20 * k) = Some (None, fs\<lparr>calls := c\<rparr>)"
    using lookup_loop_stop [of fs p "20 * k"] b by simp
  moreover have "M name = None"
  proof (rule ccontr)
    assume "M name \<noteq> None"
    then obtain j where "used_at (contents fs i) j name" using 0(5) unfolding dir_is_def by blast
    then show False using 0(8) [of j] k by (simp add: used_at_def)
  qed
  ultimately show ?case using b(2) by (auto simp: looked_up_def)
next
  case (Suc n)
  have k: "k < slot_cnt (contents fs i)" using Suc(2) by simp
  obtain bs c where b: "inode_read_at fs p (int ENTRY_SIZE) (int (20 * k)) = Some (bs, fs\<lparr>calls := c\<rparr>)" "calls fs \<le> c"
    "bs = take 20 (drop (20 * k) (contents fs i))" "length bs = 20"
    using read_slot [OF Suc(3,4,5,8)] k by auto
  have o: "off_t (20 * k) = int (20 * k)" using small_offset [OF Suc(4), of "20 * k"] k
    by (intro off_t_small) (simp add: slot_cnt_def)
  have e: "entry_of bs = slot (contents fs i) k" using b(3) by (simp add: slot_def)
  have "in_use (slot (contents fs i) k) \<Longrightarrow> 0 \<in> set (entry_name (slot (contents fs i) k))"
    using Suc(6) k by (auto simp: dir_is_def c_string_def split: if_splits)
  then have t: "(if in_use (entry_of bs) then same_name name (entry_name (entry_of bs)) else Some False) = Some (used_at (contents fs i) k name)"
    using same_name_c_string [OF Suc(7), of "entry_name (slot (contents fs i) k)"] k unfolding e by (auto simp: used_at_def)
  show ?case
  proof (cases "used_at (contents fs i) k name")
    case True
    then have "lookup_loop fs p name (20 * k) = Some (Some (slot (contents fs i) k, 20 * k), fs\<lparr>calls := c\<rparr>)"
      using lookup_loop_step [of fs p "20 * k", unfolded o, OF b(1,4) t] e by simp
    with True b(2) show ?thesis by (auto simp: looked_up_def)
  next
    case False
    let ?fs = "fs\<lparr>calls := c\<rparr>"
    have n: "lookup_loop fs p name (20 * k) = lookup_loop ?fs p name (20 * Suc k)"
      using lookup_loop_step [of fs p "20 * k", unfolded o, OF b(1,4) t] False by (simp add: add.commute)
    have h: "\<not> used_at (contents ?fs i) j name" if "j < Suc k" for j using that False Suc(9) by (auto simp: less_Suc_eq)
    have "\<exists>r e. lookup_loop ?fs p name (20 * Suc k) = Some (r, ?fs\<lparr>calls := e\<rparr>) \<and> calls ?fs \<le> e \<and>
        looked_up (contents ?fs i) M name r"
      by (rule Suc(1) [of ?fs "Suc k", OF _ _ _ all_granted_calls [OF Suc(5) b(2)] _ Suc(7) _ h]) (use Suc(2-4,6) k in simp_all)
    then show ?thesis using b(2) unfolding n contents_calls by (auto intro: order_trans)
  qed
qed

lemma lookup_run:
  assumes "dir_open_at fs d p i" "all_granted fs" "dir_is (contents fs i) M" "0 \<notin> set name"
  shows "\<exists>r c. lookup fs d name = Some (r, fs\<lparr>calls := c\<rparr>) \<and> calls fs \<le> c \<and> looked_up (contents fs i) M name r"
proof -
  have d: "d \<noteq> NULL" "inodes fs p = Some i" "placed fs i" using assms(1) by (simp_all add: dir_open_at_def)
  obtain x where x: "dirs fs d = Some x" "dir_inode x = p" using assms(1) by (auto simp: dir_open_at_def)
  have "\<exists>r c. lookup_loop fs p name (20 * 0) = Some (r, fs\<lparr>calls := c\<rparr>) \<and> calls fs \<le> c \<and> looked_up (contents fs i) M name r"
    by (rule lookup_loop_run [OF d(2,3) assms(2-4)]) simp_all
  then show ?thesis using d(1) x by (simp add: lookup_def)
qed

lemma dir_lookup_run:
  assumes "dir_open_at fs d p i" "all_granted fs" "dir_is (contents fs i) M" "0 \<notin> set name"
  shows "\<exists>c\<ge>calls fs. dir_lookup fs d name =
    (case M name of None \<Rightarrow> Some (NULL, fs\<lparr>calls := c\<rparr>) | Some s \<Rightarrow> inode_open (fs\<lparr>calls := c\<rparr>) s)"
proof -
  obtain r c where r: "lookup fs d name = Some (r, fs\<lparr>calls := c\<rparr>)" "calls fs \<le> c" "looked_up (contents fs i) M name r"
    using lookup_run [OF assms] by blast
  have d: "d \<noteq> NULL" using assms(1) by (simp add: dir_open_at_def)
  show ?thesis
  proof (cases r)
    case None
    then show ?thesis using r d by (intro exI [of _ c]) (simp add: dir_lookup_def looked_up_def)
  next
    case (Some a)
    obtain e ofs where a: "a = (e, ofs)" by (cases a)
    obtain j where j: "used_at (contents fs i) j name" "e = slot (contents fs i) j"
      using r(3) Some a by (auto simp: looked_up_def)
    then have "M name = Some (inode_sector e)" using assms(3) unfolding dir_is_def by blast
    then show ?thesis using r d Some a by (intro exI [of _ c]) (simp add: dir_lookup_def)
  qed
qed

subsection \<open>Adding an entry\<close>

lemma free_slot_stop:
  "inode_read_at fs p (int ENTRY_SIZE) ofs = Some (bs, fs') \<Longrightarrow> length bs < 20 \<Longrightarrow>
   free_slot fs p buf ofs = Some (overwrite buf 0 bs, ofs, fs')"
  by (subst free_slot.simps) (simp add: ENTRY_SIZE_def)

lemma free_slot_step:
  "inode_read_at fs p (int ENTRY_SIZE) ofs = Some (bs, fs') \<Longrightarrow> length bs = 20 \<Longrightarrow> length buf = 20 \<Longrightarrow>
   free_slot fs p buf ofs = (if \<not> in_use (entry_of bs) then Some (bs, ofs, fs') else free_slot fs' p bs (ofs + 20))"
  by (subst free_slot.simps) (simp add: ENTRY_SIZE_def overwrite_def)

lemma free_slot_run:
  assumes "inodes fs p = Some i" "placed fs i" "all_granted fs" "k \<le> slot_cnt (contents fs i)" "length buf = 20"
  shows "\<exists>buf' j c. free_slot fs p buf (int (20 * k)) = Some (buf', int (20 * j), fs\<lparr>calls := c\<rparr>) \<and> calls fs \<le> c \<and> length buf' = 20 \<and>
    k \<le> j \<and> j \<le> slot_cnt (contents fs i) \<and> (j < slot_cnt (contents fs i) \<longrightarrow> \<not> in_use (slot (contents fs i) j)) \<and>
    (\<forall>l. k \<le> l \<and> l < j \<longrightarrow> in_use (slot (contents fs i) l))"
  using assms
proof (induction "slot_cnt (contents fs i) - k" arbitrary: fs k buf)
  case 0
  then have k: "k = slot_cnt (contents fs i)" by simp
  obtain bs c where b: "inode_read_at fs p (int ENTRY_SIZE) (int (20 * k)) = Some (bs, fs\<lparr>calls := c\<rparr>)" "calls fs \<le> c" "length bs < 20"
    using read_slot [OF 0(2-5)] k by auto
  have "free_slot fs p buf (int (20 * k)) = Some (overwrite buf 0 bs, int (20 * k), fs\<lparr>calls := c\<rparr>)"
    by (rule free_slot_stop [OF b(1,3)])
  moreover have "length (overwrite buf 0 bs) = 20" using b(3) 0(6) by simp
  ultimately show ?case using b(2) k by fastforce
next
  case (Suc n)
  have k: "k < slot_cnt (contents fs i)" using Suc(2) by simp
  obtain bs c where b: "inode_read_at fs p (int ENTRY_SIZE) (int (20 * k)) = Some (bs, fs\<lparr>calls := c\<rparr>)" "calls fs \<le> c"
    "bs = take 20 (drop (20 * k) (contents fs i))" "length bs = 20"
    using read_slot [OF Suc(3-6)] k by auto
  have e: "entry_of bs = slot (contents fs i) k" using b(3) by (simp add: slot_def)
  note step = free_slot_step [OF b(1,4) Suc(7), unfolded e]
  show ?case
  proof (cases "in_use (slot (contents fs i) k)")
    case False
    then show ?thesis using step b(2,4) k by fastforce
  next
    case True
    let ?fs = "fs\<lparr>calls := c\<rparr>"
    have "free_slot fs p buf (int (20 * k)) = free_slot ?fs p bs (int (20 * Suc k))" using step True by (simp add: add.commute)
    moreover have "\<exists>buf' j e. free_slot ?fs p bs (int (20 * Suc k)) = Some (buf', int (20 * j), ?fs\<lparr>calls := e\<rparr>) \<and> calls ?fs \<le> e \<and>
      length buf' = 20 \<and> Suc k \<le> j \<and> j \<le> slot_cnt (contents ?fs i) \<and>
      (j < slot_cnt (contents ?fs i) \<longrightarrow> \<not> in_use (slot (contents ?fs i) j)) \<and>
      (\<forall>l. Suc k \<le> l \<and> l < j \<longrightarrow> in_use (slot (contents ?fs i) l))"
      by (rule Suc(1) [of ?fs "Suc k", OF _ _ _ all_granted_calls [OF Suc(5) b(2)]]) (use Suc(2-4) k b(4) in simp_all)
    then obtain buf' j e where r: "free_slot ?fs p bs (int (20 * Suc k)) = Some (buf', int (20 * j), fs\<lparr>calls := e\<rparr>)" "c \<le> e"
      "length buf' = 20" "Suc k \<le> j" "j \<le> slot_cnt (contents fs i)" "j < slot_cnt (contents fs i) \<longrightarrow> \<not> in_use (slot (contents fs i) j)"
      "\<forall>l. Suc k \<le> l \<and> l < j \<longrightarrow> in_use (slot (contents fs i) l)" by auto
    moreover have "in_use (slot (contents fs i) l)" if "k \<le> l" "l < j" for l
      using that r(7) True by (cases "l = k") simp_all
    ultimately show ?thesis using b(2) by (intro exI [of _ buf'] exI [of _ j] exI [of _ e]) auto
  qed
qed

lemma part_overwrite:
  assumes "ofs + length bs \<le> length c" "a + n \<le> ofs \<or> ofs + length bs \<le> a"
  shows "take n (drop a (overwrite c ofs bs)) = take n (drop a c)"
  using assms by (intro nth_equalityI) (auto simp: nth_overwrite)

lemma slot_overwrite:
  assumes "k < slot_cnt c" "j < slot_cnt c" "length bs = 20"
  shows "slot (overwrite c (20 * k) bs) j = (if j = k then entry_of bs else slot c j)"
proof -
  have k: "20 * k + 20 \<le> length c" using assms(1) unfolding slot_cnt_def by linarith
  show ?thesis
  proof (cases "j = k")
    case True
    have "take 20 (drop (20 * k) (overwrite c (20 * k) bs)) = bs" using k assms(3) by (simp add: overwrite_def)
    then show ?thesis using True by (simp add: slot_def)
  next
    case False
    then have "20 * j + 20 \<le> 20 * k \<or> 20 * k + length bs \<le> 20 * j" using assms(3) by linarith
    then have "take 20 (drop (20 * j) (overwrite c (20 * k) bs)) = take 20 (drop (20 * j) c)"
      using k assms(3) by (intro part_overwrite) simp_all
    then show ?thesis using False by (simp add: slot_def)
  qed
qed

lemma slot_overwrite_end:
  assumes "20 * slot_cnt c + length bs \<le> length c" "j < slot_cnt c"
  shows "slot (overwrite c (20 * slot_cnt c) bs) j = slot c j"
  unfolding slot_def using assms by (subst part_overwrite) auto

text \<open>Only the slots count.\<close>

lemma dir_is_cong:
  assumes "dir_is c M" "slot_cnt c' = slot_cnt c" "\<And>j. j < slot_cnt c \<Longrightarrow> slot c' j = slot c j"
  shows "dir_is c' M"
proof -
  have u: "used_at c' k name \<longleftrightarrow> used_at c k name" for k name using assms(2,3) by (auto simp: used_at_def)
  have i: "used_at c k name \<and> inode_sector (slot c' k) = s \<longleftrightarrow> used_at c k name \<and> inode_sector (slot c k) = s" for k name s
    using assms(3) by (auto simp: used_at_def)
  show ?thesis using assms unfolding dir_is_def u i by simp
qed

lemma dir_is_add:
  assumes d: "dir_is c M" and k: "k < slot_cnt c" "\<not> in_use (slot c k)" and m: "M name = None"
    and c': "slot_cnt c' = slot_cnt c" "\<And>j. j < slot_cnt c \<Longrightarrow> slot c' j = (if j = k then e else slot c j)"
    and e: "in_use e" "c_string (entry_name e) = Some name"
  shows "dir_is c' (M(name \<mapsto> inode_sector e))"
proof -
  have u: "used_at c' j n \<longleftrightarrow> (if j = k then n = name else used_at c j n)" for j n
    using k c' e by (auto simp: used_at_def)
  have nm: "\<not> used_at c j name" for j using d m unfolding dir_is_def by (metis option.distinct(1))
  have nk: "\<not> used_at c k n" for n using k by (simp add: used_at_def)
  have s: "inode_sector (slot c' j) = (if j = k then inode_sector e else inode_sector (slot c j))" if "j < slot_cnt c" for j
    using c'(2) [OF that] by simp
  have "c_string (entry_name (slot c' j)) \<noteq> None" if "j < slot_cnt c'" "in_use (slot c' j)" for j
    using that d c' e(2) unfolding dir_is_def by (cases "j = k") auto
  moreover have "j = l" if "used_at c' j n" "used_at c' l n" for j l n
    using that d nm unfolding u dir_is_def by (metis (full_types))
  moreover have "(M(name \<mapsto> inode_sector e)) n = Some t \<longleftrightarrow> (\<exists>j. used_at c' j n \<and> inode_sector (slot c' j) = t)" for n t
  proof (cases "n = name")
    case True
    then have "used_at c' j n \<longleftrightarrow> j = k" for j using nm unfolding u by simp
    then show ?thesis using True s [OF k(1)] by simp
  next
    case False
    have "used_at c' j n \<longleftrightarrow> used_at c j n" for j using False nk unfolding u by auto
    moreover have "inode_sector (slot c' j) = inode_sector (slot c j)" if "used_at c j n" for j
      using s [of j] that nk by (auto simp: used_at_def)
    ultimately show ?thesis using d False unfolding dir_is_def by (metis fun_upd_other)
  qed
  ultimately show ?thesis unfolding dir_is_def by blast
qed

text \<open>The name is valid and new, and there is a slot for it.\<close>

definition can_add :: "8 word list \<Rightarrow> (8 word list \<rightharpoonup> sector_t) \<Rightarrow> 8 word list \<Rightarrow> bool" where
  "can_add c M name \<longleftrightarrow> name \<noteq> [] \<and> length name \<le> NAME_MAX \<and> M name = None \<and> (\<exists>k < slot_cnt c. \<not> in_use (slot c k))"

lemma stored_outside: "stored fs i off bs fs' \<Longrightarrow> s \<notin> extent i \<Longrightarrow> sectors fs' s = sectors fs s"
  by (simp add: stored_def)

lemma dir_add_run:
  assumes o: "dir_open_at fs d p i" and g: "all_granted fs" and m: "dir_is (contents fs i) M" and z: "0 \<notin> set name"
    and st: "length stack = 20"
  shows "\<exists>fs'. dir_add fs d name sec stack = Some (can_add (contents fs i) M name, fs') \<and>
    dir_is (contents fs' i) (if can_add (contents fs i) M name then M(name \<mapsto> sec) else M) \<and>
    (\<forall>s. s \<notin> extent i \<longrightarrow> sectors fs' s = sectors fs s)"
proof -
  let ?c = "contents fs i"
  have d: "d \<noteq> NULL" "inodes fs p = Some i" "placed fs i" "deny_write_cnt i = 0" using o by (simp_all add: dir_open_at_def)
  obtain x where x: "dirs fs d = Some x" "dir_inode x = p" using o by (auto simp: dir_open_at_def)
  show ?thesis
  proof (cases "name = [] \<or> length name > NAME_MAX")
    case True
    then have "dir_add fs d name sec stack = Some (False, fs)" "\<not> can_add ?c M name"
      using d(1) by (auto simp: dir_add_def can_add_def)
    then show ?thesis using m by simp
  next
    case False
    obtain r c where r: "lookup fs d name = Some (r, fs\<lparr>calls := c\<rparr>)" "calls fs \<le> c" "looked_up ?c M name r"
      using lookup_run [OF o g m z] by blast
    let ?fs = "fs\<lparr>calls := c\<rparr>"
    show ?thesis
    proof (cases r)
      case (Some a)
      then obtain e ofs j where "a = (e, ofs)" "used_at ?c j name" using r(3) by (auto simp: looked_up_def split: prod.splits)
      then have "M name \<noteq> None" using m unfolding dir_is_def by blast
      then have "\<not> can_add ?c M name" by (simp add: can_add_def)
      moreover have "dir_add fs d name sec stack = Some (False, ?fs)" using d(1) False r Some by (simp add: dir_add_def)
      ultimately show ?thesis using m by simp
    next
      case None
      then have mn: "M name = None" using r(3) by (simp add: looked_up_def)
      have g': "all_granted ?fs" by (rule all_granted_calls [OF g r(2)])
      obtain buf k e where f: "free_slot ?fs p stack 0 = Some (buf, int (20 * k), fs\<lparr>calls := e\<rparr>)" "c \<le> e" "length buf = 20"
        "k \<le> slot_cnt ?c" "k < slot_cnt ?c \<longrightarrow> \<not> in_use (slot ?c k)" "\<forall>l<k. in_use (slot ?c l)"
        using free_slot_run [of ?fs p i 0 stack] d g' st by auto
      let ?fs1 = "fs\<lparr>calls := e\<rparr>"
      define en where "en = (entry_of buf)\<lparr>in_use := True, entry_name := copy_name (entry_name (entry_of buf)) name, inode_sector := sec\<rparr>"
      have l15: "length (entry_name (entry_of buf)) = 15" by (rule length_entry_name [OF f(3)])
      then have len: "length (entry_name en) = 15" using False by (simp add: en_def length_copy_name NAME_MAX_def)
      have cs: "in_use en" "c_string (entry_name en) = Some name" "inode_sector en = sec"
        using False z l15 by (simp_all add: en_def c_string_copy NAME_MAX_def)
      have bl: "length (entry_bytes en) = 20" using len by simp
      have k: "20 * k \<le> nat (inode_length i)" using f(4) by (simp add: slot_cnt_def)
      obtain n fs' where w: "inode_write_at ?fs1 p (entry_bytes en) (int ENTRY_SIZE) (int (20 * k)) = Some (int n, fs')"
        "stored ?fs1 i (20 * k) (take n (entry_bytes en)) fs'" "n = covered i (int ENTRY_SIZE) (20 * k)"
        "contents fs' i = overwrite ?c (20 * k) (take n (entry_bytes en))"
        using inode_write_at_run [of ?fs1 p i "20 * k" "int ENTRY_SIZE" "entry_bytes en"] d small_offset [OF d(3) k] bl
          all_granted_calls [OF g, of e] r(2) f(2) by (auto simp: ENTRY_SIZE_def)
      have add: "dir_add fs d name sec stack = Some (int n = int ENTRY_SIZE, fs')"
        using d(1) False r(1) None x f(1) w(1) by (simp add: dir_add_def en_def)
      have out: "sectors fs' s = sectors fs s" if "s \<notin> extent i" for s using stored_outside [OF w(2) that] by simp
      show ?thesis
      proof (cases "k < slot_cnt ?c")
        case True
        then have can: "can_add ?c M name" using False mn f(5) by (auto simp: can_add_def)
        have "20 * k + 20 \<le> nat (inode_length i)" using True unfolding slot_cnt_def length_contents by linarith
        then have n: "n = 20" unfolding w(3) covered_def ENTRY_SIZE_def by linarith
        then have c': "contents fs' i = overwrite ?c (20 * k) (entry_bytes en)" using w(4) bl by simp
        have "dir_is (contents fs' i) (M(name \<mapsto> inode_sector en))"
        proof (rule dir_is_add [OF m True _ mn _ _ cs(1,2)])
          show "\<not> in_use (slot ?c k)" using True f(5) by simp
          show "slot_cnt (contents fs' i) = slot_cnt ?c" by (simp add: slot_cnt_def)
          show "slot (contents fs' i) j = (if j = k then en else slot ?c j)" if "j < slot_cnt ?c" for j
            unfolding c' slot_overwrite [OF True that bl] entry_of_bytes [OF len] ..
        qed
        then show ?thesis using add n can cs(3) out by (simp add: ENTRY_SIZE_def)
      next
        case full: False
        then have k_end: "k = slot_cnt ?c" using f(4) by simp
        then have nc: "\<not> can_add ?c M name" using f(6) by (auto simp: can_add_def)
        have n: "n < 20" unfolding w(3) covered_def ENTRY_SIZE_def k_end slot_cnt_def length_contents by linarith
        have "20 * k + n \<le> length ?c" unfolding w(3) using covered_bound [of i "int ENTRY_SIZE" "20 * k"] k
          by (cases "covered i (int ENTRY_SIZE) (20 * k)") simp_all
        then have "20 * slot_cnt ?c + length (take n (entry_bytes en)) \<le> length ?c" using n bl k_end by simp
        then have "dir_is (contents fs' i) M"
          unfolding w(4) k_end by (intro dir_is_cong [OF m] slot_overwrite_end) (simp_all add: slot_cnt_def)
        then show ?thesis using add n nc out by (simp add: ENTRY_SIZE_def)
      qed
    qed
  qed
qed

end
