(* ===== verification/FilesysProps.thy ===== *)
theory FilesysProps
  imports DirectoryProps
begin

text \<open>
  Properties of files and directories.
\<close>

subsection \<open>A small disk\<close>

definition ex_entry :: dir_entry where
  "ex_entry = \<lparr>inode_sector = 5, entry_name = 97 # replicate 14 0, in_use = True\<rparr>"

definition ex_dir_inode :: inode where
  "ex_dir_inode = \<lparr>sector = 1, open_cnt = 1, removed = False, deny_write_cnt = 0,
     data = \<lparr>first_sector = 3, data_length = 40, data_magic = INODE_MAGIC\<rparr>\<rparr>"

definition ex_fs :: fsys where
  "ex_fs = \<lparr>sectors = (\<lambda>s. if s = 3 then entry_bytes ex_entry @ replicate 492 0 else replicate 512 0), capacity = 10,
     free_map = \<lparr>bit_cnt = 10, bits = [0x2b]\<rparr>, free_map_file = NULL, inodes = [7 \<mapsto> ex_dir_inode], open_inodes = [7],
     files = Map.empty, dirs = [8 \<mapsto> \<lparr>dir_inode = 7, dir_pos = 0\<rparr>], answers = (\<lambda>_. True), calls = 9\<rparr>"

lemma ex_bytes [simp]: "length (entry_bytes ex_entry) = 20"
  by (simp add: ex_entry_def)

lemma ex_dir: "dir_open_at ex_fs 8 7 ex_dir_inode"
  by (simp add: dir_open_at_def ex_fs_def ex_dir_inode_def placed_def inode_length_def sector_cnt_def del: length_entry_bytes)

lemma ex_placed: "inodes ex_fs 7 = Some ex_dir_inode" "placed ex_fs ex_dir_inode" "deny_write_cnt ex_dir_inode = 0"
  using ex_dir by (simp_all add: dir_open_at_def)

lemma ex_granted: "all_granted ex_fs"
  by (simp add: all_granted_def ex_fs_def)

lemma ex_contents: "contents ex_fs ex_dir_inode = entry_bytes ex_entry @ replicate 20 0"
proof -
  have "contents ex_fs ex_dir_inode = take 40 (sectors ex_fs 3)"
    by (rule nth_equalityI)
      (simp_all add: contents_def byte_at_def ex_fs_def ex_dir_inode_def inode_length_def nth_append del: length_entry_bytes)
  then show ?thesis by (simp add: ex_fs_def del: length_entry_bytes)
qed

lemma ex_slots: "slot_cnt (contents ex_fs ex_dir_inode) = 2" "slot (contents ex_fs ex_dir_inode) 0 = ex_entry"
  "\<not> in_use (slot (contents ex_fs ex_dir_inode) 1)" "c_string (entry_name ex_entry) = Some [97]"
proof -
  show "slot_cnt (contents ex_fs ex_dir_inode) = 2" by (simp add: ex_contents slot_cnt_def del: length_contents length_entry_bytes)
  show "slot (contents ex_fs ex_dir_inode) 0 = ex_entry"
    using entry_of_bytes [of ex_entry] by (simp add: slot_def ex_contents del: length_entry_bytes) (simp add: ex_entry_def)
  show "\<not> in_use (slot (contents ex_fs ex_dir_inode) 1)" by (simp add: slot_def ex_contents entry_of_def del: length_entry_bytes)
  show "c_string (entry_name ex_entry) = Some [97]" by (simp add: ex_entry_def c_string_def)
qed

lemma ex_used: "used_at (contents ex_fs ex_dir_inode) k name \<longleftrightarrow> k = 0 \<and> name = [97]"
proof -
  have "k < 2 \<Longrightarrow> k = 0 \<or> k = 1" by linarith
  then show ?thesis using ex_slots by (auto simp: used_at_def ex_entry_def)
qed

lemma ex_dir_is: "dir_is (contents ex_fs ex_dir_inode) [[97] \<mapsto> 5]"
proof -
  have "c_string (entry_name (slot (contents ex_fs ex_dir_inode) k)) \<noteq> None"
    if "k < 2" "in_use (slot (contents ex_fs ex_dir_inode) k)" for k
    using that ex_slots(2-4) by (cases "k = 0") (auto simp: numeral_2_eq_2 less_Suc_eq)
  then show ?thesis unfolding dir_is_def ex_used ex_slots(1) using ex_slots(2) by (auto simp: ex_entry_def)
qed

subsection \<open>Files\<close>

text \<open>C11: \<open>inode_write_at\<close> replaces the bytes of the file from the offset on and nothing else on the disk, \<open>inode_read_at\<close>
  returns the bytes of the file from the offset on; both handle as many bytes as they say, which is all that lie in
  the file unless an allocation fails, and neither leaves the disk or the buffer.\<close>

theorem inode_io_correct:
  assumes "inodes fs p = Some i" "placed fs i" "deny_write_cnt i = 0" "off < 2 ^ 31" "sz \<le> int (length buf)"
  shows "(\<exists>n fs'. inode_write_at fs p buf sz (int off) = Some (int n, fs') \<and> placed fs' i \<and>
      contents fs' i = overwrite (contents fs i) off (take n buf) \<and> (\<forall>s. s \<notin> extent i \<longrightarrow> sectors fs' s = sectors fs s) \<and>
      n \<le> covered i sz off \<and> (all_granted fs \<longrightarrow> n = covered i sz off)) \<and>
    (\<exists>n c. inode_read_at fs p sz (int off) = Some (take n (drop off (contents fs i)), fs\<lparr>calls := c\<rparr>) \<and>
      n \<le> covered i sz off \<and> (all_granted fs \<longrightarrow> n = covered i sz off))"
  using inode_write_at_run [OF assms(1,2,4,3,5)] inode_read_at_run [OF assms(1,2,4), of sz] unfolding stored_def by blast

lemma inode_io_correct_witness: "\<exists>fs'. inode_write_at ex_fs 7 [1, 2, 3] 3 39 = Some (1, fs') \<and>
    contents fs' ex_dir_inode = overwrite (contents ex_fs ex_dir_inode) 39 [1]"
proof -
  have "covered ex_dir_inode 3 39 = 1" by (simp add: covered_def ex_dir_inode_def inode_length_def)
  with inode_io_correct [OF ex_placed, of 39 3 "[1, 2, 3]"] ex_granted show ?thesis by auto
qed

subsection \<open>Directories\<close>

text \<open>C4: a directory in good order is a map from names to sectors: \<open>dir_lookup\<close> opens the inode that the map gives,
  \<open>dir_add\<close> adds the name when it is valid and new and a slot is free, and else returns false and keeps the map.\<close>

theorem directory_is_map:
  assumes "dir_open_at fs d p i" "all_granted fs" "dir_is (contents fs i) M" "0 \<notin> set name" "length stack = 20"
  shows "(\<exists>c\<ge>calls fs. dir_lookup fs d name =
      (case M name of None \<Rightarrow> Some (NULL, fs\<lparr>calls := c\<rparr>) | Some s \<Rightarrow> inode_open (fs\<lparr>calls := c\<rparr>) s)) \<and>
    (\<exists>fs'. dir_add fs d name sec stack = Some (can_add (contents fs i) M name, fs') \<and>
      dir_is (contents fs' i) (if can_add (contents fs i) M name then M(name \<mapsto> sec) else M) \<and>
      (\<forall>s. s \<notin> extent i \<longrightarrow> sectors fs' s = sectors fs s))"
  using dir_lookup_run [OF assms(1-4)] dir_add_run [OF assms] by blast

lemma directory_is_map_witness: "\<exists>fs'. dir_add ex_fs 8 [98] 6 (replicate 20 0) = Some (True, fs') \<and>
    dir_is (contents fs' ex_dir_inode) [[97] \<mapsto> 5, [98] \<mapsto> 6]"
proof -
  have "can_add (contents ex_fs ex_dir_inode) [[97] \<mapsto> 5] [98]"
    using ex_slots(1,3) by (auto simp: can_add_def NAME_MAX_def intro: exI [of _ 1])
  with directory_is_map [OF ex_dir ex_granted ex_dir_is, of "[98]" "replicate 20 0" 6] show ?thesis by auto
qed

text \<open>A read that gets no bounce buffer returns nothing.\<close>

lemma read_no_memory:
  assumes "inodes fs p = Some i" "placed fs i" "20 \<le> inode_length i" "\<not> answers fs (calls fs)"
  shows "inode_read_at fs p (int ENTRY_SIZE) 0 = Some ([], fs\<lparr>calls := Suc (calls fs)\<rparr>)"
proof -
  have c: "chunk i (int ENTRY_SIZE) 0 = Some (0, 512, 20)"
    using chunk_run [OF assms(2), of 0 "int ENTRY_SIZE"] assms(3) by (simp add: ENTRY_SIZE_def)
  have "get_bounce fs False = (False, fs\<lparr>calls := Suc (calls fs)\<rparr>)" using assms(4) by (simp add: get_bounce_def kmalloc_def)
  from read_loop_fail [OF c _ _ this] show ?thesis using assms(1) by (simp add: inode_read_at_def ENTRY_SIZE_def)
qed

lemma add_without_memory:
  assumes o: "dir_open_at fs d p i" and len: "20 \<le> inode_length i" and name: "name \<noteq> []" "length name \<le> NAME_MAX" "0 \<notin> set name"
    and st: "length stack = 20" and no: "\<not> answers fs (calls fs)" "\<not> answers fs (Suc (calls fs))"
    and yes: "\<forall>n > Suc (calls fs). answers fs n"
  shows "\<exists>fs' e. dir_add fs d name sec stack = Some (True, fs') \<and> contents fs' i = overwrite (contents fs i) 0 (entry_bytes e) \<and>
    length (entry_name e) = 15 \<and> in_use e \<and> c_string (entry_name e) = Some name"
proof -
  have d: "d \<noteq> NULL" "inodes fs p = Some i" "placed fs i" "deny_write_cnt i = 0" using o by (simp_all add: dir_open_at_def)
  obtain x where x: "dirs fs d = Some x" "dir_inode x = p" using o by (auto simp: dir_open_at_def)
  let ?fs1 = "fs\<lparr>calls := Suc (calls fs)\<rparr>" and ?fs2 = "fs\<lparr>calls := Suc (Suc (calls fs))\<rparr>"
  have r1: "inode_read_at fs p (int ENTRY_SIZE) (off_t 0) = Some ([], ?fs1)"
    using read_no_memory [OF d(2,3) len no(1)] by (simp add: off_t_def)
  have r2: "inode_read_at ?fs1 p (int ENTRY_SIZE) 0 = Some ([], ?fs2)"
    using read_no_memory [of ?fs1 p i] d(2,3) len no(2) by simp
  have l: "lookup fs d name = Some (None, ?fs1)" using lookup_loop_stop [OF r1] d(1) x by (simp add: lookup_def)
  have f: "free_slot ?fs1 p stack 0 = Some (stack, 0, ?fs2)" using free_slot_stop [OF r2, of stack] by (simp add: overwrite_def)
  define e where "e = (entry_of stack)\<lparr>in_use := True, entry_name := copy_name (entry_name (entry_of stack)) name, inode_sector := sec\<rparr>"
  have l15: "length (entry_name (entry_of stack)) = 15" by (rule length_entry_name [OF st])
  then have e: "length (entry_name e) = 15" "in_use e" "c_string (entry_name e) = Some name"
    using name by (simp_all add: e_def length_copy_name c_string_copy NAME_MAX_def)
  have "all_granted ?fs2" using yes by (simp add: all_granted_def)
  moreover have "covered i (int ENTRY_SIZE) 0 = 20" using len by (simp add: covered_def ENTRY_SIZE_def)
  ultimately obtain fs' where w: "inode_write_at ?fs2 p (entry_bytes e) (int ENTRY_SIZE) 0 = Some (20, fs')"
    "contents fs' i = overwrite (contents fs i) 0 (entry_bytes e)"
    using inode_write_at_run [of ?fs2 p i 0 "int ENTRY_SIZE" "entry_bytes e"] d e(1) by (auto simp: ENTRY_SIZE_def)
  have "dir_add fs d name sec stack = Some (True, fs')"
    using d(1) name l x f w(1) by (simp add: dir_add_def e_def ENTRY_SIZE_def)
  then show ?thesis using w(2) e by blast
qed

text \<open>C40: a short read does not mean the end of the file, as \<open>dir_add\<close> takes it to: when the two searches get no memory
  for a bounce buffer and the write does, \<open>dir_add\<close> reports success and has written over the entry in the first
  slot; the file that was there can no longer be found.\<close>

theorem low_memory_loses_entry:
  assumes "dir_open_at fs d p i" "20 \<le> inode_length i" "name \<noteq> []" "length name \<le> NAME_MAX" "0 \<notin> set name" "length stack = 20"
    and "\<not> answers fs (calls fs)" "\<not> answers fs (Suc (calls fs))" "\<forall>n > Suc (calls fs). answers fs n"
    and "dir_is (contents fs i) M" "used_at (contents fs i) 0 old" "old \<noteq> name"
  shows "\<exists>fs'. dir_add fs d name sec stack = Some (True, fs') \<and> (\<forall>k. \<not> used_at (contents fs' i) k old)"
proof -
  obtain fs' e where a: "dir_add fs d name sec stack = Some (True, fs')" "contents fs' i = overwrite (contents fs i) (20 * 0) (entry_bytes e)"
    "length (entry_name e) = 15" "c_string (entry_name e) = Some name"
    using add_without_memory [OF assms(1-9), of sec] by auto
  have c: "0 < slot_cnt (contents fs i)" using assms(11) by (simp add: used_at_def)
  have u: "used_at (contents fs i) k old \<Longrightarrow> k = 0" for k using assms(10,11) unfolding dir_is_def by blast
  have "\<not> used_at (contents fs' i) k old" for k
  proof (cases "k < slot_cnt (contents fs i)")
    case True
    have "slot (contents fs' i) k = (if k = 0 then e else slot (contents fs i) k)"
      unfolding a(2) using slot_overwrite [OF c True, of "entry_bytes e"] a(3) entry_of_bytes [OF a(3)] by simp
    then show ?thesis using u [of k] True a(4) assms(12) by (auto simp: used_at_def)
  next
    case False
    then show ?thesis by (simp add: used_at_def slot_cnt_def)
  qed
  then show ?thesis using a(1) by blast
qed

lemma low_memory_loses_entry_witness:
  "\<exists>fs'. dir_add (ex_fs\<lparr>answers := (\<lambda>n. n > 10)\<rparr>) 8 [98] 6 (replicate 20 0) = Some (True, fs') \<and>
    used_at (contents ex_fs ex_dir_inode) 0 [97] \<and> (\<forall>k. \<not> used_at (contents fs' ex_dir_inode) k [97])"
proof -
  let ?fs = "ex_fs\<lparr>answers := (\<lambda>n. n > 10)\<rparr>"
  have o: "dir_open_at ?fs 8 7 ex_dir_inode" using ex_dir by (simp add: dir_open_at_def placed_def)
  have c: "contents ?fs ex_dir_inode = contents ex_fs ex_dir_inode" by (simp add: contents_def byte_at_def)
  have u: "used_at (contents ex_fs ex_dir_inode) 0 [97]" by (simp add: ex_used)
  have "\<exists>fs'. dir_add ?fs 8 [98] 6 (replicate 20 0) = Some (True, fs') \<and> (\<forall>k. \<not> used_at (contents fs' ex_dir_inode) k [97])"
    by (rule low_memory_loses_entry [OF o _ _ _ _ _ _ _ _ ex_dir_is [folded c] u [folded c]])
      (simp_all add: ex_fs_def ex_dir_inode_def inode_length_def NAME_MAX_def)
  then show ?thesis using u by blast
qed

end
