(* ===== verification/LinkedList.thy ===== *)
theory LinkedList
  imports Prelude "HOL-Library.Signed_Division"
begin

text \<open>
  The singly linked lists of \<open>Data-Structures/tests/linked_list.c\<close>, which the exercises of \<open>Data-Structures\<close> share.

  The state maps addresses to nodes and to \<open>LinkedList\<close> structures, so two arguments may be the same list.
  \<open>malloc\<close> succeeds with the address of the counter \<open>brk\<close>, which no object has; an access to an object
  that does not exist, or that is freed, yields \<open>None\<close>. An \<open>int\<close> is an integer, and an increment that leaves the
  range of 32 bits yields \<open>None\<close>. What is printed is a list of tokens.
\<close>

datatype token = Num int | Empty_text | Newline

record lnode =
  item :: int
  lnext :: addr

record llist =
  lsize :: int
  head :: addr

record lmem =
  nodes :: "addr \<rightharpoonup> lnode"
  lists :: "addr \<rightharpoonup> llist"
  brk :: addr
  printed :: "token list"

definition set_next :: "lmem \<Rightarrow> addr \<Rightarrow> addr \<Rightarrow> lmem option" where
  "set_next m p q = (case nodes m p of None \<Rightarrow> None | Some x \<Rightarrow> Some (m\<lparr>nodes := (nodes m)(p \<mapsto> x\<lparr>lnext := q\<rparr>)\<rparr>))"

definition set_list :: "lmem \<Rightarrow> addr \<Rightarrow> llist \<Rightarrow> lmem" where
  "set_list m ll L = m\<lparr>lists := (lists m)(ll \<mapsto> L)\<rparr>"

text \<open>\<open>malloc\<close> of a node and the two assignments to it.\<close>

definition new_node :: "lmem \<Rightarrow> int \<Rightarrow> addr \<Rightarrow> addr \<times> lmem" where
  "new_node m v q = (brk m, m\<lparr>nodes := (nodes m)(brk m \<mapsto> \<lparr>item = v, lnext = q\<rparr>), brk := brk m + 1\<rparr>)"

definition free_node :: "lmem \<Rightarrow> addr \<Rightarrow> lmem option" where
  "free_node m p = (if nodes m p = None then None else Some (m\<lparr>nodes := (nodes m)(p := None)\<rparr>))"

subsection \<open>Access by index\<close>

primrec find_loop :: "lmem \<Rightarrow> addr \<Rightarrow> nat \<Rightarrow> addr option" where
  "find_loop m temp 0 = Some temp"
| "find_loop m temp (Suc n) = do {
     x \<leftarrow> nodes m temp;
     if lnext x = NULL then Some NULL else find_loop m (lnext x) n
   }"

definition findNode :: "lmem \<Rightarrow> addr \<Rightarrow> int \<Rightarrow> addr option" where
  "findNode m ll index =
     (if ll = NULL \<or> index < 0 then Some NULL
      else do {
        L \<leftarrow> lists m ll;
        if index \<ge> lsize L then Some NULL
        else if head L = NULL \<or> index < 0 then Some NULL
        else find_loop m (head L) (nat index)
      })"

definition insertNode :: "lmem \<Rightarrow> addr \<Rightarrow> int \<Rightarrow> int \<Rightarrow> (int \<times> lmem) option" where
  "insertNode m ll index v =
     (if ll = NULL \<or> index < 0 then Some (-1, m)
      else do {
        L \<leftarrow> lists m ll;
        limit \<leftarrow> checked (lsize L + 1);
        if index > limit then Some (-1, m)
        else if head L = NULL \<or> index = 0 then do {
          let cur = head L;
          let (p, m) = new_node m v cur;
          Some (0, set_list m ll \<lparr>lsize = limit, head = p\<rparr>)
        } else do {
          pre \<leftarrow> findNode m ll (index - 1);
          if pre \<noteq> NULL then do {
            x \<leftarrow> nodes m pre;
            let cur = lnext x;
            let (p, m) = new_node m v cur;
            m \<leftarrow> set_next m pre p;
            Some (0, set_list m ll (L\<lparr>lsize := limit\<rparr>))
          } else Some (-1, m)
        }
      })"

definition removeNode :: "lmem \<Rightarrow> addr \<Rightarrow> int \<Rightarrow> (int \<times> lmem) option" where
  "removeNode m ll index =
     (if ll = NULL \<or> index < 0 then Some (-1, m)
      else do {
        L \<leftarrow> lists m ll;
        if index \<ge> lsize L then Some (-1, m)
        else if index = 0 then do {
          x \<leftarrow> nodes m (head L);
          let cur = lnext x;
          m \<leftarrow> free_node m (head L);
          size' \<leftarrow> checked (lsize L - 1);
          Some (0, set_list m ll \<lparr>lsize = size', head = cur\<rparr>)
        } else do {
          pre \<leftarrow> findNode m ll (index - 1);
          if pre \<noteq> NULL then do {
            x \<leftarrow> nodes m pre;
            if lnext x = NULL then Some (-1, m)
            else do {
              let cur = lnext x;
              y \<leftarrow> nodes m cur;
              m \<leftarrow> set_next m pre (lnext y);
              m \<leftarrow> free_node m cur;
              size' \<leftarrow> checked (lsize L - 1);
              Some (0, set_list m ll (L\<lparr>lsize := size'\<rparr>))
            }
          } else Some (-1, m)
        }
      })"

definition getItemAt :: "lmem \<Rightarrow> addr \<Rightarrow> int \<Rightarrow> int option" where
  "getItemAt m ll index = do {
     p \<leftarrow> findNode m ll index;
     if p \<noteq> NULL then map_option item (nodes m p) else Some (-1)
   }"

subsection \<open>Whole lists\<close>

partial_function (option) print_loop :: "lmem \<Rightarrow> addr \<Rightarrow> lmem option" where
  "print_loop m cur =
     (if cur \<noteq> NULL then do {
        x \<leftarrow> nodes m cur;
        print_loop (m\<lparr>printed := printed m @ [Num (item x)]\<rparr>) (lnext x)
      } else Some m)"

definition printList :: "lmem \<Rightarrow> addr \<Rightarrow> lmem option" where
  "printList m ll =
     (if ll = NULL then Some m
      else do {
        L \<leftarrow> lists m ll;
        m \<leftarrow> print_loop (if head L = NULL then m\<lparr>printed := printed m @ [Empty_text]\<rparr> else m) (head L);
        Some (m\<lparr>printed := printed m @ [Newline]\<rparr>)
      })"

partial_function (option) remove_loop :: "lmem \<Rightarrow> addr \<Rightarrow> lmem option" where
  "remove_loop m cur =
     (if cur \<noteq> NULL then do {
        x \<leftarrow> nodes m cur;
        let tmp = lnext x;
        m \<leftarrow> free_node m cur;
        remove_loop m tmp
      } else Some m)"

definition removeAllItems :: "lmem \<Rightarrow> addr \<Rightarrow> lmem option" where
  "removeAllItems m ll = do {
     L \<leftarrow> lists m ll;
     m \<leftarrow> remove_loop m (head L);
     Some (set_list m ll \<lparr>lsize = 0, head = NULL\<rparr>)
   }"

text \<open>The array has \<open>n\<close> elements; \<open>arr\<close> is the part that is filled.\<close>

partial_function (option) array_loop :: "lmem \<Rightarrow> addr \<Rightarrow> int \<Rightarrow> int list \<Rightarrow> int list option" where
  "array_loop m cur n arr =
     (if cur \<noteq> NULL then do {
        x \<leftarrow> nodes m cur;
        if int (length arr) < n then array_loop m (lnext x) n (arr @ [item x]) else None
      } else Some arr)"

definition returnList :: "lmem \<Rightarrow> addr \<Rightarrow> int \<Rightarrow> int list option option" where
  "returnList m ll n =
     (if ll = NULL then Some None
      else do {
        L \<leftarrow> lists m ll;
        if head L = NULL then Some None
        else do { arr \<leftarrow> array_loop m (head L) n []; Some (Some arr) }
      })"

subsection \<open>The exercises\<close>

partial_function (option) sorted_pos :: "lmem \<Rightarrow> addr \<Rightarrow> int \<Rightarrow> int \<Rightarrow> (addr \<times> int) option" where
  "sorted_pos m cur v idx =
     (if cur \<noteq> NULL then do {
        x \<leftarrow> nodes m cur;
        if item x < v then do {
          idx \<leftarrow> checked (idx + 1);
          sorted_pos m (lnext x) v idx
        } else Some (cur, idx)
      } else Some (cur, idx))"

definition insertSortedLL :: "lmem \<Rightarrow> addr \<Rightarrow> int \<Rightarrow> (int \<times> lmem) option" where
  "insertSortedLL m ll v =
     (if ll = NULL then Some (-1, m)
      else do {
        L \<leftarrow> lists m ll;
        if head L = NULL then insertNode m ll 0 v
        else do {
          (cur, idx) \<leftarrow> sorted_pos m (head L) v 0;
          dup \<leftarrow> (if cur \<noteq> NULL then do { x \<leftarrow> nodes m cur; Some (item x = v) } else Some False);
          if dup then Some (-1, m)
          else do {
            (st, m) \<leftarrow> insertNode m ll idx v;
            if st = -1 then Some (st, m)
            else do {
              m \<leftarrow> printList m ll;
              Some (idx, m)
            }
          }
        }
      })"

partial_function (option) alternate_loop :: "lmem \<Rightarrow> addr \<Rightarrow> addr \<Rightarrow> addr \<Rightarrow> addr \<Rightarrow> int \<Rightarrow> lmem option" where
  "alternate_loop m ll1 ll2 first second idx =
     (if first \<noteq> NULL \<and> second \<noteq> NULL then do {
        y \<leftarrow> nodes m second;
        (_, m) \<leftarrow> insertNode m ll1 idx (item y);
        x \<leftarrow> nodes m first;
        first \<leftarrow> (if lnext x \<noteq> NULL then do { x \<leftarrow> nodes m (lnext x); Some (lnext x) } else Some NULL);
        y \<leftarrow> nodes m second;
        let second = lnext y;
        (_, m) \<leftarrow> removeNode m ll2 0;
        idx \<leftarrow> checked (idx + 2);
        alternate_loop m ll1 ll2 first second idx
      } else Some m)"

definition alternateMergeLinkedList :: "lmem \<Rightarrow> addr \<Rightarrow> addr \<Rightarrow> lmem option" where
  "alternateMergeLinkedList m ll1 ll2 =
     (if ll1 = NULL \<or> ll2 = NULL then Some m
      else do {
        L1 \<leftarrow> lists m ll1;
        L2 \<leftarrow> lists m ll2;
        if head L1 = NULL \<or> head L2 = NULL then Some m
        else alternate_loop m ll1 ll2 (head L1) (head L2) 1
      })"

partial_function (option) find_tail :: "lmem \<Rightarrow> addr \<Rightarrow> int \<Rightarrow> (addr \<times> int) option" where
  "find_tail m tail count = do {
     x \<leftarrow> nodes m tail;
     if lnext x \<noteq> NULL then do {
       count \<leftarrow> checked (count + 1);
       find_tail m (lnext x) count
     } else Some (tail, count)
   }"

text \<open>
  The loops of \<open>moveOddItemsToBackLL\<close> and \<open>moveEvenItemsToBackLL\<close> are the same but for the test of the item,
  which is \<open>P\<close>; \<open>count\<close> rounds are left.
\<close>

primrec move_loop :: "(int \<Rightarrow> bool) \<Rightarrow> lmem \<Rightarrow> addr \<Rightarrow> addr \<Rightarrow> addr \<Rightarrow> addr \<Rightarrow> nat \<Rightarrow> lmem option" where
  "move_loop P m ll cur tail prev 0 = Some m"
| "move_loop P m ll cur tail prev (Suc count) = do {
     x \<leftarrow> nodes m cur;
     let nxt = lnext x;
     if P (item x) then do {
       m \<leftarrow> (if prev = NULL then do {
              L \<leftarrow> lists m ll;
              Some (set_list m ll (L\<lparr>head := nxt\<rparr>))
            } else set_next m prev nxt);
       m \<leftarrow> set_next m tail cur;
       m \<leftarrow> set_next m cur NULL;
       t \<leftarrow> nodes m tail;
       move_loop P m ll nxt (lnext t) prev count
     } else move_loop P m ll nxt tail cur count
   }"

definition moveItemsToBack :: "(int \<Rightarrow> bool) \<Rightarrow> lmem \<Rightarrow> addr \<Rightarrow> lmem option" where
  "moveItemsToBack P m ll =
     (if ll = NULL then Some m
      else do {
        L \<leftarrow> lists m ll;
        if head L = NULL then Some m
        else do {
          x \<leftarrow> nodes m (head L);
          if lnext x = NULL then Some m
          else do {
            (tail, count) \<leftarrow> find_tail m (head L) 1;
            move_loop P m ll (head L) tail NULL (nat count)
          }
        }
      })"

definition moveOddItemsToBackLL :: "lmem \<Rightarrow> addr \<Rightarrow> lmem option" where
  "moveOddItemsToBackLL = moveItemsToBack (\<lambda>i. i smod 2 \<noteq> 0)"

definition moveEvenItemsToBackLL :: "lmem \<Rightarrow> addr \<Rightarrow> lmem option" where
  "moveEvenItemsToBackLL = moveItemsToBack (\<lambda>i. i smod 2 = 0)"

partial_function (option) split_loop :: "lmem \<Rightarrow> addr \<Rightarrow> addr \<Rightarrow> addr \<Rightarrow> int \<Rightarrow> int \<Rightarrow> int \<Rightarrow> int \<Rightarrow> lmem option" where
  "split_loop m front rear cur idx front_idx back_idx half =
     (if cur \<noteq> NULL then do {
        x \<leftarrow> nodes m cur;
        (m, front_idx, back_idx) \<leftarrow>
          (if idx < half then do {
             (_, m) \<leftarrow> insertNode m front front_idx (item x);
             front_idx \<leftarrow> checked (front_idx + 1);
             Some (m, front_idx, back_idx)
           } else do {
             (_, m) \<leftarrow> insertNode m rear back_idx (item x);
             back_idx \<leftarrow> checked (back_idx + 1);
             Some (m, front_idx, back_idx)
           });
        idx \<leftarrow> checked (idx + 1);
        x \<leftarrow> nodes m cur;
        split_loop m front rear (lnext x) idx front_idx back_idx half
      } else Some m)"

definition frontBackSplitLL :: "lmem \<Rightarrow> addr \<Rightarrow> addr \<Rightarrow> addr \<Rightarrow> lmem option" where
  "frontBackSplitLL m ll front rear =
     (if ll = NULL then Some m
      else do {
        L \<leftarrow> lists m ll;
        let half = (if lsize L smod 2 = 0 then lsize L sdiv 2 else lsize L sdiv 2 + 1);
        m \<leftarrow> split_loop m front rear (head L) 0 0 0 half;
        m \<leftarrow> printList m front;
        printList m rear
      })"

text \<open>A pointer to a pointer to a node is \<open>None\<close> when it is null, else the pointer that is stored there.\<close>

partial_function (option) max_loop :: "lmem \<Rightarrow> addr \<Rightarrow> addr \<Rightarrow> int \<Rightarrow> addr \<Rightarrow> addr \<Rightarrow> (addr \<times> addr) option" where
  "max_loop m cur prev mx maxNode maxPrev =
     (if cur \<noteq> NULL then do {
        x \<leftarrow> nodes m cur;
        if item x > mx then max_loop m (lnext x) cur (item x) cur prev
        else max_loop m (lnext x) cur mx maxNode maxPrev
      } else Some (maxNode, maxPrev))"

definition moveMaxToFront :: "lmem \<Rightarrow> addr option \<Rightarrow> (int \<times> addr option \<times> lmem) option" where
  "moveMaxToFront m ptrHead = (case ptrHead of
     None \<Rightarrow> Some (0, ptrHead, m)
   | Some h \<Rightarrow>
       if h = NULL then Some (0, ptrHead, m)
       else do {
         x \<leftarrow> nodes m h;
         (maxNode, maxPrev) \<leftarrow> max_loop m h NULL (item x) h NULL;
         if maxPrev = NULL then Some (1, ptrHead, m)
         else do {
           y \<leftarrow> nodes m maxNode;
           m \<leftarrow> set_next m maxPrev (lnext y);
           m \<leftarrow> set_next m maxNode h;
           Some (1, Some maxNode, m)
         }
       })"

partial_function (option) recursiveListNode :: "lmem \<Rightarrow> addr \<Rightarrow> addr \<Rightarrow> (addr \<times> lmem) option" where
  "recursiveListNode m cur prev =
     (if cur = NULL then Some (prev, m)
      else do {
        x \<leftarrow> nodes m cur;
        let nxt = lnext x;
        m \<leftarrow> set_next m cur prev;
        recursiveListNode m nxt cur
      })"

definition recursiveReverse :: "lmem \<Rightarrow> addr option \<Rightarrow> (addr option \<times> lmem) option" where
  "recursiveReverse m ptrHead = (case ptrHead of
     None \<Rightarrow> Some (ptrHead, m)
   | Some h \<Rightarrow>
       if h = NULL then Some (ptrHead, m)
       else do {
         (p, m) \<leftarrow> recursiveListNode m h NULL;
         Some (Some p, m)
       })"

declare print_loop.simps [code] remove_loop.simps [code] array_loop.simps [code] sorted_pos.simps [code] alternate_loop.simps [code]
  find_tail.simps [code] split_loop.simps [code] max_loop.simps [code] recursiveListNode.simps [code]

end
