(* ===== verification/LinkedListInv.thy ===== *)
theory LinkedListInv
  imports LinkedList
begin

text \<open>
  The invariant of the linked lists of \<open>Data-Structures\<close>, and the operations of \<open>LinkedList\<close> as operations on lists of integers.

  \<open>chain h p xs q\<close>: the nodes \<open>xs\<close>, each with its address and its item, link \<open>p\<close> to \<open>q\<close>. \<open>store m S\<close>: every
  list address of \<open>S\<close> holds a \<open>LinkedList\<close> of the given nodes with the right \<open>size\<close>, no two of them share a node, and the addresses
  from \<open>brk m\<close> on are unused. \<open>stores m T\<close> forgets the addresses of the nodes.
\<close>

fun chain :: "(addr \<rightharpoonup> lnode) \<Rightarrow> addr \<Rightarrow> (addr \<times> int) list \<Rightarrow> addr \<Rightarrow> bool" where
  "chain h p [] q = (p = q)"
| "chain h p (x # xs) q = (p = fst x \<and> fst x \<noteq> NULL \<and> (\<exists>n. h (fst x) = Some \<lparr>item = snd x, lnext = n\<rparr> \<and> chain h n xs q))"

abbreviation addrs :: "(addr \<times> int) list \<Rightarrow> addr set" where
  "addrs xs \<equiv> fst ` set xs"

lemma lchain_append: "chain h p (xs @ ys) q \<longleftrightarrow> (\<exists>r. chain h p xs r \<and> chain h r ys q)"
  by (induction xs arbitrary: p) auto

lemma lchain_cong: "chain h p xs q \<Longrightarrow> (\<And>a. a \<in> addrs xs \<Longrightarrow> h' a = h a) \<Longrightarrow> chain h' p xs q"
  by (induction xs arbitrary: p) auto

lemma chain_upd [simp]: "a \<notin> addrs xs \<Longrightarrow> chain (h(a := v)) p xs q = chain h p xs q"
  by (induction xs arbitrary: p) auto

lemma chain_last:
  "chain h p (xs @ [x]) q \<longleftrightarrow> (\<exists>r. chain h p xs r \<and> r = fst x \<and> r \<noteq> NULL \<and> h r = Some \<lparr>item = snd x, lnext = q\<rparr>)"
  by (auto simp: lchain_append)

lemma chain_NULL [simp]: "chain h NULL xs q \<longleftrightarrow> xs = [] \<and> q = NULL"
  by (cases xs) auto

lemma chain_end_NULL: "chain h p xs NULL \<Longrightarrow> p = NULL \<longleftrightarrow> xs = []"
  by (cases xs) auto

lemma chain_mapped: "chain h p xs q \<Longrightarrow> a \<in> addrs xs \<Longrightarrow> \<exists>n. h a = Some n"
  by (induction xs arbitrary: p) auto

lemma chain_not_NULL: "chain h p xs q \<Longrightarrow> NULL \<notin> addrs xs"
  by (induction xs arbitrary: p) auto

text \<open>Changing the link of the last node of a segment.\<close>

lemma chain_relink:
  "chain h p (xs @ [x]) q \<Longrightarrow> distinct (map fst (xs @ [x])) \<Longrightarrow> h (fst x) = Some n \<Longrightarrow>
   chain (h(fst x \<mapsto> n\<lparr>lnext := q'\<rparr>)) p (xs @ [x]) q'"
  by (auto simp: chain_last)

text \<open>The remainder of the code has the sign of the dividend, so it is not zero exactly for the odd numbers.\<close>

lemma smod_2: "v smod 2 \<noteq> 0 \<longleftrightarrow> odd v" for v :: int
  by (simp add: signed_modulo_int_def sgn_0_0) presburger

lemma smod_2_1: "0 \<le> v \<Longrightarrow> v smod 2 = 1 \<longleftrightarrow> odd v" for v :: int
  by (simp add: signed_modulo_int_def sgn_if) presburger

subsection \<open>The invariant\<close>

definition is_list :: "lmem \<Rightarrow> addr \<Rightarrow> (addr \<times> int) list \<Rightarrow> bool" where
  "is_list m ll xs \<longleftrightarrow> ll \<noteq> NULL \<and> int (length xs) < 2 ^ 31 \<and> distinct (map fst xs) \<and>
     (\<exists>p. lists m ll = Some \<lparr>lsize = int (length xs), head = p\<rparr> \<and> chain (nodes m) p xs NULL)"

definition fresh :: "lmem \<Rightarrow> bool" where
  "fresh m \<longleftrightarrow> 0 < brk m \<and> (\<forall>a\<ge>brk m. nodes m a = None \<and> lists m a = None)"

definition store :: "lmem \<Rightarrow> (addr \<rightharpoonup> (addr \<times> int) list) \<Rightarrow> bool" where
  "store m S \<longleftrightarrow> fresh m \<and> (\<forall>ll xs. S ll = Some xs \<longrightarrow> is_list m ll xs) \<and>
     (\<forall>l1 l2 xs ys. S l1 = Some xs \<longrightarrow> S l2 = Some ys \<longrightarrow> l1 \<noteq> l2 \<longrightarrow> addrs xs \<inter> addrs ys = {})"

definition items :: "(addr \<rightharpoonup> (addr \<times> int) list) \<Rightarrow> addr \<rightharpoonup> int list" where
  "items S = (\<lambda>ll. map_option (map snd) (S ll))"

definition stores :: "lmem \<Rightarrow> (addr \<rightharpoonup> int list) \<Rightarrow> bool" where
  "stores m T \<longleftrightarrow> (\<exists>S. store m S \<and> items S = T)"

lemma storeD:
  assumes "store m S" "S ll = Some xs"
  obtains p where "ll \<noteq> NULL" "int (length xs) < 2 ^ 31" "distinct (map fst xs)"
    "lists m ll = Some \<lparr>lsize = int (length xs), head = p\<rparr>" "chain (nodes m) p xs NULL"
  using assms unfolding store_def is_list_def by blast

lemma store_disjoint: "store m S \<Longrightarrow> S l1 = Some xs \<Longrightarrow> S l2 = Some ys \<Longrightarrow> l1 \<noteq> l2 \<Longrightarrow> addrs xs \<inter> addrs ys = {}"
  unfolding store_def by blast

lemma store_fresh: "store m S \<Longrightarrow> brk m \<le> a \<Longrightarrow> nodes m a = None \<and> lists m a = None"
  unfolding store_def fresh_def by blast

lemma store_brk: "store m S \<Longrightarrow> 0 < brk m"
  unfolding store_def fresh_def by blast

lemma store_not_fresh: "store m S \<Longrightarrow> S ll = Some xs \<Longrightarrow> a \<in> addrs xs \<Longrightarrow> a < brk m"
  by (metis chain_mapped not_le_imp_less option.distinct(1) store_fresh storeD)

lemma store_list_not_fresh: "store m S \<Longrightarrow> S ll = Some xs \<Longrightarrow> ll < brk m"
  by (metis not_le_imp_less option.distinct(1) store_fresh storeD)

lemma store_printed [simp]: "store (m\<lparr>printed := u\<rparr>) S = store m S"
  by (simp add: store_def is_list_def fresh_def)

lemma stores_printed [simp]: "stores (m\<lparr>printed := u\<rparr>) T = stores m T"
  by (simp add: stores_def)

lemma items_upd [simp]: "items (S(ll \<mapsto> xs)) = (items S)(ll \<mapsto> map snd xs)"
  by (auto simp: items_def)

lemma items_drop [simp]: "items (S(ll := None)) = (items S)(ll := None)"
  by (auto simp: items_def)

lemma items_SomeE:
  assumes "items S ll = Some vs"
  obtains xs where "S ll = Some xs" "vs = map snd xs"
  using assms by (auto simp: items_def)

lemma items_Some: "S ll = Some xs \<Longrightarrow> items S ll = Some (map snd xs)"
  by (simp add: items_def)

text \<open>
  One list changes: its nodes are old ones of its own and new ones, the nodes of other lists and the other structures keep
  their contents.
\<close>

lemma store_change:
  assumes S: "store m S" and "S ll = Some xs \<or> xs = []"
    and new: "is_list m' ll ys" "fresh m'"
    and own: "\<And>a. a \<in> addrs ys \<Longrightarrow> a \<in> addrs xs \<or> brk m \<le> a"
    and frame: "\<And>a. a \<notin> addrs xs \<Longrightarrow> a < brk m \<Longrightarrow> nodes m' a = nodes m a"
    "\<And>l. l \<noteq> ll \<Longrightarrow> l < brk m \<Longrightarrow> lists m' l = lists m l"
  shows "store m' (S(ll \<mapsto> ys))"
proof -
  have keep: "is_list m' l zs" "addrs ys \<inter> addrs zs = {}" if l: "S l = Some zs" "l \<noteq> ll" for l zs
  proof -
    have below: "a < brk m" if "a \<in> addrs zs" for a
      using store_not_fresh [OF S l(1) that] .
    have low: "l < brk m" using store_list_not_fresh [OF S l(1)] .
    have disj: "addrs xs \<inter> addrs zs = {}"
      using assms(2) store_disjoint [OF S _ l(1)] l(2) by (metis image_empty inf_bot_left list.set(1))
    have "is_list m l zs" using S l(1) unfolding store_def by blast
    then show "is_list m' l zs"
      unfolding is_list_def frame(2) [OF l(2) low]
      using lchain_cong [of "nodes m" _ zs NULL "nodes m'"] frame(1) below disj by blast
    have "a \<notin> addrs zs" if "a \<in> addrs ys" for a
      using own [OF that] below [of a] disj by (meson disjoint_iff leD)
    then show "addrs ys \<inter> addrs zs = {}" by (meson disjoint_iff)
  qed
  have "addrs u \<inter> addrs v = {}" if t: "(S(ll \<mapsto> ys)) l1 = Some u" "(S(ll \<mapsto> ys)) l2 = Some v" "l1 \<noteq> l2" for l1 l2 u v
  proof -
    consider "l1 = ll" "l2 \<noteq> ll" | "l1 \<noteq> ll" "l2 = ll" | "l1 \<noteq> ll" "l2 \<noteq> ll" using t(3) by blast
    then show ?thesis
    proof cases
      case 1
      then show ?thesis using t keep(2) [of l2 v] by simp
    next
      case 2
      then show ?thesis using t keep(2) [of l1 u] by (simp add: Int_commute)
    next
      case 3
      then show ?thesis using t store_disjoint [OF S, of l1 u l2 v] by simp
    qed
  qed
  moreover have "is_list m' l u" if "(S(ll \<mapsto> ys)) l = Some u" for l u
  proof (cases "l = ll")
    case True
    then show ?thesis using that new(1) by simp
  next
    case False
    then show ?thesis using that keep(1) [of l u] by simp
  qed
  ultimately show ?thesis using new(2) unfolding store_def by blast
qed

subsection \<open>Access by index\<close>

lemma find_loop_nth:
  assumes "chain (nodes m) p xs NULL" "i < length xs"
  shows "find_loop m p i = Some (fst (xs ! i))"
  using assms
proof (induction i arbitrary: p xs)
  case 0
  then show ?case by (cases xs) auto
next
  case (Suc i)
  then obtain x ys n where xs: "xs = x # ys" and n: "nodes m (fst x) = Some \<lparr>item = snd x, lnext = n\<rparr>" "chain (nodes m) n ys NULL" "p = fst x"
    by (cases xs) auto
  then have "n \<noteq> NULL" using Suc.prems(2) chain_end_NULL [OF n(2)] by auto
  then show ?case using n Suc.IH [OF n(2)] Suc.prems(2) xs by simp
qed

lemma findNode_nth:
  assumes "store m S" "S ll = Some xs" "i < length xs"
  shows "findNode m ll (int i) = Some (fst (xs ! i))"
proof -
  from assms(1,2) obtain p where p: "ll \<noteq> NULL" "lists m ll = Some \<lparr>lsize = int (length xs), head = p\<rparr>" "chain (nodes m) p xs NULL"
    by (rule storeD)
  moreover have "p \<noteq> NULL" using chain_end_NULL [OF p(3)] assms(3) by auto
  ultimately show ?thesis using find_loop_nth [OF p(3) assms(3)] assms(3) by (simp add: findNode_def)
qed

lemma findNode_none:
  assumes "store m S" "S ll = Some xs" "i < 0 \<or> int (length xs) \<le> i"
  shows "findNode m ll i = Some NULL"
proof -
  from assms(1,2) obtain p where p: "ll \<noteq> NULL" "lists m ll = Some \<lparr>lsize = int (length xs), head = p\<rparr>" "chain (nodes m) p xs NULL"
    by (rule storeD)
  then show ?thesis using assms(3) by (auto simp: findNode_def)
qed

text \<open>\<open>getItemAt\<close> reads the item of a valid index, and gives \<open>-1\<close> for every other.\<close>

lemma getItemAt_nth:
  assumes "stores m T" "T ll = Some vs"
  shows "getItemAt m ll i = Some (if 0 \<le> i \<and> i < int (length vs) then vs ! nat i else -1)"
proof -
  from assms obtain S xs where S: "store m S" "S ll = Some xs" and vs: "vs = map snd xs"
    by (auto simp: stores_def items_def)
  from S obtain p where p: "chain (nodes m) p xs NULL" by (rule storeD)
  show ?thesis
  proof (cases "0 \<le> i \<and> i < int (length vs)")
    case True
    then obtain k where k: "i = int k" "k < length xs" using vs by (metis length_map nonneg_int_cases of_nat_less_iff)
    have "xs = take k xs @ xs ! k # drop (Suc k) xs" using k(2) by (simp add: id_take_nth_drop)
    then obtain r where "chain (nodes m) r (xs ! k # drop (Suc k) xs) NULL" using p lchain_append by metis
    then show ?thesis using findNode_nth [OF S k(2)] k vs by (auto simp: getItemAt_def)
  next
    case False
    then have "findNode m ll i = Some NULL" using findNode_none [OF S] vs by auto
    then have "getItemAt m ll i = Some (- 1)" by (simp add: getItemAt_def)
    then show ?thesis unfolding if_not_P [OF False] .
  qed
qed

subsection \<open>Insertion and removal\<close>

lemma insertNode_nodes:
  assumes S: "store m S" "S ll = Some xs" and i: "i \<le> length xs" and room: "int (length xs) + 1 < 2 ^ 31"
  shows "\<exists>m'. insertNode m ll (int i) v = Some (0, m') \<and> store m' (S(ll \<mapsto> take i xs @ (brk m, v) # drop i xs)) \<and>
    printed m' = printed m \<and> brk m' = brk m + 1"
proof -
  let ?p = "brk m" and ?ys = "take i xs @ (brk m, v) # drop i xs"
  from S obtain h where h: "ll \<noteq> NULL" "distinct (map fst xs)"
      "lists m ll = Some \<lparr>lsize = int (length xs), head = h\<rparr>" "chain (nodes m) h xs NULL" by (rule storeD)
  have new: "?p \<notin> addrs xs" using store_not_fresh [OF S] by blast
  have p0: "?p \<noteq> NULL" using store_brk [OF S(1)] by simp
  have len: "int (length ?ys) = int (length xs) + 1" using i by simp
  have dist: "distinct (map fst ?ys)"
  proof -
    have "distinct (?p # take i (map fst xs) @ drop i (map fst xs))"
      using h(2) new unfolding append_take_drop_id by auto
    then show ?thesis by (auto simp: take_map drop_map)
  qed
  have own: "a \<in> addrs xs \<or> ?p \<le> a" if "a \<in> addrs ?ys" for a
    using that in_set_takeD in_set_dropD by fastforce
  have step: "\<exists>m'. insertNode m ll (int i) v = Some (0, m') \<and> is_list m' ll ?ys \<and> fresh m' \<and>
      (\<forall>a. a \<notin> addrs xs \<longrightarrow> a < ?p \<longrightarrow> nodes m' a = nodes m a) \<and> (\<forall>l. l \<noteq> ll \<longrightarrow> lists m' l = lists m l) \<and>
      printed m' = printed m \<and> brk m' = ?p + 1"
  proof (cases "h = NULL \<or> i = 0")
    case True
    then have ys: "?ys = (?p, v) # xs" using chain_end_NULL [OF h(4)] by auto
    let ?m = "set_list (snd (new_node m v h)) ll \<lparr>lsize = int (length xs) + 1, head = ?p\<rparr>"
    have "insertNode m ll (int i) v = Some (0, ?m)"
      using True h room i by (auto simp: insertNode_def new_node_def)
    moreover have "is_list ?m ll ?ys"
      using h new p0 room unfolding ys by (auto simp: is_list_def set_list_def new_node_def)
    ultimately show ?thesis
      using store_fresh [OF S(1)] store_list_not_fresh [OF S] by (auto simp: fresh_def set_list_def new_node_def)
  next
    case False
    then obtain j where j: "i = Suc j" "j < length xs" using i by (cases i) auto
    let ?q = "fst (xs ! j)"
    obtain u where u: "xs = take j xs @ xs ! j # drop i xs" using j by (metis id_take_nth_drop)
    obtain r where r: "chain (nodes m) h (take j xs @ [xs ! j]) r" "chain (nodes m) r (drop i xs) NULL"
      using h(4) u lchain_append [of _ _ "take j xs @ [xs ! j]"] by (metis append.assoc append_Cons append_Nil)
    have q: "nodes m ?q = Some \<lparr>item = snd (xs ! j), lnext = r\<rparr>" "?q \<noteq> NULL" using r(1) by (auto simp: chain_last)
    have qp: "?q \<noteq> ?p" using new j by (metis image_eqI nth_mem)
    have ti: "take i xs = take j xs @ [xs ! j]" using j by (simp add: take_Suc_conv_app_nth)
    let ?m = "set_list ((snd (new_node m v r))\<lparr>nodes := (nodes m)(?p \<mapsto> \<lparr>item = v, lnext = r\<rparr>, ?q \<mapsto> \<lparr>item = snd (xs ! j), lnext = ?p\<rparr>)\<rparr>)
       ll \<lparr>lsize = int (length xs) + 1, head = h\<rparr>"
    have "int i - 1 = int j" using j by simp
    then have "insertNode m ll (int i) v = Some (0, ?m)"
      using False h room i findNode_nth [OF S j(2)] q qp
      by (auto simp: insertNode_def new_node_def set_next_def set_list_def)
    moreover have "is_list ?m ll ?ys"
    proof -
      have "distinct (map fst (take j xs @ [xs ! j])) \<and> ?q \<notin> addrs (drop i xs)"
        using dist unfolding ti by auto
      moreover have "?p \<notin> addrs (take j xs @ [xs ! j])" "?p \<notin> addrs (drop i xs)"
        using dist unfolding ti by auto
      ultimately have "chain ((nodes m)(?p \<mapsto> \<lparr>item = v, lnext = r\<rparr>, ?q \<mapsto> \<lparr>item = snd (xs ! j), lnext = ?p\<rparr>)) h ?ys NULL"
        using r q p0 qp unfolding ti lchain_append [of _ _ "take j xs @ [xs ! j]"]
        by (intro exI [of _ ?p]) (auto simp: chain_last)
      then show ?thesis using h(1) dist room len by (simp add: is_list_def set_list_def new_node_def)
    qed
    moreover have "?q \<in> addrs xs" "?q < ?p" using j store_not_fresh [OF S] by (meson image_eqI nth_mem)+
    ultimately show ?thesis
      using store_fresh [OF S(1)] store_list_not_fresh [OF S]
      by (auto simp: fresh_def set_list_def new_node_def)
  qed
  then obtain m' where m': "insertNode m ll (int i) v = Some (0, m')" "is_list m' ll ?ys" "fresh m'"
      "\<And>a. a \<notin> addrs xs \<Longrightarrow> a < ?p \<Longrightarrow> nodes m' a = nodes m a" "\<And>l. l \<noteq> ll \<Longrightarrow> lists m' l = lists m l"
      "printed m' = printed m" "brk m' = ?p + 1" by blast
  have "store m' (S(ll \<mapsto> ?ys))"
    using store_change [OF S(1) disjI1 [OF S(2)] m'(2,3) own m'(4,5)] by blast
  then show ?thesis using m'(1,6,7) by blast
qed

lemma removeNode_nodes:
  assumes S: "store m S" "S ll = Some xs" and i: "i < length xs"
  shows "\<exists>m'. removeNode m ll (int i) = Some (0, m') \<and> store m' (S(ll \<mapsto> take i xs @ drop (Suc i) xs)) \<and>
    printed m' = printed m \<and> brk m' = brk m"
proof -
  let ?ys = "take i xs @ drop (Suc i) xs"
  from S obtain h where h: "ll \<noteq> NULL" "int (length xs) < 2 ^ 31" "distinct (map fst xs)"
      "lists m ll = Some \<lparr>lsize = int (length xs), head = h\<rparr>" "chain (nodes m) h xs NULL" by (rule storeD)
  have len: "int (length ?ys) = int (length xs) - 1" using i by simp
  have u: "xs = take i xs @ xs ! i # drop (Suc i) xs" using i by (rule id_take_nth_drop)
  have "distinct (map fst (take i xs @ xs ! i # drop (Suc i) xs))" using h(3) u by simp
  then have dist: "distinct (map fst ?ys)" "fst (xs ! i) \<notin> addrs ?ys" by auto
  have own: "a \<in> addrs xs \<or> brk m \<le> a" if "a \<in> addrs ?ys" for a
    using that in_set_takeD in_set_dropD by fastforce
  have step: "\<exists>m'. removeNode m ll (int i) = Some (0, m') \<and> is_list m' ll ?ys \<and> fresh m' \<and>
      (\<forall>a. a \<notin> addrs xs \<longrightarrow> a < brk m \<longrightarrow> nodes m' a = nodes m a) \<and> (\<forall>l. l \<noteq> ll \<longrightarrow> lists m' l = lists m l) \<and>
      printed m' = printed m \<and> brk m' = brk m"
  proof (cases i)
    case 0
    then obtain x n where x: "xs = x # ?ys" "xs ! i = x" "h = fst x" "nodes m h = Some \<lparr>item = snd x, lnext = n\<rparr>" "chain (nodes m) n ?ys NULL"
      using h(5) i by (cases xs) auto
    let ?m = "set_list (m\<lparr>nodes := (nodes m)(h := None)\<rparr>) ll \<lparr>lsize = int (length xs) - 1, head = n\<rparr>"
    have "removeNode m ll (int i) = Some (0, ?m)"
      using 0 h x i by (auto simp: removeNode_def free_node_def)
    moreover have "is_list ?m ll ?ys"
      using h x dist 0 unfolding is_list_def len by (auto simp: set_list_def)
    moreover have "h \<in> addrs xs" "h < brk m" using x store_not_fresh [OF S] by (metis image_eqI list.set_intros(1))+
    ultimately show ?thesis
      using store_fresh [OF S(1)] store_list_not_fresh [OF S] store_brk [OF S(1)] by (auto simp: fresh_def set_list_def)
  next
    case (Suc j)
    let ?q = "fst (xs ! j)" and ?c = "fst (xs ! i)"
    have ti: "take i xs = take j xs @ [xs ! j]" using Suc i by (simp add: take_Suc_conv_app_nth)
    obtain n where n: "chain (nodes m) h (take j xs @ [xs ! j]) ?c" "nodes m ?c = Some \<lparr>item = snd (xs ! i), lnext = n\<rparr>"
        "chain (nodes m) n (drop (Suc i) xs) NULL" "?c \<noteq> NULL"
      using h(5) lchain_append [of "nodes m" h "take i xs" "xs ! i # drop (Suc i) xs" NULL] u ti by auto
    have q: "nodes m ?q = Some \<lparr>item = snd (xs ! j), lnext = ?c\<rparr>" "?q \<noteq> NULL" using n(1) by (auto simp: chain_last)
    have "?q \<in> addrs ?ys" unfolding ti by simp
    then have qc: "?q \<noteq> ?c" using dist(2) by metis
    let ?m = "set_list (m\<lparr>nodes := (nodes m)(?q \<mapsto> \<lparr>item = snd (xs ! j), lnext = n\<rparr>, ?c := None)\<rparr>)
       ll \<lparr>lsize = int (length xs) - 1, head = h\<rparr>"
    have "int i - 1 = int j" using Suc by simp
    then have "removeNode m ll (int i) = Some (0, ?m)"
      using h i findNode_nth [OF S, of j] Suc q qc n(2,4)
      by (auto simp: removeNode_def free_node_def set_next_def set_list_def)
    moreover have "is_list ?m ll ?ys"
    proof -
      have "distinct (map fst (take j xs @ [xs ! j]))" "?q \<notin> addrs (drop (Suc i) xs)" "?q \<notin> addrs (take j xs)"
        using dist(1) unfolding ti by auto
      moreover have "?c \<notin> addrs (take j xs)" "?c \<notin> addrs (drop (Suc i) xs)"
        using dist(2) unfolding ti by auto
      ultimately have "chain ((nodes m)(?q \<mapsto> \<lparr>item = snd (xs ! j), lnext = n\<rparr>, ?c := None)) h ?ys NULL"
        using n q qc unfolding ti lchain_append [of _ _ "take j xs @ [xs ! j]"]
        by (intro exI [of _ n]) (auto simp: chain_last)
      then show ?thesis using h dist len by (simp add: is_list_def set_list_def)
    qed
    moreover have "?q \<in> addrs xs" "?c \<in> addrs xs" "?q < brk m" "?c < brk m"
      using i Suc store_not_fresh [OF S] by (meson image_eqI nth_mem Suc_lessD)+
    ultimately show ?thesis
      using store_fresh [OF S(1)] store_list_not_fresh [OF S] store_brk [OF S(1)]
      by (auto simp: fresh_def set_list_def)
  qed
  then obtain m' where m': "removeNode m ll (int i) = Some (0, m')" "is_list m' ll ?ys" "fresh m'"
      "\<And>a. a \<notin> addrs xs \<Longrightarrow> a < brk m \<Longrightarrow> nodes m' a = nodes m a" "\<And>l. l \<noteq> ll \<Longrightarrow> lists m' l = lists m l"
      "printed m' = printed m" "brk m' = brk m" by blast
  have "store m' (S(ll \<mapsto> ?ys))"
    using store_change [OF S(1) disjI1 [OF S(2)] m'(2,3) own m'(4,5)] by blast
  then show ?thesis using m'(1,6,7) by blast
qed

lemma removeNode_first:
  assumes "store m S" "S ll = Some (x # xs)"
  shows "\<exists>m'. removeNode m ll 0 = Some (0, m') \<and> store m' (S(ll \<mapsto> xs)) \<and> printed m' = printed m \<and> brk m' = brk m"
  using removeNode_nodes [OF assms, of 0] by simp

subsection \<open>Walking along a list\<close>

definition first_addr :: "(addr \<times> int) list \<Rightarrow> addr" where
  "first_addr xs = (case xs of [] \<Rightarrow> NULL | x # _ \<Rightarrow> fst x)"

lemma first_addr_simps [simp]: "first_addr [] = NULL" "first_addr (x # xs) = fst x"
  by (simp_all add: first_addr_def)

lemma first_addr_append: "ys \<noteq> [] \<Longrightarrow> first_addr (ys @ zs) = first_addr ys"
  by (cases ys) auto

lemma chain_first: "chain h p xs NULL \<Longrightarrow> p = first_addr xs"
  by (cases xs) auto

lemma chain_node:
  assumes "chain h p (ds @ x # xs) NULL"
  shows "fst x \<noteq> NULL" "h (fst x) = Some \<lparr>item = snd x, lnext = first_addr xs\<rparr>"
  using assms by (auto simp: lchain_append chain_first)

lemma store_head: "store m S \<Longrightarrow> S ll = Some xs \<Longrightarrow> lists m ll = Some \<lparr>lsize = int (length xs), head = first_addr xs\<rparr>"
  by (metis chain_first storeD)

lemma store_chain: "store m S \<Longrightarrow> S ll = Some xs \<Longrightarrow> chain (nodes m) (first_addr xs) xs NULL"
  by (metis chain_first storeD)

lemma store_nonnull: "store m S \<Longrightarrow> S ll = Some xs \<Longrightarrow> ll \<noteq> NULL"
  by (metis storeD)

lemma store_node:
  assumes "store m S" "S ll = Some (ds @ x # xs)"
  shows "fst x \<noteq> NULL" "nodes m (fst x) = Some \<lparr>item = snd x, lnext = first_addr xs\<rparr>"
  using chain_node [OF store_chain [OF assms]] by auto

lemma first_addr_NULL: "store m S \<Longrightarrow> S ll = Some (ds @ xs) \<Longrightarrow> first_addr xs = NULL \<longleftrightarrow> xs = []"
  using store_node(1) [of m S ll ds] by (cases xs) auto

lemma store_room: "store m S \<Longrightarrow> S ll = Some xs \<Longrightarrow> int (length xs) < 2 ^ 31"
  by (metis storeD)

subsection \<open>Whole lists\<close>

lemma print_loop_simps [simp]:
  "print_loop m NULL = Some m"
  "p \<noteq> NULL \<Longrightarrow> nodes m p = Some x \<Longrightarrow> print_loop m p = print_loop (m\<lparr>printed := printed m @ [Num (item x)]\<rparr>) (lnext x)"
  by (simp_all add: print_loop.simps [of m])

lemma print_loop_chain: "chain (nodes m) p xs NULL \<Longrightarrow> print_loop m p = Some (m\<lparr>printed := printed m @ map (Num \<circ> snd) xs\<rparr>)"
  by (induction xs arbitrary: m p) auto

lemma printList_nodes:
  assumes "store m S" "S ll = Some xs"
  shows "printList m ll = Some (m\<lparr>printed := printed m @ (if xs = [] then [Empty_text] else map (Num \<circ> snd) xs) @ [Newline]\<rparr>)"
  using store_head [OF assms] store_nonnull [OF assms] store_chain [OF assms] first_addr_NULL [of m S ll "[]" xs] assms
    print_loop_chain [of _ "first_addr xs" xs]
  by (auto simp: printList_def)

lemma printList_stores:
  "stores m T \<Longrightarrow> T ll = Some vs \<Longrightarrow>
   printList m ll = Some (m\<lparr>printed := printed m @ (if vs = [] then [Empty_text] else map Num vs) @ [Newline]\<rparr>)"
  unfolding stores_def
proof (elim exE conjE)
  fix S
  assume S: "store m S" "items S = T" and "T ll = Some vs"
  then obtain xs where xs: "S ll = Some xs" "vs = map snd xs" by (metis items_SomeE)
  show ?thesis unfolding printList_nodes [OF S(1) xs(1)] xs(2) by simp
qed

text \<open>The two primitives, on the items.\<close>

lemma insertNode_stores:
  assumes "stores m T" "T ll = Some vs" "i \<le> length vs" "int (length vs) + 1 < 2 ^ 31"
  shows "\<exists>m'. insertNode m ll (int i) v = Some (0, m') \<and> stores m' (T(ll \<mapsto> take i vs @ v # drop i vs)) \<and>
    printed m' = printed m \<and> brk m' = brk m + 1"
proof -
  from assms obtain S xs where S: "store m S" "S ll = Some xs" "items S = T" and vs: "vs = map snd xs"
    by (auto simp: stores_def items_def)
  from insertNode_nodes [OF S(1,2), of i v] assms(3,4) vs obtain m' where m': "insertNode m ll (int i) v = Some (0, m')"
      "store m' (S(ll \<mapsto> take i xs @ (brk m, v) # drop i xs))" "printed m' = printed m" "brk m' = brk m + 1" by auto
  then have "stores m' (T(ll \<mapsto> take i vs @ v # drop i vs))"
    using S(3) vs unfolding stores_def by (intro exI [of _ "S(ll \<mapsto> take i xs @ (brk m, v) # drop i xs)"]) (simp add: take_map drop_map)
  then show ?thesis using m' by blast
qed

lemma removeNode_stores:
  assumes "stores m T" "T ll = Some vs" "i < length vs"
  shows "\<exists>m'. removeNode m ll (int i) = Some (0, m') \<and> stores m' (T(ll \<mapsto> take i vs @ drop (Suc i) vs)) \<and>
    printed m' = printed m \<and> brk m' = brk m"
proof -
  from assms obtain S xs where S: "store m S" "S ll = Some xs" "items S = T" and vs: "vs = map snd xs"
    by (auto simp: stores_def items_def)
  from removeNode_nodes [OF S(1,2), of i] assms(3) vs obtain m' where m': "removeNode m ll (int i) = Some (0, m')"
      "store m' (S(ll \<mapsto> take i xs @ drop (Suc i) xs))" "printed m' = printed m" "brk m' = brk m" by auto
  then have "stores m' (T(ll \<mapsto> take i vs @ drop (Suc i) vs))"
    using S(3) vs unfolding stores_def by (intro exI [of _ "S(ll \<mapsto> take i xs @ drop (Suc i) xs)"]) (simp add: take_map drop_map)
  then show ?thesis using m' by blast
qed

text \<open>Indices out of range leave the list as it is.\<close>

lemma insertNode_none:
  assumes "stores m T" "T ll = Some vs" "i < 0 \<or> int (length vs) + 1 < i" "int (length vs) + 1 < 2 ^ 31"
  shows "insertNode m ll i v = Some (-1, m)"
proof -
  from assms obtain S xs where S: "store m S" "S ll = Some xs" and vs: "vs = map snd xs"
    by (auto simp: stores_def items_def)
  then show ?thesis using assms(3,4) store_head [OF S] by (auto simp: insertNode_def)
qed

lemma removeNode_none:
  assumes "stores m T" "T ll = Some vs" "i < 0 \<or> int (length vs) \<le> i"
  shows "removeNode m ll i = Some (-1, m)"
proof -
  from assms obtain S xs where S: "store m S" "S ll = Some xs" and vs: "vs = map snd xs"
    by (auto simp: stores_def items_def)
  then show ?thesis using assms(3) store_head [OF S] by (auto simp: removeNode_def)
qed

text \<open>\<open>insertNode\<close> accepts the index one past the end of the list, and inserts nothing there.\<close>

lemma insertNode_past_end:
  assumes "stores m T" "T ll = Some vs" "vs \<noteq> []" "int (length vs) + 1 < 2 ^ 31"
  shows "insertNode m ll (int (length vs) + 1) v = Some (-1, m)"
proof -
  from assms obtain S xs where S: "store m S" "S ll = Some xs" and vs: "vs = map snd xs"
    by (auto simp: stores_def items_def)
  have "first_addr xs \<noteq> NULL" using first_addr_NULL [of m S ll "[]" xs] S assms(3) vs by simp
  then show ?thesis
    using findNode_none [OF S, of "int (length xs)"] vs assms(4) store_head [OF S] store_nonnull [OF S]
    by (simp add: insertNode_def)
qed

end
