(* ===== verification/LinkedListProps.thy ===== *)
theory LinkedListProps
  imports LinkedListInv
begin

text \<open>
  The exercises of \<open>Data-Structures/tests/linked_list.c\<close>: sorted insertion, the alternating merge, the moves of the odd and the even
  items, the split, the move of the maximum and the reversal, each against the operation on lists of integers it stands for.
\<close>

subsection \<open>Sorted insertion\<close>

lemma sorted_pos_simps [simp]:
  "sorted_pos m NULL v i = Some (NULL, i)"
  "p \<noteq> NULL \<Longrightarrow> nodes m p = Some x \<Longrightarrow> item x < v \<Longrightarrow> checked (i + 1) = Some j \<Longrightarrow>
     sorted_pos m p v i = sorted_pos m (lnext x) v j"
  "p \<noteq> NULL \<Longrightarrow> nodes m p = Some x \<Longrightarrow> \<not> item x < v \<Longrightarrow> sorted_pos m p v i = Some (p, i)"
  by (simp_all add: sorted_pos.simps [of m])

lemma sorted_pos_chain:
  "chain (nodes m) p xs NULL \<Longrightarrow> 0 \<le> i \<Longrightarrow> i + int (length xs) < 2 ^ 31 \<Longrightarrow>
   sorted_pos m p v i =
     Some (first_addr (dropWhile (\<lambda>x. snd x < v) xs), i + int (length (takeWhile (\<lambda>x. snd x < v) xs)))"
proof (induction xs arbitrary: p i)
  case (Cons x xs)
  then show ?case by (cases "snd x < v") auto
qed simp

lemma insort_conv: "insort v vs = takeWhile (\<lambda>x. x < v) vs @ v # dropWhile (\<lambda>x. x < v) vs" for v :: int
  by (induction vs) auto

lemma sorted_takeWhile_less: "sorted_wrt (<) vs \<Longrightarrow> takeWhile (\<lambda>x. x < v) vs = filter (\<lambda>x. x < v) vs" for v :: int
  by (induction vs) (auto simp: filter_empty_conv intro!: filter_False[symmetric])

lemma sorted_member_head:
  "sorted_wrt (<) vs \<Longrightarrow> v \<in> set vs \<longleftrightarrow> (\<exists>us. dropWhile (\<lambda>x. x < v) vs = v # us)" for v :: int
proof (induction vs)
  case (Cons x xs)
  then show ?case by (cases "x < v") auto
qed simp

lemma sorted_strict_insort: "sorted_wrt (<) vs \<Longrightarrow> v \<notin> set vs \<Longrightarrow> sorted_wrt (<) (insort v vs)" for v :: int
  by (induction vs) (auto simp: set_insort_key)

lemma insertSorted_spec:
  assumes "stores m T" "T ll = Some vs" "sorted_wrt (<) vs" and room: "int (length vs) + 1 < 2 ^ 31"
  shows "\<exists>m'. insertSortedLL m ll v = Some (if v \<in> set vs then -1 else int (length (filter (\<lambda>x. x < v) vs)), m') \<and>
    stores m' (T(ll \<mapsto> if v \<in> set vs then vs else insort v vs)) \<and> brk m \<le> brk m' \<and>
    printed m' = (if v \<in> set vs \<or> vs = [] then printed m else printed m @ map Num (insort v vs) @ [Newline])"
proof -
  from assms obtain S xs where S: "store m S" "S ll = Some xs" and T: "items S = T" and vs: "vs = map snd xs"
    by (auto simp: stores_def items_def)
  note facts = store_head [OF S] store_nonnull [OF S]
  show ?thesis
  proof (cases "xs = []")
    case True
    from insertNode_stores [OF assms(1,2), of 0 v] obtain m' where
      "insertNode m ll 0 v = Some (0, m')" "stores m' (T(ll \<mapsto> [v]))" "printed m' = printed m" "brk m' = brk m + 1"
      using room vs True by auto
    then show ?thesis using True vs facts by (simp add: insertSortedLL_def)
  next
    case False
    define k where "k = length (takeWhile (\<lambda>x. snd x < v) xs)"
    have k: "k = length (takeWhile (\<lambda>x. x < v) vs)" "k \<le> length vs"
      unfolding k_def vs by (simp_all add: takeWhile_map comp_def length_takeWhile_le)
    have split: "take k vs = takeWhile (\<lambda>x. x < v) vs" "drop k vs = dropWhile (\<lambda>x. x < v) vs"
      unfolding k by (simp_all add: takeWhile_eq_take [symmetric] dropWhile_eq_drop [symmetric])
    have pos: "sorted_pos m (first_addr xs) v 0 = Some (first_addr (drop k xs), int k)"
      using sorted_pos_chain [OF store_chain [OF S], of 0 v] room vs
      by (simp add: k_def dropWhile_eq_drop)
    have head0: "first_addr xs \<noteq> NULL" using False first_addr_NULL [of m S ll "[]"] S by simp
    from insertNode_stores [OF assms(1,2) k(2) room, of v] obtain m' where
      m': "insertNode m ll (int k) v = Some (0, m')" "stores m' (T(ll \<mapsto> insort v vs))" "printed m' = printed m" "brk m' = brk m + 1"
      unfolding split insort_conv [symmetric] by blast
    have printed: "printList m' ll = Some (m'\<lparr>printed := printed m @ map Num (insort v vs) @ [Newline]\<rparr>)"
      using printList_stores [OF m'(2), of ll] m'(3) by simp
    have count: "k = length (filter (\<lambda>x. x < v) vs)" unfolding k(1) sorted_takeWhile_less [OF assms(3)] ..
    have node: "fst x \<noteq> NULL" "nodes m (fst x) = Some \<lparr>item = snd x, lnext = first_addr rest\<rparr>"
      if "drop k xs = x # rest" for x rest
      using store_node [OF S(1), of ll "take k xs" x rest] S(2) that append_take_drop_id [of k xs] by simp_all
    have new: "\<exists>m'. insertSortedLL m ll v = Some (int k, m') \<and> stores m' (T(ll \<mapsto> insort v vs)) \<and> brk m \<le> brk m' \<and>
        printed m' = printed m @ map Num (insort v vs) @ [Newline]"
      if "\<forall>x rest. drop k xs = x # rest \<longrightarrow> snd x \<noteq> v"
    proof -
      have "insertSortedLL m ll v = Some (int k, m'\<lparr>printed := printed m @ map Num (insort v vs) @ [Newline]\<rparr>)"
      proof (cases "drop k xs")
        case Nil
        then show ?thesis using facts head0 pos m'(1) printed by (simp add: insertSortedLL_def)
      next
        case (Cons x rest)
        then show ?thesis
          using facts head0 pos m'(1) printed node [OF Cons] that by (simp add: insertSortedLL_def)
      qed
      then show ?thesis using m'(2,4) by simp
    qed
    show ?thesis
    proof (cases "drop k xs")
      case Nil
      then have "v \<notin> set vs" using sorted_member_head [OF assms(3)] split(2) vs by (simp flip: drop_map)
      then show ?thesis using new Nil False vs count by simp
    next
      case (Cons x rest)
      have "dropWhile (\<lambda>x. x < v) vs = map snd (drop k xs)" using split(2) vs by (simp add: drop_map)
      then have mem: "v \<in> set vs \<longleftrightarrow> snd x = v"
        using sorted_member_head [OF assms(3), of v] Cons by simp
      show ?thesis
      proof (cases "snd x = v")
        case True
        then have "insertSortedLL m ll v = Some (- 1, m)"
          using facts head0 pos Cons node [OF Cons] by (simp add: insertSortedLL_def)
        then show ?thesis using True mem assms(1,2) by (simp add: fun_upd_idem)
      next
        case neq: False
        have "\<forall>x rest. drop k xs = x # rest \<longrightarrow> snd x \<noteq> v" using Cons neq by simp
        then show ?thesis using new neq False mem vs count by simp
      qed
    qed
  qed
qed

subsection \<open>Alternating merge\<close>

text \<open>The items of the second list go to the odd positions of the first, as long as there are any.\<close>

fun interleave :: "'a list \<Rightarrow> 'a list \<Rightarrow> 'a list" where
  "interleave (x # xs) (y # ys) = x # y # interleave xs ys"
| "interleave [] ys = []"
| "interleave xs [] = xs"

lemma interleave_Nil2 [simp]: "interleave xs [] = xs"
  by (cases xs) auto

lemma map_interleave: "map f (interleave xs ys) = interleave (map f xs) (map f ys)"
  by (induction xs ys rule: interleave.induct) auto

lemma alternate_loop_stop: "p = NULL \<or> q = NULL \<Longrightarrow> alternate_loop m ll1 ll2 p q i = Some m"
  by (subst alternate_loop.simps) auto

lemma alternate_loop_step:
  assumes "p \<noteq> NULL" "q \<noteq> NULL" "nodes m q = Some y" "insertNode m ll1 i (item y) = Some (r, m1)"
    "nodes m1 p = Some x" "lnext x \<noteq> NULL" "nodes m1 (lnext x) = Some z" "nodes m1 q = Some y'"
    "removeNode m1 ll2 0 = Some (r', m2)" "checked (i + 2) = Some j"
  shows "alternate_loop m ll1 ll2 p q i = alternate_loop m2 ll1 ll2 (lnext z) (lnext y') j"
  using assms by (subst alternate_loop.simps) simp

lemma alternate_loop_nodes:
  assumes "store m S" "ll1 \<noteq> ll2" "S ll1 = Some (ds @ xs)" "S ll2 = Some ys" "i = int (length ds) + 1"
    and "int (length (ds @ xs)) + 2 * int (length ys) + 2 < 2 ^ 31"
  shows "\<exists>m' S'. alternate_loop m ll1 ll2 (first_addr xs) (first_addr ys) i = Some m' \<and> store m' S' \<and>
    items S' = (items S)(ll1 \<mapsto> map snd (ds @ interleave xs ys), ll2 \<mapsto> map snd (drop (length xs) ys)) \<and>
    printed m' = printed m \<and> brk m \<le> brk m'"
  using assms
proof (induction ys arbitrary: m S ds xs i)
  case Nil
  then show ?case
    by (intro exI [of _ m] exI [of _ S]) (auto simp: alternate_loop_stop items_def fun_eq_iff)
next
  case (Cons y ys)
  show ?case
  proof (cases xs)
    case Nil
    with Cons.prems show ?thesis
      by (intro exI [of _ m] exI [of _ S]) (auto simp: alternate_loop_stop items_def fun_eq_iff)
  next
    case xs: (Cons x xs')
    let ?p = "brk m"
    from insertNode_nodes [OF Cons.prems(1,3), of "length ds + 1" "snd y"] Cons.prems(5,6) xs
    obtain m1 where m1: "insertNode m ll1 i (snd y) = Some (0, m1)"
        "store m1 (S(ll1 \<mapsto> (ds @ [x, (?p, snd y)]) @ xs'))" "printed m1 = printed m" "brk m1 = ?p + 1"
      by (auto simp: algebra_simps)
    let ?S1 = "S(ll1 \<mapsto> (ds @ [x, (?p, snd y)]) @ xs')"
    have S1: "?S1 ll2 = Some (y # ys)" using Cons.prems(2,4) by simp
    from removeNode_first [OF m1(2) S1] obtain m2 where m2: "removeNode m1 ll2 0 = Some (0, m2)"
        "store m2 (?S1(ll2 \<mapsto> ys))" "printed m2 = printed m1" "brk m2 = brk m1" by blast
    have n0: "fst y \<noteq> NULL" "nodes m (fst y) = Some \<lparr>item = snd y, lnext = first_addr ys\<rparr>"
      using store_node [OF Cons.prems(1), of ll2 "[]" y ys] Cons.prems(4) by simp_all
    have n1: "nodes m1 (fst y) = Some \<lparr>item = snd y, lnext = first_addr ys\<rparr>"
      using store_node [OF m1(2), of ll2 "[]" y ys] S1 by simp
    have n2: "fst x \<noteq> NULL" "nodes m1 (fst x) = Some \<lparr>item = snd x, lnext = ?p\<rparr>"
      using store_node [OF m1(2), of ll1 ds x "(?p, snd y) # xs'"] by simp_all
    have n3: "?p \<noteq> NULL" "nodes m1 ?p = Some \<lparr>item = snd y, lnext = first_addr xs'\<rparr>"
      using store_node [OF m1(2), of ll1 "ds @ [x]" "(?p, snd y)" xs'] by simp_all
    have j: "checked (i + 2) = Some (i + 2)" using Cons.prems(5,6) by simp
    have "alternate_loop m ll1 ll2 (first_addr xs) (first_addr (y # ys)) i =
        alternate_loop m2 ll1 ll2 (first_addr xs') (first_addr ys) (i + 2)"
      using alternate_loop_step [OF _ n0(1) n0(2) _ n2(2) _ _ n1 m2(1) j] n2(1) n3 m1(1) xs by simp
    moreover have p1: "(?S1(ll2 \<mapsto> ys)) ll1 = Some ((ds @ [x, (?p, snd y)]) @ xs')" and p2: "(?S1(ll2 \<mapsto> ys)) ll2 = Some ys"
      using Cons.prems(2) by simp_all
    have p3: "i + 2 = int (length (ds @ [x, (?p, snd y)])) + 1"
        "int (length ((ds @ [x, (?p, snd y)]) @ xs')) + 2 * int (length ys) + 2 < 2 ^ 31"
      using Cons.prems(5,6) xs by simp_all
    from Cons.IH [OF m2(2) Cons.prems(2) p1 p2 p3]
    obtain m' S' where "alternate_loop m2 ll1 ll2 (first_addr xs') (first_addr ys) (i + 2) = Some m'" "store m' S'"
        "items S' = (items (?S1(ll2 \<mapsto> ys)))(ll1 \<mapsto> map snd ((ds @ [x, (?p, snd y)]) @ interleave xs' ys), ll2 \<mapsto> map snd (drop (length xs') ys))"
        "printed m' = printed m2" "brk m2 \<le> brk m'"
      by blast
    moreover have "(items (?S1(ll2 \<mapsto> ys)))(ll1 \<mapsto> map snd ((ds @ [x, (?p, snd y)]) @ interleave xs' ys), ll2 \<mapsto> map snd (drop (length xs') ys)) =
        (items S)(ll1 \<mapsto> map snd (ds @ interleave xs (y # ys)), ll2 \<mapsto> map snd (drop (length xs) (y # ys)))"
      using xs by (simp add: fun_eq_iff)
    ultimately show ?thesis using m1(3,4) m2(3,4) by (intro exI [of _ m'] exI [of _ S']) (simp add: fun_upd_def)
  qed
qed

lemma alternateMerge_spec:
  assumes "stores m T" "ll1 \<noteq> ll2" "T ll1 = Some xs" "T ll2 = Some ys"
    and room: "int (length xs) + 2 * int (length ys) + 2 < 2 ^ 31"
  shows "\<exists>m'. alternateMergeLinkedList m ll1 ll2 = Some m' \<and>
    stores m' (T(ll1 \<mapsto> interleave xs ys, ll2 \<mapsto> drop (length xs) ys)) \<and> printed m' = printed m"
proof -
  from assms obtain S us ws where S: "store m S" "S ll1 = Some us" "S ll2 = Some ws" "items S = T"
      and vs: "xs = map snd us" "ys = map snd ws"
    by (auto simp: stores_def items_def)
  have heads: "first_addr us = NULL \<longleftrightarrow> us = []" "first_addr ws = NULL \<longleftrightarrow> ws = []"
    using first_addr_NULL [OF S(1), of ll1 "[]" us] first_addr_NULL [OF S(1), of ll2 "[]" ws] S(2,3) by simp_all
  note facts = store_head [OF S(1,2)] store_head [OF S(1,3)] store_nonnull [OF S(1,2)] store_nonnull [OF S(1,3)]
  show ?thesis
  proof (cases "us = [] \<or> ws = []")
    case True
    then have "alternateMergeLinkedList m ll1 ll2 = Some m"
      using facts by (auto simp: alternateMergeLinkedList_def)
    moreover have "T(ll1 \<mapsto> interleave xs ys, ll2 \<mapsto> drop (length xs) ys) = T"
      using True assms(3,4) vs by (auto simp: fun_eq_iff)
    ultimately show ?thesis using assms(1) by simp
  next
    case False
    from alternate_loop_nodes [OF S(1) assms(2), of "[]" us ws 1] S room vs
    obtain m' S' where "alternate_loop m ll1 ll2 (first_addr us) (first_addr ws) 1 = Some m'" "store m' S'"
        "items S' = T(ll1 \<mapsto> interleave xs ys, ll2 \<mapsto> drop (length xs) ys)" "printed m' = printed m"
      by (auto simp: map_interleave drop_map)
    then show ?thesis using False heads facts unfolding stores_def
      by (auto simp: alternateMergeLinkedList_def)
  qed
qed

subsection \<open>Moving items to the back\<close>

lemma find_tail_chain:
  assumes "chain (nodes m) p (xs @ [x]) NULL" "0 \<le> c" "c + int (length xs) < 2 ^ 31"
  shows "find_tail m p c = Some (fst x, c + int (length xs))"
  using assms
proof (induction xs arbitrary: p c)
  case Nil
  then show ?case by (subst find_tail.simps) auto
next
  case (Cons y ys)
  then obtain n where n: "nodes m p = Some \<lparr>item = snd y, lnext = n\<rparr>" "chain (nodes m) n (ys @ [x]) NULL" by auto
  then have "n \<noteq> NULL" using chain_end_NULL [OF n(2)] by simp
  then show ?case using n Cons.IH [OF n(2), of "c + 1"] Cons.prems(2,3) by (subst find_tail.simps) simp
qed

text \<open>The updates of one move, on the segments before and behind the node.\<close>

definition moved :: "lmem \<Rightarrow> addr \<Rightarrow> (addr \<times> int) list \<Rightarrow> addr \<times> int \<Rightarrow> (addr \<times> int) list \<Rightarrow> lmem" where
  "moved m ll ks x rs =
     (let n = length ks + length rs + 1;
          h = (if ks = [] then nodes m else (nodes m)(fst (List.last ks) \<mapsto> \<lparr>item = snd (List.last ks), lnext = first_addr rs\<rparr>))
      in m\<lparr>nodes := h(fst (List.last rs) \<mapsto> \<lparr>item = snd (List.last rs), lnext = fst x\<rparr>, fst x \<mapsto> \<lparr>item = snd x, lnext = NULL\<rparr>),
        lists := (lists m)(ll \<mapsto> \<lparr>lsize = int n, head = first_addr (ks @ rs)\<rparr>)\<rparr>)"

lemma moved_store:
  assumes S: "store m S" "S ll = Some (ks @ x # rs)" and "rs \<noteq> []"
  shows "store (moved m ll ks x rs) (S(ll \<mapsto> ks @ rs @ [x]))"
proof (rule store_change [OF S(1) disjI1 [OF S(2)]])
  obtain zs z where rs: "rs = zs @ [z]" using assms(3) by (metis rev_exhaust)
  note ch = store_chain [OF S]
  from S obtain dist: "distinct (map fst (ks @ x # rs))" and len: "int (length (ks @ x # rs)) < 2 ^ 31" and ll: "ll \<noteq> NULL"
    by (rule storeD)
  let ?h = "nodes (moved m ll ks x rs)"
  have tail: "chain ?h (first_addr rs) (zs @ [z, x]) NULL"
  proof -
    have "chain (nodes m) (first_addr rs) (zs @ [z]) NULL"
      using ch rs chain_first by (auto simp: lchain_append)
    then obtain r where "chain (nodes m) (first_addr rs) zs (fst z)" "fst z \<noteq> NULL" by (auto simp: chain_last)
    moreover have "fst x \<noteq> NULL" using store_node [OF S] by simp
    moreover have "addrs ks \<inter> addrs zs = {}" using dist rs by auto
    then have "ks \<noteq> [] \<Longrightarrow> fst (List.last ks) \<notin> addrs zs" using last_in_set [of ks] by blast
    ultimately show ?thesis using dist rs by (auto simp: moved_def Let_def lchain_append)
  qed
  have "chain ?h (first_addr (ks @ rs)) (ks @ rs @ [x]) NULL"
  proof (cases ks rule: rev_cases)
    case Nil
    then show ?thesis using tail rs by simp
  next
    case (snoc js k)
    have "first_addr (ks @ rs) = first_addr (ks @ x # rs)" using snoc by (cases js) simp_all
    then obtain r where "chain (nodes m) (first_addr (ks @ rs)) js (fst k)" "fst k \<noteq> NULL"
      using ch unfolding snoc by (auto simp: lchain_append)
    then have "chain ?h (first_addr (ks @ rs)) ks (first_addr rs)"
      using dist rs snoc by (auto simp: moved_def Let_def chain_last)
    then show ?thesis using tail rs unfolding lchain_append [of _ _ ks] by auto
  qed
  then show "is_list (moved m ll ks x rs) ll (ks @ rs @ [x])"
    using dist len ll by (auto simp: is_list_def moved_def Let_def)
  have "fst (List.last rs) < brk m" "fst x < brk m" "ks \<noteq> [] \<longrightarrow> fst (List.last ks) < brk m"
    using store_not_fresh [OF S] assms(3) by auto
  then show "fresh (moved m ll ks x rs)"
    using store_fresh [OF S(1)] store_brk [OF S(1)] store_list_not_fresh [OF S] by (auto simp: fresh_def moved_def Let_def)
qed (use assms(3) in \<open>auto simp: moved_def Let_def\<close>)

definition prev_of :: "(addr \<times> int) list \<Rightarrow> addr" where
  "prev_of ks = (if ks = [] then NULL else fst (List.last ks))"

lemma move_loop_step:
  assumes S: "store m S" "S ll = Some (ks @ x # rs)" and "rs \<noteq> []" "P (snd x)"
  shows "move_loop P m ll (fst x) (fst (List.last rs)) (prev_of ks) (Suc n) =
    move_loop P (moved m ll ks x rs) ll (first_addr rs) (fst x) (prev_of ks) n"
proof -
  from S obtain dist: "distinct (map fst (ks @ x # rs))" by (rule storeD)
  obtain zs z where rs: "rs = zs @ [z]" using assms(3) by (metis rev_exhaust)
  have z: "nodes m (fst z) = Some \<lparr>item = snd z, lnext = NULL\<rparr>"
    using store_node [OF S(1), of ll "ks @ x # zs" z "[]"] S(2) rs by simp
  have x: "nodes m (fst x) = Some \<lparr>item = snd x, lnext = first_addr rs\<rparr>" using store_node [OF S] by simp
  have "first_addr (ks @ x # rs) = first_addr (ks @ rs)" if "ks \<noteq> []" using that by (cases ks) auto
  note head = store_head [OF S]
  show ?thesis
  proof (cases ks rule: rev_cases)
    case Nil
    let ?m = "m\<lparr>lists := (lists m)(ll \<mapsto> \<lparr>lsize = int (length rs + 1), head = first_addr rs\<rparr>),
          nodes := (nodes m)(fst z \<mapsto> \<lparr>item = snd z, lnext = fst x\<rparr>, fst x \<mapsto> \<lparr>item = snd x, lnext = NULL\<rparr>)\<rparr>"
    have "move_loop P m ll (fst x) (fst (List.last rs)) (prev_of ks) (Suc n) = move_loop P ?m ll (first_addr rs) (fst x) (prev_of ks) n"
      using Nil rs x z head dist assms(4) by (simp add: prev_of_def set_next_def set_list_def Let_def)
    moreover have "?m = moved m ll ks x rs" using Nil rs by (cases m) (simp add: moved_def)
    ultimately show ?thesis by simp
  next
    case (snoc js k)
    have k: "fst k \<noteq> NULL" "nodes m (fst k) = Some \<lparr>item = snd k, lnext = fst x\<rparr>"
      using store_node [OF S(1), of ll js k "x # rs"] S(2) snoc by simp_all
    have "first_addr (ks @ x # rs) = first_addr (ks @ rs)" using snoc by (cases js) simp_all
    then have keep: "(lists m)(ll \<mapsto> \<lparr>lsize = int (length ks + length rs + 1), head = first_addr (ks @ rs)\<rparr>) = lists m"
      using head by (auto simp: fun_eq_iff)
    have "move_loop P m ll (fst x) (fst (List.last rs)) (prev_of ks) (Suc n) =
        move_loop P (m\<lparr>nodes := (nodes m)(fst k \<mapsto> \<lparr>item = snd k, lnext = first_addr rs\<rparr>, fst z \<mapsto> \<lparr>item = snd z, lnext = fst x\<rparr>,
          fst x \<mapsto> \<lparr>item = snd x, lnext = NULL\<rparr>)\<rparr>) ll (first_addr rs) (fst x) (prev_of ks) n"
      using snoc rs x z k dist assms(4) by (simp add: prev_of_def set_next_def Let_def)
    then show ?thesis using snoc rs keep by (simp add: moved_def)
  qed
qed

lemma move_loop_skip:
  assumes "store m S" "S ll = Some (ks @ x # rs)" "\<not> P (snd x)"
  shows "move_loop P m ll (fst x) t (prev_of ks) (Suc n) = move_loop P m ll (first_addr rs) t (prev_of (ks @ [x])) n"
  using store_node [OF assms(1,2)] assms(3) by (simp add: prev_of_def Let_def)

lemma move_loop_nodes:
  assumes "store m S" "S ll = Some (ks @ rest @ mv)" "rest @ mv \<noteq> [] \<longrightarrow> t = fst (List.last (rest @ mv))"
    and "mv \<noteq> [] \<or> rest = [] \<or> \<not> P (snd (List.last rest)) \<or> (\<exists>x\<in>set (butlast rest). P (snd x))"
  shows "\<exists>m'. move_loop P m ll (first_addr (rest @ mv)) t (prev_of ks) (length rest) = Some m' \<and>
    store m' (S(ll \<mapsto> ks @ filter (\<lambda>x. \<not> P (snd x)) rest @ mv @ filter (\<lambda>x. P (snd x)) rest)) \<and> printed m' = printed m"
  using assms
proof (induction rest arbitrary: m S ks mv t)
  case Nil
  then show ?case by (simp add: fun_upd_idem)
next
  case (Cons x rest)
  show ?case
  proof (cases "P (snd x)")
    case True
    then have ne: "rest @ mv \<noteq> []" using Cons.prems(4) by auto
    have S: "S ll = Some (ks @ x # (rest @ mv))" using Cons.prems(2) by simp
    have t: "t = fst (List.last (rest @ mv))" using Cons.prems(3) ne by (metis append_Cons last_ConsR list.distinct(1))
    have lx: "List.last (rest @ mv @ [x]) = x" by simp
    have q: "(S(ll \<mapsto> ks @ (rest @ mv) @ [x])) ll = Some (ks @ rest @ mv @ [x])" by simp
    have t': "rest @ mv @ [x] \<noteq> [] \<longrightarrow> fst x = fst (List.last (rest @ mv @ [x]))" using lx by simp
    have c: "mv @ [x] \<noteq> [] \<or> rest = [] \<or> \<not> P (snd (List.last rest)) \<or> (\<exists>x\<in>set (butlast rest). P (snd x))" by simp
    from Cons.IH [OF moved_store [OF Cons.prems(1) S ne] q t' c]
    obtain m' where m': "move_loop P (moved m ll ks x (rest @ mv)) ll (first_addr (rest @ mv @ [x])) (fst x) (prev_of ks) (length rest) = Some m'"
        "store m' ((S(ll \<mapsto> ks @ (rest @ mv) @ [x]))(ll \<mapsto> ks @ filter (\<lambda>x. \<not> P (snd x)) rest @ (mv @ [x]) @ filter (\<lambda>x. P (snd x)) rest))"
        "printed m' = printed (moved m ll ks x (rest @ mv))" by blast
    have "first_addr (rest @ mv @ [x]) = first_addr (rest @ mv)" using first_addr_append [OF ne, of "[x]"] by simp
    then have "move_loop P m ll (first_addr ((x # rest) @ mv)) t (prev_of ks) (length (x # rest)) = Some m'"
      using move_loop_step [where P = P and n = "length rest", OF Cons.prems(1) S ne True] t m'(1) by (simp del: move_loop.simps)
    moreover have eq: "ks @ filter (\<lambda>x. \<not> P (snd x)) (x # rest) @ mv @ filter (\<lambda>x. P (snd x)) (x # rest) =
        ks @ filter (\<lambda>x. \<not> P (snd x)) rest @ (mv @ [x]) @ filter (\<lambda>x. P (snd x)) rest" using True by simp
    have "store m' (S(ll \<mapsto> ks @ filter (\<lambda>x. \<not> P (snd x)) (x # rest) @ mv @ filter (\<lambda>x. P (snd x)) (x # rest)))"
      unfolding eq using m'(2) by (simp only: fun_upd_upd)
    moreover have "printed m' = printed m" using m'(3) by (simp add: moved_def Let_def)
    ultimately show ?thesis by blast
  next
    case False
    have S: "S ll = Some ((ks @ [x]) @ rest @ mv)" using Cons.prems(2) by simp
    have c: "mv \<noteq> [] \<or> rest = [] \<or> \<not> P (snd (List.last rest)) \<or> (\<exists>x\<in>set (butlast rest). P (snd x))"
      using Cons.prems(4) False by (auto split: if_splits)
    have t: "rest @ mv \<noteq> [] \<longrightarrow> t = fst (List.last (rest @ mv))" using Cons.prems(3) by (auto split: if_splits)
    from Cons.IH [OF Cons.prems(1) S t c]
    obtain m' where "move_loop P m ll (first_addr (rest @ mv)) t (prev_of (ks @ [x])) (length rest) = Some m'"
        "store m' (S(ll \<mapsto> (ks @ [x]) @ filter (\<lambda>x. \<not> P (snd x)) rest @ mv @ filter (\<lambda>x. P (snd x)) rest))"
        "printed m' = printed m" by blast
    moreover have eq: "ks @ filter (\<lambda>x. \<not> P (snd x)) (x # rest) @ mv @ filter (\<lambda>x. P (snd x)) (x # rest) =
        (ks @ [x]) @ filter (\<lambda>x. \<not> P (snd x)) rest @ mv @ filter (\<lambda>x. P (snd x)) rest" using False by simp
    moreover have "move_loop P m ll (first_addr ((x # rest) @ mv)) t (prev_of ks) (length (x # rest)) =
        move_loop P m ll (first_addr (rest @ mv)) t (prev_of (ks @ [x])) (length rest)"
      using move_loop_skip [where P = P and n = "length rest", OF Cons.prems(1) _ False, of ll ks "rest @ mv" t] Cons.prems(2)
      by (simp del: move_loop.simps)
    ultimately show ?thesis unfolding eq by metis
  qed
qed

lemma moveItems_start:
  assumes S: "store m S" "S ll = Some (us @ [x])" and "us \<noteq> []"
  shows "moveItemsToBack P m ll = move_loop P m ll (first_addr (us @ [x])) (fst x) (prev_of []) (length (us @ [x]))"
proof -
  obtain y ys where us: "us = y # ys" using assms(3) by (cases us) auto
  have y: "fst y \<noteq> NULL" "nodes m (fst y) = Some \<lparr>item = snd y, lnext = first_addr (ys @ [x])\<rparr>"
    using store_node [OF S(1), of ll "[]" y "ys @ [x]"] S(2) us by simp_all
  have "first_addr (ys @ [x]) \<noteq> NULL" using first_addr_NULL [OF S(1), of ll "[y]" "ys @ [x]"] S(2) us by simp
  moreover have "find_tail m (fst y) 1 = Some (fst x, 1 + int (length us))"
    using find_tail_chain [of m "first_addr (us @ [x])" us x 1] store_chain [OF S] store_room [OF S] us by simp
  moreover have "nat (1 + int (length us)) = length (us @ [x])" by simp
  ultimately show ?thesis
    using store_head [OF S] store_nonnull [OF S] y us unfolding moveItemsToBack_def
    by (simp del: move_loop.simps add: prev_of_def)
qed

text \<open>The condition fails only when the last item of two or more is the first that is to be moved.\<close>

lemma moveItems_spec:
  assumes "stores m T" "T ll = Some vs"
    and ok: "length vs < 2 \<or> \<not> P (List.last vs) \<or> (\<exists>v\<in>set (butlast vs). P v)"
  shows "\<exists>m'. moveItemsToBack P m ll = Some m' \<and>
    stores m' (T(ll \<mapsto> filter (\<lambda>v. \<not> P v) vs @ filter P vs)) \<and> printed m' = printed m"
proof -
  from assms obtain S xs where S: "store m S" "S ll = Some xs" "items S = T" and vs: "vs = map snd xs"
    by (auto simp: stores_def items_def)
  show ?thesis
  proof (cases "length xs < 2")
    case True
    then consider "xs = []" | x where "xs = [x]" by (cases xs) (auto simp: Suc_le_eq)
    then have "moveItemsToBack P m ll = Some m \<and> filter (\<lambda>v. \<not> P v) vs @ filter P vs = vs"
    proof cases
      case 1
      then show ?thesis using store_head [OF S(1,2)] vs by (simp add: moveItemsToBack_def)
    next
      case 2
      then show ?thesis using store_head [OF S(1,2)] store_node [OF S(1), of ll "[]" x "[]"] S(2) vs
        by (auto simp: moveItemsToBack_def)
    qed
    then show ?thesis using assms(1,2) by (intro exI [of _ m]) (simp add: fun_upd_idem)
  next
    case False
    then obtain us x where xs: "xs = us @ [x]" by (cases xs rule: rev_cases) auto
    then have us: "us \<noteq> []" using False by auto
    have ok': "[] \<noteq> [] \<or> xs = [] \<or> \<not> P (snd (List.last xs)) \<or> (\<exists>x\<in>set (butlast xs). P (snd x))"
      using ok False vs xs by auto
    from move_loop_nodes [where P = P, OF S(1), of ll "[]" xs "[]" "fst x", OF _ _ ok'] S(2) xs
    obtain m' where m': "move_loop P m ll (first_addr (us @ [x])) (fst x) (prev_of []) (length xs) = Some m'"
        "store m' (S(ll \<mapsto> filter (\<lambda>x. \<not> P (snd x)) xs @ filter (\<lambda>x. P (snd x)) xs))" "printed m' = printed m"
      by auto
    have "items (S(ll \<mapsto> filter (\<lambda>x. \<not> P (snd x)) xs @ filter (\<lambda>x. P (snd x)) xs)) = T(ll \<mapsto> filter (\<lambda>v. \<not> P v) vs @ filter P vs)"
      using S(3) vs by (simp add: filter_map comp_def)
    then have "stores m' (T(ll \<mapsto> filter (\<lambda>v. \<not> P v) vs @ filter P vs))" using m'(2) unfolding stores_def by blast
    then show ?thesis using moveItems_start [OF S(1) _ us, of ll x P] S(2) xs m'(1,3) by auto
  qed
qed

definition linked :: "lmem \<Rightarrow> addr \<Rightarrow> int list \<Rightarrow> bool" where
  "linked m p vs \<longleftrightarrow> (\<exists>xs. chain (nodes m) p xs NULL \<and> distinct (map fst xs) \<and> map snd xs = vs)"

lemma move_loop_keep:
  assumes "store m S" "S ll = Some (ks @ us @ rest)" "\<forall>x\<in>set us. \<not> P (snd x)"
  shows "move_loop P m ll (first_addr (us @ rest)) t (prev_of ks) (length us + n) =
    move_loop P m ll (first_addr rest) t (prev_of (ks @ us)) n"
  using assms(2,3)
proof (induction us arbitrary: ks)
  case (Cons u us)
  then show ?case
    using move_loop_skip [where P = P and n = "length us + n", OF assms(1), of ll ks u "us @ rest" t] Cons.IH [of "ks @ [u]"] by simp
qed simp

lemma moveItems_loses_last:
  assumes "stores m T" "T ll = Some (us @ [v])" "us \<noteq> []" "\<forall>u\<in>set us. \<not> P u" "P v"
  shows "\<exists>m' p. moveItemsToBack P m ll = Some m' \<and> lists m' ll = Some \<lparr>lsize = int (length us) + 1, head = p\<rparr> \<and> linked m' p us"
proof -
  from assms(1,2) obtain S xs where S: "store m S" "S ll = Some xs" and vs: "us @ [v] = map snd xs"
    by (auto simp: stores_def items_def)
  then obtain ws x where xs: "xs = ws @ [x]" "us = map snd ws" "v = snd x"
    by (metis append_butlast_last_id butlast_snoc last_map last_snoc list.map_disc_iff map_butlast snoc_eq_iff_butlast)
  have ne: "ws \<noteq> []" using assms(3) xs(2) by simp
  then obtain js k where ws: "ws = js @ [k]" by (metis rev_exhaust)
  note S' = S(2) [unfolded xs(1)]
  from S(1) S' obtain dist: "distinct (map fst (ws @ [x]))" by (rule storeD)
  have x: "fst x \<noteq> NULL" "nodes m (fst x) = Some \<lparr>item = snd x, lnext = NULL\<rparr>"
    using store_node [OF S(1), of ll ws x "[]"] S' by simp_all
  have k: "fst k \<noteq> NULL" "nodes m (fst k) = Some \<lparr>item = snd k, lnext = fst x\<rparr>"
    using store_node [OF S(1), of ll js k "[x]"] S' ws by simp_all
  let ?h = "(nodes m)(fst k \<mapsto> \<lparr>item = snd k, lnext = NULL\<rparr>, fst x \<mapsto> \<lparr>item = snd x, lnext = NULL\<rparr>)"
  have "moveItemsToBack P m ll = move_loop P m ll (fst x) (fst x) (prev_of ws) (Suc 0)"
    using moveItems_start [OF S(1) S' ne, of P] move_loop_keep [where P = P and n = "Suc 0", OF S(1), of ll "[]" ws "[x]" "fst x"]
      S' assms(4) xs(2) by simp
  also have "\<dots> = Some (m\<lparr>nodes := ?h\<rparr>)"
    using x k dist ws assms(5) xs(3) by (simp add: prev_of_def set_next_def Let_def)
  finally have run: "moveItemsToBack P m ll = Some (m\<lparr>nodes := ?h\<rparr>)" .
  obtain r where "chain (nodes m) (first_addr (ws @ [x])) js (fst k)"
    using store_chain [OF S(1) S'] ws by (auto simp: lchain_append)
  then have "chain ?h (first_addr (ws @ [x])) ws NULL" using dist ws k by (auto simp: chain_last)
  then have "linked (m\<lparr>nodes := ?h\<rparr>) (first_addr (ws @ [x])) us"
    using dist xs(2) unfolding linked_def by (intro exI [of _ ws]) simp
  then show ?thesis using run store_head [OF S(1) S'] xs(2) by simp
qed

subsection \<open>Front and back half\<close>

lemma split_loop_simps:
  "split_loop m front rear NULL idx i j half = Some m"
  "cur \<noteq> NULL \<Longrightarrow> nodes m cur = Some x \<Longrightarrow> idx < half \<Longrightarrow> insertNode m front i (item x) = Some (r, m') \<Longrightarrow>
     checked (i + 1) = Some i' \<Longrightarrow> checked (idx + 1) = Some idx' \<Longrightarrow> nodes m' cur = Some x' \<Longrightarrow>
     split_loop m front rear cur idx i j half = split_loop m' front rear (lnext x') idx' i' j half"
  "cur \<noteq> NULL \<Longrightarrow> nodes m cur = Some x \<Longrightarrow> \<not> idx < half \<Longrightarrow> insertNode m rear j (item x) = Some (r, m') \<Longrightarrow>
     checked (j + 1) = Some j' \<Longrightarrow> checked (idx + 1) = Some idx' \<Longrightarrow> nodes m' cur = Some x' \<Longrightarrow>
     split_loop m front rear cur idx i j half = split_loop m' front rear (lnext x') idx' i j' half"
  by (simp_all add: split_loop.simps [of m])

lemma split_loop_nodes:
  assumes "store m S" "distinct [ll, front, rear]" "S ll = Some (ds @ xs)" "S front = Some (fs @ fr)" "S rear = Some (bs @ br)"
    and "int (length fs) + int (length xs) + int (length fr) + 1 < 2 ^ 31" "int (length bs) + int (length xs) + int (length br) + 1 < 2 ^ 31"
    and "int (length ds) + int (length xs) < 2 ^ 31"
  shows "\<exists>m' S'. split_loop m front rear (first_addr xs) (int (length ds)) (int (length fs)) (int (length bs)) (int half) = Some m' \<and>
    store m' S' \<and> printed m' = printed m \<and>
    items S' = (items S)(front \<mapsto> map snd (fs @ take (half - length ds) xs @ fr), rear \<mapsto> map snd (bs @ drop (half - length ds) xs @ br))"
  using assms
proof (induction xs arbitrary: m S ds fs bs)
  case Nil
  have "items S = (items S)(front \<mapsto> map snd (fs @ fr), rear \<mapsto> map snd (bs @ br))"
    using Nil.prems by (auto simp: items_def fun_eq_iff)
  then show ?case using Nil.prems(1) by (intro exI [of _ m] exI [of _ S]) (simp add: split_loop_simps fun_upd_def)
next
  case (Cons x xs)
  have n: "fst x \<noteq> NULL" "nodes m (fst x) = Some \<lparr>item = snd x, lnext = first_addr xs\<rparr>"
    using store_node [OF Cons.prems(1,3)] by simp_all
  have c: "checked (int (length ds) + 1) = Some (int (length (ds @ [x])))" using Cons.prems(8) by simp
  show ?case
  proof (cases "length ds < half")
    case True
    obtain m1 where m1: "insertNode m front (int (length fs)) (snd x) = Some (0, m1)"
        "store m1 (S(front \<mapsto> fs @ (brk m, snd x) # fr))" "printed m1 = printed m" "brk m1 = brk m + 1"
      using insertNode_nodes [OF Cons.prems(1,4), of "length fs" "snd x"] Cons.prems(6) by auto
    let ?S = "S(front \<mapsto> fs @ (brk m, snd x) # fr)"
    have p: "?S ll = Some ((ds @ [x]) @ xs)" "?S front = Some ((fs @ [(brk m, snd x)]) @ fr)" "?S rear = Some (bs @ br)"
      using Cons.prems(2,3,5) by simp_all
    have q: "int (length (fs @ [(brk m, snd x)])) + int (length xs) + int (length fr) + 1 < 2 ^ 31"
        "int (length bs) + int (length xs) + int (length br) + 1 < 2 ^ 31" "int (length (ds @ [x])) + int (length xs) < 2 ^ 31"
      using Cons.prems(6-8) by simp_all
    have n1: "nodes m1 (fst x) = Some \<lparr>item = snd x, lnext = first_addr xs\<rparr>"
      using store_node [OF m1(2), of ll ds x xs] p(1) by simp
    have "checked (int (length fs) + 1) = Some (int (length (fs @ [(brk m, snd x)])))" using Cons.prems(6) by simp
    then have step: "split_loop m front rear (fst x) (int (length ds)) (int (length fs)) (int (length bs)) (int half) =
        split_loop m1 front rear (first_addr xs) (int (length (ds @ [x]))) (int (length (fs @ [(brk m, snd x)]))) (int (length bs)) (int half)"
      using split_loop_simps(2) [OF n(1,2) _ _ _ c n1] m1(1) True by simp
    moreover obtain m' S' where r: "split_loop m1 front rear (first_addr xs) (int (length (ds @ [x]))) (int (length (fs @ [(brk m, snd x)])))
          (int (length bs)) (int half) = Some m'" "store m' S'" "printed m' = printed m1"
        "items S' = (items ?S)(front \<mapsto> map snd ((fs @ [(brk m, snd x)]) @ take (half - length (ds @ [x])) xs @ fr),
          rear \<mapsto> map snd (bs @ drop (half - length (ds @ [x])) xs @ br))"
      using Cons.IH [OF m1(2) Cons.prems(2) p q] by blast
    moreover have "half - length ds = Suc (half - length (ds @ [x]))" using True by simp
    ultimately have "items S' = (items S)(front \<mapsto> map snd (fs @ take (half - length ds) (x # xs) @ fr),
        rear \<mapsto> map snd (bs @ drop (half - length ds) (x # xs) @ br))"
      unfolding items_upd by simp
    then show ?thesis using m1(3) r(1-3) step unfolding first_addr_simps by metis
  next
    case False
    obtain m1 where m1: "insertNode m rear (int (length bs)) (snd x) = Some (0, m1)"
        "store m1 (S(rear \<mapsto> bs @ (brk m, snd x) # br))" "printed m1 = printed m" "brk m1 = brk m + 1"
      using insertNode_nodes [OF Cons.prems(1,5), of "length bs" "snd x"] Cons.prems(7) by auto
    let ?S = "S(rear \<mapsto> bs @ (brk m, snd x) # br)"
    have p: "?S ll = Some ((ds @ [x]) @ xs)" "?S front = Some (fs @ fr)" "?S rear = Some ((bs @ [(brk m, snd x)]) @ br)"
      using Cons.prems(2,3,4) by simp_all
    have q: "int (length fs) + int (length xs) + int (length fr) + 1 < 2 ^ 31"
        "int (length (bs @ [(brk m, snd x)])) + int (length xs) + int (length br) + 1 < 2 ^ 31"
        "int (length (ds @ [x])) + int (length xs) < 2 ^ 31"
      using Cons.prems(6-8) by simp_all
    have n1: "nodes m1 (fst x) = Some \<lparr>item = snd x, lnext = first_addr xs\<rparr>"
      using store_node [OF m1(2), of ll ds x xs] p(1) by simp
    have "checked (int (length bs) + 1) = Some (int (length (bs @ [(brk m, snd x)])))" using Cons.prems(7) by simp
    then have step: "split_loop m front rear (fst x) (int (length ds)) (int (length fs)) (int (length bs)) (int half) =
        split_loop m1 front rear (first_addr xs) (int (length (ds @ [x]))) (int (length fs)) (int (length (bs @ [(brk m, snd x)]))) (int half)"
      using split_loop_simps(3) [OF n(1,2) _ _ _ c n1] m1(1) False by simp
    moreover obtain m' S' where r: "split_loop m1 front rear (first_addr xs) (int (length (ds @ [x]))) (int (length fs))
          (int (length (bs @ [(brk m, snd x)]))) (int half) = Some m'" "store m' S'" "printed m' = printed m1"
        "items S' = (items ?S)(front \<mapsto> map snd (fs @ take (half - length (ds @ [x])) xs @ fr),
          rear \<mapsto> map snd ((bs @ [(brk m, snd x)]) @ drop (half - length (ds @ [x])) xs @ br))"
      using Cons.IH [OF m1(2) Cons.prems(2) p q] by blast
    moreover have "half - length ds = 0" "half - length (ds @ [x]) = 0" using False by simp_all
    ultimately have "items S' = (items S)(front \<mapsto> map snd (fs @ take (half - length ds) (x # xs) @ fr),
        rear \<mapsto> map snd (bs @ drop (half - length ds) (x # xs) @ br))"
      using Cons.prems(2) unfolding items_upd by (simp add: fun_upd_twist)
    then show ?thesis using m1(3) r(1-3) step unfolding first_addr_simps by metis
  qed
qed

lemma frontBackSplit_spec:
  assumes "stores m T" "distinct [ll, front, rear]" "T ll = Some vs" "T front = Some fr" "T rear = Some br"
    and room: "int (length vs) + int (length fr) + 1 < 2 ^ 31" "int (length vs) + int (length br) + 1 < 2 ^ 31"
  shows "\<exists>m'. frontBackSplitLL m ll front rear = Some m' \<and>
    stores m' (T(front \<mapsto> take ((length vs + 1) div 2) vs @ fr, rear \<mapsto> drop ((length vs + 1) div 2) vs @ br))"
proof -
  from assms obtain S xs fs bs where S: "store m S" "S ll = Some xs" "S front = Some fs" "S rear = Some bs" "items S = T"
      and vs: "vs = map snd xs" "fr = map snd fs" "br = map snd bs"
    by (auto simp: stores_def items_def)
  let ?half = "(length vs + 1) div 2"
  have half: "(if int (length xs) smod 2 = 0 then int (length xs) sdiv 2 else int (length xs) sdiv 2 + 1) = int ?half"
  proof -
    have "int (length xs) smod 2 = int (length xs mod 2)" "int (length xs) sdiv 2 = int (length xs div 2)"
      by (cases "xs = []"; simp add: signed_modulo_int_def signed_divide_int_def zmod_int zdiv_int sgn_if)+
    moreover have "?half = (if length xs mod 2 = 0 then length xs div 2 else length xs div 2 + 1)"
      using vs(1) by (simp, presburger)
    ultimately show ?thesis by simp
  qed
  from split_loop_nodes [OF S(1) assms(2), of "[]" xs "[]" fs "[]" bs ?half] S room vs
  obtain m1 S1 where m1: "split_loop m front rear (first_addr xs) 0 0 0 (int ?half) = Some m1" "store m1 S1"
      "items S1 = T(front \<mapsto> take ?half vs @ fr, rear \<mapsto> drop ?half vs @ br)"
    by (auto simp: take_map drop_map)
  then have st: "stores m1 (T(front \<mapsto> take ?half vs @ fr, rear \<mapsto> drop ?half vs @ br))" unfolding stores_def by blast
  obtain m2 where m2: "printList m1 front = Some m2" "stores m2 (T(front \<mapsto> take ?half vs @ fr, rear \<mapsto> drop ?half vs @ br))"
    using printList_stores [OF st, of front] st assms(2) by simp
  obtain m3 where m3: "printList m2 rear = Some m3" "stores m3 (T(front \<mapsto> take ?half vs @ fr, rear \<mapsto> drop ?half vs @ br))"
    using printList_stores [OF m2(2), of rear] m2(2) by simp
  have "frontBackSplitLL m ll front rear = Some m3"
    using m1(1) m2(1) m3(1) store_head [OF S(1,2)] store_nonnull [OF S(1,2)] half
    by (cases "int (length xs) smod 2 = 0") (simp_all add: frontBackSplitLL_def)
  then show ?thesis using m3(2) by blast
qed

subsection \<open>The maximum to the front, and reversal\<close>

lemma max_loop_simps:
  "max_loop m NULL prev mx n q = Some (n, q)"
  "cur \<noteq> NULL \<Longrightarrow> nodes m cur = Some x \<Longrightarrow> item x > mx \<Longrightarrow>
     max_loop m cur prev mx n q = max_loop m (lnext x) cur (item x) cur prev"
  "cur \<noteq> NULL \<Longrightarrow> nodes m cur = Some x \<Longrightarrow> \<not> item x > mx \<Longrightarrow>
     max_loop m cur prev mx n q = max_loop m (lnext x) cur mx n q"
  by (simp_all add: max_loop.simps [of m])

text \<open>The loop finds the first of the greatest items, and the node before it.\<close>

lemma max_loop_chain:
  assumes "chain (nodes m) p (ds @ rest) NULL" "ds = as @ x # bs" "\<forall>a\<in>set as. snd a < snd x" "\<forall>b\<in>set bs. snd b \<le> snd x"
  shows "\<exists>as' x' bs'. ds @ rest = as' @ x' # bs' \<and> (\<forall>a\<in>set as'. snd a < snd x') \<and> (\<forall>b\<in>set bs'. snd b \<le> snd x') \<and>
    max_loop m (first_addr rest) (prev_of ds) (snd x) (fst x) (prev_of as) = Some (fst x', prev_of as')"
  using assms
proof (induction rest arbitrary: ds as x bs)
  case Nil
  then show ?case by (intro exI [of _ as] exI [of _ x] exI [of _ bs]) (simp add: max_loop_simps)
next
  case (Cons y rest)
  have y: "fst y \<noteq> NULL" "nodes m (fst y) = Some \<lparr>item = snd y, lnext = first_addr rest\<rparr>"
    using chain_node [OF Cons.prems(1)] by simp_all
  have ch: "chain (nodes m) p ((ds @ [y]) @ rest) NULL" using Cons.prems(1) by simp
  show ?case
  proof (cases "snd y > snd x")
    case True
    have "\<forall>a\<in>set ds. snd a < snd y" using Cons.prems(2-4) True by fastforce
    from Cons.IH [OF ch, of ds y "[]"] this y True show ?thesis by (simp add: max_loop_simps prev_of_def)
  next
    case False
    then have "\<forall>b\<in>set (bs @ [y]). snd b \<le> snd x" using Cons.prems(4) by auto
    from Cons.IH [OF ch, of as x "bs @ [y]"] this Cons.prems(2,3) y False show ?thesis by (simp add: max_loop_simps prev_of_def)
  qed
qed

lemma max_loop_head:
  assumes "chain (nodes m) p (x # xs) NULL"
  shows "max_loop m p NULL (snd x) p NULL = max_loop m (first_addr xs) (prev_of [x]) (snd x) (fst x) (prev_of [])"
  using chain_node [of "nodes m" p "[]" x xs] assms by (simp add: max_loop_simps prev_of_def)

lemma first_max:
  fixes v :: int
  assumes "vs = as @ v # bs" "\<forall>a\<in>set as. a < v" "\<forall>b\<in>set bs. b \<le> v"
  shows "Max (set vs) = v \<and> remove1 v vs = as @ bs"
proof
  show "Max (set vs) = v" using assms by (intro Max_eqI) (auto simp: less_imp_le)
  have "v \<notin> set as" using assms(2) by auto
  then show "remove1 v vs = as @ bs" using assms(1) by (simp add: remove1_append)
qed

lemma moveMax_spec:
  assumes "linked m p vs" "vs \<noteq> []"
  shows "\<exists>m' p'. moveMaxToFront m (Some p) = Some (1, Some p', m') \<and> linked m' p' (Max (set vs) # remove1 (Max (set vs)) vs)"
proof -
  from assms obtain y ys where ch: "chain (nodes m) p (y # ys) NULL" and dist: "distinct (map fst (y # ys))"
      and vs: "vs = map snd (y # ys)"
    unfolding linked_def by (metis list.exhaust list.map_disc_iff)
  have p: "p \<noteq> NULL" "p = fst y" "\<exists>n. nodes m p = Some \<lparr>item = snd y, lnext = n\<rparr>" using ch by auto
  from max_loop_chain [of m p "[y]" ys "[]" y "[]"] ch max_loop_head [OF ch]
  obtain as x bs where xs: "y # ys = as @ x # bs" and mx: "\<forall>a\<in>set as. snd a < snd x" "\<forall>b\<in>set bs. snd b \<le> snd x"
      and run: "max_loop m p NULL (snd y) p NULL = Some (fst x, prev_of as)" by auto
  have mv: "Max (set vs) = snd x \<and> remove1 (snd x) vs = map snd as @ map snd bs"
    using first_max [of vs "map snd as" "snd x" "map snd bs"] mx vs xs by auto
  show ?thesis
  proof (cases as rule: rev_cases)
    case Nil
    then have "moveMaxToFront m (Some p) = Some (1, Some p, m)" using p run by (auto simp: moveMaxToFront_def prev_of_def)
    moreover have "snd x # map snd as @ map snd bs = vs" using Nil xs vs by simp
    ultimately show ?thesis using assms(1) mv by auto
  next
    case (snoc js k)
    let ?h = "(nodes m)(fst k \<mapsto> \<lparr>item = snd k, lnext = first_addr bs\<rparr>, fst x \<mapsto> \<lparr>item = snd x, lnext = p\<rparr>)"
    note ch' = ch [unfolded xs]
    have k: "fst k \<noteq> NULL" "nodes m (fst k) = Some \<lparr>item = snd k, lnext = fst x\<rparr>"
      using chain_node [of "nodes m" p js k "x # bs"] ch' snoc by simp_all
    have x: "fst x \<noteq> NULL" "nodes m (fst x) = Some \<lparr>item = snd x, lnext = first_addr bs\<rparr>"
      using chain_node [OF ch'] by simp_all
    have d: "distinct (map fst (as @ x # bs))" using dist xs by simp
    have "moveMaxToFront m (Some p) = Some (1, Some (fst x), m\<lparr>nodes := ?h\<rparr>)"
      using p run k x d snoc by (auto simp: moveMaxToFront_def prev_of_def set_next_def)
    moreover have "chain ?h (fst x) (x # as @ bs) NULL"
    proof -
      have "chain (nodes m) p js (fst k)" and "chain (nodes m) (first_addr bs) bs NULL"
        using ch' snoc x chain_first by (auto simp: lchain_append)
      then have "chain ?h p js (fst k)" "chain ?h (first_addr bs) bs NULL" using d snoc by auto
      then have "chain ?h p (as @ bs) NULL" unfolding snoc lchain_append [of _ _ "js @ [k]"] using k d snoc
        by (intro exI [of _ "first_addr bs"]) (auto simp: chain_last)
      then show ?thesis using x by simp
    qed
    then have "linked (m\<lparr>nodes := ?h\<rparr>) (fst x) (snd x # map snd as @ map snd bs)"
      using d unfolding linked_def by (intro exI [of _ "x # as @ bs"]) auto
    ultimately show ?thesis using mv by auto
  qed
qed

lemma recursiveListNode_chain:
  assumes "chain (nodes m) p xs NULL" "chain (nodes m) q ys NULL" "distinct (map fst (xs @ ys))"
  shows "\<exists>r h. recursiveListNode m p q = Some (r, m\<lparr>nodes := h\<rparr>) \<and> chain h r (rev xs @ ys) NULL \<and> (\<forall>a. a \<notin> addrs xs \<longrightarrow> h a = nodes m a)"
  using assms
proof (induction xs arbitrary: m p q ys)
  case Nil
  then show ?case by (intro exI [of _ q] exI [of _ "nodes m"]) (simp add: recursiveListNode.simps [of m])
next
  case (Cons x xs)
  then obtain n where n: "p = fst x" "p \<noteq> NULL" "nodes m p = Some \<lparr>item = snd x, lnext = n\<rparr>" "chain (nodes m) n xs NULL" by auto
  let ?m = "m\<lparr>nodes := (nodes m)(p \<mapsto> \<lparr>item = snd x, lnext = q\<rparr>)\<rparr>"
  have "recursiveListNode m p q = recursiveListNode ?m n p"
    using n by (simp add: recursiveListNode.simps [of m] set_next_def Let_def)
  moreover have a: "chain (nodes ?m) n xs NULL" "chain (nodes ?m) p (x # ys) NULL" "distinct (map fst (xs @ x # ys))"
    using Cons.prems n by auto
  from Cons.IH [OF a] obtain r h where "recursiveListNode ?m n p = Some (r, ?m\<lparr>nodes := h\<rparr>)" "chain h r (rev xs @ x # ys) NULL"
      "\<forall>a. a \<notin> addrs xs \<longrightarrow> h a = nodes ?m a" by blast
  ultimately show ?case using n(1) by (intro exI [of _ r] exI [of _ h]) auto
qed

lemma recursiveReverse_spec:
  assumes "linked m p vs"
  shows "\<exists>m' p'. recursiveReverse m (Some p) = Some (Some p', m') \<and> linked m' p' (rev vs)"
proof -
  from assms obtain xs where xs: "chain (nodes m) p xs NULL" "distinct (map fst xs)" "vs = map snd xs" unfolding linked_def by auto
  from recursiveListNode_chain [OF xs(1), of NULL "[]"] xs(2) obtain r h where
    r: "recursiveListNode m p NULL = Some (r, m\<lparr>nodes := h\<rparr>)" "chain h r (rev xs) NULL" by auto
  then have "linked (m\<lparr>nodes := h\<rparr>) r (rev vs)"
    using xs(2,3) unfolding linked_def by (intro exI [of _ "rev xs"]) (simp flip: rev_map)
  moreover have "vs = []" if "p = NULL" using xs(1,3) that by simp
  ultimately show ?thesis using r assms by (cases "p = NULL") (auto simp: recursiveReverse_def)
qed

end
