(* ===== verification/StackQueue.thy ===== *)
theory StackQueue
  imports LinkedListInv
begin

text \<open>
  \<open>Data-Structures/tests/stack.c\<close> and \<open>queue.c\<close>: a stack and a queue are structures whose only member is a
  \<open>LinkedList\<close>, so their address is that of the list. The top of a stack and the front of a queue are the head of the list.
  The locale \<open>container\<close> is what the exercises use of either, \<open>copying\<close> and \<open>transfer\<close> are the two loops they share.
\<close>

text \<open>A local variable of type \<open>Stack\<close>, initialised to the empty list, and the end of its life.\<close>

definition new_list :: "lmem \<Rightarrow> addr \<times> lmem" where
  "new_list m = (brk m, m\<lparr>lists := (lists m)(brk m \<mapsto> \<lparr>lsize = 0, head = NULL\<rparr>), brk := brk m + 1\<rparr>)"

definition drop_list :: "lmem \<Rightarrow> addr \<Rightarrow> lmem" where
  "drop_list m ll = m\<lparr>lists := (lists m)(ll := None)\<rparr>"

subsection \<open>Stack operations\<close>

definition MIN_INT :: int where
  "MIN_INT = -1000"

definition push :: "lmem \<Rightarrow> addr \<Rightarrow> int \<Rightarrow> lmem option" where
  "push m s v = do { (_, m) \<leftarrow> insertNode m s 0 v; Some m }"

definition pop :: "lmem \<Rightarrow> addr \<Rightarrow> (int \<times> lmem) option" where
  "pop m s = do {
     L \<leftarrow> lists m s;
     if head L \<noteq> NULL then do {
       x \<leftarrow> nodes m (head L);
       (_, m) \<leftarrow> removeNode m s 0;
       Some (item x, m)
     } else Some (MIN_INT, m)
   }"

definition stack_peek :: "lmem \<Rightarrow> addr \<Rightarrow> int option" where
  "stack_peek m s = do { L \<leftarrow> lists m s; x \<leftarrow> nodes m (head L); Some (item x) }"

definition isEmptyStack :: "lmem \<Rightarrow> addr \<Rightarrow> int option" where
  "isEmptyStack m s = do { L \<leftarrow> lists m s; Some (if lsize L = 0 then 1 else 0) }"

partial_function (option) empty_stack_loop :: "lmem \<Rightarrow> addr \<Rightarrow> lmem option" where
  "empty_stack_loop m s = do {
     L \<leftarrow> lists m s;
     if head L \<noteq> NULL then do { (_, m) \<leftarrow> pop m s; empty_stack_loop m s } else Some m
   }"

definition removeAllItemsFromStack :: "lmem \<Rightarrow> addr \<Rightarrow> lmem option" where
  "removeAllItemsFromStack m s = (if s = NULL then Some m else empty_stack_loop m s)"

subsection \<open>Queue operations\<close>

definition isEmptyQueue :: "lmem \<Rightarrow> addr \<Rightarrow> int option" where
  "isEmptyQueue m q = do { L \<leftarrow> lists m q; if lsize L = 0 then Some 1 else Some 0 }"

definition enqueue :: "lmem \<Rightarrow> addr \<Rightarrow> int \<Rightarrow> lmem option" where
  "enqueue m q v = do { L \<leftarrow> lists m q; (_, m) \<leftarrow> insertNode m q (lsize L) v; Some m }"

definition dequeue :: "lmem \<Rightarrow> addr \<Rightarrow> (int \<times> lmem) option" where
  "dequeue m q = do {
     e \<leftarrow> isEmptyQueue m q;
     if e = 0 then do {
       L \<leftarrow> lists m q;
       x \<leftarrow> nodes m (head L);
       (_, m) \<leftarrow> removeNode m q 0;
       Some (item x, m)
     } else Some (-1, m)
   }"

primrec empty_queue_loop :: "lmem \<Rightarrow> addr \<Rightarrow> nat \<Rightarrow> lmem option" where
  "empty_queue_loop m q 0 = Some m"
| "empty_queue_loop m q (Suc n) = do { (_, m) \<leftarrow> dequeue m q; empty_queue_loop m q n }"

definition removeAllItemsFromQueue :: "lmem \<Rightarrow> addr \<Rightarrow> lmem option" where
  "removeAllItemsFromQueue m q =
     (if q = NULL then Some m
      else do { L \<leftarrow> lists m q; empty_queue_loop m q (nat (lsize L)) })"

subsection \<open>The exercises on stacks\<close>

partial_function (option) push_nodes :: "lmem \<Rightarrow> addr \<Rightarrow> addr \<Rightarrow> lmem option" where
  "push_nodes m cur s =
     (if cur \<noteq> NULL then do {
        x \<leftarrow> nodes m cur;
        m \<leftarrow> push m s (item x);
        x \<leftarrow> nodes m cur;
        push_nodes m (lnext x) s
      } else Some m)"

definition createStackFromLinkedList :: "lmem \<Rightarrow> addr \<Rightarrow> addr \<Rightarrow> lmem option" where
  "createStackFromLinkedList m ll s =
     (if s = NULL then Some m
      else do {
        m \<leftarrow> removeAllItemsFromStack m s;
        if ll = NULL then Some m
        else do {
          L \<leftarrow> lists m ll;
          if head L = NULL then Some m else push_nodes m (head L) s
        }
      })"

partial_function (option) odd_loop :: "lmem \<Rightarrow> addr \<Rightarrow> addr \<Rightarrow> lmem option" where
  "odd_loop m s tmp = do {
     e \<leftarrow> isEmptyStack m s;
     if e = 0 then do {
       (x, m) \<leftarrow> pop m s;
       m \<leftarrow> (if x smod 2 \<noteq> 0 then push m tmp x else Some m);
       odd_loop m s tmp
     } else Some m
   }"

partial_function (option) stack_to_stack :: "lmem \<Rightarrow> addr \<Rightarrow> addr \<Rightarrow> lmem option" where
  "stack_to_stack m tmp s = do {
     e \<leftarrow> isEmptyStack m tmp;
     if e = 0 then do {
       (x, m) \<leftarrow> pop m tmp;
       m \<leftarrow> push m s x;
       stack_to_stack m tmp s
     } else Some m
   }"

definition removeEvenValues :: "lmem \<Rightarrow> addr \<Rightarrow> lmem option" where
  "removeEvenValues m s =
     (if s = NULL then Some m
      else do {
        let (tmp, m) = new_list m;
        m \<leftarrow> odd_loop m s tmp;
        m \<leftarrow> stack_to_stack m tmp s;
        Some (drop_list m tmp)
      })"

partial_function (option) pair_loop :: "lmem \<Rightarrow> addr \<Rightarrow> addr \<Rightarrow> (int \<times> lmem) option" where
  "pair_loop m s tmp = do {
     e \<leftarrow> isEmptyStack m s;
     if e = 0 then do {
       (x, m) \<leftarrow> pop m s;
       (y, m) \<leftarrow> pop m s;
       d \<leftarrow> checked (x - y);
       d \<leftarrow> checked \<bar>d\<bar>;
       if d \<noteq> 1 then Some (0, m)
       else do {
         m \<leftarrow> push m tmp x;
         m \<leftarrow> push m tmp y;
         pair_loop m s tmp
       }
     } else Some (1, m)
   }"

definition isStackPairwiseConsecutive :: "lmem \<Rightarrow> addr \<Rightarrow> (int \<times> lmem) option" where
  "isStackPairwiseConsecutive m s =
     (if s = NULL then Some (0, m)
      else do {
        L \<leftarrow> lists m s;
        if lsize L smod 2 = 1 then Some (0, m)
        else do {
          let (tmp, m) = new_list m;
          (r, m) \<leftarrow> pair_loop m s tmp;
          if r = 0 then Some (0, drop_list m tmp)
          else do {
            m \<leftarrow> stack_to_stack m tmp s;
            m \<leftarrow> printList m s;
            Some (1, drop_list m tmp)
          }
        }
      })"

partial_function (option) until_loop :: "lmem \<Rightarrow> addr \<Rightarrow> int \<Rightarrow> lmem option" where
  "until_loop m s v = do {
     e \<leftarrow> isEmptyStack m s;
     if e = 0 then do {
       (x, m) \<leftarrow> pop m s;
       if x = v then push m s x else until_loop m s v
     } else Some m
   }"

definition removeUntilStack :: "lmem \<Rightarrow> addr \<Rightarrow> int \<Rightarrow> lmem option" where
  "removeUntilStack m s v = (if s = NULL then Some m else until_loop m s v)"

subsection \<open>Balanced brackets\<close>

text \<open>A character is its code, and a string is the codes up to and with the terminating zero.\<close>

definition getClosingBracket :: "int \<Rightarrow> int" where
  "getClosingBracket c =
     (if c = of_char CHR ''('' then of_char CHR '')''
      else if c = of_char CHR ''{'' then of_char CHR ''}''
      else if c = of_char CHR ''['' then of_char CHR '']''
      else 0)"

definition char_at :: "int list \<Rightarrow> int \<Rightarrow> int option" where
  "char_at e i = (if 0 \<le> i \<and> i < int (length e) then Some (e ! nat i) else None)"

partial_function (option) balanced_loop :: "lmem \<Rightarrow> addr \<Rightarrow> int list \<Rightarrow> int \<Rightarrow> (int \<times> lmem) option" where
  "balanced_loop m s e i = do {
     c \<leftarrow> char_at e i;
     if c \<noteq> 0 then
       if c = of_char CHR ''('' \<or> c = of_char CHR ''{'' \<or> c = of_char CHR ''['' then do {
         m \<leftarrow> push m s c;
         i \<leftarrow> checked (i + 1);
         balanced_loop m s e i
       } else do {
         b \<leftarrow> isEmptyStack m s;
         if b \<noteq> 0 then Some (0, m)
         else do {
           t \<leftarrow> stack_peek m s;
           if getClosingBracket t = c then do {
             (_, m) \<leftarrow> pop m s;
             i \<leftarrow> checked (i + 1);
             balanced_loop m s e i
           } else Some (0, m)
         }
       }
     else do {
       b \<leftarrow> isEmptyStack m s;
       if b \<noteq> 0 then Some (1, m) else Some (0, m)
     }
   }"

definition balanced :: "lmem \<Rightarrow> int list \<Rightarrow> (int \<times> lmem) option" where
  "balanced m e = do {
     let (s, m) = new_list m;
     (r, m) \<leftarrow> balanced_loop m s e 0;
     Some (r, drop_list m s)
   }"

subsection \<open>The exercises on queues\<close>

partial_function (option) queue_to_stack :: "lmem \<Rightarrow> addr \<Rightarrow> addr \<Rightarrow> lmem option" where
  "queue_to_stack m q s = do {
     e \<leftarrow> isEmptyQueue m q;
     if e = 0 then do {
       (x, m) \<leftarrow> dequeue m q;
       m \<leftarrow> push m s x;
       queue_to_stack m q s
     } else Some m
   }"

partial_function (option) stack_to_queue :: "lmem \<Rightarrow> addr \<Rightarrow> addr \<Rightarrow> lmem option" where
  "stack_to_queue m s q = do {
     e \<leftarrow> isEmptyStack m s;
     if e = 0 then do {
       (x, m) \<leftarrow> pop m s;
       m \<leftarrow> enqueue m q x;
       stack_to_queue m s q
     } else Some m
   }"

definition reverse :: "lmem \<Rightarrow> addr \<Rightarrow> lmem option" where
  "reverse m q = do {
     let (s, m) = new_list m;
     m \<leftarrow> queue_to_stack m q s;
     m \<leftarrow> stack_to_queue m s q;
     m \<leftarrow> printList m q;
     Some (drop_list m s)
   }"

partial_function (option) enqueue_nodes :: "lmem \<Rightarrow> addr \<Rightarrow> addr \<Rightarrow> lmem option" where
  "enqueue_nodes m cur q =
     (if cur \<noteq> NULL then do {
        x \<leftarrow> nodes m cur;
        m \<leftarrow> enqueue m q (item x);
        x \<leftarrow> nodes m cur;
        enqueue_nodes m (lnext x) q
      } else Some m)"

definition createQueueFromLinkedList :: "lmem \<Rightarrow> addr \<Rightarrow> addr \<Rightarrow> lmem option" where
  "createQueueFromLinkedList m ll q =
     (if ll = NULL then Some m
      else do {
        L \<leftarrow> lists m ll;
        let cur = head L;
        e \<leftarrow> isEmptyQueue m q;
        m \<leftarrow> (if e = 0 then removeAllItemsFromQueue m q else Some m);
        L \<leftarrow> lists m ll;
        if head L = NULL then Some m else enqueue_nodes m cur q
      })"

primrec even_loop :: "lmem \<Rightarrow> addr \<Rightarrow> nat \<Rightarrow> lmem option" where
  "even_loop m q 0 = Some m"
| "even_loop m q (Suc n) = do {
     (x, m) \<leftarrow> dequeue m q;
     m \<leftarrow> (if x smod 2 = 0 then enqueue m q x else Some m);
     even_loop m q n
   }"

definition removeOddValues :: "lmem \<Rightarrow> addr \<Rightarrow> lmem option" where
  "removeOddValues m q = do {
     e \<leftarrow> isEmptyQueue m q;
     L \<leftarrow> lists m q;
     if e \<noteq> 0 \<or> head L = NULL then Some m
     else even_loop m q (nat (lsize L))
   }"

partial_function (option) recursiveReverseQueue :: "lmem \<Rightarrow> addr \<Rightarrow> lmem option" where
  "recursiveReverseQueue m q = do {
     L \<leftarrow> lists m q;
     if head L = NULL then Some m
     else do {
       (temp, m) \<leftarrow> dequeue m q;
       m \<leftarrow> recursiveReverseQueue m q;
       enqueue m q temp
     }
   }"

declare empty_stack_loop.simps [code] push_nodes.simps [code] odd_loop.simps [code] stack_to_stack.simps [code] pair_loop.simps [code]
  until_loop.simps [code] balanced_loop.simps [code] queue_to_stack.simps [code] stack_to_queue.simps [code] enqueue_nodes.simps [code]
  recursiveReverseQueue.simps [code]

end
