(* ===== verification/StackQueueProps.thy ===== *)
theory StackQueueProps
  imports StackQueue
begin

text \<open>
  The stacks and queues of \<open>Data-Structures\<close> against lists of integers: the interface \<open>container\<close> and its two
  interpretations, the shared loops, and the exercises.
\<close>

subsection \<open>Local lists\<close>

lemma new_list_store:
  assumes "store m S"
  shows "S (brk m) = None" "store (snd (new_list m)) (S(brk m \<mapsto> []))"
proof -
  show "S (brk m) = None" using store_list_not_fresh [OF assms] by fastforce
  show "store (snd (new_list m)) (S(brk m \<mapsto> []))"
    by (rule store_change [OF assms, of _ "[]"])
      (use store_fresh [OF assms] store_brk [OF assms] in \<open>auto simp: new_list_def is_list_def fresh_def\<close>)
qed

lemma drop_list_store: "store m S \<Longrightarrow> store (drop_list m l) (S(l := None))"
  unfolding store_def is_list_def fresh_def drop_list_def by (auto split: if_splits)

lemma drop_list_printed [simp]: "printed (drop_list m l) = printed m"
  by (simp add: drop_list_def)

lemma new_list_simps [simp]: "fst (new_list m) = brk m" "printed (snd (new_list m)) = printed m" "brk (snd (new_list m)) = brk m + 1"
  by (simp_all add: new_list_def)

subsection \<open>The interface\<close>

text \<open>\<open>add vs v\<close> is the contents after \<open>v\<close> is put into \<open>vs\<close>; the element that comes out is the first.\<close>

locale container =
  fixes put :: "lmem \<Rightarrow> addr \<Rightarrow> int \<Rightarrow> lmem option"
    and get :: "lmem \<Rightarrow> addr \<Rightarrow> (int \<times> lmem) option"
    and is_empty :: "lmem \<Rightarrow> addr \<Rightarrow> int option"
    and add :: "int list \<Rightarrow> int \<Rightarrow> int list"
  assumes put_ok: "store m S \<Longrightarrow> S a = Some xs \<Longrightarrow> int (length xs) + 1 < 2 ^ 31 \<Longrightarrow>
      \<exists>m' ys. put m a v = Some m' \<and> store m' (S(a \<mapsto> ys)) \<and> map snd ys = add (map snd xs) v \<and> printed m' = printed m"
    and get_ok: "store m S \<Longrightarrow> S a = Some (x # xs) \<Longrightarrow>
      \<exists>m'. get m a = Some (snd x, m') \<and> store m' (S(a \<mapsto> xs)) \<and> printed m' = printed m"
    and empty_ok: "store m S \<Longrightarrow> S a = Some xs \<Longrightarrow> is_empty m a = Some (if xs = [] then 1 else 0)"
    and add_length: "length (add vs v) = Suc (length vs)"
begin

lemma foldl_add_length: "length (foldl add vs us) = length vs + length us"
  by (induction us arbitrary: vs) (auto simp: add_length)

lemma put_stores:
  assumes "stores m T" "T a = Some vs" "int (length vs) + 1 < 2 ^ 31"
  shows "\<exists>m'. put m a v = Some m' \<and> stores m' (T(a \<mapsto> add vs v)) \<and> printed m' = printed m"
proof -
  from assms obtain S xs where S: "store m S" "S a = Some xs" "items S = T" and vs: "vs = map snd xs"
    by (auto simp: stores_def items_def)
  from put_ok [OF S(1,2), of v] assms(3) vs obtain m' ys where
    "put m a v = Some m'" "store m' (S(a \<mapsto> ys))" "map snd ys = add vs v" "printed m' = printed m" by auto
  moreover from this have "items (S(a \<mapsto> ys)) = T(a \<mapsto> add vs v)" using S(3) by simp
  ultimately show ?thesis unfolding stores_def by blast
qed

lemma get_stores:
  assumes "stores m T" "T a = Some (v # vs)"
  shows "\<exists>m'. get m a = Some (v, m') \<and> stores m' (T(a \<mapsto> vs)) \<and> printed m' = printed m"
proof -
  from assms obtain S x xs where S: "store m S" "S a = Some (x # xs)" "items S = T" and vs: "v = snd x" "vs = map snd xs"
    by (auto simp: stores_def items_def)
  from get_ok [OF S(1,2)] obtain m' where "get m a = Some (v, m')" "store m' (S(a \<mapsto> xs))" "printed m' = printed m"
    using vs by blast
  moreover have "items (S(a \<mapsto> xs)) = T(a \<mapsto> vs)" using S(3) vs by simp
  ultimately show ?thesis unfolding stores_def by blast
qed

lemma empty_stores: "stores m T \<Longrightarrow> T a = Some vs \<Longrightarrow> is_empty m a = Some (if vs = [] then 1 else 0)"
  unfolding stores_def
proof (elim exE conjE)
  fix S
  assume S: "store m S" "items S = T" and "T a = Some vs"
  then obtain xs where xs: "S a = Some xs" "vs = map snd xs" by (metis items_SomeE)
  show ?thesis unfolding empty_ok [OF S(1) xs(1)] xs(2) by simp
qed

end

text \<open>A loop that puts the items of a linked list, node by node.\<close>

locale copying = container +
  fixes copy :: "lmem \<Rightarrow> addr \<Rightarrow> addr \<Rightarrow> lmem option"
  assumes copy_end: "copy m NULL a = Some m"
    and copy_step: "p \<noteq> NULL \<Longrightarrow> nodes m p = Some x \<Longrightarrow> put m a (item x) = Some m' \<Longrightarrow> nodes m' p = Some x' \<Longrightarrow>
      copy m p a = copy m' (lnext x') a"
begin

lemma copy_nodes:
  assumes "store m S" "S ll = Some (ds @ xs)" "S a = Some ys" "ll \<noteq> a" "int (length ys) + int (length xs) + 1 < 2 ^ 31"
  shows "\<exists>m' zs. copy m (first_addr xs) a = Some m' \<and> store m' (S(a \<mapsto> zs)) \<and>
    map snd zs = foldl add (map snd ys) (map snd xs) \<and> printed m' = printed m"
  using assms
proof (induction xs arbitrary: m S ds ys)
  case Nil
  then show ?case by (intro exI [of _ m] exI [of _ ys]) (simp add: copy_end fun_upd_idem)
next
  case (Cons x xs)
  note n = store_node [OF Cons.prems(1,2)]
  obtain m1 zs where m1: "put m a (snd x) = Some m1" "store m1 (S(a \<mapsto> zs))" "map snd zs = add (map snd ys) (snd x)"
      "printed m1 = printed m"
    using put_ok [OF Cons.prems(1,3), of "snd x"] Cons.prems(5) by auto
  have len: "length zs = Suc (length ys)" using m1(3) add_length by (metis length_map)
  have p: "(S(a \<mapsto> zs)) ll = Some ((ds @ [x]) @ xs)" "(S(a \<mapsto> zs)) a = Some zs" "int (length zs) + int (length xs) + 1 < 2 ^ 31"
    using Cons.prems(2,4,5) len by simp_all
  have "nodes m1 (fst x) = Some \<lparr>item = snd x, lnext = first_addr xs\<rparr>"
    using store_node [OF m1(2), of ll ds x xs] p(1) by simp
  then have step: "copy m (first_addr (x # xs)) a = copy m1 (first_addr xs) a"
    using copy_step [OF n(1) n(2), of a m1] m1(1) by simp
  obtain m' ws where m': "copy m1 (first_addr xs) a = Some m'" "store m' ((S(a \<mapsto> zs))(a \<mapsto> ws))"
      "map snd ws = foldl add (map snd zs) (map snd xs)" "printed m' = printed m1"
    using Cons.IH [OF m1(2) p(1,2) Cons.prems(4) p(3)] by blast
  have "store m' (S(a \<mapsto> ws))" using m'(2) by simp
  moreover have "map snd ws = foldl add (map snd ys) (map snd (x # xs))" using m'(3) m1(3) by simp
  ultimately show ?case using step m'(1,4) m1(4) by metis
qed

end

text \<open>A loop that empties one container into another.\<close>

locale transfer =
  source: container put1 get1 is_empty1 add1 + target: container put2 get2 is_empty2 add2
  for put1 get1 is_empty1 add1 put2 get2 is_empty2 add2 +
  fixes move :: "lmem \<Rightarrow> addr \<Rightarrow> addr \<Rightarrow> lmem option"
  assumes move_end: "is_empty1 m a = Some e \<Longrightarrow> e \<noteq> 0 \<Longrightarrow> move m a b = Some m"
    and move_step: "is_empty1 m a = Some 0 \<Longrightarrow> get1 m a = Some (v, m1) \<Longrightarrow> put2 m1 b v = Some m2 \<Longrightarrow> move m a b = move m2 a b"
begin

lemma move_stores:
  assumes "stores m T" "T a = Some us" "T b = Some vs" "a \<noteq> b" "int (length us) + int (length vs) + 1 < 2 ^ 31"
  shows "\<exists>m'. move m a b = Some m' \<and> stores m' (T(a \<mapsto> [], b \<mapsto> foldl add2 vs us)) \<and> printed m' = printed m"
  using assms
proof (induction us arbitrary: m T vs)
  case Nil
  then have "T(a \<mapsto> [], b \<mapsto> vs) = T" by (auto simp: fun_eq_iff)
  moreover have "move m a b = Some m" using move_end source.empty_stores [OF Nil.prems(1,2)] by simp
  ultimately show ?case using Nil.prems(1) by (metis foldl_Nil)
next
  case (Cons u us)
  obtain m1 where m1: "get1 m a = Some (u, m1)" "stores m1 (T(a \<mapsto> us))" "printed m1 = printed m"
    using source.get_stores [OF Cons.prems(1,2)] by blast
  have b: "(T(a \<mapsto> us)) b = Some vs" using Cons.prems(3,4) by simp
  have room: "int (length vs) + 1 < 2 ^ 31" using Cons.prems(5) by simp
  obtain m2 where m2: "put2 m1 b u = Some m2" "stores m2 (T(a \<mapsto> us, b \<mapsto> add2 vs u))" "printed m2 = printed m1"
    using target.put_stores [OF m1(2) b room, of u] by blast
  have step: "move m a b = move m2 a b"
    using move_step [OF _ m1(1) m2(1)] source.empty_stores [OF Cons.prems(1,2)] by simp
  have p: "(T(a \<mapsto> us, b \<mapsto> add2 vs u)) a = Some us" "(T(a \<mapsto> us, b \<mapsto> add2 vs u)) b = Some (add2 vs u)"
      "int (length us) + int (length (add2 vs u)) + 1 < 2 ^ 31"
    using Cons.prems(4,5) by (simp_all add: target.add_length)
  obtain m' where m': "move m2 a b = Some m'" "stores m' ((T(a \<mapsto> us, b \<mapsto> add2 vs u))(a \<mapsto> [], b \<mapsto> foldl add2 (add2 vs u) us))"
      "printed m' = printed m2"
    using Cons.IH [OF m2(2) p(1,2) Cons.prems(4) p(3)] by blast
  have "(T(a \<mapsto> us, b \<mapsto> add2 vs u))(a \<mapsto> [], b \<mapsto> foldl add2 (add2 vs u) us) = T(a \<mapsto> [], b \<mapsto> foldl add2 vs (u # us))"
    using Cons.prems(4) by (simp add: fun_upd_twist)
  then show ?case using step m'(1,3) m'(2) m1(3) m2(3) by metis
qed

end

subsection \<open>The two containers of the code\<close>

interpretation stack: container push pop isEmptyStack "\<lambda>vs v. v # vs"
proof unfold_locales
  fix m S a xs v
  assume S: "store m S" "S a = Some xs" and "int (length xs) + 1 < 2 ^ 31"
  then obtain m' where "insertNode m a 0 v = Some (0, m')" "store m' (S(a \<mapsto> (brk m, v) # xs))" "printed m' = printed m"
    using insertNode_nodes [OF S, of 0 v] by auto
  then show "\<exists>m' ys. push m a v = Some m' \<and> store m' (S(a \<mapsto> ys)) \<and> map snd ys = v # map snd xs \<and> printed m' = printed m"
    by (intro exI [of _ m'] exI [of _ "(brk m, v) # xs"]) (simp add: push_def)
next
  fix m S a and x :: "addr \<times> int" and xs
  assume S: "store m S" "S a = Some (x # xs)"
  obtain m' where m': "removeNode m a 0 = Some (0, m')" "store m' (S(a \<mapsto> xs))" "printed m' = printed m"
    using removeNode_first [OF S] by blast
  have "pop m a = Some (snd x, m')"
    using m'(1) store_head [OF S] store_node [OF S(1), of a "[]" x xs] S(2) by (simp add: pop_def)
  then show "\<exists>m'. pop m a = Some (snd x, m') \<and> store m' (S(a \<mapsto> xs)) \<and> printed m' = printed m" using m'(2,3) by blast
next
  fix m S a and xs :: "(addr \<times> int) list"
  assume S: "store m S" "S a = Some xs"
  show "isEmptyStack m a = Some (if xs = [] then 1 else 0)" using store_head [OF S] by (simp add: isEmptyStack_def)
qed simp

interpretation queue: container enqueue dequeue isEmptyQueue "\<lambda>vs v. vs @ [v]"
proof unfold_locales
  fix m S a and xs :: "(addr \<times> int) list" and v
  assume S: "store m S" "S a = Some xs" and "int (length xs) + 1 < 2 ^ 31"
  then obtain m' where "insertNode m a (int (length xs)) v = Some (0, m')" "store m' (S(a \<mapsto> xs @ [(brk m, v)]))" "printed m' = printed m"
    using insertNode_nodes [OF S, of "length xs" v] by auto
  then show "\<exists>m' ys. enqueue m a v = Some m' \<and> store m' (S(a \<mapsto> ys)) \<and> map snd ys = map snd xs @ [v] \<and> printed m' = printed m"
    using store_head [OF S] by (intro exI [of _ m'] exI [of _ "xs @ [(brk m, v)]"]) (simp add: enqueue_def)
next
  fix m S a and x :: "addr \<times> int" and xs
  assume S: "store m S" "S a = Some (x # xs)"
  obtain m' where m': "removeNode m a 0 = Some (0, m')" "store m' (S(a \<mapsto> xs))" "printed m' = printed m"
    using removeNode_first [OF S] by blast
  have "dequeue m a = Some (snd x, m')"
    using m'(1) store_head [OF S] store_node [OF S(1), of a "[]" x xs] S(2) by (simp add: dequeue_def isEmptyQueue_def)
  then show "\<exists>m'. dequeue m a = Some (snd x, m') \<and> store m' (S(a \<mapsto> xs)) \<and> printed m' = printed m" using m'(2,3) by blast
next
  fix m S a and xs :: "(addr \<times> int) list"
  assume S: "store m S" "S a = Some xs"
  show "isEmptyQueue m a = Some (if xs = [] then 1 else 0)" using store_head [OF S] by (simp add: isEmptyQueue_def)
qed simp

interpretation push_items: copying push pop isEmptyStack "\<lambda>vs v. v # vs" "\<lambda>m p s. push_nodes m p s"
  by unfold_locales (simp_all add: push_nodes.simps [of _ NULL] push_nodes.simps)

interpretation enqueue_items: copying enqueue dequeue isEmptyQueue "\<lambda>vs v. vs @ [v]" "\<lambda>m p q. enqueue_nodes m p q"
  by unfold_locales (simp_all add: enqueue_nodes.simps [of _ NULL] enqueue_nodes.simps)

interpretation restack: transfer push pop isEmptyStack "\<lambda>vs v. v # vs" push pop isEmptyStack "\<lambda>vs v. v # vs" stack_to_stack
  by unfold_locales (subst stack_to_stack.simps, simp)+

interpretation unqueue: transfer enqueue dequeue isEmptyQueue "\<lambda>vs v. vs @ [v]" push pop isEmptyStack "\<lambda>vs v. v # vs" queue_to_stack
  by unfold_locales (subst queue_to_stack.simps, simp)+

interpretation requeue: transfer push pop isEmptyStack "\<lambda>vs v. v # vs" enqueue dequeue isEmptyQueue "\<lambda>vs v. vs @ [v]" stack_to_queue
  by unfold_locales (subst stack_to_queue.simps, simp)+

subsection \<open>Exercises on stacks\<close>

lemma foldl_push: "foldl (\<lambda>vs v. v # vs) vs us = rev us @ vs"
  by (induction us arbitrary: vs) auto

lemma foldl_enqueue: "foldl (\<lambda>vs v. vs @ [v]) vs us = vs @ us"
  by (induction us arbitrary: vs) auto

lemma new_list_stores:
  assumes "stores m T"
  shows "T (brk m) = None" "stores (snd (new_list m)) (T(brk m \<mapsto> []))"
proof -
  from assms obtain S where S: "store m S" "items S = T" by (auto simp: stores_def)
  show "T (brk m) = None" using new_list_store(1) [OF S(1)] S(2) by (auto simp: items_def)
  show "stores (snd (new_list m)) (T(brk m \<mapsto> []))"
    using new_list_store(2) [OF S(1)] S(2) unfolding stores_def by (intro exI [of _ "S(brk m \<mapsto> [])"]) simp
qed

lemma drop_list_stores: "stores m T \<Longrightarrow> stores (drop_list m l) (T(l := None))"
  unfolding stores_def using drop_list_store items_drop by metis

lemma local_gone: "T l = None \<Longrightarrow> s \<noteq> l \<Longrightarrow> (T(l \<mapsto> us, s \<mapsto> vs))(l := None) = T(s \<mapsto> vs)"
  by (auto simp: fun_eq_iff)

lemma stores_nonnull: "stores m T \<Longrightarrow> T ll = Some vs \<Longrightarrow> ll \<noteq> NULL"
  by (auto simp: stores_def items_def dest: store_nonnull)

lemma stores_room: "stores m T \<Longrightarrow> T ll = Some vs \<Longrightarrow> int (length vs) < 2 ^ 31"
  using store_room by (fastforce simp: stores_def items_def)

lemma empty_stack_nodes:
  "store m S \<Longrightarrow> S s = Some xs \<Longrightarrow> \<exists>m'. removeAllItemsFromStack m s = Some m' \<and> store m' (S(s \<mapsto> [])) \<and> printed m' = printed m"
proof (induction xs arbitrary: m S)
  case Nil
  then show ?case using store_head [OF Nil] by (simp add: removeAllItemsFromStack_def empty_stack_loop.simps [of m] fun_upd_idem)
next
  case (Cons x xs)
  obtain m1 where m1: "pop m s = Some (snd x, m1)" "store m1 (S(s \<mapsto> xs))" "printed m1 = printed m"
    using stack.get_ok [OF Cons.prems] by blast
  have s: "(S(s \<mapsto> xs)) s = Some xs" by simp
  have step: "removeAllItemsFromStack m s = removeAllItemsFromStack m1 s"
    using m1(1) store_head [OF Cons.prems] store_node(1) [OF Cons.prems(1), of s "[]" x xs] Cons.prems(2) store_nonnull [OF Cons.prems]
    by (simp add: removeAllItemsFromStack_def empty_stack_loop.simps [of m])
  show ?case using Cons.IH [OF m1(2) s] m1(3) unfolding step fun_upd_upd by metis
qed

lemma createStack_spec:
  assumes "stores m T" "T ll = Some us" "T s = Some vs" "ll \<noteq> s" "int (length us) + 1 < 2 ^ 31"
  shows "\<exists>m'. createStackFromLinkedList m ll s = Some m' \<and> stores m' (T(s \<mapsto> rev us)) \<and> printed m' = printed m"
proof -
  from assms obtain S xs ys where S: "store m S" "S ll = Some xs" "S s = Some ys" "items S = T" and us: "us = map snd xs"
    by (auto simp: stores_def items_def)
  obtain m1 where m1: "removeAllItemsFromStack m s = Some m1" "store m1 (S(s \<mapsto> []))" "printed m1 = printed m"
    using empty_stack_nodes [OF S(1,3)] by blast
  have p: "(S(s \<mapsto> [])) ll = Some ([] @ xs)" "(S(s \<mapsto> [])) s = Some []" using S(2) assms(4) by simp_all
  have room: "int (length ([] :: (addr \<times> int) list)) + int (length xs) + 1 < 2 ^ 31" using assms(5) us by simp
  obtain m2 zs where m2: "push_nodes m1 (first_addr xs) s = Some m2" "store m2 ((S(s \<mapsto> []))(s \<mapsto> zs))"
      "map snd zs = foldl (\<lambda>vs v. v # vs) (map snd ([] :: (addr \<times> int) list)) (map snd xs)" "printed m2 = printed m1"
    using push_items.copy_nodes [OF m1(2) p assms(4) room] by blast
  have "createStackFromLinkedList m ll s = Some m2"
  proof (cases "xs = []")
    case True
    then have "m2 = m1" using m2(1) by (simp add: push_nodes.simps)
    then show ?thesis using True m1(1) store_head [OF m1(2), of ll] p(1) store_nonnull [OF S(1,3)] store_nonnull [OF S(1,2)]
      by (simp add: createStackFromLinkedList_def)
  next
    case False
    then have "first_addr xs \<noteq> NULL" using first_addr_NULL [OF S(1), of ll "[]" xs] S(2) by simp
    then show ?thesis using m1(1) m2(1) store_head [OF m1(2), of ll] p(1) store_nonnull [OF S(1,3)] store_nonnull [OF S(1,2)]
      by (simp add: createStackFromLinkedList_def)
  qed
  moreover have "items ((S(s \<mapsto> []))(s \<mapsto> zs)) = T(s \<mapsto> rev us)" using m2(3) S(4) us by (simp add: foldl_push)
  then have "stores m2 (T(s \<mapsto> rev us))" using m2(2) unfolding stores_def by blast
  ultimately show ?thesis using m1(3) m2(4) by simp
qed

lemma odd_loop_stores:
  assumes "stores m T" "T s = Some vs" "T tmp = Some us" "s \<noteq> tmp" "int (length vs) + int (length us) + 1 < 2 ^ 31"
  shows "\<exists>m'. odd_loop m s tmp = Some m' \<and> stores m' (T(s \<mapsto> [], tmp \<mapsto> rev (filter odd vs) @ us)) \<and> printed m' = printed m"
  using assms
proof (induction vs arbitrary: m T us)
  case Nil
  then have "T(s \<mapsto> [], tmp \<mapsto> rev (filter odd []) @ us) = T" by (auto simp: fun_eq_iff)
  moreover have "odd_loop m s tmp = Some m" using stack.empty_stores [OF Nil.prems(1,2)] by (simp add: odd_loop.simps [of m])
  ultimately show ?case using Nil.prems(1) by metis
next
  case (Cons v vs)
  obtain m1 where m1: "pop m s = Some (v, m1)" "stores m1 (T(s \<mapsto> vs))" "printed m1 = printed m"
    using stack.get_stores [OF Cons.prems(1,2)] by blast
  have t: "(T(s \<mapsto> vs)) tmp = Some us" "(T(s \<mapsto> vs)) s = Some vs" using Cons.prems(3,4) by simp_all
  have e: "isEmptyStack m s = Some 0" using stack.empty_stores [OF Cons.prems(1,2)] by simp
  show ?case
  proof (cases "odd v")
    case True
    have room: "int (length us) + 1 < 2 ^ 31" using Cons.prems(5) by simp
    obtain m2 where m2: "push m1 tmp v = Some m2" "stores m2 (T(s \<mapsto> vs, tmp \<mapsto> v # us))" "printed m2 = printed m1"
      using stack.put_stores [OF m1(2) t(1) room] by blast
    have step: "odd_loop m s tmp = odd_loop m2 s tmp" using e m1(1) m2(1) True smod_2 [of v] by (simp add: odd_loop.simps [of m])
    have p: "(T(s \<mapsto> vs, tmp \<mapsto> v # us)) s = Some vs" "(T(s \<mapsto> vs, tmp \<mapsto> v # us)) tmp = Some (v # us)"
        "int (length vs) + int (length (v # us)) + 1 < 2 ^ 31"
      using Cons.prems(4,5) by simp_all
    obtain m' where m': "odd_loop m2 s tmp = Some m'" "stores m' ((T(s \<mapsto> vs, tmp \<mapsto> v # us))(s \<mapsto> [], tmp \<mapsto> rev (filter odd vs) @ v # us))"
        "printed m' = printed m2" using Cons.IH [OF m2(2) p(1,2) Cons.prems(4) p(3)] by blast
    have "(T(s \<mapsto> vs, tmp \<mapsto> v # us))(s \<mapsto> [], tmp \<mapsto> rev (filter odd vs) @ v # us) = T(s \<mapsto> [], tmp \<mapsto> rev (filter odd (v # vs)) @ us)"
      using True Cons.prems(4) by (simp add: fun_upd_twist)
    then show ?thesis using step m' m2(3) m1(3) by metis
  next
    case False
    have step: "odd_loop m s tmp = odd_loop m1 s tmp" using e m1(1) False smod_2 [of v] by (simp add: odd_loop.simps [of m])
    have p: "int (length vs) + int (length us) + 1 < 2 ^ 31" using Cons.prems(5) by simp
    obtain m' where m': "odd_loop m1 s tmp = Some m'" "stores m' ((T(s \<mapsto> vs))(s \<mapsto> [], tmp \<mapsto> rev (filter odd vs) @ us))"
        "printed m' = printed m1" using Cons.IH [OF m1(2) t(2,1) Cons.prems(4) p] by blast
    have "(T(s \<mapsto> vs))(s \<mapsto> [], tmp \<mapsto> rev (filter odd vs) @ us) = T(s \<mapsto> [], tmp \<mapsto> rev (filter odd (v # vs)) @ us)"
      using False by simp
    then show ?thesis using step m' m1(3) by metis
  qed
qed

lemma removeEven_spec:
  assumes "stores m T" "T s = Some vs" "int (length vs) + 1 < 2 ^ 31"
  shows "\<exists>m'. removeEvenValues m s = Some m' \<and> stores m' (T(s \<mapsto> filter odd vs)) \<and> printed m' = printed m"
proof -
  let ?t = "brk m" and ?T = "T(brk m \<mapsto> [])"
  note new = new_list_stores [OF assms(1)]
  have ne: "s \<noteq> ?t" using new(1) assms(2) by auto
  have p: "?T s = Some vs" "?T ?t = Some []" "int (length vs) + int (length []) + 1 < 2 ^ 31" using assms(2,3) ne by simp_all
  obtain m1 where m1: "odd_loop (snd (new_list m)) s ?t = Some m1" "stores m1 (?T(s \<mapsto> [], ?t \<mapsto> rev (filter odd vs) @ []))"
      "printed m1 = printed (snd (new_list m))"
    using odd_loop_stores [OF new(2) p(1,2) ne p(3)] by blast
  let ?T1 = "?T(s \<mapsto> [], ?t \<mapsto> rev (filter odd vs) @ [])"
  have q: "?T1 ?t = Some (rev (filter odd vs))" "?T1 s = Some []" "?t \<noteq> s"
      "int (length (rev (filter odd vs))) + int (length []) + 1 < 2 ^ 31"
    using ne assms(3) order.strict_trans1 [OF length_filter_le [of odd vs]] by simp_all
  obtain m2 where m2: "stack_to_stack m1 ?t s = Some m2" "stores m2 (?T1(?t \<mapsto> [], s \<mapsto> foldl (\<lambda>vs v. v # vs) [] (rev (filter odd vs))))"
      "printed m2 = printed m1"
    using restack.move_stores [OF m1(2) q] by blast
  have "(?T1(?t \<mapsto> [], s \<mapsto> foldl (\<lambda>vs v. v # vs) [] (rev (filter odd vs))))(?t := None) = T(s \<mapsto> filter odd vs)"
    using ne new(1) by (auto simp: fun_eq_iff foldl_push)
  then have "stores (drop_list m2 ?t) (T(s \<mapsto> filter odd vs))" using drop_list_stores [OF m2(2), of ?t] by simp
  moreover have "removeEvenValues m s = Some (drop_list m2 ?t)"
    using m1(1) m2(1) stores_nonnull [OF assms(1,2)] by (simp add: removeEvenValues_def case_prod_beta)
  ultimately show ?thesis using m1(3) m2(3) by simp
qed

subsection \<open>Consecutive pairs\<close>

fun pairwise_consecutive :: "int list \<Rightarrow> bool" where
  "pairwise_consecutive (x # y # vs) = (\<bar>x - y\<bar> = 1 \<and> pairwise_consecutive vs)"
| "pairwise_consecutive vs = (vs = [])"

text \<open>What is left behind the first pair that is not consecutive.\<close>

fun behind_pairs :: "int list \<Rightarrow> int list" where
  "behind_pairs (x # y # vs) = (if \<bar>x - y\<bar> = 1 then behind_pairs vs else vs)"
| "behind_pairs vs = vs"

lemma pairwise_behind: "pairwise_consecutive vs \<Longrightarrow> behind_pairs vs = []"
  by (induction vs rule: pairwise_consecutive.induct) auto

lemma pair_loop_stores:
  assumes "stores m T" "T s = Some vs" "T tmp = Some us" "s \<noteq> tmp" "int (length vs) + int (length us) + 1 < 2 ^ 31"
    and "even (length vs)" "\<forall>v\<in>set vs. \<bar>v\<bar> < 2 ^ 30"
  shows "\<exists>m' ws. pair_loop m s tmp = Some (if pairwise_consecutive vs then 1 else 0, m') \<and>
    stores m' (T(s \<mapsto> behind_pairs vs, tmp \<mapsto> ws)) \<and> printed m' = printed m \<and>
    (pairwise_consecutive vs \<longrightarrow> ws = rev vs @ us)"
  using assms
proof (induction vs arbitrary: m T us rule: pairwise_consecutive.induct)
  case (1 x y vs)
  obtain m1 where m1: "pop m s = Some (x, m1)" "stores m1 (T(s \<mapsto> y # vs))" "printed m1 = printed m"
    using stack.get_stores [OF 1(2,3)] by blast
  have "(T(s \<mapsto> y # vs)) s = Some (y # vs)" by simp
  from stack.get_stores [OF m1(2) this] obtain m2 where
    m2: "pop m1 s = Some (y, m2)" "stores m2 (T(s \<mapsto> vs))" "printed m2 = printed m1" by (metis fun_upd_upd)
  have e: "isEmptyStack m s = Some 0" using stack.empty_stores [OF 1(2,3)] by simp
  have d: "checked (x - y) = Some (x - y)" "checked \<bar>x - y\<bar> = Some \<bar>x - y\<bar>" using 1(8) by (auto simp: checked_def)
  show ?case
  proof (cases "\<bar>x - y\<bar> = 1")
    case True
    have t: "(T(s \<mapsto> vs)) tmp = Some us" and r: "int (length us) + 1 < 2 ^ 31" using 1(4-6) by simp_all
    obtain m3 where m3: "push m2 tmp x = Some m3" "stores m3 (T(s \<mapsto> vs, tmp \<mapsto> x # us))" "printed m3 = printed m2"
      using stack.put_stores [OF m2(2) t r] by blast
    have t': "(T(s \<mapsto> vs, tmp \<mapsto> x # us)) tmp = Some (x # us)" and r': "int (length (x # us)) + 1 < 2 ^ 31" using 1(6) by simp_all
    from stack.put_stores [OF m3(2) t' r', of y] obtain m4 where
      m4: "push m3 tmp y = Some m4" "stores m4 (T(s \<mapsto> vs, tmp \<mapsto> y # x # us))" "printed m4 = printed m3" by (metis fun_upd_upd)
    have step: "pair_loop m s tmp = pair_loop m4 s tmp"
      using e m1(1) m2(1) m3(1) m4(1) d True by (simp add: pair_loop.simps [of m])
    have p: "(T(s \<mapsto> vs, tmp \<mapsto> y # x # us)) s = Some vs" "(T(s \<mapsto> vs, tmp \<mapsto> y # x # us)) tmp = Some (y # x # us)"
        "int (length vs) + int (length (y # x # us)) + 1 < 2 ^ 31" "even (length vs)" "\<forall>v\<in>set vs. \<bar>v\<bar> < 2 ^ 30"
      using 1(5-8) by simp_all
    obtain m' ws where m': "pair_loop m4 s tmp = Some (if pairwise_consecutive vs then 1 else 0, m')"
        "stores m' ((T(s \<mapsto> vs, tmp \<mapsto> y # x # us))(s \<mapsto> behind_pairs vs, tmp \<mapsto> ws))" "printed m' = printed m4"
        "pairwise_consecutive vs \<longrightarrow> ws = rev vs @ y # x # us"
      using 1(1) [OF m4(2) p(1,2) 1(5) p(3-5)] by blast
    have "(T(s \<mapsto> vs, tmp \<mapsto> y # x # us))(s \<mapsto> behind_pairs vs, tmp \<mapsto> ws) = T(s \<mapsto> behind_pairs (x # y # vs), tmp \<mapsto> ws)"
      using True 1(5) by (simp add: fun_upd_twist)
    then have "stores m' (T(s \<mapsto> behind_pairs (x # y # vs), tmp \<mapsto> ws))" using m'(2) by simp
    moreover have "pair_loop m s tmp = Some (if pairwise_consecutive (x # y # vs) then 1 else 0, m')"
      using step m'(1) True by simp
    moreover have "pairwise_consecutive (x # y # vs) \<longrightarrow> ws = rev (x # y # vs) @ us" using m'(4) by simp
    ultimately show ?thesis using m'(3) m1(3) m2(3) m3(3) m4(3) by metis
  next
    case False
    have "T(s \<mapsto> vs) = T(s \<mapsto> behind_pairs (x # y # vs), tmp \<mapsto> us)" using False 1(4,5) by (auto simp: fun_eq_iff)
    then have "stores m2 (T(s \<mapsto> behind_pairs (x # y # vs), tmp \<mapsto> us))" using m2(2) by simp
    moreover have "pair_loop m s tmp = Some (if pairwise_consecutive (x # y # vs) then 1 else 0, m2)"
      using e m1(1) m2(1) d False by (simp add: pair_loop.simps [of m])
    ultimately show ?thesis using m1(3) m2(3) False by (metis pairwise_consecutive.simps(1))
  qed
next
  case "2_1"
  then have "T(s \<mapsto> behind_pairs [], tmp \<mapsto> us) = T" by (auto simp: fun_eq_iff)
  moreover have "pair_loop m s tmp = Some (1, m)" using stack.empty_stores [OF "2_1"(1,2)] by (simp add: pair_loop.simps [of m])
  moreover have "pairwise_consecutive []" "us = rev [] @ us" by simp_all
  ultimately show ?case using "2_1"(1) by metis
qed simp

lemma pairwise_spec:
  assumes "stores m T" "T s = Some vs" "int (length vs) + 1 < 2 ^ 31" "\<forall>v\<in>set vs. \<bar>v\<bar> < 2 ^ 30"
  shows "\<exists>m'. isStackPairwiseConsecutive m s = Some (if pairwise_consecutive vs then 1 else 0, m') \<and>
    stores m' (T(s \<mapsto> if pairwise_consecutive vs \<or> odd (length vs) then vs else behind_pairs vs))"
proof -
  from assms obtain S xs where S: "store m S" "S s = Some xs" and vs: "vs = map snd xs"
    by (auto simp: stores_def items_def)
  note head = store_head [OF S] stores_nonnull [OF assms(1,2)]
  show ?thesis
  proof (cases "odd (length vs)")
    case True
    then have "\<not> pairwise_consecutive vs" by (induction vs rule: pairwise_consecutive.induct) auto
    moreover have "isStackPairwiseConsecutive m s = Some (0, m)"
      using head True vs smod_2_1 [of "int (length xs)"] by (simp add: isStackPairwiseConsecutive_def)
    ultimately show ?thesis using True assms(1,2) by (simp add: fun_upd_idem)
  next
    case False
    let ?t = "brk m" and ?T = "T(brk m \<mapsto> [])"
    note new = new_list_stores [OF assms(1)]
    have ne: "s \<noteq> ?t" using new(1) assms(2) by auto
    have p: "?T s = Some vs" "?T ?t = Some []" "int (length vs) + int (length []) + 1 < 2 ^ 31" "even (length vs)"
      using assms(2,3) ne False by simp_all
    obtain m1 ws where m1: "pair_loop (snd (new_list m)) s ?t = Some (if pairwise_consecutive vs then 1 else 0, m1)"
        "stores m1 (?T(s \<mapsto> behind_pairs vs, ?t \<mapsto> ws))" "pairwise_consecutive vs \<longrightarrow> ws = rev vs @ []"
      using pair_loop_stores [OF new(2) p(1,2) ne p(3,4) assms(4)] by blast
    let ?T1 = "?T(s \<mapsto> behind_pairs vs, ?t \<mapsto> ws)"
    have start: "isStackPairwiseConsecutive m s = (pair_loop (snd (new_list m)) s ?t \<bind>
        (\<lambda>(r, m). if r = 0 then Some (0, drop_list m ?t)
          else do { m \<leftarrow> stack_to_stack m ?t s; m \<leftarrow> printList m s; Some (1, drop_list m ?t) }))"
      using head False vs smod_2_1 [of "int (length xs)"] by (simp add: isStackPairwiseConsecutive_def new_list_def)
    show ?thesis
    proof (cases "pairwise_consecutive vs")
      case True
      have q: "?T1 ?t = Some (rev vs)" "?T1 s = Some []" "?t \<noteq> s" "int (length (rev vs)) + int (length []) + 1 < 2 ^ 31"
        using ne assms(3) True m1(3) pairwise_behind by simp_all
      obtain m2 where m2: "stack_to_stack m1 ?t s = Some m2" "stores m2 (?T1(?t \<mapsto> [], s \<mapsto> foldl (\<lambda>vs v. v # vs) [] (rev vs)))"
        using restack.move_stores [OF m1(2) q] by blast
      let ?T2 = "?T1(?t \<mapsto> [], s \<mapsto> foldl (\<lambda>vs v. v # vs) [] (rev vs))"
      have T2: "?T2(?t := None) = T(s \<mapsto> vs)" using ne new(1) by (auto simp: fun_eq_iff foldl_push)
      obtain m3 where m3: "printList m2 s = Some m3" "stores m3 ?T2"
        using printList_stores [OF m2(2), of s] m2(2) by simp
      have "isStackPairwiseConsecutive m s = Some (1, drop_list m3 ?t)" using start m1(1) m2(1) m3(1) True by simp
      moreover have "stores (drop_list m3 ?t) (T(s \<mapsto> vs))" using drop_list_stores [OF m3(2), of ?t] unfolding T2 .
      ultimately show ?thesis using True by simp
    next
      case wrong: False
      have "?T1(?t := None) = T(s \<mapsto> behind_pairs vs)" using ne new(1) by (auto simp: fun_eq_iff)
      then have "stores (drop_list m1 ?t) (T(s \<mapsto> behind_pairs vs))" using drop_list_stores [OF m1(2), of ?t] by simp
      then show ?thesis using wrong False start m1(1) by simp
    qed
  qed
qed

lemma removeUntil_spec:
  assumes "stores m T" "T s = Some vs"
  shows "\<exists>m'. removeUntilStack m s v = Some m' \<and> stores m' (T(s \<mapsto> dropWhile (\<lambda>x. x \<noteq> v) vs)) \<and> printed m' = printed m"
proof -
  have "\<exists>m'. until_loop m s v = Some m' \<and> stores m' (T(s \<mapsto> dropWhile (\<lambda>x. x \<noteq> v) vs)) \<and> printed m' = printed m"
    using assms
  proof (induction vs arbitrary: m T)
    case Nil
    then show ?case using stack.empty_stores [OF Nil] by (simp add: until_loop.simps [of m] fun_upd_idem)
  next
    case (Cons x vs)
    obtain m1 where m1: "pop m s = Some (x, m1)" "stores m1 (T(s \<mapsto> vs))" "printed m1 = printed m"
      using stack.get_stores [OF Cons.prems] by blast
    have e: "isEmptyStack m s = Some 0" using stack.empty_stores [OF Cons.prems] by simp
    have s: "(T(s \<mapsto> vs)) s = Some vs" by simp
    show ?case
    proof (cases "x = v")
      case True
      have "int (length vs) + 1 < 2 ^ 31" using stores_room [OF Cons.prems] by simp
      from stack.put_stores [OF m1(2) s this, of x] obtain m2 where
        m2: "push m1 s x = Some m2" "stores m2 (T(s \<mapsto> x # vs))" "printed m2 = printed m1" by (metis fun_upd_upd)
      have "until_loop m s v = Some m2" using e m1(1) m2(1) True by (simp add: until_loop.simps [of m])
      moreover have "dropWhile (\<lambda>x. x \<noteq> v) (x # vs) = x # vs" using True by simp
      ultimately show ?thesis using m2(2,3) m1(3) by metis
    next
      case False
      have step: "until_loop m s v = until_loop m1 s v" using e m1(1) False by (simp add: until_loop.simps [of m])
      show ?thesis using Cons.IH [OF m1(2) s] m1(3) False unfolding step fun_upd_upd by simp
    qed
  qed
  then show ?thesis using stores_nonnull [OF assms] by (simp add: removeUntilStack_def)
qed

subsection \<open>Exercises on queues\<close>

lemma reverse_spec:
  assumes "stores m T" "T q = Some vs" "int (length vs) + 1 < 2 ^ 31"
  shows "\<exists>m'. reverse m q = Some m' \<and> stores m' (T(q \<mapsto> rev vs)) \<and>
    printed m' = printed m @ (if vs = [] then [Empty_text] else map Num (rev vs)) @ [Newline]"
proof -
  let ?t = "brk m" and ?T = "T(brk m \<mapsto> [])"
  note new = new_list_stores [OF assms(1)]
  have ne: "q \<noteq> ?t" using new(1) assms(2) by auto
  have p: "?T q = Some vs" "?T ?t = Some []" "int (length vs) + int (length []) + 1 < 2 ^ 31" using assms(2,3) ne by simp_all
  obtain m1 where m1: "queue_to_stack (snd (new_list m)) q ?t = Some m1" "stores m1 (?T(q \<mapsto> [], ?t \<mapsto> foldl (\<lambda>vs v. v # vs) [] vs))"
      "printed m1 = printed (snd (new_list m))"
    using unqueue.move_stores [OF new(2) p(1,2) ne p(3)] by blast
  let ?T1 = "?T(q \<mapsto> [], ?t \<mapsto> foldl (\<lambda>vs v. v # vs) [] vs)"
  have r: "?T1 ?t = Some (rev vs)" "?T1 q = Some []" "?t \<noteq> q" "int (length (rev vs)) + int (length []) + 1 < 2 ^ 31"
    using ne assms(3) by (simp_all add: foldl_push)
  obtain m2 where m2: "stack_to_queue m1 ?t q = Some m2" "stores m2 (?T1(?t \<mapsto> [], q \<mapsto> foldl (\<lambda>vs v. vs @ [v]) [] (rev vs)))"
      "printed m2 = printed m1"
    using requeue.move_stores [OF m1(2) r] by blast
  let ?T2 = "?T1(?t \<mapsto> [], q \<mapsto> foldl (\<lambda>vs v. vs @ [v]) [] (rev vs))"
  have T2: "?T2(?t := None) = T(q \<mapsto> rev vs)" using ne new(1) by (auto simp: fun_eq_iff foldl_enqueue)
  have "?T2 q = Some (rev vs)" by (simp add: foldl_enqueue)
  from printList_stores [OF m2(2) this] obtain m3 where m3: "printList m2 q = Some m3" "stores m3 ?T2"
      "printed m3 = printed m2 @ (if rev vs = [] then [Empty_text] else map Num (rev vs)) @ [Newline]"
    using m2(2) by simp
  have "reverse m q = Some (drop_list m3 ?t)"
    using m1(1) m2(1) m3(1) by (simp add: reverse_def case_prod_beta)
  moreover have "stores (drop_list m3 ?t) (T(q \<mapsto> rev vs))" using drop_list_stores [OF m3(2), of ?t] unfolding T2 .
  ultimately show ?thesis using m1(3) m2(3) m3(3) by simp
qed

lemma empty_queue_nodes:
  "store m S \<Longrightarrow> S q = Some xs \<Longrightarrow> \<exists>m'. removeAllItemsFromQueue m q = Some m' \<and> store m' (S(q \<mapsto> [])) \<and> printed m' = printed m"
proof -
  have loop: "store m S \<Longrightarrow> S q = Some xs \<Longrightarrow> \<exists>m'. empty_queue_loop m q (length xs) = Some m' \<and> store m' (S(q \<mapsto> [])) \<and> printed m' = printed m"
    for m S xs
  proof (induction xs arbitrary: m S)
    case Nil
    then show ?case by (simp add: fun_upd_idem)
  next
    case (Cons x xs)
    obtain m1 where m1: "dequeue m q = Some (snd x, m1)" "store m1 (S(q \<mapsto> xs))" "printed m1 = printed m"
      using queue.get_ok [OF Cons.prems] by blast
    have q: "(S(q \<mapsto> xs)) q = Some xs" by simp
    have step: "empty_queue_loop m q (length (x # xs)) = empty_queue_loop m1 q (length xs)" using m1(1) by simp
    show ?case using Cons.IH [OF m1(2) q] m1(3) unfolding step fun_upd_upd by metis
  qed
  assume "store m S" "S q = Some xs"
  then show ?thesis using loop [of m S xs] store_head [of m S q xs] store_nonnull [of m S q xs]
    by (simp add: removeAllItemsFromQueue_def)
qed

lemma createQueue_spec:
  assumes "stores m T" "T ll = Some us" "T q = Some vs" "ll \<noteq> q" "int (length us) + 1 < 2 ^ 31"
  shows "\<exists>m'. createQueueFromLinkedList m ll q = Some m' \<and> stores m' (T(q \<mapsto> us)) \<and> printed m' = printed m"
proof -
  from assms obtain S xs ys where S: "store m S" "S ll = Some xs" "S q = Some ys" "items S = T" and us: "us = map snd xs"
    by (auto simp: stores_def items_def)
  obtain m1 where m1: "(if isEmptyQueue m q = Some 0 then removeAllItemsFromQueue m q else Some m) = Some m1"
      "store m1 (S(q \<mapsto> []))" "printed m1 = printed m"
    using empty_queue_nodes [OF S(1,3)] queue.empty_ok [OF S(1,3)] S(1,3)
    by (cases "ys = []") (auto simp: fun_upd_idem)
  have p: "(S(q \<mapsto> [])) ll = Some ([] @ xs)" "(S(q \<mapsto> [])) q = Some []" using S(2) assms(4) by simp_all
  have room: "int (length ([] :: (addr \<times> int) list)) + int (length xs) + 1 < 2 ^ 31" using assms(5) us by simp
  obtain m2 zs where m2: "enqueue_nodes m1 (first_addr xs) q = Some m2" "store m2 ((S(q \<mapsto> []))(q \<mapsto> zs))"
      "map snd zs = foldl (\<lambda>vs v. vs @ [v]) (map snd ([] :: (addr \<times> int) list)) (map snd xs)" "printed m2 = printed m1"
    using enqueue_items.copy_nodes [OF m1(2) p assms(4) room] by blast
  have head: "lists m1 ll = Some \<lparr>lsize = int (length xs), head = first_addr xs\<rparr>" using store_head [OF m1(2), of ll] p(1) by simp
  have e: "isEmptyQueue m q = Some (if ys = [] then 1 else 0)" by (rule queue.empty_ok [OF S(1,3)])
  have start: "createQueueFromLinkedList m ll q = (if first_addr xs = NULL then Some m1 else enqueue_nodes m1 (first_addr xs) q)"
    using m1(1) head store_head [OF S(1,2)] store_nonnull [OF S(1,2)] e
    by (cases "ys = []") (simp_all add: createQueueFromLinkedList_def)
  have "createQueueFromLinkedList m ll q = Some m2"
    using start m2(1) by (cases "first_addr xs = NULL") (simp_all add: enqueue_nodes.simps)
  moreover have "items ((S(q \<mapsto> []))(q \<mapsto> zs)) = T(q \<mapsto> us)" using m2(3) S(4) us by (simp add: foldl_enqueue)
  then have "stores m2 (T(q \<mapsto> us))" using m2(2) unfolding stores_def by blast
  ultimately show ?thesis using m1(3) m2(4) by simp
qed

lemma even_loop_stores:
  assumes "stores m T" "T q = Some (vs @ us)"
  shows "\<exists>m'. even_loop m q (length vs) = Some m' \<and> stores m' (T(q \<mapsto> us @ filter even vs)) \<and> printed m' = printed m"
  using assms
proof (induction vs arbitrary: m T us)
  case Nil
  then show ?case by (simp add: fun_upd_idem)
next
  case (Cons v vs)
  have c: "T q = Some (v # (vs @ us))" using Cons.prems(2) by simp
  obtain m1 where m1: "dequeue m q = Some (v, m1)" "stores m1 (T(q \<mapsto> vs @ us))" "printed m1 = printed m"
    using queue.get_stores [OF Cons.prems(1) c] by blast
  have q: "(T(q \<mapsto> vs @ us)) q = Some (vs @ us)" by simp
  show ?case
  proof (cases "even v")
    case True
    have room: "int (length (vs @ us)) + 1 < 2 ^ 31" using stores_room [OF Cons.prems] by simp
    from queue.put_stores [OF m1(2) q room, of v] obtain m2 where
      m2: "enqueue m1 q v = Some m2" "stores m2 (T(q \<mapsto> vs @ us @ [v]))" "printed m2 = printed m1" by (metis append_assoc fun_upd_upd)
    have step: "even_loop m q (length (v # vs)) = even_loop m2 q (length vs)" using m1(1) m2(1) True smod_2 [of v] by simp
    have q2: "(T(q \<mapsto> vs @ us @ [v])) q = Some (vs @ us @ [v])" by simp
    have f: "us @ filter even (v # vs) = (us @ [v]) @ filter even vs" using True by simp
    show ?thesis using Cons.IH [OF m2(2) q2] m1(3) m2(3) unfolding step fun_upd_upd f by metis
  next
    case False
    have step: "even_loop m q (length (v # vs)) = even_loop m1 q (length vs)" using m1(1) False smod_2 [of v] by simp
    have f: "us @ filter even (v # vs) = us @ filter even vs" using False by simp
    show ?thesis using Cons.IH [OF m1(2) q] m1(3) unfolding step fun_upd_upd f by metis
  qed
qed

lemma removeOdd_spec:
  assumes "stores m T" "T q = Some vs"
  shows "\<exists>m'. removeOddValues m q = Some m' \<and> stores m' (T(q \<mapsto> filter even vs)) \<and> printed m' = printed m"
proof -
  from assms obtain S xs where S: "store m S" "S q = Some xs" and vs: "vs = map snd xs"
    by (auto simp: stores_def items_def)
  have h: "first_addr xs = NULL \<longleftrightarrow> xs = []" using first_addr_NULL [OF S(1), of q "[]" xs] S(2) by simp
  show ?thesis
  proof (cases "vs = []")
    case True
    then have "removeOddValues m q = Some m"
      using queue.empty_stores [OF assms] store_head [OF S] by (simp add: removeOddValues_def)
    then show ?thesis using True assms by (simp add: fun_upd_idem)
  next
    case False
    then have "removeOddValues m q = even_loop m q (length vs)"
      using queue.empty_stores [OF assms] store_head [OF S] h vs by (simp add: removeOddValues_def)
    then show ?thesis using even_loop_stores [OF assms(1), of q vs "[]"] assms(2) by simp
  qed
qed

lemma recursiveReverseQueue_spec:
  "stores m T \<Longrightarrow> T q = Some vs \<Longrightarrow>
   \<exists>m'. recursiveReverseQueue m q = Some m' \<and> stores m' (T(q \<mapsto> rev vs)) \<and> printed m' = printed m"
proof (induction vs arbitrary: m T)
  case Nil
  then obtain S where S: "store m S" "S q = Some []" by (auto simp: stores_def items_def)
  then show ?case using Nil store_head [OF S] by (simp add: recursiveReverseQueue.simps [of m] fun_upd_idem)
next
  case (Cons v vs)
  from Cons.prems obtain S x xs where S: "store m S" "S q = Some (x # xs)" by (auto simp: stores_def items_def)
  have head: "\<exists>L. lists m q = Some L \<and> head L \<noteq> NULL"
    using store_head [OF S] store_node(1) [OF S(1), of q "[]" x xs] S(2) by simp
  obtain m1 where m1: "dequeue m q = Some (v, m1)" "stores m1 (T(q \<mapsto> vs))" "printed m1 = printed m"
    using queue.get_stores [OF Cons.prems] by blast
  have q: "(T(q \<mapsto> vs)) q = Some vs" by simp
  from Cons.IH [OF m1(2) q] obtain m2 where
    m2: "recursiveReverseQueue m1 q = Some m2" "stores m2 (T(q \<mapsto> rev vs))" "printed m2 = printed m1" by (metis fun_upd_upd)
  have q2: "(T(q \<mapsto> rev vs)) q = Some (rev vs)" and room: "int (length (rev vs)) + 1 < 2 ^ 31"
    using stores_room [OF Cons.prems] by simp_all
  from queue.put_stores [OF m2(2) q2 room, of v] obtain m3 where
    m3: "enqueue m2 q v = Some m3" "stores m3 (T(q \<mapsto> rev (v # vs)))" "printed m3 = printed m2" by (metis fun_upd_upd rev.simps(2))
  have "recursiveReverseQueue m q = Some m3"
    using head m1(1) m2(1) m3(1) by (auto simp: recursiveReverseQueue.simps [of m])
  then show ?case using m3(2,3) m1(3) m2(3) by metis
qed

end
