(* ===== verification/Brackets.thy ===== *)
theory Brackets
  imports StackQueueProps
begin

text \<open>
  \<open>balanced\<close> of \<open>Data-Structures/tests/stack.c\<close> against the grammar of balanced bracket strings.
\<close>

definition opens :: "int \<Rightarrow> bool" where
  "opens c \<longleftrightarrow> c \<in> {of_char CHR ''('', of_char CHR ''{'', of_char CHR ''[''}"

inductive balanced_text :: "int list \<Rightarrow> bool" where
  empty: "balanced_text []"
| bracket: "opens c \<Longrightarrow> balanced_text u \<Longrightarrow> balanced_text (c # u @ [getClosingBracket c])"
| append: "balanced_text u \<Longrightarrow> balanced_text v \<Longrightarrow> balanced_text (u @ v)"

text \<open>The same with a stack of the brackets that are open.\<close>

fun closes :: "int list \<Rightarrow> int list \<Rightarrow> bool" where
  "closes st [] = (st = [])"
| "closes st (c # cs) =
     (if opens c then closes (c # st) cs
      else case st of [] \<Rightarrow> False | t # st' \<Rightarrow> getClosingBracket t = c \<and> closes st' cs)"

fun fits :: "int list \<Rightarrow> int list \<Rightarrow> bool" where
  "fits [] e = balanced_text e"
| "fits (t # st) e = (\<exists>u v. balanced_text u \<and> e = u @ getClosingBracket t # v \<and> fits st v)"

lemma fits_append: "balanced_text w \<Longrightarrow> fits st e \<Longrightarrow> fits st (w @ e)"
proof (cases st)
  case (Cons t st')
  assume w: "balanced_text w" and "fits st e"
  then obtain u v where "balanced_text u" "e = u @ getClosingBracket t # v" "fits st' v" using Cons by auto
  then show ?thesis using balanced_text.append [OF w] unfolding Cons fits.simps
    by (intro exI [of _ "w @ u"] exI [of _ v]) simp
qed (auto intro: balanced_text.append)

lemma closes_fits: "closes st e \<Longrightarrow> fits st e"
proof (induction st e rule: closes.induct)
  case (2 st c cs)
  show ?case
  proof (cases "opens c")
    case True
    then obtain u v where "balanced_text u" "cs = u @ getClosingBracket c # v" "fits st v" using 2 by auto
    then show ?thesis using fits_append [OF balanced_text.bracket [OF True], of u st v] by simp
  next
    case False
    then obtain t st' where st: "st = t # st'" "getClosingBracket t = c" "closes st' cs" using 2(3) by (auto split: list.splits)
    then have "fits st' cs" using 2(2) [OF False] by simp
    then show ?thesis using st(2) balanced_text.empty unfolding st(1) fits.simps
      by (intro exI [of _ "[]"] exI [of _ cs]) simp
  qed
qed (auto intro: balanced_text.empty)

lemma closing_not_open: "opens c \<Longrightarrow> \<not> opens (getClosingBracket c)"
  by (auto simp: opens_def getClosingBracket_def)

lemma balanced_closes: "balanced_text u \<Longrightarrow> closes st (u @ e) = closes st e"
proof (induction arbitrary: st e rule: balanced_text.induct)
  case (bracket c u)
  then show ?case using closing_not_open [of c] by simp
qed auto

lemma closes_iff: "closes [] e \<longleftrightarrow> balanced_text e"
  using closes_fits [of "[]" e] balanced_closes [of e "[]" "[]"] by auto

text \<open>The loop of the code, at position \<open>length ds\<close> of the text.\<close>

lemma stack_peek_stores:
  assumes "stores m T" "T s = Some (v # vs)"
  shows "stack_peek m s = Some v"
proof -
  from assms obtain S x xs where S: "store m S" "S s = Some (x # xs)" and v: "v = snd x" by (auto simp: stores_def items_def)
  then show ?thesis using store_head [OF S] store_node [OF S(1), of s "[]" x xs] by (simp add: stack_peek_def)
qed

lemma char_at_mid: "char_at (ds @ c # cs) (int (length ds)) = Some c"
  by (simp add: char_at_def)

lemma opens_code: "opens c \<longleftrightarrow> c = of_char CHR ''('' \<or> c = of_char CHR ''{'' \<or> c = of_char CHR ''[''"
  by (auto simp: opens_def)

lemma balanced_loop_stores:
  assumes "stores m T" "T s = Some st" "0 \<notin> set cs" "int (length ds) + int (length st) + 2 * int (length cs) + 1 < 2 ^ 31"
  shows "\<exists>m' us. balanced_loop m s (ds @ cs @ [0]) (int (length ds)) = Some (if closes st cs then 1 else 0, m') \<and>
    stores m' (T(s \<mapsto> us)) \<and> printed m' = printed m"
  using assms
proof (induction cs arbitrary: m T st ds)
  case Nil
  have "char_at (ds @ [0]) (int (length ds)) = Some 0" using char_at_mid [of ds 0 "[]"] by simp
  then have "balanced_loop m s (ds @ [] @ [0]) (int (length ds)) = Some (if closes st [] then 1 else 0, m)"
    using stack.empty_stores [OF Nil(1,2)] by (cases "st = []") (simp_all add: balanced_loop.simps [of m])
  moreover have "T(s \<mapsto> st) = T" using Nil(2) by (simp add: fun_upd_idem)
  ultimately show ?case using Nil(1) by metis
next
  case (Cons c cs)
  have c: "char_at (ds @ (c # cs) @ [0]) (int (length ds)) = Some c" "c \<noteq> 0" "0 \<notin> set cs"
    using char_at_mid [of ds c "cs @ [0]"] Cons.prems(3) by simp_all
  have i: "checked (int (length ds) + 1) = Some (int (length (ds @ [c])))" using Cons.prems(4) by simp
  have e: "ds @ (c # cs) @ [0] = (ds @ [c]) @ cs @ [0]" by simp
  consider "opens c" | "\<not> opens c" "st = []" | t st' where "\<not> opens c" "st = t # st'" "getClosingBracket t = c"
    | t st' where "\<not> opens c" "st = t # st'" "getClosingBracket t \<noteq> c"
    by (cases st) auto
  then show ?case
  proof cases
    case 1
    have room: "int (length st) + 1 < 2 ^ 31" using Cons.prems(4) by simp
    obtain m1 where m1: "push m s c = Some m1" "stores m1 (T(s \<mapsto> c # st))" "printed m1 = printed m"
      using stack.put_stores [OF Cons.prems(1,2) room] by blast
    have step: "balanced_loop m s (ds @ (c # cs) @ [0]) (int (length ds)) = balanced_loop m1 s ((ds @ [c]) @ cs @ [0]) (int (length (ds @ [c])))"
      using c(1,2) 1 m1(1) i unfolding e by (subst balanced_loop.simps) (simp add: opens_code)
    have p: "(T(s \<mapsto> c # st)) s = Some (c # st)" "int (length (ds @ [c])) + int (length (c # st)) + 2 * int (length cs) + 1 < 2 ^ 31"
      using Cons.prems(4) by simp_all
    have r: "closes st (c # cs) = closes (c # st) cs" using 1 by simp
    show ?thesis using Cons.IH [OF m1(2) p(1) c(3) p(2)] m1(3) unfolding step fun_upd_upd r by metis
  next
    case 2
    have "balanced_loop m s (ds @ (c # cs) @ [0]) (int (length ds)) = Some (0, m)"
      using c(1,2) 2 stack.empty_stores [OF Cons.prems(1,2)] by (subst balanced_loop.simps) (simp add: opens_code)
    moreover have "T(s \<mapsto> st) = T" "\<not> closes st (c # cs)" using 2 Cons.prems(2) by (simp_all add: fun_upd_idem)
    ultimately show ?thesis using Cons.prems(1) by metis
  next
    case (3 t st')
    note T' = Cons.prems(2) [unfolded 3(2)]
    obtain m1 where m1: "pop m s = Some (t, m1)" "stores m1 (T(s \<mapsto> st'))" "printed m1 = printed m"
      using stack.get_stores [OF Cons.prems(1) T'] by blast
    have step: "balanced_loop m s (ds @ (c # cs) @ [0]) (int (length ds)) = balanced_loop m1 s ((ds @ [c]) @ cs @ [0]) (int (length (ds @ [c])))"
      using c(1,2) 3 m1(1) i stack.empty_stores [OF Cons.prems(1) T'] stack_peek_stores [OF Cons.prems(1) T']
      unfolding e by (subst balanced_loop.simps) (simp add: opens_code)
    have p: "(T(s \<mapsto> st')) s = Some st'" "int (length (ds @ [c])) + int (length st') + 2 * int (length cs) + 1 < 2 ^ 31"
      using Cons.prems(4) 3(2) by simp_all
    have r: "closes st (c # cs) = closes st' cs" using 3 by simp
    show ?thesis using Cons.IH [OF m1(2) p(1) c(3) p(2)] m1(3) unfolding step fun_upd_upd r by metis
  next
    case (4 t st')
    note T' = Cons.prems(2) [unfolded 4(2)]
    have "balanced_loop m s (ds @ (c # cs) @ [0]) (int (length ds)) = Some (0, m)"
      using c(1,2) 4 stack.empty_stores [OF Cons.prems(1) T'] stack_peek_stores [OF Cons.prems(1) T']
      by (subst balanced_loop.simps) (simp add: opens_code)
    moreover have "T(s \<mapsto> st) = T" "\<not> closes st (c # cs)" using 4 Cons.prems(2) by (simp_all add: fun_upd_idem)
    ultimately show ?thesis using Cons.prems(1) by metis
  qed
qed

lemma balanced_spec:
  assumes "stores m T" "0 \<notin> set cs" "2 * int (length cs) + 1 < 2 ^ 31"
  shows "\<exists>m'. balanced m (cs @ [0]) = Some (if balanced_text cs then 1 else 0, m') \<and> stores m' T \<and> printed m' = printed m"
proof -
  note new = new_list_stores [OF assms(1)]
  have p: "(T(brk m \<mapsto> [])) (brk m) = Some []" "int (length ([] :: int list)) + int (length ([] :: int list)) + 2 * int (length cs) + 1 < 2 ^ 31"
    using assms(3) by simp_all
  obtain m1 us where m1: "balanced_loop (snd (new_list m)) (brk m) ([] @ cs @ [0]) (int (length ([] :: int list))) = Some (if closes [] cs then 1 else 0, m1)"
      "stores m1 ((T(brk m \<mapsto> []))(brk m \<mapsto> us))" "printed m1 = printed (snd (new_list m))"
    using balanced_loop_stores [OF new(2) p(1) assms(2) p(2)] by blast
  have "((T(brk m \<mapsto> []))(brk m \<mapsto> us))(brk m := None) = T" using new(1) by (auto simp: fun_eq_iff)
  then have "stores (drop_list m1 (brk m)) T" using drop_list_stores [OF m1(2), of "brk m"] by simp
  moreover have "balanced m (cs @ [0]) = Some (if balanced_text cs then 1 else 0, drop_list m1 (brk m))"
    using m1(1) by (simp add: balanced_def new_list_def closes_iff)
  ultimately show ?thesis using m1(3) by simp
qed

end
