(* ===== verification/ListExercises.thy ===== *)
theory ListExercises
  imports LinkedListProps Brackets
begin

text \<open>
  The properties of the linked lists, stacks and queues of \<open>Data-Structures\<close>, over the relation \<open>stores m T\<close> between a memory
  and the lists of integers that its list structures hold, and a concrete memory at which they are applied.
\<close>

definition demo :: lmem where
  "demo = \<lparr>nodes = [3 \<mapsto> \<lparr>item = 1, lnext = 4\<rparr>, 4 \<mapsto> \<lparr>item = 2, lnext = 5\<rparr>, 5 \<mapsto> \<lparr>item = 5, lnext = 0\<rparr>,
      6 \<mapsto> \<lparr>item = 4, lnext = 7\<rparr>, 7 \<mapsto> \<lparr>item = 7, lnext = 0\<rparr>],
     lists = [1 \<mapsto> \<lparr>lsize = 3, head = 3\<rparr>, 2 \<mapsto> \<lparr>lsize = 2, head = 6\<rparr>, 8 \<mapsto> \<lparr>lsize = 0, head = 0\<rparr>], brk = 9, printed = []\<rparr>"

definition demo_lists :: "addr \<rightharpoonup> int list" where
  "demo_lists = [1 \<mapsto> [1, 2, 5], 2 \<mapsto> [4, 7], 8 \<mapsto> []]"

lemma demo_lists_simps [simp]: "demo_lists (Suc 0) = Some [1, 2, 5]" "demo_lists 1 = Some [1, 2, 5]" "demo_lists 2 = Some [4, 7]" "demo_lists 8 = Some []"
  by (simp_all add: demo_lists_def)

lemma demo_stores: "stores demo demo_lists"
  unfolding stores_def
proof (intro exI conjI)
  let ?S = "[1 \<mapsto> [(3, 1), (4, 2), (5, 5)], 2 \<mapsto> [(6, 4), (7, 7)], 8 \<mapsto> []] :: addr \<rightharpoonup> (addr \<times> int) list"
  show "items ?S = demo_lists" by (auto simp: items_def demo_lists_def fun_eq_iff)
  have "is_list demo 1 [(3, 1), (4, 2), (5, 5)]" "is_list demo 2 [(6, 4), (7, 7)]" "is_list demo 8 []" by (auto simp: is_list_def demo_def)
  moreover have "fresh demo" by (auto simp: fresh_def demo_def)
  ultimately show "store demo ?S" unfolding store_def by (auto split: if_splits)
qed

text \<open>C29: Inserting into a strictly ascending linked list keeps it strictly ascending and returns the index of the new item, or -1 when the item is already there, and the list is printed when it was not empty.\<close>

theorem insertSortedLL_correct:
  assumes "stores m T" "T ll = Some vs" "sorted_wrt (<) vs" "int (length vs) + 1 < 2 ^ 31"
  shows "\<exists>m' us. insertSortedLL m ll v = Some (if v \<in> set vs then -1 else int (length (filter (\<lambda>x. x < v) vs)), m') \<and>
    stores m' (T(ll \<mapsto> us)) \<and> sorted_wrt (<) us \<and> set us = insert v (set vs) \<and> length us = (if v \<in> set vs then length vs else length vs + 1) \<and>
    (v \<notin> set vs \<longrightarrow> us ! length (filter (\<lambda>x. x < v) vs) = v) \<and>
    printed m' = (if v \<in> set vs \<or> vs = [] then printed m else printed m @ map Num us @ [Newline])"
proof -
  from insertSorted_spec [OF assms, of v] obtain m' where m':
    "insertSortedLL m ll v = Some (if v \<in> set vs then -1 else int (length (filter (\<lambda>x. x < v) vs)), m')"
    "stores m' (T(ll \<mapsto> if v \<in> set vs then vs else insort v vs))"
    "printed m' = (if v \<in> set vs \<or> vs = [] then printed m else printed m @ map Num (insort v vs) @ [Newline])" by blast
  let ?us = "if v \<in> set vs then vs else insort v vs"
  have "sorted_wrt (<) ?us" using assms(3) sorted_strict_insort by simp
  moreover have "set ?us = insert v (set vs)" by (auto simp: set_insort_key)
  moreover have "v \<notin> set vs \<longrightarrow> ?us ! length (filter (\<lambda>x. x < v) vs) = v"
    unfolding insort_conv sorted_takeWhile_less [OF assms(3), symmetric] by (simp add: nth_append)
  ultimately show ?thesis using m' by (intro exI [of _ m'] exI [of _ ?us]) (simp add: length_insort)
qed

theorem insertSortedLL_witness:
  "\<exists>m' us. insertSortedLL demo 1 3 = Some (2, m') \<and> stores m' (demo_lists(1 \<mapsto> us)) \<and> set us = {1, 2, 3, 5}"
proof -
  have "filter (\<lambda>x. x < 3) [1, 2, 5 :: int] = [1, 2]" by simp
  then show ?thesis using insertSortedLL_correct [OF demo_stores, of 1 "[1, 2, 5]" 3] by (auto simp: insert_commute)
qed

text \<open>The alternating merge puts the items of the second list at the odd positions of the first, as many as there are positions, and removes them from the second list; the split leaves the first half, the longer one, in front of one list and the second half in front of the other.\<close>

theorem merge_and_split_correct:
  assumes "stores m T" "distinct [ll1, ll2, ll3]" "T ll1 = Some xs" "T ll2 = Some ys" "T ll3 = Some zs"
    and "int (length xs) + 2 * int (length ys) + 2 < 2 ^ 31" "int (length xs) + int (length zs) + 1 < 2 ^ 31"
  shows "(\<exists>m'. alternateMergeLinkedList m ll1 ll2 = Some m' \<and>
      stores m' (T(ll1 \<mapsto> interleave xs ys, ll2 \<mapsto> drop (length xs) ys)) \<and> printed m' = printed m) \<and>
    (\<exists>m'. frontBackSplitLL m ll1 ll2 ll3 = Some m' \<and>
      stores m' (T(ll2 \<mapsto> take ((length xs + 1) div 2) xs @ ys, ll3 \<mapsto> drop ((length xs + 1) div 2) xs @ zs)))"
  using alternateMerge_spec [OF assms(1) _ assms(3,4,6)] frontBackSplit_spec [OF assms(1-5)] assms(2,6,7) by auto

theorem merge_and_split_witness:
  "(\<exists>m'. alternateMergeLinkedList demo 1 2 = Some m' \<and> stores m' (demo_lists(1 \<mapsto> [1, 4, 2, 7, 5], 2 \<mapsto> []))) \<and>
   (\<exists>m'. frontBackSplitLL demo 1 2 8 = Some m' \<and> stores m' (demo_lists(2 \<mapsto> [1, 2, 4, 7], 8 \<mapsto> [5])))"
proof -
  have "distinct [1 :: addr, 2, 8]" by simp
  from merge_and_split_correct [OF demo_stores this, of "[1, 2, 5]" "[4, 7]" "[]"] show ?thesis
    by (simp add: numeral_2_eq_2 [symmetric]) metis
qed

text \<open>Moving the odd items, or the even ones, to the back keeps the order among the moved and among the others, when the last item is not the only one to be moved.\<close>

theorem moveOddEven_correct:
  assumes "stores m T" "T ll = Some vs"
  shows "(length vs < 2 \<or> even (List.last vs) \<or> (\<exists>v\<in>set (butlast vs). odd v) \<longrightarrow>
      (\<exists>m'. moveOddItemsToBackLL m ll = Some m' \<and> stores m' (T(ll \<mapsto> filter even vs @ filter odd vs)) \<and> printed m' = printed m)) \<and>
    (length vs < 2 \<or> odd (List.last vs) \<or> (\<exists>v\<in>set (butlast vs). even v) \<longrightarrow>
      (\<exists>m'. moveEvenItemsToBackLL m ll = Some m' \<and> stores m' (T(ll \<mapsto> filter odd vs @ filter even vs)) \<and> printed m' = printed m))"
proof -
  have odds: "(\<lambda>i :: int. i smod 2 \<noteq> 0) = odd" and evens: "(\<lambda>i :: int. i smod 2 = 0) = even" using smod_2 by blast+
  show ?thesis
    using moveItems_spec [OF assms, of odd] moveItems_spec [OF assms, of even]
    unfolding moveOddItemsToBackLL_def moveEvenItemsToBackLL_def odds evens by simp
qed

theorem moveOddEven_witness:
  "(\<exists>m'. moveOddItemsToBackLL demo 1 = Some m' \<and> stores m' (demo_lists(1 \<mapsto> [2, 1, 5]))) \<and>
   (\<exists>m'. moveEvenItemsToBackLL demo 1 = Some m' \<and> stores m' (demo_lists(1 \<mapsto> [1, 5, 2])))"
  using moveOddEven_correct [OF demo_stores, of 1 "[1, 2, 5]"] by auto

text \<open>When the last of at least two items is the only odd one, moving the odd items to the back unlinks it: the list ends before it, with the size as it was.\<close>

theorem moveOdd_loses_last:
  assumes "stores m T" "T ll = Some (us @ [v])" "us \<noteq> []" "\<forall>u\<in>set us. even u" "odd v"
  shows "\<exists>m' p. moveOddItemsToBackLL m ll = Some m' \<and> lists m' ll = Some \<lparr>lsize = int (length us) + 1, head = p\<rparr> \<and> linked m' p us"
proof -
  have "(\<lambda>i :: int. i smod 2 \<noteq> 0) = odd" using smod_2 by blast
  then show ?thesis unfolding moveOddItemsToBackLL_def using moveItems_loses_last [OF assms(1-3), of odd] assms(4,5) by simp
qed

theorem moveOdd_loses_last_witness:
  "\<exists>m' p. moveOddItemsToBackLL demo 2 = Some m' \<and> lists m' 2 = Some \<lparr>lsize = 2, head = p\<rparr> \<and> linked m' p [4]"
  using moveOdd_loses_last [OF demo_stores, of 2 "[4]" 7] by simp

text \<open>On a chain of nodes, \<open>moveMaxToFront\<close> moves the first of the greatest items to the front and \<open>recursiveReverse\<close> reverses the chain; both update the pointer to the head.\<close>

theorem max_and_reverse_correct:
  assumes "linked m p vs" "vs \<noteq> []"
  shows "(\<exists>m' p'. moveMaxToFront m (Some p) = Some (1, Some p', m') \<and> linked m' p' (Max (set vs) # remove1 (Max (set vs)) vs)) \<and>
    (\<exists>m' p'. recursiveReverse m (Some p) = Some (Some p', m') \<and> linked m' p' (rev vs))"
  using moveMax_spec [OF assms] recursiveReverse_spec [OF assms(1)] by simp

theorem max_and_reverse_witness:
  "(\<exists>m' p'. moveMaxToFront demo (Some 3) = Some (1, Some p', m') \<and> linked m' p' [5, 1, 2]) \<and>
   (\<exists>m' p'. recursiveReverse demo (Some 3) = Some (Some p', m') \<and> linked m' p' [5, 2, 1])"
proof -
  have "linked demo 3 [1, 2, 5]" unfolding linked_def
    by (intro exI [of _ "[(3, 1), (4, 2), (5, 5)]"]) (simp add: demo_def)
  from max_and_reverse_correct [OF this] show ?thesis by simp
qed

text \<open>C28: \<open>balanced\<close> returns 1 exactly for the strings of the grammar of balanced brackets, and 0 for every other string.\<close>

theorem balanced_iff_grammar:
  assumes "stores m T" "0 \<notin> set cs" "2 * int (length cs) + 1 < 2 ^ 31"
  shows "\<exists>m'. balanced m (cs @ [0]) = Some (if balanced_text cs then 1 else 0, m') \<and> stores m' T \<and> printed m' = printed m"
  by (rule balanced_spec [OF assms])

theorem balanced_witness:
  "\<exists>m'. balanced demo (map of_char ''([]){}'' @ [0]) = Some (1, m')"
proof -
  have "closes [] (map of_char ''([]){}'')" by (simp add: opens_def getClosingBracket_def of_char_def)
  then have "balanced_text (map of_char ''([]){}'')" unfolding closes_iff .
  then show ?thesis using balanced_iff_grammar [OF demo_stores, of "map of_char ''([]){}''"] by (auto simp: of_char_def)
qed

text \<open>C30: The exercises on stacks and queues compute the list operations they stand for: loading a stack or a queue from a linked list, removing the even or the odd values, removing until a value, the two reversals of a queue, and the test for consecutive pairs, which empties the stack down to the first pair that fails.\<close>

theorem stack_queue_exercises_correct:
  assumes "stores m T" "T s = Some vs" "T ll = Some us" "ll \<noteq> s"
    and "int (length vs) + 1 < 2 ^ 31" "int (length us) + 1 < 2 ^ 31" "\<forall>v\<in>set vs. \<bar>v\<bar> < 2 ^ 30"
  shows "(\<exists>m'. createStackFromLinkedList m ll s = Some m' \<and> stores m' (T(s \<mapsto> rev us))) \<and>
    (\<exists>m'. createQueueFromLinkedList m ll s = Some m' \<and> stores m' (T(s \<mapsto> us))) \<and>
    (\<exists>m'. removeEvenValues m s = Some m' \<and> stores m' (T(s \<mapsto> filter odd vs))) \<and>
    (\<exists>m'. removeOddValues m s = Some m' \<and> stores m' (T(s \<mapsto> filter even vs))) \<and>
    (\<exists>m'. removeUntilStack m s v = Some m' \<and> stores m' (T(s \<mapsto> dropWhile (\<lambda>x. x \<noteq> v) vs))) \<and>
    (\<exists>m'. reverse m s = Some m' \<and> stores m' (T(s \<mapsto> rev vs))) \<and>
    (\<exists>m'. recursiveReverseQueue m s = Some m' \<and> stores m' (T(s \<mapsto> rev vs))) \<and>
    (\<exists>m'. isStackPairwiseConsecutive m s = Some (if pairwise_consecutive vs then 1 else 0, m') \<and>
      stores m' (T(s \<mapsto> if pairwise_consecutive vs \<or> odd (length vs) then vs else behind_pairs vs)))"
  using createStack_spec [OF assms(1,3,2,4,6)] createQueue_spec [OF assms(1,3,2,4,6)] removeEven_spec [OF assms(1,2,5)]
    removeOdd_spec [OF assms(1,2)] removeUntil_spec [OF assms(1,2), of v] reverse_spec [OF assms(1,2,5)]
    recursiveReverseQueue_spec [OF assms(1,2)] pairwise_spec [OF assms(1,2,5,7)] by blast

theorem stack_queue_exercises_witness:
  "(\<exists>m'. createStackFromLinkedList demo 1 2 = Some m' \<and> stores m' (demo_lists(2 \<mapsto> [5, 2, 1]))) \<and>
   (\<exists>m'. isStackPairwiseConsecutive demo 2 = Some (0, m') \<and> stores m' (demo_lists(2 \<mapsto> [])))"
  using stack_queue_exercises_correct [OF demo_stores, of 2 "[4, 7]" 1 "[1, 2, 5]"] by auto

end
