(* ===== verification/BinTree.thy ===== *)
theory BinTree
  imports Prelude "HOL-Library.Signed_Division"
begin

text \<open>
  The binary trees of \<open>Data-Structures/tests/binary_tree.c\<close> and the binary search trees of \<open>binary_search_tree.c\<close>,
  whose nodes are the same structure.

  The state maps addresses to the nodes of trees, of stacks and of queues. \<open>malloc\<close> succeeds with the address of the counter
  \<open>next_addr\<close>. A pointer to a pointer (\<open>removeAll\<close>, \<open>insertBSTNode\<close>, \<open>enqueue\<close>) is a pointer that is passed in and
  the new one that is passed back, which the caller stores where the old one was. What is printed is a list of numbers,
  with the format \<open>%d\<close> or with a blank behind it.
\<close>

datatype shown = Plain int | Spaced int

record tnode =
  item :: int
  left :: addr
  right :: addr

record snode =
  sdata :: addr
  snext :: addr

record qnode =
  qdata :: addr
  nextPtr :: addr

record tmem =
  tnodes :: "addr \<rightharpoonup> tnode"
  snodes :: "addr \<rightharpoonup> snode"
  qnodes :: "addr \<rightharpoonup> qnode"
  next_addr :: addr
  output_so_far :: "shown list"

definition print_int :: "tmem \<Rightarrow> shown \<Rightarrow> tmem" where
  "print_int m s = m\<lparr>output_so_far := output_so_far m @ [s]\<rparr>"

definition set_left :: "tmem \<Rightarrow> addr \<Rightarrow> addr \<Rightarrow> tmem option" where
  "set_left m p q = (case tnodes m p of None \<Rightarrow> None | Some x \<Rightarrow> Some (m\<lparr>tnodes := (tnodes m)(p \<mapsto> x\<lparr>left := q\<rparr>)\<rparr>))"

definition set_right :: "tmem \<Rightarrow> addr \<Rightarrow> addr \<Rightarrow> tmem option" where
  "set_right m p q = (case tnodes m p of None \<Rightarrow> None | Some x \<Rightarrow> Some (m\<lparr>tnodes := (tnodes m)(p \<mapsto> x\<lparr>right := q\<rparr>)\<rparr>))"

definition set_item :: "tmem \<Rightarrow> addr \<Rightarrow> int \<Rightarrow> tmem option" where
  "set_item m p v = (case tnodes m p of None \<Rightarrow> None | Some x \<Rightarrow> Some (m\<lparr>tnodes := (tnodes m)(p \<mapsto> x\<lparr>item := v\<rparr>)\<rparr>))"

definition free_tnode :: "tmem \<Rightarrow> addr \<Rightarrow> tmem option" where
  "free_tnode m p = (if tnodes m p = None then None else Some (m\<lparr>tnodes := (tnodes m)(p := None)\<rparr>))"

subsection \<open>Binary trees\<close>

partial_function (option) identical :: "tmem \<Rightarrow> addr \<Rightarrow> addr \<Rightarrow> int option" where
  "identical m tree1 tree2 =
     (if tree1 = NULL \<and> tree2 = NULL then Some 1
      else if tree1 = NULL \<or> tree2 = NULL then Some 0
      else do {
        x \<leftarrow> tnodes m tree1;
        y \<leftarrow> tnodes m tree2;
        if item x \<noteq> item y then Some 0
        else do {
          l \<leftarrow> identical m (left x) (left y);
          if l = 0 then Some 0
          else do {
            r \<leftarrow> identical m (right x) (right y);
            Some (if r \<noteq> 0 then 1 else 0)
          }
        }
      })"

definition max_int :: "int \<Rightarrow> int \<Rightarrow> int" where
  "max_int a b = (if a > b then a else b)"

definition min_int :: "int \<Rightarrow> int \<Rightarrow> int" where
  "min_int a b = (if a > b then b else a)"

partial_function (option) maxHeight :: "tmem \<Rightarrow> addr \<Rightarrow> int option" where
  "maxHeight m node =
     (if node = NULL then Some (-1)
      else do {
        x \<leftarrow> tnodes m node;
        l \<leftarrow> maxHeight m (left x);
        r \<leftarrow> maxHeight m (right x);
        checked (max_int l r + 1)
      })"

partial_function (option) countOneChildNodes :: "tmem \<Rightarrow> addr \<Rightarrow> int option" where
  "countOneChildNodes m node =
     (if node = NULL then Some 0
      else do {
        x \<leftarrow> tnodes m node;
        if left x = NULL \<and> right x \<noteq> NULL then do {
          c \<leftarrow> countOneChildNodes m (right x);
          checked (c + 1)
        } else if right x = NULL \<and> left x \<noteq> NULL then do {
          c \<leftarrow> countOneChildNodes m (left x);
          checked (c + 1)
        } else if right x \<noteq> NULL \<and> left x \<noteq> NULL then do {
          c \<leftarrow> countOneChildNodes m (left x);
          d \<leftarrow> countOneChildNodes m (right x);
          checked (c + d)
        } else Some 0
      })"

partial_function (option) sumOfOddNodes :: "tmem \<Rightarrow> addr \<Rightarrow> int option" where
  "sumOfOddNodes m node =
     (if node = NULL then Some 0
      else do {
        x \<leftarrow> tnodes m node;
        let odd = (if item x smod 2 \<noteq> 0 then item x else 0);
        if left x \<noteq> NULL \<and> right x \<noteq> NULL then do {
          l \<leftarrow> sumOfOddNodes m (left x);
          s \<leftarrow> checked (odd + l);
          r \<leftarrow> sumOfOddNodes m (right x);
          checked (s + r)
        } else if left x = NULL then do {
          r \<leftarrow> sumOfOddNodes m (right x);
          checked (odd + r)
        } else if right x = NULL then do {
          l \<leftarrow> sumOfOddNodes m (left x);
          checked (odd + l)
        } else Some odd
      })"

partial_function (option) mirrorTree :: "tmem \<Rightarrow> addr \<Rightarrow> tmem option" where
  "mirrorTree m node =
     (if node = NULL then Some m
      else do {
        x \<leftarrow> tnodes m node;
        let temp = left x;
        m \<leftarrow> set_left m node (right x);
        m \<leftarrow> set_right m node temp;
        x \<leftarrow> tnodes m node;
        if left x = NULL then mirrorTree m (right x)
        else if right x = NULL then mirrorTree m (left x)
        else do {
          m \<leftarrow> mirrorTree m (left x);
          x \<leftarrow> tnodes m node;
          mirrorTree m (right x)
        }
      })"

partial_function (option) printSmallerValues :: "tmem \<Rightarrow> addr \<Rightarrow> int \<Rightarrow> tmem option" where
  "printSmallerValues m node v =
     (if node = NULL then Some m
      else do {
        x \<leftarrow> tnodes m node;
        let m = (if item x < v then print_int m (Plain (item x)) else m);
        m \<leftarrow> (if left x \<noteq> NULL then printSmallerValues m (left x) v else Some m);
        if right x \<noteq> NULL then printSmallerValues m (right x) v else Some m
      })"

partial_function (option) smallestValue :: "tmem \<Rightarrow> addr \<Rightarrow> int option" where
  "smallestValue m node =
     (if node = NULL then Some 1000000
      else do {
        x \<leftarrow> tnodes m node;
        l \<leftarrow> (if left x \<noteq> NULL then do { s \<leftarrow> smallestValue m (left x); Some (min_int s (item x)) } else Some (item x));
        r \<leftarrow> (if right x \<noteq> NULL then do { s \<leftarrow> smallestValue m (right x); Some (min_int (item x) s) } else Some (item x));
        Some (min_int l r)
      })"

partial_function (option) hasGreatGrandchild :: "tmem \<Rightarrow> addr \<Rightarrow> (int \<times> tmem) option" where
  "hasGreatGrandchild m node =
     (if node = NULL then Some (0, m)
      else do {
        x \<leftarrow> tnodes m node;
        (ld, m) \<leftarrow> hasGreatGrandchild m (left x);
        (rd, m) \<leftarrow> hasGreatGrandchild m (right x);
        count \<leftarrow> checked (ld + rd);
        depth \<leftarrow> maxHeight m node;
        if depth \<ge> 3 then do {
          let m = print_int m (Spaced (item x));
          count \<leftarrow> checked (count + 1);
          Some (count, m)
        } else Some (count, m)
      })"

definition createBTNode :: "tmem \<Rightarrow> int \<Rightarrow> addr \<times> tmem" where
  "createBTNode m v =
     (next_addr m, m\<lparr>tnodes := (tnodes m)(next_addr m \<mapsto> \<lparr>item = v, left = NULL, right = NULL\<rparr>), next_addr := next_addr m + 1\<rparr>)"

partial_function (option) printTree :: "tmem \<Rightarrow> addr \<Rightarrow> tmem option" where
  "printTree m node =
     (if node = NULL then Some m
      else do {
        x \<leftarrow> tnodes m node;
        m \<leftarrow> printTree m (left x);
        printTree (print_int m (Spaced (item x))) (right x)
      })"

partial_function (option) removeAll :: "tmem \<Rightarrow> addr \<Rightarrow> (addr \<times> tmem) option" where
  "removeAll m node =
     (if node \<noteq> NULL then do {
        x \<leftarrow> tnodes m node;
        (l, m) \<leftarrow> removeAll m (left x);
        m \<leftarrow> set_left m node l;
        x \<leftarrow> tnodes m node;
        (r, m) \<leftarrow> removeAll m (right x);
        m \<leftarrow> set_right m node r;
        m \<leftarrow> free_tnode m node;
        Some (NULL, m)
      } else Some (node, m))"

definition removeAllStack :: "tmem \<Rightarrow> addr \<Rightarrow> (addr \<times> tmem) option" where
  "removeAllStack m node =
     (if node \<noteq> NULL then do {
        x \<leftarrow> tnodes m node;
        (l, m) \<leftarrow> removeAll m (left x);
        m \<leftarrow> set_left m node l;
        x \<leftarrow> tnodes m node;
        (r, m) \<leftarrow> removeAll m (right x);
        m \<leftarrow> set_right m node r;
        m \<leftarrow> free_tnode m node;
        Some (NULL, m)
      } else Some (node, m))"

subsection \<open>Stacks and queues of nodes\<close>

text \<open>A \<open>Stack\<close> is its \<open>top\<close>.\<close>

definition push_node :: "tmem \<Rightarrow> addr \<Rightarrow> addr \<Rightarrow> addr \<times> tmem" where
  "push_node m stk node = (next_addr m, m\<lparr>snodes := (snodes m)(next_addr m \<mapsto> \<lparr>sdata = node, snext = stk\<rparr>), next_addr := next_addr m + 1\<rparr>)"

definition pop_node :: "tmem \<Rightarrow> addr \<Rightarrow> (addr \<times> addr \<times> tmem) option" where
  "pop_node m stk =
     (if stk \<noteq> NULL then do {
        t \<leftarrow> snodes m stk;
        Some (sdata t, snext t, m\<lparr>snodes := (snodes m)(stk := None)\<rparr>)
      } else Some (NULL, stk, m))"

definition peek_node :: "tmem \<Rightarrow> addr \<Rightarrow> addr option" where
  "peek_node m stk = (if stk \<noteq> NULL then map_option sdata (snodes m stk) else Some NULL)"

definition isEmptyStack_node :: "addr \<Rightarrow> bool" where
  "isEmptyStack_node stk = (stk = NULL)"

text \<open>A queue is its \<open>head\<close> and its \<open>tail\<close>.\<close>

definition isEmpty :: "addr \<Rightarrow> bool" where
  "isEmpty head = (head = NULL)"

definition enqueue_node :: "tmem \<Rightarrow> addr \<Rightarrow> addr \<Rightarrow> addr \<Rightarrow> (addr \<times> addr \<times> tmem) option" where
  "enqueue_node m head tail node = do {
     let new = next_addr m;
     let m = m\<lparr>qnodes := (qnodes m)(new \<mapsto> \<lparr>qdata = node, nextPtr = NULL\<rparr>), next_addr := new + 1\<rparr>;
     if isEmpty head then Some (new, new, m)
     else do {
       t \<leftarrow> qnodes m tail;
       Some (head, new, m\<lparr>qnodes := (qnodes m)(tail \<mapsto> t\<lparr>nextPtr := new\<rparr>)\<rparr>)
     }
   }"

definition dequeue_node :: "tmem \<Rightarrow> addr \<Rightarrow> addr \<Rightarrow> (addr \<times> addr \<times> addr \<times> tmem) option" where
  "dequeue_node m head tail = do {
     h \<leftarrow> qnodes m head;
     let tail = (if nextPtr h = NULL then NULL else tail);
     Some (qdata h, nextPtr h, tail, m\<lparr>qnodes := (qnodes m)(head := None)\<rparr>)
   }"

partial_function (option) length_loop :: "tmem \<Rightarrow> addr \<Rightarrow> int \<Rightarrow> int option" where
  "length_loop m node count =
     (if node \<noteq> NULL then do {
        x \<leftarrow> qnodes m node;
        count \<leftarrow> checked (count + 1);
        length_loop m (nextPtr x) count
      } else Some count)"

definition findLengthQueue :: "tmem \<Rightarrow> addr \<Rightarrow> int option" where
  "findLengthQueue m head = (if isEmpty head then Some 0 else length_loop m head 0)"

subsection \<open>Reading a tree\<close>

text \<open>
  The answers of the two calls of \<open>scanf\<close> at one prompt: \<open>Some n\<close> when a number was read, \<open>None\<close> when there was none and a character
  was skipped; at the end of the input there is no number.
\<close>

definition scan :: "int option list \<Rightarrow> int option \<times> int option list" where
  "scan inp = (case inp of [] \<Rightarrow> (None, []) | a # inp \<Rightarrow> (a, inp))"

definition read_child :: "tmem \<Rightarrow> int option list \<Rightarrow> addr \<times> tmem \<times> int option list" where
  "read_child m inp =
     (let (a, inp) = scan inp
      in case a of None \<Rightarrow> (NULL, m, inp) | Some v \<Rightarrow> (let (p, m) = createBTNode m v in (p, m, inp)))"

partial_function (option) create_loop :: "tmem \<Rightarrow> addr \<Rightarrow> int option list \<Rightarrow> (tmem \<times> int option list) option" where
  "create_loop m stk inp = do {
     (temp, stk, m) \<leftarrow> pop_node m stk;
     if temp \<noteq> NULL then do {
       let (p, m, inp) = read_child m inp;
       m \<leftarrow> (if p \<noteq> NULL then set_left m temp p else Some m);
       let (q, m, inp) = read_child m inp;
       m \<leftarrow> (if q \<noteq> NULL then set_right m temp q else Some m);
       x \<leftarrow> tnodes m temp;
       let (stk, m) = (if right x \<noteq> NULL then push_node m stk (right x) else (stk, m));
       let (stk, m) = (if left x \<noteq> NULL then push_node m stk (left x) else (stk, m));
       create_loop m stk inp
     } else Some (m, inp)
   }"

definition createTree :: "tmem \<Rightarrow> int option list \<Rightarrow> (addr \<times> tmem \<times> int option list) option" where
  "createTree m inp = do {
     let (root, m, inp) = read_child m inp;
     let (stk, m) = (if root \<noteq> NULL then push_node m NULL root else (NULL, m));
     (m, inp) \<leftarrow> create_loop m stk inp;
     Some (root, m, inp)
   }"

subsection \<open>Binary search trees\<close>

partial_function (option) insertBSTNode :: "tmem \<Rightarrow> addr \<Rightarrow> int \<Rightarrow> (addr \<times> tmem) option" where
  "insertBSTNode m node v =
     (if node = NULL then Some (createBTNode m v)
      else do {
        x \<leftarrow> tnodes m node;
        if v < item x then do {
          (l, m) \<leftarrow> insertBSTNode m (left x) v;
          m \<leftarrow> set_left m node l;
          Some (node, m)
        } else if v > item x then do {
          (r, m) \<leftarrow> insertBSTNode m (right x) v;
          m \<leftarrow> set_right m node r;
          Some (node, m)
        } else Some (node, m)
      })"

partial_function (option) leftmost :: "tmem \<Rightarrow> addr \<Rightarrow> addr option" where
  "leftmost m succ = do {
     s \<leftarrow> tnodes m succ;
     if left s \<noteq> NULL then leftmost m (left s) else Some succ
   }"

partial_function (option) removeNodeFromTree :: "tmem \<Rightarrow> addr \<Rightarrow> int \<Rightarrow> (addr \<times> tmem) option" where
  "removeNodeFromTree m root v =
     (if root = NULL then Some (NULL, m)
      else do {
        x \<leftarrow> tnodes m root;
        if v < item x then do {
          (l, m) \<leftarrow> removeNodeFromTree m (left x) v;
          m \<leftarrow> set_left m root l;
          Some (root, m)
        } else if v > item x then do {
          (r, m) \<leftarrow> removeNodeFromTree m (right x) v;
          m \<leftarrow> set_right m root r;
          Some (root, m)
        } else if left x = NULL \<and> right x = NULL then do {
          m \<leftarrow> free_tnode m root;
          Some (NULL, m)
        } else if left x \<noteq> NULL \<and> right x \<noteq> NULL then do {
          succ \<leftarrow> leftmost m (right x);
          s \<leftarrow> tnodes m succ;
          m \<leftarrow> set_item m root (item s);
          x \<leftarrow> tnodes m root;
          s \<leftarrow> tnodes m succ;
          (r, m) \<leftarrow> removeNodeFromTree m (right x) (item s);
          m \<leftarrow> set_right m root r;
          Some (root, m)
        } else if left x \<noteq> NULL then do {
          let l = left x;
          m \<leftarrow> free_tnode m root;
          Some (l, m)
        } else do {
          let r = right x;
          m \<leftarrow> free_tnode m root;
          Some (r, m)
        }
      })"

subsection \<open>Traversals\<close>

partial_function (option) level_for :: "tmem \<Rightarrow> addr \<Rightarrow> addr \<Rightarrow> int \<Rightarrow> int \<Rightarrow> (addr \<times> addr \<times> tmem) option" where
  "level_for m head tail i count =
     (if i < count then do {
        (p, head, tail, m) \<leftarrow> dequeue_node m head tail;
        x \<leftarrow> tnodes m p;
        let m = print_int m (Spaced (item x));
        (head, tail, m) \<leftarrow> (if left x \<noteq> NULL then enqueue_node m head tail (left x) else Some (head, tail, m));
        (head, tail, m) \<leftarrow> (if right x \<noteq> NULL then enqueue_node m head tail (right x) else Some (head, tail, m));
        i \<leftarrow> checked (i + 1);
        level_for m head tail i count
      } else Some (head, tail, m))"

partial_function (option) level_while :: "tmem \<Rightarrow> addr \<Rightarrow> addr \<Rightarrow> tmem option" where
  "level_while m head tail =
     (if \<not> isEmpty head then do {
        count \<leftarrow> findLengthQueue m head;
        (head, tail, m) \<leftarrow> level_for m head tail 0 count;
        level_while m head tail
      } else Some m)"

definition levelOrderTraversal :: "tmem \<Rightarrow> addr \<Rightarrow> tmem option" where
  "levelOrderTraversal m root =
     (if root = NULL then Some m
      else do {
        (head, tail, m) \<leftarrow> enqueue_node m NULL NULL root;
        level_while m head tail
      })"

partial_function (option) push_left :: "tmem \<Rightarrow> addr \<Rightarrow> addr \<Rightarrow> (addr \<times> tmem) option" where
  "push_left m stk cur =
     (if cur \<noteq> NULL then do {
        let (stk, m) = push_node m stk cur;
        x \<leftarrow> tnodes m cur;
        push_left m stk (left x)
      } else Some (stk, m))"

partial_function (option) in_loop :: "tmem \<Rightarrow> addr \<Rightarrow> addr \<Rightarrow> tmem option" where
  "in_loop m stk cur =
     (if cur \<noteq> NULL \<or> \<not> isEmptyStack_node stk then do {
        (stk, m) \<leftarrow> push_left m stk cur;
        (node, stk, m) \<leftarrow> pop_node m stk;
        x \<leftarrow> tnodes m node;
        in_loop (print_int m (Spaced (item x))) stk (right x)
      } else Some m)"

definition inOrderIterative :: "tmem \<Rightarrow> addr \<Rightarrow> tmem option" where
  "inOrderIterative m root = (if root = NULL then Some m else in_loop m NULL root)"

text \<open>The body of \<open>preOrderIterative\<close> is a copy of that of \<open>inOrderIterative\<close>.\<close>

definition preOrderIterative :: "tmem \<Rightarrow> addr \<Rightarrow> tmem option" where
  "preOrderIterative m root = (if root = NULL then Some m else in_loop m NULL root)"

partial_function (option) post1_loop :: "tmem \<Rightarrow> addr \<Rightarrow> addr \<Rightarrow> addr \<Rightarrow> tmem option" where
  "post1_loop m stk cur lastVisited =
     (if cur \<noteq> NULL \<or> \<not> isEmptyStack_node stk then do {
        (stk, m) \<leftarrow> push_left m stk cur;
        p \<leftarrow> peek_node m stk;
        x \<leftarrow> tnodes m p;
        if right x \<noteq> NULL \<and> lastVisited \<noteq> right x then post1_loop m stk (right x) lastVisited
        else do {
          (popped, stk, m) \<leftarrow> pop_node m stk;
          y \<leftarrow> tnodes m popped;
          post1_loop (print_int m (Spaced (item y))) stk NULL popped
        }
      } else Some m)"

definition postOrderIterativeS1 :: "tmem \<Rightarrow> addr \<Rightarrow> tmem option" where
  "postOrderIterativeS1 m root = (if root = NULL then Some m else post1_loop m NULL root NULL)"

partial_function (option) post2_fill :: "tmem \<Rightarrow> addr \<Rightarrow> addr \<Rightarrow> (addr \<times> tmem) option" where
  "post2_fill m s1 s2 =
     (if \<not> isEmptyStack_node s1 then do {
        (node, s1, m) \<leftarrow> pop_node m s1;
        let (s2, m) = push_node m s2 node;
        x \<leftarrow> tnodes m node;
        let (s1, m) = (if left x \<noteq> NULL then push_node m s1 (left x) else (s1, m));
        let (s1, m) = (if right x \<noteq> NULL then push_node m s1 (right x) else (s1, m));
        post2_fill m s1 s2
      } else Some (s2, m))"

partial_function (option) post2_print :: "tmem \<Rightarrow> addr \<Rightarrow> tmem option" where
  "post2_print m s2 =
     (if \<not> isEmptyStack_node s2 then do {
        (node, s2, m) \<leftarrow> pop_node m s2;
        x \<leftarrow> tnodes m node;
        post2_print (print_int m (Spaced (item x))) s2
      } else Some m)"

definition postOrderIterativeS2 :: "tmem \<Rightarrow> addr \<Rightarrow> tmem option" where
  "postOrderIterativeS2 m root =
     (if root = NULL then Some m
      else do {
        let (s1, m) = push_node m NULL root;
        (s2, m) \<leftarrow> post2_fill m s1 NULL;
        post2_print m s2
      })"

declare identical.simps [code] maxHeight.simps [code] countOneChildNodes.simps [code] sumOfOddNodes.simps [code] mirrorTree.simps [code]
  printSmallerValues.simps [code] smallestValue.simps [code] hasGreatGrandchild.simps [code] printTree.simps [code] removeAll.simps [code]
  length_loop.simps [code] create_loop.simps [code] insertBSTNode.simps [code] leftmost.simps [code] removeNodeFromTree.simps [code]
  level_for.simps [code] level_while.simps [code] push_left.simps [code] in_loop.simps [code] post1_loop.simps [code]
  post2_fill.simps [code] post2_print.simps [code]

end
