(* ===== verification/BinTreeInv.thy ===== *)
theory BinTreeInv
  imports BinTree "HOL-Library.Tree"
begin

text \<open>
  The trees on the heap as trees of Isabelle: \<open>tree_at h p t\<close> says that the pointer \<open>p\<close> leads to the tree \<open>t\<close>, whose
  labels are an address and an item. The functions of \<open>binary_tree.c\<close> that only read a tree, with what they compute on it.
\<close>

type_synonym ntree = "(addr \<times> int) tree"

fun tree_at :: "(addr \<rightharpoonup> tnode) \<Rightarrow> addr \<Rightarrow> ntree \<Rightarrow> bool" where
  "tree_at h p Leaf = (p = NULL)"
| "tree_at h p (Node l x r) = (p = fst x \<and> p \<noteq> NULL \<and>
     (\<exists>q s. h p = Some \<lparr>item = snd x, left = q, right = s\<rparr> \<and> tree_at h q l \<and> tree_at h s r))"

abbreviation itree :: "ntree \<Rightarrow> int tree" where
  "itree t \<equiv> map_tree snd t"

abbreviation naddrs :: "ntree \<Rightarrow> addr set" where
  "naddrs t \<equiv> fst ` set_tree t"

declare image_Un [simp]

text \<open>No node occurs twice.\<close>

fun apart_tree :: "ntree \<Rightarrow> bool" where
  "apart_tree Leaf = True"
| "apart_tree (Node l x r) = (fst x \<notin> naddrs l \<and> fst x \<notin> naddrs r \<and> naddrs l \<inter> naddrs r = {} \<and> apart_tree l \<and> apart_tree r)"

definition root_addr :: "ntree \<Rightarrow> addr" where
  "root_addr t = (case t of Leaf \<Rightarrow> NULL | Node l x r \<Rightarrow> fst x)"

lemma root_addr_simps [simp]: "root_addr Leaf = NULL" "root_addr (Node l x r) = fst x"
  by (simp_all add: root_addr_def)

lemma tree_at_root: "tree_at h p t \<Longrightarrow> p = root_addr t"
  by (cases t) auto

lemma tree_at_NULL [simp]: "tree_at h NULL t \<longleftrightarrow> t = Leaf"
  by (cases t) auto

lemma root_addr_NULL: "tree_at h p t \<Longrightarrow> root_addr t = NULL \<longleftrightarrow> t = Leaf"
  by (cases t) auto

lemma tree_at_cong: "tree_at h p t \<Longrightarrow> (\<And>a. a \<in> naddrs t \<Longrightarrow> h' a = h a) \<Longrightarrow> tree_at h' p t"
  by (induction t arbitrary: p) auto

lemma tree_at_upd [simp]: "a \<notin> naddrs t \<Longrightarrow> tree_at (h(a := v)) p t = tree_at h p t"
  by (induction t arbitrary: p) auto

lemma tree_at_mapped: "tree_at h p t \<Longrightarrow> a \<in> naddrs t \<Longrightarrow> \<exists>n. h a = Some n"
proof (induction t arbitrary: p)
  case (Node l x r)
  then show ?case by simp blast
qed simp

lemma tree_at_not_NULL: "tree_at h p t \<Longrightarrow> NULL \<notin> naddrs t"
  by (induction t arbitrary: p) auto

lemma tree_at_Node:
  assumes "tree_at h p (Node l x r)"
  obtains q s where "p = fst x" "fst x \<noteq> NULL" "h (fst x) = Some \<lparr>item = snd x, left = q, right = s\<rparr>"
    "tree_at h q l" "tree_at h s r" "q = NULL \<longleftrightarrow> l = Leaf" "s = NULL \<longleftrightarrow> r = Leaf"
proof -
  from assms obtain q s where a: "p = fst x" "fst x \<noteq> NULL" "h (fst x) = Some \<lparr>item = snd x, left = q, right = s\<rparr>"
    "tree_at h q l" "tree_at h s r" by auto
  then have "q = NULL \<longleftrightarrow> l = Leaf" "s = NULL \<longleftrightarrow> r = Leaf" by (cases l; auto) (cases r; use a in auto)
  then show ?thesis using that a by blast
qed

subsection \<open>What the functions compute\<close>

fun one_child :: "'a tree \<Rightarrow> nat" where
  "one_child Leaf = 0"
| "one_child (Node l x r) = (if (l = Leaf) \<noteq> (r = Leaf) then 1 else 0) + one_child l + one_child r"

fun sum_odd :: "int tree \<Rightarrow> int" where
  "sum_odd Leaf = 0"
| "sum_odd (Node l x r) = (if odd x then x else 0) + sum_odd l + sum_odd r"

fun sum_abs :: "int tree \<Rightarrow> int" where
  "sum_abs Leaf = 0"
| "sum_abs (Node l x r) = \<bar>x\<bar> + sum_abs l + sum_abs r"

text \<open>The nodes below which a path of three more nodes starts, in the order of the recursion.\<close>

fun great_grandparents :: "'a tree \<Rightarrow> 'a list" where
  "great_grandparents Leaf = []"
| "great_grandparents (Node l x r) =
     great_grandparents l @ great_grandparents r @ (if height (Node l x r) \<ge> 4 then [x] else [])"

lemma identical_trees:
  "tree_at (tnodes m) p t \<Longrightarrow> tree_at (tnodes m) q u \<Longrightarrow> identical m p q = Some (if itree t = itree u then 1 else 0)"
proof (induction t arbitrary: p q u)
  case Leaf
  then show ?case by (cases u) (auto simp: identical.simps [of m])
next
  case (Node l x r)
  show ?case
  proof (cases u)
    case Leaf
    then show ?thesis using Node.prems by (auto simp: identical.simps [of m])
  next
    case u: (Node l' y r')
    from Node.prems(1) obtain a b where x: "p = fst x" "fst x \<noteq> NULL" "tnodes m (fst x) = Some \<lparr>item = snd x, left = a, right = b\<rparr>"
        "tree_at (tnodes m) a l" "tree_at (tnodes m) b r" by (rule tree_at_Node)
    from Node.prems(2) [unfolded u] obtain a' b' where y: "q = fst y" "fst y \<noteq> NULL" "tnodes m (fst y) = Some \<lparr>item = snd y, left = a', right = b'\<rparr>"
        "tree_at (tnodes m) a' l'" "tree_at (tnodes m) b' r'" by (rule tree_at_Node)
    show ?thesis using x y u Node.IH(1) [OF x(4) y(4)] Node.IH(2) [OF x(5) y(5)] by (simp add: identical.simps [of m "fst x"])
  qed
qed

lemma maxHeight_tree:
  "tree_at (tnodes m) p t \<Longrightarrow> int (height t) < 2 ^ 31 \<Longrightarrow> maxHeight m p = Some (int (height t) - 1)"
proof (induction t arbitrary: p)
  case Leaf
  then show ?case by (simp add: maxHeight.simps)
next
  case (Node l x r)
  from Node.prems(1) obtain a b where x: "p = fst x" "fst x \<noteq> NULL" "tnodes m (fst x) = Some \<lparr>item = snd x, left = a, right = b\<rparr>"
      "tree_at (tnodes m) a l" "tree_at (tnodes m) b r" by (rule tree_at_Node)
  show ?case using x Node.IH(1) [OF x(4)] Node.IH(2) [OF x(5)] Node.prems(2)
    by (simp add: maxHeight.simps [of m "fst x"] max_int_def checked_def)
qed

lemma one_child_size: "one_child t \<le> size t"
  by (induction t) auto

lemma countOneChildNodes_tree:
  "tree_at (tnodes m) p t \<Longrightarrow> int (size t) < 2 ^ 31 \<Longrightarrow> countOneChildNodes m p = Some (int (one_child t))"
proof (induction t arbitrary: p)
  case Leaf
  then show ?case by (simp add: countOneChildNodes.simps)
next
  case (Node l x r)
  from Node.prems(1) obtain a b where x: "p = fst x" "fst x \<noteq> NULL" "tnodes m (fst x) = Some \<lparr>item = snd x, left = a, right = b\<rparr>"
      "tree_at (tnodes m) a l" "tree_at (tnodes m) b r" "a = NULL \<longleftrightarrow> l = Leaf" "b = NULL \<longleftrightarrow> r = Leaf" by (rule tree_at_Node)
  have bounds: "int (one_child l) + int (one_child r) < 2 ^ 31 - 1"
    using one_child_size [of l] one_child_size [of r] Node.prems(2) by simp
  show ?case using x Node.IH(1) [OF x(4)] Node.IH(2) [OF x(5)] Node.prems(2) bounds
    by (cases "l = Leaf"; cases "r = Leaf") (simp_all add: countOneChildNodes.simps [of m "fst x"] checked_def)
qed

lemma sum_odd_abs: "\<bar>sum_odd t\<bar> \<le> sum_abs t"
  by (induction t) auto

lemma sum_abs_pos: "0 \<le> sum_abs t"
  by (induction t) auto

lemma smod_2_zero: "v smod 2 = 0 \<longleftrightarrow> even v" for v :: int
  by (simp add: signed_modulo_int_def sgn_0_0) presburger

lemma sumOfOddNodes_tree:
  "tree_at (tnodes m) p t \<Longrightarrow> sum_abs (itree t) < 2 ^ 31 \<Longrightarrow> sumOfOddNodes m p = Some (sum_odd (itree t))"
proof (induction t arbitrary: p)
  case Leaf
  then show ?case by (simp add: sumOfOddNodes.simps)
next
  case (Node l x r)
  from Node.prems(1) obtain a b where x: "p = fst x" "fst x \<noteq> NULL" "tnodes m (fst x) = Some \<lparr>item = snd x, left = a, right = b\<rparr>"
      "tree_at (tnodes m) a l" "tree_at (tnodes m) b r" "a = NULL \<longleftrightarrow> l = Leaf" "b = NULL \<longleftrightarrow> r = Leaf" by (rule tree_at_Node)
  define o' where "o' = (if odd (snd x) then snd x else 0)"
  have b: "\<bar>o'\<bar> + \<bar>sum_odd (itree l)\<bar> + \<bar>sum_odd (itree r)\<bar> < 2 ^ 31" "sum_abs (itree l) < 2 ^ 31" "sum_abs (itree r) < 2 ^ 31"
    using sum_odd_abs [of "itree l"] sum_odd_abs [of "itree r"] Node.prems(2) sum_abs_pos [of "itree l"] sum_abs_pos [of "itree r"]
    unfolding o'_def by auto
  have ok: "checked (o' + sum_odd (itree l)) = Some (o' + sum_odd (itree l))" "checked (o' + sum_odd (itree r)) = Some (o' + sum_odd (itree r))"
      "checked (o' + sum_odd (itree l) + sum_odd (itree r)) = Some (o' + sum_odd (itree l) + sum_odd (itree r))"
    using b(1) by (auto simp: checked_def)
  have unfold: "sumOfOddNodes m p =
      (if a \<noteq> NULL \<and> b \<noteq> NULL then do { l \<leftarrow> sumOfOddNodes m a; s \<leftarrow> checked (o' + l); r \<leftarrow> sumOfOddNodes m b; checked (s + r) }
       else if a = NULL then do { r \<leftarrow> sumOfOddNodes m b; checked (o' + r) }
       else do { l \<leftarrow> sumOfOddNodes m a; checked (o' + l) })"
    using x(1-3) by (subst sumOfOddNodes.simps) (cases "a = NULL"; cases "b = NULL"; cases "odd (snd x)"; simp add: o'_def smod_2_zero)
  have s: "sum_odd (itree (Node l x r)) = o' + sum_odd (itree l) + sum_odd (itree r)" by (simp add: o'_def)
  show ?case unfolding unfold s using x(6,7) Node.IH(1) [OF x(4) b(2)] Node.IH(2) [OF x(5) b(3)] ok
    by (cases "l = Leaf"; cases "r = Leaf") simp_all
qed

lemma smallestValue_tree:
  "tree_at (tnodes m) p t \<Longrightarrow> smallestValue m p = Some (if t = Leaf then 1000000 else Min (set_tree (itree t)))"
proof (induction t arbitrary: p)
  case Leaf
  then show ?case by (simp add: smallestValue.simps)
next
  case (Node l x r)
  from Node.prems(1) obtain a b where x: "p = fst x" "fst x \<noteq> NULL" "tnodes m (fst x) = Some \<lparr>item = snd x, left = a, right = b\<rparr>"
      "tree_at (tnodes m) a l" "tree_at (tnodes m) b r" "a = NULL \<longleftrightarrow> l = Leaf" "b = NULL \<longleftrightarrow> r = Leaf" by (rule tree_at_Node)
  have fin: "finite (set_tree u)" for u :: "int tree" by simp
  have m: "min_int u v = min u v" for u v by (simp add: min_int_def)
  show ?case using x Node.IH(1) [OF x(4)] Node.IH(2) [OF x(5)]
    by (cases "l = Leaf"; cases "r = Leaf")
      (simp_all add: smallestValue.simps [of m "fst x"] m Min_Un tree.set_map eq_set_tree_empty min.assoc min.commute min.left_commute)
qed

end
