(* ===== verification/BinTreeOps.thy ===== *)
theory BinTreeOps
  imports BinTreeInv
begin

text \<open>
  The functions of \<open>binary_tree.c\<close> that print or change a tree, and the operations of \<open>binary_search_tree.c\<close>, on trees.
\<close>

definition add_out :: "tmem \<Rightarrow> shown list \<Rightarrow> tmem" where
  "add_out m ss = m\<lparr>output_so_far := output_so_far m @ ss\<rparr>"

lemma add_out_simps [simp]:
  "tnodes (add_out m ss) = tnodes m" "snodes (add_out m ss) = snodes m" "qnodes (add_out m ss) = qnodes m"
  "next_addr (add_out m ss) = next_addr m" "output_so_far (add_out m ss) = output_so_far m @ ss"
  "add_out m [] = m" "add_out (add_out m ss) ss' = add_out m (ss @ ss')" "print_int m s = add_out m [s]"
  by (simp_all add: add_out_def print_int_def)

lemma printTree_tree: "tree_at (tnodes m) p t \<Longrightarrow> printTree m p = Some (add_out m (map Spaced (inorder (itree t))))"
proof (induction t arbitrary: m p)
  case Leaf
  then show ?case by (simp add: printTree.simps)
next
  case (Node l x r)
  from Node.prems(1) obtain a b where x: "p = fst x" "fst x \<noteq> NULL" "tnodes m (fst x) = Some \<lparr>item = snd x, left = a, right = b\<rparr>"
      "tree_at (tnodes m) a l" "tree_at (tnodes m) b r" by (rule tree_at_Node)
  show ?case using x Node.IH(1) [OF x(4)] Node.IH(2) [of "add_out m (map Spaced (inorder (itree l)) @ [Spaced (snd x)])" b]
    by (simp add: printTree.simps [of m "fst x"])
qed

lemma printSmallerValues_tree:
  "tree_at (tnodes m) p t \<Longrightarrow> printSmallerValues m p v = Some (add_out m (map Plain (filter (\<lambda>i. i < v) (preorder (itree t)))))"
proof (induction t arbitrary: m p)
  case Leaf
  then show ?case by (simp add: printSmallerValues.simps)
next
  case (Node l x r)
  from Node.prems(1) obtain a b where x: "p = fst x" "fst x \<noteq> NULL" "tnodes m (fst x) = Some \<lparr>item = snd x, left = a, right = b\<rparr>"
      "tree_at (tnodes m) a l" "tree_at (tnodes m) b r" "a = NULL \<longleftrightarrow> l = Leaf" "b = NULL \<longleftrightarrow> r = Leaf" by (rule tree_at_Node)
  let ?m = "if snd x < v then add_out m [Plain (snd x)] else m"
  let ?l = "map Plain (filter (\<lambda>i. i < v) (preorder (itree l)))"
  have t: "tnodes ?m = tnodes m" by simp
  have l: "(if a \<noteq> NULL then printSmallerValues ?m a v else Some ?m) = Some (add_out ?m ?l)"
    using Node.IH(1) [of ?m a] x(4,6) t by (cases "l = Leaf") simp_all
  have r: "(if b \<noteq> NULL then printSmallerValues (add_out ?m ?l) b v else Some (add_out ?m ?l)) =
      Some (add_out ?m (?l @ map Plain (filter (\<lambda>i. i < v) (preorder (itree r)))))"
    using Node.IH(2) [of "add_out ?m ?l" b] x(5,7) t by (cases "r = Leaf") simp_all
  have "printSmallerValues m p v = do {
      m \<leftarrow> (if a \<noteq> NULL then printSmallerValues ?m a v else Some ?m);
      if b \<noteq> NULL then printSmallerValues m b v else Some m }"
    using x(1-3) by (subst printSmallerValues.simps) (cases "snd x < v"; simp)
  also have "\<dots> = Some (add_out ?m (?l @ map Plain (filter (\<lambda>i. i < v) (preorder (itree r)))))" unfolding l using r by simp
  finally show ?case by (cases "snd x < v") simp_all
qed

lemma length_great: "length (great_grandparents t) \<le> size t"
  by (induction t) auto

lemma height_le_size: "height t \<le> size t" for t :: "'a tree"
  by (induction t) auto

lemma hasGreatGrandchild_tree:
  "tree_at (tnodes m) p t \<Longrightarrow> int (size t) < 2 ^ 31 \<Longrightarrow> hasGreatGrandchild m p =
   Some (int (length (great_grandparents (itree t))), add_out m (map Spaced (great_grandparents (itree t))))"
proof (induction t arbitrary: m p)
  case Leaf
  then show ?case by (simp add: hasGreatGrandchild.simps)
next
  case (Node l x r)
  from Node.prems(1) obtain a b where x: "p = fst x" "fst x \<noteq> NULL" "tnodes m (fst x) = Some \<lparr>item = snd x, left = a, right = b\<rparr>"
      "tree_at (tnodes m) a l" "tree_at (tnodes m) b r" by (rule tree_at_Node)
  let ?gl = "great_grandparents (itree l)" and ?gr = "great_grandparents (itree r)"
  let ?m = "add_out m (map Spaced (?gl @ ?gr))"
  have l: "hasGreatGrandchild m a = Some (int (length ?gl), add_out m (map Spaced ?gl))"
    using Node.IH(1) [OF x(4)] Node.prems(2) by simp
  have r: "hasGreatGrandchild (add_out m (map Spaced ?gl)) b = Some (int (length ?gr), ?m)"
    using Node.IH(2) [of "add_out m (map Spaced ?gl)" b] x(5) Node.prems(2) by simp
  have bounds: "length ?gl + length ?gr \<le> size l + size r"
    using length_great [of "itree l"] length_great [of "itree r"] by simp
  then have c: "checked (int (length ?gl) + int (length ?gr)) = Some (int (length ?gl) + int (length ?gr))"
      "checked (int (length ?gl) + int (length ?gr) + 1) = Some (int (length ?gl) + int (length ?gr) + 1)"
    using Node.prems(2) by (simp_all add: checked_def)
  have "int (height (Node l x r)) < 2 ^ 31" using height_le_size [of "Node l x r"] Node.prems(2) by linarith
  then have h: "maxHeight ?m (fst x) = Some (int (height (Node l x r)) - 1)"
    using maxHeight_tree [of ?m p "Node l x r"] Node.prems(1) x(1) by simp
  show ?case using x l r c h
    by (cases "4 \<le> height (Node l x r)") (simp_all add: hasGreatGrandchild.simps [of m "fst x"])
qed

subsection \<open>Mirror and removal\<close>

text \<open>\<open>with_nodes m h\<close>: only the tree nodes differ; a tree changes at its own nodes only.\<close>

definition with_nodes :: "tmem \<Rightarrow> (addr \<rightharpoonup> tnode) \<Rightarrow> tmem" where
  "with_nodes m h = m\<lparr>tnodes := h\<rparr>"

lemma with_nodes_simps [simp]:
  "tnodes (with_nodes m h) = h" "snodes (with_nodes m h) = snodes m" "qnodes (with_nodes m h) = qnodes m"
  "next_addr (with_nodes m h) = next_addr m" "output_so_far (with_nodes m h) = output_so_far m"
  "with_nodes (with_nodes m h) h' = with_nodes m h'" "with_nodes m (tnodes m) = m"
  by (simp_all add: with_nodes_def)

lemma set_fields:
  "tnodes m p = Some x \<Longrightarrow> set_left m p q = Some (with_nodes m ((tnodes m)(p \<mapsto> x\<lparr>left := q\<rparr>)))"
  "tnodes m p = Some x \<Longrightarrow> set_right m p q = Some (with_nodes m ((tnodes m)(p \<mapsto> x\<lparr>right := q\<rparr>)))"
  "tnodes m p = Some x \<Longrightarrow> set_item m p v = Some (with_nodes m ((tnodes m)(p \<mapsto> x\<lparr>item := v\<rparr>)))"
  "tnodes m p = Some x \<Longrightarrow> free_tnode m p = Some (with_nodes m ((tnodes m)(p := None)))"
  by (simp_all add: set_left_def set_right_def set_item_def free_tnode_def with_nodes_def)

lemma naddrs_mirror: "naddrs (mirror t) = naddrs t"
  by (induction t) auto

lemma mirrorTree_tree:
  assumes "tree_at (tnodes m) p t" "apart_tree t"
  shows "\<exists>h. mirrorTree m p = Some (with_nodes m h) \<and> tree_at h p (mirror t) \<and> (\<forall>a. a \<notin> naddrs t \<longrightarrow> h a = tnodes m a)"
  using assms
proof (induction t arbitrary: m p)
  case Leaf
  then show ?case by (intro exI [of _ "tnodes m"]) (simp add: mirrorTree.simps)
next
  case (Node l x r)
  from Node.prems(1) obtain a b where x: "p = fst x" "fst x \<noteq> NULL" "tnodes m (fst x) = Some \<lparr>item = snd x, left = a, right = b\<rparr>"
      "tree_at (tnodes m) a l" "tree_at (tnodes m) b r" "a = NULL \<longleftrightarrow> l = Leaf" "b = NULL \<longleftrightarrow> r = Leaf" by (rule tree_at_Node)
  have out: "fst x \<notin> naddrs l" "fst x \<notin> naddrs r" "naddrs l \<inter> naddrs r = {}" "apart_tree l" "apart_tree r" using Node.prems(2) by simp_all
  define m1 where "m1 = with_nodes m ((tnodes m)(fst x \<mapsto> \<lparr>item = snd x, left = b, right = a\<rparr>))"
  have m1: "tree_at (tnodes m1) a l" "tree_at (tnodes m1) b r" "tnodes m1 (fst x) = Some \<lparr>item = snd x, left = b, right = a\<rparr>"
    using x(4,5) out(1,2) by (simp_all add: m1_def)
  have start: "mirrorTree m p = (if b = NULL then mirrorTree m1 a else if a = NULL then mirrorTree m1 b
      else do { m \<leftarrow> mirrorTree m1 b; x \<leftarrow> tnodes m (fst x); mirrorTree m (tnode.right x) })"
    using x(1-3) by (subst mirrorTree.simps) (simp add: set_fields m1_def Let_def)
  obtain hr where hr: "mirrorTree m1 b = Some (with_nodes m1 hr)" "tree_at hr b (mirror r)" "\<And>c. c \<notin> naddrs r \<Longrightarrow> hr c = tnodes m1 c"
    using Node.IH(2) [OF m1(2) out(5)] by blast
  have l1: "tree_at hr a l" using tree_at_cong [OF m1(1), of hr] hr(3) out(3) by blast
  obtain hl where hl: "mirrorTree (with_nodes m1 hr) a = Some (with_nodes m1 hl)" "tree_at hl a (mirror l)" "\<And>c. c \<notin> naddrs l \<Longrightarrow> hl c = hr c"
    using Node.IH(1) [of "with_nodes m1 hr" a] l1 out(4) by auto
  have r1: "tree_at hl b (mirror r)"
    using tree_at_cong [OF hr(2), of hl] hl(3) out(3) by (simp add: naddrs_mirror) blast
  have root: "hl (fst x) = Some \<lparr>item = snd x, left = b, right = a\<rparr>" using hl(3) hr(3) out(1,2) m1(3) by simp
  have run: "mirrorTree m p = Some (with_nodes m1 hl)"
  proof -
    consider "b = NULL" | "a = NULL" | "a \<noteq> NULL" "b \<noteq> NULL" by blast
    then show ?thesis
    proof cases
      case 1
      then have "with_nodes m1 hr = m1" using hr(1) by (simp add: mirrorTree.simps)
      then show ?thesis using 1 start hl(1) by simp
    next
      case 2
      then have "hl = hr" using hl(1) by (simp add: mirrorTree.simps with_nodes_def) (metis tmem.ext_inject tmem.surjective tmem.update_convs(1))
      moreover have "mirrorTree m1 a = Some m1" if "b = NULL" using 2 by (simp add: mirrorTree.simps)
      moreover have "with_nodes m1 hr = m1" if "b = NULL" using hr(1) that by (simp add: mirrorTree.simps)
      ultimately show ?thesis using 2 start hr(1) by auto
    next
      case 3
      then show ?thesis using start hr(1) hl(1) hr(3) out(2) m1(3) by simp
    qed
  qed
  have "mirrorTree m p = Some (with_nodes m hl)" using run by (simp add: m1_def)
  moreover have "tree_at hl p (mirror (Node l x r))" using x(1,2) root r1 hl(2) by simp
  moreover have "\<forall>c. c \<notin> naddrs (Node l x r) \<longrightarrow> hl c = tnodes m c" using hl(3) hr(3) by (simp add: m1_def)
  ultimately show ?case by blast
qed

lemma removeAll_tree:
  assumes "tree_at (tnodes m) p t" "apart_tree t"
  shows "removeAll m p = Some (NULL, with_nodes m (\<lambda>a. if a \<in> naddrs t then None else tnodes m a))"
  using assms
proof (induction t arbitrary: m p)
  case Leaf
  then show ?case by (simp add: removeAll.simps)
next
  case (Node l x r)
  from Node.prems(1) obtain a b where x: "p = fst x" "fst x \<noteq> NULL" "tnodes m (fst x) = Some \<lparr>item = snd x, left = a, right = b\<rparr>"
      "tree_at (tnodes m) a l" "tree_at (tnodes m) b r" by (rule tree_at_Node)
  have out: "fst x \<notin> naddrs l" "fst x \<notin> naddrs r" "naddrs l \<inter> naddrs r = {}" "apart_tree l" "apart_tree r" using Node.prems(2) by simp_all
  let ?h1 = "\<lambda>c. if c \<in> naddrs l then None else tnodes m c"
  let ?h2 = "?h1(fst x \<mapsto> \<lparr>item = snd x, left = NULL, right = b\<rparr>)"
  let ?h3 = "\<lambda>c. if c \<in> naddrs r then None else ?h2 c"
  have l: "removeAll m a = Some (NULL, with_nodes m ?h1)" using Node.IH(1) [OF x(4) out(4)] .
  have "?h2 c = tnodes m c" if "c \<in> naddrs r" for c
  proof -
    have "c \<noteq> fst x" "c \<notin> naddrs l" using that out(2,3) by blast+
    then show ?thesis by simp
  qed
  then have "tree_at ?h2 b r" by (rule tree_at_cong [OF x(5)])
  then have r: "removeAll (with_nodes m ?h2) b = Some (NULL, with_nodes m ?h3)"
    by (rule Node.IH(2) [of "with_nodes m ?h2" b, unfolded with_nodes_simps, OF _ out(5)])
  have h1: "?h1 (fst x) = Some \<lparr>item = snd x, left = a, right = b\<rparr>" using x(3) out(1) by simp
  have h3: "?h3 (fst x) = Some \<lparr>item = snd x, left = NULL, right = b\<rparr>" using out(2) by simp
  have s1: "set_left (with_nodes m ?h1) (fst x) NULL = Some (with_nodes m ?h2)"
    using set_fields(1) [of "with_nodes m ?h1" "fst x"] h1 by simp
  have s2: "set_right (with_nodes m ?h3) (fst x) NULL = Some (with_nodes m (?h3(fst x \<mapsto> \<lparr>item = snd x, left = NULL, right = NULL\<rparr>)))"
    using set_fields(2) [of "with_nodes m ?h3" "fst x"] h3 by simp
  have s3: "free_tnode (with_nodes m (?h3(fst x \<mapsto> \<lparr>item = snd x, left = NULL, right = NULL\<rparr>))) (fst x) = Some (with_nodes m (?h3(fst x := None)))"
    by (simp add: set_fields)
  have "removeAll m p = Some (NULL, with_nodes m (?h3(fst x := None)))"
    using x(1-3) l s1 r s2 s3 by (subst removeAll.simps) (simp del: fun_upd_apply add: fun_upd_same)
  moreover have "?h3(fst x := None) = (\<lambda>c. if c \<in> naddrs (Node l x r) then None else tnodes m c)"
    by (auto simp: fun_eq_iff)
  ultimately show ?case by simp
qed

end
