(* ===== verification/SearchTree.thy ===== *)
theory SearchTree
  imports BinTreeOps
begin

text \<open>
  \<open>insertBSTNode\<close> and \<open>removeNodeFromTree\<close> of \<open>binary_search_tree.c\<close>: the operations on the heap carry out
  \<open>bst_insert\<close> and \<open>bst_remove\<close> on trees, and these keep the order of a search tree.
\<close>

definition wf_mem :: "tmem \<Rightarrow> bool" where
  "wf_mem m \<longleftrightarrow> 0 < next_addr m \<and> (\<forall>a\<ge>next_addr m. tnodes m a = None \<and> snodes m a = None \<and> qnodes m a = None)"

lemma wf_mem_tree: "wf_mem m \<Longrightarrow> tree_at (tnodes m) p t \<Longrightarrow> a \<in> naddrs t \<Longrightarrow> a < next_addr m"
  using tree_at_mapped unfolding wf_mem_def by (metis not_le_imp_less option.distinct(1))

subsection \<open>On trees\<close>

fun bst_insert :: "int \<Rightarrow> int tree \<Rightarrow> int tree" where
  "bst_insert v Leaf = Node Leaf v Leaf"
| "bst_insert v (Node l x r) =
     (if v < x then Node (bst_insert v l) x r else if v > x then Node l x (bst_insert v r) else Node l x r)"

fun leftmost_value :: "int tree \<Rightarrow> int" where
  "leftmost_value (Node Leaf x r) = x"
| "leftmost_value (Node l x r) = leftmost_value l"
| "leftmost_value Leaf = 0"

fun bst_remove :: "int \<Rightarrow> int tree \<Rightarrow> int tree" where
  "bst_remove v Leaf = Leaf"
| "bst_remove v (Node l x r) =
     (if v < x then Node (bst_remove v l) x r
      else if v > x then Node l x (bst_remove v r)
      else if l = Leaf then r
      else if r = Leaf then l
      else Node l (leftmost_value r) (bst_remove (leftmost_value r) r))"

lemma bst_insert_set: "set_tree (bst_insert v t) = insert v (set_tree t)"
  by (induction t) auto

lemma bst_insert_bst: "bst t \<Longrightarrow> bst (bst_insert v t)"
  by (induction t) (auto simp: bst_insert_set)

lemma leftmost_value_least: "bst t \<Longrightarrow> t \<noteq> Leaf \<Longrightarrow> leftmost_value t \<in> set_tree t \<and> (\<forall>x\<in>set_tree t. leftmost_value t \<le> x)"
proof (induction t rule: leftmost_value.induct)
  case (2 a b c x r)
  let ?l = "Node a b c"
  have l: "leftmost_value ?l \<in> set_tree ?l" "\<forall>y\<in>set_tree ?l. leftmost_value ?l \<le> y" using 2 by auto
  then have "leftmost_value ?l < x" using 2(2) by auto
  then show ?case using l 2(2) by auto
qed auto

lemma bst_remove_set: "bst t \<Longrightarrow> set_tree (bst_remove v t) = set_tree t - {v}"
proof (induction v t rule: bst_remove.induct)
  case (2 v l x r)
  consider "v < x" | "v > x" | "v = x" "l = Leaf" | "v = x" "l \<noteq> Leaf" "r = Leaf" | "v = x" "l \<noteq> Leaf" "r \<noteq> Leaf" by linarith
  then show ?case
  proof cases
    case 5
    then have "set_tree (bst_remove (leftmost_value r) r) = set_tree r - {leftmost_value r}" using 2(3,4) by simp
    then show ?thesis using 5 2(4) leftmost_value_least [of r] by auto
  qed (use 2 in auto)
qed simp

lemma bst_remove_bst: "bst t \<Longrightarrow> bst (bst_remove v t)"
proof (induction v t rule: bst_remove.induct)
  case (2 v l x r)
  consider "v < x" | "v > x" | "v = x" "l = Leaf" | "v = x" "l \<noteq> Leaf" "r = Leaf" | "v = x" "l \<noteq> Leaf" "r \<noteq> Leaf" by linarith
  then show ?case
  proof cases
    case 5
    let ?s = "leftmost_value r"
    have "bst (bst_remove ?s r)" "set_tree (bst_remove ?s r) = set_tree r - {?s}"
      using 5 2(3,4) bst_remove_set by simp_all
    moreover have "\<forall>y\<in>set_tree r - {?s}. ?s < y" "?s \<in> set_tree r"
      using leftmost_value_least [of r] 5 2(4) by force+
    moreover from this have "\<forall>y\<in>set_tree l. y < ?s" using 2(4) by fastforce
    ultimately show ?thesis using 5 2(4) by simp
  qed (use 2 in \<open>auto simp: bst_remove_set\<close>)
qed simp

subsection \<open>On the heap\<close>

text \<open>The result of an operation that turns \<open>t\<close> into a tree with the items \<open>u\<close>.\<close>

definition updated :: "tmem \<Rightarrow> ntree \<Rightarrow> int tree \<Rightarrow> addr set \<Rightarrow> addr \<Rightarrow> tmem \<Rightarrow> ntree \<Rightarrow> bool" where
  "updated m t u new q m' t' \<longleftrightarrow> tree_at (tnodes m') q t' \<and> apart_tree t' \<and> itree t' = u \<and> naddrs t' \<subseteq> naddrs t \<union> new \<and>
     (\<forall>a. a \<notin> naddrs t \<union> new \<longrightarrow> tnodes m' a = tnodes m a) \<and> (\<forall>a\<in>naddrs t - naddrs t'. tnodes m' a = None) \<and>
     snodes m' = snodes m \<and> qnodes m' = qnodes m \<and> output_so_far m' = output_so_far m"

lemma updatedD:
  assumes "updated m t u new q m' t'"
  shows "tree_at (tnodes m') q t'" "apart_tree t'" "itree t' = u" "naddrs t' \<subseteq> naddrs t \<union> new"
    "\<And>a. a \<notin> naddrs t \<Longrightarrow> a \<notin> new \<Longrightarrow> tnodes m' a = tnodes m a" "\<And>a. a \<in> naddrs t \<Longrightarrow> a \<notin> naddrs t' \<Longrightarrow> tnodes m' a = None"
    "snodes m' = snodes m" "qnodes m' = qnodes m" "output_so_far m' = output_so_far m"
  using assms by (simp_all add: updated_def)

lemma updated_change:
  assumes "updated m1 t1 u new q m' t'" "naddrs t1 = naddrs t" "\<And>a. a \<notin> naddrs t \<Longrightarrow> tnodes m1 a = tnodes m a"
    and "snodes m1 = snodes m" "qnodes m1 = qnodes m" "output_so_far m1 = output_so_far m"
  shows "updated m t u new q m' t'"
  using assms by (simp add: updated_def)

text \<open>Replacing a subtree.\<close>

lemma updated_left:
  assumes t: "tree_at (tnodes m) p (Node l x r)" "apart_tree (Node l x r)" and u: "updated m l u new q m1 l'"
    and new: "new \<inter> naddrs (Node l x r) = {}"
  shows "\<exists>m'. set_left m1 p q = Some m' \<and> next_addr m' = next_addr m1 \<and> updated m (Node l x r) (Node u (snd x) (itree r)) new p m' (Node l' x r)"
proof -
  from t(1) obtain a b where x: "p = fst x" "fst x \<noteq> NULL" "tnodes m (fst x) = Some \<lparr>item = snd x, left = a, right = b\<rparr>"
      "tree_at (tnodes m) a l" "tree_at (tnodes m) b r" by (rule tree_at_Node)
  have out: "fst x \<notin> naddrs l" "fst x \<notin> naddrs r" "naddrs l \<inter> naddrs r = {}" "apart_tree l" "apart_tree r" "fst x \<notin> new" "new \<inter> naddrs r = {}"
    using t(2) new by auto
  note u = updatedD [OF u]
  have l': "fst x \<notin> naddrs l'" "naddrs l' \<inter> naddrs r = {}" using u(4) out by blast+
  have "tnodes m1 (fst x) = Some \<lparr>item = snd x, left = a, right = b\<rparr>" using u(5) out x(3) by simp
  then have s: "set_left m1 p q = Some (with_nodes m1 ((tnodes m1)(fst x \<mapsto> \<lparr>item = snd x, left = q, right = b\<rparr>)))"
    using set_fields(1) [of m1 "fst x"] x(1) by simp
  let ?h = "(tnodes m1)(fst x \<mapsto> \<lparr>item = snd x, left = q, right = b\<rparr>)"
  have "tree_at (tnodes m1) b r" using u(5) out(3,7) by (intro tree_at_cong [OF x(5)]) blast
  then have at: "tree_at ?h p (Node l' x r)" using x(1,2) u(1) out(2) l'(1) by simp
  have gone: "?h c = None" if "c \<in> naddrs (Node l x r) - naddrs (Node l' x r)" for c
    using that u(6) by auto
  have frame: "?h c = tnodes m c" if "c \<notin> naddrs (Node l x r) \<union> new" for c using that u(5) by auto
  have "updated m (Node l x r) (Node u (snd x) (itree r)) new p (with_nodes m1 ?h) (Node l' x r)"
    unfolding updated_def with_nodes_simps
  proof (intro conjI)
    show "naddrs (Node l' x r) \<subseteq> naddrs (Node l x r) \<union> new" using u(4) by auto
    show "apart_tree (Node l' x r)" using u(2) out l' by simp
    show "itree (Node l' x r) = Node u (snd x) (itree r)" using u(3) by simp
    show "tree_at ?h p (Node l' x r)" by (rule at)
    show "\<forall>c. c \<notin> naddrs (Node l x r) \<union> new \<longrightarrow> ?h c = tnodes m c" by (intro allI impI frame)
    show "\<forall>c\<in>naddrs (Node l x r) - naddrs (Node l' x r). ?h c = None" by (intro ballI gone)
  qed (rule u(7-9))+
  then show ?thesis using s by simp
qed

lemma updated_right:
  assumes t: "tree_at (tnodes m) p (Node l x r)" "apart_tree (Node l x r)" and u: "updated m r u new q m1 r'"
    and new: "new \<inter> naddrs (Node l x r) = {}"
  shows "\<exists>m'. set_right m1 p q = Some m' \<and> next_addr m' = next_addr m1 \<and> updated m (Node l x r) (Node (itree l) (snd x) u) new p m' (Node l x r')"
proof -
  from t(1) obtain a b where x: "p = fst x" "fst x \<noteq> NULL" "tnodes m (fst x) = Some \<lparr>item = snd x, left = a, right = b\<rparr>"
      "tree_at (tnodes m) a l" "tree_at (tnodes m) b r" by (rule tree_at_Node)
  have out: "fst x \<notin> naddrs l" "fst x \<notin> naddrs r" "naddrs l \<inter> naddrs r = {}" "apart_tree l" "apart_tree r" "fst x \<notin> new" "new \<inter> naddrs l = {}"
    using t(2) new by auto
  note u = updatedD [OF u]
  have r': "fst x \<notin> naddrs r'" "naddrs l \<inter> naddrs r' = {}" using u(4) out by blast+
  have "tnodes m1 (fst x) = Some \<lparr>item = snd x, left = a, right = b\<rparr>" using u(5) out x(3) by simp
  then have s: "set_right m1 p q = Some (with_nodes m1 ((tnodes m1)(fst x \<mapsto> \<lparr>item = snd x, left = a, right = q\<rparr>)))"
    using set_fields(2) [of m1 "fst x"] x(1) by simp
  let ?h = "(tnodes m1)(fst x \<mapsto> \<lparr>item = snd x, left = a, right = q\<rparr>)"
  have "tree_at (tnodes m1) a l" using u(5) out(3,7) by (intro tree_at_cong [OF x(4)]) blast
  then have at: "tree_at ?h p (Node l x r')" using x(1,2) u(1) out(1) r'(1) by simp
  have gone: "?h c = None" if "c \<in> naddrs (Node l x r) - naddrs (Node l x r')" for c
    using that u(6) by auto
  have frame: "?h c = tnodes m c" if "c \<notin> naddrs (Node l x r) \<union> new" for c using that u(5) by auto
  have "updated m (Node l x r) (Node (itree l) (snd x) u) new p (with_nodes m1 ?h) (Node l x r')"
    unfolding updated_def with_nodes_simps
  proof (intro conjI)
    show "naddrs (Node l x r') \<subseteq> naddrs (Node l x r) \<union> new" using u(4) by auto
    show "apart_tree (Node l x r')" using u(2) out r' by simp
    show "itree (Node l x r') = Node (itree l) (snd x) u" using u(3) by simp
    show "tree_at ?h p (Node l x r')" by (rule at)
    show "\<forall>c. c \<notin> naddrs (Node l x r) \<union> new \<longrightarrow> ?h c = tnodes m c" by (intro allI impI frame)
    show "\<forall>c\<in>naddrs (Node l x r) - naddrs (Node l x r'). ?h c = None" by (intro ballI gone)
  qed (rule u(7-9))+
  then show ?thesis using s by simp
qed

lemma wf_mem_set:
  "wf_mem m \<Longrightarrow> set_left m p q = Some m' \<Longrightarrow> wf_mem m'"
  "wf_mem m \<Longrightarrow> set_right m p q = Some m' \<Longrightarrow> wf_mem m'"
  by (auto simp: wf_mem_def set_left_def set_right_def split: option.splits)

lemma insertBSTNode_tree:
  assumes "wf_mem m" "tree_at (tnodes m) p t" "apart_tree t"
  shows "\<exists>q m' t'. insertBSTNode m p v = Some (q, m') \<and> updated m t (bst_insert v (itree t)) {next_addr m} q m' t' \<and> wf_mem m'"
  using assms(2,3)
proof (induction t arbitrary: p)
  case Leaf
  let ?m = "snd (createBTNode m v)" and ?p = "next_addr m"
  have "insertBSTNode m p v = Some (?p, ?m)" using Leaf(1) by (simp add: insertBSTNode.simps [of m] createBTNode_def)
  moreover have "updated m Leaf (bst_insert v (itree Leaf)) {?p} ?p ?m (Node Leaf (?p, v) Leaf)"
    using assms(1) by (auto simp: updated_def createBTNode_def wf_mem_def)
  moreover have "wf_mem ?m" using assms(1) by (auto simp: createBTNode_def wf_mem_def)
  ultimately show ?case by blast
next
  case (Node l x r)
  from Node.prems(1) obtain a b where x: "p = fst x" "fst x \<noteq> NULL" "tnodes m (fst x) = Some \<lparr>item = snd x, left = a, right = b\<rparr>"
      "tree_at (tnodes m) a l" "tree_at (tnodes m) b r" by (rule tree_at_Node)
  have new: "{next_addr m} \<inter> naddrs (Node l x r) = {}" using wf_mem_tree [OF assms(1) Node.prems(1)] by blast
  consider "v < snd x" | "v > snd x" | "v = snd x" by linarith
  then show ?case
  proof cases
    case 1
    obtain q m1 l' where l: "insertBSTNode m a v = Some (q, m1)" "updated m l (bst_insert v (itree l)) {next_addr m} q m1 l'"
        "wf_mem m1" using Node.IH(1) [OF x(4)] Node.prems(2) by auto
    from updated_left [OF Node.prems l(2) new] obtain m' where m': "set_left m1 p q = Some m'" "next_addr m' = next_addr m1"
        "updated m (Node l x r) (Node (bst_insert v (itree l)) (snd x) (itree r)) {next_addr m} p m' (Node l' x r)" by blast
    have "insertBSTNode m p v = Some (p, m')" using x(1-3) l(1) m'(1) 1 by (simp add: insertBSTNode.simps [of m "fst x"])
    then show ?thesis using m' wf_mem_set(1) [OF l(3) m'(1)] 1 by (intro exI [of _ p] exI [of _ m'] exI [of _ "Node l' x r"]) simp
  next
    case 2
    obtain q m1 r' where r: "insertBSTNode m b v = Some (q, m1)" "updated m r (bst_insert v (itree r)) {next_addr m} q m1 r'"
        "wf_mem m1" using Node.IH(2) [OF x(5)] Node.prems(2) by auto
    from updated_right [OF Node.prems r(2) new] obtain m' where m': "set_right m1 p q = Some m'" "next_addr m' = next_addr m1"
        "updated m (Node l x r) (Node (itree l) (snd x) (bst_insert v (itree r))) {next_addr m} p m' (Node l x r')" by blast
    have "insertBSTNode m p v = Some (p, m')" using x(1-3) r(1) m'(1) 2 by (simp add: insertBSTNode.simps [of m "fst x"])
    then show ?thesis using m' wf_mem_set(2) [OF r(3) m'(1)] 2 by (intro exI [of _ p] exI [of _ m'] exI [of _ "Node l x r'"]) simp
  next
    case 3
    have "insertBSTNode m p v = Some (p, m)" using x(1-3) 3 by (simp add: insertBSTNode.simps [of m "fst x"])
    moreover have "updated m (Node l x r) (bst_insert v (itree (Node l x r))) {next_addr m} p m (Node l x r)"
      using Node.prems 3 by (simp add: updated_def) blast
    ultimately show ?thesis using assms(1) by blast
  qed
qed

lemma leftmost_tree:
  "tree_at (tnodes m) p t \<Longrightarrow> t \<noteq> Leaf \<Longrightarrow>
   \<exists>s y z. leftmost m p = Some s \<and> s \<in> naddrs t \<and> tnodes m s = Some \<lparr>item = leftmost_value (itree t), left = y, right = z\<rparr>"
proof (induction t arbitrary: p)
  case (Node l x r)
  from Node.prems(1) obtain a b where x: "p = fst x" "fst x \<noteq> NULL" "tnodes m (fst x) = Some \<lparr>item = snd x, left = a, right = b\<rparr>"
      "tree_at (tnodes m) a l" "tree_at (tnodes m) b r" "a = NULL \<longleftrightarrow> l = Leaf" by (rule tree_at_Node)
  show ?case
  proof (cases l)
    case Leaf
    then show ?thesis using x by (simp add: leftmost.simps [of m "fst x"])
  next
    case (Node l1 y l2)
    then show ?thesis using x Node.IH(1) [OF x(4)] by (auto simp: leftmost.simps [of m "fst x"])
  qed
qed simp

lemma removeNodeFromTree_tree:
  assumes "tree_at (tnodes m) p t" "apart_tree t"
  shows "\<exists>q m' t'. removeNodeFromTree m p v = Some (q, m') \<and> updated m t (bst_remove v (itree t)) {} q m' t' \<and> next_addr m' = next_addr m"
  using assms
proof (induction t arbitrary: m p v)
  case Leaf
  have "removeNodeFromTree m p v = Some (NULL, m)" using Leaf(1) by (simp add: removeNodeFromTree.simps [of m])
  moreover have "updated m Leaf (bst_remove v (itree Leaf)) {} NULL m Leaf" by (simp add: updated_def)
  ultimately show ?case by blast
next
  case (Node l x r)
  from Node.prems(1) obtain a b where x: "p = fst x" "fst x \<noteq> NULL" "tnodes m (fst x) = Some \<lparr>item = snd x, left = a, right = b\<rparr>"
      "tree_at (tnodes m) a l" "tree_at (tnodes m) b r" "a = NULL \<longleftrightarrow> l = Leaf" "b = NULL \<longleftrightarrow> r = Leaf" by (rule tree_at_Node)
  have out: "fst x \<notin> naddrs l" "fst x \<notin> naddrs r" "naddrs l \<inter> naddrs r = {}" "apart_tree l" "apart_tree r" using Node.prems(2) by simp_all
  have e: "{} \<inter> naddrs (Node l x r) = {}" by simp
  let ?f = "with_nodes m ((tnodes m)(fst x := None))"
  have free: "free_tnode m (fst x) = Some ?f" using set_fields(4) [OF x(3)] .
  consider "v < snd x" | "v > snd x" | "v = snd x" "l = Leaf" | "v = snd x" "l \<noteq> Leaf" "r = Leaf"
    | "v = snd x" "l \<noteq> Leaf" "r \<noteq> Leaf" by linarith
  then show ?case
  proof cases
    case 1
    obtain q m1 l' where l: "removeNodeFromTree m a v = Some (q, m1)" "updated m l (bst_remove v (itree l)) {} q m1 l'"
        "next_addr m1 = next_addr m" using Node.IH(1) [OF x(4) out(4)] by blast
    from updated_left [OF Node.prems l(2) e] obtain m' where m': "set_left m1 p q = Some m'" "next_addr m' = next_addr m1"
        "updated m (Node l x r) (Node (bst_remove v (itree l)) (snd x) (itree r)) {} p m' (Node l' x r)" by blast
    have "removeNodeFromTree m p v = Some (p, m')" using x(1-3) l(1) m'(1) 1 by (simp add: removeNodeFromTree.simps [of m "fst x"])
    then show ?thesis using m' l(3) 1 by (intro exI [of _ p] exI [of _ m'] exI [of _ "Node l' x r"]) simp
  next
    case 2
    obtain q m1 r' where r: "removeNodeFromTree m b v = Some (q, m1)" "updated m r (bst_remove v (itree r)) {} q m1 r'"
        "next_addr m1 = next_addr m" using Node.IH(2) [OF x(5) out(5)] by blast
    from updated_right [OF Node.prems r(2) e] obtain m' where m': "set_right m1 p q = Some m'" "next_addr m' = next_addr m1"
        "updated m (Node l x r) (Node (itree l) (snd x) (bst_remove v (itree r))) {} p m' (Node l x r')" by blast
    have "removeNodeFromTree m p v = Some (p, m')" using x(1-3) r(1) m'(1) 2 by (simp add: removeNodeFromTree.simps [of m "fst x"])
    then show ?thesis using m' r(3) 2 by (intro exI [of _ p] exI [of _ m'] exI [of _ "Node l x r'"]) simp
  next
    case 3
    have "removeNodeFromTree m p v = Some (b, ?f)"
      using x(1-3,6,7) free 3 by (cases "b = NULL") (simp_all add: removeNodeFromTree.simps [of m "fst x"])
    moreover have "updated m (Node l x r) (bst_remove v (itree (Node l x r))) {} b ?f r"
      using 3 x(5) out by (simp add: updated_def) blast
    ultimately show ?thesis by force
  next
    case 4
    have "removeNodeFromTree m p v = Some (a, ?f)"
      using x(1-3,6,7) free 4 by (simp add: removeNodeFromTree.simps [of m "fst x"])
    moreover have "updated m (Node l x r) (bst_remove v (itree (Node l x r))) {} a ?f l"
      using 4 x(4) out by (simp add: updated_def) blast
    ultimately show ?thesis by force
  next
    case 5
    let ?s = "leftmost_value (itree r)"
    obtain s y z where s: "leftmost m b = Some s" "s \<in> naddrs r" "tnodes m s = Some \<lparr>item = ?s, left = y, right = z\<rparr>"
      using leftmost_tree [OF x(5) 5(3)] by blast
    have sx: "s \<noteq> fst x" using s(2) out(2) by blast
    define m1 where "m1 = with_nodes m ((tnodes m)(fst x \<mapsto> \<lparr>item = ?s, left = a, right = b\<rparr>))"
    have set: "set_item m (fst x) ?s = Some m1" using set_fields(3) [OF x(3)] by (simp add: m1_def)
    let ?x = "(fst x, ?s)"
    have t1: "tree_at (tnodes m1) p (Node l ?x r)" "apart_tree (Node l ?x r)" "tree_at (tnodes m1) b r"
      using x(1,2,4,5) out by (simp_all add: m1_def)
    obtain q m2 r' where r: "removeNodeFromTree m1 b ?s = Some (q, m2)" "updated m1 r (bst_remove ?s (itree r)) {} q m2 r'"
        "next_addr m2 = next_addr m1" using Node.IH(2) [OF t1(3) out(5)] by blast
    have e1: "{} \<inter> naddrs (Node l ?x r) = {}" by simp
    from updated_right [OF t1(1,2) r(2) e1] obtain m' where m': "set_right m2 p q = Some m'" "next_addr m' = next_addr m2"
        "updated m1 (Node l ?x r) (Node (itree l) ?s (bst_remove ?s (itree r))) {} p m' (Node l ?x r')" by auto
    have i1: "tnodes m1 (fst x) = Some \<lparr>item = ?s, left = a, right = b\<rparr>" "tnodes m1 s = Some \<lparr>item = ?s, left = y, right = z\<rparr>"
      using s(3) sx by (simp_all add: m1_def)
    have "removeNodeFromTree m p v = Some (p, m')"
      using x(1-3,6,7) s(1,3) set i1 r(1) m'(1) 5 by (simp add: removeNodeFromTree.simps [of m "fst x"])
    moreover have u: "bst_remove v (itree (Node l x r)) = Node (itree l) ?s (bst_remove ?s (itree r))" using 5 by simp
    have "updated m (Node l x r) (bst_remove v (itree (Node l x r))) {} p m' (Node l ?x r')"
      unfolding u by (rule updated_change [OF m'(3)]) (simp_all add: m1_def)
    ultimately show ?thesis using m'(2) r(3) by (intro exI [of _ p] exI [of _ m'] exI [of _ "Node l ?x r'"]) (simp add: m1_def)
  qed
qed

end
