(* ===== verification/Traversals.thy ===== *)
theory Traversals
  imports SearchTree
begin

text \<open>
  The iterative traversals of \<open>binary_search_tree.c\<close>: with the stacks and the queue as lists of node addresses, each
  terminates and prints the items of the tree in its order.
\<close>

subsection \<open>Stacks\<close>

fun cells :: "(addr \<rightharpoonup> snode) \<Rightarrow> addr \<Rightarrow> (addr \<times> addr) list \<Rightarrow> bool" where
  "cells h p [] = (p = NULL)"
| "cells h p (c # cs) = (p = fst c \<and> p \<noteq> NULL \<and> (\<exists>n. h p = Some \<lparr>sdata = snd c, snext = n\<rparr> \<and> cells h n cs))"

lemma cells_upd [simp]: "a \<notin> fst ` set cs \<Longrightarrow> cells (h(a := v)) p cs = cells h p cs"
  by (induction cs arbitrary: p) auto

lemma cells_mapped: "cells h p cs \<Longrightarrow> a \<in> fst ` set cs \<Longrightarrow> \<exists>n. h a = Some n"
  by (induction cs arbitrary: p) auto

text \<open>Two stacks that share no cell, with the tree nodes and the output.\<close>

definition view :: "tmem \<Rightarrow> (addr \<rightharpoonup> tnode) \<Rightarrow> shown list \<Rightarrow> addr \<Rightarrow> addr list \<Rightarrow> addr \<Rightarrow> addr list \<Rightarrow> bool" where
  "view m h out s ds s' ds' \<longleftrightarrow> wf_mem m \<and> tnodes m = h \<and> output_so_far m = out \<and>
     (\<exists>cs cs'. cells (snodes m) s cs \<and> cells (snodes m) s' cs' \<and> map snd cs = ds \<and> map snd cs' = ds' \<and> distinct (map fst (cs @ cs')))"

lemma viewE:
  assumes "view m h out s ds s' ds'"
  obtains cs cs' where "wf_mem m" "tnodes m = h" "output_so_far m = out" "cells (snodes m) s cs"
      "cells (snodes m) s' cs'" "map snd cs = ds" "map snd cs' = ds'" "distinct (map fst (cs @ cs'))"
  using assms unfolding view_def by blast

lemma view_swap: "view m h out s ds s' ds' \<Longrightarrow> view m h out s' ds' s ds"
proof (erule viewE)
  fix cs cs'
  assume "wf_mem m" "tnodes m = h" "output_so_far m = out" "cells (snodes m) s cs"
      "cells (snodes m) s' cs'" "map snd cs = ds" "map snd cs' = ds'" "distinct (map fst (cs @ cs'))"
  then show ?thesis unfolding view_def by (intro conjI exI [of _ cs'] exI [of _ cs]) auto
qed

lemma view_start: "wf_mem m \<Longrightarrow> view m (tnodes m) (output_so_far m) NULL [] NULL []"
  by (simp add: view_def)

lemma view_empty: "view m h out s ds s' ds' \<Longrightarrow> s = NULL \<longleftrightarrow> ds = []"
proof -
  assume "view m h out s ds s' ds'"
  then obtain cs where "cells (snodes m) s cs" "map snd cs = ds" unfolding view_def by blast
  then show ?thesis by (cases cs) auto
qed

lemma view_tnodes: "view m h out s ds s' ds' \<Longrightarrow> tnodes m = h"
  by (simp add: view_def)

lemma view_print: "view m h out s ds s' ds' \<Longrightarrow> view (add_out m ss) h (out @ ss) s ds s' ds'"
  unfolding view_def wf_mem_def by auto

lemma view_push:
  assumes "view m h out s ds s' ds'" "push_node m s p = (tp, m')"
  shows "view m' h out tp (p # ds) s' ds'" "tp \<noteq> NULL"
proof -
  from assms(1) obtain cs cs' where m: "wf_mem m" "tnodes m = h" "output_so_far m = out" "cells (snodes m) s cs"
      "cells (snodes m) s' cs'" "map snd cs = ds" "map snd cs' = ds'" "distinct (map fst (cs @ cs'))" by (rule viewE)
  let ?a = "next_addr m"
  have tp: "tp = ?a" "m' = m\<lparr>snodes := (snodes m)(?a \<mapsto> \<lparr>sdata = p, snext = s\<rparr>), next_addr := ?a + 1\<rparr>"
    using assms(2) by (auto simp: push_node_def)
  have a: "?a \<noteq> NULL" "snodes m ?a = None" using m(1) by (simp_all add: wf_mem_def)
  then have out: "?a \<notin> fst ` set cs" "?a \<notin> fst ` set cs'" using cells_mapped [OF m(4)] cells_mapped [OF m(5)] by fastforce+
  have "cells (snodes m') tp ((?a, p) # cs)" "cells (snodes m') s' cs'" using m(4,5) a out by (simp_all add: tp)
  moreover have "distinct (map fst (((?a, p) # cs) @ cs'))" using m(8) out by auto
  moreover have "wf_mem m'" using m(1) by (auto simp: wf_mem_def tp)
  ultimately show "view m' h out tp (p # ds) s' ds'" using m(2,3,6,7) unfolding view_def
    by (intro conjI exI [of _ "(?a, p) # cs"] exI [of _ cs']) (simp_all add: tp)
  show "tp \<noteq> NULL" using tp a by simp
qed

lemma view_pop:
  assumes "view m h out s (p # ds) s' ds'"
  shows "\<exists>tp m'. pop_node m s = Some (p, tp, m') \<and> view m' h out tp ds s' ds' \<and> peek_node m s = Some p"
proof -
  from assms obtain cs cs' where m: "wf_mem m" "tnodes m = h" "output_so_far m = out" "cells (snodes m) s cs"
      "cells (snodes m) s' cs'" "map snd cs = p # ds" "map snd cs' = ds'" "distinct (map fst (cs @ cs'))" by (rule viewE)
  then obtain c cs0 where cs: "cs = c # cs0" "snd c = p" "map snd cs0 = ds" by (cases cs) auto
  then obtain n where n: "s = fst c" "s \<noteq> NULL" "snodes m s = Some \<lparr>sdata = p, snext = n\<rparr>" "cells (snodes m) n cs0" using m(4) by auto
  let ?m = "m\<lparr>snodes := (snodes m)(s := None)\<rparr>"
  have "cells (snodes ?m) n cs0" "cells (snodes ?m) s' cs'" using n m(5,8) cs(1) by auto
  then have "view ?m h out n ds s' ds'" using m(1-3,7,8) cs unfolding view_def wf_mem_def
    by (intro conjI exI [of _ cs0] exI [of _ cs']) auto
  then show ?thesis using n by (simp add: pop_node_def peek_node_def)
qed

subsection \<open>In order\<close>

lemma in_loop_down:
  assumes "view m h out s ds s' ds'" "cur \<noteq> NULL" "h cur = Some x" "push_node m s cur = (tp, m')"
  shows "in_loop m s cur = in_loop m' tp (tnode.left x)"
proof -
  have t: "tnodes m' cur = Some x" "tp \<noteq> NULL"
    using view_push [OF assms(1,4)] assms(3) view_tnodes by metis+
  have "push_left m s cur = push_left m' tp (tnode.left x)" using assms(2,4) t(1) by (subst push_left.simps) simp
  then show ?thesis using assms(2) t(2)
    by (subst (1 2) in_loop.simps) (simp add: isEmptyStack_node_def)
qed

lemma in_loop_up:
  assumes "view m h out s (p # ds) s' ds'" "h p = Some x"
  shows "\<exists>tp m'. in_loop m s NULL = in_loop m' tp (tnode.right x) \<and> view m' h (out @ [Spaced (item x)]) tp ds s' ds'"
proof -
  obtain tp m' where m': "pop_node m s = Some (p, tp, m')" "view m' h out tp ds s' ds'" using view_pop [OF assms(1)] by blast
  have "s \<noteq> NULL" using view_empty [OF assms(1)] by simp
  then have "in_loop m s NULL = in_loop (add_out m' [Spaced (item x)]) tp (tnode.right x)"
    using m' view_tnodes [OF m'(2)] assms(2) by (subst in_loop.simps) (simp add: isEmptyStack_node_def push_left.simps [of m s NULL])
  then show ?thesis using view_print [OF m'(2)] by blast
qed

lemma in_loop_tree:
  "tree_at h cur t \<Longrightarrow> view m h out s ds s' ds' \<Longrightarrow>
   \<exists>m' tp. in_loop m s cur = in_loop m' tp NULL \<and> view m' h (out @ map Spaced (inorder (itree t))) tp ds s' ds'"
proof (induction t arbitrary: cur m out s ds)
  case Leaf
  then show ?case by auto
next
  case (Node l x r)
  from Node.prems(1) obtain a b where x: "cur = fst x" "fst x \<noteq> NULL" "h (fst x) = Some \<lparr>item = snd x, left = a, right = b\<rparr>"
      "tree_at h a l" "tree_at h b r" by (rule tree_at_Node)
  obtain tp m1 where p: "push_node m s cur = (tp, m1)" by fastforce
  have down: "in_loop m s cur = in_loop m1 tp a" using in_loop_down [OF Node.prems(2) _ _ p, of "\<lparr>item = snd x, left = a, right = b\<rparr>"] x by simp
  obtain m2 tp2 where l: "in_loop m1 tp a = in_loop m2 tp2 NULL"
      "view m2 h (out @ map Spaced (inorder (itree l))) tp2 (cur # ds) s' ds'"
    using Node.IH(1) [OF x(4) view_push(1) [OF Node.prems(2) p]] by blast
  obtain m3 tp3 where u: "in_loop m2 tp2 NULL = in_loop m3 tp3 b"
      "view m3 h ((out @ map Spaced (inorder (itree l))) @ [Spaced (snd x)]) tp3 ds s' ds'"
    using in_loop_up [OF l(2), of "\<lparr>item = snd x, left = a, right = b\<rparr>"] x(1,3) by auto
  obtain m4 tp4 where "in_loop m3 tp3 b = in_loop m4 tp4 NULL"
      "view m4 h (((out @ map Spaced (inorder (itree l))) @ [Spaced (snd x)]) @ map Spaced (inorder (itree r))) tp4 ds s' ds'"
    using Node.IH(2) [OF x(5) u(2)] by blast
  then show ?case using down l(1) u(1) by auto
qed

lemma in_loop_done: "view m h out s [] s' ds' \<Longrightarrow> in_loop m s NULL = Some m"
  using view_empty [of m h out s "[]"] by (subst in_loop.simps) (simp add: isEmptyStack_node_def)

lemma inOrderIterative_tree:
  assumes "wf_mem m" "tree_at (tnodes m) p t"
  shows "\<exists>m'. inOrderIterative m p = Some m' \<and> tnodes m' = tnodes m \<and> output_so_far m' = output_so_far m @ map Spaced (inorder (itree t))"
proof (cases "p = NULL")
  case True
  then show ?thesis using assms by (simp add: inOrderIterative_def)
next
  case False
  obtain m' tp where m': "in_loop m NULL p = in_loop m' tp NULL"
      "view m' (tnodes m) (output_so_far m @ map Spaced (inorder (itree t))) tp [] NULL []"
    using in_loop_tree [OF assms(2) view_start [OF assms(1)]] by blast
  then have "inOrderIterative m p = Some m'" using in_loop_done [OF m'(2)] False by (simp add: inOrderIterative_def)
  then show ?thesis using m'(2) unfolding view_def by blast
qed

lemma preOrderIterative_in_order: "preOrderIterative = inOrderIterative"
  by (simp add: fun_eq_iff preOrderIterative_def inOrderIterative_def)

subsection \<open>Post order with one stack\<close>

lemma post1_down:
  assumes "view m h out s ds s' ds'" "cur \<noteq> NULL" "h cur = Some x" "push_node m s cur = (tp, m')"
  shows "post1_loop m s cur q = post1_loop m' tp (tnode.left x) q"
proof -
  have t: "tnodes m' cur = Some x" "tp \<noteq> NULL"
    using view_push [OF assms(1,4)] assms(3) view_tnodes by metis+
  have "push_left m s cur = push_left m' tp (tnode.left x)" using assms(2,4) t(1) by (subst push_left.simps) simp
  then show ?thesis using assms(2) t(2)
    by (subst (1 2) post1_loop.simps) (simp add: isEmptyStack_node_def)
qed

lemma post1_right:
  assumes "view m h out s (p # ds) s' ds'" "h p = Some x" "tnode.right x \<noteq> NULL" "q \<noteq> tnode.right x"
  shows "post1_loop m s NULL q = post1_loop m s (tnode.right x) q"
proof -
  have "s \<noteq> NULL" "peek_node m s = Some p" "tnodes m p = Some x"
    using view_empty [OF assms(1)] view_pop [OF assms(1)] view_tnodes [OF assms(1)] assms(2) by auto
  then show ?thesis using assms(3,4)
    by (subst post1_loop.simps) (simp add: isEmptyStack_node_def push_left.simps [of m s NULL])
qed

lemma post1_up:
  assumes "view m h out s (p # ds) s' ds'" "h p = Some x" "tnode.right x = NULL \<or> q = tnode.right x"
  shows "\<exists>tp m'. post1_loop m s NULL q = post1_loop m' tp NULL p \<and> view m' h (out @ [Spaced (item x)]) tp ds s' ds'"
proof -
  obtain tp m' where m': "pop_node m s = Some (p, tp, m')" "view m' h out tp ds s' ds'" "peek_node m s = Some p"
    using view_pop [OF assms(1)] by blast
  have "s \<noteq> NULL" "tnodes m p = Some x" using view_empty [OF assms(1)] view_tnodes [OF assms(1)] assms(2) by auto
  then have "post1_loop m s NULL q = post1_loop (add_out m' [Spaced (item x)]) tp NULL p"
    using m' view_tnodes [OF m'(2)] assms(2,3)
    by (subst post1_loop.simps) (auto simp: isEmptyStack_node_def push_left.simps [of m s NULL])
  then show ?thesis using view_print [OF m'(2)] by blast
qed

lemma post1_loop_tree:
  "tree_at h cur t \<Longrightarrow> apart_tree t \<Longrightarrow> q \<notin> naddrs t \<Longrightarrow> view m h out s ds s' ds' \<Longrightarrow>
   \<exists>m' tp. post1_loop m s cur q = post1_loop m' tp NULL (if t = Leaf then q else cur) \<and>
     view m' h (out @ map Spaced (postorder (itree t))) tp ds s' ds'"
proof (induction t arbitrary: cur q m out s ds)
  case Leaf
  then show ?case by auto
next
  case (Node l x r)
  from Node.prems(1) obtain a b where x: "cur = fst x" "fst x \<noteq> NULL" "h (fst x) = Some \<lparr>item = snd x, left = a, right = b\<rparr>"
      "tree_at h a l" "tree_at h b r" "a = NULL \<longleftrightarrow> l = Leaf" "b = NULL \<longleftrightarrow> r = Leaf" by (rule tree_at_Node)
  have out: "fst x \<notin> naddrs r" "naddrs l \<inter> naddrs r = {}" "apart_tree l" "apart_tree r" "q \<notin> naddrs l" "q \<notin> naddrs r"
    using Node.prems(2,3) by auto
  obtain tp m1 where p: "push_node m s cur = (tp, m1)" by fastforce
  have down: "post1_loop m s cur q = post1_loop m1 tp a q"
    using post1_down [OF Node.prems(4) _ _ p, of "\<lparr>item = snd x, left = a, right = b\<rparr>"] x by simp
  define q2 where "q2 = (if l = Leaf then q else a)"
  obtain m2 tp2 where l: "post1_loop m1 tp a q = post1_loop m2 tp2 NULL q2"
      "view m2 h (out @ map Spaced (postorder (itree l))) tp2 (cur # ds) s' ds'"
    using Node.IH(1) [OF x(4) out(3,5) view_push(1) [OF Node.prems(4) p]] unfolding q2_def by blast
  have a: "a \<in> naddrs l" if "l \<noteq> Leaf" using x(4) that by (cases l) auto
  have q2: "q2 \<notin> naddrs r" using a out(2,6) by (auto simp: q2_def disjoint_iff)
  obtain m3 tp3 q3 where r: "post1_loop m2 tp2 NULL q2 = post1_loop m3 tp3 NULL q3" "b = NULL \<or> q3 = b"
      "view m3 h ((out @ map Spaced (postorder (itree l))) @ map Spaced (postorder (itree r))) tp3 (cur # ds) s' ds'"
  proof (cases "r = Leaf")
    case True
    then show ?thesis using that [of m2 tp2 q2] l(2) x(7) by simp
  next
    case False
    have b: "b \<in> naddrs r" using x(5) False by (cases r) auto
    have "post1_loop m2 tp2 NULL q2 = post1_loop m2 tp2 b q2"
      using post1_right [OF l(2), of "\<lparr>item = snd x, left = a, right = b\<rparr>" q2] x(1,3,7) False b q2 by auto
    then show ?thesis using that Node.IH(2) [OF x(5) out(4) q2 l(2)] False by auto
  qed
  obtain m4 tp4 where u: "post1_loop m3 tp3 NULL q3 = post1_loop m4 tp4 NULL cur"
      "view m4 h (((out @ map Spaced (postorder (itree l))) @ map Spaced (postorder (itree r))) @ [Spaced (snd x)]) tp4 ds s' ds'"
    using post1_up [OF r(3), of "\<lparr>item = snd x, left = a, right = b\<rparr>" q3] x(1,3) r(2) by auto
  then show ?case using down l(1) r(1) by auto
qed

lemma postOrderIterativeS1_tree:
  assumes "wf_mem m" "tree_at (tnodes m) p t" "apart_tree t"
  shows "\<exists>m'. postOrderIterativeS1 m p = Some m' \<and> tnodes m' = tnodes m \<and>
    output_so_far m' = output_so_far m @ map Spaced (postorder (itree t))"
proof (cases "p = NULL")
  case True
  then show ?thesis using assms by (simp add: postOrderIterativeS1_def)
next
  case False
  obtain m' tp q where m': "post1_loop m NULL p NULL = post1_loop m' tp NULL q"
      "view m' (tnodes m) (output_so_far m @ map Spaced (postorder (itree t))) tp [] NULL []"
    using post1_loop_tree [OF assms(2,3) tree_at_not_NULL [OF assms(2)] view_start [OF assms(1)]] by blast
  have "post1_loop m' tp NULL q = Some m'"
    using view_empty [OF m'(2)] by (subst post1_loop.simps) (simp add: isEmptyStack_node_def)
  then have "postOrderIterativeS1 m p = Some m'" using m'(1) False by (simp add: postOrderIterativeS1_def)
  then show ?thesis using m'(2) unfolding view_def by blast
qed

subsection \<open>Post order with two stacks\<close>

text \<open>The order in which the nodes leave the first stack.\<close>

fun right_preorder :: "'a tree \<Rightarrow> 'a list" where
  "right_preorder Leaf = []"
| "right_preorder (Node l x r) = x # right_preorder r @ right_preorder l"

lemma rev_right_preorder: "rev (right_preorder t) = postorder t"
  by (induction t) auto

lemma map_right_preorder: "map f (right_preorder t) = right_preorder (map_tree f t)"
  by (induction t) auto

definition children :: "'a tree \<Rightarrow> 'a tree list" where
  "children t = (case t of Leaf \<Rightarrow> [] | Node l x r \<Rightarrow> filter (\<lambda>u. u \<noteq> Leaf) [l, r])"

lemma children_Node [simp]: "children (Node l x r) = filter (\<lambda>u. u \<noteq> Leaf) [l, r]"
  by (simp add: children_def)

lemma children_Leaf [simp]: "children Leaf = []"
  by (simp add: children_def)

lemma right_preorder_children:
  "right_preorder (Node l x r) = x # concat (map right_preorder (rev (children (Node l x r))))"
  by simp

definition forest :: "(addr \<rightharpoonup> tnode) \<Rightarrow> ntree list \<Rightarrow> bool" where
  "forest h ts \<longleftrightarrow> (\<forall>t\<in>set ts. t \<noteq> Leaf \<and> tree_at h (root_addr t) t)"

lemma forest_simps [simp]:
  "forest h []" "forest h (t # ts) \<longleftrightarrow> t \<noteq> Leaf \<and> tree_at h (root_addr t) t \<and> forest h ts"
  "forest h (ts @ us) \<longleftrightarrow> forest h ts \<and> forest h us"
  by (auto simp: forest_def)

lemma post2_fill_step:
  assumes "view m h out s1 (p # ds) s2 ds'" "h p = Some x"
  shows "\<exists>m' t1 t2. post2_fill m s1 s2 = post2_fill m' t1 t2 \<and>
    view m' h out t1 (filter (\<lambda>q. q \<noteq> NULL) [tnode.right x, tnode.left x] @ ds) t2 (p # ds')"
proof -
  obtain a1 m1 where m1: "pop_node m s1 = Some (p, a1, m1)" "view m1 h out a1 ds s2 ds'" using view_pop [OF assms(1)] by blast
  obtain t2 m2 where m2: "push_node m1 s2 p = (t2, m2)" by fastforce
  have v2: "view m2 h out a1 ds t2 (p # ds')" using view_swap [OF view_push(1) [OF view_swap [OF m1(2)] m2]] .
  have x: "tnodes m2 p = Some x" using view_tnodes [OF v2] assms(2) by simp
  obtain a3 m3 where m3: "(if tnode.left x \<noteq> NULL then push_node m2 a1 (tnode.left x) else (a1, m2)) = (a3, m3)" by fastforce
  have v3: "view m3 h out a3 (filter (\<lambda>q. q \<noteq> NULL) [tnode.left x] @ ds) t2 (p # ds')"
    using m3 v2 view_push(1) [OF v2] by (cases "tnode.left x = NULL") auto
  obtain a4 m4 where m4: "(if tnode.right x \<noteq> NULL then push_node m3 a3 (tnode.right x) else (a3, m3)) = (a4, m4)" by fastforce
  have v4: "view m4 h out a4 (filter (\<lambda>q. q \<noteq> NULL) [tnode.right x, tnode.left x] @ ds) t2 (p # ds')"
    using m4 v3 view_push(1) [OF v3] by (cases "tnode.right x = NULL") auto
  have "s1 \<noteq> NULL" using view_empty [OF assms(1)] by simp
  then have "post2_fill m s1 s2 = post2_fill m4 a4 t2"
    using m1(1) m2 x m3 m4 by (subst post2_fill.simps) (simp add: isEmptyStack_node_def)
  then show ?thesis using v4 by blast
qed

lemma post2_fill_forest:
  "forest h ts \<Longrightarrow> view m h out s1 (map root_addr ts) s2 ds' \<Longrightarrow>
   \<exists>m' t1 t2. post2_fill m s1 s2 = Some (t2, m') \<and> view m' h out t1 [] t2 (rev (map fst (concat (map right_preorder ts))) @ ds')"
proof (induction "sum_list (map size ts)" arbitrary: ts m s1 s2 ds' rule: less_induct)
  case less
  show ?case
  proof (cases ts)
    case Nil
    then have "post2_fill m s1 s2 = Some (s2, m)"
      using view_empty [OF less.prems(2)] by (subst post2_fill.simps) (simp add: isEmptyStack_node_def)
    then show ?thesis using less.prems(2) Nil by auto
  next
    case (Cons t us)
    then obtain l x r where t: "t = Node l x r" using less.prems(1) by (cases t) auto
    have "tree_at h (root_addr t) (Node l x r)" using less.prems(1) Cons t by simp
    then obtain a b where x: "root_addr t = fst x" "fst x \<noteq> NULL" "h (fst x) = Some \<lparr>item = snd x, left = a, right = b\<rparr>"
        "tree_at h a l" "tree_at h b r" "a = NULL \<longleftrightarrow> l = Leaf" "b = NULL \<longleftrightarrow> r = Leaf" by (rule tree_at_Node)
    have kids: "filter (\<lambda>q. q \<noteq> NULL) [b, a] = map root_addr (rev (children t))"
      using t x(6,7) tree_at_root [OF x(4)] tree_at_root [OF x(5)] by simp
    have v: "view m h out s1 (fst x # map root_addr us) s2 ds'" using less.prems(2) Cons x(1) by simp
    obtain m1 t1 t2 where m1: "post2_fill m s1 s2 = post2_fill m1 t1 t2"
        "view m1 h out t1 (map root_addr (rev (children t) @ us)) t2 (fst x # ds')"
      using post2_fill_step [OF v x(3)] kids by auto
    have f: "forest h (rev (children t) @ us)"
      using less.prems(1) Cons t x(4,5) tree_at_root [OF x(4)] tree_at_root [OF x(5)] by simp
    have small: "sum_list (map size (rev (children t) @ us)) < sum_list (map size ts)" using Cons t by simp
    obtain m' t1' t2' where m': "post2_fill m1 t1 t2 = Some (t2', m')"
        "view m' h out t1' [] t2' (rev (map fst (concat (map right_preorder (rev (children t) @ us)))) @ fst x # ds')"
      using less.hyps [OF small f m1(2)] by blast
    have "rev (map fst (concat (map right_preorder (rev (children t) @ us)))) @ fst x # ds' =
        rev (map fst (concat (map right_preorder ts))) @ ds'"
      using Cons t right_preorder_children [of l x r] by simp
    then show ?thesis using m1(1) m' by metis
  qed
qed

lemma post2_print_list:
  "view m h out s ds s' ds' \<Longrightarrow> (\<forall>p\<in>set ds. h p \<noteq> None) \<Longrightarrow>
   \<exists>m'. post2_print m s = Some m' \<and> tnodes m' = h \<and> output_so_far m' = out @ map (\<lambda>p. Spaced (item (the (h p)))) ds"
proof (induction ds arbitrary: m out s)
  case Nil
  then have "post2_print m s = Some m" using view_empty [OF Nil(1)] by (subst post2_print.simps) (simp add: isEmptyStack_node_def)
  then show ?case using Nil(1) unfolding view_def by simp
next
  case (Cons p ds)
  obtain t m1 where m1: "pop_node m s = Some (p, t, m1)" "view m1 h out t ds s' ds'" using view_pop [OF Cons.prems(1)] by blast
  obtain x where x: "h p = Some x" using Cons.prems(2) by auto
  have "s \<noteq> NULL" using view_empty [OF Cons.prems(1)] by simp
  then have "post2_print m s = post2_print (add_out m1 [Spaced (item x)]) t"
    using m1 view_tnodes [OF m1(2)] x by (subst post2_print.simps) (simp add: isEmptyStack_node_def)
  then show ?case using Cons.IH [OF view_print [OF m1(2), of "[Spaced (item x)]"]] Cons.prems(2) x by simp
qed

lemma tree_items: "tree_at h p t \<Longrightarrow> (c, v) \<in> set_tree t \<Longrightarrow> \<exists>a b. h c = Some \<lparr>item = v, left = a, right = b\<rparr>"
proof (induction t arbitrary: p)
  case (Node l x r)
  from Node.prems(1) obtain a b where x: "h (fst x) = Some \<lparr>item = snd x, left = a, right = b\<rparr>" "tree_at h a l" "tree_at h b r"
    by (rule tree_at_Node)
  consider "(c, v) = x" | "(c, v) \<in> set_tree l" | "(c, v) \<in> set_tree r" using Node.prems(2) by auto
  then show ?case
  proof cases
    case 1
    then show ?thesis using x(1) by (cases x) auto
  qed (rule Node.IH(1) [OF x(2)] Node.IH(2) [OF x(3)]; assumption)+
qed simp

lemma set_right_preorder: "set (right_preorder t) = set_tree t"
  by (induction t) auto

lemma postOrderIterativeS2_tree:
  assumes "wf_mem m" "tree_at (tnodes m) p t"
  shows "\<exists>m'. postOrderIterativeS2 m p = Some m' \<and> tnodes m' = tnodes m \<and>
    output_so_far m' = output_so_far m @ map Spaced (postorder (itree t))"
proof (cases "p = NULL")
  case True
  then show ?thesis using assms by (simp add: postOrderIterativeS2_def)
next
  case False
  have r: "root_addr t = p" "t \<noteq> Leaf" using tree_at_root [OF assms(2)] assms(2) False by auto
  obtain s1 m1 where s1: "push_node m NULL p = (s1, m1)" by fastforce
  have v: "view m1 (tnodes m) (output_so_far m) s1 (map root_addr [t]) NULL []"
    using view_push(1) [OF view_start [OF assms(1)] s1] r by simp
  have f: "forest (tnodes m) [t]" using assms(2) r by simp
  obtain m2 t1 t2 where m2: "post2_fill m1 s1 NULL = Some (t2, m2)"
      "view m2 (tnodes m) (output_so_far m) t1 [] t2 (rev (map fst (concat (map right_preorder [t]))) @ [])"
    using post2_fill_forest [OF f v] by blast
  let ?ds = "rev (map fst (right_preorder t))"
  have v2: "view m2 (tnodes m) (output_so_far m) t2 ?ds t1 []" using view_swap [OF m2(2)] by simp
  have some: "\<forall>q\<in>set ?ds. tnodes m q \<noteq> None"
    using tree_at_mapped [OF assms(2)] by (auto simp: set_right_preorder)
  obtain m3 where m3: "post2_print m2 t2 = Some m3" "tnodes m3 = tnodes m"
      "output_so_far m3 = output_so_far m @ map (\<lambda>q. Spaced (item (the (tnodes m q)))) ?ds"
    using post2_print_list [OF v2 some] by blast
  have "map (\<lambda>q. Spaced (item (the (tnodes m q)))) ?ds = map (\<lambda>x. Spaced (snd x)) (rev (right_preorder t))"
  proof -
    have "item (the (tnodes m (fst x))) = snd x" if "x \<in> set_tree t" for x
      using tree_items [OF assms(2), of "fst x" "snd x"] that by auto
    then show ?thesis by (auto simp: rev_map set_right_preorder)
  qed
  also have "\<dots> = map Spaced (postorder (itree t))"
    by (simp add: rev_right_preorder postorder_map comp_def)
  finally have "output_so_far m3 = output_so_far m @ map Spaced (postorder (itree t))" using m3(3) by simp
  moreover have "postOrderIterativeS2 m p = Some m3" using False s1 m2(1) m3(1) by (simp add: postOrderIterativeS2_def)
  ultimately show ?thesis using m3(2) by blast
qed

end
