(* ===== verification/LevelOrder.thy ===== *)
theory LevelOrder
  imports Traversals
begin

text \<open>
  \<open>levelOrderTraversal\<close> of \<open>binary_search_tree.c\<close>: the queue as a list of node addresses, and the rounds of the loop as the
  levels of the tree.
\<close>

fun qcells :: "(addr \<rightharpoonup> qnode) \<Rightarrow> addr \<Rightarrow> (addr \<times> addr) list \<Rightarrow> bool" where
  "qcells h p [] = (p = NULL)"
| "qcells h p (c # cs) = (p = fst c \<and> p \<noteq> NULL \<and> (\<exists>n. h p = Some \<lparr>qdata = snd c, nextPtr = n\<rparr> \<and> qcells h n cs))"

lemma qcells_upd [simp]: "a \<notin> fst ` set cs \<Longrightarrow> qcells (h(a := v)) p cs = qcells h p cs"
  by (induction cs arbitrary: p) auto

lemma qcells_mapped: "qcells h p cs \<Longrightarrow> a \<in> fst ` set cs \<Longrightarrow> \<exists>n. h a = Some n"
  by (induction cs arbitrary: p) auto

lemma qcells_snoc:
  "qcells h p (cs @ [c]) \<Longrightarrow> distinct (map fst (cs @ [c])) \<Longrightarrow> fst d \<noteq> NULL \<Longrightarrow> fst d \<notin> fst ` set (cs @ [c]) \<Longrightarrow>
   h (fst d) = Some \<lparr>qdata = snd d, nextPtr = NULL\<rparr> \<Longrightarrow>
   h (fst c) = Some \<lparr>qdata = snd c, nextPtr = NULL\<rparr> \<and> qcells (h(fst c \<mapsto> \<lparr>qdata = snd c, nextPtr = fst d\<rparr>)) p (cs @ [c, d])"
proof (induction cs arbitrary: p)
  case (Cons a cs)
  then obtain n where n: "p = fst a" "p \<noteq> NULL" "h p = Some \<lparr>qdata = snd a, nextPtr = n\<rparr>" "qcells h n (cs @ [c])" by auto
  then show ?case using Cons.IH [OF n(4)] Cons.prems by auto
qed auto

definition queue :: "tmem \<Rightarrow> (addr \<rightharpoonup> tnode) \<Rightarrow> shown list \<Rightarrow> addr \<Rightarrow> addr \<Rightarrow> addr list \<Rightarrow> bool" where
  "queue m h out hd' tl' ds \<longleftrightarrow> wf_mem m \<and> tnodes m = h \<and> output_so_far m = out \<and>
     (\<exists>cs. qcells (qnodes m) hd' cs \<and> map snd cs = ds \<and> distinct (map fst cs) \<and> tl' = (if cs = [] then NULL else fst (last cs)))"

lemma queueE:
  assumes "queue m h out p q ds"
  obtains cs where "wf_mem m" "tnodes m = h" "output_so_far m = out" "qcells (qnodes m) p cs" "map snd cs = ds" "distinct (map fst cs)"
    "q = (if cs = [] then NULL else fst (last cs))"
  using assms unfolding queue_def by blast

lemma queue_start: "wf_mem m \<Longrightarrow> queue m (tnodes m) (output_so_far m) NULL NULL []"
  by (simp add: queue_def)

lemma queue_empty: "queue m h out p q ds \<Longrightarrow> p = NULL \<longleftrightarrow> ds = []"
proof (erule queueE)
  fix cs
  assume "qcells (qnodes m) p cs" "map snd cs = ds"
  then show ?thesis by (cases cs) auto
qed

lemma queue_tnodes: "queue m h out p q ds \<Longrightarrow> tnodes m = h"
  by (simp add: queue_def)

lemma queue_print: "queue m h out p q ds \<Longrightarrow> queue (add_out m ss) h (out @ ss) p q ds"
  unfolding queue_def wf_mem_def by auto

lemma queue_enqueue:
  assumes "queue m h out p q ds"
  shows "\<exists>p' q' m'. enqueue_node m p q d = Some (p', q', m') \<and> queue m' h out p' q' (ds @ [d])"
  using assms
proof (rule queueE)
  fix cs
  assume m: "wf_mem m" "tnodes m = h" "output_so_far m = out" "qcells (qnodes m) p cs" "map snd cs = ds" "distinct (map fst cs)"
    "q = (if cs = [] then NULL else fst (last cs))"
  let ?a = "next_addr m"
  let ?h = "(qnodes m)(?a \<mapsto> \<lparr>qdata = d, nextPtr = NULL\<rparr>)"
  let ?m = "m\<lparr>qnodes := ?h, next_addr := ?a + 1\<rparr>"
  have a: "?a \<noteq> NULL" "qnodes m ?a = None" using m(1) by (simp_all add: wf_mem_def)
  then have new: "?a \<notin> fst ` set cs" using qcells_mapped [OF m(4)] by fastforce
  show ?thesis
  proof (cases cs rule: rev_cases)
    case Nil
    then have "enqueue_node m p q d = Some (?a, ?a, ?m)" using m(4) by (simp add: enqueue_node_def isEmpty_def Let_def)
    moreover have "queue ?m h out ?a ?a (ds @ [d])"
      using m(1,2,3,5) a Nil unfolding queue_def wf_mem_def by (intro conjI exI [of _ "[(?a, d)]"]) auto
    ultimately show ?thesis by blast
  next
    case (snoc cs0 c)
    have qs: "qcells ?h p (cs0 @ [c])" using m(4) new snoc by simp
    have r: "?h (fst c) = Some \<lparr>qdata = snd c, nextPtr = NULL\<rparr> \<and>
        qcells (?h(fst c \<mapsto> \<lparr>qdata = snd c, nextPtr = ?a\<rparr>)) p (cs0 @ [c, (?a, d)])"
      using qcells_snoc [OF qs, of "(?a, d)"] m(6) new snoc a by simp
    have ca: "fst c \<noteq> ?a" using new snoc by auto
    let ?m' = "?m\<lparr>qnodes := ?h(fst c \<mapsto> \<lparr>qdata = snd c, nextPtr = ?a\<rparr>)\<rparr>"
    have "p \<noteq> NULL" using m(4) snoc by (cases cs0) auto
    then have "enqueue_node m p q d = Some (p, ?a, ?m')" using m(7) snoc r ca by (simp add: enqueue_node_def isEmpty_def Let_def)
    moreover have "fst c < next_addr m" using m(1) r ca by (auto simp: wf_mem_def not_less[symmetric])
    then have "wf_mem ?m'" using m(1) by (auto simp: wf_mem_def)
    then have "queue ?m' h out p ?a (ds @ [d])"
      using m(2,3,5,6) new snoc r unfolding queue_def by (intro conjI exI [of _ "cs0 @ [c, (?a, d)]"]) auto
    ultimately show ?thesis by blast
  qed
qed

lemma queue_dequeue:
  assumes "queue m h out p q (d # ds)"
  shows "\<exists>p' q' m'. dequeue_node m p q = Some (d, p', q', m') \<and> queue m' h out p' q' ds"
  using assms
proof (rule queueE)
  fix cs
  assume m: "wf_mem m" "tnodes m = h" "output_so_far m = out" "qcells (qnodes m) p cs" "map snd cs = d # ds" "distinct (map fst cs)"
    "q = (if cs = [] then NULL else fst (last cs))"
  then obtain c cs0 where cs: "cs = c # cs0" "snd c = d" "map snd cs0 = ds" by (cases cs) auto
  then obtain n where n: "p = fst c" "p \<noteq> NULL" "qnodes m p = Some \<lparr>qdata = d, nextPtr = n\<rparr>" "qcells (qnodes m) n cs0" using m(4) by auto
  have n0: "n = NULL \<longleftrightarrow> cs0 = []" using n(4) by (cases cs0) auto
  let ?m = "m\<lparr>qnodes := (qnodes m)(p := None)\<rparr>"
  have "dequeue_node m p q = Some (d, n, if n = NULL then NULL else q, ?m)" using n by (simp add: dequeue_node_def Let_def)
  moreover have "queue ?m h out n (if n = NULL then NULL else q) ds"
    using m(1-3,6,7) cs n n0 unfolding queue_def wf_mem_def by (intro conjI exI [of _ cs0]) auto
  ultimately show ?thesis by blast
qed

lemma length_loop_cells:
  "qcells (qnodes m) p cs \<Longrightarrow> 0 \<le> i \<Longrightarrow> i + int (length cs) < 2 ^ 31 \<Longrightarrow> length_loop m p i = Some (i + int (length cs))"
proof (induction cs arbitrary: p i)
  case Nil
  then show ?case by (simp add: length_loop.simps)
next
  case (Cons c cs)
  then obtain n where n: "p \<noteq> NULL" "qnodes m p = Some \<lparr>qdata = snd c, nextPtr = n\<rparr>" "qcells (qnodes m) n cs" by auto
  then show ?case using Cons.IH [OF n(3), of "i + 1"] Cons.prems(2,3) by (subst length_loop.simps) simp
qed

lemma queue_length: "queue m h out p q ds \<Longrightarrow> int (length ds) < 2 ^ 31 \<Longrightarrow> findLengthQueue m p = Some (int (length ds))"
proof (erule queueE)
  fix cs
  assume "qcells (qnodes m) p cs" "map snd cs = ds" "int (length ds) < 2 ^ 31"
  then show ?thesis using length_loop_cells [of m p cs 0] by (cases cs) (auto simp: findLengthQueue_def isEmpty_def)
qed

subsection \<open>The levels of a tree\<close>

fun level :: "nat \<Rightarrow> 'a tree \<Rightarrow> 'a list" where
  "level k Leaf = []"
| "level 0 (Node l x r) = [x]"
| "level (Suc k) (Node l x r) = level k l @ level k r"

lemma level_children: "level (Suc k) t = concat (map (level k) (children t))"
  by (cases t) auto

lemma children_map: "children (map_tree f t) = map (map_tree f) (children t)"
  by (cases t) (auto simp: filter_map)

lemma level_high: "height t \<le> k \<Longrightarrow> level k t = []"
  by (induction k t rule: level.induct) auto

lemma level_map: "level k (map_tree f t) = map f (level k t)"
  by (induction k t rule: level.induct) auto

lemma forest_children: "tree_at h p t \<Longrightarrow> forest h (children t)"
proof (cases t)
  case (Node l x r)
  assume "tree_at h p t"
  then obtain a b where "tree_at h a l" "tree_at h b r" unfolding Node by (rule tree_at_Node)
  then show ?thesis using Node tree_at_root by auto
qed (simp add: children_def)

lemma level_for_round:
  assumes "forest h ts" "queue m h out p q (map root_addr (ts @ us))" "i + int (length ts) = count" "0 \<le> i" "count < 2 ^ 31"
  shows "\<exists>p' q' m'. level_for m p q i count = Some (p', q', m') \<and>
    queue m' h (out @ map Spaced (concat (map (level 0) (map itree ts)))) p' q' (map root_addr (us @ concat (map children ts)))"
  using assms
proof (induction ts arbitrary: m out p q us i)
  case Nil
  then show ?case by (subst level_for.simps) simp
next
  case (Cons t ts)
  then obtain l x r where t: "t = Node l x r" by (cases t) auto
  have "tree_at h (root_addr t) (Node l x r)" using Cons.prems(1) t by simp
  then obtain a b where x: "root_addr t = fst x" "fst x \<noteq> NULL" "h (fst x) = Some \<lparr>item = snd x, left = a, right = b\<rparr>"
      "tree_at h a l" "tree_at h b r" "a = NULL \<longleftrightarrow> l = Leaf" "b = NULL \<longleftrightarrow> r = Leaf" by (rule tree_at_Node)
  have ab: "a = root_addr l" "b = root_addr r" using tree_at_root x(4,5) by blast+
  have q0: "queue m h out p q (fst x # map root_addr (ts @ us))" using Cons.prems(2) x(1) by simp
  obtain p1 q1 m1 where m1: "dequeue_node m p q = Some (fst x, p1, q1, m1)" "queue m1 h out p1 q1 (map root_addr (ts @ us))"
    using queue_dequeue [OF q0] by blast
  let ?m1 = "add_out m1 [Spaced (snd x)]" and ?out = "out @ [Spaced (snd x)]"
  have q1: "queue ?m1 h ?out p1 q1 (map root_addr (ts @ us))" using queue_print [OF m1(2)] .
  obtain p2 q2 m2 where m2: "(if a \<noteq> NULL then enqueue_node ?m1 p1 q1 a else Some (p1, q1, ?m1)) = Some (p2, q2, m2)"
      "queue m2 h ?out p2 q2 (map root_addr (ts @ us @ filter (\<lambda>u. u \<noteq> Leaf) [l]))"
    using queue_enqueue [OF q1, of a] q1 x(6) ab by (cases "l = Leaf") auto
  obtain p3 q3 m3 where m3: "(if b \<noteq> NULL then enqueue_node m2 p2 q2 b else Some (p2, q2, m2)) = Some (p3, q3, m3)"
      "queue m3 h ?out p3 q3 (map root_addr (ts @ us @ children t))"
    using queue_enqueue [OF m2(2), of b] m2(2) x(7) ab t by (cases "r = Leaf"; cases "l = Leaf") auto
  have i: "i < count" "checked (i + 1) = Some (i + 1)" using Cons.prems(3-5) by simp_all
  have tn: "tnodes m1 (fst x) = Some \<lparr>item = snd x, left = a, right = b\<rparr>" using queue_tnodes [OF m1(2)] x(3) by simp
  have step: "level_for m p q i count = level_for m3 p3 q3 (i + 1) count"
    using i m1(1) tn m2(1) m3(1) by (subst level_for.simps) (simp add: Let_def cong: if_cong del: if_split)
  obtain p' q' m' where "level_for m3 p3 q3 (i + 1) count = Some (p', q', m')"
      "queue m' h (?out @ map Spaced (concat (map (level 0) (map itree ts)))) p' q' (map root_addr ((us @ children t) @ concat (map children ts)))"
    using Cons.IH [of m3 ?out p3 q3 "us @ children t" "i + 1"] m3(2) Cons.prems(1,3-5) by auto
  then show ?case using step t by simp
qed

lemma children_height: "u \<in> set (children t) \<Longrightarrow> height u < height t"
  by (cases t) (auto split: if_splits)

lemma forest_concat: "forest h ts \<Longrightarrow> forest h (concat (map children ts))"
  using forest_children by (induction ts) auto

lemma children_size: "t \<noteq> Leaf \<Longrightarrow> sum_list (map size (children t)) = size t - 1"
  by (cases t) auto

lemma level_while_forest:
  assumes "forest h ts" "queue m h out p q (map root_addr ts)" "\<forall>t\<in>set ts. height t \<le> n" "int (sum_list (map size ts)) < 2 ^ 31"
  shows "\<exists>m'. level_while m p q = Some m' \<and> tnodes m' = h \<and>
    output_so_far m' = out @ map Spaced (concat (map (\<lambda>k. concat (map (level k) (map itree ts))) [0..<n]))"
  using assms
proof (induction n arbitrary: m out p q ts)
  case 0
  then have "ts = []" by (cases ts) (auto simp: forest_def)
  moreover have "level_while m p q = Some m"
    using queue_empty [OF 0(2)] calculation by (subst level_while.simps) (simp add: isEmpty_def)
  ultimately show ?case using 0(2) unfolding queue_def by simp
next
  case (Suc n)
  have size: "length ts \<le> sum_list (map size ts)" using Suc.prems(1)
  proof (induction ts)
    case (Cons t ts)
    then show ?case by (cases t) auto
  qed simp
  show ?case
  proof (cases "ts = []")
    case True
    have "level_while m p q = Some m"
      using queue_empty [OF Suc.prems(2)] True by (subst level_while.simps) (simp add: isEmpty_def)
    moreover have "concat (map (\<lambda>k. concat (map (level k) (map itree ts))) [0..<Suc n]) = []" using True by simp
    ultimately show ?thesis using Suc.prems(2) unfolding queue_def by simp
  next
    case False
    have count: "findLengthQueue m p = Some (int (length ts))"
      using queue_length [OF Suc.prems(2)] size Suc.prems(4) by simp
    obtain p1 q1 m1 where m1: "level_for m p q 0 (int (length ts)) = Some (p1, q1, m1)"
        "queue m1 h (out @ map Spaced (concat (map (level 0) (map itree ts)))) p1 q1 (map root_addr (concat (map children ts)))"
      using level_for_round [OF Suc.prems(1), of m out p q "[]" 0 "int (length ts)"] Suc.prems(2,4) size by auto
    have step: "level_while m p q = level_while m1 p1 q1"
      using queue_empty [OF Suc.prems(2)] False count m1(1) by (subst level_while.simps) (simp add: isEmpty_def)
    let ?us = "concat (map children ts)"
    have h: "\<forall>t\<in>set ?us. height t \<le> n"
    proof
      fix u
      assume "u \<in> set ?us"
      then obtain t where t: "t \<in> set ts" "u \<in> set (children t)" by auto
      then have "height u < height t" using children_height by blast
      then show "height u \<le> n" using Suc.prems(3) t(1) by fastforce
    qed
    have s: "sum_list (map size ?us) \<le> sum_list (map size ts)" using Suc.prems(1)
    proof (induction ts)
      case (Cons t ts)
      then show ?case using children_size [of t] by simp
    qed simp
    obtain m' where m': "level_while m1 p1 q1 = Some m'" "tnodes m' = h"
        "output_so_far m' = (out @ map Spaced (concat (map (level 0) (map itree ts)))) @
          map Spaced (concat (map (\<lambda>k. concat (map (level k) (map itree ?us))) [0..<n]))"
      using Suc.IH [OF forest_concat [OF Suc.prems(1)] m1(2) h] s Suc.prems(4) by auto
    have shift: "concat (map (level k) (map itree ?us)) = concat (map (level (Suc k)) (map itree ts))" for k
      by (induction ts) (simp_all add: level_children children_map)
    have "[0..<Suc n] = 0 # map Suc [0..<n]" by (simp add: upt_conv_Cons map_Suc_upt del: upt_Suc)
    then have "concat (map (\<lambda>k. concat (map (level k) (map itree ts))) [0..<Suc n]) =
        concat (map (level 0) (map itree ts)) @ concat (map (\<lambda>k. concat (map (level (Suc k)) (map itree ts))) [0..<n])"
      by (simp only: list.map concat.simps map_map comp_def)
    then show ?thesis using step m' unfolding shift by simp
  qed
qed

lemma levelOrderTraversal_tree:
  assumes "wf_mem m" "tree_at (tnodes m) p t" "int (size t) < 2 ^ 31"
  shows "\<exists>m'. levelOrderTraversal m p = Some m' \<and> tnodes m' = tnodes m \<and>
    output_so_far m' = output_so_far m @ map Spaced (concat (map (\<lambda>k. level k (itree t)) [0..<height t]))"
proof (cases "p = NULL")
  case True
  then show ?thesis using assms by (simp add: levelOrderTraversal_def)
next
  case False
  have r: "root_addr t = p" "t \<noteq> Leaf" using tree_at_root [OF assms(2)] assms(2) False by auto
  obtain p1 q1 m1 where m1: "enqueue_node m NULL NULL p = Some (p1, q1, m1)" "queue m1 (tnodes m) (output_so_far m) p1 q1 (map root_addr [t])"
    using queue_enqueue [OF queue_start [OF assms(1)], of p] r by auto
  have f: "forest (tnodes m) [t]" using assms(2) r by simp
  obtain m' where "level_while m1 p1 q1 = Some m'" "tnodes m' = tnodes m"
      "output_so_far m' = output_so_far m @ map Spaced (concat (map (\<lambda>k. concat (map (level k) (map itree [t]))) [0..<height t]))"
    using level_while_forest [OF f m1(2), of "height t"] assms(3) by auto
  then show ?thesis using False m1(1) by (simp add: levelOrderTraversal_def)
qed

end
