(* ===== verification/TreeExercises.thy ===== *)
theory TreeExercises
  imports LevelOrder
begin

text \<open>
  The properties of the binary trees and binary search trees of \<open>Data-Structures\<close>, and a concrete memory at which they are
  applied.
\<close>

definition demo_tree :: ntree where
  "demo_tree = Node (Node Leaf (2, 3) Leaf) (1, 5) (Node (Node Leaf (4, 7) Leaf) (3, 8) Leaf)"

definition demo_mem :: tmem where
  "demo_mem = \<lparr>tnodes = [1 \<mapsto> \<lparr>item = 5, left = 2, right = 3\<rparr>, 2 \<mapsto> \<lparr>item = 3, left = 0, right = 0\<rparr>,
      3 \<mapsto> \<lparr>item = 8, left = 4, right = 0\<rparr>, 4 \<mapsto> \<lparr>item = 7, left = 0, right = 0\<rparr>],
     snodes = (\<lambda>_. None), qnodes = (\<lambda>_. None), next_addr = 5, output_so_far = []\<rparr>"

lemma demo_at: "tree_at (tnodes demo_mem) 1 demo_tree"
  by (simp add: demo_mem_def demo_tree_def)

lemma demo_apart: "apart_tree demo_tree"
  by (simp add: demo_tree_def)

lemma demo_wf: "wf_mem demo_mem"
  by (simp add: wf_mem_def demo_mem_def)

subsection \<open>Search trees as sets\<close>

datatype bst_op = Insert int | Remove int

fun run_bst :: "tmem \<Rightarrow> addr \<Rightarrow> bst_op list \<Rightarrow> (addr \<times> tmem) option" where
  "run_bst m p [] = Some (p, m)"
| "run_bst m p (Insert v # ops) = do { (p, m) \<leftarrow> insertBSTNode m p v; run_bst m p ops }"
| "run_bst m p (Remove v # ops) = do { (p, m) \<leftarrow> removeNodeFromTree m p v; run_bst m p ops }"

fun set_of_ops :: "int set \<Rightarrow> bst_op list \<Rightarrow> int set" where
  "set_of_ops A [] = A"
| "set_of_ops A (Insert v # ops) = set_of_ops (insert v A) ops"
| "set_of_ops A (Remove v # ops) = set_of_ops (A - {v}) ops"

lemma wf_mem_updated:
  assumes "wf_mem m" "tree_at (tnodes m) p t" "updated m t u {} q m' t'" "next_addr m' = next_addr m"
  shows "wf_mem m'"
proof -
  have "tnodes m' a = None" if "a \<ge> next_addr m" for a
    using that wf_mem_tree [OF assms(1,2), of a] updatedD(5) [OF assms(3), of a] assms(1) by (force simp: wf_mem_def)
  then show ?thesis using assms(1,4) updatedD(7,8) [OF assms(3)] by (simp add: wf_mem_def)
qed

lemma run_bst_tree:
  "wf_mem m \<Longrightarrow> tree_at (tnodes m) p t \<Longrightarrow> apart_tree t \<Longrightarrow> bst (itree t) \<Longrightarrow>
   \<exists>q m' t'. run_bst m p ops = Some (q, m') \<and> wf_mem m' \<and> tree_at (tnodes m') q t' \<and> apart_tree t' \<and> bst (itree t') \<and>
     set_tree (itree t') = set_of_ops (set_tree (itree t)) ops \<and> output_so_far m' = output_so_far m"
proof (induction ops arbitrary: m p t)
  case (Cons op ops)
  show ?case
  proof (cases op)
    case (Insert v)
    obtain q m1 t1 where r: "insertBSTNode m p v = Some (q, m1)" "updated m t (bst_insert v (itree t)) {next_addr m} q m1 t1" "wf_mem m1"
      using insertBSTNode_tree [OF Cons.prems(1-3)] by blast
    have b: "bst (itree t1)" "set_tree (itree t1) = insert v (set_tree (itree t))"
      using bst_insert_bst [OF Cons.prems(4)] bst_insert_set unfolding updatedD(3) [OF r(2)] by blast+
    show ?thesis
      using Cons.IH [OF r(3) updatedD(1,2) [OF r(2)] b(1)] r(1) b(2) updatedD(9) [OF r(2)] Insert by simp
  next
    case (Remove v)
    obtain q m1 t1 where r: "removeNodeFromTree m p v = Some (q, m1)" "updated m t (bst_remove v (itree t)) {} q m1 t1" "next_addr m1 = next_addr m"
      using removeNodeFromTree_tree [OF Cons.prems(2,3)] by blast
    have w: "wf_mem m1" using wf_mem_updated [OF Cons.prems(1,2) r(2,3)] .
    have b: "bst (itree t1)" "set_tree (itree t1) = set_tree (itree t) - {v}"
      using bst_remove_bst [OF Cons.prems(4)] bst_remove_set [OF Cons.prems(4)] unfolding updatedD(3) [OF r(2)] by blast+
    show ?thesis
      using Cons.IH [OF w updatedD(1,2) [OF r(2)] b(1)] r(1) b(2) updatedD(9) [OF r(2)] Remove by simp
  qed
qed auto

lemma bst_inorder: "bst t \<Longrightarrow> inorder t = sorted_list_of_set (set_tree t)" for t :: "int tree"
proof -
  assume "bst t"
  then have "sorted_wrt (<) (inorder t)" by (simp add: bst_iff_sorted_wrt_less)
  then show ?thesis by (metis sorted_list_of_set.idem_if_sorted_distinct set_inorder strict_sorted_iff)
qed

text \<open>C26: Any sequence of insertions and removals, from the empty tree, yields a search tree of exactly the set that the same insertions and removals give, and the in-order traversal prints it in ascending order.\<close>

theorem search_tree_is_set:
  assumes "wf_mem m"
  shows "\<exists>p m' m'' t. run_bst m NULL ops = Some (p, m') \<and> tree_at (tnodes m') p t \<and> bst (itree t) \<and>
    set_tree (itree t) = set_of_ops {} ops \<and> inOrderIterative m' p = Some m'' \<and>
    output_so_far m'' = output_so_far m @ map Spaced (sorted_list_of_set (set_of_ops {} ops))"
proof -
  obtain p m' t where r: "run_bst m NULL ops = Some (p, m')" "wf_mem m'" "tree_at (tnodes m') p t" "bst (itree t)"
      "set_tree (itree t) = set_of_ops {} ops" "output_so_far m' = output_so_far m"
    using run_bst_tree [OF assms, of NULL Leaf ops] by auto
  then show ?thesis using inOrderIterative_tree [OF r(2,3)] bst_inorder [OF r(4)] by metis
qed

theorem search_tree_is_set_witness:
  "\<exists>p m' m''. run_bst demo_mem NULL [Insert 4, Insert 2, Insert 6, Remove 4] = Some (p, m') \<and>
    inOrderIterative m' p = Some m'' \<and> output_so_far m'' = [Spaced 2, Spaced 6]"
proof -
  have "set_of_ops {} [Insert 4, Insert 2, Insert 6, Remove 4] = {2, 6 :: int}" by auto
  then show ?thesis
    using search_tree_is_set [OF demo_wf, of "[Insert 4, Insert 2, Insert 6, Remove 4]"] by (auto simp: demo_mem_def)
qed

text \<open>C31: Removing a value from a search tree keeps it a search tree without the value, frees every node that leaves the tree and touches no other node.\<close>

theorem removeNodeFromTree_correct:
  assumes "tree_at (tnodes m) p t" "apart_tree t" "bst (itree t)"
  shows "\<exists>q m' t'. removeNodeFromTree m p v = Some (q, m') \<and> tree_at (tnodes m') q t' \<and> apart_tree t' \<and> bst (itree t') \<and>
    set_tree (itree t') = set_tree (itree t) - {v} \<and> (\<forall>a\<in>naddrs t - naddrs t'. tnodes m' a = None) \<and>
    (\<forall>a. a \<notin> naddrs t \<longrightarrow> tnodes m' a = tnodes m a)"
proof -
  obtain q m' t' where r: "removeNodeFromTree m p v = Some (q, m')" "updated m t (bst_remove v (itree t)) {} q m' t'"
    using removeNodeFromTree_tree [OF assms(1,2)] by blast
  then show ?thesis
    using updatedD [OF r(2)] bst_remove_bst [OF assms(3), of v] bst_remove_set [OF assms(3), of v]
    by (intro exI [of _ q] exI [of _ m'] exI [of _ t']) simp
qed

theorem removeNodeFromTree_witness:
  "\<exists>q m' t'. removeNodeFromTree demo_mem 1 5 = Some (q, m') \<and> tree_at (tnodes m') q t' \<and> set_tree (itree t') = {3, 7, 8}"
proof -
  have "bst (itree demo_tree)" "set_tree (itree demo_tree) - {5} = {3, 7, 8}" by (auto simp: demo_tree_def)
  then show ?thesis using removeNodeFromTree_correct [OF demo_at demo_apart, of 5] by auto
qed

text \<open>C27: The iterative traversals terminate on every tree and print its items: \<open>inOrderIterative\<close> in order, both versions of \<open>postOrderIterative\<close> in post order, \<open>levelOrderTraversal\<close> level by level, and \<open>preOrderIterative\<close> in order too, not in pre order.\<close>

theorem traversals_terminate:
  assumes "wf_mem m" "tree_at (tnodes m) p t" "apart_tree t" "int (size t) < 2 ^ 31"
  shows "(\<exists>m'. inOrderIterative m p = Some m' \<and> output_so_far m' = output_so_far m @ map Spaced (inorder (itree t))) \<and>
    (\<exists>m'. preOrderIterative m p = Some m' \<and> output_so_far m' = output_so_far m @ map Spaced (inorder (itree t))) \<and>
    (\<exists>m'. postOrderIterativeS1 m p = Some m' \<and> output_so_far m' = output_so_far m @ map Spaced (postorder (itree t))) \<and>
    (\<exists>m'. postOrderIterativeS2 m p = Some m' \<and> output_so_far m' = output_so_far m @ map Spaced (postorder (itree t))) \<and>
    (\<exists>m'. levelOrderTraversal m p = Some m' \<and>
      output_so_far m' = output_so_far m @ map Spaced (concat (map (\<lambda>k. level k (itree t)) [0..<height t])))"
  using inOrderIterative_tree [OF assms(1,2)] postOrderIterativeS1_tree [OF assms(1-3)] postOrderIterativeS2_tree [OF assms(1,2)]
    levelOrderTraversal_tree [OF assms(1,2,4)] preOrderIterative_in_order by metis

theorem traversals_terminate_witness:
  "(\<exists>m'. preOrderIterative demo_mem 1 = Some m' \<and> output_so_far m' = map Spaced [3, 5, 7, 8]) \<and>
   (\<exists>m'. levelOrderTraversal demo_mem 1 = Some m' \<and> output_so_far m' = map Spaced [5, 3, 8, 7])"
  using traversals_terminate [OF demo_wf demo_at demo_apart] by (simp add: demo_tree_def demo_mem_def upt_rec numeral_eq_Suc)

text \<open>C32: The recursive functions on binary trees compute what they are named for: equality of shape and items, the height less one, the number of nodes with one child, the sum of the odd items, the least item, the items below a bound in pre order, and the number of nodes with a descendant three levels below, each printed.\<close>

theorem tree_measures_correct:
  assumes "tree_at (tnodes m) p t" "tree_at (tnodes m) q u" "int (size t) < 2 ^ 31" "sum_abs (itree t) < 2 ^ 31"
  shows "identical m p q = Some (if itree t = itree u then 1 else 0) \<and>
    maxHeight m p = Some (int (height t) - 1) \<and>
    countOneChildNodes m p = Some (int (one_child t)) \<and>
    sumOfOddNodes m p = Some (sum_list (filter odd (inorder (itree t)))) \<and>
    smallestValue m p = Some (if t = Leaf then 1000000 else Min (set_tree (itree t))) \<and>
    printSmallerValues m p v = Some (add_out m (map Plain (filter (\<lambda>i. i < v) (preorder (itree t))))) \<and>
    hasGreatGrandchild m p =
      Some (int (length (great_grandparents (itree t))), add_out m (map Spaced (great_grandparents (itree t))))"
proof -
  have "int (height t) < 2 ^ 31" using height_le_size [of t] assms(3) by linarith
  moreover have "sum_odd w = sum_list (filter odd (inorder w))" for w by (induction w) auto
  ultimately show ?thesis
    using identical_trees [OF assms(1,2)] maxHeight_tree [OF assms(1)] countOneChildNodes_tree [OF assms(1,3)]
      sumOfOddNodes_tree [OF assms(1,4)] smallestValue_tree [OF assms(1)] printSmallerValues_tree [OF assms(1)]
      hasGreatGrandchild_tree [OF assms(1,3)] by simp
qed

theorem tree_measures_witness:
  "maxHeight demo_mem 1 = Some 2 \<and> countOneChildNodes demo_mem 1 = Some 1 \<and> sumOfOddNodes demo_mem 1 = Some 15 \<and> smallestValue demo_mem 1 = Some 3"
  using tree_measures_correct [OF demo_at demo_at] by (simp add: demo_tree_def)

text \<open>\<open>mirrorTree\<close> mirrors a tree in place, with the same nodes, and \<open>removeAll\<close> frees exactly the nodes of a tree and clears the pointer to it.\<close>

theorem mirror_and_remove_correct:
  assumes "tree_at (tnodes m) p t" "apart_tree t"
  shows "(\<exists>m'. mirrorTree m p = Some m' \<and> tree_at (tnodes m') p (mirror t) \<and> (\<forall>a. a \<notin> naddrs t \<longrightarrow> tnodes m' a = tnodes m a)) \<and>
    (\<exists>m'. removeAll m p = Some (NULL, m') \<and> (\<forall>a. tnodes m' a = (if a \<in> naddrs t then None else tnodes m a)))"
  using mirrorTree_tree [OF assms] removeAll_tree [OF assms] by auto

theorem mirror_and_remove_witness:
  "(\<exists>m'. mirrorTree demo_mem 1 = Some m' \<and>
      tree_at (tnodes m') 1 (Node (Node Leaf (3, 8) (Node Leaf (4, 7) Leaf)) (1, 5) (Node Leaf (2, 3) Leaf))) \<and>
   (\<exists>m'. removeAll demo_mem 1 = Some (NULL, m') \<and> tnodes m' 4 = None)"
  using mirror_and_remove_correct [OF demo_at demo_apart] by (auto simp: demo_tree_def)

end
