(* ===== verification/Rio.thy ===== *)
theory Rio
  imports Prelude
begin

text \<open>
  The robust I/O package of \<open>webproxy-lab/csapp.c\<close>, over the system calls it makes.

  A system call is a function of the record \<open>os\<close>, a parameter of the model, on the state \<open>'w\<close> of everything outside the
  program. \<open>sys_read\<close> gives the bytes that were read, or \<open>None\<close> where \<open>read\<close> returns -1; \<open>sys_write\<close> gives the result of
  \<open>write\<close>. A function that fills the buffer of its caller returns the bytes that it stores at the start of it, with the
  terminating null byte where it writes one. \<open>exit\<close> is a result of its own.
\<close>

type_synonym addrinfo = nat

record 'w os =
  sys_read :: "'w \<Rightarrow> int \<Rightarrow> nat \<Rightarrow> string option \<times> 'w"
  sys_write :: "'w \<Rightarrow> int \<Rightarrow> string \<Rightarrow> int \<times> 'w"
  errno :: "'w \<Rightarrow> int"
  sys_getaddrinfo :: "'w \<Rightarrow> string \<Rightarrow> string \<Rightarrow> addrinfo list option \<times> 'w"
  sys_socket :: "'w \<Rightarrow> addrinfo \<Rightarrow> int \<times> 'w"
  sys_connect :: "'w \<Rightarrow> int \<Rightarrow> addrinfo \<Rightarrow> int \<times> 'w"
  sys_close :: "'w \<Rightarrow> int \<Rightarrow> int \<times> 'w"

datatype 'a outcome = Exited | Returned 'a

definition EINTR :: int where
  "EINTR = 4"

definition RIO_BUFSIZE :: nat where
  "RIO_BUFSIZE = 8192"

definition NUL :: char where
  "NUL = CHR 0x00"

definition LF :: char where
  "LF = CHR 0x0A"

subsection \<open>Unbuffered input and output\<close>

text \<open>The bytes left to read, \<open>None\<close> after an error, and the bytes stored so far.\<close>

partial_function (option) readn_loop :: "'w os \<Rightarrow> int \<Rightarrow> 'w \<Rightarrow> nat \<Rightarrow> string \<Rightarrow> (nat option \<times> string \<times> 'w) option" where
  "readn_loop os fd w nleft buf =
     (if nleft > 0 then
        (case sys_read os w fd nleft of
           (None, w) \<Rightarrow> if errno os w = EINTR then readn_loop os fd w nleft buf else Some (None, buf, w)
         | (Some bs, w) \<Rightarrow>
             if bs = [] then Some (Some nleft, buf, w)
             else if length bs > nleft then None
             else readn_loop os fd w (nleft - length bs) (buf @ bs))
      else Some (Some nleft, buf, w))"

definition rio_readn :: "'w os \<Rightarrow> 'w \<Rightarrow> int \<Rightarrow> nat \<Rightarrow> (int \<times> string \<times> 'w) option" where
  "rio_readn os w fd n = do {
     (nleft, buf, w) \<leftarrow> readn_loop os fd w n [];
     Some (case nleft of None \<Rightarrow> -1 | Some k \<Rightarrow> int n - int k, buf, w)
   }"

partial_function (option) writen_loop :: "'w os \<Rightarrow> int \<Rightarrow> 'w \<Rightarrow> string \<Rightarrow> (bool \<times> 'w) option" where
  "writen_loop os fd w bs =
     (if length bs > 0 then
        (case sys_write os w fd bs of
           (nwritten, w) \<Rightarrow>
             if nwritten \<le> 0 then (if errno os w = EINTR then writen_loop os fd w bs else Some (False, w))
             else if nwritten > int (length bs) then None
             else writen_loop os fd w (drop (nat nwritten) bs))
      else Some (True, w))"

definition rio_writen :: "'w os \<Rightarrow> 'w \<Rightarrow> int \<Rightarrow> string \<Rightarrow> (int \<times> 'w) option" where
  "rio_writen os w fd bs = do {
     (done, w) \<leftarrow> writen_loop os fd w bs;
     Some (if done then int (length bs) else -1, w)
   }"

subsection \<open>Buffered input\<close>

text \<open>\<open>rio_bufptr\<close> is an index into \<open>rio_buf\<close>, which lists the bytes of the array that have been filled.\<close>

record rio_t =
  rio_fd :: int
  rio_cnt :: int
  rio_bufptr :: nat
  rio_buf :: string

definition rio_readinitb :: "int \<Rightarrow> rio_t" where
  "rio_readinitb fd = \<lparr>rio_fd = fd, rio_cnt = 0, rio_bufptr = 0, rio_buf = []\<rparr>"

text \<open>The loop of \<open>rio_read\<close>, with the result of an early return.\<close>

partial_function (option) rio_refill :: "'w os \<Rightarrow> rio_t \<Rightarrow> 'w \<Rightarrow> (int option \<times> rio_t \<times> 'w) option" where
  "rio_refill os rp w =
     (if rio_cnt rp \<le> 0 then
        (case sys_read os w (rio_fd rp) RIO_BUFSIZE of
           (None, w) \<Rightarrow>
             let rp = rp\<lparr>rio_cnt := -1\<rparr>
             in if errno os w \<noteq> EINTR then Some (Some (-1), rp, w) else rio_refill os rp w
         | (Some bs, w) \<Rightarrow>
             let rp = rp\<lparr>rio_cnt := int (length bs), rio_buf := bs @ drop (length bs) (rio_buf rp)\<rparr>
             in if length bs = 0 then Some (Some 0, rp, w) else rio_refill os (rp\<lparr>rio_bufptr := 0\<rparr>) w)
      else Some (None, rp, w))"

definition rio_read :: "'w os \<Rightarrow> rio_t \<times> 'w \<Rightarrow> nat \<Rightarrow> (int \<times> string \<times> rio_t \<times> 'w) option" where
  "rio_read os s n = do {
     (early, rp, w) \<leftarrow> rio_refill os (fst s) (snd s);
     case early of
       Some r \<Rightarrow> Some (r, [], rp, w)
     | None \<Rightarrow>
         let cnt = (if rio_cnt rp < int n then rio_cnt rp else int n)
         in if rio_bufptr rp + nat cnt > length (rio_buf rp) then None
            else Some (cnt, take (nat cnt) (drop (rio_bufptr rp) (rio_buf rp)),
                       rp\<lparr>rio_bufptr := rio_bufptr rp + nat cnt, rio_cnt := rio_cnt rp - cnt\<rparr>, w)
   }"

text \<open>The loops over a function that reads, which is \<open>rio_read\<close>.\<close>

partial_function (option) readnb_loop ::
    "('s \<Rightarrow> nat \<Rightarrow> (int \<times> string \<times> 's) option) \<Rightarrow> 's \<Rightarrow> nat \<Rightarrow> string \<Rightarrow> (nat option \<times> string \<times> 's) option" where
  "readnb_loop get s nleft buf =
     (if nleft > 0 then do {
        (nread, bs, s) \<leftarrow> get s nleft;
        if nread < 0 then Some (None, buf, s)
        else if nread = 0 then Some (Some nleft, buf, s)
        else if nread > int nleft then None
        else readnb_loop get s (nleft - nat nread) (buf @ bs)
      } else Some (Some nleft, buf, s))"

definition rio_readnb :: "'w os \<Rightarrow> rio_t \<times> 'w \<Rightarrow> nat \<Rightarrow> (int \<times> string \<times> rio_t \<times> 'w) option" where
  "rio_readnb os s n = do {
     (nleft, buf, s) \<leftarrow> readnb_loop (rio_read os) s n [];
     Some (case nleft of None \<Rightarrow> -1 | Some k \<Rightarrow> int n - int k, buf, s)
   }"

text \<open>The result, when the function returns from within the loop, the variable \<open>n\<close> and the bytes stored.\<close>

partial_function (option) readlineb_loop ::
    "('s \<Rightarrow> nat \<Rightarrow> (int \<times> string \<times> 's) option) \<Rightarrow> 's \<Rightarrow> int \<Rightarrow> nat \<Rightarrow> string \<Rightarrow> (int option \<times> int \<times> string \<times> 's) option" where
  "readlineb_loop get s n maxlen buf =
     (if n < int maxlen then do {
        (rc, c, s) \<leftarrow> get s 1;
        if rc = 1 then do {
          let buf = buf @ c;
          n' \<leftarrow> checked (n + 1);
          if c = [LF] then Some (None, n', buf, s) else readlineb_loop get s n' maxlen buf
        } else if rc = 0 then Some (if n = 1 then Some 0 else None, n, buf, s)
        else Some (Some (-1), n, buf, s)
      } else Some (None, n, buf, s))"

definition rio_readlineb :: "'w os \<Rightarrow> rio_t \<times> 'w \<Rightarrow> nat \<Rightarrow> (int \<times> string \<times> rio_t \<times> 'w) option" where
  "rio_readlineb os s maxlen = do {
     (early, n, buf, s) \<leftarrow> readlineb_loop (rio_read os) s 1 maxlen [];
     case early of Some r \<Rightarrow> Some (r, buf, s) | None \<Rightarrow> Some (n - 1, buf @ [NUL], s)
   }"

subsection \<open>The wrappers, which leave the program after an error\<close>

definition Rio_readn :: "'w os \<Rightarrow> 'w \<Rightarrow> int \<Rightarrow> nat \<Rightarrow> (int \<times> string \<times> 'w) outcome option" where
  "Rio_readn os w fd n = do {
     (r, buf, w) \<leftarrow> rio_readn os w fd n;
     Some (if r < 0 then Exited else Returned (r, buf, w))
   }"

definition Rio_writen :: "'w os \<Rightarrow> 'w \<Rightarrow> int \<Rightarrow> string \<Rightarrow> 'w outcome option" where
  "Rio_writen os w fd bs = do {
     (r, w) \<leftarrow> rio_writen os w fd bs;
     Some (if r \<noteq> int (length bs) then Exited else Returned w)
   }"

definition Rio_readnb :: "'w os \<Rightarrow> rio_t \<times> 'w \<Rightarrow> nat \<Rightarrow> (int \<times> string \<times> rio_t \<times> 'w) outcome option" where
  "Rio_readnb os s n = do {
     (r, buf, s) \<leftarrow> rio_readnb os s n;
     Some (if r < 0 then Exited else Returned (r, buf, s))
   }"

definition Rio_readlineb :: "'w os \<Rightarrow> rio_t \<times> 'w \<Rightarrow> nat \<Rightarrow> (int \<times> string \<times> rio_t \<times> 'w) outcome option" where
  "Rio_readlineb os s maxlen = do {
     (r, buf, s) \<leftarrow> rio_readlineb os s maxlen;
     Some (if r < 0 then Exited else Returned (r, buf, s))
   }"

subsection \<open>Opening a connection\<close>

text \<open>The walk over the addresses: the result of an early return, the socket and whether an address is left.\<close>

fun connect_loop :: "'w os \<Rightarrow> 'w \<Rightarrow> addrinfo list \<Rightarrow> int \<Rightarrow> int option \<times> int \<times> addrinfo list \<times> 'w" where
  "connect_loop os w [] clientfd = (None, clientfd, [], w)"
| "connect_loop os w (p # ps) clientfd =
     (case sys_socket os w p of
        (clientfd, w) \<Rightarrow>
          if clientfd < 0 then connect_loop os w ps clientfd
          else (case sys_connect os w clientfd p of
            (c, w) \<Rightarrow>
              if c \<noteq> -1 then (None, clientfd, p # ps, w)
              else (case sys_close os w clientfd of
                (d, w) \<Rightarrow> if d < 0 then (Some (-1), clientfd, p # ps, w) else connect_loop os w ps clientfd)))"

definition open_clientfd :: "'w os \<Rightarrow> 'w \<Rightarrow> string \<Rightarrow> string \<Rightarrow> int \<times> 'w" where
  "open_clientfd os w hostname port =
     (case sys_getaddrinfo os w hostname port of
        (None, w) \<Rightarrow> (-2, w)
      | (Some listp, w) \<Rightarrow>
          (case connect_loop os w listp 0 of
             (early, clientfd, p, w) \<Rightarrow>
               (case early of
                  Some r \<Rightarrow> (r, w)
                | None \<Rightarrow> if p = [] then (-1, w) else (clientfd, w))))"

definition Open_clientfd :: "'w os \<Rightarrow> 'w \<Rightarrow> string \<Rightarrow> string \<Rightarrow> (int \<times> 'w) outcome" where
  "Open_clientfd os w hostname port =
     (case open_clientfd os w hostname port of (rc, w) \<Rightarrow> if rc < 0 then Exited else Returned (rc, w))"

definition Close :: "'w os \<Rightarrow> 'w \<Rightarrow> int \<Rightarrow> 'w outcome" where
  "Close os w fd = (case sys_close os w fd of (rc, w) \<Rightarrow> if rc < 0 then Exited else Returned w)"

declare readn_loop.simps [code] writen_loop.simps [code] rio_refill.simps [code] readnb_loop.simps [code] readlineb_loop.simps [code]

end
