(* ===== verification/RioStream.thy ===== *)
theory RioStream
  imports Rio
begin

text \<open>
  What the system calls promise, stated over a \<open>view\<close> of the state of the outside: the bytes that are still to be
  received on a descriptor, the bytes sent on it, the descriptors that are open, a bound on the interruptions to come and
  whether every call to come succeeds. The interface \<open>byte_stream\<close> is what the buffered functions rely on.
\<close>

record 'w view =
  incoming :: "'w \<Rightarrow> int \<Rightarrow> string"
  sent :: "'w \<Rightarrow> int \<Rightarrow> string"
  opened :: "'w \<Rightarrow> int set"
  patience :: "'w \<Rightarrow> nat"
  reliable :: "'w \<Rightarrow> bool"

text \<open>Only the descriptors of \<open>A\<close> are affected.\<close>

definition spares :: "'w view \<Rightarrow> int set \<Rightarrow> 'w \<Rightarrow> 'w \<Rightarrow> bool" where
  "spares v A w w' \<longleftrightarrow> (\<forall>fd. fd \<notin> A \<longrightarrow> incoming v w' fd = incoming v w fd \<and> sent v w' fd = sent v w fd) \<and>
     patience v w' \<le> patience v w \<and> (reliable v w \<longrightarrow> reliable v w')"

definition follows :: "'w view \<Rightarrow> int set \<Rightarrow> 'w \<Rightarrow> 'w \<Rightarrow> bool" where
  "follows v A w w' \<longleftrightarrow> spares v A w w' \<and> opened v w' = opened v w"

text \<open>
  \<open>read\<close> gives a part of what is to come, nothing only at the end, and does not fail forever with \<open>EINTR\<close>; \<open>write\<close> sends
  a part of what it is given, and what comes in on that descriptor may depend on it.
\<close>

definition posix_read :: "'w os \<Rightarrow> 'w view \<Rightarrow> bool" where
  "posix_read os v \<longleftrightarrow> (\<forall>w fd n. 0 < n \<longrightarrow>
     (case sys_read os w fd n of
        (Some bs, w') \<Rightarrow> follows v {fd} w w' \<and> sent v w' fd = sent v w fd \<and> length bs \<le> n \<and>
          incoming v w fd = bs @ incoming v w' fd \<and> (bs = [] \<longrightarrow> incoming v w fd = [])
      | (None, w') \<Rightarrow> follows v {} w w' \<and> (if errno os w' = EINTR then patience v w' < patience v w else \<not> reliable v w)))"

definition posix_write :: "'w os \<Rightarrow> 'w view \<Rightarrow> bool" where
  "posix_write os v \<longleftrightarrow> (\<forall>w fd bs. bs \<noteq> [] \<longrightarrow>
     (case sys_write os w fd bs of (k, w') \<Rightarrow>
        if 0 < k then k \<le> int (length bs) \<and> follows v {fd} w w' \<and> sent v w' fd = sent v w fd @ take (nat k) bs
        else follows v {} w w' \<and> (if errno os w' = EINTR then patience v w' < patience v w else \<not> reliable v w)))"

lemma follows_refl [simp]: "follows v A w w"
  by (simp add: follows_def spares_def)

lemma follows_trans: "follows v A w w' \<Longrightarrow> follows v B w' w'' \<Longrightarrow> follows v (A \<union> B) w w''"
  by (auto simp: follows_def spares_def)

lemma follows_trans_same: "follows v A w w' \<Longrightarrow> follows v A w' w'' \<Longrightarrow> follows v A w w''"
  by (auto simp: follows_def spares_def)

lemma follows_mono: "follows v A w w' \<Longrightarrow> A \<subseteq> B \<Longrightarrow> follows v B w w'"
  by (auto simp: follows_def spares_def)

lemma followsD:
  assumes "follows v A w w'"
  shows "fd \<notin> A \<Longrightarrow> incoming v w' fd = incoming v w fd" "fd \<notin> A \<Longrightarrow> sent v w' fd = sent v w fd" "opened v w' = opened v w"
    "patience v w' \<le> patience v w" "reliable v w \<Longrightarrow> reliable v w'"
  using assms by (auto simp: follows_def spares_def)

lemma posix_readD:
  assumes "posix_read os v" "0 < n" "sys_read os w fd n = (r, w')"
  shows "case r of Some bs \<Rightarrow> follows v {fd} w w' \<and> sent v w' fd = sent v w fd \<and> length bs \<le> n \<and>
      incoming v w fd = bs @ incoming v w' fd \<and> (bs = [] \<longrightarrow> incoming v w fd = [])
    | None \<Rightarrow> follows v {} w w' \<and> (if errno os w' = EINTR then patience v w' < patience v w else \<not> reliable v w)"
  using assms(1) [unfolded posix_read_def, rule_format, OF assms(2), of w fd] assms(3) by (cases r) auto

lemma posix_writeD:
  assumes "posix_write os v" "bs \<noteq> []" "sys_write os w fd bs = (k, w')"
  shows "if 0 < k then k \<le> int (length bs) \<and> follows v {fd} w w' \<and> sent v w' fd = sent v w fd @ take (nat k) bs
    else follows v {} w w' \<and> (if errno os w' = EINTR then patience v w' < patience v w else \<not> reliable v w)"
  using assms(1) [unfolded posix_write_def, rule_format, OF assms(2), of fd w] assms(3) by simp

subsection \<open>The unbuffered functions\<close>

lemma readn_loop_stream:
  assumes posix: "posix_read os v"
  shows "\<exists>r buf' w'. readn_loop os fd w nleft buf = Some (r, buf @ buf', w') \<and> follows v {fd} w w' \<and> sent v w' fd = sent v w fd \<and>
    incoming v w fd = buf' @ incoming v w' fd \<and>
    (case r of None \<Rightarrow> \<not> reliable v w | Some k \<Rightarrow> buf' = take nleft (incoming v w fd) \<and> k = nleft - length buf')"
proof (induction "nleft + patience v w" arbitrary: nleft w buf rule: less_induct)
  case less
  note unfold = readn_loop.simps [of os fd w nleft buf]
  show ?case
  proof (cases "nleft = 0")
    case True
    then show ?thesis by (intro exI [of _ "Some 0"] exI [of _ "[]"] exI [of _ w]) (simp add: unfold [unfolded True] True)
  next
    case False
    obtain r w1 where s: "sys_read os w fd nleft = (r, w1)" by (cases "sys_read os w fd nleft")
    from False have pos: "0 < nleft" by simp
    note r = posix_readD [OF posix pos s]
    show ?thesis
    proof (cases r)
      case None
      then have f: "follows v {} w w1" using r by simp
      show ?thesis
      proof (cases "errno os w1 = EINTR")
        case True
        then have lt: "nleft + patience v w1 < nleft + patience v w" using r None by simp
        obtain r' buf' w' where i: "readn_loop os fd w1 nleft buf = Some (r', buf @ buf', w')" "follows v {fd} w1 w'" "sent v w' fd = sent v w1 fd"
            "incoming v w1 fd = buf' @ incoming v w' fd"
            "case r' of None \<Rightarrow> \<not> reliable v w1 | Some k \<Rightarrow> buf' = take nleft (incoming v w1 fd) \<and> k = nleft - length buf'"
          using less.hyps [OF lt, of buf] by blast
        have l: "readn_loop os fd w nleft buf = Some (r', buf @ buf', w')" using i(1) s None True pos unfold by simp
        have "case r' of None \<Rightarrow> \<not> reliable v w | Some k \<Rightarrow> buf' = take nleft (incoming v w fd) \<and> k = nleft - length buf'"
          using i(5) followsD(1,5) [OF f] by (auto split: option.splits)
        then show ?thesis
          using l i(3,4) followsD(1,2) [OF f, of fd] follows_trans [OF f i(2)]
          by (intro exI [of _ r'] exI [of _ buf'] exI [of _ w']) simp
      next
        case e: False
        have "readn_loop os fd w nleft buf = Some (None, buf @ [], w1)" using s None e pos unfold by simp
        then show ?thesis using r None e followsD(1,2) [OF f, of fd] follows_mono [OF f, of "{fd}"]
          by (intro exI [of _ None] exI [of _ "[]"] exI [of _ w1]) simp
      qed
    next
      case (Some bs)
      then have f: "follows v {fd} w w1" "sent v w1 fd = sent v w fd" "length bs \<le> nleft" "incoming v w fd = bs @ incoming v w1 fd"
          "bs = [] \<Longrightarrow> incoming v w fd = []" using r by auto
      show ?thesis
      proof (cases "bs = []")
        case True
        have "readn_loop os fd w nleft buf = Some (Some nleft, buf @ [], w1)" using s Some True pos unfold by simp
        then show ?thesis using f(1,2,4) f(5) [OF True]
          by (intro exI [of _ "Some nleft"] exI [of _ "[]"] exI [of _ w1]) simp
      next
        case n: False
        have lt: "(nleft - length bs) + patience v w1 < nleft + patience v w"
          using n f(3) pos followsD(4) [OF f(1)] by (cases bs) auto
        obtain r' buf' w' where i: "readn_loop os fd w1 (nleft - length bs) (buf @ bs) = Some (r', (buf @ bs) @ buf', w')"
            "follows v {fd} w1 w'" "sent v w' fd = sent v w1 fd" "incoming v w1 fd = buf' @ incoming v w' fd"
            "case r' of None \<Rightarrow> \<not> reliable v w1 | Some k \<Rightarrow> buf' = take (nleft - length bs) (incoming v w1 fd) \<and> k = nleft - length bs - length buf'"
          using less.hyps [OF lt, of "buf @ bs"] by blast
        have l: "readn_loop os fd w nleft buf = Some (r', buf @ (bs @ buf'), w')" using i(1) s Some n pos f(3) unfold by simp
        have "case r' of None \<Rightarrow> \<not> reliable v w | Some k \<Rightarrow> bs @ buf' = take nleft (incoming v w fd) \<and> k = nleft - length (bs @ buf')"
          using i(5) f(3) followsD(5) [OF f(1)] unfolding f(4) by (auto split: option.splits)
        then show ?thesis using l i(3,4) f(2,4) follows_trans_same [OF f(1) i(2)]
          by (intro exI [of _ r'] exI [of _ "bs @ buf'"] exI [of _ w']) simp
      qed
    qed
  qed
qed

lemma writen_loop_stream:
  assumes posix: "posix_write os v"
  shows "\<exists>d w' rest. writen_loop os fd w bs = Some (d, w') \<and> follows v {fd} w w' \<and>
    sent v w' fd @ rest = sent v w fd @ bs \<and> (if d then rest = [] else \<not> reliable v w)"
proof (induction "length bs + patience v w" arbitrary: bs w rule: less_induct)
  case less
  note unfold = writen_loop.simps [of os fd w bs]
  show ?case
  proof (cases "bs = []")
    case True
    then show ?thesis by (intro exI [of _ True] exI [of _ w] exI [of _ "[]"]) (simp add: unfold [unfolded True] True)
  next
    case False
    obtain k w1 where s: "sys_write os w fd bs = (k, w1)" by (cases "sys_write os w fd bs")
    note r = posix_writeD [OF posix False s]
    show ?thesis
    proof (cases "0 < k")
      case True
      then have f: "k \<le> int (length bs)" "follows v {fd} w w1" "sent v w1 fd = sent v w fd @ take (nat k) bs" using r by auto
      have lt: "length (drop (nat k) bs) + patience v w1 < length bs + patience v w"
        using True f(1) followsD(4) [OF f(2)] by simp
      obtain d w' rest where i: "writen_loop os fd w1 (drop (nat k) bs) = Some (d, w')" "follows v {fd} w1 w'"
          "sent v w' fd @ rest = sent v w1 fd @ drop (nat k) bs" "if d then rest = [] else \<not> reliable v w1"
        using less.hyps [OF lt] by blast
      have "writen_loop os fd w bs = Some (d, w')" using i(1) s True False f(1) unfold by simp
      moreover have "if d then rest = [] else \<not> reliable v w" using i(4) followsD(5) [OF f(2)] by (simp split: if_splits) blast
      ultimately show ?thesis using i(3) f(3) follows_trans_same [OF f(2) i(2)]
        by (intro exI [of _ d] exI [of _ w'] exI [of _ rest]) simp
    next
      case k: False
      then have f: "follows v {} w w1" using r by simp
      show ?thesis
      proof (cases "errno os w1 = EINTR")
        case True
        then have lt: "length bs + patience v w1 < length bs + patience v w" using r k by simp
        obtain d w' rest where i: "writen_loop os fd w1 bs = Some (d, w')" "follows v {fd} w1 w'"
            "sent v w' fd @ rest = sent v w1 fd @ bs" "if d then rest = [] else \<not> reliable v w1"
          using less.hyps [OF lt] by blast
        have "writen_loop os fd w bs = Some (d, w')" using i(1) s k True False unfold by simp
        moreover have "if d then rest = [] else \<not> reliable v w" using i(4) followsD(5) [OF f] by (simp split: if_splits) blast
        ultimately show ?thesis using i(3) followsD(2) [OF f, of fd] follows_trans [OF f i(2)]
          by (intro exI [of _ d] exI [of _ w'] exI [of _ rest]) simp
      next
        case e: False
        have "writen_loop os fd w bs = Some (False, w1)" using s k e False unfold by simp
        then show ?thesis using r k e followsD(2) [OF f, of fd] follows_mono [OF f, of "{fd}"]
          by (intro exI [of _ False] exI [of _ w1] exI [of _ bs]) simp
      qed
    qed
  qed
qed

lemma Rio_writen_stream:
  assumes "posix_write os v"
  shows "(\<exists>w'. Rio_writen os w fd bs = Some (Returned w') \<and> follows v {fd} w w' \<and> sent v w' fd = sent v w fd @ bs) \<or>
    (Rio_writen os w fd bs = Some Exited \<and> \<not> reliable v w)"
proof -
  obtain d w' rest where r: "writen_loop os fd w bs = Some (d, w')" "follows v {fd} w w'"
    "sent v w' fd @ rest = sent v w fd @ bs" "if d then rest = [] else \<not> reliable v w"
    using writen_loop_stream [OF assms] by blast
  then show ?thesis by (cases d) (simp_all add: Rio_writen_def rio_writen_def)
qed

subsection \<open>The buffered functions\<close>

text \<open>A line of at most \<open>k\<close> characters, with its line feed.\<close>

fun line_prefix :: "nat \<Rightarrow> string \<Rightarrow> string" where
  "line_prefix 0 cs = []"
| "line_prefix (Suc k) [] = []"
| "line_prefix (Suc k) (c # cs) = c # (if c = LF then [] else line_prefix k cs)"

lemma line_prefix_LF: "LF \<notin> set xs \<Longrightarrow> length xs < k \<Longrightarrow> line_prefix k (xs @ LF # ys) = xs @ [LF]"
proof (induction xs arbitrary: k)
  case Nil
  then show ?case by (cases k) auto
next
  case (Cons x xs)
  then show ?case by (cases k) auto
qed

lemma line_prefix_length: "length (line_prefix k cs) \<le> k"
  by (induction k cs rule: line_prefix.induct) auto

lemma line_prefix_take: "line_prefix k cs = take (length (line_prefix k cs)) cs"
  by (induction k cs rule: line_prefix.induct) auto

lemma line_prefix_end [simp]: "line_prefix k [] = []"
  by (cases k) auto

lemma line_prefix_Nil [simp]: "line_prefix k cs = [] \<longleftrightarrow> k = 0 \<or> cs = []"
  by (cases "(k, cs)" rule: line_prefix.cases) auto

text \<open>
  A stream gives, on request, a part of what is left, nothing only at the end, or -1 when it is not \<open>good\<close>. \<open>along s s'\<close>: the
  state \<open>s'\<close> comes after \<open>s\<close>.
\<close>

locale byte_stream =
  fixes get :: "'s \<Rightarrow> nat \<Rightarrow> (int \<times> string \<times> 's) option"
    and ok :: "'s \<Rightarrow> bool"
    and left :: "'s \<Rightarrow> string"
    and good :: "'s \<Rightarrow> bool"
    and along :: "'s \<Rightarrow> 's \<Rightarrow> bool"
  assumes get_law: "ok s \<Longrightarrow> 0 < n \<Longrightarrow> \<exists>r bs s'. get s n = Some (r, bs, s') \<and> ok s' \<and> along s s' \<and> left s = bs @ left s' \<and>
      (if r < 0 then bs = [] \<and> r = -1 \<and> \<not> good s else r = int (length bs) \<and> length bs \<le> n \<and> (bs = [] \<longrightarrow> left s = []))"
    and along_refl: "along s s"
    and along_trans: "along s s' \<Longrightarrow> along s' s'' \<Longrightarrow> along s s''"
    and along_good: "along s s' \<Longrightarrow> good s \<Longrightarrow> good s'"
begin

lemma getE:
  assumes "ok s" "0 < n"
  obtains (error) s' where "get s n = Some (-1, [], s')" "ok s'" "along s s'" "left s' = left s" "\<not> good s"
  | (ended) s' where "get s n = Some (0, [], s')" "ok s'" "along s s'" "left s = []" "left s' = []"
  | (data) bs s' where "get s n = Some (int (length bs), bs, s')" "ok s'" "along s s'" "left s = bs @ left s'" "bs \<noteq> []" "length bs \<le> n"
proof -
  obtain r bs s' where g: "get s n = Some (r, bs, s')" "ok s'" "along s s'" "left s = bs @ left s'"
      "if r < 0 then bs = [] \<and> r = -1 \<and> \<not> good s else r = int (length bs) \<and> length bs \<le> n \<and> (bs = [] \<longrightarrow> left s = [])"
    using get_law [OF assms] by blast
  show ?thesis
  proof (cases "r < 0")
    case True
    then show ?thesis using g error by simp
  next
    case False
    then show ?thesis using g ended data by (cases "bs = []") simp_all
  qed
qed

lemma readnb_loop_left:
  "ok s \<Longrightarrow> \<exists>r bs s'. readnb_loop get s n buf = Some (r, buf @ bs, s') \<and> ok s' \<and> along s s' \<and> left s = bs @ left s' \<and>
     (case r of None \<Rightarrow> \<not> good s | Some k \<Rightarrow> bs = take n (left s) \<and> k = n - length bs)"
proof (induction n arbitrary: s buf rule: less_induct)
  case (less n)
  note unfold = readnb_loop.simps [of get s n buf]
  show ?case
  proof (cases "n = 0")
    case True
    then show ?thesis using less.prems along_refl [of s]
      by (intro exI [of _ "Some 0"] exI [of _ "[]"] exI [of _ s]) (simp add: unfold [unfolded True] True)
  next
    case False
    then have pos: "0 < n" by simp
    show ?thesis using less.prems pos
    proof (cases rule: getE)
      case (error s')
      have "readnb_loop get s n buf = Some (None, buf @ [], s')" using error(1) pos unfold by simp
      then show ?thesis using error by (intro exI [of _ None] exI [of _ "[]"] exI [of _ s']) simp
    next
      case (ended s')
      have "readnb_loop get s n buf = Some (Some n, buf @ [], s')" using ended(1) pos unfold by simp
      then show ?thesis using ended by (intro exI [of _ "Some n"] exI [of _ "[]"] exI [of _ s']) simp
    next
      case (data bs s1)
      then have lt: "n - length bs < n" using pos by simp
      obtain r bs' s' where i: "readnb_loop get s1 (n - length bs) (buf @ bs) = Some (r, (buf @ bs) @ bs', s')" "ok s'" "along s1 s'"
          "left s1 = bs' @ left s'" "case r of None \<Rightarrow> \<not> good s1 | Some k \<Rightarrow> bs' = take (n - length bs) (left s1) \<and> k = n - length bs - length bs'"
        using less.IH [OF lt data(2), of "buf @ bs"] by blast
      have l: "readnb_loop get s n buf = Some (r, buf @ (bs @ bs'), s')" using i(1) data(1,5,6) pos unfold by simp
      have "case r of None \<Rightarrow> \<not> good s | Some k \<Rightarrow> bs @ bs' = take n (left s) \<and> k = n - length (bs @ bs')"
        using i(5) data(6) along_good [OF data(3)] unfolding data(4) by (auto split: option.splits)
      then show ?thesis using l i(2,4) data(4) along_trans [OF data(3) i(3)]
        by (intro exI [of _ r] exI [of _ "bs @ bs'"] exI [of _ s']) simp
    qed
  qed
qed

lemma readlineb_loop_left:
  "ok s \<Longrightarrow> 1 \<le> n \<Longrightarrow> int maxlen < 2 ^ 31 \<Longrightarrow> n \<le> int maxlen \<Longrightarrow>
   \<exists>r n' cs s'. readlineb_loop get s n maxlen buf = Some (r, n', buf @ cs, s') \<and> ok s' \<and> along s s' \<and> left s = cs @ left s' \<and>
     (case r of None \<Rightarrow> cs = line_prefix (nat (int maxlen - n)) (left s) \<and> n' = n + int (length cs) \<and> (n = 1 \<longrightarrow> 1 < maxlen \<longrightarrow> cs \<noteq> [])
      | Some k \<Rightarrow> k = -1 \<and> \<not> good s \<or> k = 0 \<and> n = 1 \<and> cs = [] \<and> left s = [])"
proof (induction "nat (int maxlen - n)" arbitrary: s n buf)
  case 0
  then have "\<not> n < int maxlen" by simp
  then have "readlineb_loop get s n maxlen buf = Some (None, n, buf @ [], s)" by (simp add: readlineb_loop.simps [of get s n maxlen buf])
  then show ?case using 0 along_refl [of s]
    by (intro exI [of _ None] exI [of _ n] exI [of _ "[]"] exI [of _ s]) simp
next
  case (Suc k)
  note unfold = readlineb_loop.simps [of get s n maxlen buf]
  from Suc(2) have lt: "n < int maxlen" by simp
  have "0 < (1 :: nat)" by simp
  with Suc.prems(1) show ?case
  proof (cases rule: getE)
    case (error s')
    have "readlineb_loop get s n maxlen buf = Some (Some (-1), n, buf @ [], s')" using error(1) lt unfold by simp
    then show ?thesis using error by (intro exI [of _ "Some (-1)"] exI [of _ n] exI [of _ "[]"] exI [of _ s']) simp
  next
    case (ended s')
    have "readlineb_loop get s n maxlen buf = Some (if n = 1 then Some 0 else None, n, buf @ [], s')" using ended(1) lt unfold by simp
    then show ?thesis using ended
      by (intro exI [of _ "if n = 1 then Some 0 else None"] exI [of _ n] exI [of _ "[]"] exI [of _ s']) simp
  next
    case (data bs s1)
    then obtain c where bs: "bs = [c]" by (cases bs) auto
    have n1: "checked (n + 1) = Some (n + 1)" using lt Suc.prems(2,3) by simp
    have k: "nat (int maxlen - n) = Suc k" using Suc(2) by simp
    show ?thesis
    proof (cases "c = LF")
      case True
      have "readlineb_loop get s n maxlen buf = Some (None, n + 1, buf @ [c], s1)" using data(1) bs lt n1 True unfold by simp
      then show ?thesis using data True unfolding bs
        by (intro exI [of _ None] exI [of _ "n + 1"] exI [of _ "[c]"] exI [of _ s1]) (simp add: k)
    next
      case False
      have "k = nat (int maxlen - (n + 1))" "1 \<le> n + 1" "n + 1 \<le> int maxlen" using Suc(2) Suc.prems lt by auto
      then obtain r n' cs s' where i: "readlineb_loop get s1 (n + 1) maxlen (buf @ [c]) = Some (r, n', (buf @ [c]) @ cs, s')" "ok s'" "along s1 s'"
          "left s1 = cs @ left s'"
          "case r of None \<Rightarrow> cs = line_prefix (nat (int maxlen - (n + 1))) (left s1) \<and> n' = n + 1 + int (length cs) \<and> (n + 1 = 1 \<longrightarrow> 1 < maxlen \<longrightarrow> cs \<noteq> [])
           | Some k \<Rightarrow> k = -1 \<and> \<not> good s1 \<or> k = 0 \<and> n + 1 = 1 \<and> cs = [] \<and> left s1 = []"
        using Suc(1) [OF _ data(2) _ Suc.prems(3), of "n + 1" "buf @ [c]"] by blast
      have l: "readlineb_loop get s n maxlen buf = Some (r, n', buf @ (c # cs), s')" using i(1) data(1) bs lt n1 False unfold by simp
      have "case r of None \<Rightarrow> c # cs = line_prefix (nat (int maxlen - n)) (left s) \<and> n' = n + int (length (c # cs)) \<and> (n = 1 \<longrightarrow> 1 < maxlen \<longrightarrow> c # cs \<noteq> [])
          | Some k \<Rightarrow> k = -1 \<and> \<not> good s \<or> k = 0 \<and> n = 1 \<and> c # cs = [] \<and> left s = []"
        using i(5) \<open>k = nat (int maxlen - (n + 1))\<close> False along_good [OF data(3)] Suc.prems(2) unfolding data(4) bs k by (auto split: option.splits)
      then show ?thesis using l i(2,4) data(4) along_trans [OF data(3) i(3)] unfolding bs
        by (intro exI [of _ r] exI [of _ n'] exI [of _ "c # cs"] exI [of _ s']) simp
    qed
  qed
qed

end

text \<open>What \<open>rio_read\<close> has buffered, and what it has left.\<close>

definition rio_ok :: "rio_t \<Rightarrow> bool" where
  "rio_ok rp \<longleftrightarrow> 0 < rio_cnt rp \<longrightarrow> rio_bufptr rp + nat (rio_cnt rp) \<le> length (rio_buf rp)"

definition rio_left :: "'w view \<Rightarrow> rio_t \<times> 'w \<Rightarrow> string" where
  "rio_left v s = take (nat (rio_cnt (fst s))) (drop (rio_bufptr (fst s)) (rio_buf (fst s))) @ incoming v (snd s) (rio_fd (fst s))"

definition rio_along :: "'w view \<Rightarrow> rio_t \<times> 'w \<Rightarrow> rio_t \<times> 'w \<Rightarrow> bool" where
  "rio_along v s s' \<longleftrightarrow> rio_fd (fst s') = rio_fd (fst s) \<and> follows v {rio_fd (fst s)} (snd s) (snd s') \<and>
     sent v (snd s') (rio_fd (fst s)) = sent v (snd s) (rio_fd (fst s))"

lemma rio_refill_left:
  assumes posix: "posix_read os v"
  shows "rio_ok rp \<Longrightarrow> \<exists>r rp' w'. rio_refill os rp w = Some (r, rp', w') \<and> rio_ok rp' \<and> rio_along v (rp, w) (rp', w') \<and>
    rio_left v (rp', w') = rio_left v (rp, w) \<and>
    (case r of None \<Rightarrow> 0 < rio_cnt rp' | Some k \<Rightarrow> rio_cnt rp' \<le> 0 \<and> (k = -1 \<and> \<not> reliable v w \<or> k = 0 \<and> rio_left v (rp, w) = []))"
proof (induction "if rio_cnt rp \<le> 0 then Suc (patience v w) else 0" arbitrary: rp w rule: less_induct)
  case less
  note unfold = rio_refill.simps [of os rp w]
  show ?case
  proof (cases "rio_cnt rp \<le> 0")
    case False
    then show ?thesis using less.prems
      by (intro exI [of _ None] exI [of _ rp] exI [of _ w]) (simp add: unfold rio_along_def)
  next
    case True
    have B: "0 < RIO_BUFSIZE" by (simp add: RIO_BUFSIZE_def)
    obtain r w1 where s: "sys_read os w (rio_fd rp) RIO_BUFSIZE = (r, w1)" by (cases "sys_read os w (rio_fd rp) RIO_BUFSIZE")
    note r = posix_readD [OF posix B s]
    show ?thesis
    proof (cases r)
      case None
      then have f: "follows v {} w w1" using r by simp
      let ?rp = "rp\<lparr>rio_cnt := -1\<rparr>"
      have e: "rio_ok ?rp" "rio_along v (rp, w) (?rp, w1)" "rio_left v (?rp, w1) = rio_left v (rp, w)"
        using True followsD(1,2) [OF f] follows_mono [OF f] by (simp_all add: rio_ok_def rio_along_def rio_left_def)
      show ?thesis
      proof (cases "errno os w1 = EINTR")
        case False
        then show ?thesis using e r None s True
          by (intro exI [of _ "Some (-1)"] exI [of _ ?rp] exI [of _ w1]) (simp add: unfold Let_def)
      next
        case EINTR: True
        have lt: "(if rio_cnt ?rp \<le> 0 then Suc (patience v w1) else 0) < (if rio_cnt rp \<le> 0 then Suc (patience v w) else 0)"
          using r None EINTR True by simp
        obtain r' rp' w' where i: "rio_refill os ?rp w1 = Some (r', rp', w')" "rio_ok rp'" "rio_along v (?rp, w1) (rp', w')"
            "rio_left v (rp', w') = rio_left v (?rp, w1)"
            "case r' of None \<Rightarrow> 0 < rio_cnt rp' | Some k \<Rightarrow> rio_cnt rp' \<le> 0 \<and> (k = -1 \<and> \<not> reliable v w1 \<or> k = 0 \<and> rio_left v (?rp, w1) = [])"
          using less.hyps [OF lt e(1)] by blast
        have "rio_refill os rp w = Some (r', rp', w')" using i(1) s None EINTR True by (simp add: unfold Let_def)
        moreover have "rio_along v (rp, w) (rp', w')"
          using e(2) i(3) unfolding rio_along_def by (auto intro: follows_trans_same)
        moreover have "case r' of None \<Rightarrow> 0 < rio_cnt rp' | Some k \<Rightarrow> rio_cnt rp' \<le> 0 \<and> (k = -1 \<and> \<not> reliable v w \<or> k = 0 \<and> rio_left v (rp, w) = [])"
          using i(5) followsD(5) [OF f] unfolding e(3) by (auto split: option.splits)
        ultimately show ?thesis using i(2,4) e(3) by (intro exI [of _ r'] exI [of _ rp'] exI [of _ w']) simp
      qed
    next
      case (Some bs)
      then have f: "follows v {rio_fd rp} w w1" "sent v w1 (rio_fd rp) = sent v w (rio_fd rp)"
          "incoming v w (rio_fd rp) = bs @ incoming v w1 (rio_fd rp)" "bs = [] \<Longrightarrow> incoming v w (rio_fd rp) = []" using r by auto
      let ?rp = "rp\<lparr>rio_cnt := int (length bs), rio_buf := bs @ drop (length bs) (rio_buf rp)\<rparr>"
      show ?thesis
      proof (cases "bs = []")
        case True': True
        have "rio_refill os rp w = Some (Some 0, ?rp, w1)" using s Some True True' by (simp add: unfold Let_def)
        then show ?thesis using f f(4) [OF True'] True True'
          by (intro exI [of _ "Some 0"] exI [of _ ?rp] exI [of _ w1]) (simp add: rio_ok_def rio_along_def rio_left_def)
      next
        case False
        let ?rp' = "?rp\<lparr>rio_bufptr := 0\<rparr>"
        have "rio_refill os rp w = Some (None, ?rp', w1)" using s Some True False by (simp add: unfold Let_def rio_refill.simps [of os ?rp'])
        then show ?thesis using f True False
          by (intro exI [of _ None] exI [of _ ?rp'] exI [of _ w1]) (simp add: rio_ok_def rio_along_def rio_left_def)
      qed
    qed
  qed
qed

lemma rio_read_left:
  assumes posix: "posix_read os v" and ok: "rio_ok (fst s)" and n: "0 < n"
  shows "\<exists>r bs s'. rio_read os s n = Some (r, bs, s') \<and> rio_ok (fst s') \<and> rio_along v s s' \<and> rio_left v s = bs @ rio_left v s' \<and>
    (if r < 0 then bs = [] \<and> r = -1 \<and> \<not> reliable v (snd s) else r = int (length bs) \<and> length bs \<le> n \<and> (bs = [] \<longrightarrow> rio_left v s = []))"
proof -
  obtain e rp w where r: "rio_refill os (fst s) (snd s) = Some (e, rp, w)" "rio_ok rp" "rio_along v (fst s, snd s) (rp, w)"
      "rio_left v (rp, w) = rio_left v (fst s, snd s)"
      "case e of None \<Rightarrow> 0 < rio_cnt rp | Some k \<Rightarrow> rio_cnt rp \<le> 0 \<and> (k = -1 \<and> \<not> reliable v (snd s) \<or> k = 0 \<and> rio_left v (fst s, snd s) = [])"
    using rio_refill_left [OF posix ok, of "snd s"] by blast
  show ?thesis
  proof (cases e)
    case (Some k)
    then show ?thesis using r by (intro exI [of _ k] exI [of _ "[]"] exI [of _ "(rp, w)"]) (auto simp: rio_read_def)
  next
    case None
    let ?c = "if rio_cnt rp < int n then rio_cnt rp else int n"
    let ?bs = "take (nat ?c) (drop (rio_bufptr rp) (rio_buf rp))"
    let ?rp = "rp\<lparr>rio_bufptr := rio_bufptr rp + nat ?c, rio_cnt := rio_cnt rp - ?c\<rparr>"
    have c: "0 < ?c" "?c \<le> rio_cnt rp" "?c \<le> int n" "rio_bufptr rp + nat (rio_cnt rp) \<le> length (rio_buf rp)"
      using r(2,5) None n by (auto simp: rio_ok_def)
    have len: "length ?bs = nat ?c" using c by simp
    have res: "rio_read os s n = Some (?c, ?bs, ?rp, w)" using r(1) None c by (simp add: rio_read_def Let_def)
    have "nat (rio_cnt rp) = nat ?c + nat (rio_cnt rp - ?c)" using c by simp
    then have split: "take (nat (rio_cnt rp)) (drop (rio_bufptr rp) (rio_buf rp)) =
        ?bs @ take (nat (rio_cnt rp - ?c)) (drop (rio_bufptr rp + nat ?c) (rio_buf rp))"
      by (metis add.commute drop_drop take_add)
    have left: "rio_left v s = ?bs @ rio_left v (?rp, w)" using r(4) split by (simp add: rio_left_def)
    have "rio_ok ?rp" "rio_along v s (?rp, w)" using c r(3) by (auto simp: rio_ok_def rio_along_def)
    moreover have "?bs \<noteq> []" using len c(1) by (metis list.size(3) zero_less_nat_eq less_irrefl)
    ultimately show ?thesis using res left len c
      by (intro exI [of _ ?c] exI [of _ ?bs] exI [of _ "(?rp, w)"]) auto
  qed
qed

interpretation buffered: byte_stream "rio_read os" "\<lambda>s. posix_read os v \<and> rio_ok (fst s)" "rio_left v" "\<lambda>s. reliable v (snd s)" "rio_along v"
  for os :: "'w os" and v :: "'w view"
proof unfold_locales
  show "\<exists>r bs s'. rio_read os s n = Some (r, bs, s') \<and> (posix_read os v \<and> rio_ok (fst s')) \<and> rio_along v s s' \<and> rio_left v s = bs @ rio_left v s' \<and>
      (if r < 0 then bs = [] \<and> r = -1 \<and> \<not> reliable v (snd s) else r = int (length bs) \<and> length bs \<le> n \<and> (bs = [] \<longrightarrow> rio_left v s = []))"
    if "posix_read os v \<and> rio_ok (fst s)" "0 < n" for s n
    using rio_read_left [of os v s n] that by blast
  show "rio_along v s s'' " if "rio_along v s s'" "rio_along v s' s''" for s s' s''
    using that unfolding rio_along_def by (auto intro: follows_trans_same)
qed (auto simp: rio_along_def follows_def spares_def)

text \<open>The functions of the package on a buffered stream.\<close>

lemma rio_readnb_left:
  assumes "posix_read os v" "rio_ok rp"
  shows "\<exists>r bs rp' w'. rio_readnb os (rp, w) n = Some (r, bs, rp', w') \<and> rio_ok rp' \<and> rio_left v (rp, w) = bs @ rio_left v (rp', w') \<and>
      rio_along v (rp, w) (rp', w') \<and> (if r = -1 then \<not> reliable v w else bs = take n (rio_left v (rp, w)) \<and> r = int (length bs))"
proof -
  obtain r bs s' where r: "readnb_loop (rio_read os) (rp, w) n [] = Some (r, [] @ bs, s')" "rio_ok (fst s')" "rio_along v (rp, w) s'"
      "rio_left v (rp, w) = bs @ rio_left v s'"
      "case r of None \<Rightarrow> \<not> reliable v w | Some k \<Rightarrow> bs = take n (rio_left v (rp, w)) \<and> k = n - length bs"
    using buffered.readnb_loop_left [of os v "(rp, w)" n "[]"] assms unfolding fst_conv snd_conv by blast
  obtain rp' w' where s': "s' = (rp', w')" by (cases s')
  have "rio_readnb os (rp, w) n = Some (case r of None \<Rightarrow> -1 | Some k \<Rightarrow> int n - int k, bs, rp', w')" using r(1) s' by (simp add: rio_readnb_def)
  moreover have "if (case r of None \<Rightarrow> -1 | Some k \<Rightarrow> int n - int k) = -1 then \<not> reliable v w
      else bs = take n (rio_left v (rp, w)) \<and> (case r of None \<Rightarrow> -1 | Some k \<Rightarrow> int n - int k) = int (length bs)"
    using r(5) by (cases r) (simp_all add: of_nat_diff)
  ultimately show ?thesis using r(2-4) unfolding s' fst_conv by blast
qed

lemma rio_readlineb_left:
  assumes "posix_read os v" "rio_ok rp" "1 < maxlen" "int maxlen < 2 ^ 31"
  shows "\<exists>r bs rp' w' cs. rio_readlineb os (rp, w) maxlen = Some (r, bs, rp', w') \<and> rio_ok rp' \<and> rio_along v (rp, w) (rp', w') \<and>
    rio_left v (rp, w) = cs @ rio_left v (rp', w') \<and>
    (if r = -1 then \<not> reliable v w
     else cs = line_prefix (maxlen - 1) (rio_left v (rp, w)) \<and> r = int (length cs) \<and> bs = (if cs = [] then [] else cs @ [NUL]))"
proof -
  have pre: "posix_read os v \<and> rio_ok (fst (rp, w))" using assms by simp
  obtain r n cs s' where r: "readlineb_loop (rio_read os) (rp, w) 1 maxlen [] = Some (r, n, [] @ cs, s')" "rio_ok (fst s')" "rio_along v (rp, w) s'"
      "rio_left v (rp, w) = cs @ rio_left v s'"
      "case r of None \<Rightarrow> cs = line_prefix (nat (int maxlen - 1)) (rio_left v (rp, w)) \<and> n = 1 + int (length cs) \<and> (1 = (1 :: int) \<longrightarrow> 1 < maxlen \<longrightarrow> cs \<noteq> [])
       | Some k \<Rightarrow> k = -1 \<and> \<not> reliable v w \<or> k = 0 \<and> 1 = (1 :: int) \<and> cs = [] \<and> rio_left v (rp, w) = []"
    using buffered.readlineb_loop_left [OF pre _ assms(4), of 1 "[]"] assms(3) unfolding snd_conv by auto
  have m: "nat (int maxlen - 1) = maxlen - 1" using assms(3) by simp
  show ?thesis
  proof (cases r)
    case None
    then show ?thesis using r m assms(3)
      by (intro exI [of _ "n - 1"] exI [of _ "cs @ [NUL]"] exI [of _ "fst s'"] exI [of _ "snd s'"] exI [of _ cs]) (simp add: rio_readlineb_def)
  next
    case (Some k)
    then show ?thesis using r
      by (intro exI [of _ k] exI [of _ cs] exI [of _ "fst s'"] exI [of _ "snd s'"] exI [of _ cs]) (auto simp: rio_readlineb_def)
  qed
qed

end
