(* ===== verification/RioProps.thy ===== *)
theory RioProps
  imports RioStream
begin

text \<open>
  The properties of the robust I/O package, and an operating system that delivers bytes in pieces of given sizes and is
  interrupted, on which they are applied.
\<close>

text \<open>What the peers send, on the descriptors 3, 4 and 5 of clients and on others of servers.\<close>

definition net_script :: "int \<Rightarrow> string" where
  "net_script fd =
     (if fd = 3 then ''GET / HTTP/1.0'' @ [CHR 0x0D, LF] @ ''rest''
      else if fd = 4 then ''GET http://h/a HTTP/1.0'' @ [CHR 0x0D, LF, CHR 0x0D, LF]
      else if fd = 5 then ''GET http://h/a HTTP/1.0'' @ [CHR 0x0D, LF]
      else ''answer'')"

text \<open>How much of it has been read, and the sizes of the pieces; a piece of no byte is an interruption.\<close>

record net =
  taken :: "int \<Rightarrow> nat"
  outputs :: "int \<Rightarrow> string"
  pieces :: "nat list"
  fds :: "int set"
  last_errno :: int

definition inputs :: "net \<Rightarrow> int \<Rightarrow> string" where
  "inputs w fd = drop (taken w fd) (net_script fd)"

definition net_read :: "net \<Rightarrow> int \<Rightarrow> nat \<Rightarrow> string option \<times> net" where
  "net_read w fd n =
     (case pieces w of
        0 # ks \<Rightarrow> (None, w\<lparr>pieces := ks, last_errno := EINTR\<rparr>)
      | ks \<Rightarrow>
          let k = (case ks of [] \<Rightarrow> n | k # _ \<Rightarrow> min n k)
          in (Some (take k (inputs w fd)), w\<lparr>taken := (taken w)(fd := taken w fd + k), pieces := tl ks\<rparr>))"

definition net_write :: "net \<Rightarrow> int \<Rightarrow> string \<Rightarrow> int \<times> net" where
  "net_write w fd bs =
     (case pieces w of
        0 # ks \<Rightarrow> (-1, w\<lparr>pieces := ks, last_errno := EINTR\<rparr>)
      | ks \<Rightarrow>
          let k = (case ks of [] \<Rightarrow> length bs | k # _ \<Rightarrow> min (length bs) k)
          in (int k, w\<lparr>outputs := (outputs w)(fd := outputs w fd @ take k bs), pieces := tl ks\<rparr>))"

definition net_os :: "net os" where
  "net_os = \<lparr>sys_read = net_read, sys_write = net_write, errno = last_errno,
     sys_getaddrinfo = (\<lambda>w host port. (Some [1], w)),
     sys_socket = (\<lambda>w p. (if 9 \<in> fds w then -1 else 9, w\<lparr>fds := insert 9 (fds w)\<rparr>)),
     sys_connect = (\<lambda>w fd p. (0, w)),
     sys_close = (\<lambda>w fd. (0, w\<lparr>fds := fds w - {fd}\<rparr>))\<rparr>"

definition net_view :: "net view" where
  "net_view = \<lparr>incoming = inputs, sent = outputs, opened = fds, patience = (\<lambda>w. length (pieces w)), reliable = (\<lambda>_. True)\<rparr>"

lemma net_os_simps [simp]:
  "sys_read net_os = net_read" "sys_write net_os = net_write" "errno net_os = last_errno"
  "sys_getaddrinfo net_os w host port = (Some [1], w)" "sys_connect net_os w fd p = (0, w)"
  "sys_socket net_os w p = (if 9 \<in> fds w then -1 else 9, w\<lparr>fds := insert 9 (fds w)\<rparr>)"
  "sys_close net_os w fd = (0, w\<lparr>fds := fds w - {fd}\<rparr>)"
  by (simp_all add: net_os_def)

lemma net_view_simps [simp]:
  "incoming net_view = inputs" "sent net_view = outputs" "opened net_view = fds" "patience net_view w = length (pieces w)"
  "reliable net_view w"
  by (simp_all add: net_view_def)

lemma take_drop_split [simp]: "take k (drop n xs) @ drop (n + k) xs = drop n xs"
  by (metis add.commute append_take_drop_id drop_drop)

lemma net_posix_read: "posix_read net_os net_view"
  unfolding posix_read_def
proof (intro allI impI)
  fix w fd and n :: nat
  assume "0 < n"
  then show "case sys_read net_os w fd n of
      (Some bs, w') \<Rightarrow> follows net_view {fd} w w' \<and> sent net_view w' fd = sent net_view w fd \<and> length bs \<le> n \<and>
        incoming net_view w fd = bs @ incoming net_view w' fd \<and> (bs = [] \<longrightarrow> incoming net_view w fd = [])
    | (None, w') \<Rightarrow> follows net_view {} w w' \<and>
        (if errno net_os w' = EINTR then patience net_view w' < patience net_view w else \<not> reliable net_view w)"
    by (cases "pieces w") (auto simp: net_read_def inputs_def follows_def spares_def Let_def simp del: drop_drop split: nat.splits)
qed

lemma net_posix_write: "posix_write net_os net_view"
  unfolding posix_write_def
proof (intro allI impI)
  fix w fd and bs :: string
  assume "bs \<noteq> []"
  then show "case sys_write net_os w fd bs of (k, w') \<Rightarrow>
      if 0 < k then k \<le> int (length bs) \<and> follows net_view {fd} w w' \<and> sent net_view w' fd = sent net_view w fd @ take (nat k) bs
      else follows net_view {} w w' \<and>
        (if errno net_os w' = EINTR then patience net_view w' < patience net_view w else \<not> reliable net_view w)"
    by (cases "pieces w") (auto simp: net_write_def inputs_def follows_def spares_def Let_def split: nat.splits)
qed

text \<open>C17: However the kernel cuts the input into pieces and interrupts, \<open>rio_readn\<close> and \<open>rio_readnb\<close> return with the next \<open>n\<close> bytes, fewer only at the end of the input, and lose none; they return -1 only when a call of \<open>read\<close> fails.\<close>

theorem rio_read_correct:
  assumes "posix_read os v" "rio_ok rp"
  shows "(\<exists>r bs w'. rio_readn os w fd n = Some (r, bs, w') \<and> incoming v w fd = bs @ incoming v w' fd \<and> follows v {fd} w w' \<and>
      (if r = -1 then \<not> reliable v w else bs = take n (incoming v w fd) \<and> r = int (length bs))) \<and>
    (\<exists>r bs rp' w'. rio_readnb os (rp, w) n = Some (r, bs, rp', w') \<and> rio_ok rp' \<and> rio_left v (rp, w) = bs @ rio_left v (rp', w') \<and>
      rio_along v (rp, w) (rp', w') \<and> (if r = -1 then \<not> reliable v w else bs = take n (rio_left v (rp, w)) \<and> r = int (length bs)))"
proof (intro conjI)
  obtain r bs w' where r: "readn_loop os fd w n [] = Some (r, [] @ bs, w')" "follows v {fd} w w'" "incoming v w fd = bs @ incoming v w' fd"
      "case r of None \<Rightarrow> \<not> reliable v w | Some k \<Rightarrow> bs = take n (incoming v w fd) \<and> k = n - length bs"
    using readn_loop_stream [OF assms(1), of fd w n "[]"] by blast
  have "rio_readn os w fd n = Some (case r of None \<Rightarrow> -1 | Some k \<Rightarrow> int n - int k, bs, w')" using r(1) by (simp add: rio_readn_def)
  moreover have "if (case r of None \<Rightarrow> -1 | Some k \<Rightarrow> int n - int k) = -1 then \<not> reliable v w
      else bs = take n (incoming v w fd) \<and> (case r of None \<Rightarrow> -1 | Some k \<Rightarrow> int n - int k) = int (length bs)"
    using r(4) by (cases r) (simp_all add: of_nat_diff)
  ultimately show "\<exists>r bs w'. rio_readn os w fd n = Some (r, bs, w') \<and> incoming v w fd = bs @ incoming v w' fd \<and> follows v {fd} w w' \<and>
      (if r = -1 then \<not> reliable v w else bs = take n (incoming v w fd) \<and> r = int (length bs))"
    using r(2,3) by blast
qed (rule rio_readnb_left [OF assms])

definition demo_net :: net where
  "demo_net = \<lparr>taken = (\<lambda>_. 0), outputs = (\<lambda>_. []), pieces = [2, 0, 1, 7], fds = {3, 4, 5}, last_errno = 0\<rparr>"

lemma demo_left: "rio_left net_view (rio_readinitb 3, demo_net) = ''GET / HTTP/1.0'' @ [CHR 0x0D, LF] @ ''rest''"
  by (simp add: rio_readinitb_def rio_left_def demo_net_def inputs_def net_script_def)

lemma rio_ok_init [simp]: "rio_ok (rio_readinitb fd)"
  by (simp add: rio_readinitb_def rio_ok_def)

theorem rio_read_witness:
  "\<exists>bs rp' w'. rio_readnb net_os (rio_readinitb 3, demo_net) 6 = Some (6, bs, rp', w') \<and> bs = ''GET / ''"
proof -
  obtain r bs rp' w' where t: "rio_readnb net_os (rio_readinitb 3, demo_net) 6 = Some (r, bs, rp', w')"
      "if r = -1 then \<not> reliable net_view demo_net else bs = take 6 (rio_left net_view (rio_readinitb 3, demo_net)) \<and> r = int (length bs)"
    using rio_read_correct [OF net_posix_read, of "rio_readinitb 3" demo_net 0 6] rio_ok_init by blast
  have "bs = ''GET / ''" "r = 6" using t(2) unfolding demo_left by (simp_all split: if_splits)
  then show ?thesis using t(1) by blast
qed

text \<open>C16: \<open>rio_readlineb\<close> stores the next line of the input with its line feed and a terminator, or as much of it as fits, whatever the buffer holds already; at the end of the input it returns 0 and stores nothing, not even the terminator.\<close>

theorem rio_readlineb_correct:
  assumes "posix_read os v" "rio_ok rp" "1 < maxlen" "int maxlen < 2 ^ 31"
  shows "\<exists>r bs rp' w' cs. rio_readlineb os (rp, w) maxlen = Some (r, bs, rp', w') \<and> rio_ok rp' \<and> rio_along v (rp, w) (rp', w') \<and>
    rio_left v (rp, w) = cs @ rio_left v (rp', w') \<and>
    (if r = -1 then \<not> reliable v w
     else cs = line_prefix (maxlen - 1) (rio_left v (rp, w)) \<and> r = int (length cs) \<and> bs = (if cs = [] then [] else cs @ [NUL]))"
  by (rule rio_readlineb_left [OF assms])

theorem rio_readlineb_witness:
  "\<exists>r bs rp' w'. rio_readlineb net_os (rio_readinitb 3, demo_net) 8192 = Some (r, bs, rp', w') \<and> bs = ''GET / HTTP/1.0'' @ [CHR 0x0D, LF, NUL]"
proof -
  obtain r bs rp' w' cs where t: "rio_readlineb net_os (rio_readinitb 3, demo_net) 8192 = Some (r, bs, rp', w')"
      "if r = -1 then \<not> reliable net_view demo_net
       else cs = line_prefix (8192 - 1) (rio_left net_view (rio_readinitb 3, demo_net)) \<and> r = int (length cs) \<and> bs = (if cs = [] then [] else cs @ [NUL])"
    using rio_readlineb_correct [OF net_posix_read, of "rio_readinitb 3" 8192 demo_net] by auto
  have "line_prefix (8192 - 1) (rio_left net_view (rio_readinitb 3, demo_net)) = ''GET / HTTP/1.0'' @ [CHR 0x0D, LF]"
    unfolding demo_left by (simp add: LF_def numeral_eq_Suc)
  then have "bs = ''GET / HTTP/1.0'' @ [CHR 0x0D, LF, NUL]" using t(2) by (simp split: if_splits)
  then show ?thesis using t(1) by blast
qed

text \<open>C33: However few bytes each call of \<open>write\<close> takes, \<open>rio_writen\<close> returns with all bytes sent, in order and once; it returns -1 only when a call fails.\<close>

theorem rio_writen_correct:
  assumes "posix_write os v"
  shows "\<exists>r w'. rio_writen os w fd bs = Some (r, w') \<and> follows v {fd} w w' \<and>
    (if r = -1 then \<not> reliable v w \<and> (\<exists>rest. sent v w' fd @ rest = sent v w fd @ bs)
     else r = int (length bs) \<and> sent v w' fd = sent v w fd @ bs)"
proof -
  obtain d w' rest where r: "writen_loop os fd w bs = Some (d, w')" "follows v {fd} w w'"
    "sent v w' fd @ rest = sent v w fd @ bs" "if d then rest = [] else \<not> reliable v w"
    using writen_loop_stream [OF assms] by blast
  then show ?thesis by (cases d) (auto simp: rio_writen_def)
qed

theorem rio_writen_witness:
  "\<exists>w'. rio_writen net_os demo_net 3 ''Connection: close'' = Some (17, w') \<and> outputs w' 3 = ''Connection: close''"
proof -
  obtain r w' where t: "rio_writen net_os demo_net 3 ''Connection: close'' = Some (r, w')"
      "if r = -1 then \<not> reliable net_view demo_net \<and> (\<exists>rest. sent net_view w' 3 @ rest = sent net_view demo_net 3 @ ''Connection: close'')
       else r = int (length ''Connection: close'') \<and> sent net_view w' 3 = sent net_view demo_net 3 @ ''Connection: close''"
    using rio_writen_correct [OF net_posix_write, of demo_net 3 "''Connection: close''"] by blast
  have "r = 17" "outputs w' 3 = ''Connection: close''" using t(2) by (simp_all add: demo_net_def split: if_splits)
  then show ?thesis using t(1) by blast
qed

end
