(* ===== verification/Proxy.thy ===== *)
theory Proxy
  imports Rio
begin

text \<open>
  The caching proxy of \<open>webproxy-lab/proxy.c\<close>: one request of a client, with the cache of responses. Requests are handled one
  after the other, as if each thread ran alone. A buffer of characters is the list of the bytes that have been written at its
  start. What is logged on \<open>stderr\<close> is left out.
\<close>

definition MAXLINE :: nat where
  "MAXLINE = 8192"

definition MAX_CACHE_SIZE :: int where
  "MAX_CACHE_SIZE = 1049000"

definition MAX_OBJECT_SIZE :: int where
  "MAX_OBJECT_SIZE = 102400"

definition CRLF :: string where
  "CRLF = [CHR 0x0D, LF]"

text \<open>One step after another, unless the first leaves the program.\<close>

definition andthen :: "'a outcome option \<Rightarrow> ('a \<Rightarrow> 'b outcome option) \<Rightarrow> 'b outcome option" where
  "andthen x f = do { r \<leftarrow> x; case r of Exited \<Rightarrow> Some Exited | Returned a \<Rightarrow> f a }"

lemma andthen_mono [partial_function_mono]:
  "mono_option B \<Longrightarrow> (\<And>y. mono_option (\<lambda>f. C y f)) \<Longrightarrow> mono_option (\<lambda>f. andthen (B f) (\<lambda>y. C y f))"
  unfolding andthen_def
proof (rule bind_mono)
  fix y assume "\<And>y. mono_option (\<lambda>f. C y f)"
  then show "mono_option (\<lambda>f. case y of Exited \<Rightarrow> Some Exited | Returned a \<Rightarrow> C a f)"
    by (cases y) (simp_all add: monotoneI option.leq_refl)
qed

lemma andthen_simps [simp]:
  "andthen None f = None" "andthen (Some Exited) f = Some Exited" "andthen (Some (Returned a)) f = f a"
  by (simp_all add: andthen_def)

subsection \<open>Strings\<close>

text \<open>The string in a buffer; there is none before a terminator has been written.\<close>

definition c_string :: "string \<Rightarrow> string option" where
  "c_string buf = (if NUL \<in> set buf then Some (takeWhile (\<lambda>c. c \<noteq> NUL) buf) else None)"

definition overwrite :: "string \<Rightarrow> string \<Rightarrow> string" where
  "overwrite buf bs = bs @ drop (length bs) buf"

definition isspace :: "char \<Rightarrow> bool" where
  "isspace c \<longleftrightarrow> c \<in> {CHR '' '', CHR 0x09, CHR 0x0A, CHR 0x0B, CHR 0x0C, CHR 0x0D}"

definition tolower :: "char \<Rightarrow> char" where
  "tolower c = (if 65 \<le> (of_char c :: nat) \<and> (of_char c :: nat) \<le> 90 then char_of ((of_char c :: nat) + 32) else c)"

text \<open>One conversion \<open>%s\<close> of \<open>sscanf\<close>: the word and the rest.\<close>

definition scan_word :: "string \<Rightarrow> (string \<times> string) option" where
  "scan_word s =
     (let t = dropWhile isspace s
      in if t = [] then None else Some (takeWhile (\<lambda>c. \<not> isspace c) t, dropWhile (\<lambda>c. \<not> isspace c) t))"

text \<open>\<open>sprintf\<close> and \<open>strcpy\<close> into an array of \<open>MAXLINE\<close> characters.\<close>

definition in_line :: "string \<Rightarrow> string option" where
  "in_line s = (if length s < MAXLINE then Some s else None)"

subsection \<open>The request\<close>

text \<open>The method and the URI; without them the code reads variables that have no value.\<close>

definition scan_request :: "string \<Rightarrow> (string \<times> string) option" where
  "scan_request s = do {
     (method, s) \<leftarrow> scan_word s;
     (uri, s) \<leftarrow> scan_word s;
     Some (method, uri)
   }"

definition split_host :: "string \<Rightarrow> string \<Rightarrow> string \<times> string" where
  "split_host s port =
     (let colon = dropWhile (\<lambda>c. c \<noteq> CHR '':'') s
      in if colon \<noteq> [] then (takeWhile (\<lambda>c. c \<noteq> CHR '':'') s, tl colon) else (s, port))"

text \<open>The host, the port and the path.\<close>

definition parse_uri :: "string \<Rightarrow> string \<times> string \<times> string" where
  "parse_uri uri =
     (if take 7 uri = ''http://'' then
        (let host_start = drop 7 uri;
             path_start = dropWhile (\<lambda>c. c \<noteq> CHR ''/'') host_start;
             (path, host_start) =
               (if path_start \<noteq> [] then (path_start, takeWhile (\<lambda>c. c \<noteq> CHR ''/'') host_start) else (''/'', host_start));
             (host, port) = split_host host_start ''80''
         in (host, port, path))
      else ('''', ''80'', uri))"

definition is_host_header :: "string \<Rightarrow> bool" where
  "is_host_header line \<longleftrightarrow> map tolower (take 5 line) = map tolower ''Host:''"

definition parse_host :: "string \<Rightarrow> string \<Rightarrow> (string \<times> string) option" where
  "parse_host line port = do {
     (host_line, _) \<leftarrow> scan_word (dropWhile (\<lambda>c. c = CHR '' '') (drop 5 line));
     Some (split_host host_line port)
   }"

text \<open>
  The headers of the client; \<open>buf\<close> holds a line already. A round of the loop tests the line and either ends the loop (\<open>Inr\<close>) or
  reads the next line (\<open>Inl\<close>).
\<close>

type_synonym 'w headers = "(rio_t \<times> 'w) \<times> string \<times> string \<times> string"

fun header_round :: "'w os \<Rightarrow> 'w headers \<Rightarrow> ('w headers + (rio_t \<times> 'w) \<times> string \<times> string) outcome option" where
  "header_round os (s, buf, host, port) = do {
     line \<leftarrow> c_string buf;
     if line \<noteq> CRLF \<and> line \<noteq> [LF] then do {
       (host, port) \<leftarrow> (if host = [] \<and> is_host_header line then parse_host line port else Some (host, port));
       andthen (Rio_readlineb os s MAXLINE) (\<lambda>(r, bs, s). Some (Returned (Inl (s, overwrite buf bs, host, port))))
     } else Some (Returned (Inr (s, host, port)))
   }"

partial_function (option) header_loop :: "'w os \<Rightarrow> 'w headers \<Rightarrow> ((rio_t \<times> 'w) \<times> string \<times> string) outcome option" where
  "header_loop os st =
     andthen (header_round os st) (\<lambda>r. case r of Inl st \<Rightarrow> header_loop os st | Inr x \<Rightarrow> Some (Returned x))"

text \<open>The key of the cache, as \<open>snprintf\<close> cuts it.\<close>

definition request_url :: "string \<Rightarrow> string \<Rightarrow> string \<Rightarrow> string" where
  "request_url host port path = take (MAXLINE - 1) (host @ '':'' @ port @ path)"

subsection \<open>The cache\<close>

record cache_block =
  url :: string
  data :: addr
  block_size :: int
  reference_bit :: int
  prev :: addr
  nxt :: addr

text \<open>The cache with the blocks and the objects on the heap.\<close>

record cache_t =
  head :: addr
  tail :: addr
  total_size :: int
  blocks :: "cache_block heap"
  objects :: "string heap"
  fresh :: addr

definition cache_init :: "cache_t \<Rightarrow> cache_t" where
  "cache_init c = c\<lparr>head := NULL, tail := NULL, total_size := 0\<rparr>"

definition set_block :: "cache_t \<Rightarrow> addr \<Rightarrow> (cache_block \<Rightarrow> cache_block) \<Rightarrow> cache_t option" where
  "set_block c p f = do { h \<leftarrow> poke (blocks c) p f; Some (c\<lparr>blocks := h\<rparr>) }"

partial_function (option) cache_find :: "cache_t \<Rightarrow> string \<Rightarrow> addr \<Rightarrow> addr option" where
  "cache_find c full_url temp =
     (if temp \<noteq> NULL then do {
        b \<leftarrow> blocks c temp;
        if full_url = url b then Some temp else cache_find c full_url (nxt b)
      } else Some NULL)"

text \<open>The search of the handler, which marks the block that it finds.\<close>

definition cache_lookup :: "cache_t \<Rightarrow> string \<Rightarrow> (addr \<times> cache_t) option" where
  "cache_lookup c full_url = do {
     temp \<leftarrow> cache_find c full_url (head c);
     c \<leftarrow> (if temp \<noteq> NULL then set_block c temp (\<lambda>b. b\<lparr>reference_bit := 1\<rparr>) else Some c);
     Some (temp, c)
   }"

text \<open>The body of the eviction for a tail with a second chance.\<close>

definition second_chance :: "cache_t \<Rightarrow> addr \<Rightarrow> cache_t option" where
  "second_chance c t = do {
     c \<leftarrow> set_block c t (\<lambda>b. b\<lparr>reference_bit := 0\<rparr>);
     b \<leftarrow> blocks c t;
     let c = c\<lparr>tail := prev b\<rparr>;
     c \<leftarrow> (if tail c \<noteq> NULL then set_block c (tail c) (\<lambda>b. b\<lparr>nxt := NULL\<rparr>) else Some c);
     c \<leftarrow> set_block c t (\<lambda>b. b\<lparr>prev := NULL\<rparr>);
     c \<leftarrow> set_block c t (\<lambda>b. b\<lparr>nxt := head c\<rparr>);
     c \<leftarrow> (if head c \<noteq> NULL then set_block c (head c) (\<lambda>b. b\<lparr>prev := t\<rparr>) else Some c);
     let c = c\<lparr>head := t\<rparr>;
     Some (if tail c = NULL then c\<lparr>tail := t\<rparr> else c)
   }"

definition drop_tail :: "cache_t \<Rightarrow> addr \<Rightarrow> cache_t option" where
  "drop_tail c t = do {
     b \<leftarrow> blocks c t;
     let c = c\<lparr>tail := prev b\<rparr>;
     c \<leftarrow> (if tail c \<noteq> NULL then set_block c (tail c) (\<lambda>b. b\<lparr>nxt := NULL\<rparr>) else Some (c\<lparr>head := NULL\<rparr>));
     b \<leftarrow> blocks c t;
     n \<leftarrow> checked (total_size c - block_size b);
     _ \<leftarrow> objects c (data b);
     Some (c\<lparr>total_size := n, objects := (objects c)(data b := None), blocks := (blocks c)(t := None)\<rparr>)
   }"

partial_function (option) evict_loop :: "cache_t \<Rightarrow> int \<Rightarrow> cache_t option" where
  "evict_loop c total_bytes = do {
     n \<leftarrow> checked (total_size c + total_bytes);
     if n > MAX_CACHE_SIZE then
       if tail c = NULL then Some c
       else do {
         b \<leftarrow> blocks c (tail c);
         c \<leftarrow> (if reference_bit b = 1 then second_chance c (tail c) else drop_tail c (tail c));
         evict_loop c total_bytes
       }
     else Some c
   }"

definition cache_insert :: "cache_t \<Rightarrow> string \<Rightarrow> int \<Rightarrow> string \<Rightarrow> cache_t option" where
  "cache_insert c full_url total_bytes response_buf = do {
     let t = fresh c;
     let d = fresh c + 1;
     let c = c\<lparr>fresh := fresh c + 2\<rparr>;
     (if total_bytes < 0 \<or> int (length response_buf) < total_bytes then None else Some ());
     let c = c\<lparr>objects := (objects c)(d \<mapsto> take (nat total_bytes) response_buf),
               blocks := (blocks c)(t \<mapsto> \<lparr>url = full_url, data = d, block_size = total_bytes, reference_bit = 1, prev = NULL, nxt = head c\<rparr>)\<rparr>;
     c \<leftarrow> (if head c \<noteq> NULL then set_block c (head c) (\<lambda>b. b\<lparr>prev := t\<rparr>) else Some (c\<lparr>tail := t\<rparr>));
     let c = c\<lparr>head := t\<rparr>;
     n \<leftarrow> checked (total_size c + total_bytes);
     Some (c\<lparr>total_size := n\<rparr>)
   }"

text \<open>The code that keeps a response.\<close>

definition cache_store :: "cache_t \<Rightarrow> string \<Rightarrow> int \<Rightarrow> string \<Rightarrow> cache_t option" where
  "cache_store c full_url total_bytes response_buf =
     (if total_bytes \<le> MAX_OBJECT_SIZE then do {
        c \<leftarrow> evict_loop c total_bytes;
        cache_insert c full_url total_bytes response_buf
      } else Some c)"

definition move_to_front :: "cache_t \<Rightarrow> addr \<Rightarrow> cache_t option" where
  "move_to_front c p =
     (if head c = p then Some c
      else do {
        b \<leftarrow> blocks c p;
        c \<leftarrow> (if prev b \<noteq> NULL then set_block c (prev b) (\<lambda>x. x\<lparr>nxt := nxt b\<rparr>) else Some c);
        b \<leftarrow> blocks c p;
        c \<leftarrow> (if nxt b \<noteq> NULL then set_block c (nxt b) (\<lambda>x. x\<lparr>prev := prev b\<rparr>) else Some (c\<lparr>tail := prev b\<rparr>));
        c \<leftarrow> set_block c p (\<lambda>x. x\<lparr>prev := NULL\<rparr>);
        c \<leftarrow> set_block c p (\<lambda>x. x\<lparr>nxt := head c\<rparr>);
        c \<leftarrow> (if head c \<noteq> NULL then set_block c (head c) (\<lambda>x. x\<lparr>prev := p\<rparr>) else Some c);
        let c = c\<lparr>head := p\<rparr>;
        Some (if tail c = NULL then c\<lparr>tail := p\<rparr> else c)
      })"

subsection \<open>The handler\<close>

definition serve_from_cache :: "'w os \<Rightarrow> cache_t \<Rightarrow> 'w \<Rightarrow> int \<Rightarrow> addr \<Rightarrow> 'w outcome option" where
  "serve_from_cache os c w fd p = do {
     b \<leftarrow> blocks c p;
     bs \<leftarrow> objects c (data b);
     if block_size b < 0 \<or> int (length bs) < block_size b then None
     else Rio_writen os w fd (take (nat (block_size b)) bs)
   }"

definition user_agent_hdr :: string where
  "user_agent_hdr =
     ''User-Agent: Mozilla/5.0 (X11; Linux x86_64; rv:10.0.3) Gecko/20120305 Firefox/10.0.3'' @ CRLF"

definition send_request :: "'w os \<Rightarrow> 'w \<Rightarrow> int \<Rightarrow> string \<Rightarrow> string \<Rightarrow> string \<Rightarrow> 'w outcome option" where
  "send_request os w fd method host path = do {
     l \<leftarrow> in_line (method @ '' '' @ path @ '' HTTP/1.0'' @ CRLF);
     andthen (Rio_writen os w fd l) (\<lambda>w. do {
       l \<leftarrow> in_line (''Host: '' @ host @ CRLF);
       andthen (Rio_writen os w fd l) (\<lambda>w.
       andthen (Rio_writen os w fd user_agent_hdr) (\<lambda>w.
       andthen (Rio_writen os w fd (''Connection: close'' @ CRLF)) (\<lambda>w.
       andthen (Rio_writen os w fd (''Proxy-Connection: close'' @ CRLF)) (\<lambda>w.
       Rio_writen os w fd CRLF))))
     })
   }"

text \<open>\<open>memcpy\<close> into \<open>response_buf\<close>, whose first bytes have been written.\<close>

definition copy_at :: "string \<Rightarrow> int \<Rightarrow> string \<Rightarrow> string option" where
  "copy_at rb off bs =
     (if off < 0 \<or> int (length rb) < off then None
      else Some (take (nat off) rb @ bs @ drop (nat off + length bs) rb))"

partial_function (option) forward_loop ::
    "'w os \<Rightarrow> int \<Rightarrow> rio_t \<times> 'w \<Rightarrow> int \<Rightarrow> string \<Rightarrow> ('w \<times> int \<times> string) outcome option" where
  "forward_loop os client s total_bytes response_buf =
     andthen (Rio_readnb os s MAXLINE) (\<lambda>(n, buf, rp, w).
       if n > 0 then
         andthen (Rio_writen os w client (take (nat n) buf)) (\<lambda>w. do {
           t \<leftarrow> checked (total_bytes + n);
           rb \<leftarrow> (if t \<le> MAX_OBJECT_SIZE then copy_at response_buf total_bytes (take (nat n) buf) else Some response_buf);
           forward_loop os client (rp, w) t rb
         })
       else Some (Returned (w, total_bytes, response_buf)))"

definition handle_miss :: "'w os \<Rightarrow> cache_t \<Rightarrow> 'w \<Rightarrow> int \<Rightarrow> string \<Rightarrow> string \<Rightarrow> string \<Rightarrow> string \<Rightarrow> string \<Rightarrow> (cache_t \<times> 'w) outcome option" where
  "handle_miss os c w client_connfd full_url method host port path =
     andthen (Some (Open_clientfd os w host port)) (\<lambda>(server_connfd, w).
       if server_connfd < 0 then andthen (Some (Close os w client_connfd)) (\<lambda>w. Some (Returned (c, w)))
       else
         andthen (send_request os w server_connfd method host path) (\<lambda>w.
         andthen (forward_loop os client_connfd (rio_readinitb server_connfd, w) 0 []) (\<lambda>(w, total_bytes, response_buf). do {
           c \<leftarrow> cache_store c full_url total_bytes response_buf;
           andthen (Some (Close os w server_connfd)) (\<lambda>w.
           andthen (Some (Close os w client_connfd)) (\<lambda>w. Some (Returned (c, w))))
         })))"

text \<open>What the handler reads: up to the first line of the headers, and the whole request.\<close>

definition read_first_lines :: "'w os \<Rightarrow> 'w \<Rightarrow> int \<Rightarrow> (string \<times> string \<times> 'w headers) outcome option" where
  "read_first_lines os w client_connfd =
     andthen (Rio_readlineb os (rio_readinitb client_connfd, w) MAXLINE) (\<lambda>(_, bs, s). do {
       let buf = overwrite [] bs;
       line \<leftarrow> c_string buf;
       (method, uri) \<leftarrow> scan_request line;
       let (host, port, path) = parse_uri uri;
       andthen (Rio_readlineb os s MAXLINE) (\<lambda>(_, bs, s). Some (Returned (method, path, s, overwrite buf bs, host, port)))
     })"

definition read_request :: "'w os \<Rightarrow> 'w \<Rightarrow> int \<Rightarrow> (string \<times> string \<times> string \<times> string \<times> 'w) outcome option" where
  "read_request os w client_connfd =
     andthen (read_first_lines os w client_connfd) (\<lambda>(method, path, st).
     andthen (header_loop os st) (\<lambda>(s, host, port). Some (Returned (method, host, port, path, snd s))))"

definition handle_client :: "'w os \<Rightarrow> cache_t \<Rightarrow> 'w \<Rightarrow> int \<Rightarrow> (cache_t \<times> 'w) outcome option" where
  "handle_client os c w client_connfd =
     andthen (read_request os w client_connfd) (\<lambda>(method, host, port, path, w). do {
       let u = request_url host port path;
       (temp, c) \<leftarrow> cache_lookup c u;
       if temp \<noteq> NULL then
         andthen (serve_from_cache os c w client_connfd temp) (\<lambda>w.
         andthen (Some (Close os w client_connfd)) (\<lambda>w. Some (Returned (c, w))))
       else handle_miss os c w client_connfd u method host port path
     })"

declare header_loop.simps [code] cache_find.simps [code] evict_loop.simps [code] forward_loop.simps [code]

end
