(* ===== verification/ProxyCache.thy ===== *)
theory ProxyCache
  imports Proxy
begin

text \<open>
  The cache of the proxy as a list of items, from the most to the least recent: \<open>cache_rep c xs\<close> says that the blocks form a
  doubly linked list with the nodes \<open>xs\<close>, that their sizes sum up to \<open>total_size\<close>, and that nothing else is on the heap. The
  eviction is \<open>clock\<close> on the list of items.
\<close>

record item =
  key :: string
  bytes :: string
  mark :: bool

type_synonym node = "addr \<times> addr \<times> item"

definition block_of :: "node \<Rightarrow> addr \<Rightarrow> addr \<Rightarrow> cache_block" where
  "block_of x p n = \<lparr>url = key (snd (snd x)), data = fst (snd x), block_size = int (length (bytes (snd (snd x)))),
     reference_bit = (if mark (snd (snd x)) then 1 else 0), prev = p, nxt = n\<rparr>"

definition first_addr :: "node list \<Rightarrow> addr \<Rightarrow> addr" where
  "first_addr xs r = (case xs of [] \<Rightarrow> r | x # _ \<Rightarrow> fst x)"

definition final_addr :: "addr \<Rightarrow> node list \<Rightarrow> addr" where
  "final_addr q xs = (if xs = [] then q else fst (last xs))"

lemma first_addr_cons [simp]: "first_addr [] r = r" "first_addr (x # xs) r = fst x" "first_addr (xs @ ys) r = first_addr xs (first_addr ys r)"
  by (simp_all add: first_addr_def split: list.split)

lemma final_addr_simps [simp]: "final_addr q [] = q" "final_addr q (x # xs) = final_addr (fst x) xs"
  "final_addr q (xs @ ys) = final_addr (final_addr q xs) ys"
  by (simp_all add: final_addr_def)

fun seg :: "cache_block heap \<Rightarrow> addr \<Rightarrow> node list \<Rightarrow> addr \<Rightarrow> bool" where
  "seg h q [] r = True"
| "seg h q (x # xs) r = (h (fst x) = Some (block_of x q (first_addr xs r)) \<and> seg h (fst x) xs r)"

lemma seg_append [simp]: "seg h q (xs @ ys) r \<longleftrightarrow> seg h q xs (first_addr ys r) \<and> seg h (final_addr q xs) ys r"
  by (induction xs arbitrary: q) auto

lemma seg_upd [simp]: "a \<notin> fst ` set xs \<Longrightarrow> seg (h(a := v)) q xs r = seg h q xs r"
  by (induction xs arbitrary: q) auto

definition weight :: "item list \<Rightarrow> int" where
  "weight its = sum_list (map (\<lambda>i. int (length (bytes i))) its)"

lemma weight_simps [simp]: "weight [] = 0" "weight (i # its) = int (length (bytes i)) + weight its" "weight (its @ js) = weight its + weight js"
  by (simp_all add: weight_def)

lemma weight_pos: "0 \<le> weight its"
  by (induction its) (simp_all add: weight_def)

abbreviation items :: "node list \<Rightarrow> item list" where
  "items xs \<equiv> map (\<lambda>x. snd (snd x)) xs"

definition links :: "cache_t \<Rightarrow> node list \<Rightarrow> bool" where
  "links c xs \<longleftrightarrow> seg (blocks c) NULL xs NULL \<and> head c = first_addr xs NULL \<and> tail c = final_addr NULL xs \<and>
     distinct (map fst xs) \<and> NULL \<notin> fst ` set xs"

definition owns :: "cache_t \<Rightarrow> node list \<Rightarrow> bool" where
  "owns c xs \<longleftrightarrow> total_size c = weight (items xs) \<and> dom (blocks c) = fst ` set xs \<and>
     distinct (map (\<lambda>x. fst (snd x)) xs) \<and> dom (objects c) = (\<lambda>x. fst (snd x)) ` set xs \<and>
     (\<forall>x\<in>set xs. objects c (fst (snd x)) = Some (bytes (snd (snd x)))) \<and>
     0 < fresh c \<and> (\<forall>x\<in>set xs. fst x < fresh c \<and> fst (snd x) < fresh c)"

definition cache_rep :: "cache_t \<Rightarrow> node list \<Rightarrow> bool" where
  "cache_rep c xs \<longleftrightarrow> links c xs \<and> owns c xs"

lemma set_block_Some: "blocks c p = Some b \<Longrightarrow> set_block c p f = Some (c\<lparr>blocks := (blocks c)(p \<mapsto> f b)\<rparr>)"
  by (simp add: set_block_def)

lemma block_of_updates [simp]:
  "(block_of x p n)\<lparr>nxt := n'\<rparr> = block_of x p n'" "(block_of x p n)\<lparr>prev := p'\<rparr> = block_of x p' n"
  "prev (block_of x p n) = p" "nxt (block_of x p n) = n" "url (block_of x p n) = key (snd (snd x))" "data (block_of x p n) = fst (snd x)"
  "block_size (block_of x p n) = int (length (bytes (snd (snd x))))" "reference_bit (block_of x p n) = (if mark (snd (snd x)) then 1 else 0)"
  "(block_of x p n)\<lparr>reference_bit := 0\<rparr> = block_of (fst x, fst (snd x), (snd (snd x))\<lparr>mark := False\<rparr>) p n"
  "(block_of x p n)\<lparr>reference_bit := 1\<rparr> = block_of (fst x, fst (snd x), (snd (snd x))\<lparr>mark := True\<rparr>) p n"
  by (simp_all add: block_of_def)

subsection \<open>Searching\<close>

lemma cache_find_seg:
  "seg (blocks c) q xs NULL \<Longrightarrow> NULL \<notin> fst ` set xs \<Longrightarrow>
   cache_find c u (first_addr xs NULL) = Some (case find (\<lambda>x. key (snd (snd x)) = u) xs of None \<Rightarrow> NULL | Some x \<Rightarrow> fst x)"
proof (induction xs arbitrary: q)
  case Nil
  then show ?case by (simp add: cache_find.simps)
next
  case (Cons x xs)
  then show ?case using Cons.IH [of "fst x"] by (auto simp: cache_find.simps [of c u "fst x"])
qed

definition marked :: "node \<Rightarrow> node" where
  "marked x = (fst x, fst (snd x), (snd (snd x))\<lparr>mark := True\<rparr>)"

lemma marked_simps [simp]: "fst (marked x) = fst x" "fst (snd (marked x)) = fst (snd x)" "bytes (snd (snd (marked x))) = bytes (snd (snd x))"
  "key (snd (snd (marked x))) = key (snd (snd x))"
  by (simp_all add: marked_def)

lemma links_mark:
  assumes "links c (xs @ x # ys)"
  shows "links (c\<lparr>blocks := (blocks c)(fst x \<mapsto> block_of (marked x) (final_addr NULL xs) (first_addr ys NULL))\<rparr>) (xs @ marked x # ys)"
  using assms by (auto simp: links_def)

lemma owns_mark:
  assumes "owns c (xs @ x # ys)"
  shows "owns (c\<lparr>blocks := (blocks c)(fst x \<mapsto> b)\<rparr>) (xs @ marked x # ys)"
  using assms by (auto simp: owns_def)

lemma cache_lookup_rep:
  assumes "cache_rep c xs"
  shows "case find (\<lambda>x. key (snd (snd x)) = u) xs of
      None \<Rightarrow> cache_lookup c u = Some (NULL, c)
    | Some x \<Rightarrow> \<exists>ys zs c'. xs = ys @ x # zs \<and> (\<forall>y\<in>set ys. key (snd (snd y)) \<noteq> u) \<and> key (snd (snd x)) = u \<and> fst x \<noteq> NULL \<and>
        cache_lookup c u = Some (fst x, c') \<and> cache_rep c' (ys @ marked x # zs)"
proof (cases "find (\<lambda>x. key (snd (snd x)) = u) xs")
  case None
  then show ?thesis using assms cache_find_seg [of c NULL xs u] by (simp add: cache_rep_def links_def cache_lookup_def)
next
  case (Some x)
  then obtain i where i: "i < length xs" "key (snd (snd (xs ! i))) = u" "x = xs ! i" "\<forall>j<i. key (snd (snd (xs ! j))) \<noteq> u"
    unfolding find_Some_iff by blast
  let ?ys = "take i xs" and ?zs = "drop (Suc i) xs"
  have xs: "xs = ?ys @ x # ?zs" using i(1,3) by (simp add: id_take_nth_drop)
  have l: "links c (?ys @ x # ?zs)" "owns c (?ys @ x # ?zs)" using assms xs by (simp_all add: cache_rep_def)
  let ?c = "c\<lparr>blocks := (blocks c)(fst x \<mapsto> block_of (marked x) (final_addr NULL ?ys) (first_addr ?zs NULL))\<rparr>"
  have b: "blocks c (fst x) = Some (block_of x (final_addr NULL ?ys) (first_addr ?zs NULL))" using l(1) by (simp add: links_def)
  have nn: "fst x \<noteq> NULL" using l(1) unfolding links_def by auto
  have "cache_find c u (head c) = Some (fst x)" using cache_find_seg [of c NULL xs u] assms Some by (simp add: cache_rep_def links_def)
  then have "cache_lookup c u = Some (fst x, ?c)" using nn b by (simp add: cache_lookup_def set_block_Some marked_def)
  moreover have "cache_rep ?c (?ys @ marked x # ?zs)" using links_mark [OF l(1)] owns_mark [OF l(2)] unfolding cache_rep_def by blast
  moreover have "\<forall>y\<in>set ?ys. key (snd (snd y)) \<noteq> u" 
  proof
    fix y
    assume "y \<in> set ?ys"
    then obtain j where "j < length ?ys" "?ys ! j = y" by (meson in_set_conv_nth)
    then have "j < i" "y = xs ! j" by simp_all
    then show "key (snd (snd y)) \<noteq> u" using i(4) by blast
  qed
  ultimately have "xs = ?ys @ x # ?zs \<and> (\<forall>y\<in>set ?ys. key (snd (snd y)) \<noteq> u) \<and> key (snd (snd x)) = u \<and> fst x \<noteq> NULL \<and>
      cache_lookup c u = Some (fst x, ?c) \<and> cache_rep ?c (?ys @ marked x # ?zs)"
    using xs i(2,3) nn by blast
  then show ?thesis unfolding Some option.case by blast
qed

subsection \<open>Moving a block to the front\<close>

lemma final_addr_mem: "final_addr q xs \<in> insert q (fst ` set xs)"
  by (cases xs rule: rev_cases) auto

lemma final_addr_not_NULL: "q \<noteq> NULL \<Longrightarrow> NULL \<notin> fst ` set xs \<Longrightarrow> final_addr q xs \<noteq> NULL"
  using final_addr_mem [of q xs] by (metis insert_iff)

lemma links_move_to_front:
  assumes "links c (xs @ x # ys)" "xs \<noteq> []"
  shows "\<exists>c'. move_to_front c (fst x) = Some c' \<and> links c' (x # xs @ ys) \<and>
    objects c' = objects c \<and> total_size c' = total_size c \<and> fresh c' = fresh c \<and> dom (blocks c') = dom (blocks c)"
proof -
  obtain zs z where xs: "xs = zs @ [z]" using assms(2) by (cases xs rule: rev_cases) auto
  note l = assms(1) [unfolded links_def xs, simplified]
  show ?thesis
  proof (cases zs)
    case zs: Nil
    show ?thesis
    proof (cases ys)
      case Nil
      then show ?thesis using l xs zs by (auto simp: move_to_front_def set_block_Some links_def)
    next
      case (Cons y ys')
      then have "fst y \<noteq> NULL" "NULL \<notin> fst ` set ys'" using l by (simp_all add: image_Un)
      then have "final_addr (fst y) ys' \<noteq> NULL" by (rule final_addr_not_NULL)
      then show ?thesis using l xs zs Cons by (auto simp: move_to_front_def set_block_Some links_def)
    qed
  next
    case zs: (Cons w ws)
    show ?thesis
    proof (cases ys)
      case Nil
      then show ?thesis using l xs zs by (auto simp: move_to_front_def set_block_Some links_def)
    next
      case (Cons y ys')
      then have "fst y \<noteq> NULL" "NULL \<notin> fst ` set ys'" using l by (simp_all add: image_Un)
      then have "final_addr (fst y) ys' \<noteq> NULL" by (rule final_addr_not_NULL)
      then show ?thesis using l xs zs Cons by (auto simp: move_to_front_def set_block_Some links_def)
    qed
  qed
qed

lemma move_to_front_rep:
  assumes "cache_rep c (xs @ x # ys)"
  shows "\<exists>c'. move_to_front c (fst x) = Some c' \<and> cache_rep c' (x # xs @ ys)"
proof (cases "xs = []")
  case True
  then show ?thesis using assms by (auto simp: cache_rep_def links_def move_to_front_def)
next
  case False
  have own: "owns c (xs @ x # ys)" and lnk: "links c (xs @ x # ys)" using assms by (simp_all add: cache_rep_def)
  obtain c' where c': "move_to_front c (fst x) = Some c'" "links c' (x # xs @ ys)" "objects c' = objects c" "total_size c' = total_size c"
      "fresh c' = fresh c" "dom (blocks c') = dom (blocks c)"
    using links_move_to_front [OF lnk False] by blast
  have "owns c' (x # xs @ ys)" using own unfolding owns_def c'(3-6) by auto
  then show ?thesis using c'(1,2) by (auto simp: cache_rep_def)
qed

subsection \<open>The eviction\<close>

lemma marks_butlast: "its \<noteq> [] \<Longrightarrow> length (filter mark its) = length (filter mark (butlast its)) + (if mark (last its) then 1 else 0)"
  by (induction its rule: rev_induct) auto

text \<open>The list of items: an item at the end with a mark goes to the front without it, another one is dropped.\<close>

function clock :: "int \<Rightarrow> item list \<Rightarrow> item list" where
  "clock need its =
     (if weight its + need > MAX_CACHE_SIZE \<and> its \<noteq> [] then
        clock need (if mark (last its) then (last its)\<lparr>mark := False\<rparr> # butlast its else butlast its)
      else its)"
  by auto

termination
proof (relation "measure (\<lambda>(need, its). length its + length (filter mark its))", goal_cases)
  case (2 need its)
  then show ?case using marks_butlast [of its] by (cases its rule: rev_cases) auto
qed simp

declare clock.simps [simp del]

lemma clock_done: "weight its + need \<le> MAX_CACHE_SIZE \<Longrightarrow> clock need its = its"
  by (subst clock.simps) simp

lemma clock_snoc:
  "MAX_CACHE_SIZE < weight (its @ [i]) + need \<Longrightarrow> clock need (its @ [i]) = clock need (if mark i then i\<lparr>mark := False\<rparr> # its else its)"
  by (subst clock.simps) simp

lemma links_second_chance:
  assumes "links c (xs @ [x])" "xs \<noteq> []"
  shows "\<exists>c'. second_chance c (fst x) = Some c' \<and> links c' ((fst x, fst (snd x), (snd (snd x))\<lparr>mark := False\<rparr>) # xs) \<and>
    objects c' = objects c \<and> total_size c' = total_size c \<and> fresh c' = fresh c \<and> dom (blocks c') = dom (blocks c)"
proof -
  let ?x = "(fst x, fst (snd x), (snd (snd x))\<lparr>mark := False\<rparr>)"
  obtain ys y where xs: "xs = ys @ [y]" using assms(2) by (cases xs rule: rev_cases) auto
  note l = assms(1) [unfolded links_def xs, simplified]
  show ?thesis
  proof (cases ys)
    case Nil
    then show ?thesis using l xs by (auto simp: second_chance_def set_block_Some links_def)
  next
    case (Cons z zs)
    then show ?thesis using l xs by (auto simp: second_chance_def set_block_Some links_def)
  qed
qed

lemma links_drop_tail:
  assumes "links c (xs @ [x])" "total_size c = weight (items (xs @ [x]))" "total_size c < 2 ^ 31" "objects c (fst (snd x)) = Some bs"
  shows "\<exists>c'. drop_tail c (fst x) = Some c' \<and> links c' xs \<and> total_size c' = weight (items xs) \<and> fresh c' = fresh c \<and>
    objects c' = (objects c)(fst (snd x) := None) \<and> dom (blocks c') = dom (blocks c) - {fst x}"
proof (cases xs rule: rev_cases)
  case Nil
  then show ?thesis using assms by (auto simp: drop_tail_def set_block_Some links_def)
next
  case (snoc ys y)
  have "0 \<le> weight (items ys)" by (rule weight_pos)
  then have "checked (weight (items ys) + int (length (bytes (snd (snd y))))) = Some (weight (items ys) + int (length (bytes (snd (snd y)))))"
    using assms(2,3) unfolding snoc by (intro checked_ok) simp_all
  then show ?thesis using assms snoc by (auto simp: drop_tail_def set_block_Some links_def)
qed

definition within :: "item list \<Rightarrow> bool" where
  "within its \<longleftrightarrow> weight its \<le> MAX_CACHE_SIZE \<and> (\<forall>i\<in>set its. int (length (bytes i)) \<le> MAX_OBJECT_SIZE)"

lemma within_weight: "within its \<Longrightarrow> weight its \<le> 1049000"
  by (simp add: within_def MAX_CACHE_SIZE_def)

text \<open>When the eviction has something to do, there are at least two blocks.\<close>

lemma within_two:
  assumes "within (its @ [i])" "weight (its @ [i]) + need > MAX_CACHE_SIZE" "need \<le> MAX_OBJECT_SIZE"
  shows "its \<noteq> []"
  using assms by (auto simp: within_def MAX_CACHE_SIZE_def MAX_OBJECT_SIZE_def)

lemma within_clock_step: "within (its @ [i]) \<Longrightarrow> within its" "within (its @ [i]) \<Longrightarrow> within (i\<lparr>mark := b\<rparr> # its)"
  by (auto simp: within_def)

lemma evict_loop_rep:
  assumes need: "0 \<le> need" "need \<le> MAX_OBJECT_SIZE"
  shows "cache_rep c xs \<Longrightarrow> within (items xs) \<Longrightarrow>
    \<exists>c' xs'. evict_loop c need = Some c' \<and> cache_rep c' xs' \<and> items xs' = clock need (items xs)"
proof (induction "length xs + length (filter mark (items xs))" arbitrary: c xs rule: less_induct)
  case less
  have own: "owns c xs" and lnk: "links c xs" using less.prems(1) by (simp_all add: cache_rep_def)
  have tot: "total_size c = weight (items xs)" using own by (simp add: owns_def)
  have ck: "checked (total_size c + need) = Some (total_size c + need)"
    using tot within_weight [OF less.prems(2)] need weight_pos [of "items xs"] by (intro checked_ok) (simp_all add: MAX_OBJECT_SIZE_def)
  show ?case
  proof (cases "total_size c + need > MAX_CACHE_SIZE")
    case False
    then have "evict_loop c need = Some c" using ck by (simp add: evict_loop.simps [of c])
    moreover have "clock need (items xs) = items xs" using False tot by (simp add: clock_done)
    ultimately show ?thesis using less.prems(1) by auto
  next
    case True
    have "xs \<noteq> []" using True tot need by (auto simp: MAX_CACHE_SIZE_def MAX_OBJECT_SIZE_def)
    then obtain ys x where xs: "xs = ys @ [x]" by (cases xs rule: rev_cases) auto
    have ys: "ys \<noteq> []" using within_two [of "items ys" "snd (snd x)" need] less.prems(2) True tot need(2) by (auto simp: xs)
    have tl: "tail c = fst x" "fst x \<noteq> NULL" "blocks c (fst x) = Some (block_of x (final_addr NULL ys) NULL)"
      using lnk by (auto simp: xs links_def)
    have run: "evict_loop c need =
        Option.bind (if mark (snd (snd x)) then second_chance c (fst x) else drop_tail c (fst x)) (\<lambda>c. evict_loop c need)"
      using ck True tl by (simp add: evict_loop.simps [of c])
    show ?thesis
    proof (cases "mark (snd (snd x))")
      case m: True
      let ?x = "(fst x, fst (snd x), (snd (snd x))\<lparr>mark := False\<rparr>)"
      obtain c1 where c1: "second_chance c (fst x) = Some c1" "links c1 (?x # ys)" "objects c1 = objects c" "total_size c1 = total_size c"
          "fresh c1 = fresh c" "dom (blocks c1) = dom (blocks c)"
        using links_second_chance [of c ys x] lnk ys xs by blast
      have "owns c1 (?x # ys)" using own c1(3-6) unfolding owns_def xs by auto
      then have r: "cache_rep c1 (?x # ys)" using c1(2) by (simp add: cache_rep_def)
      have w: "within (items (?x # ys))" using within_clock_step(2) [of "items ys" "snd (snd x)" False] less.prems(2) by (simp add: xs)
      have lt: "length (?x # ys) + length (filter mark (items (?x # ys))) < length xs + length (filter mark (items xs))" using m by (simp add: xs)
      have "clock need (items xs) = clock need (items (?x # ys))" using True tot m by (simp add: clock_snoc xs)
      then show ?thesis using less.hyps [OF lt r w] run c1(1) m by simp
    next
      case m: False
      have ob: "objects c (fst (snd x)) = Some (bytes (snd (snd x)))" using own by (simp add: owns_def xs)
      have "total_size c < 2 ^ 31" using within_weight [OF less.prems(2)] tot by simp
      then obtain c1 where c1: "drop_tail c (fst x) = Some c1" "links c1 ys" "total_size c1 = weight (items ys)" "fresh c1 = fresh c"
          "objects c1 = (objects c)(fst (snd x) := None)" "dom (blocks c1) = dom (blocks c) - {fst x}"
        using links_drop_tail [of c ys x] lnk tot ob unfolding xs by blast
      have d: "fst x \<notin> fst ` set ys" using lnk by (simp add: links_def xs)
      have d': "\<forall>y\<in>set ys. fst (snd y) \<noteq> fst (snd x)" 
      proof
        fix y
        assume "y \<in> set ys"
        moreover have "fst (snd x) \<notin> (\<lambda>x. fst (snd x)) ` set ys" using own by (simp add: owns_def xs)
        ultimately show "fst (snd y) \<noteq> fst (snd x)" by (metis (no_types, lifting) imageI)
      qed
      have "owns c1 ys" using own d d' c1(3-6) unfolding owns_def xs by auto
      then have r: "cache_rep c1 ys" using c1(2) by (simp add: cache_rep_def)
      have w: "within (items ys)" using within_clock_step(1) [of "items ys" "snd (snd x)"] less.prems(2) by (simp add: xs)
      have lt: "length ys + length (filter mark (items ys)) < length xs + length (filter mark (items xs))" using m by (simp add: xs)
      have "clock need (items xs) = clock need (items ys)" using True tot m by (simp add: clock_snoc xs)
      then show ?thesis using less.hyps [OF lt r w] run c1(1) m by simp
    qed
  qed
qed

lemma clock_within: "within its \<Longrightarrow> within (clock need its)"
proof (induction need its rule: clock.induct)
  case (1 need its)
  show ?case
  proof (cases "weight its + need > MAX_CACHE_SIZE \<and> its \<noteq> []")
    case True
    then obtain js i where its: "its = js @ [i]" by (cases its rule: rev_cases) auto
    have "within (if mark (last its) then (last its)\<lparr>mark := False\<rparr> # butlast its else butlast its)"
      using within_clock_step [of js i] "1.prems" by (simp add: its)
    then show ?thesis using "1.IH" True by (subst clock.simps) simp
  next
    case False
    have "clock need its = its" by (subst clock.simps) (rule if_not_P [OF False])
    then show ?thesis using "1.prems" by simp
  qed
qed

lemma clock_fits: "need \<le> MAX_CACHE_SIZE \<Longrightarrow> weight (clock need its) + need \<le> MAX_CACHE_SIZE"
proof (induction need its rule: clock.induct)
  case (1 need its)
  then show ?case by (subst clock.simps) (auto simp del: not_less)
qed

subsection \<open>Insertion\<close>

definition new_item :: "string \<Rightarrow> string \<Rightarrow> item" where
  "new_item u bs = \<lparr>key = u, bytes = bs, mark = True\<rparr>"

lemma cache_insert_rep:
  assumes "cache_rep c xs" "weight (items xs) + n \<le> MAX_CACHE_SIZE" "0 \<le> n" "n \<le> int (length rb)"
  shows "\<exists>c' xs'. cache_insert c u n rb = Some c' \<and> cache_rep c' xs' \<and> items xs' = new_item u (take (nat n) rb) # items xs"
proof -
  let ?x = "(fresh c, fresh c + 1, new_item u (take (nat n) rb))"
  have own: "owns c xs" and lnk: "links c xs" using assms(1) by (simp_all add: cache_rep_def)
  have f: "fresh c \<notin> fst ` set xs" "fresh c + 1 \<notin> (\<lambda>x. fst (snd x)) ` set xs" "0 < fresh c"
    using own by (auto simp: owns_def)
  have ck: "checked (weight (items xs) + n) = Some (weight (items xs) + n)"
    using assms(2,3) weight_pos [of "items xs"] by (intro checked_ok) (simp_all add: MAX_CACHE_SIZE_def)
  have b: "block_of ?x p q = \<lparr>url = u, data = fresh c + 1, block_size = n, reference_bit = 1, prev = p, nxt = q\<rparr>" for p q
    using assms(3,4) by (simp add: block_of_def new_item_def)
  have len: "int (length (bytes (new_item u (take (nat n) rb)))) = n" using assms(3,4) by (simp add: new_item_def)
  have "\<exists>c'. cache_insert c u n rb = Some c' \<and> links c' (?x # xs) \<and> owns c' (?x # xs)"
  proof (cases xs)
    case Nil
    then show ?thesis using own lnk f assms(3,4) ck len
      by (auto simp: cache_insert_def links_def owns_def b [symmetric] new_item_def Let_def)
  next
    case (Cons y ys)
    then show ?thesis using own lnk f assms(3,4) ck len
      by (auto simp: cache_insert_def links_def owns_def b [symmetric] new_item_def set_block_Some Let_def)
  qed
  then obtain c' where "cache_insert c u n rb = Some c'" "links c' (?x # xs)" "owns c' (?x # xs)" by blast
  then show ?thesis by (intro exI [of _ c'] exI [of _ "?x # xs"]) (simp add: cache_rep_def)
qed

subsection \<open>Keeping a response\<close>

definition store_item :: "string \<Rightarrow> string \<Rightarrow> item list \<Rightarrow> item list" where
  "store_item u bs its = (if int (length bs) \<le> MAX_OBJECT_SIZE then new_item u bs # clock (int (length bs)) its else its)"

lemma cache_store_rep:
  assumes "cache_rep c xs" "within (items xs)" "0 \<le> n" "n \<le> MAX_OBJECT_SIZE \<Longrightarrow> n \<le> int (length rb)"
  shows "\<exists>c' xs'. cache_store c u n rb = Some c' \<and> cache_rep c' xs' \<and>
    items xs' = (if n \<le> MAX_OBJECT_SIZE then store_item u (take (nat n) rb) (items xs) else items xs)"
proof (cases "n \<le> MAX_OBJECT_SIZE")
  case False
  then show ?thesis using assms(1) by (auto simp: cache_store_def)
next
  case True
  obtain c1 xs1 where e: "evict_loop c n = Some c1" "cache_rep c1 xs1" "items xs1 = clock n (items xs)"
    using evict_loop_rep [OF assms(3) True assms(1,2)] by blast
  have "n \<le> MAX_CACHE_SIZE" using True by (simp add: MAX_OBJECT_SIZE_def MAX_CACHE_SIZE_def)
  then have "weight (items xs1) + n \<le> MAX_CACHE_SIZE" using clock_fits e(3) by simp
  then obtain c' xs' where i: "cache_insert c1 u n rb = Some c'" "cache_rep c' xs'" "items xs' = new_item u (take (nat n) rb) # items xs1"
    using cache_insert_rep [OF e(2) _ assms(3) assms(4) [OF True], of u] by auto
  have len: "int (length (take (nat n) rb)) = n" using assms(3) assms(4) [OF True] by simp
  show ?thesis using e i True len by (intro exI [of _ c'] exI [of _ xs']) (simp add: cache_store_def store_item_def)
qed

lemma store_item_within: "within its \<Longrightarrow> within (store_item u bs its)"
  using clock_within [of its "int (length bs)"] clock_fits [of "int (length bs)" its]
  by (auto simp: store_item_def within_def new_item_def MAX_CACHE_SIZE_def MAX_OBJECT_SIZE_def)

subsection \<open>The second chance\<close>

text \<open>As long as an item without a mark is left, no item with a mark is dropped: \<open>rs\<close> are those that have lost theirs.\<close>

lemma clock_second_chance:
  "(\<forall>i\<in>set rs. \<not> mark i) \<Longrightarrow>
   key ` (set rs \<union> {i\<in>set its. mark i}) \<subseteq> key ` set (clock need (rs @ its)) \<or>
   set (clock need (rs @ its)) \<subseteq> set rs \<union> (\<lambda>i. i\<lparr>mark := False\<rparr>) ` {i\<in>set its. mark i}"
proof (induction its arbitrary: rs rule: rev_induct)
  case Nil
  have "set (clock need js) \<subseteq> set js" if "\<forall>i\<in>set js. \<not> mark i" for js
    using that
  proof (induction js rule: rev_induct)
    case Nil
    show ?case by (simp add: clock.simps)
  next
    case (snoc i js)
    then show ?case by (cases "MAX_CACHE_SIZE < weight (js @ [i]) + need") (auto simp: clock_snoc clock_done simp del: weight_simps)
  qed
  then show ?case using Nil by simp
next
  case (snoc i its)
  show ?case
  proof (cases "MAX_CACHE_SIZE < weight ((rs @ its) @ [i]) + need")
    case False
    then have "clock need (rs @ its @ [i]) = rs @ its @ [i]" by (intro clock_done) simp
    then show ?thesis by (intro disjI1) auto
  next
    case True
    show ?thesis
    proof (cases "mark i")
      case m: True
      have "clock need (rs @ its @ [i]) = clock need ((i\<lparr>mark := False\<rparr> # rs) @ its)" using clock_snoc [OF True] m by simp
      moreover have "\<forall>j\<in>set (i\<lparr>mark := False\<rparr> # rs). \<not> mark j" using snoc.prems by simp
      note snoc.IH [OF this]
      ultimately show ?thesis using m by (auto simp: subset_iff image_iff)
    next
      case m: False
      have "clock need (rs @ its @ [i]) = clock need (rs @ its)" using clock_snoc [OF True] m by simp
      moreover note snoc.IH [OF snoc.prems]
      moreover have "{j\<in>set (its @ [i]). mark j} = {j\<in>set its. mark j}" using m by auto
      ultimately show ?thesis by simp
    qed
  qed
qed

end
