(* ===== verification/ProxySession.thy ===== *)
theory ProxySession
  imports RioStream ProxyCache
begin

text \<open>
  What the handler of the proxy does with its connections: opening one, reading the request, sending a request and
  forwarding the answer.
\<close>

subsection \<open>Sockets\<close>

text \<open>\<open>socket\<close> gives a descriptor that is not in use, and the calls on one descriptor leave the others alone.\<close>

definition posix_sockets :: "'w os \<Rightarrow> 'w view \<Rightarrow> bool" where
  "posix_sockets os v \<longleftrightarrow>
     (\<forall>w host port r w'. sys_getaddrinfo os w host port = (r, w') \<longrightarrow> follows v {} w w') \<and>
     (\<forall>w p fd w'. sys_socket os w p = (fd, w') \<longrightarrow>
        (if fd < 0 then follows v {} w w' else fd \<notin> opened v w \<and> opened v w' = insert fd (opened v w) \<and> spares v {fd} w w')) \<and>
     (\<forall>w fd p r w'. sys_connect os w fd p = (r, w') \<longrightarrow> follows v {fd} w w') \<and>
     (\<forall>w fd r w'. sys_close os w fd = (r, w') \<longrightarrow>
        spares v {fd} w w' \<and> sent v w' fd = sent v w fd \<and> (if r < 0 then \<not> reliable v w else opened v w' = opened v w - {fd}))"

lemma posix_socketsD:
  assumes "posix_sockets os v"
  shows "sys_getaddrinfo os w host port = (r, w') \<Longrightarrow> follows v {} w w'"
    "sys_socket os w p = (fd, w') \<Longrightarrow> fd < 0 \<Longrightarrow> follows v {} w w'"
    "sys_socket os w p = (fd, w') \<Longrightarrow> 0 \<le> fd \<Longrightarrow> fd \<notin> opened v w \<and> opened v w' = insert fd (opened v w) \<and> spares v {fd} w w'"
    "sys_connect os w fd p = (k, w') \<Longrightarrow> follows v {fd} w w'"
    "sys_close os w fd = (k, w') \<Longrightarrow> spares v {fd} w w' \<and> sent v w' fd = sent v w fd \<and> (if k < 0 then \<not> reliable v w else opened v w' = opened v w - {fd})"
  using assms by (simp_all add: posix_sockets_def)

lemma spares_refl [simp]: "spares v A w w"
  by (simp add: spares_def)

lemma spares_trans: "spares v A w w' \<Longrightarrow> spares v A w' w'' \<Longrightarrow> spares v A w w''"
  by (auto simp: spares_def)

lemma spares_mono: "spares v A w w' \<Longrightarrow> A \<subseteq> B \<Longrightarrow> spares v B w w'"
  by (auto simp: spares_def)

lemma follows_spares: "follows v A w w' \<Longrightarrow> A \<subseteq> B \<Longrightarrow> spares v B w w'"
  by (auto simp: follows_def spares_def)

lemma sparesD:
  assumes "spares v A w w'"
  shows "fd \<notin> A \<Longrightarrow> incoming v w' fd = incoming v w fd" "fd \<notin> A \<Longrightarrow> sent v w' fd = sent v w fd"
    "reliable v w \<Longrightarrow> reliable v w'"
  using assms by (auto simp: spares_def)

lemma connect_loop_sockets:
  assumes posix: "posix_sockets os v"
  shows "connect_loop os w ps d = (e, fd, rest, w') \<Longrightarrow> spares v (- opened v w) w w' \<and>
    (if e = None then (if rest = [] then opened v w' = opened v w else 0 \<le> fd \<and> fd \<notin> opened v w \<and> opened v w' = insert fd (opened v w))
     else e = Some (-1) \<and> \<not> reliable v w)"
proof (induction ps arbitrary: w d)
  case Nil
  then show ?case by simp
next
  case (Cons p ps)
  obtain fd1 w1 where s: "sys_socket os w p = (fd1, w1)" by (cases "sys_socket os w p")
  show ?case
  proof (cases "fd1 < 0")
    case True
    then have f: "follows v {} w w1" using posix_socketsD(2) [OF posix s] by simp
    have "connect_loop os w1 ps fd1 = (e, fd, rest, w')" using Cons.prems s True by simp
    note i = Cons.IH [OF this]
    then show ?thesis using f spares_trans [OF follows_spares [OF f, of "- opened v w"], of w'] sparesD(3) [OF follows_spares [OF f, of UNIV]]
      by (auto simp: follows_def split: if_splits)
  next
    case False
    then have o: "fd1 \<notin> opened v w" "opened v w1 = insert fd1 (opened v w)" "spares v {fd1} w w1" using posix_socketsD(3) [OF posix s] by auto
    obtain c w2 where c: "sys_connect os w1 fd1 p = (c, w2)" by (cases "sys_connect os w1 fd1 p")
    note f = posix_socketsD(4) [OF posix c]
    have sp: "spares v (- opened v w) w w2"
      using spares_trans [OF spares_mono [OF o(3)] follows_spares [OF f], of "- opened v w"] o(1) by simp
    have op: "opened v w2 = insert fd1 (opened v w)" using f o(2) by (simp add: follows_def)
    show ?thesis
    proof (cases "c = -1")
      case False
      then show ?thesis using Cons.prems s c \<open>\<not> fd1 < 0\<close> sp op o(1) by auto
    next
      case True
      obtain k w3 where k: "sys_close os w2 fd1 = (k, w3)" by (cases "sys_close os w2 fd1")
      note cl = posix_socketsD(5) [OF posix k]
      have sp3: "spares v (- opened v w) w w3"
        using spares_trans [OF sp spares_mono [OF cl [THEN conjunct1]]] o(1) by simp
      show ?thesis
      proof (cases "k < 0")
        case True
        then show ?thesis using Cons.prems s c k \<open>\<not> fd1 < 0\<close> \<open>c = -1\<close> cl sp sp3 sparesD(3) [OF sp] by auto
      next
        case k0: False
        have op3: "opened v w3 = opened v w" using cl k0 op o(1) by simp
        have "connect_loop os w3 ps fd1 = (e, fd, rest, w')" using Cons.prems s c k k0 \<open>\<not> fd1 < 0\<close> True by simp
        note i = Cons.IH [OF this]
        then show ?thesis using op3 spares_trans [OF sp3, of w'] sparesD(3) [OF sp3] by (auto split: if_splits)
      qed
    qed
  qed
qed

lemma open_clientfd_sockets:
  assumes posix: "posix_sockets os v" and r: "open_clientfd os w host port = (fd, w')"
  shows "spares v (- opened v w) w w'"
    "0 \<le> fd \<Longrightarrow> fd \<notin> opened v w \<and> opened v w' = insert fd (opened v w)"
    "fd < 0 \<Longrightarrow> reliable v w \<Longrightarrow> opened v w' = opened v w"
proof -
  obtain a w1 where g: "sys_getaddrinfo os w host port = (a, w1)" by (cases "sys_getaddrinfo os w host port")
  note f = posix_socketsD(1) [OF posix g]
  have o: "opened v w1 = opened v w" using f by (simp add: follows_def)
  note sp = follows_spares [OF f, of "- opened v w"]
  have "spares v (- opened v w) w w' \<and> (0 \<le> fd \<longrightarrow> fd \<notin> opened v w \<and> opened v w' = insert fd (opened v w)) \<and>
      (fd < 0 \<longrightarrow> reliable v w \<longrightarrow> opened v w' = opened v w)"
  proof (cases a)
    case None
    then show ?thesis using r g sp o by (simp add: open_clientfd_def)
  next
    case (Some ps)
    obtain e fd1 rest w2 where c: "connect_loop os w1 ps 0 = (e, fd1, rest, w2)" by (cases "connect_loop os w1 ps 0")
    show ?thesis using r g Some c connect_loop_sockets [OF posix c] o spares_trans [OF sp, of w2] sparesD(3) [OF sp]
      by (auto simp: open_clientfd_def split: if_splits option.splits)
  qed
  then show "spares v (- opened v w) w w'" "0 \<le> fd \<Longrightarrow> fd \<notin> opened v w \<and> opened v w' = insert fd (opened v w)"
    "fd < 0 \<Longrightarrow> reliable v w \<Longrightarrow> opened v w' = opened v w" by blast+
qed

subsection \<open>Reading and writing\<close>

lemma MAXLINE_bounds [simp]: "1 < MAXLINE" "int MAXLINE < 2 ^ 31" "0 < MAXLINE" "\<not> MAXLINE \<le> Suc 0"
  by (simp_all add: MAXLINE_def)

lemma Rio_readlineb_stream:
  assumes "posix_read os v" "rio_ok rp"
  shows "(\<exists>rp' w' cs. Rio_readlineb os (rp, w) MAXLINE = Some (Returned (int (length cs), if cs = [] then [] else cs @ [NUL], rp', w')) \<and>
      cs = line_prefix (MAXLINE - 1) (rio_left v (rp, w)) \<and> rio_left v (rp', w') = drop (length cs) (rio_left v (rp, w)) \<and>
      rio_ok rp' \<and> rio_along v (rp, w) (rp', w')) \<or>
    (Rio_readlineb os (rp, w) MAXLINE = Some Exited \<and> \<not> reliable v w)"
proof -
  obtain r bs rp' w' cs where r: "rio_readlineb os (rp, w) MAXLINE = Some (r, bs, rp', w')" "rio_ok rp'" "rio_along v (rp, w) (rp', w')"
    "rio_left v (rp, w) = cs @ rio_left v (rp', w')"
    "if r = -1 then \<not> reliable v w
     else cs = line_prefix (MAXLINE - 1) (rio_left v (rp, w)) \<and> r = int (length cs) \<and> bs = (if cs = [] then [] else cs @ [NUL])"
    using rio_readlineb_left [OF assms MAXLINE_bounds(1,2)] by blast
  show ?thesis
  proof (cases "r = -1")
    case True
    then show ?thesis using r by (simp add: Rio_readlineb_def)
  next
    case False
    then have c: "cs = line_prefix (MAXLINE - 1) (rio_left v (rp, w))" "r = int (length cs)" "bs = (if cs = [] then [] else cs @ [NUL])"
      using r(5) by simp_all
    have "Rio_readlineb os (rp, w) MAXLINE = Some (Returned (int (length cs), if cs = [] then [] else cs @ [NUL], rp', w'))"
      using r(1) c(2,3) by (simp add: Rio_readlineb_def)
    moreover have "rio_left v (rp', w') = drop (length cs) (rio_left v (rp, w))" using r(4) by simp
    ultimately show ?thesis using c(1) r(2,3) by blast
  qed
qed

lemma Rio_readnb_stream:
  assumes "posix_read os v" "rio_ok rp"
  shows "(\<exists>rp' w' bs. Rio_readnb os (rp, w) n = Some (Returned (int (length bs), bs, rp', w')) \<and> bs = take n (rio_left v (rp, w)) \<and>
      rio_left v (rp', w') = drop (length bs) (rio_left v (rp, w)) \<and> rio_ok rp' \<and> rio_along v (rp, w) (rp', w')) \<or>
    (Rio_readnb os (rp, w) n = Some Exited \<and> \<not> reliable v w)"
proof -
  obtain r bs rp' w' where r: "rio_readnb os (rp, w) n = Some (r, bs, rp', w')" "rio_ok rp'" "rio_left v (rp, w) = bs @ rio_left v (rp', w')"
      "rio_along v (rp, w) (rp', w')" "if r = -1 then \<not> reliable v w else bs = take n (rio_left v (rp, w)) \<and> r = int (length bs)"
    using rio_readnb_left [OF assms] by blast
  show ?thesis
  proof (cases "r = -1")
    case True
    then show ?thesis using r by (simp add: Rio_readnb_def)
  next
    case False
    then have c: "bs = take n (rio_left v (rp, w))" "r = int (length bs)" using r(5) by simp_all
    have "Rio_readnb os (rp, w) n = Some (Returned (int (length bs), bs, rp', w'))" using r(1) c(2) by (simp add: Rio_readnb_def)
    moreover have "rio_left v (rp', w') = drop (length bs) (rio_left v (rp, w))" using r(3) by simp
    ultimately show ?thesis using c(1) r(2,4) by blast
  qed
qed

subsection \<open>The request of the client\<close>

text \<open>The headers on the bytes that come in: \<open>line\<close> has been read already. There is no result when the input ends first.\<close>

abbreviation to_nul :: "string \<Rightarrow> string" where
  "to_nul \<equiv> takeWhile (\<lambda>c. c \<noteq> NUL)"

function spec_headers :: "string \<Rightarrow> string \<Rightarrow> string \<Rightarrow> string \<Rightarrow> (string \<times> string) option" where
  "spec_headers line inp host port =
     (if line = CRLF \<or> line = [LF] then Some (host, port)
      else case (if host = [] \<and> is_host_header line then parse_host line port else Some (host, port)) of
        None \<Rightarrow> None
      | Some (host, port) \<Rightarrow>
          if inp = [] then None
          else spec_headers (to_nul (line_prefix (MAXLINE - 1) inp)) (drop (length (line_prefix (MAXLINE - 1) inp)) inp) host port)"
  by pat_completeness auto

termination
  by (relation "measure (\<lambda>(line, inp, host, port). length inp)") (auto simp: MAXLINE_def)

declare spec_headers.simps [simp del]

text \<open>The method, host, port and path that the handler takes from its input.\<close>

definition request_of :: "string \<Rightarrow> (string \<times> string \<times> string \<times> string) option" where
  "request_of inp = do {
     let l = line_prefix (MAXLINE - 1) inp;
     let inp = drop (length l) inp;
     (method, uri) \<leftarrow> scan_request (to_nul l);
     let (host, port, path) = parse_uri uri;
     (if inp = [] then None else Some ());
     (host, port) \<leftarrow> spec_headers (to_nul (line_prefix (MAXLINE - 1) inp)) (drop (length (line_prefix (MAXLINE - 1) inp)) inp) host port;
     Some (method, host, port, path)
   }"

lemma c_string_line [simp]: "c_string (overwrite buf (cs @ [NUL])) = Some (to_nul cs)"
  by (auto simp: c_string_def overwrite_def takeWhile_append intro: takeWhile_eq_all_conv [THEN iffD2, symmetric])

lemma rio_along_refl [simp]: "rio_along v s s"
  by (simp add: rio_along_def)

lemma rio_along_trans: "rio_along v s s' \<Longrightarrow> rio_along v s' s'' \<Longrightarrow> rio_along v s s''"
  unfolding rio_along_def by (auto intro: follows_trans_same)

lemma rio_along_reliable: "rio_along v (rp, w) (rp', w') \<Longrightarrow> reliable v w \<Longrightarrow> reliable v w'"
  by (auto simp: rio_along_def dest: followsD(5))

lemma line_prefix_MAXLINE [simp]: "line_prefix (MAXLINE - Suc 0) cs = [] \<longleftrightarrow> cs = []"
  by (simp add: MAXLINE_def)

lemma header_loop_step:
  "header_loop os (s, buf, host, port) = do {
     line \<leftarrow> c_string buf;
     if line \<noteq> CRLF \<and> line \<noteq> [LF] then do {
       (host, port) \<leftarrow> (if host = [] \<and> is_host_header line then parse_host line port else Some (host, port));
       andthen (Rio_readlineb os s MAXLINE) (\<lambda>(r, bs, s). header_loop os (s, overwrite buf bs, host, port))
     } else Some (Returned (s, host, port))
   }"
proof -
  have a: "andthen (andthen x (\<lambda>(r, bs, s). Some (Returned (Inl (s, f bs, host, port)))))
      (\<lambda>r. case r of Inl st \<Rightarrow> header_loop os st | Inr x \<Rightarrow> Some (Returned x)) = andthen x (\<lambda>(r, bs, s). header_loop os (s, f bs, host, port))"
    for x :: "(int \<times> string \<times> rio_t \<times> 'a) outcome option" and f host port
    by (simp add: andthen_def case_prod_beta split: option.split outcome.split Option.bind_split)
  show ?thesis
    by (subst header_loop.simps) (simp add: a case_prod_beta split: option.split Option.bind_split)
qed

lemma header_loop_stream:
  assumes posix: "posix_read os v"
  shows "rio_ok rp \<Longrightarrow> c_string buf = Some line \<Longrightarrow> inp = rio_left v (rp, w) \<Longrightarrow> spec_headers line inp host port = Some (host', port') \<Longrightarrow>
    (\<exists>rp' w'. header_loop os ((rp, w), buf, host, port) = Some (Returned ((rp', w'), host', port')) \<and> rio_ok rp' \<and> rio_along v (rp, w) (rp', w')) \<or>
    (header_loop os ((rp, w), buf, host, port) = Some Exited \<and> \<not> reliable v w)"
proof (induction line inp host port arbitrary: rp w buf rule: spec_headers.induct)
  case (1 line inp host port)
  note unfold = header_loop_step [of os "(rp, w)" buf host port]
  show ?case
  proof (cases "line = CRLF \<or> line = [LF]")
    case True
    then have "host' = host" "port' = port" using "1.prems"(4) by (simp_all add: spec_headers.simps [of line])
    moreover have "header_loop os ((rp, w), buf, host, port) = Some (Returned ((rp, w), host, port))"
      using True "1.prems"(2) by (auto simp: unfold)
    ultimately show ?thesis using "1.prems"(1) rio_along_refl by blast
  next
    case False
    obtain host1 port1 where hp: "(if host = [] \<and> is_host_header line then parse_host line port else Some (host, port)) = Some (host1, port1)"
      and ne: "inp \<noteq> []"
      and rest: "spec_headers (to_nul (line_prefix (MAXLINE - 1) inp)) (drop (length (line_prefix (MAXLINE - 1) inp)) inp) host1 port1 = Some (host', port')"
      using "1.prems"(4) False
      by (cases "if host = [] \<and> is_host_header line then parse_host line port else Some (host, port)")
        (auto simp: spec_headers.simps [of line inp] split: if_splits)
    have run: "header_loop os ((rp, w), buf, host, port) =
        andthen (Rio_readlineb os (rp, w) MAXLINE) (\<lambda>(r, bs, s). header_loop os (s, overwrite buf bs, host1, port1))"
      using False "1.prems"(2) hp by (simp add: unfold)
    from Rio_readlineb_stream [OF posix "1.prems"(1), of w] show ?thesis
    proof (elim disjE exE conjE)
      fix rp1 w1 cs
      assume r: "Rio_readlineb os (rp, w) MAXLINE = Some (Returned (int (length cs), if cs = [] then [] else cs @ [NUL], rp1, w1))"
        "cs = line_prefix (MAXLINE - 1) (rio_left v (rp, w))" "rio_left v (rp1, w1) = drop (length cs) (rio_left v (rp, w))"
        "rio_ok rp1" "rio_along v (rp, w) (rp1, w1)"
      have cs: "cs = line_prefix (MAXLINE - 1) inp" "cs \<noteq> []" using r(2) ne "1.prems"(3) by simp_all
      have left: "drop (length (line_prefix (MAXLINE - 1) inp)) inp = rio_left v (rp1, w1)" using r(3) cs(1) "1.prems"(3) by simp
      have "(\<exists>rp' w'. header_loop os ((rp1, w1), (overwrite buf (cs @ [NUL])), host1, port1) = Some (Returned ((rp', w'), host', port')) \<and>
            rio_ok rp' \<and> rio_along v (rp1, w1) (rp', w')) \<or>
          (header_loop os ((rp1, w1), (overwrite buf (cs @ [NUL])), host1, port1) = Some Exited \<and> \<not> reliable v w1)"
        using "1.IH" [OF False hp refl ne r(4) c_string_line [of buf cs, unfolded cs(1)] left rest] cs(1) by simp
      then show ?thesis using run r(1) cs(2) rio_along_trans [OF r(5)] rio_along_reliable [OF r(5)] by auto
    qed (use run in simp)
  qed
qed

subsection \<open>The origin server\<close>

text \<open>One write after another.\<close>

definition writes :: "'w os \<Rightarrow> 'w view \<Rightarrow> 'w \<Rightarrow> int \<Rightarrow> string \<Rightarrow> 'w outcome option \<Rightarrow> bool" where
  "writes os v w fd bs x \<longleftrightarrow> (\<exists>w'. x = Some (Returned w') \<and> follows v {fd} w w' \<and> sent v w' fd = sent v w fd @ bs) \<or>
     (x = Some Exited \<and> \<not> reliable v w)"

lemma writes_Rio: "posix_write os v \<Longrightarrow> writes os v w fd bs (Rio_writen os w fd bs)"
  unfolding writes_def by (rule Rio_writen_stream)

lemma writes_andthen:
  assumes "writes os v w fd bs x" "\<And>w'. writes os v w' fd cs (f w')"
  shows "writes os v w fd (bs @ cs) (andthen x f)"
  using assms(1) unfolding writes_def [of os v w fd bs]
proof (elim disjE exE conjE)
  fix w'
  assume x: "x = Some (Returned w')" "follows v {fd} w w'" "sent v w' fd = sent v w fd @ bs"
  show ?thesis using assms(2) [of w'] x follows_trans_same [OF x(2)] followsD(5) [OF x(2)]
    unfolding writes_def by auto
qed (simp add: writes_def)

text \<open>What the proxy sends for a request.\<close>

definition request_text :: "string \<Rightarrow> string \<Rightarrow> string \<Rightarrow> string" where
  "request_text method host path =
     (method @ '' '' @ path @ '' HTTP/1.0'' @ CRLF) @ (''Host: '' @ host @ CRLF) @ user_agent_hdr @ (''Connection: close'' @ CRLF) @
     (''Proxy-Connection: close'' @ CRLF) @ CRLF"

lemma send_request_writes:
  assumes "posix_write os v" "length method + length path + 12 < MAXLINE" "length host + 8 < MAXLINE"
  shows "writes os v w fd (request_text method host path) (send_request os w fd method host path)"
proof -
  have l: "in_line (method @ '' '' @ path @ '' HTTP/1.0'' @ CRLF) = Some (method @ '' '' @ path @ '' HTTP/1.0'' @ CRLF)"
    "in_line (''Host: '' @ host @ CRLF) = Some (''Host: '' @ host @ CRLF)"
    using assms(2,3) by (simp_all add: in_line_def CRLF_def)
  show ?thesis unfolding send_request_def request_text_def l Option.bind_lunit
    by (intro writes_andthen writes_Rio assms(1))
qed

text \<open>All that the origin answers is forwarded, and kept while it is not too large.\<close>

lemma forward_loop_stream:
  assumes posix: "posix_read os v" "posix_write os v" and fd: "sfd \<noteq> cfd"
  shows "rio_ok rp \<Longrightarrow> rio_fd rp = sfd \<Longrightarrow> 0 \<le> n \<Longrightarrow> n \<le> MAX_OBJECT_SIZE \<longrightarrow> int (length rb) = n \<Longrightarrow>
    n + int (length (rio_left v (rp, w))) < 2 ^ 31 \<Longrightarrow>
    (\<exists>w' rb'. forward_loop os cfd (rp, w) n rb = Some (Returned (w', n + int (length (rio_left v (rp, w))), rb')) \<and> follows v {cfd, sfd} w w' \<and>
       sent v w' cfd = sent v w cfd @ rio_left v (rp, w) \<and> sent v w' sfd = sent v w sfd \<and>
       (n + int (length (rio_left v (rp, w))) \<le> MAX_OBJECT_SIZE \<longrightarrow> rb' = rb @ rio_left v (rp, w))) \<or>
    (forward_loop os cfd (rp, w) n rb = Some Exited \<and> \<not> reliable v w)"
proof (induction "length (rio_left v (rp, w))" arbitrary: rp w n rb rule: less_induct)
  case less
  note unfold = forward_loop.simps [of os cfd "(rp, w)" n rb]
  from Rio_readnb_stream [OF posix(1) less.prems(1), of w MAXLINE] show ?case
  proof (elim disjE exE conjE)
    assume "Rio_readnb os (rp, w) MAXLINE = Some Exited" "\<not> reliable v w"
    then show ?thesis by (simp add: unfold)
  next
    fix rp1 w1 bs
    assume r: "Rio_readnb os (rp, w) MAXLINE = Some (Returned (int (length bs), bs, rp1, w1))" "bs = take MAXLINE (rio_left v (rp, w))"
      "rio_left v (rp1, w1) = drop (length bs) (rio_left v (rp, w))" "rio_ok rp1" "rio_along v (rp, w) (rp1, w1)"
    have a1: "rio_fd rp1 = sfd" "follows v {sfd} w w1" "sent v w1 sfd = sent v w sfd" using r(5) less.prems(2) by (auto simp: rio_along_def)
    show ?thesis
    proof (cases "rio_left v (rp, w) = []")
      case True
      then have "forward_loop os cfd (rp, w) n rb = Some (Returned (w1, n, rb))" using r(1,2) by (simp add: unfold)
      then show ?thesis using a1 True fd follows_mono [OF a1(2), of "{cfd, sfd}"] followsD(2) [OF a1(2), of cfd] by auto
    next
      case False
      then have ne: "bs \<noteq> []" using r(2) by simp
      have split: "rio_left v (rp, w) = bs @ rio_left v (rp1, w1)" unfolding r(3) by (simp add: r(2) min_def)
      let ?rb = "if n + int (length bs) \<le> MAX_OBJECT_SIZE then copy_at rb n bs else Some rb"
      have len: "n + int (length bs) < 2 ^ 31" using less.prems(5) by (simp add: split)
      have run: "forward_loop os cfd (rp, w) n rb =
          andthen (Rio_writen os w1 cfd bs) (\<lambda>w. Option.bind ?rb (\<lambda>rb. forward_loop os cfd (rp1, w) (n + int (length bs)) rb))"
        using r(1) ne len less.prems(3) by (simp add: unfold)
      from Rio_writen_stream [OF posix(2), of w1 cfd bs] show ?thesis
      proof (elim disjE exE conjE)
        fix w2
        assume w2: "Rio_writen os w1 cfd bs = Some (Returned w2)" "follows v {cfd} w1 w2" "sent v w2 cfd = sent v w1 cfd @ bs"
        define rb2 where "rb2 = (if n + int (length bs) \<le> MAX_OBJECT_SIZE then rb @ bs else rb)"
        have rb: "?rb = Some rb2" using less.prems(3,4) by (auto simp: rb2_def copy_at_def)
        have left: "rio_left v (rp1, w2) = rio_left v (rp1, w1)" using followsD(1) [OF w2(2), of sfd] fd a1(1) by (simp add: rio_left_def)
        have lt: "length (rio_left v (rp1, w2)) < length (rio_left v (rp, w))" using ne by (simp add: left split)
        have len2: "n + int (length bs) \<le> MAX_OBJECT_SIZE \<longrightarrow> int (length rb2) = n + int (length bs)" using less.prems(4) by (simp add: rb2_def)
        have run2: "forward_loop os cfd (rp, w) n rb = forward_loop os cfd (rp1, w2) (n + int (length bs)) rb2" using run rb w2(1) by simp
        have eq: "n + int (length (rio_left v (rp, w))) = n + int (length bs) + int (length (rio_left v (rp1, w2)))" by (simp add: left split)
        have f: "follows v {cfd, sfd} w w2"
          using follows_trans_same [OF follows_mono [OF a1(2)] follows_mono [OF w2(2)], of "{cfd, sfd}"] by simp
        have s: "sent v w2 cfd = sent v w cfd @ bs" "sent v w2 sfd = sent v w sfd"
          using w2(3) followsD(2) [OF a1(2), of cfd] followsD(2) [OF w2(2), of sfd] a1(3) fd by simp_all
        have pos: "0 \<le> n + int (length bs)" using less.prems(3) by simp
        have bound: "n + int (length bs) + int (length (rio_left v (rp1, w2))) < 2 ^ 31" using less.prems(5) unfolding eq .
        from less.hyps [OF lt r(4) a1(1) pos len2 bound] show ?thesis
        proof (elim disjE exE conjE)
          fix w' rb'
          assume i: "forward_loop os cfd (rp1, w2) (n + int (length bs)) rb2 =
              Some (Returned (w', n + int (length bs) + int (length (rio_left v (rp1, w2))), rb'))"
            "follows v {cfd, sfd} w2 w'" "sent v w' cfd = sent v w2 cfd @ rio_left v (rp1, w2)" "sent v w' sfd = sent v w2 sfd"
            "n + int (length bs) + int (length (rio_left v (rp1, w2))) \<le> MAX_OBJECT_SIZE \<longrightarrow> rb' = rb2 @ rio_left v (rp1, w2)"
          have "n + int (length (rio_left v (rp, w))) \<le> MAX_OBJECT_SIZE \<longrightarrow> rb' = rb @ rio_left v (rp, w)"
            using i(5) unfolding eq by (auto simp: rb2_def left split)
          then show ?thesis using i(1,3,4) run2 s follows_trans_same [OF f i(2)] unfolding eq
            by (intro disjI1 exI [of _ w'] exI [of _ rb']) (simp add: left split)
        qed (use run2 followsD(5) [OF f] in auto)
      next
        assume "Rio_writen os w1 cfd bs = Some Exited" "\<not> reliable v w1"
        then show ?thesis using run followsD(5) [OF a1(2)] by auto
      qed
    qed
  qed
qed

subsection \<open>The cache of the proxy\<close>

definition cache_holds :: "cache_t \<Rightarrow> item list \<Rightarrow> bool" where
  "cache_holds c its \<longleftrightarrow> within its \<and> (\<exists>xs. cache_rep c xs \<and> items xs = its)"

definition find_item :: "string \<Rightarrow> item list \<Rightarrow> item option" where
  "find_item u its = find (\<lambda>i. key i = u) its"

fun mark_first :: "string \<Rightarrow> item list \<Rightarrow> item list" where
  "mark_first u [] = []"
| "mark_first u (i # its) = (if key i = u then i\<lparr>mark := True\<rparr> # its else i # mark_first u its)"

lemma mark_first_append: "(\<forall>i\<in>set its. key i \<noteq> u) \<Longrightarrow> mark_first u (its @ js) = its @ mark_first u js"
  by (induction its) auto

lemma find_items: "find_item u (items xs) = map_option (\<lambda>x. snd (snd x)) (find (\<lambda>x. key (snd (snd x)) = u) xs)"
  by (induction xs) (auto simp: find_item_def)

lemma within_mark: "within (its @ i # js) \<Longrightarrow> within (its @ i\<lparr>mark := b\<rparr> # js)"
  by (auto simp: within_def)

lemma cache_lookup_holds:
  assumes "cache_holds c its"
  shows "case find_item u its of
      None \<Rightarrow> cache_lookup c u = Some (NULL, c)
    | Some i \<Rightarrow> \<exists>p c' b. cache_lookup c u = Some (p, c') \<and> p \<noteq> NULL \<and> cache_holds c' (mark_first u its) \<and>
        blocks c' p = Some b \<and> objects c' (data b) = Some (bytes i) \<and> block_size b = int (length (bytes i))"
proof -
  obtain xs where xs: "cache_rep c xs" "items xs = its" "within its" using assms by (auto simp: cache_holds_def)
  note l = cache_lookup_rep [OF xs(1), of u]
  show ?thesis
  proof (cases "find (\<lambda>x. key (snd (snd x)) = u) xs")
    case None
    then show ?thesis using l find_items [of u xs] xs(2) by simp
  next
    case (Some x)
    then obtain ys zs c' where r: "xs = ys @ x # zs" "\<forall>y\<in>set ys. key (snd (snd y)) \<noteq> u" "key (snd (snd x)) = u" "fst x \<noteq> NULL"
        "cache_lookup c u = Some (fst x, c')" "cache_rep c' (ys @ marked x # zs)"
      using l by auto
    have f: "find_item u its = Some (snd (snd x))" using find_items [of u xs] xs(2) Some by simp
    have m: "items (ys @ marked x # zs) = mark_first u its"
      using r(1-3) xs(2) mark_first_append [of "items ys" u] by (auto simp: marked_def)
    have w: "within (mark_first u its)"
      using within_mark [of "items ys" "snd (snd x)" "items zs" True] xs(2,3) r(1) m by (auto simp: marked_def)
    obtain b where b: "blocks c' (fst x) = Some b" "b = block_of (marked x) (final_addr NULL ys) (first_addr zs NULL)"
      using r(6) by (auto simp: cache_rep_def links_def)
    have o: "objects c' (data b) = Some (bytes (snd (snd x)))" "block_size b = int (length (bytes (snd (snd x))))"
      using r(6) b(2) by (auto simp: cache_rep_def owns_def)
    have "cache_holds c' (mark_first u its)" using r(6) m w unfolding cache_holds_def by blast
    then show ?thesis unfolding f option.case using r(4,5) b(1) o by blast
  qed
qed

lemma cache_store_holds:
  assumes "cache_holds c its" "int (length bs) \<le> MAX_OBJECT_SIZE \<Longrightarrow> rb = bs"
  shows "\<exists>c'. cache_store c u (int (length bs)) rb = Some c' \<and> cache_holds c' (store_item u bs its)"
proof -
  obtain xs where xs: "cache_rep c xs" "items xs = its" "within its" using assms by (auto simp: cache_holds_def)
  obtain c' xs' where r: "cache_store c u (int (length bs)) rb = Some c'" "cache_rep c' xs'"
      "items xs' = (if int (length bs) \<le> MAX_OBJECT_SIZE then store_item u (take (nat (int (length bs))) rb) its else its)"
    using cache_store_rep [OF xs(1), of "int (length bs)" rb u] xs(2,3) assms(2) by auto
  have "items xs' = store_item u bs its" using r(3) assms(2) by (simp add: store_item_def split: if_splits)
  then show ?thesis using r(1,2) store_item_within [OF xs(3)] unfolding cache_holds_def by blast
qed

subsection \<open>The handler\<close>

lemma read_request_run:
  assumes posix: "posix_read os v" and req: "request_of (incoming v w fd) = Some (method, host, port, path)"
  shows "(\<exists>w1. read_request os w fd = Some (Returned (method, host, port, path, w1)) \<and> follows v {fd} w w1 \<and> sent v w1 fd = sent v w fd) \<or>
    (read_request os w fd = Some Exited \<and> \<not> reliable v w)"
proof -
  let ?inp = "incoming v w fd"
  let ?l = "line_prefix (MAXLINE - 1) ?inp"
  let ?inp1 = "drop (length ?l) ?inp"
  let ?l1 = "line_prefix (MAXLINE - 1) ?inp1"
  have left0: "rio_left v (rio_readinitb fd, w) = ?inp" and ok0: "rio_ok (rio_readinitb fd)" and fd0: "rio_fd (rio_readinitb fd) = fd"
    by (simp_all add: rio_left_def rio_readinitb_def rio_ok_def)
  obtain uri host0 port0 where q: "scan_request (to_nul ?l) = Some (method, uri)" "parse_uri uri = (host0, port0, path)" "?inp1 \<noteq> []"
      "spec_headers (to_nul ?l1) (drop (length ?l1) ?inp1) host0 port0 = Some (host, port)"
    using req by (auto simp: request_of_def Let_def split: prod.splits if_splits elim!: bind_SomeE)
  have l_ne: "?l \<noteq> []" using q(3) by auto
  have l1_ne: "?l1 \<noteq> []" using q(3) line_prefix_MAXLINE [of ?inp1] by simp
  from Rio_readlineb_stream [OF posix ok0, of w] show ?thesis
  proof (elim disjE exE conjE)
    assume "Rio_readlineb os (rio_readinitb fd, w) MAXLINE = Some Exited" "\<not> reliable v w"
    then show ?thesis by (simp add: read_request_def read_first_lines_def)
  next
    fix rp1 w1 cs
    assume r1: "Rio_readlineb os (rio_readinitb fd, w) MAXLINE = Some (Returned (int (length cs), if cs = [] then [] else cs @ [NUL], rp1, w1))"
      "cs = line_prefix (MAXLINE - 1) (rio_left v (rio_readinitb fd, w))"
      "rio_left v (rp1, w1) = drop (length cs) (rio_left v (rio_readinitb fd, w))" "rio_ok rp1" "rio_along v (rio_readinitb fd, w) (rp1, w1)"
    have cs: "cs = ?l" using r1(2) left0 by simp
    have left1: "rio_left v (rp1, w1) = ?inp1" using r1(3) cs left0 by simp
    have run1: "read_first_lines os w fd = andthen (Rio_readlineb os (rp1, w1) MAXLINE)
        (\<lambda>(_, bs, s). Some (Returned (method, path, s, overwrite (?l @ [NUL]) bs, host0, port0)))"
      using r1(1) cs l_ne q(1,2) c_string_line [of "[]" ?l]
      by (simp add: read_first_lines_def overwrite_def Let_def)
    from Rio_readlineb_stream [OF posix r1(4), of w1] show ?thesis
    proof (elim disjE exE conjE)
      assume "Rio_readlineb os (rp1, w1) MAXLINE = Some Exited" "\<not> reliable v w1"
      then show ?thesis using run1 rio_along_reliable [OF r1(5)] by (auto simp: read_request_def)
    next
      fix rp2 w2 ds
      assume r2: "Rio_readlineb os (rp1, w1) MAXLINE = Some (Returned (int (length ds), if ds = [] then [] else ds @ [NUL], rp2, w2))"
        "ds = line_prefix (MAXLINE - 1) (rio_left v (rp1, w1))"
        "rio_left v (rp2, w2) = drop (length ds) (rio_left v (rp1, w1))" "rio_ok rp2" "rio_along v (rp1, w1) (rp2, w2)"
      have ds: "ds = ?l1" using r2(2) left1 by simp
      have left2: "drop (length ?l1) ?inp1 = rio_left v (rp2, w2)" using r2(3) ds left1 by simp
      have run2: "read_request os w fd = andthen (header_loop os ((rp2, w2), overwrite (?l @ [NUL]) (?l1 @ [NUL]), host0, port0))
          (\<lambda>(s, host, port). Some (Returned (method, host, port, path, snd s)))"
        using run1 r2(1) ds l1_ne by (simp add: read_request_def)
      note al2 = rio_along_trans [OF r1(5) r2(5)]
      from header_loop_stream [OF posix r2(4) c_string_line [of "?l @ [NUL]"] left2 q(4)] show ?thesis
      proof (elim disjE exE conjE)
        fix rp3 w3
        assume h: "header_loop os ((rp2, w2), overwrite (?l @ [NUL]) (?l1 @ [NUL]), host0, port0) = Some (Returned ((rp3, w3), host, port))"
          "rio_ok rp3" "rio_along v (rp2, w2) (rp3, w3)"
        have "follows v {fd} w w3" "sent v w3 fd = sent v w fd"
          using rio_along_trans [OF al2 h(3)] fd0 by (simp_all add: rio_along_def)
        then show ?thesis using run2 h(1) by (intro disjI1 exI [of _ w3]) simp
      next
        assume "header_loop os ((rp2, w2), overwrite (?l @ [NUL]) (?l1 @ [NUL]), host0, port0) = Some Exited" "\<not> reliable v w2"
        then show ?thesis using run2 rio_along_reliable [OF al2] by auto
      qed
    qed
  qed
qed

lemma Close_sockets:
  assumes "posix_sockets os v"
  shows "(\<exists>w'. Close os w fd = Returned w' \<and> spares v {fd} w w' \<and> sent v w' fd = sent v w fd \<and> opened v w' = opened v w - {fd}) \<or>
    (Close os w fd = Exited \<and> \<not> reliable v w)"
proof -
  obtain k w' where k: "sys_close os w fd = (k, w')" by (cases "sys_close os w fd")
  then show ?thesis using posix_socketsD(5) [OF assms k] by (cases "k < 0") (auto simp: Close_def)
qed

lemma handle_hit:
  assumes "posix_write os v" "posix_sockets os v"
    and blk: "blocks c p = Some b" "objects c (data b) = Some bs" "block_size b = int (length bs)"
  shows "(\<exists>w'. andthen (serve_from_cache os c w fd p) (\<lambda>w. andthen (Some (Close os w fd)) (\<lambda>w. Some (Returned (c, w)))) = Some (Returned (c, w')) \<and>
      sent v w' fd = sent v w fd @ bs \<and> opened v w' = opened v w - {fd} \<and> spares v {fd} w w') \<or>
    (andthen (serve_from_cache os c w fd p) (\<lambda>w. andthen (Some (Close os w fd)) (\<lambda>w. Some (Returned (c, w)))) = Some Exited \<and> \<not> reliable v w)"
proof -
  have serve: "serve_from_cache os c w fd p = Rio_writen os w fd bs" using blk by (simp add: serve_from_cache_def)
  from Rio_writen_stream [OF assms(1), of w fd bs] show ?thesis
  proof (elim disjE exE conjE)
    fix w1
    assume w1: "Rio_writen os w fd bs = Some (Returned w1)" "follows v {fd} w w1" "sent v w1 fd = sent v w fd @ bs"
    from Close_sockets [OF assms(2), of w1 fd] show ?thesis
    proof (elim disjE exE conjE)
      fix w2
      assume w2: "Close os w1 fd = Returned w2" "spares v {fd} w1 w2" "sent v w2 fd = sent v w1 fd" "opened v w2 = opened v w1 - {fd}"
      have "spares v {fd} w w2" using spares_trans [OF follows_spares [OF w1(2) order.refl] w2(2)] .
      then show ?thesis using w1 w2 serve followsD(3) [OF w1(2)] by (intro disjI1 exI [of _ w2]) simp
    qed (use w1 serve followsD(5) [OF w1(2)] in auto)
  qed (use serve in simp)
qed

lemma handle_miss_forwards:
  assumes posix: "posix_read os v" "posix_write os v" "posix_sockets os v" and c: "cache_holds c its"
    and len: "length method + length path + 12 < MAXLINE" "length host + 8 < MAXLINE" "\<And>w fd. int (length (incoming v w fd)) < 2 ^ 31"
    and op: "fd \<in> opened v w"
  shows "(\<exists>c' w' w0 sfd w1. handle_miss os c w fd u method host port path = Some (Returned (c', w')) \<and>
      open_clientfd os w host port = (sfd, w0) \<and> sfd \<notin> opened v w \<and>
      send_request os w0 sfd method host path = Some (Returned w1) \<and> sent v w1 sfd = sent v w0 sfd @ request_text method host path \<and>
      sent v w' sfd = sent v w1 sfd \<and> sent v w' fd = sent v w fd @ incoming v w1 sfd \<and>
      cache_holds c' (store_item u (incoming v w1 sfd) its) \<and> opened v w' = opened v w - {fd}) \<or>
    (handle_miss os c w fd u method host port path = Some Exited \<and> (\<not> reliable v w \<or> fst (open_clientfd os w host port) < 0))"
proof -
  obtain sfd w0 where o: "open_clientfd os w host port = (sfd, w0)" by (cases "open_clientfd os w host port")
  show ?thesis
  proof (cases "sfd < 0")
    case True
    then show ?thesis using o by (simp add: handle_miss_def Open_clientfd_def)
  next
    case False
    note so = open_clientfd_sockets [OF posix(3) o]
    have s: "sfd \<notin> opened v w" "opened v w0 = insert sfd (opened v w)" using so(2) False by auto
    have ne: "sfd \<noteq> fd" using s(1) op by auto
    have open_eq: "Open_clientfd os w host port = Returned (sfd, w0)" using o False by (simp add: Open_clientfd_def)
    have "writes os v w0 sfd (request_text method host path) (send_request os w0 sfd method host path)"
      by (rule send_request_writes [OF posix(2) len(1,2)])
    then show ?thesis unfolding writes_def
    proof (elim disjE exE conjE)
      assume "send_request os w0 sfd method host path = Some Exited" "\<not> reliable v w0"
      then show ?thesis using open_eq False sparesD(3) [OF so(1)] by (auto simp: handle_miss_def)
    next
      fix w1
      assume w1: "send_request os w0 sfd method host path = Some (Returned w1)" "follows v {sfd} w0 w1"
        "sent v w1 sfd = sent v w0 sfd @ request_text method host path"
      let ?rp = "rio_readinitb sfd"
      let ?bs = "incoming v w1 sfd"
      have left: "rio_left v (?rp, w1) = ?bs" "rio_ok ?rp" "rio_fd ?rp = sfd" by (simp_all add: rio_left_def rio_readinitb_def rio_ok_def)
      have r1: "\<not> reliable v w1 \<Longrightarrow> \<not> reliable v w" using followsD(5) [OF w1(2)] sparesD(3) [OF so(1)] by blast
      have run: "handle_miss os c w fd u method host port path =
          andthen (forward_loop os fd (?rp, w1) 0 []) (\<lambda>(w, total_bytes, response_buf). do {
            c \<leftarrow> cache_store c u total_bytes response_buf;
            andthen (Some (Close os w sfd)) (\<lambda>w. andthen (Some (Close os w fd)) (\<lambda>w. Some (Returned (c, w))))
          })"
        using open_eq False w1(1) by (simp add: handle_miss_def)
      have b: "0 + int (length (rio_left v (?rp, w1))) < 2 ^ 31" using len(3) [of w1 sfd] unfolding left(1) by simp
      have z: "(0 :: int) \<le> MAX_OBJECT_SIZE \<longrightarrow> int (length ([] :: string)) = 0" by simp
      from forward_loop_stream [OF posix(1,2) ne left(2,3) order.refl z b] show ?thesis
      proof (elim disjE exE conjE)
        assume "forward_loop os fd (?rp, w1) 0 [] = Some Exited" "\<not> reliable v w1"
        then show ?thesis using run r1 by simp
      next
        fix w2 rb
        assume "forward_loop os fd (?rp, w1) 0 [] = Some (Returned (w2, 0 + int (length (rio_left v (?rp, w1))), rb))"
          and w2': "follows v {fd, sfd} w1 w2" "sent v w2 fd = sent v w1 fd @ rio_left v (?rp, w1)" "sent v w2 sfd = sent v w1 sfd"
          and "0 + int (length (rio_left v (?rp, w1))) \<le> MAX_OBJECT_SIZE \<longrightarrow> rb = [] @ rio_left v (?rp, w1)"
        then have w2: "forward_loop os fd (?rp, w1) 0 [] = Some (Returned (w2, int (length ?bs), rb))" "sent v w2 fd = sent v w1 fd @ ?bs"
            "int (length ?bs) \<le> MAX_OBJECT_SIZE \<Longrightarrow> rb = ?bs" by (simp_all add: left)
        obtain c' where c': "cache_store c u (int (length ?bs)) rb = Some c'" "cache_holds c' (store_item u ?bs its)"
          using cache_store_holds [OF c w2(3)] by blast
        have r2: "\<not> reliable v w2 \<Longrightarrow> \<not> reliable v w" using followsD(5) [OF w2'(1)] r1 by blast
        have o2: "opened v w2 = insert sfd (opened v w)" using followsD(3) [OF w2'(1)] followsD(3) [OF w1(2)] s(2) by simp
        have s2: "sent v w2 fd = sent v w fd @ ?bs"
          using w2(2) followsD(2) [OF w1(2), of fd] sparesD(2) [OF so(1), of fd] op ne by simp
        from Close_sockets [OF posix(3), of w2 sfd] show ?thesis
        proof (elim disjE exE conjE)
          assume "Close os w2 sfd = Exited" "\<not> reliable v w2"
          then show ?thesis using run w2(1) c'(1) r2 by simp
        next
          fix w3
          assume w3: "Close os w2 sfd = Returned w3" "spares v {sfd} w2 w3" "sent v w3 sfd = sent v w2 sfd" "opened v w3 = opened v w2 - {sfd}"
          have r3: "\<not> reliable v w3 \<Longrightarrow> \<not> reliable v w" using sparesD(3) [OF w3(2)] r2 by blast
          from Close_sockets [OF posix(3), of w3 fd] show ?thesis
          proof (elim disjE exE conjE)
            assume "Close os w3 fd = Exited" "\<not> reliable v w3"
            then show ?thesis using run w2(1) c'(1) w3(1) r3 by simp
          next
            fix w4
            assume w4: "Close os w3 fd = Returned w4" "spares v {fd} w3 w4" "sent v w4 fd = sent v w3 fd" "opened v w4 = opened v w3 - {fd}"
            have "handle_miss os c w fd u method host port path = Some (Returned (c', w4))" using run w2(1) c'(1) w3(1) w4(1) by simp
            moreover have "sent v w4 sfd = sent v w1 sfd" using sparesD(2) [OF w4(2), of sfd] w3(3) w2'(3) ne by simp
            moreover have "sent v w4 fd = sent v w fd @ ?bs" using w4(3) sparesD(2) [OF w3(2), of fd] s2 ne by simp
            moreover have "opened v w4 = opened v w - {fd}" using w4(4) w3(4) o2 s(1) by auto
            ultimately show ?thesis using o s(1) w1(1,3) c'(2)
              by (intro disjI1 exI [of _ c'] exI [of _ w4] exI [of _ w0] exI [of _ sfd] exI [of _ w1] conjI)
          qed
        qed
      qed
    qed
  qed
qed

text \<open>At the end of the input each round of the loop over the headers succeeds and leads to another one with the same line.\<close>

primrec header_rounds :: "'w os \<Rightarrow> nat \<Rightarrow> 'w headers \<Rightarrow> ('w headers + (rio_t \<times> 'w) \<times> string \<times> string) outcome option" where
  "header_rounds os 0 st = Some (Returned (Inl st))"
| "header_rounds os (Suc n) st = andthen (header_rounds os n st) (\<lambda>r. case r of Inl st \<Rightarrow> header_round os st | Inr x \<Rightarrow> Some (Returned (Inr x)))"

definition stuck :: "'w view \<Rightarrow> string \<Rightarrow> string \<Rightarrow> string \<Rightarrow> 'w headers \<Rightarrow> bool" where
  "stuck v buf host port st \<longleftrightarrow> (case st of ((rp, w), buf', host', port') \<Rightarrow>
     rio_ok rp \<and> reliable v w \<and> rio_left v (rp, w) = [] \<and> buf' = buf \<and> host' = host \<and> port' = port)"

lemma stuck_round:
  assumes posix: "posix_read os v" and line: "c_string buf = Some line" "line \<noteq> CRLF" "line \<noteq> [LF]" "\<not> is_host_header line"
    and st: "stuck v buf host port st"
  shows "\<exists>st'. header_round os st = Some (Returned (Inl st')) \<and> stuck v buf host port st'"
proof -
  obtain rp w where e: "st = ((rp, w), buf, host, port)" and r: "rio_ok rp" "reliable v w" "rio_left v (rp, w) = []"
    using st by (cases st) (auto simp: stuck_def)
  obtain rp' w' where n: "Rio_readlineb os (rp, w) MAXLINE = Some (Returned (0, [], rp', w'))" "rio_ok rp'" "rio_left v (rp', w') = []"
      "reliable v w'"
    using Rio_readlineb_stream [OF posix r(1), of w] r(2,3) rio_along_reliable [of v rp w] by auto
  then show ?thesis using line by (simp add: e stuck_def overwrite_def)
qed

lemma stuck_rounds:
  assumes "posix_read os v" "c_string buf = Some line" "line \<noteq> CRLF" "line \<noteq> [LF]" "\<not> is_host_header line" "stuck v buf host port st"
  shows "\<exists>st'. header_rounds os n st = Some (Returned (Inl st')) \<and> stuck v buf host port st'"
proof (induction n)
  case (Suc n)
  then obtain st' where "header_rounds os n st = Some (Returned (Inl st'))" "stuck v buf host port st'" by blast
  with stuck_round [OF assms(1-5), of host port st'] show ?case by auto
qed (use assms(6) in simp)

text \<open>A loop each of whose rounds leads to another one does not return.\<close>

lemma header_loop_ends:
  "header_loop os st = Some x \<Longrightarrow> \<exists>n r. header_rounds os n st = Some r \<and> (\<forall>st'. r \<noteq> Returned (Inl st'))"
proof (induction os st x rule: header_loop.raw_induct [rotated 1, consumes 1, case_names rec])
  case (rec f os st x)
  obtain r where r: "header_round os st = Some r" using rec(2) by (cases "header_round os st") auto
  have first: "header_rounds os (Suc 0) st = Some r" by (simp add: r)
  have shift: "header_rounds os (Suc n) st = header_rounds os n st'" if "header_round os st = Some (Returned (Inl st'))" for n st'
    by (induction n) (simp_all add: that)
  show ?case
  proof (cases "\<exists>st'. r = Returned (Inl st')")
    case True
    then obtain st' where st': "header_round os st = Some (Returned (Inl st'))" using r by auto
    then have "f os st' = Some x" using rec(2) by simp
    from rec(1) [OF this] shift [OF st'] show ?thesis by metis
  qed (use first in blast)
qed

end
