(* ===== verification/ProxyProps.thy ===== *)
theory ProxyProps
  imports ProxySession RioProps
begin

text \<open>
  The properties of the proxy: what the cache does over any sequence of requests, one request that hits and one that misses,
  and a client that leaves early. The network of \<open>RioProps\<close> serves as the concrete system.
\<close>

subsection \<open>The cache over many requests\<close>

definition empty_cache :: cache_t where
  "empty_cache = cache_init \<lparr>head = NULL, tail = NULL, total_size = 0, blocks = (\<lambda>_. None), objects = (\<lambda>_. None), fresh = 1\<rparr>"

text \<open>The code of the handler around the cache, for a URL and the response that the origin would give.\<close>

definition cache_serve :: "cache_t \<Rightarrow> string \<times> string \<Rightarrow> (string \<times> cache_t) option" where
  "cache_serve c q = do {
     (p, c) \<leftarrow> cache_lookup c (fst q);
     if p \<noteq> NULL then do {
       b \<leftarrow> blocks c p;
       bs \<leftarrow> objects c (data b);
       Some (take (nat (block_size b)) bs, c)
     } else do {
       c \<leftarrow> cache_store c (fst q) (int (length (snd q))) (take (nat MAX_OBJECT_SIZE) (snd q));
       Some (snd q, c)
     }
   }"

primrec cache_serves :: "cache_t \<Rightarrow> (string \<times> string) list \<Rightarrow> (string list \<times> cache_t) option" where
  "cache_serves c [] = Some ([], c)"
| "cache_serves c (q # qs) = do {
     (a, c) \<leftarrow> cache_serve c q;
     (as, c) \<leftarrow> cache_serves c qs;
     Some (a # as, c)
   }"

definition serve_items :: "string \<times> string \<Rightarrow> item list \<Rightarrow> string \<times> item list" where
  "serve_items q its =
     (case find_item (fst q) its of
        Some i \<Rightarrow> (bytes i, mark_first (fst q) its)
      | None \<Rightarrow> (snd q, store_item (fst q) (snd q) its))"

lemma cache_serve_holds:
  assumes "cache_holds c its"
  shows "\<exists>c'. cache_serve c q = Some (fst (serve_items q its), c') \<and> cache_holds c' (snd (serve_items q its))"
proof (cases "find_item (fst q) its")
  case None
  have "cache_lookup c (fst q) = Some (NULL, c)" using cache_lookup_holds [OF assms, of "fst q"] None by simp
  moreover obtain c' where "cache_store c (fst q) (int (length (snd q))) (take (nat MAX_OBJECT_SIZE) (snd q)) = Some c'"
      "cache_holds c' (store_item (fst q) (snd q) its)"
    using cache_store_holds [OF assms, of "snd q" "take (nat MAX_OBJECT_SIZE) (snd q)" "fst q"] by auto
  ultimately show ?thesis using None by (simp add: cache_serve_def serve_items_def)
next
  case (Some i)
  then show ?thesis using cache_lookup_holds [OF assms, of "fst q"] by (auto simp: cache_serve_def serve_items_def)
qed

definition origin_of :: "item \<Rightarrow> string \<times> string" where
  "origin_of i = (key i, bytes i)"

lemma clock_origin: "origin_of ` set (clock need its) \<subseteq> origin_of ` set its"
proof (induction need its rule: clock.induct)
  case (1 need its)
  show ?case
  proof (cases "weight its + need > MAX_CACHE_SIZE \<and> its \<noteq> []")
    case True
    let ?js = "if mark (last its) then (last its)\<lparr>mark := False\<rparr> # butlast its else butlast its"
    have "origin_of ` set ?js \<subseteq> origin_of ` set its"
      using True by (auto simp: origin_of_def dest: in_set_butlastD)
    moreover have "clock need its = clock need ?js" using True by (subst clock.simps) simp
    ultimately show ?thesis using "1.IH" [OF True] by auto
  next
    case False
    have "clock need its = its" by (subst clock.simps) (rule if_not_P [OF False])
    then show ?thesis by simp
  qed
qed

lemma clock_keys: "distinct (map key its) \<Longrightarrow> distinct (map key (clock need its))"
proof (induction need its rule: clock.induct)
  case (1 need its)
  show ?case
  proof (cases "weight its + need > MAX_CACHE_SIZE \<and> its \<noteq> []")
    case True
    then obtain js i where its: "its = js @ [i]" by (cases its rule: rev_cases) auto
    have "clock need its = clock need (if mark (last its) then (last its)\<lparr>mark := False\<rparr> # butlast its else butlast its)"
      using True by (subst clock.simps) simp
    then show ?thesis using "1.IH" [OF True] "1.prems" by (auto simp: its)
  next
    case False
    have "clock need its = its" by (subst clock.simps) (rule if_not_P [OF False])
    then show ?thesis using "1.prems" by simp
  qed
qed

lemma mark_first_origin [simp]: "map origin_of (mark_first u its) = map origin_of its" "map key (mark_first u its) = map key its"
  by (induction its) (auto simp: origin_of_def)

lemma serve_items_origin:
  assumes "origin_of ` set its \<subseteq> Q" "distinct (map key its)"
  shows "(fst q, fst (serve_items q its)) \<in> insert q Q" "origin_of ` set (snd (serve_items q its)) \<subseteq> insert q Q"
    "distinct (map key (snd (serve_items q its)))"
proof -
  show "(fst q, fst (serve_items q its)) \<in> insert q Q"
    using assms(1) by (cases q) (auto simp: serve_items_def find_item_def find_Some_iff origin_of_def image_subset_iff split: option.splits)
  have m: "origin_of ` set (mark_first u its) = origin_of ` set its" for u by (metis list.set_map mark_first_origin(1))
  show "origin_of ` set (snd (serve_items q its)) \<subseteq> insert q Q"
  proof -
    have "origin_of ` set (clock (int (length (snd q))) its) \<subseteq> Q" using assms(1) clock_origin by blast
    moreover have "origin_of (new_item (fst q) (snd q)) = q" by (simp add: origin_of_def new_item_def)
    ultimately show ?thesis using assms(1) by (auto simp: serve_items_def store_item_def m split: option.splits)
  qed
  show "distinct (map key (snd (serve_items q its)))"
  proof (cases "find_item (fst q) its")
    case None
    then have "fst q \<notin> key ` set its" by (auto simp: find_item_def find_None_iff)
    moreover have "key ` set (clock n its) \<subseteq> key ` set its" for n
      using clock_origin [of n its] by (force simp: origin_of_def image_iff subset_iff)
    ultimately show ?thesis using None clock_keys [OF assms(2)] assms(2) by (auto simp: serve_items_def store_item_def new_item_def)
  qed (use assms(2) in \<open>simp add: serve_items_def\<close>)
qed

lemma cache_serves_holds:
  "cache_holds c its \<Longrightarrow> origin_of ` set its \<subseteq> Q \<Longrightarrow> distinct (map key its) \<Longrightarrow>
   \<exists>as c' its'. cache_serves c qs = Some (as, c') \<and> cache_holds c' its' \<and> distinct (map key its') \<and> length as = length qs \<and>
     (\<forall>k<length qs. (fst (qs ! k), as ! k) \<in> Q \<union> set (take (Suc k) qs))"
proof (induction qs arbitrary: c its Q)
  case Nil
  then show ?case by auto
next
  case (Cons q qs)
  obtain c1 where s: "cache_serve c q = Some (fst (serve_items q its), c1)" "cache_holds c1 (snd (serve_items q its))"
    using cache_serve_holds [OF Cons.prems(1)] by blast
  note o = serve_items_origin [OF Cons.prems(2,3), of q]
  obtain as c' its' where r: "cache_serves c1 qs = Some (as, c')" "cache_holds c' its'" "distinct (map key its')" "length as = length qs"
      "\<forall>k<length qs. (fst (qs ! k), as ! k) \<in> insert q Q \<union> set (take (Suc k) qs)"
    using Cons.IH [OF s(2) o(2,3)] by blast
  have "\<forall>k<length (q # qs). (fst ((q # qs) ! k), (fst (serve_items q its) # as) ! k) \<in> Q \<union> set (take (Suc k) (q # qs))"
  proof (intro allI impI)
    fix k
    assume "k < length (q # qs)"
    then show "(fst ((q # qs) ! k), (fst (serve_items q its) # as) ! k) \<in> Q \<union> set (take (Suc k) (q # qs))"
      using o(1) r(5) by (cases k) auto
  qed
  then show ?case using s(1) r(1-4) by (intro exI [of _ "fst (serve_items q its) # as"] exI [of _ c'] exI [of _ its']) simp
qed

lemma empty_holds: "cache_holds empty_cache []"
  by (simp add: cache_holds_def within_def cache_rep_def links_def owns_def empty_cache_def cache_init_def MAX_CACHE_SIZE_def)

lemma cache_holds_size: "cache_holds c its \<Longrightarrow> total_size c = weight its"
  by (auto simp: cache_holds_def cache_rep_def owns_def)

text \<open>C7: Over any sequence of requests the cache never uses a freed block or leaves an array, keeps at most \<open>MAX_CACHE_SIZE\<close> bytes with one block per URL and its count of bytes exact, and answers every request with the response to this or an earlier request for the same URL.\<close>

theorem cache_serves_correct:
  "\<exists>as c its. cache_serves empty_cache qs = Some (as, c) \<and> cache_holds c its \<and> distinct (map key its) \<and>
     total_size c = weight its \<and> total_size c \<le> MAX_CACHE_SIZE \<and> length as = length qs \<and>
     (\<forall>k<length qs. \<exists>j\<le>k. fst (qs ! j) = fst (qs ! k) \<and> as ! k = snd (qs ! j))"
proof -
  obtain as c its where r: "cache_serves empty_cache qs = Some (as, c)" "cache_holds c its" "distinct (map key its)" "length as = length qs"
      "\<forall>k<length qs. (fst (qs ! k), as ! k) \<in> {} \<union> set (take (Suc k) qs)"
    using cache_serves_holds [OF empty_holds, of "{}" qs] by auto
  have w: "total_size c = weight its" "total_size c \<le> MAX_CACHE_SIZE"
    using cache_holds_size [OF r(2)] r(2) by (auto simp: cache_holds_def within_def)
  have "\<exists>j\<le>k. fst (qs ! j) = fst (qs ! k) \<and> as ! k = snd (qs ! j)" if k: "k < length qs" for k
  proof -
    have "(fst (qs ! k), as ! k) \<in> set (take (Suc k) qs)" using r(5) k by simp
    then obtain j where "j < length (take (Suc k) qs)" "take (Suc k) qs ! j = (fst (qs ! k), as ! k)" by (meson in_set_conv_nth)
    then show ?thesis by (intro exI [of _ j]) auto
  qed
  then show ?thesis using r w by blast
qed

theorem cache_serves_witness:
  "\<exists>as c. cache_serves empty_cache [(''h:80/a'', ''one''), (''h:80/b'', ''two''), (''h:80/a'', ''three'')] = Some (as, c) \<and>
     as ! 2 \<in> {''one'', ''three''} \<and> as ! 1 = ''two''"
proof -
  let ?qs = "[(''h:80/a'', ''one''), (''h:80/b'', ''two''), (''h:80/a'', ''three'')] :: (string \<times> string) list"
  obtain as c where r: "cache_serves empty_cache ?qs = Some (as, c)"
      "\<forall>k<length ?qs. \<exists>j\<le>k. fst (?qs ! j) = fst (?qs ! k) \<and> as ! k = snd (?qs ! j)"
    using cache_serves_correct [of ?qs] by blast
  have "as ! 1 = ''two''" "as ! 2 \<in> {''one'', ''three''}"
    using r(2) [rule_format, of 1] r(2) [rule_format, of 2] by (auto simp: le_Suc_eq numeral_2_eq_2)
  then show ?thesis using r(1) by blast
qed

text \<open>C23: The eviction ends with room for the new response, and it drops a block that has been used since it was last passed over only when every block that has not is gone.\<close>

theorem eviction_second_chance:
  assumes "cache_holds c its" "0 \<le> need" "need \<le> MAX_OBJECT_SIZE"
  shows "\<exists>c' its'. evict_loop c need = Some c' \<and> cache_holds c' its' \<and> total_size c' + need \<le> MAX_CACHE_SIZE \<and>
    origin_of ` set its' \<subseteq> origin_of ` set its \<and>
    (key ` {i\<in>set its. mark i} \<subseteq> key ` set its' \<or> origin_of ` set its' \<subseteq> origin_of ` {i\<in>set its. mark i})"
proof -
  obtain xs where xs: "cache_rep c xs" "items xs = its" "within its" using assms(1) by (auto simp: cache_holds_def)
  obtain c' xs' where e: "evict_loop c need = Some c'" "cache_rep c' xs'" "items xs' = clock need its"
    using evict_loop_rep [OF assms(2,3) xs(1)] xs(2,3) by auto
  have h: "cache_holds c' (clock need its)" using e(2,3) clock_within [OF xs(3)] unfolding cache_holds_def by blast
  have "need \<le> MAX_CACHE_SIZE" using assms(3) by (simp add: MAX_OBJECT_SIZE_def MAX_CACHE_SIZE_def)
  then have "total_size c' + need \<le> MAX_CACHE_SIZE" using cache_holds_size [OF h] clock_fits by simp
  moreover have "key ` {i\<in>set its. mark i} \<subseteq> key ` set (clock need its) \<or> origin_of ` set (clock need its) \<subseteq> origin_of ` {i\<in>set its. mark i}"
  proof -
    have o: "origin_of (i\<lparr>mark := False\<rparr>) = origin_of i" for i by (simp add: origin_of_def)
    have "key ` {i\<in>set its. mark i} \<subseteq> key ` set (clock need its) \<or> set (clock need its) \<subseteq> (\<lambda>i. i\<lparr>mark := False\<rparr>) ` {i\<in>set its. mark i}"
      using clock_second_chance [of "[]" its need] by simp
    then show ?thesis
    proof
      assume "set (clock need its) \<subseteq> (\<lambda>i. i\<lparr>mark := False\<rparr>) ` {i\<in>set its. mark i}"
      from image_mono [OF this, of origin_of] show ?thesis by (simp add: image_image o)
    qed blast
  qed
  ultimately show ?thesis using e(1) h clock_origin [of need its]
    by (intro exI [of _ c'] exI [of _ "clock need its"] conjI)
qed

theorem eviction_second_chance_witness:
  "\<exists>c'. evict_loop empty_cache 102400 = Some c' \<and> total_size c' + 102400 \<le> 1049000"
  using eviction_second_chance [OF empty_holds, of 102400] by (auto simp: MAX_OBJECT_SIZE_def MAX_CACHE_SIZE_def)

subsection \<open>One request\<close>

text \<open>C15: A request for a URL in the cache is answered with the bytes that were kept for it, in full and on that connection only, no other connection is opened, and the block is marked as used.\<close>

theorem proxy_hit_serves:
  assumes "posix_read os v" "posix_write os v" "posix_sockets os v" "cache_holds c its"
    "request_of (incoming v w fd) = Some (method, host, port, path)" "find_item (request_url host port path) its = Some i"
  shows "(\<exists>c' w'. handle_client os c w fd = Some (Returned (c', w')) \<and> cache_holds c' (mark_first (request_url host port path) its) \<and>
      sent v w' fd = sent v w fd @ bytes i \<and> (\<forall>g. g \<noteq> fd \<longrightarrow> sent v w' g = sent v w g) \<and> opened v w' = opened v w - {fd}) \<or>
    (handle_client os c w fd = Some Exited \<and> \<not> reliable v w)"
proof -
  obtain p c1 b where l: "cache_lookup c (request_url host port path) = Some (p, c1)" "p \<noteq> NULL"
      "cache_holds c1 (mark_first (request_url host port path) its)" "blocks c1 p = Some b" "objects c1 (data b) = Some (bytes i)"
      "block_size b = int (length (bytes i))"
    using cache_lookup_holds [OF assms(4), of "request_url host port path"] assms(6) by auto
  from read_request_run [OF assms(1,5)] show ?thesis
  proof (elim disjE exE conjE)
    fix w1
    assume q: "read_request os w fd = Some (Returned (method, host, port, path, w1))" and w1: "follows v {fd} w w1" "sent v w1 fd = sent v w fd"
    have run: "handle_client os c w fd = do {
        (temp, c) \<leftarrow> cache_lookup c (request_url host port path);
        if temp \<noteq> NULL then
          andthen (serve_from_cache os c w1 fd temp) (\<lambda>w. andthen (Some (Close os w fd)) (\<lambda>w. Some (Returned (c, w))))
        else handle_miss os c w1 fd (request_url host port path) method host port path
      }" by (simp add: handle_client_def q Let_def)
    from handle_hit [OF assms(2,3) l(4-6), of w1 fd] show ?thesis
    proof (elim disjE exE conjE)
      fix w2
      assume w2: "andthen (serve_from_cache os c1 w1 fd p) (\<lambda>w. andthen (Some (Close os w fd)) (\<lambda>w. Some (Returned (c1, w)))) = Some (Returned (c1, w2))"
        "sent v w2 fd = sent v w1 fd @ bytes i" "opened v w2 = opened v w1 - {fd}" "spares v {fd} w1 w2"
      have "\<forall>g. g \<noteq> fd \<longrightarrow> sent v w2 g = sent v w g" using sparesD(2) [OF w2(4)] followsD(2) [OF w1(1)] by simp
      then show ?thesis using run l(1-3) w1(2) w2(1-3) followsD(3) [OF w1(1)] by (intro disjI1 exI [of _ c1] exI [of _ w2]) simp
    qed (use run l(1,2) followsD(5) [OF w1(1)] in auto)
  qed (simp add: handle_client_def)
qed

text \<open>C8: For any other request the proxy reads the request (which leads to \<open>wr\<close>), opens a connection \<open>sfd\<close> that was not in use
  (\<open>w0\<close>), sends one request to the origin (\<open>w1\<close>), forwards to the client all of the answer that comes in then, whatever
  its size and however it is cut into pieces, keeps it in the cache when it has at most 100 KiB, and closes both connections. The origin
  can be reached, method, path and host fit into the lines of the request, and answers are shorter than 2 GiB, which is what the
  counter of the code holds.\<close>

theorem proxy_miss_forwards:
  assumes "posix_read os v" "posix_write os v" "posix_sockets os v" "cache_holds c its" "fd \<in> opened v w"
    "request_of (incoming v w fd) = Some (method, host, port, path)" "find_item (request_url host port path) its = None"
    "length method + length path + 12 < MAXLINE" "length host + 8 < MAXLINE" "\<And>w g. int (length (incoming v w g)) < 2 ^ 31"
    "\<forall>wr. read_request os w fd = Some (Returned (method, host, port, path, wr)) \<longrightarrow> 0 \<le> fst (open_clientfd os wr host port)"
  shows "(\<exists>wr sfd w0 w1 c' w'. read_request os w fd = Some (Returned (method, host, port, path, wr)) \<and>
      follows v {fd} w wr \<and> sent v wr fd = sent v w fd \<and> open_clientfd os wr host port = (sfd, w0) \<and> 0 \<le> sfd \<and> sfd \<notin> opened v w \<and>
      send_request os w0 sfd method host path = Some (Returned w1) \<and> sent v w1 sfd = sent v w0 sfd @ request_text method host path \<and>
      handle_client os c w fd = Some (Returned (c', w')) \<and>
      sent v w' sfd = sent v w1 sfd \<and> sent v w' fd = sent v w fd @ incoming v w1 sfd \<and>
      cache_holds c' (store_item (request_url host port path) (incoming v w1 sfd) its) \<and> opened v w' = opened v w - {fd}) \<or>
    (handle_client os c w fd = Some Exited \<and> \<not> reliable v w)"
proof -
  let ?u = "request_url host port path"
  have l: "cache_lookup c ?u = Some (NULL, c)" using cache_lookup_holds [OF assms(4), of ?u] assms(7) by simp
  from read_request_run [OF assms(1,6)] show ?thesis
  proof (elim disjE exE conjE)
    fix wr
    assume q: "read_request os w fd = Some (Returned (method, host, port, path, wr))" and w1: "follows v {fd} w wr" "sent v wr fd = sent v w fd"
    have run: "handle_client os c w fd = handle_miss os c wr fd ?u method host port path" by (simp add: handle_client_def q Let_def l)
    have op: "opened v wr = opened v w" using followsD(3) [OF w1(1)] .
    have fd: "fd \<in> opened v wr" using op assms(5) by simp
    have reach: "0 \<le> fst (open_clientfd os wr host port)" using assms(11) q by blast
    from handle_miss_forwards [OF assms(1-4,8-10) fd, of ?u port] show ?thesis
    proof (elim disjE [of "Ex _"] exE conjE)
      fix c' w' w0 sfd w2
      assume h: "handle_miss os c wr fd ?u method host port path = Some (Returned (c', w'))" "open_clientfd os wr host port = (sfd, w0)"
        "sfd \<notin> opened v wr" "send_request os w0 sfd method host path = Some (Returned w2)"
        "sent v w2 sfd = sent v w0 sfd @ request_text method host path" "sent v w' sfd = sent v w2 sfd"
        "sent v w' fd = sent v wr fd @ incoming v w2 sfd" "cache_holds c' (store_item ?u (incoming v w2 sfd) its)"
        "opened v w' = opened v wr - {fd}"
      have "0 \<le> sfd" using reach h(2) by simp
      moreover have "handle_client os c w fd = Some (Returned (c', w'))" using run h(1) by simp
      ultimately show ?thesis using q w1 h(2-9) [unfolded op w1(2)]
        by - (rule disjI1, rule exI [of _ wr], rule exI [of _ sfd], rule exI [of _ w0], rule exI [of _ w2],
            rule exI [of _ c'], rule exI [of _ w'], simp)
    next
      assume "handle_miss os c wr fd ?u method host port path = Some Exited" "\<not> reliable v wr \<or> fst (open_clientfd os wr host port) < 0"
      then show ?thesis unfolding run using followsD(5) [OF w1(1)] reach by auto
    qed
  qed (simp add: handle_client_def)
qed

lemma net_posix_sockets: "posix_sockets net_os net_view"
  unfolding posix_sockets_def by (auto simp: follows_def spares_def inputs_def split: if_splits)

lemma net_inputs_short: "int (length (incoming net_view w fd)) < 2 ^ 31"
proof -
  have "length (net_script fd) < 100" by (simp add: net_script_def)
  then show ?thesis by (simp add: inputs_def)
qed

lemma demo_request_of: "request_of (incoming net_view demo_net 4) = Some (''GET'', ''h'', ''80'', ''/a'')"
proof -
  let ?l = "''GET http://h/a HTTP/1.0'' @ [CHR 0x0D, LF]"
  have i: "incoming net_view demo_net 4 = ?l @ [CHR 0x0D, LF]" by (simp add: inputs_def demo_net_def net_script_def)
  have l: "line_prefix (MAXLINE - 1) (incoming net_view demo_net 4) = ?l"
    using line_prefix_LF [of "''GET http://h/a HTTP/1.0'' @ [CHR 0x0D]" "MAXLINE - 1" "[CHR 0x0D, LF]"] unfolding i by (simp add: MAXLINE_def LF_def)
  have l1: "line_prefix (MAXLINE - 1) [CHR 0x0D, LF] = [CHR 0x0D, LF]"
    using line_prefix_LF [of "[CHR 0x0D]" "MAXLINE - 1" "[]"] by (simp add: MAXLINE_def LF_def)
  have d: "drop (length ?l) (incoming net_view demo_net 4) = [CHR 0x0D, LF]" unfolding i by simp
  have sr: "scan_request (to_nul ?l) = Some (''GET'', ''http://h/a'')" by (simp add: scan_request_def scan_word_def isspace_def LF_def NUL_def)
  have pu: "parse_uri ''http://h/a'' = (''h'', ''80'', ''/a'')" by (simp add: parse_uri_def split_host_def)
  have nn: "LF \<noteq> NUL" "CHR 0x0D \<noteq> NUL" by (simp_all add: LF_def NUL_def)
  have sh: "spec_headers [CHR 0x0D, LF] [] ''h'' ''80'' = Some (''h'', ''80'')"
    by (subst spec_headers.simps) (simp add: CRLF_def NUL_def LF_def)
  show ?thesis unfolding request_of_def l Let_def d l1 sr Option.bind_lunit by (simp add: pu sh nn)
qed

definition demo_items :: "item list" where
  "demo_items = [new_item ''h:80/a'' ''kept'']"

definition demo_cache :: cache_t where
  "demo_cache = the (cache_store empty_cache ''h:80/a'' 4 ''kept'')"

lemma demo_holds: "cache_holds demo_cache demo_items"
proof -
  obtain c' where "cache_store empty_cache ''h:80/a'' (int (length ''kept'')) ''kept'' = Some c'" "cache_holds c' (store_item ''h:80/a'' ''kept'' [])"
    using cache_store_holds [OF empty_holds, of "''kept''" "''kept''" "''h:80/a''"] by blast
  moreover have "store_item ''h:80/a'' ''kept'' [] = demo_items"
    by (simp add: store_item_def demo_items_def clock_done MAX_OBJECT_SIZE_def MAX_CACHE_SIZE_def)
  ultimately show ?thesis by (simp add: demo_cache_def)
qed

lemma demo_url: "request_url ''h'' ''80'' ''/a'' = ''h:80/a''"
  by (simp add: request_url_def MAXLINE_def)

theorem proxy_hit_witness:
  "\<exists>c' w'. handle_client net_os demo_cache demo_net 4 = Some (Returned (c', w')) \<and> outputs w' 4 = ''kept'' \<and> fds w' = {3, 5}"
proof -
  have "find_item (request_url ''h'' ''80'' ''/a'') demo_items = Some (new_item ''h:80/a'' ''kept'')"
    by (simp add: find_item_def demo_url demo_items_def new_item_def)
  from proxy_hit_serves [OF net_posix_read net_posix_write net_posix_sockets demo_holds demo_request_of this]
  show ?thesis by (auto simp: demo_net_def new_item_def)
qed

lemma demo_reachable: "follows net_view {4} demo_net w0 \<Longrightarrow> open_clientfd net_os w0 host port = (9, w0\<lparr>fds := insert 9 (fds w0)\<rparr>)"
proof -
  assume "follows net_view {4} demo_net w0"
  then have "9 \<notin> fds w0" by (simp add: follows_def demo_net_def)
  then show ?thesis by (simp add: open_clientfd_def)
qed

text \<open>Writing does not change what arrives on this network.\<close>

lemma net_write_taken: "net_write w fd bs = (k, w') \<Longrightarrow> taken w' = taken w"
  by (auto simp: net_write_def Let_def split: list.splits nat.splits)

lemma writen_loop_taken: "writen_loop net_os fd w bs = Some x \<Longrightarrow> taken (snd x) = taken w"
proof (induction "net_os" fd w bs x rule: writen_loop.raw_induct [rotated 1, consumes 1, case_names rec])
  case (rec f fd w bs x)
  obtain k w1 where k: "net_write w fd bs = (k, w1)" by (cases "net_write w fd bs")
  show ?case using rec net_write_taken [OF k] k by (auto split: if_splits)
qed

lemma Rio_writen_taken: "Rio_writen net_os w fd bs = Some (Returned w') \<Longrightarrow> taken w' = taken w"
  by (auto simp: Rio_writen_def rio_writen_def split: if_splits elim!: bind_SomeE dest: writen_loop_taken)

lemma andthen_Some: "andthen x f = Some (Returned y) \<Longrightarrow> \<exists>a. x = Some (Returned a) \<and> f a = Some (Returned y)"
  by (auto simp: andthen_def split: outcome.splits elim!: bind_SomeE)

lemma send_request_taken: "send_request net_os w fd method host path = Some (Returned w') \<Longrightarrow> taken w' = taken w"
  unfolding send_request_def by (auto elim!: bind_SomeE dest!: andthen_Some Rio_writen_taken)

theorem proxy_miss_witness:
  "\<exists>c' w'. handle_client net_os empty_cache demo_net 4 = Some (Returned (c', w')) \<and> outputs w' 4 = ''answer'' \<and>
      outputs w' 9 = request_text ''GET'' ''h'' ''/a'' \<and> cache_holds c' (store_item ''h:80/a'' ''answer'' []) \<and> fds w' = {3, 5}"
proof -
  have f: "find_item (request_url ''h'' ''80'' ''/a'') [] = None" by (simp add: find_item_def)
  have o: "4 \<in> opened net_view demo_net" by (simp add: demo_net_def)
  have reach: "\<forall>wr. read_request net_os demo_net 4 = Some (Returned (''GET'', ''h'', ''80'', ''/a'', wr)) \<longrightarrow> 0 \<le> fst (open_clientfd net_os wr ''h'' ''80'')"
    using read_request_run [OF net_posix_read demo_request_of] demo_reachable by auto
  have len: "length ''GET'' + length ''/a'' + 12 < MAXLINE" "length ''h'' + 8 < MAXLINE" by (simp_all add: MAXLINE_def)
  from proxy_miss_forwards [OF net_posix_read net_posix_write net_posix_sockets empty_holds o demo_request_of f len net_inputs_short reach]
  show ?thesis
  proof (elim disjE exE conjE)
    fix wr sfd w0 w1 c' w'
    assume h: "follows net_view {4} demo_net wr" "open_clientfd net_os wr ''h'' ''80'' = (sfd, w0)"
      "send_request net_os w0 sfd ''GET'' ''h'' ''/a'' = Some (Returned w1)"
      "sent net_view w1 sfd = sent net_view w0 sfd @ request_text ''GET'' ''h'' ''/a''"
      "handle_client net_os empty_cache demo_net 4 = Some (Returned (c', w'))" "sent net_view w' sfd = sent net_view w1 sfd"
      "sent net_view w' 4 = sent net_view demo_net 4 @ incoming net_view w1 sfd"
      "cache_holds c' (store_item (request_url ''h'' ''80'' ''/a'') (incoming net_view w1 sfd) [])"
      "opened net_view w' = opened net_view demo_net - {4}"
    have s: "sfd = 9" "w0 = wr\<lparr>fds := insert 9 (fds wr)\<rparr>" using demo_reachable [OF h(1), of "''h''" "''80''"] h(2) by auto
    have a: "incoming net_view wr 9 = incoming net_view demo_net 9" "sent net_view wr 9 = sent net_view demo_net 9"
      using followsD(1,2) [OF h(1), of 9] by simp_all
    have "inputs w1 9 = inputs wr 9" using send_request_taken [OF h(3)] by (simp add: s inputs_def)
    then have b: "incoming net_view w1 9 = ''answer''" using a(1) by (simp add: inputs_def demo_net_def net_script_def)
    have c: "outputs w0 9 = []" using a(2) s(2) by (simp add: demo_net_def)
    have d: "fds demo_net - {4} = {3, 5}" by (auto simp: demo_net_def)
    show ?thesis
      using h(5) h(4,6-9) [unfolded s(1) b demo_url] c d
      by - (rule exI [of _ c'], rule exI [of _ w'], simp, simp add: demo_net_def)
  qed simp
qed

text \<open>When the origin of a request cannot be reached the whole proxy exits, with all connections and the cache: the test of the handler for a failed connection is never reached, since \<open>Open_clientfd\<close> does not return then.\<close>

theorem unreachable_origin_exits:
  assumes "posix_read os v" "cache_holds c its" "request_of (incoming v w fd) = Some (method, host, port, path)"
    "find_item (request_url host port path) its = None" "\<And>w0. follows v {fd} w w0 \<Longrightarrow> fst (open_clientfd os w0 host port) < 0"
  shows "handle_client os c w fd = Some Exited"
proof -
  have l: "cache_lookup c (request_url host port path) = Some (NULL, c)"
    using cache_lookup_holds [OF assms(2), of "request_url host port path"] assms(4) by simp
  from read_request_run [OF assms(1,3)] show ?thesis
  proof (elim disjE exE conjE)
    fix w1
    assume q: "read_request os w fd = Some (Returned (method, host, port, path, w1))" and w1: "follows v {fd} w w1"
    have "Open_clientfd os w1 host port = Exited"
      using assms(5) [OF w1] by (cases "open_clientfd os w1 host port") (simp add: Open_clientfd_def)
    then show ?thesis using l by (simp add: handle_client_def q Let_def handle_miss_def)
  qed (simp add: handle_client_def)
qed

definition dead_os :: "net os" where
  "dead_os = net_os\<lparr>sys_connect := (\<lambda>w fd p. (-1, w))\<rparr>"

theorem unreachable_origin_witness: "handle_client dead_os empty_cache demo_net 4 = Some Exited"
proof -
  have r: "posix_read dead_os net_view"
  proof -
    have "sys_read dead_os = sys_read net_os" "errno dead_os = errno net_os" by (simp_all add: dead_os_def)
    then show ?thesis using net_posix_read unfolding posix_read_def by (simp only: )
  qed
  have f: "find_item (request_url ''h'' ''80'' ''/a'') [] = None" by (simp add: find_item_def)
  have "fst (open_clientfd dead_os w0 ''h'' ''80'') < 0" for w0
    by (simp add: open_clientfd_def dead_os_def)
  then show ?thesis by (rule unreachable_origin_exits [OF r empty_holds demo_request_of f])
qed

text \<open>C22: A client that sends a request line and closes the connection before a blank line makes the handler spin: it reads the
  line, reaches the loop over the headers, and every round of this loop succeeds and leads to one more round, so the handler never
  returns and never fails. The line names a method and a URI and is no \<open>Host\<close> header.\<close>

theorem missing_blank_line_hangs:
  assumes "posix_read os v" "reliable v w" "incoming v w fd = l @ [LF]" "LF \<notin> set l" "length l + 2 < MAXLINE"
    "scan_request (to_nul (l @ [LF])) = Some (method, uri)" "\<not> is_host_header (to_nul (l @ [LF]))"
  shows "(\<exists>path st. read_first_lines os w fd = Some (Returned (method, path, st)) \<and>
      (\<forall>n. \<exists>st'. header_rounds os n st = Some (Returned (Inl st')))) \<and>
    handle_client os c w fd = None"
proof -
  let ?line = "to_nul (l @ [LF])"
  have blank: "?line \<noteq> CRLF" "?line \<noteq> [LF]" using assms(6) by (auto simp: scan_request_def scan_word_def isspace_def CRLF_def LF_def)
  have cs0: "line_prefix (MAXLINE - 1) (l @ [LF]) = l @ [LF]" using line_prefix_LF [OF assms(4), of "MAXLINE - 1" "[]"] assms(5) by simp
  have left0: "rio_left v (rio_readinitb fd, w) = l @ [LF]" using assms(3) by (simp add: rio_left_def rio_readinitb_def)
  obtain rp1 w1 where r1: "Rio_readlineb os (rio_readinitb fd, w) MAXLINE = Some (Returned (int (length (l @ [LF])), (l @ [LF]) @ [NUL], rp1, w1))"
      "rio_ok rp1" "rio_left v (rp1, w1) = []" "reliable v w1"
    using Rio_readlineb_stream [OF assms(1) rio_ok_init, of fd w] assms(2) unfolding left0 cs0 by (auto dest: rio_along_reliable)
  obtain rp2 w2 where r2: "Rio_readlineb os (rp1, w1) MAXLINE = Some (Returned (0, [], rp2, w2))"
      "rio_ok rp2" "rio_left v (rp2, w2) = []" "reliable v w2"
    using Rio_readlineb_stream [OF assms(1) r1(2), of w1] r1(4) unfolding r1(3) by (auto dest: rio_along_reliable)
  let ?buf = "overwrite (overwrite [] ((l @ [LF]) @ [NUL])) []"
  have cstr: "c_string (overwrite [] ((l @ [LF]) @ [NUL])) = Some ?line" by (rule c_string_line)
  then have cstr': "c_string ?buf = Some ?line" by (simp add: overwrite_def)
  obtain host port path where u: "parse_uri uri = (host, port, path)" by (cases "parse_uri uri")
  let ?st = "((rp2, w2), ?buf, host, port)"
  have lines: "read_first_lines os w fd = Some (Returned (method, path, ?st))"
    using r1(1) r2(1) cstr assms(6) u by (simp add: read_first_lines_def Let_def)
  have "stuck v ?buf host port ?st" using r2 by (simp add: stuck_def)
  note rounds = stuck_rounds [OF assms(1) cstr' blank assms(7) this]
  have "header_loop os ?st = None"
  proof (rule ccontr)
    assume "header_loop os ?st \<noteq> None"
    then obtain n r where "header_rounds os n ?st = Some r" "\<forall>st'. r \<noteq> Returned (Inl st')" using header_loop_ends by blast
    then show False using rounds [of n] by auto
  qed
  then have "handle_client os c w fd = None" by (simp add: handle_client_def read_request_def lines)
  then show ?thesis using lines rounds by blast
qed

theorem missing_blank_line_witness:
  "(\<exists>path st. read_first_lines net_os demo_net 5 = Some (Returned (''GET'', path, st)) \<and>
     (\<exists>st'. header_rounds net_os 1000 st = Some (Returned (Inl st')))) \<and> handle_client net_os empty_cache demo_net 5 = None"
proof -
  have i: "incoming net_view demo_net 5 = (''GET http://h/a HTTP/1.0'' @ [CHR 0x0D]) @ [LF]"
    by (simp add: inputs_def demo_net_def net_script_def)
  have "scan_request (to_nul ((''GET http://h/a HTTP/1.0'' @ [CHR 0x0D]) @ [LF])) = Some (''GET'', ''http://h/a'')"
    by (simp add: scan_request_def scan_word_def isspace_def LF_def NUL_def)
  moreover have "\<not> is_host_header (to_nul ((''GET http://h/a HTTP/1.0'' @ [CHR 0x0D]) @ [LF]))"
    by (simp add: is_host_header_def tolower_def NUL_def)
  ultimately show ?thesis
    using missing_blank_line_hangs [OF net_posix_read _ i, of "''GET''" "''http://h/a''" empty_cache]
    by (force simp: MAXLINE_def LF_def)
qed

end
