(* ===== verification/KAlloc.thy ===== *)
theory KAlloc
  imports Bitmap
begin

text \<open>
  The kernel's memory allocators: the page allocator \<open>pintos/threads/palloc.c\<close>, whose pools of pages are bitmaps, and the block
  allocator \<open>pintos/threads/malloc.c\<close> on top of it.

  The contents of memory are bytes; \<open>ram a = None\<close> is a byte whose value the model does not say, because it is uninitialised or
  belongs to the links of a list. The header of an arena is kept as a record under its address, and bytes that are
  written over it destroy it. A free list is the list of the addresses of its blocks, and a pointer to a descriptor its index in
  \<open>descs\<close>. The calls of the allocators take locks, so they are steps that are not interrupted. A failed assertion, a panic
  and an access to a header or descriptor that is not there yield \<open>None\<close>. Sums of sizes wrap around at 64 bits.
\<close>

definition PGSIZE :: nat where "PGSIZE = 2 ^ 12"

definition pg_ofs :: "addr \<Rightarrow> nat" where
  "pg_ofs va = va mod PGSIZE"

definition pg_no :: "addr \<Rightarrow> nat" where
  "pg_no va = va div PGSIZE"

definition pg_round_down :: "addr \<Rightarrow> addr" where
  "pg_round_down va = va - va mod PGSIZE"

definition DIV_ROUND_UP :: "nat \<Rightarrow> nat \<Rightarrow> nat" where
  "DIV_ROUND_UP x step = ((x + step - 1) mod 2 ^ 64) div step"

definition PAL_ASSERT :: "32 word" where "PAL_ASSERT = 1"
definition PAL_ZERO :: "32 word" where "PAL_ZERO = 2"
definition PAL_USER :: "32 word" where "PAL_USER = 4"

record pool =
  used_map :: bitmap
  base :: addr

record desc =
  block_size :: nat
  blocks_per_arena :: nat
  free_list :: "addr list"

definition ARENA_MAGIC :: "32 word" where "ARENA_MAGIC = 0x9a548eed"

record arena =
  magic :: "32 word"
  desc_of :: "nat option"
  free_cnt :: nat

definition ARENA_SIZE :: nat where "ARENA_SIZE = 24"

record memory =
  kernel_pool :: pool
  user_pool :: pool
  ram :: "addr \<Rightarrow> 8 word option"
  arenas :: "addr \<rightharpoonup> arena"
  descs :: "desc list"

text \<open>Writing \<open>n\<close> bytes from \<open>a\<close> on.\<close>

definition write_bytes :: "memory \<Rightarrow> addr \<Rightarrow> nat \<Rightarrow> (nat \<Rightarrow> 8 word option) \<Rightarrow> memory" where
  "write_bytes m a n f = m\<lparr>
     ram := (\<lambda>x. if a \<le> x \<and> x < a + n then f (x - a) else ram m x),
     arenas := (\<lambda>x. if n \<noteq> 0 \<and> x < a + n \<and> a < x + ARENA_SIZE then None else arenas m x)\<rparr>"

definition memset :: "memory \<Rightarrow> addr \<Rightarrow> 8 word \<Rightarrow> nat \<Rightarrow> memory" where
  "memset m a v n = write_bytes m a n (\<lambda>_. Some v)"

definition memcpy :: "memory \<Rightarrow> addr \<Rightarrow> addr \<Rightarrow> nat \<Rightarrow> memory" where
  "memcpy m dst src n = write_bytes m dst n (\<lambda>i. ram m (src + i))"

text \<open>The header of an arena, and the two pointers of a list element, which are bytes of unknown value to a reader of bytes.\<close>

definition put_arena :: "memory \<Rightarrow> addr \<Rightarrow> arena \<Rightarrow> memory" where
  "put_arena m a ar = (write_bytes m a ARENA_SIZE (\<lambda>_. None))\<lparr>arenas := (arenas (write_bytes m a ARENA_SIZE (\<lambda>_. None)))(a \<mapsto> ar)\<rparr>"

definition put_links :: "memory \<Rightarrow> addr \<Rightarrow> memory" where
  "put_links m b = write_bytes m b 16 (\<lambda>_. None)"

subsection \<open>Pages\<close>

definition page_from_pool :: "pool \<Rightarrow> addr \<Rightarrow> bool" where
  "page_from_pool p page = (let page_no = pg_no page; start_page = pg_no (base p); end_page = start_page + bitmap_size (used_map p)
     in page_no \<ge> start_page \<and> page_no < end_page)"

definition set_pool :: "memory \<Rightarrow> bool \<Rightarrow> pool \<Rightarrow> memory" where
  "set_pool m user p = (if user then m\<lparr>user_pool := p\<rparr> else m\<lparr>kernel_pool := p\<rparr>)"

definition palloc_get_multiple :: "memory \<Rightarrow> 32 word \<Rightarrow> nat \<Rightarrow> (addr \<times> memory) option" where
  "palloc_get_multiple m flags page_cnt = do {
     let user = (flags AND PAL_USER \<noteq> 0);
     let pool = (if user then user_pool m else kernel_pool m);
     (bm, page_idx) \<leftarrow> bitmap_scan_and_flip (used_map pool) 0 page_cnt False;
     let m = set_pool m user (pool\<lparr>used_map := bm\<rparr>);
     let pages = (if page_idx \<noteq> BITMAP_ERROR then base pool + PGSIZE * page_idx else NULL);
     if pages \<noteq> NULL
     then Some (pages, if flags AND PAL_ZERO \<noteq> 0 then memset m pages 0 (PGSIZE * page_cnt) else m)
     else if flags AND PAL_ASSERT \<noteq> 0 then None
     else Some (pages, m)
   }"

definition palloc_get_page :: "memory \<Rightarrow> 32 word \<Rightarrow> (addr \<times> memory) option" where
  "palloc_get_page m flags = palloc_get_multiple m flags 1"

definition palloc_free_multiple :: "memory \<Rightarrow> addr \<Rightarrow> nat \<Rightarrow> memory option" where
  "palloc_free_multiple m pages page_cnt = do {
     assert_that (pg_ofs pages = 0);
     if pages = NULL \<or> page_cnt = 0 then Some m
     else do {
       assert_that (page_from_pool (kernel_pool m) pages \<or> page_from_pool (user_pool m) pages);
       let user = (\<not> page_from_pool (kernel_pool m) pages);
       let pool = (if user then user_pool m else kernel_pool m);
       let page_idx = pg_no pages - pg_no (base pool);
       let m = memset m pages 0xcc (PGSIZE * page_cnt);
       all \<leftarrow> bitmap_all (used_map pool) page_idx page_cnt;
       assert_that all;
       bm \<leftarrow> bitmap_set_multiple (used_map pool) page_idx page_cnt False;
       Some (set_pool m user (pool\<lparr>used_map := bm\<rparr>))
     }
   }"

definition palloc_free_page :: "memory \<Rightarrow> addr \<Rightarrow> memory option" where
  "palloc_free_page m page = palloc_free_multiple m page 1"

text \<open>\<open>store\<close> is what the memory for the bitmap contains; the result includes the next free address for a bitmap.\<close>

definition init_pool :: "64 word list \<Rightarrow> addr \<Rightarrow> addr \<Rightarrow> addr \<Rightarrow> (pool \<times> addr) option" where
  "init_pool store bm_base start end_addr = do {
     let pgcnt = (end_addr - start) div PGSIZE;
     let bm_pages = DIV_ROUND_UP (bitmap_buf_size pgcnt) PGSIZE * PGSIZE;
     bm \<leftarrow> bitmap_create_in_buf pgcnt store bm_pages;
     bm \<leftarrow> bitmap_set_all bm True;
     Some (\<lparr>used_map = bm, base = start\<rparr>, bm_base + bm_pages)
   }"

subsection \<open>Blocks\<close>

text \<open>The loop over the block sizes; the list holds the descriptors made so far.\<close>

function malloc_init_loop :: "nat \<Rightarrow> desc list \<Rightarrow> desc list option" where
  "malloc_init_loop bsize ds =
     (if bsize \<noteq> 0 \<and> bsize < PGSIZE div 2 then do {
        assert_that (length ds + 1 \<le> 10);
        malloc_init_loop (bsize * 2) (ds @ [\<lparr>block_size = bsize, blocks_per_arena = (PGSIZE - ARENA_SIZE) div bsize, free_list = []\<rparr>])
      } else Some ds)"
  by pat_completeness auto
termination
  by (relation "measure (\<lambda>(bsize, ds). PGSIZE - bsize)") (auto simp: PGSIZE_def)

declare malloc_init_loop.simps [simp del]

definition malloc_init :: "memory \<Rightarrow> memory option" where
  "malloc_init m = do { ds \<leftarrow> malloc_init_loop 16 []; Some (m\<lparr>descs := ds\<rparr>) }"

definition get_desc :: "memory \<Rightarrow> nat \<Rightarrow> desc option" where
  "get_desc m d = (if d < length (descs m) then Some (descs m ! d) else None)"

definition put_free_list :: "memory \<Rightarrow> nat \<Rightarrow> addr list \<Rightarrow> memory" where
  "put_free_list m d bs = m\<lparr>descs := (descs m)[d := (descs m ! d)\<lparr>free_list := bs\<rparr>]\<rparr>"

text \<open>Subtractions of sizes wrap around.\<close>

definition minus64 :: "nat \<Rightarrow> nat \<Rightarrow> nat" where
  "minus64 x y = (x + 2 ^ 64 - y) mod 2 ^ 64"

definition block_to_arena :: "memory \<Rightarrow> addr \<Rightarrow> (addr \<times> arena) option" where
  "block_to_arena m b = do {
     let a = pg_round_down b;
     assert_that (a \<noteq> NULL);
     ar \<leftarrow> arenas m a;
     assert_that (magic ar = ARENA_MAGIC);
     (case desc_of ar of
        None \<Rightarrow> assert_that (pg_ofs b = ARENA_SIZE)
      | Some d \<Rightarrow> do { x \<leftarrow> get_desc m d; assert_that (minus64 (pg_ofs b) ARENA_SIZE mod block_size x = 0) });
     Some (a, ar)
   }"

definition arena_to_block :: "memory \<Rightarrow> addr \<Rightarrow> nat \<Rightarrow> addr option" where
  "arena_to_block m a idx = do {
     assert_that (a \<noteq> NULL);
     ar \<leftarrow> arenas m a;
     assert_that (magic ar = ARENA_MAGIC);
     d \<leftarrow> desc_of ar;
     x \<leftarrow> get_desc m d;
     assert_that (idx < blocks_per_arena x);
     Some (a + ARENA_SIZE + idx * block_size x)
   }"

text \<open>The blocks of a new arena go to the back of the free list; \<open>n\<close> rounds are left.\<close>

primrec add_blocks :: "memory \<Rightarrow> nat \<Rightarrow> addr \<Rightarrow> nat \<Rightarrow> nat \<Rightarrow> memory option" where
  "add_blocks m d a i 0 = Some m"
| "add_blocks m d a i (Suc n) = do {
     b \<leftarrow> arena_to_block m a i;
     x \<leftarrow> get_desc m d;
     add_blocks (put_free_list (put_links m b) d (free_list x @ [b])) d a (i + 1) n
   }"

text \<open>The smallest descriptor whose blocks are large enough, or the number of descriptors.\<close>

fun find_desc :: "desc list \<Rightarrow> nat \<Rightarrow> nat \<Rightarrow> nat" where
  "find_desc [] d n = d"
| "find_desc (x # xs) d n = (if block_size x \<ge> n then d else find_desc xs (d + 1) n)"

definition malloc :: "memory \<Rightarrow> nat \<Rightarrow> (addr \<times> memory) option" where
  "malloc m n =
     (if n = 0 then Some (NULL, m)
      else let d = find_desc (descs m) 0 n in
        if d = length (descs m) then do {
          let page_cnt = DIV_ROUND_UP ((n + ARENA_SIZE) mod 2 ^ 64) PGSIZE;
          (a, m) \<leftarrow> palloc_get_multiple m 0 page_cnt;
          if a = NULL then Some (NULL, m)
          else Some (a + ARENA_SIZE, put_arena m a \<lparr>magic = ARENA_MAGIC, desc_of = None, free_cnt = page_cnt\<rparr>)
        } else do {
          x \<leftarrow> get_desc m d;
          (ok, m) \<leftarrow>
            (if free_list x = [] then do {
               (a, m) \<leftarrow> palloc_get_page m 0;
               if a = NULL then Some (False, m)
               else do {
                 let m = put_arena m a \<lparr>magic = ARENA_MAGIC, desc_of = Some d, free_cnt = blocks_per_arena x\<rparr>;
                 m \<leftarrow> add_blocks m d a 0 (blocks_per_arena x);
                 Some (True, m)
               }
             } else Some (True, m));
          if \<not> ok then Some (NULL, m)
          else do {
            x \<leftarrow> get_desc m d;
            case free_list x of
              [] \<Rightarrow> None
            | b # bs \<Rightarrow> do {
                let m = put_free_list m d bs;
                (a, ar) \<leftarrow> block_to_arena m b;
                Some (b, m\<lparr>arenas := (arenas m)(a \<mapsto> ar\<lparr>free_cnt := minus64 (free_cnt ar) 1\<rparr>)\<rparr>)
              }
          }
        })"

definition calloc :: "memory \<Rightarrow> nat \<Rightarrow> nat \<Rightarrow> (addr \<times> memory) option" where
  "calloc m a b = do {
     let n = (a * b) mod 2 ^ 64;
     if n < a \<or> n < b then Some (NULL, m)
     else do {
       (p, m) \<leftarrow> malloc m n;
       Some (p, if p \<noteq> NULL then memset m p 0 n else m)
     }
   }"

definition size_of_block :: "memory \<Rightarrow> addr \<Rightarrow> nat option" where
  "size_of_block m b = do {
     (a, ar) \<leftarrow> block_to_arena m b;
     case desc_of ar of
       Some d \<Rightarrow> do { x \<leftarrow> get_desc m d; Some (block_size x) }
     | None \<Rightarrow> Some (minus64 (PGSIZE * free_cnt ar mod 2 ^ 64) (pg_ofs b))
   }"

text \<open>The blocks of an empty arena leave the free list.\<close>

primrec remove_blocks :: "memory \<Rightarrow> nat \<Rightarrow> addr \<Rightarrow> nat \<Rightarrow> nat \<Rightarrow> memory option" where
  "remove_blocks m d a i 0 = Some m"
| "remove_blocks m d a i (Suc n) = do {
     b \<leftarrow> arena_to_block m a i;
     x \<leftarrow> get_desc m d;
     assert_that (b \<in> set (free_list x));
     remove_blocks (put_free_list m d (remove1 b (free_list x))) d a (i + 1) n
   }"

definition free :: "memory \<Rightarrow> addr \<Rightarrow> memory option" where
  "free m p =
     (if p = NULL then Some m
      else do {
        (a, ar) \<leftarrow> block_to_arena m p;
        case desc_of ar of
          Some d \<Rightarrow> do {
            x \<leftarrow> get_desc m d;
            let m = memset m p 0xcc (block_size x);
            let m = put_free_list (put_links m p) d (p # free_list x);
            ar \<leftarrow> arenas m a;
            let ar = ar\<lparr>free_cnt := (free_cnt ar + 1) mod 2 ^ 64\<rparr>;
            let m = m\<lparr>arenas := (arenas m)(a \<mapsto> ar)\<rparr>;
            if free_cnt ar \<ge> blocks_per_arena x then do {
              assert_that (free_cnt ar = blocks_per_arena x);
              m \<leftarrow> remove_blocks m d a 0 (blocks_per_arena x);
              palloc_free_page m a
            } else Some m
          }
        | None \<Rightarrow> palloc_free_multiple m a (free_cnt ar)
      })"

definition realloc :: "memory \<Rightarrow> addr \<Rightarrow> nat \<Rightarrow> (addr \<times> memory) option" where
  "realloc m old_block new_size =
     (if new_size = 0 then do { m \<leftarrow> free m old_block; Some (NULL, m) }
      else do {
        (new_block, m) \<leftarrow> malloc m new_size;
        if old_block \<noteq> NULL \<and> new_block \<noteq> NULL then do {
          old_size \<leftarrow> size_of_block m old_block;
          let min_size = (if new_size < old_size then new_size else old_size);
          m \<leftarrow> free (memcpy m new_block old_block min_size) old_block;
          Some (new_block, m)
        } else Some (new_block, m)
      })"

end
