(* ===== verification/KAllocPages.thy ===== *)
theory KAllocPages
  imports KAlloc
begin

text \<open>
  The page allocator of \<open>KAlloc\<close>: a pool as the set of the bytes in its used pages, and what getting and freeing pages
  does to this set.
\<close>

lemma PGSIZE_val: "PGSIZE = 4096"
  by (simp add: PGSIZE_def)

definition pool_range :: "pool \<Rightarrow> addr set" where
  "pool_range p = {base p ..< base p + PGSIZE * bit_cnt (used_map p)}"

definition taken :: "pool \<Rightarrow> addr set" where
  "taken p = {x \<in> pool_range p. bm_list (used_map p) ! ((x - base p) div PGSIZE)}"

definition pool_wf :: "pool \<Rightarrow> bool" where
  "pool_wf p \<longleftrightarrow> bm_wf (used_map p) \<and> base p mod PGSIZE = 0 \<and> 0 < base p \<and> base p + PGSIZE * bit_cnt (used_map p) \<le> 2 ^ 64"

text \<open>A group of \<open>n\<close> pages from \<open>a\<close> on, as bytes.\<close>

abbreviation pages :: "addr \<Rightarrow> nat \<Rightarrow> addr set" where
  "pages a n \<equiv> {a ..< a + PGSIZE * n}"

lemma page_index: "x < PGSIZE * n \<longleftrightarrow> x div PGSIZE < n" for x n :: nat
  by (simp add: PGSIZE_val div_less_iff_less_mult mult.commute)

lemma pages_index:
  assumes "base p \<le> x"
  shows "x \<in> pages (base p + PGSIZE * i) n \<longleftrightarrow> i \<le> (x - base p) div PGSIZE \<and> (x - base p) div PGSIZE < i + n"
proof -
  have "x \<in> pages (base p + PGSIZE * i) n \<longleftrightarrow> PGSIZE * i \<le> x - base p \<and> x - base p < PGSIZE * (i + n)"
    using assms by (auto simp: distrib_left)
  then show ?thesis by (simp add: page_index linorder_not_less [symmetric])
qed

lemma nth_set_range:
  assumes "start + cnt \<le> length xs" "j < length xs"
  shows "set_range xs start cnt v ! j = (if start \<le> j \<and> j < start + cnt then v else xs ! j)"
  using assms by (auto simp: set_range_def nth_append)

text \<open>Changing the bits of a group of pages.\<close>

lemma taken_change:
  assumes p: "pool_wf p" and i: "i + n \<le> bit_cnt (used_map p)"
    and bm: "bm_wf bm" "bit_cnt bm = bit_cnt (used_map p)" "bm_list bm = set_range (bm_list (used_map p)) i n v"
  defines "a \<equiv> base p + PGSIZE * i"
  shows "pool_wf (p\<lparr>used_map := bm\<rparr>)" "pool_range (p\<lparr>used_map := bm\<rparr>) = pool_range p" "pages a n \<subseteq> pool_range p"
    "taken (p\<lparr>used_map := bm\<rparr>) = (if v then taken p \<union> pages a n else taken p - pages a n)"
proof -
  show "pool_wf (p\<lparr>used_map := bm\<rparr>)" using p bm by (simp add: pool_wf_def)
  show r: "pool_range (p\<lparr>used_map := bm\<rparr>) = pool_range p" by (simp add: pool_range_def bm)
  have "PGSIZE * i + PGSIZE * n \<le> PGSIZE * bit_cnt (used_map p)"
    using mult_le_mono2 [OF i, of PGSIZE] by (simp add: distrib_left)
  then show s: "pages a n \<subseteq> pool_range p" by (auto simp: pool_range_def a_def)
  have "x \<in> taken (p\<lparr>used_map := bm\<rparr>) \<longleftrightarrow> x \<in> (if v then taken p \<union> pages a n else taken p - pages a n)" if x: "x \<in> pool_range p" for x
  proof -
    have b: "base p \<le> x" and j: "(x - base p) div PGSIZE < bit_cnt (used_map p)"
      using x by (auto simp: pool_range_def page_index [symmetric])
    have "bm_list bm ! ((x - base p) div PGSIZE) = (if x \<in> pages a n then v else bm_list (used_map p) ! ((x - base p) div PGSIZE))"
      unfolding a_def using j i by (simp only: pages_index [OF b] bm(3)) (subst nth_set_range, simp_all)
    then show ?thesis using x r by (auto simp: taken_def)
  qed
  moreover have "taken (p\<lparr>used_map := bm\<rparr>) \<subseteq> pool_range p" "taken p \<subseteq> pool_range p" using r by (auto simp: taken_def)
  ultimately show "taken (p\<lparr>used_map := bm\<rparr>) = (if v then taken p \<union> pages a n else taken p - pages a n)"
    using s by (auto split: if_splits)
qed

text \<open>Bits of a group of pages that agree.\<close>

lemma run_of_pages:
  assumes p: "pool_wf p" and i: "i + n \<le> bit_cnt (used_map p)"
  shows "run_of (used_map p) i n v \<longleftrightarrow> (if v then pages (base p + PGSIZE * i) n \<subseteq> taken p else pages (base p + PGSIZE * i) n \<inter> taken p = {})"
proof -
  have in_range: "x \<in> pool_range p" if "x \<in> pages (base p + PGSIZE * i) n" for x
    using taken_change(3) [OF p i, of "used_map p" "undefined"] that mult_le_mono2 [OF i, of PGSIZE]
    by (auto simp: pool_range_def distrib_left)
  have to: "bm_list (used_map p) ! ((x - base p) div PGSIZE) = w" if "run_of (used_map p) i n w" "x \<in> pages (base p + PGSIZE * i) n" for x w
  proof -
    have "base p \<le> x" using that(2) by simp
    from pages_index [OF this] that show ?thesis by (auto simp: run_of_def)
  qed
  have from_page: "bm_list (used_map p) ! j \<longleftrightarrow> base p + PGSIZE * j \<in> taken p" "base p + PGSIZE * j \<in> pages (base p + PGSIZE * i) n"
    if "i \<le> j" "j < i + n" for j
  proof -
    show "base p + PGSIZE * j \<in> pages (base p + PGSIZE * i) n"
      using that pages_index [of p "base p + PGSIZE * j" i n] by (simp add: PGSIZE_val)
    from in_range [OF this] show "bm_list (used_map p) ! j \<longleftrightarrow> base p + PGSIZE * j \<in> taken p" by (simp add: taken_def PGSIZE_val)
  qed
  show ?thesis
  proof (cases v)
    case True
    have "run_of (used_map p) i n True \<longleftrightarrow> pages (base p + PGSIZE * i) n \<subseteq> taken p"
    proof
      assume "run_of (used_map p) i n True"
      from to [OF this] in_range show "pages (base p + PGSIZE * i) n \<subseteq> taken p" by (auto simp: taken_def)
    next
      assume "pages (base p + PGSIZE * i) n \<subseteq> taken p"
      then show "run_of (used_map p) i n True" using from_page i unfolding run_of_def by auto
    qed
    then show ?thesis using True by simp
  next
    case False
    have "run_of (used_map p) i n False \<longleftrightarrow> pages (base p + PGSIZE * i) n \<inter> taken p = {}"
    proof
      assume r: "run_of (used_map p) i n False"
      have "x \<notin> taken p" if "x \<in> pages (base p + PGSIZE * i) n" for x
        using to [OF r that] by (simp only: taken_def mem_Collect_eq) simp
      then show "pages (base p + PGSIZE * i) n \<inter> taken p = {}" by blast
    next
      assume t: "pages (base p + PGSIZE * i) n \<inter> taken p = {}"
      have "bm_list (used_map p) ! j = False" if "j \<in> {i..<i + n}" for j
      proof -
        have j: "i \<le> j" "j < i + n" using that by simp_all
        from from_page(2) [OF j] t have "base p + PGSIZE * j \<notin> taken p" by (metis disjoint_iff)
        then show ?thesis using from_page(1) [OF j] by simp
      qed
      then show "run_of (used_map p) i n False" using i by (simp only: run_of_def) simp
    qed
    then show ?thesis using False by simp
  qed
qed

text \<open>Looking for \<open>n\<close> free pages.\<close>

definition has_room :: "pool \<Rightarrow> nat \<Rightarrow> bool" where
  "has_room p n \<longleftrightarrow> (\<exists>i. i + n \<le> bit_cnt (used_map p) \<and> pages (base p + PGSIZE * i) n \<inter> taken p = {})"

lemma pool_get:
  assumes p: "pool_wf p"
  obtains (found) bm i where "bitmap_scan_and_flip (used_map p) 0 n False = Some (bm, i)" "i \<noteq> BITMAP_ERROR"
      "pool_wf (p\<lparr>used_map := bm\<rparr>)" "pool_range (p\<lparr>used_map := bm\<rparr>) = pool_range p"
      "pages (base p + PGSIZE * i) n \<subseteq> pool_range p" "pages (base p + PGSIZE * i) n \<inter> taken p = {}"
      "taken (p\<lparr>used_map := bm\<rparr>) = taken p \<union> pages (base p + PGSIZE * i) n" "has_room p n"
  | (full) "bitmap_scan_and_flip (used_map p) 0 n False = Some (used_map p, BITMAP_ERROR)" "\<not> has_room p n"
proof -
  have wf: "bm_wf (used_map p)" using p by (simp add: pool_wf_def)
  obtain bm i where e: "bitmap_scan_and_flip (used_map p) 0 n False = Some (bm, i)" and bm: "bm_wf bm" "bit_cnt bm = bit_cnt (used_map p)"
    and r: "if \<exists>j\<ge>0. run_of (used_map p) j n False
       then 0 \<le> i \<and> run_of (used_map p) i n False \<and> (\<forall>j. 0 \<le> j \<and> j < i \<longrightarrow> \<not> run_of (used_map p) j n False)
         \<and> bm_list bm = set_range (bm_list (used_map p)) i n (\<not> False)
       else i = BITMAP_ERROR \<and> bm = used_map p"
    using bitmap_scan_and_flip_correct [OF wf, of 0 n False] by auto
  have "run_of (used_map p) j n False \<longleftrightarrow> j + n \<le> bit_cnt (used_map p) \<and> pages (base p + PGSIZE * j) n \<inter> taken p = {}" for j
    using run_of_pages [OF p, of j n False] by (cases "j + n \<le> bit_cnt (used_map p)") (simp_all add: run_of_def)
  then have room: "has_room p n \<longleftrightarrow> (\<exists>j. run_of (used_map p) j n False)" by (simp add: has_room_def)
  show thesis
  proof (cases "\<exists>j. run_of (used_map p) j n False")
    case True
    with r have run: "run_of (used_map p) i n False" and l: "bm_list bm = set_range (bm_list (used_map p)) i n True" by auto
    then have i: "i + n \<le> bit_cnt (used_map p)" by (simp add: run_of_def)
    then have "i \<noteq> BITMAP_ERROR" using wf by (auto simp: bm_wf_def BITMAP_ERROR_def)
    note c = taken_change [OF p i bm l]
    show thesis
      by (rule found [OF e \<open>i \<noteq> BITMAP_ERROR\<close> c(1-3)]) (use run run_of_pages [OF p i, of False] c(4) room True in auto)
  next
    case False
    with r e room show thesis by (intro full) auto
  qed
qed

text \<open>Giving a group of pages back.\<close>

lemma pool_put:
  assumes p: "pool_wf p" and a: "a mod PGSIZE = 0" and n: "0 < n" and t: "pages a n \<subseteq> taken p"
  defines "i \<equiv> pg_no a - pg_no (base p)"
  obtains bm where "page_from_pool p a" "bitmap_all (used_map p) i n = Some True" "bitmap_set_multiple (used_map p) i n False = Some bm"
    "pool_wf (p\<lparr>used_map := bm\<rparr>)" "pool_range (p\<lparr>used_map := bm\<rparr>) = pool_range p"
    "taken (p\<lparr>used_map := bm\<rparr>) = taken p - pages a n"
proof -
  have wf: "bm_wf (used_map p)" using p by (simp add: pool_wf_def)
  have "a \<in> pages a n" "a + (PGSIZE * n - 1) \<in> pages a n" using n by (auto simp: PGSIZE_val)
  then have "a \<in> taken p" "a + (PGSIZE * n - 1) \<in> taken p" using t by blast+
  then have r: "a \<in> pool_range p" "a + (PGSIZE * n - 1) \<in> pool_range p" by (auto simp: taken_def)
  obtain x y where x: "a = PGSIZE * x" and y: "base p = PGSIZE * y" using a p by (auto simp: pool_wf_def mod_eq_0_iff_dvd dvd_def)
  have xy: "y \<le> x" "x + n \<le> y + bit_cnt (used_map p)" using r n by (auto simp: pool_range_def x y PGSIZE_val)
  have i: "i = x - y" by (simp add: i_def pg_no_def x y PGSIZE_val)
  have ai: "a = base p + PGSIZE * i" using xy by (simp add: i x y diff_mult_distrib2)
  have le: "i + n \<le> bit_cnt (used_map p)" using xy i by simp
  have "run_of (used_map p) i n True" using run_of_pages [OF p le, of True] t ai by simp
  then have all: "bitmap_all (used_map p) i n = Some True"
    using le wf by (simp add: bitmap_all_def bitmap_contains_run run_of_has_bit)
  obtain bm where bm: "bitmap_set_multiple (used_map p) i n False = Some bm" "bm_wf bm" "bit_cnt bm = bit_cnt (used_map p)"
    "bm_list bm = set_range (bm_list (used_map p)) i n False"
    using bitmap_set_multiple_run [OF wf le, of False] by blast
  have "page_from_pool p a" using xy n by (simp add: page_from_pool_def pg_no_def x y PGSIZE_val bitmap_size_def)
  then show thesis
    by (rule that [OF _ all bm(1)]) (use taken_change [OF p le bm(2-4)] ai in auto)
qed

subsection \<open>The calls\<close>

abbreviation pool_of :: "memory \<Rightarrow> bool \<Rightarrow> pool" where
  "pool_of m user \<equiv> (if user then user_pool m else kernel_pool m)"

lemma set_pool_fields [simp]:
  "ram (set_pool m user p) = ram m" "arenas (set_pool m user p) = arenas m" "descs (set_pool m user p) = descs m"
  "pool_of (set_pool m user p) user = p" "pool_of (set_pool m user p) (\<not> user) = pool_of m (\<not> user)"
  by (simp_all add: set_pool_def)

lemma write_bytes_fields [simp]:
  "kernel_pool (write_bytes m a n f) = kernel_pool m" "user_pool (write_bytes m a n f) = user_pool m" "descs (write_bytes m a n f) = descs m"
  by (simp_all add: write_bytes_def)

lemma page_from_pool_range:
  assumes "page_from_pool p a" "pool_wf p"
  shows "a \<in> pool_range p"
proof -
  obtain y where "base p = PGSIZE * y" using assms(2) by (auto simp: pool_wf_def mod_eq_0_iff_dvd dvd_def)
  then show ?thesis using assms(1) by (auto simp: page_from_pool_def pool_range_def pg_no_def PGSIZE_val bitmap_size_def Let_def)
qed

text \<open>\<open>got\<close>: \<open>p'\<close> is the pool \<open>p\<close> with \<open>n\<close> more pages in use.\<close>

definition got :: "pool \<Rightarrow> pool \<Rightarrow> addr \<Rightarrow> nat \<Rightarrow> bool" where
  "got p p' a n \<longleftrightarrow> pool_wf p' \<and> pool_range p' = pool_range p \<and> 0 < a \<and> a mod PGSIZE = 0 \<and> pages a n \<subseteq> pool_range p \<and>
     pages a n \<inter> taken p = {} \<and> taken p' = taken p \<union> pages a n"

definition gave :: "pool \<Rightarrow> pool \<Rightarrow> addr \<Rightarrow> nat \<Rightarrow> bool" where
  "gave p p' a n \<longleftrightarrow> pool_wf p' \<and> pool_range p' = pool_range p \<and> taken p' = taken p - pages a n"

lemma palloc_get:
  assumes p: "pool_wf (pool_of m user)" and u: "user \<longleftrightarrow> flags AND PAL_USER \<noteq> 0"
  obtains (found) a p' where "got (pool_of m user) p' a n" "has_room (pool_of m user) n"
      "palloc_get_multiple m flags n =
         Some (a, let m' = set_pool m user p' in if flags AND PAL_ZERO \<noteq> 0 then memset m' a 0 (PGSIZE * n) else m')"
  | (full) "\<not> has_room (pool_of m user) n"
      "palloc_get_multiple m flags n = (if flags AND PAL_ASSERT \<noteq> 0 then None else Some (NULL, m))"
  using p
proof (cases rule: pool_get [where n = n])
  case (found bm i)
  let ?p = "pool_of m user"
  have b: "0 < base ?p + PGSIZE * i" "(base ?p + PGSIZE * i) mod PGSIZE = 0" using p by (auto simp: pool_wf_def)
  then have "got ?p (?p\<lparr>used_map := bm\<rparr>) (base ?p + PGSIZE * i) n" using found unfolding got_def by blast
  moreover have "palloc_get_multiple m flags n = Some (base ?p + PGSIZE * i,
      let m' = set_pool m user (?p\<lparr>used_map := bm\<rparr>) in
      if flags AND PAL_ZERO \<noteq> 0 then memset m' (base ?p + PGSIZE * i) 0 (PGSIZE * n) else m')"
    using b(1) found(1,2) unfolding palloc_get_multiple_def u [symmetric] Let_def by simp
  ultimately show thesis using found(8) that(1) by blast
next
  case full
  have same: "set_pool m True (user_pool m) = m" "set_pool m False (kernel_pool m) = m" by (simp_all add: set_pool_def)
  have "palloc_get_multiple m flags n = (if flags AND PAL_ASSERT \<noteq> 0 then None else Some (NULL, m))"
    using full(1) unfolding palloc_get_multiple_def u [symmetric] Let_def by (simp add: same)
  then show thesis using full(2) that(2) by blast
qed

lemma palloc_free:
  assumes k: "pool_wf (kernel_pool m)" "pool_wf (user_pool m)" "pool_range (kernel_pool m) \<inter> pool_range (user_pool m) = {}"
    and a: "a mod PGSIZE = 0" "0 < n" "pages a n \<subseteq> taken (pool_of m user)"
  obtains p' where "gave (pool_of m user) p' a n"
    "palloc_free_multiple m a n = Some (set_pool (memset m a 0xcc (PGSIZE * n)) user p')"
proof -
  let ?p = "pool_of m user"
  have wf: "pool_wf ?p" using k by simp
  have r: "a \<in> pool_range ?p"
  proof -
    have "a \<in> pages a n" using a(2) by (simp add: PGSIZE_val)
    then have "a \<in> taken ?p" using a(3) by blast
    then show ?thesis by (simp add: taken_def)
  qed
  have nz: "a \<noteq> NULL" using r wf by (auto simp: pool_range_def pool_wf_def)
  obtain bm where bm: "page_from_pool ?p a" "bitmap_all (used_map ?p) (pg_no a - pg_no (base ?p)) n = Some True"
    "bitmap_set_multiple (used_map ?p) (pg_no a - pg_no (base ?p)) n False = Some bm"
    "pool_wf (?p\<lparr>used_map := bm\<rparr>)" "pool_range (?p\<lparr>used_map := bm\<rparr>) = pool_range ?p"
    "taken (?p\<lparr>used_map := bm\<rparr>) = taken ?p - pages a n"
    using pool_put [OF wf a] by blast
  have which: "page_from_pool (kernel_pool m) a \<longleftrightarrow> \<not> user"
    using bm(1) r k page_from_pool_range by (cases user) auto
  have up: "user \<longrightarrow> page_from_pool (user_pool m) a" using bm(1) by (auto split: if_splits)
  have "palloc_free_multiple m a n = Some (set_pool (memset m a 0xcc (PGSIZE * n)) user (?p\<lparr>used_map := bm\<rparr>))"
    using a nz bm(1-3) which up unfolding palloc_free_multiple_def Let_def by (simp add: pg_ofs_def split del: if_split cong: if_cong)
  moreover have "gave ?p (?p\<lparr>used_map := bm\<rparr>) a n" using bm(4-6) unfolding gave_def by blast
  ultimately show thesis using that by blast
qed

text \<open>A pool when it is made: all of its pages are in use, and the memory for the bitmap is large enough.\<close>

lemma round_up_covers: "x + PGSIZE \<le> 2 ^ 64 \<Longrightarrow> x \<le> DIV_ROUND_UP x PGSIZE * PGSIZE"
proof -
  assume "x + PGSIZE \<le> 2 ^ 64"
  then have "(x + PGSIZE - 1) mod 2 ^ 64 = x + PGSIZE - 1" by (simp add: PGSIZE_val)
  moreover have "x \<le> (x + PGSIZE - 1) div PGSIZE * PGSIZE"
    using mod_mult_div_eq [of "x + PGSIZE - 1" PGSIZE] mod_less_divisor [of PGSIZE "x + PGSIZE - 1"]
    by (simp add: PGSIZE_val mult.commute)
  ultimately show ?thesis by (simp add: DIV_ROUND_UP_def)
qed

lemma init_pool_run:
  assumes "start mod PGSIZE = 0" "0 < start" "start \<le> end_addr" "end_addr \<le> 2 ^ 64" "(end_addr - start) div PGSIZE < 2 ^ 32 - 1"
    and "length store = elem_cnt ((end_addr - start) div PGSIZE)"
  shows "\<exists>p bm'. init_pool store bm_base start end_addr = Some (p, bm') \<and> pool_wf p \<and> base p = start \<and>
    bit_cnt (used_map p) = (end_addr - start) div PGSIZE \<and> taken p = pool_range p"
proof -
  let ?n = "(end_addr - start) div PGSIZE"
  let ?b = "\<lparr>bit_cnt = ?n, bits = store\<rparr>"
  have wf: "bm_wf ?b" using assms(5,6) by (simp add: bm_wf_def)
  have "elem_cnt ?n \<le> ?n + 1" by (simp add: elem_cnt_def ELEM_BITS_def)
  then have "bitmap_buf_size ?n + PGSIZE \<le> 2 ^ 64" using assms(5) by (simp add: bitmap_buf_size_def byte_cnt_def PGSIZE_val)
  note cover = round_up_covers [OF this]
  obtain b1 where b1: "bitmap_set_all ?b False = Some b1" "bm_wf b1" "bit_cnt b1 = ?n" using bitmap_set_all_run [OF wf, of False] by auto
  obtain b2 where b2: "bitmap_set_all b1 True = Some b2" "bm_wf b2" "bit_cnt b2 = ?n" "bm_list b2 = replicate ?n True"
    using bitmap_set_all_run [OF b1(2), of True] b1(3) by auto
  let ?p = "\<lparr>used_map = b2, base = start\<rparr>"
  have run: "init_pool store bm_base start end_addr = Some (?p, bm_base + DIV_ROUND_UP (bitmap_buf_size ?n) PGSIZE * PGSIZE)"
    using cover b1(1) b2(1) by (simp add: init_pool_def bitmap_create_in_buf_def Let_def)
  have "start + PGSIZE * ?n \<le> end_addr" using assms(3) by (metis add.commute le_diff_conv2 mult.commute div_times_less_eq_dividend)
  then have "pool_wf ?p" using assms b2 by (simp add: pool_wf_def)
  moreover have "taken ?p = pool_range ?p"
    using b2(3,4) by (auto simp: taken_def pool_range_def page_index [symmetric] less_diff_conv2)
  ultimately show ?thesis using run b2(3) by auto
qed

end
