(* ===== verification/KAllocInv.thy ===== *)
theory KAllocInv
  imports KAllocPages
begin

text \<open>
  The invariant of the kernel's allocators. \<open>layout\<close>: the arenas and the groups of pages that other parts of the kernel hold are
  regions of used pages that do not overlap. \<open>slabs\<close>: the free lists hold blocks of arenas, once each, and every arena
  counts its free blocks. \<open>live\<close> is the map from the blocks in use to their sizes.
\<close>

subsection \<open>Block sizes\<close>

definition BS :: "nat \<Rightarrow> nat" where
  "BS d = 2 ^ (d + 4)"

definition BPA :: "nat \<Rightarrow> nat" where
  "BPA d = (PGSIZE - ARENA_SIZE) div BS d"

definition block_at :: "addr \<Rightarrow> nat \<Rightarrow> nat \<Rightarrow> addr" where
  "block_at a d j = a + ARENA_SIZE + j * BS d"

lemma BS_pos [simp]: "0 < BS d" "BS d \<noteq> 0" "16 \<le> BS d"
  by (simp_all add: BS_def power_add)

lemma BPA_pos: "d < 7 \<Longrightarrow> 0 < BPA d"
proof -
  assume "d < 7"
  then have "BS d \<le> 2 ^ 10" unfolding BS_def by (intro power_increasing) auto
  then show ?thesis by (simp add: BPA_def PGSIZE_val ARENA_SIZE_def div_greater_zero_iff)
qed

lemma BPA_bound: "BPA d \<le> 254"
proof -
  have "BPA d \<le> (PGSIZE - ARENA_SIZE) div 16" unfolding BPA_def by (rule div_le_mono2) simp_all
  then show ?thesis by (simp add: PGSIZE_val ARENA_SIZE_def)
qed

lemma slot_fits: "j < BPA d \<Longrightarrow> ARENA_SIZE + j * BS d + BS d \<le> PGSIZE"
proof -
  assume "j < BPA d"
  then have "j + 1 \<le> BPA d" by simp
  then have "(j + 1) * BS d \<le> BPA d * BS d" by (rule mult_le_mono1)
  also have "\<dots> \<le> PGSIZE - ARENA_SIZE" unfolding BPA_def by simp
  finally show ?thesis by (simp add: PGSIZE_val ARENA_SIZE_def)
qed

lemma block_at_page:
  assumes "a mod PGSIZE = 0" "j < BPA d"
  shows "pg_round_down (block_at a d j) = a" "pg_ofs (block_at a d j) = ARENA_SIZE + j * BS d"
proof -
  have lt: "ARENA_SIZE + j * BS d < PGSIZE" using slot_fits [OF assms(2)] BS_pos(3) [of d] by linarith
  have "(a + (ARENA_SIZE + j * BS d)) mod PGSIZE = (a mod PGSIZE + (ARENA_SIZE + j * BS d)) mod PGSIZE"
    by (rule mod_add_left_eq [symmetric])
  also have "\<dots> = ARENA_SIZE + j * BS d" using assms(1) lt by simp
  finally have "(a + (ARENA_SIZE + j * BS d)) mod PGSIZE = ARENA_SIZE + j * BS d" .
  then show "pg_ofs (block_at a d j) = ARENA_SIZE + j * BS d" "pg_round_down (block_at a d j) = a"
    by (simp_all add: pg_ofs_def pg_round_down_def block_at_def add.assoc)
qed

lemma big_page:
  assumes "a mod PGSIZE = 0"
  shows "pg_round_down (a + ARENA_SIZE) = a" "pg_ofs (a + ARENA_SIZE) = ARENA_SIZE"
proof -
  have "(a + ARENA_SIZE) mod PGSIZE = (a mod PGSIZE + ARENA_SIZE) mod PGSIZE" by (rule mod_add_left_eq [symmetric])
  also have "\<dots> = ARENA_SIZE" using assms by (simp add: PGSIZE_val ARENA_SIZE_def)
  finally have "(a + ARENA_SIZE) mod PGSIZE = ARENA_SIZE" .
  then show "pg_ofs (a + ARENA_SIZE) = ARENA_SIZE" "pg_round_down (a + ARENA_SIZE) = a" by (simp_all add: pg_ofs_def pg_round_down_def)
qed

lemma block_at_inj [simp]: "block_at a d j = block_at a d i \<longleftrightarrow> j = i"
  by (simp add: block_at_def)

lemma block_at_eq:
  assumes "block_at a d j = block_at b e i" "a mod PGSIZE = 0" "b mod PGSIZE = 0" "j < BPA d" "i < BPA e"
  shows "a = b"
  using block_at_page(1) [OF assms(2,4)] block_at_page(1) [OF assms(3,5)] assms(1) by simp

subsection \<open>Regions\<close>

definition extent :: "arena \<Rightarrow> nat" where
  "extent ar = (case desc_of ar of None \<Rightarrow> free_cnt ar | Some d \<Rightarrow> 1)"

definition region :: "(addr \<rightharpoonup> arena) \<Rightarrow> (addr \<rightharpoonup> nat) \<Rightarrow> addr \<rightharpoonup> nat" where
  "region H G a = (case H a of Some ar \<Rightarrow> Some (extent ar) | None \<Rightarrow> G a)"

definition layout :: "(addr \<rightharpoonup> nat) \<Rightarrow> pool \<Rightarrow> pool \<Rightarrow> (addr \<rightharpoonup> arena) \<Rightarrow> bool" where
  "layout G k u H \<longleftrightarrow> pool_wf k \<and> pool_wf u \<and> pool_range k \<inter> pool_range u = {} \<and>
     (\<forall>a n. region H G a = Some n \<longrightarrow> 0 < n \<and> a mod PGSIZE = 0 \<and> (pages a n \<subseteq> taken k \<or> pages a n \<subseteq> taken u)) \<and>
     (\<forall>a n b l. region H G a = Some n \<longrightarrow> region H G b = Some l \<longrightarrow> a \<noteq> b \<longrightarrow> pages a n \<inter> pages b l = {}) \<and>
     (\<forall>a ar. H a = Some ar \<longrightarrow> G a = None \<and> pages a (extent ar) \<subseteq> taken k)"

lemma layout_pools: "layout G k u H \<Longrightarrow> pool_wf k \<and> pool_wf u \<and> pool_range k \<inter> pool_range u = {}"
  by (simp add: layout_def)

lemma layout_region:
  "layout G k u H \<Longrightarrow> region H G a = Some n \<Longrightarrow> 0 < n \<and> a mod PGSIZE = 0 \<and> (pages a n \<subseteq> taken k \<or> pages a n \<subseteq> taken u)"
  by (simp add: layout_def)

lemma layout_apart:
  "layout G k u H \<Longrightarrow> region H G a = Some n \<Longrightarrow> region H G b = Some l \<Longrightarrow> a \<noteq> b \<Longrightarrow> pages a n \<inter> pages b l = {}"
  unfolding layout_def by blast

lemma layout_arena: "layout G k u H \<Longrightarrow> H a = Some ar \<Longrightarrow> G a = None \<and> pages a (extent ar) \<subseteq> taken k"
  unfolding layout_def by blast

lemma region_arena: "H a = Some ar \<Longrightarrow> region H G a = Some (extent ar)"
  by (simp add: region_def)

lemma region_group: "layout G k u H \<Longrightarrow> G a = Some n \<Longrightarrow> region H G a = Some n"
  using layout_arena [of G k u H a] by (cases "H a") (auto simp: region_def)

lemma arena_aligned: "layout G k u H \<Longrightarrow> H a = Some ar \<Longrightarrow> a mod PGSIZE = 0 \<and> 0 < extent ar"
  using layout_region region_arena by blast

lemma arena_range: "layout G k u H \<Longrightarrow> H a = Some ar \<Longrightarrow> 0 < a \<and> a + PGSIZE * extent ar \<le> 2 ^ 64"
proof -
  assume l: "layout G k u H" and a: "H a = Some ar"
  have "pages a (extent ar) \<subseteq> pool_range k" using layout_arena [OF l a] by (auto simp: taken_def)
  moreover have "a \<in> pages a (extent ar)" "a + (PGSIZE * extent ar - 1) \<in> pages a (extent ar)"
    using arena_aligned [OF l a] by (auto simp: PGSIZE_val)
  ultimately have "a \<in> pool_range k" "a + (PGSIZE * extent ar - 1) \<in> pool_range k" by blast+
  moreover have "0 < PGSIZE * extent ar" using arena_aligned [OF l a] by (simp add: PGSIZE_val)
  ultimately show ?thesis using layout_pools [OF l] by (auto simp: pool_range_def pool_wf_def)
qed

text \<open>A page that was not in use belongs to no region.\<close>

lemma fresh_region:
  assumes l: "layout G k u H" and g: "got p p' a n" and p: "p = k \<or> p = u" and r: "region H G b = Some e"
  shows "pages a n \<inter> pages b e = {}"
proof -
  have "pages b e \<subseteq> taken k \<or> pages b e \<subseteq> taken u" using layout_region [OF l r] by blast
  moreover have "taken k \<subseteq> pool_range k" "taken u \<subseteq> pool_range u" by (auto simp: taken_def)
  ultimately show ?thesis using p g layout_pools [OF l] unfolding got_def by fastforce
qed

lemma fresh_region_None:
  assumes "layout G k u H" "got p p' a n" "p = k \<or> p = u" "0 < n"
  shows "region H G a = None"
proof (cases "region H G a")
  case (Some e)
  have "a \<in> pages a n" "a \<in> pages a e" using assms(4) layout_region [OF assms(1) Some] by (auto simp: PGSIZE_val)
  then show ?thesis using fresh_region [OF assms(1-3) Some] by blast
qed simp

text \<open>Headers that bytes \<open>p, ..., p + l - 1\<close> do not overlap.\<close>

definition wiped :: "(addr \<rightharpoonup> arena) \<Rightarrow> addr \<Rightarrow> nat \<Rightarrow> addr \<rightharpoonup> arena" where
  "wiped H p l = (\<lambda>x. if l \<noteq> 0 \<and> x < p + l \<and> p < x + ARENA_SIZE then None else H x)"

lemma arenas_write_bytes [simp]: "arenas (write_bytes m p l f) = wiped (arenas m) p l"
  by (simp add: write_bytes_def wiped_def)

lemma wiped_same: "(\<And>x ar. H x = Some ar \<Longrightarrow> l \<noteq> 0 \<Longrightarrow> x + ARENA_SIZE \<le> p \<or> p + l \<le> x) \<Longrightarrow> wiped H p l = H"
proof
  fix x
  assume "\<And>x ar. H x = Some ar \<Longrightarrow> l \<noteq> 0 \<Longrightarrow> x + ARENA_SIZE \<le> p \<or> p + l \<le> x"
  from this [of x] show "wiped H p l x = H x" by (cases "H x") (auto simp: wiped_def)
qed

lemma disjoint_intervals:
  assumes "{x..<x + n} \<inter> {p..<p + l} = {}" "0 < n" "0 < l"
  shows "x + n \<le> p \<or> p + l \<le> (x :: nat)"
proof (rule ccontr)
  assume "\<not> ?thesis"
  then have "max x p \<in> {x..<x + n} \<inter> {p..<p + l}" using assms by auto
  with assms(1) show False by blast
qed

lemma header_apart:
  assumes l: "layout G k u H" and x: "H x = Some ar" and d: "pages x (extent ar) \<inter> {p..<p + n} = {}" and n: "0 < n"
  shows "x + ARENA_SIZE \<le> p \<or> p + n \<le> x"
proof (rule disjoint_intervals [OF _ _ n])
  have "PGSIZE * 1 \<le> PGSIZE * extent ar" using arena_aligned [OF l x] by (intro mult_le_mono2) simp
  then have "{x..<x + ARENA_SIZE} \<subseteq> pages x (extent ar)" by (auto simp: PGSIZE_val ARENA_SIZE_def)
  with d show "{x..<x + ARENA_SIZE} \<inter> {p..<p + n} = {}" by blast
qed (simp add: ARENA_SIZE_def)

text \<open>Writing into a region behind its header.\<close>

lemma wiped_inside:
  assumes l: "layout G k u H" and r: "region H G a = Some e" and s: "{p..<p + n} \<subseteq> pages a e"
    and h: "H a \<noteq> None \<Longrightarrow> a + ARENA_SIZE \<le> p"
  shows "wiped H p n = H"
proof (rule wiped_same)
  fix x ar assume x: "H x = Some ar" and n: "n \<noteq> 0"
  show "x + ARENA_SIZE \<le> p \<or> p + n \<le> x"
  proof (cases "x = a")
    case True
    then show ?thesis using x h by auto
  next
    case False
    then have "pages x (extent ar) \<inter> pages a e = {}" using layout_apart [OF l region_arena [where H = H, OF x] r] by simp
    then have "pages x (extent ar) \<inter> {p..<p + n} = {}" using s by blast
    then show ?thesis using header_apart [OF l x] n by simp
  qed
qed

text \<open>Writing into fresh pages, and into all of a region.\<close>

lemma wiped_fresh:
  assumes l: "layout G k u H" and g: "got p p' a n" "p = k \<or> p = u" and s: "{q..<q + i} \<subseteq> pages a n"
  shows "wiped H q i = H"
proof (rule wiped_same)
  fix x ar assume x: "H x = Some ar" and i: "i \<noteq> 0"
  have "pages x (extent ar) \<inter> {q..<q + i} = {}" using fresh_region [OF l g region_arena [where H = H, OF x]] s by blast
  then show "x + ARENA_SIZE \<le> q \<or> q + i \<le> x" using header_apart [OF l x] i by simp
qed

lemma wiped_region:
  assumes l: "layout G k u H" and r: "region H G a = Some n"
  shows "wiped H a (PGSIZE * n) = H(a := None)"
proof
  fix x
  have n: "0 < PGSIZE * n" using layout_region [OF l r] by (simp add: PGSIZE_val)
  show "wiped H a (PGSIZE * n) x = (H(a := None)) x"
  proof (cases "x = a \<or> H x = None")
    case True
    then show ?thesis using n by (auto simp: wiped_def ARENA_SIZE_def)
  next
    case False
    then obtain ar where x: "H x = Some ar" "x \<noteq> a" by auto
    then have "pages x (extent ar) \<inter> pages a n = {}" using layout_apart [OF l region_arena [where H = H, OF x(1)] r] by simp
    from header_apart [OF l x(1) this n] x(2) show ?thesis by (auto simp: wiped_def)
  qed
qed

subsection \<open>Changes of the layout\<close>

text \<open>A new region in pages of the pool \<open>p\<close>, and one that goes away.\<close>

lemma layout_new:
  assumes l: "layout G k u H" and g: "got p p' a n" and n: "0 < n"
    and which: "p = k \<and> k' = p' \<and> u' = u \<or> p = u \<and> k' = k \<and> u' = p'"
    and r: "region H' G' = (region H G)(a \<mapsto> n)"
    and a: "\<And>x ar. H' x = Some ar \<Longrightarrow> G' x = None \<and> (H x = Some ar \<or> x = a \<and> extent ar = n \<and> k' = p')"
  shows "layout G' k' u' H'"
proof -
  have pu: "p = k \<or> p = u" using which by blast
  note pools = layout_pools [OF l]
  have tk: "taken k \<subseteq> taken k'" "taken u \<subseteq> taken u'" and pk: "pool_wf k'" "pool_wf u'" "pool_range k' = pool_range k" "pool_range u' = pool_range u"
    using which g pools by (auto simp: got_def)
  have new: "a mod PGSIZE = 0" "pages a n \<subseteq> taken p'" using g by (auto simp: got_def)
  have apart: "region H G b = Some e \<Longrightarrow> pages a n \<inter> pages b e = {}" for b e by (rule fresh_region [OF l g pu])
  have R: "0 < e \<and> b mod PGSIZE = 0 \<and> (pages b e \<subseteq> taken k' \<or> pages b e \<subseteq> taken u')" if "region H' G' b = Some e" for b e
    using that layout_region [OF l, of b e] new which n tk unfolding r by (cases "b = a") auto
  have D: "pages b e \<inter> pages c f = {}" if "region H' G' b = Some e" "region H' G' c = Some f" "b \<noteq> c" for b e c f
    using that layout_apart [OF l, of b e c f] apart [of b e] apart [of c f] unfolding r by (auto split: if_splits)
  have A: "G' x = None \<and> pages x (extent ar) \<subseteq> taken k'" if x: "H' x = Some ar" for x ar
    using a [OF x] layout_arena [OF l, of x ar] tk new which by auto
  show ?thesis unfolding layout_def using pools pk R D A by blast
qed

lemma layout_gone:
  assumes l: "layout G k u H" and g: "gave p p' a n" and reg: "region H G a = Some n"
    and which: "p = k \<and> k' = p' \<and> u' = u \<or> p = u \<and> k' = k \<and> u' = p'"
  shows "layout (G(a := None)) k' u' (H(a := None))"
proof -
  note pools = layout_pools [OF l]
  have pk: "pool_wf k'" "pool_wf u'" "pool_range k' = pool_range k" "pool_range u' = pool_range u"
    using which g pools by (auto simp: gave_def)
  have tk: "taken k - pages a n \<subseteq> taken k'" "taken u - pages a n \<subseteq> taken u'" using which g by (auto simp: gave_def)
  have r: "region (H(a := None)) (G(a := None)) = (region H G)(a := None)" by (rule ext) (simp add: region_def split: option.split)
  have R: "0 < e \<and> b mod PGSIZE = 0 \<and> (pages b e \<subseteq> taken k' \<or> pages b e \<subseteq> taken u')"
    if "region (H(a := None)) (G(a := None)) b = Some e" for b e
  proof -
    have b: "b \<noteq> a" "region H G b = Some e" using that unfolding r by (auto split: if_splits)
    have "pages b e \<inter> pages a n = {}" by (rule layout_apart [OF l b(2) reg b(1)])
    then show ?thesis using layout_region [OF l b(2)] tk by blast
  qed
  have D: "pages b e \<inter> pages c f = {}"
    if "region (H(a := None)) (G(a := None)) b = Some e" "region (H(a := None)) (G(a := None)) c = Some f" "b \<noteq> c" for b e c f
    using that layout_apart [OF l, of b e c f] unfolding r by (auto split: if_splits)
  have A: "(G(a := None)) x = None \<and> pages x (extent ar) \<subseteq> taken k'" if "(H(a := None)) x = Some ar" for x ar
  proof -
    have x: "x \<noteq> a" "H x = Some ar" using that by (auto split: if_splits)
    have "pages x (extent ar) \<inter> pages a n = {}" by (rule layout_apart [OF l region_arena [where H = H, OF x(2)] reg x(1)])
    then show ?thesis using layout_arena [OF l x(2)] tk x(1) by auto
  qed
  show ?thesis unfolding layout_def using pools pk R D A by blast
qed

lemma layout_header:
  assumes l: "layout G k u H" and a: "H a = Some ar" "extent ar' = extent ar"
  shows "layout G k u (H(a \<mapsto> ar'))"
proof -
  have r: "region (H(a \<mapsto> ar')) G = region H G" using a by (auto simp: region_def fun_eq_iff)
  have "\<forall>x ar''. (H(a \<mapsto> ar')) x = Some ar'' \<longrightarrow> G x = None \<and> pages x (extent ar'') \<subseteq> taken k"
    using a layout_arena [OF l] by auto
  then show ?thesis using l unfolding layout_def r by blast
qed

subsection \<open>Free lists\<close>

abbreviation blocks :: "desc list \<Rightarrow> nat \<Rightarrow> addr list" where
  "blocks ds d \<equiv> free_list (ds ! d)"

definition descs_ok :: "desc list \<Rightarrow> bool" where
  "descs_ok ds \<longleftrightarrow> length ds = 7 \<and> (\<forall>d<7. block_size (ds ! d) = BS d \<and> blocks_per_arena (ds ! d) = BPA d)"

definition in_page :: "addr \<Rightarrow> addr list \<Rightarrow> nat" where
  "in_page a bs = length (filter (\<lambda>b. pg_round_down b = a) bs)"

text \<open>An arena outside \<open>E\<close> has a block in use.\<close>

definition slabs :: "addr set \<Rightarrow> (addr \<rightharpoonup> arena) \<Rightarrow> desc list \<Rightarrow> bool" where
  "slabs E H ds \<longleftrightarrow> descs_ok ds \<and>
     (\<forall>d<7. distinct (blocks ds d)) \<and>
     (\<forall>d<7. \<forall>b\<in>set (blocks ds d). \<exists>a ar j. H a = Some ar \<and> desc_of ar = Some d \<and> j < BPA d \<and> b = block_at a d j) \<and>
     (\<forall>a ar. H a = Some ar \<longrightarrow> magic ar = ARENA_MAGIC \<and>
        (\<forall>d. desc_of ar = Some d \<longrightarrow> d < 7 \<and> free_cnt ar = in_page a (blocks ds d) \<and> free_cnt ar \<le> BPA d \<and> (free_cnt ar = BPA d \<longrightarrow> a \<in> E)))"

definition slot_ofs :: "nat \<Rightarrow> nat \<Rightarrow> bool" where
  "slot_ofs d i \<longleftrightarrow> (\<exists>j<BPA d. i = ARENA_SIZE + j * BS d)"

definition live :: "(addr \<rightharpoonup> arena) \<Rightarrow> desc list \<Rightarrow> addr \<rightharpoonup> nat" where
  "live H ds b = (case H (pg_round_down b) of
     None \<Rightarrow> None
   | Some ar \<Rightarrow> (case desc_of ar of
        None \<Rightarrow> if pg_ofs b = ARENA_SIZE then Some (PGSIZE * free_cnt ar - ARENA_SIZE) else None
      | Some d \<Rightarrow> if slot_ofs d (pg_ofs b) \<and> b \<notin> set (blocks ds d) then Some (BS d) else None))"

definition inv :: "addr set \<Rightarrow> (addr \<rightharpoonup> nat) \<Rightarrow> memory \<Rightarrow> bool" where
  "inv E G m \<longleftrightarrow> layout G (kernel_pool m) (user_pool m) (arenas m) \<and> slabs E (arenas m) (descs m)"

lemma inv_layout: "inv E G m \<Longrightarrow> layout G (kernel_pool m) (user_pool m) (arenas m)"
  by (simp add: inv_def)

lemma inv_slabs: "inv E G m \<Longrightarrow> slabs E (arenas m) (descs m)"
  by (simp add: inv_def)

lemma slabs_descs: "slabs E H ds \<Longrightarrow> length ds = 7 \<and> (\<forall>d<7. block_size (ds ! d) = BS d \<and> blocks_per_arena (ds ! d) = BPA d)"
  by (simp add: slabs_def descs_ok_def)

lemma slabs_distinct: "slabs E H ds \<Longrightarrow> d < 7 \<Longrightarrow> distinct (blocks ds d)"
  by (simp add: slabs_def)

lemma slabs_block:
  assumes "slabs E H ds" "d < 7" "b \<in> set (blocks ds d)"
  obtains a ar j where "H a = Some ar" "desc_of ar = Some d" "j < BPA d" "b = block_at a d j"
  using assms unfolding slabs_def by blast

lemma slabs_arena:
  assumes "slabs E H ds" "H a = Some ar"
  shows "magic ar = ARENA_MAGIC" "desc_of ar = Some d \<Longrightarrow> d < 7 \<and> free_cnt ar = in_page a (blocks ds d) \<and> free_cnt ar \<le> BPA d \<and> (free_cnt ar = BPA d \<longrightarrow> a \<in> E)"
  using assms unfolding slabs_def by blast+

lemma get_desc_slabs: "slabs E (arenas m) (descs m) \<Longrightarrow> d < 7 \<Longrightarrow> get_desc m d = Some (descs m ! d)"
  by (simp add: get_desc_def slabs_descs)

text \<open>A block that is in use is a slot of an arena, or all of a big arena.\<close>

lemma live_cases:
  assumes l: "layout G k u H" and s: "slabs E H ds" and b: "live H ds b = Some n"
  obtains (slot) a ar d j where "H a = Some ar" "desc_of ar = Some d" "d < 7" "j < BPA d" "b = block_at a d j" "n = BS d" "b \<notin> set (blocks ds d)"
      "pg_round_down b = a"
  | (big) a ar where "H a = Some ar" "desc_of ar = None" "b = a + ARENA_SIZE" "n = PGSIZE * free_cnt ar - ARENA_SIZE" "pg_round_down b = a"
proof -
  have eq: "b = pg_round_down b + pg_ofs b" by (simp add: pg_round_down_def pg_ofs_def)
  obtain ar where ar: "H (pg_round_down b) = Some ar" using b by (auto simp: live_def split: option.splits)
  show thesis
  proof (cases "desc_of ar")
    case None
    then show thesis using ar b eq by (intro big [of "pg_round_down b" ar]) (auto simp: live_def split: if_splits)
  next
    case (Some d)
    then obtain j where j: "j < BPA d" "pg_ofs b = ARENA_SIZE + j * BS d" "b \<notin> set (blocks ds d)" "n = BS d"
      using ar b by (auto simp: live_def slot_ofs_def split: if_splits)
    have "d < 7" using slabs_arena(2) [OF s ar Some] by blast
    moreover have "b = block_at (pg_round_down b) d j" using eq j(2) by (simp add: block_at_def)
    ultimately show thesis using slot [OF ar Some _ j(1) _ j(4,3)] by blast
  qed
qed

lemma live_slot:
  assumes "H a = Some ar" "desc_of ar = Some d" "j < BPA d" "a mod PGSIZE = 0"
  shows "live H ds (block_at a d j) = (if block_at a d j \<in> set (blocks ds d) then None else Some (BS d))"
  using assms by (auto simp: live_def block_at_page slot_ofs_def)

lemma live_big:
  assumes "H a = Some ar" "desc_of ar = None" "a mod PGSIZE = 0"
  shows "live H ds (a + ARENA_SIZE) = Some (PGSIZE * free_cnt ar - ARENA_SIZE)"
  using assms by (simp add: live_def big_page)

text \<open>The bytes of a block lie in its arena behind the header.\<close>

lemma live_inside:
  assumes l: "layout G k u H" and s: "slabs E H ds" and b: "live H ds b = Some n"
  obtains a ar where "H a = Some ar" "{b..<b + n} \<subseteq> {a + ARENA_SIZE..<a + PGSIZE * extent ar}" "pg_round_down b = a" "0 < n"
  using l s b
proof (cases rule: live_cases)
  case (slot a ar d j)
  then have "{b..<b + n} \<subseteq> {a + ARENA_SIZE..<a + PGSIZE * extent ar}"
    using slot_fits [of j d] by (auto simp: block_at_def extent_def)
  then show thesis using slot by (intro that [of a ar]) simp_all
next
  case (big a ar)
  have "0 < free_cnt ar" using arena_aligned [OF l big(1)] big(2) by (simp add: extent_def)
  then have "PGSIZE * 1 \<le> PGSIZE * free_cnt ar" by (intro mult_le_mono2) simp
  then have "{b..<b + n} \<subseteq> {a + ARENA_SIZE..<a + PGSIZE * extent ar}" "0 < n"
    using big by (auto simp: extent_def ARENA_SIZE_def PGSIZE_val)
  then show thesis using big by (intro that [of a ar]) simp_all
qed

end
