(* ===== verification/KAllocOps.thy ===== *)
theory KAllocOps
  imports KAllocInv
begin

text \<open>
  What the steps of \<open>malloc\<close> and \<open>free\<close> do to the free lists and to the blocks in use: taking a block from a free list and
  putting one back, making an arena and dissolving it.
\<close>

subsection \<open>Free lists of one size\<close>

definition with_blocks :: "desc list \<Rightarrow> nat \<Rightarrow> addr list \<Rightarrow> desc list" where
  "with_blocks ds d bs = ds[d := (ds ! d)\<lparr>free_list := bs\<rparr>]"

lemma descs_put_free_list [simp]: "descs (put_free_list m d bs) = with_blocks (descs m) d bs"
  by (simp add: put_free_list_def with_blocks_def)

lemma put_free_list_fields [simp]:
  "kernel_pool (put_free_list m d bs) = kernel_pool m" "user_pool (put_free_list m d bs) = user_pool m"
  "ram (put_free_list m d bs) = ram m" "arenas (put_free_list m d bs) = arenas m"
  by (simp_all add: put_free_list_def)

lemma with_blocks_nth: "e < length ds \<Longrightarrow> blocks (with_blocks ds d bs) e = (if e = d then bs else blocks ds e)"
  by (cases "e = d") (simp_all add: with_blocks_def)

lemma descs_ok_with_blocks: "descs_ok ds \<Longrightarrow> descs_ok (with_blocks ds d bs)"
  by (cases "d < length ds") (auto simp: descs_ok_def with_blocks_def nth_list_update)

lemma slabs_len: "slabs E H ds \<Longrightarrow> length ds = 7"
  by (simp add: slabs_descs)

lemma in_page_simps [simp]:
  "in_page a [] = 0" "in_page a (b # bs) = (if pg_round_down b = a then in_page a bs + 1 else in_page a bs)"
  by (simp_all add: in_page_def)

text \<open>The blocks of one arena on a free list are some of its slots.\<close>

lemma in_page_slots:
  assumes d: "distinct bs" and s: "\<And>b. b \<in> set bs \<Longrightarrow> pg_round_down b = a \<Longrightarrow> \<exists>j<BPA d. b = block_at a d j"
  shows "in_page a bs \<le> BPA d" "in_page a bs = BPA d \<Longrightarrow> j < BPA d \<Longrightarrow> block_at a d j \<in> set bs"
proof -
  let ?S = "set (filter (\<lambda>b. pg_round_down b = a) bs)" and ?T = "block_at a d ` {..<BPA d}"
  have sub: "?S \<subseteq> ?T" using s by auto
  have c: "card ?S = in_page a bs" unfolding in_page_def by (rule distinct_card) (simp add: d)
  have t: "card ?T = BPA d" by (subst card_image) (auto simp: inj_on_def)
  show "in_page a bs \<le> BPA d" using card_mono [OF _ sub] c t by simp
  assume "in_page a bs = BPA d" "j < BPA d"
  then have "?S = ?T" using c t by (intro card_subset_eq [OF _ sub]) simp_all
  with \<open>j < BPA d\<close> show "block_at a d j \<in> set bs" by (metis filter_is_subset imageI lessThan_iff subsetD)
qed

lemma slabs_slots:
  assumes s: "slabs E H ds" and l: "layout G k u H" and d: "d < 7" and b: "b \<in> set (blocks ds d)" and a: "pg_round_down b = a"
  shows "\<exists>j<BPA d. b = block_at a d j"
proof -
  obtain x ar j where x: "H x = Some ar" "desc_of ar = Some d" "j < BPA d" "b = block_at x d j" by (rule slabs_block [OF s d b])
  then have "pg_round_down b = x" using block_at_page(1) arena_aligned [OF l x(1)] by simp
  then show ?thesis using a x by blast
qed

text \<open>Blocks on a free list are not in use, and their arena belongs to the list.\<close>

lemma slabs_page:
  assumes s: "slabs E H ds" and l: "layout G k u H" and d: "d < 7" and b: "b \<in> set (blocks ds d)"
  obtains ar j where "H (pg_round_down b) = Some ar" "desc_of ar = Some d" "j < BPA d" "b = block_at (pg_round_down b) d j"
proof -
  obtain x ar j where x: "H x = Some ar" "desc_of ar = Some d" "j < BPA d" "b = block_at x d j" by (rule slabs_block [OF s d b])
  then have "pg_round_down b = x" using block_at_page(1) arena_aligned [OF l x(1)] by simp
  then show thesis using x that by simp
qed

lemma slabs_same_list:
  assumes s: "slabs E H ds" and l: "layout G k u H" and d: "d < 7" "e < 7" and b: "b \<in> set (blocks ds d)" "b \<in> set (blocks ds e)"
  shows "d = e"
proof -
  obtain ar j where "H (pg_round_down b) = Some ar" "desc_of ar = Some d" by (rule slabs_page [OF s l d(1) b(1)])
  moreover obtain ar' j' where "H (pg_round_down b) = Some ar'" "desc_of ar' = Some e" by (rule slabs_page [OF s l d(2) b(2)])
  ultimately show ?thesis by simp
qed

subsection \<open>The four changes\<close>

lemma slabs_pop:
  assumes s: "slabs E H ds" and l: "layout G k u H" and d: "d < 7" and b: "blocks ds d = b # bs" and a: "pg_round_down b = a" "H a = Some ar"
  shows "slabs (E - {a}) (H(a \<mapsto> ar\<lparr>free_cnt := free_cnt ar - 1\<rparr>)) (with_blocks ds d bs)" "0 < free_cnt ar" "desc_of ar = Some d"
proof -
  obtain ar' j where ar: "H (pg_round_down b) = Some ar'" "desc_of ar' = Some d" "j < BPA d" "b = block_at (pg_round_down b) d j"
    by (rule slabs_page [OF s l d, of b]) (use b in auto)
  then show dar: "desc_of ar = Some d" using a by simp
  note sa = slabs_arena [OF s a(2)]
  have cnt: "free_cnt ar = in_page a bs + 1" using sa(2) [OF dar] a b by simp
  then show "0 < free_cnt ar" by simp
  let ?H = "H(a \<mapsto> ar\<lparr>free_cnt := free_cnt ar - 1\<rparr>)" and ?ds = "with_blocks ds d bs"
  note len = slabs_len [OF s]
  have bl: "e < 7 \<Longrightarrow> blocks ?ds e = (if e = d then bs else blocks ds e)" for e by (simp add: with_blocks_nth len)
  have "descs_ok ?ds" using s by (simp add: slabs_def descs_ok_with_blocks)
  moreover have "distinct (blocks ?ds e)" if "e < 7" for e
    using slabs_distinct [OF s that] b unfolding bl [OF that] by (auto split: if_splits)
  moreover have "\<exists>x xr j. ?H x = Some xr \<and> desc_of xr = Some e \<and> j < BPA e \<and> c = block_at x e j" if e: "e < 7" and c: "c \<in> set (blocks ?ds e)" for e c
  proof -
    have "c \<in> set (blocks ds e)" using c b unfolding bl [OF e] by (auto split: if_splits)
    then obtain x xr j where "H x = Some xr" "desc_of xr = Some e" "j < BPA e" "c = block_at x e j" by (rule slabs_block [OF s e])
    then show ?thesis using a(2) by (intro exI [of _ x]) auto
  qed
  moreover have "magic xr = ARENA_MAGIC \<and> (\<forall>e. desc_of xr = Some e \<longrightarrow> e < 7 \<and> free_cnt xr = in_page x (blocks ?ds e) \<and> free_cnt xr \<le> BPA e \<and>
      (free_cnt xr = BPA e \<longrightarrow> x \<in> E - {a}))" if x: "?H x = Some xr" for x xr
  proof (cases "x = a")
    case True
    then have xr: "xr = ar\<lparr>free_cnt := in_page a bs\<rparr>" using x cnt by simp
    show ?thesis using sa dar d cnt True bl [OF d] by (auto simp: xr)
  next
    case False
    then have hx: "H x = Some xr" using x by simp
    note sx = slabs_arena [OF s hx]
    have "in_page x (blocks ?ds e) = in_page x (blocks ds e)" if "e < 7" for e
      using False a(1) b unfolding bl [OF that] by auto
    then show ?thesis using sx False by auto
  qed
  ultimately show "slabs (E - {a}) ?H ?ds" unfolding slabs_def by blast
qed

lemma slabs_push:
  assumes s: "slabs E H ds" and l: "layout G k u H" and a: "H a = Some ar" "desc_of ar = Some d" and b: "b = block_at a d j" "j < BPA d"
    and n: "b \<notin> set (blocks ds d)"
  shows "slabs (insert a E) (H(a \<mapsto> ar\<lparr>free_cnt := free_cnt ar + 1\<rparr>)) (with_blocks ds d (b # blocks ds d))"
proof -
  note sa = slabs_arena [OF s a(1)]
  have d: "d < 7" using sa(2) [OF a(2)] by blast
  have pb: "pg_round_down b = a" using b block_at_page(1) arena_aligned [OF l a(1)] by simp
  let ?H = "H(a \<mapsto> ar\<lparr>free_cnt := free_cnt ar + 1\<rparr>)" and ?ds = "with_blocks ds d (b # blocks ds d)"
  note len = slabs_len [OF s]
  have bl: "e < 7 \<Longrightarrow> blocks ?ds e = (if e = d then b # blocks ds d else blocks ds e)" for e by (simp add: with_blocks_nth len)
  have dist: "distinct (b # blocks ds d)" using n slabs_distinct [OF s d] by simp
  have le: "in_page a (b # blocks ds d) \<le> BPA d"
    by (rule in_page_slots(1) [OF dist]) (use slabs_slots [OF s l d] b in auto)
  have "descs_ok ?ds" using s by (simp add: slabs_def descs_ok_with_blocks)
  moreover have "distinct (blocks ?ds e)" if "e < 7" for e
    using slabs_distinct [OF s that] dist unfolding bl [OF that] by (auto split: if_splits)
  moreover have "\<exists>x xr j. ?H x = Some xr \<and> desc_of xr = Some e \<and> j < BPA e \<and> c = block_at x e j" if e: "e < 7" and c: "c \<in> set (blocks ?ds e)" for e c
  proof (cases "c \<in> set (blocks ds e)")
    case True
    then obtain x xr j where "H x = Some xr" "desc_of xr = Some e" "j < BPA e" "c = block_at x e j" by (rule slabs_block [OF s e])
    then show ?thesis using a by (intro exI [of _ x]) auto
  next
    case False
    then have "e = d" "c = b" using c unfolding bl [OF e] by (auto split: if_splits)
    then show ?thesis using a b by (intro exI [of _ a]) auto
  qed
  moreover have "magic xr = ARENA_MAGIC \<and> (\<forall>e. desc_of xr = Some e \<longrightarrow> e < 7 \<and> free_cnt xr = in_page x (blocks ?ds e) \<and> free_cnt xr \<le> BPA e \<and>
      (free_cnt xr = BPA e \<longrightarrow> x \<in> insert a E))" if x: "?H x = Some xr" for x xr
  proof (cases "x = a")
    case True
    then have xr: "xr = ar\<lparr>free_cnt := free_cnt ar + 1\<rparr>" using x by simp
    show ?thesis using sa(1) sa(2) [OF a(2)] a(2) d le True pb bl [OF d] by (auto simp: xr)
  next
    case False
    then have hx: "H x = Some xr" using x by simp
    note sx = slabs_arena [OF s hx]
    have "in_page x (blocks ?ds e) = in_page x (blocks ds e)" if "e < 7" for e
      using False pb unfolding bl [OF that] by auto
    then show ?thesis using sx by auto
  qed
  ultimately show ?thesis unfolding slabs_def by blast
qed

lemma slabs_new:
  assumes s: "slabs E H ds" and l: "layout G k u H" and d: "d < 7" and a: "H a = None" "a mod PGSIZE = 0" and e: "blocks ds d = []"
  shows "slabs (insert a E) (H(a \<mapsto> \<lparr>magic = ARENA_MAGIC, desc_of = Some d, free_cnt = BPA d\<rparr>)) (with_blocks ds d (map (block_at a d) [0..<BPA d]))"
    (is "slabs _ ?H ?ds")
proof -
  let ?bs = "map (block_at a d) [0..<BPA d]"
  note len = slabs_len [OF s]
  have bl: "e < 7 \<Longrightarrow> blocks ?ds e = (if e = d then ?bs else blocks ds e)" for e by (simp add: with_blocks_nth len)
  have page: "c \<in> set ?bs \<Longrightarrow> pg_round_down c = a" for c using block_at_page(1) [OF a(2)] by auto
  have dist: "distinct ?bs" by (simp add: distinct_map inj_on_def)
  have cnt: "in_page a ?bs = BPA d" unfolding in_page_def using page by (simp add: filter_True)
  have cnt': "x \<noteq> a \<Longrightarrow> in_page x ?bs = 0" for x unfolding in_page_def using page by (simp add: filter_empty_conv)
  have "descs_ok ?ds" using s by (simp add: slabs_def descs_ok_with_blocks)
  moreover have "distinct (blocks ?ds e)" if "e < 7" for e
    using slabs_distinct [OF s that] dist unfolding bl [OF that] by (auto split: if_splits)
  moreover have "\<exists>x xr j. ?H x = Some xr \<and> desc_of xr = Some e \<and> j < BPA e \<and> c = block_at x e j" if e: "e < 7" and c: "c \<in> set (blocks ?ds e)" for e c
  proof (cases "e = d")
    case True
    then obtain j where "j < BPA d" "c = block_at a d j" using c unfolding bl [OF e] by auto
    then show ?thesis using True by (intro exI [of _ a]) auto
  next
    case False
    then have "c \<in> set (blocks ds e)" using c unfolding bl [OF e] by simp
    then obtain x xr j where "H x = Some xr" "desc_of xr = Some e" "j < BPA e" "c = block_at x e j" by (rule slabs_block [OF s e])
    then show ?thesis using a(1) by (intro exI [of _ x]) auto
  qed
  moreover have "magic xr = ARENA_MAGIC \<and> (\<forall>e. desc_of xr = Some e \<longrightarrow> e < 7 \<and> free_cnt xr = in_page x (blocks ?ds e) \<and> free_cnt xr \<le> BPA e \<and>
      (free_cnt xr = BPA e \<longrightarrow> x \<in> insert a E))" if x: "?H x = Some xr" for x xr
  proof (cases "x = a")
    case True
    then show ?thesis using x d cnt bl [OF d] by auto
  next
    case False
    then have hx: "H x = Some xr" using x by simp
    note sx = slabs_arena [OF s hx]
    have "in_page x (blocks ?ds e) = in_page x (blocks ds e)" if "e < 7" for e
      using cnt' [OF False] assms(6) unfolding bl [OF that] by auto
    then show ?thesis using sx by auto
  qed
  ultimately show ?thesis unfolding slabs_def by blast
qed

lemma slabs_drop:
  assumes s: "slabs E H ds" and l: "layout G k u H" and a: "H a = Some ar" "desc_of ar = Some d"
  shows "slabs (E - {a}) (H(a := None)) (with_blocks ds d (filter (\<lambda>b. pg_round_down b \<noteq> a) (blocks ds d)))"
    (is "slabs _ ?H ?ds")
proof -
  let ?bs = "filter (\<lambda>b. pg_round_down b \<noteq> a) (blocks ds d)"
  note len = slabs_len [OF s]
  have d: "d < 7" using slabs_arena(2) [OF s a] by blast
  have bl: "e < 7 \<Longrightarrow> blocks ?ds e = (if e = d then ?bs else blocks ds e)" for e by (simp add: with_blocks_nth len)
  have cnt: "x \<noteq> a \<Longrightarrow> in_page x ?bs = in_page x (blocks ds d)" for x unfolding in_page_def by (simp add: conj_ac) (metis (no_types, lifting))
  have "descs_ok ?ds" using s by (simp add: slabs_def descs_ok_with_blocks)
  moreover have "distinct (blocks ?ds e)" if "e < 7" for e
    using slabs_distinct [OF s that] unfolding bl [OF that] by (auto split: if_splits)
  moreover have "\<exists>x xr j. ?H x = Some xr \<and> desc_of xr = Some e \<and> j < BPA e \<and> c = block_at x e j" if e: "e < 7" and c: "c \<in> set (blocks ?ds e)" for e c
  proof -
    have c': "c \<in> set (blocks ds e)" using c unfolding bl [OF e] by (auto split: if_splits)
    obtain xr j where x: "H (pg_round_down c) = Some xr" "desc_of xr = Some e" "j < BPA e" "c = block_at (pg_round_down c) e j"
      by (rule slabs_page [OF s l e c'])
    have "pg_round_down c \<noteq> a" using c a x unfolding bl [OF e] by (auto split: if_splits)
    then show ?thesis using x by (intro exI [of _ "pg_round_down c"]) auto
  qed
  moreover have "magic xr = ARENA_MAGIC \<and> (\<forall>e. desc_of xr = Some e \<longrightarrow> e < 7 \<and> free_cnt xr = in_page x (blocks ?ds e) \<and> free_cnt xr \<le> BPA e \<and>
      (free_cnt xr = BPA e \<longrightarrow> x \<in> E - {a}))" if x: "?H x = Some xr" for x xr
  proof -
    have hx: "x \<noteq> a" "H x = Some xr" using x by (auto split: if_splits)
    note sx = slabs_arena [OF s hx(2)]
    have "in_page x (blocks ?ds e) = in_page x (blocks ds e)" if "e < 7" for e
      using cnt [OF hx(1)] unfolding bl [OF that] by auto
    then show ?thesis using sx hx(1) by auto
  qed
  ultimately show ?thesis unfolding slabs_def by blast
qed

lemma slabs_big:
  assumes s: "slabs E H ds" and l: "layout G k u H"
  shows "H a = None \<Longrightarrow> slabs E (H(a \<mapsto> \<lparr>magic = ARENA_MAGIC, desc_of = None, free_cnt = n\<rparr>)) ds"
    and "H a = Some ar \<Longrightarrow> desc_of ar = None \<Longrightarrow> slabs E (H(a := None)) ds"
proof -
  assume a: "H a = None"
  have "\<exists>x xr j. (H(a \<mapsto> \<lparr>magic = ARENA_MAGIC, desc_of = None, free_cnt = n\<rparr>)) x = Some xr \<and> desc_of xr = Some e \<and> j < BPA e \<and> c = block_at x e j"
    if e: "e < 7" and c: "c \<in> set (blocks ds e)" for e c
    by (rule slabs_block [OF s e c]) (use a in \<open>metis fun_upd_other option.distinct(1)\<close>)
  moreover have "magic xr = ARENA_MAGIC \<and> (\<forall>e. desc_of xr = Some e \<longrightarrow> e < 7 \<and> free_cnt xr = in_page x (blocks ds e) \<and> free_cnt xr \<le> BPA e \<and>
      (free_cnt xr = BPA e \<longrightarrow> x \<in> E))" if x: "(H(a \<mapsto> \<lparr>magic = ARENA_MAGIC, desc_of = None, free_cnt = n\<rparr>)) x = Some xr" for x xr
  proof (cases "x = a")
    case False
    then have hx: "H x = Some xr" using x by simp
    show ?thesis using slabs_arena [OF s hx] by blast
  qed (use x in auto)
  ultimately show "slabs E (H(a \<mapsto> \<lparr>magic = ARENA_MAGIC, desc_of = None, free_cnt = n\<rparr>)) ds" using s unfolding slabs_def by blast
next
  assume a: "H a = Some ar" "desc_of ar = None"
  have "\<exists>x xr j. (H(a := None)) x = Some xr \<and> desc_of xr = Some e \<and> j < BPA e \<and> c = block_at x e j"
    if e: "e < 7" and c: "c \<in> set (blocks ds e)" for e c
    by (rule slabs_block [OF s e c]) (use a in \<open>metis fun_upd_other option.distinct(1) option.inject\<close>)
  moreover have "magic xr = ARENA_MAGIC \<and> (\<forall>e. desc_of xr = Some e \<longrightarrow> e < 7 \<and> free_cnt xr = in_page x (blocks ds e) \<and> free_cnt xr \<le> BPA e \<and>
      (free_cnt xr = BPA e \<longrightarrow> x \<in> E))" if x: "(H(a := None)) x = Some xr" for x xr
  proof -
    have hx: "H x = Some xr" using x by (auto split: if_splits)
    show ?thesis using slabs_arena [OF s hx] by blast
  qed
  ultimately show "slabs E (H(a := None)) ds" using s unfolding slabs_def by blast
qed

subsection \<open>The blocks in use\<close>

lemma live_with:
  assumes "length ds = 7" "d < 7"
  shows "live H (with_blocks ds d bs) x = (case H (pg_round_down x) of
     None \<Rightarrow> None
   | Some ar \<Rightarrow> (case desc_of ar of
        None \<Rightarrow> if pg_ofs x = ARENA_SIZE then Some (PGSIZE * free_cnt ar - ARENA_SIZE) else None
      | Some e \<Rightarrow> if slot_ofs e (pg_ofs x) \<and> x \<notin> set (if e = d then bs else blocks ds e) then Some (BS e) else None))"
proof (cases "H (pg_round_down x)")
  case (Some ar)
  have "e \<noteq> d \<Longrightarrow> blocks (with_blocks ds d bs) e = blocks ds e" for e by (simp add: with_blocks_def)
  moreover have "blocks (with_blocks ds d bs) d = bs" using assms by (simp add: with_blocks_nth)
  ultimately show ?thesis using Some by (auto simp: live_def split: option.splits)
qed (simp add: live_def)

lemma live_pop:
  assumes s: "slabs E H ds" and l: "layout G k u H" and d: "d < 7" and b: "blocks ds d = b # bs" and a: "pg_round_down b = a" "H a = Some ar"
  shows "live (H(a \<mapsto> ar\<lparr>free_cnt := c\<rparr>)) (with_blocks ds d bs) = (live H ds)(b \<mapsto> BS d)" "live H ds b = None"
proof -
  obtain ar' j where "H (pg_round_down b) = Some ar'" "desc_of ar' = Some d" and j: "j < BPA d" "b = block_at (pg_round_down b) d j"
    by (rule slabs_page [OF s l d, of b]) (use b in auto)
  then have dar: "desc_of ar = Some d" using a by simp
  have al: "a mod PGSIZE = 0" using arena_aligned [OF l a(2)] by blast
  have ofs: "slot_ofs d (pg_ofs b)" using block_at_page(2) [OF al j(1)] j a(1) unfolding slot_ofs_def by auto
  have nd: "b \<notin> set bs" using slabs_distinct [OF s d] b by simp
  show "live H ds b = None" using a dar b by (simp add: live_def)
  show "live (H(a \<mapsto> ar\<lparr>free_cnt := c\<rparr>)) (with_blocks ds d bs) = (live H ds)(b \<mapsto> BS d)"
  proof
    fix x
    show "live (H(a \<mapsto> ar\<lparr>free_cnt := c\<rparr>)) (with_blocks ds d bs) x = ((live H ds)(b \<mapsto> BS d)) x"
      unfolding live_with [OF slabs_len [OF s] d] using a dar b ofs nd
      by (cases "x = b") (auto simp: live_def split: option.splits)
  qed
qed

lemma live_push:
  assumes s: "slabs E H ds" and l: "layout G k u H" and a: "H a = Some ar" "desc_of ar = Some d" and b: "b = block_at a d j" "j < BPA d"
  shows "live (H(a \<mapsto> ar\<lparr>free_cnt := c\<rparr>)) (with_blocks ds d (b # blocks ds d)) = (live H ds)(b := None)"
proof
  fix x
  have d: "d < 7" using slabs_arena(2) [OF s a] by blast
  have pb: "pg_round_down b = a" using b block_at_page(1) arena_aligned [OF l a(1)] by simp
  show "live (H(a \<mapsto> ar\<lparr>free_cnt := c\<rparr>)) (with_blocks ds d (b # blocks ds d)) x = ((live H ds)(b := None)) x"
    unfolding live_with [OF slabs_len [OF s] d] using a pb by (cases "x = b") (auto simp: live_def split: option.splits)
qed

lemma live_new:
  assumes s: "slabs E H ds" and d: "d < 7" and a: "H a = None" "a mod PGSIZE = 0" and e: "blocks ds d = []"
  shows "live (H(a \<mapsto> \<lparr>magic = ARENA_MAGIC, desc_of = Some d, free_cnt = c\<rparr>)) (with_blocks ds d (map (block_at a d) [0..<BPA d])) = live H ds"
proof
  fix x
  have in_a: "x \<in> set (map (block_at a d) [0..<BPA d]) \<longleftrightarrow> pg_round_down x = a \<and> slot_ofs d (pg_ofs x)"
  proof
    assume "x \<in> set (map (block_at a d) [0..<BPA d])"
    then show "pg_round_down x = a \<and> slot_ofs d (pg_ofs x)" using block_at_page [OF a(2)] by (auto simp: slot_ofs_def)
  next
    assume x: "pg_round_down x = a \<and> slot_ofs d (pg_ofs x)"
    then obtain j where j: "j < BPA d" "pg_ofs x = ARENA_SIZE + j * BS d" by (auto simp: slot_ofs_def)
    have "x = pg_round_down x + pg_ofs x" by (simp add: pg_round_down_def pg_ofs_def)
    then have "x = block_at a d j" using x j by (simp add: block_at_def)
    then show "x \<in> set (map (block_at a d) [0..<BPA d])" using j by simp
  qed
  show "live (H(a \<mapsto> \<lparr>magic = ARENA_MAGIC, desc_of = Some d, free_cnt = c\<rparr>)) (with_blocks ds d (map (block_at a d) [0..<BPA d])) x = live H ds x"
    unfolding live_with [OF slabs_len [OF s] d] in_a using a e by (auto simp: live_def in_a simp del: set_map split: option.splits)
qed

lemma live_drop:
  assumes s: "slabs E H ds" and l: "layout G k u H" and a: "H a = Some ar" "desc_of ar = Some d" and full: "free_cnt ar = BPA d"
  shows "live (H(a := None)) (with_blocks ds d (filter (\<lambda>b. pg_round_down b \<noteq> a) (blocks ds d))) = live H ds"
    and "j < BPA d \<Longrightarrow> block_at a d j \<in> set (blocks ds d)"
proof -
  note sa = slabs_arena(2) [OF s a]
  have d: "d < 7" using sa by blast
  have slots: "block_at a d j \<in> set (blocks ds d)" if "j < BPA d" for j
    by (rule in_page_slots(2) [OF slabs_distinct [OF s d] _ _ that]) (use slabs_slots [OF s l d] sa full in auto)
  then show "j < BPA d \<Longrightarrow> block_at a d j \<in> set (blocks ds d)" .
  have none: "live H ds x = None" if x: "pg_round_down x = a" for x
  proof (cases "slot_ofs d (pg_ofs x)")
    case True
    then obtain j where j: "j < BPA d" "pg_ofs x = ARENA_SIZE + j * BS d" by (auto simp: slot_ofs_def)
    have "x = pg_round_down x + pg_ofs x" by (simp add: pg_round_down_def pg_ofs_def)
    then have "x = block_at a d j" using x j by (simp add: block_at_def)
    then show ?thesis using slots [OF j(1)] a x by (simp add: live_def)
  next
    case False
    then show ?thesis using a x by (simp add: live_def)
  qed
  show "live (H(a := None)) (with_blocks ds d (filter (\<lambda>b. pg_round_down b \<noteq> a) (blocks ds d))) = live H ds"
  proof
    fix x
    show "live (H(a := None)) (with_blocks ds d (filter (\<lambda>b. pg_round_down b \<noteq> a) (blocks ds d))) x = live H ds x"
      using none [of x] unfolding live_with [OF slabs_len [OF s] d]
      by (cases "pg_round_down x = a") (auto simp: live_def split: option.splits)
  qed
qed

lemma page_and_ofs: "x = y \<longleftrightarrow> pg_round_down x = pg_round_down y \<and> pg_ofs x = pg_ofs y"
proof -
  have "x = pg_round_down x + pg_ofs x" for x by (simp add: pg_round_down_def pg_ofs_def)
  then show ?thesis by metis
qed

lemma live_big_new:
  assumes "H a = None" "a mod PGSIZE = 0"
  shows "live (H(a \<mapsto> \<lparr>magic = ARENA_MAGIC, desc_of = None, free_cnt = n\<rparr>)) ds = (live H ds)(a + ARENA_SIZE \<mapsto> PGSIZE * n - ARENA_SIZE)"
    "live H ds (a + ARENA_SIZE) = None"
proof -
  note p = big_page [OF assms(2)]
  show "live H ds (a + ARENA_SIZE) = None" using assms(1) p by (simp add: live_def)
  show "live (H(a \<mapsto> \<lparr>magic = ARENA_MAGIC, desc_of = None, free_cnt = n\<rparr>)) ds = (live H ds)(a + ARENA_SIZE \<mapsto> PGSIZE * n - ARENA_SIZE)"
  proof
    fix x
    show "live (H(a \<mapsto> \<lparr>magic = ARENA_MAGIC, desc_of = None, free_cnt = n\<rparr>)) ds x = ((live H ds)(a + ARENA_SIZE \<mapsto> PGSIZE * n - ARENA_SIZE)) x"
      using page_and_ofs [of x "a + ARENA_SIZE"] p assms(1) by (auto simp: live_def)
  qed
qed

lemma live_big_drop:
  assumes "H a = Some ar" "desc_of ar = None" "a mod PGSIZE = 0"
  shows "live (H(a := None)) ds = (live H ds)(a + ARENA_SIZE := None)"
proof
  fix x
  show "live (H(a := None)) ds x = ((live H ds)(a + ARENA_SIZE := None)) x"
    using page_and_ofs [of x "a + ARENA_SIZE"] big_page [OF assms(3)] assms(1,2) by (auto simp: live_def)
qed

end
