(* ===== verification/KAllocCalls.thy ===== *)
theory KAllocCalls
  imports KAllocOps
begin

text \<open>
  The calls of the kernel's allocators. \<open>areas G m\<close> are the parts of memory that were handed out: the groups of pages \<open>G\<close>
  and the blocks in use, with their sizes in bytes.
\<close>

subsection \<open>Areas\<close>

definition areas :: "(addr \<rightharpoonup> nat) \<Rightarrow> memory \<Rightarrow> addr \<rightharpoonup> nat" where
  "areas G m b = (case G b of Some n \<Rightarrow> Some (PGSIZE * n) | None \<Rightarrow> live (arenas m) (descs m) b)"

lemma area_region:
  assumes i: "inv E G m" and b: "areas G m b = Some k"
  obtains r e where "region (arenas m) G r = Some e" "{b..<b + k} \<subseteq> pages r e" "arenas m r \<noteq> None \<longrightarrow> r + ARENA_SIZE \<le> b" "0 < k"
    "pg_round_down b = r"
proof (cases "G b")
  case None
  with b have lb: "live (arenas m) (descs m) b = Some k" by (simp add: areas_def)
  obtain a ar where a: "arenas m a = Some ar" "{b..<b + k} \<subseteq> {a + ARENA_SIZE..<a + PGSIZE * extent ar}" "pg_round_down b = a" "0 < k"
    by (rule live_inside [OF inv_layout [OF i] inv_slabs [OF i] lb])
  have "b \<in> {b..<b + k}" using a(4) by simp
  then have "a + ARENA_SIZE \<le> b" using a(2) by auto
  moreover have "{b..<b + k} \<subseteq> pages a (extent ar)" using a(2) by auto
  ultimately show thesis using that [OF region_arena [where H = "arenas m", OF a(1)]] a(3,4) by blast
next
  case (Some n)
  note r = region_group [OF inv_layout [OF i] Some]
  have k: "k = PGSIZE * n" using b Some by (simp add: areas_def)
  have "0 < n" "b mod PGSIZE = 0" using layout_region [OF inv_layout [OF i] r] by auto
  moreover have "arenas m b = None" using layout_arena [OF inv_layout [OF i], of b] Some by (cases "arenas m b") auto
  ultimately show thesis using k by (intro that [OF r]) (auto simp: PGSIZE_val pg_round_down_def)
qed

lemma areas_disjoint:
  assumes i: "inv E G m" and b: "areas G m b = Some k" and c: "areas G m c = Some l" and n: "b \<noteq> c"
  shows "{b..<b + k} \<inter> {c..<c + l} = {}"
proof -
  note lay = inv_layout [OF i] and sl = inv_slabs [OF i]
  obtain r e where r: "region (arenas m) G r = Some e" "{b..<b + k} \<subseteq> pages r e" "pg_round_down b = r" by (rule area_region [OF i b])
  obtain q f where q: "region (arenas m) G q = Some f" "{c..<c + l} \<subseteq> pages q f" "pg_round_down c = q" by (rule area_region [OF i c])
  show ?thesis
  proof (cases "r = q")
    case False
    then show ?thesis using layout_apart [OF lay r(1) q(1)] r(2) q(2) by blast
  next
    case True
    have group: "x = y" if gx: "G x \<noteq> None" and pg: "pg_round_down x = pg_round_down y" and ay: "areas G m y \<noteq> None" for x y
    proof -
      obtain g where g: "G x = Some g" using gx by auto
      note rx = region_group [OF lay g]
      have al: "x mod PGSIZE = 0" using layout_region [OF lay rx] by blast
      then have px: "pg_round_down y = x" using pg by (simp add: pg_round_down_def)
      have nx: "arenas m x = None" using layout_arena [OF lay, of x] g by (cases "arenas m x") auto
      show ?thesis
      proof (cases "G y")
        case None
        then have "live (arenas m) (descs m) y \<noteq> None" using ay by (simp add: areas_def)
        then show ?thesis using px nx by (simp add: live_def)
      next
        case (Some h)
        then have "y mod PGSIZE = 0" using layout_region [OF lay region_group [OF lay Some]] by blast
        then show ?thesis using px by (simp add: pg_round_down_def)
      qed
    qed
    have "G b = None" "G c = None" using group [of b c] group [of c b] r(3) q(3) True b c n by (auto simp del: not_None_eq)
    then have lb: "live (arenas m) (descs m) b = Some k" and lc: "live (arenas m) (descs m) c = Some l" using b c by (simp_all add: areas_def)
    from lay sl lb show ?thesis
    proof (cases rule: live_cases)
      case (slot a ar d j)
      note sb = slot
      from lay sl lc show ?thesis
      proof (cases rule: live_cases)
        case (slot a' ar' d' j')
        then have eq: "a' = a" "d' = d" "j' \<noteq> j" using sb r(3) q(3) True n by auto
        then have "(j + 1) * BS d \<le> j' * BS d \<or> (j' + 1) * BS d \<le> j * BS d" by (cases "j < j'") (auto intro: mult_le_mono1 simp: Suc_leI simp del: mult_Suc)
        then show ?thesis using sb slot eq by (auto simp: block_at_def)
      next
        case (big a' ar')
        then show ?thesis using sb r(3) q(3) True by simp
      qed
    next
      case (big a ar)
      note sb = big
      from lay sl lc show ?thesis
      proof (cases rule: live_cases)
        case (slot a' ar' d' j')
        then show ?thesis using sb r(3) q(3) True by simp
      next
        case (big a' ar')
        then show ?thesis using sb r(3) q(3) True n by simp
      qed
    qed
  qed
qed

text \<open>\<open>keeps A m m'\<close>: the bytes of the areas \<open>A\<close> are the same.\<close>

definition keeps :: "(addr \<rightharpoonup> nat) \<Rightarrow> memory \<Rightarrow> memory \<Rightarrow> bool" where
  "keeps A m m' \<longleftrightarrow> (\<forall>b k x. A b = Some k \<longrightarrow> x \<in> {b..<b + k} \<longrightarrow> ram m' x = ram m x)"

lemma keeps_ram: "(\<And>x. ram m' x = ram m x) \<Longrightarrow> keeps A m m'"
  by (simp add: keeps_def)

lemma keepsI:
  assumes "\<And>x. x \<notin> X \<Longrightarrow> ram m' x = ram m x" and "\<And>b k. A b = Some k \<Longrightarrow> {b..<b + k} \<inter> X = {}"
  shows "keeps A m m'"
  using assms unfolding keeps_def by blast

lemma keepsD: "keeps A m m' \<Longrightarrow> A b = Some k \<Longrightarrow> x \<in> {b..<b + k} \<Longrightarrow> ram m' x = ram m x"
  unfolding keeps_def by blast

lemma kheap_keeps_trans: "keeps A m m1 \<Longrightarrow> keeps A m1 m2 \<Longrightarrow> keeps A m m2"
  unfolding keeps_def by simp

lemma kheap_keeps_mono: "keeps A m m' \<Longrightarrow> (\<And>b k. B b = Some k \<Longrightarrow> A b = Some k) \<Longrightarrow> keeps B m m'"
  unfolding keeps_def by blast

lemma fresh_area:
  assumes i: "inv E G m" and g: "got p p' a n" "p = kernel_pool m \<or> p = user_pool m" and b: "areas G m b = Some k"
  shows "{b..<b + k} \<inter> pages a n = {}"
proof -
  obtain r e where r: "region (arenas m) G r = Some e" "{b..<b + k} \<subseteq> pages r e" by (rule area_region [OF i b])
  then show ?thesis using fresh_region [OF inv_layout [OF i] g r(1)] by blast
qed

subsection \<open>Finding the arena of a block\<close>

lemma minus64_diff: "y \<le> x \<Longrightarrow> x < 2 ^ 64 \<Longrightarrow> minus64 x y = x - y"
  unfolding minus64_def by (metis Nat.diff_add_assoc2 less_imp_diff_less mod_add_self2 mod_less)

lemma pg_ofs_less: "pg_ofs b < 2 ^ 64"
proof -
  have "pg_ofs b < PGSIZE" by (simp add: pg_ofs_def PGSIZE_val)
  also have "PGSIZE < 2 ^ 64" by (simp add: PGSIZE_val)
  finally show ?thesis .
qed

lemma block_to_arena_slot:
  assumes a: "arenas m a = Some ar" "magic ar = ARENA_MAGIC" "desc_of ar = Some d" "a mod PGSIZE = 0" "0 < a" and j: "j < BPA d"
    and x: "get_desc m d = Some x" "block_size x = BS d"
  shows "block_to_arena m (block_at a d j) = Some (a, ar)"
proof -
  note p = block_at_page [OF a(4) j]
  have "minus64 (pg_ofs (block_at a d j)) ARENA_SIZE = j * BS d" using pg_ofs_less [of "block_at a d j"] by (subst minus64_diff) (simp_all add: p(2))
  then show ?thesis using a x unfolding block_to_arena_def Let_def p(1) by simp
qed

lemma block_to_arena_big:
  assumes a: "arenas m a = Some ar" "magic ar = ARENA_MAGIC" "desc_of ar = None" "a mod PGSIZE = 0" "0 < a"
  shows "block_to_arena m (a + ARENA_SIZE) = Some (a, ar)"
  using assms unfolding block_to_arena_def Let_def big_page [OF a(4)] by simp

lemma inv_block_slot:
  assumes i: "inv E G m" and a: "arenas m a = Some ar" "desc_of ar = Some d" and j: "j < BPA d"
  shows "block_to_arena m (block_at a d j) = Some (a, ar)" "get_desc m d = Some (descs m ! d)" "block_size (descs m ! d) = BS d"
    "blocks_per_arena (descs m ! d) = BPA d" "d < 7"
proof -
  note s = inv_slabs [OF i] and l = inv_layout [OF i]
  show d: "d < 7" using slabs_arena(2) [OF s a] by blast
  show g: "get_desc m d = Some (descs m ! d)" by (rule get_desc_slabs [OF s d])
  show b: "block_size (descs m ! d) = BS d" "blocks_per_arena (descs m ! d) = BPA d" using slabs_descs [OF s] d by simp_all
  show "block_to_arena m (block_at a d j) = Some (a, ar)"
    by (rule block_to_arena_slot [OF a(1) slabs_arena(1) [OF s a(1)] a(2) _ _ j g b(1)])
      (use arena_aligned [OF l a(1)] arena_range [OF l a(1)] in auto)
qed

lemma size_of_block_run:
  assumes i: "inv E G m" and b: "live (arenas m) (descs m) b = Some n"
  shows "size_of_block m b = Some n"
  using inv_layout [OF i] inv_slabs [OF i] b
proof (cases rule: live_cases)
  case (slot a ar d j)
  note f = inv_block_slot [OF i slot(1,2,4)]
  show ?thesis using slot f unfolding size_of_block_def by simp
next
  case (big a ar)
  note al = arena_aligned [OF inv_layout [OF i] big(1)] and rg = arena_range [OF inv_layout [OF i] big(1)]
  have bta: "block_to_arena m b = Some (a, ar)" unfolding big(3)
    by (rule block_to_arena_big [OF big(1) slabs_arena(1) [OF inv_slabs [OF i] big(1)] big(2)]) (use al rg in auto)
  have e: "extent ar = free_cnt ar" using big(2) by (simp add: extent_def)
  have "PGSIZE * free_cnt ar < 2 ^ 64" using rg e by auto
  moreover have "ARENA_SIZE \<le> PGSIZE * free_cnt ar" using al e by (cases "free_cnt ar") (auto simp: PGSIZE_val ARENA_SIZE_def)
  ultimately show ?thesis using big bta al unfolding size_of_block_def by (simp add: big_page minus64_diff)
qed

subsection \<open>Loops over the blocks of an arena\<close>

lemma with_blocks_twice: "with_blocks (with_blocks ds d xs) d ys = with_blocks ds d ys"
  by (cases "d < length ds") (simp_all add: with_blocks_def not_less list_update_beyond)

lemma with_blocks_same: "with_blocks ds d (blocks ds d) = ds"
  by (simp add: with_blocks_def)

lemma with_blocks_desc:
  "d < length ds \<Longrightarrow> block_size (with_blocks ds d bs ! d) = block_size (ds ! d)"
  "d < length ds \<Longrightarrow> blocks_per_arena (with_blocks ds d bs ! d) = blocks_per_arena (ds ! d)"
  "length (with_blocks ds d bs) = length ds"
  by (simp_all add: with_blocks_def)

lemma arena_to_block_run:
  assumes "arenas m a = Some ar" "magic ar = ARENA_MAGIC" "desc_of ar = Some d" "0 < a" "get_desc m d = Some x" "block_size x = BS d"
    "blocks_per_arena x = BPA d" "i < BPA d"
  shows "arena_to_block m a i = Some (block_at a d i)"
  using assms by (simp add: arena_to_block_def block_at_def)

lemma add_blocks_run:
  assumes "layout G (kernel_pool m) (user_pool m) (arenas m)" "arenas m a = Some ar" "magic ar = ARENA_MAGIC" "desc_of ar = Some d"
    and "length (descs m) = 7" "d < 7" "block_size (descs m ! d) = BS d" "blocks_per_arena (descs m ! d) = BPA d" "i + n \<le> BPA d"
  shows "\<exists>m'. add_blocks m d a i n = Some m' \<and> kernel_pool m' = kernel_pool m \<and> user_pool m' = user_pool m \<and> arenas m' = arenas m \<and>
    descs m' = with_blocks (descs m) d (blocks (descs m) d @ map (block_at a d) [i..<i + n]) \<and> (\<forall>x. x \<notin> pages a 1 \<longrightarrow> ram m' x = ram m x)"
  using assms
proof (induction n arbitrary: m i)
  case 0
  then show ?case by (simp add: with_blocks_same)
next
  case (Suc n)
  note lay = Suc.prems(1) and ar = Suc.prems(2)
  have i: "i < BPA d" using Suc.prems(9) by simp
  have g: "get_desc m d = Some (descs m ! d)" using Suc.prems(5,6) by (simp add: get_desc_def)
  have ab: "arena_to_block m a i = Some (block_at a d i)"
    by (rule arena_to_block_run [OF ar Suc.prems(3,4) _ g Suc.prems(7,8) i]) (use arena_range [OF lay ar] in auto)
  let ?m = "put_free_list (put_links m (block_at a d i)) d (blocks (descs m) d @ [block_at a d i])"
  have "block_at a d i + 16 \<le> a + PGSIZE" using slot_fits [OF i] BS_pos(3) [of d] unfolding block_at_def by linarith
  then have inside: "{block_at a d i..<block_at a d i + 16} \<subseteq> pages a 1" by (auto simp: block_at_def)
  have "extent ar = 1" using Suc.prems(4) by (simp add: extent_def)
  then have "region (arenas m) G a = Some 1" using region_arena [where H = "arenas m", OF ar] by simp
  then have "wiped (arenas m) (block_at a d i) 16 = arenas m"
    by (rule wiped_inside [OF lay _ inside]) (simp add: block_at_def)
  then have f: "arenas ?m = arenas m" "kernel_pool ?m = kernel_pool m" "user_pool ?m = user_pool m"
    "descs ?m = with_blocks (descs m) d (blocks (descs m) d @ [block_at a d i])"
    by (simp_all add: put_links_def)
  have r: "x \<notin> pages a 1 \<Longrightarrow> ram ?m x = ram m x" for x
  proof -
    assume "x \<notin> pages a 1"
    then have "x \<notin> {block_at a d i..<block_at a d i + 16}" using inside by blast
    then show ?thesis by (auto simp: put_links_def write_bytes_def)
  qed
  have dl: "d < length (descs m)" using Suc.prems(5,6) by simp
  have "\<exists>m'. add_blocks ?m d a (i + 1) n = Some m' \<and> kernel_pool m' = kernel_pool ?m \<and> user_pool m' = user_pool ?m \<and> arenas m' = arenas ?m \<and>
    descs m' = with_blocks (descs ?m) d (blocks (descs ?m) d @ map (block_at a d) [i + 1..<i + 1 + n]) \<and> (\<forall>x. x \<notin> pages a 1 \<longrightarrow> ram m' x = ram ?m x)"
    by (rule Suc.IH) (use Suc.prems f dl in \<open>simp_all add: with_blocks_desc\<close>)
  then obtain m' where m': "add_blocks ?m d a (i + 1) n = Some m'" "kernel_pool m' = kernel_pool ?m" "user_pool m' = user_pool ?m" "arenas m' = arenas ?m"
    "descs m' = with_blocks (descs ?m) d (blocks (descs ?m) d @ map (block_at a d) [i + 1..<i + 1 + n])" "\<forall>x. x \<notin> pages a 1 \<longrightarrow> ram m' x = ram ?m x"
    by blast
  have "add_blocks m d a i (Suc n) = Some m'" using ab g m'(1) by (simp del: put_free_list_fields descs_put_free_list)
  moreover have u: "[i..<i + Suc n] = i # [i + 1..<i + 1 + n]" by (simp add: upt_conv_Cons del: upt_Suc)
  have "descs m' = with_blocks (descs m) d (blocks (descs m) d @ map (block_at a d) [i..<i + Suc n])"
    using m'(5) dl unfolding u f(4) by (simp add: with_blocks_twice with_blocks_nth del: upt_Suc)
  ultimately show ?case using m' f r by (intro exI [of _ m']) auto
qed

lemma remove_blocks_run:
  assumes "arenas m a = Some ar" "magic ar = ARENA_MAGIC" "desc_of ar = Some d" "0 < a"
    and "length (descs m) = 7" "d < 7" "block_size (descs m ! d) = BS d" "blocks_per_arena (descs m ! d) = BPA d" "i + n \<le> BPA d"
    and "distinct (blocks (descs m) d)" "\<And>j. i \<le> j \<Longrightarrow> j < i + n \<Longrightarrow> block_at a d j \<in> set (blocks (descs m) d)"
  shows "remove_blocks m d a i n = Some (put_free_list m d (filter (\<lambda>b. b \<notin> block_at a d ` {i..<i + n}) (blocks (descs m) d)))"
  using assms
proof (induction n arbitrary: m i)
  case 0
  have "put_free_list m d (blocks (descs m) d) = m" by (simp add: put_free_list_def)
  then show ?case by simp
next
  case (Suc n)
  have i: "i < BPA d" using Suc.prems(9) by simp
  have g: "get_desc m d = Some (descs m ! d)" using Suc.prems(5,6) by (simp add: get_desc_def)
  have ab: "arena_to_block m a i = Some (block_at a d i)"
    by (rule arena_to_block_run [OF Suc.prems(1-4) g Suc.prems(7,8) i])
  have mem: "block_at a d i \<in> set (blocks (descs m) d)" by (rule Suc.prems(11)) simp_all
  let ?bs = "remove1 (block_at a d i) (blocks (descs m) d)"
  let ?m = "put_free_list m d ?bs"
  have dl: "d < length (descs m)" using Suc.prems(5,6) by simp
  have bl: "blocks (descs ?m) d = ?bs" using dl by (simp add: with_blocks_nth)
  have rest: "?bs = filter (\<lambda>b. b \<noteq> block_at a d i) (blocks (descs m) d)" using Suc.prems(10) by (rule distinct_remove1_removeAll [THEN trans]) (simp add: removeAll_filter_not_eq eq_commute)
  have "remove_blocks ?m d a (i + 1) n = Some (put_free_list ?m d (filter (\<lambda>b. b \<notin> block_at a d ` {i + 1..<i + 1 + n}) (blocks (descs ?m) d)))"
    by (rule Suc.IH) (use Suc.prems dl in \<open>simp_all add: bl with_blocks_desc\<close>, auto simp: rest with_blocks_nth)
  moreover have "filter (\<lambda>b. b \<notin> block_at a d ` {i + 1..<i + 1 + n}) ?bs = filter (\<lambda>b. b \<notin> block_at a d ` {i..<i + Suc n}) (blocks (descs m) d)"
  proof -
    have "{i..<i + Suc n} = insert i {i + 1..<i + 1 + n}" by auto
    then show ?thesis unfolding rest filter_filter by (intro filter_cong refl) auto
  qed
  moreover have "put_free_list ?m d ys = put_free_list m d ys" for ys using dl by (simp add: put_free_list_def)
  ultimately have "remove_blocks ?m d a (i + 1) n = Some (put_free_list m d (filter (\<lambda>b. b \<notin> block_at a d ` {i..<i + Suc n}) (blocks (descs m) d)))"
    using bl by simp
  then show ?case using ab g mem by (simp del: put_free_list_fields descs_put_free_list)
qed

lemma find_desc_run:
  "find_desc xs i n = i + k \<Longrightarrow> k \<le> length xs \<and> (k < length xs \<longrightarrow> n \<le> block_size (xs ! k)) \<and> (\<forall>j<k. block_size (xs ! j) < n)"
proof (induction xs arbitrary: i k)
  case (Cons x xs)
  show ?case
  proof (cases "block_size x \<ge> n")
    case False
    have "find_desc xs (i + 1) n \<ge> i + 1" by (induction xs arbitrary: i) (auto, metis Suc_leD)
    then obtain l where l: "find_desc xs (i + 1) n = i + 1 + l" using le_Suc_ex by blast
    with False Cons.prems have k: "k = Suc l" by simp
    from Cons.IH [OF l] show ?thesis using False k by (auto simp: less_Suc_eq_0_disj)
  qed (use Cons.prems in auto)
qed simp

lemma find_desc_ge: "i \<le> find_desc xs i n"
  by (induction xs arbitrary: i) (auto, metis Suc_leD)

lemma find_desc_inv:
  assumes s: "slabs E H ds" and d: "d = find_desc ds 0 n"
  shows "d \<le> 7" "d < 7 \<Longrightarrow> n \<le> BS d" "d = 7 \<Longrightarrow> 1024 < n" "length ds = 7"
proof -
  note f = find_desc_run [of ds 0 n d] and l = slabs_descs [OF s]
  show "length ds = 7" using l by simp
  show "d \<le> 7" "d < 7 \<Longrightarrow> n \<le> BS d" using f l d by auto
  assume "d = 7"
  then have "block_size (ds ! 6) < n" using f d by simp
  then show "1024 < n" using l by (simp add: BS_def)
qed

subsection \<open>Getting blocks\<close>

text \<open>The number of pages that a request needs when no free block fits.\<close>

definition pages_needed :: "nat \<Rightarrow> nat" where
  "pages_needed n = (if n \<le> 1024 then 1 else (n + ARENA_SIZE + PGSIZE - 1) div PGSIZE)"

text \<open>What \<open>malloc\<close> promises: no block, or a new area of at least the size, and all areas as they were.\<close>

definition allocated :: "(addr \<rightharpoonup> nat) \<Rightarrow> memory \<Rightarrow> nat \<Rightarrow> addr \<Rightarrow> memory \<Rightarrow> bool" where
  "allocated G m n p m' \<longleftrightarrow> inv {} G m' \<and> keeps (areas G m) m m' \<and> pool_range (kernel_pool m') = pool_range (kernel_pool m) \<and> user_pool m' = user_pool m \<and>
     (if p = NULL then live (arenas m') (descs m') = live (arenas m) (descs m) \<and> (n = 0 \<or> \<not> has_room (kernel_pool m) (pages_needed n))
      else n \<noteq> 0 \<and> (\<exists>s\<ge>n. live (arenas m) (descs m) p = None \<and> live (arenas m') (descs m') = (live (arenas m) (descs m))(p \<mapsto> s)))"

lemma put_arena_fields [simp]:
  "kernel_pool (put_arena m a ar) = kernel_pool m" "user_pool (put_arena m a ar) = user_pool m" "descs (put_arena m a ar) = descs m"
  "arenas (put_arena m a ar) = (wiped (arenas m) a ARENA_SIZE)(a \<mapsto> ar)"
  by (simp_all add: put_arena_def)

lemma put_arena_ram: "x \<notin> {a..<a + ARENA_SIZE} \<Longrightarrow> ram (put_arena m a ar) x = ram m x"
  by (auto simp: put_arena_def write_bytes_def)

text \<open>The first block of a free list.\<close>

lemma pop_run:
  assumes i: "inv E G m" and E: "E \<subseteq> {pg_round_down b}" and d: "d < 7" and b: "blocks (descs m) d = b # bs"
  obtains ar where "block_to_arena (put_free_list m d bs) b = Some (pg_round_down b, ar)"
    "inv {} G ((put_free_list m d bs)\<lparr>arenas := (arenas m)(pg_round_down b \<mapsto> ar\<lparr>free_cnt := minus64 (free_cnt ar) 1\<rparr>)\<rparr>)"
    "live (arenas m) (descs m) b = None" "0 < b"
    "live ((arenas m)(pg_round_down b \<mapsto> ar\<lparr>free_cnt := minus64 (free_cnt ar) 1\<rparr>)) (with_blocks (descs m) d bs) = (live (arenas m) (descs m))(b \<mapsto> BS d)"
proof -
  note s = inv_slabs [OF i] and l = inv_layout [OF i]
  let ?a = "pg_round_down b"
  obtain ar j where ar: "arenas m ?a = Some ar" "desc_of ar = Some d" "j < BPA d" "b = block_at ?a d j"
    by (rule slabs_page [OF s l d, of b]) (use b in auto)
  note pop = slabs_pop [OF s l d b refl ar(1)]
  have cnt: "minus64 (free_cnt ar) 1 = free_cnt ar - 1"
    using slabs_arena(2) [OF s ar(1,2)] BPA_bound [of d] pop(2) by (intro minus64_diff) auto
  have dl: "d < length (descs m)" using slabs_len [OF s] d by simp
  have g: "get_desc (put_free_list m d bs) d = Some (with_blocks (descs m) d bs ! d)" using dl by (simp add: get_desc_def with_blocks_desc)
  have "block_to_arena (put_free_list m d bs) (block_at ?a d j) = Some (?a, ar)"
    by (rule block_to_arena_slot [OF _ slabs_arena(1) [OF s ar(1)] ar(2) _ _ ar(3) g])
      (use ar(1) arena_aligned [OF l ar(1)] arena_range [OF l ar(1)] slabs_descs [OF s] d dl in \<open>auto simp: with_blocks_desc\<close>)
  then have bta: "block_to_arena (put_free_list m d bs) b = Some (?a, ar)" using ar(4) by simp
  have "layout G (kernel_pool m) (user_pool m) ((arenas m)(?a \<mapsto> ar\<lparr>free_cnt := free_cnt ar - 1\<rparr>))"
    by (rule layout_header [where H = "arenas m", OF l ar(1)]) (simp add: extent_def ar(2))
  moreover have "slabs {} ((arenas m)(?a \<mapsto> ar\<lparr>free_cnt := free_cnt ar - 1\<rparr>)) (with_blocks (descs m) d bs)"
    using pop(1) E by (simp add: Diff_eq_empty_iff [THEN iffD2])
  ultimately have "inv {} G ((put_free_list m d bs)\<lparr>arenas := (arenas m)(?a \<mapsto> ar\<lparr>free_cnt := minus64 (free_cnt ar) 1\<rparr>)\<rparr>)"
    unfolding cnt by (simp add: inv_def)
  moreover have "0 < b" using ar(4) by (simp add: block_at_def ARENA_SIZE_def)
  ultimately show thesis using live_pop [OF s l d b refl ar(1)] unfolding cnt by (intro that [OF bta, unfolded cnt]) simp_all
qed

text \<open>A new arena for blocks of one size.\<close>

lemma new_arena_run:
  assumes i: "inv {} G m" and d: "d < 7" and e: "blocks (descs m) d = []" and g: "got (kernel_pool m) p' a 1"
  defines "m1 \<equiv> put_arena (set_pool m False p') a \<lparr>magic = ARENA_MAGIC, desc_of = Some d, free_cnt = BPA d\<rparr>"
  obtains m' where "add_blocks m1 d a 0 (BPA d) = Some m'" "inv {a} G m'" "live (arenas m') (descs m') = live (arenas m) (descs m)"
    "kernel_pool m' = p'" "user_pool m' = user_pool m" "blocks (descs m') d = map (block_at a d) [0..<BPA d]"
    "keeps (areas G m) m m'" "length (descs m') = 7"
proof -
  note s = inv_slabs [OF i] and l = inv_layout [OF i]
  let ?new = "\<lparr>magic = ARENA_MAGIC, desc_of = Some d, free_cnt = BPA d\<rparr>"
  let ?H = "(arenas m)(a \<mapsto> ?new)"
  have al: "a mod PGSIZE = 0" "0 < a" using g by (auto simp: got_def)
  have none: "arenas m a = None" "G a = None" using fresh_region_None [OF l g] by (auto simp: region_def split: option.splits)
  have "{a..<a + ARENA_SIZE} \<subseteq> pages a 1" by (auto simp: ARENA_SIZE_def PGSIZE_val)
  then have w: "wiped (arenas m) a ARENA_SIZE = arenas m" by (intro wiped_fresh [OF l g]) auto
  have f: "kernel_pool m1 = p'" "user_pool m1 = user_pool m" "descs m1 = descs m" "arenas m1 = ?H" unfolding m1_def by (simp_all add: set_pool_def w)
  have "region ?H G = (region (arenas m) G)(a \<mapsto> 1)" by (auto simp: region_def extent_def fun_eq_iff)
  then have lay: "layout G p' (user_pool m) ?H"
    by (intro layout_new [OF l g, of p' "user_pool m"]) (use none layout_arena [OF l] in \<open>auto simp: extent_def split: if_splits\<close>)
  note ds = slabs_descs [OF s]
  have "\<exists>m'. add_blocks m1 d a 0 (BPA d) = Some m' \<and> kernel_pool m' = kernel_pool m1 \<and> user_pool m' = user_pool m1 \<and> arenas m' = arenas m1 \<and>
    descs m' = with_blocks (descs m1) d (blocks (descs m1) d @ map (block_at a d) [0..<0 + BPA d]) \<and> (\<forall>x. x \<notin> pages a 1 \<longrightarrow> ram m' x = ram m1 x)"
    by (rule add_blocks_run [where G = G and ar = ?new]) (use lay ds d in \<open>simp_all add: f\<close>)
  then obtain m' where m': "add_blocks m1 d a 0 (BPA d) = Some m'" "kernel_pool m' = p'" "user_pool m' = user_pool m" "arenas m' = ?H"
    "descs m' = with_blocks (descs m) d (map (block_at a d) [0..<BPA d])" "\<forall>x. x \<notin> pages a 1 \<longrightarrow> ram m' x = ram m1 x"
    using f e by auto
  have "slabs {a} ?H (with_blocks (descs m) d (map (block_at a d) [0..<BPA d]))" by (rule slabs_new [OF s l d none(1) al(1) e])
  then have "inv {a} G m'" using lay m' by (simp add: inv_def)
  moreover have "live (arenas m') (descs m') = live (arenas m) (descs m)" using live_new [OF s d none(1) al(1) e] m' by simp
  moreover have "keeps (areas G m) m m'"
  proof (rule keepsI)
    fix x assume x: "x \<notin> pages a 1"
    then have "x \<notin> {a..<a + ARENA_SIZE}" by (auto simp: ARENA_SIZE_def PGSIZE_val)
    then have "ram m1 x = ram m x" unfolding m1_def by (simp add: put_arena_ram)
    then show "ram m' x = ram m x" using m'(6) x by simp
  next
    fix b k assume b: "areas G m b = Some k"
    show "{b..<b + k} \<inter> pages a 1 = {}" by (rule fresh_area [OF i g _ b]) simp
  qed
  moreover have "blocks (descs m') d = map (block_at a d) [0..<BPA d]" using m'(5) ds d by (simp add: with_blocks_nth)
  ultimately show thesis using that [OF m'(1)] m' ds by (simp add: with_blocks_desc)
qed

end
