(* ===== verification/KAllocMalloc.thy ===== *)
theory KAllocMalloc
  imports KAllocCalls
begin

text \<open>
  \<open>malloc\<close>, \<open>calloc\<close>, \<open>free\<close> and \<open>realloc\<close> of the kernel as operations on the map of the areas that were handed out.
\<close>

text \<open>Adding the header and rounding up to pages does not wrap around.\<close>

definition fits64 :: "nat \<Rightarrow> bool" where
  "fits64 n \<longleftrightarrow> n + ARENA_SIZE + PGSIZE \<le> 2 ^ 64"

lemma palloc_kernel:
  assumes p: "pool_wf (kernel_pool m)"
  obtains (found) a p' where "got (kernel_pool m) p' a n" "palloc_get_multiple m 0 n = Some (a, set_pool m False p')"
  | (full) "\<not> has_room (kernel_pool m) n" "palloc_get_multiple m 0 n = Some (NULL, m)"
proof -
  have "pool_wf (pool_of m False)" "False \<longleftrightarrow> 0 AND PAL_USER \<noteq> 0" using p by simp_all
  then show thesis
  proof (cases rule: palloc_get [where n = n])
    case (found a p')
    then show thesis using that(1) by simp
  next
    case full
    then show thesis using that(2) by simp
  qed
qed

text \<open>The step of \<open>malloc\<close> that takes the first block of a free list.\<close>

lemma take_block:
  assumes i: "inv E G m1" and E: "E \<subseteq> {pg_round_down b}" and d: "d < 7" and b: "blocks (descs m1) d = b # bs" and n: "0 < n" "n \<le> BS d"
    and m: "keeps (areas G m) m m1" "pool_range (kernel_pool m1) = pool_range (kernel_pool m)" "user_pool m1 = user_pool m"
      "live (arenas m1) (descs m1) = live (arenas m) (descs m)"
  shows "\<exists>m'. (do {
      x \<leftarrow> get_desc m1 d;
      case free_list x of
        [] \<Rightarrow> None
      | b # bs \<Rightarrow> do {
          let m = put_free_list m1 d bs;
          (a, ar) \<leftarrow> block_to_arena m b;
          Some (b, m\<lparr>arenas := (arenas m)(a \<mapsto> ar\<lparr>free_cnt := minus64 (free_cnt ar) 1\<rparr>)\<rparr>)
        }
    }) = Some (b, m') \<and> allocated G m n b m' \<and> b \<noteq> NULL"
proof -
  obtain ar where ar: "block_to_arena (put_free_list m1 d bs) b = Some (pg_round_down b, ar)"
    "inv {} G ((put_free_list m1 d bs)\<lparr>arenas := (arenas m1)(pg_round_down b \<mapsto> ar\<lparr>free_cnt := minus64 (free_cnt ar) 1\<rparr>)\<rparr>)" (is "inv _ _ ?m")
    "live (arenas m1) (descs m1) b = None" "0 < b"
    "live ((arenas m1)(pg_round_down b \<mapsto> ar\<lparr>free_cnt := minus64 (free_cnt ar) 1\<rparr>)) (with_blocks (descs m1) d bs) = (live (arenas m1) (descs m1))(b \<mapsto> BS d)"
    by (rule pop_run [OF i E d b])
  have g: "get_desc m1 d = Some (descs m1 ! d)" by (rule get_desc_slabs [OF inv_slabs [OF i] d])
  have "keeps (areas G m) m ?m" using m(1) by (simp add: keeps_def)
  then have "allocated G m n b ?m"
    using ar m n by (simp add: allocated_def) (rule exI [of _ "BS d"], simp)
  then show ?thesis using g b ar(1,4) by simp
qed

lemma allocated_null:
  assumes "inv {} G m" "n = 0 \<or> \<not> has_room (kernel_pool m) (pages_needed n)"
  shows "allocated G m n NULL m"
  using assms by (simp add: allocated_def keeps_ram)

lemma malloc_big:
  assumes i: "inv {} G m" and n: "fits64 n" and nz: "n \<noteq> 0" and d_def: "d = find_desc (descs m) 0 n" and sz: "d = 7"
  shows "\<exists>p m'. malloc m n = Some (p, m') \<and> allocated G m n p m'"
proof -
  note s = inv_slabs [OF i] and l = inv_layout [OF i]
  have pw: "pool_wf (kernel_pool m)" using layout_pools [OF l] by blast
  note fd = find_desc_inv [OF s d_def]
  define c where "c = DIV_ROUND_UP ((n + ARENA_SIZE) mod 2 ^ 64) PGSIZE"
  have c: "c = pages_needed n" using n [unfolded fits64_def] fd(3) sz by (simp add: c_def DIV_ROUND_UP_def pages_needed_def PGSIZE_val ARENA_SIZE_def)
  have m: "malloc m n = Option.bind (palloc_get_multiple m 0 c) (\<lambda>(a, m). if a = NULL then Some (NULL, m)
        else Some (a + ARENA_SIZE, put_arena m a \<lparr>magic = ARENA_MAGIC, desc_of = None, free_cnt = c\<rparr>))"
    unfolding malloc_def d_def [symmetric] Let_def c_def [symmetric] using nz sz fd(4) by simp
  have pos: "0 < c" and size: "n + ARENA_SIZE \<le> PGSIZE * c"
    using fd(3) sz unfolding c by (simp_all add: pages_needed_def PGSIZE_val ARENA_SIZE_def)
  from pw show ?thesis
  proof (cases rule: palloc_kernel [where n = c])
    case (found a p')
    let ?new = "\<lparr>magic = ARENA_MAGIC, desc_of = None, free_cnt = c\<rparr>"
    let ?m = "put_arena (set_pool m False p') a ?new"
    note g = found(1)
    have al: "a mod PGSIZE = 0" "0 < a" using g by (auto simp: got_def)
    have none: "arenas m a = None" "G a = None" using fresh_region_None [OF l g _ pos] by (auto simp: region_def split: option.splits)
    have "PGSIZE * 1 \<le> PGSIZE * c" using pos by (intro mult_le_mono2) simp
    then have sub: "{a..<a + ARENA_SIZE} \<subseteq> pages a c" by (auto simp: ARENA_SIZE_def PGSIZE_val)
    then have w: "wiped (arenas m) a ARENA_SIZE = arenas m" by (intro wiped_fresh [OF l g]) auto
    have f: "kernel_pool ?m = p'" "user_pool ?m = user_pool m" "descs ?m = descs m" "arenas ?m = (arenas m)(a \<mapsto> ?new)"
      by (simp_all add: set_pool_def w)
    have "region ((arenas m)(a \<mapsto> ?new)) G = (region (arenas m) G)(a \<mapsto> c)" by (auto simp: region_def extent_def fun_eq_iff)
    then have "layout G p' (user_pool m) ((arenas m)(a \<mapsto> ?new))"
      by (intro layout_new [OF l g pos, of p' "user_pool m"]) (use none layout_arena [OF l] in \<open>auto simp: extent_def split: if_splits\<close>)
    then have "inv {} G ?m" unfolding inv_def f using slabs_big(1) [OF s l none(1)] by blast
    moreover have "keeps (areas G m) m ?m"
    proof (rule keepsI)
      fix x assume "x \<notin> pages a c"
      then show "ram ?m x = ram m x" using sub by (subst put_arena_ram) auto
    next
      fix b k assume b: "areas G m b = Some k"
      show "{b..<b + k} \<inter> pages a c = {}" by (rule fresh_area [OF i g _ b]) simp
    qed
    moreover note live_big_new(1) [where H = "arenas m" and n = c and ds = "descs m", OF none(1) al(1)]
      live_big_new(2) [where H = "arenas m" and ds = "descs m", OF none(1) al(1)]
    ultimately have "allocated G m n (a + ARENA_SIZE) ?m"
      using nz g size unfolding allocated_def f
      by (simp add: ARENA_SIZE_def) (rule conjI, simp add: got_def, rule exI [of _ "PGSIZE * c - 24"], simp add: PGSIZE_val ARENA_SIZE_def)
    then show ?thesis using m found(2) al(2) by simp
  next
    case full
    then show ?thesis using m allocated_null [OF i, of n] c by simp
  qed
qed

lemma malloc_small:
  assumes i: "inv {} G m" and nz: "n \<noteq> 0" and d_def: "d = find_desc (descs m) 0 n" and neq: "d \<noteq> 7"
  shows "\<exists>p m'. malloc m n = Some (p, m') \<and> allocated G m n p m'"
proof -
  note s = inv_slabs [OF i] and l = inv_layout [OF i]
  have pw: "pool_wf (kernel_pool m)" using layout_pools [OF l] by blast
  note fd = find_desc_inv [OF s d_def]
  then have d: "d < 7" using fd(1) neq by simp
  have size: "n \<le> BS d" by (rule fd(2) [OF d])
  have g: "get_desc m d = Some (descs m ! d)" by (rule get_desc_slabs [OF s d])
  have bpa: "blocks_per_arena (descs m ! d) = BPA d" using slabs_descs [OF s] d by simp
  show ?thesis
  proof (cases "blocks (descs m) d")
    case (Cons b bs)
    have "\<exists>m'. malloc m n = Some (b, m') \<and> allocated G m n b m' \<and> b \<noteq> NULL"
      using take_block [OF i _ d Cons _ size, of m] nz neq fd(4) g Cons
      by (simp add: malloc_def d_def [symmetric] Let_def keeps_ram)
    then show ?thesis by blast
  next
    case Nil
    have "BS d \<le> 2 ^ 10" unfolding BS_def using d by (intro power_increasing) auto
    then have need: "pages_needed n = 1" using size by (simp add: pages_needed_def)
    from pw show ?thesis
    proof (cases rule: palloc_kernel [where n = 1])
      case (found a p')
      obtain m1 where m1: "add_blocks (put_arena (set_pool m False p') a \<lparr>magic = ARENA_MAGIC, desc_of = Some d, free_cnt = BPA d\<rparr>) d a 0 (BPA d) = Some m1"
        "inv {a} G m1" "live (arenas m1) (descs m1) = live (arenas m) (descs m)" "kernel_pool m1 = p'" "user_pool m1 = user_pool m"
        "blocks (descs m1) d = map (block_at a d) [0..<BPA d]" "keeps (areas G m) m m1" "length (descs m1) = 7"
        by (rule new_arena_run [OF i d Nil found(1)])
      have al: "a mod PGSIZE = 0" "0 < a" using found(1) by (auto simp: got_def)
      have bl: "blocks (descs m1) d = block_at a d 0 # map (block_at a d) [1..<BPA d]"
        using m1(6) BPA_pos [OF d] by (simp add: upt_conv_Cons del: upt_Suc)
      have pr: "pg_round_down (block_at a d 0) = a" by (rule block_at_page(1) [OF al(1) BPA_pos [OF d]])
      have "pool_range (kernel_pool m1) = pool_range (kernel_pool m)" using m1(4) found(1) by (simp add: got_def)
      then have "\<exists>m'. malloc m n = Some (block_at a d 0, m') \<and> allocated G m n (block_at a d 0) m' \<and> block_at a d 0 \<noteq> NULL"
        using take_block [OF m1(2) _ d bl _ size m1(7) _ m1(5,3)] nz neq fd(4) g Nil found(2) m1(1) al(2) pr
        by (simp add: malloc_def d_def [symmetric] Let_def palloc_get_page_def bpa)
      then show ?thesis by blast
    next
      case full
      then have "malloc m n = Some (NULL, m)"
        using nz neq fd(4) g Nil by (simp add: malloc_def d_def [symmetric] Let_def palloc_get_page_def)
      then show ?thesis using allocated_null [OF i, of n] full need by simp
    qed
  qed
qed

lemma malloc_run:
  assumes "inv {} G m" "fits64 n"
  shows "\<exists>p m'. malloc m n = Some (p, m') \<and> allocated G m n p m'"
proof (cases "n = 0")
  case True
  then show ?thesis using allocated_null [OF assms(1)] by (simp add: malloc_def)
next
  case False
  then show ?thesis using malloc_big [OF assms False refl] malloc_small [OF assms(1) False refl] by blast
qed

subsection \<open>Giving blocks back\<close>

definition released :: "(addr \<rightharpoonup> nat) \<Rightarrow> memory \<Rightarrow> addr \<Rightarrow> memory \<Rightarrow> bool" where
  "released G m b m' \<longleftrightarrow> inv {} G m' \<and> live (arenas m') (descs m') = (live (arenas m) (descs m))(b := None) \<and>
     keeps ((areas G m)(b := None)) m m' \<and> pool_range (kernel_pool m') = pool_range (kernel_pool m) \<and> user_pool m' = user_pool m"

lemma slabs_shrink:
  assumes "slabs {a} H ds" "H a = Some ar" "desc_of ar = Some d" "free_cnt ar \<noteq> BPA d"
  shows "slabs {} H ds"
proof -
  have "x \<notin> {a}" if "H x = Some xr" "desc_of xr = Some e" "free_cnt xr = BPA e" for x xr e using that assms by auto
  then show ?thesis using assms(1) unfolding slabs_def by blast
qed

text \<open>Areas that the next state still has lie outside a region that it has not.\<close>

lemma area_outside_region:
  assumes i: "inv E G m" "inv E' G' m'" and a: "region (arenas m) G a = Some n" "region (arenas m') G' a = None"
    and r: "\<And>q. region (arenas m') G' q \<noteq> None \<Longrightarrow> region (arenas m) G q \<noteq> None"
    and b: "areas G m b = Some k" "areas G' m' b = Some k"
  shows "{b..<b + k} \<inter> pages a n = {}"
proof -
  obtain q e where q: "region (arenas m) G q = Some e" "{b..<b + k} \<subseteq> pages q e" "pg_round_down b = q" by (rule area_region [OF i(1) b(1)])
  obtain q' e' where q': "region (arenas m') G' q' = Some e'" "pg_round_down b = q'" by (rule area_region [OF i(2) b(2)])
  then have "q \<noteq> a" using a(2) q(3) by auto
  then show ?thesis using layout_apart [OF inv_layout [OF i(1)] q(1) a(1)] q(2) by blast
qed

lemma live_no_group: "inv E G m \<Longrightarrow> live (arenas m) (descs m) b = Some k \<Longrightarrow> G b = None"
proof (rule ccontr)
  assume i: "inv E G m" and b: "live (arenas m) (descs m) b = Some k" and "G b \<noteq> None"
  then obtain g where g: "G b = Some g" by auto
  note l = inv_layout [OF i]
  obtain a ar where a: "arenas m a = Some ar" "{b..<b + k} \<subseteq> {a + ARENA_SIZE..<a + PGSIZE * extent ar}" "pg_round_down b = a" "0 < k"
    by (rule live_inside [OF l inv_slabs [OF i] b])
  have "b mod PGSIZE = 0" using layout_region [OF l region_group [OF l g]] by blast
  then have "b = a" using a(3) by (simp add: pg_round_down_def)
  moreover have "b \<in> {b..<b + k}" using a(4) by simp
  ultimately show False using a(2) by (auto simp: ARENA_SIZE_def)
qed

lemma live_area: "inv E G m \<Longrightarrow> live (arenas m) (descs m) b = Some k \<Longrightarrow> areas G m b = Some k"
  using live_no_group [of E G m b k] by (simp add: areas_def)

text \<open>An arena without a block in use leaves the free list, and its page goes back.\<close>

lemma dissolve_arena:
  assumes i: "inv {a} G m" and a: "arenas m a = Some ar" "desc_of ar = Some d" "free_cnt ar = BPA d"
  obtains m' where "Option.bind (remove_blocks m d a 0 (BPA d)) (\<lambda>m. palloc_free_page m a) = Some m'" "inv {} G m'"
    "live (arenas m') (descs m') = live (arenas m) (descs m)" "arenas m' = (arenas m)(a := None)"
    "\<And>x. x \<notin> pages a 1 \<Longrightarrow> ram m' x = ram m x" "pool_range (kernel_pool m') = pool_range (kernel_pool m)" "user_pool m' = user_pool m"
proof -
  note s = inv_slabs [OF i] and l = inv_layout [OF i]
  have al: "a mod PGSIZE = 0" "0 < a" using arena_aligned [OF l a(1)] arena_range [OF l a(1)] by auto
  have d: "d < 7" using slabs_arena(2) [OF s a(1,2)] by blast
  have len: "length (descs m) = 7" "block_size (descs m ! d) = BS d" "blocks_per_arena (descs m ! d) = BPA d"
    using slabs_descs [OF s] d by simp_all
  note drop = live_drop [where H = "arenas m", OF s l a]
  let ?bs = "filter (\<lambda>b. pg_round_down b \<noteq> a) (blocks (descs m) d)"
  let ?m3 = "put_free_list m d ?bs"
  have "filter (\<lambda>b. b \<notin> block_at a d ` {0..<0 + BPA d}) (blocks (descs m) d) = ?bs"
  proof (rule filter_cong [OF refl])
    fix c assume c: "c \<in> set (blocks (descs m) d)"
    show "c \<notin> block_at a d ` {0..<0 + BPA d} \<longleftrightarrow> pg_round_down c \<noteq> a"
      using slabs_slots [OF s l d c] block_at_page(1) [OF al(1)] by auto
  qed
  then have rem: "remove_blocks m d a 0 (BPA d) = Some ?m3"
    using remove_blocks_run [OF a(1) slabs_arena(1) [OF s a(1)] a(2) al(2) len(1) d len(2,3) _ slabs_distinct [OF s d], of 0 "BPA d"] drop(2) by simp
  have reg: "region (arenas m) G a = Some 1" using a by (simp add: region_def extent_def)
  have t: "pages a 1 \<subseteq> taken (pool_of ?m3 False)" using layout_arena [OF l a(1)] a(2) by (simp add: extent_def)
  obtain p' where p': "gave (pool_of ?m3 False) p' a 1" "palloc_free_multiple ?m3 a 1 = Some (set_pool (memset ?m3 a 0xcc (PGSIZE * 1)) False p')"
    by (rule palloc_free [OF _ _ _ al(1) _ t]) (use layout_pools [OF l] in auto)
  let ?m4 = "set_pool (memset ?m3 a 0xcc (PGSIZE * 1)) False p'"
  have f: "arenas ?m4 = (arenas m)(a := None)" "kernel_pool ?m4 = p'" "user_pool ?m4 = user_pool m" "descs ?m4 = with_blocks (descs m) d ?bs"
    using wiped_region [OF l reg] by (simp_all add: memset_def set_pool_def)
  have gave: "gave (kernel_pool m) p' a 1" using p'(1) by simp
  have "layout (G(a := None)) p' (user_pool m) ((arenas m)(a := None))" by (rule layout_gone [OF l gave reg]) simp
  moreover have "G(a := None) = G" using layout_arena [OF l a(1)] by auto
  ultimately have "inv {} G ?m4" using slabs_drop [where H = "arenas m", OF s l a(1,2)] unfolding inv_def f by simp
  moreover have "live (arenas ?m4) (descs ?m4) = live (arenas m) (descs m)" unfolding f by (rule drop(1))
  moreover have "ram ?m4 x = ram m x" if "x \<notin> pages a 1" for x
    using that by (auto simp: memset_def write_bytes_def)
  moreover have "Option.bind (remove_blocks m d a 0 (BPA d)) (\<lambda>m. palloc_free_page m a) = Some ?m4"
    using rem p'(2) by (simp add: palloc_free_page_def)
  ultimately show thesis using that [of ?m4] f gave by (simp add: gave_def)
qed

text \<open>A block that is filled with a pattern and put on its free list.\<close>

definition put_back :: "memory \<Rightarrow> addr \<Rightarrow> nat \<Rightarrow> addr \<Rightarrow> arena \<Rightarrow> memory" where
  "put_back m b d a ar = (put_free_list (put_links (memset m b 0xcc (BS d)) b) d (b # blocks (descs m) d))
     \<lparr>arenas := (arenas m)(a \<mapsto> ar\<lparr>free_cnt := free_cnt ar + 1\<rparr>)\<rparr>"

lemma put_back_run:
  assumes i: "inv {} G m" and a: "arenas m a = Some ar" "desc_of ar = Some d" and j: "j < BPA d" and n: "block_at a d j \<notin> set (blocks (descs m) d)"
  defines "b \<equiv> block_at a d j"
  shows "free m b = (if BPA d \<le> free_cnt ar + 1 then do {
        assert_that (free_cnt ar + 1 = BPA d);
        m \<leftarrow> remove_blocks (put_back m b d a ar) d a 0 (BPA d);
        palloc_free_page m a
      } else Some (put_back m b d a ar))"
    and "inv {a} G (put_back m b d a ar)" "live (arenas (put_back m b d a ar)) (descs (put_back m b d a ar)) = (live (arenas m) (descs m))(b := None)"
    and "keeps ((areas G m)(b := None)) m (put_back m b d a ar)" "free_cnt ar + 1 \<le> BPA d" "live (arenas m) (descs m) b = Some (BS d)"
    and "kernel_pool (put_back m b d a ar) = kernel_pool m" "user_pool (put_back m b d a ar) = user_pool m"
proof -
  note s = inv_slabs [OF i] and l = inv_layout [OF i]
  note f = inv_block_slot [OF i a j, folded b_def]
  have al: "a mod PGSIZE = 0" using arena_aligned [OF l a(1)] by auto
  show lb: "live (arenas m) (descs m) b = Some (BS d)" using live_slot [where H = "arenas m", OF a j al] n by (simp add: b_def)
  note Gb = live_area [OF i lb]
  have reg: "region (arenas m) G a = Some 1" using a by (simp add: region_def extent_def)
  have bs: "b + BS d \<le> a + PGSIZE" using slot_fits [OF j] by (simp add: b_def block_at_def)
  moreover have "b + 16 \<le> a + PGSIZE" using bs BS_pos(3) [of d] by linarith
  ultimately have inside: "{b..<b + BS d} \<subseteq> pages a 1" "{b..<b + 16} \<subseteq> pages a 1" by (auto simp: b_def block_at_def)
  have behind: "a + ARENA_SIZE \<le> b" by (simp add: b_def block_at_def)
  have w: "wiped (arenas m) b (BS d) = arenas m" "wiped (arenas m) b 16 = arenas m"
    by (rule wiped_inside [OF l reg inside(1) behind], rule wiped_inside [OF l reg inside(2) behind])
  let ?m1 = "put_free_list (put_links (memset m b 0xcc (BS d)) b) d (b # blocks (descs m) d)"
  have f1: "arenas ?m1 = arenas m" "kernel_pool ?m1 = kernel_pool m" "user_pool ?m1 = user_pool m" "descs ?m1 = with_blocks (descs m) d (b # blocks (descs m) d)"
    by (simp_all add: put_links_def memset_def w)
  have ram1: "ram ?m1 x = ram m x" if "x \<notin> {b..<b + BS d}" for x
    using that by (auto simp: put_links_def memset_def write_bytes_def) (use BS_pos(3) [of d] in linarith)
  note sa = slabs_arena(2) [OF s a]
  have cnt: "(free_cnt ar + 1) mod 2 ^ 64 = free_cnt ar + 1" using sa BPA_bound [of d] by simp
  let ?ar = "ar\<lparr>free_cnt := free_cnt ar + 1\<rparr>"
  show "free m b = (if BPA d \<le> free_cnt ar + 1 then do {
        assert_that (free_cnt ar + 1 = BPA d);
        m \<leftarrow> remove_blocks (put_back m b d a ar) d a 0 (BPA d);
        palloc_free_page m a
      } else Some (put_back m b d a ar))"
  proof -
    have nz: "b \<noteq> NULL" by (simp add: b_def block_at_def ARENA_SIZE_def)
    have "arenas ?m1 a = Some ar" using f1(1) a(1) by simp
    moreover have "free_cnt ?ar = free_cnt ar + 1" by simp
    ultimately show ?thesis unfolding free_def put_back_def using nz f a(2) f1(1)
      by (simp only: Let_def cnt bind.simps prod.case option.case if_False)
  qed
  show "kernel_pool (put_back m b d a ar) = kernel_pool m" "user_pool (put_back m b d a ar) = user_pool m"
    using f1 by (simp_all add: put_back_def)
  have lay: "layout G (kernel_pool m) (user_pool m) ((arenas m)(a \<mapsto> ?ar))"
    by (rule layout_header [where H = "arenas m", OF l a(1)]) (simp add: extent_def a(2))
  have sl: "slabs {a} ((arenas m)(a \<mapsto> ?ar)) (with_blocks (descs m) d (b # blocks (descs m) d))"
    using slabs_push [OF s l a refl j n] by (simp add: b_def)
  show "inv {a} G (put_back m b d a ar)" unfolding inv_def put_back_def using lay sl f1 by simp
  show "live (arenas (put_back m b d a ar)) (descs (put_back m b d a ar)) = (live (arenas m) (descs m))(b := None)"
    using live_push [OF s l a refl j] f1(4) by (simp add: put_back_def b_def)
  show "keeps ((areas G m)(b := None)) m (put_back m b d a ar)"
  proof (rule keepsI [of "{b..<b + BS d}"])
    fix c k assume "((areas G m)(b := None)) c = Some k"
    then show "{c..<c + k} \<inter> {b..<b + BS d} = {}" using areas_disjoint [OF i _ Gb] by (auto split: if_splits)
  qed (use ram1 in \<open>simp add: put_back_def\<close>)
  show "free_cnt ar + 1 \<le> BPA d" using slabs_arena(2) [OF sl, of a ?ar d] a(2) by simp
qed

lemma free_slot:
  assumes i: "inv {} G m" and a: "arenas m a = Some ar" "desc_of ar = Some d" and j: "j < BPA d" and n: "block_at a d j \<notin> set (blocks (descs m) d)"
  shows "\<exists>m'. free m (block_at a d j) = Some m' \<and> released G m (block_at a d j) m'"
proof -
  let ?b = "block_at a d j"
  let ?m = "put_back m ?b d a ar" and ?ar = "ar\<lparr>free_cnt := free_cnt ar + 1\<rparr>"
  note pb = put_back_run [OF assms]
  have a2: "arenas ?m a = Some ?ar" "desc_of ?ar = Some d" using a by (simp_all add: put_back_def)
  have reg: "region (arenas m) G a = Some 1" using a by (simp add: region_def extent_def)
  show ?thesis
  proof (cases "free_cnt ar + 1 = BPA d")
    case False
    then have "free m ?b = Some ?m" using pb(1,5) by simp
    moreover have "slabs {} (arenas ?m) (descs ?m)"
      by (rule slabs_shrink [OF inv_slabs [OF pb(2)] a2]) (use False in simp)
    then have "inv {} G ?m" using inv_layout [OF pb(2)] by (simp add: inv_def)
    ultimately show ?thesis using pb(3,4,7,8) by (simp add: released_def)
  next
    case True
    obtain m' where m': "Option.bind (remove_blocks ?m d a 0 (BPA d)) (\<lambda>m. palloc_free_page m a) = Some m'" "inv {} G m'"
      "live (arenas m') (descs m') = live (arenas ?m) (descs ?m)" "arenas m' = (arenas ?m)(a := None)"
      "\<And>x. x \<notin> pages a 1 \<Longrightarrow> ram m' x = ram ?m x" "pool_range (kernel_pool m') = pool_range (kernel_pool ?m)" "user_pool m' = user_pool ?m"
      by (rule dissolve_arena [OF pb(2) a2]) (use True in simp_all)
    have Ga: "G a = None" using layout_arena [OF inv_layout [OF i] a(1)] by blast
    have "keeps ((areas G m)(?b := None)) m m'"
    proof (rule kheap_keeps_trans [OF pb(4)], rule keepsI [OF m'(5)])
      fix c k assume "((areas G m)(?b := None)) c = Some k"
      then have c: "c \<noteq> ?b" "areas G m c = Some k" by (auto split: if_splits)
      have c': "areas G m' c = Some k" using c m'(3) pb(3) by (auto simp: areas_def split: option.splits)
      show "{c..<c + k} \<inter> pages a 1 = {}"
        by (rule area_outside_region [OF i m'(2) reg _ _ c(2) c'])
          (use Ga m'(4) in \<open>auto simp: region_def put_back_def split: option.splits if_splits\<close>)
    qed
    moreover have "free m ?b = Some m'" using pb(1) True m'(1) by simp
    ultimately show ?thesis using m' pb(3,7,8) by (simp add: released_def)
  qed
qed

lemma free_big:
  assumes i: "inv {} G m" and a: "arenas m a = Some ar" "desc_of ar = None"
  shows "\<exists>m'. free m (a + ARENA_SIZE) = Some m' \<and> released G m (a + ARENA_SIZE) m'"
proof -
  note s = inv_slabs [OF i] and l = inv_layout [OF i]
  have al: "a mod PGSIZE = 0" "0 < a" "0 < extent ar" using arena_aligned [OF l a(1)] arena_range [OF l a(1)] by auto
  have e: "extent ar = free_cnt ar" using a(2) by (simp add: extent_def)
  have bta: "block_to_arena m (a + ARENA_SIZE) = Some (a, ar)"
    by (rule block_to_arena_big [OF a(1) slabs_arena(1) [OF s a(1)] a(2) al(1,2)])
  have t: "pages a (free_cnt ar) \<subseteq> taken (pool_of m False)" using layout_arena [OF l a(1)] e by simp
  obtain p' where p': "gave (pool_of m False) p' a (free_cnt ar)"
    "palloc_free_multiple m a (free_cnt ar) = Some (set_pool (memset m a 0xcc (PGSIZE * free_cnt ar)) False p')"
    by (rule palloc_free [OF _ _ _ al(1) _ t]) (use layout_pools [OF l] al(3) e in auto)
  let ?m = "set_pool (memset m a 0xcc (PGSIZE * free_cnt ar)) False p'"
  have reg: "region (arenas m) G a = Some (free_cnt ar)" using a e by (simp add: region_def)
  have w: "wiped (arenas m) a (PGSIZE * free_cnt ar) = (arenas m)(a := None)" by (rule wiped_region [OF l reg])
  have f: "arenas ?m = (arenas m)(a := None)" "kernel_pool ?m = p'" "user_pool ?m = user_pool m" "descs ?m = descs m"
    using w by (simp_all add: memset_def set_pool_def)
  have Ga: "G a = None" using layout_arena [OF l a(1)] by blast
  have gave: "gave (kernel_pool m) p' a (free_cnt ar)" using p'(1) by simp
  have "layout (G(a := None)) p' (user_pool m) ((arenas m)(a := None))" by (rule layout_gone [OF l gave reg]) simp
  moreover have "G(a := None) = G" using Ga by auto
  ultimately have i': "inv {} G ?m" unfolding inv_def f using slabs_big(2) [OF s l a] by simp
  have live': "live (arenas ?m) (descs ?m) = (live (arenas m) (descs m))(a + ARENA_SIZE := None)"
    unfolding f by (rule live_big_drop [where H = "arenas m", OF a al(1)])
  have k: "keeps ((areas G m)(a + ARENA_SIZE := None)) m ?m"
  proof (rule keepsI)
    fix x assume "x \<notin> pages a (free_cnt ar)"
    then show "ram ?m x = ram m x" by (auto simp: memset_def write_bytes_def set_pool_def)
  next
    fix c k assume "((areas G m)(a + ARENA_SIZE := None)) c = Some k"
    then have cb: "c \<noteq> a + ARENA_SIZE" "areas G m c = Some k" by (auto split: if_splits)
    have c': "areas G ?m c = Some k" using cb live' by (auto simp: areas_def split: option.splits)
    show "{c..<c + k} \<inter> pages a (free_cnt ar) = {}"
    proof (rule area_outside_region [OF i i' reg _ _ cb(2) c'])
      show "region (arenas ?m) G a = None" using Ga f(1) by (simp add: region_def)
      fix q assume "region (arenas ?m) G q \<noteq> None"
      then show "region (arenas m) G q \<noteq> None" unfolding f(1) by (auto simp: region_def split: option.splits if_splits)
    qed
  qed
  have "free m (a + ARENA_SIZE) = Some ?m" unfolding free_def using bta a(2) p'(2) by (simp add: ARENA_SIZE_def)
  moreover have "pool_range p' = pool_range (kernel_pool m)" using gave by (simp add: gave_def)
  ultimately show ?thesis using i' live' k f unfolding released_def by simp
qed

lemma free_run:
  assumes i: "inv {} G m" and b: "live (arenas m) (descs m) b = Some n"
  shows "\<exists>m'. free m b = Some m' \<and> released G m b m'"
  using inv_layout [OF i] inv_slabs [OF i] b
proof (cases rule: live_cases)
  case (slot a ar d j)
  then show ?thesis using free_slot [OF i slot(1,2,4)] by simp
next
  case (big a ar)
  then show ?thesis using free_big [OF i big(1,2)] by simp
qed

subsection \<open>Writing into an area\<close>

lemma areas_cong: "live (arenas m') (descs m') = live (arenas m) (descs m) \<Longrightarrow> areas G m' = areas G m"
  by (rule ext) (simp add: areas_def split: option.split)

lemma write_area:
  assumes i: "inv E G m" and b: "areas G m b = Some k" and s: "{p..<p + n} \<subseteq> {b..<b + k}"
  shows "inv E G (write_bytes m p n f)" "areas G (write_bytes m p n f) = areas G m" "live (arenas (write_bytes m p n f)) (descs m) = live (arenas m) (descs m)"
    "keeps ((areas G m)(b := None)) m (write_bytes m p n f)"
proof -
  obtain r e where r: "region (arenas m) G r = Some e" "{b..<b + k} \<subseteq> pages r e" "arenas m r \<noteq> None \<longrightarrow> r + ARENA_SIZE \<le> b"
    by (rule area_region [OF i b])
  have w: "wiped (arenas m) p n = arenas m"
  proof (cases "n = 0")
    case True
    then show ?thesis by (simp add: wiped_def)
  next
    case False
    then have "b \<le> p" using s by auto
    then show ?thesis by (intro wiped_inside [OF inv_layout [OF i] r(1)]) (use s r(2,3) in auto)
  qed
  then show "inv E G (write_bytes m p n f)" "live (arenas (write_bytes m p n f)) (descs m) = live (arenas m) (descs m)"
    using i by (simp_all add: inv_def)
  show "areas G (write_bytes m p n f) = areas G m" by (rule areas_cong) (simp add: w)
  show "keeps ((areas G m)(b := None)) m (write_bytes m p n f)"
  proof (rule keepsI)
    fix x assume "x \<notin> {b..<b + k}"
    then have "x \<notin> {p..<p + n}" using s by blast
    then show "ram (write_bytes m p n f) x = ram m x" by (auto simp: write_bytes_def)
  next
    fix c l assume "((areas G m)(b := None)) c = Some l"
    then show "{c..<c + l} \<inter> {b..<b + k} = {}" using areas_disjoint [OF i _ b] by (auto split: if_splits)
  qed
qed

lemma allocated_areas:
  assumes i: "inv {} G m" and a: "allocated G m n p m'"
  shows "p = NULL \<Longrightarrow> areas G m' = areas G m"
    and "p \<noteq> NULL \<Longrightarrow> \<exists>s\<ge>n. areas G m p = None \<and> areas G m' = (areas G m)(p \<mapsto> s) \<and> live (arenas m') (descs m') p = Some s"
proof -
  assume "p = NULL"
  then show "areas G m' = areas G m" using a by (intro areas_cong) (simp add: allocated_def)
next
  assume p: "p \<noteq> NULL"
  then obtain s where s: "n \<le> s" "live (arenas m) (descs m) p = None" "live (arenas m') (descs m') = (live (arenas m) (descs m))(p \<mapsto> s)"
    using a by (auto simp: allocated_def)
  have i': "inv {} G m'" using a by (simp add: allocated_def)
  have lp: "live (arenas m') (descs m') p = Some s" using s by simp
  have Gp: "G p = None" by (rule live_no_group [OF i' lp])
  have "areas G m' = (areas G m)(p \<mapsto> s)"
    using s Gp by (auto simp: areas_def fun_eq_iff split: option.splits)
  then show "\<exists>s\<ge>n. areas G m p = None \<and> areas G m' = (areas G m)(p \<mapsto> s) \<and> live (arenas m') (descs m') p = Some s"
    using s lp Gp by (intro exI [of _ s]) (simp add: areas_def)
qed

lemma released_areas:
  assumes i: "inv {} G m" and b: "live (arenas m) (descs m) b = Some k" and r: "released G m b m'"
  shows "areas G m' = (areas G m)(b := None)"
proof -
  have "G b = None" by (rule live_no_group [OF i b])
  then show ?thesis using r by (auto simp: released_def areas_def fun_eq_iff split: option.splits)
qed

subsection \<open>\<open>realloc\<close> and \<open>calloc\<close>\<close>

text \<open>A block of the user, or the null pointer.\<close>

definition owned :: "memory \<Rightarrow> addr \<Rightarrow> bool" where
  "owned m b \<longleftrightarrow> b = NULL \<or> live (arenas m) (descs m) b \<noteq> None"

lemma live_nonnull: "inv E G m \<Longrightarrow> live (arenas m) (descs m) b = Some k \<Longrightarrow> b \<noteq> NULL"
proof -
  assume i: "inv E G m" and b: "live (arenas m) (descs m) b = Some k"
  obtain a ar where a: "{b..<b + k} \<subseteq> {a + ARENA_SIZE..<a + PGSIZE * extent ar}" "0 < k"
    by (rule live_inside [OF inv_layout [OF i] inv_slabs [OF i] b])
  moreover have "b \<in> {b..<b + k}" using a(2) by simp
  ultimately show ?thesis by (auto simp: ARENA_SIZE_def)
qed

lemma calloc_run:
  assumes i: "inv {} G m" and n: "fits64 (a * b)"
  shows "\<exists>p m'. calloc m a b = Some (p, m') \<and> inv {} G m' \<and> keeps (areas G m) m m' \<and>
    (if p = NULL then areas G m' = areas G m
     else \<exists>s\<ge>a * b. areas G m p = None \<and> areas G m' = (areas G m)(p \<mapsto> s) \<and> (\<forall>x\<in>{p..<p + a * b}. ram m' x = Some 0))"
proof -
  have small: "a * b < 2 ^ 64" using n by (simp add: fits64_def PGSIZE_val)
  show ?thesis
  proof (cases "a * b < a \<or> a * b < b")
    case True
    then have "calloc m a b = Some (NULL, m)" using small by (simp add: calloc_def Let_def)
    then show ?thesis using i by (simp add: keeps_ram)
  next
    case False
    obtain p m1 where m1: "malloc m (a * b) = Some (p, m1)" "allocated G m (a * b) p m1"
      using malloc_run [OF i] n by blast
    have run: "calloc m a b = Some (p, if p \<noteq> NULL then memset m1 p 0 (a * b) else m1)"
      by (simp only: calloc_def Let_def mod_less [OF small] False if_False m1(1) bind.simps prod.case)
    have i1: "inv {} G m1" and k1: "keeps (areas G m) m m1" using m1(2) by (simp_all add: allocated_def)
    show ?thesis
    proof (cases "p = NULL")
      case True
      then show ?thesis using run i1 k1 allocated_areas(1) [OF i m1(2)] by simp
    next
      case False
      from allocated_areas(2) [OF i m1(2) False] obtain s where s: "s \<ge> a * b" "areas G m p = None" "areas G m1 = (areas G m)(p \<mapsto> s)" by blast
      have p1: "areas G m1 p = Some s" using s by simp
      have sub: "{p..<p + a * b} \<subseteq> {p..<p + s}" using s(1) by auto
      note w = write_area [OF i1 p1 sub, of "\<lambda>_. Some 0"]
      have "keeps (areas G m) m (memset m1 p 0 (a * b))"
      proof (rule kheap_keeps_trans [OF k1])
        show "keeps (areas G m) m1 (memset m1 p 0 (a * b))"
          unfolding memset_def by (rule kheap_keeps_mono [OF w(4)]) (use s in \<open>auto split: if_splits\<close>)
      qed
      moreover have "\<forall>x\<in>{p..<p + a * b}. ram (memset m1 p 0 (a * b)) x = Some 0" by (simp add: memset_def write_bytes_def)
      moreover have "inv {} G (memset m1 p 0 (a * b))" "areas G (memset m1 p 0 (a * b)) = (areas G m)(p \<mapsto> s)"
        using w(1,2) s by (simp_all add: memset_def)
      ultimately have "inv {} G (memset m1 p 0 (a * b)) \<and> keeps (areas G m) m (memset m1 p 0 (a * b)) \<and> (\<exists>s\<ge>a * b. areas G m p = None \<and>
          areas G (memset m1 p 0 (a * b)) = (areas G m)(p \<mapsto> s) \<and> (\<forall>x\<in>{p..<p + a * b}. ram (memset m1 p 0 (a * b)) x = Some 0))"
        using s by blast
      then show ?thesis using run False by (intro exI [of _ p] exI [of _ "memset m1 p 0 (a * b)"]) simp
    qed
  qed
qed

lemma free_owned:
  assumes i: "inv {} G m" and b: "owned m b"
  shows "\<exists>m'. free m b = Some m' \<and> inv {} G m' \<and> areas G m' = (areas G m)(b := None) \<and> keeps ((areas G m)(b := None)) m m'"
proof (cases "live (arenas m) (descs m) b")
  case None
  then have "b = NULL" using b by (simp add: owned_def)
  moreover have "areas G m NULL = None"
  proof (cases "G NULL")
    case (Some g)
    note l = inv_layout [OF i]
    have "pages NULL g \<subseteq> pool_range (kernel_pool m) \<union> pool_range (user_pool m)" "0 < g"
      using layout_region [OF l region_group [OF l Some]] by (auto simp: taken_def)
    moreover have "NULL \<in> pages NULL g" using calculation by (simp add: PGSIZE_val)
    ultimately have "NULL \<in> pool_range (kernel_pool m) \<union> pool_range (user_pool m)" by blast
    then show ?thesis using layout_pools [OF l] by (auto simp: pool_range_def pool_wf_def)
  qed (use None \<open>b = NULL\<close> in \<open>simp add: areas_def\<close>)
  ultimately show ?thesis using i by (simp add: free_def keeps_ram fun_upd_idem)
next
  case (Some k)
  then obtain m' where m': "free m b = Some m'" "released G m b m'" using free_run [OF i] by blast
  then show ?thesis using released_areas [OF i Some m'(2)] by (simp add: released_def)
qed

lemma realloc_run:
  assumes i: "inv {} G m" and b: "owned m b" and n: "fits64 n"
  shows "\<exists>p m'. realloc m b n = Some (p, m') \<and> inv {} G m' \<and>
    (if n = 0 then p = NULL \<and> areas G m' = (areas G m)(b := None) \<and> keeps ((areas G m)(b := None)) m m'
     else if p = NULL then areas G m' = areas G m \<and> keeps (areas G m) m m'
     else \<exists>s\<ge>n. areas G m p = None \<and> areas G m' = (areas G m)(b := None, p \<mapsto> s) \<and> keeps ((areas G m)(b := None)) m m' \<and>
       (\<forall>k x. areas G m b = Some k \<longrightarrow> x < min n k \<longrightarrow> ram m' (p + x) = ram m (b + x)))"
proof (cases "n = 0")
  case True
  then show ?thesis using free_owned [OF i b] by (auto simp: realloc_def)
next
  case nz: False
  obtain p m1 where m1: "malloc m n = Some (p, m1)" "allocated G m n p m1"
    using malloc_run [OF i] n by blast
  have i1: "inv {} G m1" and k1: "keeps (areas G m) m m1" using m1(2) by (simp_all add: allocated_def)
  consider (none) "p = NULL" | (new) "p \<noteq> NULL" "b = NULL" | (move) "p \<noteq> NULL" "b \<noteq> NULL" by blast
  then show ?thesis
  proof cases
    case none
    then have "realloc m b n = Some (NULL, m1)" using m1(1) nz by (simp add: realloc_def)
    then show ?thesis using nz none i1 k1 allocated_areas(1) [OF i m1(2)] by simp
  next
    case new
    from allocated_areas(2) [OF i m1(2) new(1)] obtain s where s: "s \<ge> n" "areas G m p = None" "areas G m1 = (areas G m)(p \<mapsto> s)" by blast
    obtain m0 where "areas G m0 = (areas G m)(b := None)" "free m b = Some m0" using free_owned [OF i b] by blast
    then have nb: "areas G m b = None" using new(2) by (simp add: free_def) (metis fun_upd_same)
    have "realloc m b n = Some (p, m1)" using m1(1) nz new by (simp add: realloc_def)
    then show ?thesis using nz new s i1 k1 nb by (simp add: fun_upd_idem) blast
  next
    case move
    then obtain k where k: "live (arenas m) (descs m) b = Some k" using b by (auto simp: owned_def)
    have ab: "areas G m b = Some k" by (rule live_area [OF i k])
    from allocated_areas(2) [OF i m1(2) move(1)] obtain s where s: "s \<ge> n" "areas G m p = None" "areas G m1 = (areas G m)(p \<mapsto> s)" by blast
    have pb: "p \<noteq> b" using s ab by auto
    have lb1: "live (arenas m1) (descs m1) b = Some k" using m1(2) move(1) k pb by (auto simp: allocated_def)
    let ?l = "if n < k then n else k"
    let ?m2 = "memcpy m1 p b ?l"
    have sub: "{p..<p + ?l} \<subseteq> {p..<p + s}" using s(1) by auto
    have p1: "areas G m1 p = Some s" and b1: "areas G m1 b = Some k" using s ab pb by auto
    note w = write_area [OF i1 p1 sub, of "\<lambda>i. ram m1 (b + i)", folded memcpy_def]
    have d2: "descs ?m2 = descs m1" by (simp add: memcpy_def)
    have "owned ?m2 b" using w(3) lb1 d2 by (simp add: owned_def)
    from free_owned [OF w(1) this] obtain m3 where m3: "free ?m2 b = Some m3" "inv {} G m3" "areas G m3 = (areas G ?m2)(b := None)"
      "keeps ((areas G ?m2)(b := None)) ?m2 m3" by blast
    have run: "realloc m b n = Some (p, m3)"
      using m1(1) nz move size_of_block_run [OF i1 lb1] m3(1) by (simp add: realloc_def Let_def)
    have A3: "areas G m3 = (areas G m)(b := None, p \<mapsto> s)" using m3(3) w(2) s pb by (simp add: fun_upd_twist)
    have keep: "keeps ((areas G m)(b := None)) m m3"
      unfolding keeps_def
    proof (intro allI impI)
      fix c l x assume c: "((areas G m)(b := None)) c = Some l" and x: "x \<in> {c..<c + l}"
      then have cb: "c \<noteq> b" "areas G m c = Some l" "c \<noteq> p" using s(2) by (auto split: if_splits)
      have "ram m1 x = ram m x" by (rule keepsD [OF k1 cb(2) x])
      moreover have "ram ?m2 x = ram m1 x" by (rule keepsD [OF w(4) _ x]) (use cb s in simp)
      moreover have "ram m3 x = ram ?m2 x" by (rule keepsD [OF m3(4) _ x]) (use cb s w(2) in simp)
      ultimately show "ram m3 x = ram m x" by simp
    qed
    have copy: "ram m3 (p + x) = ram m (b + x)" if "x < min n k" for x
    proof -
      have x: "x < ?l" using that by auto
      have "ram m3 (p + x) = ram ?m2 (p + x)" by (rule keepsD [OF m3(4), of p s]) (use p1 w(2) pb x sub in auto)
      also have "\<dots> = ram m1 (b + x)" using x by (simp add: memcpy_def write_bytes_def)
      also have "\<dots> = ram m (b + x)" by (rule keepsD [OF k1 ab]) (use that in simp)
      finally show ?thesis .
    qed
    show ?thesis
      using run m3(2) A3 keep copy nz move(1) s(1,2) ab by (intro exI [of _ p] exI [of _ m3]) auto
  qed
qed

end
