(* ===== verification/KAllocProps.thy ===== *)
theory KAllocProps
  imports KAllocMalloc
begin

text \<open>
  The properties of the kernel's allocators: any sequence of well-behaved calls of both allocators acts on the areas that were
  handed out as a map from addresses to contents (\<open>kernel_heap_refines\<close>), and what happens when the size of a request is close
  to the largest number (\<open>malloc_wraps\<close>).
\<close>

subsection \<open>Groups of pages\<close>

lemma got_new_region:
  assumes i: "inv {} G m" and g: "got (pool_of m user) p' a n" and n: "0 < n"
  shows "inv {} (G(a \<mapsto> n)) (set_pool m user p')" "arenas m a = None" "G a = None"
    "areas (G(a \<mapsto> n)) (set_pool m user p') = (areas G m)(a \<mapsto> PGSIZE * n)" "areas G m a = None"
proof -
  note l = inv_layout [OF i]
  have which: "pool_of m user = kernel_pool m \<or> pool_of m user = user_pool m" by simp
  have r: "region (arenas m) G a = None" by (rule fresh_region_None [OF l g which n])
  then show H: "arenas m a = None" and Ga: "G a = None" by (auto simp: region_def split: option.splits)
  have "region (arenas m) (G(a \<mapsto> n)) = (region (arenas m) G)(a \<mapsto> n)" using H by (auto simp: region_def fun_eq_iff split: option.split)
  then have "layout (G(a \<mapsto> n)) (kernel_pool (set_pool m user p')) (user_pool (set_pool m user p')) (arenas m)"
    by (intro layout_new [OF l g n]) (use H layout_arena [OF l] in \<open>auto simp: set_pool_def split: if_splits\<close>)
  then show "inv {} (G(a \<mapsto> n)) (set_pool m user p')" using inv_slabs [OF i] by (simp add: inv_def)
  have al: "a mod PGSIZE = 0" using g by (simp add: got_def)
  then show "areas G m a = None" using Ga H by (simp add: areas_def live_def pg_round_down_def)
  show "areas (G(a \<mapsto> n)) (set_pool m user p') = (areas G m)(a \<mapsto> PGSIZE * n)"
    by (rule ext) (simp add: areas_def split: option.split)
qed

lemma get_pages_run:
  assumes i: "inv {} G m" and n: "0 < n" and f: "flags AND PAL_ASSERT = 0"
  shows "\<exists>p m'. palloc_get_multiple m flags n = Some (p, m') \<and>
    (if p = NULL then m' = m \<and> \<not> has_room (pool_of m (flags AND PAL_USER \<noteq> 0)) n
     else inv {} (G(p \<mapsto> n)) m' \<and> areas G m p = None \<and> G p = None \<and> areas (G(p \<mapsto> n)) m' = (areas G m)(p \<mapsto> PGSIZE * n) \<and> keeps (areas G m) m m' \<and>
       (flags AND PAL_ZERO \<noteq> 0 \<longrightarrow> (\<forall>x\<in>pages p n. ram m' x = Some 0)))"
proof -
  let ?user = "flags AND PAL_USER \<noteq> 0"
  have "pool_wf (pool_of m ?user)" "?user \<longleftrightarrow> flags AND PAL_USER \<noteq> 0" using layout_pools [OF inv_layout [OF i]] by simp_all
  then show ?thesis
  proof (cases rule: palloc_get [where n = n and flags = flags])
    case (found a p')
    let ?m1 = "set_pool m ?user p'"
    note new = got_new_region [OF i found(1) n]
    have a0: "a \<noteq> NULL" using found(1) by (simp add: got_def)
    have k1: "keeps (areas G m) m ?m1" by (rule keeps_ram) simp
    show ?thesis
    proof (cases "flags AND PAL_ZERO \<noteq> 0")
      case False
      then show ?thesis using found(3) new a0 k1 by (intro exI [of _ a] exI [of _ ?m1]) simp
    next
      case True
      have area: "areas (G(a \<mapsto> n)) ?m1 a = Some (PGSIZE * n)" using new(4) by simp
      note w = write_area [OF new(1) area subset_refl, of "\<lambda>_. Some 0", folded memset_def]
      have "keeps (areas G m) ?m1 (memset ?m1 a 0 (PGSIZE * n))"
        by (rule kheap_keeps_mono [OF w(4)]) (use new(4,5) in auto)
      then have k: "keeps (areas G m) m (memset ?m1 a 0 (PGSIZE * n))" by (rule kheap_keeps_trans [OF k1])
      have z: "\<forall>x\<in>pages a n. ram (memset ?m1 a 0 (PGSIZE * n)) x = Some 0" by (simp add: memset_def write_bytes_def)
      have run: "palloc_get_multiple m flags n = Some (a, memset ?m1 a 0 (PGSIZE * n))" using found(3) True by simp
      have ar: "areas (G(a \<mapsto> n)) (memset ?m1 a 0 (PGSIZE * n)) = (areas G m)(a \<mapsto> PGSIZE * n)" using w(2) new(4) by simp
      show ?thesis using run w(1) ar k z new(3,5) a0 by (intro exI [of _ a] exI [of _ "memset ?m1 a 0 (PGSIZE * n)"]) simp
    qed
  next
    case full
    then show ?thesis using f by simp
  qed
qed

lemma free_pages_run:
  assumes i: "inv {} G m" and g: "G a = Some n"
  shows "\<exists>m'. palloc_free_multiple m a n = Some m' \<and> inv {} (G(a := None)) m' \<and> areas (G(a := None)) m' = (areas G m)(a := None) \<and>
    keeps ((areas G m)(a := None)) m m'"
proof -
  note l = inv_layout [OF i]
  note reg = region_group [OF l g]
  have al: "0 < n" "a mod PGSIZE = 0" "pages a n \<subseteq> taken (kernel_pool m) \<or> pages a n \<subseteq> taken (user_pool m)"
    using layout_region [OF l reg] by auto
  define user where "user \<longleftrightarrow> \<not> pages a n \<subseteq> taken (kernel_pool m)"
  have t: "pages a n \<subseteq> taken (pool_of m user)" using al(3) by (auto simp: user_def)
  obtain p' where p': "gave (pool_of m user) p' a n" "palloc_free_multiple m a n = Some (set_pool (memset m a 0xcc (PGSIZE * n)) user p')"
    by (rule palloc_free [OF _ _ _ al(2,1) t]) (use layout_pools [OF l] in auto)
  let ?m = "set_pool (memset m a 0xcc (PGSIZE * n)) user p'"
  have H: "arenas m a = None" using layout_arena [OF l, of a] g by (cases "arenas m a") auto
  have same: "(arenas m)(a := None) = arenas m" using H by auto
  have w: "wiped (arenas m) a (PGSIZE * n) = arenas m" using wiped_region [OF l reg] same by simp
  have f: "arenas ?m = arenas m" "descs ?m = descs m" using w by (simp_all add: memset_def)
  have "layout (G(a := None)) (kernel_pool ?m) (user_pool ?m) ((arenas m)(a := None))"
    by (rule layout_gone [OF l p'(1) reg]) (simp add: set_pool_def memset_def)
  then have i': "inv {} (G(a := None)) ?m" using inv_slabs [OF i] f same by (simp add: inv_def)
  have "pg_round_down a = a" using al(2) by (simp add: pg_round_down_def)
  then have "live (arenas m) (descs m) a = None" using H by (simp add: live_def)
  then have ar: "areas (G(a := None)) ?m = (areas G m)(a := None)" unfolding areas_def f by (intro ext) (simp split: option.split)
  have area: "areas G m a = Some (PGSIZE * n)" using g by (simp add: areas_def)
  have "keeps ((areas G m)(a := None)) m ?m"
    using write_area(4) [OF i area subset_refl, of "\<lambda>_. Some 0xcc"] by (simp add: keeps_def memset_def)
  then show ?thesis using p'(2) i' ar by (intro exI [of _ ?m]) simp
qed

subsection \<open>Well-behaved users\<close>

datatype kcall =
    KMalloc nat | KCalloc nat nat | KRealloc addr nat | KFree addr
  | GetPages "32 word" nat | FreePages addr | Store addr nat "8 word list"

text \<open>A call, and the groups of pages that the users know they have.\<close>

fun call :: "(addr \<rightharpoonup> nat) \<Rightarrow> memory \<Rightarrow> kcall \<Rightarrow> (addr \<times> (addr \<rightharpoonup> nat) \<times> memory) option" where
  "call G m (KMalloc n) = map_option (\<lambda>(p, m). (p, G, m)) (malloc m n)"
| "call G m (KCalloc a b) = map_option (\<lambda>(p, m). (p, G, m)) (calloc m a b)"
| "call G m (KRealloc p n) = map_option (\<lambda>(p, m). (p, G, m)) (realloc m p n)"
| "call G m (KFree p) = map_option (\<lambda>m. (NULL, G, m)) (free m p)"
| "call G m (GetPages flags n) = map_option (\<lambda>(p, m). (p, if p = NULL then G else G(p \<mapsto> n), m)) (palloc_get_multiple m flags n)"
| "call G m (FreePages p) = map_option (\<lambda>m. (NULL, G(p := None), m)) (palloc_free_multiple m p (the (G p)))"
| "call G m (Store p i bs) = Some (NULL, G, write_bytes m (p + i) (length bs) (\<lambda>j. Some (bs ! j)))"

text \<open>
  Sizes are not so large that adding a header and rounding up to pages wraps around, and pointers are those of blocks and groups
  that the user has.
\<close>

fun legal :: "(addr \<rightharpoonup> nat) \<Rightarrow> memory \<Rightarrow> kcall \<Rightarrow> bool" where
  "legal G m (KMalloc n) = fits64 n"
| "legal G m (KCalloc a b) = fits64 (a * b)"
| "legal G m (KRealloc p n) = (owned m p \<and> fits64 n)"
| "legal G m (KFree p) = owned m p"
| "legal G m (GetPages flags n) = (0 < n \<and> flags AND PAL_ASSERT = 0)"
| "legal G m (FreePages p) = (G p \<noteq> None)"
| "legal G m (Store p i bs) = (case areas G m p of None \<Rightarrow> False | Some k \<Rightarrow> i + length bs \<le> k)"

text \<open>What the users see: the contents of the areas they have, \<open>None\<close> for a byte that was not written since.\<close>

definition contents :: "(addr \<rightharpoonup> nat) \<Rightarrow> memory \<Rightarrow> addr \<rightharpoonup> 8 word option list" where
  "contents G m p = map_option (\<lambda>k. map (ram m) [p..<p + k]) (areas G m p)"

fun spec :: "(addr \<rightharpoonup> 8 word option list) \<Rightarrow> kcall \<Rightarrow> addr \<Rightarrow> (addr \<rightharpoonup> 8 word option list) \<Rightarrow> bool" where
  "spec A (KMalloc n) p A' \<longleftrightarrow> (if p = NULL then A' = A else A p = None \<and> (\<exists>bs. n \<le> length bs \<and> A' = A(p \<mapsto> bs)))"
| "spec A (KCalloc a b) p A' \<longleftrightarrow> (if p = NULL then A' = A
     else A p = None \<and> (\<exists>bs. a * b \<le> length bs \<and> take (a * b) bs = replicate (a * b) (Some 0) \<and> A' = A(p \<mapsto> bs)))"
| "spec A (KRealloc q n) p A' \<longleftrightarrow> (if n = 0 then p = NULL \<and> A' = A(q := None) else if p = NULL then A' = A
     else A p = None \<and> (\<exists>bs. n \<le> length bs \<and> A' = A(q := None, p \<mapsto> bs) \<and>
       (\<forall>xs. A q = Some xs \<longrightarrow> take (min n (length xs)) bs = take n xs)))"
| "spec A (KFree q) p A' \<longleftrightarrow> A' = A(q := None)"
| "spec A (GetPages flags n) p A' \<longleftrightarrow> (if p = NULL then A' = A
     else A p = None \<and> (\<exists>bs. length bs = PGSIZE * n \<and> (flags AND PAL_ZERO \<noteq> 0 \<longrightarrow> bs = replicate (PGSIZE * n) (Some 0)) \<and> A' = A(p \<mapsto> bs)))"
| "spec A (FreePages q) p A' \<longleftrightarrow> A' = A(q := None)"
| "spec A (Store q i bs) p A' \<longleftrightarrow> A' = A(q := map_option (\<lambda>xs. take i xs @ map Some bs @ drop (i + length bs) xs) (A q))"

lemma contents_Some: "areas G m p = Some k \<Longrightarrow> contents G m p = Some (map (ram m) [p..<p + k])"
  by (simp add: contents_def)

lemma contents_None: "areas G m p = None \<longleftrightarrow> contents G m p = None"
  by (simp add: contents_def)

text \<open>Areas whose bytes are kept have the same contents.\<close>

lemma contents_keeps:
  assumes "keeps B m m'" "areas G' m' p = areas G m p" "\<And>k. areas G m p = Some k \<Longrightarrow> B p = Some k"
  shows "contents G' m' p = contents G m p"
proof (cases "areas G m p")
  case (Some k)
  have "map (ram m') [p..<p + k] = map (ram m) [p..<p + k]"
    by (rule map_cong [OF refl]) (use keepsD [OF assms(1) assms(3) [OF Some]] in auto)
  then show ?thesis using Some assms(2) by (simp add: contents_def)
qed (use assms in \<open>simp add: contents_def\<close>)

lemma contents_new:
  assumes "keeps (areas G m) m m'" "areas G' m' = (areas G m)(p \<mapsto> k)" "areas G m p = None"
  shows "contents G' m' = (contents G m)(p \<mapsto> map (ram m') [p..<p + k])"
proof
  fix q
  show "contents G' m' q = ((contents G m)(p \<mapsto> map (ram m') [p..<p + k])) q"
  proof (cases "q = p")
    case True
    then show ?thesis using assms(2) by (simp add: contents_def)
  next
    case False
    then show ?thesis using contents_keeps [OF assms(1), of G' q G] assms(2) by simp
  qed
qed

lemma contents_gone:
  assumes "keeps ((areas G m)(p := None)) m m'" "areas G' m' = (areas G m)(p := None)"
  shows "contents G' m' = (contents G m)(p := None)"
proof
  fix q
  show "contents G' m' q = ((contents G m)(p := None)) q"
  proof (cases "q = p")
    case True
    then show ?thesis using assms(2) by (simp add: contents_def)
  next
    case False
    then show ?thesis using contents_keeps [OF assms(1), of G' q G] assms(2) by simp
  qed
qed

lemma contents_same: "keeps (areas G m) m m' \<Longrightarrow> areas G' m' = areas G m \<Longrightarrow> contents G' m' = contents G m"
  by (rule ext) (rule contents_keeps, auto)

subsection \<open>The calls refine the map\<close>

text \<open>Each call does what the map says.\<close>

abbreviation refines :: "(addr \<rightharpoonup> nat) \<Rightarrow> memory \<Rightarrow> kcall \<Rightarrow> bool" where
  "refines G m c \<equiv> \<exists>p G' m'. call G m c = Some (p, G', m') \<and> inv {} G' m' \<and> spec (contents G m) c p (contents G' m')"

lemma refines_KMalloc:
  assumes i: "inv {} G m" and c: "legal G m c" and KMalloc: "c = KMalloc n"
  shows "refines G m c"
proof -
  from KMalloc obtain p m' where m': "malloc m n = Some (p, m')" "allocated G m n p m'" using malloc_run [OF i, of n] c by auto
  have k: "keeps (areas G m) m m'" "inv {} G m'" using m'(2) by (simp_all add: allocated_def)
  show ?thesis
  proof (cases "p = NULL")
    case True
    then show ?thesis using KMalloc m' k contents_same [OF k(1) allocated_areas(1) [OF i m'(2) True]] by simp
  next
    case False
    from allocated_areas(2) [OF i m'(2) False] obtain s where s: "s \<ge> n" "areas G m p = None" "areas G m' = (areas G m)(p \<mapsto> s)" by blast
    then have "spec (contents G m) c p (contents G m')"
      using KMalloc False s contents_new [OF k(1) s(3,2)]
      by (simp add: contents_None [symmetric]) (rule exI [of _ "map (ram m') [p..<p + s]"], simp)
    then show ?thesis using KMalloc m' k by simp
  qed
qed

lemma refines_KCalloc:
  assumes i: "inv {} G m" and c: "legal G m c" and KCalloc: "c = KCalloc a b"
  shows "refines G m c"
proof -
  from calloc_run [OF i] c KCalloc obtain p m' where m': "calloc m a b = Some (p, m')" "inv {} G m'" "keeps (areas G m) m m'"
    "if p = NULL then areas G m' = areas G m
     else \<exists>s\<ge>a * b. areas G m p = None \<and> areas G m' = (areas G m)(p \<mapsto> s) \<and> (\<forall>x\<in>{p..<p + a * b}. ram m' x = Some 0)" by auto blast
  show ?thesis
  proof (cases "p = NULL")
    case True
    then show ?thesis using KCalloc m' contents_same [OF m'(3)] by simp
  next
    case False
    then obtain s where s: "s \<ge> a * b" "areas G m p = None" "areas G m' = (areas G m)(p \<mapsto> s)" "\<forall>x\<in>{p..<p + a * b}. ram m' x = Some 0"
      using m'(4) by auto
    have "take (a * b) (map (ram m') [p..<p + s]) = replicate (a * b) (Some 0)"
      by (rule nth_equalityI) (use s in auto)
    then have "spec (contents G m) c p (contents G m')"
      using KCalloc False s(1,2) contents_new [OF m'(3) s(3,2)]
      by (simp only: spec.simps if_False contents_None [symmetric] simp_thms) (rule exI [of _ "map (ram m') [p..<p + s]"], simp)
    then show ?thesis using KCalloc m' by simp
  qed
qed

lemma refines_KRealloc:
  assumes i: "inv {} G m" and c: "legal G m c" and KRealloc: "c = KRealloc q n"
  shows "refines G m c"
proof -
  from KRealloc have legal: "owned m q" "fits64 n" using c by simp_all
  obtain p m' where m': "realloc m q n = Some (p, m')" "inv {} G m'"
    and r: "if n = 0 then p = NULL \<and> areas G m' = (areas G m)(q := None) \<and> keeps ((areas G m)(q := None)) m m'
     else if p = NULL then areas G m' = areas G m \<and> keeps (areas G m) m m'
     else \<exists>s\<ge>n. areas G m p = None \<and> areas G m' = (areas G m)(q := None, p \<mapsto> s) \<and> keeps ((areas G m)(q := None)) m m' \<and>
       (\<forall>k x. areas G m q = Some k \<longrightarrow> x < min n k \<longrightarrow> ram m' (p + x) = ram m (q + x))"
    using realloc_run [OF i legal] by blast
  consider (zero) "n = 0" | (none) "n \<noteq> 0" "p = NULL" | (moved) "n \<noteq> 0" "p \<noteq> NULL" by blast
  then have "spec (contents G m) c p (contents G m')"
  proof cases
    case zero
    then show ?thesis using KRealloc r contents_gone [of G m q m' G] by simp
  next
    case none
    then show ?thesis using KRealloc r contents_same [of G m m' G] by simp
  next
    case moved
    then obtain s where s: "s \<ge> n" "areas G m p = None" "areas G m' = (areas G m)(q := None, p \<mapsto> s)" "keeps ((areas G m)(q := None)) m m'"
      "\<And>k x. areas G m q = Some k \<Longrightarrow> x < min n k \<Longrightarrow> ram m' (p + x) = ram m (q + x)" using r by auto
    let ?bs = "map (ram m') [p..<p + s]"
    have "contents G m' = (contents G m)(q := None, p \<mapsto> ?bs)"
    proof
      fix x
      show "contents G m' x = ((contents G m)(q := None, p \<mapsto> ?bs)) x"
      proof (cases "x = p \<or> x = q")
        case True
        then show ?thesis using s(3) by (auto simp: contents_def)
      next
        case False
        then show ?thesis using contents_keeps [OF s(4), of G x G] s(3) by simp
      qed
    qed
    moreover have "take (min n (length xs)) ?bs = take n xs" if xs: "contents G m q = Some xs" for xs
    proof -
      obtain k where k: "areas G m q = Some k" "xs = map (ram m) [q..<q + k]" using xs by (auto simp: contents_def)
      show ?thesis by (rule nth_equalityI) (use k s(1) s(5) [OF k(1)] in auto)
    qed
    moreover have "n \<le> length ?bs" using s(1) by simp
    moreover have "contents G m p = None" using s(2) contents_None by blast
    ultimately show ?thesis using KRealloc moved by (simp only: spec.simps if_False) blast
  qed
  then show ?thesis using KRealloc m' by simp
qed

lemma refines_KFree:
  assumes i: "inv {} G m" and c: "legal G m c" and KFree: "c = KFree q"
  shows "refines G m c"
proof -
  from KFree obtain m' where m': "free m q = Some m'" "inv {} G m'" "areas G m' = (areas G m)(q := None)" "keeps ((areas G m)(q := None)) m m'"
    using free_owned [OF i] c by auto
  then show ?thesis using KFree contents_gone [OF m'(4,3)] by simp
qed

lemma refines_GetPages:
  assumes i: "inv {} G m" and c: "legal G m c" and GetPages: "c = GetPages flags n"
  shows "refines G m c"
proof -
  from GetPages have legal: "0 < n" "flags AND PAL_ASSERT = 0" using c by simp_all
  obtain p m' where m': "palloc_get_multiple m flags n = Some (p, m')"
    and r: "if p = NULL then m' = m \<and> \<not> has_room (pool_of m (flags AND PAL_USER \<noteq> 0)) n
     else inv {} (G(p \<mapsto> n)) m' \<and> areas G m p = None \<and> G p = None \<and> areas (G(p \<mapsto> n)) m' = (areas G m)(p \<mapsto> PGSIZE * n) \<and> keeps (areas G m) m m' \<and>
       (flags AND PAL_ZERO \<noteq> 0 \<longrightarrow> (\<forall>x\<in>pages p n. ram m' x = Some 0))"
    using get_pages_run [OF i legal] by blast
  show ?thesis
  proof (cases "p = NULL")
    case True
    then show ?thesis using GetPages m' r i by simp
  next
    case False
    then have r': "inv {} (G(p \<mapsto> n)) m'" "areas G m p = None" "areas (G(p \<mapsto> n)) m' = (areas G m)(p \<mapsto> PGSIZE * n)" "keeps (areas G m) m m'"
      "flags AND PAL_ZERO \<noteq> 0 \<Longrightarrow> \<forall>x\<in>pages p n. ram m' x = Some 0" using r by auto
    have "flags AND PAL_ZERO \<noteq> 0 \<longrightarrow> map (ram m') [p..<p + PGSIZE * n] = replicate (PGSIZE * n) (Some 0)"
      using r'(5) by (intro impI nth_equalityI) auto
    then have "spec (contents G m) c p (contents (G(p \<mapsto> n)) m')"
      using GetPages False contents_new [OF r'(4,3,2)] r'(2)
      by (simp only: spec.simps if_False contents_None [symmetric] simp_thms) (rule exI [of _ "map (ram m') [p..<p + PGSIZE * n]"], simp)
    then show ?thesis using GetPages m' r'(1) False by simp
  qed
qed

lemma refines_FreePages:
  assumes i: "inv {} G m" and c: "legal G m c" and FreePages: "c = FreePages q"
  shows "refines G m c"
proof -
  from FreePages obtain n where n: "G q = Some n" using c by auto
  then obtain m' where m': "palloc_free_multiple m q n = Some m'" "inv {} (G(q := None)) m'" "areas (G(q := None)) m' = (areas G m)(q := None)"
    "keeps ((areas G m)(q := None)) m m'" using free_pages_run [OF i] by blast
  then show ?thesis using FreePages n contents_gone [OF m'(4,3)] by simp
qed

lemma refines_Store:
  assumes i: "inv {} G m" and c: "legal G m c" and Store: "c = Store q j bs"
  shows "refines G m c"
proof -
  from Store obtain k where k: "areas G m q = Some k" "j + length bs \<le> k" using c by (auto split: option.splits)
  have sub: "{q + j..<q + j + length bs} \<subseteq> {q..<q + k}" using k(2) by auto
  let ?m = "write_bytes m (q + j) (length bs) (\<lambda>i. Some (bs ! i))"
  note w = write_area [OF i k(1) sub, of "\<lambda>i. Some (bs ! i)"]
  have "map (ram ?m) [q..<q + k] = take j (map (ram m) [q..<q + k]) @ map Some bs @ drop (j + length bs) (map (ram m) [q..<q + k])"
    by (rule nth_equalityI) (use k(2) in \<open>auto simp: write_bytes_def nth_append\<close>)
  then have "contents G ?m = (contents G m)(q := map_option (\<lambda>xs. take j xs @ map Some bs @ drop (j + length bs) xs) (contents G m q))"
    using k(1) w(2) contents_keeps [OF w(4), of G _ G] by (auto simp: contents_Some fun_eq_iff)
  then show ?thesis using Store w(1) by simp
qed

lemma call_spec: "inv {} G m \<Longrightarrow> legal G m c \<Longrightarrow> refines G m c"
  by (cases c) (blast intro: refines_KMalloc refines_KCalloc refines_KRealloc refines_KFree refines_GetPages refines_FreePages refines_Store)+

text \<open>A sequence of calls; \<open>lawful\<close> says that each of them is legal when it is made.\<close>

fun calls :: "(addr \<rightharpoonup> nat) \<Rightarrow> memory \<Rightarrow> kcall list \<Rightarrow> (addr list \<times> (addr \<rightharpoonup> nat) \<times> memory) option" where
  "calls G m [] = Some ([], G, m)"
| "calls G m (c # cs) = do {
     (p, G, m) \<leftarrow> call G m c;
     (ps, G, m) \<leftarrow> calls G m cs;
     Some (p # ps, G, m)
   }"

fun lawful :: "(addr \<rightharpoonup> nat) \<Rightarrow> memory \<Rightarrow> kcall list \<Rightarrow> bool" where
  "lawful G m [] = True"
| "lawful G m (c # cs) = (legal G m c \<and> (case call G m c of None \<Rightarrow> True | Some (p, G', m') \<Rightarrow> lawful G' m' cs))"

inductive specs :: "(addr \<rightharpoonup> 8 word option list) \<Rightarrow> kcall list \<Rightarrow> addr list \<Rightarrow> (addr \<rightharpoonup> 8 word option list) \<Rightarrow> bool" where
  specs_nil: "specs A [] [] A"
| specs_cons: "spec A c p A1 \<Longrightarrow> specs A1 cs ps A2 \<Longrightarrow> specs A (c # cs) (p # ps) A2"

lemma calls_spec:
  assumes "inv {} G m" "lawful G m cs"
  shows "\<exists>ps G' m'. calls G m cs = Some (ps, G', m') \<and> inv {} G' m' \<and> specs (contents G m) cs ps (contents G' m')"
  using assms
proof (induction cs arbitrary: G m)
  case Nil
  then show ?case by (auto intro: specs_nil)
next
  case (Cons c cs)
  then have "legal G m c" by simp
  from call_spec [OF Cons.prems(1) this] obtain p G1 m1 where c: "call G m c = Some (p, G1, m1)" "inv {} G1 m1" "spec (contents G m) c p (contents G1 m1)" by blast
  have "lawful G1 m1 cs" using Cons.prems(2) c(1) by simp
  from Cons.IH [OF c(2) this] obtain ps G2 m2 where "calls G1 m1 cs = Some (ps, G2, m2)" "inv {} G2 m2" "specs (contents G1 m1) cs ps (contents G2 m2)" by blast
  then show ?case using c by (auto intro: specs_cons)
qed

text \<open>The state after \<open>malloc_init\<close>, with two pools and no arena.\<close>

lemma malloc_init_run:
  "malloc_init m = Some (m\<lparr>descs := map (\<lambda>d. \<lparr>block_size = BS d, blocks_per_arena = BPA d, free_list = []\<rparr>) [0..<7]\<rparr>)"
proof -
  have "malloc_init_loop 16 [] = Some (map (\<lambda>d. \<lparr>block_size = BS d, blocks_per_arena = BPA d, free_list = []\<rparr>) [0..<7])"
    by (simp add: malloc_init_loop.simps PGSIZE_val ARENA_SIZE_def BS_def BPA_def upt_rec)
  then show ?thesis by (simp add: malloc_init_def)
qed

lemma malloc_init_inv:
  assumes "malloc_init m = Some m'" "pool_wf (kernel_pool m)" "pool_wf (user_pool m)" "pool_range (kernel_pool m) \<inter> pool_range (user_pool m) = {}"
    and "arenas m = Map.empty"
  shows "inv {} Map.empty m'" "contents Map.empty m' = Map.empty"
proof -
  let ?ds = "map (\<lambda>d. \<lparr>block_size = BS d, blocks_per_arena = BPA d, free_list = []\<rparr>) [0..<7]"
  have m': "m' = m\<lparr>descs := ?ds\<rparr>" using assms(1) malloc_init_run by simp
  have "layout Map.empty (kernel_pool m) (user_pool m) Map.empty" using assms by (simp add: layout_def region_def)
  moreover have "slabs {} Map.empty ?ds" by (simp add: slabs_def descs_ok_def)
  ultimately show "inv {} Map.empty m'" using assms(5) by (simp add: inv_def m')
  show "contents Map.empty m' = Map.empty" using assms(5) by (intro ext) (simp add: contents_def areas_def live_def m')
qed

subsection \<open>Properties\<close>

text \<open>A kernel pool of four pages, of which the first is in use, and a user pool of two pages.\<close>

definition small_memory :: memory where
  "small_memory = \<lparr>kernel_pool = \<lparr>used_map = \<lparr>bit_cnt = 4, bits = [1]\<rparr>, base = 2 ^ 20\<rparr>,
     user_pool = \<lparr>used_map = \<lparr>bit_cnt = 2, bits = [0]\<rparr>, base = 2 ^ 21\<rparr>, ram = (\<lambda>_. None), arenas = Map.empty, descs = []\<rparr>"

lemma small_memory_pools:
  "pool_wf (kernel_pool small_memory)" "pool_wf (user_pool small_memory)"
  "pool_range (kernel_pool small_memory) \<inter> pool_range (user_pool small_memory) = {}" "arenas small_memory = Map.empty"
  by (auto simp: small_memory_def pool_wf_def pool_range_def bm_wf_def elem_cnt_def ELEM_BITS_def PGSIZE_val)

text \<open>C6: After \<open>malloc_init\<close>, any sequence of calls of \<open>malloc\<close>, \<open>calloc\<close>, \<open>realloc\<close>, \<open>free\<close>, \<open>palloc_get_multiple\<close>,
  \<open>palloc_free_multiple\<close> and of stores into memory that was handed out, with pointers that the callers have and sizes that do not
  wrap around, runs without a failed assertion and refines a map from addresses to contents: a new area was not in the
  map and is as large as asked for, zeroed where this is promised, a moved block has its old contents, and no call changes a byte of
  another area. The areas never overlap.\<close>

theorem kernel_heap_refines:
  assumes "malloc_init m0 = Some m" "pool_wf (kernel_pool m0)" "pool_wf (user_pool m0)"
    and "pool_range (kernel_pool m0) \<inter> pool_range (user_pool m0) = {}" "arenas m0 = Map.empty" "lawful Map.empty m cs"
  shows "\<exists>ps G' m'. calls Map.empty m cs = Some (ps, G', m') \<and> specs Map.empty cs ps (contents G' m') \<and>
    (\<forall>b k c l. areas G' m' b = Some k \<longrightarrow> areas G' m' c = Some l \<longrightarrow> b \<noteq> c \<longrightarrow> {b..<b + k} \<inter> {c..<c + l} = {})"
proof -
  note init = malloc_init_inv [OF assms(1-5)]
  from calls_spec [OF init(1) assms(6)] obtain ps G' m' where r: "calls Map.empty m cs = Some (ps, G', m')" "inv {} G' m'"
    "specs Map.empty cs ps (contents G' m')" unfolding init(2) by blast
  with areas_disjoint [OF r(2)] show ?thesis by blast
qed

lemma kernel_heap_refines_witness:
  "\<exists>m ps G' m'. malloc_init small_memory = Some m \<and>
     calls Map.empty m [KMalloc 600, KCalloc 3 5, GetPages PAL_ZERO 1, KMalloc 70000] = Some (ps, G', m') \<and>
     specs Map.empty [KMalloc 600, KCalloc 3 5, GetPages PAL_ZERO 1, KMalloc 70000] ps (contents G' m')"
proof -
  obtain m where m: "malloc_init small_memory = Some m" using malloc_init_run by blast
  have "lawful Map.empty m [KMalloc 600, KCalloc 3 5, GetPages PAL_ZERO 1, KMalloc 70000]"
    by (simp add: fits64_def PGSIZE_val ARENA_SIZE_def PAL_ASSERT_def PAL_ZERO_def split: option.split)
  from kernel_heap_refines [OF m small_memory_pools this] m show ?thesis by blast
qed

text \<open>C38: When the size of a request plus the header wraps around in the rounding to pages, \<open>malloc\<close> gets a group of no pages: it
  returns a block in the first page of the kernel pool, whether this page is in use or not, takes no page, and writes a header over
  the page. The block of any arena there but the first can no longer be freed: \<open>free\<close> fails an assertion.\<close>

theorem malloc_wraps:
  assumes "inv {} G m" "2 ^ 64 < n + ARENA_SIZE + PGSIZE" "n + ARENA_SIZE \<le> 2 ^ 64"
  shows "\<exists>m'. malloc m n = Some (base (kernel_pool m) + ARENA_SIZE, m') \<and> taken (kernel_pool m') = taken (kernel_pool m) \<and>
    (\<forall>b. pg_round_down b = base (kernel_pool m) \<and> pg_ofs b \<noteq> ARENA_SIZE \<longrightarrow> free m' b = None)"
proof -
  note s = inv_slabs [OF assms(1)] and l = inv_layout [OF assms(1)]
  define d where "d = find_desc (descs m) 0 n"
  note fd = find_desc_inv [OF s d_def]
  have "d = 7"
  proof (rule ccontr)
    assume "d \<noteq> 7"
    then have d: "d < 7" using fd(1) by simp
    then have "BS d \<le> 2 ^ 10" unfolding BS_def by (intro power_increasing) auto
    then show False using fd(2) [OF d] assms(2) by (simp add: PGSIZE_val ARENA_SIZE_def)
  qed
  then have d7: "find_desc (descs m) 0 n = length (descs m)" using fd(4) d_def by simp
  have c: "DIV_ROUND_UP ((n + ARENA_SIZE) mod 2 ^ 64) PGSIZE = 0"
  proof (cases "n + ARENA_SIZE = 2 ^ 64")
    case False
    then have lt: "n + ARENA_SIZE < 2 ^ 64" using assms(3) by simp
    have "(n + ARENA_SIZE + PGSIZE - 1) mod 2 ^ 64 = n + ARENA_SIZE + PGSIZE - 1 - 2 ^ 64"
      using assms(2) lt by (subst mod_if) (simp add: PGSIZE_val)
    then show ?thesis using lt by (simp add: DIV_ROUND_UP_def PGSIZE_val)
  qed (simp add: DIV_ROUND_UP_def PGSIZE_val)
  let ?k = "kernel_pool m"
  have pw: "pool_wf ?k" using layout_pools [OF l] by blast
  then have wf: "bm_wf (used_map ?k)" and b0: "0 < base ?k" and al: "base ?k mod PGSIZE = 0" by (simp_all add: pool_wf_def)
  obtain bm where bm: "bitmap_scan_and_flip (used_map ?k) 0 0 False = Some (bm, 0)" "bm_list bm = bm_list (used_map ?k)"
    using bitmap_scan_and_flip_zero [OF wf, of 0 False] by auto
  let ?m1 = "set_pool m False (?k\<lparr>used_map := bm\<rparr>)"
  have get: "palloc_get_multiple m 0 0 = Some (base ?k, ?m1)" using bm(1) b0 by (simp add: palloc_get_multiple_def BITMAP_ERROR_def Let_def)
  let ?m = "put_arena ?m1 (base ?k) \<lparr>magic = ARENA_MAGIC, desc_of = None, free_cnt = 0\<rparr>"
  have "n \<noteq> 0" using assms(2) by (auto simp: PGSIZE_val ARENA_SIZE_def)
  then have run: "malloc m n = Some (base ?k + ARENA_SIZE, ?m)"
    unfolding malloc_def Let_def d7 c get using b0 by simp
  have "bit_cnt bm = bit_cnt (used_map ?k)" using bm(2) by (metis length_bm_list)
  then have t: "taken (kernel_pool ?m) = taken ?k" using bm(2) by (simp add: taken_def pool_range_def set_pool_def)
  have "free ?m b = None" if b: "pg_round_down b = base ?k" "pg_ofs b \<noteq> ARENA_SIZE" for b
  proof -
    have "b \<noteq> NULL" using b(1) b0 by (auto simp: pg_round_down_def)
    moreover have "block_to_arena ?m b = None" using b b0 by (simp add: block_to_arena_def Let_def)
    ultimately show ?thesis by (simp add: free_def)
  qed
  with run t show ?thesis by blast
qed

lemma malloc_wraps_witness:
  "\<exists>m m'. malloc_init small_memory = Some m \<and> malloc m (2 ^ 64 - 100) = Some (2 ^ 20 + ARENA_SIZE, m') \<and>
     taken (kernel_pool m') = taken (kernel_pool m) \<and> 2 ^ 20 \<in> taken (kernel_pool m)"
proof -
  obtain m where m: "malloc_init small_memory = Some m" using malloc_init_run by blast
  have i: "inv {} Map.empty m" by (rule malloc_init_inv(1) [OF m small_memory_pools])
  have k: "kernel_pool m = kernel_pool small_memory" using m malloc_init_run [of small_memory] by auto
  have "2 ^ 20 \<in> taken (kernel_pool m)"
    by (simp add: k small_memory_def taken_def pool_range_def PGSIZE_val bm_list_def bm_bit_def)
  moreover have "base (kernel_pool m) = 2 ^ 20" by (simp add: k small_memory_def)
  ultimately show ?thesis using malloc_wraps [OF i, of "2 ^ 64 - 100"] m by (auto simp: PGSIZE_val ARENA_SIZE_def)
qed

end
