(* ===== verification/PageTable.thy ===== *)
theory PageTable
  imports KAlloc
begin

text \<open>
  The page tables of \<open>pintos/threads/mmu.c\<close>, in four levels: page map (level 4), page directory pointers, page directories and
  page tables. Tables are pages of the kernel pool of \<open>KAlloc\<close>, and their entries eight bytes of memory, the lowest first; an entry
  that was not written is not read. \<open>cr3\<close> holds the physical address of the page map in use, and \<open>tlb\<close> the addresses with
  the entries that the processor keeps for them: loading \<open>cr3\<close> drops them all, \<open>invlpg\<close> those of one page.
\<close>

definition KERN_BASE :: nat where "KERN_BASE = 0x8004000000"

definition is_kernel_vaddr :: "addr \<Rightarrow> bool" where
  "is_kernel_vaddr va \<longleftrightarrow> va \<ge> KERN_BASE"

definition is_user_vaddr :: "addr \<Rightarrow> bool" where
  "is_user_vaddr va \<longleftrightarrow> \<not> is_kernel_vaddr va"

definition ptov :: "nat \<Rightarrow> addr" where
  "ptov pa = (pa + KERN_BASE) mod 2 ^ 64"

definition vtop :: "addr \<Rightarrow> nat option" where
  "vtop va = do { assert_that (is_kernel_vaddr va); Some (va - KERN_BASE) }"

definition PML4 :: "addr \<Rightarrow> nat" where "PML4 la = (la div 2 ^ 39) mod 512"
definition PDPE :: "addr \<Rightarrow> nat" where "PDPE la = (la div 2 ^ 30) mod 512"
definition PDX :: "addr \<Rightarrow> nat" where "PDX la = (la div 2 ^ 21) mod 512"
definition PTX :: "addr \<Rightarrow> nat" where "PTX la = (la div 2 ^ 12) mod 512"

definition PTE_ADDR :: "64 word \<Rightarrow> nat" where
  "PTE_ADDR pte = unat (pte AND NOT 0xFFF)"

definition PTE_P :: "64 word" where "PTE_P = 1"
definition PTE_W :: "64 word" where "PTE_W = 2"
definition PTE_U :: "64 word" where "PTE_U = 4"
definition PTE_A :: "64 word" where "PTE_A = 0x20"
definition PTE_D :: "64 word" where "PTE_D = 0x40"

record machine =
  mem :: memory
  base_pml4 :: addr
  cr3 :: nat
  tlb :: "(addr \<times> 64 word) list"

definition lcr3 :: "nat \<Rightarrow> machine \<Rightarrow> machine" where
  "lcr3 v s = s\<lparr>cr3 := v, tlb := []\<rparr>"

definition invlpg :: "addr \<Rightarrow> machine \<Rightarrow> machine" where
  "invlpg va s = s\<lparr>tlb := filter (\<lambda>(x, _). pg_no x \<noteq> pg_no va) (tlb s)\<rparr>"

text \<open>Reading and writing an entry.\<close>

definition get64 :: "memory \<Rightarrow> addr \<Rightarrow> 64 word option" where
  "get64 m a = map_option (\<lambda>bs. word_rcat (rev bs)) (those (map (ram m) [a..<a + 8]))"

definition put64 :: "memory \<Rightarrow> addr \<Rightarrow> 64 word \<Rightarrow> memory" where
  "put64 m a w = write_bytes m a 8 (\<lambda>i. Some (ucast (drop_bit (8 * i) w)))"

subsection \<open>Walks\<close>

text \<open>
  The start of the three walks: whether the entry in the slot is present, or becomes present because a new table is made for it
  (the second result). In this case its entry allows everything.
\<close>

definition open_entry :: "memory \<Rightarrow> addr \<Rightarrow> bool \<Rightarrow> (bool \<times> bool \<times> memory) option" where
  "open_entry m slot create = do {
     e \<leftarrow> get64 m slot;
     if e AND PTE_P \<noteq> 0 then Some (True, False, m)
     else if create then do {
       (new_page, m) \<leftarrow> palloc_get_page m PAL_ZERO;
       if new_page \<noteq> NULL
       then do { pa \<leftarrow> vtop new_page; Some (True, True, put64 m slot (word_of_nat pa OR PTE_U OR PTE_W OR PTE_P)) }
       else Some (False, False, m)
     } else Some (False, False, m)
   }"

definition pgdir_walk :: "memory \<Rightarrow> addr \<Rightarrow> addr \<Rightarrow> bool \<Rightarrow> (addr \<times> memory) option" where
  "pgdir_walk m pdp va create =
     (if pdp \<noteq> NULL then do {
        let slot = pdp + 8 * PDX va;
        (present, _, m) \<leftarrow> open_entry m slot create;
        if \<not> present then Some (NULL, m)
        else do { e \<leftarrow> get64 m slot; Some (ptov (PTE_ADDR e + 8 * PTX va), m) }
      } else Some (NULL, m))"

text \<open>The end of the two upper walks: a new table that is of no use goes back.\<close>

definition close_entry :: "memory \<Rightarrow> addr \<Rightarrow> bool \<Rightarrow> addr \<Rightarrow> (addr \<times> memory) option" where
  "close_entry m slot allocated pte =
     (if pte = NULL \<and> allocated then do {
        e \<leftarrow> get64 m slot;
        m \<leftarrow> palloc_free_page m (ptov (PTE_ADDR e));
        Some (pte, put64 m slot 0)
      } else Some (pte, m))"

definition pdpe_walk :: "memory \<Rightarrow> addr \<Rightarrow> addr \<Rightarrow> bool \<Rightarrow> (addr \<times> memory) option" where
  "pdpe_walk m pdpe va create =
     (if pdpe \<noteq> NULL then do {
        let slot = pdpe + 8 * PDPE va;
        (present, allocated, m) \<leftarrow> open_entry m slot create;
        if \<not> present then Some (NULL, m)
        else do {
          e \<leftarrow> get64 m slot;
          (pte, m) \<leftarrow> pgdir_walk m (ptov (PTE_ADDR e)) va create;
          close_entry m slot allocated pte
        }
      } else Some (NULL, m))"

definition pml4e_walk :: "memory \<Rightarrow> addr \<Rightarrow> addr \<Rightarrow> bool \<Rightarrow> (addr \<times> memory) option" where
  "pml4e_walk m pml4e va create =
     (if pml4e \<noteq> NULL then do {
        let slot = pml4e + 8 * PML4 va;
        (present, allocated, m) \<leftarrow> open_entry m slot create;
        if \<not> present then Some (NULL, m)
        else do {
          e \<leftarrow> get64 m slot;
          (pte, m) \<leftarrow> pdpe_walk m (ptov (PTE_ADDR e)) va create;
          close_entry m slot allocated pte
        }
      } else Some (NULL, m))"

subsection \<open>Page maps\<close>

definition pml4_create :: "machine \<Rightarrow> (addr \<times> machine) option" where
  "pml4_create s = do {
     (pml4, m) \<leftarrow> palloc_get_page (mem s) 0;
     Some (pml4, s\<lparr>mem := if pml4 \<noteq> NULL then memcpy m pml4 (base_pml4 s) PGSIZE else m\<rparr>)
   }"

definition pml4_activate :: "machine \<Rightarrow> addr \<Rightarrow> machine option" where
  "pml4_activate s pml4 = do {
     pa \<leftarrow> vtop (if pml4 \<noteq> NULL then pml4 else base_pml4 s);
     Some (lcr3 pa s)
   }"

definition pml4_get_page :: "machine \<Rightarrow> addr \<Rightarrow> addr \<Rightarrow> (addr \<times> machine) option" where
  "pml4_get_page s pml4 uaddr = do {
     assert_that (is_user_vaddr uaddr);
     (pte, m) \<leftarrow> pml4e_walk (mem s) pml4 uaddr False;
     let s = s\<lparr>mem := m\<rparr>;
     if pte \<noteq> NULL then do {
       e \<leftarrow> get64 m pte;
       Some (if e AND PTE_P \<noteq> 0 then ptov (PTE_ADDR e) + pg_ofs uaddr else NULL, s)
     } else Some (NULL, s)
   }"

definition pml4_set_page :: "machine \<Rightarrow> addr \<Rightarrow> addr \<Rightarrow> addr \<Rightarrow> bool \<Rightarrow> (bool \<times> machine) option" where
  "pml4_set_page s pml4 upage kpage rw = do {
     assert_that (pg_ofs upage = 0);
     assert_that (pg_ofs kpage = 0);
     assert_that (is_user_vaddr upage);
     assert_that (pml4 \<noteq> base_pml4 s);
     (pte, m) \<leftarrow> pml4e_walk (mem s) pml4 upage True;
     if pte \<noteq> NULL then do {
       pa \<leftarrow> vtop kpage;
       Some (True, s\<lparr>mem := put64 m pte (word_of_nat pa OR PTE_P OR (if rw then PTE_W else 0) OR PTE_U)\<rparr>)
     } else Some (False, s\<lparr>mem := m\<rparr>)
   }"

text \<open>What follows a change of an entry of a page map that may be in use.\<close>

definition flush_page :: "machine \<Rightarrow> addr \<Rightarrow> addr \<Rightarrow> machine option" where
  "flush_page s pml4 va = do {
     pa \<leftarrow> vtop pml4;
     Some (if cr3 s = pa then invlpg va s else s)
   }"

definition pml4_clear_page :: "machine \<Rightarrow> addr \<Rightarrow> addr \<Rightarrow> machine option" where
  "pml4_clear_page s pml4 upage = do {
     assert_that (pg_ofs upage = 0);
     assert_that (is_user_vaddr upage);
     (pte, m) \<leftarrow> pml4e_walk (mem s) pml4 upage False;
     let s = s\<lparr>mem := m\<rparr>;
     if pte \<noteq> NULL then do {
       e \<leftarrow> get64 m pte;
       if e AND PTE_P \<noteq> 0 then flush_page (s\<lparr>mem := put64 m pte (e AND NOT PTE_P)\<rparr>) pml4 upage
       else Some s
     } else Some s
   }"

definition has_flag :: "64 word \<Rightarrow> machine \<Rightarrow> addr \<Rightarrow> addr \<Rightarrow> (bool \<times> machine) option" where
  "has_flag flag s pml4 vpage = do {
     (pte, m) \<leftarrow> pml4e_walk (mem s) pml4 vpage False;
     let s = s\<lparr>mem := m\<rparr>;
     if pte \<noteq> NULL then do { e \<leftarrow> get64 m pte; Some (e AND flag \<noteq> 0, s) }
     else Some (False, s)
   }"

text \<open>The mask that takes a flag away has 32 bits, so the upper half of the entry goes with it.\<close>

definition put_flag :: "64 word \<Rightarrow> machine \<Rightarrow> addr \<Rightarrow> addr \<Rightarrow> bool \<Rightarrow> machine option" where
  "put_flag flag s pml4 vpage b = do {
     (pte, m) \<leftarrow> pml4e_walk (mem s) pml4 vpage False;
     let s = s\<lparr>mem := m\<rparr>;
     if pte \<noteq> NULL then do {
       e \<leftarrow> get64 m pte;
       let e' = (if b then e OR flag else e AND ucast (NOT (ucast flag :: 32 word)));
       flush_page (s\<lparr>mem := put64 m pte e'\<rparr>) pml4 vpage
     } else Some s
   }"

definition pml4_is_dirty :: "machine \<Rightarrow> addr \<Rightarrow> addr \<Rightarrow> (bool \<times> machine) option" where
  "pml4_is_dirty = has_flag PTE_D"

definition pml4_set_dirty :: "machine \<Rightarrow> addr \<Rightarrow> addr \<Rightarrow> bool \<Rightarrow> machine option" where
  "pml4_set_dirty = put_flag PTE_D"

definition pml4_is_accessed :: "machine \<Rightarrow> addr \<Rightarrow> addr \<Rightarrow> (bool \<times> machine) option" where
  "pml4_is_accessed = has_flag PTE_A"

definition pml4_set_accessed :: "machine \<Rightarrow> addr \<Rightarrow> addr \<Rightarrow> bool \<Rightarrow> machine option" where
  "pml4_set_accessed = put_flag PTE_A"

subsection \<open>Loops over tables\<close>

text \<open>
  The entries of the table \<open>t\<close> from \<open>i\<close> on, \<open>n\<close> of them. The code adds the base of the kernel to the whole entry before it tests
  the flag and cuts off the flags, which gives the address of the next table.
\<close>

definition ptov_entry :: "64 word \<Rightarrow> 64 word" where
  "ptov_entry e = e + word_of_nat KERN_BASE"

primrec destroy_entries :: "(memory \<Rightarrow> addr \<Rightarrow> memory option) \<Rightarrow> memory \<Rightarrow> addr \<Rightarrow> nat \<Rightarrow> nat \<Rightarrow> memory option" where
  "destroy_entries f m t i 0 = Some m"
| "destroy_entries f m t i (Suc n) = do {
     e \<leftarrow> get64 m (t + 8 * i);
     m \<leftarrow> (if ptov_entry e AND PTE_P \<noteq> 0 then f m (PTE_ADDR (ptov_entry e)) else Some m);
     destroy_entries f m t (i + 1) n
   }"

definition pt_destroy :: "memory \<Rightarrow> addr \<Rightarrow> memory option" where
  "pt_destroy m pt = do { m \<leftarrow> destroy_entries palloc_free_page m pt 0 512; palloc_free_page m pt }"

definition pgdir_destroy :: "memory \<Rightarrow> addr \<Rightarrow> memory option" where
  "pgdir_destroy m pdp = do { m \<leftarrow> destroy_entries pt_destroy m pdp 0 512; palloc_free_page m pdp }"

definition pdpe_destroy :: "memory \<Rightarrow> addr \<Rightarrow> memory option" where
  "pdpe_destroy m pdpe = do { m \<leftarrow> destroy_entries pgdir_destroy m pdpe 0 512; palloc_free_page m pdpe }"

definition pml4_destroy :: "machine \<Rightarrow> addr \<Rightarrow> machine option" where
  "pml4_destroy s pml4 =
     (if pml4 = NULL then Some s
      else do {
        assert_that (pml4 \<noteq> base_pml4 s);
        e \<leftarrow> get64 (mem s) pml4;
        m \<leftarrow> (if ptov_entry e AND PTE_P \<noteq> 0 then pdpe_destroy (mem s) (PTE_ADDR (ptov_entry e)) else Some (mem s));
        m \<leftarrow> palloc_free_page m pml4;
        Some (s\<lparr>mem := m\<rparr>)
      })"

text \<open>The function that is applied gets the address of an entry and the virtual address it is for; it may change the memory.\<close>

type_synonym pte_for_each_func = "memory \<Rightarrow> addr \<Rightarrow> addr \<Rightarrow> (bool \<times> memory) option"

primrec pt_loop :: "pte_for_each_func \<Rightarrow> nat \<Rightarrow> memory \<Rightarrow> addr \<Rightarrow> nat \<Rightarrow> nat \<Rightarrow> (bool \<times> memory) option" where
  "pt_loop f va m pt i 0 = Some (True, m)"
| "pt_loop f va m pt i (Suc n) = do {
     e \<leftarrow> get64 m (pt + 8 * i);
     (go, m) \<leftarrow> (if e AND PTE_P \<noteq> 0 then f m (pt + 8 * i) (va OR push_bit 12 i) else Some (True, m));
     if go then pt_loop f va m pt (i + 1) n else Some (False, m)
   }"

primrec table_loop :: "(nat \<Rightarrow> memory \<Rightarrow> addr \<Rightarrow> (bool \<times> memory) option) \<Rightarrow> memory \<Rightarrow> addr \<Rightarrow> nat \<Rightarrow> nat \<Rightarrow> (bool \<times> memory) option" where
  "table_loop f m t i 0 = Some (True, m)"
| "table_loop f m t i (Suc n) = do {
     e \<leftarrow> get64 m (t + 8 * i);
     (go, m) \<leftarrow> (if ptov_entry e AND PTE_P \<noteq> 0 then f i m (PTE_ADDR (ptov_entry e)) else Some (True, m));
     if go then table_loop f m t (i + 1) n else Some (False, m)
   }"

definition pt_for_each :: "pte_for_each_func \<Rightarrow> nat \<Rightarrow> nat \<Rightarrow> nat \<Rightarrow> memory \<Rightarrow> addr \<Rightarrow> (bool \<times> memory) option" where
  "pt_for_each f pml4_index pdp_index pdx_index m pt =
     pt_loop f (push_bit 39 pml4_index OR push_bit 30 pdp_index OR push_bit 21 pdx_index) m pt 0 512"

definition pgdir_for_each :: "pte_for_each_func \<Rightarrow> nat \<Rightarrow> nat \<Rightarrow> memory \<Rightarrow> addr \<Rightarrow> (bool \<times> memory) option" where
  "pgdir_for_each f pml4_index pdp_index m pdp = table_loop (pt_for_each f pml4_index pdp_index) m pdp 0 512"

definition pdp_for_each :: "pte_for_each_func \<Rightarrow> nat \<Rightarrow> memory \<Rightarrow> addr \<Rightarrow> (bool \<times> memory) option" where
  "pdp_for_each f pml4_index m pdp = table_loop (pgdir_for_each f pml4_index) m pdp 0 512"

definition pml4_for_each :: "pte_for_each_func \<Rightarrow> machine \<Rightarrow> addr \<Rightarrow> (bool \<times> machine) option" where
  "pml4_for_each f s pml4 = do {
     (r, m) \<leftarrow> table_loop (pdp_for_each f) (mem s) pml4 0 512;
     Some (r, s\<lparr>mem := m\<rparr>)
   }"

end
