(* ===== verification/PageTableInv.thy ===== *)
theory PageTableInv
  imports PageTable KAllocPages
begin

text \<open>
  Page tables as a tree: \<open>T\<close> maps the indices on the way from the page map to the table at their end. \<open>tables\<close> says that memory
  holds this tree, and \<open>leaf\<close> is the entry for a page.
\<close>

subsection \<open>Reading what was written\<close>

lemma horner_digits: "horner_sum (\<lambda>i. (x div 256 ^ i) mod 256) 256 [k..<k + n] = (x div 256 ^ k) mod 256 ^ n" for x :: int
proof (induction n arbitrary: k)
  case (Suc n)
  have "[k..<k + Suc n] = k # [Suc k..<Suc k + n]" by (simp add: upt_conv_Cons)
  then have "horner_sum (\<lambda>i. (x div 256 ^ i) mod 256) 256 [k..<k + Suc n] = (x div 256 ^ k) mod 256 + 256 * ((x div 256 ^ Suc k) mod 256 ^ n)"
    by (simp only: horner_sum_simps Suc.IH)
  also have "\<dots> = (x div 256 ^ k) mod 256 ^ Suc n"
  proof -
    have "x div 256 ^ Suc k = x div 256 ^ k div 256" using zdiv_zmult2_eq [of 256 x "256 ^ k"] by (simp add: mult.commute)
    then show ?thesis using zmod_zmult2_eq [of "256 ^ n" "x div 256 ^ k" 256] by simp
  qed
  finally show ?case .
qed simp

lemma bytes_of_word: "word_rcat (rev (map (\<lambda>i. ucast (drop_bit (8 * i) w) :: 8 word) [0..<8])) = w" for w :: "64 word"
proof -
  have b: "uint (ucast (drop_bit (8 * i) w) :: 8 word) = (uint w div 256 ^ i) mod 256" for i
  proof -
    have "uint (ucast (drop_bit (8 * i) w) :: 8 word) = take_bit 8 (drop_bit (8 * i) (uint w))"
      using uint_lt2p [of w] by (simp add: unsigned_ucast_eq unsigned_drop_bit_eq take_bit_int_eq_self)
    then show ?thesis by (simp add: take_bit_eq_mod drop_bit_eq_div power_mult)
  qed
  have "horner_sum uint (2 ^ LENGTH(8)) (map (\<lambda>i. ucast (drop_bit (8 * i) w) :: 8 word) [0..<8]) = horner_sum (\<lambda>i. (uint w div 256 ^ i) mod 256) 256 [0..<8]"
    unfolding horner_sum_foldr foldr_map comp_def b by simp
  also have "\<dots> = uint w" using horner_digits [of "uint w" 0 8] uint_lt2p [of w] by simp
  finally show ?thesis by (simp add: word_rcat_def)
qed

lemma get64_ram: "(\<And>x. a \<le> x \<Longrightarrow> x < a + 8 \<Longrightarrow> ram m x = ram m' x) \<Longrightarrow> get64 m a = get64 m' a"
proof -
  assume h: "\<And>x. a \<le> x \<Longrightarrow> x < a + 8 \<Longrightarrow> ram m x = ram m' x"
  have "map (ram m) [a..<a + 8] = map (ram m') [a..<a + 8]" by (rule map_cong [OF refl]) (use h in auto)
  then show ?thesis by (simp only: get64_def)
qed

lemma those_map_Some: "those (map (\<lambda>x. Some (f x)) xs) = Some (map f xs)"
  by (induction xs) auto

lemma get64_put64_same [simp]: "get64 (put64 m a w) a = Some w"
proof -
  have "map (ram (put64 m a w)) [a..<a + 8] = map (\<lambda>i. Some (ucast (drop_bit (8 * i) w))) [0..<8]"
    by (rule nth_equalityI) (simp_all add: put64_def write_bytes_def)
  then show ?thesis by (simp add: get64_def those_map_Some bytes_of_word)
qed

lemma get64_put64_other: "a + 8 \<le> b \<or> b + 8 \<le> a \<Longrightarrow> get64 (put64 m a w) b = get64 m b"
  by (rule get64_ram) (auto simp: put64_def write_bytes_def)

lemma get64_set_pool [simp]: "get64 (set_pool m user p) a = get64 m a"
  by (rule get64_ram) simp

lemma get64_zero: "\<lbrakk>\<And>x. a \<le> x \<Longrightarrow> x < a + 8 \<Longrightarrow> ram m x = Some 0\<rbrakk> \<Longrightarrow> get64 m a = Some 0"
proof -
  assume h: "\<And>x. a \<le> x \<Longrightarrow> x < a + 8 \<Longrightarrow> ram m x = Some 0"
  have "map (ram m) [a..<a + 8] = map (ram (put64 m a 0)) [a..<a + 8]"
    by (rule map_cong [OF refl]) (use h in \<open>simp add: put64_def write_bytes_def\<close>)
  then show ?thesis using get64_put64_same [of m a 0] by (simp only: get64_def)
qed

lemma put64_fields [simp]:
  "kernel_pool (put64 m a w) = kernel_pool m" "user_pool (put64 m a w) = user_pool m" "descs (put64 m a w) = descs m"
  by (simp_all add: put64_def)

lemma ram_put64: "x < a \<or> a + 8 \<le> x \<Longrightarrow> ram (put64 m a w) x = ram m x"
  by (auto simp: put64_def write_bytes_def)

subsection \<open>Entries and addresses\<close>

lemma page_bits:
  assumes "pa mod PGSIZE = 0" "pa < 2 ^ 64" "f AND NOT 0xFFF = 0"
  shows "PTE_ADDR (word_of_nat pa OR f) = pa" "\<And>g. g AND NOT 0xFFF = 0 \<Longrightarrow> (word_of_nat pa OR f) AND g = f AND g"
proof -
  let ?w = "word_of_nat pa :: 64 word"
  have m: "(0xFFF :: 64 word) = mask 12" by (simp add: mask_eq_exp_minus_1)
  have "take_bit 12 pa = 0" using assms(1) by (simp add: take_bit_eq_mod PGSIZE_val)
  then have t: "take_bit 12 ?w = 0" using of_nat_take_bit [of 12 pa, where ?'a = "64 word"] by simp
  have low: "\<not> bit ?w n" if "n < 12" for n
  proof -
    have "\<not> bit (take_bit 12 ?w) n" by (simp add: t)
    then show ?thesis using that by (simp add: bit_take_bit_iff)
  qed
  have high: "\<not> bit g n" if "g AND NOT 0xFFF = 0" "12 \<le> n" "n < 64" for g :: "64 word" and n
  proof -
    have "\<not> bit (g AND NOT 0xFFF) n" using that(1) by simp
    then show ?thesis using that(2,3) by (simp add: bit_simps m)
  qed
  have low': "bit ?w n \<Longrightarrow> 12 \<le> n" for n using low [of n] by linarith
  have "(?w OR f) AND NOT 0xFFF = ?w"
    by (rule bit_word_eqI) (use low' high [OF assms(3)] in \<open>auto simp: bit_and_iff bit_or_iff bit_not_iff m bit_mask_iff not_less\<close>)
  then show "PTE_ADDR (word_of_nat pa OR f) = pa" using assms(2) by (simp add: PTE_ADDR_def unsigned_of_nat take_bit_nat_eq_self)
  show "(?w OR f) AND g = f AND g" if "g AND NOT 0xFFF = 0" for g
    by (rule bit_word_eqI) (use low' high [OF that] in \<open>auto simp: bit_and_iff bit_or_iff not_less\<close>)
qed

lemma flags_low [simp]:
  "PTE_P AND NOT 0xFFF = 0" "PTE_W AND NOT 0xFFF = 0" "PTE_U AND NOT 0xFFF = 0" "PTE_A AND NOT 0xFFF = 0" "PTE_D AND NOT 0xFFF = 0"
  by (simp_all add: PTE_P_def PTE_W_def PTE_U_def PTE_A_def PTE_D_def)

lemma PTE_ADDR_aligned: "PTE_ADDR e mod PGSIZE = 0"
proof -
  have "(e AND NOT 0xFFF) AND mask 12 = 0" by (simp add: mask_eq_exp_minus_1 and.assoc)
  then have "take_bit 12 (e AND NOT 0xFFF) = 0" by (simp add: take_bit_eq_mask)
  then have "take_bit 12 (PTE_ADDR e) = 0" unfolding PTE_ADDR_def by (metis unsigned_take_bit_eq unsigned_0)
  then show ?thesis by (simp add: take_bit_eq_mod PGSIZE_val)
qed

lemma ptov_vtop: "KERN_BASE \<le> v \<Longrightarrow> v < 2 ^ 64 \<Longrightarrow> ptov (v - KERN_BASE) = v"
  by (simp add: ptov_def)

lemma ptov_add: "ptov pa = t \<Longrightarrow> t + k < 2 ^ 64 \<Longrightarrow> ptov (pa + k) = t + k"
  using mod_add_left_eq [of "pa + KERN_BASE" "2 ^ 64" k] by (simp add: ptov_def ac_simps)

text \<open>The entry that a new table gets.\<close>

abbreviation table_entry :: "addr \<Rightarrow> 64 word" where
  "table_entry a \<equiv> word_of_nat (a - KERN_BASE) OR PTE_U OR PTE_W OR PTE_P"

lemma table_entry:
  assumes "a mod PGSIZE = 0" "KERN_BASE \<le> a" "a < 2 ^ 64"
  shows "ptov (PTE_ADDR (table_entry a)) = a" "table_entry a AND PTE_P \<noteq> 0"
proof -
  have "(a - KERN_BASE) mod PGSIZE = 0" using assms(1,2) by (simp add: PGSIZE_val KERN_BASE_def mod_eq_0_iff_dvd)
  moreover have "a - KERN_BASE < 2 ^ 64" using assms(3) by simp
  moreover have f: "(PTE_U OR (PTE_W OR PTE_P)) AND NOT 0xFFF = 0" by (simp add: PTE_P_def PTE_W_def PTE_U_def)
  ultimately have w: "PTE_ADDR (word_of_nat (a - KERN_BASE) OR (PTE_U OR (PTE_W OR PTE_P))) = a - KERN_BASE"
    "(word_of_nat (a - KERN_BASE) OR (PTE_U OR (PTE_W OR PTE_P))) AND PTE_P = (PTE_U OR (PTE_W OR PTE_P)) AND PTE_P"
    by (rule page_bits, rule page_bits) (simp_all only: flags_low)
  then show "ptov (PTE_ADDR (table_entry a)) = a" using ptov_vtop [OF assms(2,3)] by (simp add: or.assoc)
  show "table_entry a AND PTE_P \<noteq> 0" using w(2) by (simp add: or.assoc PTE_P_def PTE_W_def PTE_U_def)
qed

subsection \<open>The tree\<close>

definition table_page :: "memory \<Rightarrow> addr \<Rightarrow> bool" where
  "table_page m t \<longleftrightarrow> t mod PGSIZE = 0 \<and> KERN_BASE \<le> t \<and> t + PGSIZE \<le> 2 ^ 64 \<and> pages t 1 \<subseteq> taken (kernel_pool m)"

text \<open>Of the page map only the first entry belongs to the user.\<close>

definition index_ok :: "nat list \<Rightarrow> nat \<Rightarrow> bool" where
  "index_ok p i \<longleftrightarrow> i < 512 \<and> (p = [] \<longrightarrow> i = 0)"

definition child :: "64 word \<Rightarrow> addr option" where
  "child e = (if e AND PTE_P \<noteq> 0 then Some (ptov (PTE_ADDR e)) else None)"

definition tables :: "memory \<Rightarrow> addr \<Rightarrow> (nat list \<rightharpoonup> addr) \<Rightarrow> bool" where
  "tables m root T \<longleftrightarrow> T [] = Some root \<and> (\<forall>p t. T p = Some t \<longrightarrow> length p \<le> 3 \<and> table_page m t) \<and>
     (\<forall>p i. T (p @ [i]) \<noteq> None \<longrightarrow> T p \<noteq> None \<and> index_ok p i) \<and> (\<forall>p q t. T p = Some t \<longrightarrow> T q = Some t \<longrightarrow> p = q) \<and>
     (\<forall>p t i. T p = Some t \<longrightarrow> index_ok p i \<longrightarrow>
        (\<exists>e. get64 m (t + 8 * i) = Some e \<and> (length p < 3 \<longrightarrow> T (p @ [i]) = child e)))"

definition pools :: "memory \<Rightarrow> bool" where
  "pools m \<longleftrightarrow> pool_wf (kernel_pool m) \<and> pool_wf (user_pool m) \<and> pool_range (kernel_pool m) \<inter> pool_range (user_pool m) = {} \<and>
     (\<forall>x\<in>pool_range (kernel_pool m). KERN_BASE \<le> x)"

definition table_pages :: "(nat list \<rightharpoonup> addr) \<Rightarrow> addr set" where
  "table_pages T = (\<Union>t\<in>ran T. pages t 1)"

lemma table_pagesI: "T p = Some t \<Longrightarrow> pages t 1 \<subseteq> table_pages T"
  by (auto simp: table_pages_def ran_def)

lemma table_pagesE:
  assumes "x \<in> table_pages T"
  obtains p t where "T p = Some t" "x \<in> pages t 1"
  using assms by (auto simp: table_pages_def ran_def)

lemma table_pages_upd: "T p = None \<Longrightarrow> table_pages (T(p \<mapsto> a)) = table_pages T \<union> pages a 1"
  by (simp add: table_pages_def Un_commute)

lemma table_pages_mono: "T \<subseteq>\<^sub>m T' \<Longrightarrow> table_pages T \<subseteq> table_pages T'"
  by (auto simp: table_pages_def map_le_def ran_def) (metis domI)

lemma tablesD:
  assumes "tables m root T" "T p = Some t"
  shows "length p \<le> 3" "table_page m t" "\<And>i. index_ok p i \<Longrightarrow> \<exists>e. get64 m (t + 8 * i) = Some e \<and> (length p < 3 \<longrightarrow> T (p @ [i]) = child e)"
    "\<And>q. T q = Some t \<Longrightarrow> q = p"
  using assms unfolding tables_def by blast+

lemma tables_parent: "tables m root T \<Longrightarrow> T (p @ [i]) \<noteq> None \<Longrightarrow> T p \<noteq> None \<and> index_ok p i"
  unfolding tables_def by blast

lemma tables_root: "tables m root T \<Longrightarrow> T [] = Some root"
  unfolding tables_def by blast

lemma table_pages_taken: "tables m root T \<Longrightarrow> table_pages T \<subseteq> taken (kernel_pool m)"
  by (blast elim!: table_pagesE dest: tablesD(2) [unfolded table_page_def])

text \<open>Pages that are aligned are the same or apart.\<close>

lemma pages_apart:
  assumes "s mod PGSIZE = 0" "t mod PGSIZE = 0" "s \<noteq> t"
  shows "pages s 1 \<inter> pages t 1 = {}"
proof -
  obtain x y where "s = PGSIZE * x" "t = PGSIZE * y" using assms by (auto simp: mod_eq_0_iff_dvd dvd_def)
  then show ?thesis using assms(3) by (auto simp: PGSIZE_val)
qed

lemma slot_in_page: "i < 512 \<Longrightarrow> {t + 8 * i..<t + 8 * i + 8} \<subseteq> pages t 1"
  by (auto simp: PGSIZE_val)

lemma slots_apart:
  assumes "s mod PGSIZE = 0" "t mod PGSIZE = 0" "i < 512" "j < 512" "s \<noteq> t \<or> i \<noteq> j"
  shows "s + 8 * i + 8 \<le> t + 8 * j \<or> t + 8 * j + 8 \<le> s + 8 * i"
proof -
  obtain x y where "s = PGSIZE * x" "t = PGSIZE * y" using assms by (auto simp: mod_eq_0_iff_dvd dvd_def)
  then show ?thesis using assms(3-5) by (cases x y rule: linorder_cases) (auto simp: PGSIZE_val)
qed

text \<open>
  What a walk does: new tables are made in free pages and have no entries; the pages in use by others and the entries of the
  page tables stay as they are, as do those of the page map that belong to the kernel.
\<close>

definition grow :: "addr \<Rightarrow> memory \<Rightarrow> (nat list \<rightharpoonup> addr) \<Rightarrow> memory \<Rightarrow> (nat list \<rightharpoonup> addr) \<Rightarrow> bool" where
  "grow root m T m' T' \<longleftrightarrow> tables m' root T' \<and> T \<subseteq>\<^sub>m T' \<and> user_pool m' = user_pool m \<and> pool_wf (kernel_pool m') \<and>
     pool_range (kernel_pool m') = pool_range (kernel_pool m) \<and> taken (kernel_pool m') = taken (kernel_pool m) \<union> table_pages T' \<and>
     table_pages T' \<inter> taken (kernel_pool m) = table_pages T \<and>
     (\<forall>x. x \<notin> pool_range (kernel_pool m) \<or> x \<in> taken (kernel_pool m) - table_pages T \<longrightarrow> ram m' x = ram m x) \<and>
     (\<forall>i. 0 < i \<longrightarrow> i < 512 \<longrightarrow> get64 m' (root + 8 * i) = get64 m (root + 8 * i))"

definition ext :: "addr \<Rightarrow> memory \<Rightarrow> (nat list \<rightharpoonup> addr) \<Rightarrow> memory \<Rightarrow> (nat list \<rightharpoonup> addr) \<Rightarrow> bool" where
  "ext root m T m' T' \<longleftrightarrow> grow root m T m' T' \<and>
     (\<forall>q t i. length q = 3 \<longrightarrow> T' q = Some t \<longrightarrow> i < 512 \<longrightarrow> get64 m' (t + 8 * i) = (case T q of None \<Rightarrow> Some 0 | Some t \<Rightarrow> get64 m (t + 8 * i)))"

lemma growD:
  assumes "grow root m T m' T'"
  shows "tables m' root T'" "T \<subseteq>\<^sub>m T'" "user_pool m' = user_pool m" "pool_wf (kernel_pool m')"
    "pool_range (kernel_pool m') = pool_range (kernel_pool m)" "taken (kernel_pool m') = taken (kernel_pool m) \<union> table_pages T'"
    "table_pages T' \<inter> taken (kernel_pool m) = table_pages T"
    "\<And>x. x \<notin> pool_range (kernel_pool m) \<or> x \<in> taken (kernel_pool m) - table_pages T \<Longrightarrow> ram m' x = ram m x"
    "\<And>i. 0 < i \<Longrightarrow> i < 512 \<Longrightarrow> get64 m' (root + 8 * i) = get64 m (root + 8 * i)"
  using assms unfolding grow_def by blast+

lemma extD:
  assumes "ext root m T m' T'"
  shows "grow root m T m' T'"
    "\<And>q t i. length q = 3 \<Longrightarrow> T' q = Some t \<Longrightarrow> i < 512 \<Longrightarrow> get64 m' (t + 8 * i) = (case T q of None \<Rightarrow> Some 0 | Some t \<Rightarrow> get64 m (t + 8 * i))"
  using assms unfolding ext_def by blast+

lemma grow_refl: "tables m root T \<Longrightarrow> pools m \<Longrightarrow> grow root m T m T"
  using table_pages_taken [of m root T] by (auto simp: grow_def pools_def)

lemma ext_refl: "tables m root T \<Longrightarrow> pools m \<Longrightarrow> ext root m T m T"
  using grow_refl by (simp add: ext_def)

lemma grow_pools: "grow root m T m' T' \<Longrightarrow> pools m \<Longrightarrow> pools m'"
  by (simp add: grow_def pools_def)

lemma grow_trans:
  assumes a: "grow root m T m1 T1" and b: "grow root m1 T1 m2 T2"
  shows "grow root m T m2 T2"
proof -
  have le: "T \<subseteq>\<^sub>m T2" by (rule map_le_trans [OF growD(2) [OF a] growD(2) [OF b]])
  have sub: "table_pages T1 \<subseteq> table_pages T2" by (rule table_pages_mono [OF growD(2) [OF b]])
  have out: "ram m2 x = ram m x" if x: "x \<notin> pool_range (kernel_pool m) \<or> x \<in> taken (kernel_pool m) - table_pages T" for x
  proof -
    have "x \<notin> pool_range (kernel_pool m1) \<or> x \<in> taken (kernel_pool m1) - table_pages T1"
      using x growD(5,6,7) [OF a] by auto
    from growD(8) [OF b this] growD(8) [OF a x] show ?thesis by simp
  qed
  have "taken (kernel_pool m2) = taken (kernel_pool m) \<union> table_pages T2" using growD(6) [OF b] growD(6) [OF a] sub by blast
  moreover have "table_pages T2 \<inter> taken (kernel_pool m) = table_pages T" using growD(7) [OF b] growD(6,7) [OF a] by blast
  moreover have "user_pool m2 = user_pool m" "pool_range (kernel_pool m2) = pool_range (kernel_pool m)"
    using growD(3,5) [OF b] growD(3,5) [OF a] by simp_all
  moreover have "get64 m2 (root + 8 * i) = get64 m (root + 8 * i)" if "0 < i" "i < 512" for i
    using growD(9) [OF a that] growD(9) [OF b that] by simp
  ultimately show ?thesis unfolding grow_def using growD(1,4) [OF b] le out by blast
qed

lemma ext_trans:
  assumes a: "ext root m T m1 T1" and b: "ext root m1 T1 m2 T2"
  shows "ext root m T m2 T2"
proof -
  have "get64 m2 (t + 8 * i) = (case T q of None \<Rightarrow> Some 0 | Some t \<Rightarrow> get64 m (t + 8 * i))"
    if "length q = 3" "T2 q = Some t" "i < 512" for q t i
  proof (cases "T1 q")
    case None
    have "T q = None" using growD(2) [OF extD(1) [OF a]] None by (metis domIff map_le_def)
    then show ?thesis using extD(2) [OF b that] None by simp
  next
    case (Some u)
    show ?thesis using extD(2) [OF b that] extD(2) [OF a that(1) Some that(3)] Some by simp
  qed
  then show ?thesis using grow_trans [OF extD(1) [OF a] extD(1) [OF b]] by (simp add: ext_def)
qed

end
