(* ===== verification/PageTableWalk.thy ===== *)
theory PageTableWalk
  imports PageTableInv
begin

text \<open>
  The walks of \<open>PageTable\<close> on the tree of \<open>PageTableInv\<close>: without creation they follow it, with creation they extend it, and a
  walk that fails leaves it as it was.
\<close>

subsection \<open>A table comes and goes\<close>

lemma got_page:
  assumes "got (kernel_pool m) k' a 1" "pools m" "tables m root T"
  shows "a mod PGSIZE = 0" "KERN_BASE \<le> a" "a + PGSIZE \<le> 2 ^ 64" "pages a 1 \<inter> taken (kernel_pool m) = {}" "T q \<noteq> Some a"
    "taken k' = taken (kernel_pool m) \<union> pages a 1" "pool_wf k'" "pool_range k' = pool_range (kernel_pool m)"
    "pages a 1 \<subseteq> pool_range (kernel_pool m)"
proof -
  show g: "a mod PGSIZE = 0" "pages a 1 \<inter> taken (kernel_pool m) = {}" "taken k' = taken (kernel_pool m) \<union> pages a 1" "pool_wf k'"
    "pool_range k' = pool_range (kernel_pool m)" "pages a 1 \<subseteq> pool_range (kernel_pool m)"
    using assms(1) unfolding got_def by simp_all
  have a: "a \<in> pages a 1" "a + (PGSIZE - 1) \<in> pages a 1" by (simp_all add: PGSIZE_val)
  then show "KERN_BASE \<le> a" using g(6) assms(2) unfolding pools_def by blast
  have "a + (PGSIZE - 1) \<in> pool_range (kernel_pool m)" by (rule subsetD [OF g(6) a(2)])
  then have "a + (PGSIZE - 1) < 2 ^ 64" using assms(2) unfolding pools_def pool_wf_def pool_range_def by fastforce
  then show "a + PGSIZE \<le> 2 ^ 64" by (simp add: PGSIZE_val)
  show "T q \<noteq> Some a" using tablesD(2) [OF assms(3), of q a] a(1) g(2) unfolding table_page_def by blast
qed

lemma get64_memset:
  "u mod PGSIZE = 0 \<Longrightarrow> a mod PGSIZE = 0 \<Longrightarrow> u \<noteq> a \<Longrightarrow> j < 512 \<Longrightarrow> get64 (memset m a v PGSIZE) (u + 8 * j) = get64 m (u + 8 * j)"
  using pages_apart [of u a] slot_in_page [of j u] by (intro get64_ram) (auto simp: memset_def write_bytes_def disjoint_iff subset_iff)

lemma get64_memset_zero: "j < 512 \<Longrightarrow> get64 (memset m a 0 PGSIZE) (a + 8 * j) = Some 0"
  by (rule get64_zero) (auto simp: memset_def write_bytes_def PGSIZE_val)

lemma new_table:
  assumes t: "tables m root T" and pl: "pools m" and p: "T p = Some t" "length p < 3" "index_ok p i" "T (p @ [i]) = None"
    and g: "got (kernel_pool m) k' a 1"
  defines "m2 \<equiv> put64 (memset (set_pool m False k') a 0 PGSIZE) (t + 8 * i) (table_entry a)"
  shows "ext root m T m2 (T(p @ [i] \<mapsto> a))"
proof -
  note gp = got_page [OF g pl t]
  let ?T = "T(p @ [i] \<mapsto> a)"
  have i: "i < 512" using p(3) by (simp add: index_ok_def)
  have tp: "table_page m u" if "T q = Some u" for q u using tablesD(2) [OF t that] .
  have al: "u mod PGSIZE = 0" if "T q = Some u" for q u using tp [OF that] by (simp add: table_page_def)
  have same: "get64 m2 (u + 8 * j) = get64 m (u + 8 * j)" if "T q = Some u" "j < 512" "u \<noteq> t \<or> j \<noteq> i" for q u j
  proof -
    have "u \<noteq> a" using gp(5) that(1) by blast
    then have "get64 (memset (set_pool m False k') a 0 PGSIZE) (u + 8 * j) = get64 m (u + 8 * j)"
      by (subst get64_memset [OF al [OF that(1)] gp(1) _ that(2)]) simp_all
    then show ?thesis unfolding m2_def using slots_apart [OF al [OF p(1)] al [OF that(1)] i that(2)] that
      by (subst get64_put64_other) auto
  qed
  have new: "get64 m2 (a + 8 * j) = Some 0" if "j < 512" for j
    unfolding m2_def using slots_apart [OF al [OF p(1)] gp(1) i that] gp(5) p(1)
    by (subst get64_put64_other) (auto simp: get64_memset_zero that)
  have none: "T (p @ [i] @ [j]) = None" for j using tables_parent [OF t, of "p @ [i]" j] p(4) by (cases "T (p @ [i, j])") auto
  have entry: "child (table_entry a) = Some a" using table_entry gp(1-3) by (simp add: child_def PGSIZE_val)
  have k: "kernel_pool m2 = k'" "user_pool m2 = user_pool m" by (simp_all add: m2_def memset_def set_pool_def)
  have "tables m2 root ?T"
    unfolding tables_def
  proof (intro conjI allI impI)
    show "?T [] = Some root" using tables_root [OF t] by simp
    fix q u assume q: "?T q = Some u"
    show "length q \<le> 3" using q p(2) tablesD(1) [OF t] by (auto split: if_splits)
    show "table_page m2 u" using q tp gp(1-3,6) by (auto simp: table_page_def k split: if_splits)
  next
    fix q j assume "?T (q @ [j]) \<noteq> None"
    then have "T q \<noteq> None \<and> index_ok q j" using tables_parent [OF t, of q j] p by (auto split: if_splits)
    then show "?T q \<noteq> None" "index_ok q j" by auto
  next
    fix q r u assume "?T q = Some u" "?T r = Some u"
    then show "q = r" using gp(5) tablesD(4) [OF t] by (auto split: if_splits)
  next
    fix q u j assume q: "?T q = Some u" and j: "index_ok q j"
    show "\<exists>e. get64 m2 (u + 8 * j) = Some e \<and> (length q < 3 \<longrightarrow> ?T (q @ [j]) = child e)"
    proof (cases "q = p @ [i]")
      case True
      then show ?thesis using q new [of j] j none [of j] by (auto simp: index_ok_def child_def)
    next
      case False
      then have u: "T q = Some u" using q by simp
      show ?thesis
      proof (cases "q = p \<and> j = i")
        case True
        then have "u = t" using u p(1) by simp
        then show ?thesis using True entry by (simp add: m2_def)
      next
        case other: False
        have "u \<noteq> t \<or> j \<noteq> i" using other tablesD(4) [OF t p(1)] u by blast
        then have "get64 m2 (u + 8 * j) = get64 m (u + 8 * j)" using same [OF u] j by (simp add: index_ok_def)
        moreover have "?T (q @ [j]) = T (q @ [j])" using other by auto
        ultimately show ?thesis using tablesD(3) [OF t u j] by simp
      qed
    qed
  qed
  moreover have "T \<subseteq>\<^sub>m ?T" using p(4) by (auto simp: map_le_def)
  moreover have tps: "table_pages ?T = table_pages T \<union> pages a 1" by (rule table_pages_upd [of T "p @ [i]" a, OF p(4)])
  moreover have sub: "table_pages T \<subseteq> taken (kernel_pool m)" by (rule table_pages_taken [OF t])
  moreover have "get64 m2 (u + 8 * j) = (case T q of None \<Rightarrow> Some 0 | Some t \<Rightarrow> get64 m (t + 8 * j))"
    if "length q = 3" "?T q = Some u" "j < 512" for q u j
  proof (cases "q = p @ [i]")
    case True
    then show ?thesis using that new p(4) by simp
  next
    case False
    then have u: "T q = Some u" using that by simp
    have "u \<noteq> t" using tablesD(4) [OF t p(1), of q] u that(1) p(2) by auto
    then show ?thesis using same [OF u that(3)] u by simp
  qed
  moreover have "ram m2 x = ram m x" if x: "x \<notin> pool_range (kernel_pool m) \<or> x \<in> taken (kernel_pool m) - table_pages T" for x
  proof -
    have "x \<notin> pages a 1" using x gp(4,9) by blast
    moreover have "x \<notin> pages t 1" using x table_pagesI [of T p t, OF p(1)] sub by (auto simp: taken_def)
    ultimately show ?thesis using slot_in_page [OF i, of t]
      by (auto simp: m2_def put64_def memset_def write_bytes_def subset_iff)
  qed
  moreover have "get64 m2 (root + 8 * j) = get64 m (root + 8 * j)" if j: "0 < j" "j < 512" for j
  proof -
    have "root \<noteq> t \<or> j \<noteq> i" using tablesD(4) [OF t p(1), of "[]"] tables_root [OF t] p(3) j by (auto simp: index_ok_def)
    then show ?thesis using same [OF tables_root [OF t] j(2)] by simp
  qed
  ultimately show ?thesis unfolding ext_def grow_def using gp(4,6-8) k by (intro conjI) auto
qed

text \<open>The same table goes away again, before it got entries.\<close>

lemma drop_table:
  assumes t: "tables m root T" and p: "T p = Some t" "length p < 3" "index_ok p i" "T (p @ [i]) = None"
    and e: "ext root m T m3 (T(p @ [i] \<mapsto> a))" and fresh: "pages a 1 \<inter> taken (kernel_pool m) = {}"
    and g: "gave (kernel_pool m3) k' a 1"
  defines "m5 \<equiv> put64 (set_pool (memset m3 a 0xcc PGSIZE) False k') (t + 8 * i) 0"
  shows "ext root m T m5 T"
proof -
  let ?T = "T(p @ [i] \<mapsto> a)"
  note x = growD [OF extD(1) [OF e]]
  have i: "i < 512" using p(3) by (simp add: index_ok_def)
  have sub: "?T q = Some u" if "T q = Some u" for q u using that p(4) by auto
  have tp: "table_page m3 u" if "T q = Some u" for q u using tablesD(2) [OF x(1) sub [OF that]] .
  have al: "u mod PGSIZE = 0" if "T q = Some u" for q u using tp [OF that] by (simp add: table_page_def)
  have ta: "table_page m3 a" using tablesD(2) [OF x(1), of "p @ [i]" a] by simp
  have ne: "u \<noteq> a" if u: "T q = Some u" for q u
  proof
    assume "u = a"
    then have qa: "?T q = Some a" using sub [OF u] by (simp only:)
    have "?T (p @ [i]) = Some a" by simp
    from tablesD(4) [OF x(1) this qa] have "q = p @ [i]" .
    then show False using u p(4) by simp
  qed
  have same: "get64 m5 (u + 8 * j) = get64 m3 (u + 8 * j)" if "T q = Some u" "j < 512" "u \<noteq> t \<or> j \<noteq> i" for q u j
  proof -
    have "get64 (set_pool (memset m3 a 0xcc PGSIZE) False k') (u + 8 * j) = get64 m3 (u + 8 * j)"
      using get64_memset [OF al [OF that(1)] _ ne [OF that(1)] that(2), of m3 "0xcc"] ta by (simp add: table_page_def)
    then show ?thesis unfolding m5_def using slots_apart [OF al [OF p(1)] al [OF that(1)] i that(2)] that
      by (subst get64_put64_other) auto
  qed
  have k: "kernel_pool m5 = k'" "user_pool m5 = user_pool m3" by (simp_all add: m5_def memset_def set_pool_def)
  have g': "pool_wf k'" "pool_range k' = pool_range (kernel_pool m)" "taken k' = taken (kernel_pool m3) - pages a 1"
    using g x(5) by (simp_all add: gave_def)
  have tps: "table_pages ?T = table_pages T \<union> pages a 1" by (rule table_pages_upd [of T "p @ [i]" a, OF p(4)])
  have sub': "table_pages T \<subseteq> taken (kernel_pool m)" by (rule table_pages_taken [OF t])
  have tk: "taken k' = taken (kernel_pool m)" using g'(3) x(6) tps sub' fresh by blast
  have "tables m5 root T"
    unfolding tables_def
  proof (intro conjI allI impI)
    show "T [] = Some root" using tables_root [OF t] .
    fix q u assume q: "T q = Some u"
    show "length q \<le> 3" using tablesD(1) [OF t q] .
    show "table_page m5 u" using tablesD(2) [OF t q] by (simp add: table_page_def k tk)
  next
    fix q j assume "T (q @ [j]) \<noteq> None"
    then show "T q \<noteq> None" "index_ok q j" using tables_parent [OF t, of q j] by auto
  next
    fix q r u assume "T q = Some u" "T r = Some u"
    then show "q = r" using tablesD(4) [OF t] by auto
  next
    fix q u j assume q: "T q = Some u" and j: "index_ok q j"
    show "\<exists>e. get64 m5 (u + 8 * j) = Some e \<and> (length q < 3 \<longrightarrow> T (q @ [j]) = child e)"
    proof (cases "q = p \<and> j = i")
      case True
      then have "u = t" using q p(1) by simp
      then show ?thesis using True p(4) by (simp add: m5_def child_def)
    next
      case other: False
      have "u \<noteq> t \<or> j \<noteq> i" using other tablesD(4) [OF t p(1)] q by blast
      then have "get64 m5 (u + 8 * j) = get64 m3 (u + 8 * j)" using same [OF q] j by (simp add: index_ok_def)
      moreover have "?T (q @ [j]) = T (q @ [j])" using other by auto
      ultimately show ?thesis using tablesD(3) [OF x(1) sub [OF q] j] by simp
    qed
  qed
  moreover have "get64 m5 (u + 8 * j) = (case T q of None \<Rightarrow> Some 0 | Some t \<Rightarrow> get64 m (t + 8 * j))"
    if "length q = 3" "T q = Some u" "j < 512" for q u j
  proof -
    have "u \<noteq> t" using tablesD(4) [OF t p(1), of q] that(1,2) p(2) by auto
    then show ?thesis using same [OF that(2,3)] extD(2) [OF e that(1) sub [OF that(2)] that(3)] that(2) by simp
  qed
  moreover have "ram m5 y = ram m y" if y: "y \<notin> pool_range (kernel_pool m) \<or> y \<in> taken (kernel_pool m) - table_pages T" for y
  proof -
    have "y \<in> taken (kernel_pool m) - table_pages T \<Longrightarrow> y \<notin> pages a 1" using fresh by blast
    moreover have "pages a 1 \<subseteq> pool_range (kernel_pool m)" using ta x(5) by (auto simp: table_page_def taken_def)
    ultimately have "y \<notin> pages a 1" using y by blast
    moreover have "y \<notin> pages t 1" using y table_pagesI [of T p t, OF p(1)] sub' by (auto simp: taken_def)
    ultimately have "ram m5 y = ram m3 y" using slot_in_page [OF i, of t]
      by (auto simp: m5_def put64_def memset_def write_bytes_def subset_iff)
    then show ?thesis using x(8) [OF y] by simp
  qed
  moreover have "get64 m5 (root + 8 * j) = get64 m (root + 8 * j)" if j: "0 < j" "j < 512" for j
  proof -
    have "root \<noteq> t \<or> j \<noteq> i" using tablesD(4) [OF t p(1), of "[]"] tables_root [OF t] p(3) j by (auto simp: index_ok_def)
    then show ?thesis using same [OF tables_root [OF t] j(2)] x(9) [OF j] by simp
  qed
  ultimately show ?thesis unfolding ext_def grow_def using g'(1,2) tk x(3) k sub' by (intro conjI) auto
qed

subsection \<open>One level\<close>

text \<open>At most \<open>n\<close> pages of the pool are free.\<close>

definition few :: "pool \<Rightarrow> nat \<Rightarrow> bool" where
  "few k n \<longleftrightarrow> (\<exists>A. finite A \<and> card A \<le> n \<and> pool_range k - taken k \<subseteq> (\<Union>a\<in>A. pages a 1))"

lemma few_none: "pool_wf k \<Longrightarrow> \<not> has_room k 1 \<Longrightarrow> few k 0"
proof -
  assume k: "pool_wf k" and r: "\<not> has_room k 1"
  have "x \<in> taken k" if x: "x \<in> pool_range k" for x
  proof (rule ccontr)
    assume n: "x \<notin> taken k"
    let ?i = "(x - base k) div PGSIZE"
    have b: "base k \<le> x" and i: "?i < bit_cnt (used_map k)" using x by (auto simp: pool_range_def page_index [symmetric])
    have free: "\<not> bm_list (used_map k) ! ?i" using x n by (simp add: taken_def)
    have "y \<notin> taken k" if y: "y \<in> pages (base k + PGSIZE * ?i) 1" for y
    proof -
      have "base k \<le> y" using y by simp
      from pages_index [OF this, of ?i 1] y have "?i \<le> (y - base k) div PGSIZE \<and> (y - base k) div PGSIZE < ?i + 1" by blast
      then have "(y - base k) div PGSIZE = ?i" by linarith
      then show ?thesis using free by (simp add: taken_def)
    qed
    then have "has_room k 1" using i unfolding has_room_def by (intro exI [of _ ?i]) auto
    then show False using r by blast
  qed
  then show ?thesis by (intro few_def [THEN iffD2] exI [of _ "{}"]) auto
qed

lemma few_mono: "few k n \<Longrightarrow> n \<le> n' \<Longrightarrow> few k n'"
  unfolding few_def by (meson le_trans)

lemma few_more:
  assumes "few k' n" "pool_range k' = pool_range k" "taken k' = taken k \<union> pages a 1"
  shows "few k (Suc n)"
proof -
  obtain A where A: "finite A" "card A \<le> n" "pool_range k' - taken k' \<subseteq> (\<Union>a\<in>A. pages a 1)" using assms(1) by (auto simp: few_def)
  have "pool_range k - taken k \<subseteq> (\<Union>a\<in>insert a A. pages a 1)" using A(3) assms(2,3) by blast
  moreover have "card (insert a A) \<le> Suc n" using A(1,2) by (cases "a \<in> A") (simp_all add: insert_absorb)
  ultimately show ?thesis using A(1) unfolding few_def by (intro exI [of _ "insert a A"]) simp
qed

lemma open_entry_run:
  assumes t: "tables m root T" and pl: "pools m" and p: "T p = Some t" "length p < 3" "index_ok p i"
  obtains (there) e u where "T (p @ [i]) = Some u" "open_entry m (t + 8 * i) c = Some (True, False, m)" "get64 m (t + 8 * i) = Some e"
      "ptov (PTE_ADDR e) = u"
  | (absent) "\<not> c" "T (p @ [i]) = None" "open_entry m (t + 8 * i) c = Some (False, False, m)"
  | (full) c "T (p @ [i]) = None" "open_entry m (t + 8 * i) c = Some (False, False, m)" "few (kernel_pool m) 0"
  | (new) a k' m2 where c "T (p @ [i]) = None" "got (kernel_pool m) k' a 1"
      "m2 = put64 (memset (set_pool m False k') a 0 PGSIZE) (t + 8 * i) (table_entry a)"
      "open_entry m (t + 8 * i) c = Some (True, True, m2)" "ptov (PTE_ADDR (table_entry a)) = a"
proof -
  obtain e where e: "get64 m (t + 8 * i) = Some e" "T (p @ [i]) = child e" using tablesD(3) [OF t p(1,3)] p(2) by auto
  have wf: "pool_wf (pool_of m False)" "False \<longleftrightarrow> PAL_ZERO AND PAL_USER \<noteq> 0" using pl by (simp_all add: pools_def PAL_ZERO_def PAL_USER_def)
  show thesis
  proof (cases "e AND PTE_P \<noteq> 0")
    case True
    then show thesis using e by (intro there) (simp_all add: open_entry_def child_def)
  next
    case P: False
    then have none: "T (p @ [i]) = None" using e by (simp add: child_def)
    show thesis
    proof (cases c)
      case False
      then show thesis using none P e by (intro absent) (simp_all add: open_entry_def)
    next
      case True
      from wf show thesis
      proof (cases rule: palloc_get [where n = 1])
        case (found a k')
        have g: "got (kernel_pool m) k' a 1" using found(1) by simp
        note gp = got_page [OF g pl t]
        have "palloc_get_page m PAL_ZERO = Some (a, memset (set_pool m False k') a 0 PGSIZE)"
          using found(3) by (simp add: palloc_get_page_def PAL_ZERO_def)
        moreover have "a \<noteq> NULL" "is_kernel_vaddr a" using g gp(2) by (simp_all add: got_def is_kernel_vaddr_def)
        ultimately have "open_entry m (t + 8 * i) c = Some (True, True, put64 (memset (set_pool m False k') a 0 PGSIZE) (t + 8 * i) (table_entry a))"
          using P True e by (simp add: open_entry_def vtop_def or.assoc)
        moreover have "a < 2 ^ 64" using gp(3) by (simp add: PGSIZE_val)
        ultimately show thesis by (intro new [OF True none g refl]) (use table_entry(1) gp(1,2) in simp_all)
      next
        case full
        then have "open_entry m (t + 8 * i) c = Some (False, False, m)"
          using P True e by (simp add: open_entry_def palloc_get_page_def PAL_ZERO_def PAL_ASSERT_def)
        then show thesis using few_none [OF wf(1)] full(1) by (intro that(3) [OF True none]) simp_all
      qed
    qed
  qed
qed

subsection \<open>Walks\<close>

text \<open>
  \<open>W\<close> finds the slot \<open>x\<close> of the page table at the end of the way \<open>r\<close> from the table at \<open>p\<close>; when it makes tables, it fails only if
  no more than \<open>n\<close> pages are free.
\<close>

definition walks :: "addr \<Rightarrow> (memory \<Rightarrow> addr \<Rightarrow> (addr \<times> memory) option) \<Rightarrow> bool \<Rightarrow> nat list \<Rightarrow> nat list \<Rightarrow> nat \<Rightarrow> nat \<Rightarrow> bool" where
  "walks root W c p r x n \<longleftrightarrow> (\<forall>m T t. tables m root T \<longrightarrow> pools m \<longrightarrow> T p = Some t \<longrightarrow>
     (\<exists>pte m' T'. W m t = Some (pte, m') \<and> ext root m T m' T' \<and> (\<not> c \<longrightarrow> m' = m \<and> T' = T) \<and>
        (if pte = NULL then T' = T \<and> T (p @ r) = None \<and> (c \<longrightarrow> few (kernel_pool m) n) else \<exists>u. T' (p @ r) = Some u \<and> pte = u + 8 * x)))"

lemma walksE:
  assumes "walks root W c p r x n" "tables m root T" "pools m" "T p = Some t"
  obtains pte m' T' where "W m t = Some (pte, m')" "ext root m T m' T'" "\<not> c \<longrightarrow> m' = m \<and> T' = T"
    "if pte = NULL then T' = T \<and> T (p @ r) = None \<and> (c \<longrightarrow> few (kernel_pool m) n) else \<exists>u. T' (p @ r) = Some u \<and> pte = u + 8 * x"
proof -
  have "\<exists>pte m' T'. W m t = Some (pte, m') \<and> ext root m T m' T' \<and> (\<not> c \<longrightarrow> m' = m \<and> T' = T) \<and>
      (if pte = NULL then T' = T \<and> T (p @ r) = None \<and> (c \<longrightarrow> few (kernel_pool m) n) else \<exists>u. T' (p @ r) = Some u \<and> pte = u + 8 * x)"
    using assms(1) unfolding walks_def by (elim allE impE) (rule assms(2-4))+
  then show thesis by (elim exE conjE) (rule that)
qed

lemma tables_none: "tables m root T \<Longrightarrow> T q = None \<Longrightarrow> T (q @ r) = None"
proof (induction r rule: rev_induct)
  case (snoc j r)
  then show ?case using tables_parent [of m root T "q @ r" j] by (cases "T (q @ r @ [j])") auto
qed simp

lemma pgdir_walks:
  assumes p: "length p = 2"
  shows "walks root (\<lambda>m t. pgdir_walk m t va c) c p [PDX va] (PTX va) 0"
  unfolding walks_def
proof (intro allI impI)
  fix m T t assume t: "tables m root T" and pl: "pools m" and T: "T p = Some t"
  have ix: "index_ok p (PDX va)" "length p < 3" using p by (auto simp: index_ok_def PDX_def)
  have nn: "t \<noteq> NULL" using tablesD(2) [OF t T] by (auto simp: table_page_def KERN_BASE_def)
  have x: "PTX va < 512" by (simp add: PTX_def)
  have slot: "ptov (PTE_ADDR e + 8 * PTX va) = u + 8 * PTX va" if "ptov (PTE_ADDR e) = u" "u + PGSIZE \<le> 2 ^ 64" for e u
    by (rule ptov_add [OF that(1)]) (use that(2) x in \<open>simp add: PGSIZE_val\<close>)
  show "\<exists>pte m' T'. pgdir_walk m t va c = Some (pte, m') \<and> ext root m T m' T' \<and> (\<not> c \<longrightarrow> m' = m \<and> T' = T) \<and>
      (if pte = NULL then T' = T \<and> T (p @ [PDX va]) = None \<and> (c \<longrightarrow> few (kernel_pool m) 0)
       else \<exists>u. T' (p @ [PDX va]) = Some u \<and> pte = u + 8 * PTX va)"
    using t pl T ix(2,1)
  proof (cases rule: open_entry_run [where c = c])
    case (there e u)
    have u: "table_page m u" using tablesD(2) [OF t there(1)] .
    have "pgdir_walk m t va c = Some (u + 8 * PTX va, m)"
      using nn there slot [OF there(4)] u by (simp add: pgdir_walk_def table_page_def)
    then show ?thesis using ext_refl [OF t pl] there(1) u by (intro exI [of _ "u + 8 * PTX va"] exI [of _ m] exI [of _ T]) (auto simp: table_page_def KERN_BASE_def)
  next
    case absent
    then have "pgdir_walk m t va c = Some (NULL, m)" using nn by (simp add: pgdir_walk_def)
    then show ?thesis using ext_refl [OF t pl] absent by (intro exI [of _ NULL] exI [of _ m] exI [of _ T]) simp
  next
    case full
    then have "pgdir_walk m t va c = Some (NULL, m)" using nn by (simp add: pgdir_walk_def)
    then show ?thesis using ext_refl [OF t pl] full by (intro exI [of _ NULL] exI [of _ m] exI [of _ T]) simp
  next
    case (new a k' m2)
    note e = new_table [OF t pl T ix(2,1) new(2,3), folded new(4)]
    have a: "KERN_BASE \<le> a" "a + PGSIZE \<le> 2 ^ 64" using got_page [OF new(3) pl t] by simp_all
    have "get64 m2 (t + 8 * PDX va) = Some (table_entry a)" by (simp add: new(4))
    then have "pgdir_walk m t va c = Some (a + 8 * PTX va, m2)"
      using nn new(5) slot [OF new(6) a(2)] by (simp add: pgdir_walk_def or.assoc)
    then show ?thesis using e new(1) a(1)
      by (intro exI [of _ "a + 8 * PTX va"] exI [of _ m2] exI [of _ "T(p @ [PDX va] \<mapsto> a)"]) (auto simp: KERN_BASE_def)
  qed
qed

text \<open>The two upper walks have the same form.\<close>

definition upper_walk :: "(memory \<Rightarrow> addr \<Rightarrow> (addr \<times> memory) option) \<Rightarrow> nat \<Rightarrow> bool \<Rightarrow> memory \<Rightarrow> addr \<Rightarrow> (addr \<times> memory) option" where
  "upper_walk W i c m t =
     (if t \<noteq> NULL then do {
        let slot = t + 8 * i;
        (present, allocated, m) \<leftarrow> open_entry m slot c;
        if \<not> present then Some (NULL, m)
        else do {
          e \<leftarrow> get64 m slot;
          (pte, m) \<leftarrow> W m (ptov (PTE_ADDR e));
          close_entry m slot allocated pte
        }
      } else Some (NULL, m))"

lemma pdpe_walk_upper: "pdpe_walk m t va c = upper_walk (\<lambda>m t. pgdir_walk m t va c) (PDPE va) c m t"
  by (simp add: pdpe_walk_def upper_walk_def)

lemma pml4e_walk_upper: "pml4e_walk m t va c = upper_walk (\<lambda>m t. pdpe_walk m t va c) (PML4 va) c m t"
  by (simp add: pml4e_walk_def upper_walk_def)

text \<open>A new table that the lower walk could not use is given back.\<close>

lemma close_entry_drops:
  assumes t: "tables m root T" and p: "T p = Some t" "length p < 3" "index_ok p i" "T (p @ [i]) = None"
    and e: "ext root m T m3 (T(p @ [i] \<mapsto> a))" and pl: "pools m3" and fresh: "pages a 1 \<inter> taken (kernel_pool m) = {}"
  shows "\<exists>m5. close_entry m3 (t + 8 * i) True NULL = Some (NULL, m5) \<and> ext root m T m5 T"
proof -
  let ?T = "T(p @ [i] \<mapsto> a)"
  note x = growD(1) [OF extD(1) [OF e]]
  have "?T p = Some t" using p(1) by simp
  from tablesD(3) [OF x this p(3)] obtain w where w: "get64 m3 (t + 8 * i) = Some w" "child w = Some a" using p(2) by auto
  then have pa: "ptov (PTE_ADDR w) = a" by (simp add: child_def split: if_splits)
  have ta: "table_page m3 a" using tablesD(2) [OF x, of "p @ [i]" a] by simp
  obtain k' where k': "gave (kernel_pool m3) k' a 1"
    "palloc_free_multiple m3 a 1 = Some (set_pool (memset m3 a 0xcc (PGSIZE * 1)) False k')"
    using palloc_free [of m3 a 1 False] pl ta by (auto simp: pools_def table_page_def)
  have "close_entry m3 (t + 8 * i) True NULL = Some (NULL, put64 (set_pool (memset m3 a 0xcc PGSIZE) False k') (t + 8 * i) 0)"
    using w(1) pa k'(2) by (simp add: close_entry_def palloc_free_page_def)
  then show ?thesis using drop_table [OF t p e fresh k'(1)] by blast
qed

lemma upper_walks:
  assumes W: "walks root W c (p @ [i]) r x n" and p: "length p < 3" "index_ok p i"
  shows "walks root (upper_walk W i c) c p (i # r) x (Suc n)"
  unfolding walks_def
proof (intro allI impI)
  fix m T t assume t: "tables m root T" and pl: "pools m" and T: "T p = Some t"
  have nn: "t \<noteq> NULL" using tablesD(2) [OF t T] by (auto simp: table_page_def KERN_BASE_def)
  have cons: "p @ i # r = (p @ [i]) @ r" by simp
  show "\<exists>pte m' T'. upper_walk W i c m t = Some (pte, m') \<and> ext root m T m' T' \<and> (\<not> c \<longrightarrow> m' = m \<and> T' = T) \<and>
      (if pte = NULL then T' = T \<and> T (p @ i # r) = None \<and> (c \<longrightarrow> few (kernel_pool m) (Suc n))
       else \<exists>u. T' (p @ i # r) = Some u \<and> pte = u + 8 * x)"
    using t pl T p
  proof (cases rule: open_entry_run [where c = c])
    case (there e u)
    obtain pte m' T' where w: "W m u = Some (pte, m')" and h: "ext root m T m' T'" "\<not> c \<longrightarrow> m' = m \<and> T' = T"
      "if pte = NULL then T' = T \<and> T ((p @ [i]) @ r) = None \<and> (c \<longrightarrow> few (kernel_pool m) n) else \<exists>u. T' ((p @ [i]) @ r) = Some u \<and> pte = u + 8 * x"
      by (rule walksE [OF W t pl there(1)])
    have "upper_walk W i c m t = Some (pte, m')" using nn there w by (simp add: upper_walk_def close_entry_def)
    then show ?thesis using h few_mono [of "kernel_pool m" n "Suc n"]
      by (intro exI [of _ pte] exI [of _ m'] exI [of _ T']) (auto simp: cons simp del: append_Cons append_assoc split: if_splits)
  next
    case absent
    then have "upper_walk W i c m t = Some (NULL, m)" using nn by (simp add: upper_walk_def)
    then show ?thesis using ext_refl [OF t pl] absent tables_none [OF t absent(2), of r] by (intro exI [of _ NULL] exI [of _ m] exI [of _ T]) simp
  next
    case full
    then have "upper_walk W i c m t = Some (NULL, m)" using nn by (simp add: upper_walk_def)
    then show ?thesis using ext_refl [OF t pl] full tables_none [OF t full(2), of r] few_mono [of _ 0 "Suc n"]
      by (intro exI [of _ NULL] exI [of _ m] exI [of _ T]) simp
  next
    case (new a k' m2)
    let ?T = "T(p @ [i] \<mapsto> a)"
    note e = new_table [OF t pl T p new(2,3), folded new(4)]
    note gp = got_page [OF new(3) pl t]
    have pl2: "pools m2" by (rule grow_pools [OF extD(1) [OF e] pl])
    have slot: "get64 m2 (t + 8 * i) = Some (table_entry a)" by (simp add: new(4))
    have "?T (p @ [i]) = Some a" by simp
    then obtain pte m3 T3 where w: "W m2 a = Some (pte, m3)" and h: "ext root m2 ?T m3 T3"
      "if pte = NULL then T3 = ?T \<and> ?T ((p @ [i]) @ r) = None \<and> (c \<longrightarrow> few (kernel_pool m2) n) else \<exists>u. T3 ((p @ [i]) @ r) = Some u \<and> pte = u + 8 * x"
      by (rule walksE [OF W growD(1) [OF extD(1) [OF e]] pl2])
    note e3 = ext_trans [OF e h(1)]
    have run: "upper_walk W i c m t = close_entry m3 (t + 8 * i) True pte"
      using nn new(5,6) slot w by (simp add: upper_walk_def or.assoc)
    show ?thesis
    proof (cases "pte = NULL")
      case True
      then have e3': "ext root m T m3 ?T" and f: "few (kernel_pool m2) n" using h(2) e3 new(1) by auto
      obtain m5 where m5: "close_entry m3 (t + 8 * i) True NULL = Some (NULL, m5)" "ext root m T m5 T"
        using close_entry_drops [OF t T p new(2) e3' grow_pools [OF extD(1) [OF e3'] pl] gp(4)] by blast
      have "kernel_pool m2 = k'" by (simp add: new(4) memset_def set_pool_def)
      then have "few (kernel_pool m) (Suc n)" using few_more [OF _ gp(8,6)] f by simp
      then show ?thesis using run m5 True new(1) tables_none [OF t new(2), of r]
        by (intro exI [of _ NULL] exI [of _ m5] exI [of _ T]) simp
    next
      case False
      then have "upper_walk W i c m t = Some (pte, m3)" using run by (simp add: close_entry_def)
      then show ?thesis using e3 h(2) False new(1)
        by (intro exI [of _ pte] exI [of _ m3] exI [of _ T3]) (simp add: cons del: append_Cons append_assoc)
    qed
  qed
qed

text \<open>The whole walk, for an address of the lower half.\<close>

abbreviation way :: "addr \<Rightarrow> nat list" where
  "way va \<equiv> [0, PDPE va, PDX va]"

lemma pml4e_walk_run:
  assumes t: "tables m root T" and pl: "pools m" and va: "va < 2 ^ 39"
  obtains pte m' T' where "pml4e_walk m root va c = Some (pte, m')" "ext root m T m' T'" "\<not> c \<Longrightarrow> m' = m \<and> T' = T"
    "if pte = NULL then T' = T \<and> T (way va) = None \<and> (c \<longrightarrow> few (kernel_pool m) 2) else \<exists>u. T' (way va) = Some u \<and> pte = u + 8 * PTX va"
proof -
  have ix: "PML4 va = 0" "index_ok [] 0" "index_ok [0] (PDPE va)" using va by (simp_all add: PML4_def index_ok_def PDPE_def)
  have 1: "walks root (\<lambda>m t. pgdir_walk m t va c) c ([0] @ [PDPE va]) [PDX va] (PTX va) 0" by (rule pgdir_walks) simp
  have 2: "walks root (\<lambda>m t. pdpe_walk m t va c) c ([] @ [0]) [PDPE va, PDX va] (PTX va) 1"
    using upper_walks [OF 1 _ ix(3)] unfolding pdpe_walk_upper by simp
  have 3: "walks root (\<lambda>m t. pml4e_walk m t va c) c [] (way va) (PTX va) 2"
    using upper_walks [OF 2 _ ix(2)] unfolding pml4e_walk_upper ix(1) by (simp add: numeral_2_eq_2)
  show thesis
    by (rule walksE [OF 3 t pl tables_root [OF t]], rule that) (simp_all only: append_Nil simp_thms)
qed

end
