(* ===== verification/PageTableOps.thy ===== *)
theory PageTableOps
  imports PageTableWalk
begin

text \<open>
  The operations on page maps of \<open>PageTable\<close> as operations on a map from pages to frames. \<open>leaf\<close> is the entry for an address, and
  \<open>frame_of\<close> what it means.
\<close>

definition leaf :: "(nat list \<rightharpoonup> addr) \<Rightarrow> memory \<Rightarrow> addr \<Rightarrow> 64 word" where
  "leaf T m va = (case T (way va) of None \<Rightarrow> 0 | Some t \<Rightarrow> the (get64 m (t + 8 * PTX va)))"

record frame =
  kva :: addr
  writable :: bool
  accessed :: bool
  dirty :: bool

definition frame_of :: "64 word \<Rightarrow> frame option" where
  "frame_of e = (if e AND PTE_P \<noteq> 0
     then Some \<lparr>kva = ptov (PTE_ADDR e), writable = (e AND PTE_W \<noteq> 0), accessed = (e AND PTE_A \<noteq> 0), dirty = (e AND PTE_D \<noteq> 0)\<rparr> else None)"

text \<open>The page map in use has its entries, and none that is out of date, in the processor.\<close>

definition fresh_tlb :: "machine \<Rightarrow> addr \<Rightarrow> (nat list \<rightharpoonup> addr) \<Rightarrow> bool" where
  "fresh_tlb s root T \<longleftrightarrow> (cr3 s = root - KERN_BASE \<longrightarrow> (\<forall>(va, e)\<in>set (tlb s). va < 2 ^ 39 \<longrightarrow> leaf T (mem s) va = e \<and> e AND PTE_P \<noteq> 0))"

definition page_map :: "machine \<Rightarrow> addr \<Rightarrow> (nat list \<rightharpoonup> addr) \<Rightarrow> bool" where
  "page_map s root T \<longleftrightarrow> tables (mem s) root T \<and> pools (mem s) \<and> root \<noteq> base_pml4 s \<and> fresh_tlb s root T"

text \<open>Pages below \<open>2 ^ 27\<close> are those of the lower half.\<close>

definition mapping :: "(nat list \<rightharpoonup> addr) \<Rightarrow> memory \<Rightarrow> nat \<rightharpoonup> frame" where
  "mapping T m n = (if n < 2 ^ 27 then frame_of (leaf T m (PGSIZE * n)) else None)"

subsection \<open>Indices\<close>

lemma page_indices:
  assumes "va < 2 ^ 39"
  shows "pg_no va = PDPE va * 2 ^ 18 + PDX va * 2 ^ 9 + PTX va"
proof -
  have "va div 2 ^ 12 = (va div 2 ^ 21) * 512 + PTX va" unfolding PTX_def
    using div_mult_mod_eq [of "va div 2 ^ 12" 512] by (simp add: div_mult2_eq [symmetric])
  moreover have "va div 2 ^ 21 = (va div 2 ^ 30) * 512 + PDX va" unfolding PDX_def
    using div_mult_mod_eq [of "va div 2 ^ 21" 512] by (simp add: div_mult2_eq [symmetric])
  moreover have "va div 2 ^ 30 = PDPE va" using assms unfolding PDPE_def by simp
  ultimately show ?thesis by (simp add: pg_no_def PGSIZE_def)
qed

lemma digits_unique:
  assumes "a * 2 ^ 18 + b * 2 ^ 9 + c = d * 2 ^ 18 + e * 2 ^ 9 + f" "b < 512" "c < 512" "e < 512" "f < (512 :: nat)"
  shows "a = d \<and> b = e \<and> c = f"
proof -
  have "a = d"
    using assms by (cases a d rule: linorder_cases) auto
  then show ?thesis using assms by (cases b e rule: linorder_cases) auto
qed

lemma same_page:
  assumes "va < 2 ^ 39" "vb < 2 ^ 39"
  shows "pg_no va = pg_no vb \<longleftrightarrow> way va = way vb \<and> PTX va = PTX vb"
proof
  have "PDPE v < 512" "PDX v < 512" "PTX v < 512" for v by (simp_all add: PDPE_def PDX_def PTX_def)
  then have b: "PDPE va < 512" "PDX va < 512" "PTX va < 512" "PDPE vb < 512" "PDX vb < 512" "PTX vb < 512" by blast+
  assume "pg_no va = pg_no vb"
  then have "PDPE va * 2 ^ 18 + PDX va * 2 ^ 9 + PTX va = PDPE vb * 2 ^ 18 + PDX vb * 2 ^ 9 + PTX vb" by (simp only: page_indices assms)
  from digits_unique [OF this b(2,3,5,6)] show "way va = way vb \<and> PTX va = PTX vb" by simp
next
  assume "way va = way vb \<and> PTX va = PTX vb"
  then show "pg_no va = pg_no vb" by (simp add: page_indices [OF assms(1)] page_indices [OF assms(2)])
qed

lemma leaf_page: "va < 2 ^ 39 \<Longrightarrow> vb < 2 ^ 39 \<Longrightarrow> pg_no va = pg_no vb \<Longrightarrow> leaf T m va = leaf T m vb"
proof -
  assume "va < 2 ^ 39" "vb < 2 ^ 39" "pg_no va = pg_no vb"
  then have "way va = way vb" "PTX va = PTX vb" using same_page [of va vb] by blast+
  then show ?thesis by (simp only: leaf_def)
qed

lemma mapping_leaf: "va < 2 ^ 39 \<Longrightarrow> mapping T m (pg_no va) = frame_of (leaf T m va)"
proof -
  assume va: "va < 2 ^ 39"
  then have n: "pg_no va < 2 ^ 27" by (simp add: pg_no_def PGSIZE_val less_mult_imp_div_less)
  then have "leaf T m (PGSIZE * pg_no va) = leaf T m va" by (intro leaf_page) (simp_all add: va PGSIZE_val pg_no_def)
  then show ?thesis using n by (simp add: mapping_def)
qed

subsection \<open>Entries\<close>

lemma leaf_entry:
  assumes "tables m root T" "T (way va) = Some t"
  shows "get64 m (t + 8 * PTX va) = Some (leaf T m va)"
proof -
  have "index_ok (way va) (PTX va)" by (simp add: index_ok_def PTX_def)
  from tablesD(3) [OF assms this] show ?thesis using assms(2) by (auto simp: leaf_def)
qed

lemma leaf_ext:
  assumes "ext root m T m' T'"
  shows "leaf T' m' va = leaf T m va"
proof (cases "T' (way va)")
  case None
  then have "T (way va) = None" using growD(2) [OF extD(1) [OF assms]] by (metis domIff map_le_def)
  then show ?thesis using None by (simp add: leaf_def)
next
  case (Some t)
  have "length (way va) = 3" "PTX va < 512" by (simp_all add: PTX_def)
  from extD(2) [OF assms this(1) Some this(2)] show ?thesis using Some by (auto simp: leaf_def split: option.split)
qed

lemma mapping_ext: "ext root m T m' T' \<Longrightarrow> mapping T' m' = mapping T m"
  by (rule ext) (simp add: mapping_def leaf_ext)

text \<open>Writing an entry of a page table.\<close>

lemma write_leaf:
  fixes w :: "64 word"
  assumes t: "tables m root T" and T: "T (way va) = Some t"
  defines "m' \<equiv> put64 m (t + 8 * PTX va) w"
  shows "tables m' root T" "va < 2 ^ 39 \<Longrightarrow> vb < 2 ^ 39 \<Longrightarrow> leaf T m' vb = (if pg_no vb = pg_no va then w else leaf T m vb)"
proof -
  have x: "PTX v < 512" for v by (simp add: PTX_def)
  have al: "u mod PGSIZE = 0" if "T q = Some u" for q u using tablesD(2) [OF t that] by (simp add: table_page_def)
  have other: "get64 m' (u + 8 * j) = get64 m (u + 8 * j)" if "T q = Some u" "j < 512" "u \<noteq> t \<or> j \<noteq> PTX va" for q u j
    unfolding m'_def using slots_apart [OF al [OF T] al [OF that(1)] x [of va] that(2)] that(3) by (intro get64_put64_other) auto
  have k: "kernel_pool m' = kernel_pool m" by (simp add: m'_def)
  show "tables m' root T"
    unfolding tables_def
  proof (intro conjI allI impI)
    show "T [] = Some root" using tables_root [OF t] .
    fix q u assume q: "T q = Some u"
    show "length q \<le> 3" using tablesD(1) [OF t q] .
    show "table_page m' u" using tablesD(2) [OF t q] by (simp add: table_page_def k)
  next
    fix q j assume "T (q @ [j]) \<noteq> None"
    then show "T q \<noteq> None" "index_ok q j" using tables_parent [OF t, of q j] by auto
  next
    fix q r u assume "T q = Some u" "T r = Some u"
    then show "q = r" using tablesD(4) [OF t] by auto
  next
    fix q u j assume q: "T q = Some u" and j: "index_ok q j"
    show "\<exists>e. get64 m' (u + 8 * j) = Some e \<and> (length q < 3 \<longrightarrow> T (q @ [j]) = child e)"
    proof (cases "u = t \<and> j = PTX va")
      case True
      then have "q = way va" using tablesD(4) [OF t T] q by blast
      then show ?thesis using True by (simp add: m'_def)
    next
      case False
      then show ?thesis using other [OF q] tablesD(3) [OF t q j] j by (simp add: index_ok_def)
    qed
  qed
  assume va: "va < 2 ^ 39" "vb < 2 ^ 39"
  show "leaf T m' vb = (if pg_no vb = pg_no va then w else leaf T m vb)"
  proof (cases "pg_no vb = pg_no va")
    case True
    then have "way vb = way va \<and> PTX vb = PTX va" using same_page [OF va] by auto
    then show ?thesis using T True by (simp add: leaf_def m'_def)
  next
    case False
    show ?thesis
    proof (cases "T (way vb)")
      case None
      then show ?thesis using False by (simp add: leaf_def)
    next
      case (Some u)
      have "u \<noteq> t \<or> PTX vb \<noteq> PTX va" using False same_page [OF va] tablesD(4) [OF t T, of "way vb"] Some by auto
      from other [OF Some x this] show ?thesis using Some False by (simp add: leaf_def)
    qed
  qed
qed

lemma write_grow:
  fixes w :: "64 word"
  assumes t: "tables m root T" and pl: "pools m" and T: "T (way va) = Some t"
  shows "grow root m T (put64 m (t + 8 * PTX va) w) T"
proof -
  have sub: "table_pages T \<subseteq> taken (kernel_pool m)" by (rule table_pages_taken [OF t])
  have "ram (put64 m (t + 8 * PTX va) w) x = ram m x" if "x \<notin> pool_range (kernel_pool m) \<or> x \<in> taken (kernel_pool m) - table_pages T" for x
  proof -
    have "x \<notin> pages t 1" using that table_pagesI [of T "way va" t, OF T] sub by (auto simp: taken_def)
    moreover have "PTX va < 512" by (simp add: PTX_def)
    ultimately show ?thesis using slot_in_page [of "PTX va" t] by (intro ram_put64) auto
  qed
  moreover have "get64 (put64 m (t + 8 * PTX va) w) (root + 8 * i) = get64 m (root + 8 * i)" if "i < 512" for i
  proof (rule get64_put64_other)
    have "T [] = Some root" by (rule tables_root [OF t])
    moreover from this have "t \<noteq> root" using tablesD(4) [OF t T, of "[]"] by auto
    ultimately show "t + 8 * PTX va + 8 \<le> root + 8 * i \<or> root + 8 * i + 8 \<le> t + 8 * PTX va"
      using slots_apart [of t root "PTX va" i] tablesD(2) [OF t T] tablesD(2) [OF t, of "[]" root] that by (simp add: table_page_def PTX_def)
  qed
  ultimately show ?thesis using write_leaf(1) [OF t T, of w] pl sub by (auto simp: grow_def pools_def)
qed

lemma write_mapping:
  fixes w :: "64 word"
  assumes t: "tables m root T" and T: "T (way va) = Some t" and va: "va < 2 ^ 39"
  shows "mapping T (put64 m (t + 8 * PTX va) w) = (mapping T m)(pg_no va := frame_of w)"
proof
  fix n
  have "pg_no va < 2 ^ 27" using va by (simp add: pg_no_def PGSIZE_val less_mult_imp_div_less)
  moreover have "leaf T (put64 m (t + 8 * PTX va) w) (PGSIZE * n) = (if n = pg_no va then w else leaf T m (PGSIZE * n))" if "n < 2 ^ 27"
    using write_leaf(2) [OF t T va, of "PGSIZE * n" w] that by (simp add: PGSIZE_val pg_no_def)
  ultimately show "mapping T (put64 m (t + 8 * PTX va) w) n = ((mapping T m)(pg_no va := frame_of w)) n"
    by (auto simp: mapping_def)
qed

subsection \<open>Operations\<close>

text \<open>What every operation keeps.\<close>

definition apart :: "addr \<Rightarrow> machine \<Rightarrow> (nat list \<rightharpoonup> addr) \<Rightarrow> machine \<Rightarrow> (nat list \<rightharpoonup> addr) \<Rightarrow> bool" where
  "apart root s T s' T' \<longleftrightarrow> grow root (mem s) T (mem s') T' \<and> base_pml4 s' = base_pml4 s"

lemma apart_refl: "page_map s root T \<Longrightarrow> apart root s T s T"
  by (simp add: apart_def page_map_def grow_refl)

lemma apart_trans: "apart root s T s1 T1 \<Longrightarrow> apart root s1 T1 s2 T2 \<Longrightarrow> apart root s T s2 T2"
  by (auto simp: apart_def intro: grow_trans)

lemma user_lower: "va < 2 ^ 39 \<Longrightarrow> is_user_vaddr va"
  by (simp add: is_user_vaddr_def is_kernel_vaddr_def KERN_BASE_def)

lemma find_leaf:
  assumes p: "page_map s root T" and va: "va < 2 ^ 39"
  obtains (none) "pml4e_walk (mem s) root va False = Some (NULL, mem s)" "leaf T (mem s) va = 0"
  | (slot) t where "pml4e_walk (mem s) root va False = Some (t + 8 * PTX va, mem s)" "T (way va) = Some t" "t \<noteq> NULL"
      "get64 (mem s) (t + 8 * PTX va) = Some (leaf T (mem s) va)"
proof -
  have t: "tables (mem s) root T" "pools (mem s)" using p by (simp_all add: page_map_def)
  obtain pte m' T' where w: "pml4e_walk (mem s) root va False = Some (pte, m')" "m' = mem s \<and> T' = T"
    "if pte = NULL then T' = T \<and> T (way va) = None \<and> (False \<longrightarrow> few (kernel_pool (mem s)) 2) else \<exists>u. T' (way va) = Some u \<and> pte = u + 8 * PTX va"
    by (rule pml4e_walk_run [OF t va, of False]) blast
  show thesis
  proof (cases "pte = NULL")
    case True
    then show thesis using w by (intro none) (simp_all add: leaf_def)
  next
    case False
    then obtain u where u: "T (way va) = Some u" "pte = u + 8 * PTX va" using w by auto
    then have "u \<noteq> NULL" using tablesD(2) [OF t(1) u(1)] by (auto simp: table_page_def KERN_BASE_def)
    then show thesis using w u leaf_entry [OF t(1) u(1)] by (intro slot) simp_all
  qed
qed

lemma mem_same [simp]: "s\<lparr>mem := mem s\<rparr> = s"
  by simp

lemma get_page_run:
  assumes p: "page_map s root T" and va: "va < 2 ^ 39"
  shows "pml4_get_page s root va = Some (case mapping T (mem s) (pg_no va) of None \<Rightarrow> NULL | Some f \<Rightarrow> kva f + pg_ofs va, s)"
  using p va
proof (cases rule: find_leaf)
  case none
  then show ?thesis by (simp add: pml4_get_page_def user_lower [OF va] mapping_leaf [OF va] frame_of_def)
next
  case (slot t)
  then show ?thesis by (simp add: pml4_get_page_def user_lower [OF va] mapping_leaf [OF va] frame_of_def Let_def)
qed

lemma has_flag_run:
  assumes p: "page_map s root T" and va: "va < 2 ^ 39"
  shows "has_flag g s root va = Some (leaf T (mem s) va AND g \<noteq> 0, s)"
  using p va
proof (cases rule: find_leaf)
  case none
  then show ?thesis by (simp add: has_flag_def)
next
  case (slot t)
  then show ?thesis by (simp add: has_flag_def Let_def)
qed

text \<open>A page map whose page has a new entry.\<close>

lemma root_page:
  assumes "page_map s root T"
  shows "KERN_BASE \<le> root" "root < 2 ^ 64" "root mod PGSIZE = 0"
  using tablesD(2) [of "mem s" root T "[]" root] assms tables_root [of "mem s" root T]
  by (simp_all add: page_map_def table_page_def PGSIZE_val)

lemma flush_run:
  assumes "page_map s root T"
  shows "flush_page (s\<lparr>mem := m\<rparr>) root va = Some (if cr3 s = root - KERN_BASE then invlpg va (s\<lparr>mem := m\<rparr>) else s\<lparr>mem := m\<rparr>)"
  using root_page [OF assms] by (simp add: flush_page_def vtop_def is_kernel_vaddr_def)

lemma write_page_map:
  fixes w :: "64 word"
  assumes p: "page_map s root T" and va: "va < 2 ^ 39" and T: "T (way va) = Some t"
  defines "m \<equiv> put64 (mem s) (t + 8 * PTX va) w"
  shows "\<exists>s'. flush_page (s\<lparr>mem := m\<rparr>) root va = Some s' \<and> page_map s' root T \<and> apart root s T s' T \<and>
    mapping T (mem s') = (mapping T (mem s))(pg_no va := frame_of w)"
proof -
  have t: "tables (mem s) root T" and pl: "pools (mem s)" and b: "root \<noteq> base_pml4 s" and f: "fresh_tlb s root T"
    using p by (simp_all add: page_map_def)
  let ?s = "if cr3 s = root - KERN_BASE then invlpg va (s\<lparr>mem := m\<rparr>) else s\<lparr>mem := m\<rparr>"
  have s: "mem ?s = m" "base_pml4 ?s = base_pml4 s" "cr3 ?s = cr3 s" by (simp_all add: invlpg_def)
  have g: "grow root (mem s) T m T" unfolding m_def by (rule write_grow [OF t pl T])
  have "leaf T m v = e \<and> e AND PTE_P \<noteq> 0" if "cr3 s = root - KERN_BASE" "(v, e) \<in> set (tlb ?s)" "v < 2 ^ 39" for v e
  proof -
    have v: "(v, e) \<in> set (tlb s)" "pg_no v \<noteq> pg_no va" using that by (auto simp: invlpg_def)
    then have "leaf T m v = leaf T (mem s) v" unfolding m_def using write_leaf(2) [OF t T va that(3), of w] by simp
    then show ?thesis using f v(1) that(1,3) by (auto simp: fresh_tlb_def)
  qed
  then have "fresh_tlb ?s root T" unfolding fresh_tlb_def s by blast
  then have "page_map ?s root T" using growD(1) [OF g] grow_pools [OF g pl] b s by (simp add: page_map_def)
  moreover have "apart root s T ?s T" using g s by (simp add: apart_def)
  moreover have "mapping T (mem ?s) = (mapping T (mem s))(pg_no va := frame_of w)"
    unfolding s unfolding m_def by (rule write_mapping [OF t T va])
  ultimately show ?thesis using flush_run [OF p, of m va] by blast
qed

subsection \<open>Mapping a page\<close>

lemma frame_of_entry:
  assumes "pg_ofs k = 0" "KERN_BASE \<le> k" "k < 2 ^ 64"
  shows "frame_of (word_of_nat (k - KERN_BASE) OR PTE_P OR (if rw then PTE_W else 0) OR PTE_U) =
    Some \<lparr>kva = k, writable = rw, accessed = False, dirty = False\<rparr>"
proof -
  let ?f = "PTE_P OR (if rw then PTE_W else 0) OR PTE_U"
  have pa: "(k - KERN_BASE) mod PGSIZE = 0" using assms(1,2) by (simp add: pg_ofs_def PGSIZE_val KERN_BASE_def mod_eq_0_iff_dvd)
  have lt: "k - KERN_BASE < 2 ^ 64" using assms(3) by simp
  have f: "?f AND NOT 0xFFF = 0" by (simp add: PTE_P_def PTE_W_def PTE_U_def)
  note b = page_bits [OF pa lt f]
  have "ptov (k - KERN_BASE) = k" by (rule ptov_vtop [OF assms(2,3)])
  then show ?thesis unfolding frame_of_def b(1) b(2) [OF flags_low(1)] b(2) [OF flags_low(2)] b(2) [OF flags_low(4)] b(2) [OF flags_low(5)]
    by (simp add: PTE_P_def PTE_W_def PTE_U_def PTE_A_def PTE_D_def)
qed

lemma set_page_run:
  assumes p: "page_map s root T" and u: "u < 2 ^ 39" "pg_ofs u = 0" and k: "pg_ofs k = 0" "KERN_BASE \<le> k" "k < 2 ^ 64"
    and none: "mapping T (mem s) (pg_no u) = None"
  shows "\<exists>r s' T'. pml4_set_page s root u k rw = Some (r, s') \<and> page_map s' root T' \<and> apart root s T s' T' \<and>
    (if r then mapping T' (mem s') = (mapping T (mem s))(pg_no u \<mapsto> \<lparr>kva = k, writable = rw, accessed = False, dirty = False\<rparr>)
     else mapping T' (mem s') = mapping T (mem s) \<and> few (kernel_pool (mem s)) 2)"
proof -
  have t: "tables (mem s) root T" and pl: "pools (mem s)" and b: "root \<noteq> base_pml4 s" and fr: "fresh_tlb s root T"
    using p by (simp_all add: page_map_def)
  obtain pte m' T' where w: "pml4e_walk (mem s) root u True = Some (pte, m')" and e: "ext root (mem s) T m' T'"
    and r: "if pte = NULL then T' = T \<and> T (way u) = None \<and> (True \<longrightarrow> few (kernel_pool (mem s)) 2) else \<exists>t. T' (way u) = Some t \<and> pte = t + 8 * PTX u"
    by (rule pml4e_walk_run [OF t pl u(1), of True]) blast
  note g = extD(1) [OF e]
  have pl': "pools m'" by (rule grow_pools [OF g pl])
  have mp: "mapping T' m' = mapping T (mem s)" by (rule mapping_ext [OF e])
  show ?thesis
  proof (cases "pte = NULL")
    case True
    then have "pml4_set_page s root u k rw = Some (False, s\<lparr>mem := m'\<rparr>)"
      using u k b w by (simp add: pml4_set_page_def user_lower)
    moreover have "page_map (s\<lparr>mem := m'\<rparr>) root T'"
      using growD(1) [OF g] pl' b fr leaf_ext [OF e] by (simp add: page_map_def fresh_tlb_def)
    moreover have "apart root s T (s\<lparr>mem := m'\<rparr>) T'" using g by (simp add: apart_def)
    ultimately show ?thesis using True r mp by (intro exI [of _ False] exI [of _ "s\<lparr>mem := m'\<rparr>"] exI [of _ T']) simp
  next
    case False
    then obtain t' where t': "T' (way u) = Some t'" "pte = t' + 8 * PTX u" using r by auto
    let ?w = "word_of_nat (k - KERN_BASE) OR PTE_P OR (if rw then PTE_W else 0) OR PTE_U :: 64 word"
    let ?m = "put64 m' (t' + 8 * PTX u) ?w"
    have run: "pml4_set_page s root u k rw = Some (True, s\<lparr>mem := ?m\<rparr>)"
      using False u k b w t'(2) by (simp add: pml4_set_page_def user_lower vtop_def is_kernel_vaddr_def)
    have g2: "grow root (mem s) T ?m T'" by (rule grow_trans [OF g write_grow [OF growD(1) [OF g] pl' t'(1)]])
    have "leaf T' ?m v = x \<and> x AND PTE_P \<noteq> 0" if c: "cr3 s = root - KERN_BASE" and v: "(v, x) \<in> set (tlb s)" "v < 2 ^ 39" for v x
    proof -
      have x: "leaf T (mem s) v = x" "x AND PTE_P \<noteq> 0" using fr c v by (auto simp: fresh_tlb_def)
      then have "pg_no v \<noteq> pg_no u" using none mapping_leaf [OF v(2), of T "mem s"] by (auto simp: frame_of_def)
      then show ?thesis using x leaf_ext [OF e, of v] write_leaf(2) [OF growD(1) [OF g] t'(1) u(1) v(2), of ?w] by simp
    qed
    then have "fresh_tlb (s\<lparr>mem := ?m\<rparr>) root T'" by (auto simp: fresh_tlb_def)
    then have "page_map (s\<lparr>mem := ?m\<rparr>) root T'" using growD(1) [OF g2] grow_pools [OF g2 pl] b by (simp add: page_map_def)
    moreover have "apart root s T (s\<lparr>mem := ?m\<rparr>) T'" using g2 by (simp add: apart_def)
    moreover have "mapping T' ?m = (mapping T (mem s))(pg_no u \<mapsto> \<lparr>kva = k, writable = rw, accessed = False, dirty = False\<rparr>)"
      using write_mapping [OF growD(1) [OF g] t'(1) u(1), of ?w] mp frame_of_entry [OF k, of rw] by simp
    ultimately show ?thesis using run by (intro exI [of _ True] exI [of _ "s\<lparr>mem := ?m\<rparr>"] exI [of _ T']) simp
  qed
qed

subsection \<open>Changing an entry\<close>

lemma clear_page_run:
  assumes p: "page_map s root T" and u: "u < 2 ^ 39" "pg_ofs u = 0"
  shows "\<exists>s'. pml4_clear_page s root u = Some s' \<and> page_map s' root T \<and> apart root s T s' T \<and> mapping T (mem s') = (mapping T (mem s))(pg_no u := None)"
proof -
  have same: "\<exists>s'. Some s = Some s' \<and> page_map s' root T \<and> apart root s T s' T \<and> mapping T (mem s') = (mapping T (mem s))(pg_no u := None)"
    if "leaf T (mem s) u AND PTE_P = 0"
    using p apart_refl [OF p] mapping_leaf [OF u(1), of T "mem s"] that by (auto simp: frame_of_def fun_eq_iff)
  show ?thesis
    using p u(1)
  proof (cases rule: find_leaf)
    case none
    then show ?thesis using same u by (simp add: pml4_clear_page_def user_lower)
  next
    case (slot t)
    let ?e = "leaf T (mem s) u"
    show ?thesis
    proof (cases "?e AND PTE_P = 0")
      case True
      then show ?thesis using same u slot by (simp add: pml4_clear_page_def user_lower)
    next
      case False
      have "frame_of (?e AND NOT PTE_P) = None" by (simp add: frame_of_def and.assoc)
      then show ?thesis using write_page_map [OF p u(1) slot(2), of "?e AND NOT PTE_P"] False u slot
        by (simp add: pml4_clear_page_def user_lower)
    qed
  qed
qed

lemma put_flag_run:
  assumes p: "page_map s root T" and va: "va < 2 ^ 39" and f: "mapping T (mem s) (pg_no va) \<noteq> None"
  shows "\<exists>s'. put_flag g s root va b = Some s' \<and> page_map s' root T \<and> apart root s T s' T \<and> mapping T (mem s') =
    (mapping T (mem s))(pg_no va := frame_of (if b then leaf T (mem s) va OR g else leaf T (mem s) va AND ucast (NOT (ucast g :: 32 word))))"
  using p va
proof (cases rule: find_leaf)
  case none
  then show ?thesis using f mapping_leaf [OF va, of T "mem s"] by (simp add: frame_of_def)
next
  case (slot t)
  from write_page_map [OF p va slot(2), of "if b then leaf T (mem s) va OR g else leaf T (mem s) va AND ucast (NOT (ucast g :: 32 word))"]
  show ?thesis using slot by (simp add: put_flag_def Let_def)
qed

lemmas flag_defs = PTE_P_def PTE_W_def PTE_U_def PTE_A_def PTE_D_def

lemma frame_flag_set:
  assumes "frame_of e = Some f"
  shows "frame_of (e OR PTE_A) = Some (f\<lparr>accessed := True\<rparr>)" "frame_of (e OR PTE_D) = Some (f\<lparr>dirty := True\<rparr>)"
  using assms by (auto simp: frame_of_def PTE_ADDR_def flag_defs bit.conj_disj_distrib2 split: if_splits)

lemma frame_flag_cleared:
  assumes "frame_of e = Some f"
  shows "frame_of (e AND NOT PTE_A) = Some (f\<lparr>accessed := False\<rparr>)" "frame_of (e AND NOT PTE_D) = Some (f\<lparr>dirty := False\<rparr>)"
  using assms by (auto simp: frame_of_def PTE_ADDR_def flag_defs and.assoc split: if_splits)

text \<open>The mask of 32 bits: right for frames below 4 GiB, while the address of other frames loses its upper half.\<close>

abbreviation narrow_mask :: "64 word \<Rightarrow> 64 word" where
  "narrow_mask g \<equiv> ucast (NOT (ucast g :: 32 word))"

lemma bit_narrow_mask: "bit (narrow_mask g) n \<longleftrightarrow> n < 32 \<and> \<not> bit g n"
  by (auto simp: bit_simps)

lemma narrow_mask_low:
  assumes "PTE_ADDR e < 2 ^ 32"
  shows "e AND narrow_mask g = e AND NOT g"
proof (rule bit_word_eqI)
  fix n assume n: "n < LENGTH(64)"
  have m: "(0xFFF :: 64 word) = mask 12" by (simp add: mask_eq_exp_minus_1)
  have "bit e n \<Longrightarrow> n < 32"
  proof (rule ccontr)
    assume b: "bit e n" and "\<not> n < 32"
    then have "bit (e AND NOT 0xFFF) n" using n by (simp add: bit_simps m)
    then have "bit (PTE_ADDR e) n" using n by (simp add: PTE_ADDR_def bit_unsigned_iff)
    moreover have "take_bit 32 (PTE_ADDR e) = PTE_ADDR e" using assms by (simp add: take_bit_nat_eq_self)
    ultimately show False using \<open>\<not> n < 32\<close> by (metis bit_take_bit_iff)
  qed
  then show "bit (e AND narrow_mask g) n = bit (e AND NOT g) n" using n by (auto simp: bit_and_iff bit_not_iff bit_narrow_mask)
qed

lemma narrow_mask_high:
  assumes "g AND NOT 0xFFF = 0"
  shows "PTE_ADDR (e AND narrow_mask g) = PTE_ADDR e mod 2 ^ 32"
proof -
  have m: "(0xFFF :: 64 word) = mask 12" by (simp add: mask_eq_exp_minus_1)
  have "(e AND narrow_mask g) AND NOT 0xFFF = take_bit 32 (e AND NOT 0xFFF)"
  proof (rule bit_word_eqI)
    fix n assume n: "n < LENGTH(64)"
    have "\<not> bit (g AND NOT 0xFFF) n" using assms by simp
    then have "12 \<le> n \<Longrightarrow> \<not> bit g n" using n by (simp add: bit_simps m)
    then show "bit ((e AND narrow_mask g) AND NOT 0xFFF) n = bit (take_bit 32 (e AND NOT 0xFFF)) n"
      using n by (auto simp: bit_and_iff bit_not_iff bit_narrow_mask bit_take_bit_iff m bit_mask_iff)
  qed
  then have "PTE_ADDR (e AND narrow_mask g) = take_bit 32 (PTE_ADDR e)" by (simp only: PTE_ADDR_def unsigned_take_bit_eq)
  then show ?thesis by (simp only: take_bit_eq_mod)
qed

lemma narrow_mask_present: "g AND PTE_P = 0 \<Longrightarrow> (e AND narrow_mask g) AND PTE_P = e AND PTE_P"
proof (rule bit_word_eqI)
  fix n assume g: "g AND PTE_P = 0"
  have "\<not> bit (g AND PTE_P) n" by (simp add: g)
  then show "bit ((e AND narrow_mask g) AND PTE_P) n = bit (e AND PTE_P) n"
    by (auto simp: bit_and_iff bit_narrow_mask PTE_P_def bit_1_iff)
qed

end
