(* ===== verification/PageTableDestroy.thy ===== *)
theory PageTableDestroy
  imports PageTableOps
begin

text \<open>
  What the loops that destroy a page map free: the table, and what its entries lead to. The tables and the frames of a page map are
  objects, each at the path of indices that leads to it; a loop frees the objects below its path.
\<close>

subsection \<open>Freeing sets of bytes\<close>

definition in_use :: "memory \<Rightarrow> addr set" where
  "in_use m = taken (kernel_pool m) \<union> taken (user_pool m)"

definition frees :: "memory \<Rightarrow> addr set \<Rightarrow> memory \<Rightarrow> bool" where
  "frees m F m' \<longleftrightarrow> pools m' \<and> taken (kernel_pool m') = taken (kernel_pool m) - F \<and> taken (user_pool m') = taken (user_pool m) - F \<and>
     (\<forall>x. x \<notin> F \<longrightarrow> ram m' x = ram m x)"

text \<open>\<open>f\<close> frees \<open>F\<close> when it is called on \<open>a\<close>, as long as \<open>F\<close> is in use and has the bytes of \<open>m0\<close>.\<close>

definition can_free :: "memory \<Rightarrow> (memory \<Rightarrow> addr \<Rightarrow> memory option) \<Rightarrow> addr \<Rightarrow> addr set \<Rightarrow> bool" where
  "can_free m0 f a F \<longleftrightarrow> (\<forall>m. pools m \<longrightarrow> F \<subseteq> in_use m \<longrightarrow> (\<forall>x\<in>F. ram m x = ram m0 x) \<longrightarrow> (\<exists>m'. f m a = Some m' \<and> frees m F m'))"

lemma can_freeE:
  assumes "can_free m0 f a F" "pools m" "F \<subseteq> in_use m" "\<And>x. x \<in> F \<Longrightarrow> ram m x = ram m0 x"
  obtains m' where "f m a = Some m'" "frees m F m'"
  using assms unfolding can_free_def by blast

lemma frees_refl: "pools m \<Longrightarrow> frees m {} m"
  by (simp add: frees_def)

lemma frees_trans: "frees m F m1 \<Longrightarrow> frees m1 G m2 \<Longrightarrow> frees m (F \<union> G) m2"
  by (auto simp: frees_def)

lemma freesD:
  assumes "frees m F m'"
  shows "pools m'" "in_use m' = in_use m - F" "\<And>x. x \<notin> F \<Longrightarrow> ram m' x = ram m x"
  using assms by (auto simp: frees_def in_use_def)

lemma taken_page:
  assumes p: "pool_wf p" and a: "a mod PGSIZE = 0" "a \<in> taken p"
  shows "pages a 1 \<subseteq> taken p"
proof
  fix x assume x: "x \<in> pages a 1"
  obtain u where u: "a = PGSIZE * u" using a(1) by (auto simp: mod_eq_0_iff_dvd dvd_def)
  obtain v where v: "base p = PGSIZE * v" using p by (auto simp: pool_wf_def mod_eq_0_iff_dvd dvd_def)
  have r: "base p \<le> a" "a < base p + PGSIZE * bit_cnt (used_map p)" using a(2) by (auto simp: taken_def pool_range_def)
  then have uv: "v \<le> u" "u < v + bit_cnt (used_map p)" by (simp_all add: u v PGSIZE_val)
  obtain w where w: "u = v + w" using le_Suc_ex [OF uv(1)] by blast
  obtain y where y: "x = a + y" "y < 4096" using x le_Suc_ex [of a x] by (auto simp: PGSIZE_val)
  have "(x - base p) div PGSIZE = w" "(a - base p) div PGSIZE = w" using y(2) by (simp_all add: y(1) u v w PGSIZE_val)
  moreover have "x < base p + PGSIZE * bit_cnt (used_map p)" using x uv by (simp add: u v PGSIZE_val)
  ultimately show "x \<in> taken p" using a(2) x r by (simp add: taken_def pool_range_def)
qed

lemma can_free_page:
  assumes a: "a mod PGSIZE = 0"
  shows "can_free m0 palloc_free_page a (pages a 1)"
  unfolding can_free_def
proof (intro allI impI)
  fix m assume m: "pools m" "pages a 1 \<subseteq> in_use m"
  have wf: "pool_wf (kernel_pool m)" "pool_wf (user_pool m)" "pool_range (kernel_pool m) \<inter> pool_range (user_pool m) = {}"
    using m(1) by (simp_all add: pools_def)
  have "a \<in> in_use m" using m(2) by (auto simp: PGSIZE_val)
  then obtain user where u: "a \<in> taken (pool_of m user)" unfolding in_use_def by (metis (full_types) UnE)
  have sub: "pages a 1 \<subseteq> taken (pool_of m user)" using wf taken_page [OF _ a u] by (cases user) auto
  obtain p' where g: "gave (pool_of m user) p' a 1" and r: "palloc_free_multiple m a 1 = Some (set_pool (memset m a 0xcc (PGSIZE * 1)) user p')"
    by (rule palloc_free [OF wf a _ sub]) simp_all
  let ?m = "set_pool (memset m a 0xcc PGSIZE) user p'"
  have apart: "pages a 1 \<inter> taken (pool_of m (\<not> user)) = {}" using sub wf(3) by (cases user) (auto simp: taken_def)
  have "ram ?m x = ram m x" if "x \<notin> pages a 1" for x using that by (auto simp: memset_def write_bytes_def)
  moreover have "taken (kernel_pool ?m) = taken (kernel_pool m) - pages a 1" "taken (user_pool ?m) = taken (user_pool m) - pages a 1"
    using g apart by (cases user; auto simp: gave_def set_pool_def memset_def)+
  moreover have "pools ?m" using m(1) g by (cases user) (auto simp: gave_def set_pool_def memset_def pools_def)
  ultimately show "\<exists>m'. palloc_free_page m a = Some m' \<and> frees m (pages a 1) m'"
    using r by (simp add: palloc_free_page_def frees_def)
qed

lemma PTE_ADDR_div: "PTE_ADDR e = unat e div 4096 * 4096"
proof -
  have "e AND NOT 0xFFF = e - take_bit 12 e"
  proof -
    have "push_bit 12 (drop_bit 12 e) + take_bit 12 e = e" by (rule bits_ident)
    moreover have m: "(0xFFF :: 64 word) = mask 12" by (simp add: mask_eq_exp_minus_1)
    have "push_bit 12 (drop_bit 12 e) = e AND NOT 0xFFF" unfolding m by (rule bit_word_eqI) (auto simp: bit_simps)
    ultimately show ?thesis by (simp add: eq_diff_eq)
  qed
  moreover have "take_bit 12 e \<le> e" by (simp add: take_bit_eq_mask word_and_le2)
  moreover have "unat (take_bit 12 e) = unat e mod 4096" by (simp only: unsigned_take_bit_eq) (simp add: take_bit_eq_mod)
  ultimately have "PTE_ADDR e = unat e - unat e mod 4096" by (simp add: PTE_ADDR_def unat_sub)
  then show ?thesis by (simp add: minus_mod_eq_div_mult)
qed

lemma ptov_entry_child:
  "ptov_entry e AND PTE_P = e AND PTE_P" "PTE_ADDR (ptov_entry e) = ptov (PTE_ADDR e)"
proof -
  show "ptov_entry e AND PTE_P = e AND PTE_P" by (simp add: ptov_entry_def KERN_BASE_def PTE_P_def and_one_eq mod2_eq_if)
  have "unat (ptov_entry e) = (unat e + KERN_BASE) mod 2 ^ 64" by (simp add: ptov_entry_def unat_word_ariths KERN_BASE_def)
  moreover have "(n + KERN_BASE) mod 2 ^ 64 div 4096 * 4096 = (n div 4096 * 4096 + KERN_BASE) mod 2 ^ 64" for n
  proof -
    have n: "n + KERN_BASE = 4096 * (n div 4096 + 134234112) + n mod 4096" "n div 4096 * 4096 + KERN_BASE = 4096 * (n div 4096 + 134234112)"
      by (simp_all add: KERN_BASE_def)
    have "(4096 * a + b) mod 2 ^ 64 div 4096 * 4096 = 4096 * a mod 2 ^ 64" if "b < 4096" for a b :: nat
      using that mod_mult2_eq [of "4096 * a + b" 4096 "2 ^ 52"] mod_mult2_eq [of "4096 * a" 4096 "2 ^ 52"] by simp
    from this [of "n mod 4096" "n div 4096 + 134234112"] show ?thesis unfolding n by simp
  qed
  ultimately show "PTE_ADDR (ptov_entry e) = ptov (PTE_ADDR e)" by (simp add: PTE_ADDR_div ptov_def)
qed

lemma destroy_entries_frees:
  assumes e: "\<And>j. j < 512 \<Longrightarrow> get64 m0 (t + 8 * j) = Some (e j)"
    and f: "\<And>j. j < 512 \<Longrightarrow> e j AND PTE_P \<noteq> 0 \<Longrightarrow> can_free m0 f (ptov (PTE_ADDR (e j))) (F j)"
      "\<And>j. j < 512 \<Longrightarrow> e j AND PTE_P = 0 \<Longrightarrow> F j = {}"
    and F: "\<And>i j. i < 512 \<Longrightarrow> j < 512 \<Longrightarrow> i \<noteq> j \<Longrightarrow> F i \<inter> F j = {}" "\<And>i. i < 512 \<Longrightarrow> F i \<inter> pages t 1 = {}"
  shows "k + n = 512 \<Longrightarrow> pools m \<Longrightarrow> (\<Union>i\<in>{k..<512}. F i) \<subseteq> in_use m \<Longrightarrow>
    (\<And>x. x \<in> pages t 1 \<union> (\<Union>i\<in>{k..<512}. F i) \<Longrightarrow> ram m x = ram m0 x) \<Longrightarrow>
    \<exists>m'. destroy_entries f m t k n = Some m' \<and> frees m (\<Union>i\<in>{k..<512}. F i) m'"
proof (induction n arbitrary: k m)
  case 0
  then show ?case using frees_refl by simp
next
  case (Suc n)
  have k: "k < 512" using Suc.prems(1) by simp
  define R where "R = (\<Union>i\<in>{k + 1..<512}. F i)"
  have "{k..<512} = insert k {k + 1..<512}" using k by auto
  then have un: "(\<Union>i\<in>{k..<512}. F i) = F k \<union> R" by (simp add: R_def)
  have slot: "get64 m (t + 8 * k) = Some (e k)"
    using get64_ram [of "t + 8 * k" m m0] Suc.prems(4) slot_in_page [OF k, of t] e [OF k] by (simp add: subset_iff)
  have "\<exists>m1. (if e k AND PTE_P \<noteq> 0 then f m (ptov (PTE_ADDR (e k))) else Some m) = Some m1 \<and> frees m (F k) m1"
  proof (cases "e k AND PTE_P \<noteq> 0")
    case True
    note f(1) [OF k True]
    moreover have "F k \<subseteq> in_use m" using Suc.prems(3) un by simp
    moreover have "\<And>x. x \<in> F k \<Longrightarrow> ram m x = ram m0 x" using Suc.prems(4) un by simp
    ultimately obtain m1 where "f m (ptov (PTE_ADDR (e k))) = Some m1" "frees m (F k) m1" by (rule can_freeE [OF _ Suc.prems(2)])
    then show ?thesis using True by simp
  next
    case False
    then have "F k = {}" using f(2) [OF k] by blast
    then show ?thesis using False frees_refl [OF Suc.prems(2)] by simp
  qed
  then obtain m1 where m1: "(if e k AND PTE_P \<noteq> 0 then f m (ptov (PTE_ADDR (e k))) else Some m) = Some m1" "frees m (F k) m1" by blast
  have d: "F k \<inter> R = {}" unfolding R_def using F(1) [OF k] by fastforce
  have "\<exists>m'. destroy_entries f m1 t (k + 1) n = Some m' \<and> frees m1 R m'"
    unfolding R_def
  proof (rule Suc.IH, fold R_def)
    show "R \<subseteq> in_use m1" using Suc.prems(3) d unfolding un freesD(2) [OF m1(2)] by blast
    fix x assume x: "x \<in> pages t 1 \<union> R"
    then have "x \<notin> F k" using d F(2) [OF k] by blast
    then show "ram m1 x = ram m0 x" using freesD(3) [OF m1(2)] Suc.prems(4) x un by simp
  qed (use Suc.prems(1) freesD(1) [OF m1(2)] in simp_all)
  then obtain m' where "destroy_entries f m1 t (k + 1) n = Some m'" "frees m1 R m'" by blast
  moreover have "destroy_entries f m t k (Suc n) = destroy_entries f m1 t (k + 1) n"
    by (simp only: destroy_entries.simps slot ptov_entry_child m1(1) Option.bind_lunit)
  ultimately show ?case unfolding un using frees_trans [OF m1(2)] by auto
qed

text \<open>The four functions, from the frames up.\<close>

primrec destroy :: "nat \<Rightarrow> memory \<Rightarrow> addr \<Rightarrow> memory option" where
  "destroy 0 = palloc_free_page"
| "destroy (Suc d) = (\<lambda>m t. do { m \<leftarrow> destroy_entries (destroy d) m t 0 512; palloc_free_page m t })"

lemma destroy_functions: "destroy (Suc 0) = pt_destroy" "destroy (Suc (Suc 0)) = pgdir_destroy" "destroy (Suc (Suc (Suc 0))) = pdpe_destroy"
proof -
  show 1: "destroy (Suc 0) = pt_destroy" by (intro HOL.ext) (simp only: destroy.simps pt_destroy_def)
  show 2: "destroy (Suc (Suc 0)) = pgdir_destroy" by (intro HOL.ext) (simp only: destroy.simps(2) [of "Suc 0"] 1 pgdir_destroy_def)
  show "destroy (Suc (Suc (Suc 0))) = pdpe_destroy" by (intro HOL.ext) (simp only: destroy.simps(2) [of "Suc (Suc 0)"] 2 pdpe_destroy_def)
qed

lemma can_free_table:
  assumes e: "\<And>j. j < 512 \<Longrightarrow> get64 m0 (t + 8 * j) = Some (e j)"
    and f: "\<And>j. j < 512 \<Longrightarrow> e j AND PTE_P \<noteq> 0 \<Longrightarrow> can_free m0 (destroy d) (ptov (PTE_ADDR (e j))) (F j)"
      "\<And>j. j < 512 \<Longrightarrow> e j AND PTE_P = 0 \<Longrightarrow> F j = {}"
    and F: "\<And>i j. i < 512 \<Longrightarrow> j < 512 \<Longrightarrow> i \<noteq> j \<Longrightarrow> F i \<inter> F j = {}" "\<And>i. i < 512 \<Longrightarrow> F i \<inter> pages t 1 = {}"
    and t: "t mod PGSIZE = 0"
  shows "can_free m0 (destroy (Suc d)) t (pages t 1 \<union> (\<Union>i\<in>{0..<512}. F i))"
  unfolding can_free_def
proof (intro allI impI)
  define R where "R = (\<Union>i\<in>{0..<512}. F i)"
  fix m assume m: "pools m" "pages t 1 \<union> (\<Union>i\<in>{0..<512}. F i) \<subseteq> in_use m" "\<forall>x\<in>pages t 1 \<union> (\<Union>i\<in>{0..<512}. F i). ram m x = ram m0 x"
  note m = m [folded R_def]
  have d: "R \<inter> pages t 1 = {}" unfolding R_def using F(2) by fastforce
  have "R \<subseteq> in_use m" using m(2) by blast
  moreover have "ram m x = ram m0 x" if "x \<in> pages t 1 \<union> R" for x using m(3) that by (rule bspec)
  moreover have "(0 :: nat) + 512 = 512" by (rule add_0)
  ultimately obtain m1 where m1: "destroy_entries (destroy d) m t 0 512 = Some m1" "frees m R m1"
    using destroy_entries_frees [OF e f F _ m(1), of 0 512, folded R_def] by blast
  obtain m2 where m2: "palloc_free_page m1 t = Some m2" "frees m1 (pages t 1) m2"
    by (rule can_freeE [OF can_free_page [OF t, of m1] freesD(1) [OF m1(2)]]) (use m(2) d in \<open>simp_all add: freesD(2) [OF m1(2)]\<close>, blast)
  have "frees m (pages t 1 \<union> R) m2" using frees_trans [OF m1(2) m2(2)] by (simp add: Un_commute)
  then show "\<exists>m'. destroy (Suc d) m t = Some m' \<and> frees m (pages t 1 \<union> (\<Union>i\<in>{0..<512}. F i)) m'" by (simp only: R_def [symmetric] destroy.simps m1(1) Option.bind_lunit m2(1)) blast
qed

subsection \<open>The objects of a page map\<close>

definition object :: "memory \<Rightarrow> (nat list \<rightharpoonup> addr) \<Rightarrow> nat list \<rightharpoonup> addr" where
  "object m T p = (if length p = 4 \<and> last p < 512
     then (case T (butlast p) of None \<Rightarrow> None | Some t \<Rightarrow> Option.bind (get64 m (t + 8 * last p)) child) else T p)"

definition below :: "memory \<Rightarrow> (nat list \<rightharpoonup> addr) \<Rightarrow> nat list \<Rightarrow> addr set" where
  "below m T p = {x. \<exists>r a. object m T (p @ r) = Some a \<and> x \<in> pages a 1}"

text \<open>Each object has pages of its own.\<close>

definition objects_apart :: "memory \<Rightarrow> (nat list \<rightharpoonup> addr) \<Rightarrow> bool" where
  "objects_apart m T \<longleftrightarrow> (\<forall>p a. object m T p = Some a \<longrightarrow> a mod PGSIZE = 0 \<and> (\<forall>q. object m T q = Some a \<longrightarrow> q = p))"

lemma object_table: "length p \<noteq> 4 \<Longrightarrow> object m T p = T p"
  by (simp add: object_def)

lemma object_length:
  assumes "tables m root T" "object m T p \<noteq> None"
  shows "length p \<le> 4"
  using tablesD(1) [OF assms(1), of p] assms(2) by (cases "length p = 4") (auto simp: object_def)

lemma object_step:
  assumes t: "tables m root T" and o: "object m T (p @ [i]) \<noteq> None"
  shows "T p \<noteq> None" "object m T p \<noteq> None" "index_ok p i"
proof -
  have "T p \<noteq> None \<and> index_ok p i"
  proof (cases "length p = 3 \<and> i < 512")
    case True
    then show ?thesis using o by (auto simp: object_def index_ok_def split: option.splits)
  next
    case False
    then have "T (p @ [i]) \<noteq> None" using o by (auto simp: object_def)
    then show ?thesis by (rule tables_parent [OF t])
  qed
  moreover from this have "length p \<le> 3" using tablesD(1) [OF t] by auto
  ultimately show "T p \<noteq> None" "object m T p \<noteq> None" "index_ok p i" by (simp_all add: object_table)
qed

lemma object_above:
  assumes t: "tables m root T"
  shows "object m T (p @ r) \<noteq> None \<Longrightarrow> object m T p \<noteq> None"
proof (induction r rule: rev_induct)
  case (snoc i r)
  then show ?case using object_step(2) [OF t, of "p @ r" i] by simp
qed simp

lemma below_none: "tables m root T \<Longrightarrow> object m T p = None \<Longrightarrow> below m T p = {}"
  using object_above [of m root T p] by (force simp: below_def)

lemma below_frame:
  assumes t: "tables m root T" and p: "object m T p = Some a" "length p = 4"
  shows "below m T p = pages a 1"
proof -
  have r: "r = []" if "object m T (p @ r) = Some b" for r b
    using object_length [OF t, of "p @ r"] that p(2) by simp
  have "x \<in> below m T p \<longleftrightarrow> x \<in> pages a 1" for x
  proof
    assume "x \<in> below m T p"
    then obtain r b where "object m T (p @ r) = Some b" "x \<in> pages b 1" unfolding below_def by blast
    then show "x \<in> pages a 1" using r [of r b] p(1) by simp
  next
    assume "x \<in> pages a 1"
    moreover have "object m T (p @ []) = Some a" using p(1) by simp
    ultimately show "x \<in> below m T p" unfolding below_def by blast
  qed
  then show ?thesis by blast
qed

lemma below_table:
  assumes t: "tables m root T" and p: "object m T p = Some a"
  shows "below m T p = pages a 1 \<union> (\<Union>i\<in>{i. index_ok p i}. below m T (p @ [i]))"
proof (rule set_eqI)
  fix x
  show "x \<in> below m T p \<longleftrightarrow> x \<in> pages a 1 \<union> (\<Union>i\<in>{i. index_ok p i}. below m T (p @ [i]))"
  proof
    assume "x \<in> below m T p"
    then obtain r b where r: "object m T (p @ r) = Some b" "x \<in> pages b 1" by (auto simp: below_def)
    show "x \<in> pages a 1 \<union> (\<Union>i\<in>{i. index_ok p i}. below m T (p @ [i]))"
    proof (cases r)
      case Nil
      then show ?thesis using r p by simp
    next
      case (Cons i r')
      then have "object m T (p @ [i]) \<noteq> None" using object_above [OF t, of "p @ [i]" r'] r(1) by simp
      then have "index_ok p i" by (rule object_step(3) [OF t])
      moreover have "x \<in> below m T (p @ [i])" using r Cons by (auto simp: below_def)
      ultimately show ?thesis by blast
    qed
  next
    assume "x \<in> pages a 1 \<union> (\<Union>i\<in>{i. index_ok p i}. below m T (p @ [i]))"
    then consider "x \<in> pages a 1" | i where "x \<in> below m T (p @ [i])" by blast
    then show "x \<in> below m T p"
    proof cases
      case 1
      then show ?thesis using p unfolding below_def by (intro CollectI exI [of _ "[]"]) simp
    next
      case 2
      then obtain r b where "object m T (p @ i # r) = Some b" "x \<in> pages b 1" by (auto simp: below_def)
      then show ?thesis unfolding below_def by (intro CollectI exI [of _ "i # r"]) simp
    qed
  qed
qed

lemma below_apart:
  assumes o: "objects_apart m T"
  shows "i \<noteq> j \<Longrightarrow> below m T (p @ [i]) \<inter> below m T (p @ [j]) = {}"
    "object m T p = Some a \<Longrightarrow> below m T (p @ [i]) \<inter> pages a 1 = {}"
proof -
  have same: "q = r" if q: "object m T q = Some b" "object m T r = Some c" "x \<in> pages b 1" "x \<in> pages c 1" for q r b c x
  proof -
    have "b mod PGSIZE = 0" "c mod PGSIZE = 0" using o q(1,2) unfolding objects_apart_def by blast+
    then have "b = c" using pages_apart [of b c] q(3,4) by (metis IntI empty_iff)
    then show ?thesis using o q(1,2) unfolding objects_apart_def by blast
  qed
  show "below m T (p @ [i]) \<inter> below m T (p @ [j]) = {}" if "i \<noteq> j"
  proof (rule ccontr)
    assume "below m T (p @ [i]) \<inter> below m T (p @ [j]) \<noteq> {}"
    then obtain x r b r' c where x: "object m T ((p @ [i]) @ r) = Some b" "object m T ((p @ [j]) @ r') = Some c" "x \<in> pages b 1" "x \<in> pages c 1"
      unfolding below_def by blast
    from same [OF x] that show False by simp
  qed
  show "below m T (p @ [i]) \<inter> pages a 1 = {}" if "object m T p = Some a"
  proof (rule ccontr)
    assume "below m T (p @ [i]) \<inter> pages a 1 \<noteq> {}"
    then obtain x r b where x: "object m T ((p @ [i]) @ r) = Some b" "x \<in> pages b 1" "x \<in> pages a 1" unfolding below_def by blast
    from same [OF x(1) that x(2,3)] show False by simp
  qed
qed

lemma entry_object:
  assumes t: "tables m root T" and p: "T p = Some u" "index_ok p j"
  shows "\<exists>e. get64 m (u + 8 * j) = Some e \<and> object m T (p @ [j]) = child e"
proof -
  obtain e where e: "get64 m (u + 8 * j) = Some e" "length p < 3 \<longrightarrow> T (p @ [j]) = child e" using tablesD(3) [OF t p] by blast
  have "object m T (p @ [j]) = child e"
  proof (cases "length p = 3")
    case True
    then show ?thesis using p e(1) by (simp add: object_def index_ok_def)
  next
    case False
    then show ?thesis using tablesD(1) [OF t p(1)] e(2) by (simp add: object_def)
  qed
  then show ?thesis using e(1) by blast
qed

lemma can_free_below:
  assumes t: "tables m root T" and o: "objects_apart m T"
  shows "length p + d = 4 \<Longrightarrow> p \<noteq> [] \<Longrightarrow> object m T p = Some a \<Longrightarrow> can_free m (destroy d) a (below m T p)"
proof (induction d arbitrary: p a)
  case 0
  have "a mod PGSIZE = 0" using o 0(3) unfolding objects_apart_def by blast
  then show ?case using 0 below_frame [OF t, of p a] can_free_page by simp
next
  case (Suc d)
  have T: "T p = Some a" using Suc.prems by (simp add: object_table)
  have ok: "index_ok p j \<longleftrightarrow> j < 512" for j using Suc.prems(2) by (simp add: index_ok_def)
  have "\<forall>j\<in>{0..<512}. \<exists>e. get64 m (a + 8 * j) = Some e \<and> object m T (p @ [j]) = child e" using entry_object [OF t T] ok by simp
  then obtain e where e: "\<forall>j\<in>{0..<512}. get64 m (a + 8 * j) = Some (e j) \<and> object m T (p @ [j]) = child (e j)" by (rule bchoice [THEN exE])
  have "can_free m (destroy (Suc d)) a (pages a 1 \<union> (\<Union>i\<in>{0..<512}. below m T (p @ [i])))"
  proof (rule can_free_table)
    show "a mod PGSIZE = 0" using o Suc.prems(3) unfolding objects_apart_def by blast
    show "get64 m (a + 8 * j) = Some (e j)" if "j < 512" for j using e that by simp
    show "can_free m (destroy d) (ptov (PTE_ADDR (e j))) (below m T (p @ [j]))" if "j < 512" "e j AND PTE_P \<noteq> 0" for j
      using Suc.IH [of "p @ [j]"] Suc.prems(1) e that by (simp add: child_def)
    show "below m T (p @ [j]) = {}" if "j < 512" "e j AND PTE_P = 0" for j
      by (rule below_none [OF t]) (use e that in \<open>simp add: child_def\<close>)
    show "below m T (p @ [i]) \<inter> below m T (p @ [j]) = {}" if "i \<noteq> j" for i j by (rule below_apart(1) [OF o that])
    show "below m T (p @ [i]) \<inter> pages a 1 = {}" for i by (rule below_apart(2) [OF o Suc.prems(3)])
  qed
  moreover have "{i. index_ok p i} = {0..<512}" by (simp add: ok atLeast0LessThan lessThan_def)
  ultimately show ?case by (simp only: below_table [OF t Suc.prems(3)])
qed


lemma pml4_destroy_run:
  assumes p: "page_map s root T" and o: "objects_apart (mem s) T" and u: "below (mem s) T [] \<subseteq> in_use (mem s)"
  shows "\<exists>s'. pml4_destroy s root = Some s' \<and> frees (mem s) (below (mem s) T []) (mem s')"
proof -
  let ?m = "mem s"
  have t: "tables ?m root T" and pl: "pools ?m" and b: "root \<noteq> base_pml4 s" using p by (simp_all add: page_map_def)
  have r: "T [] = Some root" "object ?m T [] = Some root" using tables_root [OF t] by (simp_all add: object_table)
  have al: "root mod PGSIZE = 0" "root \<noteq> NULL" using tablesD(2) [OF t r(1)] by (auto simp: table_page_def KERN_BASE_def)
  have i0: "index_ok [] 0" by (simp add: index_ok_def)
  have "{i. index_ok [] i} = {0}" by (auto simp: index_ok_def)
  then have B: "below ?m T [] = pages root 1 \<union> below ?m T [0]" using below_table [OF t r(2)] by simp
  obtain e where e: "get64 ?m root = Some e" "object ?m T [0] = child e" using entry_object [OF t r(1) i0] by auto
  obtain m1 where m1: "(if ptov_entry e AND PTE_P \<noteq> 0 then pdpe_destroy ?m (PTE_ADDR (ptov_entry e)) else Some ?m) = Some m1"
    "frees ?m (below ?m T [0]) m1"
  proof (cases "e AND PTE_P \<noteq> 0")
    case True
    then have c: "object ?m T [0] = Some (ptov (PTE_ADDR e))" using e(2) by (simp add: child_def)
    have "can_free ?m (destroy (Suc (Suc (Suc 0)))) (ptov (PTE_ADDR e)) (below ?m T [0])"
      by (rule can_free_below [OF t o _ _ c]) simp_all
    then obtain m1 where "destroy (Suc (Suc (Suc 0))) ?m (ptov (PTE_ADDR e)) = Some m1" "frees ?m (below ?m T [0]) m1"
      by (rule can_freeE [OF _ pl]) (use u B in auto)
    then show thesis using True by (intro that) (simp_all only: ptov_entry_child destroy_functions if_True not_False_eq_True)
  next
    case False
    then have "object ?m T [0] = None" using e(2) by (simp add: child_def)
    then show thesis using False frees_refl [OF pl] below_none [OF t] by (intro that) (simp_all add: ptov_entry_child)
  qed
  have d: "below ?m T [0] \<inter> pages root 1 = {}" using below_apart(2) [OF o r(2), of 0] by simp
  have "pages root 1 \<subseteq> in_use m1" using u B d unfolding freesD(2) [OF m1(2)] by blast
  then obtain m2 where m2: "palloc_free_page m1 root = Some m2" "frees m1 (pages root 1) m2"
    by (rule can_freeE [OF can_free_page [OF al(1), of m1] freesD(1) [OF m1(2)]]) simp_all
  have "pml4_destroy s root = Some (s\<lparr>mem := m2\<rparr>)"
    using b by (simp only: pml4_destroy_def al(2) if_False assert_that_simps e(1) m1(1) m2(1) Option.bind_lunit) simp
  moreover have "frees ?m (below ?m T []) m2" using frees_trans [OF m1(2) m2(2)] unfolding B by (simp only: Un_commute)
  ultimately show ?thesis by (intro exI [of _ "s\<lparr>mem := m2\<rparr>"]) simp
qed

subsection \<open>Frames\<close>

lemma child_frame: "child e = map_option kva (frame_of e)"
  by (simp add: child_def frame_of_def)

lemma object_frame:
  assumes t: "tables m root T" and va: "va < 2 ^ 39"
  shows "object m T (way va @ [PTX va]) = map_option kva (mapping T m (pg_no va))"
proof -
  have x: "PTX va < 512" by (simp add: PTX_def)
  show ?thesis
  proof (cases "T (way va)")
    case None
    then show ?thesis using x by (simp add: object_def mapping_leaf [OF va] leaf_def frame_of_def)
  next
    case (Some u)
    then show ?thesis using x leaf_entry [OF t Some] by (simp add: object_def mapping_leaf [OF va] child_frame)
  qed
qed

lemma frame_object:
  assumes t: "tables m root T" and o: "object m T q \<noteq> None" "length q = 4"
  obtains n where "n < 2 ^ 27" "q = way (PGSIZE * n) @ [PTX (PGSIZE * n)]"
proof -
  obtain w x y z where q: "q = [w, x, y, z]" using o(2) by (auto simp: numeral_eq_Suc length_Suc_conv)
  have 3: "T [w, x, y] \<noteq> None" "index_ok [w, x, y] z" using object_step [OF t, of "[w, x, y]" z] o(1) q by simp_all
  have 2: "T [w, x] \<noteq> None" "index_ok [w, x] y" using tables_parent [OF t, of "[w, x]" y] 3(1) by simp_all
  have 1: "T [w] \<noteq> None" "index_ok [w] x" using tables_parent [OF t, of "[w]" x] 2(1) by simp_all
  have 0: "index_ok [] w" using tables_parent [OF t, of "[]" w] 1(1) by simp
  have b: "w = 0" "x < 512" "y < 512" "z < 512" using 0 1(2) 2(2) 3(2) by (simp_all add: index_ok_def)
  define n where "n = x * 2 ^ 18 + y * 2 ^ 9 + z"
  have n: "n < 2 ^ 27" using b by (simp add: n_def)
  then have va: "PGSIZE * n < 2 ^ 39" by (simp add: PGSIZE_val)
  have "pg_no (PGSIZE * n) = n" by (simp add: pg_no_def PGSIZE_val)
  then have e: "PDPE (PGSIZE * n) * 2 ^ 18 + PDX (PGSIZE * n) * 2 ^ 9 + PTX (PGSIZE * n) = x * 2 ^ 18 + y * 2 ^ 9 + z"
    using page_indices [OF va] by (simp only: n_def)
  have "PDX (PGSIZE * n) < 512" "PTX (PGSIZE * n) < 512" by (simp_all add: PDX_def PTX_def)
  from digits_unique [OF e this b(3,4)] have "q = way (PGSIZE * n) @ [PTX (PGSIZE * n)]" by (simp add: q b(1))
  then show thesis by (rule that [OF n])
qed

lemma ptov_aligned: "pa mod PGSIZE = 0 \<Longrightarrow> ptov pa mod PGSIZE = 0"
  unfolding ptov_def PGSIZE_val mod_eq_0_iff_dvd by (rule dvd_mod) (simp_all add: KERN_BASE_def)

text \<open>What a page map occupies: its tables, and the frames of its pages.\<close>

definition frames :: "(nat \<rightharpoonup> frame) \<Rightarrow> addr set" where
  "frames A = (\<Union>f\<in>ran A. pages (kva f) 1)"

definition own_frames :: "memory \<Rightarrow> (nat \<rightharpoonup> frame) \<Rightarrow> bool" where
  "own_frames m A \<longleftrightarrow> frames A \<subseteq> taken (user_pool m) \<and> (\<forall>i j f g. A i = Some f \<longrightarrow> A j = Some g \<longrightarrow> kva f = kva g \<longrightarrow> i = j)"

lemma below_root:
  assumes t: "tables m root T"
  shows "below m T [] = table_pages T \<union> frames (mapping T m)"
proof (rule set_eqI)
  fix x
  show "x \<in> below m T [] \<longleftrightarrow> x \<in> table_pages T \<union> frames (mapping T m)"
  proof
    assume "x \<in> below m T []"
    then obtain q a where q: "object m T q = Some a" "x \<in> pages a 1" unfolding below_def by auto
    show "x \<in> table_pages T \<union> frames (mapping T m)"
    proof (cases "length q = 4")
      case True
      obtain n where n: "n < 2 ^ 27" "q = way (PGSIZE * n) @ [PTX (PGSIZE * n)]" by (rule frame_object [OF t _ True]) (use q in simp)
      then have "PGSIZE * n < 2 ^ 39" by (simp add: PGSIZE_val)
      then obtain f where "mapping T m (pg_no (PGSIZE * n)) = Some f" "kva f = a" using object_frame [OF t] q(1) n(2) by auto
      then show ?thesis using q(2) by (auto simp: frames_def ran_def)
    next
      case False
      then have "T q = Some a" using object_table [OF False] q(1) by simp
      then show ?thesis using table_pagesI [of T q a] q(2) by blast
    qed
  next
    assume "x \<in> table_pages T \<union> frames (mapping T m)"
    then consider p u where "T p = Some u" "x \<in> pages u 1" | n f where "mapping T m n = Some f" "x \<in> pages (kva f) 1"
      by (auto simp: frames_def ran_def elim!: table_pagesE)
    then have "\<exists>q a. object m T q = Some a \<and> x \<in> pages a 1"
    proof cases
      case 1
      then have "length p \<noteq> 4" using tablesD(1) [OF t 1(1)] by simp
      then show ?thesis using 1 object_table by metis
    next
      case 2
      then have n: "n < 2 ^ 27" by (simp add: mapping_def split: if_splits)
      then have "PGSIZE * n < 2 ^ 39" "pg_no (PGSIZE * n) = n" by (simp_all add: PGSIZE_val pg_no_def)
      then show ?thesis using object_frame [OF t, of "PGSIZE * n"] 2 by auto
    qed
    then show "x \<in> below m T []" unfolding below_def by simp
  qed
qed

lemma own_frames_apart:
  assumes p: "page_map s root T" and own: "own_frames (mem s) (mapping T (mem s))"
  shows "objects_apart (mem s) T" "table_pages T \<inter> frames (mapping T (mem s)) = {}"
proof -
  let ?m = "mem s" and ?A = "mapping T (mem s)"
  have t: "tables ?m root T" and pl: "pools ?m" using p by (simp_all add: page_map_def)
  have "taken (kernel_pool ?m) \<inter> taken (user_pool ?m) = {}" using pl by (auto simp: pools_def taken_def)
  then show d: "table_pages T \<inter> frames ?A = {}" using table_pages_taken [OF t] own unfolding own_frames_def by blast
  have frame: "\<exists>n f. n < 2 ^ 27 \<and> q = way (PGSIZE * n) @ [PTX (PGSIZE * n)] \<and> ?A n = Some f \<and> kva f = a"
    if o: "object ?m T q = Some a" "length q = 4" for q a
  proof -
    have "object ?m T q \<noteq> None" using o(1) by simp
    then obtain n where n: "n < 2 ^ 27" "q = way (PGSIZE * n) @ [PTX (PGSIZE * n)]" by (rule frame_object [OF t _ o(2)])
    then have "PGSIZE * n < 2 ^ 39" "pg_no (PGSIZE * n) = n" by (simp_all add: PGSIZE_val pg_no_def)
    then show ?thesis using object_frame [OF t, of "PGSIZE * n"] o(1) n by auto
  qed
  have mem_frames: "kva f \<in> frames ?A" if "?A n = Some f" for n f using that by (force simp: frames_def ran_def PGSIZE_val)
  have mem_tables: "u \<in> table_pages T" if "T q = Some u" for q u using table_pagesI [of T q u, OF that] by (auto simp: PGSIZE_val)
  have same: "p = q" if o: "object ?m T p = Some a" "object ?m T q = Some a" for p q a
  proof (cases "length p = 4"; cases "length q = 4")
    assume "length p = 4" "length q = 4"
    then show ?thesis using frame [OF o(1)] frame [OF o(2)] own unfolding own_frames_def by blast
  next
    assume "length p = 4" "length q \<noteq> 4"
    then show ?thesis using frame [OF o(1)] mem_frames mem_tables [of q a] o(2) d by (auto simp: object_table)
  next
    assume "length p \<noteq> 4" "length q = 4"
    then show ?thesis using frame [OF o(2)] mem_frames mem_tables [of p a] o(1) d by (auto simp: object_table)
  next
    assume "length p \<noteq> 4" "length q \<noteq> 4"
    then show ?thesis using tablesD(4) [OF t, of p a q] o by (simp add: object_table)
  qed
  have "a mod PGSIZE = 0" if o: "object ?m T p = Some a" for p a
  proof (cases "length p = 4")
    case True
    then obtain n f where "?A n = Some f" "kva f = a" using frame [OF o] by blast
    then show ?thesis using PTE_ADDR_aligned by (auto simp: mapping_def frame_of_def ptov_aligned split: if_splits)
  next
    case False
    then show ?thesis using tablesD(2) [OF t, of p a] o by (simp add: object_table table_page_def)
  qed
  then show "objects_apart ?m T" unfolding objects_apart_def using same by metis
qed

end
