(* ===== verification/PageTableProps.thy ===== *)
theory PageTableProps
  imports PageTableDestroy
begin

text \<open>
  The properties of the page tables: the operations refine a map from pages to frames (\<open>page_tables_refine\<close>), a page map that goes
  away gives back all it has (\<open>pml4_destroy_frees_all\<close>), and a flaw: clearing a flag may change the frame (\<open>clean_page_moves\<close>).
\<close>

subsection \<open>What a page map maps\<close>

text \<open>
  The frame of each page of the lower half, as the processor finds it: an entry of each of the four tables gives the next one. The
  physical memory is seen from \<open>KERN_BASE\<close> on.
\<close>

definition next_table :: "memory \<Rightarrow> addr \<Rightarrow> nat \<Rightarrow> addr option" where
  "next_table m t i = Option.bind (get64 m (t + 8 * i)) child"

definition translate :: "memory \<Rightarrow> addr \<Rightarrow> nat \<Rightarrow> 64 word option" where
  "translate m root n = do {
     pdpt \<leftarrow> next_table m root (n div 2 ^ 27);
     pd \<leftarrow> next_table m pdpt (n div 2 ^ 18 mod 512);
     pt \<leftarrow> next_table m pd (n div 2 ^ 9 mod 512);
     get64 m (pt + 8 * (n mod 512))
   }"

definition view :: "memory \<Rightarrow> addr \<Rightarrow> nat \<rightharpoonup> frame" where
  "view m root n = (if n < 2 ^ 27 then Option.bind (translate m root n) frame_of else None)"

lemma next_table_run: "tables m root T \<Longrightarrow> T p = Some t \<Longrightarrow> index_ok p i \<Longrightarrow> length p < 3 \<Longrightarrow> next_table m t i = T (p @ [i])"
  using tablesD(3) [of m root T p t i] by (auto simp: next_table_def)

lemma view_mapping:
  assumes "page_map s root T"
  shows "view (mem s) root = mapping T (mem s)"
proof
  fix n
  have t: "tables (mem s) root T" using assms by (simp add: page_map_def)
  show "view (mem s) root n = mapping T (mem s) n"
  proof (cases "n < 2 ^ 27")
    case True
    let ?a = "n div 2 ^ 18 mod 512" and ?b = "n div 2 ^ 9 mod 512" and ?c = "n mod 512"
    have x: "PDPE (PGSIZE * n) = ?a" "PDX (PGSIZE * n) = ?b" "PTX (PGSIZE * n) = ?c"
      using div_mult2_eq [of "4096 * n" 4096 "2 ^ 18"] div_mult2_eq [of "4096 * n" 4096 "2 ^ 9"]
      by (simp_all add: PDPE_def PDX_def PTX_def PGSIZE_val)
    have ok: "index_ok [] 0" "index_ok [0] ?a" "index_ok [0, ?a] ?b" by (simp_all add: index_ok_def)
    have step: "Option.bind (T p) (\<lambda>t. Option.bind (next_table (mem s) t i) f) = Option.bind (T (p @ [i])) f"
      if "index_ok p i" "length p < 3" for p i and f :: "addr \<Rightarrow> 64 word option"
      using next_table_run [OF t _ that] tables_parent [OF t, of p i] by (cases "T p"; cases "T (p @ [i])") auto
    have "translate (mem s) root n = Option.bind (T []) (\<lambda>t. Option.bind (next_table (mem s) t 0) (\<lambda>pdpt.
        Option.bind (next_table (mem s) pdpt ?a) (\<lambda>pd. Option.bind (next_table (mem s) pd ?b) (\<lambda>pt. get64 (mem s) (pt + 8 * ?c)))))"
      using True tables_root [OF t] by (simp add: translate_def)
    also have "\<dots> = Option.bind (T (way (PGSIZE * n))) (\<lambda>pt. get64 (mem s) (pt + 8 * ?c))"
      by (simp only: step [OF ok(1)] step [OF ok(2)] step [OF ok(3)] list.size append.simps x)
    finally have tr: "translate (mem s) root n = Option.bind (T (way (PGSIZE * n))) (\<lambda>pt. get64 (mem s) (pt + 8 * ?c))" .
    show ?thesis
    proof (cases "T (way (PGSIZE * n))")
      case None
      then show ?thesis using True tr by (simp add: view_def mapping_def leaf_def frame_of_def)
    next
      case (Some u)
      then show ?thesis using True tr leaf_entry [OF t Some] by (simp add: view_def mapping_def x)
    qed
  qed (simp add: view_def mapping_def)
qed

subsection \<open>Calls\<close>

datatype pt_call =
    GetPage addr | SetPage addr addr bool | ClearPage addr | IsDirty addr | SetDirty addr bool | IsAccessed addr | SetAccessed addr bool
  | Activate | NewFrame | Fill addr

text \<open>
  The functions of \<open>mmu.c\<close>, the request for a page of the user pool that comes before \<open>pml4_set_page\<close>, and a step of the processor:
  it keeps the entry of an address that it translates with the page map in use.
\<close>

definition tlb_fill :: "machine \<Rightarrow> addr \<Rightarrow> addr \<Rightarrow> machine option" where
  "tlb_fill s root va = (if cr3 s = root - KERN_BASE then do {
       (pte, _) \<leftarrow> pml4e_walk (mem s) root va False;
       if pte = NULL then Some s
       else do { e \<leftarrow> get64 (mem s) pte; Some (if e AND PTE_P \<noteq> 0 then s\<lparr>tlb := (va, e) # tlb s\<rparr> else s) }
     } else Some s)"

fun pt_do :: "machine \<Rightarrow> addr \<Rightarrow> pt_call \<Rightarrow> (nat \<times> machine) option" where
  "pt_do s root (GetPage va) = pml4_get_page s root va"
| "pt_do s root (SetPage u k rw) = map_option (\<lambda>(r, s). (of_bool r, s)) (pml4_set_page s root u k rw)"
| "pt_do s root (ClearPage u) = map_option (\<lambda>s. (0, s)) (pml4_clear_page s root u)"
| "pt_do s root (IsDirty va) = map_option (\<lambda>(r, s). (of_bool r, s)) (pml4_is_dirty s root va)"
| "pt_do s root (SetDirty va b) = map_option (\<lambda>s. (0, s)) (pml4_set_dirty s root va b)"
| "pt_do s root (IsAccessed va) = map_option (\<lambda>(r, s). (of_bool r, s)) (pml4_is_accessed s root va)"
| "pt_do s root (SetAccessed va b) = map_option (\<lambda>s. (0, s)) (pml4_set_accessed s root va b)"
| "pt_do s root Activate = map_option (\<lambda>s. (0, s)) (pml4_activate s root)"
| "pt_do s root NewFrame = map_option (\<lambda>(a, m). (a, s\<lparr>mem := m\<rparr>)) (palloc_get_page (mem s) (PAL_USER OR PAL_ZERO))"
| "pt_do s root (Fill va) = map_option (\<lambda>s. (0, s)) (tlb_fill s root va)"

text \<open>
  Addresses are those of the lower half. As the comments of the functions ask for, a page is mapped only when it is not mapped yet,
  and flags are those of mapped pages; their frames lie below 4 GiB.
\<close>

definition has_low_frame :: "(nat \<rightharpoonup> frame) \<Rightarrow> addr \<Rightarrow> bool" where
  "has_low_frame A va \<longleftrightarrow> (case A (pg_no va) of None \<Rightarrow> False | Some f \<Rightarrow> KERN_BASE \<le> kva f \<and> kva f < KERN_BASE + 2 ^ 32)"

fun pt_legal :: "(nat \<rightharpoonup> frame) \<Rightarrow> pt_call \<Rightarrow> bool" where
  "pt_legal A (GetPage va) = (va < 2 ^ 39)"
| "pt_legal A (SetPage u k rw) = (u < 2 ^ 39 \<and> pg_ofs u = 0 \<and> A (pg_no u) = None \<and> pg_ofs k = 0 \<and> KERN_BASE \<le> k \<and> k < 2 ^ 64)"
| "pt_legal A (ClearPage u) = (u < 2 ^ 39 \<and> pg_ofs u = 0)"
| "pt_legal A (IsDirty va) = (va < 2 ^ 39 \<and> A (pg_no va) \<noteq> None)"
| "pt_legal A (SetDirty va b) = (va < 2 ^ 39 \<and> has_low_frame A va)"
| "pt_legal A (IsAccessed va) = (va < 2 ^ 39 \<and> A (pg_no va) \<noteq> None)"
| "pt_legal A (SetAccessed va b) = (va < 2 ^ 39 \<and> has_low_frame A va)"
| "pt_legal A Activate = True"
| "pt_legal A NewFrame = True"
| "pt_legal A (Fill va) = (va < 2 ^ 39)"

fun pt_spec :: "memory \<Rightarrow> (nat \<rightharpoonup> frame) \<Rightarrow> pt_call \<Rightarrow> nat \<Rightarrow> memory \<Rightarrow> (nat \<rightharpoonup> frame) \<Rightarrow> bool" where
  "pt_spec m A (GetPage va) r m' A' \<longleftrightarrow> A' = A \<and> r = (case A (pg_no va) of None \<Rightarrow> NULL | Some f \<Rightarrow> kva f + pg_ofs va)"
| "pt_spec m A (SetPage u p rw) r m' A' \<longleftrightarrow> (if r = 0 then A' = A \<and> few (kernel_pool m) 2
     else A' = A(pg_no u \<mapsto> \<lparr>kva = p, writable = rw, accessed = False, dirty = False\<rparr>))"
| "pt_spec m A (ClearPage u) r m' A' \<longleftrightarrow> A' = A(pg_no u := None)"
| "pt_spec m A (IsDirty va) r m' A' \<longleftrightarrow> A' = A \<and> map_option dirty (A (pg_no va)) = Some (r \<noteq> 0)"
| "pt_spec m A (SetDirty va b) r m' A' \<longleftrightarrow> A' = A(pg_no va := map_option (dirty_update (\<lambda>_. b)) (A (pg_no va)))"
| "pt_spec m A (IsAccessed va) r m' A' \<longleftrightarrow> A' = A \<and> map_option accessed (A (pg_no va)) = Some (r \<noteq> 0)"
| "pt_spec m A (SetAccessed va b) r m' A' \<longleftrightarrow> A' = A(pg_no va := map_option (accessed_update (\<lambda>_. b)) (A (pg_no va)))"
| "pt_spec m A Activate r m' A' \<longleftrightarrow> A' = A"
| "pt_spec m A NewFrame r m' A' \<longleftrightarrow> A' = A \<and> (r = NULL \<longrightarrow> \<not> has_room (user_pool m) 1) \<and>
     (r \<noteq> NULL \<longrightarrow> r mod PGSIZE = 0 \<and> pages r 1 \<inter> in_use m = {} \<and> taken (user_pool m') = taken (user_pool m) \<union> pages r 1)"
| "pt_spec m A (Fill va) r m' A' \<longleftrightarrow> A' = A"

text \<open>
  What was made since \<open>s0\<close> is what the tables occupy, and frames; the page map has the entries of the kernel, and what was in use then
  has not changed.
\<close>

definition rest_kept :: "machine \<Rightarrow> addr \<Rightarrow> machine \<Rightarrow> bool" where
  "rest_kept s0 root s \<longleftrightarrow> (\<forall>i. 0 < i \<longrightarrow> i < 512 \<longrightarrow> get64 (mem s) (root + 8 * i) = get64 (mem s0) (base_pml4 s0 + 8 * i)) \<and>
     in_use (mem s0) \<subseteq> in_use (mem s) \<and> (\<forall>x\<in>in_use (mem s0). ram (mem s) x = ram (mem s0) x)"

definition since :: "machine \<Rightarrow> addr \<Rightarrow> machine \<Rightarrow> (nat list \<rightharpoonup> addr) \<Rightarrow> bool" where
  "since s0 root s T \<longleftrightarrow> rest_kept s0 root s \<and> pool_range (kernel_pool (mem s)) = pool_range (kernel_pool (mem s0)) \<and>
     pool_range (user_pool (mem s)) = pool_range (user_pool (mem s0)) \<and> base_pml4 s = base_pml4 s0 \<and>
     taken (kernel_pool (mem s)) = taken (kernel_pool (mem s0)) \<union> table_pages T \<and> in_use (mem s0) \<inter> table_pages T = {}"

lemma since_apart:
  assumes p: "pools (mem s)" and a: "apart root s T s' T'" and s: "since s0 root s T"
  shows "since s0 root s' T'"
proof -
  have g: "grow root (mem s) T (mem s') T'" and b: "base_pml4 s' = base_pml4 s" using a by (simp_all add: apart_def)
  note x = growD [OF g] and y = s [unfolded since_def rest_kept_def]
  have sub: "table_pages T \<subseteq> table_pages T'" by (rule table_pages_mono [OF x(2)])
  have user: "taken (user_pool (mem s)) \<inter> pool_range (kernel_pool (mem s)) = {}" using p by (auto simp: pools_def taken_def)
  have inside: "v \<notin> pool_range (kernel_pool (mem s)) \<or> v \<in> taken (kernel_pool (mem s)) - table_pages T" if v: "v \<in> in_use (mem s0)" for v
  proof -
    have "v \<in> in_use (mem s)" "v \<notin> table_pages T" using v y by blast+
    then show ?thesis using user unfolding in_use_def by blast
  qed
  have tp: "table_pages T' \<subseteq> pool_range (kernel_pool (mem s))" using x(5,6) by (auto simp: taken_def)
  have k: "taken (kernel_pool (mem s')) = taken (kernel_pool (mem s0)) \<union> table_pages T'" using x(6) y sub by blast
  have "ram (mem s') v = ram (mem s0) v" if "v \<in> in_use (mem s0)" for v using x(8) [OF inside [OF that]] y that by simp
  moreover have "v \<notin> table_pages T'" if "v \<in> in_use (mem s0)" for v using inside [OF that] x(7) tp by blast
  moreover have "in_use (mem s) \<subseteq> in_use (mem s')" using x(3,6) by (auto simp: in_use_def)
  moreover have "get64 (mem s') (root + 8 * i) = get64 (mem s0) (base_pml4 s0 + 8 * i)" if "0 < i" "i < 512" for i
    using x(9) [OF that] y that by simp
  ultimately show ?thesis unfolding since_def rest_kept_def using x(3,5) y k b by (intro conjI) auto
qed

text \<open>Each call does what the map says.\<close>

abbreviation pt_refines :: "addr \<Rightarrow> machine \<Rightarrow> (nat list \<rightharpoonup> addr) \<Rightarrow> pt_call \<Rightarrow> bool" where
  "pt_refines root s T c \<equiv> \<exists>r s' T'. pt_do s root c = Some (r, s') \<and> page_map s' root T' \<and> (\<forall>s0. since s0 root s T \<longrightarrow> since s0 root s' T') \<and>
     pt_spec (mem s) (mapping T (mem s)) c r (mem s') (mapping T' (mem s'))"

lemma low_frame_leaf:
  assumes "va < 2 ^ 39" "has_low_frame (mapping T m) va"
  obtains f where "mapping T m (pg_no va) = Some f" "frame_of (leaf T m va) = Some f" "PTE_ADDR (leaf T m va) < 2 ^ 32"
proof -
  obtain f where f: "mapping T m (pg_no va) = Some f" "KERN_BASE \<le> kva f" "kva f < KERN_BASE + 2 ^ 32"
    using assms(2) by (auto simp: has_low_frame_def split: option.splits)
  let ?e = "leaf T m va"
  have fr: "frame_of ?e = Some f" using f(1) mapping_leaf [OF assms(1), of T m] by simp
  have lt: "PTE_ADDR ?e < 2 ^ 64" unfolding PTE_ADDR_def using unsigned_less [of "?e AND NOT 0xFFF"] by simp
  have "kva f = ptov (PTE_ADDR ?e)" using fr by (auto simp: frame_of_def split: if_splits)
  then have "(PTE_ADDR ?e + KERN_BASE) mod 2 ^ 64 = kva f" by (simp add: ptov_def)
  then have "PTE_ADDR ?e < 2 ^ 32" using f(2,3) lt by (simp add: KERN_BASE_def mod_if split: if_splits)
  then show thesis using that f(1) fr by blast
qed

lemma put_flag_refines:
  assumes p: "page_map s root T" and va: "va < 2 ^ 39" and low: "has_low_frame (mapping T (mem s)) va"
    and set: "\<And>e f. frame_of e = Some f \<Longrightarrow> frame_of (e OR g) = Some (h True f)"
    and cleared: "\<And>e f. frame_of e = Some f \<Longrightarrow> frame_of (e AND NOT g) = Some (h False f)"
  shows "\<exists>s'. put_flag g s root va b = Some s' \<and> page_map s' root T \<and> apart root s T s' T \<and>
    mapping T (mem s') = (mapping T (mem s))(pg_no va := map_option (h b) (mapping T (mem s) (pg_no va)))"
proof -
  obtain f where f: "mapping T (mem s) (pg_no va) = Some f" "frame_of (leaf T (mem s) va) = Some f" "PTE_ADDR (leaf T (mem s) va) < 2 ^ 32"
    by (rule low_frame_leaf [OF va low])
  have "frame_of (if b then leaf T (mem s) va OR g else leaf T (mem s) va AND narrow_mask g) = Some (h b f)"
    using set [OF f(2)] cleared [OF f(2)] narrow_mask_low [OF f(3), of g] by (cases b) simp_all
  with put_flag_run [OF p va, of g b] f(1) show ?thesis by auto
qed

lemma fill_refines:
  assumes p: "page_map s root T" and va: "va < 2 ^ 39"
  shows "\<exists>s'. tlb_fill s root va = Some s' \<and> page_map s' root T \<and> mem s' = mem s \<and> base_pml4 s' = base_pml4 s"
proof (cases "cr3 s = root - KERN_BASE")
  case False
  then show ?thesis using p by (simp add: tlb_fill_def)
next
  case c: True
  show ?thesis
    using p va
  proof (cases rule: find_leaf)
    case none
    then show ?thesis using p by (simp add: tlb_fill_def)
  next
    case (slot t)
    let ?e = "leaf T (mem s) va"
    have "fresh_tlb (s\<lparr>tlb := (va, ?e) # tlb s\<rparr>) root T" if "?e AND PTE_P \<noteq> 0"
      using p that by (auto simp: page_map_def fresh_tlb_def)
    then show ?thesis using p slot c by (simp add: tlb_fill_def page_map_def)
  qed
qed

lemma activate_refines:
  assumes p: "page_map s root T"
  shows "\<exists>s'. pml4_activate s root = Some s' \<and> page_map s' root T \<and> mem s' = mem s \<and> base_pml4 s' = base_pml4 s"
proof -
  have "root \<noteq> NULL" "is_kernel_vaddr root" using root_page(1) [OF p] by (simp_all add: is_kernel_vaddr_def KERN_BASE_def)
  then show ?thesis using p by (simp add: pml4_activate_def vtop_def lcr3_def page_map_def fresh_tlb_def)
qed

lemma refines_apart:
  assumes p: "page_map s root T" and r: "pt_do s root c = Some (r, s')" "page_map s' root T'" "apart root s T s' T'"
    and sp: "pt_spec (mem s) (mapping T (mem s)) c r (mem s') (mapping T' (mem s'))"
  shows "pt_refines root s T c"
proof -
  have "pools (mem s)" using p by (simp add: page_map_def)
  then show ?thesis using r sp since_apart [OF _ r(3)] by blast
qed

text \<open>A page of the user pool that is handed out does not touch the tables.\<close>

lemma tables_other:
  assumes t: "tables m root T" and k: "kernel_pool m' = kernel_pool m" and r: "\<forall>x\<in>taken (kernel_pool m). ram m' x = ram m x"
  shows "tables m' root T" "leaf T m' va = leaf T m va" "T p = Some u \<Longrightarrow> i < 512 \<Longrightarrow> get64 m' (u + 8 * i) = get64 m (u + 8 * i)"
proof -
  have same: "get64 m' (u + 8 * i) = get64 m (u + 8 * i)" if u: "T p = Some u" "i < 512" for p u i
  proof (rule get64_ram)
    fix x assume "u + 8 * i \<le> x" "x < u + 8 * i + 8"
    then have "x \<in> pages u 1" using slot_in_page [OF u(2), of u] by auto
    then have "x \<in> taken (kernel_pool m)" using tablesD(2) [OF t u(1)] unfolding table_page_def by blast
    then show "ram m' x = ram m x" using r by blast
  qed
  then show "T p = Some u \<Longrightarrow> i < 512 \<Longrightarrow> get64 m' (u + 8 * i) = get64 m (u + 8 * i)" .
  show "tables m' root T" unfolding tables_def
  proof (intro conjI allI impI)
    show "T [] = Some root" by (rule tables_root [OF t])
    fix q u assume q: "T q = Some u"
    show "length q \<le> 3" by (rule tablesD(1) [OF t q])
    show "table_page m' u" using tablesD(2) [OF t q] by (simp add: table_page_def k)
  next
    fix q j assume "T (q @ [j]) \<noteq> None"
    then show "T q \<noteq> None" "index_ok q j" using tables_parent [OF t, of q j] by auto
  next
    fix q q' u assume "T q = Some u" "T q' = Some u"
    then show "q = q'" using tablesD(4) [OF t] by auto
  next
    fix q u j assume q: "T q = Some u" and j: "index_ok q j"
    then show "\<exists>e. get64 m' (u + 8 * j) = Some e \<and> (length q < 3 \<longrightarrow> T (q @ [j]) = child e)"
      using tablesD(3) [OF t q j] same [OF q] by (simp add: index_ok_def)
  qed
  show "leaf T m' va = leaf T m va" using same [of "way va" _ "PTX va"] by (auto simp: leaf_def PTX_def split: option.split)
qed

lemma frame_refines:
  assumes p: "page_map s root T"
  shows "pt_refines root s T NewFrame"
proof -
  have t: "tables (mem s) root T" and pl: "pools (mem s)" and b: "root \<noteq> base_pml4 s" and fr: "fresh_tlb s root T"
    using p by (simp_all add: page_map_def)
  have wf: "pool_wf (pool_of (mem s) True)" "True \<longleftrightarrow> (PAL_USER OR PAL_ZERO) AND PAL_USER \<noteq> 0"
    using pl by (simp_all add: pools_def PAL_USER_def PAL_ZERO_def)
  show ?thesis
    using wf
  proof (cases rule: palloc_get [where n = 1])
    case (found a p')
    let ?m = "memset (set_pool (mem s) True p') a 0 PGSIZE"
    have run: "pt_do s root NewFrame = Some (a, s\<lparr>mem := ?m\<rparr>)"
      using found(3) by (simp add: palloc_get_page_def Let_def PAL_USER_def PAL_ZERO_def)
    have g: "a mod PGSIZE = 0" "0 < a" "pages a 1 \<inter> taken (user_pool (mem s)) = {}" "pages a 1 \<subseteq> pool_range (user_pool (mem s))"
      "pool_wf p'" "pool_range p' = pool_range (user_pool (mem s))" "taken p' = taken (user_pool (mem s)) \<union> pages a 1"
      using found(1) by (simp_all add: got_def)
    have k: "kernel_pool ?m = kernel_pool (mem s)" "user_pool ?m = p'" by (simp_all add: memset_def set_pool_def)
    have ak: "pages a 1 \<inter> taken (kernel_pool (mem s)) = {}" using g(4) pl by (auto simp: pools_def taken_def)
    have ram: "ram ?m x = ram (mem s) x" if "x \<notin> pages a 1" for x using that by (auto simp: memset_def write_bytes_def)
    have rk: "\<forall>x\<in>taken (kernel_pool (mem s)). ram ?m x = ram (mem s) x" using ram ak by blast
    note o = tables_other [OF t k(1) rk]
    have "pools ?m" using pl g(5,6) by (simp add: pools_def k)
    then have "page_map (s\<lparr>mem := ?m\<rparr>) root T" using o(1,2) b fr by (simp add: page_map_def fresh_tlb_def)
    moreover have mp: "mapping T ?m = mapping T (mem s)" by (rule HOL.ext) (simp add: mapping_def o(2))
    moreover have "since s0 root (s\<lparr>mem := ?m\<rparr>) T" if s: "since s0 root s T" for s0
    proof -
      have "pages a 1 \<inter> in_use (mem s) = {}" using ak g(3) by (auto simp: in_use_def)
      moreover have "in_use (mem s) \<subseteq> in_use ?m" using g(7) by (auto simp: in_use_def k)
      moreover have "get64 ?m (root + 8 * i) = get64 (mem s) (root + 8 * i)" if "i < 512" for i using o(3) [OF tables_root [OF t] that] .
      moreover have "in_use (mem s0) \<subseteq> in_use (mem s)" using s by (simp add: since_def rest_kept_def)
      moreover have "\<forall>x\<in>in_use (mem s0). ram ?m x = ram (mem s) x"
      proof
        fix x assume "x \<in> in_use (mem s0)"
        then have "x \<notin> pages a 1" using calculation by blast
        then show "ram ?m x = ram (mem s) x" by (rule ram)
      qed
      ultimately show ?thesis using s g(6) unfolding since_def rest_kept_def by (auto simp: k)
    qed
    moreover have "pages a 1 \<inter> in_use (mem s) = {}" using ak g(3) by (auto simp: in_use_def)
    ultimately show ?thesis using run g(1,2,7) by (intro exI [of _ a] exI [of _ "s\<lparr>mem := ?m\<rparr>"] exI [of _ T]) (simp add: k)
  next
    case full
    have "pt_do s root NewFrame = Some (NULL, s)"
      using full(2) by (simp add: palloc_get_page_def PAL_USER_def PAL_ZERO_def PAL_ASSERT_def)
    then show ?thesis using p full(1) by (intro exI [of _ NULL] exI [of _ s] exI [of _ T]) simp
  qed
qed

lemma pt_call_refines:
  assumes p: "page_map s root T" and l: "pt_legal (mapping T (mem s)) c"
  shows "pt_refines root s T c"
proof (cases c)
  case (GetPage va)
  show ?thesis unfolding GetPage
    by (rule refines_apart [OF p _ p apart_refl [OF p]]) (use get_page_run [OF p, of va] l in \<open>simp_all add: GetPage\<close>)
next
  case (SetPage u k rw)
  then have h: "u < 2 ^ 39" "pg_ofs u = 0" "pg_ofs k = 0" "KERN_BASE \<le> k" "k < 2 ^ 64" "mapping T (mem s) (pg_no u) = None" using l by simp_all
  obtain r s' T' where r: "pml4_set_page s root u k rw = Some (r, s')" "page_map s' root T'" "apart root s T s' T'"
    "if r then mapping T' (mem s') = (mapping T (mem s))(pg_no u \<mapsto> \<lparr>kva = k, writable = rw, accessed = False, dirty = False\<rparr>)
     else mapping T' (mem s') = mapping T (mem s) \<and> few (kernel_pool (mem s)) 2"
    using set_page_run [OF p h] by blast
  show ?thesis unfolding SetPage
    by (rule refines_apart [OF p _ r(2,3), of _ "of_bool r"]) (use r(1,4) in simp_all)
next
  case (ClearPage u)
  then have "u < 2 ^ 39" "pg_ofs u = 0" using l by simp_all
  from clear_page_run [OF p this] obtain s' where r: "pml4_clear_page s root u = Some s'" "page_map s' root T" "apart root s T s' T"
    "mapping T (mem s') = (mapping T (mem s))(pg_no u := None)" by blast
  show ?thesis unfolding ClearPage by (rule refines_apart [OF p _ r(2,3), of _ 0]) (use r(1,4) in simp_all)
next
  case (IsDirty va)
  then have va: "va < 2 ^ 39" and f: "mapping T (mem s) (pg_no va) \<noteq> None" using l by simp_all
  show ?thesis unfolding IsDirty
    by (rule refines_apart [OF p _ p apart_refl [OF p], of _ "of_bool (leaf T (mem s) va AND PTE_D \<noteq> 0)"])
      (use has_flag_run [OF p va, of PTE_D] f mapping_leaf [OF va, of T "mem s"] in \<open>auto simp: pml4_is_dirty_def frame_of_def split: if_splits\<close>)
next
  case (SetDirty va b)
  then have "va < 2 ^ 39" "has_low_frame (mapping T (mem s)) va" using l by simp_all
  from put_flag_refines [OF p this, of PTE_D "\<lambda>b. dirty_update (\<lambda>_. b)" b]
  obtain s' where r: "put_flag PTE_D s root va b = Some s'" "page_map s' root T" "apart root s T s' T"
    "mapping T (mem s') = (mapping T (mem s))(pg_no va := map_option (dirty_update (\<lambda>_. b)) (mapping T (mem s) (pg_no va)))"
    by (auto simp: frame_flag_set frame_flag_cleared)
  show ?thesis unfolding SetDirty by (rule refines_apart [OF p _ r(2,3), of _ 0]) (use r(1,4) in \<open>simp_all add: pml4_set_dirty_def\<close>)
next
  case (IsAccessed va)
  then have va: "va < 2 ^ 39" and f: "mapping T (mem s) (pg_no va) \<noteq> None" using l by simp_all
  show ?thesis unfolding IsAccessed
    by (rule refines_apart [OF p _ p apart_refl [OF p], of _ "of_bool (leaf T (mem s) va AND PTE_A \<noteq> 0)"])
      (use has_flag_run [OF p va, of PTE_A] f mapping_leaf [OF va, of T "mem s"] in \<open>auto simp: pml4_is_accessed_def frame_of_def split: if_splits\<close>)
next
  case (SetAccessed va b)
  then have "va < 2 ^ 39" "has_low_frame (mapping T (mem s)) va" using l by simp_all
  from put_flag_refines [OF p this, of PTE_A "\<lambda>b. accessed_update (\<lambda>_. b)" b]
  obtain s' where r: "put_flag PTE_A s root va b = Some s'" "page_map s' root T" "apart root s T s' T"
    "mapping T (mem s') = (mapping T (mem s))(pg_no va := map_option (accessed_update (\<lambda>_. b)) (mapping T (mem s) (pg_no va)))"
    by (auto simp: frame_flag_set frame_flag_cleared)
  show ?thesis unfolding SetAccessed by (rule refines_apart [OF p _ r(2,3), of _ 0]) (use r(1,4) in \<open>simp_all add: pml4_set_accessed_def\<close>)
next
  case Activate
  obtain s' where r: "pml4_activate s root = Some s'" "page_map s' root T" "mem s' = mem s" "base_pml4 s' = base_pml4 s"
    using activate_refines [OF p] by blast
  have a: "apart root s T s' T" using apart_refl [OF p] r(3,4) by (simp add: apart_def)
  show ?thesis unfolding Activate by (rule refines_apart [OF p _ r(2) a, of _ 0]) (use r in simp_all)
next
  case NewFrame
  then show ?thesis using frame_refines [OF p] by simp
next
  case (Fill va)
  then have "va < 2 ^ 39" using l by simp
  then obtain s' where r: "tlb_fill s root va = Some s'" "page_map s' root T" "mem s' = mem s" "base_pml4 s' = base_pml4 s"
    using fill_refines [OF p] by blast
  have a: "apart root s T s' T" using apart_refl [OF p] r(3,4) by (simp add: apart_def)
  show ?thesis unfolding Fill by (rule refines_apart [OF p _ r(2) a, of _ 0]) (use r in simp_all)
qed

subsection \<open>From the creation on\<close>

text \<open>
  Before a page map is made: the page map of the kernel is there, without an entry for users, and the page map in use is a page that
  is in use.
\<close>

definition kernel_ready :: "machine \<Rightarrow> bool" where
  "kernel_ready s \<longleftrightarrow> pools (mem s) \<and> table_page (mem s) (base_pml4 s) \<and> (\<exists>e. get64 (mem s) (base_pml4 s) = Some e \<and> e AND PTE_P = 0) \<and>
     cr3 s + KERN_BASE \<in> taken (kernel_pool (mem s))"

inductive page_map_reached :: "machine \<Rightarrow> addr \<Rightarrow> machine \<Rightarrow> bool" for s0 root where
  made: "pml4_create s0 = Some (root, s) \<Longrightarrow> root \<noteq> NULL \<Longrightarrow> page_map_reached s0 root s"
| called: "page_map_reached s0 root s \<Longrightarrow> pt_legal (view (mem s) root) c \<Longrightarrow> pt_do s root c = Some (r, s') \<Longrightarrow> page_map_reached s0 root s'"

lemma get64_move:
  assumes "\<And>i. i < 8 \<Longrightarrow> ram m' (a + i) = ram m (b + i)"
  shows "get64 m' a = get64 m b"
proof -
  have "map (ram m') [a..<a + 8] = map (ram m) [b..<b + 8]" by (rule nth_equalityI) (simp_all add: assms)
  then show ?thesis by (simp only: get64_def)
qed

lemma create_run:
  assumes r: "kernel_ready s0" and c: "pml4_create s0 = Some (root, s)" and nn: "root \<noteq> NULL"
  shows "page_map s root [[] \<mapsto> root]" "since s0 root s [[] \<mapsto> root]" "mapping [[] \<mapsto> root] (mem s) = Map.empty"
    "\<And>i. i < 512 \<Longrightarrow> get64 (mem s) (root + 8 * i) = get64 (mem s0) (base_pml4 s0 + 8 * i)"
proof -
  let ?b = "base_pml4 s0"
  have pl: "pools (mem s0)" and b: "table_page (mem s0) ?b" using r by (simp_all add: kernel_ready_def)
  obtain e where e: "get64 (mem s0) ?b = Some e" "e AND PTE_P = 0" using r by (auto simp: kernel_ready_def)
  have wf: "pool_wf (pool_of (mem s0) False)" "False \<longleftrightarrow> (0 :: 32 word) AND PAL_USER \<noteq> 0" using pl by (simp_all add: pools_def)
  obtain k' where g: "got (kernel_pool (mem s0)) k' root 1" and s: "s = s0\<lparr>mem := memcpy (set_pool (mem s0) False k') root ?b PGSIZE\<rparr>"
    using wf
  proof (cases rule: palloc_get [where n = 1])
    case (found a k')
    then have "a = root" "s = s0\<lparr>mem := memcpy (set_pool (mem s0) False k') root ?b PGSIZE\<rparr>"
      using c nn by (auto simp: pml4_create_def palloc_get_page_def Let_def)
    then show thesis using found(1) by (intro that) simp_all
  next
    case full
    then show thesis using c nn by (simp add: pml4_create_def palloc_get_page_def)
  qed
  have gr: "root mod PGSIZE = 0" "pages root 1 \<inter> taken (kernel_pool (mem s0)) = {}" "taken k' = taken (kernel_pool (mem s0)) \<union> pages root 1"
    "pool_wf k'" "pool_range k' = pool_range (kernel_pool (mem s0))" "pages root 1 \<subseteq> pool_range (kernel_pool (mem s0))"
    using g unfolding got_def by simp_all
  have k: "kernel_pool (mem s) = k'" "user_pool (mem s) = user_pool (mem s0)" "base_pml4 s = ?b" "cr3 s = cr3 s0"
    by (simp_all add: s memcpy_def set_pool_def)
  have in_root: "root \<in> pages root 1" "root + (PGSIZE - 1) \<in> pages root 1" by (simp_all add: PGSIZE_val)
  have ne: "?b \<noteq> root"
  proof
    assume "?b = root"
    then have "pages root 1 \<subseteq> taken (kernel_pool (mem s0))" using b unfolding table_page_def by simp
    then show False using in_root(1) gr(2) by blast
  qed
  have base: "KERN_BASE \<le> root" using in_root(1) gr(6) pl unfolding pools_def by blast
  have "root + (PGSIZE - 1) \<in> pool_range (kernel_pool (mem s0))" using in_root(2) gr(6) by blast
  then have "root + (PGSIZE - 1) < 2 ^ 64" using pl unfolding pools_def pool_wf_def pool_range_def by fastforce
  then have top: "root + PGSIZE \<le> 2 ^ 64" by (simp add: PGSIZE_val)
  have copy: "get64 (mem s) (root + 8 * i) = get64 (mem s0) (?b + 8 * i)" if "i < 512" for i
    by (rule get64_move) (use that in \<open>simp add: s memcpy_def write_bytes_def PGSIZE_val add.assoc\<close>)
  then show "\<And>i. i < 512 \<Longrightarrow> get64 (mem s) (root + 8 * i) = get64 (mem s0) (?b + 8 * i)" .
  have e0: "get64 (mem s) root = Some e" using copy [of 0] e by simp
  have t: "tables (mem s) root [[] \<mapsto> root]"
    unfolding tables_def using e0 e(2) gr(1,3) base top by (auto simp: table_page_def k index_ok_def child_def)
  have tp: "table_pages [[] \<mapsto> root] = pages root 1" by (simp add: table_pages_def)
  have pl': "pools (mem s)" using pl gr(4,5) by (simp add: pools_def k)
  have "cr3 s \<noteq> root - KERN_BASE"
  proof
    assume "cr3 s = root - KERN_BASE"
    then have "root \<in> taken (kernel_pool (mem s0))" using r base by (simp add: kernel_ready_def k)
    then show False using gr(2) in_root(1) by blast
  qed
  then show "page_map s root [[] \<mapsto> root]" using t pl' ne by (simp add: page_map_def fresh_tlb_def k)
  have "taken (user_pool (mem s0)) \<inter> pages root 1 = {}" using gr(6) pl by (auto simp: pools_def taken_def)
  then have d: "in_use (mem s0) \<inter> pages root 1 = {}" using gr(2) by (auto simp: in_use_def)
  have "ram (mem s) x = ram (mem s0) x" if x: "x \<in> in_use (mem s0)" for x
  proof -
    have "x \<notin> pages root 1" using x d by blast
    then show ?thesis by (auto simp: s memcpy_def write_bytes_def)
  qed
  moreover have "in_use (mem s0) \<subseteq> in_use (mem s)" using gr(3) by (auto simp: in_use_def k)
  ultimately show "since s0 root s [[] \<mapsto> root]" using gr(3,5) tp d copy by (simp add: since_def rest_kept_def k)
  show "mapping [[] \<mapsto> root] (mem s) = Map.empty" by (rule ext) (simp add: mapping_def leaf_def frame_of_def)
qed

lemma page_map_reached_inv:
  assumes "page_map_reached s0 root s" "kernel_ready s0"
  shows "\<exists>T. page_map s root T \<and> since s0 root s T"
  using assms
proof (induction rule: page_map_reached.induct)
  case (made s)
  from create_run(1,2) [OF made(3,1,2)] show ?case by blast
next
  case (called s c r s')
  then obtain T where T: "page_map s root T" "since s0 root s T" by blast
  have "pt_legal (mapping T (mem s)) c" using called.hyps(2) by (simp add: view_mapping [OF T(1)])
  from pt_call_refines [OF T(1) this] called.hyps(3) T(2) show ?case by auto
qed

text \<open>The entries that the processor keeps for the page map are up to date.\<close>

definition tlb_fresh :: "machine \<Rightarrow> addr \<Rightarrow> bool" where
  "tlb_fresh s root \<longleftrightarrow> (cr3 s = root - KERN_BASE \<longrightarrow>
     (\<forall>(va, e)\<in>set (tlb s). va < 2 ^ 39 \<longrightarrow> frame_of e \<noteq> None \<and> frame_of e = view (mem s) root (pg_no va)))"

lemma tlb_fresh_inv:
  assumes p: "page_map s root T"
  shows "tlb_fresh s root"
proof -
  have f: "fresh_tlb s root T" using p by (simp add: page_map_def)
  have "frame_of e \<noteq> None \<and> frame_of e = view (mem s) root (pg_no va)"
    if "cr3 s = root - KERN_BASE" "(va, e) \<in> set (tlb s)" "va < 2 ^ 39" for va e
  proof -
    have "leaf T (mem s) va = e" "e AND PTE_P \<noteq> 0" using f that by (auto simp: fresh_tlb_def)
    then show ?thesis by (simp add: view_mapping [OF p] mapping_leaf [OF that(3)] frame_of_def)
  qed
  then show ?thesis by (auto simp: tlb_fresh_def)
qed

text \<open>Only \<open>pml4_activate\<close> loads \<open>cr3\<close>.\<close>

lemma flush_page_cr3: "flush_page s root va = Some s' \<Longrightarrow> cr3 s' = cr3 s"
  by (auto simp: flush_page_def invlpg_def bind_eq_Some_conv)

lemma pt_do_cr3:
  assumes "pt_do s root c = Some (r, s')" "root \<noteq> NULL"
  shows "cr3 s' = (if c = Activate then root - KERN_BASE else cr3 s)"
proof (cases c)
  case (SetPage u k rw)
  then show ?thesis using assms by (auto simp: pml4_set_page_def assert_that_def bind_eq_Some_conv split: if_splits)
next
  case (ClearPage u)
  then show ?thesis using assms by (auto simp: pml4_clear_page_def assert_that_def bind_eq_Some_conv Let_def dest!: flush_page_cr3 split: if_splits)
next
  case (SetDirty va b)
  then show ?thesis using assms by (auto simp: pml4_set_dirty_def put_flag_def bind_eq_Some_conv Let_def dest!: flush_page_cr3 split: if_splits)
next
  case (SetAccessed va b)
  then show ?thesis using assms by (auto simp: pml4_set_accessed_def put_flag_def bind_eq_Some_conv Let_def dest!: flush_page_cr3 split: if_splits)
next
  case Activate
  then show ?thesis using assms by (auto simp: pml4_activate_def lcr3_def vtop_def assert_that_def bind_eq_Some_conv split: if_splits)
qed (use assms in \<open>auto simp: pml4_get_page_def pml4_is_dirty_def pml4_is_accessed_def has_flag_def tlb_fill_def assert_that_def
    bind_eq_Some_conv Let_def split: if_splits\<close>)

subsection \<open>Properties\<close>

text \<open>C10: From the creation of a page map on, whatever legal calls are made, a call of the functions of \<open>mmu.c\<close> returns and does
  what the map from pages to frames says, where the map is what the processor finds in the tables; a page is not mapped only when the
  kernel pool is down to two free pages. \<open>pml4_activate\<close>, and no other call, loads \<open>cr3\<close>, and the processor never has an entry that is out of date for the page map in use. The page map
  keeps the entries of the kernel, and nothing that was in use before the page map was made is changed or freed.\<close>

theorem page_tables_refine:
  assumes "kernel_ready s0" "page_map_reached s0 root s" "pt_legal (view (mem s) root) c"
  shows "\<exists>r s'. pt_do s root c = Some (r, s') \<and> pt_spec (mem s) (view (mem s) root) c r (mem s') (view (mem s') root) \<and>
    cr3 s' = (if c = Activate then root - KERN_BASE else cr3 s) \<and> tlb_fresh s' root \<and> rest_kept s0 root s'"
proof -
  obtain T where T: "page_map s root T" "since s0 root s T" using page_map_reached_inv [OF assms(2,1)] by blast
  have "pt_legal (mapping T (mem s)) c" using assms(3) by (simp add: view_mapping [OF T(1)])
  from pt_call_refines [OF T(1) this] obtain r s' T' where r: "pt_do s root c = Some (r, s')" "page_map s' root T'"
    "since s0 root s' T'" "pt_spec (mem s) (mapping T (mem s)) c r (mem s') (mapping T' (mem s'))" using T(2) by blast
  have "root \<noteq> NULL" using T(1) tables_root tablesD(2) by (fastforce simp: page_map_def table_page_def KERN_BASE_def)
  then show ?thesis using r view_mapping [OF T(1)] view_mapping [OF r(2)] tlb_fresh_inv [OF r(2)] pt_do_cr3 [OF r(1)] by (auto simp: since_def)
qed

text \<open>C37: When a page map goes away whose frames are pages of the user pool that are mapped only once, all of its tables and frames are
  freed, and nothing else: the kernel pool is what it was before the page map was made, and the memory still in use is not changed.\<close>

theorem pml4_destroy_frees_all:
  assumes "kernel_ready s0" "page_map_reached s0 root s" "own_frames (mem s) (view (mem s) root)"
  shows "\<exists>s'. pml4_destroy s root = Some s' \<and> taken (kernel_pool (mem s')) = taken (kernel_pool (mem s0)) \<and>
    taken (user_pool (mem s')) = taken (user_pool (mem s)) - frames (view (mem s) root) \<and> (\<forall>x\<in>in_use (mem s'). ram (mem s') x = ram (mem s) x)"
proof -
  obtain T where T: "page_map s root T" "since s0 root s T" using page_map_reached_inv [OF assms(2,1)] by blast
  have own: "own_frames (mem s) (mapping T (mem s))" using assms(3) by (simp add: view_mapping [OF T(1)])
  note ap = own_frames_apart [OF T(1) own]
  have t: "tables (mem s) root T" and pl: "pools (mem s)" using T(1) by (simp_all add: page_map_def)
  let ?F = "frames (mapping T (mem s))"
  note b = below_root [OF t]
  have F: "?F \<subseteq> taken (user_pool (mem s))" using own by (simp add: own_frames_def)
  have tp: "table_pages T \<subseteq> taken (kernel_pool (mem s))" by (rule table_pages_taken [OF t])
  have d: "taken (kernel_pool (mem s)) \<inter> taken (user_pool (mem s)) = {}" using pl by (auto simp: pools_def taken_def)
  have "below (mem s) T [] \<subseteq> in_use (mem s)" unfolding b in_use_def using F tp by blast
  from pml4_destroy_run [OF T(1) ap(1) this] obtain s' where s': "pml4_destroy s root = Some s'" "frees (mem s) (table_pages T \<union> ?F) (mem s')"
    unfolding b by blast
  have k: "taken (kernel_pool (mem s)) = taken (kernel_pool (mem s0)) \<union> table_pages T" "taken (kernel_pool (mem s0)) \<inter> table_pages T = {}"
    using T(2) by (auto simp: since_def in_use_def)
  have "taken (kernel_pool (mem s')) = taken (kernel_pool (mem s0))" using s'(2) k F d by (auto simp: frees_def)
  moreover have "taken (user_pool (mem s')) = taken (user_pool (mem s)) - ?F" using s'(2) tp d by (auto simp: frees_def)
  moreover have "\<forall>x\<in>in_use (mem s'). ram (mem s') x = ram (mem s) x" using s'(2) by (auto simp: frees_def in_use_def)
  ultimately show ?thesis using s'(1) view_mapping [OF T(1)] by (intro exI [of _ s']) simp
qed

text \<open>
  A dirty or accessed flag is taken away with a mask of 32 bits: a page whose frame lies at 4 GiB or above gets another frame, without an
  error.
\<close>

lemma clean_page_moves:
  assumes "kernel_ready s0" "page_map_reached s0 root s" "va < 2 ^ 39" "view (mem s) root (pg_no va) = Some f" "KERN_BASE + 2 ^ 32 \<le> kva f"
    and g: "g \<in> {PTE_A, PTE_D}"
  shows "\<exists>s' f'. put_flag g s root va False = Some s' \<and> view (mem s') root (pg_no va) = Some f' \<and> kva f' \<noteq> kva f"
proof -
  obtain T where T: "page_map s root T" using page_map_reached_inv [OF assms(2,1)] by blast
  let ?e = "leaf T (mem s) va"
  have f: "mapping T (mem s) (pg_no va) = Some f" using assms(4) by (simp add: view_mapping [OF T])
  then have pr: "?e AND PTE_P \<noteq> 0" using mapping_leaf [OF assms(3), of T "mem s"] by (auto simp: frame_of_def split: if_splits)
  have gf: "g AND NOT 0xFFF = 0" "g AND PTE_P = 0" using g by (auto simp: PTE_A_def PTE_D_def PTE_P_def)
  obtain s' where s': "put_flag g s root va False = Some s'" "page_map s' root T"
    "mapping T (mem s') = (mapping T (mem s))(pg_no va := frame_of (?e AND narrow_mask g))"
    using put_flag_run [OF T assms(3), of g False] f by auto
  obtain f' where f': "frame_of (?e AND narrow_mask g) = Some f'" "kva f' = ptov (PTE_ADDR ?e mod 2 ^ 32)"
    using pr narrow_mask_present [OF gf(2), of ?e] narrow_mask_high [OF gf(1), of ?e] by (simp add: frame_of_def)
  have "kva f' < KERN_BASE + 2 ^ 32" unfolding f'(2) ptov_def KERN_BASE_def
    using mod_less_divisor [of "2 ^ 32" "PTE_ADDR ?e"] by (simp add: mod_less)
  then show ?thesis using s' f'(1) assms(5) by (intro exI [of _ s'] exI [of _ f']) (simp add: view_mapping [OF s'(2)])
qed

subsection \<open>An example\<close>

text \<open>A kernel pool of 16 pages, of which the first holds the page map of the kernel, and a user pool with one page in use.\<close>

definition demo :: machine where
  "demo = \<lparr>mem = \<lparr>kernel_pool = \<lparr>used_map = \<lparr>bit_cnt = 16, bits = [1]\<rparr>, base = KERN_BASE\<rparr>,
       user_pool = \<lparr>used_map = \<lparr>bit_cnt = 2, bits = [1]\<rparr>, base = KERN_BASE + 2 ^ 20\<rparr>, ram = (\<lambda>_. Some 0), arenas = Map.empty, descs = []\<rparr>,
     base_pml4 = KERN_BASE, cr3 = 0, tlb = []\<rparr>"

abbreviation demo_frame :: addr where "demo_frame \<equiv> KERN_BASE + 2 ^ 20"

lemma first_bit: "bm_list \<lparr>bit_cnt = n, bits = [1]\<rparr> ! i \<longleftrightarrow> i = 0" if "i < n" "n \<le> 64" for i n
  using that by (simp add: bm_list_def bm_bit_def bit_1_iff)

lemma demo_taken:
  "taken (kernel_pool (mem demo)) = pages KERN_BASE 1" "taken (user_pool (mem demo)) = pages demo_frame 1"
  "pool_range (kernel_pool (mem demo)) = pages KERN_BASE 16" "pool_range (user_pool (mem demo)) = pages demo_frame 2"
proof -
  have one: "taken \<lparr>used_map = \<lparr>bit_cnt = n, bits = [1]\<rparr>, base = b\<rparr> = pages b 1" if n: "0 < n" "n \<le> 64" for n b
  proof (rule set_eqI)
    fix x
    show "x \<in> taken \<lparr>used_map = \<lparr>bit_cnt = n, bits = [1]\<rparr>, base = b\<rparr> \<longleftrightarrow> x \<in> pages b 1"
    proof (cases "b \<le> x \<and> x < b + PGSIZE * n")
      case True
      then have "(x - b) div PGSIZE < n" by (auto simp: page_index [symmetric])
      then show ?thesis using True first_bit [of "(x - b) div PGSIZE" n] n
        by (auto simp: taken_def pool_range_def div_eq_0_iff PGSIZE_val)
    next
      case False
      moreover have "x \<in> pages b 1 \<Longrightarrow> x < b + PGSIZE * n" using n by (simp add: PGSIZE_val)
      ultimately show ?thesis by (auto simp: taken_def pool_range_def)
    qed
  qed
  show "taken (kernel_pool (mem demo)) = pages KERN_BASE 1" "taken (user_pool (mem demo)) = pages demo_frame 1"
    "pool_range (kernel_pool (mem demo)) = pages KERN_BASE 16" "pool_range (user_pool (mem demo)) = pages demo_frame 2"
    using one by (simp_all add: demo_def pool_range_def)
qed

lemma demo_ready: "kernel_ready demo"
proof -
  have "pool_wf (kernel_pool (mem demo))" "pool_wf (user_pool (mem demo))"
    by (simp_all add: demo_def pool_wf_def bm_wf_def elem_cnt_def ELEM_BITS_def PGSIZE_val KERN_BASE_def)
  then have "pools (mem demo)" unfolding pools_def demo_taken by (auto simp: PGSIZE_val)
  moreover have "table_page (mem demo) (base_pml4 demo)"
    unfolding table_page_def demo_taken by (simp add: demo_def PGSIZE_val KERN_BASE_def)
  moreover have "get64 (mem demo) (base_pml4 demo) = Some 0" by (rule get64_zero) (simp add: demo_def)
  moreover have "cr3 demo + KERN_BASE \<in> taken (kernel_pool (mem demo))" unfolding demo_taken by (simp add: demo_def PGSIZE_val)
  ultimately show ?thesis by (simp add: kernel_ready_def)
qed

lemma demo_created: "\<exists>root s. pml4_create demo = Some (root, s) \<and> root \<noteq> NULL \<and> \<not> few (kernel_pool (mem s)) 2"
proof -
  let ?k = "kernel_pool (mem demo)"
  have wf: "pool_wf (pool_of (mem demo) False)" "False \<longleftrightarrow> (0 :: 32 word) AND PAL_USER \<noteq> 0"
    using demo_ready by (simp_all add: kernel_ready_def pools_def)
  show ?thesis
    using wf
  proof (cases rule: palloc_get [where n = 1])
    case (found a p')
    have g: "0 < a" "pool_range p' = pool_range ?k" "taken p' = taken ?k \<union> pages a 1" using found(1) by (simp_all add: got_def)
    have "\<not> few p' 2"
    proof
      assume "few p' 2"
      then obtain A where A: "finite A" "card A \<le> 2" "pool_range p' - taken p' \<subseteq> (\<Union>a\<in>A. pages a 1)" by (auto simp: few_def)
      then have sub: "pages KERN_BASE 16 \<subseteq> (\<Union>a\<in>A \<union> {KERN_BASE, a}. pages a 1)" unfolding g(2,3) demo_taken by blast
      let ?B = "A \<union> {KERN_BASE, a}"
      have "card ?B \<le> card A + card {KERN_BASE, a}" by (rule card_Un_le)
      moreover have "card {KERN_BASE, a} \<le> 2" by (simp add: card_insert_if)
      ultimately have "card ?B \<le> 4" using A(2) by simp
      have "card (pages KERN_BASE 16) \<le> card (\<Union>a\<in>?B. pages a 1)" by (rule card_mono [OF _ sub]) (simp add: A(1))
      also have "\<dots> \<le> (\<Sum>a\<in>?B. card (pages a 1))" by (rule card_UN_le) (simp add: A(1))
      also have "\<dots> = card ?B * PGSIZE" by simp
      finally show False using \<open>card ?B \<le> 4\<close> by (simp add: PGSIZE_val)
    qed
    moreover have "kernel_pool (memcpy (set_pool (mem demo) False p') a (base_pml4 demo) PGSIZE) = p'" by (simp add: memcpy_def set_pool_def)
    ultimately show ?thesis using found(3) g(1) by (simp add: pml4_create_def palloc_get_page_def Let_def)
  next
    case full
    have "1 + 1 \<le> bit_cnt (used_map ?k) \<and> pages (base ?k + PGSIZE * 1) 1 \<inter> taken ?k = {}"
      unfolding demo_taken by (auto simp: demo_def PGSIZE_val)
    then have "has_room ?k 1" unfolding has_room_def by blast
    then show ?thesis using full(1) by simp
  qed
qed

abbreviation demo_call :: pt_call where "demo_call \<equiv> SetPage 0x8048000 demo_frame True"

lemma demo_legal: "pt_legal Map.empty demo_call"
  by (simp add: pg_ofs_def PGSIZE_val KERN_BASE_def)

lemma page_tables_refine_witness:
  "\<exists>root s r s'. page_map_reached demo root s \<and> pt_do s root demo_call = Some (r, s') \<and>
     view (mem s') root 0x8048 = Some \<lparr>kva = demo_frame, writable = True, accessed = False, dirty = False\<rparr> \<and> rest_kept demo root s'"
proof -
  obtain root s where c: "pml4_create demo = Some (root, s)" "root \<noteq> NULL" "\<not> few (kernel_pool (mem s)) 2" using demo_created by blast
  note m = create_run [OF demo_ready c(1,2)]
  have v: "view (mem s) root = Map.empty" using view_mapping [OF m(1)] m(3) by simp
  have reached: "page_map_reached demo root s" by (rule made [OF c(1,2)])
  obtain r s' where r: "pt_do s root demo_call = Some (r, s')" "pt_spec (mem s) (view (mem s) root) demo_call r (mem s') (view (mem s') root)"
    "rest_kept demo root s'" using page_tables_refine [OF demo_ready reached demo_legal [folded v]] by blast
  from r(2) c(3) have "view (mem s') root 0x8048 = Some \<lparr>kva = demo_frame, writable = True, accessed = False, dirty = False\<rparr>"
    by (simp only: v pt_spec.simps) (simp add: pg_no_def PGSIZE_val split: if_splits)
  then show ?thesis using reached r(1,3) by blast
qed

lemma demo_mapped: "\<exists>root s. page_map_reached demo root s \<and> view (mem s) root = [0x8048 \<mapsto> \<lparr>kva = demo_frame, writable = True, accessed = False, dirty = False\<rparr>]"
proof -
  obtain root s where c: "pml4_create demo = Some (root, s)" "root \<noteq> NULL" "\<not> few (kernel_pool (mem s)) 2" using demo_created by blast
  note m = create_run [OF demo_ready c(1,2)]
  have v: "view (mem s) root = Map.empty" using view_mapping [OF m(1)] m(3) by simp
  obtain r s' T where r: "pt_do s root demo_call = Some (r, s')" "page_map s' root T" "pt_spec (mem s) Map.empty demo_call r (mem s') (mapping T (mem s'))"
    using pt_call_refines [OF m(1), of demo_call] demo_legal m(3) by auto
  have "page_map_reached demo root s'" by (rule called [OF made [OF c(1,2)] _ r(1)]) (simp only: v demo_legal)
  moreover have "view (mem s') root = [0x8048 \<mapsto> \<lparr>kva = demo_frame, writable = True, accessed = False, dirty = False\<rparr>]"
    using r(3) c(3) by (simp only: view_mapping [OF r(2)] pt_spec.simps) (simp add: pg_no_def PGSIZE_val split: if_splits)
  ultimately show ?thesis by blast
qed

lemma pml4_destroy_witness:
  "\<exists>root s s'. page_map_reached demo root s \<and> demo_frame \<in> taken (user_pool (mem s)) \<and> pml4_destroy s root = Some s' \<and>
     taken (kernel_pool (mem s')) = taken (kernel_pool (mem demo)) \<and> demo_frame \<notin> taken (user_pool (mem s'))"
proof -
  obtain root s where s: "page_map_reached demo root s" "view (mem s) root = [0x8048 \<mapsto> \<lparr>kva = demo_frame, writable = True, accessed = False, dirty = False\<rparr>]"
    using demo_mapped by blast
  have fr: "frames (view (mem s) root) = pages demo_frame 1" by (simp add: s(2) frames_def)
  obtain T where T: "since demo root s T" using page_map_reached_inv [OF s(1) demo_ready] by blast
  have "pages demo_frame 1 \<subseteq> in_use (mem s)" using T demo_taken(2) by (auto simp: since_def rest_kept_def in_use_def)
  moreover have "pages demo_frame 1 \<inter> taken (kernel_pool (mem s)) = {}"
  proof -
    have "taken (kernel_pool (mem s)) \<subseteq> pages KERN_BASE 16" using T demo_taken(3) by (auto simp: since_def taken_def)
    moreover have "pages demo_frame 1 \<inter> pages KERN_BASE 16 = {}" by (auto simp: PGSIZE_val)
    ultimately show ?thesis by blast
  qed
  ultimately have sub: "pages demo_frame 1 \<subseteq> taken (user_pool (mem s))" by (auto simp: in_use_def)
  have own: "own_frames (mem s) (view (mem s) root)" unfolding own_frames_def fr using sub by (simp add: s(2))
  have "demo_frame \<in> pages demo_frame 1" by (simp add: PGSIZE_val)
  then show ?thesis using pml4_destroy_frees_all [OF demo_ready s(1) own] s(1) sub unfolding fr by blast
qed

end
