(* ===== verification/RandomBytes.thy ===== *)
theory RandomBytes
  imports Prelude "HOL-Library.Word" "HOL-Library.Multiset"
begin

text \<open>
  The pseudo-random numbers of \<open>pintos/lib/random.c\<close>: the stream cipher RC4, on bytes. The box is an array of 256 bytes; an access
  outside yields \<open>None\<close>. The bytes of the seed and of an \<open>unsigned long\<close> are in the order of the processor, the lowest first.
\<close>

record prng =
  s_box :: "8 word list"
  s_i :: "8 word"
  s_j :: "8 word"
  inited :: bool

definition byte_at :: "8 word list \<Rightarrow> nat \<Rightarrow> 8 word option" where
  "byte_at s i = (if i < length s then Some (s ! i) else None)"

definition swap_byte :: "8 word list \<Rightarrow> nat \<Rightarrow> nat \<Rightarrow> 8 word list option" where
  "swap_byte s a b = do {
     t \<leftarrow> byte_at s a;
     u \<leftarrow> byte_at s b;
     Some (s[a := u, b := t])
   }"

definition seed_byte :: "32 word \<Rightarrow> nat \<Rightarrow> 8 word" where
  "seed_byte seed k = ucast (drop_bit (8 * k) seed)"

text \<open>The loop over \<open>i\<close> that mixes the seed into the box; \<open>n\<close> rounds are left.\<close>

primrec mix_loop :: "32 word \<Rightarrow> nat \<Rightarrow> nat \<Rightarrow> 8 word \<Rightarrow> 8 word list \<Rightarrow> 8 word list option" where
  "mix_loop seed 0 i j s = Some s"
| "mix_loop seed (Suc n) i j s = do {
     x \<leftarrow> byte_at s i;
     let j = j + (x + seed_byte seed (i mod 4));
     s \<leftarrow> swap_byte s i (unat j);
     mix_loop seed n (i + 1) j s
   }"

definition random_init :: "32 word \<Rightarrow> prng option" where
  "random_init seed = do {
     s \<leftarrow> mix_loop seed 256 0 0 (map word_of_nat [0..<256]);
     Some \<lparr>s_box = s, s_i = 0, s_j = 0, inited = True\<rparr>
   }"

primrec bytes_loop :: "nat \<Rightarrow> prng \<Rightarrow> (8 word list \<times> prng) option" where
  "bytes_loop 0 g = Some ([], g)"
| "bytes_loop (Suc n) g = do {
     let i = s_i g + 1;
     x \<leftarrow> byte_at (s_box g) (unat i);
     let j = s_j g + x;
     s \<leftarrow> swap_byte (s_box g) (unat i) (unat j);
     x \<leftarrow> byte_at s (unat i);
     y \<leftarrow> byte_at s (unat j);
     b \<leftarrow> byte_at s (unat (x + y));
     (bs, g) \<leftarrow> bytes_loop n (g\<lparr>s_box := s, s_i := i, s_j := j\<rparr>);
     Some (b # bs, g)
   }"

definition random_bytes :: "prng \<Rightarrow> nat \<Rightarrow> (8 word list \<times> prng) option" where
  "random_bytes g n = do {
     g \<leftarrow> (if \<not> inited g then random_init 0 else Some g);
     bytes_loop n g
   }"

definition random_ulong :: "prng \<Rightarrow> (64 word \<times> prng) option" where
  "random_ulong g = do {
     (bs, g) \<leftarrow> random_bytes g 8;
     Some (word_rcat (rev bs), g)
   }"

subsection \<open>The box stays a permutation of the bytes\<close>

definition bytes_once :: "8 word list \<Rightarrow> bool" where
  "bytes_once s \<longleftrightarrow> length s = 256 \<and> mset s = mset (map word_of_nat [0..<256])"

lemma byte_lt: "unat (x :: 8 word) < 256"
  using unsigned_less [of x] by simp

lemma swap_once:
  assumes "bytes_once s" "a < 256" "b < 256"
  shows "\<exists>s'. swap_byte s a b = Some s' \<and> bytes_once s'"
proof -
  have l: "a < length s" "b < length s" using assms by (simp_all add: bytes_once_def)
  have "mset (s[a := s ! b, b := s ! a]) = mset s" by (rule mset_swap [OF l(2,1), unfolded, simplified]) 
  then show ?thesis using assms l by (simp add: swap_byte_def byte_at_def bytes_once_def)
qed

lemma mix_once: "bytes_once s \<Longrightarrow> i + n \<le> 256 \<Longrightarrow> \<exists>s'. mix_loop seed n i j s = Some s' \<and> bytes_once s'"
proof (induction n arbitrary: i j s)
  case (Suc n)
  have i: "i < 256" using Suc.prems by simp
  let ?j = "j + (s ! i + seed_byte seed (i mod 4))"
  obtain s1 where s1: "swap_byte s i (unat ?j) = Some s1" "bytes_once s1" using swap_once [OF Suc.prems(1) i byte_lt] by blast
  have "\<exists>s'. mix_loop seed n (i + 1) ?j s1 = Some s' \<and> bytes_once s'" by (rule Suc.IH [OF s1(2)]) (use Suc.prems in simp)
  then show ?case using s1 i Suc.prems(1) by (simp add: byte_at_def bytes_once_def Let_def)
qed simp

lemma random_init_once: "\<exists>g. random_init seed = Some g \<and> inited g \<and> bytes_once (s_box g)"
proof -
  have "\<exists>s. mix_loop seed 256 0 0 (map word_of_nat [0..<256]) = Some s \<and> bytes_once s" by (rule mix_once) (simp_all add: bytes_once_def)
  then show ?thesis by (auto simp: random_init_def)
qed

lemma bytes_loop_once:
  "bytes_once (s_box g) \<Longrightarrow> \<exists>bs g'. bytes_loop n g = Some (bs, g') \<and> length bs = n \<and> bytes_once (s_box g') \<and> inited g' = inited g"
proof (induction n arbitrary: g)
  case (Suc n)
  let ?i = "s_i g + 1"
  let ?j = "s_j g + s_box g ! unat ?i"
  obtain s where s: "swap_byte (s_box g) (unat ?i) (unat ?j) = Some s" "bytes_once s" using swap_once [OF Suc.prems byte_lt byte_lt] by blast
  have at: "bytes_once t \<Longrightarrow> byte_at t (unat x) = Some (t ! unat x)" for t and x :: "8 word"
    using byte_lt [of x] by (simp add: byte_at_def bytes_once_def)
  have "\<exists>bs g'. bytes_loop n (g\<lparr>s_box := s, s_i := ?i, s_j := ?j\<rparr>) = Some (bs, g') \<and> length bs = n \<and> bytes_once (s_box g') \<and>
      inited g' = inited (g\<lparr>s_box := s, s_i := ?i, s_j := ?j\<rparr>)"
    by (rule Suc.IH) (simp add: s)
  then show ?case using s at [OF Suc.prems] at [OF s(2)] by (auto simp: Let_def)
qed simp

lemma bytes_loop_add:
  "bytes_loop (n + k) g = Option.bind (bytes_loop n g) (\<lambda>(bs, g). map_option (\<lambda>(cs, g). (bs @ cs, g)) (bytes_loop k g))"
proof (induction n arbitrary: g)
  case 0
  then show ?case by (cases "bytes_loop k g") auto
next
  case (Suc n)
  have "Option.bind (map_option (\<lambda>a. (bs @ fst a, snd a)) x) (\<lambda>(bs, g). Some (b # bs, g)) = map_option (\<lambda>a. (b # bs @ fst a, snd a)) x"
    for b and bs :: "8 word list" and x :: "(8 word list \<times> prng) option" by (cases x) auto
  then show ?case
    by (simp add: Suc.IH Let_def bind_assoc case_prod_beta map_option_bind option.map_comp comp_def)
qed

text \<open>Whatever the seed was and however many bytes were drawn, the box holds every byte once, so no access leaves it;
  \<open>random_bytes\<close> returns as many bytes as asked for, and drawing bytes in two calls gives the same bytes and the same state as one call.\<close>

theorem random_bytes_correct:
  assumes "inited g \<longrightarrow> bytes_once (s_box g)"
  shows "\<exists>bs g'. random_bytes g n = Some (bs, g') \<and> length bs = n \<and> inited g' \<and> bytes_once (s_box g') \<and>
    random_bytes g (n + k) = map_option (\<lambda>(cs, g''). (bs @ cs, g'')) (random_bytes g' k)"
proof -
  obtain g0 where g0: "(if \<not> inited g then random_init 0 else Some g) = Some g0" "inited g0" "bytes_once (s_box g0)"
    using random_init_once [of 0] assms by (cases "inited g") auto
  obtain bs g' where r: "bytes_loop n g0 = Some (bs, g')" "length bs = n" "bytes_once (s_box g')" "inited g' = inited g0"
    using bytes_loop_once [OF g0(3)] by blast
  then show ?thesis using g0 bytes_loop_add [of n k g0] by (auto simp: random_bytes_def)
qed

lemma random_bytes_witness:
  "\<exists>g bs g'. random_init 42 = Some g \<and> random_bytes g 5 = Some (bs, g') \<and> length bs = 5 \<and>
     random_bytes g (5 + 3) = map_option (\<lambda>(cs, g''). (bs @ cs, g'')) (random_bytes g' 3)"
  using random_init_once [of 42] random_bytes_correct by blast

end
