(* ===== verification/Spec2Isabelle.thy ===== *)
theory Spec2Isabelle
  imports RBProps PListProps Bitmap CString Arith64 HashTable Stdlib Stdio LockExclusion MallocRun FilesysProps ListExercises TreeExercises RioProps ProxyProps
    KAllocProps PageTableProps RandomBytes
begin

text \<open>
  A verification of the C programs of the repository: the red-black tree of \<open>rbtree-lab\<close>, the heap allocator of
  \<open>malloc-lab\<close>, the kernel library, threads and file system of \<open>pintos_22.04_lab_docker/pintos\<close> (\<open>pintos\<close> in
  what follows), the lists, stacks, queues and trees of \<open>Data-Structures\<close>, and the caching proxy of \<open>webproxy-lab\<close>
  with the robust I/O package it is built on.

  \<^bold>\<open>How the code is modelled.\<close> Every C function is a function of the same name that takes the state and returns the
  new one. A result of type \<open>option\<close> is \<open>None\<close> where the code dereferences a pointer that is not that of a live
  object, leaves an array, fails an assertion, panics or has undefined behaviour, so a theorem that an operation
  returns \<open>Some\<close> says that none of this happens. A pointer is a natural number and 0 the null pointer
  (\<open>Prelude\<close>). Unsigned integers are words of their width, or numbers with the modulus written out; signed ones are
  words read with \<open>sint\<close>, or integers with a check of the range. In a few
  places a number has not the width of the code: a signed overflow in \<open>atoi\<close>, and in the width, the precision and the
  length counter of \<open>vprintf\<close>, wraps on words, where the code is undefined, and the offsets in a directory and the number
  of elements of a hash table have no bound. A loop is a function by recursion on the data, a
  function with a termination proof, or a \<open>partial_function\<close>, for which the theorems say that it returns. Function
  pointers and the answers of code outside the repository are arguments.

  \<^bold>\<open>The parts.\<close>

  \<^item> \<open>rbtree-lab/src/rbtree.c\<close>. \<open>RBTree\<close>: nodes on a heap with the sentinel, the rotations, insertion, deletion, search,
    extrema, conversion to an array, release. \<open>RBZip\<close>: the relation between the heap and trees with a focus.
    \<open>RBInsert\<close>, \<open>RBErase\<close>, \<open>RBFixup\<close>: insertion and deletion with their repairs; \<open>RBQuery\<close>: the read-only
    operations and the locale \<open>sorted_bag\<close> of what a user of the tree relies on; \<open>RBProps\<close>: the properties. The
    repair after a deletion is right when it never enters the case in which the code tests the wrong node;
    \<open>rbtree_erase_breaks_tree\<close> is a run of the public operations that breaks the tree.

  \<^item> \<open>pintos/lib/kernel/list.c\<close>. \<open>PList\<close>: the doubly linked list between two sentinels, as a heap of links, and the
    relation \<open>dll\<close> to the list of its elements; \<open>PListSort\<close>: \<open>list_splice\<close> and the natural merge sort, refined to a
    merge sort of Isabelle lists; \<open>PListProps\<close>: the locale \<open>kernel_queue\<close> of what the scheduler and the semaphores
    rely on, interpreted on the list, and the properties. Later theories use lists of addresses for these lists.

  \<^item> \<open>pintos/lib/kernel/bitmap.c\<close> (\<open>Bitmap\<close>), on 64-bit elements, against a list of bits; \<open>pintos/lib/kernel/hash.c\<close>
    (\<open>HashTable\<close>), with the hash and order functions of the user as the locale \<open>hash_user\<close>, interpreted on
    \<open>hash_int\<close>, against a finite map; \<open>pintos/lib/string.c\<close> (\<open>CString\<close>) on bytes of memory; \<open>pintos/lib/arithmetic.c\<close>
    (\<open>Arith64\<close>), the 64-bit division from a 64-by-32-bit instruction; \<open>pintos/lib/stdlib.c\<close> (\<open>Stdlib\<close>): \<open>atoi\<close>, the heap
    sort and the binary search over the memory, with the comparison function as the locales \<open>comparison\<close> and
    \<open>array_comparison\<close>; \<open>pintos/lib/stdio.c\<close> (\<open>Stdio\<close>): the interpreter of formats and \<open>vsnprintf\<close>.

  \<^item> \<open>pintos/threads/thread.c\<close> and \<open>synch.c\<close> (\<open>Threads\<close>, \<open>ThreadsWf\<close>, \<open>LockExclusion\<close>): threads that execute lists of
    instructions, the round-robin scheduler, semaphores, locks and condition variables. \<open>kstep\<close> is one instruction of the
    current thread or a timer interrupt; \<open>reachable\<close> holds of the states that runs lead to, and \<open>lock_run\<close> also
    collects who acquires and releases a lock.

  \<^item> \<open>pintos/threads/palloc.c\<close> and \<open>malloc.c\<close>. \<open>KAlloc\<close>: the page allocator, whose pools are bitmaps of \<open>Bitmap\<close>, and the
    block allocator on top of it, which cuts pages into blocks of seven sizes. Memory is bytes, with the headers of the
    arenas as records and the free lists as lists of addresses. \<open>KAllocPages\<close>: a pool as the set of its bytes;
    \<open>KAllocInv\<close>: the regions in use are apart, and the free lists hold the blocks that the headers count;
    \<open>KAllocOps\<close>, \<open>KAllocCalls\<close>, \<open>KAllocMalloc\<close>: what a call does to the areas of the users (\<open>areas\<close>) and their bytes
    (\<open>keeps\<close>); \<open>KAllocProps\<close>: calls of users of both allocators refine a map from addresses to contents.

  \<^item> \<open>pintos/threads/mmu.c\<close>. \<open>PageTable\<close>: the page tables in four levels, in pages of the kernel pool of \<open>KAlloc\<close> with entries of
    eight bytes, the register \<open>cr3\<close>, and the entries that the processor keeps. \<open>PageTableInv\<close>: the tables as a map from paths of
    indices to pages (\<open>tables\<close>), and what a walk may change (\<open>grow\<close>); \<open>PageTableWalk\<close>: the three walks, which make tables and take
    them back when memory is short; \<open>PageTableOps\<close>: each operation on the map from pages to frames; \<open>PageTableDestroy\<close>: what the
    four loops free; \<open>PageTableProps\<close>: the properties. Addresses are those below \<open>2 ^ 39\<close>, which entry 0 of the page map serves, and
    flags are changed of pages whose frame is below 4 GiB; \<open>clean_page_moves\<close> shows what happens above. The functions that apply
    a function to all entries are modelled without a theorem.

  \<^item> \<open>pintos/lib/random.c\<close> (\<open>RandomBytes\<close>): the generator of random numbers, whose box stays a permutation of the bytes.

  \<^item> \<open>malloc-lab/mm.c\<close> and \<open>memlib.c\<close>. \<open>Malloc\<close>: the allocator on the bytes of the heap; \<open>MallocInv\<close>: blocks tile the heap
    and the free list is a doubly linked list through the free ones; \<open>MallocOps\<close>, \<open>MallocProps\<close>, \<open>MallocRealloc\<close>: what
    each operation does to the blocks; \<open>MallocSpec\<close>: the abstract heap, a map from the addresses of the blocks of the
    user to their sizes; \<open>MallocRun\<close>: runs of a user (\<open>heap_run\<close>) and the properties.

  \<^item> \<open>pintos/filesys\<close>. \<open>Inode\<close>: the disk, inodes, open files and the free map, which is kept in a file of its own and
    uses \<open>Bitmap\<close>; \<open>Directory\<close>: directories and the interface \<open>filesys.c\<close>, in the configuration without \<open>EFILESYS\<close>.
    \<open>InodeProps\<close>: an inode as the list of its bytes; \<open>DirectoryProps\<close>: a directory as a map; \<open>FilesysProps\<close>: the
    properties.

  \<^item> \<open>Data-Structures/tests/linked_list.c\<close>, \<open>stack.c\<close> and \<open>queue.c\<close>. The exercises share these files, which also hold
    the solutions. \<open>LinkedList\<close>: the lists and the exercises on them; \<open>LinkedListInv\<close>, \<open>LinkedListProps\<close>: \<open>stores m T\<close>,
    which says that the memory holds the lists of \<open>T\<close> apart from each other, and each function as a function of lists;
    \<open>StackQueue\<close>: stacks, queues and the exercises on them; \<open>StackQueueProps\<close>: the locales \<open>container\<close> (what comes out
    after something was put in), \<open>copying\<close> and \<open>transfer\<close>, each interpreted on the stack and the queue; \<open>Brackets\<close>: the
    grammar of balanced brackets; \<open>ListExercises\<close>: the properties.

  \<^item> \<open>Data-Structures/tests/binary_tree.c\<close> and \<open>binary_search_tree.c\<close>. \<open>BinTree\<close>: the trees, the stack and the queue of
    nodes, and the exercises on them; \<open>BinTreeInv\<close>: trees on the heap as trees of Isabelle; \<open>BinTreeOps\<close>,
    \<open>SearchTree\<close>: the functions that compute, print or change a tree; \<open>Traversals\<close>, \<open>LevelOrder\<close>: the loops over a
    stack or a queue return and print the nodes in their order; \<open>TreeExercises\<close>: the properties.

  \<^item> \<open>webproxy-lab/csapp.c\<close> and \<open>proxy.c\<close>. The system calls are an argument, the record \<open>os\<close> of functions over a state
    of the outside; what they promise is stated over a \<open>view\<close> of that state, the bytes that will arrive and those that
    were sent. \<open>Rio\<close>: buffered and unbuffered reading and writing; \<open>RioStream\<close>: the promises, the locale
    \<open>byte_stream\<close> and its interpretation on \<open>rio_read\<close>; \<open>RioProps\<close>: the properties, and \<open>net_os\<close>, system calls that
    keep the promises. \<open>Proxy\<close>: the handler of a request and the cache; \<open>ProxyCache\<close>: the cache as a list of items;
    \<open>ProxySession\<close>: connections and the phases of the handler; \<open>ProxyProps\<close>: the properties. The loop over the headers
    of a request is made of rounds (\<open>header_round\<close>), so that a loop whose rounds all return but that does not end is told
    apart from one that fails. Requests are handled one after the other.

  \<^bold>\<open>Findings.\<close> Several theorems show what the code does where a comment or its purpose says
  otherwise: a broken deletion of red-black trees, a first insertion through a null root, a remainder cut to 32 bits,
  reads behind the end of a string in \<open>strnlen\<close> and \<open>vprintf\<close>, a block too small for its
  links in the allocator, a directory entry that is written over when memory is short, a kernel allocation of nearly
  \<open>2 ^ 64\<close> bytes that succeeds, a dirty flag whose clearing moves a page, a list that loses its last node when its odd items move to the back, and
  a proxy that never returns from a client that closes early and exits when an origin cannot be reached.

  \<^bold>\<open>Not modelled.\<close> Device drivers, boot code (with the part of \<open>palloc.c\<close> that reads
  the memory map) and interrupt entry work on ports and registers. The user program loader, the virtual
  memory and the \<open>EFILESYS\<close> file system are skeletons whose bodies are still to be written, as are those
  of the exercise programs of \<open>Data-Structures\<close>, whose menus read the console; their solutions in
  \<open>tests\<close> are modelled. Of \<open>csapp.c\<close>, the functions that wrap one system call each are left
  aside. The main loops of the servers accept connections for ever, and the small servers beside the proxy are
  exercises in these calls. The test programs and drivers, the files that CMake generates and the vendored test
  framework are no code of the programs.
\<close>

end
